(* ===== verification/Prelude.thy ===== *)
theory Prelude imports Main "HOL-Library.Word" "HOL-Library.Monad_Syntax" begin

text \<open>
  Shared vocabulary of the development: the machine integer types of the kernel, the reading of
  \<^emph>\<open>undefined behaviour\<close> as the value \<open>None\<close>, array reads and writes that are checked against the
  array's bounds, and the generic lemmas on words, lists and options that the component theories
  use.

  The C++ sources read and write arrays without a bounds check.  Where an index can leave the
  array the model does not invent a value: \<open>arr_get\<close> and \<open>arr_set\<close> return \<open>None\<close>, the whole
  operation then returns \<open>None\<close>, and the safety theorems prove that this does not happen.
\<close>

unbundle bit_operations_syntax

type_synonym u8 = "8 word"
type_synonym u16 = "16 word"
type_synonym u32 = "32 word"
type_synonym u64 = "64 word"

named_theorems ub_simps "checked array accesses"
named_theorems inv_intros "introduction rules of the component invariants"

section \<open>Checked arrays\<close>

definition arr_get :: "'a list \<Rightarrow> nat \<Rightarrow> 'a option" where
  "arr_get xs i = (if i < length xs then Some (xs ! i) else None)"

definition arr_set :: "'a list \<Rightarrow> nat \<Rightarrow> 'a \<Rightarrow> 'a list option" where
  "arr_set xs i v = (if i < length xs then Some (xs[i := v]) else None)"

lemma arr_get_in [simp, ub_simps]: "i < length xs \<Longrightarrow> arr_get xs i = Some (xs ! i)"
  by (simp add: arr_get_def)

lemma arr_set_in [simp, ub_simps]: "i < length xs \<Longrightarrow> arr_set xs i v = Some (xs[i := v])"
  by (simp add: arr_set_def)

lemma arr_get_out [simp, ub_simps]: "length xs \<le> i \<Longrightarrow> arr_get xs i = None"
  by (simp add: arr_get_def)

lemma arr_set_out [simp, ub_simps]: "length xs \<le> i \<Longrightarrow> arr_set xs i v = None"
  by (simp add: arr_set_def)

lemma arr_get_Some_iff: "arr_get xs i = Some x \<longleftrightarrow> i < length xs \<and> x = xs ! i"
  by (auto simp: arr_get_def)

lemma arr_set_Some_iff: "arr_set xs i v = Some ys \<longleftrightarrow> i < length xs \<and> ys = xs[i := v]"
  by (auto simp: arr_set_def)

lemma arr_set_length: "arr_set xs i v = Some ys \<Longrightarrow> length ys = length xs"
  by (auto simp: arr_set_Some_iff)

section \<open>Loops over a list of indices\<close>

text \<open>
  \<open>for_each body xs s\<close> is the loop \<^verbatim>\<open>for (x : xs) body\<close> over the state \<open>s\<close>; it stops with \<open>None\<close> as
  soon as an iteration does something undefined.
\<close>

fun for_each :: "('a \<Rightarrow> 's \<Rightarrow> 's option) \<Rightarrow> 'a list \<Rightarrow> 's \<Rightarrow> 's option" where
  "for_each body [] s = Some s"
| "for_each body (x # xs) s = (case body x s of None \<Rightarrow> None | Some s' \<Rightarrow> for_each body xs s')"

lemma for_each_append [simp]:
  "for_each body (xs @ ys) s =
     (case for_each body xs s of None \<Rightarrow> None | Some s' \<Rightarrow> for_each body ys s')"
  by (induction xs arbitrary: s) (auto split: option.splits)

lemma for_each_inv:
  assumes "P s"
    and "\<And>x s. x \<in> set xs \<Longrightarrow> P s \<Longrightarrow> \<exists>s'. body x s = Some s' \<and> P s'"
  shows "\<exists>s'. for_each body xs s = Some s' \<and> P s'"
  using assms
proof (induction xs arbitrary: s)
  case Nil
  then show ?case by simp
next
  case (Cons x xs)
  then obtain s1 where "body x s = Some s1" "P s1" by (meson list.set_intros(1))
  with Cons.IH [of s1] Cons.prems(2) show ?case by auto
qed

lemma for_each_map: "for_each body (map f xs) s = for_each (\<lambda>x. body (f x)) xs s"
  by (induction xs arbitrary: s) (auto split: option.splits)

lemma for_each_concat:
  "for_each (\<lambda>y. for_each body (g y)) ys s = for_each body (concat (map g ys)) s"
  by (induction ys arbitrary: s) (auto split: option.splits)

text \<open>
  The same with a ghost index: \<open>P k s\<close> holds after \<open>k\<close> iterations of a loop counting from \<open>0\<close>.
\<close>

lemma for_upto_inv:
  assumes "P 0 s"
    and "\<And>k s. k < n \<Longrightarrow> P k s \<Longrightarrow> \<exists>s'. body k s = Some s' \<and> P (Suc k) s'"
  shows "\<exists>s'. for_each body [0..<n] s = Some s' \<and> P n s'"
  using assms(2)
proof (induction n)
  case 0
  with assms(1) show ?case by simp
next
  case (Suc n)
  then obtain s1 where "for_each body [0..<n] s = Some s1" "P n s1"
    by (meson less_Suc_eq)
  moreover from this Suc.prems [of n s1] obtain s2 where "body n s1 = Some s2" "P (Suc n) s2"
    by auto
  ultimately show ?case by simp
qed

section \<open>Words\<close>

lemma bit_exp_word: "bit (2 ^ n :: 'a::len word) k \<longleftrightarrow> k = n \<and> n < LENGTH('a)"
  by (auto simp: bit_exp_iff)

lemma and_exp_word: "(w AND 2 ^ n :: 'a::len word) \<noteq> 0 \<longleftrightarrow> bit w n"
  by (simp add: and_exp_eq_0_iff_not_bit)

lemma bit_set_word:
  "n < LENGTH('a) \<Longrightarrow> bit (w OR 2 ^ n :: 'a::len word) k \<longleftrightarrow> k = n \<or> bit w k"
  by (auto simp: bit_or_iff bit_exp_word)

lemma bit_clear_word:
  "bit (w AND NOT (2 ^ n) :: 'a::len word) k \<longleftrightarrow> k \<noteq> n \<and> bit w k"
  by (auto simp: bit_and_iff bit_not_iff bit_exp_word dest: bit_imp_le_length)

lemma unat_ucast_up [simp]:
  fixes w :: "'a::len word"
  assumes "LENGTH('a) \<le> LENGTH('b::len)"
  shows "unat (ucast w :: 'b word) = unat w"
proof -
  have "unat w < 2 ^ LENGTH('b)"
    by (rule less_le_trans [OF unsigned_less]) (simp add: assms)
  then show ?thesis by (simp add: unsigned_ucast_eq take_bit_nat_eq_self)
qed

text \<open>Clearing the low bits rounds down.\<close>

lemma unat_and_not_mask: "unat (w AND NOT (mask a) :: u64) = unat w div 2 ^ a * 2 ^ a"
proof -
  have "w AND NOT (mask a) = push_bit a (drop_bit a w)"
    by (intro bit_word_eqI) (auto simp: bit_simps)
  also have "unat (push_bit a (drop_bit a w)) = take_bit 64 (push_bit a (drop_bit a (unat w)))"
  proof -
    have "take_bit 64 (unat w) = unat w"
      using unsigned_less [of w, where 'a = nat] by (intro take_bit_nat_eq_self) simp
    then show ?thesis by (simp only: unsigned_push_bit_eq) (simp add: unsigned_drop_bit_eq)
  qed
  also have "\<dots> = unat w div 2 ^ a * 2 ^ a"
  proof -
    have "unat w div 2 ^ a * 2 ^ a < 2 ^ 64"
      using unsigned_less [of w, where 'a = nat] by (intro le_less_trans [OF div_times_less_eq_dividend]) simp
    then show ?thesis by (simp add: push_bit_eq_mult drop_bit_eq_div take_bit_nat_eq_self)
  qed
  finally show ?thesis .
qed

lemma unat_page_mask: "unat (w AND 0xfffffffffffff000 :: u64) = unat w div 4096 * 4096"
proof -
  have "(0xfffffffffffff000 :: u64) = NOT (mask 12)" by (simp add: mask_eq_exp_minus_1)
  then show ?thesis using unat_and_not_mask [of w 12] by simp
qed

section \<open>Lists\<close>

lemma list_update_append_here [simp]: "(xs @ y # ys)[length xs := z] = xs @ z # ys"
  by simp

lemma removeAll_notin: "x \<notin> set xs \<Longrightarrow> removeAll x xs = xs"
  by (induction xs) auto

lemma distinct_removeAll: "distinct xs \<Longrightarrow> distinct (removeAll x xs)"
  by (induction xs) auto

end
