(* ===== verification/KError.thy ===== *)
theory KError imports Prelude begin

text \<open>
  The kernel's error values, \<^verbatim>\<open>kernel/error.hpp\<close>: the codes in the order of the enumeration, the
  table of their names, and the three accessors that other code uses.  The line number and the
  file name an \<^verbatim>\<open>Error\<close> carries are for the log only; they are fields of the record.
\<close>

datatype error_code =
    kSuccess | kFull | kEmpty | kIndexOutOfRange | kNoEnoughMemory | kNotImplemented
  | kTransferRingNotSet | kInvalidPhase | kInvalidSlotID | kAlreadyAllocated
  | kInvalidDescriptor | kInvalidEndpointNumber | kTransferFailed
  | kNoCorrespondingSetupStage | kNoWaiter | kUnknownXHCISpeedID | kNoPCIMSI
  | kUnknownPixelFormat | kNoSuchTask | kInvalidFormat | kInvalidFormatLA
  | kFrameTooSmall | kInvalidFile | kIsDirectory | kNoSuchEntry | kIsNotDirectory
  | kFreeTypeError | kLastOfCode

definition all_codes :: "error_code list" where
  "all_codes =
    [kSuccess, kFull, kEmpty, kIndexOutOfRange, kNoEnoughMemory, kNotImplemented,
     kTransferRingNotSet, kInvalidPhase, kInvalidSlotID, kAlreadyAllocated,
     kInvalidDescriptor, kInvalidEndpointNumber, kTransferFailed,
     kNoCorrespondingSetupStage, kNoWaiter, kUnknownXHCISpeedID, kNoPCIMSI,
     kUnknownPixelFormat, kNoSuchTask, kInvalidFormat, kInvalidFormatLA,
     kFrameTooSmall, kInvalidFile, kIsDirectory, kNoSuchEntry, kIsNotDirectory,
     kFreeTypeError, kLastOfCode]"

text \<open>The value of the enumerator, \<^verbatim>\<open>static_cast<int>(code)\<close>.\<close>

fun position :: "'a list \<Rightarrow> 'a \<Rightarrow> nat" where
  "position [] x = 0"
| "position (y # ys) x = (if x = y then 0 else Suc (position ys x))"

definition code_index :: "error_code \<Rightarrow> nat" where
  "code_index c = position all_codes c"

definition code_names :: "string list" where
  "code_names =
    [''kSuccess'', ''kFull'', ''kEmpty'', ''kIndexOutOfRange'', ''kNoEnoughMemory'',
     ''kNotImplemented'', ''kTransferRingNotSet'', ''kInvalidPhase'', ''kInvalidSlotID'',
     ''kAlreadyAllocated'', ''kInvalidDescriptor'', ''kInvalidEndpointNumber'',
     ''kTransferFailed'', ''kNoCorrespondingSetupStage'', ''kNoWaiter'',
     ''kUnknownXHCISpeedID'', ''kNoPCIMSI'', ''kUnknownPixelFormat'', ''kNoSuchTask'',
     ''kInvalidFormat'', ''kInvalidFormatLA'', ''kFrameTooSmall'', ''kIsDirectory'',
     ''kNoSuchEntry'', ''kIsNotDirectory'', ''kFreeTypeError'', ''kInvalidFile'']"

record KErr =
  err_code :: error_code
  err_line :: int
  err_file :: string

definition MAKE_ERROR :: "error_code \<Rightarrow> int \<Rightarrow> string \<Rightarrow> KErr" where
  "MAKE_ERROR c line file = \<lparr>err_code = c, err_line = line, err_file = file\<rparr>"

definition Cause :: "KErr \<Rightarrow> error_code" where
  "Cause e = err_code e"

text \<open>\<^verbatim>\<open>operator bool\<close>: an error is true when it is not \<^verbatim>\<open>kSuccess\<close>.\<close>

definition is_error :: "KErr \<Rightarrow> bool" where
  "is_error e \<longleftrightarrow> err_code e \<noteq> kSuccess"

definition Name :: "KErr \<Rightarrow> string option" where
  "Name e = arr_get code_names (code_index (err_code e))"

text \<open>
  In the other theories an \<^verbatim>\<open>Error\<close> is its code, and \<^verbatim>\<open>WithError<T>\<close> is a pair of the value and the
  code: nothing but the log reads the line and the file.
\<close>

type_synonym 'a WithError = "'a \<times> error_code"

text \<open>The name the enumerator has in the source, for stating what the table should hold.\<close>

fun source_name :: "error_code \<Rightarrow> string" where
  "source_name kSuccess = ''kSuccess''"
| "source_name kFull = ''kFull''"
| "source_name kEmpty = ''kEmpty''"
| "source_name kIndexOutOfRange = ''kIndexOutOfRange''"
| "source_name kNoEnoughMemory = ''kNoEnoughMemory''"
| "source_name kNotImplemented = ''kNotImplemented''"
| "source_name kTransferRingNotSet = ''kTransferRingNotSet''"
| "source_name kInvalidPhase = ''kInvalidPhase''"
| "source_name kInvalidSlotID = ''kInvalidSlotID''"
| "source_name kAlreadyAllocated = ''kAlreadyAllocated''"
| "source_name kInvalidDescriptor = ''kInvalidDescriptor''"
| "source_name kInvalidEndpointNumber = ''kInvalidEndpointNumber''"
| "source_name kTransferFailed = ''kTransferFailed''"
| "source_name kNoCorrespondingSetupStage = ''kNoCorrespondingSetupStage''"
| "source_name kNoWaiter = ''kNoWaiter''"
| "source_name kUnknownXHCISpeedID = ''kUnknownXHCISpeedID''"
| "source_name kNoPCIMSI = ''kNoPCIMSI''"
| "source_name kUnknownPixelFormat = ''kUnknownPixelFormat''"
| "source_name kNoSuchTask = ''kNoSuchTask''"
| "source_name kInvalidFormat = ''kInvalidFormat''"
| "source_name kInvalidFormatLA = ''kInvalidFormatLA''"
| "source_name kFrameTooSmall = ''kFrameTooSmall''"
| "source_name kInvalidFile = ''kInvalidFile''"
| "source_name kIsDirectory = ''kIsDirectory''"
| "source_name kNoSuchEntry = ''kNoSuchEntry''"
| "source_name kIsNotDirectory = ''kIsNotDirectory''"
| "source_name kFreeTypeError = ''kFreeTypeError''"
| "source_name kLastOfCode = ''kLastOfCode''"

lemma code_index_simps [simp]:
  "code_index kSuccess = 0" "code_index kFull = 1" "code_index kEmpty = 2"
  "code_index kIndexOutOfRange = 3" "code_index kNoEnoughMemory = 4"
  "code_index kNotImplemented = 5" "code_index kTransferRingNotSet = 6"
  "code_index kInvalidPhase = 7" "code_index kInvalidSlotID = 8"
  "code_index kAlreadyAllocated = 9" "code_index kInvalidDescriptor = 10"
  "code_index kInvalidEndpointNumber = 11" "code_index kTransferFailed = 12"
  "code_index kNoCorrespondingSetupStage = 13" "code_index kNoWaiter = 14"
  "code_index kUnknownXHCISpeedID = 15" "code_index kNoPCIMSI = 16"
  "code_index kUnknownPixelFormat = 17" "code_index kNoSuchTask = 18"
  "code_index kInvalidFormat = 19" "code_index kInvalidFormatLA = 20"
  "code_index kFrameTooSmall = 21" "code_index kInvalidFile = 22"
  "code_index kIsDirectory = 23" "code_index kNoSuchEntry = 24"
  "code_index kIsNotDirectory = 25" "code_index kFreeTypeError = 26"
  "code_index kLastOfCode = 27"
  by (simp_all add: code_index_def all_codes_def)

lemma length_code_names [simp]: "length code_names = 27"
  by (simp add: code_names_def)

lemma Name_MAKE_ERROR:
  "Name (MAKE_ERROR c l f) = arr_get code_names (code_index c)"
  by (simp add: Name_def MAKE_ERROR_def)

lemma code_names_nth [simp]:
  "code_names ! 0 = ''kSuccess''" "code_names ! 1 = ''kFull''" "code_names ! 2 = ''kEmpty''"
  "code_names ! Suc 0 = ''kFull''"
  "code_names ! 3 = ''kIndexOutOfRange''" "code_names ! 4 = ''kNoEnoughMemory''"
  "code_names ! 5 = ''kNotImplemented''" "code_names ! 6 = ''kTransferRingNotSet''"
  "code_names ! 7 = ''kInvalidPhase''" "code_names ! 8 = ''kInvalidSlotID''"
  "code_names ! 9 = ''kAlreadyAllocated''" "code_names ! 10 = ''kInvalidDescriptor''"
  "code_names ! 11 = ''kInvalidEndpointNumber''" "code_names ! 12 = ''kTransferFailed''"
  "code_names ! 13 = ''kNoCorrespondingSetupStage''" "code_names ! 14 = ''kNoWaiter''"
  "code_names ! 15 = ''kUnknownXHCISpeedID''" "code_names ! 16 = ''kNoPCIMSI''"
  "code_names ! 17 = ''kUnknownPixelFormat''" "code_names ! 18 = ''kNoSuchTask''"
  "code_names ! 19 = ''kInvalidFormat''" "code_names ! 20 = ''kInvalidFormatLA''"
  "code_names ! 21 = ''kFrameTooSmall''" "code_names ! 22 = ''kIsDirectory''"
  "code_names ! 23 = ''kNoSuchEntry''" "code_names ! 24 = ''kIsNotDirectory''"
  "code_names ! 25 = ''kFreeTypeError''" "code_names ! 26 = ''kInvalidFile''"
  by (simp_all add: code_names_def)

text \<open>
  \<^verbatim>\<open>Error::Name()\<close> never reads outside the name table for a code below \<^verbatim>\<open>kLastOfCode\<close> (what the
  \<^verbatim>\<open>static_assert\<close> on the table's size is for), and it returns the enumerator's own name exactly
  when the code comes before \<^verbatim>\<open>kInvalidFile\<close>.  From \<^verbatim>\<open>kInvalidFile\<close> on the table is out of step with
  the enumeration: the table lists \<^verbatim>\<open>kInvalidFile\<close> last, so all five remaining codes print the name
  of another error.
\<close>

theorem Name_correct_exactly_below_kInvalidFile:
  "(Name (MAKE_ERROR c l f) = None \<longleftrightarrow> c = kLastOfCode)
   \<and> (Name (MAKE_ERROR c l f) = Some (source_name c) \<longleftrightarrow> code_index c < code_index kInvalidFile)"
  by (cases c) (simp_all add: Name_MAKE_ERROR)

end
