(* ===== verification/Fat_Types.thy ===== *)
theory Fat_Types imports KError begin

text \<open>
  The on-disk structures of the FAT32 file system, \<^verbatim>\<open>kernel/fat.hpp\<close> and the first half of
  \<^verbatim>\<open>kernel/fat.cpp\<close>: the BIOS parameter block, directory entries and long-name entries with their
  byte layout, the 8.3 name routines, and the splitting of a path.

  A C string is the list of its bytes without the terminating zero.  A \<^verbatim>\<open>char\<close> buffer of fixed size
  that a routine would overrun makes the routine undefined (\<open>None\<close>).
\<close>

type_synonym cstr = "u8 list"

definition str :: "string \<Rightarrow> cstr" where
  "str s = map of_char s"

section \<open>C library routines on bytes\<close>

definition toupper :: "u8 \<Rightarrow> u8" where
  "toupper c = (if 97 \<le> c \<and> c \<le> 122 then c - 32 else c)"

text \<open>
  \<open>strchr s c\<close> is the offset of the first \<open>c\<close> in \<open>s\<close>, \<open>strrchr\<close> that of the last.  \<open>c\<close> is never
  zero in the source.
\<close>

fun strchr :: "cstr \<Rightarrow> u8 \<Rightarrow> nat option" where
  "strchr [] c = None"
| "strchr (x # xs) c = (if x = c then Some 0 else map_option Suc (strchr xs c))"

fun strrchr :: "cstr \<Rightarrow> u8 \<Rightarrow> nat option" where
  "strrchr [] c = None"
| "strrchr (x # xs) c = (case strrchr xs c of
     Some i \<Rightarrow> Some (Suc i)
   | None \<Rightarrow> if x = c then Some 0 else None)"

lemma strchr_Some:
  "strchr s c = Some i \<Longrightarrow> i < length s \<and> s ! i = c \<and> c \<notin> set (take i s)"
  by (induction s arbitrary: i) (auto split: if_splits)

lemma strchr_None: "strchr s c = None \<longleftrightarrow> c \<notin> set s"
  by (induction s) auto

lemma strrchr_None: "strrchr s c = None \<longleftrightarrow> c \<notin> set s"
  by (induction s) (auto split: option.splits)

lemma strrchr_Some:
  "strrchr s c = Some i \<Longrightarrow> i < length s \<and> s ! i = c \<and> c \<notin> set (drop (Suc i) s)"
proof (induction s arbitrary: i)
  case Nil
  then show ?case by simp
next
  case (Cons x xs)
  show ?case
  proof (cases "strrchr xs c")
    case None
    with Cons.prems show ?thesis by (auto simp: strrchr_None split: if_splits)
  next
    case (Some j)
    with Cons.prems Cons.IH [OF Some] show ?thesis by auto
  qed
qed

lemma strrchr_split:
  "c \<notin> set t \<Longrightarrow> strrchr (s @ c # t) c = Some (length s)"
proof (induction s)
  case Nil
  then have "strrchr t c = None" by (simp add: strrchr_None)
  then show ?case by simp
next
  case (Cons x s)
  then show ?case by simp
qed

section \<open>Structures\<close>

record BPB =
  jump_boot :: "u8 list"
  oem_name :: "u8 list"
  bytes_per_sector :: u16
  sectors_per_cluster :: u8
  reserved_sector_count :: u16
  num_fats :: u8
  root_entry_count :: u16
  total_sectors_16 :: u16
  media :: u8
  fat_size_16 :: u16
  sectors_per_track :: u16
  num_heads :: u16
  hidden_sectors :: u32
  total_sectors_32 :: u32
  fat_size_32 :: u32
  ext_flags :: u16
  fs_version :: u16
  root_cluster :: u32
  fs_info :: u16
  backup_boot_sector :: u16
  reserved :: "u8 list"
  drive_number :: u8
  reserved1 :: u8
  boot_signature :: u8
  volume_id :: u32
  volume_label :: "u8 list"
  fs_type :: "u8 list"

definition kReadOnly :: u8 where "kReadOnly = 0x01"
definition kHidden :: u8 where "kHidden = 0x02"
definition kSystem :: u8 where "kSystem = 0x04"
definition kVolumeID :: u8 where "kVolumeID = 0x08"
definition kDirectory :: u8 where "kDirectory = 0x10"
definition kArchive :: u8 where "kArchive = 0x20"
definition kLongName :: u8 where "kLongName = 0x0f"

lemmas attribute_defs = kReadOnly_def kHidden_def kSystem_def kVolumeID_def kDirectory_def
  kArchive_def kLongName_def

record DirectoryEntry =
  de_name :: "u8 list"
  attr :: u8
  ntres :: u8
  create_time_tenth :: u8
  create_time :: u16
  create_date :: u16
  last_access_date :: u16
  first_cluster_high :: u16
  write_time :: u16
  write_date :: u16
  first_cluster_low :: u16
  file_size :: u32

definition FirstCluster :: "DirectoryEntry \<Rightarrow> u32" where
  "FirstCluster e = ucast (first_cluster_low e) OR push_bit 16 (ucast (first_cluster_high e))"

definition LFN_ORD_LAST_FLAG :: u8 where "LFN_ORD_LAST_FLAG = 0x40"

record LFNDirectoryEntry =
  lfn_ord :: u8
  name1 :: "u8 list"
  lfn_attr :: u8
  lfn_ntres :: u8
  check_sum :: u8
  name2 :: "u8 list"
  lfn_first_cluster_low :: u16
  name3 :: "u8 list"

definition IsLastLFNDirectoryEntry :: "LFNDirectoryEntry \<Rightarrow> bool" where
  "IsLastLFNDirectoryEntry e \<longleftrightarrow> lfn_ord e AND LFN_ORD_LAST_FLAG \<noteq> 0"

text \<open>
  \<open>lfn_chars\<close> is the body that \<^verbatim>\<open>LongName\<close> repeats for its three name fields: a unit with a non-zero
  high byte becomes \<^verbatim>\<open>?\<close>, a zero unit is written and ends the name (\<open>True\<close>).
\<close>

fun lfn_chars :: "u8 list \<Rightarrow> cstr \<times> bool" where
  "lfn_chars (lo # hi # rest) =
     (if hi \<noteq> 0 then case lfn_chars rest of (s, fin) \<Rightarrow> (0x3F # s, fin)
      else if lo = 0 then ([0], True)
      else case lfn_chars rest of (s, fin) \<Rightarrow> (lo # s, fin))"
| "lfn_chars _ = ([], False)"

text \<open>The bytes \<^verbatim>\<open>LongName\<close> writes to its buffer; the value it returns is their number.\<close>

definition LongName :: "LFNDirectoryEntry \<Rightarrow> cstr" where
  "LongName e =
     (case lfn_chars (name1 e) of (s1, fin1) \<Rightarrow>
        if fin1 then s1
        else case lfn_chars (name2 e) of (s2, fin2) \<Rightarrow>
          if fin2 then s1 @ s2
          else case lfn_chars (name3 e) of (s3, _) \<Rightarrow> s1 @ s2 @ s3)"

lemma lfn_chars_length: "length (fst (lfn_chars xs)) \<le> length xs div 2"
  by (induction xs rule: lfn_chars.induct) (auto split: prod.splits)

section \<open>Byte layout\<close>

definition le16 :: "u16 \<Rightarrow> u8 list" where
  "le16 w = [ucast w, ucast (drop_bit 8 w)]"

definition le32 :: "u32 \<Rightarrow> u8 list" where
  "le32 w = [ucast w, ucast (drop_bit 8 w), ucast (drop_bit 16 w), ucast (drop_bit 24 w)]"

fun un16 :: "u8 list \<Rightarrow> u16" where
  "un16 [a, b] = ucast a OR push_bit 8 (ucast b)"
| "un16 _ = 0"

fun un32 :: "u8 list \<Rightarrow> u32" where
  "un32 [a, b, c, d] = ucast a OR push_bit 8 (ucast b) OR push_bit 16 (ucast c) OR push_bit 24 (ucast d)"
| "un32 _ = 0"

lemma un16_le16 [simp]: "un16 (le16 w) = w"
  by (rule bit_word_eqI)
    (auto simp: le16_def bit_or_iff bit_push_bit_iff bit_unsigned_iff bit_drop_bit_eq)

lemma un32_le32 [simp]: "un32 (le32 w) = w"
proof (rule bit_word_eqI)
  fix n assume n: "n < LENGTH(32)"
  then consider "n < 8" | "8 \<le> n" "n < 16" | "16 \<le> n" "n < 24" | "24 \<le> n" "n < 32"
    by fastforce
  then show "bit (un32 (le32 w)) n \<longleftrightarrow> bit w n"
    by cases (auto simp: le32_def bit_or_iff bit_push_bit_iff bit_unsigned_iff bit_drop_bit_eq)
qed

lemma le_length [simp]: "length (le16 w) = 2" "length (le32 v) = 4"
  by (simp_all add: le16_def le32_def)

definition slice :: "nat \<Rightarrow> nat \<Rightarrow> 'a list \<Rightarrow> 'a list" where
  "slice off n xs = take n (drop off xs)"

lemma slice_length [simp]: "off + n \<le> length xs \<Longrightarrow> length (slice off n xs) = n"
  by (simp add: slice_def)

text \<open>The packed 32-byte directory entry, read from and written to the bytes of a cluster.\<close>

definition kEntrySize :: nat where "kEntrySize = 32"

definition decode_entry :: "u8 list \<Rightarrow> DirectoryEntry" where
  "decode_entry b =
     \<lparr>de_name = slice 0 11 b, attr = b ! 11, ntres = b ! 12, create_time_tenth = b ! 13,
      create_time = un16 (slice 14 2 b), create_date = un16 (slice 16 2 b),
      last_access_date = un16 (slice 18 2 b), first_cluster_high = un16 (slice 20 2 b),
      write_time = un16 (slice 22 2 b), write_date = un16 (slice 24 2 b),
      first_cluster_low = un16 (slice 26 2 b), file_size = un32 (slice 28 4 b)\<rparr>"

definition encode_entry :: "DirectoryEntry \<Rightarrow> u8 list" where
  "encode_entry e =
     de_name e @ [attr e, ntres e, create_time_tenth e] @ le16 (create_time e)
     @ le16 (create_date e) @ le16 (last_access_date e) @ le16 (first_cluster_high e)
     @ le16 (write_time e) @ le16 (write_date e) @ le16 (first_cluster_low e)
     @ le32 (file_size e)"

definition decode_lfn :: "u8 list \<Rightarrow> LFNDirectoryEntry" where
  "decode_lfn b =
     \<lparr>lfn_ord = b ! 0, name1 = slice 1 10 b, lfn_attr = b ! 11, lfn_ntres = b ! 12,
      check_sum = b ! 13, name2 = slice 14 12 b, lfn_first_cluster_low = un16 (slice 26 2 b),
      name3 = slice 28 4 b\<rparr>"

lemma encode_entry_length: "length (de_name e) = 11 \<Longrightarrow> length (encode_entry e) = kEntrySize"
  by (simp add: encode_entry_def kEntrySize_def)

lemma slice_append: "length xs = off \<Longrightarrow> slice (off + k) n (xs @ ys) = slice k n ys"
  by (simp add: slice_def)

lemma decode_encode_entry:
  assumes "length (de_name e) = 11"
  shows "decode_entry (encode_entry e) = e"
proof -
  from assms obtain a0 a1 a2 a3 a4 a5 a6 a7 a8 a9 a10
    where n: "de_name e = [a0, a1, a2, a3, a4, a5, a6, a7, a8, a9, a10]"
    by (auto simp: length_Suc_conv eval_nat_numeral)
  have u16: "un16 [ucast w, ucast (drop_bit 8 w)] = w" for w :: u16
    using un16_le16 [of w] by (simp only: le16_def)
  have u32: "un32 [ucast w, ucast (drop_bit 8 w), ucast (drop_bit 16 w), ucast (drop_bit 24 w)] = w"
    for w :: u32
    using un32_le32 [of w] by (simp only: le32_def)
  show ?thesis
    by (cases e) (use n in \<open>simp add: decode_entry_def encode_entry_def slice_def le16_def le32_def
      u16 u32 del: un16.simps un32.simps\<close>)
qed

end
