(* ===== verification/Fat_Names.thy ===== *)
theory Fat_Names imports Fat_Types begin

text \<open>
  File names, \<^verbatim>\<open>kernel/fat.cpp\<close>: comparing a path element with the 8.3 name of an entry, writing a
  name into an entry, printing it back, the checksum that ties long-name entries to their short
  entry, and splitting a path at its first slash.
\<close>

definition kDot :: u8 where "kDot = 0x2E"
definition kSlash :: u8 where "kSlash = 0x2F"
definition kSpace :: u8 where "kSpace = 0x20"

section \<open>Operations\<close>

text \<open>\<^verbatim>\<open>CheckSum\<close>: the loop over the 11 name bytes with the running sum; 8-bit arithmetic wraps.\<close>

fun check_sum_loop :: "u8 list \<Rightarrow> u8 \<Rightarrow> u8" where
  "check_sum_loop [] acc = acc"
| "check_sum_loop (p # ps) acc = check_sum_loop ps (drop_bit 1 acc + push_bit 7 acc + p)"

definition CheckSum :: "DirectoryEntry \<Rightarrow> u8" where
  "CheckSum e = check_sum_loop (de_name e) 0"

text \<open>
  \<^verbatim>\<open>GetLFNDirectoryEntry\<close>: the 32 bytes of \<open>entry\<close> read as a long-name entry, if its checksum is
  that of the short entry.
\<close>

definition GetLFNDirectoryEntry :: "u8 list \<Rightarrow> DirectoryEntry \<Rightarrow> LFNDirectoryEntry option" where
  "GetLFNDirectoryEntry entry sfn_entry_for_check =
     (let lfn_entry = decode_lfn entry in
      if CheckSum sfn_entry_for_check = check_sum lfn_entry then Some lfn_entry else None)"

text \<open>
  \<^verbatim>\<open>NextPathElement\<close> copies into the 13-byte buffer \<open>path_elem\<close> of its caller.  Its result is the
  element, the rest of the path after the slash (\<open>None\<close> for the null pointer) and whether there was
  a slash.
\<close>

definition kPathElemSize :: nat where "kPathElemSize = 13"

definition NextPathElement :: "cstr \<Rightarrow> (cstr \<times> cstr option \<times> bool) option" where
  "NextPathElement path =
     (case strchr path kSlash of
        None \<Rightarrow> if length path < kPathElemSize then Some (path, None, False) else None
      | Some elem_len \<Rightarrow>
          if elem_len < kPathElemSize
          then Some (take elem_len path, Some (drop (Suc elem_len) path), True) else None)"

text \<open>The loop of \<^verbatim>\<open>NameIsEqual\<close>: \<open>i83\<close> is the position in the 11-byte name.\<close>

fun fill83 :: "cstr \<Rightarrow> nat \<Rightarrow> u8 list \<Rightarrow> u8 list" where
  "fill83 [] i83 name83 = name83"
| "fill83 (c # cs) i83 name83 =
     (if i83 < 11
      then if c = kDot then fill83 cs 8 name83
           else fill83 cs (Suc i83) (name83[i83 := toupper c])
      else name83)"

definition NameIsEqual :: "DirectoryEntry \<Rightarrow> cstr \<Rightarrow> bool" where
  "NameIsEqual e name \<longleftrightarrow> de_name e = fill83 name 0 (replicate 11 kSpace)"

text \<open>\<open>pad n xs\<close>: the first \<open>n\<close> bytes of \<open>xs\<close>, upper case, over a field of \<open>n\<close> spaces.\<close>

definition pad :: "nat \<Rightarrow> cstr \<Rightarrow> u8 list" where
  "pad n xs = map toupper (take n xs) @ replicate (n - length xs) kSpace"

definition SetFileName :: "DirectoryEntry \<Rightarrow> cstr \<Rightarrow> DirectoryEntry" where
  "SetFileName e name =
     (case strrchr name kDot of
        Some dot_pos \<Rightarrow> e\<lparr>de_name := pad 8 (take dot_pos name) @ pad 3 (drop (Suc dot_pos) name)\<rparr>
      | None \<Rightarrow> e\<lparr>de_name := pad 8 name @ replicate 3 kSpace\<rparr>)"

text \<open>A trailing run of spaces is cut off, and the C string ends at the first zero byte.\<close>

definition strip_spaces :: "u8 list \<Rightarrow> cstr" where
  "strip_spaces xs = takeWhile (\<lambda>c. c \<noteq> 0) (rev (dropWhile (\<lambda>c. c = kSpace) (rev xs)))"

definition ReadName :: "DirectoryEntry \<Rightarrow> cstr \<times> cstr" where
  "ReadName e = (strip_spaces (slice 0 8 (de_name e)), strip_spaces (slice 8 3 (de_name e)))"

definition FormatName :: "DirectoryEntry \<Rightarrow> cstr" where
  "FormatName e = (case ReadName e of (base, ext) \<Rightarrow> if ext \<noteq> [] then base @ kDot # ext else base)"

section \<open>Facts\<close>

text \<open>The 11-byte name field that \<^verbatim>\<open>SetFileName\<close> writes.\<close>

lemma pad_length [simp]: "length (pad n xs) = n"
  by (simp add: pad_def)

lemma SetFileName_length: "length (de_name (SetFileName e name)) = 11"
  by (auto simp: SetFileName_def split: option.splits)

lemma fill83_plain:
  "kDot \<notin> set cs \<Longrightarrow> i + length cs \<le> 11 \<Longrightarrow> length buf = 11 \<Longrightarrow>
     fill83 (cs @ rest) i buf
     = fill83 rest (i + length cs) (take i buf @ map toupper cs @ drop (i + length cs) buf)"
proof (induction cs arbitrary: i buf)
  case Nil
  then show ?case by simp
next
  case (Cons c cs)
  have "take (Suc i) (buf[i := toupper c]) = take i buf @ [toupper c]"
    using Cons.prems by (simp add: take_Suc_conv_app_nth)
  moreover have "drop (Suc (i + length cs)) (buf[i := toupper c]) = drop (Suc (i + length cs)) buf"
    by simp
  ultimately show ?case using Cons by auto
qed

lemma toupper_not_dot: "toupper c = kDot \<longleftrightarrow> c = kDot"
proof -
  have "c - 32 \<noteq> kDot" if "97 \<le> c" "c \<le> 122"
  proof
    assume "c - 32 = kDot"
    then have "c = 0x4E" by (simp add: kDot_def eq_diff_eq algebra_simps)
    with that show False by (simp add: word_le_nat_alt)
  qed
  then show ?thesis by (auto simp: toupper_def kDot_def)
qed

text \<open>
  A name in 8.3 form: a base of one to eight characters and an optional extension of one to three,
  of letters (either case) and digits and the like: no dot, slash, space or zero.
\<close>

definition name_char :: "u8 \<Rightarrow> bool" where
  "name_char c \<longleftrightarrow> c \<noteq> kDot \<and> c \<noteq> kSlash \<and> c \<noteq> kSpace \<and> c \<noteq> 0"

fun valid83 :: "cstr \<times> cstr \<Rightarrow> bool" where
  "valid83 (base, ext) \<longleftrightarrow> 1 \<le> length base \<and> length base \<le> 8 \<and> length ext \<le> 3
     \<and> list_all name_char base \<and> list_all name_char ext"

fun name83 :: "cstr \<times> cstr \<Rightarrow> cstr" where
  "name83 (base, ext) = (if ext = [] then base else base @ kDot # ext)"

lemma strip_spaces_pad:
  assumes "list_all name_char xs" and "length xs \<le> n"
  shows "strip_spaces (pad n xs) = map toupper xs"
proof -
  have up: "toupper c \<noteq> kSpace \<and> toupper c \<noteq> 0" if "name_char c" for c
  proof -
    have "c - 32 \<noteq> kSpace \<and> c - 32 \<noteq> 0" if "97 \<le> c" "c \<le> 122"
    proof -
      have "c \<noteq> 0x40" "c \<noteq> 0x20" using that by (auto simp: word_le_nat_alt)
      then show ?thesis by (auto simp: kSpace_def eq_diff_eq diff_eq_eq algebra_simps)
    qed
    with \<open>name_char c\<close> show ?thesis by (auto simp: toupper_def name_char_def)
  qed
  have sp: "dropWhile (\<lambda>c. c = kSpace) (replicate k kSpace @ ys) = dropWhile (\<lambda>c. c = kSpace) ys" for k ys
    by (induction k) auto
  have dw: "dropWhile (\<lambda>c. c = kSpace) (map toupper (rev xs)) = map toupper (rev xs)"
    using assms(1) up by (cases xs rule: rev_cases) (auto simp: list_all_iff)
  have tw: "takeWhile (\<lambda>c. c \<noteq> 0) (map toupper xs) = map toupper xs"
    using assms(1) up by (auto simp: list_all_iff takeWhile_eq_all_conv)
  have "rev (pad n xs) = replicate (n - length xs) kSpace @ map toupper (rev xs)"
    using assms(2) by (simp add: pad_def rev_map)
  then show ?thesis by (simp only: strip_spaces_def sp dw) (simp add: rev_map [symmetric] tw)
qed

lemma valid83_no_dot: "valid83 (base, ext) \<Longrightarrow> kDot \<notin> set base \<and> kDot \<notin> set ext"
  by (auto simp: list_all_iff name_char_def)

lemma SetFileName_name83:
  assumes "valid83 (base, ext)"
  shows "de_name (SetFileName e (name83 (base, ext))) = pad 8 base @ pad 3 ext"
proof (cases "ext = []")
  case True
  then have "strrchr base kDot = None" using valid83_no_dot [OF assms] by (simp add: strrchr_None)
  with True show ?thesis by (simp add: SetFileName_def pad_def)
next
  case False
  then have "strrchr (base @ kDot # ext) kDot = Some (length base)"
    using valid83_no_dot [OF assms] by (simp add: strrchr_split)
  with False show ?thesis by (simp add: SetFileName_def)
qed

lemma fill83_name83:
  assumes "valid83 (base, ext)"
  shows "fill83 (name83 (base, ext)) 0 (replicate 11 kSpace) = pad 8 base @ pad 3 ext"
proof -
  note nd = valid83_no_dot [OF assms]
  from assms have lb: "length base \<le> 8" and le: "length ext \<le> 3" by simp_all
  have pb: "map toupper base @ replicate (11 - length base) kSpace = pad 8 base @ replicate 3 kSpace"
  proof -
    have "11 - length base = (8 - length base) + 3" using lb by simp
    then show ?thesis using lb by (simp only: replicate_add pad_def) simp
  qed
  have p1: "fill83 (base @ rest) 0 (replicate 11 kSpace)
      = fill83 rest (length base) (pad 8 base @ replicate 3 kSpace)" for rest
    using fill83_plain [of base 0 "replicate 11 kSpace" rest] nd lb
    by (simp add: pb)
  show ?thesis
  proof (cases "ext = []")
    case True
    then show ?thesis using p1 [of "[]"] by (simp add: pad_def)
  next
    case False
    have "fill83 (base @ kDot # ext) 0 (replicate 11 kSpace)
        = fill83 ext 8 (pad 8 base @ replicate 3 kSpace)"
      using p1 [of "kDot # ext"] lb by simp
    also have "\<dots> = pad 8 base @ map toupper ext @ replicate (3 - length ext) kSpace"
      using fill83_plain [of ext 8 "pad 8 base @ replicate 3 kSpace" "[]"] nd le by simp
    also have "\<dots> = pad 8 base @ pad 3 ext" using le by (simp add: pad_def)
    finally show ?thesis using False by simp
  qed
qed

lemma NameIsEqual_name83:
  assumes "valid83 (base, ext)"
  shows "NameIsEqual (SetFileName e (name83 (base, ext))) (name83 (base, ext))"
  using SetFileName_name83 [OF assms] fill83_name83 [OF assms] by (simp add: NameIsEqual_def)

text \<open>
  8.3 names round trip.  For every name of the 8.3 form, the name \<^verbatim>\<open>SetFileName\<close> writes into an
  entry is one that \<^verbatim>\<open>NameIsEqual\<close> then finds under the same name, that \<^verbatim>\<open>FormatName\<close> prints back in
  upper case, and that depends on nothing else of the entry.
\<close>

theorem SetFileName_roundtrip:
  assumes "valid83 (base, ext)"
  shows "NameIsEqual (SetFileName e (name83 (base, ext))) (name83 (base, ext))
    \<and> FormatName (SetFileName e (name83 (base, ext))) = map toupper (name83 (base, ext))"
proof
  show "NameIsEqual (SetFileName e (name83 (base, ext))) (name83 (base, ext))"
    by (rule NameIsEqual_name83 [OF assms])
  have "ReadName (SetFileName e (name83 (base, ext))) = (map toupper base, map toupper ext)"
    using SetFileName_name83 [OF assms] strip_spaces_pad [of base 8] strip_spaces_pad [of ext 3] assms
    by (simp add: ReadName_def slice_def)
  then show "FormatName (SetFileName e (name83 (base, ext))) = map toupper (name83 (base, ext))"
    by (simp add: FormatName_def toupper_def kDot_def)
qed

theorem SetFileName_roundtrip_witness:
  "NameIsEqual (SetFileName (decode_entry (replicate 32 0)) (name83 (str ''memo'', str ''txt''))) (name83 (str ''memo'', str ''txt''))
   \<and> FormatName (SetFileName (decode_entry (replicate 32 0)) (name83 (str ''memo'', str ''txt'')))
     = map toupper (name83 (str ''memo'', str ''txt''))"
proof -
  have "valid83 (str ''memo'', str ''txt'')"
    by (simp add: str_def name_char_def kDot_def kSlash_def kSpace_def)
  then show ?thesis using SetFileName_roundtrip by blast
qed

text \<open>
  a name of more than eight characters and no dot is written with its first eight characters but
  looked up with its first eleven, so no entry that \<^verbatim>\<open>SetFileName\<close> makes from it is ever found under
  that name again (unless its ninth, tenth and eleventh character are spaces).
\<close>

theorem SetFileName_long_name_lost:
  assumes "8 < length name" and "kDot \<notin> set name" and "name ! 8 \<noteq> kSpace"
  shows "\<not> NameIsEqual (SetFileName e name) name"
proof
  assume eq: "NameIsEqual (SetFileName e name) name"
  have nd: "strrchr name kDot = None" using assms(2) by (simp add: strrchr_None)
  define front where "front = take 11 name"
  have fr: "name = front @ drop 11 name" "kDot \<notin> set front" "length front \<le> 11" "8 < length front"
    using assms(1,2) by (auto simp: front_def dest: in_set_takeD)
  have more: "fill83 (drop 11 name) (length front) buf = buf" for buf
    by (cases "drop 11 name") (auto simp: front_def)
  have "fill83 name 0 (replicate 11 kSpace) ! 8 = toupper (name ! 8)"
    using fill83_plain [of front 0 "replicate 11 kSpace" "drop 11 name"] fr more
    by (simp add: nth_append front_def)
  moreover have "de_name (SetFileName e name) ! 8 = kSpace"
    using nd by (simp add: SetFileName_def nth_append)
  ultimately have "toupper (name ! 8) = kSpace" using eq by (simp add: NameIsEqual_def)
  moreover have "toupper c = kSpace \<longleftrightarrow> c = kSpace" for c
  proof -
    have "c - 32 \<noteq> kSpace" if "97 \<le> c" "c \<le> 122"
    proof
      assume "c - 32 = kSpace"
      then have "c = 0x40" by (simp add: kSpace_def eq_diff_eq algebra_simps)
      with that show False by (simp add: word_le_nat_alt)
    qed
    then show ?thesis by (auto simp: toupper_def kSpace_def)
  qed
  ultimately show False using assms(3) by blast
qed

theorem SetFileName_long_name_lost_witness:
  "\<not> NameIsEqual (SetFileName (decode_entry (replicate 32 0)) (str ''longfilename'')) (str ''longfilename'')"
  by (rule SetFileName_long_name_lost) (simp_all add: str_def kDot_def kSpace_def)

text \<open>The checksum step is the rotation the FAT specification asks for.\<close>

lemma check_sum_rotates: "drop_bit 1 s + push_bit 7 s = (word_rotr 1 s :: u8)"
proof -
  have "drop_bit 1 s AND push_bit 7 s = (0 :: u8)"
    by (rule bit_word_eqI) (auto simp: bit_and_iff bit_drop_bit_eq bit_push_bit_iff
        dest: bit_imp_le_length)
  then have "drop_bit 1 s + push_bit 7 s = (drop_bit 1 s OR push_bit 7 s :: u8)"
    by (rule disjunctive_add_eq_or)
  also have "\<dots> = word_rotr 1 s"
  proof (rule bit_word_eqI)
    fix n assume "n < LENGTH(8)"
    then consider "n < 7" | "n = 7" by fastforce
    then show "bit (drop_bit 1 s OR push_bit 7 s) n \<longleftrightarrow> bit (word_rotr 1 s) n"
      by cases (auto simp: bit_or_iff bit_drop_bit_eq bit_push_bit_iff bit_word_rotr_iff
          dest: bit_imp_le_length)
  qed
  finally show ?thesis .
qed

lemma NextPathElement_plain:
  "kSlash \<notin> set path \<Longrightarrow> length path < 13 \<Longrightarrow> NextPathElement path = Some (path, None, False)"
proof -
  assume a: "kSlash \<notin> set path" "length path < 13"
  then have "strchr path kSlash = None" by (simp add: strchr_None)
  with a show ?thesis by (simp add: NextPathElement_def kPathElemSize_def)
qed

lemma strchr_append_here: "c \<notin> set xs \<Longrightarrow> strchr (xs @ c # ys) c = Some (length xs)"
  by (induction xs) auto

lemma NextPathElement_slash:
  "kSlash \<notin> set e \<Longrightarrow> length e < 13 \<Longrightarrow> NextPathElement (e @ kSlash # rest) = Some (e, Some rest, True)"
  by (simp add: NextPathElement_def kPathElemSize_def strchr_append_here)

end
