(* ===== verification/Fat_Chain.thy ===== *)
theory Fat_Chain imports Fat_Names begin

text \<open>
  The file allocation table, \<^verbatim>\<open>kernel/fat.cpp\<close>: where clusters and the table lie in the volume image,
  following, extending, allocating and freeing cluster chains.

  The volume image in memory is split into the regions the code addresses: the parameter block, the
  table (\<open>fat\<close>, an array of 32-bit entries) and the data clusters (\<open>clusters ! 0\<close> is cluster 2).
  \<open>GetClusterAddr_layout\<close> shows that the code's address computation makes these regions disjoint.
  A read or write outside of its array is undefined (\<open>None\<close>); so is a walk along a cyclic chain,
  which never returns.
\<close>

record volume =
  bpb :: BPB
  bytes_per_cluster :: nat
  fat :: "u32 list"
  clusters :: "u8 list list"

definition kEndOfClusterchain :: nat where "kEndOfClusterchain = 0x0fffffff"
definition kBrokenCluster :: nat where "kBrokenCluster = 0x0ffffff7"

section \<open>Layout\<close>

definition fat32_Initialize :: "volume \<Rightarrow> volume" where
  "fat32_Initialize v = v\<lparr>bytes_per_cluster :=
     unat (bytes_per_sector (bpb v)) * unat (sectors_per_cluster (bpb v))\<rparr>"

text \<open>
  The address computation, in the widths of the C++ expression: the product with \<^verbatim>\<open>num_fats\<close> and the
  sum with the reserved sectors are 32-bit, the rest is 64-bit.  \<open>base\<close> is the address of the
  volume image.
\<close>

definition GetClusterAddr :: "u64 \<Rightarrow> BPB \<Rightarrow> u64 \<Rightarrow> u64" where
  "GetClusterAddr base b cluster =
     (let sector_num = ucast (ucast (reserved_sector_count b) + ucast (num_fats b) * fat_size_32 b :: u32)
                       + (cluster - 2) * ucast (sectors_per_cluster b);
          offset = sector_num * ucast (bytes_per_sector b)
      in base + offset)"

definition GetFAT :: "u64 \<Rightarrow> BPB \<Rightarrow> u64" where
  "GetFAT base b = base + of_nat (unat (reserved_sector_count b) * unat (bytes_per_sector b))"

section \<open>The table\<close>

definition IsEndOfClusterchain :: "nat \<Rightarrow> bool" where
  "IsEndOfClusterchain cluster \<longleftrightarrow> cluster \<ge> 0x0ffffff8"

definition NextCluster :: "u32 list \<Rightarrow> nat \<Rightarrow> nat option" where
  "NextCluster f cluster = do {
     next \<leftarrow> arr_get f cluster;
     Some (if IsEndOfClusterchain (unat next) then kEndOfClusterchain else unat next)
   }"

text \<open>The first loop of \<^verbatim>\<open>ExtendCluster\<close>, to the end of the chain.\<close>

partial_function (option) chain_end :: "u32 list \<Rightarrow> nat \<Rightarrow> nat option" where
  "chain_end f eoc_cluster = (case arr_get f eoc_cluster of
     None \<Rightarrow> None
   | Some next \<Rightarrow> if IsEndOfClusterchain (unat next) then Some eoc_cluster
                  else chain_end f (unat next))"

text \<open>
  Its second loop: take free entries in order of number, linking each to the one before.  The
  search is not bounded by the size of the table, so it leaves the table when too few are free.
\<close>

function extend_loop ::
  "u32 list \<Rightarrow> nat \<Rightarrow> nat \<Rightarrow> nat \<Rightarrow> nat \<Rightarrow> (u32 list \<times> nat) option" where
  "extend_loop f current candidate num_allocated n =
     (if num_allocated < n then
        case arr_get f candidate of
          None \<Rightarrow> None
        | Some entry \<Rightarrow>
            if entry \<noteq> 0 then extend_loop f current (Suc candidate) num_allocated n
            else (case arr_set f current (of_nat candidate) of
                    None \<Rightarrow> None
                  | Some f' \<Rightarrow> extend_loop f' candidate (Suc candidate) (Suc num_allocated) n)
      else Some (f, current))"
  by pat_completeness auto
termination
  by (relation "measure (\<lambda>(f, cur, cand, num, n). length f - cand)")
    (auto simp: arr_get_Some_iff arr_set_Some_iff)

declare extend_loop.simps [simp del]

definition ExtendCluster :: "u32 list \<Rightarrow> nat \<Rightarrow> nat \<Rightarrow> (u32 list \<times> nat) option" where
  "ExtendCluster f eoc_cluster n = do {
     last \<leftarrow> chain_end f eoc_cluster;
     (f', current) \<leftarrow> extend_loop f last 2 0 n;
     f'' \<leftarrow> arr_set f' current (of_nat kEndOfClusterchain);
     Some (f'', current)
   }"

text \<open>The search loop of \<^verbatim>\<open>AllocateClusterChain\<close>: the first free entry.\<close>

function first_free :: "u32 list \<Rightarrow> nat \<Rightarrow> nat option" where
  "first_free f c = (case arr_get f c of
     None \<Rightarrow> None | Some entry \<Rightarrow> if entry = 0 then Some c else first_free f (Suc c))"
  by pat_completeness auto
termination
  by (relation "measure (\<lambda>(f, c). length f - c)") (auto simp: arr_get_Some_iff)

declare first_free.simps [simp del]

definition AllocateClusterChain :: "u32 list \<Rightarrow> nat \<Rightarrow> (u32 list \<times> nat) option" where
  "AllocateClusterChain f n = do {
     first_cluster \<leftarrow> first_free f 2;
     f' \<leftarrow> arr_set f first_cluster (of_nat kEndOfClusterchain);
     if n > 1 then do {
       (f'', _) \<leftarrow> ExtendCluster f' first_cluster (n - 1);
       Some (f'', first_cluster)
     }
     else Some (f', first_cluster)
   }"

partial_function (option) FreeCluster :: "u32 list \<Rightarrow> nat \<Rightarrow> u32 list option" where
  "FreeCluster f cluster = (case arr_get f cluster of
     None \<Rightarrow> None
   | Some entry \<Rightarrow>
       if IsEndOfClusterchain (unat entry) \<or> entry = 0 then arr_set f cluster 0
       else Option.bind (FreeCluster f (unat entry)) (\<lambda>f'. arr_set f' cluster 0))"

section \<open>Chains\<close>

fun is_chain :: "u32 list \<Rightarrow> nat list \<Rightarrow> bool" where
  "is_chain f [] = False"
| "is_chain f [c] \<longleftrightarrow> c < length f \<and> IsEndOfClusterchain (unat (f ! c))"
| "is_chain f (c # d # cs) \<longleftrightarrow> c < length f \<and> unat (f ! c) = d
     \<and> \<not> IsEndOfClusterchain d \<and> f ! c \<noteq> 0 \<and> is_chain f (d # cs)"

text \<open>A table of a size that the cluster numbers below the end mark can address.\<close>

definition fat_ok :: "u32 list \<Rightarrow> bool" where
  "fat_ok f \<longleftrightarrow> length f \<le> 0x0ffffff7"

definition free_clusters :: "u32 list \<Rightarrow> nat \<Rightarrow> nat list" where
  "free_clusters f lo = filter (\<lambda>c. f ! c = 0) [lo..<length f]"

fun link :: "u32 list \<Rightarrow> nat \<Rightarrow> nat list \<Rightarrow> u32 list \<times> nat" where
  "link f cur [] = (f, cur)"
| "link f cur (d # ds) = link (f[cur := of_nat d]) d ds"

lemma is_chain_in_range: "is_chain f cs \<Longrightarrow> c \<in> set cs \<Longrightarrow> c < length f"
  by (induction f cs rule: is_chain.induct) auto

lemma is_chain_nonzero: "is_chain f cs \<Longrightarrow> c \<in> set cs \<Longrightarrow> f ! c \<noteq> 0"
  by (induction f cs rule: is_chain.induct) (auto simp: IsEndOfClusterchain_def)

lemma is_chain_cong:
  "length f = length g \<Longrightarrow> (\<And>c. c \<in> set cs \<Longrightarrow> f ! c = g ! c) \<Longrightarrow> is_chain f cs = is_chain g cs"
  by (induction f cs rule: is_chain.induct) auto

lemma is_chain_suffix: "is_chain f (xs @ ys) \<Longrightarrow> ys \<noteq> [] \<Longrightarrow> is_chain f ys"
proof (induction xs)
  case Nil
  then show ?case by simp
next
  case (Cons x xs)
  then show ?case by (cases "xs @ ys") auto
qed

lemma is_chain_last: "is_chain f cs \<Longrightarrow> IsEndOfClusterchain (unat (f ! last cs))"
  by (induction f cs rule: is_chain.induct) auto

lemma is_chain_append:
  "is_chain f (xs @ [c]) \<Longrightarrow> is_chain g (c # ds) \<Longrightarrow> length f = length g
   \<Longrightarrow> (\<And>x. x \<in> set xs \<Longrightarrow> f ! x = g ! x) \<Longrightarrow> is_chain g (xs @ c # ds)"
proof (induction xs)
  case Nil
  then show ?case by simp
next
  case (Cons x xs)
  then show ?case by (cases "xs @ [c]"; cases xs) auto
qed

lemma NextCluster_chain:
  "is_chain f (c # d # cs) \<Longrightarrow> NextCluster f c = Some d"
  "is_chain f [c] \<Longrightarrow> NextCluster f c = Some kEndOfClusterchain"
  by (simp_all add: NextCluster_def)

lemma chain_end_is_last: "is_chain f (c # cs) \<Longrightarrow> chain_end f c = Some (last (c # cs))"
proof (induction cs arbitrary: c)
  case Nil
  then show ?case by (simp add: chain_end.simps)
next
  case (Cons d cs)
  then show ?case by (simp add: chain_end.simps [of f c])
qed

lemma unat_cluster:
  assumes "fat_ok f" and "c < length f"
  shows "unat (of_nat c :: u32) = c" "\<not> IsEndOfClusterchain c"
proof -
  from assms have c: "c < 0x0ffffff7" by (simp add: fat_ok_def)
  then show "unat (of_nat c :: u32) = c" by (simp add: unat_of_nat)
  from c show "\<not> IsEndOfClusterchain c" by (simp add: IsEndOfClusterchain_def)
qed

lemma cluster_nonzero: "fat_ok f \<Longrightarrow> c < length f \<Longrightarrow> 0 < c \<Longrightarrow> (of_nat c :: u32) \<noteq> 0"
  using unat_cluster(1) [of f c] by (metis unat_0 less_irrefl)

lemma free_clusters_Suc:
  "lo < length f \<Longrightarrow> free_clusters f lo
     = (if f ! lo = 0 then lo # free_clusters f (Suc lo) else free_clusters f (Suc lo))"
  by (simp add: free_clusters_def upt_conv_Cons)

lemma free_clusters_update:
  "cur < lo \<or> f ! cur \<noteq> 0 \<Longrightarrow> v \<noteq> 0 \<Longrightarrow> free_clusters (f[cur := v]) lo = free_clusters f lo"
proof -
  assume a: "cur < lo \<or> f ! cur \<noteq> 0" "v \<noteq> 0"
  have "f[cur := v] ! c = 0 \<longleftrightarrow> f ! c = 0" if "lo \<le> c" for c
  proof (cases "c = cur \<and> c < length f")
    case True
    with a that show ?thesis by auto
  next
    case False
    then show ?thesis by (metis list_update_beyond not_less nth_list_update_neq)
  qed
  then show ?thesis by (auto simp: free_clusters_def intro!: filter_cong)
qed

lemma extend_loop_link:
  assumes "fat_ok f" and "cur < length f" and "cur < cand \<or> f ! cur \<noteq> 0" and "num \<le> n" and "0 < cand"
  shows "extend_loop f cur cand num n =
     (if n - num \<le> length (free_clusters f cand)
      then Some (link f cur (take (n - num) (free_clusters f cand))) else None)"
  using assms
proof (induction f cur cand num n rule: extend_loop.induct)
  case (1 f cur cand num n)
  show ?case
  proof (cases "num < n")
    case False
    with "1.prems" show ?thesis by (simp add: extend_loop.simps)
  next
    case num: True
    show ?thesis
    proof (cases "cand < length f")
      case False
      then have "free_clusters f cand = []" by (simp add: free_clusters_def)
      with num False show ?thesis by (simp add: extend_loop.simps)
    next
      case True
      show ?thesis
      proof (cases "f ! cand = 0")
        case False
        have "extend_loop f cur cand num n = extend_loop f cur (Suc cand) num n"
          using num True False by (simp add: extend_loop.simps [of f cur cand])
        moreover have "free_clusters f cand = free_clusters f (Suc cand)"
          using True False by (simp add: free_clusters_Suc)
        ultimately show ?thesis using "1.IH"(1) [OF num, of "f ! cand"] "1.prems" True False by auto
      next
        case free: True
        let ?f = "f[cur := of_nat cand]"
        have v: "(of_nat cand :: u32) \<noteq> 0" using "1.prems" True by (intro cluster_nonzero) auto
        have step: "extend_loop f cur cand num n = extend_loop ?f cand (Suc cand) (Suc num) n"
          using num True free "1.prems"(2) by (simp add: extend_loop.simps [of f cur cand])
        have fc: "free_clusters ?f (Suc cand) = free_clusters f (Suc cand)"
          using "1.prems"(3) v by (intro free_clusters_update) auto
        have "extend_loop ?f cand (Suc cand) (Suc num) n =
            (if n - Suc num \<le> length (free_clusters f (Suc cand))
             then Some (link ?f cand (take (n - Suc num) (free_clusters f (Suc cand)))) else None)"
          using "1.IH"(2) [OF num, of "f ! cand" ?f] "1.prems" True free num fc
          by (simp add: fat_ok_def)
        moreover have "n - num = Suc (n - Suc num)" using num by simp
        ultimately show ?thesis using step free_clusters_Suc [OF True] free by simp
      qed
    qed
  qed
qed

lemma link_length: "length (fst (link f cur ds)) = length f"
  by (induction ds arbitrary: f cur) simp_all

lemma link_last: "snd (link f cur ds) = last (cur # ds)"
  by (induction ds arbitrary: f cur) simp_all

lemma link_chain:
  assumes "fat_ok f" and "distinct (cur # ds)" and "cur < length f"
    and "\<And>c. c \<in> set ds \<Longrightarrow> 0 < c \<and> c < length f"
    and "IsEndOfClusterchain (unat e)"
  shows "is_chain ((fst (link f cur ds))[last (cur # ds) := e]) (cur # ds)
    \<and> (\<forall>x. x \<notin> set (cur # ds) \<longrightarrow> (fst (link f cur ds))[last (cur # ds) := e] ! x = f ! x)"
  using assms
proof (induction ds arbitrary: f cur)
  case Nil
  then show ?case by simp
next
  case (Cons d ds)
  let ?f = "f[cur := of_nat d]"
  let ?F = "(fst (link ?f d ds))[last (d # ds) := e]"
  have IH: "is_chain ?F (d # ds)" "\<forall>x. x \<notin> set (d # ds) \<longrightarrow> ?F ! x = ?f ! x"
    using Cons.IH [of ?f d] Cons.prems by (auto simp: fat_ok_def)
  have cur: "?F ! cur = of_nat d" "cur < length ?F"
    using IH(2) Cons.prems by (auto simp: link_length)
  have d: "d < length f" "0 < d" using Cons.prems(4) by auto
  have "is_chain ?F (cur # d # ds)"
    using IH(1) cur unat_cluster [OF Cons.prems(1) d(1)] cluster_nonzero [OF Cons.prems(1) d]
    by simp
  moreover have "?F ! x = f ! x" if "x \<notin> set (cur # d # ds)" for x using IH(2) that by auto
  ultimately show ?case by simp
qed

lemma kEnd_unat: "unat (of_nat kEndOfClusterchain :: u32) = kEndOfClusterchain"
    "IsEndOfClusterchain kEndOfClusterchain"
  by (simp_all add: kEndOfClusterchain_def IsEndOfClusterchain_def)

lemma kEnd_nonzero: "(of_nat kEndOfClusterchain :: u32) \<noteq> 0"
  by (simp add: kEndOfClusterchain_def)

lemma free_clusters_set: "set (free_clusters f lo) = {c. lo \<le> c \<and> c < length f \<and> f ! c = 0}"
  by (auto simp: free_clusters_def)

lemma free_clusters_distinct: "distinct (free_clusters f lo)"
  by (simp add: free_clusters_def)

text \<open>What the operations leave alone: everything outside the given clusters.\<close>

definition fat_frame :: "u32 list \<Rightarrow> u32 list \<Rightarrow> nat set \<Rightarrow> bool" where
  "fat_frame f g S \<longleftrightarrow> length g = length f \<and> (\<forall>x. x \<notin> S \<longrightarrow> g ! x = f ! x)"

lemma ExtendCluster_spec:
  assumes ok: "fat_ok f" and ch: "is_chain f cs" and dist: "distinct cs" and c: "c \<in> set cs"
  shows "n \<le> length (free_clusters f 2) \<Longrightarrow>
      \<exists>f'. ExtendCluster f c n = Some (f', last (cs @ take n (free_clusters f 2)))
        \<and> is_chain f' (cs @ take n (free_clusters f 2))
        \<and> fat_frame f f' (insert (last cs) (set (take n (free_clusters f 2))))"
    and "length (free_clusters f 2) < n \<Longrightarrow> ExtendCluster f c n = None"
proof -
  obtain xs ys where split: "cs = xs @ c # ys" using c by (meson split_list)
  have suf: "is_chain f (c # ys)" using ch split is_chain_suffix by auto
  define l where "l = last cs"
  have end_l: "chain_end f c = Some l" using chain_end_is_last [OF suf] split by (simp add: l_def)
  have l_in: "l \<in> set cs" "l < length f" "f ! l \<noteq> 0"
    using split ch is_chain_in_range is_chain_nonzero by (auto simp: l_def)
  have loop: "extend_loop f l 2 0 n = (if n \<le> length (free_clusters f 2)
      then Some (link f l (take n (free_clusters f 2))) else None)"
    using extend_loop_link [OF ok l_in(2), of 2 0 n] l_in(3) by simp
  show "ExtendCluster f c n = None" if "length (free_clusters f 2) < n"
    using that loop by (simp add: ExtendCluster_def end_l)
  define ds where "ds = take n (free_clusters f 2)"
  have ds: "set ds \<subseteq> {c. 2 \<le> c \<and> c < length f \<and> f ! c = 0}" "distinct ds"
    using set_take_subset [of n "free_clusters f 2"]
    by (auto simp: ds_def free_clusters_set free_clusters_distinct)
  have disj: "set ds \<inter> set cs = {}" using ds(1) ch is_chain_nonzero by fastforce
  let ?F = "(fst (link f l ds))[last (l # ds) := of_nat kEndOfClusterchain]"
  have dl: "distinct (l # ds)" using ds disj l_in by auto
  have "is_chain ?F (l # ds) \<and> (\<forall>x. x \<notin> set (l # ds) \<longrightarrow> ?F ! x = f ! x)"
    using ds l_in by (intro link_chain [OF ok dl l_in(2)]) (auto simp: kEnd_unat)
  then have F: "is_chain ?F (l # ds)" "\<And>x. x \<notin> set (l # ds) \<Longrightarrow> ?F ! x = f ! x" by auto
  have "cs \<noteq> []" using split by simp
  then have cs: "cs = butlast cs @ [l]" by (simp add: l_def)
  have lb: "l \<notin> set (butlast cs)" using dist cs by (metis distinct_append disjoint_iff list.set_intros(1))
  have "is_chain ?F (butlast cs @ l # ds)"
  proof (rule is_chain_append)
    show "is_chain f (butlast cs @ [l])" using ch cs by simp
    show "f ! x = ?F ! x" if "x \<in> set (butlast cs)" for x
      using that lb disj F(2) in_set_butlastD by fastforce
    show "is_chain ?F (l # ds)" by (rule F(1))
  qed (simp add: link_length)
  then have chain: "is_chain ?F (cs @ ds)" using cs by (metis append.assoc append_Cons append_Nil)
  have frame: "fat_frame f ?F (insert l (set ds))" using F(2) by (simp add: fat_frame_def link_length)
  show "\<exists>f'. ExtendCluster f c n = Some (f', last (cs @ take n (free_clusters f 2)))
        \<and> is_chain f' (cs @ take n (free_clusters f 2))
        \<and> fat_frame f f' (insert (last cs) (set (take n (free_clusters f 2))))"
    if n: "n \<le> length (free_clusters f 2)"
  proof (intro exI conjI)
    have lst: "last (l # ds) < length f" using ds(1) l_in(2) by (cases ds rule: rev_cases) auto
    have "link f l ds = (fst (link f l ds), last (l # ds))"
      using link_last [of f l ds] by (metis prod.collapse)
    then have "extend_loop f l 2 0 n = Some (fst (link f l ds), last (l # ds))"
      using loop n by (simp add: ds_def)
    moreover have "last (l # ds) = last (cs @ ds)" using split by (simp add: l_def)
    ultimately show "ExtendCluster f c n = Some (?F, last (cs @ take n (free_clusters f 2)))"
      using lst by (simp add: ExtendCluster_def end_l link_length ds_def)
    show "is_chain ?F (cs @ take n (free_clusters f 2))" using chain by (simp add: ds_def)
    show "fat_frame f ?F (insert (last cs) (set (take n (free_clusters f 2))))"
      using frame by (simp add: ds_def l_def)
  qed
qed

lemma first_free_spec:
  "first_free f c = (case free_clusters f c of [] \<Rightarrow> None | x # _ \<Rightarrow> Some x)"
proof (induction f c rule: first_free.induct)
  case (1 f c)
  show ?case
  proof (cases "c < length f")
    case True
    then show ?thesis using 1 [of "f ! c"] by (simp add: first_free.simps [of f c] free_clusters_Suc)
  next
    case False
    then show ?thesis by (simp add: first_free.simps [of f c] free_clusters_def)
  qed
qed

lemma FreeCluster_chain:
  "is_chain f (c # cs) \<Longrightarrow> distinct (c # cs) \<Longrightarrow>
     \<exists>f'. FreeCluster f c = Some f' \<and> length f' = length f
       \<and> (\<forall>x < length f. f' ! x = (if x \<in> set (c # cs) then 0 else f ! x))"
proof (induction cs arbitrary: c)
  case Nil
  then show ?case by (auto simp: FreeCluster.simps [of f c])
next
  case (Cons d ds)
  then obtain f1 where f1: "FreeCluster f d = Some f1" "length f1 = length f"
      "\<forall>x < length f. f1 ! x = (if x \<in> set (d # ds) then 0 else f ! x)" by fastforce
  from Cons.prems have "c < length f" "unat (f ! c) = d" "f ! c \<noteq> 0" "\<not> IsEndOfClusterchain d"
    by auto
  then have "FreeCluster f c = Some (f1[c := 0])" using f1 by (simp add: FreeCluster.simps [of f c])
  moreover have "f1[c := 0] ! x = (if x = c then 0 else f1 ! x)" if "x < length f" for x
    using that \<open>c < length f\<close> f1(2) by (simp add: nth_list_update)
  ultimately show ?case using f1 by auto
qed

lemma AllocateClusterChain_spec:
  assumes "fat_ok f" and "0 < n"
  shows "if n \<le> length (free_clusters f 2)
         then \<exists>f' c cs. AllocateClusterChain f n = Some (f', c)
                \<and> c # cs = take n (free_clusters f 2) \<and> is_chain f' (c # cs)
                \<and> fat_frame f f' (set (c # cs))
         else AllocateClusterChain f n = None"
proof (cases "free_clusters f 2")
  case Nil
  then show ?thesis using assms(2) by (simp add: AllocateClusterChain_def first_free_spec)
next
  case (Cons c rest)
  let ?f = "f[c := of_nat kEndOfClusterchain]"
  have c: "2 \<le> c" "c < length f" "f ! c = 0"
    using Cons free_clusters_set [of f 2] by auto
  have ff: "first_free f 2 = Some c" by (simp add: first_free_spec Cons)
  have ok: "fat_ok ?f" using assms(1) by (simp add: fat_ok_def)
  have ch: "is_chain ?f [c]" using c by (simp add: kEnd_unat)
  have fc: "free_clusters ?f 2 = rest"
  proof -
    have "free_clusters ?f 2 = filter (\<lambda>x. x \<noteq> c) (free_clusters f 2)"
      using c(2) kEnd_nonzero by (auto simp: free_clusters_def nth_list_update intro!: filter_cong)
    also have "\<dots> = rest"
      using Cons free_clusters_distinct [of f 2] by (auto simp: filter_id_conv)
    finally show ?thesis .
  qed
  obtain k where k: "n = Suc k" using assms(2) by (cases n) auto
  show ?thesis
  proof (cases "k = 0")
    case True
    then show ?thesis using k c ch by (simp add: AllocateClusterChain_def ff Cons fat_frame_def)
  next
    case False
    note E = ExtendCluster_spec [OF ok ch, of c k, unfolded fc]
    show ?thesis
    proof (cases "k \<le> length rest")
      case True
      with E(1) obtain f' where f': "ExtendCluster ?f c k = Some (f', last ([c] @ take k rest))"
          "is_chain f' ([c] @ take k rest)" "fat_frame ?f f' (insert c (set (take k rest)))" by auto
      have "AllocateClusterChain f n = Some (f', c)"
        using f'(1) k False c by (simp add: AllocateClusterChain_def ff)
      moreover have "fat_frame f f' (set (c # take k rest))"
        using f'(3) by (auto simp: fat_frame_def)
      ultimately show ?thesis using f'(2) k True by (simp add: Cons)
    next
      case False
      with E(2) have "ExtendCluster ?f c k = None" by simp
      then show ?thesis using k False \<open>k \<noteq> 0\<close> c by (simp add: AllocateClusterChain_def ff Cons)
    qed
  qed
qed

definition fat_example :: "u32 list" where
  "fat_example = [0x0ffffff8, 0x0fffffff, 0x0fffffff, 0, 7, 0, 0, 0x0fffffff, 0]"

lemma fat_example_free: "free_clusters fat_example 2 = [3, 5, 6, 8]"
  by (simp add: free_clusters_def fat_example_def upt_rec)

text \<open>
  C13: allocating a chain takes the lowest free entries of the table, links them into one chain that
  ends in the end mark, and changes no other entry; if the table has fewer free entries than asked
  for, the search runs out of the table (undefined behaviour, as the comment over the function
  warns).
\<close>

theorem AllocateClusterChain_links_free_entries:
  assumes "fat_ok f" and "0 < n"
  shows "if n \<le> length (free_clusters f 2)
         then \<exists>f' c cs. AllocateClusterChain f n = Some (f', c)
                \<and> c # cs = take n (free_clusters f 2) \<and> is_chain f' (c # cs)
                \<and> fat_frame f f' (set (c # cs))
         else AllocateClusterChain f n = None"
  by (rule AllocateClusterChain_spec [OF assms])

theorem AllocateClusterChain_links_free_entries_witness:
  "\<exists>f' c cs. AllocateClusterChain fat_example 3 = Some (f', c) \<and> c # cs = [3, 5, 6]
     \<and> is_chain f' (c # cs)"
proof -
  have "fat_ok fat_example" by (simp add: fat_ok_def fat_example_def)
  from AllocateClusterChain_links_free_entries [OF this, of 3]
  show ?thesis by (auto simp: fat_example_free)
qed

text \<open>
  freeing what was just allocated restores the table, entry by entry.
\<close>

theorem FreeCluster_undoes_AllocateClusterChain:
  assumes "fat_ok f" and "0 < n" and "AllocateClusterChain f n = Some (f', c)"
  shows "FreeCluster f' c = Some f"
proof -
  have "n \<le> length (free_clusters f 2)"
    using AllocateClusterChain_spec [OF assms(1,2)] assms(3)
    by (metis option.distinct(1))
  with AllocateClusterChain_spec [OF assms(1,2)] assms(3)
  obtain cs where cs: "c # cs = take n (free_clusters f 2)" "is_chain f' (c # cs)"
      "fat_frame f f' (set (c # cs))"
    by (metis (no_types, lifting) option.inject prod.inject)
  have dist: "distinct (c # cs)" using cs(1) free_clusters_distinct [of f 2] by (metis distinct_take)
  obtain g where g: "FreeCluster f' c = Some g" "length g = length f'"
      "\<forall>x < length f'. g ! x = (if x \<in> set (c # cs) then 0 else f' ! x)"
    using FreeCluster_chain [OF cs(2) dist] by blast
  have "set (c # cs) \<subseteq> {c. f ! c = 0}"
    using cs(1) set_take_subset [of n "free_clusters f 2"] by (auto simp: free_clusters_set)
  then have "g ! x = f ! x" if "x < length f" for x
    using g(2,3) cs(3) that by (cases "x \<in> set (c # cs)") (auto simp: fat_frame_def)
  then have "g = f" using g(2) cs(3) by (intro nth_equalityI) (auto simp: fat_frame_def)
  with g(1) show ?thesis by simp
qed

theorem FreeCluster_undoes_AllocateClusterChain_witness:
  "\<exists>f' c. AllocateClusterChain fat_example 3 = Some (f', c) \<and> FreeCluster f' c = Some fat_example"
proof -
  have ok: "fat_ok fat_example" by (simp add: fat_ok_def fat_example_def)
  from AllocateClusterChain_spec [OF ok, of 3]
  obtain f' c where a: "AllocateClusterChain fat_example 3 = Some (f', c)"
    by (auto simp: fat_example_free)
  from FreeCluster_undoes_AllocateClusterChain [OF ok _ a] a show ?thesis by auto
qed

section \<open>Addresses\<close>

text \<open>
  the address computation puts cluster 2 right behind the tables and each further cluster right
  behind its predecessor, so clusters are disjoint and disjoint from the tables, as long as the
  32-bit sector count of the tables does not overflow.
\<close>

theorem GetClusterAddr_layout:
  assumes "unat (reserved_sector_count b) + unat (num_fats b) * unat (fat_size_32 b) < 2 ^ 32"
  shows "GetClusterAddr base b (2 + k) =
    base + of_nat ((unat (reserved_sector_count b) + unat (num_fats b) * unat (fat_size_32 b))
                   * unat (bytes_per_sector b))
         + k * of_nat (unat (bytes_per_sector b) * unat (sectors_per_cluster b))"
proof -
  have prod: "unat (num_fats b) * unat (fat_size_32 b) < 2 ^ 32" using assms by simp
  have "unat (ucast (reserved_sector_count b) + ucast (num_fats b) * fat_size_32 b :: u32)
      = unat (reserved_sector_count b) + unat (num_fats b) * unat (fat_size_32 b)"
    using assms prod by (simp add: unat_word_ariths)
  then have "(ucast (ucast (reserved_sector_count b) + ucast (num_fats b) * fat_size_32 b :: u32) :: u64)
      = of_nat (unat (reserved_sector_count b) + unat (num_fats b) * unat (fat_size_32 b))"
    by (metis of_nat_unat)
  then show ?thesis
    by (simp add: GetClusterAddr_def Let_def algebra_simps)
qed

text \<open>The parameter block of a small volume.\<close>

definition bpb_example :: BPB where
  "bpb_example = \<lparr>jump_boot = [0xeb, 0x58, 0x90], oem_name = str ''MSWIN4.1'', bytes_per_sector = 512,
     sectors_per_cluster = 1, reserved_sector_count = 32, num_fats = 2, root_entry_count = 0,
     total_sectors_16 = 0, media = 0xf8, fat_size_16 = 0, sectors_per_track = 63, num_heads = 255,
     hidden_sectors = 0, total_sectors_32 = 65600, fat_size_32 = 1, ext_flags = 0, fs_version = 0,
     root_cluster = 2, fs_info = 1, backup_boot_sector = 6,
     reserved = replicate 12 0, drive_number = 0x80, reserved1 = 0,
     boot_signature = 0x29, volume_id = 0, volume_label = str ''NO NAME    '',
     fs_type = str ''FAT32   ''\<rparr>"

theorem GetClusterAddr_layout_witness:
  "GetClusterAddr 0x1000 bpb_example (2 + 3) = 0x1000 + of_nat ((32 + 2 * 1) * 512) + 3 * of_nat (512 * 1)"
  using GetClusterAddr_layout [of bpb_example "0x1000" 3] by (simp add: bpb_example_def)

end
