(* ===== verification/Fat_Dir.thy ===== *)
theory Fat_Dir imports Fat_Chain begin

text \<open>
  Directories, \<^verbatim>\<open>kernel/fat.cpp\<close>: looking a path up, allocating a directory entry, creating and
  deleting a file.  A pointer to a directory entry is the pair of its cluster and its index in the
  cluster.

  The loops over the clusters of a directory have no bound in the source; they are partial functions
  whose \<open>None\<close> is an access outside of the volume or a walk along a cyclic chain.
\<close>

type_synonym entry_ptr = "nat \<times> nat"

section \<open>Clusters and entries in memory\<close>

definition get_cluster :: "volume \<Rightarrow> nat \<Rightarrow> u8 list option" where
  "get_cluster v c = (if c < 2 then None else arr_get (clusters v) (c - 2))"

definition put_cluster :: "volume \<Rightarrow> nat \<Rightarrow> u8 list \<Rightarrow> volume option" where
  "put_cluster v c b = (if c < 2 then None
     else map_option (\<lambda>cl. v\<lparr>clusters := cl\<rparr>) (arr_set (clusters v) (c - 2) b))"

definition entry_bytes :: "volume \<Rightarrow> entry_ptr \<Rightarrow> u8 list option" where
  "entry_bytes v p = (case p of (c, i) \<Rightarrow> do {
     b \<leftarrow> get_cluster v c;
     if kEntrySize * i + kEntrySize \<le> length b then Some (slice (kEntrySize * i) kEntrySize b) else None
   })"

definition get_entry :: "volume \<Rightarrow> entry_ptr \<Rightarrow> DirectoryEntry option" where
  "get_entry v p = map_option decode_entry (entry_bytes v p)"

definition overwrite :: "nat \<Rightarrow> 'a list \<Rightarrow> 'a list \<Rightarrow> 'a list" where
  "overwrite off new xs = take off xs @ new @ drop (off + length new) xs"

definition put_entry :: "volume \<Rightarrow> entry_ptr \<Rightarrow> DirectoryEntry \<Rightarrow> volume option" where
  "put_entry v p e = (case p of (c, i) \<Rightarrow> do {
     b \<leftarrow> get_cluster v c;
     if kEntrySize * i + kEntrySize \<le> length b
     then put_cluster v c (overwrite (kEntrySize * i) (encode_entry e) b) else None
   })"

section \<open>Path lookup\<close>

datatype dir_scan = DirHit nat | DirEnd | DirMore

text \<open>The loop over the entries of one cluster in \<^verbatim>\<open>FindFile\<close>.\<close>

function scan_cluster :: "volume \<Rightarrow> cstr \<Rightarrow> nat \<Rightarrow> nat \<Rightarrow> dir_scan option" where
  "scan_cluster v path_elem dir_cluster i =
     (if i < bytes_per_cluster v div kEntrySize then
        case get_entry v (dir_cluster, i) of
          None \<Rightarrow> None
        | Some e \<Rightarrow>
            if de_name e ! 0 = 0 then Some DirEnd
            else if \<not> NameIsEqual e path_elem then scan_cluster v path_elem dir_cluster (Suc i)
            else Some (DirHit i)
      else Some DirMore)"
  by pat_completeness auto
termination
  by (relation "measure (\<lambda>(v, e, c, i). bytes_per_cluster v div kEntrySize - i)") auto

declare scan_cluster.simps [simp del]

text \<open>The loop over the clusters; \<open>Some None\<close> is the null pointer.\<close>

partial_function (option) scan_directory :: "volume \<Rightarrow> cstr \<Rightarrow> nat \<Rightarrow> entry_ptr option option" where
  "scan_directory v path_elem directory_cluster =
     (if directory_cluster = kEndOfClusterchain then Some None
      else case scan_cluster v path_elem directory_cluster 0 of
             None \<Rightarrow> None
           | Some (DirHit i) \<Rightarrow> Some (Some (directory_cluster, i))
           | Some DirEnd \<Rightarrow> Some None
           | Some DirMore \<Rightarrow> (case NextCluster (fat v) directory_cluster of
                 None \<Rightarrow> None
               | Some next \<Rightarrow> scan_directory v path_elem next))"

definition root_dir :: "volume \<Rightarrow> nat" where
  "root_dir v = unat (root_cluster (bpb v))"

text \<open>The first lines of \<^verbatim>\<open>FindFile\<close>: where the lookup starts.\<close>

definition path_start :: "volume \<Rightarrow> cstr \<Rightarrow> nat \<Rightarrow> cstr \<times> nat" where
  "path_start v path directory_cluster =
     (if path \<noteq> [] \<and> hd path = kSlash then (tl path, root_dir v)
      else (path, if directory_cluster = 0 then root_dir v else directory_cluster))"

lemma NextPathElement_shorter:
  "NextPathElement path = Some (e, Some rest, post) \<Longrightarrow> length rest < length path"
  by (auto simp: NextPathElement_def split: option.splits if_splits dest: strchr_Some)

lemma path_start_length: "length (fst (path_start v path dc)) \<le> length path"
  by (cases path) (auto simp: path_start_def)

lemma path_rest_shorter:
  "NextPathElement (fst (path_start v path dc)) = Some (e, Some rest, post)
   \<Longrightarrow> length rest < length path"
  using path_start_length [of v path dc] by (auto dest!: NextPathElement_shorter)

function FindFile :: "volume \<Rightarrow> cstr \<Rightarrow> nat \<Rightarrow> (entry_ptr option \<times> bool) option" where
  "FindFile v path directory_cluster =
     (case NextPathElement (fst (path_start v path directory_cluster)) of
        None \<Rightarrow> None
      | Some (path_elem, next_path, post_slash) \<Rightarrow>
          (case scan_directory v path_elem (snd (path_start v path directory_cluster)) of
             None \<Rightarrow> None
           | Some None \<Rightarrow> Some (None, post_slash)
           | Some (Some p) \<Rightarrow>
               (case get_entry v p of
                  None \<Rightarrow> None
                | Some e \<Rightarrow>
                    (case next_path of
                       None \<Rightarrow> Some (Some p, post_slash)
                     | Some rest \<Rightarrow>
                         if attr e = kDirectory \<and> rest \<noteq> []
                         then FindFile v rest (unat (FirstCluster e))
                         else Some (Some p, post_slash)))))"
  by pat_completeness auto
termination
  by (relation "measure (\<lambda>(v, path, dc). length path)") (auto dest!: path_rest_shorter)

declare FindFile.simps [simp del]

section \<open>Allocating, creating, deleting\<close>

text \<open>The search loop of \<^verbatim>\<open>AllocateEntry\<close> in one cluster, then over the clusters of the directory.\<close>

function free_slot :: "volume \<Rightarrow> nat \<Rightarrow> nat \<Rightarrow> nat option option" where
  "free_slot v dir_cluster i =
     (if i < bytes_per_cluster v div kEntrySize then
        case get_entry v (dir_cluster, i) of
          None \<Rightarrow> None
        | Some e \<Rightarrow>
            if de_name e ! 0 = 0 \<or> de_name e ! 0 = 0xe5 then Some (Some i)
            else free_slot v dir_cluster (Suc i)
      else Some None)"
  by pat_completeness auto
termination
  by (relation "measure (\<lambda>(v, c, i). bytes_per_cluster v div kEntrySize - i)") auto

declare free_slot.simps [simp del]

text \<open>\<open>Inl\<close> is a free slot, \<open>Inr\<close> the last cluster of a directory without one.\<close>

partial_function (option) find_slot :: "volume \<Rightarrow> nat \<Rightarrow> (entry_ptr + nat) option" where
  "find_slot v dir_cluster = (case free_slot v dir_cluster 0 of
     None \<Rightarrow> None
   | Some (Some i) \<Rightarrow> Some (Inl (dir_cluster, i))
   | Some None \<Rightarrow> (case NextCluster (fat v) dir_cluster of
         None \<Rightarrow> None
       | Some next \<Rightarrow> if next = kEndOfClusterchain then Some (Inr dir_cluster)
                      else find_slot v next))"

definition AllocateEntry :: "volume \<Rightarrow> nat \<Rightarrow> (volume \<times> entry_ptr) option" where
  "AllocateEntry v dir_cluster = (case find_slot v dir_cluster of
     None \<Rightarrow> None
   | Some (Inl p) \<Rightarrow> Some (v, p)
   | Some (Inr dir_end) \<Rightarrow> do {
       (f', new) \<leftarrow> ExtendCluster (fat v) dir_end 1;
       b \<leftarrow> get_cluster v new;
       v' \<leftarrow> put_cluster (v\<lparr>fat := f'\<rparr>) new (overwrite 0 (replicate (bytes_per_cluster v) 0) b);
       Some (v', (new, 0))
     })"

text \<open>The part of \<^verbatim>\<open>CreateFile\<close> that finds the parent directory: its cluster and the file's name.\<close>

definition parent_of :: "volume \<Rightarrow> cstr \<Rightarrow> (error_code + (nat \<times> cstr)) option" where
  "parent_of v path = (case strrchr path kSlash of
     None \<Rightarrow> Some (Inr (root_dir v, path))
   | Some slash_pos \<Rightarrow>
       let filename = drop (Suc slash_pos) path; parent_dir_name = take slash_pos path in
       if filename = [] then Some (Inl kIsDirectory)
       else if parent_dir_name = [] then Some (Inr (root_dir v, filename))
       else (case FindFile v parent_dir_name 0 of
               None \<Rightarrow> None
             | Some (None, _) \<Rightarrow> Some (Inl kNoSuchEntry)
             | Some (Some p, _) \<Rightarrow> (case get_entry v p of
                   None \<Rightarrow> None
                 | Some parent_dir \<Rightarrow>
                     if attr parent_dir \<noteq> kDirectory then Some (Inl kIsNotDirectory)
                     else Some (Inr (unat (FirstCluster parent_dir), filename)))))"

definition CreateFile :: "volume \<Rightarrow> cstr \<Rightarrow> (volume \<times> (error_code + entry_ptr)) option" where
  "CreateFile v path = (case parent_of v path of
     None \<Rightarrow> None
   | Some (Inl err) \<Rightarrow> Some (v, Inl err)
   | Some (Inr (parent_dir_cluster, filename)) \<Rightarrow> do {
       (v', dir) \<leftarrow> AllocateEntry v parent_dir_cluster;
       e \<leftarrow> get_entry v' dir;
       v'' \<leftarrow> put_entry v' dir ((SetFileName e filename)\<lparr>file_size := 0\<rparr>);
       Some (v'', Inr dir)
     })"

text \<open>\<^verbatim>\<open>file_entry - 1\<close>: clusters are contiguous, so the entry before the first is the last of the cluster before.\<close>

definition prev_entry :: "volume \<Rightarrow> entry_ptr \<Rightarrow> entry_ptr" where
  "prev_entry v p = (case p of (c, i) \<Rightarrow>
     if 0 < i then (c, i - 1) else (c - 1, bytes_per_cluster v div kEntrySize - 1))"

text \<open>The result of \<^verbatim>\<open>DeleteFile\<close> is the error and the message it puts into \<^verbatim>\<open>err_str\<close>.\<close>

definition DeleteFile :: "volume \<Rightarrow> cstr \<Rightarrow> (volume \<times> error_code \<times> cstr) option" where
  "DeleteFile v path = (case FindFile v path 0 of
     None \<Rightarrow> None
   | Some (None, _) \<Rightarrow> Some (v, kInvalidFile, str ''no such file:'' @ path @ [10])
   | Some (Some p, post_slash) \<Rightarrow> (case get_entry v p of
       None \<Rightarrow> None
     | Some e \<Rightarrow>
         if attr e \<noteq> kDirectory \<and> post_slash
         then Some (v, kInvalidFile, FormatName e @ str '' is not a directory'' @ [10])
         else if attr e = kDirectory
         then Some (v, kInvalidFile, FormatName e @ str '' is  a directory'' @ [10])
         else if attr e = kSystem
         then Some (v, kInvalidFile, FormatName e @ str '' is  a system file'' @ [10])
         else do {
           prev \<leftarrow> get_entry v (prev_entry v p);
           if attr prev = kLongName
           then Some (v, kInvalidFile, FormatName e @ str '' is a LNF'' @ [10])
           else do {
             f' \<leftarrow> FreeCluster (fat v) (unat (FirstCluster e));
             v' \<leftarrow> put_entry (v\<lparr>fat := f'\<rparr>) p (e\<lparr>de_name := (de_name e)[0 := 0xe5]\<rparr>);
             Some (v', kSuccess, [])
           }
         }))"

section \<open>Well-formed volumes and directories\<close>

definition vol_ok :: "volume \<Rightarrow> bool" where
  "vol_ok v \<longleftrightarrow> fat_ok (fat v) \<and> length (fat v) \<le> length (clusters v) + 2
     \<and> (\<forall>b \<in> set (clusters v). length b = bytes_per_cluster v)
     \<and> 0 < bytes_per_cluster v \<and> bytes_per_cluster v mod kEntrySize = 0"

definition dir_ok :: "volume \<Rightarrow> nat list \<Rightarrow> bool" where
  "dir_ok v cs \<longleftrightarrow> is_chain (fat v) cs \<and> distinct cs \<and> (\<forall>c \<in> set cs. 2 \<le> c)"

definition entries_per_cluster :: "volume \<Rightarrow> nat" where
  "entries_per_cluster v = bytes_per_cluster v div kEntrySize"

definition slots :: "volume \<Rightarrow> nat list \<Rightarrow> entry_ptr list" where
  "slots v cs = concat (map (\<lambda>c. map (Pair c) [0..<entries_per_cluster v]) cs)"

definition entry :: "volume \<Rightarrow> entry_ptr \<Rightarrow> DirectoryEntry" where
  "entry v p = decode_entry (slice (kEntrySize * snd p) kEntrySize (clusters v ! (fst p - 2)))"

definition in_volume :: "volume \<Rightarrow> entry_ptr \<Rightarrow> bool" where
  "in_volume v p \<longleftrightarrow> 2 \<le> fst p \<and> fst p < length (fat v) \<and> snd p < entries_per_cluster v"

lemma slots_Cons: "slots v (c # cs) = map (Pair c) [0..<entries_per_cluster v] @ slots v cs"
  by (simp add: slots_def)

lemma slots_append: "slots v (cs @ ds) = slots v cs @ slots v ds"
  by (simp add: slots_def)

lemma slots_in_volume: "dir_ok v cs \<Longrightarrow> p \<in> set (slots v cs) \<Longrightarrow> in_volume v p"
  using is_chain_in_range by (fastforce simp: dir_ok_def slots_def in_volume_def)

lemma vol_bytes: "vol_ok v \<Longrightarrow> bytes_per_cluster v = kEntrySize * entries_per_cluster v"
  using mult_div_mod_eq [of kEntrySize "bytes_per_cluster v"]
  by (simp add: vol_ok_def entries_per_cluster_def)

lemma get_cluster_in:
  "vol_ok v \<Longrightarrow> 2 \<le> c \<Longrightarrow> c < length (fat v) \<Longrightarrow>
     get_cluster v c = Some (clusters v ! (c - 2)) \<and> length (clusters v ! (c - 2)) = bytes_per_cluster v"
proof -
  assume a: "vol_ok v" "2 \<le> c" "c < length (fat v)"
  then have "c - 2 < length (clusters v)" by (auto simp: vol_ok_def)
  with a show ?thesis by (simp add: get_cluster_def vol_ok_def)
qed

lemma slot_fits: "i < n \<Longrightarrow> kEntrySize * i + kEntrySize \<le> kEntrySize * n"
  by (simp add: kEntrySize_def)

lemma get_entry_in:
  assumes "vol_ok v" and "in_volume v p"
  shows "get_entry v p = Some (entry v p)"
  using get_cluster_in [OF assms(1), of "fst p"] assms vol_bytes [OF assms(1)]
  by (cases p) (simp add: get_entry_def entry_bytes_def entry_def in_volume_def slot_fits)

section \<open>Lookup, as a search in the list of entries\<close>

text \<open>
  What the two nested loops compute: the first entry with the name, among those before the end mark.
\<close>

fun find_live :: "volume \<Rightarrow> cstr \<Rightarrow> entry_ptr list \<Rightarrow> entry_ptr option" where
  "find_live v name [] = None"
| "find_live v name (p # ps) =
     (if de_name (entry v p) ! 0 = 0 then None
      else if NameIsEqual (entry v p) name then Some p
      else find_live v name ps)"

lemma scan_cluster_spec:
  assumes "vol_ok v" and "2 \<le> c" and "c < length (fat v)"
  shows "\<exists>r. scan_cluster v name c i = Some r
     \<and> (\<forall>qs. find_live v name (map (Pair c) [i..<entries_per_cluster v] @ qs)
          = (case r of DirHit j \<Rightarrow> Some (c, j) | DirEnd \<Rightarrow> None | DirMore \<Rightarrow> find_live v name qs))"
  using assms
proof (induction v name c i rule: scan_cluster.induct)
  case (1 v name c i)
  show ?case
  proof (cases "i < entries_per_cluster v")
    case False
    then show ?thesis
      by (auto simp: scan_cluster.simps [of v name c i] entries_per_cluster_def [symmetric])
  next
    case True
    have e: "get_entry v (c, i) = Some (entry v (c, i))"
      using "1.prems" True by (intro get_entry_in) (auto simp: in_volume_def)
    have l: "[i..<entries_per_cluster v] = i # [Suc i..<entries_per_cluster v]"
      using True by (rule upt_conv_Cons)
    note s = scan_cluster.simps [of v name c i, folded entries_per_cluster_def]
    consider "de_name (entry v (c, i)) ! 0 = 0"
      | "de_name (entry v (c, i)) ! 0 \<noteq> 0" "NameIsEqual (entry v (c, i)) name"
      | "de_name (entry v (c, i)) ! 0 \<noteq> 0" "\<not> NameIsEqual (entry v (c, i)) name" by blast
    then show ?thesis
    proof cases
      case 3
      then show ?thesis
        using "1.IH" [folded entries_per_cluster_def, OF True e] "1.prems" True e l s by simp
    qed (use True e l s in simp_all)
  qed
qed

lemma scan_directory_spec:
  assumes "vol_ok v"
  shows "dir_ok v (c # cs) \<Longrightarrow> scan_directory v name c = Some (find_live v name (slots v (c # cs)))"
proof (induction cs arbitrary: c)
  case Nil
  then have c: "2 \<le> c" "c < length (fat v)" and ch: "is_chain (fat v) [c]" by (auto simp: dir_ok_def)
  have "c \<noteq> kEndOfClusterchain"
    using c assms by (simp add: vol_ok_def fat_ok_def kEndOfClusterchain_def)
  moreover obtain r where r: "scan_cluster v name c 0 = Some r"
      "\<forall>qs. find_live v name (map (Pair c) [0..<entries_per_cluster v] @ qs)
          = (case r of DirHit j \<Rightarrow> Some (c, j) | DirEnd \<Rightarrow> None | DirMore \<Rightarrow> find_live v name qs)"
    using scan_cluster_spec [OF assms c, of name 0] by blast
  have "find_live v name (slots v [c])
      = (case r of DirHit j \<Rightarrow> Some (c, j) | DirEnd \<Rightarrow> None | DirMore \<Rightarrow> None)"
    using r(2) [rule_format, of "[]"] by (simp add: slots_def cong: dir_scan.case_cong)
  ultimately show ?case using NextCluster_chain(2) [OF ch] r(1)
    by (simp add: scan_directory.simps [of v name c] split: dir_scan.splits)
      (simp add: scan_directory.simps [of v name kEndOfClusterchain])
next
  case (Cons d ds)
  then have c: "2 \<le> c" "c < length (fat v)" and ch: "is_chain (fat v) (c # d # ds)"
    by (auto simp: dir_ok_def)
  have "c \<noteq> kEndOfClusterchain"
    using c assms by (simp add: vol_ok_def fat_ok_def kEndOfClusterchain_def)
  moreover have "dir_ok v (d # ds)" using Cons.prems by (auto simp: dir_ok_def)
  moreover obtain r where r: "scan_cluster v name c 0 = Some r"
      "\<forall>qs. find_live v name (map (Pair c) [0..<entries_per_cluster v] @ qs)
          = (case r of DirHit j \<Rightarrow> Some (c, j) | DirEnd \<Rightarrow> None | DirMore \<Rightarrow> find_live v name qs)"
    using scan_cluster_spec [OF assms c, of name 0] by blast
  ultimately show ?case using NextCluster_chain(1) [OF ch] Cons.IH r(1)
    by (simp add: scan_directory.simps [of v name c] slots_Cons [of v c] r(2) split: dir_scan.splits)
qed

lemma FindFile_one:
  assumes "vol_ok v" and "dir_ok v (c # cs)" and "c = (if dc = 0 then root_dir v else dc)"
    and "kSlash \<notin> set name" and "length name < 13"
  shows "FindFile v name dc = Some (find_live v name (slots v (c # cs)), False)"
proof -
  have ps: "path_start v name dc = (name, c)"
    using assms(3,4) by (cases name) (auto simp: path_start_def)
  have "get_entry v p = Some (entry v p)" if "find_live v name (slots v (c # cs)) = Some p" for p
  proof -
    have "find_live v name xs = Some p \<Longrightarrow> p \<in> set xs" for xs
      by (induction xs) (auto split: if_splits)
    with that have "p \<in> set (slots v (c # cs))" by blast
    then show ?thesis using slots_in_volume [OF assms(2)] get_entry_in [OF assms(1)] by blast
  qed
  then show ?thesis
    using scan_directory_spec [OF assms(1,2), of name] NextPathElement_plain [OF assms(4,5)]
    by (auto simp: FindFile.simps [of v name dc] ps split: option.splits)
qed

text \<open>A path with a directory in front is looked up in that directory's chain.\<close>

lemma FindFile_into:
  assumes "vol_ok v" and "dir_ok v (c # cs)" and "c = (if dc = 0 then root_dir v else dc)"
    and "kSlash \<notin> set d" and "length d < 13" and "d \<noteq> []" and "rest \<noteq> []"
    and "find_live v d (slots v (c # cs)) = Some p" and "attr (entry v p) = kDirectory"
  shows "FindFile v (d @ kSlash # rest) dc = FindFile v rest (unat (FirstCluster (entry v p)))"
proof -
  have ps: "path_start v (d @ kSlash # rest) dc = (d @ kSlash # rest, c)"
    using assms(3,4,6) by (cases d) (auto simp: path_start_def)
  have "find_live v name xs = Some p \<Longrightarrow> p \<in> set xs" for name xs
    by (induction xs) (auto split: if_splits)
  then have "get_entry v p = Some (entry v p)"
    using assms(8) slots_in_volume [OF assms(2)] get_entry_in [OF assms(1)] by blast
  then show ?thesis
    using scan_directory_spec [OF assms(1,2), of d] NextPathElement_slash [OF assms(4,5), of rest] assms
    by (simp add: FindFile.simps [of v "d @ kSlash # rest" dc] ps)
qed

section \<open>Writing entries\<close>

lemma overwrite_length [simp]: "off + length new \<le> length xs \<Longrightarrow> length (overwrite off new xs) = length xs"
  by (simp add: overwrite_def)

lemma slice_overwrite:
  assumes "length new = k" and "k * i + k \<le> length b" and "k * j + k \<le> length b"
  shows "slice (k * j) k (overwrite (k * i) new b) = (if i = j then new else slice (k * j) k b)"
proof (cases "i = j")
  case True
  then show ?thesis using assms by (simp add: slice_def overwrite_def)
next
  case False
  have "overwrite (k * i) new b ! (k * j + x) = b ! (k * j + x)" if "x < k" for x
  proof (cases "i < j")
    case True
    then have le: "k * i + k \<le> k * j" using mult_le_mono2 [of "Suc i" j k] by simp
    then have "\<not> k * j + x < k * i" "\<not> k * j + x - k * i < k" by linarith+
    with le show ?thesis using that assms by (simp add: overwrite_def nth_append min_def)
  next
    case False
    with \<open>i \<noteq> j\<close> have "k * j + k \<le> k * i" using mult_le_mono2 [of "Suc j" i k] by simp
    then show ?thesis using that assms by (simp add: overwrite_def nth_append min_def)
  qed
  with False assms show ?thesis
    by (intro nth_equalityI) (simp_all add: slice_def overwrite_def [of _ _ b, symmetric])
qed

lemma put_entry_spec:
  assumes ok: "vol_ok v" and p: "in_volume v p" and len: "length (de_name e) = 11"
  obtains v' where "put_entry v p e = Some v'" "vol_ok v'" "fat v' = fat v" "bpb v' = bpb v"
    "bytes_per_cluster v' = bytes_per_cluster v" "length (clusters v') = length (clusters v)"
    "\<And>q. in_volume v q \<Longrightarrow> entry v' q = (if q = p then e else entry v q)"
proof -
  obtain c i where ci: "p = (c, i)" by (cases p)
  let ?b = "clusters v ! (c - 2)"
  let ?n = "overwrite (kEntrySize * i) (encode_entry e) ?b"
  have c: "2 \<le> c" "c < length (fat v)" "i < entries_per_cluster v" using p ci by (auto simp: in_volume_def)
  then have cl: "c - 2 < length (clusters v)" using ok by (auto simp: vol_ok_def)
  note g = get_cluster_in [OF ok c(1,2)]
  have fit: "kEntrySize * i + kEntrySize \<le> length ?b"
    using g vol_bytes [OF ok] slot_fits [OF c(3)] by simp
  have enc: "length (encode_entry e) = kEntrySize" using len by (rule encode_entry_length)
  let ?v = "v\<lparr>clusters := (clusters v)[c - 2 := ?n]\<rparr>"
  have pe: "put_entry v p e = Some ?v"
    using g fit c cl ci by (simp add: put_entry_def put_cluster_def)
  have vo: "vol_ok ?v"
    using ok g fit enc by (auto simp: vol_ok_def dest!: set_update_subset_insert [THEN subsetD])
  have en: "entry ?v q = (if q = p then e else entry v q)" if "in_volume v q" for q
  proof -
    obtain d j where q: "q = (d, j)" by (cases q)
    have d: "2 \<le> d" "d < length (fat v)" "j < entries_per_cluster v"
      using that q by (auto simp: in_volume_def)
    show ?thesis
    proof (cases "d = c")
      case True
      have "kEntrySize * j + kEntrySize \<le> length ?b"
        using g vol_bytes [OF ok] slot_fits [OF d(3)] by simp
      then show ?thesis
        using True cl ci q slice_overwrite [OF enc fit] decode_encode_entry [OF len]
        by (auto simp: entry_def)
    next
      case False
      then have "d - 2 \<noteq> c - 2" using c d by simp
      with False show ?thesis using ci q by (auto simp: entry_def)
    qed
  qed
  show thesis by (rule that [OF pe vo]) (simp_all add: en del: split_paired_All)
qed

lemma in_volume_same:
  "fat v' = fat v \<Longrightarrow> bytes_per_cluster v' = bytes_per_cluster v \<Longrightarrow> in_volume v' p = in_volume v p"
  by (simp add: in_volume_def entries_per_cluster_def)

section \<open>Finding or making a free slot\<close>

definition used :: "volume \<Rightarrow> entry_ptr \<Rightarrow> bool" where
  "used v p \<longleftrightarrow> de_name (entry v p) ! 0 \<noteq> 0 \<and> de_name (entry v p) ! 0 \<noteq> 0xe5"

lemma free_slot_spec:
  assumes "vol_ok v" and "2 \<le> c" and "c < length (fat v)" and "i \<le> entries_per_cluster v"
    and "\<forall>j < i. used v (c, j)"
  shows "(free_slot v c i = Some None \<and> (\<forall>j < entries_per_cluster v. used v (c, j)))
    \<or> (\<exists>k < entries_per_cluster v. free_slot v c i = Some (Some k) \<and> \<not> used v (c, k)
         \<and> (\<forall>j < k. used v (c, j)))"
  using assms
proof (induction v c i rule: free_slot.induct)
  case (1 v c i)
  note s = free_slot.simps [of v c i, folded entries_per_cluster_def]
  show ?case
  proof (cases "i < entries_per_cluster v")
    case False
    then have "free_slot v c i = Some None" by (simp add: s)
    moreover have "i = entries_per_cluster v" using False "1.prems"(4) by simp
    ultimately show ?thesis using "1.prems"(5) by auto
  next
    case True
    have e: "get_entry v (c, i) = Some (entry v (c, i))"
      using "1.prems" True by (intro get_entry_in) (auto simp: in_volume_def)
    show ?thesis
    proof (cases "used v (c, i)")
      case False
      with True e "1.prems"(5) show ?thesis by (auto simp: s used_def)
    next
      case u: True
      have "\<forall>j < Suc i. used v (c, j)" using u "1.prems"(5) less_Suc_eq by auto
      then show ?thesis
        using "1.IH" [folded entries_per_cluster_def, OF True e] "1.prems" True u e
        by (simp add: s used_def)
    qed
  qed
qed

lemma find_slot_spec:
  assumes "vol_ok v"
  shows "dir_ok v (c # cs) \<Longrightarrow>
    (find_slot v c = Some (Inr (last (c # cs))) \<and> (\<forall>p \<in> set (slots v (c # cs)). used v p))
    \<or> (\<exists>qs p rs. find_slot v c = Some (Inl p) \<and> slots v (c # cs) = qs @ p # rs \<and> \<not> used v p
         \<and> (\<forall>q \<in> set qs. used v q))"
proof (induction cs arbitrary: c)
  case (Nil c)
  then have c: "2 \<le> c" "c < length (fat v)" and ch: "is_chain (fat v) [c]" by (auto simp: dir_ok_def)
  have "(free_slot v c 0 = Some None \<and> (\<forall>j < entries_per_cluster v. used v (c, j)))
    \<or> (\<exists>k < entries_per_cluster v. free_slot v c 0 = Some (Some k) \<and> \<not> used v (c, k)
         \<and> (\<forall>j < k. used v (c, j)))"
    using free_slot_spec [OF assms c, of 0] by simp
  then show ?case
  proof (elim disjE exE conjE)
    assume "free_slot v c 0 = Some None" "\<forall>j < entries_per_cluster v. used v (c, j)"
    then show ?thesis using NextCluster_chain(2) [OF ch]
      by (simp add: find_slot.simps [of v c] slots_def)
  next
    fix k assume k: "k < entries_per_cluster v" "free_slot v c 0 = Some (Some k)" "\<not> used v (c, k)"
      "\<forall>j < k. used v (c, j)"
    then have "slots v [c] = map (Pair c) [0..<k] @ (c, k) # map (Pair c) [Suc k..<entries_per_cluster v]"
      using upt_add_eq_append [of 0 k "entries_per_cluster v - k"]
      by (simp add: slots_def upt_conv_Cons)
    moreover have "\<forall>q \<in> set (map (Pair c) [0..<k]). used v q" using k(4) by auto
    moreover have "find_slot v c = Some (Inl (c, k))" using k by (simp add: find_slot.simps [of v c])
    ultimately show ?thesis using k(3) by blast
  qed
next
  case (Cons d ds c)
  then have c: "2 \<le> c" "c < length (fat v)" and ch: "is_chain (fat v) (c # d # ds)"
    and d: "dir_ok v (d # ds)" by (auto simp: dir_ok_def)
  have nd: "d \<noteq> kEndOfClusterchain" using ch kEnd_unat(2) by auto
  have "(free_slot v c 0 = Some None \<and> (\<forall>j < entries_per_cluster v. used v (c, j)))
    \<or> (\<exists>k < entries_per_cluster v. free_slot v c 0 = Some (Some k) \<and> \<not> used v (c, k)
         \<and> (\<forall>j < k. used v (c, j)))"
    using free_slot_spec [OF assms c, of 0] by simp
  then show ?case
  proof (elim disjE exE conjE)
    assume f: "free_slot v c 0 = Some None" "\<forall>j < entries_per_cluster v. used v (c, j)"
    then have fs: "find_slot v c = find_slot v d" using NextCluster_chain(1) [OF ch] nd
      by (simp add: find_slot.simps [of v c])
    have u: "\<forall>q \<in> set (map (Pair c) [0..<entries_per_cluster v]). used v q" using f(2) by auto
    from Cons.IH [OF d] show ?thesis
    proof (elim disjE exE conjE)
      fix qs p rs assume "find_slot v d = Some (Inl p)" "slots v (d # ds) = qs @ p # rs"
        "\<not> used v p" "\<forall>q \<in> set qs. used v q"
      then show ?thesis
        by (intro disjI2 exI [of _ "map (Pair c) [0..<entries_per_cluster v] @ qs"] exI [of _ p]
            exI [of _ rs]) (use u fs in \<open>auto simp: slots_Cons [of v c]\<close>)
    qed (use u fs in \<open>auto simp: slots_Cons [of v c]\<close>)
  next
    fix k assume k: "k < entries_per_cluster v" "free_slot v c 0 = Some (Some k)" "\<not> used v (c, k)"
      "\<forall>j < k. used v (c, j)"
    then have "slots v (c # d # ds) = map (Pair c) [0..<k]
        @ (c, k) # map (Pair c) [Suc k..<entries_per_cluster v] @ slots v (d # ds)"
      using upt_add_eq_append [of 0 k "entries_per_cluster v - k"]
      by (simp add: slots_Cons upt_conv_Cons)
    moreover have "\<forall>q \<in> set (map (Pair c) [0..<k]). used v q" using k(4) by auto
    moreover have "find_slot v c = Some (Inl (c, k))" using k by (simp add: find_slot.simps [of v c])
    ultimately show ?thesis using k(3) by blast
  qed
qed

lemma put_cluster_spec:
  assumes ok: "vol_ok v" and d: "2 \<le> d" "d < length (fat v)" and f: "fat_frame (fat v) f' S"
    and len: "length b = bytes_per_cluster v"
  obtains v' where "put_cluster (v\<lparr>fat := f'\<rparr>) d b = Some v'" "vol_ok v'" "fat v' = f'"
    "bpb v' = bpb v" "bytes_per_cluster v' = bytes_per_cluster v"
    "\<And>q. in_volume v q \<Longrightarrow> fst q \<noteq> d \<Longrightarrow> entry v' q = entry v q"
    "\<And>i. entry v' (d, i) = decode_entry (slice (kEntrySize * i) kEntrySize b)"
proof -
  let ?v = "v\<lparr>fat := f', clusters := (clusters v)[d - 2 := b]\<rparr>"
  have cl: "d - 2 < length (clusters v)" using ok d by (auto simp: vol_ok_def)
  have e: "put_cluster (v\<lparr>fat := f'\<rparr>) d b = Some ?v" using d cl by (simp add: put_cluster_def)
  have o: "vol_ok ?v"
    using ok f len by (auto simp: vol_ok_def fat_ok_def fat_frame_def
        dest!: set_update_subset_insert [THEN subsetD])
  have q: "entry ?v q = entry v q" if "in_volume v q" "fst q \<noteq> d" for q
  proof -
    have "fst q - 2 \<noteq> d - 2" using that d by (auto simp: in_volume_def)
    then show ?thesis by (simp add: entry_def)
  qed
  have i: "entry ?v (d, i) = decode_entry (slice (kEntrySize * i) kEntrySize b)" for i
    using cl by (simp add: entry_def)
  show thesis by (rule that [OF e o]) (simp_all add: q i del: split_paired_All)
qed

lemma un16_zero: "un16 (replicate 2 0) = 0"
  by (simp add: numeral_2_eq_2)

lemma AllocateEntry_spec:
  assumes ok: "vol_ok v" and dir: "dir_ok v (c # cs)" and space: "free_clusters (fat v) 2 \<noteq> []"
    and n: "0 < entries_per_cluster v"
  obtains v1 p cs1 qs rs where "AllocateEntry v c = Some (v1, p)" "vol_ok v1" "dir_ok v1 (c # cs1)"
    "bpb v1 = bpb v" "slots v1 (c # cs1) = qs @ p # rs" "\<not> used v1 p"
    "\<forall>q \<in> set qs. used v q \<and> entry v1 q = entry v q" "\<exists>ts. slots v (c # cs) = qs @ ts"
    "v1 = v \<and> p \<in> set (slots v (c # cs)) \<or> FirstCluster (entry v1 p) = 0
       \<and> (\<exists>d. set (free_clusters (fat v) 2) \<subseteq> insert d (set (free_clusters (fat v1) 2)))"
    "bytes_per_cluster v1 = bytes_per_cluster v"
proof -
  from find_slot_spec [OF ok dir] show thesis
  proof (elim disjE exE conjE)
    fix qs p rs assume a: "find_slot v c = Some (Inl p)" "slots v (c # cs) = qs @ p # rs"
      "\<not> used v p" "\<forall>q \<in> set qs. used v q"
    show thesis
      by (rule that [OF _ ok dir refl a(2,3)]) (use a in \<open>auto simp: AllocateEntry_def\<close>)
  next
    assume a: "find_slot v c = Some (Inr (last (c # cs)))" "\<forall>p \<in> set (slots v (c # cs)). used v p"
    let ?f = "fat v" and ?l = "last (c # cs)"
    have fok: "fat_ok ?f" using ok by (simp add: vol_ok_def)
    have ch: "is_chain ?f (c # cs)" and di: "distinct (c # cs)" using dir by (auto simp: dir_ok_def)
    obtain d where d: "take 1 (free_clusters ?f 2) = [d]" "d \<in> set (free_clusters ?f 2)"
      using space by (cases "free_clusters ?f 2") auto
    have dr: "2 \<le> d" "d < length ?f" "?f ! d = 0" using d(2) by (auto simp: free_clusters_set)
    then have dn: "d \<notin> set (c # cs)" using is_chain_nonzero [OF ch] by blast
    have "1 \<le> length (free_clusters ?f 2)" using space by (cases "free_clusters ?f 2") auto
    from ExtendCluster_spec(1) [OF fok ch di last_in_set this] obtain f' where
      E: "ExtendCluster ?f ?l 1 = Some (f', last ((c # cs) @ [d]))"
        "is_chain f' ((c # cs) @ [d])" "fat_frame ?f f' (insert ?l (set [d]))"
      unfolding d(1) by blast
    let ?b = "overwrite 0 (replicate (bytes_per_cluster v) 0) (clusters v ! (d - 2))"
    note g = get_cluster_in [OF ok dr(1,2)]
    have "length ?b = bytes_per_cluster v" using g by simp
    from put_cluster_spec [OF ok dr(1,2) E(3) this] obtain v' where
      P: "put_cluster (v\<lparr>fat := f'\<rparr>) d ?b = Some v'" "vol_ok v'" "fat v' = f'" "bpb v' = bpb v"
        "bytes_per_cluster v' = bytes_per_cluster v"
        "\<And>q. in_volume v q \<Longrightarrow> fst q \<noteq> d \<Longrightarrow> entry v' q = entry v q"
        "\<And>i. entry v' (d, i) = decode_entry (slice (kEntrySize * i) kEntrySize ?b)"
      by metis
    have al: "AllocateEntry v c = Some (v', (d, 0))"
      using a(1) E(1) g P(1) by (simp add: AllocateEntry_def)
    have dir': "dir_ok v' (c # cs @ [d])" using dir dn dr E(2) P(3) by (simp add: dir_ok_def)
    have sl: "slots v' (c # cs @ [d]) = slots v (c # cs) @ (d, 0) # map (Pair d) [1..<entries_per_cluster v]"
      using n P(5) by (simp add: slots_def entries_per_cluster_def upt_conv_Cons)
    have "?b = replicate (bytes_per_cluster v) 0" using g by (simp add: overwrite_def)
    moreover have "0 < bytes_per_cluster v" using ok by (simp add: vol_ok_def)
    ultimately have un: "\<not> used v' (d, 0)"
      by (simp add: used_def P(7) decode_entry_def slice_def kEntrySize_def del: replicate_Suc)
    have fz: "FirstCluster (entry v' (d, 0)) = 0"
    proof -
      have "kEntrySize \<le> bytes_per_cluster v"
        using n vol_bytes [OF ok] by (metis Suc_leI One_nat_def mult_le_mono2 mult_1_right)
      then have "slice (kEntrySize * 0) kEntrySize ?b = replicate kEntrySize 0"
        using \<open>?b = replicate (bytes_per_cluster v) 0\<close> by (simp add: slice_def)
      then show ?thesis
        by (simp add: P(7) decode_entry_def slice_def kEntrySize_def FirstCluster_def un16_zero del: replicate.simps)
    qed
    have "?f ! ?l \<noteq> 0" by (rule is_chain_nonzero [OF ch last_in_set]) simp
    then have "x \<noteq> ?l" if "?f ! x = 0" for x using that by metis
    then have fc: "set (free_clusters ?f 2) \<subseteq> insert d (set (free_clusters (fat v') 2))"
      using E(3) unfolding P(3) free_clusters_set fat_frame_def by force
    have same: "used v q \<and> entry v' q = entry v q" if "q \<in> set (slots v (c # cs))" for q
    proof -
      have "fst q \<in> set (c # cs)" using that by (auto simp: slots_def)
      then show ?thesis using that a(2) slots_in_volume [OF dir that] dn P(6) [of q] by metis
    qed
    show thesis
    proof (rule that [OF al P(2) dir' P(4) sl un])
      show "v' = v \<and> (d, 0) \<in> set (slots v (c # cs)) \<or> FirstCluster (entry v' (d, 0)) = 0
         \<and> (\<exists>d. set (free_clusters (fat v) 2) \<subseteq> insert d (set (free_clusters (fat v') 2)))"
        using fz fc by blast
    qed (use same P(5) in auto)
  qed
qed

lemma slots_distinct: "distinct cs \<Longrightarrow> distinct (slots v cs)"
proof (induction cs)
  case Nil
  then show ?case by (simp add: slots_def)
next
  case (Cons c cs)
  then have "distinct (slots v cs)" by simp
  moreover have "distinct (map (Pair c) [0..<entries_per_cluster v])" by (simp add: distinct_map inj_on_def)
  moreover have "c \<notin> fst ` set (slots v cs)" using Cons.prems by (auto simp: slots_def)
  ultimately show ?case by (auto simp: slots_def image_iff)
qed

lemma find_live_None: "find_live v name (qs @ ts) = None \<Longrightarrow> \<forall>q \<in> set qs. used v q \<Longrightarrow>
    q \<in> set qs \<Longrightarrow> \<not> NameIsEqual (entry v q) name"
  by (induction qs) (auto simp: used_def split: if_splits)

lemma find_live_first:
  "\<forall>q \<in> set qs. de_name (entry v q) ! 0 \<noteq> 0 \<and> \<not> NameIsEqual (entry v q) name
   \<Longrightarrow> de_name (entry v p) ! 0 \<noteq> 0 \<Longrightarrow> NameIsEqual (entry v p) name
   \<Longrightarrow> find_live v name (qs @ p # rs) = Some p"
  by (induction qs) auto

lemma toupper_nonzero: "c \<noteq> 0 \<Longrightarrow> toupper c \<noteq> 0"
proof -
  assume "c \<noteq> 0"
  moreover have "c - 32 \<noteq> 0" if "97 \<le> c"
    using that by (auto simp: word_le_nat_alt)
  ultimately show ?thesis by (simp add: toupper_def)
qed

lemma name83_plain:
  assumes "valid83 (base, ext)"
  shows "kSlash \<notin> set (name83 (base, ext))" "length (name83 (base, ext)) < 13"
    "name83 (base, ext) \<noteq> []" "de_name (SetFileName e (name83 (base, ext))) ! 0 \<noteq> 0"
proof -
  show "kSlash \<notin> set (name83 (base, ext))" "length (name83 (base, ext)) < 13" "name83 (base, ext) \<noteq> []"
    using assms by (auto simp: list_all_iff name_char_def kDot_def kSlash_def split: if_splits)
  obtain c b where "base = c # b" using assms by (cases base) auto
  moreover from this have "c \<noteq> 0" using assms by (simp add: name_char_def)
  ultimately show "de_name (SetFileName e (name83 (base, ext))) ! 0 \<noteq> 0"
    unfolding SetFileName_name83 [OF assms] by (simp add: pad_def toupper_nonzero)
qed

lemma NameIsEqual_name_only: "de_name e = de_name e' \<Longrightarrow> NameIsEqual e name = NameIsEqual e' name"
  by (simp add: NameIsEqual_def)

lemma CreateFile_in_root:
  assumes ok: "vol_ok v" and dir: "dir_ok v (root_dir v # cs)" and nz: "root_dir v \<noteq> 0"
    and space: "free_clusters (fat v) 2 \<noteq> []"
    and name: "valid83 (base, ext)"
    and new: "FindFile v (name83 (base, ext)) 0 = Some (None, ps)"
  obtains v2 p cs' where "CreateFile v (name83 (base, ext)) = Some (v2, Inr p)" "vol_ok v2" "in_volume v2 p"
    "fat v2 ! fst p \<noteq> 0" "FindFile v2 (name83 (base, ext)) 0 = Some (Some p, False)"
    "file_size (entry v2 p) = 0" "bytes_per_cluster v2 = bytes_per_cluster v"
    "p \<in> set (slots v (root_dir v # cs)) \<and> \<not> used v p \<and> FirstCluster (entry v2 p) = FirstCluster (entry v p) \<and> fat v2 = fat v
      \<or> FirstCluster (entry v2 p) = 0
        \<and> (\<exists>d. set (free_clusters (fat v) 2) \<subseteq> insert d (set (free_clusters (fat v2) 2)))"
    "dir_ok v2 (root_dir v2 # cs')" "root_dir v2 = root_dir v"
proof -
  let ?n = "name83 (base, ext)"
  note np = name83_plain [OF name]
  have n0: "0 < entries_per_cluster v"
    using ok vol_bytes [OF ok] by (auto simp: vol_ok_def kEntrySize_def)
  obtain v1 p cs1 qs rs where A: "AllocateEntry v (root_dir v) = Some (v1, p)" "vol_ok v1"
    "dir_ok v1 (root_dir v # cs1)" "bpb v1 = bpb v" "slots v1 (root_dir v # cs1) = qs @ p # rs"
    "\<not> used v1 p" "\<forall>q \<in> set qs. used v q \<and> entry v1 q = entry v q"
    "\<exists>ts. slots v (root_dir v # cs) = qs @ ts"
    "v1 = v \<and> p \<in> set (slots v (root_dir v # cs)) \<or> FirstCluster (entry v1 p) = 0
       \<and> (\<exists>d. set (free_clusters (fat v) 2) \<subseteq> insert d (set (free_clusters (fat v1) 2)))"
    and bpc: "bytes_per_cluster v1 = bytes_per_cluster v"
    by (rule AllocateEntry_spec [OF ok dir space n0])
  have "find_live v ?n (slots v (root_dir v # cs)) = None"
    using new FindFile_one [OF ok dir _ np(1,2)] by simp
  then have nq: "\<not> NameIsEqual (entry v q) ?n" if "q \<in> set qs" for q
    using A(7,8) find_live_None that by metis
  have pin: "in_volume v1 p" and qin: "\<And>q. q \<in> set qs \<Longrightarrow> in_volume v1 q"
    using slots_in_volume [OF A(3)] by (auto simp: A(5))
  define e where "e = (SetFileName (entry v1 p) ?n)\<lparr>file_size := 0\<rparr>"
  have "length (de_name e) = 11" by (simp add: e_def SetFileName_length)
  from put_entry_spec [OF A(2) pin this] obtain v2 where P: "put_entry v1 p e = Some v2" "vol_ok v2"
    "fat v2 = fat v1" "bpb v2 = bpb v1" "bytes_per_cluster v2 = bytes_per_cluster v1"
    "\<And>q. in_volume v1 q \<Longrightarrow> entry v2 q = (if q = p then e else entry v1 q)" by metis
  have "parent_of v ?n = Some (Inr (root_dir v, ?n))"
    using np(1) strrchr_None [of ?n kSlash] by (simp add: parent_of_def)
  then have cr: "CreateFile v ?n = Some (v2, Inr p)"
    using A(1) get_entry_in [OF A(2) pin] P(1) by (simp add: CreateFile_def e_def)
  have sl: "slots v2 (root_dir v # cs1) = qs @ p # rs"
    using A(5) P(5) by (simp add: slots_def entries_per_cluster_def)
  have dir2: "dir_ok v2 (root_dir v # cs1)" using A(3) P(3) by (simp add: dir_ok_def)
  have root: "root_dir v2 = root_dir v" using A(4) P(4) by (simp add: root_dir_def)
  have "distinct (qs @ p # rs)"
  proof -
    have "distinct (slots v2 (root_dir v # cs1))"
      using dir2 slots_distinct by (simp add: dir_ok_def)
    with sl show ?thesis by simp
  qed
  then have "p \<notin> set qs" by simp
  have fl: "find_live v2 ?n (qs @ p # rs) = Some p"
  proof (rule find_live_first)
    show "\<forall>q \<in> set qs. de_name (entry v2 q) ! 0 \<noteq> 0 \<and> \<not> NameIsEqual (entry v2 q) ?n"
      using A(7) nq P(6) qin \<open>p \<notin> set qs\<close> by (metis used_def)
    show "de_name (entry v2 p) ! 0 \<noteq> 0" using np(4) P(6) [OF pin] by (simp add: e_def)
    show "NameIsEqual (entry v2 p) ?n"
      using NameIsEqual_name83 [OF name] P(6) [OF pin] NameIsEqual_name_only [of e]
      by (simp add: e_def)
  qed
  have ff: "FindFile v2 ?n 0 = Some (Some p, False)"
    using FindFile_one [OF P(2) dir2 _ np(1,2), of 0] root sl fl by simp
  have pin2: "in_volume v2 p" using in_volume_same [OF P(3,5)] pin by simp
  have "fst p \<in> set (root_dir v # cs1)"
  proof -
    have "p \<in> set (slots v1 (root_dir v # cs1))" by (simp add: A(5))
    then show ?thesis by (auto simp: slots_def)
  qed
  then have "fat v2 ! fst p \<noteq> 0" using is_chain_nonzero dir2 unfolding dir_ok_def by blast
  moreover have "file_size (entry v2 p) = 0" "FirstCluster (entry v2 p) = FirstCluster (entry v1 p)"
    using P(6) [OF pin] by (simp_all add: e_def FirstCluster_def SetFileName_def split: option.split)
  ultimately show thesis using that [OF cr P(2) pin2 _ ff] A(6,9) P(3,5) bpc dir2 root by (metis (no_types))
qed

text \<open>A directory in which nothing has been deleted: its free entries have no cluster yet.\<close>

definition never_deleted :: "volume \<Rightarrow> nat list \<Rightarrow> bool" where
  "never_deleted v cl \<longleftrightarrow> (\<forall>p \<in> set (slots v cl). \<not> used v p \<longrightarrow> FirstCluster (entry v p) = 0)"

lemma CreateFile_empty_file:
  assumes "vol_ok v" and "dir_ok v (root_dir v # cs)" and "root_dir v \<noteq> 0"
    and free: "2 \<le> card (set (free_clusters (fat v) 2))" and clean: "never_deleted v (root_dir v # cs)"
    and "valid83 (base, ext)" and "FindFile v (name83 (base, ext)) 0 = Some (None, ps)"
  obtains v2 p cs' where "CreateFile v (name83 (base, ext)) = Some (v2, Inr p)" "vol_ok v2" "in_volume v2 p"
    "fat v2 ! fst p \<noteq> 0" "FirstCluster (entry v2 p) = 0" "free_clusters (fat v2) 2 \<noteq> []"
    "bytes_per_cluster v2 = bytes_per_cluster v"
    "FindFile v2 (name83 (base, ext)) 0 = Some (Some p, False)" "dir_ok v2 (root_dir v2 # cs')"
proof -
  have ne: "free_clusters (fat v) 2 \<noteq> []" using free by auto
  show thesis
  proof (rule CreateFile_in_root [OF assms(1-3) ne assms(6,7)])
    fix v2 p cs'
    assume C: "CreateFile v (name83 (base, ext)) = Some (v2, Inr p)" "vol_ok v2" "in_volume v2 p" "fat v2 ! fst p \<noteq> 0"
      "FindFile v2 (name83 (base, ext)) 0 = Some (Some p, False)" "bytes_per_cluster v2 = bytes_per_cluster v"
      "dir_ok v2 (root_dir v2 # cs')"
      and D: "p \<in> set (slots v (root_dir v # cs)) \<and> \<not> used v p \<and> FirstCluster (entry v2 p) = FirstCluster (entry v p) \<and> fat v2 = fat v
        \<or> FirstCluster (entry v2 p) = 0
          \<and> (\<exists>d. set (free_clusters (fat v) 2) \<subseteq> insert d (set (free_clusters (fat v2) 2)))"
    have fc: "FirstCluster (entry v2 p) = 0" using D clean by (auto simp: never_deleted_def)
    have "free_clusters (fat v2) 2 \<noteq> []"
    proof
      assume e: "free_clusters (fat v2) 2 = []"
      then have "fat v2 \<noteq> fat v" using ne by metis
      then have "\<exists>d. set (free_clusters (fat v) 2) \<subseteq> insert d (set (free_clusters (fat v2) 2))"
        using D by (elim disjE conjE) simp_all
      then obtain d where "set (free_clusters (fat v) 2) \<subseteq> insert d (set (free_clusters (fat v2) 2))" by (rule exE)
      then have "set (free_clusters (fat v) 2) \<subseteq> {d}" by (simp add: e)
      then have "card (set (free_clusters (fat v) 2)) \<le> card {d}" by (rule card_mono [rotated]) simp
      with free show False by simp
    qed
    from that [OF C(1-4) fc this C(6,5,7)] show thesis .
  qed
qed

text \<open>Lookup sees only the chain of the directory and the names.\<close>

lemma find_live_cong:
  "\<forall>q \<in> set qs. de_name (entry v' q) = de_name (entry v q) \<Longrightarrow> find_live v' name qs = find_live v name qs"
  by (induction qs) (simp_all add: NameIsEqual_def)

lemma FindFile_same_names:
  assumes "vol_ok v" and "vol_ok v'" and dir: "dir_ok v (root_dir v # cs)"
    and "bpb v' = bpb v" and "bytes_per_cluster v' = bytes_per_cluster v"
    and f: "fat_frame (fat v) (fat v') {d}" "fat v ! d = 0"
    and names: "\<forall>q. in_volume v q \<longrightarrow> fst q \<noteq> d \<longrightarrow> de_name (entry v' q) = de_name (entry v q)"
    and name: "kSlash \<notin> set name" "length name < 13"
  shows "FindFile v' name 0 = FindFile v name 0" and "dir_ok v' (root_dir v' # cs)"
proof -
  have r: "root_dir v' = root_dir v" using assms(4) by (simp add: root_dir_def)
  have nd: "c \<noteq> d" if "c \<in> set (root_dir v # cs)" for c
    using dir is_chain_nonzero [OF _ that] f(2) unfolding dir_ok_def by metis
  have "is_chain (fat v) (root_dir v # cs) = is_chain (fat v') (root_dir v # cs)"
    by (rule is_chain_cong) (use f(1) nd in \<open>auto simp: fat_frame_def\<close>)
  then show d': "dir_ok v' (root_dir v' # cs)" using dir by (simp add: dir_ok_def r)
  have sl: "slots v' (root_dir v' # cs) = slots v (root_dir v # cs)"
    using r assms(5) by (simp add: slots_def entries_per_cluster_def)
  have "de_name (entry v' q) = de_name (entry v q)" if q: "q \<in> set (slots v (root_dir v # cs))" for q
  proof -
    have "fst q \<in> set (root_dir v # cs)" using q by (auto simp: slots_def)
    then show ?thesis using names slots_in_volume [OF dir q] nd by blast
  qed
  then have "find_live v' name (slots v (root_dir v # cs)) = find_live v name (slots v (root_dir v # cs))"
    by (intro find_live_cong) simp
  then show "FindFile v' name 0 = FindFile v name 0"
    using FindFile_one [OF assms(1) dir _ name, of 0] FindFile_one [OF assms(2) d' _ name, of 0] sl by simp
qed


text \<open>An empty volume of one-sector clusters, with 2 the cluster of the empty root directory.\<close>

definition volume_example :: volume where
  "volume_example = \<lparr>bpb = bpb_example, bytes_per_cluster = 512, fat = [0, 0, 0x0fffffff, 0, 0],
     clusters = replicate 3 (replicate 512 0)\<rparr>"

lemma volume_example_ok:
  "vol_ok volume_example" "root_dir volume_example = 2" "dir_ok volume_example [2]"
  "free_clusters (fat volume_example) 2 \<noteq> []" "entry volume_example (2, i) = decode_entry (slice (32 * i) 32 (replicate 512 0))"
  by (simp_all add: volume_example_def vol_ok_def fat_ok_def kEntrySize_def root_dir_def bpb_example_def
      dir_ok_def NextCluster_def arr_get_def IsEndOfClusterchain_def kEndOfClusterchain_def
      free_clusters_def upt_rec entry_def del: replicate.simps)

lemma memo_txt_is_new:
  "valid83 (str ''memo'', str ''txt'')" "FindFile volume_example (name83 (str ''memo'', str ''txt'')) 0 = Some (None, False)"
proof -
  let ?n = "name83 (str ''memo'', str ''txt'')"
  show n: "valid83 (str ''memo'', str ''txt'')"
    by (simp add: str_def name_char_def kDot_def kSlash_def kSpace_def)
  have "slots volume_example [2] = (2, 0) # map (Pair 2) [1..<16]"
    by (simp add: slots_def entries_per_cluster_def volume_example_def kEntrySize_def upt_conv_Cons)
  moreover have "de_name (entry volume_example (2, 0)) ! 0 = 0"
    by (simp add: volume_example_ok decode_entry_def slice_def del: replicate.simps)
  ultimately have "find_live volume_example ?n (slots volume_example [2]) = None" by simp
  then show "FindFile volume_example ?n 0 = Some (None, False)"
    using FindFile_one [OF volume_example_ok(1,3), of 0 ?n] name83_plain [OF n] volume_example_ok(2)
    by simp
qed


end
