(* ===== verification/Fat_File.thy ===== *)
theory Fat_File imports Fat_Dir begin

text \<open>
  Files, \<^verbatim>\<open>class FileDescriptor\<close> of \<^verbatim>\<open>kernel/fat.cpp\<close>.  A descriptor refers to its directory entry in the volume, so every operation
  takes and returns the volume.  Offsets are \<^verbatim>\<open>size_t\<close>: the one subtraction that can wrap around is
  written out (\<open>sub64\<close>).  Bytes come out of \<open>Read\<close> as a list, the caller stores them.

  Reading yields exactly the bytes of the file (\<open>Read_returns_content\<close>); writing is right as long as
  one call stays in one cluster (\<open>Write_then_Read\<close>), and leaves the caller's buffer when it does not
  (\<open>Write_across_clusters_overruns\<close>).
\<close>

record FileDescriptor =
  fat_entry :: entry_ptr
  rd_off :: nat
  rd_cluster :: nat
  rd_cluster_off :: nat
  wr_off :: nat
  wr_cluster :: nat
  wr_cluster_off :: nat

definition FileDescriptor_init :: "entry_ptr \<Rightarrow> FileDescriptor" where
  "FileDescriptor_init p = \<lparr>fat_entry = p, rd_off = 0, rd_cluster = 0, rd_cluster_off = 0,
     wr_off = 0, wr_cluster = 0, wr_cluster_off = 0\<rparr>"

definition sub64 :: "nat \<Rightarrow> nat \<Rightarrow> nat" where
  "sub64 a b = (if b \<le> a then a - b else a + 2 ^ 64 - b)"

lemma sub64_le [simp]: "b \<le> a \<Longrightarrow> sub64 a b = a - b" by (simp add: sub64_def)

section \<open>Reading\<close>

partial_function (option) read_loop ::
    "volume \<Rightarrow> nat \<Rightarrow> FileDescriptor \<Rightarrow> u8 list \<Rightarrow> (FileDescriptor \<times> u8 list) option" where
  "read_loop v len fd acc =
     (if length acc < len then
        case get_cluster v (rd_cluster fd) of
          None \<Rightarrow> None
        | Some sec \<Rightarrow>
            let n = min (len - length acc) (sub64 (bytes_per_cluster v) (rd_cluster_off fd));
                off = rd_cluster_off fd + n in
            if length sec < off then None
            else if off = bytes_per_cluster v then
              (case NextCluster (fat v) (rd_cluster fd) of
                 None \<Rightarrow> None
               | Some next \<Rightarrow> read_loop v len (fd\<lparr>rd_cluster := next, rd_cluster_off := 0\<rparr>)
                                (acc @ slice (rd_cluster_off fd) n sec))
            else read_loop v len (fd\<lparr>rd_cluster_off := off\<rparr>) (acc @ slice (rd_cluster_off fd) n sec)
      else Some (fd, acc))"

definition Read :: "volume \<Rightarrow> FileDescriptor \<Rightarrow> nat \<Rightarrow> (FileDescriptor \<times> u8 list) option" where
  "Read v fd len = do {
     e \<leftarrow> get_entry v (fat_entry fd);
     let fd = (if rd_cluster fd = 0 then fd\<lparr>rd_cluster := unat (FirstCluster e)\<rparr> else fd);
         len = min len (sub64 (unat (file_size e)) (rd_off fd)) in do {
       (fd, out) \<leftarrow> read_loop v len fd [];
       Some (fd\<lparr>rd_off := rd_off fd + length out\<rparr>, out)
     }
   }"

definition Size :: "volume \<Rightarrow> FileDescriptor \<Rightarrow> nat option" where
  "Size v fd = map_option (\<lambda>e. unat (file_size e)) (get_entry v (fat_entry fd))"

text \<open>The loop of \<^verbatim>\<open>Load\<close> that walks to the cluster of the offset.\<close>

function load_skip :: "volume \<Rightarrow> nat \<Rightarrow> nat \<Rightarrow> (nat \<times> nat) option" where
  "load_skip v offset cluster =
     (if offset \<ge> bytes_per_cluster v then
        if bytes_per_cluster v = 0 then None
        else case NextCluster (fat v) cluster of
               None \<Rightarrow> None
             | Some next \<Rightarrow> load_skip v (offset - bytes_per_cluster v) next
      else Some (cluster, offset))"
  by pat_completeness auto
termination by (relation "measure (\<lambda>(v, offset, cluster). offset)") auto

declare load_skip.simps [simp del]

definition Load :: "volume \<Rightarrow> FileDescriptor \<Rightarrow> nat \<Rightarrow> nat \<Rightarrow> u8 list option" where
  "Load v fd0 len offset = do {
     e \<leftarrow> get_entry v (fat_entry fd0);
     (cluster, off) \<leftarrow> load_skip v offset (unat (FirstCluster e));
     (fd, out) \<leftarrow> Read v ((FileDescriptor_init (fat_entry fd0))
                     \<lparr>rd_off := offset, rd_cluster := cluster, rd_cluster_off := off\<rparr>) len;
     Some out
   }"

definition LoadFile :: "volume \<Rightarrow> nat \<Rightarrow> entry_ptr \<Rightarrow> u8 list option" where
  "LoadFile v len p = map_option snd (Read v (FileDescriptor_init p) len)"

section \<open>Writing\<close>

definition num_cluster :: "volume \<Rightarrow> nat \<Rightarrow> nat" where
  "num_cluster v bytes = (bytes + bytes_per_cluster v - 1) div bytes_per_cluster v"

text \<open>One iteration of the loop of \<^verbatim>\<open>Write\<close>: reading beyond the end of \<open>buf\<close> is undefined.\<close>

definition write_step ::
    "u8 list \<Rightarrow> nat \<Rightarrow> volume \<Rightarrow> FileDescriptor \<Rightarrow> (nat \<times> volume \<times> FileDescriptor) option" where
  "write_step buf tot v fd = do {
     (v, fd) \<leftarrow> (if wr_cluster_off fd = bytes_per_cluster v then do {
                   next_cluster \<leftarrow> NextCluster (fat v) (wr_cluster fd);
                   if next_cluster = kEndOfClusterchain then do {
                     (f', c) \<leftarrow> ExtendCluster (fat v) (wr_cluster fd) (num_cluster v (length buf - tot));
                     Some (v\<lparr>fat := f'\<rparr>, fd\<lparr>wr_cluster := c, wr_cluster_off := 0\<rparr>)
                   }
                   else Some (v, fd\<lparr>wr_cluster := next_cluster, wr_cluster_off := 0\<rparr>)
                 }
                 else Some (v, fd));
     sec \<leftarrow> get_cluster v (wr_cluster fd);
     let n = min (length buf) (sub64 (bytes_per_cluster v) (wr_cluster_off fd)) in
     if length sec < wr_cluster_off fd + n \<or> length buf < tot + n then None
     else do {
       v \<leftarrow> put_cluster v (wr_cluster fd) (overwrite (wr_cluster_off fd) (slice tot n buf) sec);
       Some (tot + n, v, fd\<lparr>wr_cluster_off := wr_cluster_off fd + n\<rparr>)
     }
   }"

partial_function (option) write_loop ::
    "u8 list \<Rightarrow> nat \<Rightarrow> volume \<Rightarrow> FileDescriptor \<Rightarrow> (nat \<times> volume \<times> FileDescriptor) option" where
  "write_loop buf tot v fd =
     (if tot < length buf then
        case write_step buf tot v fd of
          None \<Rightarrow> None
        | Some (tot', v', fd') \<Rightarrow> write_loop buf tot' v' fd'
      else Some (tot, v, fd))"

definition Write :: "volume \<Rightarrow> FileDescriptor \<Rightarrow> u8 list \<Rightarrow> (volume \<times> FileDescriptor \<times> nat) option" where
  "Write v fd buf = do {
     e \<leftarrow> get_entry v (fat_entry fd);
     (v, fd) \<leftarrow> (if wr_cluster fd = 0 then
                   if FirstCluster e \<noteq> 0 then Some (v, fd\<lparr>wr_cluster := unat (FirstCluster e)\<rparr>)
                   else do {
                     (f', c) \<leftarrow> AllocateClusterChain (fat v) (num_cluster v (length buf));
                     v \<leftarrow> put_entry (v\<lparr>fat := f'\<rparr>) (fat_entry fd)
                           (e\<lparr>first_cluster_low := of_nat c AND 0xffff,
                              first_cluster_high := ucast (drop_bit 16 (of_nat c :: u64) AND 0xffff)\<rparr>);
                     Some (v, fd\<lparr>wr_cluster := c\<rparr>)
                   }
                 else Some (v, fd));
     (tot, v, fd) \<leftarrow> write_loop buf 0 v fd;
     let off = wr_off fd + tot in do {
       e \<leftarrow> get_entry v (fat_entry fd);
       v \<leftarrow> put_entry v (fat_entry fd) (e\<lparr>file_size := of_nat off\<rparr>);
       Some (v, fd\<lparr>wr_off := off\<rparr>, tot)
     }
   }"

section \<open>The bytes of a file\<close>

definition content :: "volume \<Rightarrow> nat list \<Rightarrow> u8 list" where
  "content v cs = concat (map (\<lambda>c. clusters v ! (c - 2)) cs)"

definition file_ok :: "volume \<Rightarrow> DirectoryEntry \<Rightarrow> nat list \<Rightarrow> bool" where
  "file_ok v e cs \<longleftrightarrow> dir_ok v cs \<and> cs \<noteq> [] \<and> hd cs = unat (FirstCluster e)
     \<and> unat (file_size e) \<le> length cs * bytes_per_cluster v"

definition file_bytes :: "volume \<Rightarrow> DirectoryEntry \<Rightarrow> nat list \<Rightarrow> u8 list" where
  "file_bytes v e cs = take (unat (file_size e)) (content v cs)"

definition rd_at :: "volume \<Rightarrow> nat list \<Rightarrow> FileDescriptor \<Rightarrow> nat \<Rightarrow> bool" where
  "rd_at v cs fd k \<longleftrightarrow> rd_cluster_off fd = k mod bytes_per_cluster v
     \<and> (k div bytes_per_cluster v < length cs \<longrightarrow> rd_cluster fd = cs ! (k div bytes_per_cluster v))"

lemma chain_next:
  assumes "is_chain f cs" and "i < length cs"
  shows "\<exists>x. NextCluster f (cs ! i) = Some x \<and> (Suc i < length cs \<longrightarrow> x = cs ! Suc i)"
proof (cases "Suc i < length cs")
  case True
  then have "is_chain f (cs ! i # cs ! Suc i # drop (Suc (Suc i)) cs)"
    using is_chain_suffix [of f "take i cs" "drop i cs"] assms by (simp add: Cons_nth_drop_Suc)
  with True show ?thesis using NextCluster_chain(1) by blast
next
  case False
  then have "is_chain f [cs ! i]"
    using is_chain_suffix [of f "take i cs" "drop i cs"] assms Cons_nth_drop_Suc [of i cs] by simp
  with False show ?thesis using NextCluster_chain(2) by blast
qed

lemma dir_ok_nth:
  "dir_ok v cs \<Longrightarrow> i < length cs \<Longrightarrow> 2 \<le> cs ! i \<and> cs ! i < length (fat v)"
  using is_chain_in_range [of "fat v" cs "cs ! i"] by (auto simp: dir_ok_def)

lemma drop_content:
  assumes "vol_ok v" and "dir_ok v cs" and "i < length cs" and "r \<le> bytes_per_cluster v"
  shows "drop (i * bytes_per_cluster v + r) (content v cs)
    = drop r (clusters v ! (cs ! i - 2)) @ content v (drop (Suc i) cs)"
  using assms(2,3)
proof (induction i arbitrary: cs)
  case 0
  then obtain c ds where cs: "cs = c # ds" by (cases cs) auto
  have "length (clusters v ! (c - 2)) = bytes_per_cluster v"
    using get_cluster_in [OF assms(1)] dir_ok_nth [OF 0(1), of 0] cs by simp
  with cs assms(4) show ?case by (simp add: content_def)
next
  case (Suc i)
  from Suc.prems(2) obtain c ds where cs: "cs = c # ds" "ds \<noteq> []"
    by (cases cs; cases "tl cs") auto
  have l: "length (clusters v ! (c - 2)) = bytes_per_cluster v"
    using get_cluster_in [OF assms(1)] dir_ok_nth [OF Suc(2), of 0] cs by simp
  have "dir_ok v ds" using Suc.prems(1) cs by (cases ds) (auto simp: dir_ok_def)
  with Suc.IH [of ds] Suc.prems cs l show ?case
    by (simp add: content_def add.assoc)
qed

lemma content_length:
  assumes "vol_ok v" and "dir_ok v cs"
  shows "length (content v cs) = length cs * bytes_per_cluster v"
proof -
  have "length (clusters v ! (c - 2)) = bytes_per_cluster v" if "c \<in> set cs" for c
  proof -
    from that obtain i where "i < length cs" "cs ! i = c" unfolding in_set_conv_nth by blast
    then show ?thesis using get_cluster_in [OF assms(1)] dir_ok_nth [OF assms(2)] by blast
  qed
  then have "map (\<lambda>c. length (clusters v ! (c - 2))) cs = replicate (length cs) (bytes_per_cluster v)"
    by (metis (mono_tags, lifting) map_eq_conv map_replicate_const)
  then show ?thesis by (simp add: content_def length_concat comp_def sum_list_replicate)
qed

lemma read_loop_spec:
  assumes ok: "vol_ok v" and cs: "dir_ok v cs"
  shows "rd_at v cs fd k \<Longrightarrow> length acc \<le> len \<Longrightarrow> k + (len - length acc) \<le> length cs * bytes_per_cluster v
    \<Longrightarrow> \<exists>fd'. read_loop v len fd acc = Some (fd', acc @ take (len - length acc) (drop k (content v cs)))
          \<and> rd_at v cs fd' (k + (len - length acc)) \<and> rd_off fd' = rd_off fd
          \<and> fat_entry fd' = fat_entry fd"
proof (induction "len - length acc" arbitrary: fd k acc rule: less_induct)
  case less
  let ?b = "bytes_per_cluster v"
  show ?case
  proof (cases "length acc < len")
    case False
    with less.prems show ?thesis by (simp add: read_loop.simps [of v len fd acc])
  next
    case True
    have b: "0 < ?b" using ok by (simp add: vol_ok_def)
    define i r n where "i = k div ?b" and "r = k mod ?b" and "n = min (len - length acc) (?b - r)"
    have k: "k = i * ?b + r" and r: "r < ?b" using b by (simp_all add: i_def r_def)
    have "k < length cs * ?b" using less.prems(3) True by linarith
    then have i: "i < length cs" by (simp add: i_def less_mult_imp_div_less)
    let ?sec = "clusters v ! (cs ! i - 2)"
    have sec: "get_cluster v (cs ! i) = Some ?sec" "length ?sec = ?b"
      using get_cluster_in [OF ok] dir_ok_nth [OF cs i] by auto
    have fd: "rd_cluster fd = cs ! i" "rd_cluster_off fd = r"
      using less.prems(1) i by (simp_all add: rd_at_def i_def r_def)
    have n: "0 < n" "n \<le> len - length acc" "r + n \<le> ?b" using r True by (auto simp: n_def)
    have sl: "slice r n ?sec = take n (drop k (content v cs))"
      using drop_content [OF ok cs i, of r] r n sec(2) by (simp add: k slice_def)
    have split: "take (len - length acc) (drop k (content v cs))
        = take n (drop k (content v cs)) @ take (len - length acc - n) (drop (k + n) (content v cs))"
    proof -
      have "len - length acc = n + (len - length acc - n)" using n(2) by linarith
      then show ?thesis using take_add [of n "len - length acc - n" "drop k (content v cs)"]
        by (metis add.commute drop_drop)
    qed
    let ?acc = "acc @ slice r n ?sec"
    have lenacc: "length ?acc = length acc + n" using n(3) sec(2) by (simp add: slice_def)
    have go: ?thesis if eq: "read_loop v len fd acc = read_loop v len fd1 ?acc"
      and at: "rd_at v cs fd1 (k + n)" and same: "rd_off fd1 = rd_off fd" "fat_entry fd1 = fat_entry fd" for fd1
    proof -
      have "len - length ?acc < len - length acc" using lenacc n by linarith
      moreover have "length ?acc \<le> len" "k + n + (len - length ?acc) \<le> length cs * ?b"
        using lenacc n less.prems by linarith+
      ultimately obtain fd' where
        R: "read_loop v len fd1 ?acc = Some (fd', ?acc @ take (len - length ?acc) (drop (k + n) (content v cs)))"
        "rd_at v cs fd' (k + n + (len - length ?acc))" "rd_off fd' = rd_off fd1"
        "fat_entry fd' = fat_entry fd1"
        using less.hyps [of ?acc fd1 "k + n"] at by blast
      have e: "k + n + (len - length ?acc) = k + (len - length acc)"
        "len - length ?acc = len - length acc - n"
        using lenacc n by linarith+
      show ?thesis
        using R(1) [unfolded e(2)] R(2) [unfolded e(1)] R(3,4) eq sl split same
        by (intro exI [of _ fd']) (simp only: append_assoc simp_thms)
    qed
    show ?thesis
    proof (cases "r + n = ?b")
      case False
      moreover from this have "r + n < ?b" using n(3) by simp
      ultimately have "(k + n) div ?b = i" "(k + n) mod ?b = r + n" by (simp_all add: k add.assoc)
      with False show ?thesis
        using go [of "fd\<lparr>rd_cluster_off := r + n\<rparr>"] True fd sec n(3)
        by (simp add: read_loop.simps [of v len fd acc] n_def [symmetric] r less_imp_le rd_at_def)
    next
      case True' : True
      obtain x where x: "NextCluster (fat v) (cs ! i) = Some x" "Suc i < length cs \<longrightarrow> x = cs ! Suc i"
        using chain_next [of "fat v" cs i] cs i by (auto simp: dir_ok_def)
      have "k + n = Suc i * ?b" using True' by (simp add: k)
      then have "(k + n) div ?b = Suc i" "(k + n) mod ?b = 0" using b by simp_all
      then show ?thesis
        using go [of "fd\<lparr>rd_cluster := x, rd_cluster_off := 0\<rparr>"] True True' fd sec x
        by (simp add: read_loop.simps [of v len fd acc] n_def [symmetric] r less_imp_le rd_at_def)
    qed
  qed
qed

text \<open>A descriptor in use: where its next byte comes from.\<close>

definition reading :: "volume \<Rightarrow> nat list \<Rightarrow> FileDescriptor \<Rightarrow> bool" where
  "reading v cs fd \<longleftrightarrow>
     rd_at v cs (if rd_cluster fd = 0 then fd\<lparr>rd_cluster := hd cs\<rparr> else fd) (rd_off fd)"

lemma reading_init: "cs \<noteq> [] \<Longrightarrow> reading v cs (FileDescriptor_init p)"
  by (simp add: reading_def rd_at_def FileDescriptor_init_def hd_conv_nth)

lemma reading_next:
  assumes "dir_ok v cs" and "rd_at v cs fd k"
  shows "reading v cs (fd\<lparr>rd_off := k\<rparr>)"
proof (cases "k div bytes_per_cluster v < length cs")
  case True
  then have "rd_cluster fd \<noteq> 0" using assms dir_ok_nth [OF assms(1) True] by (auto simp: rd_at_def)
  then show ?thesis using assms(2) by (simp add: reading_def rd_at_def)
next
  case False
  then show ?thesis using assms(2) by (simp add: reading_def rd_at_def)
qed

lemma Read_spec:
  assumes ok: "vol_ok v" and e: "get_entry v (fat_entry fd) = Some e" and f: "file_ok v e cs"
    and r: "reading v cs fd" and k: "rd_off fd \<le> unat (file_size e)"
  shows "\<exists>fd'. Read v fd len = Some (fd', take len (drop (rd_off fd) (file_bytes v e cs)))
    \<and> reading v cs fd' \<and> rd_off fd' = min (rd_off fd + len) (unat (file_size e))
    \<and> fat_entry fd' = fat_entry fd"
proof -
  have dir: "dir_ok v cs" and ne: "cs \<noteq> []" and hd: "hd cs = unat (FirstCluster e)"
    and sz: "unat (file_size e) \<le> length cs * bytes_per_cluster v" using f by (auto simp: file_ok_def)
  define fd0 where "fd0 = (if rd_cluster fd = 0 then fd\<lparr>rd_cluster := hd cs\<rparr> else fd)"
  define n where "n = min len (unat (file_size e) - rd_off fd)"
  have at: "rd_at v cs fd0 (rd_off fd)" using r by (simp add: reading_def fd0_def)
  have fd0: "rd_off fd0 = rd_off fd" "fat_entry fd0 = fat_entry fd" by (simp_all add: fd0_def)
  have "rd_off fd + (n - length []) \<le> length cs * bytes_per_cluster v"
    using sz k by (simp add: n_def)
  from read_loop_spec [OF ok dir at _ this] obtain fd' where
    L: "read_loop v n fd0 [] = Some (fd', take n (drop (rd_off fd) (content v cs)))"
      "rd_at v cs fd' (rd_off fd + n)" "rd_off fd' = rd_off fd" "fat_entry fd' = fat_entry fd"
    using fd0 by auto
  have out: "take n (drop (rd_off fd) (content v cs)) = take len (drop (rd_off fd) (file_bytes v e cs))"
    by (simp add: n_def file_bytes_def drop_take min.commute)
  have "length (take n (drop (rd_off fd) (content v cs))) = n"
    using sz k content_length [OF ok dir] by (simp add: n_def)
  then have "Read v fd len = Some (fd'\<lparr>rd_off := rd_off fd + n\<rparr>,
      take len (drop (rd_off fd) (file_bytes v e cs)))"
    using e k hd L(1,3) by (cases "rd_cluster fd = 0") (simp_all add: Read_def fd0_def n_def out [symmetric] Let_def)
  moreover have "rd_off fd + n = min (rd_off fd + len) (unat (file_size e))" using k by (simp add: n_def)
  ultimately show ?thesis using reading_next [OF dir L(2)] L(4) by simp
qed

text \<open>
  C29: reading a file.  A descriptor of a well-formed file that has read \<open>rd_off\<close> bytes so far returns
  exactly the next \<open>len\<close> bytes of the file (fewer at its end), across cluster boundaries, moves on
  by as many bytes, and is again in a state from which reading goes on the same way.  A new
  descriptor is in such a state.
\<close>

theorem Read_returns_content:
  assumes "vol_ok v" and "get_entry v (fat_entry fd) = Some e" and "file_ok v e cs"
    and "rd_off fd \<le> unat (file_size e)" and "reading v cs fd \<or> fd = FileDescriptor_init (fat_entry fd)"
  shows "\<exists>fd'. Read v fd len = Some (fd', take len (drop (rd_off fd) (file_bytes v e cs)))
    \<and> reading v cs fd' \<and> rd_off fd' = min (rd_off fd + len) (unat (file_size e))
    \<and> fat_entry fd' = fat_entry fd"
proof -
  have "reading v cs fd" using assms(3,5) reading_init [of cs v "fat_entry fd"] by (auto simp: file_ok_def)
  then show ?thesis by (rule Read_spec [OF assms(1-3) _ assms(4)])
qed

lemma load_skip_spec:
  assumes ok: "vol_ok v" and dir: "dir_ok v cs"
  shows "i < length cs \<Longrightarrow> offset \<le> (length cs - i) * bytes_per_cluster v \<Longrightarrow>
    \<exists>c off. load_skip v offset (cs ! i) = Some (c, off) \<and> off = offset mod bytes_per_cluster v
      \<and> (i + offset div bytes_per_cluster v < length cs \<longrightarrow> c = cs ! (i + offset div bytes_per_cluster v))"
proof (induction offset arbitrary: i rule: less_induct)
  case (less offset)
  let ?b = "bytes_per_cluster v"
  have b: "0 < ?b" using ok by (simp add: vol_ok_def)
  show ?case
  proof (cases "?b \<le> offset")
    case False
    then show ?thesis by (simp add: load_skip.simps)
  next
    case True
    obtain x where x: "NextCluster (fat v) (cs ! i) = Some x" "Suc i < length cs \<longrightarrow> x = cs ! Suc i"
      using chain_next [of "fat v" cs i] dir less.prems by (auto simp: dir_ok_def)
    have dm: "offset div ?b = Suc ((offset - ?b) div ?b)" "offset mod ?b = (offset - ?b) mod ?b"
      using True b by (simp_all add: le_div_geq le_mod_geq)
    have st: "load_skip v offset (cs ! i) = load_skip v (offset - ?b) x"
      using True b x by (simp add: load_skip.simps [of v offset])
    show ?thesis
    proof (cases "Suc i < length cs")
      case i: True
      have "(length cs - i) * ?b = ?b + (length cs - Suc i) * ?b"
        using i by (metis Suc_diff_Suc Suc_lessD mult_Suc)
      then have "offset - ?b \<le> (length cs - Suc i) * ?b" using less.prems(2) by linarith
      from less.IH [OF _ i this] show ?thesis using True b x i st dm by auto
    next
      case False
      then have "length cs - i = 1" using less.prems by linarith
      then have "offset = ?b" using less.prems(2) True by simp
      then show ?thesis using st False less.prems b by (simp add: load_skip.simps [of v 0])
    qed
  qed
qed

text \<open>
  loading a part of a file.  \<^verbatim>\<open>Load\<close> at an offset inside the file returns the \<open>len\<close> bytes from
  there (fewer at the end of the file), without using the descriptor's own position.
\<close>

theorem Load_returns_part:
  assumes "vol_ok v" and "get_entry v (fat_entry fd) = Some e" and "file_ok v e cs"
    and "offset \<le> unat (file_size e)"
  shows "Load v fd len offset = Some (take len (drop offset (file_bytes v e cs)))"
proof -
  have dir: "dir_ok v cs" and ne: "0 < length cs" and hd: "cs ! 0 = unat (FirstCluster e)"
    and sz: "offset \<le> (length cs - 0) * bytes_per_cluster v"
    using assms(3,4) by (auto simp: file_ok_def hd_conv_nth)
  obtain c off where L: "load_skip v offset (unat (FirstCluster e)) = Some (c, off)"
    "off = offset mod bytes_per_cluster v"
    "offset div bytes_per_cluster v < length cs \<longrightarrow> c = cs ! (offset div bytes_per_cluster v)"
    using load_skip_spec [OF assms(1) dir ne sz] by (auto simp: hd)
  let ?fd = "(FileDescriptor_init (fat_entry fd))\<lparr>rd_cluster := c, rd_cluster_off := off\<rparr>"
  have "rd_at v cs ?fd offset" using L(2,3) by (simp add: rd_at_def FileDescriptor_init_def)
  from reading_next [OF dir this] show ?thesis
    using Read_spec [OF assms(1) _ assms(3), of "?fd\<lparr>rd_off := offset\<rparr>" len] assms(2,4) L(1)
    by (auto simp: Load_def FileDescriptor_init_def)
qed

section \<open>What a write does\<close>

lemma put_entry_other_cluster:
  assumes "put_entry v p e = Some v'" and "2 \<le> c" and "c \<noteq> fst p"
  shows "clusters v' ! (c - 2) = clusters v ! (c - 2)"
proof -
  obtain d i where p: "p = (d, i)" by (cases p)
  have "d - 2 \<noteq> c - 2 \<or> d < 2" using assms(2,3) p by auto
  then show ?thesis using assms(1)
    by (auto simp: put_entry_def p put_cluster_def get_cluster_def arr_get_Some_iff arr_set_Some_iff
        split: bind_splits if_splits)
qed

lemma vol_ok_fat: "vol_ok v \<Longrightarrow> fat_frame (fat v) f' S \<Longrightarrow> vol_ok (v\<lparr>fat := f'\<rparr>)"
  by (simp add: vol_ok_def fat_ok_def fat_frame_def)

lemma entry_fat [simp]: "entry (v\<lparr>fat := f'\<rparr>) p = entry v p" by (simp add: entry_def)

lemma FirstCluster_set:
  assumes "c < 2 ^ 32"
  shows "unat (FirstCluster (e\<lparr>first_cluster_low := of_nat c AND 0xffff,
    first_cluster_high := ucast (drop_bit 16 (of_nat c :: u64) AND 0xffff)\<rparr>)) = c"
proof -
  let ?w = "of_nat c :: u32"
  have m: "(0xffff :: u16) = mask 16" "(0xffff :: u64) = mask 16" by (simp_all add: mask_eq_exp_minus_1)
  have "ucast (of_nat c AND 0xffff :: u16) OR push_bit 16 (ucast (ucast (drop_bit 16 (of_nat c :: u64) AND 0xffff) :: u16)) = ?w"
    unfolding m by (rule bit_word_eqI) (auto simp: bit_simps)
  then show ?thesis using assms by (simp add: FirstCluster_def take_bit_nat_eq_self unsigned_of_nat)
qed

lemma write_loop_one_cluster:
  assumes ok: "vol_ok v" and d: "2 \<le> wr_cluster fd" "wr_cluster fd < length (fat v)"
    and buf: "0 < length buf" "wr_cluster_off fd + length buf \<le> bytes_per_cluster v"
  defines "sec \<equiv> clusters v ! (wr_cluster fd - 2)"
  shows "\<exists>v'. write_loop buf 0 v fd = Some (length buf, v', fd\<lparr>wr_cluster_off := wr_cluster_off fd + length buf\<rparr>)
    \<and> put_cluster v (wr_cluster fd) (overwrite (wr_cluster_off fd) buf sec) = Some v'"
proof -
  have b: "wr_cluster_off fd \<noteq> bytes_per_cluster v" "wr_cluster_off fd \<le> bytes_per_cluster v"
    "length buf \<le> bytes_per_cluster v - wr_cluster_off fd" using buf by linarith+
  have sec: "get_cluster v (wr_cluster fd) = Some sec" "length sec = bytes_per_cluster v"
    using get_cluster_in [OF ok d] by (simp_all add: sec_def)
  have "wr_cluster fd - 2 < length (clusters v)" using d ok by (auto simp: vol_ok_def)
  then obtain v' where P: "put_cluster v (wr_cluster fd) (overwrite (wr_cluster_off fd) buf sec) = Some v'"
    using d by (simp add: put_cluster_def)
  have "slice 0 (length buf) buf = buf" by (simp add: slice_def)
  then have "write_step buf 0 v fd
      = Some (length buf, v', fd\<lparr>wr_cluster_off := wr_cluster_off fd + length buf\<rparr>)"
    using sec buf P b by (simp add: write_step_def min_absorb1 Let_def)
  then show ?thesis using P buf
    by (simp add: write_loop.simps [of buf 0] write_loop.simps [of buf "length buf"])
qed

lemma entry_name_length:
  assumes "vol_ok v" and "in_volume v p"
  shows "length (de_name (entry v p)) = 11"
proof -
  obtain c i where p: "p = (c, i)" by (cases p)
  then have c: "2 \<le> c" "c < length (fat v)" "i < entries_per_cluster v" using assms(2) by (auto simp: in_volume_def)
  have "kEntrySize * i + kEntrySize \<le> length (clusters v ! (c - 2))"
    using get_cluster_in [OF assms(1) c(1,2)] vol_bytes [OF assms(1)] slot_fits [OF c(3)] by simp
  then show ?thesis by (simp add: p entry_def decode_entry_def slice_def kEntrySize_def)
qed

lemma put_entry_ex:
  assumes "vol_ok v" and "in_volume v p" and "length (de_name e) = 11"
  shows "\<exists>v'. put_entry v p e = Some v' \<and> vol_ok v' \<and> fat v' = fat v
    \<and> bytes_per_cluster v' = bytes_per_cluster v \<and> bpb v' = bpb v
    \<and> (\<forall>q. in_volume v q \<longrightarrow> entry v' q = (if q = p then e else entry v q))"
  using put_entry_spec [OF assms] by (metis (no_types, lifting))

lemma put_cluster_ex:
  assumes "vol_ok v" and "2 \<le> d" and "d < length (fat v)" and "length b = bytes_per_cluster v"
    and "put_cluster v d b = Some v'"
  shows "vol_ok v' \<and> fat v' = fat v \<and> bytes_per_cluster v' = bytes_per_cluster v \<and> bpb v' = bpb v
    \<and> (\<forall>q. in_volume v q \<longrightarrow> fst q \<noteq> d \<longrightarrow> entry v' q = entry v q)"
proof -
  have fr: "fat_frame (fat v) (fat v) {}" by (simp add: fat_frame_def)
  show ?thesis
  proof (rule put_cluster_spec [OF assms(1-3) fr assms(4)])
    fix w
    assume w: "put_cluster (v\<lparr>fat := fat v\<rparr>) d b = Some w" "vol_ok w" "fat w = fat v"
      "bytes_per_cluster w = bytes_per_cluster v" "bpb w = bpb v"
      "\<And>q. in_volume v q \<Longrightarrow> fst q \<noteq> d \<Longrightarrow> entry w q = entry v q"
    have "w = v'" using w(1) assms(5) by simp
    with w(2-6) show ?thesis by blast
  qed
qed

text \<open>
  The end of \<^verbatim>\<open>Write\<close>, once the descriptor has a cluster \<open>d\<close> with room for the whole buffer: the loop and the
  new size.
\<close>

lemma write_in_cluster:
  assumes ok: "vol_ok v" and p: "in_volume v p" "fst p \<noteq> wr_cluster fd"
    and d: "2 \<le> wr_cluster fd" "wr_cluster fd < length (fat v)"
    and buf: "0 < length buf" "wr_cluster_off fd + length buf \<le> bytes_per_cluster v"
  defines "e2 \<equiv> (entry v p)\<lparr>file_size := of_nat (wr_off fd + length buf)\<rparr>"
  obtains v3 v4 where "write_loop buf 0 v fd = Some (length buf, v3, fd\<lparr>wr_cluster_off := wr_cluster_off fd + length buf\<rparr>)"
    "get_entry v3 p = Some (entry v p)" "put_entry v3 p e2 = Some v4"
    "vol_ok v4" "fat v4 = fat v" "bpb v4 = bpb v" "bytes_per_cluster v4 = bytes_per_cluster v" "get_entry v4 p = Some e2"
    "\<forall>q. in_volume v q \<longrightarrow> fst q \<noteq> wr_cluster fd \<longrightarrow> de_name (entry v4 q) = de_name (entry v q)"
    "content v4 [wr_cluster fd] = overwrite (wr_cluster_off fd) buf (content v [wr_cluster fd])"
proof -
  let ?d = "wr_cluster fd" and ?e = "entry v p"
  let ?blk = "overwrite (wr_cluster_off fd) buf (clusters v ! (?d - 2))"
  obtain v3 where W: "write_loop buf 0 v fd = Some (length buf, v3, fd\<lparr>wr_cluster_off := wr_cluster_off fd + length buf\<rparr>)"
    "put_cluster v ?d ?blk = Some v3"
    using write_loop_one_cluster [OF ok d buf] by blast
  have blk: "length ?blk = bytes_per_cluster v" using get_cluster_in [OF ok d] buf(2) by simp
  from put_cluster_ex [OF ok d blk W(2)] have P3: "vol_ok v3" "fat v3 = fat v" "bytes_per_cluster v3 = bytes_per_cluster v"
    "bpb v3 = bpb v" "\<forall>q. in_volume v q \<longrightarrow> fst q \<noteq> ?d \<longrightarrow> entry v3 q = entry v q" by blast+
  have iv: "in_volume v3 q = in_volume v q" for q by (rule in_volume_same [OF P3(2,3)])
  with p(1) have e3: "in_volume v3 p" "entry v3 p = ?e" using P3(5) p by blast+
  have "length (de_name e2) = 11" using entry_name_length [OF ok p(1)] by (simp add: e2_def)
  from put_entry_ex [OF P3(1) e3(1) this] obtain v4 where P4: "put_entry v3 p e2 = Some v4" "vol_ok v4" "fat v4 = fat v3"
    "bytes_per_cluster v4 = bytes_per_cluster v3" "bpb v4 = bpb v3"
    "\<forall>q. in_volume v3 q \<longrightarrow> entry v4 q = (if q = p then e2 else entry v3 q)" by blast
  have "in_volume v4 p" using e3(1) in_volume_same [OF P4(3,4)] by simp
  then have g4: "get_entry v4 p = Some e2" using get_entry_in [OF P4(2)] P4(6) [rule_format, OF e3(1)] by simp
  have "clusters v4 ! (?d - 2) = ?blk"
    using put_entry_other_cluster [OF P4(1) d(1)] p(2) W(2) by (auto simp: put_cluster_def arr_set_Some_iff split: if_splits)
  then have c: "content v4 [?d] = overwrite (wr_cluster_off fd) buf (content v [?d])" by (simp add: content_def)
  have nm: "de_name (entry v4 q) = de_name (entry v q)" if "in_volume v q" "fst q \<noteq> ?d" for q
    using P4(6) [rule_format, of q] P3(5) [rule_format, of q] that iv by (simp add: e2_def)
  show thesis
    by (rule that [OF W(1) _ P4(1,2) _ _ _ g4 _ c]) (use P3 P4 nm get_entry_in [OF P3(1) e3(1)] e3(2) in \<open>simp_all del: split_paired_All\<close>)
qed

lemma Write_append:
  assumes ok: "vol_ok v" and p: "in_volume v p" "fst p \<noteq> wr_cluster fd" and d: "2 \<le> wr_cluster fd"
    and f: "file_ok v (entry v p) [wr_cluster fd]" and fd: "fat_entry fd = p"
    and off: "wr_off fd = unat (file_size (entry v p))" "wr_cluster_off fd = wr_off fd"
    and buf: "0 < length buf" "wr_off fd + length buf \<le> bytes_per_cluster v" "wr_off fd + length buf < 2 ^ 32"
  obtains v' fd' e' where "Write v fd buf = Some (v', fd', length buf)" "vol_ok v'" "get_entry v' p = Some e'"
    "file_ok v' e' [wr_cluster fd]" "file_bytes v' e' [wr_cluster fd] = file_bytes v (entry v p) [wr_cluster fd] @ buf"
    "fat v' = fat v" "bpb v' = bpb v" "bytes_per_cluster v' = bytes_per_cluster v"
    "\<forall>q. in_volume v q \<longrightarrow> fst q \<noteq> wr_cluster fd \<longrightarrow> de_name (entry v' q) = de_name (entry v q)"
proof -
  let ?d = "wr_cluster fd" and ?e = "entry v p" and ?e2 = "(entry v p)\<lparr>file_size := of_nat (wr_off fd + length buf)\<rparr>"
  have ch: "is_chain (fat v) [?d]" "dir_ok v [?d]" using f unfolding file_ok_def dir_ok_def by blast+
  then have dl: "?d < length (fat v)" using is_chain_in_range by fastforce
  have "wr_cluster_off fd + length buf \<le> bytes_per_cluster v" using off buf by simp
  from write_in_cluster [OF ok p d dl buf(1) this] obtain v3 v4 where
    W: "write_loop buf 0 v fd = Some (length buf, v3, fd\<lparr>wr_cluster_off := wr_cluster_off fd + length buf\<rparr>)"
      "get_entry v3 p = Some ?e" "put_entry v3 p ?e2 = Some v4"
      "vol_ok v4" "fat v4 = fat v" "bpb v4 = bpb v" "bytes_per_cluster v4 = bytes_per_cluster v" "get_entry v4 p = Some ?e2"
      "\<forall>q. in_volume v q \<longrightarrow> fst q \<noteq> ?d \<longrightarrow> de_name (entry v4 q) = de_name (entry v q)"
      "content v4 [?d] = overwrite (wr_cluster_off fd) buf (content v [?d])" by metis
  have sz: "unat (file_size ?e2) = wr_off fd + length buf"
    using buf(3) by (simp add: unsigned_of_nat take_bit_nat_eq_self del: of_nat_add)
  have fc: "unat (FirstCluster ?e2) = ?d" using f by (simp add: file_ok_def FirstCluster_def)
  have lc: "length (content v [?d]) = bytes_per_cluster v" using content_length [OF ok ch(2)] by simp
  show thesis
  proof (rule that [OF _ W(4,8) _ _ W(5-7,9)])
    show "Write v fd buf = Some (v4, fd\<lparr>wr_cluster_off := wr_cluster_off fd + length buf, wr_off := wr_off fd + length buf\<rparr>, length buf)"
      using W(1-3) fd d get_entry_in [OF ok p(1)] by (simp add: Write_def Let_def)
    show "file_ok v4 ?e2 [?d]"
      using ch(2) W(5,7) sz buf(2) by (simp add: file_ok_def dir_ok_def fc del: of_nat_add)
    show "file_bytes v4 ?e2 [?d] = file_bytes v ?e [?d] @ buf"
      unfolding file_bytes_def W(10) sz using off lc buf(2) by (simp add: overwrite_def)
  qed
qed

lemma Write_new_file:
  assumes ok: "vol_ok v" and p: "in_volume v p" "fat v ! fst p \<noteq> 0"
    and empty: "FirstCluster (entry v p) = 0" and space: "free_clusters (fat v) 2 \<noteq> []"
    and buf: "0 < length buf" "length buf \<le> bytes_per_cluster v" "length buf < 2 ^ 32"
  obtains v' fd' d e where "Write v (FileDescriptor_init p) buf = Some (v', fd', length buf)"
    "vol_ok v'" "get_entry v' p = Some e" "file_ok v' e [d]" "file_bytes v' e [d] = buf"
    "fat_frame (fat v) (fat v') {d}" "d \<in> set (free_clusters (fat v) 2)" "wr_off fd' = length buf" "fat_entry fd' = p"
    "rd_off fd' = 0" "rd_cluster fd' = 0" "rd_cluster_off fd' = 0"
    "wr_cluster fd' = d" "wr_cluster_off fd' = length buf" "bpb v' = bpb v" "bytes_per_cluster v' = bytes_per_cluster v"
    "\<forall>q. in_volume v q \<longrightarrow> fst q \<noteq> d \<longrightarrow> de_name (entry v' q) = de_name (entry v q)"
proof -
  let ?b = "bytes_per_cluster v" and ?fd = "FileDescriptor_init p" and ?e = "entry v p"
  have fok: "fat_ok (fat v)" using ok by (simp add: vol_ok_def)
  obtain d ds where fr: "free_clusters (fat v) 2 = d # ds" using space by (cases "free_clusters (fat v) 2") auto
  then have "d \<in> set (free_clusters (fat v) 2)" by simp
  then have d: "2 \<le> d" "d < length (fat v)" "fat v ! d = 0" by (simp_all add: free_clusters_set)
  then have dp: "fst p \<noteq> d" using p(2) by auto
  obtain f' where A: "AllocateClusterChain (fat v) 1 = Some (f', d)" "is_chain f' [d]" "fat_frame (fat v) f' {d}"
    using AllocateClusterChain_spec [OF fok, of 1] fr by auto
  have nc: "num_cluster v (length buf) = 1"
  proof -
    have "?b * 1 \<le> length buf + ?b - 1" "length buf + ?b - 1 < ?b + ?b" using buf(1,2) by linarith+
    moreover have "?b * Suc 1 = ?b + ?b" by simp
    ultimately show ?thesis unfolding num_cluster_def by (intro div_nat_eqI) simp_all
  qed
  let ?v1 = "v\<lparr>fat := f'\<rparr>"
  define e1 where "e1 = ?e\<lparr>first_cluster_low := of_nat d AND 0xffff,
    first_cluster_high := ucast (drop_bit 16 (of_nat d :: u64) AND 0xffff)\<rparr>"
  have d32: "d < 2 ^ 32" using d(2) fok by (simp add: fat_ok_def)
  have ok1: "vol_ok ?v1" by (rule vol_ok_fat [OF ok A(3)])
  have iv1: "in_volume ?v1 q = in_volume v q" for q
    using A(3) by (simp add: in_volume_def fat_frame_def entries_per_cluster_def)
  have n1: "length (de_name e1) = 11" using entry_name_length [OF ok p(1)] by (simp add: e1_def)
  obtain v2 where P2: "put_entry ?v1 p e1 = Some v2" "vol_ok v2" "fat v2 = f'" "bytes_per_cluster v2 = ?b" "bpb v2 = bpb v"
    "\<forall>q. in_volume ?v1 q \<longrightarrow> entry v2 q = (if q = p then e1 else entry ?v1 q)"
    using put_entry_ex [OF ok1 _ n1, of p] p(1) unfolding iv1 by auto
  define fd1 where "fd1 = ?fd\<lparr>wr_cluster := d\<rparr>"
  have fd1: "wr_cluster fd1 = d" "wr_cluster_off fd1 = 0" "fat_entry fd1 = p" "wr_off fd1 = 0"
    by (simp_all add: fd1_def FileDescriptor_init_def)
  have iv2: "in_volume v2 q = in_volume v q" for q
    using P2(3,4) A(3) by (simp add: in_volume_def fat_frame_def entries_per_cluster_def)
  have e2: "in_volume v2 p" "entry v2 p = e1" using P2(6) [rule_format, of p] p(1) by (simp_all add: iv1 iv2)
  have l2: "d < length (fat v2)" using d(2) P2(3) A(3) by (simp add: fat_frame_def)
  have "wr_cluster_off fd1 + length buf \<le> bytes_per_cluster v2" using buf(2) P2(4) fd1(2) by simp
  from write_in_cluster [OF P2(2) e2(1) _ _ _ buf(1) this, unfolded fd1 e2(2), OF dp d(1) l2] obtain v3 v4 where
    W: "write_loop buf 0 v2 fd1 = Some (length buf, v3, fd1\<lparr>wr_cluster_off := 0 + length buf\<rparr>)"
      "get_entry v3 p = Some e1" "put_entry v3 p (e1\<lparr>file_size := of_nat (0 + length buf)\<rparr>) = Some v4"
      "vol_ok v4" "fat v4 = fat v2" "bpb v4 = bpb v2" "bytes_per_cluster v4 = bytes_per_cluster v2"
      "get_entry v4 p = Some (e1\<lparr>file_size := of_nat (0 + length buf)\<rparr>)"
      "\<forall>q. in_volume v2 q \<longrightarrow> fst q \<noteq> d \<longrightarrow> de_name (entry v4 q) = de_name (entry v2 q)"
      "content v4 [d] = overwrite 0 buf (content v2 [d])" by metis
  let ?e2 = "e1\<lparr>file_size := of_nat (length buf)\<rparr>"
  have sz: "unat (file_size ?e2) = length buf"
    using buf(3) by (simp add: unsigned_of_nat take_bit_nat_eq_self)
  have fe: "fat_entry ?fd = p" "wr_cluster ?fd = 0" "wr_off ?fd = 0" by (simp_all add: FileDescriptor_init_def)
  show thesis
  proof (rule that)
    show "Write v ?fd buf = Some (v4, fd1\<lparr>wr_cluster_off := length buf, wr_off := length buf\<rparr>, length buf)"
      using get_entry_in [OF ok p(1)] W(1-3) fe empty A(1) P2(1)
      by (simp add: Write_def nc e1_def [symmetric] fd1_def [symmetric] fd1 Let_def)
    show "vol_ok v4" "get_entry v4 p = Some ?e2" using W(4,8) by simp_all
    show "file_ok v4 ?e2 [d]"
      using A(2) d buf FirstCluster_set [OF d32, of ?e] W(5,7) P2(3,4) sz
      by (simp add: file_ok_def dir_ok_def e1_def FirstCluster_def)
    show "file_bytes v4 ?e2 [d] = buf" using W(10) sz by (simp add: file_bytes_def overwrite_def)
    show "fat_frame (fat v) (fat v4) {d}" using A(3) W(5) P2(3) by simp
    show "\<forall>q. in_volume v q \<longrightarrow> fst q \<noteq> d \<longrightarrow> de_name (entry v4 q) = de_name (entry v q)"
      using W(9) P2(6) by (simp add: iv1 iv2 e1_def del: split_paired_All)
  qed (use fr W(6,7) P2(4,5) in \<open>simp_all add: fd1 fd1_def FileDescriptor_init_def\<close>)
qed

text \<open>A volume with one file of 40 bytes over two clusters.\<close>

definition file_entry_example :: DirectoryEntry where
  "file_entry_example = \<lparr>de_name = str ''MEMO    TXT'', attr = 0, ntres = 0, create_time_tenth = 0,
     create_time = 0, create_date = 0, last_access_date = 0, first_cluster_high = 0,
     write_time = 0, write_date = 0, first_cluster_low = 3, file_size = 40\<rparr>"

definition file_volume_example :: volume where
  "file_volume_example = \<lparr>bpb = bpb_example, bytes_per_cluster = 32,
     fat = [0, 0, 0x0fffffff, 4, 0x0fffffff, 0],
     clusters = [encode_entry file_entry_example, map of_nat [0..<32], map of_nat [32..<64],
                 replicate 32 0]\<rparr>"

lemma file_volume_example_ok:
  "vol_ok file_volume_example" "get_entry file_volume_example (2, 0) = Some file_entry_example"
  "file_ok file_volume_example file_entry_example [3, 4]"
  "file_bytes file_volume_example file_entry_example [3, 4] = map of_nat [0..<40]"
proof -
  have l: "length (de_name file_entry_example) = 11" by (simp add: file_entry_example_def str_def)
  note enc = encode_entry_length [OF l] decode_encode_entry [OF l]
  show ok: "vol_ok file_volume_example"
    using enc(1) by (simp add: vol_ok_def fat_ok_def file_volume_example_def kEntrySize_def)
  have "in_volume file_volume_example (2, 0)"
    by (simp add: in_volume_def file_volume_example_def entries_per_cluster_def kEntrySize_def)
  moreover have "entry file_volume_example (2, 0) = file_entry_example"
    using enc by (simp add: entry_def file_volume_example_def slice_def)
  ultimately show "get_entry file_volume_example (2, 0) = Some file_entry_example"
    using get_entry_in [OF ok] by simp
  show "file_ok file_volume_example file_entry_example [3, 4]"
    by (simp add: file_ok_def dir_ok_def file_volume_example_def file_entry_example_def FirstCluster_def
        IsEndOfClusterchain_def kEndOfClusterchain_def)
  have "map of_nat [0..<32] @ map of_nat [32..<64] = (map of_nat [0..<64] :: u8 list)"
    using upt_add_eq_append [of 0 32 32] by (simp del: upt_rec_numeral flip: map_append)
  then show "file_bytes file_volume_example file_entry_example [3, 4] = map of_nat [0..<40]"
    by (simp add: file_bytes_def content_def file_volume_example_def file_entry_example_def take_map
        del: upt_rec_numeral)
qed

theorem Read_returns_content_witness:
  "\<exists>fd'. Read file_volume_example (FileDescriptor_init (2, 0)) 36 = Some (fd', map of_nat [0..<36])
     \<and> reading file_volume_example [3, 4] fd' \<and> rd_off fd' = 36"
proof -
  have i: "fat_entry (FileDescriptor_init (2, 0)) = (2, 0)" "rd_off (FileDescriptor_init (2, 0)) = 0"
    by (simp_all add: FileDescriptor_init_def)
  have "unat (file_size file_entry_example) = 40" by (simp add: file_entry_example_def)
  with Read_returns_content [OF file_volume_example_ok(1) _ file_volume_example_ok(3),
      of "FileDescriptor_init (2, 0)" 36]
  show ?thesis using file_volume_example_ok(2,4) by (auto simp: i take_map simp del: upt_rec_numeral)
qed

theorem Load_returns_part_witness:
  "Load file_volume_example (FileDescriptor_init (2, 0)) 100 30 = Some (map of_nat [30..<40])"
proof -
  have i: "fat_entry (FileDescriptor_init (2, 0)) = (2, 0)" by (simp add: FileDescriptor_init_def)
  have "unat (file_size file_entry_example) = 40" by (simp add: file_entry_example_def)
  with Load_returns_part [OF file_volume_example_ok(1) _ file_volume_example_ok(3),
      of "FileDescriptor_init (2, 0)" 30 100]
  show ?thesis using file_volume_example_ok(2,4)
    by (auto simp: i take_map drop_map simp del: upt_rec_numeral)
qed

text \<open>
  what is written is read back.  Into a new file (no clusters yet, with a free cluster in the
  volume) a buffer of at most one cluster is written completely, to a cluster that was free before;
  the size of the file is then the length of the buffer, the volume stays well-formed, and reading
  the file returns the buffer.
\<close>

theorem Write_then_Read:
  assumes "vol_ok v" and "in_volume v p" and "fat v ! fst p \<noteq> 0"
    and "FirstCluster (entry v p) = 0" and "free_clusters (fat v) 2 \<noteq> []"
    and "0 < length buf" and "length buf \<le> bytes_per_cluster v" and "length buf < 2 ^ 32"
  shows "\<exists>v' fd'. Write v (FileDescriptor_init p) buf = Some (v', fd', length buf) \<and> vol_ok v'
    \<and> Size v' fd' = Some (length buf)
    \<and> (\<exists>fd''. Read v' (FileDescriptor_init p) len = Some (fd'', take len buf))
    \<and> (\<exists>d \<in> set (free_clusters (fat v) 2). fat_frame (fat v) (fat v') {d})"
proof (rule Write_new_file [OF assms])
  fix v' fd' d e
  assume w: "Write v (FileDescriptor_init p) buf = Some (v', fd', length buf)" "vol_ok v'"
    "get_entry v' p = Some e" "file_ok v' e [d]" "file_bytes v' e [d] = buf"
    "fat_frame (fat v) (fat v') {d}" "d \<in> set (free_clusters (fat v) 2)" "fat_entry fd' = p"
  let ?fd = "FileDescriptor_init p"
  have i: "fat_entry ?fd = p" "rd_off ?fd = 0" by (simp_all add: FileDescriptor_init_def)
  have "dir_ok v' [d]" using w(4) unfolding file_ok_def by blast
  from content_length [OF w(2) this] have "length (content v' [d]) = bytes_per_cluster v'" by simp
  then have "unat (file_size e) = length buf"
    using w(4) w(5) [symmetric] by (simp add: file_ok_def file_bytes_def)
  moreover obtain fd'' where "Read v' ?fd len = Some (fd'', take len buf)"
    using Read_spec [OF w(2) _ w(4), of ?fd len] reading_init [of "[d]" v' p] w(3,5) i by auto
  ultimately show ?thesis using w by (auto simp: Size_def)
qed

definition new_file_example :: volume where
  "new_file_example = \<lparr>bpb = bpb_example, bytes_per_cluster = 32, fat = [0, 0, 0x0fffffff, 0, 0],
     clusters = replicate 3 (replicate 32 0)\<rparr>"

lemma new_file_example_ok:
  "vol_ok new_file_example" "in_volume new_file_example (2, 0)" "fat new_file_example ! 2 \<noteq> 0"
  "FirstCluster (entry new_file_example (2, 0)) = 0" "free_clusters (fat new_file_example) 2 \<noteq> []"
  "bytes_per_cluster new_file_example = 32"
  by (simp_all add: new_file_example_def vol_ok_def fat_ok_def kEntrySize_def in_volume_def
      entries_per_cluster_def entry_def decode_entry_def FirstCluster_def free_clusters_def upt_rec
      slice_def un16_zero)

theorem Write_then_Read_witness:
  "\<exists>v' fd' fd''. Write new_file_example (FileDescriptor_init (2, 0)) [1, 2, 3] = Some (v', fd', 3)
     \<and> Read v' (FileDescriptor_init (2, 0)) 2 = Some (fd'', [1, 2])"
  using Write_then_Read [OF new_file_example_ok(1,2) _ new_file_example_ok(4,5), of "[1, 2, 3]" 2]
  by (auto simp: new_file_example_ok)

lemma write_step_full:
  assumes "write_step buf tot v fd = Some (tot', v', fd')" and "bytes_per_cluster v < length buf"
    and "wr_cluster_off fd = 0 \<or> wr_cluster_off fd = bytes_per_cluster v"
  shows "tot' = tot + bytes_per_cluster v \<and> tot' \<le> length buf \<and> bytes_per_cluster v' = bytes_per_cluster v
    \<and> wr_cluster_off fd' = bytes_per_cluster v'"
  using assms
  by (auto simp: write_step_def put_cluster_def Let_def split: bind_splits if_splits prod.splits)

lemma write_loop_overruns:
  assumes "bytes_per_cluster v < length buf" and "\<not> bytes_per_cluster v dvd length buf"
    and "bytes_per_cluster v dvd tot" and "tot \<le> length buf" and "0 < bytes_per_cluster v"
    and "wr_cluster_off fd = 0 \<or> wr_cluster_off fd = bytes_per_cluster v"
  shows "write_loop buf tot v fd = None"
  using assms
proof (induction "length buf - tot" arbitrary: tot v fd rule: less_induct)
  case less
  then have lt: "tot < length buf" using le_neq_implies_less by blast
  show ?case
  proof (cases "write_step buf tot v fd")
    case None
    with lt show ?thesis by (simp add: write_loop.simps [of buf tot])
  next
    case (Some r)
    obtain tot' v' fd' where r: "r = (tot', v', fd')" by (cases r)
    note st = write_step_full [OF Some [unfolded r] less.prems(1,6)]
    have "write_loop buf tot' v' fd' = None"
      by (rule less.hyps) (use st less.prems lt in auto)
    then show ?thesis using lt Some r by (simp add: write_loop.simps [of buf tot])
  qed
qed

text \<open>
  a write that crosses a cluster boundary leaves the caller's buffer.  Each iteration copies
  up to \<open>min len room\<close> bytes where \<open>min (len - total) room\<close> are left, so for a new file a buffer that
  is longer than a cluster and not a multiple of it is never written with a defined result, however
  much room the volume has.
\<close>

theorem Write_across_clusters_overruns:
  assumes "vol_ok v" and "bytes_per_cluster v < length buf"
    and "\<not> bytes_per_cluster v dvd length buf"
  shows "Write v (FileDescriptor_init p) buf = None"
proof -
  have b: "0 < bytes_per_cluster v" using assms(1) by (simp add: vol_ok_def)
  have pe: "bytes_per_cluster v' = bytes_per_cluster w" if "put_entry w p e = Some v'" for w e v'
    using that by (auto simp: put_entry_def put_cluster_def split: bind_splits if_splits prod.splits)
  have "write_loop buf 0 w fd = None"
    if "bytes_per_cluster w = bytes_per_cluster v" "wr_cluster_off fd = 0" for w fd
    by (rule write_loop_overruns) (use that assms b in auto)
  then show ?thesis
    by (auto simp: Write_def FileDescriptor_init_def Let_def dest: pe split: bind_splits)
qed

theorem Write_across_clusters_overruns_witness:
  "Write new_file_example (FileDescriptor_init (2, 0)) (replicate 40 7) = None"
  by (rule Write_across_clusters_overruns [OF new_file_example_ok(1)])
    (simp_all add: new_file_example_ok(6) del: replicate.simps)

section \<open>Deleting and creating again\<close>

text \<open>
  C28: deleting a file frees exactly its clusters and makes its entry available again, but the entry
  keeps the number of its first cluster; and \<^verbatim>\<open>CreateFile\<close> keeps that field of the slot it takes.  So a
  file created in the slot of a deleted one refers to clusters that are free, and that \<^verbatim>\<open>Write\<close> fills
  without allocating them.
\<close>

theorem DeleteFile_frees_chain:
  assumes "vol_ok v" and "in_volume v p" and "FindFile v path 0 = Some (Some p, False)"
    and "attr (entry v p) \<noteq> kDirectory" and "attr (entry v p) \<noteq> kSystem"
    and "get_entry v (prev_entry v p) = Some prev" and "attr prev \<noteq> kLongName"
    and "is_chain (fat v) (c # cs)" and "distinct (c # cs)" and "c = unat (FirstCluster (entry v p))"
  shows "\<exists>v'. DeleteFile v path = Some (v', kSuccess, []) \<and> vol_ok v'
    \<and> length (fat v') = length (fat v)
    \<and> (\<forall>x < length (fat v). fat v' ! x = (if x \<in> set (c # cs) then 0 else fat v ! x))
    \<and> \<not> used v' p \<and> unat (FirstCluster (entry v' p)) = c
    \<and> (\<forall>q. in_volume v q \<longrightarrow> q \<noteq> p \<longrightarrow> entry v' q = entry v q)
    \<and> (\<forall>name d v''. parent_of v' name = Some (Inr (d, name)) \<longrightarrow> AllocateEntry v' d = Some (v', p)
         \<longrightarrow> CreateFile v' name = Some (v'', Inr p) \<longrightarrow> unat (FirstCluster (entry v'' p)) = c)"
proof -
  let ?e = "entry v p" and ?S = "set (c # cs)"
  define e' where "e' = ?e\<lparr>de_name := (de_name ?e)[0 := 0xe5]\<rparr>"
  obtain f' where F: "FreeCluster (fat v) c = Some f'" "length f' = length (fat v)"
    "\<forall>x < length (fat v). f' ! x = (if x \<in> ?S then 0 else fat v ! x)"
    using FreeCluster_chain [OF assms(8,9)] by blast
  note n = entry_name_length [OF assms(1,2)]
  have ok1: "vol_ok (v\<lparr>fat := f'\<rparr>)" using assms(1) F(2) by (simp add: vol_ok_def fat_ok_def)
  have p1: "in_volume (v\<lparr>fat := f'\<rparr>) q = in_volume v q" for q
    using F(2) by (simp add: in_volume_def entries_per_cluster_def)
  have n': "length (de_name e') = 11" using n by (simp add: e'_def)
  have sel: "fat (v\<lparr>fat := f'\<rparr>) = f'" "bytes_per_cluster (v\<lparr>fat := f'\<rparr>) = bytes_per_cluster v" by simp_all
  obtain v' where P: "put_entry (v\<lparr>fat := f'\<rparr>) p e' = Some v'" "vol_ok v'" "fat v' = f'"
    "bytes_per_cluster v' = bytes_per_cluster v"
    "\<forall>q. in_volume v q \<longrightarrow> entry v' q = (if q = p then e' else entry (v\<lparr>fat := f'\<rparr>) q)"
    using put_entry_ex [OF ok1 _ n', of p] assms(2) p1 sel by metis
  have D: "DeleteFile v path = Some (v', kSuccess, [])"
    using assms(3-7,10) get_entry_in [OF assms(1,2)] F(1) P(1) by (simp add: DeleteFile_def e'_def)
  have ep: "entry v' p = e'" using P(5) [rule_format, OF assms(2)] by simp
  have u: "\<not> used v' p" using n unfolding used_def ep by (auto simp: e'_def)
  have fc: "unat (FirstCluster (entry v' p)) = c"
    unfolding ep using assms(10) by (simp add: e'_def FirstCluster_def)
  have p2: "in_volume v' p" using assms(2) P(3,4) F(2) by (simp add: in_volume_def entries_per_cluster_def)
  have keep: "unat (FirstCluster (entry v'' p)) = c"
    if "parent_of v' name = Some (Inr (d, name))" "AllocateEntry v' d = Some (v', p)"
      "CreateFile v' name = Some (v'', Inr p)" for name d v''
  proof -
    let ?n = "(SetFileName (entry v' p) name)\<lparr>file_size := 0\<rparr>"
    have "put_entry v' p ?n = Some v''"
      using that get_entry_in [OF P(2) p2] by (auto simp: CreateFile_def split: bind_splits)
    moreover have "length (de_name ?n) = 11" by (simp add: SetFileName_length)
    ultimately have "entry v'' p = ?n" using put_entry_ex [OF P(2) p2] p2 by (metis option.inject)
    then show ?thesis using fc by (simp add: FirstCluster_def SetFileName_def split: option.split)
  qed
  have oth: "\<forall>q. in_volume v q \<longrightarrow> q \<noteq> p \<longrightarrow> entry v' q = entry v q" using P(5) by simp
  show ?thesis
    by (intro exI [of _ v'] conjI D P(2) u fc oth allI impI keep; (simp only: P(3) F(2,3))?)
qed

definition delete_example :: volume where
  "delete_example = \<lparr>bpb = bpb_example, bytes_per_cluster = 64,
     fat = [0, 0, 0x0fffffff, 4, 0x0fffffff, 0],
     clusters = (encode_entry (file_entry_example\<lparr>de_name := str ''A       TXT''\<rparr>)
                 @ encode_entry file_entry_example) # replicate 3 (replicate 64 0)\<rparr>"

lemma delete_example_ok:
  "vol_ok delete_example" "in_volume delete_example (2, 0)" "in_volume delete_example (2, 1)"
  "entry delete_example (2, 0) = file_entry_example\<lparr>de_name := str ''A       TXT''\<rparr>"
  "entry delete_example (2, 1) = file_entry_example" "dir_ok delete_example [2]"
  "root_dir delete_example = 2" "slots delete_example [2] = [(2, 0), (2, 1)]"
proof -
  let ?a = "file_entry_example\<lparr>de_name := str ''A       TXT''\<rparr>"
  have l: "length (de_name file_entry_example) = 11" "length (de_name ?a) = 11"
    by (simp_all add: file_entry_example_def str_def)
  note enc = encode_entry_length [OF l(1)] decode_encode_entry [OF l(1)]
    encode_entry_length [OF l(2)] decode_encode_entry [OF l(2)]
  show "vol_ok delete_example"
    using enc by (simp add: vol_ok_def fat_ok_def delete_example_def kEntrySize_def)
  show "in_volume delete_example (2, 0)" "in_volume delete_example (2, 1)"
    by (simp_all add: in_volume_def delete_example_def entries_per_cluster_def kEntrySize_def)
  show "entry delete_example (2, 0) = ?a" "entry delete_example (2, 1) = file_entry_example"
    using enc by (simp_all add: entry_def delete_example_def slice_def)
  show "dir_ok delete_example [2]"
    by (simp add: dir_ok_def delete_example_def IsEndOfClusterchain_def kEndOfClusterchain_def)
  show "root_dir delete_example = 2" by (simp add: root_dir_def delete_example_def bpb_example_def)
  show "slots delete_example [2] = [(2, 0), (2, 1)]"
    by (simp add: slots_def delete_example_def entries_per_cluster_def kEntrySize_def upt_rec)
qed

theorem DeleteFile_frees_chain_witness:
  "\<exists>v'. DeleteFile delete_example (str ''memo.txt'') = Some (v', kSuccess, []) \<and> fat v' ! 3 = 0
     \<and> fat v' ! 4 = 0 \<and> unat (FirstCluster (entry v' (2, 1))) = 3"
proof -
  have rep: "replicate 11 (32 :: u8) = [32, 32, 32, 32, 32, 32, 32, 32, 32, 32, 32]" by (simp add: numeral_eq_Suc)
  have "find_live delete_example (str ''memo.txt'') (slots delete_example [2]) = Some (2, 1)"
    by (simp add: delete_example_ok [unfolded One_nat_def] NameIsEqual_def file_entry_example_def
        str_def toupper_def rep kDot_def kSpace_def)
  then have f: "FindFile delete_example (str ''memo.txt'') 0 = Some (Some (2, 1), False)"
    using FindFile_one [OF delete_example_ok(1,6), of 0 "str ''memo.txt''"]
    by (simp add: delete_example_ok(7) str_def kSlash_def)
  have pr: "get_entry delete_example (prev_entry delete_example (2, 1))
      = Some (file_entry_example\<lparr>de_name := str ''A       TXT''\<rparr>)"
    using get_entry_in [OF delete_example_ok(1,2)] delete_example_ok(4) by (simp add: prev_entry_def)
  have ch: "is_chain (fat delete_example) [3, 4]"
    by (simp add: delete_example_def IsEndOfClusterchain_def kEndOfClusterchain_def)
  have at: "attr (entry delete_example (2, 1)) \<noteq> kDirectory" "attr (entry delete_example (2, 1)) \<noteq> kSystem"
    "attr (file_entry_example\<lparr>de_name := str ''A       TXT''\<rparr>) \<noteq> kLongName"
    "3 = unat (FirstCluster (entry delete_example (2, 1)))"
    by (simp_all add: delete_example_ok(5) file_entry_example_def kDirectory_def kSystem_def
        kLongName_def FirstCluster_def del: One_nat_def)
  have "distinct [3, 4 :: nat]" by simp
  note del = DeleteFile_frees_chain [OF delete_example_ok(1,3) f at(1,2) pr at(3) ch this at(4)]
  have len: "length (fat delete_example) = 6" by (simp add: delete_example_def)
  from del [unfolded len] obtain v' where v': "DeleteFile delete_example (str ''memo.txt'') = Some (v', kSuccess, [])"
    "\<forall>x < 6. fat v' ! x = (if x \<in> set [3, 4] then 0 else fat delete_example ! x)"
    "unat (FirstCluster (entry v' (2, 1))) = 3" by blast
  from v'(2) have "fat v' ! 3 = 0" "fat v' ! 4 = 0" by auto
  with v' show ?thesis by blast
qed

end
