(* ===== verification/Messages.thy ===== *)
theory Messages imports KError begin

text \<open>
  Messages and queues: \<^verbatim>\<open>struct Message\<close> of \<^verbatim>\<open>kernel/message.hpp\<close> and the bounded ring buffer
  \<^verbatim>\<open>ArrayQueue\<close> of \<^verbatim>\<open>kernel/queue.hpp\<close>.

  The locales \<open>fifo\<close> and \<open>bounded_fifo\<close> state what a client of a queue relies on; they are
  interpreted on \<open>ArrayQueue\<close>, and \<open>fifo\<close> also on the USB controller's ring in \<open>Usb_Ring\<close>.
\<close>

section \<open>Messages\<close>

datatype msg_type = kEmptyMsg | kInterruptXHCI | kInterruptLAPICTimer | kTimerTimeout | kKeyPush
  | kLayerOps | kLayerOpsFinish | kMouseMove | kMouseButton | kWindowActive | kPipe | kWindowClose

datatype LayerOperation = Move | MoveRelative | Draw | DrawArea

text \<open>The union \<^verbatim>\<open>arg\<close>; \<open>NoArg\<close> stands for the value-initialised union of messages without argument.\<close>

datatype msg_arg =
    NoArg
  | TimerArg (timer_timeout: u64) (timer_value: int)
  | KeyArg (modifier: u8) (keycode: u8) (ascii: u8) (press: bool)
  | LayerArg (layer_op: LayerOperation) (layer_id: u32) (layer_xy: "int \<times> int") (layer_wh: "int \<times> int")
  | MouseMoveArg (mouse_xy: "int \<times> int") (mouse_dxy: "int \<times> int") (mouse_buttons: u8)
  | MouseButtonArg (button_xy: "int \<times> int") (button_press: bool) (button: int)
  | WindowActiveArg (activate: bool)
  | PipeArg (pipe_data: "u8 list") (pipe_len: u8)
  | WindowCloseArg (close_layer_id: u32)

record Message =
  msg_type :: msg_type
  src_task_id :: nat
  arg :: msg_arg

section \<open>The interface of a queue\<close>

text \<open>
  \<open>content q\<close> is what the queue holds, oldest first; \<open>push\<close> returns \<open>None\<close> when it does not take the
  element and \<open>pop\<close> when there is none; \<open>ok\<close> are the elements the queue can carry.  \<open>fifo\<close> is the
  contract of every queue, \<open>bounded_fifo\<close> that of a queue which refuses an element when it is full.
\<close>

locale fifo =
  fixes inv :: "'q \<Rightarrow> bool" and content :: "'q \<Rightarrow> 'a list" and cap :: "'q \<Rightarrow> nat"
    and push :: "'a \<Rightarrow> 'q \<Rightarrow> 'q option" and pop :: "'q \<Rightarrow> ('a \<times> 'q) option" and ok :: "'a \<Rightarrow> bool"
  assumes push_room: "inv q \<Longrightarrow> length (content q) < cap q \<Longrightarrow> ok x \<Longrightarrow>
      \<exists>q'. push x q = Some q' \<and> inv q' \<and> content q' = content q @ [x] \<and> cap q' = cap q"
    and pop_empty: "inv q \<Longrightarrow> content q = [] \<Longrightarrow> pop q = None"
    and pop_Cons: "inv q \<Longrightarrow> content q = x # xs \<Longrightarrow>
      \<exists>q'. pop q = Some (x, q') \<and> inv q' \<and> content q' = xs \<and> cap q' = cap q"
begin

fun push_all :: "'a list \<Rightarrow> 'q \<Rightarrow> 'q option" where
  "push_all [] q = Some q"
| "push_all (x # xs) q = (case push x q of None \<Rightarrow> None | Some q' \<Rightarrow> push_all xs q')"

fun pop_n :: "nat \<Rightarrow> 'q \<Rightarrow> ('a list \<times> 'q) option" where
  "pop_n 0 q = Some ([], q)"
| "pop_n (Suc n) q = (case pop q of None \<Rightarrow> None
     | Some (x, q') \<Rightarrow> map_option (\<lambda>(ys, q''). (x # ys, q'')) (pop_n n q'))"

lemma push_all_content:
  "inv q \<Longrightarrow> length (content q) + length xs \<le> cap q \<Longrightarrow> list_all ok xs \<Longrightarrow>
     \<exists>q'. push_all xs q = Some q' \<and> inv q' \<and> content q' = content q @ xs \<and> cap q' = cap q"
proof (induction xs arbitrary: q)
  case Nil
  then show ?case by simp
next
  case (Cons x xs)
  then obtain q1 where q1: "push x q = Some q1" "inv q1" "content q1 = content q @ [x]" "cap q1 = cap q"
    using push_room [of q x] by auto
  from Cons.IH [of q1] Cons.prems q1 show ?case by auto
qed

lemma pop_n_content:
  "inv q \<Longrightarrow> n \<le> length (content q) \<Longrightarrow>
     \<exists>q'. pop_n n q = Some (take n (content q), q') \<and> inv q' \<and> content q' = drop n (content q)
       \<and> cap q' = cap q"
proof (induction n arbitrary: q)
  case 0
  then show ?case by simp
next
  case (Suc n)
  then obtain x xs where c: "content q = x # xs" by (cases "content q") auto
  with Suc.prems obtain q1 where q1: "pop q = Some (x, q1)" "inv q1" "content q1 = xs" "cap q1 = cap q"
    using pop_Cons by blast
  from Suc.IH [of q1] Suc.prems c q1 show ?case by auto
qed

text \<open>What goes in comes out in the same order, behind what was there.\<close>

lemma fifo_order:
  assumes "inv q" and "length (content q) + length xs \<le> cap q" and "list_all ok xs"
  shows "\<exists>q' q''. push_all xs q = Some q' \<and> pop_n (length (content q) + length xs) q' = Some (content q @ xs, q'')
     \<and> content q'' = []"
proof -
  obtain q' where q': "push_all xs q = Some q'" "inv q'" "content q' = content q @ xs"
    using push_all_content [OF assms] by blast
  then obtain q'' where "pop_n (length (content q')) q' = Some (content q', q'')" "content q'' = []"
    using pop_n_content [OF q'(2) order_refl] by auto
  with q' show ?thesis by auto
qed

end

locale bounded_fifo = fifo +
  assumes push_full: "inv q \<Longrightarrow> length (content q) = cap q \<Longrightarrow> push x q = None"
begin

lemma push_some_iff: "inv q \<Longrightarrow> length (content q) \<le> cap q \<Longrightarrow> ok x \<Longrightarrow>
    push x q \<noteq> None \<longleftrightarrow> length (content q) < cap q"
  using push_room push_full by (metis le_neq_implies_less less_irrefl option.distinct(1))

end

section \<open>The ring buffer\<close>

record 'a ArrayQueue =
  capacity :: nat
  data :: "'a list"
  read_pos :: nat
  write_pos :: nat
  cnt :: nat

definition ArrayQueue_init :: "'a list \<Rightarrow> 'a ArrayQueue" where
  "ArrayQueue_init buf = \<lparr>capacity = length buf, data = buf, read_pos = 0, write_pos = 0, cnt = 0\<rparr>"

definition Push :: "'a \<Rightarrow> 'a ArrayQueue \<Rightarrow> ('a ArrayQueue \<times> error_code) option" where
  "Push v q = (if cnt q = capacity q then Some (q, kFull)
     else do {
       d \<leftarrow> arr_set (data q) (write_pos q) v;
       let w = write_pos q + 1 in
       Some (q\<lparr>data := d, cnt := cnt q + 1, write_pos := if w = capacity q then 0 else w\<rparr>, kSuccess)
     })"

definition HasFront :: "'a ArrayQueue \<Rightarrow> bool" where
  "HasFront q \<longleftrightarrow> cnt q > 0"

definition Pop :: "'a ArrayQueue \<Rightarrow> 'a ArrayQueue \<times> error_code" where
  "Pop q = (if cnt q = 0 then (q, kEmpty)
     else let r = read_pos q + 1 in
       (q\<lparr>cnt := cnt q - 1, read_pos := if r = capacity q then 0 else r\<rparr>, kSuccess))"

text \<open>\<open>dflt\<close> is the default-constructed \<^verbatim>\<open>T empty\<close> that \<^verbatim>\<open>Front\<close> returns (after logging) on an empty queue.\<close>

definition Front :: "'a \<Rightarrow> 'a ArrayQueue \<Rightarrow> ('a ArrayQueue \<times> 'a) option" where
  "Front dflt q = do {
     ret \<leftarrow> arr_get (data q) (read_pos q);
     case Pop q of (q', err) \<Rightarrow> Some (q', if err \<noteq> kSuccess then dflt else ret)
   }"

definition queue_inv :: "'a ArrayQueue \<Rightarrow> bool" where
  "queue_inv q \<longleftrightarrow> 0 < capacity q \<and> length (data q) = capacity q \<and> read_pos q < capacity q
     \<and> cnt q \<le> capacity q \<and> write_pos q = (read_pos q + cnt q) mod capacity q"

definition queue_content :: "'a ArrayQueue \<Rightarrow> 'a list" where
  "queue_content q = map (\<lambda>i. data q ! ((read_pos q + i) mod capacity q)) [0..<cnt q]"

lemma queue_content_length [simp]: "length (queue_content q) = cnt q"
  by (simp add: queue_content_def)

lemma queue_inv_init: "buf \<noteq> [] \<Longrightarrow> queue_inv (ArrayQueue_init buf) \<and> queue_content (ArrayQueue_init buf) = []"
  by (simp add: queue_inv_def ArrayQueue_init_def queue_content_def)

lemma mod_Suc_wrap: "w < c \<Longrightarrow> (if w + 1 = c then 0 else w + 1) = (w + 1) mod (c :: nat)"
  by auto

lemma ring_distinct: "i < n \<Longrightarrow> n < c \<Longrightarrow> r < c \<Longrightarrow> (r + i) mod c \<noteq> (r + n) mod (c :: nat)"
  by (auto simp: mod_if)

lemma Push_room:
  assumes "queue_inv q" and "cnt q < capacity q"
  shows "\<exists>q'. Push x q = Some (q', kSuccess) \<and> queue_inv q' \<and> queue_content q' = queue_content q @ [x]
    \<and> capacity q' = capacity q"
proof -
  let ?c = "capacity q" and ?w = "write_pos q"
  have w: "?w < ?c" "?w < length (data q)" "?w = (read_pos q + cnt q) mod ?c"
    using assms(1) by (auto simp: queue_inv_def)
  let ?q = "q\<lparr>data := (data q)[?w := x], cnt := cnt q + 1, write_pos := (?w + 1) mod ?c\<rparr>"
  have "Push x q = Some (?q, kSuccess)"
    using assms(2) w(2) unfolding Push_def Let_def mod_Suc_wrap [OF w(1)] by simp
  moreover have "queue_inv ?q" using assms w(3) by (auto simp: queue_inv_def mod_Suc_eq add.assoc)
  moreover have "queue_content ?q = queue_content q @ [x]"
  proof -
    have "(data q)[?w := x] ! ((read_pos q + i) mod ?c) = data q ! ((read_pos q + i) mod ?c)" if "i < cnt q" for i
    proof -
      have "?w \<noteq> (read_pos q + i) mod ?c"
        using ring_distinct [OF that assms(2)] assms(1) w(3) by (metis queue_inv_def)
      then show ?thesis by simp
    qed
    then show ?thesis using w by (simp add: queue_content_def)
  qed
  ultimately show ?thesis by auto
qed

lemma Push_full: "queue_inv q \<Longrightarrow> cnt q = capacity q \<Longrightarrow> Push x q = Some (q, kFull)"
  by (simp add: Push_def)

lemma Front_Cons:
  assumes "queue_inv q" and "queue_content q = x # xs"
  shows "\<exists>q'. Front e q = Some (q', x) \<and> queue_inv q' \<and> queue_content q' = xs \<and> capacity q' = capacity q"
proof -
  let ?c = "capacity q" and ?r = "read_pos q"
  have n: "cnt q = Suc (length xs)" using assms(2) queue_content_length [of q] by simp
  have r: "?r < ?c" "?r < length (data q)" using assms(1) by (auto simp: queue_inv_def)
  let ?q = "q\<lparr>cnt := cnt q - 1, read_pos := (?r + 1) mod ?c\<rparr>"
  have P: "Pop q = (?q, kSuccess)" using n unfolding Pop_def Let_def mod_Suc_wrap [OF r(1)] by simp
  have split: "queue_content q = data q ! ?r # map (\<lambda>i. data q ! ((?r + Suc i) mod ?c)) [0..<length xs]"
    using r(1) by (simp add: queue_content_def n upt_conv_Cons map_Suc_upt [symmetric] comp_def
        del: upt_Suc)
  have "queue_content ?q = xs"
    using split assms(2) n by (simp add: queue_content_def mod_Suc_eq mod_add_left_eq)
  moreover have "queue_inv ?q" using assms(1) n by (auto simp: queue_inv_def mod_Suc_eq mod_add_left_eq)
  moreover have "Front e q = Some (?q, x)"
    using r(2) P split assms(2) by (simp add: Front_def)
  ultimately show ?thesis by auto
qed

definition q_push :: "'a \<Rightarrow> 'a ArrayQueue \<Rightarrow> 'a ArrayQueue option" where
  "q_push x q = (case Push x q of Some (q', kSuccess) \<Rightarrow> Some q' | _ \<Rightarrow> None)"

definition q_pop :: "'a ArrayQueue \<Rightarrow> ('a \<times> 'a ArrayQueue) option" where
  "q_pop q = (if HasFront q then map_option (\<lambda>(q', x). (x, q')) (Front undefined q) else None)"

interpretation aq: bounded_fifo queue_inv queue_content capacity q_push q_pop "\<lambda>_. True"
proof
  fix q :: "'a ArrayQueue" and x xs
  show "queue_inv q \<Longrightarrow> length (queue_content q) < capacity q \<Longrightarrow> True \<Longrightarrow> \<exists>q'. q_push x q = Some q' \<and> queue_inv q'
      \<and> queue_content q' = queue_content q @ [x] \<and> capacity q' = capacity q"
    using Push_room [of q x] by (auto simp: q_push_def)
  show "queue_inv q \<Longrightarrow> length (queue_content q) = capacity q \<Longrightarrow> q_push x q = None"
    using Push_full [of q x] by (simp add: q_push_def)
  show "queue_inv q \<Longrightarrow> queue_content q = [] \<Longrightarrow> q_pop q = None"
    using queue_content_length [of q] by (simp add: q_pop_def HasFront_def)
  show "queue_inv q \<Longrightarrow> queue_content q = x # xs \<Longrightarrow> \<exists>q'. q_pop q = Some (x, q') \<and> queue_inv q'
      \<and> queue_content q' = xs \<and> capacity q' = capacity q"
    using Front_Cons [of q x xs undefined] queue_content_length [of q]
    by (auto simp: q_pop_def HasFront_def)
qed

text \<open>
  the ring buffer is a bounded queue.  On a buffer that satisfies its invariant, pushing fails
  exactly when the queue is full, elements that fit come out again in the order they went in, behind
  those that were there, and the queue is then empty.
\<close>

theorem ArrayQueue_is_fifo:
  assumes "queue_inv q" and "cnt q + length xs \<le> capacity q"
  shows "\<exists>q' q''. aq.push_all xs q = Some q'
    \<and> aq.pop_n (cnt q + length xs) q' = Some (queue_content q @ xs, q'') \<and> \<not> HasFront q''
    \<and> (Push x q = Some (q, kFull) \<longleftrightarrow> cnt q = capacity q)"
proof -
  have "(Push x q = Some (q, kFull)) = (cnt q = capacity q)"
    using Push_room [OF assms(1), of x] Push_full [OF assms(1), of x] assms(1)
    by (cases "cnt q = capacity q") (auto simp: queue_inv_def le_less)
  moreover obtain q' q'' where "aq.push_all xs q = Some q'"
    "aq.pop_n (cnt q + length xs) q' = Some (queue_content q @ xs, q'')" "queue_content q'' = []"
    using aq.fifo_order [OF assms(1), of xs] assms(2) by (auto simp: list_all_iff)
  moreover from this(3) have "\<not> HasFront q''" using queue_content_length [of q''] by (simp add: HasFront_def)
  ultimately show ?thesis by blast
qed

theorem ArrayQueue_is_fifo_witness:
  "\<exists>q' q''. aq.push_all [7, 8] (ArrayQueue_init [0, 0, 0 :: nat]) = Some q'
     \<and> aq.pop_n 2 q' = Some ([7, 8], q'') \<and> \<not> HasFront q''"
  using ArrayQueue_is_fifo [of "ArrayQueue_init [0, 0, 0 :: nat]" "[7, 8]" 0]
    queue_inv_init [of "[0, 0, 0 :: nat]"]
  by (auto simp: ArrayQueue_init_def numeral_2_eq_2)

end
