(* ===== verification/Task_Manager.thy ===== *)
theory Task_Manager imports Messages Fat_Types begin

text \<open>
  Tasks and the scheduler, \<^verbatim>\<open>kernel/task.hpp\<close> and \<^verbatim>\<open>kernel/task.cpp\<close>.

  A pointer to a task is its identifier (identifiers are never reused; the 64-bit counter is a \<open>nat\<close>,
  so that it does not wrap around).  The four run queues are a function from levels, and using a
  level outside of \<^verbatim>\<open>std::array\<close>, the front of an empty queue or a pointer to an erased task is
  undefined (\<open>None\<close>).  The switch to another context, done in assembly, is the operation's second
  result: which context is restored, and into which the current one is saved.

  \<open>sched_inv\<close> is the invariant of the scheduler; \<open>task_step\<close> are the operations as transitions and
  \<open>reachable_inv\<close> shows that they keep the invariant, so that there always is a current task.
\<close>

type_synonym tid = nat

record TaskContext =
  cr3 :: u64  rip :: u64  rflags :: u64  reserved1 :: u64
  cs :: u64  ss :: u64  fs :: u64  gs :: u64
  rax :: u64  rbx :: u64  rcx :: u64  rdx :: u64  rdi :: u64  rsi :: u64  rsp :: u64  rbp :: u64
  r8 :: u64  r9 :: u64  r10 :: u64  r11 :: u64  r12 :: u64  r13 :: u64  r14 :: u64  r15 :: u64
  fxsave_area :: "u8 list"

record FileMapping =
  fm_fd :: int
  vaddr_begin :: u64
  vaddr_end :: u64

text \<open>Files are shared pointers to descriptors; the model keeps them as handles.\<close>

record Task =
  task_id :: tid
  stack_words :: nat
  task_context :: TaskContext
  os_stack_ptr :: u64
  msgs :: "Message list"
  level :: nat
  ready_or_running :: bool
  files :: "nat option list"
  dpaging_begin :: u64
  dpaging_end :: u64
  file_map_end :: u64
  file_maps :: "FileMapping list"

definition kDefaultLevel :: nat where "kDefaultLevel = 1"
definition kDefaultStackBytes :: nat where "kDefaultStackBytes = 4096 * 16"
definition kMaxLevel :: nat where "kMaxLevel = 3"
definition kKernelCS :: u64 where "kKernelCS = 8"
definition kKernelSS :: u64 where "kKernelSS = 16"

definition zero_context :: TaskContext where
  "zero_context = \<lparr>cr3 = 0, rip = 0, rflags = 0, reserved1 = 0, cs = 0, ss = 0, fs = 0, gs = 0,
     rax = 0, rbx = 0, rcx = 0, rdx = 0, rdi = 0, rsi = 0, rsp = 0, rbp = 0, r8 = 0, r9 = 0,
     r10 = 0, r11 = 0, r12 = 0, r13 = 0, r14 = 0, r15 = 0, fxsave_area = replicate 512 0\<rparr>"

definition Task_init :: "tid \<Rightarrow> Task" where
  "Task_init i = \<lparr>task_id = i, stack_words = 0, task_context = zero_context, os_stack_ptr = 0, msgs = [],
     level = kDefaultLevel, ready_or_running = False, files = [], dpaging_begin = 0,
     dpaging_end = 0, file_map_end = 0, file_maps = []\<rparr>"

text \<open>
  \<open>f\<close> is the address of the entry function, \<open>cr3_now\<close> the page table in use, \<open>stack_end\<close> the end of
  the stack that \<^verbatim>\<open>_stack.resize\<close> made.
\<close>

definition InitContext :: "u64 \<Rightarrow> u64 \<Rightarrow> u64 \<Rightarrow> u64 \<Rightarrow> Task \<Rightarrow> Task" where
  "InitContext f arg0 cr3_now stack_end t =
     t\<lparr>stack_words := kDefaultStackBytes div 8,
       task_context := zero_context\<lparr>rip := f, rdi := of_nat (task_id t), rsi := arg0, cr3 := cr3_now,
         rflags := 0x202, cs := kKernelCS, ss := kKernelSS,
         rsp := (stack_end AND NOT 0xf) - 8,
         fxsave_area := take 24 (fxsave_area zero_context) @ le32 0x1f80
                        @ drop 28 (fxsave_area zero_context)\<rparr>\<rparr>"

definition ReceiveMessage :: "Task \<Rightarrow> Message option \<times> Task" where
  "ReceiveMessage t = (case msgs t of [] \<Rightarrow> (None, t) | m # ms \<Rightarrow> (Some m, t\<lparr>msgs := ms\<rparr>))"

section \<open>The scheduler\<close>

record TaskManager =
  tasks :: "Task list"
  last_id :: nat
  running :: "nat \<Rightarrow> tid list"
  current_level :: nat
  level_changed :: bool
  finish_tasks :: "tid \<Rightarrow> int option"
  finish_waiter :: "tid \<Rightarrow> tid option"

datatype control =
    Continue
  | RestoreTo tid
  | SwitchTo tid tid

definition get_task :: "TaskManager \<Rightarrow> tid \<Rightarrow> Task option" where
  "get_task m i = List.find (\<lambda>t. task_id t = i) (tasks m)"

definition upd_task :: "tid \<Rightarrow> (Task \<Rightarrow> Task) \<Rightarrow> TaskManager \<Rightarrow> TaskManager" where
  "upd_task i f m = m\<lparr>tasks := map (\<lambda>t. if task_id t = i then f t else t) (tasks m)\<rparr>"

definition set_running :: "nat \<Rightarrow> tid list \<Rightarrow> TaskManager \<Rightarrow> TaskManager" where
  "set_running lv q m = m\<lparr>running := (running m)(lv := q)\<rparr>"

definition CurrentTask :: "TaskManager \<Rightarrow> tid option" where
  "CurrentTask m = (case running m (current_level m) of [] \<Rightarrow> None | t # _ \<Rightarrow> Some t)"

definition NewTask :: "TaskManager \<Rightarrow> TaskManager \<times> tid" where
  "NewTask m = (m\<lparr>last_id := last_id m + 1, tasks := tasks m @ [Task_init (last_id m + 1)]\<rparr>,
     last_id m + 1)"

definition empty_manager :: TaskManager where
  "empty_manager = \<lparr>tasks = [], last_id = 0, running = (\<lambda>_. []), current_level = kMaxLevel,
     level_changed = False, finish_tasks = (\<lambda>_. None), finish_waiter = (\<lambda>_. None)\<rparr>"

text \<open>\<open>init_idle\<close> is \<^verbatim>\<open>InitContext(TaskIdle, 0)\<close>.\<close>

definition TaskManager_init :: "(Task \<Rightarrow> Task) \<Rightarrow> TaskManager" where
  "TaskManager_init init_idle =
     (let (m, main_task) = NewTask empty_manager;
          m = upd_task main_task (\<lambda>t. t\<lparr>level := current_level m, ready_or_running := True\<rparr>) m;
          m = set_running (current_level m) (running m (current_level m) @ [main_task]) m;
          (m, idle_task) = NewTask m;
          m = upd_task idle_task (\<lambda>t. (init_idle t)\<lparr>level := 0, ready_or_running := True\<rparr>) m
      in set_running 0 (running m 0 @ [idle_task]) m)"

text \<open>The loop that looks for the highest level with a task; it changes nothing if there is none.\<close>

definition highest_level :: "TaskManager \<Rightarrow> nat" where
  "highest_level m = (case filter (\<lambda>lv. running m lv \<noteq> []) (rev [0..<kMaxLevel + 1]) of
     [] \<Rightarrow> current_level m | lv # _ \<Rightarrow> lv)"

definition RotateCurrentRunQueue :: "bool \<Rightarrow> TaskManager \<Rightarrow> (TaskManager \<times> tid) option" where
  "RotateCurrentRunQueue current_sleep m = (case running m (current_level m) of
     [] \<Rightarrow> None
   | current_task # rest \<Rightarrow>
       let q = (if current_sleep then rest else rest @ [current_task]);
           m = set_running (current_level m) q m;
           changed = (level_changed m \<or> q = []) in
       Some (if changed then m\<lparr>level_changed := False, current_level := highest_level m\<rparr> else m,
             current_task))"

definition SwitchTask :: "TaskContext \<Rightarrow> TaskManager \<Rightarrow> (TaskManager \<times> control) option" where
  "SwitchTask current_ctx m = do {
     t \<leftarrow> CurrentTask m;
     _ \<leftarrow> get_task m t;
     let m = upd_task t (\<lambda>x. x\<lparr>task_context := current_ctx\<rparr>) m in do {
       (m, current_task) \<leftarrow> RotateCurrentRunQueue False m;
       next \<leftarrow> CurrentTask m;
       Some (m, if next \<noteq> current_task then RestoreTo next else Continue)
     }
   }"

definition Sleep :: "tid \<Rightarrow> TaskManager \<Rightarrow> (TaskManager \<times> control) option" where
  "Sleep i m = do {
     t \<leftarrow> get_task m i;
     if \<not> ready_or_running t then Some (m, Continue)
     else let m = upd_task i (\<lambda>x. x\<lparr>ready_or_running := False\<rparr>) m in do {
       front \<leftarrow> CurrentTask m;
       if i = front then do {
         (m, current_task) \<leftarrow> RotateCurrentRunQueue True m;
         next \<leftarrow> CurrentTask m;
         Some (m, SwitchTo next current_task)
       }
       else if level t \<le> kMaxLevel
       then Some (set_running (level t) (removeAll i (running m (level t))) m, Continue)
       else None
     }
   }"

definition Sleep_id :: "tid \<Rightarrow> TaskManager \<Rightarrow> (TaskManager \<times> control \<times> error_code) option" where
  "Sleep_id i m = (if get_task m i = None then Some (m, Continue, kNoSuchTask)
     else map_option (\<lambda>(m, c). (m, c, kSuccess)) (Sleep i m))"

definition ChangeLevelRunning :: "tid \<Rightarrow> int \<Rightarrow> TaskManager \<Rightarrow> TaskManager option" where
  "ChangeLevelRunning i lev m = do {
     t \<leftarrow> get_task m i;
     if lev < 0 \<or> lev = int (level t) then Some m
     else if kMaxLevel < nat lev \<or> kMaxLevel < level t then None
     else do {
       front \<leftarrow> CurrentTask m;
       let lv = nat lev;
           m = (if i \<noteq> front then
                  let m = set_running (level t) (removeAll i (running m (level t))) m;
                      m = set_running lv (running m lv @ [i]) m;
                      m = upd_task i (\<lambda>x. x\<lparr>level := lv\<rparr>) m
                  in if lv > current_level m then m\<lparr>level_changed := True\<rparr> else m
                else m) in
       (case running m (current_level m) of
          [] \<Rightarrow> None
        | _ # rest \<Rightarrow>
            let m = set_running (current_level m) rest m;
                m = set_running lv (i # running m lv) m;
                m = upd_task i (\<lambda>x. x\<lparr>level := lv\<rparr>) m
            in Some (if lv \<ge> current_level m then m\<lparr>current_level := lv\<rparr>
                     else m\<lparr>current_level := lv, level_changed := True\<rparr>))
     }
   }"

definition Wakeup :: "tid \<Rightarrow> int \<Rightarrow> TaskManager \<Rightarrow> TaskManager option" where
  "Wakeup i lev m = do {
     t \<leftarrow> get_task m i;
     if ready_or_running t then ChangeLevelRunning i lev m
     else let lv = (if lev < 0 then level t else nat lev) in
       if kMaxLevel < lv then None
       else let m = upd_task i (\<lambda>x. x\<lparr>level := lv, ready_or_running := True\<rparr>) m;
                m = set_running lv (running m lv @ [i]) m
            in Some (if lv > current_level m then m\<lparr>level_changed := True\<rparr> else m)
   }"

definition Wakeup_id :: "tid \<Rightarrow> int \<Rightarrow> TaskManager \<Rightarrow> (TaskManager \<times> error_code) option" where
  "Wakeup_id i lev m = (if get_task m i = None then Some (m, kNoSuchTask)
     else map_option (\<lambda>m. (m, kSuccess)) (Wakeup i lev m))"

definition Task_SendMessage :: "tid \<Rightarrow> Message \<Rightarrow> TaskManager \<Rightarrow> TaskManager option" where
  "Task_SendMessage i msg m = do {
     _ \<leftarrow> get_task m i;
     Wakeup i (-1) (upd_task i (\<lambda>t. t\<lparr>msgs := msgs t @ [msg]\<rparr>) m)
   }"

definition SendMessage :: "tid \<Rightarrow> Message \<Rightarrow> TaskManager \<Rightarrow> (TaskManager \<times> error_code) option" where
  "SendMessage i msg m = (if get_task m i = None then Some (m, kNoSuchTask)
     else map_option (\<lambda>m. (m, kSuccess)) (Task_SendMessage i msg m))"

definition Finish :: "int \<Rightarrow> TaskManager \<Rightarrow> (TaskManager \<times> control) option" where
  "Finish exit_code m = do {
     (m, current_task) \<leftarrow> RotateCurrentRunQueue True m;
     _ \<leftarrow> get_task m current_task;
     let m = m\<lparr>tasks := filter (\<lambda>t. task_id t \<noteq> current_task) (tasks m),
               finish_tasks := (finish_tasks m)(current_task \<mapsto> exit_code)\<rparr> in do {
       m \<leftarrow> (case finish_waiter m current_task of
               None \<Rightarrow> Some m
             | Some waiter \<Rightarrow>
                 Wakeup waiter (-1) (m\<lparr>finish_waiter := (finish_waiter m)(current_task := None)\<rparr>));
       next \<leftarrow> CurrentTask m;
       Some (m, RestoreTo next)
     }
   }"

text \<open>
  One turn of the loop of \<^verbatim>\<open>WaitFinish\<close>, run by \<open>current_task\<close> (a local of the function): the exit
  code, or another sleep, after which the loop goes on.
\<close>

definition WaitFinish_turn ::
    "tid \<Rightarrow> tid \<Rightarrow> TaskManager \<Rightarrow> (TaskManager \<times> control \<times> int option) option" where
  "WaitFinish_turn current_task i m = (case finish_tasks m i of
     Some exit_code \<Rightarrow> Some (m\<lparr>finish_tasks := (finish_tasks m)(i := None)\<rparr>, Continue, Some exit_code)
   | None \<Rightarrow> map_option (\<lambda>(m, c). (m, c, None))
       (Sleep current_task (m\<lparr>finish_waiter := (finish_waiter m)(i \<mapsto> current_task)\<rparr>)))"

section \<open>The invariant\<close>

definition ready_at :: "TaskManager \<Rightarrow> tid \<Rightarrow> nat \<Rightarrow> bool" where
  "ready_at m i l \<longleftrightarrow> (case get_task m i of None \<Rightarrow> False | Some t \<Rightarrow> ready_or_running t \<and> level t = l)"

definition kIdle :: tid where "kIdle = 2"

text \<open>Every task is in the queue of its level exactly when it is ready, and once.\<close>

definition queues_ok :: "TaskManager \<Rightarrow> bool" where
  "queues_ok m \<longleftrightarrow> (\<forall>l. distinct (running m l)) \<and> (\<forall>l i. i \<in> set (running m l) \<longleftrightarrow> ready_at m i l)"

definition tasks_ok :: "TaskManager \<Rightarrow> bool" where
  "tasks_ok m \<longleftrightarrow> (\<forall>i t. get_task m i = Some t \<longrightarrow> i \<le> last_id m \<and> level t \<le> kMaxLevel)
     \<and> (\<forall>i w. finish_waiter m i = Some w \<longrightarrow> get_task m w \<noteq> None) \<and> 2 \<le> last_id m"

text \<open>The current level has a task, and unless a change is pending no higher level has one.\<close>

definition level_ok :: "TaskManager \<Rightarrow> bool" where
  "level_ok m \<longleftrightarrow> running m (current_level m) \<noteq> []
     \<and> (\<not> level_changed m \<longrightarrow> (\<forall>l > current_level m. running m l = []))"

definition sched_inv :: "TaskManager \<Rightarrow> bool" where
  "sched_inv m \<longleftrightarrow> queues_ok m \<and> tasks_ok m \<and> level_ok m \<and> ready_at m kIdle 0"

lemma set_running_simps [simp]:
  "running (set_running l q m) = (running m)(l := q)" "get_task (set_running l q m) = get_task m"
  "current_level (set_running l q m) = current_level m" "level_changed (set_running l q m) = level_changed m"
  "last_id (set_running l q m) = last_id m" "finish_tasks (set_running l q m) = finish_tasks m"
  "finish_waiter (set_running l q m) = finish_waiter m" "tasks (set_running l q m) = tasks m"
  by (simp_all add: set_running_def get_task_def fun_eq_iff)

lemma upd_task_simps [simp]:
  "running (upd_task i f m) = running m" "current_level (upd_task i f m) = current_level m"
  "level_changed (upd_task i f m) = level_changed m" "last_id (upd_task i f m) = last_id m"
  "finish_tasks (upd_task i f m) = finish_tasks m" "finish_waiter (upd_task i f m) = finish_waiter m"
  by (simp_all add: upd_task_def)

lemma get_task_fields [simp]:
  "get_task (m\<lparr>level_changed := b\<rparr>) = get_task m" "get_task (m\<lparr>current_level := l\<rparr>) = get_task m"
  "get_task (m\<lparr>finish_tasks := ft\<rparr>) = get_task m" "get_task (m\<lparr>finish_waiter := fw\<rparr>) = get_task m"
  by (simp_all add: get_task_def fun_eq_iff)

lemma find_map_upd:
  "(\<And>t. task_id t = i \<Longrightarrow> task_id (f t) = i) \<Longrightarrow>
     List.find (\<lambda>t. task_id t = j) (map (\<lambda>t. if task_id t = i then f t else t) ts)
     = (if j = i then map_option f (List.find (\<lambda>t. task_id t = i) ts)
        else List.find (\<lambda>t. task_id t = j) ts)"
  by (induction ts) auto

lemma get_task_upd:
  assumes "\<And>t. task_id (f t) = task_id t"
  shows "get_task (upd_task i f m) j = (if j = i then map_option f (get_task m i) else get_task m j)"
  using find_map_upd [of i f j "tasks m"] assms by (simp add: get_task_def upd_task_def)

lemma get_task_upd_Some:
  assumes "get_task m i = Some t" and "\<And>t. task_id (f t) = task_id t"
  shows "get_task (upd_task i f m) j = (if j = i then Some (f t) else get_task m j)"
  using get_task_upd [OF assms(2)] assms(1) by simp

lemma find_filter: "List.find P (filter Q ts) = List.find (\<lambda>x. Q x \<and> P x) ts"
  by (induction ts) auto

lemma get_task_filter:
  "get_task (m\<lparr>tasks := filter (\<lambda>t. task_id t \<noteq> i) (tasks m)\<rparr>) j = (if j = i then None else get_task m j)"
  by (auto simp: get_task_def find_filter find_None_iff intro!: arg_cong2 [where f = List.find])

lemma ready_at_upd:
  assumes "\<And>t. task_id (f t) = task_id t"
  shows "ready_at (upd_task i f m) j l \<longleftrightarrow>
    (if j = i then (case get_task m i of None \<Rightarrow> False | Some t \<Rightarrow> ready_or_running (f t) \<and> level (f t) = l)
     else ready_at m j l)"
  using get_task_upd [OF assms] by (simp add: ready_at_def split: option.split)

lemma ready_at_get: "get_task m' i = get_task m i \<Longrightarrow> ready_at m' i l = ready_at m i l"
  by (simp add: ready_at_def)

lemma ready_at_one_level: "ready_at m i l \<Longrightarrow> ready_at m i k \<Longrightarrow> k = l"
  by (auto simp: ready_at_def split: option.splits)

lemma filter_rev_upt:
  "filter P (rev [0..<n]) = (if \<exists>k < n. P k then xs else ys) \<Longrightarrow> \<exists>k < n. P k \<Longrightarrow>
     xs \<noteq> [] \<and> P (hd xs) \<and> (\<forall>k < n. P k \<longrightarrow> k \<le> hd xs)"
proof (induction n arbitrary: xs)
  case 0
  then show ?case by simp
next
  case (Suc n)
  show ?case
  proof (cases "P n")
    case True
    then have "xs = n # filter P (rev [0..<n])" using Suc.prems by (auto split: if_splits)
    with True show ?thesis by (auto simp: less_Suc_eq_le)
  next
    case False
    then have "\<exists>k < n. P k" using Suc.prems(2) less_Suc_eq by metis
    moreover from this have "filter P (rev [0..<n]) = xs" using Suc.prems False by (auto split: if_splits)
    ultimately show ?thesis using Suc.IH [of xs] False less_Suc_eq by auto
  qed
qed

lemma highest_level_ok:
  assumes "\<forall>l. running m l \<noteq> [] \<longrightarrow> l \<le> kMaxLevel" and "running m l \<noteq> []"
  shows "running m (highest_level m) \<noteq> []" and "highest_level m < k \<Longrightarrow> running m k = []"
    and "highest_level m \<le> kMaxLevel"
proof -
  let ?P = "\<lambda>l. running m l \<noteq> []"
  let ?xs = "filter ?P (rev [0..<kMaxLevel + 1])"
  have ex: "\<exists>k < kMaxLevel + 1. ?P k" using assms by (auto simp: less_Suc_eq_le intro!: exI [of _ l])
  then have h: "?xs \<noteq> [] \<and> ?P (hd ?xs) \<and> (\<forall>k < kMaxLevel + 1. ?P k \<longrightarrow> k \<le> hd ?xs)"
    by (intro filter_rev_upt [of _ _ _ "[]"]) simp_all
  then have hl: "highest_level m = hd ?xs" unfolding highest_level_def by (cases ?xs) auto
  with h show "running m (highest_level m) \<noteq> []" by simp
  show "highest_level m < k \<Longrightarrow> running m k = []"
    using h hl assms(1) by (metis add.commute le_imp_less_Suc not_less plus_1_eq_Suc)
  show "highest_level m \<le> kMaxLevel" using h hl assms(1) by simp
qed

section \<open>Every operation keeps the invariant\<close>

definition at_highest :: "TaskManager \<Rightarrow> bool" where
  "at_highest m \<longleftrightarrow> running m (current_level m) \<noteq> [] \<and> (\<forall>l > current_level m. running m l = [])"

lemma at_highest_level_ok: "at_highest m \<Longrightarrow> level_ok m"
  by (simp add: at_highest_def level_ok_def)

lemma Rotate_spec:
  assumes lv: "level_ok m" and bound: "\<forall>l. running m l \<noteq> [] \<longrightarrow> l \<le> kMaxLevel"
    and idle: "kIdle \<in> set (running m 0)" and cur: "running m (current_level m) = cur # rest"
    and sl: "sleeps \<Longrightarrow> cur \<noteq> kIdle"
  obtains m' where "RotateCurrentRunQueue sleeps m = Some (m', cur)"
    "running m' = (running m)(current_level m := if sleeps then rest else rest @ [cur])"
    "get_task m' = get_task m" "tasks m' = tasks m" "last_id m' = last_id m"
    "finish_waiter m' = finish_waiter m" "finish_tasks m' = finish_tasks m" "at_highest m'"
proof -
  let ?q = "if sleeps then rest else rest @ [cur]"
  let ?m = "set_running (current_level m) ?q m"
  let ?m' = "if level_changed m \<or> ?q = [] then ?m\<lparr>level_changed := False, current_level := highest_level ?m\<rparr> else ?m"
  have "kIdle \<in> set (running ?m 0)" using idle cur sl by auto
  then have ne: "running ?m 0 \<noteq> []" by auto
  have b: "\<forall>l. running ?m l \<noteq> [] \<longrightarrow> l \<le> kMaxLevel" using bound cur by auto
  note hl = highest_level_ok [OF b ne]
  have "at_highest ?m'"
    using hl lv by (auto simp: at_highest_def level_ok_def)
  moreover have "RotateCurrentRunQueue sleeps m = Some (?m', cur)"
    using cur by (simp add: RotateCurrentRunQueue_def Let_def)
  ultimately show thesis by (intro that [of ?m']) auto
qed

lemma inv_bound: "queues_ok m \<Longrightarrow> tasks_ok m \<Longrightarrow> \<forall>l. running m l \<noteq> [] \<longrightarrow> l \<le> kMaxLevel"
proof (intro allI impI)
  fix l assume a: "queues_ok m" "tasks_ok m" "running m l \<noteq> []"
  then obtain i where "i \<in> set (running m l)" by (meson last_in_set)
  with a(1) have "ready_at m i l" by (simp add: queues_ok_def)
  with a(2) show "l \<le> kMaxLevel" by (auto simp: tasks_ok_def ready_at_def split: option.splits)
qed

lemma inv_current:
  assumes "sched_inv m"
  obtains cur rest t where "running m (current_level m) = cur # rest" "CurrentTask m = Some cur"
    "get_task m cur = Some t" "ready_or_running t" "level t = current_level m"
proof -
  obtain cur rest where c: "running m (current_level m) = cur # rest"
    using assms by (auto simp: sched_inv_def level_ok_def neq_Nil_conv)
  then have "cur \<in> set (running m (current_level m))" by simp
  then have "ready_at m cur (current_level m)" using assms by (simp only: sched_inv_def queues_ok_def)
  then show thesis using c that by (auto simp: ready_at_def CurrentTask_def split: option.splits)
qed

lemma inv_idle: "sched_inv m \<Longrightarrow> kIdle \<in> set (running m 0)"
  by (simp add: sched_inv_def queues_ok_def)

lemma SwitchTask_spec:
  assumes inv: "sched_inv m" and cur: "running m (current_level m) = cur # rest"
  obtains m' c where "SwitchTask ctx m = Some (m', c)" "sched_inv m'" "at_highest m'"
    "running m' = (running m)(current_level m := rest @ [cur])"
    "\<exists>nxt. CurrentTask m' = Some nxt \<and> c = (if nxt = cur then Continue else RestoreTo nxt)"
    "map_option task_context (get_task m' cur) = Some ctx"
proof -
  let ?f = "\<lambda>x. x\<lparr>task_context := ctx\<rparr>"
  let ?m = "upd_task cur ?f m"
  obtain t where t: "get_task m cur = Some t" using inv_current [OF inv] cur by auto
  have ra: "ready_at ?m i l = ready_at m i l" for i l
    using t by (simp add: ready_at_upd) (simp add: ready_at_def)
  have lv: "level_ok ?m" and b: "\<forall>l. running ?m l \<noteq> [] \<longrightarrow> l \<le> kMaxLevel" and id: "kIdle \<in> set (running ?m 0)"
    using inv inv_bound [of m] inv_idle [OF inv] by (auto simp: sched_inv_def level_ok_def)
  have c: "running ?m (current_level ?m) = cur # rest" using cur by simp
  obtain m' where R: "RotateCurrentRunQueue False ?m = Some (m', cur)"
    "running m' = (running ?m)(current_level ?m := if False then rest else rest @ [cur])"
    "get_task m' = get_task ?m" "tasks m' = tasks ?m" "last_id m' = last_id ?m"
    "finish_waiter m' = finish_waiter ?m" "finish_tasks m' = finish_tasks ?m" "at_highest m'"
    by (rule Rotate_spec [OF lv b id c, of False]) simp
  have gt: "get_task m' i = (if i = cur then Some (?f t) else get_task m i)" for i
    using t by (simp add: R(3) get_task_upd)
  have ra': "ready_at m' i l = ready_at m i l" for i l using ra R(3) by (simp add: ready_at_def)
  have q: "queues_ok m'"
    using inv cur unfolding sched_inv_def queues_ok_def ra' R(2)
    by (auto simp: fun_upd_def split: if_splits; (metis list.set_intros set_ConsD distinct.simps(2))?)
  have "tasks_ok m'" using inv t unfolding sched_inv_def tasks_ok_def gt R(5,6) by auto
  with q have i: "sched_inv m'"
    using R(8) inv at_highest_level_ok ra' by (simp add: sched_inv_def)
  obtain nxt where n: "CurrentTask m' = Some nxt"
    using R(8) by (auto simp: at_highest_def CurrentTask_def neq_Nil_conv)
  have "CurrentTask m = Some cur" using cur by (simp add: CurrentTask_def)
  then have "SwitchTask ctx m = Some (m', if nxt \<noteq> cur then RestoreTo nxt else Continue)"
    using t R(1) n by (simp add: SwitchTask_def)
  then show thesis
    by (rule that [OF _ i R(8)]) (use R(2) n gt in \<open>auto\<close>)
qed

lemma tasks_ok_set:
  assumes "tasks_ok m" and "\<And>j. get_task m' j = (if j = i then map_option f (get_task m i) else get_task m j)"
    and "\<And>t. get_task m i = Some t \<Longrightarrow> level (f t) \<le> kMaxLevel"
    and "last_id m' = last_id m" and "\<And>j w. finish_waiter m' j = Some w \<Longrightarrow> finish_waiter m j = Some w \<or> get_task m w \<noteq> None"
  shows "tasks_ok m'"
proof -
  have a: "j \<le> last_id m \<and> level t \<le> kMaxLevel" if "get_task m j = Some t" for j t
    using assms(1) that unfolding tasks_ok_def by blast
  have "j \<le> last_id m \<and> level t \<le> kMaxLevel" if "get_task m' j = Some t" for j t
    using that a assms(3) unfolding assms(2) by (auto split: if_splits)
  moreover have "get_task m' w \<noteq> None" if "finish_waiter m' j = Some w" for j w
    using assms(1) assms(5) [OF that] unfolding assms(2) tasks_ok_def by (auto split: if_splits)
  ultimately show ?thesis using assms(1,4) unfolding tasks_ok_def by metis
qed

lemma Sleep_spec:
  assumes inv: "sched_inv m" and t: "get_task m i = Some t" and ni: "i \<noteq> kIdle"
  obtains m' c where "Sleep i m = Some (m', c)" "sched_inv m'" "\<And>l. \<not> ready_at m' i l"
    "\<And>j l. j \<noteq> i \<Longrightarrow> ready_at m' j l = ready_at m j l"
    "finish_tasks m' = finish_tasks m" "finish_waiter m' = finish_waiter m"
    "\<And>j. get_task m' j = (if j = i then Some (t\<lparr>ready_or_running := False\<rparr>) else get_task m j)"
    "CurrentTask m = Some i \<Longrightarrow> at_highest m' \<and> (\<exists>nxt. CurrentTask m' = Some nxt \<and> c = SwitchTo nxt i)"
    "CurrentTask m \<noteq> Some i \<Longrightarrow> CurrentTask m' = CurrentTask m \<and> c = Continue"
proof (cases "ready_or_running t")
  case False
  have r: "\<not> ready_at m i l" for l using t False by (simp add: ready_at_def)
  have same: "t\<lparr>ready_or_running := False\<rparr> = t" using False by simp
  have nc: "CurrentTask m \<noteq> Some i" using inv_current [OF inv] t False by (metis option.inject)
  have sl: "Sleep i m = Some (m, Continue)" using t False by (simp add: Sleep_def)
  have g: "get_task m j = (if j = i then Some (t\<lparr>ready_or_running := False\<rparr>) else get_task m j)" for j
    unfolding same using t by simp
  show thesis
    by (rule that [OF sl inv r refl refl refl g]) (use nc in blast)+
next
  case True
  note conclude = that
  let ?f = "\<lambda>x. x\<lparr>ready_or_running := False\<rparr>"
  let ?m = "upd_task i ?f m"
  have q: "queues_ok m" and to: "tasks_ok m" and lo: "level_ok m" using inv by (auto simp: sched_inv_def)
  have gt: "get_task ?m j = (if j = i then map_option ?f (get_task m i) else get_task m j)" for j
    by (rule get_task_upd) simp
  have ra: "ready_at ?m j l = (j \<noteq> i \<and> ready_at m j l)" for j l
    using t by (simp add: ready_at_upd)
  have lv: "level_ok ?m" and b: "\<forall>l. running ?m l \<noteq> [] \<longrightarrow> l \<le> kMaxLevel" and idl: "kIdle \<in> set (running ?m 0)"
    using inv inv_bound [OF q to] inv_idle [OF inv] by (auto simp: sched_inv_def level_ok_def)
  have ril: "ready_at m i (level t)" using t True by (simp add: ready_at_def)
  have le: "level t \<le> kMaxLevel" using to t by (simp add: tasks_ok_def)
  obtain cur rest where cur: "running m (current_level m) = cur # rest" "CurrentTask m = Some cur"
    using inv_current [OF inv] by metis
  then have curm: "CurrentTask ?m = Some cur" by (simp add: CurrentTask_def)
  have rcur: "ready_at m cur (current_level m)" using q cur(1) unfolding queues_ok_def by (metis list.set_intros(1))
  have fin: thesis
    if S: "Sleep i m = Some (m', c)" and G: "get_task m' = get_task ?m" "last_id m' = last_id m"
      "finish_waiter m' = finish_waiter m" "finish_tasks m' = finish_tasks m"
      and R: "\<And>l. running m' l = removeAll i (running m l)" and L: "level_ok m'"
      and C: "CurrentTask m = Some i \<Longrightarrow> at_highest m' \<and> (\<exists>nxt. CurrentTask m' = Some nxt \<and> c = SwitchTo nxt i)"
        "CurrentTask m \<noteq> Some i \<Longrightarrow> CurrentTask m' = CurrentTask m \<and> c = Continue" for m' c
  proof (rule conclude [OF S _ _ _ G(4,3) _ C])
    have ra': "ready_at m' j l = (j \<noteq> i \<and> ready_at m j l)" for j l using ra G(1) by (simp add: ready_at_def)
    then show "\<And>l. \<not> ready_at m' i l" "\<And>j l. j \<noteq> i \<Longrightarrow> ready_at m' j l = ready_at m j l" by simp_all
    show "get_task m' j = (if j = i then Some (?f t) else get_task m j)" for j using G(1) gt t by simp
    have "queues_ok m'" using q unfolding queues_ok_def ra' R by (auto simp: distinct_removeAll)
    moreover have "tasks_ok m'"
      by (rule tasks_ok_set [OF to, of m' i ?f]) (use G gt t le in auto)
    ultimately show "sched_inv m'" using L ra' ni inv by (simp add: sched_inv_def)
  qed
  have other: "removeAll i (running m l) = running m l" if "l \<noteq> level t" for l
  proof -
    have "i \<notin> set (running m l)" using q that ril ready_at_one_level unfolding queues_ok_def by metis
    then show ?thesis by (rule removeAll_id)
  qed
  show thesis
  proof (cases "i = cur")
    case True': True
    have ll: "level t = current_level m" using rcur ril ready_at_one_level True' by metis
    have c: "running ?m (current_level ?m) = cur # rest" using cur by simp
    obtain m' where R: "RotateCurrentRunQueue True ?m = Some (m', cur)"
      "running m' = (running ?m)(current_level ?m := if True then rest else rest @ [cur])"
      "get_task m' = get_task ?m" "tasks m' = tasks ?m" "last_id m' = last_id ?m"
      "finish_waiter m' = finish_waiter ?m" "finish_tasks m' = finish_tasks ?m" "at_highest m'"
      by (rule Rotate_spec [OF lv b idl c, of True]) (use ni True' in auto)
    obtain nxt where n: "CurrentTask m' = Some nxt"
      using R(8) by (auto simp: at_highest_def CurrentTask_def neq_Nil_conv)
    have di: "distinct (running m (current_level m))" using q by (simp add: queues_ok_def)
    show thesis
    proof (rule fin [of m' "SwitchTo nxt cur"])
      show "Sleep i m = Some (m', SwitchTo nxt cur)"
        using t True curm R(1) n True' by (simp add: Sleep_def)
      show "running m' l = removeAll i (running m l)" for l
        using R(2) cur(1) di other [of l] ll True' by auto
    qed (use R n at_highest_level_ok True' cur in auto)
  next
    case False
    let ?m' = "set_running (level t) (removeAll i (running m (level t))) ?m"
    have run: "running ?m' l = removeAll i (running m l)" for l using other by simp
    have hd: "\<exists>ys. removeAll i (running m (current_level m)) = cur # ys" using cur(1) False by simp
    show thesis
    proof (rule fin [of ?m' Continue])
      show "Sleep i m = Some (?m', Continue)" using t True curm False le by (simp add: Sleep_def)
      show "level_ok ?m'" using hd run lo by (auto simp: level_ok_def)
      show "CurrentTask m \<noteq> Some i \<Longrightarrow> CurrentTask ?m' = CurrentTask m \<and> Continue = Continue"
        using hd run cur(2) by (auto simp: CurrentTask_def)
    qed (use run cur False in auto)
  qed
qed

lemma Wakeup_spec:
  assumes inv: "sched_inv m" and t: "get_task m i = Some t" and lev: "lev \<le> int kMaxLevel"
    and idle: "i = kIdle \<Longrightarrow> lev < 0"
    and legal: "\<not> ready_or_running t \<or> lev < 0 \<or> lev = int (level t) \<or> CurrentTask m = Some i"
  defines "lv \<equiv> if lev < 0 then level t else nat lev"
  obtains m' where "Wakeup i lev m = Some m'" "sched_inv m'" "CurrentTask m' = CurrentTask m"
    "\<And>j. get_task m' j = (if j = i then Some (t\<lparr>level := lv, ready_or_running := True\<rparr>) else get_task m j)"
    "finish_tasks m' = finish_tasks m" "finish_waiter m' = finish_waiter m" "last_id m' = last_id m"
proof -
  note conclude = that
  have q: "queues_ok m" and to: "tasks_ok m" and lo: "level_ok m" using inv by (auto simp: sched_inv_def)
  have le: "level t \<le> kMaxLevel" using to t by (simp add: tasks_ok_def)
  then have lvle: "lv \<le> kMaxLevel" using lev by (auto simp: lv_def)
  obtain cur rest where cur: "running m (current_level m) = cur # rest" "CurrentTask m = Some cur"
    using inv_current [OF inv] by metis
  let ?f = "\<lambda>x. x\<lparr>level := lv, ready_or_running := True\<rparr>"
  have fin: thesis
    if W: "Wakeup i lev m = Some m'" and G: "\<And>j. get_task m' j = (if j = i then Some (?f t) else get_task m j)"
      and F: "last_id m' = last_id m" "finish_waiter m' = finish_waiter m" "finish_tasks m' = finish_tasks m"
      and R: "\<And>l. distinct (running m' l)"
        "\<And>l j. j \<in> set (running m' l) \<longleftrightarrow> (if j = i then l = lv else j \<in> set (running m l))"
      and L: "level_ok m'" and C: "CurrentTask m' = CurrentTask m" for m'
  proof (rule conclude [OF W _ C G F(3,2,1)])
    have ra: "ready_at m' j l = (if j = i then l = lv else ready_at m j l)" for j l
      using G [of j] by (auto simp: ready_at_def)
    have "queues_ok m'" using q R unfolding queues_ok_def ra by auto
    moreover have "tasks_ok m'"
      by (rule tasks_ok_set [OF to, of m' i ?f]) (use G F t lvle in auto)
    moreover have "ready_at m' kIdle 0"
    proof (cases "i = kIdle")
      case True
      then have "level t = 0" "lv = level t" using inv t idle by (auto simp: sched_inv_def ready_at_def lv_def)
      then show ?thesis using ra True by simp
    next
      case False
      then show ?thesis using ra inv by (simp add: sched_inv_def)
    qed
    ultimately show "sched_inv m'" using L by (simp add: sched_inv_def)
  qed
  have mem: "j \<in> set (running m l) \<longleftrightarrow> ready_at m j l" "distinct (running m l)" for j l
    using q by (simp_all add: queues_ok_def)
  have ri: "ready_at m i l \<longleftrightarrow> ready_or_running t \<and> level t = l" for l using t by (simp add: ready_at_def)
  show thesis
  proof (cases "ready_or_running t")
    case False
    let ?m1 = "upd_task i ?f m" let ?m2 = "set_running lv (running m lv @ [i]) ?m1"
    let ?m = "if lv > current_level ?m2 then ?m2\<lparr>level_changed := True\<rparr> else ?m2"
    have g: "get_task ?m j = (if j = i then Some (?f t) else get_task m j)" for j
      by (simp add: get_task_upd_Some [OF t])
    have r: "running ?m = (running m)(lv := running m lv @ [i])" by simp
    show thesis
    proof (rule fin [OF _ g])
      show "Wakeup i lev m = Some ?m"
        using t False lvle by (simp add: Wakeup_def lv_def [symmetric] Let_def)
      show "distinct (running ?m l)" for l unfolding r using mem ri False by simp
      show "j \<in> set (running ?m l) \<longleftrightarrow> (if j = i then l = lv else j \<in> set (running m l))" for j l
        unfolding r using mem ri False by auto
      show "level_ok ?m" using lo by (auto simp: level_ok_def)
      show "CurrentTask ?m = CurrentTask m" using cur by (auto simp: CurrentTask_def)
    qed simp_all
  next
    case True
    show thesis
    proof (cases "lev < 0 \<or> lev = int (level t)")
      case same: True
      then have lv: "lv = level t" by (auto simp: lv_def)
      then have f: "?f t = t" using True by simp
      have g: "get_task m j = (if j = i then Some (?f t) else get_task m j)" for j
        unfolding f using t by simp
      show thesis
      proof (rule fin [OF _ g])
        show "Wakeup i lev m = Some m" using t True same by (simp add: Wakeup_def ChangeLevelRunning_def)
        show "j \<in> set (running m l) \<longleftrightarrow> (if j = i then l = lv else j \<in> set (running m l))" for j l
          using mem ri True lv by auto
      qed (use mem lo in auto)
    next
      case False
      then have ic: "cur = i" and lvn: "lv = nat lev" "lv \<noteq> level t" "\<not> kMaxLevel < nat lev" using legal True cur(2) lvle
        by (auto simp: lv_def)
      have ll: "level t = current_level m" using mem(1) [of i "current_level m"] cur(1) ic ri by auto
      let ?m1 = "set_running (current_level m) rest m"
      let ?m2 = "set_running lv (i # running ?m1 lv) ?m1"
      let ?m3 = "upd_task i (\<lambda>x. x\<lparr>level := lv\<rparr>) ?m2"
      let ?m = "if lv \<ge> current_level ?m3 then ?m3\<lparr>current_level := lv\<rparr>
                else ?m3\<lparr>current_level := lv, level_changed := True\<rparr>"
      have g: "get_task ?m j = (if j = i then Some (?f t) else get_task m j)" for j
      proof -
        have "get_task ?m2 i = Some t" using t by simp
        then have "get_task ?m3 j = (if j = i then Some (t\<lparr>level := lv\<rparr>) else get_task ?m2 j)"
          by (rule get_task_upd_Some) simp
        moreover have "t\<lparr>level := lv\<rparr> = ?f t" using True by simp
        moreover have "get_task ?m = get_task ?m3" "get_task ?m2 = get_task m" by simp_all
        ultimately show ?thesis by (simp only:)
      qed
      have r: "running ?m = (running m)(current_level m := rest, lv := i # running m lv)"
        using lvn ll by auto
      have i: "i \<notin> set rest" "i \<notin> set (running m lv)"
        using mem(2) [of "current_level m"] cur(1) ic mem(1) [of i lv] ri lvn(2) by auto
      show thesis
      proof (rule fin [OF _ g])
        show "Wakeup i lev m = Some ?m"
          using t True False le cur ic lvn by (simp add: Wakeup_def ChangeLevelRunning_def Let_def)
        show "distinct (running ?m l)" for l unfolding r using mem(2) [of "current_level m"] mem(2) [of l] mem(2) [of lv] i cur(1) by simp
        show "j \<in> set (running ?m l) \<longleftrightarrow> (if j = i then l = lv else j \<in> set (running m l))" for j l
          unfolding r using i mem(1) [of i l] ri cur(1) ic lvn ll by auto
        show "level_ok ?m" using lo by (auto simp: level_ok_def)
        show "CurrentTask ?m = CurrentTask m" using cur ic by (simp add: CurrentTask_def)
      qed simp_all
    qed
  qed
qed

lemma find_append: "List.find P (xs @ ys) = (case List.find P xs of None \<Rightarrow> List.find P ys | Some x \<Rightarrow> Some x)"
  by (induction xs) auto

lemma NewTask_inv:
  assumes "sched_inv m"
  shows "sched_inv (fst (NewTask m))"
proof -
  have fresh: "get_task m (last_id m + 1) = None"
  proof (rule ccontr)
    assume "get_task m (last_id m + 1) \<noteq> None"
    then obtain t where "get_task m (last_id m + 1) = Some t" by blast
    then have "last_id m + 1 \<le> last_id m" using assms unfolding sched_inv_def tasks_ok_def by blast
    then show False by simp
  qed
  have g: "get_task (fst (NewTask m)) j =
      (if j = last_id m + 1 then Some (Task_init (last_id m + 1)) else get_task m j)" for j
    using fresh by (auto simp: NewTask_def get_task_def Task_init_def find_append split: option.split)
  have ra: "ready_at (fst (NewTask m)) j l = ready_at m j l" for j l
    using fresh by (auto simp: ready_at_def g Task_init_def)
  have "queues_ok (fst (NewTask m))" "level_ok (fst (NewTask m))"
    using assms unfolding sched_inv_def queues_ok_def level_ok_def ra by (simp_all add: NewTask_def)
  moreover have "tasks_ok (fst (NewTask m))"
    using assms fresh unfolding sched_inv_def tasks_ok_def g
    by (auto simp: NewTask_def Task_init_def kDefaultLevel_def kMaxLevel_def intro!: le_SucI)
  ultimately show ?thesis using assms ra by (simp add: sched_inv_def)
qed

lemma upd_msgs_inv:
  assumes "sched_inv m" and "get_task m i = Some t"
  shows "sched_inv (upd_task i (\<lambda>t. t\<lparr>msgs := ms t\<rparr>) m)"
proof -
  let ?m = "upd_task i (\<lambda>t. t\<lparr>msgs := ms t\<rparr>) m"
  have g: "get_task ?m j = (if j = i then Some (t\<lparr>msgs := ms t\<rparr>) else get_task m j)" for j
    by (rule get_task_upd_Some [OF assms(2)]) simp
  have ra: "ready_at ?m j l = ready_at m j l" for j l
    using assms(2) g by (simp add: ready_at_def)
  have "queues_ok ?m" "level_ok ?m"
    using assms(1) unfolding sched_inv_def queues_ok_def level_ok_def ra by simp_all
  moreover have "tasks_ok ?m"
    using assms unfolding sched_inv_def tasks_ok_def g by auto
  ultimately show ?thesis using assms(1) ra by (simp add: sched_inv_def)
qed

lemma Wakeup_default:
  assumes "sched_inv m" and "get_task m i = Some t"
  shows "\<exists>m'. Wakeup i (-1) m = Some m' \<and> sched_inv m' \<and> CurrentTask m' = CurrentTask m
    \<and> (\<forall>j. get_task m' j = (if j = i then Some (t\<lparr>ready_or_running := True\<rparr>) else get_task m j))
    \<and> finish_tasks m' = finish_tasks m \<and> finish_waiter m' = finish_waiter m \<and> last_id m' = last_id m"
proof (rule Wakeup_spec [OF assms, of "-1"])
  fix m'
  assume a: "Wakeup i (-1) m = Some m'" "sched_inv m'" "CurrentTask m' = CurrentTask m"
    "finish_tasks m' = finish_tasks m" "finish_waiter m' = finish_waiter m" "last_id m' = last_id m"
    "\<And>j. get_task m' j = (if j = i then Some (t\<lparr>level := if - 1 < (0 :: int) then level t else nat (- 1),
         ready_or_running := True\<rparr>) else get_task m j)"
  have "get_task m' j = (if j = i then Some (t\<lparr>ready_or_running := True\<rparr>) else get_task m j)" for j
    using a(7) [of j] by simp
  with a(1-6) show ?thesis by blast
qed simp_all

lemma SendMessage_spec:
  assumes inv: "sched_inv m" and t: "get_task m i = Some t"
  obtains m' where "SendMessage i msg m = Some (m', kSuccess)" "sched_inv m'" "CurrentTask m' = CurrentTask m"
    "\<And>j. get_task m' j = (if j = i then Some (t\<lparr>msgs := msgs t @ [msg], ready_or_running := True\<rparr>) else get_task m j)"
proof -
  let ?t = "t\<lparr>msgs := msgs t @ [msg]\<rparr>"
  let ?m = "upd_task i (\<lambda>t. t\<lparr>msgs := msgs t @ [msg]\<rparr>) m"
  have g: "get_task ?m j = (if j = i then Some ?t else get_task m j)" for j
    by (rule get_task_upd_Some [OF t]) simp
  then have gi: "get_task ?m i = Some ?t" by simp
  obtain m' where W: "Wakeup i (-1) ?m = Some m'" "sched_inv m'" "CurrentTask m' = CurrentTask ?m"
    "\<forall>j. get_task m' j = (if j = i then Some (?t\<lparr>ready_or_running := True\<rparr>) else get_task ?m j)"
    using Wakeup_default [OF upd_msgs_inv [OF inv t] gi] by blast
  have gm: "get_task m' j = (if j = i then Some (?t\<lparr>ready_or_running := True\<rparr>) else get_task m j)" for j
    using W(4) g by simp
  show thesis
  proof (rule that [OF _ W(2) _])
    show "SendMessage i msg m = Some (m', kSuccess)"
      using W(1) t by (simp add: SendMessage_def Task_SendMessage_def)
    show "CurrentTask m' = CurrentTask m" using W(3) by (simp add: CurrentTask_def)
  qed (use gm in simp)
qed

lemma find_removed: "List.find (\<lambda>t. task_id t = j) (filter (\<lambda>t. task_id t \<noteq> i) ts)
    = (if j = i then None else List.find (\<lambda>t. task_id t = j) ts)"
  by (induction ts) auto

lemma Finish_spec:
  assumes inv: "sched_inv m" and cur: "CurrentTask m = Some cur" and ni: "cur \<noteq> kIdle"
    and nw: "\<And>i. finish_waiter m i \<noteq> Some cur"
  obtains m' nxt where "Finish ec m = Some (m', RestoreTo nxt)" "sched_inv m'" "CurrentTask m' = Some nxt"
    "finish_tasks m' = (finish_tasks m)(cur \<mapsto> ec)" "get_task m' cur = None"
    "\<And>w. finish_waiter m cur = Some w \<Longrightarrow> \<exists>t. get_task m' w = Some t \<and> ready_or_running t"
    "finish_waiter m' = (finish_waiter m)(cur := None)"
proof -
  have q: "queues_ok m" and to: "tasks_ok m" and lo: "level_ok m" using inv by (auto simp: sched_inv_def)
  obtain rest where c: "running m (current_level m) = cur # rest"
    using cur by (auto simp: CurrentTask_def split: list.splits)
  obtain t where t: "get_task m cur = Some t" using inv_current [OF inv] c by auto
  have rc: "ready_at m cur (current_level m)" using q c unfolding queues_ok_def by (metis list.set_intros(1))
  obtain m1 where R: "RotateCurrentRunQueue True m = Some (m1, cur)"
    "running m1 = (running m)(current_level m := if True then rest else rest @ [cur])"
    "get_task m1 = get_task m" "tasks m1 = tasks m" "last_id m1 = last_id m"
    "finish_waiter m1 = finish_waiter m" "finish_tasks m1 = finish_tasks m" "at_highest m1"
    by (rule Rotate_spec [OF lo inv_bound [OF q to] inv_idle [OF inv] c, of True]) (use ni in auto)
  let ?m2 = "m1\<lparr>tasks := filter (\<lambda>t. task_id t \<noteq> cur) (tasks m1), finish_tasks := (finish_tasks m)(cur \<mapsto> ec)\<rparr>"
  let ?m3 = "?m2\<lparr>finish_waiter := (finish_waiter m)(cur := None)\<rparr>"
  have g3: "get_task ?m3 j = (if j = cur then None else get_task m j)" for j
    by (simp add: get_task_def R(4) find_removed)
  have ra3: "ready_at ?m3 j l = (j \<noteq> cur \<and> ready_at m j l)" for j l
    unfolding ready_at_def g3 by simp
  have run3: "running ?m3 = (running m)(current_level m := rest)" using R(2) by simp
  have q3: "queues_ok ?m3"
  proof -
    have "cur \<notin> set (running m l)" if "l \<noteq> current_level m" for l
      using q rc ready_at_one_level that unfolding queues_ok_def by metis
    moreover have "cur \<notin> set rest" "distinct rest" using q c unfolding queues_ok_def by (metis distinct.simps(2))+
    moreover have "set (running m (current_level m)) = insert cur (set rest)" using c by simp
    ultimately show ?thesis using q unfolding queues_ok_def ra3 run3 by auto
  qed
  have lo3: "level_ok ?m3" using at_highest_level_ok [OF R(8)] by (simp add: level_ok_def)
  have to3: "tasks_ok ?m3"
  proof -
    have a: "finish_waiter m i = Some w \<Longrightarrow> get_task m w \<noteq> None \<and> w \<noteq> cur" for i w
      using to nw unfolding tasks_ok_def by blast
    show ?thesis using to a unfolding tasks_ok_def g3 by (auto simp: R(5) split: if_splits)
  qed
  have inv3: "sched_inv ?m3" using q3 to3 lo3 ra3 ni inv by (simp add: sched_inv_def)
  have "CurrentTask ?m3 = CurrentTask m1" by (simp add: CurrentTask_def)
  then obtain nxt where nxt: "CurrentTask ?m3 = Some nxt"
    using R(8) by (auto simp: at_highest_def CurrentTask_def neq_Nil_conv)
  show thesis
  proof (cases "finish_waiter m cur")
    case None
    have same: "?m3 = ?m2" using None R(6) by (simp add: fun_upd_idem)
    have "Finish ec m = Some (?m3, RestoreTo nxt)"
      using R(1,3,6,7) t None nxt unfolding same by (simp add: Finish_def)
    then show thesis by (rule that [OF _ inv3 nxt]) (use None g3 in auto)
  next
    case (Some w)
    then obtain tw where tw: "get_task ?m3 w = Some tw" using to nw unfolding tasks_ok_def g3 by fastforce
    obtain m' where W: "Wakeup w (-1) ?m3 = Some m'" "sched_inv m'" "CurrentTask m' = CurrentTask ?m3"
      "\<forall>j. get_task m' j = (if j = w then Some (tw\<lparr>ready_or_running := True\<rparr>) else get_task ?m3 j)"
      "finish_tasks m' = finish_tasks ?m3" "finish_waiter m' = finish_waiter ?m3"
      using Wakeup_default [OF inv3 tw] by blast
    have "Finish ec m = Some (m', RestoreTo nxt)"
      using R(1,3,6,7) t Some W(1,3) nxt by (simp add: Finish_def)
    then show thesis
      by (rule that [OF _ W(2)]) (use W(3-6) nxt Some g3 tw in auto)
  qed
qed

section \<open>The scheduler as a transition system\<close>

text \<open>
  What tasks and interrupt handlers can make the scheduler do.  The idle task only halts, and a task
  that is waiting for another one runs the loop of \<^verbatim>\<open>WaitFinish\<close> and nothing else.  A task that is
  ready and not running is not moved to another level (see \<open>Wakeup_of_ready_task_loses_current\<close>; no
  call in the sources does).
\<close>

inductive task_step :: "TaskManager \<Rightarrow> TaskManager \<Rightarrow> bool" where
  new: "task_step m (fst (NewTask m))"
| switch: "SwitchTask ctx m = Some (m', c) \<Longrightarrow> task_step m m'"
| sleep: "i \<noteq> kIdle \<Longrightarrow> Sleep_id i m = Some (m', c, e) \<Longrightarrow> task_step m m'"
| wake: "get_task m i = Some t \<Longrightarrow> lev \<le> int kMaxLevel \<Longrightarrow> i \<noteq> kIdle \<or> lev < 0
    \<Longrightarrow> \<not> ready_or_running t \<or> lev < 0 \<or> lev = int (level t) \<or> CurrentTask m = Some i
    \<Longrightarrow> Wakeup i lev m = Some m' \<Longrightarrow> task_step m m'"
| send: "SendMessage i msg m = Some (m', e) \<Longrightarrow> task_step m m'"
| receive: "get_task m i = Some t \<Longrightarrow> task_step m (upd_task i (\<lambda>t. snd (ReceiveMessage t)) m)"
| finish: "CurrentTask m = Some cur \<Longrightarrow> cur \<noteq> kIdle \<Longrightarrow> \<forall>i. finish_waiter m i \<noteq> Some cur
    \<Longrightarrow> Finish ec m = Some (m', c) \<Longrightarrow> task_step m m'"
| wait: "CurrentTask m = Some cur \<Longrightarrow> cur \<noteq> kIdle
    \<Longrightarrow> WaitFinish_turn cur i m = Some (m', c, r) \<Longrightarrow> task_step m m'"

inductive reachable :: "TaskManager \<Rightarrow> bool" where
  init: "(\<And>t. task_id (f t) = task_id t) \<Longrightarrow> reachable (TaskManager_init f)"
| step: "reachable m \<Longrightarrow> task_step m m' \<Longrightarrow> reachable m'"

lemma init_inv:
  assumes "\<And>t. task_id (f t) = task_id t"
  shows "sched_inv (TaskManager_init f)"
proof -
  let ?m = "TaskManager_init f"
  have run: "running ?m = (\<lambda>_. [])(3 := [1], 0 := [2])"
    by (auto simp: TaskManager_init_def NewTask_def empty_manager_def kMaxLevel_def Let_def)
  have ts: "tasks ?m = [(Task_init 1)\<lparr>level := 3, ready_or_running := True\<rparr>,
      (f (Task_init 2))\<lparr>level := 0, ready_or_running := True\<rparr>]"
    by (simp add: TaskManager_init_def NewTask_def empty_manager_def kMaxLevel_def Let_def upd_task_def
        set_running_def Task_init_def numeral_2_eq_2)
  have id: "task_id (f (Task_init 2)) = 2" using assms by (simp add: Task_init_def)
  have ra: "ready_at ?m i l = (i = 1 \<and> l = 3 \<or> i = 2 \<and> l = 0)" for i l
    using id by (auto simp: ready_at_def get_task_def ts Task_init_def)
  have "queues_ok ?m" unfolding queues_ok_def ra run by auto
  moreover have "tasks_ok ?m"
    using id unfolding tasks_ok_def get_task_def ts
    by (auto simp: Task_init_def kMaxLevel_def TaskManager_init_def NewTask_def empty_manager_def Let_def
        split: if_splits)
  moreover have "level_ok ?m"
    unfolding level_ok_def run
    by (simp add: TaskManager_init_def NewTask_def empty_manager_def kMaxLevel_def Let_def)
  ultimately show ?thesis by (simp add: sched_inv_def ra kIdle_def)
qed

lemma waiter_inv:
  assumes "sched_inv m" and "get_task m w \<noteq> None"
  shows "sched_inv (m\<lparr>finish_waiter := (finish_waiter m)(i \<mapsto> w)\<rparr>)"
  using assms
  by (auto simp: sched_inv_def queues_ok_def tasks_ok_def level_ok_def ready_at_def)

lemma forget_finished_inv: "sched_inv m \<Longrightarrow> sched_inv (m\<lparr>finish_tasks := ft\<rparr>)"
  by (simp add: sched_inv_def queues_ok_def tasks_ok_def level_ok_def ready_at_def)

lemma step_inv: "task_step m m' \<Longrightarrow> sched_inv m \<Longrightarrow> sched_inv m'"
proof (induction rule: task_step.induct)
  case (switch ctx m m' c)
  obtain cur rest where "running m (current_level m) = cur # rest" using inv_current [OF switch(2)] by metis
  from SwitchTask_spec [OF switch(2) this, of ctx] show ?case using switch(1) by (metis option.inject prod.inject)
next
  case (sleep i m m' c e)
  show ?case
  proof (cases "get_task m i")
    case None
    then show ?thesis using sleep by (simp add: Sleep_id_def)
  next
    case (Some t)
    from Sleep_spec [OF sleep(3) this sleep(1)] obtain m1 c1 where "Sleep i m = Some (m1, c1)" "sched_inv m1" .
    then show ?thesis using sleep(2) Some by (simp add: Sleep_id_def)
  qed
next
  case (wake m i t lev m')
  from Wakeup_spec [OF wake(6,1,2) _ wake(4)] wake(3,5) show ?case by (metis option.inject)
next
  case (send i msg m m' e)
  show ?case
  proof (cases "get_task m i")
    case None
    then show ?thesis using send by (simp add: SendMessage_def)
  next
    case (Some t)
    from SendMessage_spec [OF send(2) this, of msg] obtain m1 where "SendMessage i msg m = Some (m1, kSuccess)" "sched_inv m1" .
    then show ?thesis using send(1) by simp
  qed
next
  case (receive m i t)
  have "(\<lambda>t. snd (ReceiveMessage t)) = (\<lambda>t. t\<lparr>msgs := tl (msgs t)\<rparr>)"
    by (auto simp: ReceiveMessage_def split: list.split)
  then show ?case using upd_msgs_inv [OF receive(2,1), of "\<lambda>t. tl (msgs t)"] by simp
next
  case (finish m cur ec m' c)
  from Finish_spec [OF finish(5,1,2), of ec] finish(3) obtain m1 nxt where
    "Finish ec m = Some (m1, RestoreTo nxt)" "sched_inv m1" by metis
  then show ?case using finish(4) by simp
next
  case (wait m cur i m' c r)
  obtain t where t: "get_task m cur = Some t" using inv_current [OF wait(4)] wait(1) by (metis option.inject)
  show ?case
  proof (cases "finish_tasks m i")
    case (Some ec)
    then show ?thesis using wait forget_finished_inv by (auto simp: WaitFinish_turn_def)
  next
    case None
    let ?m = "m\<lparr>finish_waiter := (finish_waiter m)(i \<mapsto> cur)\<rparr>"
    have "get_task ?m cur = Some t" using t by simp
    moreover have "sched_inv ?m" using waiter_inv [OF wait(4)] t by simp
    ultimately obtain m1 c1 where "Sleep cur ?m = Some (m1, c1)" "sched_inv m1"
      using Sleep_spec [of ?m cur t] wait(2) by metis
    then show ?thesis using wait(3) None by (simp add: WaitFinish_turn_def)
  qed
qed (rule NewTask_inv)

text \<open>
  C1: the scheduler never loses a task.  In every state the scheduler reaches from its initial one,
  a task is in exactly the run queue of its level, once, if it is ready, and in no queue if it
  sleeps; there is always a current task, it is ready, and no higher level has one unless a change
  of level is pending.
\<close>

theorem scheduler_reachable_inv:
  assumes "reachable m"
  shows "(\<exists>cur t. CurrentTask m = Some cur \<and> get_task m cur = Some t \<and> ready_or_running t)
    \<and> (\<forall>l i. i \<in> set (running m l) \<longleftrightarrow>
          (\<exists>t. get_task m i = Some t \<and> ready_or_running t \<and> level t = l)) \<and> (\<forall>l. distinct (running m l))
    \<and> (level_changed m \<or> (\<forall>l > current_level m. running m l = []))"
proof -
  have inv: "sched_inv m"
    using assms by (induction rule: reachable.induct) (use init_inv step_inv in blast)+
  obtain cur t where "CurrentTask m = Some cur" "get_task m cur = Some t" "ready_or_running t"
    using inv_current [OF inv] by metis
  moreover have "\<forall>l i. i \<in> set (running m l) \<longleftrightarrow> (\<exists>t. get_task m i = Some t \<and> ready_or_running t \<and> level t = l)"
    using inv by (auto simp: sched_inv_def queues_ok_def ready_at_def split: option.splits)
  ultimately show ?thesis using inv by (auto simp: sched_inv_def queues_ok_def level_ok_def)
qed

theorem scheduler_reachable_inv_witness:
  "\<exists>cur. CurrentTask (fst (NewTask (TaskManager_init (\<lambda>t. t)))) = Some cur"
proof -
  have "reachable (fst (NewTask (TaskManager_init (\<lambda>t. t))))"
    by (rule reachable.step [OF reachable.init task_step.new]) simp
  from scheduler_reachable_inv [OF this] show ?thesis by blast
qed

section \<open>Scheduling, messages, end of a task\<close>

fun switch_n :: "TaskContext list \<Rightarrow> TaskManager \<Rightarrow> TaskManager option" where
  "switch_n [] m = Some m"
| "switch_n (c # xs) m = (case SwitchTask c m of None \<Rightarrow> None | Some (m', _) \<Rightarrow> switch_n xs m')"

lemma at_highest_same_level:
  assumes "at_highest m" and "at_highest m'" and "\<And>l. running m' l = [] \<longleftrightarrow> running m l = []"
  shows "current_level m' = current_level m"
  using assms unfolding at_highest_def by (metis linorder_neqE_nat)

lemma switch_n_rotates:
  "sched_inv m \<Longrightarrow> at_highest m \<Longrightarrow> \<exists>m'. switch_n xs m = Some m' \<and> sched_inv m' \<and> at_highest m'
     \<and> current_level m' = current_level m
     \<and> running m' = (running m)(current_level m := rotate (length xs) (running m (current_level m)))"
proof (induction xs arbitrary: m)
  case Nil
  then show ?case by simp
next
  case (Cons c xs)
  obtain cur rest where q: "running m (current_level m) = cur # rest"
    using inv_current [OF Cons.prems(1)] by metis
  obtain m1 x where S: "SwitchTask c m = Some (m1, x)" "sched_inv m1" "at_highest m1"
    "running m1 = (running m)(current_level m := rest @ [cur])"
    using SwitchTask_spec [OF Cons.prems(1) q] by metis
  have l: "current_level m1 = current_level m"
    by (rule at_highest_same_level [OF Cons.prems(2) S(3)]) (simp add: S(4) q)
  have r: "rest @ [cur] = rotate1 (running m (current_level m))" using q by simp
  from Cons.IH [OF S(2,3)] show ?case
    using S(1) unfolding l S(4) by (auto simp: r rotate1_rotate_swap rotate_Suc fun_eq_iff)
qed



text \<open>
  waking a task that is ready but not running, with another level, corrupts the run queues: the
  branch that moves it is not left, so the code for the running task runs as well.  The task that
  was running is in no queue any more although it is ready, and the woken task is in the queue of
  its new level twice.
\<close>

theorem Wakeup_of_ready_task_loses_current:
  assumes "reachable m" and "get_task m i = Some t" and "ready_or_running t"
    and "CurrentTask m = Some cur" and "i \<noteq> cur"
    and "0 \<le> lev" and "lev \<le> int kMaxLevel" and "lev \<noteq> int (level t)" and "nat lev \<noteq> current_level m"
  shows "\<exists>m'. Wakeup i lev m = Some m' \<and> (\<forall>l. cur \<notin> set (running m' l))
    \<and> ready_at m' cur (current_level m) \<and> count_list (running m' (nat lev)) i = 2"
proof -
  have inv: "sched_inv m"
    using assms(1) by (induction rule: reachable.induct) (use init_inv step_inv in blast)+
  then have q: "distinct (running m l)" "j \<in> set (running m l) \<longleftrightarrow> ready_at m j l" for l j
    by (auto simp: sched_inv_def queues_ok_def)
  have le: "level t \<le> kMaxLevel" using inv assms(2) by (auto simp: sched_inv_def tasks_ok_def)
  obtain rest where c: "running m (current_level m) = cur # rest"
    using assms(4) by (auto simp: CurrentTask_def split: list.splits)
  let ?lv = "nat lev" and ?cl = "current_level m"
  have ri: "ready_at m i l \<longleftrightarrow> l = level t" for l using assms(2,3) by (auto simp: ready_at_def)
  have rc: "ready_at m cur l \<longleftrightarrow> l = ?cl" for l
    using q(2) [of cur ?cl] c ready_at_one_level [of m cur ?cl l] by auto
  have lvn: "?lv \<noteq> level t" "\<not> kMaxLevel < ?lv" "\<not> lev < 0" "?lv \<noteq> ?cl" using assms(6-9) by auto
  have ni: "i \<notin> set (running m ?lv)" using q(2) ri lvn by simp
  obtain m' where W: "Wakeup i lev m = Some m'"
    and run: "running m' = (running m)(level t := removeAll i (running m (level t)),
       ?cl := removeAll i rest, ?lv := i # running m ?lv @ [i])"
    and g: "get_task m' cur = get_task m cur"
  proof -
    let ?m1 = "set_running (level t) (removeAll i (running m (level t))) m"
    let ?m2 = "upd_task i (\<lambda>x. x\<lparr>level := ?lv\<rparr>) (set_running ?lv (running ?m1 ?lv @ [i]) ?m1)"
    let ?m3 = "if ?lv > current_level ?m2 then ?m2\<lparr>level_changed := True\<rparr> else ?m2"
    have r3: "running ?m3 = (running m)(level t := removeAll i (running m (level t)), ?lv := running m ?lv @ [i])"
      using lvn by auto
    have nir: "level t \<noteq> ?cl \<Longrightarrow> removeAll i rest = rest"
      using q(2) [of i ?cl] ri c by (simp add: removeAll_id)
    let ?m4 = "set_running ?cl (removeAll i rest) ?m3"
    let ?m5 = "upd_task i (\<lambda>x. x\<lparr>level := ?lv\<rparr>) (set_running ?lv (i # running ?m4 ?lv) ?m4)"
    let ?m6 = "if ?lv \<ge> current_level ?m5 then ?m5\<lparr>current_level := ?lv\<rparr>
               else ?m5\<lparr>current_level := ?lv, level_changed := True\<rparr>"
    have "Wakeup i lev m = Some ?m6"
      using assms(2-5,8) le lvn nir c
      by (cases "level t = ?cl") (simp_all add: Wakeup_def ChangeLevelRunning_def Let_def)
    moreover have "running ?m6 = (running m)(level t := removeAll i (running m (level t)),
        ?cl := removeAll i rest, ?lv := i # running m ?lv @ [i])"
      using r3 lvn by (auto simp: fun_eq_iff)
    moreover have "get_task ?m6 cur = get_task m cur"
      using assms(5) get_task_upd [of "\<lambda>x. x\<lparr>level := ?lv\<rparr>" i] by simp
    ultimately show thesis by (rule that)
  qed
  have "cur \<notin> set (running m' l)" for l
    using q(2) [of cur] rc q(1) [of ?cl] c assms(5) lvn unfolding run by auto
  moreover have "ready_at m' cur ?cl" using rc g by (simp add: ready_at_def)
  moreover have "count_list (running m' ?lv) i = 2"
    using ni unfolding run by (simp add: count_notin)
  ultimately show ?thesis using W by blast
qed

lemma init_example:
  "reachable (TaskManager_init (\<lambda>t. t))" "CurrentTask (TaskManager_init (\<lambda>t. t)) = Some 1"
  "current_level (TaskManager_init (\<lambda>t. t)) = 3"
  "get_task (TaskManager_init (\<lambda>t. t)) 1 = Some ((Task_init 1)\<lparr>level := 3, ready_or_running := True\<rparr>)"
  "get_task (TaskManager_init (\<lambda>t. t)) 2 = Some ((Task_init 2)\<lparr>level := 0, ready_or_running := True\<rparr>)"
  "finish_waiter (TaskManager_init (\<lambda>t. t)) i = None"
  by (rule reachable.init)
    (simp_all add: TaskManager_init_def NewTask_def empty_manager_def kMaxLevel_def Let_def
      CurrentTask_def get_task_def upd_task_def set_running_def Task_init_def numeral_2_eq_2)

theorem Wakeup_of_ready_task_loses_current_witness:
  "\<exists>m'. Wakeup 2 1 (TaskManager_init (\<lambda>t. t)) = Some m' \<and> (\<forall>l. 1 \<notin> set (running m' l))
     \<and> count_list (running m' 1) 2 = 2"
  using Wakeup_of_ready_task_loses_current [OF init_example(1,5) _ init_example(2), of 1]
  by (simp add: init_example(3) kMaxLevel_def) blast

text \<open>
  sending a message.  To an unknown task it is an error and changes nothing; to a task that exists
  it appends the message to the task's queue, makes the task ready and does nothing else to any
  task or to who is running; the messages of a task come out in the order they were sent.
\<close>

theorem SendMessage_delivers:
  assumes "reachable m"
  shows "case get_task m i of
      None \<Rightarrow> SendMessage i msg m = Some (m, kNoSuchTask)
    | Some t \<Rightarrow> (\<exists>m' t'. SendMessage i msg m = Some (m', kSuccess) \<and> CurrentTask m' = CurrentTask m
        \<and> (\<forall>j. get_task m' j = (if j = i then Some t' else get_task m j))
        \<and> ready_or_running t' \<and> i \<in> set (running m' (level t'))
        \<and> ReceiveMessage t' = (case msgs t of [] \<Rightarrow> (Some msg, t'\<lparr>msgs := []\<rparr>)
              | m0 # ms \<Rightarrow> (Some m0, t'\<lparr>msgs := ms @ [msg]\<rparr>)))"
proof (cases "get_task m i")
  case None
  then show ?thesis by (simp add: SendMessage_def)
next
  case (Some t)
  have inv: "sched_inv m"
    using assms by (induction rule: reachable.induct) (use init_inv step_inv in blast)+
  let ?t = "t\<lparr>msgs := msgs t @ [msg], ready_or_running := True\<rparr>"
  obtain m' where S: "SendMessage i msg m = Some (m', kSuccess)" "sched_inv m'" "CurrentTask m' = CurrentTask m"
    "\<And>j. get_task m' j = (if j = i then Some ?t else get_task m j)"
    using SendMessage_spec [OF inv Some, of msg] by blast
  have "ready_at m' i (level ?t)" using S(4) by (simp add: ready_at_def)
  then have "i \<in> set (running m' (level ?t))" using S(2) by (simp add: sched_inv_def queues_ok_def)
  then show ?thesis unfolding Some option.case
    by (intro exI [of _ m'] exI [of _ ?t] conjI S(1,3) allI S(4))
      (simp_all add: ReceiveMessage_def split: list.split)
qed

theorem SendMessage_delivers_witness:
  "\<exists>m'. SendMessage 2 \<lparr>msg_type = kInterruptXHCI, src_task_id = 0, arg = NoArg\<rparr> (TaskManager_init (\<lambda>t. t)) = Some (m', kSuccess) \<and> CurrentTask m' = Some 1
     \<and> SendMessage 9 \<lparr>msg_type = kInterruptXHCI, src_task_id = 0, arg = NoArg\<rparr> (TaskManager_init (\<lambda>t. t)) = Some (TaskManager_init (\<lambda>t. t), kNoSuchTask)"
proof -
  have "get_task (TaskManager_init (\<lambda>t. t)) 9 = None"
    by (simp add: TaskManager_init_def NewTask_def empty_manager_def kMaxLevel_def Let_def
      get_task_def upd_task_def set_running_def Task_init_def)
  then show ?thesis
    using SendMessage_delivers [OF init_example(1), of 2 "\<lparr>msg_type = kInterruptXHCI, src_task_id = 0, arg = NoArg\<rparr>"] SendMessage_delivers [OF init_example(1), of 9 "\<lparr>msg_type = kInterruptXHCI, src_task_id = 0, arg = NoArg\<rparr>"]
    by (auto simp: init_example)
qed

text \<open>
  C24: the end of a task reaches the task that waits for it.  When the running task finishes, it is
  gone, its exit code is recorded, the task registered as its waiter is ready, and the next turn of
  that task's loop in \<^verbatim>\<open>WaitFinish\<close> returns the exit code; the exit code is then forgotten.
\<close>

theorem Finish_delivers_exit_code:
  assumes "reachable m" and "CurrentTask m = Some cur" and "cur \<noteq> kIdle"
    and "\<forall>i. finish_waiter m i \<noteq> Some cur" and "finish_waiter m cur = Some w"
  shows "\<exists>m' nxt t. Finish ec m = Some (m', RestoreTo nxt) \<and> CurrentTask m' = Some nxt
    \<and> get_task m' cur = None \<and> get_task m' w = Some t \<and> ready_or_running t
    \<and> (\<exists>m''. WaitFinish_turn w cur m' = Some (m'', Continue, Some ec) \<and> finish_tasks m'' cur = None)"
proof -
  have inv: "sched_inv m"
    using assms(1) by (induction rule: reachable.induct) (use init_inv step_inv in blast)+
  show ?thesis
  proof (rule Finish_spec [OF inv assms(2,3), of ec])
    fix m' nxt
    assume F: "Finish ec m = Some (m', RestoreTo nxt)" "CurrentTask m' = Some nxt"
      "finish_tasks m' = (finish_tasks m)(cur \<mapsto> ec)" "get_task m' cur = None"
      "\<And>w. finish_waiter m cur = Some w \<Longrightarrow> \<exists>t. get_task m' w = Some t \<and> ready_or_running t"
    obtain t where "get_task m' w = Some t" "ready_or_running t" using F(5) [OF assms(5)] by blast
    with F(1-4) show ?thesis by (simp add: WaitFinish_turn_def)
  qed (use assms(4) in blast)
qed

text \<open>The main task makes a task in its own level and waits for its end.\<close>

definition wait_example :: "TaskManager option" where
  "wait_example = do {
     m \<leftarrow> Wakeup 3 3 (fst (NewTask (TaskManager_init (\<lambda>t. t))));
     (m, _, _) \<leftarrow> WaitFinish_turn 1 3 m;
     Some m
   }"

lemma wait_example_ok:
  "\<exists>m. wait_example = Some m \<and> reachable m \<and> CurrentTask m = Some 3 \<and> finish_waiter m = [3 \<mapsto> 1]"
proof -
  let ?m1 = "fst (NewTask (TaskManager_init (\<lambda>t. t)))"
  have r1: "reachable ?m1" by (rule reachable.step [OF init_example(1) task_step.new])
  have g: "get_task ?m1 3 = Some (Task_init 3)"
    by (simp add: TaskManager_init_def NewTask_def empty_manager_def kMaxLevel_def Let_def
        get_task_def upd_task_def set_running_def Task_init_def)
  have "\<exists>m2. Wakeup 3 3 ?m1 = Some m2 \<and> running m2 = (\<lambda>_. [])(3 := [1, 3], 0 := [2])
      \<and> current_level m2 = 3 \<and> \<not> level_changed m2 \<and> finish_tasks m2 = (\<lambda>_. None)
      \<and> finish_waiter m2 = (\<lambda>_. None)
      \<and> get_task m2 1 = Some ((Task_init 1)\<lparr>level := 3, ready_or_running := True\<rparr>)"
    by (simp add: Wakeup_def g) (simp add: TaskManager_init_def NewTask_def empty_manager_def kMaxLevel_def
        Let_def get_task_def upd_task_def set_running_def Task_init_def fun_eq_iff)
  then obtain m2 where m2: "Wakeup 3 3 ?m1 = Some m2" "running m2 = (\<lambda>_. [])(3 := [1, 3], 0 := [2])"
    "current_level m2 = 3" "\<not> level_changed m2" "finish_tasks m2 = (\<lambda>_. None)" "finish_waiter m2 = (\<lambda>_. None)"
    "get_task m2 1 = Some ((Task_init 1)\<lparr>level := 3, ready_or_running := True\<rparr>)" by blast
  have r2: "reachable m2"
    by (rule reachable.step [OF r1 task_step.wake [OF g _ _ _ m2(1)]])
      (simp_all add: kMaxLevel_def Task_init_def kIdle_def)
  have "\<exists>m3. WaitFinish_turn 1 3 m2 = Some (m3, SwitchTo 3 1, None) \<and> CurrentTask m3 = Some 3
      \<and> finish_waiter m3 = [3 \<mapsto> 1]"
    using m2 by (simp add: WaitFinish_turn_def Sleep_def CurrentTask_def RotateCurrentRunQueue_def
        Let_def set_running_def upd_task_def)
  then obtain m3 where m3: "WaitFinish_turn 1 3 m2 = Some (m3, SwitchTo 3 1, None)"
    "CurrentTask m3 = Some 3" "finish_waiter m3 = [3 \<mapsto> 1]" by blast
  have "reachable m3"
    by (rule reachable.step [OF r2 task_step.wait [OF _ _ m3(1)]])
      (simp_all add: m2 CurrentTask_def kIdle_def)
  with m2(1) m3 show ?thesis by (simp add: wait_example_def)
qed

theorem Finish_delivers_exit_code_witness:
  "\<exists>m m' m'' nxt. wait_example = Some m \<and> Finish 42 m = Some (m', RestoreTo nxt)
     \<and> WaitFinish_turn 1 3 m' = Some (m'', Continue, Some 42)"
proof -
  obtain m where m: "wait_example = Some m" "reachable m" "CurrentTask m = Some 3" "finish_waiter m = [3 \<mapsto> 1]"
    using wait_example_ok by blast
  have "kIdle \<noteq> 3" "\<forall>i. finish_waiter m i \<noteq> Some 3" "finish_waiter m 3 = Some 1" using m(4) by (auto simp: kIdle_def)
  from Finish_delivers_exit_code [OF m(2,3) _ this(2,3), of 42] this(1) obtain m' nxt m'' where
    f: "Finish 42 m = Some (m', RestoreTo nxt)" "CurrentTask m' = Some nxt"
      "WaitFinish_turn 1 3 m' = Some (m'', Continue, Some 42)" by auto
  with m(1) f show ?thesis by blast
qed

end
