(* ===== verification/Timer_Manager.thy ===== *)
theory Timer_Manager imports Task_Manager "HOL-Library.Multiset" begin

text \<open>
  Timers, \<^verbatim>\<open>kernel/timer.hpp\<close> and \<^verbatim>\<open>kernel/timer.cpp\<close>.

  \<^verbatim>\<open>std::priority_queue\<close> with the inverted comparison of \<^verbatim>\<open>operator<\<close> has the earliest timer at its top;
  the standard leaves the order of equal timers open.  The model keeps the timers sorted by timeout,
  a new one behind its equals.  What the code relies on is the locale \<open>prio_queue\<close>.  Ticks are
  \<open>nat\<close>: the 64-bit counter of 100 Hz does not wrap around.
\<close>

section \<open>The priority queue\<close>

locale prio_queue =
  fixes key :: "'a \<Rightarrow> nat" and push :: "'a \<Rightarrow> 'q \<Rightarrow> 'q" and top :: "'q \<Rightarrow> 'a option" and pop :: "'q \<Rightarrow> 'q"
    and elems :: "'q \<Rightarrow> 'a multiset" and inv :: "'q \<Rightarrow> bool"
  assumes push_elems: "inv q \<Longrightarrow> inv (push x q) \<and> elems (push x q) = add_mset x (elems q)"
    and top_None: "inv q \<Longrightarrow> top q = None \<longleftrightarrow> elems q = {#}"
    and top_min: "inv q \<Longrightarrow> top q = Some x \<Longrightarrow> x \<in># elems q \<and> (\<forall>y \<in># elems q. key x \<le> key y)"
    and pop_elems: "inv q \<Longrightarrow> top q = Some x \<Longrightarrow> inv (pop q) \<and> elems (pop q) = elems q - {#x#}"
begin

text \<open>If the top is not due, nothing is.\<close>

lemma none_due: "inv q \<Longrightarrow> top q = Some x \<Longrightarrow> t < key x \<Longrightarrow> y \<in># elems q \<Longrightarrow> t < key y"
  using top_min by fastforce

lemma push_later: "inv q \<Longrightarrow> t < key x \<Longrightarrow> filter_mset (\<lambda>y. key y \<le> t) (elems (push x q)) = filter_mset (\<lambda>y. key y \<le> t) (elems q)"
  using push_elems by simp

lemma pop_due: "inv q \<Longrightarrow> top q = Some x \<Longrightarrow> key x \<le> t \<Longrightarrow>
    size (filter_mset (\<lambda>y. key y \<le> t) (elems (pop q))) < size (filter_mset (\<lambda>y. key y \<le> t) (elems q))"
proof -
  assume a: "inv q" "top q = Some x" "key x \<le> t"
  then have "x \<in># filter_mset (\<lambda>y. key y \<le> t) (elems q)" using top_min by simp
  moreover have "filter_mset (\<lambda>y. key y \<le> t) (elems (pop q)) = filter_mset (\<lambda>y. key y \<le> t) (elems q) - {#x#}"
    using pop_elems [OF a(1,2)] a(3) by (simp add: filter_diff_mset)
  ultimately show ?thesis by (metis size_Diff1_less)
qed

end

record Timer =
  timeout :: nat
  timer_val :: int
  timer_task :: tid

definition Timer_init :: "nat \<Rightarrow> int \<Rightarrow> tid \<Rightarrow> Timer" where
  "Timer_init t v i = \<lparr>timeout = t, timer_val = v, timer_task = i\<rparr>"

definition timer_top :: "Timer list \<Rightarrow> Timer option" where
  "timer_top q = (case q of [] \<Rightarrow> None | t # _ \<Rightarrow> Some t)"

text \<open>
  The heap of \<^verbatim>\<open>std::priority_queue\<close> as a list in the order of the timeouts.  The library leaves the order of equal
  timeouts open; here they are kept in the order in which they were added.
\<close>

definition timer_push :: "Timer \<Rightarrow> Timer list \<Rightarrow> Timer list" where
  "timer_push t q = takeWhile (\<lambda>u. timeout u \<le> timeout t) q @ t # dropWhile (\<lambda>u. timeout u \<le> timeout t) q"

definition timers_sorted :: "Timer list \<Rightarrow> bool" where
  "timers_sorted q \<longleftrightarrow> sorted (map timeout q)"

lemma timer_push_set: "mset (timer_push t q) = add_mset t (mset q)"
  unfolding timer_push_def by (metis mset.simps(2) mset_append takeWhile_dropWhile_id union_mset_add_mset_right)

lemma sorted_dropWhile_gt: "timers_sorted q \<Longrightarrow> u \<in> set (dropWhile (\<lambda>u. timeout u \<le> t) q) \<Longrightarrow> t < timeout u"
  by (induction q) (auto simp: timers_sorted_def split: if_splits)

lemma timer_push_sorted:
  assumes "timers_sorted q"
  shows "timers_sorted (timer_push t q)"
proof -
  let ?P = "\<lambda>u. timeout u \<le> timeout t"
  have "timers_sorted (takeWhile ?P q @ dropWhile ?P q)" using assms by simp
  then have "timers_sorted (takeWhile ?P q)" "timers_sorted (dropWhile ?P q)"
    unfolding timers_sorted_def by (simp_all only: map_append sorted_append)
  moreover have "\<forall>u \<in> set (dropWhile ?P q). timeout t < timeout u" using sorted_dropWhile_gt [OF assms] by blast
  moreover have "\<forall>u \<in> set (takeWhile ?P q). timeout u \<le> timeout t" by (meson set_takeWhileD)
  ultimately show ?thesis by (fastforce simp: timers_sorted_def timer_push_def sorted_append)
qed

interpretation tq: prio_queue timeout timer_push timer_top tl mset timers_sorted
proof
  fix q x
  show "timers_sorted q \<Longrightarrow> timers_sorted (timer_push x q) \<and> mset (timer_push x q) = add_mset x (mset q)"
    using timer_push_sorted timer_push_set by blast
  show "timers_sorted q \<Longrightarrow> timer_top q = None \<longleftrightarrow> mset q = {#}"
    by (simp add: timer_top_def split: list.split)
  show "timers_sorted q \<Longrightarrow> timer_top q = Some x \<Longrightarrow> x \<in># mset q \<and> (\<forall>y\<in>#mset q. timeout x \<le> timeout y)"
    by (cases q) (auto simp: timer_top_def timers_sorted_def)
  show "timers_sorted q \<Longrightarrow> timer_top q = Some x \<Longrightarrow> timers_sorted (tl q) \<and> mset (tl q) = mset q - {#x#}"
    by (cases q) (auto simp: timer_top_def timers_sorted_def)
qed

section \<open>The timer manager\<close>

record TimerManager =
  tick :: nat
  timers :: "Timer list"

definition kTimerFreq :: nat where "kTimerFreq = 100"
definition kTaskTimerPeriod :: nat where "kTaskTimerPeriod = kTimerFreq * 2 div 100"
definition kTaskTimerValue :: int where "kTaskTimerValue = - (2 ^ 31)"

definition TimerManager_init :: TimerManager where
  "TimerManager_init = \<lparr>tick = 0, timers = timer_push (Timer_init (2 ^ 64 - 1) 0 0) []\<rparr>"

definition AddTimer :: "Timer \<Rightarrow> TimerManager \<Rightarrow> TimerManager" where
  "AddTimer t tm = tm\<lparr>timers := timer_push t (timers tm)\<rparr>"

definition timeout_msg :: "Timer \<Rightarrow> Message" where
  "timeout_msg t = \<lparr>msg_type = kTimerTimeout, src_task_id = 0,
     arg = TimerArg (of_nat (timeout t)) (timer_val t)\<rparr>"

text \<open>
  The loop of \<^verbatim>\<open>Tick\<close> at the time \<open>now\<close>; the error that \<^verbatim>\<open>SendMessage\<close> returns for a task that is gone
  is ignored.  The top of an empty queue is undefined.
\<close>

function tick_loop :: "nat \<Rightarrow> Timer list \<Rightarrow> TaskManager \<Rightarrow> bool \<Rightarrow> (Timer list \<times> TaskManager \<times> bool) option" where
  "tick_loop now q m task_timer_timeout = (case q of
     [] \<Rightarrow> None
   | t # rest \<Rightarrow>
       if timeout t > now then Some (q, m, task_timer_timeout)
       else if timer_val t = kTaskTimerValue
       then tick_loop now (timer_push (Timer_init (now + kTaskTimerPeriod) kTaskTimerValue 1) rest) m True
       else (case SendMessage (timer_task t) (timeout_msg t) m of
               None \<Rightarrow> None
             | Some (m', _) \<Rightarrow> tick_loop now rest m' task_timer_timeout))"
  by pat_completeness auto
termination
proof (relation "measure (\<lambda>(now, q, m, b). size (filter_mset (\<lambda>t. timeout t \<le> now) (mset q)))")
  show "wf (measure (\<lambda>(now, q, m :: TaskManager, b :: bool). size (filter_mset (\<lambda>t. timeout t \<le> now) (mset q))))"
    by (rule wf_measure)
qed (simp_all add: timer_push_set Timer_init_def kTaskTimerPeriod_def kTimerFreq_def)

declare tick_loop.simps [simp del]

definition Tick :: "TimerManager \<Rightarrow> TaskManager \<Rightarrow> (TimerManager \<times> TaskManager \<times> bool) option" where
  "Tick tm m = (let now = tick tm + 1 in
     map_option (\<lambda>(q, m', b). (tm\<lparr>tick := now, timers := q\<rparr>, m', b)) (tick_loop now (timers tm) m False))"

definition LAPICTimerOnInterrupt ::
    "TaskContext \<Rightarrow> TimerManager \<Rightarrow> TaskManager \<Rightarrow> (TimerManager \<times> TaskManager \<times> control) option" where
  "LAPICTimerOnInterrupt ctx_stack tm m = do {
     (tm, m, task_timer_timeout) \<leftarrow> Tick tm m;
     if task_timer_timeout then do { (m, c) \<leftarrow> SwitchTask ctx_stack m; Some (tm, m, c) }
     else Some (tm, m, Continue)
   }"

text \<open>The registers of the local APIC's timer; \<open>elapsed\<close> counts are measured in 100 ms.\<close>

record LapicTimer =
  lvt_timer :: u32
  initial_count :: u32
  divide_config :: u32
  lapic_timer_freq :: nat
  timer_initialized :: bool

definition kCountMax :: u32 where "kCountMax = 0xffffffff"

definition LAPICTimerElapsed :: "u32 \<Rightarrow> u32" where
  "LAPICTimerElapsed current_count = kCountMax - current_count"

definition StartLAPICTimer :: "LapicTimer \<Rightarrow> LapicTimer" where
  "StartLAPICTimer l = l\<lparr>initial_count := kCountMax\<rparr>"

definition StopLAPICTimer :: "LapicTimer \<Rightarrow> LapicTimer" where
  "StopLAPICTimer l = l\<lparr>initial_count := 0\<rparr>"

definition kLAPICTimerVector :: u32 where "kLAPICTimerVector = 52"

text \<open>\<open>current_count\<close> is what the counter shows after the wait.\<close>

definition InitializeLAPICTimer :: "u32 \<Rightarrow> LapicTimer \<Rightarrow> TimerManager \<times> LapicTimer" where
  "InitializeLAPICTimer current_count l =
     (let l = l\<lparr>divide_config := 0b1011, lvt_timer := push_bit 16 1 OR 32\<rparr>;
          l = StartLAPICTimer l;
          elapsed = LAPICTimerElapsed current_count;
          l = StopLAPICTimer l;
          freq = unat elapsed * 10
      in (TimerManager_init,
          l\<lparr>lapic_timer_freq := freq, lvt_timer := push_bit 16 2 OR kLAPICTimerVector,
             timer_initialized := False, initial_count := of_nat (freq div kTimerFreq)\<rparr>))"

definition IsLAPICTimerInitialized :: "LapicTimer \<Rightarrow> bool" where
  "IsLAPICTimerInitialized l = timer_initialized l"

section \<open>What a tick does\<close>

abbreviation is_task_timer :: "Timer \<Rightarrow> bool" where
  "is_task_timer t \<equiv> timer_val t = kTaskTimerValue"

definition due_for :: "nat \<Rightarrow> tid \<Rightarrow> Timer list \<Rightarrow> Timer list" where
  "due_for now i q = filter (\<lambda>t. timeout t \<le> now \<and> timer_task t = i \<and> \<not> is_task_timer t) q"

definition rearmed :: "nat \<Rightarrow> Timer" where
  "rearmed now = Timer_init (now + kTaskTimerPeriod) kTaskTimerValue 1"

lemma rearmed_later: "now < timeout (rearmed now)"
  by (simp add: rearmed_def Timer_init_def kTaskTimerPeriod_def kTimerFreq_def)

lemma filter_timer_push: "\<not> P t \<Longrightarrow> filter P (timer_push t q) = filter P q"
  unfolding timer_push_def by (metis filter.simps(2) filter_append takeWhile_dropWhile_id)

lemma tick_loop_spec:
  "sched_inv m \<Longrightarrow> timers_sorted q \<Longrightarrow> \<exists>t \<in> set q. now < timeout t \<Longrightarrow>
     \<exists>q' m'. tick_loop now q m b = Some (q', m', b \<or> (\<exists>t \<in> set q. timeout t \<le> now \<and> is_task_timer t))
       \<and> timers_sorted q' \<and> sched_inv m' \<and> CurrentTask m' = CurrentTask m
       \<and> mset q' = filter_mset (\<lambda>t. now < timeout t) (mset q)
           + replicate_mset (length (filter (\<lambda>t. timeout t \<le> now \<and> is_task_timer t) q)) (rearmed now)
       \<and> (\<forall>i. map_option msgs (get_task m' i)
               = map_option (\<lambda>t. msgs t @ map timeout_msg (due_for now i q)) (get_task m i))"
proof (induction now q m b rule: tick_loop.induct)
  case (1 now q m b)
  obtain t rest where q: "q = t # rest" using "1.prems"(3) by (cases q) auto
  have so: "timers_sorted rest" and le: "\<forall>u \<in> set rest. timeout t \<le> timeout u"
    using "1.prems"(2) q by (auto simp: timers_sorted_def)
  note unf = tick_loop.simps [of now q m b, unfolded q list.case]
  show ?case
  proof (cases "now < timeout t")
    case True
    then have "\<forall>u \<in> set q. now < timeout u" using le q by auto
    then have "filter_mset (\<lambda>t. now < timeout t) (mset q) = mset q" "due_for now i q = []"
      "filter (\<lambda>t. timeout t \<le> now \<and> is_task_timer t) q = []" "\<not> (\<exists>t \<in> set q. timeout t \<le> now \<and> is_task_timer t)" for i
      by (force simp: due_for_def filter_mset_eq_conv filter_empty_conv)+
    then show ?thesis using unf True "1.prems" q by (auto simp: option.map_ident)
  next
    case False
    have later: "\<exists>u \<in> set rest. now < timeout u" using "1.prems"(3) q False by auto
    show ?thesis
    proof (cases "is_task_timer t")
      case True
      let ?p = "timer_push (rearmed now) rest"
      have ms: "mset ?p = add_mset (rearmed now) (mset rest)" by (rule timer_push_set)
      have set: "set ?p = insert (rearmed now) (set rest)" using arg_cong [OF ms, of set_mset] by simp
      have "due_for now i ?p = due_for now i rest" for i
        using filter_timer_push [of _ "rearmed now" rest] rearmed_later [of now] by (simp add: due_for_def)
      moreover have "due_for now i q = due_for now i rest" for i using q True by (simp add: due_for_def)
      moreover have "filter (\<lambda>t. timeout t \<le> now \<and> is_task_timer t) ?p = filter (\<lambda>t. timeout t \<le> now \<and> is_task_timer t) rest"
        using filter_timer_push [of _ "rearmed now" rest] rearmed_later [of now] by simp
      moreover have "filter_mset (\<lambda>t. now < timeout t) (mset ?p) = add_mset (rearmed now) (filter_mset (\<lambda>t. now < timeout t) (mset rest))"
        using ms rearmed_later by simp
      moreover have "tick_loop now q m b = tick_loop now ?p m True"
        using unf False True q by (simp add: rearmed_def)
      moreover have "\<exists>u \<in> set ?p. now < timeout u" using set rearmed_later by auto
      ultimately show ?thesis
        using "1.IH"(1) [OF q False True] "1.prems"(1) timer_push_sorted [OF so] q False True
        by (simp add: rearmed_def)
    next
      case nt: False
      obtain m1 e where S: "SendMessage (timer_task t) (timeout_msg t) m = Some (m1, e)" "sched_inv m1"
        "CurrentTask m1 = CurrentTask m"
        "\<And>i. map_option msgs (get_task m1 i) = map_option (\<lambda>u. msgs u @ (if i = timer_task t then [timeout_msg t] else [])) (get_task m i)"
      proof (cases "get_task m (timer_task t)")
        case None
        then show thesis
          by (intro that [of m kNoSuchTask]) (auto simp: SendMessage_def "1.prems"(1) option.map_ident split: if_splits)
      next
        case (Some u)
        from SendMessage_spec [OF "1.prems"(1) this, of "timeout_msg t"] obtain m1 where
          "SendMessage (timer_task t) (timeout_msg t) m = Some (m1, kSuccess)" "sched_inv m1"
          "CurrentTask m1 = CurrentTask m"
          "\<And>j. get_task m1 j = (if j = timer_task t then Some (u\<lparr>msgs := msgs u @ [timeout_msg t], ready_or_running := True\<rparr>) else get_task m j)"
          by blast
        then show thesis using Some by (intro that [of m1 kSuccess]) (auto simp: option.map_ident)
      qed
      have "due_for now i q = (if i = timer_task t then [t] else []) @ due_for now i rest" for i
        using q False nt by (simp add: due_for_def)
      moreover have "map_option (\<lambda>u. msgs u @ ys) (get_task m1 i)
          = map_option (\<lambda>u. msgs u @ (if i = timer_task t then [timeout_msg t] else []) @ ys) (get_task m i)" for ys i
        using S(4) [of i] by (cases "get_task m1 i"; cases "get_task m i") auto
      ultimately have "map_option (\<lambda>u. msgs u @ map timeout_msg (due_for now i rest)) (get_task m1 i)
          = map_option (\<lambda>u. msgs u @ map timeout_msg (due_for now i q)) (get_task m i)" for i
        by simp
      then show ?thesis
        using "1.IH"(2) [OF q False nt S(1) refl S(2) so later] unf False nt S(1,3) q by auto
    qed
  qed
qed

text \<open>
  C40: a tick fires exactly the timers that are due.  With a timer left for later (the sentinel of the
  constructor), \<^verbatim>\<open>Tick\<close> returns; every task gets one timeout message for each of its due timers, in
  the order of their timeouts (those of equal timers in the order in which they were added), and no other message; every due task-switch timer is re-armed for the
  period after now and nothing else is left of what was due; the result says whether there was one.
\<close>

theorem Tick_fires_due:
  assumes "reachable m" and "timers_sorted (timers tm)" and "\<exists>t \<in> set (timers tm). tick tm + 1 < timeout t"
  defines "now \<equiv> tick tm + 1"
  shows "\<exists>tm' m'. Tick tm m = Some (tm', m', \<exists>t \<in> set (timers tm). timeout t \<le> now \<and> is_task_timer t)
    \<and> tick tm' = now \<and> timers_sorted (timers tm') \<and> CurrentTask m' = CurrentTask m
    \<and> mset (timers tm') = filter_mset (\<lambda>t. now < timeout t) (mset (timers tm))
        + replicate_mset (length (filter (\<lambda>t. timeout t \<le> now \<and> is_task_timer t) (timers tm))) (rearmed now)
    \<and> (\<forall>i. map_option msgs (get_task m' i)
            = map_option (\<lambda>t. msgs t @ map timeout_msg (due_for now i (timers tm))) (get_task m i))"
proof -
  have inv: "sched_inv m"
    using assms(1) by (induction rule: reachable.induct) (use init_inv step_inv in blast)+
  from tick_loop_spec [OF inv assms(2), of now False] assms(3) obtain q' m' where
    "tick_loop now (timers tm) m False = Some (q', m', \<exists>t \<in> set (timers tm). timeout t \<le> now \<and> is_task_timer t)"
    and rest: "timers_sorted q'" "CurrentTask m' = CurrentTask m"
      "mset q' = filter_mset (\<lambda>t. now < timeout t) (mset (timers tm))
        + replicate_mset (length (filter (\<lambda>t. timeout t \<le> now \<and> is_task_timer t) (timers tm))) (rearmed now)"
      "\<forall>i. map_option msgs (get_task m' i)
            = map_option (\<lambda>t. msgs t @ map timeout_msg (due_for now i (timers tm))) (get_task m i)"
    unfolding now_def by auto
  then have "Tick tm m = Some (tm\<lparr>tick := now, timers := q'\<rparr>, m',
      \<exists>t \<in> set (timers tm). timeout t \<le> now \<and> is_task_timer t)"
    by (simp add: Tick_def now_def)
  then show ?thesis using rest
    by (intro exI [of _ "tm\<lparr>tick := now, timers := q'\<rparr>"] exI [of _ m']) simp
qed

theorem Tick_fires_due_witness:
  "\<exists>tm' m' t'. Tick (AddTimer (Timer_init 1 5 2) TimerManager_init) (TaskManager_init (\<lambda>t. t)) = Some (tm', m', False)
     \<and> get_task m' 2 = Some t' \<and> msgs t' = [timeout_msg (Timer_init 1 5 2)]"
proof -
  let ?tm = "AddTimer (Timer_init 1 5 2) TimerManager_init"
  have q: "timers ?tm = [Timer_init 1 5 2, Timer_init (2 ^ 64 - 1) 0 0]" "tick ?tm = 0"
    by (simp_all add: AddTimer_def TimerManager_init_def timer_push_def Timer_init_def)
  have "timers_sorted (timers ?tm)" "\<exists>t \<in> set (timers ?tm). tick ?tm + 1 < timeout t"
    unfolding q by (simp_all add: timers_sorted_def Timer_init_def)
  note f = Tick_fires_due [OF init_example(1) this]
  have d: "due_for 1 2 (timers ?tm) = [Timer_init 1 5 2]"
    "\<not> (\<exists>t \<in> set (timers ?tm). timeout t \<le> 1 \<and> is_task_timer t)"
    unfolding q by (simp_all add: due_for_def Timer_init_def kTaskTimerValue_def)
  from f d(2) obtain tm' m' where "Tick ?tm (TaskManager_init (\<lambda>t. t)) = Some (tm', m', False)"
    "map_option msgs (get_task m' 2) = map_option (\<lambda>t. msgs t @ map timeout_msg (due_for 1 2 (timers ?tm)))
       (get_task (TaskManager_init (\<lambda>t. t)) 2)"
    unfolding q(2) by auto
  then show ?thesis unfolding d by (auto simp: init_example Task_init_def)
qed

end
