(* ===== verification/Frames.thy ===== *)
theory Frames imports KError begin

text \<open>
  The physical page frame allocator, \<^verbatim>\<open>kernel/memory_manager.hpp\<close> and \<^verbatim>\<open>kernel/memory_manager.cpp\<close>: a
  bitmap of 64-bit lines, one bit per 4 KiB frame, a range of managed frames, first-fit
  allocation, and the construction of the bitmap from the UEFI memory map.

  A frame number is a \<open>nat\<close>: the numbers that reach the bitmap are below \<open>2 ^ 25\<close>, and one that is
  not makes the bitmap access undefined (\<open>None\<close>) before its successor could wrap.  The addresses of
  the memory map are 64-bit words, because their differences do wrap.
\<close>

section \<open>The bitmap\<close>

definition kBytesPerFrame :: nat where "kBytesPerFrame = 4096"
definition kMaxPhysicalMemoryBytes :: nat where "kMaxPhysicalMemoryBytes = 128 * 1024 * 1024 * 1024"
definition kFrameCount :: nat where "kFrameCount = kMaxPhysicalMemoryBytes div kBytesPerFrame"
definition kBitsPerMapLine :: nat where "kBitsPerMapLine = 64"
definition kNullFrame :: nat where "kNullFrame = 2 ^ 64 - 1"

record BitmapMemoryManager =
  alloc_map :: "u64 list"
  range_start :: nat
  range_end :: nat

record MemoryStat =
  allocated_frames :: nat
  total_frames :: nat

definition BitmapMemoryManager_init :: BitmapMemoryManager where
  "BitmapMemoryManager_init =
     \<lparr>alloc_map = replicate (kFrameCount div kBitsPerMapLine) 0,
      range_start = 0, range_end = kFrameCount\<rparr>"

definition GetBit :: "BitmapMemoryManager \<Rightarrow> nat \<Rightarrow> bool option" where
  "GetBit m frame = do {
     line \<leftarrow> arr_get (alloc_map m) (frame div kBitsPerMapLine);
     Some ((line AND push_bit (frame mod kBitsPerMapLine) 1) \<noteq> 0)
   }"

definition SetBit :: "BitmapMemoryManager \<Rightarrow> nat \<Rightarrow> bool \<Rightarrow> BitmapMemoryManager option" where
  "SetBit m frame allocated = do {
     let line_index = frame div kBitsPerMapLine;
     let bit_index = frame mod kBitsPerMapLine;
     line \<leftarrow> arr_get (alloc_map m) line_index;
     lines \<leftarrow> arr_set (alloc_map m) line_index
                (if allocated then line OR push_bit bit_index 1
                 else line AND NOT (push_bit bit_index 1));
     Some (m\<lparr>alloc_map := lines\<rparr>)
   }"

definition MarkAllocated ::
  "BitmapMemoryManager \<Rightarrow> nat \<Rightarrow> nat \<Rightarrow> BitmapMemoryManager option" where
  "MarkAllocated m start_frame num_frames =
     for_each (\<lambda>i m. SetBit m (start_frame + i) True) [0..<num_frames] m"

definition Free ::
  "BitmapMemoryManager \<Rightarrow> nat \<Rightarrow> nat \<Rightarrow> (error_code \<times> BitmapMemoryManager) option" where
  "Free m start_frame num_frames = do {
     m' \<leftarrow> for_each (\<lambda>i m. SetBit m (start_frame + i) False) [0..<num_frames] m;
     Some (kSuccess, m')
   }"

definition SetMemoryRange :: "BitmapMemoryManager \<Rightarrow> nat \<Rightarrow> nat \<Rightarrow> BitmapMemoryManager" where
  "SetMemoryRange m start_frame end_frame =
     m\<lparr>range_start := start_frame, range_end := end_frame\<rparr>"

text \<open>
  The inner loop of \<^verbatim>\<open>Allocate\<close>, from the index \<open>i\<close>: it runs into the end of the range
  (\<open>ScanEnd\<close>, the early return), or stops at the index of the first used frame, or at \<open>num_frames\<close>.
\<close>

datatype scan = ScanEnd | ScanStop nat

function alloc_scan ::
  "BitmapMemoryManager \<Rightarrow> nat \<Rightarrow> nat \<Rightarrow> nat \<Rightarrow> scan option" where
  "alloc_scan m start_frame_id num_frames i =
     (if i < num_frames then
        if start_frame_id + i \<ge> range_end m then Some ScanEnd
        else case GetBit m (start_frame_id + i) of
               None \<Rightarrow> None
             | Some True \<Rightarrow> Some (ScanStop i)
             | Some False \<Rightarrow> alloc_scan m start_frame_id num_frames (Suc i)
      else Some (ScanStop i))"
  by pat_completeness auto
termination by (relation "measure (\<lambda>(m, s, n, i). n - i)") auto

declare alloc_scan.simps [simp del]

function alloc_loop ::
  "BitmapMemoryManager \<Rightarrow> nat \<Rightarrow> nat \<Rightarrow> (nat WithError \<times> BitmapMemoryManager) option" where
  "alloc_loop m num_frames start_frame_id =
     (if start_frame_id < range_end m then
        case alloc_scan m start_frame_id num_frames 0 of
          None \<Rightarrow> None
        | Some ScanEnd \<Rightarrow> Some ((kNullFrame, kNoEnoughMemory), m)
        | Some (ScanStop i) \<Rightarrow>
            if i = num_frames then do {
              m' \<leftarrow> MarkAllocated m start_frame_id num_frames;
              Some ((start_frame_id, kSuccess), m')
            }
            else alloc_loop m num_frames (start_frame_id + i + 1)
      else Some ((kNullFrame, kNoEnoughMemory), m))"
  by pat_completeness auto
termination by (relation "measure (\<lambda>(m, n, s). range_end m - s)") auto

declare alloc_loop.simps [simp del]

definition Allocate ::
  "BitmapMemoryManager \<Rightarrow> nat \<Rightarrow> (nat WithError \<times> BitmapMemoryManager) option" where
  "Allocate m num_frames = alloc_loop m num_frames (range_start m)"

text \<open>
  \<^verbatim>\<open>Stat\<close> counts the bits of whole map lines: those from \<^verbatim>\<open>range_start / 64\<close> up to, not including,
  \<^verbatim>\<open>range_end / 64\<close>.
\<close>

definition popcount :: "u64 \<Rightarrow> nat" where
  "popcount w = length (filter (bit w) [0..<64])"

definition Stat :: "BitmapMemoryManager \<Rightarrow> MemoryStat option" where
  "Stat m = do {
     sum \<leftarrow> for_each (\<lambda>i sum. do { line \<leftarrow> arr_get (alloc_map m) i; Some (sum + popcount line) })
              [range_start m div kBitsPerMapLine ..< range_end m div kBitsPerMapLine] 0;
     Some \<lparr>allocated_frames = sum, total_frames = range_end m - range_start m\<rparr>
   }"

section \<open>The bitmap as a set of frames\<close>

definition allocated :: "BitmapMemoryManager \<Rightarrow> nat set" where
  "allocated m = {f. GetBit m f = Some True}"

definition bmm_limit :: "BitmapMemoryManager \<Rightarrow> nat" where
  "bmm_limit m = kBitsPerMapLine * length (alloc_map m)"

definition bmm_inv :: "BitmapMemoryManager \<Rightarrow> bool" where
  "bmm_inv m \<longleftrightarrow> range_end m \<le> bmm_limit m"

lemma line_in_map: "f < bmm_limit m \<longleftrightarrow> f div kBitsPerMapLine < length (alloc_map m)"
  by (simp add: bmm_limit_def kBitsPerMapLine_def mult.commute less_mult_imp_div_less
      div_less_iff_less_mult)

lemma GetBit_defined: "f < bmm_limit m \<Longrightarrow> GetBit m f = Some (f \<in> allocated m)"
  by (auto simp: GetBit_def allocated_def line_in_map)

lemma GetBit_undefined: "\<not> f < bmm_limit m \<Longrightarrow> GetBit m f = None"
  by (simp add: GetBit_def line_in_map)

lemma allocated_below: "f \<in> allocated m \<Longrightarrow> f < bmm_limit m"
  using GetBit_undefined by (fastforce simp: allocated_def)

lemma GetBit_bit:
  "f < bmm_limit m \<Longrightarrow>
     GetBit m f = Some (bit (alloc_map m ! (f div 64)) (f mod 64))"
  by (simp add: GetBit_def line_in_map kBitsPerMapLine_def and_exp_word)

lemma SetBit_spec:
  assumes "f < bmm_limit m"
  shows "\<exists>m'. SetBit m f v = Some m' \<and> bmm_limit m' = bmm_limit m
           \<and> range_start m' = range_start m \<and> range_end m' = range_end m
           \<and> allocated m' = (if v then insert f (allocated m) else allocated m - {f})"
proof -
  let ?l = "f div 64" and ?b = "f mod 64" and ?M = "alloc_map m"
  define line where "line = (if v then ?M ! ?l OR 2 ^ ?b else ?M ! ?l AND NOT (2 ^ ?b))"
  define m' where "m' = m\<lparr>alloc_map := ?M[?l := line]\<rparr>"
  from assms have l: "?l < length ?M" by (simp add: line_in_map kBitsPerMapLine_def)
  then have eq: "SetBit m f v = Some m'"
    by (simp add: SetBit_def m'_def line_def kBitsPerMapLine_def Let_def)
  have lim: "bmm_limit m' = bmm_limit m" by (simp add: m'_def bmm_limit_def)
  have b: "?b < LENGTH(64)" by simp
  have bits: "bit line k = (if v then k = ?b \<or> bit (?M ! ?l) k else k \<noteq> ?b \<and> bit (?M ! ?l) k)" for k
    using bit_set_word [OF b, of "?M ! ?l" k] bit_clear_word [of "?M ! ?l" ?b k]
    by (simp add: line_def)
  have "GetBit m' g = (if g = f then Some v else GetBit m g)" for g
  proof (cases "g < bmm_limit m")
    case True
    have same: "g = f \<longleftrightarrow> g div 64 = ?l \<and> g mod 64 = ?b"
      by (metis div_mult_mod_eq)
    from True l have "g div 64 < length ?M" by (simp add: line_in_map kBitsPerMapLine_def)
    with True lim same l show ?thesis
      by (auto simp: GetBit_bit m'_def nth_list_update bits)
  next
    case False
    with lim assms show ?thesis by (auto simp: GetBit_undefined)
  qed
  then have "allocated m' = (if v then insert f (allocated m) else allocated m - {f})"
    by (auto simp: allocated_def)
  with eq lim show ?thesis by (simp add: m'_def)
qed

lemma set_bits_spec:
  assumes "start + n \<le> bmm_limit m"
  shows "\<exists>m'. for_each (\<lambda>i m. SetBit m (start + i) v) [0..<n] m = Some m'
           \<and> bmm_limit m' = bmm_limit m
           \<and> range_start m' = range_start m \<and> range_end m' = range_end m
           \<and> allocated m' = (if v then allocated m \<union> {start..<start + n}
                             else allocated m - {start..<start + n})"
proof (rule for_upto_inv [where P = "\<lambda>k m'. bmm_limit m' = bmm_limit m
           \<and> range_start m' = range_start m \<and> range_end m' = range_end m
           \<and> allocated m' = (if v then allocated m \<union> {start..<start + k}
                             else allocated m - {start..<start + k})"], goal_cases)
  case 1
  show ?case by simp
next
  case (2 k m1)
  with assms have "start + k < bmm_limit m1" by simp
  from SetBit_spec [OF this, of v] obtain m2 where m2: "SetBit m1 (start + k) v = Some m2"
      "bmm_limit m2 = bmm_limit m1" "range_start m2 = range_start m1"
      "range_end m2 = range_end m1"
      "allocated m2 = (if v then insert (start + k) (allocated m1) else allocated m1 - {start + k})"
    by blast
  have "{start..<start + Suc k} = insert (start + k) {start..<start + k}" by auto
  with m2 2 show ?case by auto
qed

lemma MarkAllocated_spec:
  assumes "start + n \<le> bmm_limit m"
  obtains m' where "MarkAllocated m start n = Some m'" "bmm_limit m' = bmm_limit m"
    "range_start m' = range_start m" "range_end m' = range_end m"
    "allocated m' = allocated m \<union> {start..<start + n}"
  using set_bits_spec [OF assms, of True] by (auto simp: MarkAllocated_def)

lemma Free_spec:
  assumes "start + n \<le> bmm_limit m"
  obtains m' where "Free m start n = Some (kSuccess, m')" "bmm_limit m' = bmm_limit m"
    "range_start m' = range_start m" "range_end m' = range_end m"
    "allocated m' = allocated m - {start..<start + n}"
  using set_bits_spec [OF assms, of False] by (auto simp: Free_def)

section \<open>First-fit allocation\<close>

text \<open>\<open>free_run m s n\<close>: the \<open>n\<close> frames from \<open>s\<close> on lie inside the managed range and none is used.\<close>

definition free_run :: "BitmapMemoryManager \<Rightarrow> nat \<Rightarrow> nat \<Rightarrow> bool" where
  "free_run m s n \<longleftrightarrow> range_start m \<le> s \<and> s < range_end m \<and> s + n \<le> range_end m
     \<and> {s..<s + n} \<inter> allocated m = {}"

lemma alloc_scan_spec:
  assumes "bmm_inv m" and "i \<le> n" and "{s..<s + i} \<inter> allocated m = {}" and "s + i \<le> range_end m"
  shows "(alloc_scan m s n i = Some ScanEnd \<and> range_end m < s + n)
         \<or> (alloc_scan m s n i = Some (ScanStop n) \<and> s + n \<le> range_end m
              \<and> {s..<s + n} \<inter> allocated m = {})
         \<or> (\<exists>k < n. alloc_scan m s n i = Some (ScanStop k) \<and> s + k \<in> allocated m)"
  using assms
proof (induction m s n i rule: alloc_scan.induct)
  case (1 m s n i)
  show ?case
  proof (cases "i < n \<and> s + i < range_end m")
    case True
    with "1.prems"(1) have def: "GetBit m (s + i) = Some (s + i \<in> allocated m)"
      by (intro GetBit_defined) (simp add: bmm_inv_def)
    show ?thesis
    proof (cases "s + i \<in> allocated m")
      case True
      with def \<open>i < n \<and> _\<close> show ?thesis by (auto simp: alloc_scan.simps [of m s n i])
    next
      case False
      have "{s..<s + Suc i} = insert (s + i) {s..<s + i}" by auto
      with False "1.prems" True
      have pre: "Suc i \<le> n" "{s..<s + Suc i} \<inter> allocated m = {}" "s + Suc i \<le> range_end m" by auto
      from True False def have "alloc_scan m s n i = alloc_scan m s n (Suc i)"
        by (simp add: alloc_scan.simps [of m s n i])
      moreover from True False def have "\<not> range_end m \<le> s + i" by simp
      ultimately show ?thesis
        using "1.IH" [OF _ _ def _ "1.prems"(1) pre] True False by simp
    qed
  next
    case False
    with "1.prems" show ?thesis by (auto simp: alloc_scan.simps [of m s n i])
  qed
qed

lemma alloc_loop_spec:
  assumes "bmm_inv m" and "range_start m \<le> s" and "\<And>j. j < s \<Longrightarrow> \<not> free_run m j n"
  shows "(\<exists>id m'. alloc_loop m n s = Some ((id, kSuccess), m') \<and> free_run m id n
            \<and> (\<forall>j < id. \<not> free_run m j n) \<and> MarkAllocated m id n = Some m')
         \<or> (alloc_loop m n s = Some ((kNullFrame, kNoEnoughMemory), m)
            \<and> (\<forall>j. \<not> free_run m j n))"
  using assms
proof (induction m n s rule: alloc_loop.induct)
  case (1 m n s)
  show ?case
  proof (cases "s < range_end m")
    case False
    with "1.prems"(3) have "\<not> free_run m j n" for j
      by (cases "j < s") (auto simp: free_run_def)
    with False show ?thesis by (auto simp: alloc_loop.simps [of m n s])
  next
    case True
    from alloc_scan_spec [OF "1.prems"(1), of 0 n s] True
    consider (stop) "alloc_scan m s n 0 = Some ScanEnd" "range_end m < s + n"
      | (found) "alloc_scan m s n 0 = Some (ScanStop n)" "s + n \<le> range_end m"
          "{s..<s + n} \<inter> allocated m = {}"
      | (used) k where "k < n" "alloc_scan m s n 0 = Some (ScanStop k)" "s + k \<in> allocated m"
      by fastforce
    then show ?thesis
    proof cases
      case stop
      with "1.prems"(3) have "\<not> free_run m j n" for j
        by (cases "j < s") (auto simp: free_run_def)
      with stop True show ?thesis by (auto simp: alloc_loop.simps [of m n s])
    next
      case found
      with "1.prems"(1) have "s + n \<le> bmm_limit m" by (simp add: bmm_inv_def)
      then obtain m' where "MarkAllocated m s n = Some m'" by (rule MarkAllocated_spec)
      with found True "1.prems"(2,3) show ?thesis
        by (auto simp: alloc_loop.simps [of m n s] free_run_def)
    next
      case used
      have none: "\<not> free_run m j n" if "j < s + k + 1" for j
      proof (cases "j < s")
        case True
        with "1.prems"(3) show ?thesis by blast
      next
        case False
        with that used(1) have "s + k \<in> {j..<j + n}" by auto
        with used(3) show ?thesis by (auto simp: free_run_def)
      qed
      from used True have "alloc_loop m n s = alloc_loop m n (s + k + 1)"
        by (simp add: alloc_loop.simps [of m n s])
      moreover have "range_start m \<le> s + k + 1" using "1.prems"(2) by simp
      ultimately show ?thesis
        using "1.IH" [OF True used(2) refl _ "1.prems"(1) _ none] used(1) by simp
    qed
  qed
qed

lemma Allocate_cases [consumes 1, case_names found none]:
  assumes "bmm_inv m"
  obtains (found) fr m' where "Allocate m n = Some ((fr, kSuccess), m')" "free_run m fr n"
      "\<forall>j < fr. \<not> free_run m j n" "MarkAllocated m fr n = Some m'"
  | (none) "Allocate m n = Some ((kNullFrame, kNoEnoughMemory), m)" "\<forall>j. \<not> free_run m j n"
  using alloc_loop_spec [OF assms order_refl, of n] unfolding Allocate_def
  by (auto simp: free_run_def)

text \<open>
  C9: \<^verbatim>\<open>Allocate\<close> is first-fit and exact.  On a manager whose range lies inside the bitmap it never
  reads or writes outside the bitmap; if some run of \<open>n\<close> free frames exists inside the range it
  returns the lowest one, marks exactly those frames and leaves the range alone, and otherwise it
  returns \<^verbatim>\<open>kNullFrame\<close> with \<^verbatim>\<open>kNoEnoughMemory\<close> and changes nothing.
\<close>

theorem Allocate_first_fit:
  assumes "bmm_inv m"
  shows "case Allocate m n of
           None \<Rightarrow> False
         | Some ((fr, err), m') \<Rightarrow>
             if \<exists>j. free_run m j n
             then err = kSuccess \<and> free_run m fr n \<and> (\<forall>j < fr. \<not> free_run m j n)
                \<and> allocated m' = allocated m \<union> {fr..<fr + n} \<and> bmm_inv m'
                \<and> range_start m' = range_start m \<and> range_end m' = range_end m
             else err = kNoEnoughMemory \<and> fr = kNullFrame \<and> m' = m"
using assms
proof (cases rule: Allocate_cases [of _ n])
  case (found fr m')
  from found(2) assms have "fr + n \<le> bmm_limit m" by (simp add: free_run_def bmm_inv_def)
  then obtain m1 where "MarkAllocated m fr n = Some m1" "bmm_limit m1 = bmm_limit m"
      "range_start m1 = range_start m" "range_end m1 = range_end m"
      "allocated m1 = allocated m \<union> {fr..<fr + n}" by (rule MarkAllocated_spec)
  with found assms show ?thesis by (auto simp: bmm_inv_def)
next
  case none
  then show ?thesis by simp
qed

definition bmm_example :: BitmapMemoryManager where
  "bmm_example = \<lparr>alloc_map = [7, 0], range_start = 1, range_end = 128\<rparr>"

lemma bmm_example_inv: "bmm_inv bmm_example"
  by (simp add: bmm_example_def bmm_inv_def bmm_limit_def kBitsPerMapLine_def)

theorem Allocate_first_fit_witness:
  "case Allocate bmm_example 5 of
           None \<Rightarrow> False
         | Some ((fr, err), m') \<Rightarrow>
             if \<exists>j. free_run bmm_example j 5
             then err = kSuccess \<and> free_run bmm_example fr 5
                \<and> (\<forall>j < fr. \<not> free_run bmm_example j 5)
                \<and> allocated m' = allocated bmm_example \<union> {fr..<fr + 5} \<and> bmm_inv m'
                \<and> range_start m' = range_start bmm_example \<and> range_end m' = range_end bmm_example
             else err = kNoEnoughMemory \<and> fr = kNullFrame \<and> m' = bmm_example"
  by (rule Allocate_first_fit [OF bmm_example_inv])

lemma Allocate_Some_success:
  assumes "bmm_inv m" and "Allocate m n = Some ((frame, kSuccess), m')"
  shows "free_run m frame n" "allocated m' = allocated m \<union> {frame..<frame + n}" "bmm_limit m' = bmm_limit m"
    "range_start m' = range_start m" "range_end m' = range_end m" "bmm_inv m'"
proof -
  from assms have f: "free_run m frame n \<and> MarkAllocated m frame n = Some m'"
    by (cases rule: Allocate_cases [OF assms(1), of n]) auto
  with assms(1) have "frame + n \<le> bmm_limit m" by (simp add: free_run_def bmm_inv_def)
  then obtain m1 where "MarkAllocated m frame n = Some m1" "bmm_limit m1 = bmm_limit m"
      "range_start m1 = range_start m" "range_end m1 = range_end m"
      "allocated m1 = allocated m \<union> {frame..<frame + n}" by (rule MarkAllocated_spec)
  with f assms(1) show "free_run m frame n" "allocated m' = allocated m \<union> {frame..<frame + n}"
    "bmm_limit m' = bmm_limit m"
    "range_start m' = range_start m" "range_end m' = range_end m" "bmm_inv m'"
    by (auto simp: bmm_inv_def)
qed

section \<open>The interface of a frame allocator\<close>

text \<open>
  What the page tables rely on: \<open>used\<close> are the frames handed out, \<open>left\<close> those that can be handed out.
  A request fails, with \<open>kNoEnoughMemory\<close>, only when no run of that length is left.
\<close>

locale frame_allocator =
  fixes inv :: "'m \<Rightarrow> bool" and used :: "'m \<Rightarrow> nat set" and left :: "'m \<Rightarrow> nat set"
    and alloc :: "'m \<Rightarrow> nat \<Rightarrow> (nat WithError \<times> 'm) option"
    and release :: "'m \<Rightarrow> nat \<Rightarrow> nat \<Rightarrow> (error_code \<times> 'm) option"
  assumes alloc_law: "inv m \<Longrightarrow> \<exists>fr err m'. alloc m n = Some ((fr, err), m') \<and> inv m'
      \<and> (if err = kSuccess then {fr..<fr + n} \<inter> used m = {} \<and> used m' = used m \<union> {fr..<fr + n}
           \<and> {fr..<fr + n} \<subseteq> left m \<and> left m' = left m - {fr..<fr + n}
         else err = kNoEnoughMemory \<and> m' = m \<and> (0 < n \<longrightarrow> \<not> (\<exists>j. {j..<j + n} \<subseteq> left m)))"
    and release_law: "inv m \<Longrightarrow> {fr..<fr + n} \<subseteq> used m \<Longrightarrow>
      \<exists>m'. release m fr n = Some (kSuccess, m') \<and> inv m' \<and> used m' = used m - {fr..<fr + n}"
begin

text \<open>The two uses the page tables make of it: one frame at a time.\<close>

lemma alloc_one:
  assumes "inv m"
  shows "(\<exists>f m'. alloc m 1 = Some ((f, kSuccess), m') \<and> inv m' \<and> f \<notin> used m \<and> used m' = insert f (used m)
        \<and> f \<in> left m \<and> left m' = left m - {f})
    \<or> (\<exists>f. alloc m 1 = Some ((f, kNoEnoughMemory), m) \<and> left m = {})"
proof -
  obtain fr err m' where a: "alloc m 1 = Some ((fr, err), m')" "inv m'"
    "if err = kSuccess then {fr..<fr + 1} \<inter> used m = {} \<and> used m' = used m \<union> {fr..<fr + 1}
       \<and> {fr..<fr + 1} \<subseteq> left m \<and> left m' = left m - {fr..<fr + 1}
     else err = kNoEnoughMemory \<and> m' = m \<and> (0 < (1 :: nat) \<longrightarrow> \<not> (\<exists>j. {j..<j + 1} \<subseteq> left m))"
    using alloc_law [OF assms, of 1] by blast
  have one: "{j..<j + 1} = {j}" for j :: nat by auto
  show ?thesis
  proof (cases "err = kSuccess")
    case True
    with a show ?thesis unfolding one by auto
  next
    case False
    with a(3) have "\<not> (\<exists>j. {j} \<subseteq> left m)" unfolding one by simp
    then have "left m = {}" by blast
    with a False show ?thesis by auto
  qed
qed

lemma release_one: "inv m \<Longrightarrow> f \<in> used m \<Longrightarrow>
    \<exists>m'. release m f 1 = Some (kSuccess, m') \<and> inv m' \<and> used m' = used m - {f}"
  using release_law [of m f 1] by (auto simp: atLeastLessThanSuc)

lemma alloc_release:
  assumes "inv m" and "alloc m n = Some ((fr, kSuccess), m')"
  shows "\<exists>m''. release m' fr n = Some (kSuccess, m'') \<and> used m'' = used m"
proof -
  have a: "inv m'" "{fr..<fr + n} \<inter> used m = {}" "used m' = used m \<union> {fr..<fr + n}"
    using alloc_law [OF assms(1), of n] assms(2) by auto
  from release_law [OF a(1), of fr n] a show ?thesis by auto
qed

end

definition free_frames :: "BitmapMemoryManager \<Rightarrow> nat set" where
  "free_frames m = {range_start m..<range_end m} - allocated m"

lemma finite_free_frames [simp]: "finite (free_frames m)"
  by (simp add: free_frames_def)

lemma free_run_iff: "0 < n \<Longrightarrow> free_run m j n \<longleftrightarrow> {j..<j + n} \<subseteq> free_frames m"
proof -
  assume n: "0 < n"
  show ?thesis
  proof
    assume "{j..<j + n} \<subseteq> free_frames m"
    moreover have "j \<in> {j..<j + n}" "j + n - 1 \<in> {j..<j + n}" using n by auto
    ultimately have "j \<in> free_frames m" "j + n - 1 \<in> free_frames m" "{j..<j + n} \<inter> allocated m = {}"
      by (blast, blast, auto simp: free_frames_def)
    then show "free_run m j n" using n by (auto simp: free_run_def free_frames_def)
  qed (auto simp: free_run_def free_frames_def)
qed

interpretation fa: frame_allocator bmm_inv allocated free_frames Allocate Free
proof
  fix m n fr
  assume i: "bmm_inv m"
  show "\<exists>fr err m'. Allocate m n = Some ((fr, err), m') \<and> bmm_inv m'
      \<and> (if err = kSuccess then {fr..<fr + n} \<inter> allocated m = {} \<and> allocated m' = allocated m \<union> {fr..<fr + n}
           \<and> {fr..<fr + n} \<subseteq> free_frames m \<and> free_frames m' = free_frames m - {fr..<fr + n}
         else err = kNoEnoughMemory \<and> m' = m \<and> (0 < n \<longrightarrow> \<not> (\<exists>j. {j..<j + n} \<subseteq> free_frames m)))"
    using i
  proof (cases rule: Allocate_cases [of _ n])
    case (found fr m')
    then show ?thesis using Allocate_Some_success [OF i found(1)] by (auto simp: free_run_def free_frames_def)
  next
    case none
    then show ?thesis using i free_run_iff [of n m] by auto
  qed
  show "{fr..<fr + n} \<subseteq> allocated m \<Longrightarrow>
      \<exists>m'. Free m fr n = Some (kSuccess, m') \<and> bmm_inv m' \<and> allocated m' = allocated m - {fr..<fr + n}"
  proof -
    assume u: "{fr..<fr + n} \<subseteq> allocated m"
    show ?thesis
    proof (cases "n = 0")
      case True
      then show ?thesis using i by (simp add: Free_def)
    next
      case False
      then have "fr + n - 1 \<in> allocated m" using u by auto
      then have "fr + n \<le> bmm_limit m" using allocated_below False by fastforce
      then obtain m' where "Free m fr n = Some (kSuccess, m')" "bmm_limit m' = bmm_limit m"
        "range_start m' = range_start m" "range_end m' = range_end m"
        "allocated m' = allocated m - {fr..<fr + n}" by (rule Free_spec)
      with i show ?thesis by (simp add: bmm_inv_def)
    qed
  qed
qed

text \<open>
  freeing what \<^verbatim>\<open>Allocate\<close> returned gives back exactly the frames that were used before, and
  the same request then returns the same frames again.
\<close>

theorem Free_undoes_Allocate:
  assumes "bmm_inv m" and "Allocate m n = Some ((frame, kSuccess), m')"
  shows "\<exists>m''. Free m' frame n = Some (kSuccess, m'') \<and> allocated m'' = allocated m
           \<and> bmm_inv m'' \<and> (\<exists>m3. Allocate m'' n = Some ((frame, kSuccess), m3))"
proof -
  note s = Allocate_Some_success [OF assms]
  from s(1) assms(1) have "frame + n \<le> bmm_limit m'" by (simp add: s free_run_def bmm_inv_def)
  then obtain m'' where m'': "Free m' frame n = Some (kSuccess, m'')" "bmm_limit m'' = bmm_limit m'"
      "range_start m'' = range_start m'" "range_end m'' = range_end m'"
      "allocated m'' = allocated m' - {frame..<frame + n}" by (rule Free_spec)
  from s m'' have al: "allocated m'' = allocated m" by (auto simp: free_run_def)
  from s m'' have inv: "bmm_inv m''" by (simp add: bmm_inv_def)
  have fr: "free_run m'' j k = free_run m j k" for j k using s m'' al by (simp add: free_run_def)
  have lo: "\<forall>j < frame. \<not> free_run m j n"
    using assms by (cases rule: Allocate_cases [OF assms(1), of n]) auto
  have "\<exists>m3. Allocate m'' n = Some ((frame, kSuccess), m3)"
  using inv
proof (cases rule: Allocate_cases [of _ n])
    case (found id2 m2)
    with fr lo s(1) have "id2 = frame" by (metis linorder_neqE_nat)
    with found show ?thesis by simp
  next
    case none
    with fr s(1) show ?thesis by simp
  qed
  with m''(1) al inv show ?thesis by blast
qed

theorem Free_undoes_Allocate_witness:
  "\<exists>frame m' m''. Allocate bmm_example 5 = Some ((frame, kSuccess), m')
     \<and> Free m' frame 5 = Some (kSuccess, m'') \<and> allocated m'' = allocated bmm_example"
proof -
  have "GetBit bmm_example f = Some (f < 3)" if "f \<in> {1..<8}" for f
  proof -
    from that have "f \<in> {1, 2, 3, 4, 5, 6, 7}" by auto
    then show ?thesis by (auto simp: GetBit_def bmm_example_def kBitsPerMapLine_def)
  qed
  then have "f \<in> allocated bmm_example \<longleftrightarrow> f < 3" if "f \<in> {1..<8}" for f
    using that by (auto simp: allocated_def)
  then have "free_run bmm_example 3 5" by (auto simp: free_run_def bmm_example_def)
  then obtain frame m' where a: "Allocate bmm_example 5 = Some ((frame, kSuccess), m')"
    by (cases rule: Allocate_cases [OF bmm_example_inv, of 5]) auto
  from Free_undoes_Allocate [OF bmm_example_inv a] a show ?thesis by blast
qed

section \<open>Building the bitmap from the UEFI memory map\<close>

text \<open>
  The buffer of the memory map is the list of its descriptors.  A memory type is its number, as in
  the descriptor; \<open>IsAvailable\<close> accepts the boot services code (3) and data (4) and conventional
  memory (7).
\<close>

record MemoryDescriptor =
  desc_type :: u32
  physical_start :: u64
  virtual_start :: u64
  number_of_pages :: u64
  attribute :: u64

definition kEfiBootServicesCode :: u32 where "kEfiBootServicesCode = 3"
definition kEfiBootServicesData :: u32 where "kEfiBootServicesData = 4"
definition kEfiConventionalMemory :: u32 where "kEfiConventionalMemory = 7"

definition IsAvailable :: "u32 \<Rightarrow> bool" where
  "IsAvailable t \<longleftrightarrow> t = kEfiBootServicesCode \<or> t = kEfiBootServicesData
     \<or> t = kEfiConventionalMemory"

definition kUEFIPageSize :: u64 where "kUEFIPageSize = 4096"

text \<open>One iteration of the loop of \<^verbatim>\<open>InitializeMemoryManager\<close>; the state is \<open>available_end\<close> and the manager.\<close>

definition memory_map_step ::
  "MemoryDescriptor \<Rightarrow> u64 \<times> BitmapMemoryManager \<Rightarrow> (u64 \<times> BitmapMemoryManager) option" where
  "memory_map_step desc st = (case st of (available_end, m) \<Rightarrow>
     let physical_end = physical_start desc + number_of_pages desc * kUEFIPageSize in
     if IsAvailable (desc_type desc) then do {
       m' \<leftarrow> (if available_end < physical_start desc
             then MarkAllocated m (unat (available_end div 4096))
                    (unat ((physical_start desc - available_end) div 4096))
             else Some m);
       Some (physical_end, m')
     }
     else do {
       m' \<leftarrow> MarkAllocated m (unat (available_end div 4096))
              (unat ((physical_end - available_end) div 4096));
       Some (available_end, m')
     })"

definition kHeapFrames :: nat where "kHeapFrames = 64 * 512"

text \<open>The heap is the range between the two program breaks.\<close>

definition InitializeHeap ::
  "BitmapMemoryManager \<Rightarrow> (error_code + (u64 \<times> u64 \<times> BitmapMemoryManager)) option" where
  "InitializeHeap m = (case Allocate m kHeapFrames of
     None \<Rightarrow> None
   | Some ((heap_start, err), m') \<Rightarrow>
       if err \<noteq> kSuccess then Some (Inl err)
       else let program_break = of_nat (heap_start * kBytesPerFrame) in
            Some (Inr (program_break, program_break + of_nat (kHeapFrames * kBytesPerFrame), m')))"

text \<open>\<open>Inl\<close> is the endless \<^verbatim>\<open>hlt\<close> loop after the error was logged.\<close>

definition InitializeMemoryManager ::
  "MemoryDescriptor list \<Rightarrow> (error_code + (u64 \<times> u64 \<times> BitmapMemoryManager)) option" where
  "InitializeMemoryManager memory_map = do {
     st \<leftarrow> for_each memory_map_step memory_map (0, BitmapMemoryManager_init);
     InitializeHeap (SetMemoryRange (snd st) 1 (unat (fst st div 4096)))
   }"

text \<open>
  \<open>map_ok lim a ds\<close>: the map is one the loop is written for: descriptors in address order without
  overlap, page aligned (the firmware's guarantee), ending below the frame \<open>lim\<close>.  \<open>map_frames d\<close>
  are the frames of a descriptor and \<open>available_frames\<close> those of the available ones.
\<close>

definition map_frames :: "MemoryDescriptor \<Rightarrow> nat set" where
  "map_frames d = {unat (physical_start d) div 4096 ..<
                   unat (physical_start d) div 4096 + unat (number_of_pages d)}"

definition available_frames :: "MemoryDescriptor list \<Rightarrow> nat set" where
  "available_frames ds = \<Union>(map_frames ` {d \<in> set ds. IsAvailable (desc_type d)})"

fun map_ok :: "nat \<Rightarrow> nat \<Rightarrow> MemoryDescriptor list \<Rightarrow> bool" where
  "map_ok lim a [] = True"
| "map_ok lim a (d # ds) \<longleftrightarrow>
     unat (physical_start d) mod 4096 = 0 \<and> a \<le> unat (physical_start d) div 4096
     \<and> unat (physical_start d) div 4096 + unat (number_of_pages d) \<le> lim
     \<and> map_ok lim (unat (physical_start d) div 4096 + unat (number_of_pages d)) ds"

lemma map_end_unat:
  assumes "unat (physical_start d) mod 4096 = 0"
    and "unat (physical_start d) div 4096 + unat (number_of_pages d) \<le> lim" and "lim \<le> 2 ^ 51"
  shows "unat (physical_start d + number_of_pages d * kUEFIPageSize)
         = 4096 * (unat (physical_start d) div 4096 + unat (number_of_pages d))"
proof -
  let ?s = "unat (physical_start d)" and ?p = "unat (number_of_pages d)"
  have s: "?s = 4096 * (?s div 4096)" using div_mult_mod_eq [of ?s 4096] assms(1) by simp
  have "?s + ?p * 4096 \<le> 4096 * 2 ^ 51" using assms(2,3) s by linarith
  then have "?s + ?p * 4096 < 2 ^ 64" by simp
  then have "unat (physical_start d + number_of_pages d * kUEFIPageSize) = ?s + ?p * 4096"
    by (simp add: unat_word_ariths kUEFIPageSize_def)
  with s show ?thesis by simp
qed

lemma unat_page_diff:
  assumes "unat (e :: u64) = 4096 * a" "unat (f :: u64) = 4096 * b" "a \<le> b"
  shows "unat (e div 4096) = a" "unat ((f - e) div 4096) = b - a" "e < f \<longleftrightarrow> a < b"
proof -
  have "e \<le> f" using assms by (simp add: word_le_nat_alt)
  then have "unat (f - e) = 4096 * (b - a)" using assms by (simp add: unat_sub diff_mult_distrib2)
  then show "unat ((f - e) div 4096) = b - a" by (simp add: unat_div)
  show "unat (e div 4096) = a" using assms by (simp add: unat_div)
  show "e < f \<longleftrightarrow> a < b" using assms by (simp add: word_less_nat_alt)
qed

text \<open>
  The loop invariant: \<open>a\<close> is the frame after the last descriptor, \<open>available_end\<close> the end of the
  last available one; below it exactly the frames of no available descriptor are marked, and
  nothing is marked from \<open>a\<close> on.
\<close>

definition map_inv ::
  "nat \<Rightarrow> nat \<Rightarrow> nat set \<Rightarrow> u64 \<times> BitmapMemoryManager \<Rightarrow> bool" where
  "map_inv lim a A st \<longleftrightarrow> (\<exists>e. unat (fst st) = 4096 * e \<and> e \<le> a \<and> bmm_limit (snd st) = lim
     \<and> {..<e} - A \<subseteq> allocated (snd st) \<and> allocated (snd st) \<inter> A = {}
     \<and> allocated (snd st) \<subseteq> {..<a} \<and> A \<subseteq> {..<e})"

lemma map_invI [inv_intros]:
  "unat av = 4096 * e \<Longrightarrow> e \<le> a \<Longrightarrow> bmm_limit m = lim \<Longrightarrow> {..<e} - A \<subseteq> allocated m
   \<Longrightarrow> allocated m \<inter> A = {} \<Longrightarrow> allocated m \<subseteq> {..<a} \<Longrightarrow> A \<subseteq> {..<e} \<Longrightarrow> map_inv lim a A (av, m)"
  by (auto simp: map_inv_def)

lemma memory_map_step_inv:
  assumes "map_inv lim a A st" and "lim \<le> 2 ^ 51" and "map_ok lim a (d # ds)"
  shows "\<exists>st'. memory_map_step d st = Some st'
           \<and> map_inv lim (unat (physical_start d) div 4096 + unat (number_of_pages d))
               (A \<union> (if IsAvailable (desc_type d) then map_frames d else {})) st'"
proof -
  obtain av m where st: "st = (av, m)" by (cases st)
  from assms(1) st obtain e where e: "unat av = 4096 * e" "e \<le> a" "bmm_limit m = lim"
      "{..<e} - A \<subseteq> allocated m" "allocated m \<inter> A = {}" "allocated m \<subseteq> {..<a}" "A \<subseteq> {..<e}"
    by (auto simp: map_inv_def)
  define s where "s = unat (physical_start d) div 4096"
  define z where "z = s + unat (number_of_pages d)"
  from assms(3) have d: "unat (physical_start d) = 4096 * s" "a \<le> s" "z \<le> lim" "s \<le> z"
    by (auto simp: s_def z_def)
  have pe: "unat (physical_start d + number_of_pages d * kUEFIPageSize) = 4096 * z"
    using map_end_unat [OF _ _ assms(2), of d] assms(3) by (simp only: map_ok.simps s_def z_def)
  have fr: "map_frames d = {s..<z}" by (simp add: map_frames_def s_def z_def)
  show ?thesis
  proof (cases "IsAvailable (desc_type d)")
    case True
    obtain m' where m': "memory_map_step d st = Some (physical_start d + number_of_pages d * kUEFIPageSize, m')"
        "bmm_limit m' = lim" "allocated m' = allocated m \<union> {e..<s}"
    proof (cases "e < s")
      case es: True
      have "e + (s - e) \<le> bmm_limit m" using es d e(3) by simp
      then obtain m1 where "MarkAllocated m e (s - e) = Some m1" "bmm_limit m1 = bmm_limit m"
          "allocated m1 = allocated m \<union> {e..<e + (s - e)}" by (rule MarkAllocated_spec)
      with es True st e(3) that show thesis
        by (simp add: memory_map_step_def Let_def unat_page_diff [OF e(1) d(1)])
    next
      case False
      with d e have "e = s" by simp
      with True st e(3) that show thesis
        by (simp add: memory_map_step_def Let_def unat_page_diff [OF e(1) d(1)])
    qed
    have "map_inv lim z (A \<union> {s..<z}) (physical_start d + number_of_pages d * kUEFIPageSize, m')"
    proof (rule map_invI [of _ z])
      show "{..<z} - (A \<union> {s..<z}) \<subseteq> allocated m'"
      proof
        fix x assume "x \<in> {..<z} - (A \<union> {s..<z})"
        then have "x \<notin> A" "x < s" by auto
        with e(4) show "x \<in> allocated m'" by (cases "x < e") (auto simp: m'(3))
      qed
      show "allocated m' \<inter> (A \<union> {s..<z}) = {}" using m'(3) e d by force
      show "allocated m' \<subseteq> {..<z}" using m'(3) e d by force
      show "A \<union> {s..<z} \<subseteq> {..<z}" using e d by force
    qed (use pe m' in simp_all)
    with m' True fr show ?thesis by (auto simp: s_def z_def)
  next
    case False
    have ez: "e \<le> z" using e(2) d by simp
    then have "e + (z - e) \<le> bmm_limit m" using e(3) d(3) by simp
    then obtain m1 where m1: "MarkAllocated m e (z - e) = Some m1" "bmm_limit m1 = bmm_limit m"
        "allocated m1 = allocated m \<union> {e..<e + (z - e)}" by (rule MarkAllocated_spec)
    then have "memory_map_step d st = Some (av, m1)"
      using False st by (simp add: memory_map_step_def Let_def unat_page_diff [OF e(1) pe ez])
    moreover have "map_inv lim z A (av, m1)"
    proof (rule map_invI [of _ e])
      show "{..<e} - A \<subseteq> allocated m1" using m1(3) e(4) by force
      show "allocated m1 \<inter> A = {}" using m1(3) e by force
      show "allocated m1 \<subseteq> {..<z}" using m1(3) e d ez by force
    qed (use e ez m1 in simp_all)
    ultimately show ?thesis using False by (auto simp: s_def z_def)
  qed
qed

lemma memory_map_loop:
  assumes "map_inv lim a A st" and "lim \<le> 2 ^ 51" and "map_ok lim a ds"
  shows "\<exists>st' a'. for_each memory_map_step ds st = Some st' \<and> a' \<le> max a lim
           \<and> map_inv lim a' (A \<union> available_frames ds) st'"
  using assms
proof (induction ds arbitrary: a A st)
  case Nil
  then show ?case by (intro exI [of _ st] exI [of _ a]) (simp add: available_frames_def)
next
  case (Cons d ds)
  let ?z = "unat (physical_start d) div 4096 + unat (number_of_pages d)"
  let ?A = "A \<union> (if IsAvailable (desc_type d) then map_frames d else {})"
  from memory_map_step_inv [OF Cons.prems] obtain st1 where
    s1: "memory_map_step d st = Some st1" "map_inv lim ?z ?A st1" by blast
  have ok: "map_ok lim ?z ds" "?z \<le> lim" using Cons.prems(3) by simp_all
  from Cons.IH [OF s1(2) Cons.prems(2) ok(1)] obtain st2 a2 where
    s2: "for_each memory_map_step ds st1 = Some st2" "a2 \<le> max ?z lim"
      "map_inv lim a2 (?A \<union> available_frames ds) st2" by blast
  have "?A \<union> available_frames ds = A \<union> available_frames (d # ds)"
    by (auto simp: available_frames_def)
  with s1 s2 ok show ?case by (intro exI [of _ st2] exI [of _ a2]) auto
qed

lemma kFrameCount_eq: "kFrameCount = 33554432"
  by (simp add: kFrameCount_def kMaxPhysicalMemoryBytes_def kBytesPerFrame_def)

lemma BitmapMemoryManager_init_state:
  "bmm_limit BitmapMemoryManager_init = kFrameCount" "allocated BitmapMemoryManager_init = {}"
proof -
  show lim: "bmm_limit BitmapMemoryManager_init = kFrameCount"
    by (simp add: bmm_limit_def BitmapMemoryManager_init_def kFrameCount_eq kBitsPerMapLine_def)
  have "f \<notin> allocated BitmapMemoryManager_init" for f
  proof (cases "f < kFrameCount")
    case True
    then have "f div 64 < 524288" by (simp add: kFrameCount_eq)
    with True have "GetBit BitmapMemoryManager_init f = Some False"
      by (subst GetBit_bit)
        (simp_all add: lim kFrameCount_eq, simp add: BitmapMemoryManager_init_def kFrameCount_eq
          kBitsPerMapLine_def)
    then show ?thesis by (simp add: allocated_def)
  next
    case False
    then show ?thesis by (simp add: allocated_def GetBit_undefined lim)
  qed
  then show "allocated BitmapMemoryManager_init = {}" by blast
qed

lemma SetMemoryRange_state [simp]:
  "allocated (SetMemoryRange m a b) = allocated m" "bmm_limit (SetMemoryRange m a b) = bmm_limit m"
  "range_start (SetMemoryRange m a b) = a" "range_end (SetMemoryRange m a b) = b"
  by (simp_all add: SetMemoryRange_def allocated_def GetBit_def bmm_limit_def)

lemma memory_map_result:
  assumes "map_ok kFrameCount 0 ds"
  obtains av m where "for_each memory_map_step ds (0, BitmapMemoryManager_init) = Some (av, m)"
    "bmm_limit m = kFrameCount" "unat (av div 4096) \<le> kFrameCount"
    "allocated m \<inter> {..<unat (av div 4096)} = {..<unat (av div 4096)} - available_frames ds"
    "available_frames ds \<subseteq> {..<unat (av div 4096)}"
proof -
  have "map_inv kFrameCount 0 {} (0, BitmapMemoryManager_init)"
    by (rule map_invI [of _ 0]) (simp_all add: BitmapMemoryManager_init_state)
  from memory_map_loop [OF this _ assms] obtain av m a where
    r: "for_each memory_map_step ds (0, BitmapMemoryManager_init) = Some (av, m)"
      "a \<le> kFrameCount" "map_inv kFrameCount a (available_frames ds) (av, m)"
    by (auto simp: kFrameCount_eq)
  then obtain e where e: "unat av = 4096 * e" "e \<le> a" "bmm_limit m = kFrameCount"
      "{..<e} - available_frames ds \<subseteq> allocated m" "allocated m \<inter> available_frames ds = {}"
      "available_frames ds \<subseteq> {..<e}" by (auto simp: map_inv_def)
  have "unat (av div 4096) = e" using e(1) by (simp add: unat_div)
  with r e show thesis by (intro that [of av m]) auto
qed

text \<open>A run of frames long enough for the heap; frame 0 is never handed out.\<close>

definition heap_run :: "MemoryDescriptor list \<Rightarrow> nat \<Rightarrow> bool" where
  "heap_run ds h \<longleftrightarrow> 1 \<le> h \<and> {h..<h + kHeapFrames} \<subseteq> available_frames ds"

text \<open>
  C2: on a memory map in address order that describes no more memory than the bitmap has bits for,
  \<^verbatim>\<open>InitializeMemoryManager\<close> stays inside the bitmap.  It halts exactly when no 128 MiB of available
  memory are in one piece; otherwise the heap is the first such piece, and afterwards the frames
  marked as used below the end of the range are exactly those of no available descriptor, and the heap.
\<close>

theorem InitializeMemoryManager_marks_exactly:
  assumes "map_ok kFrameCount 0 ds"
  shows "case InitializeMemoryManager ds of
           None \<Rightarrow> False
         | Some (Inl err) \<Rightarrow> err = kNoEnoughMemory \<and> (\<forall>h. \<not> heap_run ds h)
         | Some (Inr (program_break, program_break_end, m)) \<Rightarrow>
             \<exists>h. heap_run ds h \<and> (\<forall>h' < h. \<not> heap_run ds h')
               \<and> unat program_break = h * 4096 \<and> unat program_break_end = (h + kHeapFrames) * 4096
               \<and> bmm_inv m \<and> range_start m = 1
               \<and> available_frames ds \<subseteq> {..<range_end m}
               \<and> allocated m \<inter> {..<range_end m}
                   = ({..<range_end m} - available_frames ds) \<union> {h..<h + kHeapFrames}"
proof -
  obtain av m where r: "for_each memory_map_step ds (0, BitmapMemoryManager_init) = Some (av, m)"
    "bmm_limit m = kFrameCount" "unat (av div 4096) \<le> kFrameCount"
    "allocated m \<inter> {..<unat (av div 4096)} = {..<unat (av div 4096)} - available_frames ds"
    "available_frames ds \<subseteq> {..<unat (av div 4096)}" by (rule memory_map_result [OF assms])
  define m0 where "m0 = SetMemoryRange m 1 (unat (av div 4096))"
  have inv: "bmm_inv m0" using r by (simp add: bmm_inv_def m0_def)
  have init: "InitializeMemoryManager ds = InitializeHeap m0"
    using r by (simp add: InitializeMemoryManager_def m0_def)
  have run: "free_run m0 h kHeapFrames \<longleftrightarrow> heap_run ds h" for h
  proof
    assume f: "free_run m0 h kHeapFrames"
    then have "{h..<h + kHeapFrames} \<subseteq> {..<unat (av div 4096)}" "{h..<h + kHeapFrames} \<inter> allocated m = {}" "1 \<le> h"
      by (auto simp: free_run_def m0_def)
    with r(4) show "heap_run ds h" by (fastforce simp: heap_run_def)
  next
    assume h: "heap_run ds h"
    then have "{h..<h + kHeapFrames} \<subseteq> {..<unat (av div 4096)}" using r(5) by (auto simp: heap_run_def)
    moreover have "h + kHeapFrames - 1 \<in> {h..<h + kHeapFrames}" by (simp add: kHeapFrames_def)
    with calculation have "h + kHeapFrames - 1 < unat (av div 4096)" by blast
    moreover have "{h..<h + kHeapFrames} \<inter> allocated m = {}" using h calculation(1) r(4) unfolding heap_run_def by blast
    ultimately show "free_run m0 h kHeapFrames" using h by (simp add: free_run_def m0_def heap_run_def kHeapFrames_def)
  qed
  show ?thesis using inv
  proof (cases rule: Allocate_cases [of _ kHeapFrames])
    case none
    then show ?thesis by (simp add: init InitializeHeap_def run)
  next
    case (found h m1)
    note s = Allocate_Some_success [OF inv found(1)]
    have b: "h + kHeapFrames \<le> kFrameCount" using found(2) r by (simp add: free_run_def m0_def)
    have h1: "1 \<le> h" using found(2) by (simp add: free_run_def m0_def)
    define pb where "pb = (of_nat (h * kBytesPerFrame) :: u64)"
    define pbe where "pbe = pb + of_nat (kHeapFrames * kBytesPerFrame)"
    have u: "unat pb = h * 4096"
      unfolding pb_def using b by (subst unat_of_nat) (simp add: kFrameCount_eq kBytesPerFrame_def)
    have u2: "unat pbe = (h + kHeapFrames) * 4096"
      using b by (simp add: pbe_def kFrameCount_eq unat_word_ariths u kHeapFrames_def
          kBytesPerFrame_def)
    have end_le: "h + kHeapFrames \<le> unat (av div 4096)"
      using found(2) by (simp add: free_run_def m0_def)
    have first: "heap_run ds h" "\<forall>h' < h. \<not> heap_run ds h'" using found(2,3) by (simp_all add: run)
    have al: "allocated m1 \<inter> {..<unat (av div 4096)}
        = ({..<unat (av div 4096)} - available_frames ds) \<union> {h..<h + kHeapFrames}"
    proof -
      have "{h..<h + kHeapFrames} \<inter> {..<unat (av div 4096)} = {h..<h + kHeapFrames}"
        using end_le by auto
      then show ?thesis by (simp only: s(2) m0_def SetMemoryRange_state Int_Un_distrib2 r(4))
    qed
    have res: "InitializeMemoryManager ds = Some (Inr (pb, pbe, m1))"
      using found(1) by (simp add: init InitializeHeap_def pbe_def pb_def Let_def)
    have re: "unat (av div 4096) = range_end m1" and rs: "range_start m1 = 1"
      by (simp_all add: s m0_def)
    show ?thesis
      unfolding res option.case sum.case prod.case
      by (intro exI [of _ h] conjI) (fact first u u2 s(6) rs al [unfolded re] r(5) [unfolded re])+
  qed
qed

theorem InitializeMemoryManager_marks_exactly_witness:
  "let ds = [\<lparr>desc_type = 7, physical_start = 0, virtual_start = 0, number_of_pages = 160,
              attribute = 15\<rparr>,
             \<lparr>desc_type = 0, physical_start = 0xA0000, virtual_start = 0, number_of_pages = 96,
              attribute = 0\<rparr>,
             \<lparr>desc_type = 7, physical_start = 0x100000, virtual_start = 0, number_of_pages = 65536,
              attribute = 15\<rparr>]
   in map_ok kFrameCount 0 ds
      \<and> (case InitializeMemoryManager ds of
           None \<Rightarrow> False
         | Some (Inl err) \<Rightarrow> err = kNoEnoughMemory \<and> (\<forall>h. \<not> heap_run ds h)
         | Some (Inr (program_break, program_break_end, m)) \<Rightarrow>
             \<exists>h. heap_run ds h \<and> (\<forall>h' < h. \<not> heap_run ds h')
               \<and> unat program_break = h * 4096 \<and> unat program_break_end = (h + kHeapFrames) * 4096
               \<and> bmm_inv m \<and> range_start m = 1
               \<and> available_frames ds \<subseteq> {..<range_end m}
               \<and> allocated m \<inter> {..<range_end m}
                   = ({..<range_end m} - available_frames ds) \<union> {h..<h + kHeapFrames})"
  unfolding Let_def
  by (intro conjI InitializeMemoryManager_marks_exactly)
    (simp_all add: kFrameCount_eq)

end
