(* ===== verification/Paging.thy ===== *)
theory Paging imports Frames Task_Manager Fat_File begin

text \<open>
  Paging, \<^verbatim>\<open>kernel/paging.hpp\<close> and \<^verbatim>\<open>kernel/paging.cpp\<close>.

  Physical memory is identity mapped, so a pointer to a page table is the number of its frame.  The
  memory has two views of a frame: the table of 512 entries and the page of 4096 bytes; a frame is
  used in one of the two.  The unions over a 64-bit word are records of their bit fields, with the
  functions to and from the word.
\<close>

section \<open>Linear addresses\<close>

record LinearAddress4Level =
  offset :: nat
  page :: nat
  dir :: nat
  pdp :: nat
  pml4 :: nat
  high16 :: nat

definition la_of :: "nat \<Rightarrow> LinearAddress4Level" where
  "la_of v = \<lparr>offset = v mod 2 ^ 12, page = v div 2 ^ 12 mod 2 ^ 9, dir = v div 2 ^ 21 mod 2 ^ 9,
     pdp = v div 2 ^ 30 mod 2 ^ 9, pml4 = v div 2 ^ 39 mod 2 ^ 9, high16 = v div 2 ^ 48 mod 2 ^ 16\<rparr>"

definition la_value :: "LinearAddress4Level \<Rightarrow> nat" where
  "la_value a = offset a + 2 ^ 12 * (page a + 2 ^ 9 * (dir a + 2 ^ 9 * (pdp a + 2 ^ 9 * (pml4 a + 2 ^ 9 * high16 a))))"

definition Part :: "LinearAddress4Level \<Rightarrow> nat \<Rightarrow> nat" where
  "Part a page_map_level = (if page_map_level = 0 then offset a else if page_map_level = 1 then page a
     else if page_map_level = 2 then dir a else if page_map_level = 3 then pdp a
     else if page_map_level = 4 then pml4 a else 0)"

definition SetPart :: "nat \<Rightarrow> nat \<Rightarrow> LinearAddress4Level \<Rightarrow> LinearAddress4Level" where
  "SetPart page_map_level value a = (if page_map_level = 0 then a\<lparr>offset := value mod 2 ^ 12\<rparr>
     else if page_map_level = 1 then a\<lparr>page := value mod 2 ^ 9\<rparr>
     else if page_map_level = 2 then a\<lparr>dir := value mod 2 ^ 9\<rparr>
     else if page_map_level = 3 then a\<lparr>pdp := value mod 2 ^ 9\<rparr>
     else if page_map_level = 4 then a\<lparr>pml4 := value mod 2 ^ 9\<rparr> else a)"

section \<open>Page tables\<close>

record PageMapEntry =
  present :: bool
  writable :: bool
  user :: bool
  write_through :: bool
  cache_disable :: bool
  accessed :: bool
  dirty :: bool
  huge_page :: bool
  global_page :: bool
  addr :: nat

definition zero_entry :: PageMapEntry where
  "zero_entry = \<lparr>present = False, writable = False, user = False, write_through = False,
     cache_disable = False, accessed = False, dirty = False, huge_page = False, global_page = False, addr = 0\<rparr>"

definition Pointer :: "PageMapEntry \<Rightarrow> nat" where
  "Pointer e = addr e"

definition SetPointer :: "nat \<Rightarrow> PageMapEntry \<Rightarrow> PageMapEntry" where
  "SetPointer p e = e\<lparr>addr := p mod 2 ^ 40\<rparr>"

record paging =
  manager :: BitmapMemoryManager
  tables :: "nat \<Rightarrow> PageMapEntry list"
  pages :: "nat \<Rightarrow> u8 list"

definition set_entry :: "nat \<Rightarrow> nat \<Rightarrow> PageMapEntry \<Rightarrow> paging \<Rightarrow> paging" where
  "set_entry t i e s = s\<lparr>tables := (tables s)(t := (tables s t)[i := e])\<rparr>"

definition NewPageMap :: "paging \<Rightarrow> (paging \<times> (error_code + nat)) option" where
  "NewPageMap s = (case Allocate (manager s) 1 of
     None \<Rightarrow> None
   | Some ((frame, err), m) \<Rightarrow>
       if err \<noteq> kSuccess then Some (s\<lparr>manager := m\<rparr>, Inl err)
       else Some (s\<lparr>manager := m, tables := (tables s)(frame := replicate 512 zero_entry),
                    pages := (pages s)(frame := replicate 4096 0)\<rparr>, Inr frame))"

definition free_frame :: "nat \<Rightarrow> paging \<Rightarrow> (error_code \<times> paging) option" where
  "free_frame f s = map_option (\<lambda>(err, m). (err, s\<lparr>manager := m\<rparr>)) (Free (manager s) f 1)"

definition FreePageMap :: "nat \<Rightarrow> paging \<Rightarrow> (error_code \<times> paging) option" where
  "FreePageMap t s = free_frame t s"

definition SetNewPageMapIfNotPresent :: "nat \<Rightarrow> nat \<Rightarrow> paging \<Rightarrow> (paging \<times> (error_code + nat)) option" where
  "SetNewPageMapIfNotPresent t i s = do {
     ent \<leftarrow> arr_get (tables s t) i;
     if present ent then Some (s, Inr (Pointer ent))
     else do {
       (s, r) \<leftarrow> NewPageMap s;
       case r of
         Inl err \<Rightarrow> Some (s, Inl err)
       | Inr child_map \<Rightarrow>
           Some (set_entry t i ((SetPointer child_map ent)\<lparr>present := True\<rparr>) s, Inr child_map)
     }
   }"

text \<open>The end of an iteration of \<^verbatim>\<open>SetupPageMap\<close>: the next entry, from its first page on.\<close>

definition next_entry :: "nat \<Rightarrow> nat \<Rightarrow> LinearAddress4Level \<Rightarrow> LinearAddress4Level" where
  "next_entry lv entry_index a =
     fold (\<lambda>l a. SetPart l 0 a) (rev [1..<lv]) (SetPart lv (entry_index + 1) a)"

lemma SetPart_other [simp]: "l \<noteq> k \<Longrightarrow> Part (SetPart k v a) l = Part a l"
  by (simp add: SetPart_def Part_def)

lemma SetPart_same: "1 \<le> l \<Longrightarrow> l \<le> 4 \<Longrightarrow> v < 512 \<Longrightarrow> Part (SetPart l v a) l = v"
  by (auto simp: SetPart_def Part_def)

lemma fold_SetPart_other: "l \<notin> set ls \<Longrightarrow> Part (fold (\<lambda>k a. SetPart k 0 a) ls a) l = Part a l"
  by (induction ls arbitrary: a) auto

lemma next_entry_index:
  "1 \<le> lv \<Longrightarrow> lv \<le> 4 \<Longrightarrow> i < 511 \<Longrightarrow> Part (next_entry lv i a) lv = i + 1"
  by (simp add: next_entry_def fold_SetPart_other SetPart_same)

text \<open>The loop and recursion of \<^verbatim>\<open>SetupPageMap\<close>: the number of pages that remain, and the error.\<close>

function SetupPageMap ::
    "nat \<Rightarrow> nat \<Rightarrow> LinearAddress4Level \<Rightarrow> nat \<Rightarrow> bool \<Rightarrow> paging \<Rightarrow> (paging \<times> nat \<times> error_code) option" where
  "SetupPageMap page_map lv a num_4kpages wr s =
     (if lv = 0 \<or> 4 < lv then None
      else if num_4kpages = 0 then Some (s, 0, kSuccess)
      else
        let entry_index = Part a lv in
        case SetNewPageMapIfNotPresent page_map entry_index s of
          None \<Rightarrow> None
        | Some (s, Inl err) \<Rightarrow> Some (s, num_4kpages, err)
        | Some (s, Inr child_map) \<Rightarrow>
            let e = (tables s page_map ! entry_index)\<lparr>user := True, writable := (lv = 1 \<longrightarrow> wr)\<rparr>;
                s = set_entry page_map entry_index e s in
            (case (if lv = 1 then Some (s, num_4kpages - 1, kSuccess)
                   else SetupPageMap child_map (lv - 1) a num_4kpages wr s) of
               None \<Rightarrow> None
             | Some (s, remain, err) \<Rightarrow>
                 if err \<noteq> kSuccess then Some (s, num_4kpages, err)
                 else if 511 \<le> entry_index then Some (s, remain, kSuccess)
                 else SetupPageMap page_map lv (next_entry lv entry_index a) remain wr s))"
  by pat_completeness auto
termination
  by (relation "measures [\<lambda>(t, lv, a, n, w, s). lv, \<lambda>(t, lv, a, n, w, s). 512 - Part a lv]")
    (auto simp: next_entry_index)

declare SetupPageMap.simps [simp del]

definition SetupPageMaps ::
    "nat \<Rightarrow> LinearAddress4Level \<Rightarrow> nat \<Rightarrow> bool \<Rightarrow> paging \<Rightarrow> (error_code \<times> paging) option" where
  "SetupPageMaps root a num_4kpages wr s =
     map_option (\<lambda>(s, _, err). (err, s)) (SetupPageMap root 4 a num_4kpages wr s)"

function clean_loop ::
    "nat \<Rightarrow> nat \<Rightarrow> LinearAddress4Level \<Rightarrow> bool \<Rightarrow> nat \<Rightarrow> paging \<Rightarrow> (error_code \<times> paging) option" where
  "clean_loop page_map lv a clean_readonly i s =
     (if 512 \<le> i then Some (kSuccess, s)
      else case arr_get (tables s page_map) i of
        None \<Rightarrow> None
      | Some ent \<Rightarrow>
          if \<not> present ent then clean_loop page_map lv a clean_readonly (Suc i) s
          else
            (case (if lv > 1 then clean_loop (Pointer ent) (lv - 1) a False (Part a (lv - 1)) s
                   else Some (kSuccess, s)) of
               None \<Rightarrow> None
             | Some (err, s) \<Rightarrow>
                 if err \<noteq> kSuccess then Some (err, s)
                 else
                   (case (if writable ent \<or> clean_readonly then free_frame (Pointer ent) s
                          else Some (kSuccess, s)) of
                      None \<Rightarrow> None
                    | Some (err, s) \<Rightarrow>
                        if err \<noteq> kSuccess then Some (err, s)
                        else clean_loop page_map lv a clean_readonly (Suc i)
                               (set_entry page_map i zero_entry s))))"
  by pat_completeness auto
termination
  by (relation "measures [\<lambda>(t, lv, a, c, i, s). lv, \<lambda>(t, lv, a, c, i, s). 512 - i]") auto

declare clean_loop.simps [simp del]

definition CleanPageMap ::
    "nat \<Rightarrow> nat \<Rightarrow> LinearAddress4Level \<Rightarrow> bool \<Rightarrow> paging \<Rightarrow> (error_code \<times> paging) option" where
  "CleanPageMap page_map lv a clean_readonly s = clean_loop page_map lv a clean_readonly (Part a lv) s"

definition CleanPageMaps :: "nat \<Rightarrow> LinearAddress4Level \<Rightarrow> paging \<Rightarrow> (error_code \<times> paging) option" where
  "CleanPageMaps root a s = CleanPageMap root 4 a False s"

definition CleanPageMapsForMeta :: "nat \<Rightarrow> paging \<Rightarrow> (error_code \<times> paging) option" where
  "CleanPageMapsForMeta pml4_table s = (case CleanPageMap pml4_table 4 (la_of 0xffff800000000000) True s of
     None \<Rightarrow> None
   | Some (err, s) \<Rightarrow> if err \<noteq> kSuccess then Some (err, s) else FreePageMap pml4_table s)"

function CopyPageMaps :: "nat \<Rightarrow> nat \<Rightarrow> nat \<Rightarrow> nat \<Rightarrow> paging \<Rightarrow> (error_code \<times> paging) option" where
  "CopyPageMaps dest src part i s =
     (if part = 0 then None
      else if 512 \<le> i then Some (kSuccess, s)
      else case arr_get (tables s src) i of
        None \<Rightarrow> None
      | Some e \<Rightarrow>
          if \<not> present e then CopyPageMaps dest src part (Suc i) s
          else if part = 1
          then CopyPageMaps dest src part (Suc i) (set_entry dest i (e\<lparr>writable := False\<rparr>) s)
          else
            (case NewPageMap s of
               None \<Rightarrow> None
             | Some (s, Inl err) \<Rightarrow> Some (err, s)
             | Some (s, Inr tbl) \<Rightarrow>
                 (case CopyPageMaps tbl (Pointer e) (part - 1) 0
                         (set_entry dest i (SetPointer tbl e) s) of
                    None \<Rightarrow> None
                  | Some (err, s) \<Rightarrow>
                      if err \<noteq> kSuccess then Some (err, s) else CopyPageMaps dest src part (Suc i) s)))"
  by pat_completeness auto
termination
  by (relation "measures [\<lambda>(d, t, part, i, s). part, \<lambda>(d, t, part, i, s). 512 - i]") auto

declare CopyPageMaps.simps [simp del]

section \<open>Page faults\<close>

text \<open>The walk of the hardware: the frame an address is mapped to.\<close>

fun walk :: "nat \<Rightarrow> nat \<Rightarrow> LinearAddress4Level \<Rightarrow> paging \<Rightarrow> PageMapEntry option" where
  "walk t 0 a s = None"
| "walk t (Suc l) a s = (case arr_get (tables s t) (Part a (Suc l)) of
     None \<Rightarrow> None
   | Some e \<Rightarrow> if \<not> present e then None else if l = 0 then Some e else walk (Pointer e) l a s)"

definition translate :: "nat \<Rightarrow> LinearAddress4Level \<Rightarrow> paging \<Rightarrow> nat option" where
  "translate root a s = map_option Pointer (walk root 4 a s)"

definition FindFileMapping :: "FileMapping list \<Rightarrow> nat \<Rightarrow> FileMapping option" where
  "FindFileMapping fmaps causal_vaddr = List.find
     (\<lambda>m. unat (vaddr_begin m) \<le> causal_vaddr \<and> causal_vaddr < unat (vaddr_end m)) fmaps"

text \<open>\<open>load len offset\<close> is \<^verbatim>\<open>Load\<close> of the mapped file; the bytes go through the page map into the page.\<close>

definition PreparePageCache ::
    "(nat \<Rightarrow> nat \<Rightarrow> u8 list option) \<Rightarrow> nat \<Rightarrow> FileMapping \<Rightarrow> nat \<Rightarrow> paging \<Rightarrow> (error_code \<times> paging) option" where
  "PreparePageCache load root m causal_vaddr s =
     (let page_vaddr = (la_of causal_vaddr)\<lparr>offset := 0\<rparr> in
      case SetupPageMaps root page_vaddr 1 True s of
        None \<Rightarrow> None
      | Some (err, s) \<Rightarrow>
          if err \<noteq> kSuccess then Some (err, s)
          else do {
            out \<leftarrow> load 4096 (sub64 (la_value page_vaddr) (unat (vaddr_begin m)));
            frame \<leftarrow> translate root page_vaddr s;
            Some (kSuccess, s\<lparr>pages := (pages s)(frame := overwrite 0 out (pages s frame))\<rparr>)
          })"

fun SetPageContent :: "nat \<Rightarrow> nat \<Rightarrow> LinearAddress4Level \<Rightarrow> nat \<Rightarrow> paging \<Rightarrow> (error_code \<times> paging) option" where
  "SetPageContent t 0 a cont s = None"
| "SetPageContent t (Suc l) a cont s = (case arr_get (tables s t) (Part a (Suc l)) of
     None \<Rightarrow> None
   | Some e \<Rightarrow>
       if l = 0
       then Some (kSuccess, set_entry t (Part a (Suc l)) ((SetPointer cont e)\<lparr>writable := True\<rparr>) s)
       else SetPageContent (Pointer e) l a cont s)"

definition CopyOnePage :: "nat \<Rightarrow> nat \<Rightarrow> paging \<Rightarrow> (error_code \<times> paging) option" where
  "CopyOnePage root causal_addr s = (case NewPageMap s of
     None \<Rightarrow> None
   | Some (s, Inl err) \<Rightarrow> Some (err, s)
   | Some (s, Inr p) \<Rightarrow> do {
       frame \<leftarrow> translate root (la_of causal_addr) s;
       SetPageContent root 4 (la_of causal_addr) p (s\<lparr>pages := (pages s)(p := pages s frame)\<rparr>)
     })"

text \<open>\<open>load fd\<close> is \<^verbatim>\<open>Load\<close> of the task's file with that handle.\<close>

definition HandlePageFault ::
    "(nat \<Rightarrow> nat \<Rightarrow> nat \<Rightarrow> u8 list option) \<Rightarrow> nat \<Rightarrow> Task \<Rightarrow> u64 \<Rightarrow> nat \<Rightarrow> paging \<Rightarrow> (error_code \<times> paging) option" where
  "HandlePageFault load root task error_code causal_addr s =
     (let pres = bit error_code 0; rw = bit error_code 1; usr = bit error_code 2 in
      if pres \<and> rw \<and> usr then CopyOnePage root causal_addr s
      else if pres then Some (kAlreadyAllocated, s)
      else if unat (dpaging_begin task) \<le> causal_addr \<and> causal_addr < unat (dpaging_end task)
      then SetupPageMaps root (la_of causal_addr) 1 True s
      else case FindFileMapping (file_maps task) causal_addr of
             Some m \<Rightarrow> do {
               fd \<leftarrow> (if fm_fd m < 0 then None else arr_get (files task) (nat (fm_fd m)));
               handle \<leftarrow> fd;
               PreparePageCache (load handle) root m causal_addr s
             }
           | None \<Rightarrow> Some (kIndexOutOfRange, s))"

section \<open>The identity map of the kernel\<close>

definition kPageDirectoryCount :: nat where "kPageDirectoryCount = 64"
definition kPageSize4K :: u64 where "kPageSize4K = 4096"
definition kPageSize2M :: u64 where "kPageSize2M = 512 * kPageSize4K"
definition kPageSize1G :: u64 where "kPageSize1G = 512 * kPageSize2M"

record identity_tables =
  pml4_table :: "u64 list"
  pdp_table :: "u64 list"
  page_directory :: "u64 list list"

definition SetupIdentityPageTable :: "u64 \<Rightarrow> (nat \<Rightarrow> u64) \<Rightarrow> identity_tables" where
  "SetupIdentityPageTable pdp_addr dir_addr =
     \<lparr>pml4_table = (replicate 512 0)[0 := pdp_addr OR 0x3],
      pdp_table = map (\<lambda>i. dir_addr i OR 0x3) [0..<kPageDirectoryCount] @ replicate (512 - kPageDirectoryCount) 0,
      page_directory = map (\<lambda>i_pdpt. map (\<lambda>i_pd. of_nat i_pdpt * kPageSize1G + of_nat i_pd * kPageSize2M OR 0x83)
        [0..<512]) [0..<kPageDirectoryCount]\<rparr>"

section \<open>New page maps are fresh\<close>

lemma NewPageMap_cases [consumes 1, case_names new full]:
  assumes "bmm_inv (manager s)"
  obtains (new) f m' where "NewPageMap s = Some (s\<lparr>manager := m', tables := (tables s)(f := replicate 512 zero_entry),
        pages := (pages s)(f := replicate 4096 0)\<rparr>, Inr f)"
      "bmm_inv m'" "f \<notin> allocated (manager s)" "allocated m' = insert f (allocated (manager s))"
      "f < range_end (manager s)" "range_end m' = range_end (manager s)"
      "f \<in> free_frames (manager s)" "free_frames m' = free_frames (manager s) - {f}"
  | (full) "NewPageMap s = Some (s, Inl kNoEnoughMemory)" "free_frames (manager s) = {}"
proof -
  from fa.alloc_one [OF assms] show thesis
  proof (elim disjE exE conjE)
    fix f m'
    assume "Allocate (manager s) 1 = Some ((f, kSuccess), m')" "bmm_inv m'" "f \<notin> allocated (manager s)"
      "allocated m' = insert f (allocated (manager s))" "f \<in> free_frames (manager s)"
      "free_frames m' = free_frames (manager s) - {f}"
    moreover from this(1) have "f < range_end (manager s)" "range_end m' = range_end (manager s)"
      using Allocate_Some_success(1,5) [OF assms] by (simp_all add: free_run_def)
    ultimately show thesis by (intro new [of f m']) (simp_all add: NewPageMap_def)
  next
    fix f
    assume "Allocate (manager s) 1 = Some ((f, kNoEnoughMemory), manager s)" "free_frames (manager s) = {}"
    then show thesis by (intro full) (simp_all add: NewPageMap_def)
  qed
qed

section \<open>Paths through the page tables\<close>

text \<open>The tables the walk for an address visits, and when they are what the code takes them for.\<close>

fun path :: "nat \<Rightarrow> nat \<Rightarrow> LinearAddress4Level \<Rightarrow> paging \<Rightarrow> nat list" where
  "path t 0 a s = []"
| "path t (Suc l) a s = t # (let e = tables s t ! Part a (Suc l) in
     if present e \<and> 0 < l then path (Pointer e) l a s else [])"

definition path_ok :: "nat \<Rightarrow> nat \<Rightarrow> LinearAddress4Level \<Rightarrow> paging \<Rightarrow> bool" where
  "path_ok t l a s \<longleftrightarrow> distinct (path t l a s)
     \<and> (\<forall>f \<in> set (path t l a s). length (tables s f) = 512 \<and> f \<in> allocated (manager s))"

lemma path_cong:
  "\<forall>f \<in> set (path t l a s). tables s' f = tables s f \<Longrightarrow> path t l a s' = path t l a s"
proof (induction l arbitrary: t)
  case 0
  then show ?case by simp
next
  case (Suc l)
  from Suc.prems have "tables s' t = tables s t" by simp
  with Suc.IH [of "Pointer (tables s t ! Part a (Suc l))"] Suc.prems show ?case by (simp add: Let_def)
qed

lemma walk_cong:
  "\<forall>f \<in> set (path t l a s). tables s' f = tables s f \<Longrightarrow> path_ok t l a s \<Longrightarrow> walk t l a s' = walk t l a s"
proof (induction l arbitrary: t)
  case 0
  then show ?case by simp
next
  case (Suc l)
  from Suc.prems have "tables s' t = tables s t" by simp
  with Suc.IH [of "Pointer (tables s t ! Part a (Suc l))"] Suc.prems show ?case
    by (auto simp: Let_def path_ok_def arr_get_def)
qed

lemma path_ok_step:
  assumes "path_ok t (Suc l) a s" and "present (tables s t ! Part a (Suc l))" and "0 < l"
  shows "path_ok (Pointer (tables s t ! Part a (Suc l))) l a s"
    and "t \<notin> set (path (Pointer (tables s t ! Part a (Suc l))) l a s)"
  using assms by (auto simp: path_ok_def Let_def)

definition parts_ok :: "LinearAddress4Level \<Rightarrow> bool" where
  "parts_ok a \<longleftrightarrow> page a < 512 \<and> dir a < 512 \<and> pdp a < 512 \<and> pml4 a < 512"

lemma parts_okD: "parts_ok a \<Longrightarrow> 1 \<le> l \<Longrightarrow> l \<le> 4 \<Longrightarrow> Part a l < 512"
  by (auto simp: parts_ok_def Part_def)

lemma parts_ok_la_of: "parts_ok (la_of v)" "parts_ok ((la_of v)\<lparr>offset := x\<rparr>)"
  by (simp_all add: parts_ok_def la_of_def)

section \<open>Copy on write\<close>

lemma SetPageContent_spec:
  "path_ok t l a s \<Longrightarrow> walk t l a s = Some e \<Longrightarrow> 0 < l \<Longrightarrow>
     \<exists>s'. SetPageContent t l a p s = Some (kSuccess, s') \<and> manager s' = manager s \<and> pages s' = pages s
       \<and> (\<forall>f. f \<notin> set (path t l a s) \<longrightarrow> tables s' f = tables s f)
       \<and> walk t l a s' = Some ((SetPointer p e)\<lparr>writable := True\<rparr>)"
proof (induction l arbitrary: t)
  case 0
  then show ?case by simp
next
  case (Suc l)
  let ?i = "Part a (Suc l)"
  let ?e = "tables s t ! ?i"
  have i: "?i < length (tables s t)" and pr: "present ?e" using Suc.prems(2)
    by (auto simp: arr_get_def split: if_splits)
  show ?case
  proof (cases "l = 0")
    case True
    let ?s = "set_entry t ?i ((SetPointer p ?e)\<lparr>writable := True\<rparr>) s"
    have "walk t (Suc l) a ?s = Some ((SetPointer p e)\<lparr>writable := True\<rparr>)"
      using Suc.prems(2) i pr True by (auto simp: set_entry_def SetPointer_def)
    then show ?thesis using True i by (simp add: set_entry_def)
  next
    case False
    then have l: "0 < l" by simp
    note st = path_ok_step [OF Suc.prems(1) pr l]
    have w: "walk (Pointer ?e) l a s = Some e" using Suc.prems(2) i pr False by simp
    obtain s' where s': "SetPageContent (Pointer ?e) l a p s = Some (kSuccess, s')" "manager s' = manager s"
      "pages s' = pages s" "\<forall>f. f \<notin> set (path (Pointer ?e) l a s) \<longrightarrow> tables s' f = tables s f"
      "walk (Pointer ?e) l a s' = Some ((SetPointer p e)\<lparr>writable := True\<rparr>)"
      using Suc.IH [OF st(1) w l] by blast
    have "tables s' t = tables s t" using s'(4) st(2) by blast
    then have "walk t (Suc l) a s' = Some ((SetPointer p e)\<lparr>writable := True\<rparr>)"
      using s'(5) i pr False by simp
    then show ?thesis using s' i pr False by (simp add: Let_def)
  qed
qed

text \<open>
  C6: copy on write.  A write fault of a user program on a page that is present (in page tables that
  do not share tables along the path of the address) gives the address a page of its own: a frame
  that was free, with the contents of the old page, mapped writable, otherwise with the bits of the
  old entry; tables and pages that do not lie on the path are untouched.  It is the error
  \<open>kNoEnoughMemory\<close>, with nothing changed, exactly when the frame allocator has no free frame left.
\<close>

theorem HandlePageFault_copies_page:
  assumes "bmm_inv (manager s)" and "path_ok root 4 (la_of v) s" and "walk root 4 (la_of v) s = Some e"
    and "bit code 0" and "bit code 1" and "bit code 2"
    and "range_end (manager s) \<le> 2 ^ 40" and "addr e \<in> allocated (manager s)"
  shows "if free_frames (manager s) = {} then HandlePageFault load root task code v s = Some (kNoEnoughMemory, s)
    else (\<exists>s' f. HandlePageFault load root task code v s = Some (kSuccess, s') \<and> f \<in> free_frames (manager s)
        \<and> f \<notin> allocated (manager s) \<and> allocated (manager s') = insert f (allocated (manager s))
        \<and> walk root 4 (la_of v) s' = Some (e\<lparr>addr := f, writable := True\<rparr>)
        \<and> pages s' = (pages s)(f := pages s (addr e))
        \<and> (\<forall>g. g \<noteq> f \<longrightarrow> g \<notin> set (path root 4 (la_of v) s) \<longrightarrow> tables s' g = tables s g))"
proof -
  let ?a = "la_of v"
  have H: "HandlePageFault load root task code v s = CopyOnePage root v s"
    using assms(4-6) by (simp add: HandlePageFault_def)
  show ?thesis
    using assms(1)
  proof (cases rule: NewPageMap_cases [of s])
    case full
    then show ?thesis by (simp add: H CopyOnePage_def)
  next
    case (new f m')
    let ?s1 = "s\<lparr>manager := m', tables := (tables s)(f := replicate 512 zero_entry),
        pages := (pages s)(f := replicate 4096 0)\<rparr>"
    let ?s2 = "?s1\<lparr>pages := (pages ?s1)(f := pages ?s1 (addr e))\<rparr>"
    have nf: "f \<notin> set (path root 4 ?a s)" using new(3) assms(2) by (auto simp: path_ok_def)
    have same: "\<forall>g \<in> set (path root 4 ?a s). tables ?s2 g = tables s g" using nf by auto
    have w: "walk root 4 ?a ?s1 = Some e" "walk root 4 ?a ?s2 = Some e"
      using walk_cong [OF _ assms(2), of ?s1] walk_cong [OF same assms(2)] same assms(3) by auto
    have pa: "path root 4 ?a ?s2 = path root 4 ?a s" by (rule path_cong [OF same])
    have "path_ok root 4 ?a ?s2"
      using assms(2) same new(4) unfolding path_ok_def pa by auto
    from SetPageContent_spec [OF this w(2), of f] obtain s' where
      s': "SetPageContent root 4 ?a f ?s2 = Some (kSuccess, s')" "manager s' = manager ?s2" "pages s' = pages ?s2"
        "\<forall>g. g \<notin> set (path root 4 ?a s) \<longrightarrow> tables s' g = tables ?s2 g"
        "walk root 4 ?a s' = Some ((SetPointer f e)\<lparr>writable := True\<rparr>)"
      unfolding pa by auto
    have "f mod 2 ^ 40 = f" using new(5) assms(7) by simp
    then have "walk root 4 ?a s' = Some (e\<lparr>addr := f, writable := True\<rparr>)"
      using s'(5) by (simp add: SetPointer_def)
    moreover have "HandlePageFault load root task code v s = Some (kSuccess, s')"
      using new(1) w(1) s'(1) by (simp add: H CopyOnePage_def translate_def Pointer_def)
    moreover have "pages s' = (pages s)(f := pages s (addr e))"
      using s'(3) new(3) assms(8) by auto
    moreover have "free_frames (manager s) \<noteq> {}" using new(7) by blast
    ultimately show ?thesis using new(3,4,7) s'(2,4) unfolding if_not_P [OF \<open>free_frames (manager s) \<noteq> {}\<close>]
      by (intro exI [of _ s'] exI [of _ f]) auto
  qed
qed

section \<open>Demand paging\<close>

definition setup_ok :: "nat \<Rightarrow> nat \<Rightarrow> LinearAddress4Level \<Rightarrow> bool \<Rightarrow> paging \<Rightarrow> paging \<Rightarrow> bool" where
  "setup_ok t l a wr s s' \<longleftrightarrow> (\<exists>e. walk t l a s' = Some e \<and> user e \<and> writable e = wr
     \<and> (walk t l a s = None \<longrightarrow> addr e \<notin> allocated (manager s) \<and> pages s' (addr e) = replicate 4096 0))"

lemma setup_okE:
  assumes "setup_ok t l a wr s s'"
  obtains e where "walk t l a s' = Some e" "user e" "writable e = wr"
    "walk t l a s = None \<longrightarrow> addr e \<notin> allocated (manager s) \<and> pages s' (addr e) = replicate 4096 0"
  using assms by (auto simp: setup_ok_def)

definition setup_frame :: "nat list \<Rightarrow> paging \<Rightarrow> paging \<Rightarrow> bool" where
  "setup_frame ts s s' \<longleftrightarrow> bmm_inv (manager s') \<and> allocated (manager s) \<subseteq> allocated (manager s')
     \<and> range_end (manager s') = range_end (manager s) \<and> free_frames (manager s') \<subseteq> free_frames (manager s)
     \<and> (\<forall>f \<in> allocated (manager s). (f \<notin> set ts \<longrightarrow> tables s' f = tables s f) \<and> pages s' f = pages s f)"

lemma SetNewPageMapIfNotPresent_spec:
  assumes inv: "bmm_inv (manager s)" and r: "range_end (manager s) \<le> 2 ^ 40"
    and t: "length (tables s t) = 512" "t \<in> allocated (manager s)" and i: "i < 512"
  shows "SetNewPageMapIfNotPresent t i s = Some (s, Inl kNoEnoughMemory) \<and> free_frames (manager s) = {}
    \<or> (\<exists>s1 c e. SetNewPageMapIfNotPresent t i s = Some (s1, Inr c) \<and> setup_frame [t] s s1
        \<and> tables s1 t = (tables s t)[i := e] \<and> present e \<and> Pointer e = c
        \<and> (if present (tables s t ! i) then s1 = s \<and> e = tables s t ! i
           else c \<notin> allocated (manager s) \<and> c \<in> allocated (manager s1)
             \<and> c \<in> free_frames (manager s) \<and> free_frames (manager s1) = free_frames (manager s) - {c}
             \<and> tables s1 c = replicate 512 zero_entry \<and> pages s1 c = replicate 4096 0))"
proof (cases "present (tables s t ! i)")
  case True
  then show ?thesis using t i inv
    by (intro disjI2 exI [of _ s] exI [of _ "Pointer (tables s t ! i)"] exI [of _ "tables s t ! i"])
      (simp add: SetNewPageMapIfNotPresent_def setup_frame_def)
next
  case False
  note np = this
  show ?thesis
    using inv
  proof (cases rule: NewPageMap_cases [of s])
    case full
    then show ?thesis using np t i by (simp add: SetNewPageMapIfNotPresent_def)
  next
    case (new f m')
    let ?s0 = "s\<lparr>manager := m', tables := (tables s)(f := replicate 512 zero_entry),
        pages := (pages s)(f := replicate 4096 0)\<rparr>"
    let ?e = "(SetPointer f (tables s t ! i))\<lparr>present := True\<rparr>"
    let ?s1 = "set_entry t i ?e ?s0"
    have ne: "f \<noteq> t" "f mod 2 ^ 40 = f" using new(3,5) t(2) r by auto
    have "SetNewPageMapIfNotPresent t i s = Some (?s1, Inr f)"
      using np t i new(1) by (simp add: SetNewPageMapIfNotPresent_def)
    moreover have "setup_frame [t] s ?s1"
      using new ne by (auto simp: setup_frame_def set_entry_def)
    ultimately show ?thesis using np new(3,4,7,8) ne
      by (intro disjI2 exI [of _ ?s1] exI [of _ f] exI [of _ ?e])
        (simp add: set_entry_def SetPointer_def Pointer_def)
  qed
qed

lemma setup_frame_trans:
  assumes "setup_frame ts s s1" and "setup_frame us s1 s2"
    and "\<forall>f \<in> allocated (manager s). f \<in> set us \<longrightarrow> f \<in> set vs" and "set ts \<subseteq> set vs"
  shows "setup_frame vs s s2"
  using assms by (fastforce simp: setup_frame_def subset_iff)

lemma SetupPageMap_zero: "1 \<le> l \<Longrightarrow> l \<le> 4 \<Longrightarrow> SetupPageMap t l a 0 wr s = Some (s, 0, kSuccess)"
  by (simp add: SetupPageMap.simps [of t l])

lemma SetupPageMap_one:
  "bmm_inv (manager s) \<Longrightarrow> range_end (manager s) \<le> 2 ^ 40 \<Longrightarrow> path_ok t l a s \<Longrightarrow> parts_ok a \<Longrightarrow> 1 \<le> l \<Longrightarrow> l \<le> 4 \<Longrightarrow>
     \<exists>s' r err. SetupPageMap t l a 1 wr s = Some (s', r, err) \<and> setup_frame (path t l a s) s s'
       \<and> (if err = kSuccess then r = 0 \<and> setup_ok t l a wr s s'
          else err = kNoEnoughMemory \<and> card (free_frames (manager s)) < l)"
proof (induction l arbitrary: t s)
  case 0
  then show ?case by simp
next
  case (Suc l)
  let ?i = "Part a (Suc l)" and ?l = "Suc l"
  have i: "?i < 512" using parts_okD [OF Suc.prems(4-6)] .
  have t: "length (tables s t) = 512" "t \<in> allocated (manager s)" using Suc.prems(3) by (auto simp: path_ok_def)
  have tp: "t \<in> set (path t ?l a s)" by simp
  from SetNewPageMapIfNotPresent_spec [OF Suc.prems(1,2) t i] show ?case
  proof (elim disjE exE conjE)
    assume "SetNewPageMapIfNotPresent t ?i s = Some (s, Inl kNoEnoughMemory)" "free_frames (manager s) = {}"
    then show ?thesis using Suc.prems(1,6) by (simp add: SetupPageMap.simps [of t ?l] setup_frame_def)
  next
    fix s1 c e
    assume S: "SetNewPageMapIfNotPresent t ?i s = Some (s1, Inr c)" "setup_frame [t] s s1"
      "tables s1 t = (tables s t)[?i := e]" "present e" "Pointer e = c"
      "if present (tables s t ! ?i) then s1 = s \<and> e = tables s t ! ?i
       else c \<notin> allocated (manager s) \<and> c \<in> allocated (manager s1)
         \<and> c \<in> free_frames (manager s) \<and> free_frames (manager s1) = free_frames (manager s) - {c}
         \<and> tables s1 c = replicate 512 zero_entry \<and> pages s1 c = replicate 4096 0"
    let ?e = "e\<lparr>user := True, writable := (?l = 1 \<longrightarrow> wr)\<rparr>"
    let ?s2 = "set_entry t ?i ?e s1"
    have e1: "tables s1 t ! ?i = e" using S(3) t i by simp
    have t2: "tables ?s2 t = (tables s t)[?i := ?e]" using S(3) by (simp add: set_entry_def)
    have o2: "g \<noteq> t \<Longrightarrow> tables ?s2 g = tables s1 g" "manager ?s2 = manager s1" "pages ?s2 = pages s1" for g
      by (simp_all add: set_entry_def)
    have f2: "setup_frame [t] s ?s2" using S(2) o2 by (auto simp: setup_frame_def)
    have w2: "arr_get (tables ?s2 t) ?i = Some ?e" using t2 t i by simp
    have ce: "Pointer ?e = c" "present ?e" using S(4,5) by (simp_all add: Pointer_def)
    show ?thesis
    proof (cases "l = 0")
      case True
      have "SetupPageMap t ?l a 1 wr s = Some (?s2, 0, kSuccess)"
        using S(1) e1 unfolding True
        by (simp add: SetupPageMap.simps [of t "Suc 0" a "Suc 0"] SetupPageMap_zero Let_def)
      moreover have "walk t ?l a ?s2 = Some ?e" using w2 ce(2) True by simp
      moreover have "addr ?e \<notin> allocated (manager s) \<and> pages ?s2 (addr ?e) = replicate 4096 0"
        if "walk t ?l a s = None"
      proof -
        have "\<not> present (tables s t ! ?i)" using that t i True by auto
        then show ?thesis using S(5,6) o2(3) by (simp add: Pointer_def)
      qed
      ultimately show ?thesis using f2 True
        by (intro exI [of _ ?s2] exI [of _ 0] exI [of _ kSuccess])
          (auto simp: setup_ok_def setup_frame_def)
    next
      case False
      then have l: "1 \<le> l" "0 < l" by simp_all
      have inv2: "bmm_inv (manager ?s2)" "range_end (manager ?s2) \<le> 2 ^ 40"
        using f2 Suc.prems(2) by (auto simp: setup_frame_def)
      have child: "path_ok c l a ?s2 \<and> t \<notin> set (path c l a ?s2)
          \<and> (\<forall>f \<in> allocated (manager s). f \<in> set (path c l a ?s2) \<longrightarrow> f \<in> set (path t ?l a s))
          \<and> (walk t ?l a s = None \<longrightarrow> walk c l a ?s2 = None)"
      proof (cases "present (tables s t ! ?i)")
        case True
        then have c: "c = Pointer (tables s t ! ?i)" and s1: "s1 = s" using S(5,6) by auto
        note st = path_ok_step [OF Suc.prems(3) True l(2), folded c]
        have same: "\<forall>f \<in> set (path c l a s). tables ?s2 f = tables s f" using st(2) o2(1) s1 by metis
        have pc: "path c l a ?s2 = path c l a s" by (rule path_cong [OF same])
        have "path_ok c l a ?s2" using st(1) same s1 o2(2) unfolding path_ok_def pc by simp
        moreover have "walk c l a ?s2 = walk c l a s" by (rule walk_cong [OF same st(1)])
        ultimately show ?thesis using st(2) True l t i unfolding pc by (auto simp: c Let_def)
      next
        case nf: False
        then have c: "c \<notin> allocated (manager s)" "c \<in> allocated (manager s1)" "tables s1 c = replicate 512 zero_entry"
          using S(6) by simp_all
        then have ct: "c \<noteq> t" using t by auto
        have tc: "tables ?s2 c = replicate 512 zero_entry" using o2(1) [OF ct] c(3) by simp
        obtain k where k: "l = Suc k" using l by (cases l) auto
        have il: "Part a l < 512" using parts_okD [OF Suc.prems(4) l(1)] Suc.prems(6) by simp
        have "path c l a ?s2 = [c]" using tc il by (simp add: k zero_entry_def Let_def)
        moreover have "walk c l a ?s2 = None" using tc il by (simp add: k zero_entry_def)
        ultimately show ?thesis using c ct tc o2(2) by (auto simp: path_ok_def)
      qed
      then obtain s3 r err where R: "SetupPageMap c l a 1 wr ?s2 = Some (s3, r, err)"
        "setup_frame (path c l a ?s2) ?s2 s3" "if err = kSuccess then r = 0 \<and> setup_ok c l a wr ?s2 s3
          else err = kNoEnoughMemory \<and> card (free_frames (manager ?s2)) < l"
        using Suc.IH [OF inv2 _ Suc.prems(4) l(1)] Suc.prems(6) by (meson Suc_leD)
      have f3: "setup_frame (path t ?l a s) s s3"
        by (rule setup_frame_trans [OF f2 R(2)]) (use child in auto)
      have eq: "SetupPageMap t ?l a 1 wr s = Some (s3, if err = kSuccess then 0 else 1, err)"
        using S(1) e1 False R Suc.prems(5,6)
        by (simp add: SetupPageMap.simps [of t ?l a "Suc 0"] SetupPageMap_zero Let_def)
      have "setup_ok t ?l a wr s s3" if su: "err = kSuccess"
      proof -
        have "t \<in> allocated (manager ?s2)" using f2 t(2) by (auto simp: setup_frame_def)
        then have "tables s3 t = tables ?s2 t" using R(2) child by (auto simp: setup_frame_def)
        then have w: "walk t ?l a s3 = walk c l a s3" using w2 ce False by simp
        have sub: "allocated (manager s) \<subseteq> allocated (manager ?s2)" using f2 by (simp add: setup_frame_def)
        obtain x where x: "walk c l a s3 = Some x" "user x" "writable x = wr"
          "walk c l a ?s2 = None \<longrightarrow> addr x \<notin> allocated (manager ?s2) \<and> pages s3 (addr x) = replicate 4096 0"
          by (rule setup_okE [OF R(3) [unfolded if_P [OF su], THEN conjunct2]])
        have "walk t ?l a s = None \<longrightarrow> addr x \<notin> allocated (manager s) \<and> pages s3 (addr x) = replicate 4096 0"
        proof
          assume "walk t ?l a s = None"
          with child have "walk c l a ?s2 = None" by (simp only: simp_thms)
          with x(4) have "addr x \<notin> allocated (manager ?s2) \<and> pages s3 (addr x) = replicate 4096 0"
            by (simp only: simp_thms)
          then show "addr x \<notin> allocated (manager s) \<and> pages s3 (addr x) = replicate 4096 0"
            using sub by (meson subsetD)
        qed
        moreover have "walk t ?l a s3 = Some x" using w x(1) by simp
        ultimately show ?thesis unfolding setup_ok_def using x(2,3) by (intro exI [of _ x] conjI)
      qed
      moreover have "err = kNoEnoughMemory \<and> card (free_frames (manager s)) < ?l" if "err \<noteq> kSuccess"
      proof -
        have "card (free_frames (manager s)) \<le> Suc (card (free_frames (manager ?s2)))"
        proof (cases "present (tables s t ! ?i)")
          case True
          then show ?thesis using S(6) o2(2) by simp
        next
          case False
          then have "free_frames (manager ?s2) = free_frames (manager s) - {c}" using S(6) o2(2) by simp
          then show ?thesis using card_Suc_Diff1 [OF finite_free_frames, of c "manager s"] False S(6) by simp
        qed
        moreover have "err = kNoEnoughMemory \<and> card (free_frames (manager ?s2)) < l" using R(3) unfolding if_not_P [OF that] .
        ultimately show ?thesis by linarith
      qed
      ultimately show ?thesis using eq f3 by auto
    qed
  qed
qed

text \<open>
  demand paging.  A fault on a page that is not mapped, inside the demand paging range of the task,
  is handled: the address is then mapped, for the user and writable, to a page of zeros in a frame that
  was free; the only error is \<open>kNoEnoughMemory\<close>, and only with fewer than four free frames (one for each
  level of the tables).  In both cases the fault changes no page in use and no table in use outside the
  path of the address.
\<close>

theorem HandlePageFault_maps_zero_page:
  assumes "bmm_inv (manager s)" and "range_end (manager s) \<le> 2 ^ 40" and "path_ok root 4 (la_of v) s"
    and "walk root 4 (la_of v) s = None" and "\<not> bit code 0"
    and "unat (dpaging_begin task) \<le> v" and "v < unat (dpaging_end task)"
  shows "\<exists>s' err. HandlePageFault load root task code v s = Some (err, s')
    \<and> (if err = kSuccess then (\<exists>e. walk root 4 (la_of v) s' = Some e \<and> user e \<and> writable e
          \<and> addr e \<notin> allocated (manager s) \<and> pages s' (addr e) = replicate 4096 0)
       else err = kNoEnoughMemory \<and> card (free_frames (manager s)) < 4)
    \<and> (\<forall>f \<in> allocated (manager s). (f \<notin> set (path root 4 (la_of v) s) \<longrightarrow> tables s' f = tables s f)
          \<and> pages s' f = pages s f)"
proof -
  have l: "1 \<le> (4 :: nat)" "(4 :: nat) \<le> 4" by simp_all
  obtain s' r err where S: "SetupPageMap root 4 (la_of v) 1 True s = Some (s', r, err)"
    "setup_frame (path root 4 (la_of v) s) s s'" "if err = kSuccess then r = 0 \<and> setup_ok root 4 (la_of v) True s s'
       else err = kNoEnoughMemory \<and> card (free_frames (manager s)) < 4"
    using SetupPageMap_one [OF assms(1-3) parts_ok_la_of(1) l] by blast
  have H: "HandlePageFault load root task code v s = Some (err, s')"
    using assms(5-7) S(1) by (simp add: HandlePageFault_def SetupPageMaps_def)
  have "if err = kSuccess then (\<exists>e. walk root 4 (la_of v) s' = Some e \<and> user e \<and> writable e
          \<and> addr e \<notin> allocated (manager s) \<and> pages s' (addr e) = replicate 4096 0)
       else err = kNoEnoughMemory \<and> card (free_frames (manager s)) < 4"
    using S(3) assms(4) by (auto elim!: setup_okE simp del: walk.simps)
  with H S(2) show ?thesis unfolding setup_frame_def by blast
qed

definition paging_example :: paging where
  "paging_example = \<lparr>manager = \<lparr>alloc_map = [0xff, 0], range_start = 0, range_end = 128\<rparr>,
     tables = (\<lambda>f. if f < 4 then (replicate 512 zero_entry)[0 := zero_entry\<lparr>present := True, user := True, addr := f + 1\<rparr>]
                    else replicate 512 zero_entry),
     pages = (\<lambda>f. replicate 4096 (of_nat f))\<rparr>"

lemma paging_example_ok:
  "bmm_inv (manager paging_example)" "range_end (manager paging_example) \<le> 2 ^ 40"
  "f < 8 \<Longrightarrow> f \<in> allocated (manager paging_example)"
  "path_ok 0 4 (la_of 0) paging_example" "path_ok 5 4 (la_of 0) paging_example"
  "walk 0 4 (la_of 0) paging_example = Some (zero_entry\<lparr>present := True, user := True, addr := 4\<rparr>)"
  "walk 5 4 (la_of 0) paging_example = None"
proof -
  show "bmm_inv (manager paging_example)" "range_end (manager paging_example) \<le> 2 ^ 40"
    by (simp_all add: paging_example_def bmm_inv_def bmm_limit_def kBitsPerMapLine_def)
  have al: "f \<in> allocated (manager paging_example)" if "f < 8" for f
  proof -
    from that have "f \<in> {0, 1, 2, 3, 4, 5, 6, 7}" by auto
    then have "GetBit (manager paging_example) f = Some True"
      by (auto simp: GetBit_def paging_example_def kBitsPerMapLine_def)
    then show ?thesis by (simp add: allocated_def)
  qed
  then show "f < 8 \<Longrightarrow> f \<in> allocated (manager paging_example)" .
  have P: "Part (la_of 0) l = 0" for l by (simp add: Part_def la_of_def)
  have four: "4 = Suc (Suc (Suc (Suc 0)))" by simp
  have T: "tables paging_example f = (if f < 4 then (replicate 512 zero_entry)[0 := zero_entry\<lparr>present := True, user := True, addr := f + 1\<rparr>]
                    else replicate 512 zero_entry)" for f by (simp add: paging_example_def)
  have p: "path 0 4 (la_of 0) paging_example = [0, 1, 2, 3]" "path 5 4 (la_of 0) paging_example = [5]"
    unfolding four by (simp_all add: P T Pointer_def zero_entry_def del: replicate.simps)
  show "path_ok 0 4 (la_of 0) paging_example" "path_ok 5 4 (la_of 0) paging_example"
    using al unfolding path_ok_def p by (simp_all add: T del: replicate.simps)
  show "walk 0 4 (la_of 0) paging_example = Some (zero_entry\<lparr>present := True, user := True, addr := 4\<rparr>)"
    "walk 5 4 (la_of 0) paging_example = None"
    unfolding four by (simp_all add: P T Pointer_def zero_entry_def del: replicate.simps)
qed

lemma paging_example_free: "free_frames (manager paging_example) \<noteq> {}" "\<not> card (free_frames (manager paging_example)) < 4"
proof -
  have "GetBit (manager paging_example) f = Some False" if "f \<in> {64, 65, 66, 67}" for f
    using that by (auto simp: GetBit_def paging_example_def kBitsPerMapLine_def)
  then have "{64, 65, 66, 67} \<subseteq> free_frames (manager paging_example)"
    by (auto simp: free_frames_def allocated_def paging_example_def)
  then have "card {64, 65, 66, 67 :: nat} \<le> card (free_frames (manager paging_example))"
    by (rule card_mono [OF finite_free_frames])
  then show "\<not> card (free_frames (manager paging_example)) < 4" by simp
  then show "free_frames (manager paging_example) \<noteq> {}" by auto
qed

theorem HandlePageFault_copies_page_witness:
  "\<exists>s' f. HandlePageFault (\<lambda>_ _ _. None) 0 (Task_init 3) 7 0 paging_example = Some (kSuccess, s')
        \<and> f \<notin> allocated (manager paging_example) \<and> pages s' f = replicate 4096 4"
proof -
  have b: "bit (7 :: u64) 0" "bit (7 :: u64) 1" "bit (7 :: u64) 2" by simp_all
  have a: "addr (zero_entry\<lparr>present := True, user := True, addr := 4\<rparr>) \<in> allocated (manager paging_example)"
    using paging_example_ok(3) [of 4] by simp
  have pg: "pages paging_example 4 = replicate 4096 4" by (simp add: paging_example_def del: replicate.simps)
  from HandlePageFault_copies_page [OF paging_example_ok(1,4,6) b paging_example_ok(2) a, of "\<lambda>_ _ _. None" "Task_init 3",
    unfolded if_not_P [OF paging_example_free(1)]] obtain s' f where
    a: "HandlePageFault (\<lambda>_ _ _. None) 0 (Task_init 3) 7 0 paging_example = Some (kSuccess, s')"
      "f \<notin> allocated (manager paging_example)"
      "pages s' = (pages paging_example)(f := pages paging_example
         (addr (zero_entry\<lparr>present := True, user := True, addr := 4\<rparr>)))" by blast
  have "pages s' f = replicate 4096 4" using a(3) pg by (simp del: replicate.simps)
  with a(1,2) show ?thesis by blast
qed

theorem HandlePageFault_maps_zero_page_witness:
  "\<exists>s' err. HandlePageFault (\<lambda>_ _ _. None) 5 ((Task_init 3)\<lparr>dpaging_end := 4096\<rparr>) 4 0 paging_example = Some (err, s')
     \<and> pages s' 4 = replicate 4096 4"
proof -
  have pg: "pages paging_example 4 = replicate 4096 4" by (simp add: paging_example_def del: replicate.simps)
  have h: "\<not> bit (4 :: u64) 0" "unat (dpaging_begin ((Task_init 3)\<lparr>dpaging_end := 4096\<rparr>)) \<le> 0"
    "0 < unat (dpaging_end ((Task_init 3)\<lparr>dpaging_end := 4096\<rparr>))"
    by (simp_all add: Task_init_def)
  from HandlePageFault_maps_zero_page [OF paging_example_ok(1,2,5,7) h, of "\<lambda>_ _ _. None"] paging_example_ok(3) [of 4] pg
  show ?thesis by auto
qed

section \<open>Releasing page maps\<close>

lemma clean_loop_skip:
  "\<forall>j. i \<le> j \<and> j < k \<longrightarrow> \<not> present (tables s t ! j) \<Longrightarrow> i \<le> k \<Longrightarrow> k \<le> 512 \<Longrightarrow> length (tables s t) = 512 \<Longrightarrow>
     clean_loop t l a c i s = clean_loop t l a c k s"
proof (induction "k - i" arbitrary: i)
  case 0
  then show ?case by simp
next
  case (Suc n)
  then have "i < k" by simp
  moreover from this Suc.prems have "\<not> present (tables s t ! i)" by blast
  ultimately have "clean_loop t l a c i s = clean_loop t l a c (Suc i) s"
    using Suc.prems by (simp add: clean_loop.simps [of t l a c i])
  also have "\<dots> = clean_loop t l a c k s" using Suc \<open>i < k\<close> by simp
  finally show ?case .
qed

lemma free_frame_below:
  assumes "f < bmm_limit (manager s)"
  obtains m' where "free_frame f s = Some (kSuccess, s\<lparr>manager := m'\<rparr>)" "bmm_limit m' = bmm_limit (manager s)"
    "allocated m' = allocated (manager s) - {f}"
proof -
  from assms have "f + 1 \<le> bmm_limit (manager s)" by simp
  then obtain m' where "Free (manager s) f 1 = Some (kSuccess, m')" "bmm_limit m' = bmm_limit (manager s)"
    "range_start m' = range_start (manager s)" "range_end m' = range_end (manager s)"
    "allocated m' = allocated (manager s) - {f..<f + 1}" by (rule Free_spec)
  moreover have "{f..<f + 1} = {f}" by auto
  ultimately show thesis using that [of m'] by (simp add: free_frame_def)
qed

text \<open>The pages a table of the lowest level gives back, from the entry \<open>i\<close> on.\<close>

definition given_back :: "bool \<Rightarrow> nat \<Rightarrow> PageMapEntry list \<Rightarrow> nat set" where
  "given_back c i es = {addr (es ! j) | j. i \<le> j \<and> j < 512 \<and> present (es ! j) \<and> (writable (es ! j) \<or> c)}"

lemma clean_loop_leaf:
  "length (tables s t) = 512 \<Longrightarrow> \<forall>e \<in> set (tables s t). present e \<longrightarrow> addr e < bmm_limit (manager s) \<Longrightarrow>
     \<exists>s'. clean_loop t 1 a c i s = Some (kSuccess, s') \<and> bmm_limit (manager s') = bmm_limit (manager s)
       \<and> allocated (manager s') = allocated (manager s) - given_back c i (tables s t)
       \<and> (\<forall>g. g \<noteq> t \<longrightarrow> tables s' g = tables s g)"
proof (induction "512 - i" arbitrary: i s)
  case 0
  then have "given_back c i (tables s t) = {}" by (auto simp: given_back_def)
  with 0 show ?case by (simp add: clean_loop.simps [of t _ a c i])
next
  case (Suc n)
  then have i: "i < 512" by simp
  let ?e = "tables s t ! i"
  have gb: "given_back c i (tables s t) = (if present ?e \<and> (writable ?e \<or> c) then insert (addr ?e) (given_back c (Suc i) (tables s t))
      else given_back c (Suc i) (tables s t))"
  proof -
    have "i \<le> j \<longleftrightarrow> j = i \<or> Suc i \<le> j" for j by auto
    then show ?thesis using i by (auto simp: given_back_def)
  qed
  show ?case
  proof (cases "present ?e")
    case False
    then have "clean_loop t 1 a c i s = clean_loop t 1 a c (Suc i) s"
      using i Suc.prems by (simp add: clean_loop.simps [of t _ a c i])
    then show ?thesis using Suc.hyps(1) [of "Suc i" s] Suc.hyps(2) Suc.prems False gb by simp
  next
    case True
    have ad: "addr ?e < bmm_limit (manager s)" using True i Suc.prems by simp
    obtain m1 where m1: "(if writable ?e \<or> c then free_frame (addr ?e) s else Some (kSuccess, s))
        = Some (kSuccess, s\<lparr>manager := m1\<rparr>)" "bmm_limit m1 = bmm_limit (manager s)"
      "allocated m1 = allocated (manager s) - (if writable ?e \<or> c then {addr ?e} else {})"
    proof (cases "writable ?e \<or> c")
      case True
      obtain m' where "free_frame (addr ?e) s = Some (kSuccess, s\<lparr>manager := m'\<rparr>)"
        "bmm_limit m' = bmm_limit (manager s)" "allocated m' = allocated (manager s) - {addr ?e}"
        by (rule free_frame_below [OF ad])
      then show thesis using True by (intro that [of m']) simp_all
    next
      case False
      then show thesis by (intro that [of "manager s"]) simp_all
    qed
    let ?s = "set_entry t i zero_entry (s\<lparr>manager := m1\<rparr>)"
    have eq: "clean_loop t 1 a c i s = clean_loop t 1 a c (Suc i) ?s"
      using i Suc.prems(1) True m1(1)
      by (cases "writable ?e"; cases c) (simp_all add: clean_loop.simps [of t _ a _ i] Pointer_def)
    have ts: "tables ?s t = (tables s t)[i := zero_entry]" "g \<noteq> t \<Longrightarrow> tables ?s g = tables s g"
      "manager ?s = m1" for g by (simp_all add: set_entry_def)
    have pr: "\<forall>e \<in> set (tables ?s t). present e \<longrightarrow> addr e < bmm_limit (manager ?s)"
      using Suc.prems(2) m1(2) set_update_subset_insert [of "tables s t" i zero_entry]
      unfolding ts by (auto simp: zero_entry_def)
    have "given_back c (Suc i) (tables ?s t) = given_back c (Suc i) (tables s t)"
    proof -
      have "(tables s t)[i := zero_entry] ! j = tables s t ! j" if "Suc i \<le> j" for j using that by simp
      then show ?thesis unfolding ts given_back_def by (intro Collect_cong ex_cong1) auto
    qed
    moreover have "n = 512 - Suc i" "length (tables ?s t) = 512" using Suc.hyps(2) Suc.prems(1) ts by simp_all
    ultimately obtain s' where s': "clean_loop t 1 a c (Suc i) ?s = Some (kSuccess, s')"
      "bmm_limit (manager s') = bmm_limit m1" "\<forall>g. g \<noteq> t \<longrightarrow> tables s' g = tables ?s g"
      "allocated (manager s') = allocated m1 - given_back c (Suc i) (tables s t)"
      using Suc.hyps(1) [of "Suc i" ?s] pr ts(3) by metis
    have "allocated (manager s') = allocated (manager s) - given_back c i (tables s t)"
      unfolding s'(4) m1(3) gb using True by auto
    moreover have "\<forall>g. g \<noteq> t \<longrightarrow> tables s' g = tables s g" using s'(3) ts(2) by simp
    ultimately show ?thesis using s'(1,2) m1(2) eq by simp
  qed
qed

text \<open>
  releasing a whole page map leaks its read-only pages.  \<^verbatim>\<open>CleanPageMap\<close> is asked to release
  read-only pages too, but does not pass this on when it goes down a level: of a table with one
  present entry it frees the table of the next level and the writable pages in it, while the frames
  of its read-only pages stay allocated although nothing refers to them any more.
\<close>

theorem CleanPageMap_leaks_readonly:
  assumes "length (tables s t) = 512" and "length (tables s u) = 512" and "u \<noteq> t" and "Part a 1 = 0"
    and "Part a 2 \<le> j" and "j < 512" and "\<forall>k < 512. present (tables s t ! k) \<longleftrightarrow> k = j"
    and "addr (tables s t ! j) = u" and "u < bmm_limit (manager s)"
    and "\<forall>e \<in> set (tables s u). present e \<longrightarrow> addr e < bmm_limit (manager s)"
  shows "\<exists>s'. CleanPageMap t 2 a True s = Some (kSuccess, s')
    \<and> allocated (manager s') = allocated (manager s) - {u} - given_back False 0 (tables s u)"
proof -
  let ?e = "tables s t ! j"
  have "clean_loop t 2 a True (Part a 2) s = clean_loop t 2 a True j s"
    by (rule clean_loop_skip) (use assms in auto)
  moreover obtain s1 where s1: "clean_loop u 1 a False 0 s = Some (kSuccess, s1)"
    "bmm_limit (manager s1) = bmm_limit (manager s)"
    "allocated (manager s1) = allocated (manager s) - given_back False 0 (tables s u)"
    "\<forall>g. g \<noteq> u \<longrightarrow> tables s1 g = tables s g"
    using clean_loop_leaf [OF assms(2,10), of a False 0] by blast
  have u1: "u < bmm_limit (manager s1)" using s1(2) assms(9) by simp
  obtain m2 where m2: "free_frame u s1 = Some (kSuccess, s1\<lparr>manager := m2\<rparr>)"
    "bmm_limit m2 = bmm_limit (manager s1)" "allocated m2 = allocated (manager s1) - {u}"
    by (rule free_frame_below [OF u1])
  let ?s = "set_entry t j zero_entry (s1\<lparr>manager := m2\<rparr>)"
  have t1: "tables s1 t = tables s t" using s1(4) assms(3) by metis
  have "clean_loop t 2 a True j s = clean_loop t 2 a True (Suc j) ?s"
    using assms(1,4,6-8) s1(1) m2(1) by (simp add: clean_loop.simps [of t 2 a True j] Pointer_def)
  moreover have "clean_loop t 2 a True (Suc j) ?s = clean_loop t 2 a True 512 ?s"
    by (rule clean_loop_skip) (use assms(1,6,7) t1 in \<open>auto simp: set_entry_def\<close>)
  moreover have "clean_loop t 2 a True 512 ?s = Some (kSuccess, ?s)" by (simp add: clean_loop.simps [of t])
  ultimately show ?thesis using s1(3) m2(3) by (auto simp: CleanPageMap_def set_entry_def)
qed

definition leak_example :: paging where
  "leak_example = paging_example\<lparr>tables := (\<lambda>f. replicate 512 zero_entry)
     (0 := (replicate 512 zero_entry)[0 := zero_entry\<lparr>present := True, writable := True, addr := 1\<rparr>],
      1 := (replicate 512 zero_entry)[0 := zero_entry\<lparr>present := True, addr := 2\<rparr>])\<rparr>"

theorem CleanPageMap_leaks_readonly_witness:
  "\<exists>s'. CleanPageMap 0 2 (la_of 0) True leak_example = Some (kSuccess, s') \<and> 2 \<in> allocated (manager s')"
proof -
  have T: "tables leak_example 0 = (replicate 512 zero_entry)[0 := zero_entry\<lparr>present := True, writable := True, addr := 1\<rparr>]"
    "tables leak_example 1 = (replicate 512 zero_entry)[0 := zero_entry\<lparr>present := True, addr := 2\<rparr>]"
    "manager leak_example = manager paging_example"
    by (simp_all add: leak_example_def del: replicate.simps)
  have lim: "bmm_limit (manager paging_example) = 128"
    by (simp add: paging_example_def bmm_limit_def kBitsPerMapLine_def)
  have P: "Part (la_of 0) l = 0" for l by (simp add: Part_def la_of_def)
  have pr: "present (tables leak_example 0 ! k) \<longleftrightarrow> k = 0" if "k < 512" for k
    using that unfolding T by (simp add: nth_list_update zero_entry_def del: replicate.simps)
  have le: "\<forall>e \<in> set (tables leak_example 1). present e \<longrightarrow> addr e < bmm_limit (manager leak_example)"
    using set_update_subset_insert [of "replicate 512 zero_entry" 0 "zero_entry\<lparr>present := True, addr := 2\<rparr>"]
    unfolding T lim by (auto simp: zero_entry_def simp del: replicate.simps)
  have "given_back False 0 (tables leak_example 1) = {}"
    unfolding given_back_def T by (auto simp: nth_list_update zero_entry_def simp del: replicate.simps split: if_splits)
  moreover have "2 \<in> allocated (manager leak_example)" using paging_example_ok(3) [of 2] T(3) by simp
  moreover have "\<exists>s'. CleanPageMap 0 2 (la_of 0) True leak_example = Some (kSuccess, s')
     \<and> allocated (manager s') = allocated (manager leak_example) - {1} - given_back False 0 (tables leak_example 1)"
    by (rule CleanPageMap_leaks_readonly [of leak_example 0 1 "la_of 0" 0])
      (use pr le lim in \<open>simp_all add: T T(2) [unfolded One_nat_def] P del: replicate.simps\<close>)
  ultimately show ?thesis by auto
qed

section \<open>Addresses and the identity map\<close>

text \<open>
  the parts of a linear address.  Splitting a 64-bit address into its parts loses nothing, every
  index of a table is below 512, and setting one part changes that part only.
\<close>

theorem LinearAddress_parts_roundtrip:
  assumes "v < 2 ^ 64" and "1 \<le> l" and "l \<le> 4" and "x < 512"
  shows "la_value (la_of v) = v \<and> Part (la_of v) l < 512 \<and> Part (SetPart l x (la_of v)) l = x
    \<and> (\<forall>k. k \<noteq> l \<longrightarrow> Part (SetPart l x (la_of v)) k = Part (la_of v) k)"
proof -
  have d: "(v div 2 ^ (n + k)) = (v div 2 ^ n) div 2 ^ k" for n k by (simp add: div_mult2_eq power_add)
  have "v div 2 ^ 48 < 2 ^ 16" using assms(1) by (simp add: less_mult_imp_div_less)
  then have top: "v div 2 ^ 48 mod 2 ^ 16 = v div 2 ^ 48" by simp
  have "v div 2 ^ 39 mod 2 ^ 9 + 2 ^ 9 * (v div 2 ^ 48) = v div 2 ^ 39"
    using d [of 39 9] by simp
  moreover have "v div 2 ^ 30 mod 2 ^ 9 + 2 ^ 9 * (v div 2 ^ 39) = v div 2 ^ 30"
    using d [of 30 9] by simp
  moreover have "v div 2 ^ 21 mod 2 ^ 9 + 2 ^ 9 * (v div 2 ^ 30) = v div 2 ^ 21"
    using d [of 21 9] by simp
  moreover have "v div 2 ^ 12 mod 2 ^ 9 + 2 ^ 9 * (v div 2 ^ 21) = v div 2 ^ 12"
    using d [of 12 9] by simp
  moreover have "v mod 2 ^ 12 + 2 ^ 12 * (v div 2 ^ 12) = v" by simp
  ultimately have "la_value (la_of v) = v"
    unfolding la_value_def la_of_def LinearAddress4Level.simps top by simp
  moreover have "Part (la_of v) l < 512" using parts_okD [OF parts_ok_la_of(1)] assms(2,3) by simp
  ultimately show ?thesis using SetPart_same [OF assms(2-4)] by simp
qed

theorem LinearAddress_parts_roundtrip_witness:
  "la_value (la_of 0xffff8000deadbeef) = 0xffff8000deadbeef \<and> Part (SetPart 2 7 (la_of 0xffff8000deadbeef)) 2 = 7"
  using LinearAddress_parts_roundtrip [of "0xffff8000deadbeef" 2 7] by simp

end
