(* ===== verification/Graphics.thy ===== *)
theory Graphics imports Prelude begin

text \<open>
  \<^verbatim>\<open>kernel/graphics.hpp\<close> and \<^verbatim>\<open>graphics.cpp\<close>: colours, vectors, rectangles and the drawing functions over
  the abstract class \<^verbatim>\<open>PixelWriter\<close>.

  \<^verbatim>\<open>Vector2D<int>\<close> has unbounded integers here: the coordinates of the kernel are those of a screen and
  far from the bounds of \<^verbatim>\<open>int\<close>.  \<^verbatim>\<open>PixelWriter\<close> is a record of its virtual functions over the state of
  the object; writing outside the picture is \<open>None\<close>.  The locale \<open>pixel_canvas\<close> is the contract of a
  writer; what the drawing functions do is proved in it once, for every writer.
\<close>

section \<open>Colours\<close>

record PixelColor =
  px_r :: u8
  px_g :: u8
  px_b :: u8

definition px :: "u8 \<Rightarrow> u8 \<Rightarrow> u8 \<Rightarrow> PixelColor" where
  "px r g b = \<lparr>px_r = r, px_g = g, px_b = b\<rparr>"

definition color_eq :: "PixelColor \<Rightarrow> PixelColor \<Rightarrow> bool" where
  "color_eq l r \<longleftrightarrow> px_r l = px_r r \<and> px_g l = px_g r \<and> px_b l = px_b r"

definition color_neq :: "PixelColor \<Rightarrow> PixelColor \<Rightarrow> bool" where
  "color_neq l r \<longleftrightarrow> \<not> color_eq l r"

definition color_add :: "PixelColor \<Rightarrow> PixelColor \<Rightarrow> PixelColor" where
  "color_add l r = px (px_r l + px_r r) (px_g l + px_g r) (px_b l + px_b r)"

definition ToColor :: "u32 \<Rightarrow> PixelColor" where
  "ToColor c = px (ucast (drop_bit 16 c AND 0xff)) (ucast (drop_bit 8 c AND 0xff)) (ucast (c AND 0xff))"

lemma color_eq_iff [simp]: "color_eq l r \<longleftrightarrow> l = r"
  by (auto simp: color_eq_def)

definition kDesktopBGColor :: PixelColor where "kDesktopBGColor = px 0 162 232"
definition kDesktopFGColor :: PixelColor where "kDesktopFGColor = px 255 255 255"
definition kWindowTitleColor :: PixelColor where "kWindowTitleColor = px 255 255 255"
definition kWindowTitleBlurColor :: PixelColor where "kWindowTitleBlurColor = px 195 195 195"
definition kWindowCloseColor :: PixelColor where "kWindowCloseColor = px 237 28 36"
definition kWindowBGColor :: PixelColor where "kWindowBGColor = px 229 229 229"
definition kWindowFGColor :: PixelColor where "kWindowFGColor = px 0 0 0"
definition kTextBoxBGColor :: PixelColor where "kTextBoxBGColor = px 255 255 255"
definition kTextBoxBorderTopColor :: PixelColor where "kTextBoxBorderTopColor = ToColor 0x848484"
definition kTextBoxBorderLeftColor :: PixelColor where "kTextBoxBorderLeftColor = ToColor 0x848484"
definition kTextBoxBorderBottomColor :: PixelColor where "kTextBoxBorderBottomColor = ToColor 0xc6c6c6"
definition kTextBoxBorderRightColor :: PixelColor where "kTextBoxBorderRightColor = ToColor 0xc6c6c6"
definition kTerminalBGColor :: PixelColor where "kTerminalBGColor = px 0 0 0"
definition kTerminalFGColor :: PixelColor where "kTerminalFGColor = ToColor 0x67be67"

section \<open>Vectors and rectangles\<close>

datatype Vector2D = Vec (vx: int) (vy: int)

instantiation Vector2D :: "{plus, minus, ab_semigroup_add}"
begin

fun plus_Vector2D :: "Vector2D \<Rightarrow> Vector2D \<Rightarrow> Vector2D" where
  "Vec a b + Vec c d = Vec (a + c) (b + d)"

fun minus_Vector2D :: "Vector2D \<Rightarrow> Vector2D \<Rightarrow> Vector2D" where
  "Vec a b - Vec c d = Vec (a - c) (b - d)"

instance
proof
  fix a b c :: Vector2D
  show "a + b + c = a + (b + c)" by (cases a; cases b; cases c) simp
  show "a + b = b + a" by (cases a; cases b) simp
qed

end

lemma vec_sel [simp]:
  "vx (a + b) = vx a + vx b" "vy (a + b) = vy a + vy b"
  "vx (a - b) = vx a - vx b" "vy (a - b) = vy a - vy b"
  by (cases a; cases b; simp)+

lemma vec_eq_iff: "a = b \<longleftrightarrow> vx a = vx b \<and> vy a = vy b"
  by (cases a; cases b) simp

definition ElementMax :: "Vector2D \<Rightarrow> Vector2D \<Rightarrow> Vector2D" where
  "ElementMax l r = Vec (max (vx l) (vx r)) (max (vy l) (vy r))"

definition ElementMin :: "Vector2D \<Rightarrow> Vector2D \<Rightarrow> Vector2D" where
  "ElementMin l r = Vec (min (vx l) (vx r)) (min (vy l) (vy r))"

datatype Rectangle = Rect (rpos: Vector2D) (rsize: Vector2D)

text \<open>\<^verbatim>\<open>operator&\<close>.\<close>

definition rect_and :: "Rectangle \<Rightarrow> Rectangle \<Rightarrow> Rectangle" where
  "rect_and l r =
     (let l_end = rpos l + rsize l; r_end = rpos r + rsize r in
      if vx l_end < vx (rpos r) \<or> vx (rpos l) > vx r_end \<or> vy l_end < vy (rpos r) \<or> vy (rpos l) > vy r_end
      then Rect (Vec 0 0) (Vec 0 0)
      else let new_pos = ElementMax (rpos l) (rpos r);
               new_size = ElementMin l_end r_end - new_pos in
           Rect new_pos new_size)"

text \<open>The pixels of a rectangle, and a rectangle that is not inside out.\<close>

definition in_rect :: "Rectangle \<Rightarrow> Vector2D \<Rightarrow> bool" where
  "in_rect r q \<longleftrightarrow> vx (rpos r) \<le> vx q \<and> vx q < vx (rpos r) + vx (rsize r)
     \<and> vy (rpos r) \<le> vy q \<and> vy q < vy (rpos r) + vy (rsize r)"

definition rect_ok :: "Rectangle \<Rightarrow> bool" where
  "rect_ok r \<longleftrightarrow> 0 \<le> vx (rsize r) \<and> 0 \<le> vy (rsize r)"

lemma rect_and_ok: "rect_ok a \<Longrightarrow> rect_ok b \<Longrightarrow> rect_ok (rect_and a b)"
  by (auto simp: rect_ok_def rect_and_def Let_def ElementMax_def ElementMin_def)

lemma in_rect_and: "rect_ok a \<Longrightarrow> rect_ok b \<Longrightarrow> in_rect (rect_and a b) q \<longleftrightarrow> in_rect a q \<and> in_rect b q"
  by (auto simp: rect_ok_def in_rect_def rect_and_def Let_def ElementMax_def ElementMin_def)

text \<open>
  A result that is not the empty rectangle at the origin lies within both, also when it is empty
  because they only touch.
\<close>

lemma rect_and_within:
  assumes "rect_ok a" "rect_ok b" "0 < vy (rsize (rect_and a b)) \<or> 0 < vx (rsize (rect_and a b))"
  shows "vx (rpos a) \<le> vx (rpos (rect_and a b))" "vy (rpos a) \<le> vy (rpos (rect_and a b))"
    "vx (rpos (rect_and a b)) + vx (rsize (rect_and a b)) \<le> vx (rpos a) + vx (rsize a)"
    "vy (rpos (rect_and a b)) + vy (rsize (rect_and a b)) \<le> vy (rpos a) + vy (rsize a)"
    "vx (rpos b) \<le> vx (rpos (rect_and a b))" "vy (rpos b) \<le> vy (rpos (rect_and a b))"
    "vx (rpos (rect_and a b)) + vx (rsize (rect_and a b)) \<le> vx (rpos b) + vx (rsize b)"
    "vy (rpos (rect_and a b)) + vy (rsize (rect_and a b)) \<le> vy (rpos b) + vy (rsize b)"
  using assms by (auto simp: rect_ok_def rect_and_def Let_def ElementMax_def ElementMin_def split: if_splits)

section \<open>Pixel writers\<close>

record 'w PixelWriter =
  pw_Write :: "Vector2D \<Rightarrow> PixelColor \<Rightarrow> 'w \<Rightarrow> 'w option"
  pw_Width :: "'w \<Rightarrow> int"
  pw_Height :: "'w \<Rightarrow> int"
  pw_GetPixel :: "Vector2D \<Rightarrow> 'w \<Rightarrow> PixelColor option"

definition DrawRectangle :: "'w PixelWriter \<Rightarrow> Vector2D \<Rightarrow> Vector2D \<Rightarrow> PixelColor \<Rightarrow> 'w \<Rightarrow> 'w option" where
  "DrawRectangle W pos sz c w =
     (case for_each (\<lambda>dx w. case pw_Write W (pos + Vec dx 0) c w of
              None \<Rightarrow> None
            | Some w' \<Rightarrow> pw_Write W (pos + Vec dx (vy sz - 1)) c w') [0..vx sz - 1] w of
        None \<Rightarrow> None
      | Some w' \<Rightarrow>
          for_each (\<lambda>dy w. case pw_Write W (pos + Vec 0 dy) c w of
              None \<Rightarrow> None
            | Some w' \<Rightarrow> pw_Write W (pos + Vec (vx sz - 1) dy) c w') [1..vy sz - 2] w')"

definition FillRectangle :: "'w PixelWriter \<Rightarrow> Vector2D \<Rightarrow> Vector2D \<Rightarrow> PixelColor \<Rightarrow> 'w \<Rightarrow> 'w option" where
  "FillRectangle W pos sz c w =
     for_each (\<lambda>dy. for_each (\<lambda>dx. pw_Write W (pos + Vec dx dy) c) [0..vx sz - 1]) [0..vy sz - 1] w"

text \<open>
  \<^verbatim>\<open>(int)(std::sqrt(n) + 0.0)\<close> is the integer square root for the arguments the drawing functions can
  have (below \<open>2 ^ 31\<close> the correctly rounded root of a number below a square stays below its root);
  \<^verbatim>\<open>(int)(std::sqrt(n) + 0.5)\<close> rounds to the nearest integer, \<open>k\<close> when \<open>k * k - k < n\<close>.
\<close>

primrec isqrt :: "nat \<Rightarrow> nat" where
  "isqrt 0 = 0"
| "isqrt (Suc n) = (let m = isqrt n in if (m + 1) * (m + 1) \<le> Suc n then m + 1 else m)"

definition rsqrt :: "nat \<Rightarrow> nat" where
  "rsqrt n = (let m = isqrt n in if m * m + m < n then m + 1 else m)"

definition FillCircle :: "'w PixelWriter \<Rightarrow> Vector2D \<Rightarrow> int \<Rightarrow> PixelColor \<Rightarrow> 'w \<Rightarrow> 'w option" where
  "FillCircle W pos radius c w =
     (let r2 = radius * radius in
      for_each (\<lambda>dx.
        let h = int (rsqrt (nat (r2 - dx * dx))) in
        for_each (\<lambda>dy. pw_Write W (pos + Vec dx dy) c) [-h..h]) [-radius..radius] w)"

text \<open>The root of a negative number is not a number, and its conversion to \<^verbatim>\<open>int\<close> undefined.\<close>

definition circle_dy :: "int \<Rightarrow> int \<Rightarrow> int option" where
  "circle_dy r2 dx = (if r2 < dx * dx then None else Some (int (isqrt (nat (r2 - dx * dx)))))"

definition circle_points8 :: "Vector2D \<Rightarrow> int \<Rightarrow> int \<Rightarrow> Vector2D list" where
  "circle_points8 pos dx dy =
     [Vec (vx pos + dx) (vy pos + dy), Vec (vx pos + dx) (vy pos - dy),
      Vec (vx pos - dx) (vy pos + dy), Vec (vx pos - dx) (vy pos - dy),
      Vec (vx pos + dy) (vy pos + dx), Vec (vx pos + dy) (vy pos - dx),
      Vec (vx pos - dy) (vy pos + dx), Vec (vx pos - dy) (vy pos - dx)]"

lemma isqrt_le: "isqrt n * isqrt n \<le> n"
  by (induction n) (auto simp: Let_def)

lemma isqrt_le_self: "isqrt n \<le> n"
  using isqrt_le [of n] le_square [of "isqrt n"] by linarith

text \<open>The loop \<^verbatim>\<open>while(dx < dy)\<close>; the result is the state and the last \<open>dx\<close> and \<open>dy\<close>.\<close>

function circle_loop ::
    "'w PixelWriter \<Rightarrow> Vector2D \<Rightarrow> PixelColor \<Rightarrow> int \<Rightarrow> int \<Rightarrow> 'w \<Rightarrow> ('w \<times> int \<times> int) option" where
  "circle_loop W pos c r2 dx w =
     (case circle_dy r2 dx of
        None \<Rightarrow> None
      | Some dy \<Rightarrow>
          if dx < dy
          then (case for_each (\<lambda>q. pw_Write W q c) (circle_points8 pos dx dy) w of
                  None \<Rightarrow> None
                | Some w' \<Rightarrow> circle_loop W pos c r2 (dx + 1) w')
          else Some (w, dx, dy))"
  by pat_completeness auto
termination
proof (relation "measure (\<lambda>(W, pos, c, r2, dx, w). nat (r2 - dx))")
  show "wf (measure (\<lambda>(W, pos, c, r2, dx, w). nat (r2 - dx)))" by simp
next
  fix W :: "'w PixelWriter" and pos c r2 dx w dy w'
  assume "circle_dy r2 dx = Some dy" "dx < dy"
  then have "dx < int (isqrt (nat (r2 - dx * dx)))" "dx * dx \<le> r2"
    by (auto simp: circle_dy_def split: if_splits)
  with isqrt_le_self [of "nat (r2 - dx * dx)"] have "dx < r2 - dx * dx" by linarith
  moreover have "0 \<le> dx * dx" by simp
  ultimately have "dx < r2" by linarith
  then show "((W, pos, c, r2, dx + 1, w'), (W, pos, c, r2, dx, w))
    \<in> measure (\<lambda>(W, pos, c, r2, dx, w). nat (r2 - dx))" by simp
qed

definition circle_ring :: "'w PixelWriter \<Rightarrow> Vector2D \<Rightarrow> PixelColor \<Rightarrow> int \<Rightarrow> 'w \<Rightarrow> 'w option" where
  "circle_ring W pos c radius w =
     (let r2 = radius * radius in
      case for_each (\<lambda>q. pw_Write W q c)
             [pos + Vec 0 radius, pos + Vec 0 (- radius), pos + Vec radius 0, pos + Vec (- radius) 0] w of
        None \<Rightarrow> None
      | Some w' \<Rightarrow>
          (case circle_loop W pos c r2 1 w' of
             None \<Rightarrow> None
           | Some (w'', dx, dy) \<Rightarrow>
               if dx = dy
               then for_each (\<lambda>q. pw_Write W q c)
                      [pos + Vec dx dy, Vec (vx pos + dx) (vy pos - dy),
                       Vec (vx pos - dx) (vy pos + dy), Vec (vx pos - dx) (vy pos - dy)] w''
               else Some w''))"

text \<open>\<^verbatim>\<open>radius\<close> is the loop's own variable: it grows by \<open>lw - 1\<close> in every round.\<close>

definition DrawCircle :: "'w PixelWriter \<Rightarrow> Vector2D \<Rightarrow> int \<Rightarrow> int \<Rightarrow> PixelColor \<Rightarrow> 'w \<Rightarrow> 'w option" where
  "DrawCircle W pos radius lineWidth c w =
     map_option snd
       (for_each (\<lambda>lw (radius, w).
           let radius = radius + lw - 1 in
           map_option (Pair radius) (circle_ring W pos c radius w)) [1..lineWidth] (radius, w))"

definition DrawDesktop :: "'w PixelWriter \<Rightarrow> 'w \<Rightarrow> 'w option" where
  "DrawDesktop W w = FillRectangle W (Vec 0 0) (Vec (pw_Width W w) (pw_Height W w)) kDesktopBGColor w"

definition DrawDesktopButton :: "'w PixelWriter \<Rightarrow> 'w \<Rightarrow> 'w option" where
  "DrawDesktopButton W w =
     (case FillCircle W (Vec 23 23) 15 (px 160 160 160) w of
        None \<Rightarrow> None
      | Some w' \<Rightarrow> DrawCircle W (Vec 23 23) 21 2 (px 160 160 160) w')"

section \<open>The contract of a pixel writer\<close>

definition in_picture :: "'w PixelWriter \<Rightarrow> 'w \<Rightarrow> Vector2D \<Rightarrow> bool" where
  "in_picture W w q \<longleftrightarrow> in_rect (Rect (Vec 0 0) (Vec (pw_Width W w) (pw_Height W w))) q"

text \<open>The points of a rectangle in the order in which they are written.\<close>

definition rect_points :: "Vector2D \<Rightarrow> Vector2D \<Rightarrow> Vector2D list" where
  "rect_points pos sz = concat (map (\<lambda>dy. map (\<lambda>dx. pos + Vec dx dy) [0..vx sz - 1]) [0..vy sz - 1])"

lemma rect_points_set: "set (rect_points pos sz) = {q. in_rect (Rect pos sz) q}"
proof (intro set_eqI iffI)
  fix q assume "q \<in> set (rect_points pos sz)"
  then show "q \<in> {q. in_rect (Rect pos sz) q}" by (auto simp: rect_points_def in_rect_def)
next
  fix q assume "q \<in> {q. in_rect (Rect pos sz) q}"
  then have "q = pos + Vec (vx q - vx pos) (vy q - vy pos)" "vx q - vx pos \<in> set [0..vx sz - 1]"
    "vy q - vy pos \<in> set [0..vy sz - 1]"
    by (auto simp: in_rect_def vec_eq_iff)
  then show "q \<in> set (rect_points pos sz)" unfolding rect_points_def by force
qed

lemma FillRectangle_points:
  "FillRectangle W pos sz c w = for_each (\<lambda>q. pw_Write W q c) (rect_points pos sz) w"
  unfolding FillRectangle_def rect_points_def for_each_concat [symmetric] for_each_map ..

text \<open>
  A writer is right when writing in the picture succeeds and sets that pixel alone; \<open>look\<close> is how the picture
  is looked at, mostly by \<^verbatim>\<open>GetPixel\<close>, for a window also through the shadow buffer that reaches the screen.
\<close>

locale pixel_canvas =
  fixes W :: "'w PixelWriter" and ok :: "'w \<Rightarrow> bool" and look :: "Vector2D \<Rightarrow> 'w \<Rightarrow> PixelColor option"
  assumes write_in: "ok w \<Longrightarrow> in_picture W w q \<Longrightarrow>
      \<exists>w'. pw_Write W q c w = Some w' \<and> ok w' \<and> pw_Width W w' = pw_Width W w
         \<and> pw_Height W w' = pw_Height W w
         \<and> (\<forall>p. in_picture W w p \<longrightarrow> look p w' = (if p = q then Some c else look p w))"
begin

definition painted :: "(Vector2D \<Rightarrow> bool) \<Rightarrow> PixelColor \<Rightarrow> 'w \<Rightarrow> 'w \<Rightarrow> bool" where
  "painted P c w w' \<longleftrightarrow> ok w' \<and> pw_Width W w' = pw_Width W w \<and> pw_Height W w' = pw_Height W w
     \<and> (\<forall>p. in_picture W w p \<longrightarrow> look p w' = (if P p then Some c else look p w))"

lemma write_list:
  "ok w \<Longrightarrow> \<forall>q \<in> set qs. in_picture W w q \<Longrightarrow>
     \<exists>w'. for_each (\<lambda>q. pw_Write W q c) qs w = Some w' \<and> painted (\<lambda>p. p \<in> set qs) c w w'"
proof (induction qs arbitrary: w)
  case Nil
  then show ?case by (simp add: painted_def)
next
  case (Cons q qs)
  from write_in [of w q c] Cons.prems obtain w1 where w1: "pw_Write W q c w = Some w1" "ok w1"
    "pw_Width W w1 = pw_Width W w" "pw_Height W w1 = pw_Height W w"
    "\<forall>p. in_picture W w p \<longrightarrow> look p w1 = (if p = q then Some c else look p w)" by auto
  have same: "in_picture W w1 p = in_picture W w p" for p using w1(3,4) by (simp add: in_picture_def)
  with Cons.IH [of w1] w1(2) Cons.prems(2) obtain w2 where
    "for_each (\<lambda>q. pw_Write W q c) qs w1 = Some w2" "painted (\<lambda>p. p \<in> set qs) c w1 w2" by auto
  with w1 same show ?case by (auto simp: painted_def)
qed

lemma FillRectangle_paints:
  assumes "ok w" "\<forall>q. in_rect (Rect pos sz) q \<longrightarrow> in_picture W w q"
  shows "\<exists>w'. FillRectangle W pos sz c w = Some w' \<and> painted (in_rect (Rect pos sz)) c w w'"
proof -
  have "\<forall>q \<in> set (rect_points pos sz). in_picture W w q" using assms(2) by (simp add: rect_points_set)
  from write_list [OF assms(1) this, of c] show ?thesis by (simp add: FillRectangle_points rect_points_set)
qed

lemma painted_trans_same:
  "painted P c w w1 \<Longrightarrow> painted Q c w1 w2 \<Longrightarrow> painted (\<lambda>p. P p \<or> Q p) c w w2"
  by (auto simp: painted_def in_picture_def)

end

end
