(* ===== verification/Frame_Buffer.thy ===== *)
theory Frame_Buffer imports Graphics KError begin

text \<open>
  \<^verbatim>\<open>kernel/frame_buffer_config.hpp\<close>, the two frame buffer writers of \<^verbatim>\<open>graphics.hpp\<close> and
  \<^verbatim>\<open>frame_buffer.cpp\<close>.

  The pointer \<^verbatim>\<open>frame_buffer\<close> is the memory it points to, \<open>None\<close> when it is null; a \<^verbatim>\<open>FrameBuffer\<close> is
  its configuration, whose memory is the screen's or its own \<^verbatim>\<open>_buffer\<close>.  Offsets into it are
  computed in 32 bits, as in the code.  An access outside the memory is \<open>None\<close>.
\<close>

section \<open>Configuration and writers\<close>

datatype PixelFormat = kPixelRGBResv8BitPerColor | kPixelBGRResv8BitPerColor

record FrameBufferConfig =
  frame_buffer :: "u8 list option"
  pixels_per_scan_line :: u32
  horizontal_resolution :: u32
  vertical_resolution :: u32
  pixel_format :: PixelFormat

type_synonym FrameBuffer = FrameBufferConfig

definition PixelAt :: "FrameBufferConfig \<Rightarrow> Vector2D \<Rightarrow> nat" where
  "PixelAt config pos =
     unat (4 * (pixels_per_scan_line config * word_of_int (vy pos) + word_of_int (vx pos)))"

definition put_bytes :: "FrameBufferConfig \<Rightarrow> nat \<Rightarrow> u8 \<Rightarrow> u8 \<Rightarrow> u8 \<Rightarrow> FrameBufferConfig option" where
  "put_bytes config p b0 b1 b2 =
     (case frame_buffer config of
        None \<Rightarrow> None
      | Some mem \<Rightarrow>
          if p + 2 < length mem
          then Some (config\<lparr>frame_buffer := Some (mem[p := b0, p + 1 := b1, p + 2 := b2])\<rparr>)
          else None)"

definition get_bytes :: "FrameBufferConfig \<Rightarrow> nat \<Rightarrow> (u8 \<times> u8 \<times> u8) option" where
  "get_bytes config p =
     (case frame_buffer config of
        None \<Rightarrow> None
      | Some mem \<Rightarrow> if p + 2 < length mem then Some (mem ! p, mem ! (p + 1), mem ! (p + 2)) else None)"

definition RGB_Write :: "Vector2D \<Rightarrow> PixelColor \<Rightarrow> FrameBufferConfig \<Rightarrow> FrameBufferConfig option" where
  "RGB_Write pos c config = put_bytes config (PixelAt config pos) (px_r c) (px_g c) (px_b c)"

definition RGB_GetPixel :: "Vector2D \<Rightarrow> FrameBufferConfig \<Rightarrow> PixelColor option" where
  "RGB_GetPixel pos config = map_option (\<lambda>(b0, b1, b2). px b0 b1 b2) (get_bytes config (PixelAt config pos))"

definition BGR_Write :: "Vector2D \<Rightarrow> PixelColor \<Rightarrow> FrameBufferConfig \<Rightarrow> FrameBufferConfig option" where
  "BGR_Write pos c config = put_bytes config (PixelAt config pos) (px_b c) (px_g c) (px_r c)"

definition BGR_GetPixel :: "Vector2D \<Rightarrow> FrameBufferConfig \<Rightarrow> PixelColor option" where
  "BGR_GetPixel pos config = map_option (\<lambda>(b0, b1, b2). px b2 b1 b0) (get_bytes config (PixelAt config pos))"

text \<open>The writer that \<^verbatim>\<open>Initialize\<close> makes for the pixel format.\<close>

definition fb_Write :: "Vector2D \<Rightarrow> PixelColor \<Rightarrow> FrameBuffer \<Rightarrow> FrameBuffer option" where
  "fb_Write pos c fb =
     (case pixel_format fb of
        kPixelRGBResv8BitPerColor \<Rightarrow> RGB_Write pos c fb
      | kPixelBGRResv8BitPerColor \<Rightarrow> BGR_Write pos c fb)"

definition fb_GetPixel :: "Vector2D \<Rightarrow> FrameBuffer \<Rightarrow> PixelColor option" where
  "fb_GetPixel pos fb =
     (case pixel_format fb of
        kPixelRGBResv8BitPerColor \<Rightarrow> RGB_GetPixel pos fb
      | kPixelBGRResv8BitPerColor \<Rightarrow> BGR_GetPixel pos fb)"

definition fb_Width :: "FrameBuffer \<Rightarrow> int" where
  "fb_Width fb = sint (horizontal_resolution fb)"

definition fb_Height :: "FrameBuffer \<Rightarrow> int" where
  "fb_Height fb = sint (vertical_resolution fb)"

definition Writer :: "FrameBuffer PixelWriter" where
  "Writer = \<lparr>pw_Write = fb_Write, pw_Width = fb_Width, pw_Height = fb_Height, pw_GetPixel = fb_GetPixel\<rparr>"

section \<open>Frame buffers\<close>

definition BytesPerPixel :: "PixelFormat \<Rightarrow> int" where
  "BytesPerPixel fmt = (case fmt of kPixelRGBResv8BitPerColor \<Rightarrow> 4 | kPixelBGRResv8BitPerColor \<Rightarrow> 4)"

definition FrameBufferSize :: "FrameBufferConfig \<Rightarrow> Vector2D" where
  "FrameBufferSize config = Vec (sint (horizontal_resolution config)) (sint (vertical_resolution config))"

definition FrameAddrAt :: "Vector2D \<Rightarrow> FrameBufferConfig \<Rightarrow> nat" where
  "FrameAddrAt pos config =
     unat (word_of_int (BytesPerPixel (pixel_format config))
       * (pixels_per_scan_line config * word_of_int (vy pos) + word_of_int (vx pos)))"

definition scan_line_bytes :: "FrameBufferConfig \<Rightarrow> nat" where
  "scan_line_bytes config =
     unat (word_of_int (BytesPerPixel (pixel_format config)) * pixels_per_scan_line config)"

definition Initialize :: "FrameBufferConfig \<Rightarrow> FrameBuffer \<times> error_code" where
  "Initialize config =
     (if BytesPerPixel (pixel_format config) \<le> 0 then (config, kUnknownPixelFormat)
      else case frame_buffer config of
        Some mem \<Rightarrow> (config, kSuccess)
      | None \<Rightarrow>
          (config\<lparr>frame_buffer := Some (replicate
               (unat (word_of_int (BytesPerPixel (pixel_format config))
                  * horizontal_resolution config * vertical_resolution config)) 0),
             pixels_per_scan_line := horizontal_resolution config\<rparr>, kSuccess))"

text \<open>\<^verbatim>\<open>memcpy\<close> between two objects; a negative size is a huge \<^verbatim>\<open>size_t\<close>.\<close>

definition memcpy :: "u8 list \<Rightarrow> nat \<Rightarrow> u8 list \<Rightarrow> nat \<Rightarrow> int \<Rightarrow> u8 list option" where
  "memcpy dst d src s n =
     (if 0 \<le> n \<and> d + nat n \<le> length dst \<and> s + nat n \<le> length src
      then Some (take d dst @ take (nat n) (drop s src) @ drop (d + nat n) dst) else None)"

fun copy_rows :: "nat \<Rightarrow> int \<Rightarrow> nat \<Rightarrow> nat \<Rightarrow> nat \<Rightarrow> nat \<Rightarrow> u8 list \<Rightarrow> u8 list \<Rightarrow> u8 list option" where
  "copy_rows 0 n dstep sstep d s src dst = Some dst"
| "copy_rows (Suc k) n dstep sstep d s src dst =
     (case memcpy dst d src s n of
        None \<Rightarrow> None
      | Some dst' \<Rightarrow> copy_rows k n dstep sstep (d + dstep) (s + sstep) src dst')"

definition Copy :: "Vector2D \<Rightarrow> FrameBuffer \<Rightarrow> Rectangle \<Rightarrow> FrameBuffer \<Rightarrow> (FrameBuffer \<times> error_code) option" where
  "Copy dst_pos src src_area self =
     (if pixel_format self \<noteq> pixel_format src then Some (self, kUnknownPixelFormat)
      else let bytes_per_pixel = BytesPerPixel (pixel_format self) in
      if bytes_per_pixel \<le> 0 then Some (self, kUnknownPixelFormat)
      else
        let src_area_shifted = Rect dst_pos (rsize src_area);
            src_outline = Rect (dst_pos - rpos src_area) (FrameBufferSize src);
            dst_outline = Rect (Vec 0 0) (FrameBufferSize self);
            copy_area = rect_and (rect_and dst_outline src_outline) src_area_shifted;
            src_start_pos = rpos copy_area - rpos src_outline
        in case (frame_buffer self, frame_buffer src) of
             (Some dst_mem, Some src_mem) \<Rightarrow>
               map_option (\<lambda>mem. (self\<lparr>frame_buffer := Some mem\<rparr>, kSuccess))
                 (copy_rows (nat (vy (rsize copy_area))) (bytes_per_pixel * vx (rsize copy_area))
                    (scan_line_bytes self) (scan_line_bytes src)
                    (FrameAddrAt (rpos copy_area) self) (FrameAddrAt src_start_pos src) src_mem dst_mem)
           | _ \<Rightarrow> None)"

text \<open>
  \<^verbatim>\<open>Move\<close> copies within one memory; \<^verbatim>\<open>memcpy\<close> of overlapping ranges is undefined.  The step is added
  when the area moves up and subtracted when it moves down.
\<close>

definition memcpy_within :: "u8 list \<Rightarrow> int \<Rightarrow> int \<Rightarrow> int \<Rightarrow> u8 list option" where
  "memcpy_within mem d s n =
     (if 0 \<le> n \<and> 0 \<le> d \<and> 0 \<le> s \<and> (n = 0 \<or> d + n \<le> s \<or> s + n \<le> d)
      then memcpy mem (nat d) mem (nat s) n else None)"

fun move_rows :: "nat \<Rightarrow> int \<Rightarrow> int \<Rightarrow> int \<Rightarrow> int \<Rightarrow> u8 list \<Rightarrow> u8 list option" where
  "move_rows 0 n step d s mem = Some mem"
| "move_rows (Suc k) n step d s mem =
     (case memcpy_within mem d s n of
        None \<Rightarrow> None
      | Some mem' \<Rightarrow> move_rows k n step (d + step) (s + step) mem')"

definition Move :: "Vector2D \<Rightarrow> Rectangle \<Rightarrow> FrameBuffer \<Rightarrow> FrameBuffer option" where
  "Move dst_pos src self =
     (let n = BytesPerPixel (pixel_format self) * vx (rsize src);
          step = int (scan_line_bytes self);
          bottom = Vec 0 (vy (rsize src) - 1)
      in case frame_buffer self of
           None \<Rightarrow> None
         | Some mem \<Rightarrow>
             map_option (\<lambda>mem. self\<lparr>frame_buffer := Some mem\<rparr>)
               (if vy dst_pos < vy (rpos src)
                then move_rows (nat (vy (rsize src))) n step
                       (int (FrameAddrAt dst_pos self)) (int (FrameAddrAt (rpos src) self)) mem
                else move_rows (nat (vy (rsize src))) n (- step)
                       (int (FrameAddrAt (dst_pos + bottom) self))
                       (int (FrameAddrAt (rpos src + bottom) self)) mem))"

section \<open>Well-formed frame buffers\<close>

text \<open>
  The memory holds the picture, a line is at least as long as the picture is wide, and neither the
  offsets nor the resolutions leave 32 bits.
\<close>

definition fb_ok :: "FrameBuffer \<Rightarrow> bool" where
  "fb_ok fb \<longleftrightarrow> (case frame_buffer fb of
       None \<Rightarrow> False
     | Some mem \<Rightarrow> 4 * (uint (pixels_per_scan_line fb) * uint (vertical_resolution fb)) \<le> int (length mem))
     \<and> uint (horizontal_resolution fb) \<le> uint (pixels_per_scan_line fb)
     \<and> uint (pixels_per_scan_line fb) < 2 ^ 29
     \<and> uint (vertical_resolution fb) < 2 ^ 29
     \<and> 4 * (uint (pixels_per_scan_line fb) * (uint (vertical_resolution fb) + 1)) < 2 ^ 32"

definition in_fb :: "FrameBuffer \<Rightarrow> Vector2D \<Rightarrow> bool" where
  "in_fb fb q \<longleftrightarrow> 0 \<le> vx q \<and> vx q < uint (horizontal_resolution fb)
     \<and> 0 \<le> vy q \<and> vy q < uint (vertical_resolution fb)"

text \<open>The memory of a well-formed buffer.\<close>

definition fb_mem :: "FrameBuffer \<Rightarrow> u8 list" where
  "fb_mem fb = (case frame_buffer fb of None \<Rightarrow> [] | Some mem \<Rightarrow> mem)"

lemma sint_small: "uint (w :: u32) < 2 ^ 31 \<Longrightarrow> sint w = uint w"
  by (simp add: sint_uint signed_take_bit_int_eq_self order_trans [OF _ uint_ge_0])

lemma fb_okD:
  assumes "fb_ok fb"
  shows "frame_buffer fb = Some (fb_mem fb)"
    "4 * (uint (pixels_per_scan_line fb) * uint (vertical_resolution fb)) \<le> int (length (fb_mem fb))"
    "uint (horizontal_resolution fb) \<le> uint (pixels_per_scan_line fb)"
    "fb_Width fb = uint (horizontal_resolution fb)"
    "fb_Height fb = uint (vertical_resolution fb)"
    "FrameBufferSize fb = Vec (uint (horizontal_resolution fb)) (uint (vertical_resolution fb))"
  using assms
  by (auto simp: fb_ok_def fb_mem_def fb_Width_def fb_Height_def FrameBufferSize_def sint_small
      split: option.splits)

lemma in_picture_fb: "fb_ok fb \<Longrightarrow> in_picture Writer fb q \<longleftrightarrow> in_fb fb q"
  by (auto simp: in_picture_def Writer_def in_rect_def in_fb_def fb_okD)

lemma unat_word_of_int_small: "0 \<le> z \<Longrightarrow> z < 2 ^ 32 \<Longrightarrow> unat (word_of_int z :: u32) = nat z"
  by (simp add: unsigned_of_int take_bit_int_eq_self flip: nat_uint_eq)

text \<open>Where a pixel is; the bound leaves room for the end of a line and for the line below the last.\<close>

lemma offset_small:
  assumes "fb_ok fb" "0 \<le> x" "x \<le> uint (horizontal_resolution fb)"
    "0 \<le> y" "y \<le> uint (vertical_resolution fb)"
  shows "unat (4 * (pixels_per_scan_line fb * word_of_int y + word_of_int x))
    = nat (4 * (uint (pixels_per_scan_line fb) * y + x))"
proof -
  let ?P = "uint (pixels_per_scan_line fb)" and ?V = "uint (vertical_resolution fb)"
  have eq: "4 * (pixels_per_scan_line fb * word_of_int y + word_of_int x)
      = (word_of_int (4 * (?P * y + x)) :: u32)" by simp
  have "4 * (?P * (?V + 1)) < 2 ^ 32" "x \<le> ?P" using assms by (auto simp: fb_ok_def)
  moreover have "?P * y \<le> ?P * ?V" using assms(5) by (simp add: mult_left_mono)
  ultimately have "4 * (?P * y + x) < 2 ^ 32" by (simp add: algebra_simps)
  moreover have "0 \<le> 4 * (?P * y + x)" using assms(2,4) by simp
  ultimately show ?thesis unfolding eq by (rule unat_word_of_int_small [rotated])
qed

lemma PixelAt_in: "fb_ok fb \<Longrightarrow> in_fb fb q \<Longrightarrow>
    PixelAt fb q = nat (4 * (uint (pixels_per_scan_line fb) * vy q + vx q))"
  using offset_small [of fb "vx q" "vy q"] by (simp add: PixelAt_def in_fb_def)

lemma nat_room: "0 \<le> (z::int) \<Longrightarrow> z + 3 < int n \<Longrightarrow> nat z + 3 < n"
  by linarith

lemma nat_apart: "0 \<le> (a::int) \<Longrightarrow> 0 \<le> b \<Longrightarrow> \<not> (nat (4 * a) + 4 \<le> nat (4 * b) \<or> nat (4 * b) + 4 \<le> nat (4 * a)) \<Longrightarrow> a = b"
  by linarith

lemma PixelAt_room:
  assumes "fb_ok fb" "in_fb fb q"
  shows "PixelAt fb q + 3 < length (fb_mem fb)"
proof -
  let ?P = "uint (pixels_per_scan_line fb)" and ?V = "uint (vertical_resolution fb)"
  have q: "0 \<le> vx q" "vx q < ?P" "0 \<le> vy q" "vy q + 1 \<le> ?V" using assms fb_okD(3) [of fb] by (auto simp: in_fb_def)
  have "?P * (vy q + 1) \<le> ?P * ?V" using q(4) by (intro mult_left_mono) auto
  then have "4 * (?P * vy q + vx q) + 3 < int (length (fb_mem fb))"
    using q(2) fb_okD(2) [OF assms(1)] by (simp add: algebra_simps)
  moreover have "0 \<le> ?P * vy q" using q(3) by simp
  ultimately show ?thesis using q(1) unfolding PixelAt_in [OF assms] by (intro nat_room) auto
qed

lemma line_unique:
  fixes P :: int
  assumes "P * y + x = P * y' + x'" "0 \<le> x" "x < P" "0 \<le> x'" "x' < P"
  shows "y = y'" "x = x'"
proof -
  have "(P * y + x) div P = y" "(P * y' + x') div P = y'" using assms(2-5) by auto
  with assms(1) show "y = y'" by simp
  with assms(1) show "x = x'" by simp
qed

text \<open>Different pixels have different bytes.\<close>

lemma PixelAt_inj:
  assumes "fb_ok fb" "in_fb fb p" "in_fb fb q" "p \<noteq> q"
  shows "PixelAt fb p + 4 \<le> PixelAt fb q \<or> PixelAt fb q + 4 \<le> PixelAt fb p"
proof (rule ccontr)
  let ?P = "uint (pixels_per_scan_line fb)"
  have b: "0 \<le> vx p" "vx p < ?P" "0 \<le> vx q" "vx q < ?P" "0 \<le> vy p" "0 \<le> vy q"
    using assms(2,3) fb_okD(3) [OF assms(1)] by (auto simp: in_fb_def)
  then have nn: "0 \<le> ?P * vy p" "0 \<le> ?P * vy q" by auto
  assume "\<not> ?thesis"
  then have "?P * vy p + vx p = ?P * vy q + vx q"
    using b nn unfolding PixelAt_in [OF assms(1,2)] PixelAt_in [OF assms(1,3)] by (intro nat_apart) auto
  from line_unique [OF this b(1-4)] assms(4) show False by (simp add: vec_eq_iff)
qed

lemma put_get_bytes:
  assumes "fb_ok fb" "in_fb fb q"
  shows "\<exists>fb'. put_bytes fb (PixelAt fb q) b0 b1 b2 = Some fb' \<and> fb_ok fb'
     \<and> fb' = fb\<lparr>frame_buffer := Some (fb_mem fb')\<rparr> \<and> length (fb_mem fb') = length (fb_mem fb)
     \<and> (\<forall>p. in_fb fb p \<longrightarrow> get_bytes fb' (PixelAt fb p)
           = (if p = q then Some (b0, b1, b2) else get_bytes fb (PixelAt fb p)))"
proof -
  let ?i = "PixelAt fb q"
  let ?mem = "(fb_mem fb)[?i := b0, ?i + 1 := b1, ?i + 2 := b2]"
  let ?fb = "fb\<lparr>frame_buffer := Some ?mem\<rparr>"
  have i: "?i + 2 < length (fb_mem fb)" using PixelAt_room [OF assms] by simp
  have put: "put_bytes fb ?i b0 b1 b2 = Some ?fb" using i by (simp add: put_bytes_def fb_okD(1) [OF assms(1)])
  have mem: "fb_mem ?fb = ?mem" by (simp add: fb_mem_def)
  have ok: "fb_ok ?fb" using assms(1) fb_okD(2) [OF assms(1)] by (auto simp: fb_ok_def)
  have "get_bytes ?fb (PixelAt fb p) = (if p = q then Some (b0, b1, b2) else get_bytes fb (PixelAt fb p))"
    if p: "in_fb fb p" for p
  proof (cases "p = q")
    case True
    then show ?thesis using i by (simp add: get_bytes_def)
  next
    case False
    from PixelAt_inj [OF assms(1) p assms(2) False] PixelAt_room [OF assms(1) p]
    show ?thesis using False by (auto simp: get_bytes_def fb_okD(1) [OF assms(1)])
  qed
  with put mem ok show ?thesis by (intro exI [of _ ?fb]) simp
qed

lemma fb_same_config:
  assumes "fb' = fb\<lparr>frame_buffer := m\<rparr>"
  shows "PixelAt fb' = PixelAt fb" "in_fb fb' = in_fb fb" "fb_Width fb' = fb_Width fb" "fb_Height fb' = fb_Height fb"
    "pixel_format fb' = pixel_format fb"
  using assms by (auto simp: PixelAt_def in_fb_def fun_eq_iff fb_Width_def fb_Height_def)

lemma fb_write_in:
  assumes "fb_ok fb" "in_fb fb q"
  shows "\<exists>fb'. fb_Write q c fb = Some fb' \<and> fb_ok fb' \<and> fb' = fb\<lparr>frame_buffer := Some (fb_mem fb')\<rparr>
     \<and> (\<forall>p. in_fb fb p \<longrightarrow> fb_GetPixel p fb' = (if p = q then Some c else fb_GetPixel p fb))"
proof -
  have "\<exists>fb'. fb_Write q c fb = Some fb' \<and> fb_ok fb' \<and> fb' = fb\<lparr>frame_buffer := Some (fb_mem fb')\<rparr>
     \<and> (pixel_format fb' = pixel_format fb \<and> PixelAt fb' = PixelAt fb \<longrightarrow>
        (\<forall>p. in_fb fb p \<longrightarrow> fb_GetPixel p fb' = (if p = q then Some c else fb_GetPixel p fb)))"
  proof (cases "pixel_format fb")
    case kPixelRGBResv8BitPerColor
    from put_get_bytes [OF assms, of "px_r c" "px_g c" "px_b c"]
    show ?thesis by (auto simp: fb_Write_def fb_GetPixel_def RGB_Write_def RGB_GetPixel_def px_def
        kPixelRGBResv8BitPerColor)
  next
    case kPixelBGRResv8BitPerColor
    from put_get_bytes [OF assms, of "px_b c" "px_g c" "px_r c"]
    show ?thesis by (auto simp: fb_Write_def fb_GetPixel_def BGR_Write_def BGR_GetPixel_def px_def
        kPixelBGRResv8BitPerColor)
  qed
  then show ?thesis using fb_same_config(1,5) by metis
qed

interpretation fbw: pixel_canvas Writer fb_ok "pw_GetPixel Writer"
proof
  fix fb q c
  assume "fb_ok fb" "in_picture Writer fb q"
  with fb_write_in [of fb q c] in_picture_fb [of fb] obtain fb' where
    "fb_Write q c fb = Some fb'" "fb_ok fb'" "fb' = fb\<lparr>frame_buffer := Some (fb_mem fb')\<rparr>"
    "\<forall>p. in_fb fb p \<longrightarrow> fb_GetPixel p fb' = (if p = q then Some c else fb_GetPixel p fb)" by auto
  with in_picture_fb [OF \<open>fb_ok fb\<close>] fb_same_config(3,4) [OF this(3)]
  show "\<exists>w'. pw_Write Writer q c fb = Some w' \<and> fb_ok w' \<and> pw_Width Writer w' = pw_Width Writer fb
      \<and> pw_Height Writer w' = pw_Height Writer fb
      \<and> (\<forall>p. in_picture Writer fb p \<longrightarrow>
            pw_GetPixel Writer p w' = (if p = q then Some c else pw_GetPixel Writer p fb))"
    by (intro exI [of _ fb']) (simp add: Writer_def)
qed

section \<open>Copying\<close>

lemma memcpy_spec:
  assumes "d + m \<le> length dst" "s + m \<le> length src"
  shows "\<exists>dst'. memcpy dst d src s (int m) = Some dst' \<and> length dst' = length dst
    \<and> (\<forall>j < m. dst' ! (d + j) = src ! (s + j))
    \<and> (\<forall>j < length dst. j < d \<or> d + m \<le> j \<longrightarrow> dst' ! j = dst ! j)"
proof -
  have m: "min (length src - s) m = m" "min (length dst) d = d" using assms by auto
  show ?thesis using assms by (auto simp: memcpy_def nth_append m)
qed

lemma copy_rows_spec:
  "\<forall>i < k. d + i * ds + m \<le> length dst \<Longrightarrow> \<forall>i < k. s + i * ss + m \<le> length src \<Longrightarrow> m \<le> ds \<Longrightarrow>
   \<exists>dst'. copy_rows k (int m) ds ss d s src dst = Some dst' \<and> length dst' = length dst
     \<and> (\<forall>i < k. \<forall>j < m. dst' ! (d + i * ds + j) = src ! (s + i * ss + j))
     \<and> (\<forall>j < length dst. (\<forall>i < k. j < d + i * ds \<or> d + i * ds + m \<le> j) \<longrightarrow> dst' ! j = dst ! j)"
proof (induction k arbitrary: d s dst)
  case 0
  then show ?case by simp
next
  case (Suc k)
  have dm: "d + m \<le> length dst" "s + m \<le> length src" using Suc.prems(1,2) by (force dest: spec [of _ 0])+
  from memcpy_spec [OF this] obtain dst1 where d1: "memcpy dst d src s (int m) = Some dst1"
    "length dst1 = length dst" "\<forall>j < m. dst1 ! (d + j) = src ! (s + j)"
    "\<forall>j < length dst. j < d \<or> d + m \<le> j \<longrightarrow> dst1 ! j = dst ! j" by auto
  have "\<forall>i < k. d + ds + i * ds + m \<le> length dst1" "\<forall>i < k. s + ss + i * ss + m \<le> length src"
    using Suc.prems(1,2) d1(2) by (auto dest: spec [of _ "Suc i" for i] simp: algebra_simps)
  from Suc.IH [OF this Suc.prems(3)] obtain dst2 where d2:
    "copy_rows k (int m) ds ss (d + ds) (s + ss) src dst1 = Some dst2" "length dst2 = length dst1"
    "\<forall>i < k. \<forall>j < m. dst2 ! (d + ds + i * ds + j) = src ! (s + ss + i * ss + j)"
    "\<forall>j < length dst1. (\<forall>i < k. j < d + ds + i * ds \<or> d + ds + i * ds + m \<le> j) \<longrightarrow> dst2 ! j = dst1 ! j"
    by auto
  have first: "dst2 ! (d + j) = src ! (s + j)" if "j < m" for j
    using that d1(2,3) d2(4) [rule_format, of "d + j"] Suc.prems(3) dm(1) by auto
  have "dst2 ! (d + i * ds + j) = src ! (s + i * ss + j)" if "i < Suc k" "j < m" for i j
  proof (cases i)
    case 0
    with first that show ?thesis by simp
  next
    case (Suc i')
    with d2(3) [rule_format, of i' j] that show ?thesis by (simp add: algebra_simps)
  qed
  moreover have "dst2 ! j = dst ! j"
    if "j < length dst" "\<forall>i < Suc k. j < d + i * ds \<or> d + i * ds + m \<le> j" for j
  proof -
    have "\<forall>i < k. j < d + ds + i * ds \<or> d + ds + i * ds + m \<le> j"
      using that(2) by (auto dest: spec [of _ "Suc i" for i] simp: algebra_simps)
    moreover have "j < d \<or> d + m \<le> j" using that(2) by (force dest: spec [of _ 0])
    ultimately show ?thesis using d1(2) d1(4) [rule_format, OF that(1)] d2(4) that(1) by metis
  qed
  ultimately show ?case using d1 d2 by simp
qed

lemma line_unique_nat:
  assumes "P * y + x = P * y' + (x' :: nat)" "x < P" "x' < P"
  shows "y = y'" "x = x'"
proof -
  have "(P * y + x) div P = y" "(P * y' + x') div P = y'" using assms(2,3) by auto
  with assms(1) show "y = y'" by simp
  with assms(1) show "x = x'" by simp
qed

text \<open>
  What copied rows are in pixels of four bytes, with lines of \<open>P\<close> and \<open>Q\<close> pixels in the destination
  and the source.
\<close>

definition rows_copied :: "nat \<Rightarrow> nat \<Rightarrow> nat \<Rightarrow> nat \<Rightarrow> nat \<Rightarrow> nat \<Rightarrow> u8 list \<Rightarrow> u8 list \<Rightarrow> u8 list \<Rightarrow> bool" where
  "rows_copied k m ds ss d s src dst dst' \<longleftrightarrow> length dst' = length dst
     \<and> (\<forall>i < k. \<forall>j < m. dst' ! (d + i * ds + j) = src ! (s + i * ss + j))
     \<and> (\<forall>j < length dst. (\<forall>i < k. j < d + i * ds \<or> d + i * ds + m \<le> j) \<longrightarrow> dst' ! j = dst ! j)"

lemma rows_copied_pixels:
  assumes c: "rows_copied sy (4 * sx) (4 * P) (4 * Q) (4 * (P * cy + cx)) (4 * (Q * spy + spx)) src dst dst'"
    and wd: "cx + sx \<le> P" and k: "k < 4" and x: "x < P" and b: "4 * (P * y + x) + k < length dst"
  shows "dst' ! (4 * (P * y + x) + k) =
      (if cx \<le> x \<and> x < cx + sx \<and> cy \<le> y \<and> y < cy + sy
       then src ! (4 * (Q * (spy + (y - cy)) + (spx + (x - cx))) + k)
       else dst ! (4 * (P * y + x) + k))"
proof (cases "cx \<le> x \<and> x < cx + sx \<and> cy \<le> y \<and> y < cy + sy")
  case True
  then obtain i j where ij: "y = cy + i" "x = cx + j" by (auto simp: le_iff_add)
  from c have "\<forall>i < sy. \<forall>j < 4 * sx. dst' ! (4 * (P * cy + cx) + i * (4 * P) + j)
      = src ! (4 * (Q * spy + spx) + i * (4 * Q) + j)" by (simp add: rows_copied_def)
  from this [rule_format, of i "4 * j + k"] True ij k show ?thesis by (simp add: algebra_simps)
next
  case False
  have "4 * (P * y + x) + k < 4 * (P * cy + cx) + i * (4 * P) \<or> 4 * (P * cy + cx) + i * (4 * P) + 4 * sx \<le> 4 * (P * y + x) + k"
    if i: "i < sy" for i
  proof (rule ccontr)
    assume "\<not> ?thesis"
    then have b: "P * (cy + i) + cx \<le> P * y + x" "P * y + x < P * (cy + i) + cx + sx"
      using k by (simp_all add: algebra_simps)
    define e where "e = P * y + x - (P * (cy + i) + cx)"
    have e: "P * y + x = P * (cy + i) + (cx + e)" "e < sx" using b unfolding e_def by linarith+
    from line_unique_nat [OF e(1) x] wd e(2) i False show False by auto
  qed
  with c b have "dst' ! (4 * (P * y + x) + k) = dst ! (4 * (P * y + x) + k)" by (simp add: rows_copied_def)
  then show ?thesis unfolding if_not_P [OF False] .
qed

lemma row_room:
  fixes Q qy qx i n :: nat
  assumes "qx + sx \<le> Q" "4 * (Q * (qy + sy)) \<le> n" "i < sy"
  shows "4 * (Q * qy + qx) + i * (4 * Q) + 4 * sx \<le> n"
proof -
  have "Q * (qy + i + 1) \<le> Q * (qy + sy)" using assms(3) by (intro mult_left_mono) auto
  with assms(1,2) show ?thesis by (simp add: algebra_simps)
qed

lemma nat_pixel: "0 \<le> x \<Longrightarrow> 0 \<le> y \<Longrightarrow> nat (4 * (uint (P :: u32) * y + x)) = 4 * (unat P * nat y + nat x)"
  by (simp add: nat_mult_distrib nat_add_distrib nat_uint_eq)

lemma nat_sum_unat: "0 \<le> a \<Longrightarrow> 0 \<le> b \<Longrightarrow> a + b \<le> uint (h :: u32) \<Longrightarrow> nat a + nat b \<le> unat h"
  using nat_uint_eq [of h] by linarith

lemma nat_less_unat: "0 \<le> a \<Longrightarrow> a < uint (h :: u32) \<Longrightarrow> nat a < unat h"
  using nat_uint_eq [of h] by linarith

lemma FrameAddrAt_nat:
  assumes "fb_ok fb" "0 \<le> vx q" "vx q \<le> uint (horizontal_resolution fb)"
    "0 \<le> vy q" "vy q \<le> uint (vertical_resolution fb)"
  shows "FrameAddrAt q fb = 4 * (unat (pixels_per_scan_line fb) * nat (vy q) + nat (vx q))"
proof -
  have "FrameAddrAt q fb = unat (4 * (pixels_per_scan_line fb * word_of_int (vy q) + word_of_int (vx q)))"
    by (cases "pixel_format fb") (simp_all add: FrameAddrAt_def BytesPerPixel_def)
  with offset_small [OF assms] nat_pixel [OF assms(2,4)] show ?thesis by simp
qed

lemma PixelAt_nat: "fb_ok fb \<Longrightarrow> in_fb fb q \<Longrightarrow>
    PixelAt fb q = 4 * (unat (pixels_per_scan_line fb) * nat (vy q) + nat (vx q))"
  using nat_pixel [of "vx q" "vy q"] by (simp add: PixelAt_in in_fb_def)

lemma scan_line_nat: "fb_ok fb \<Longrightarrow> scan_line_bytes fb = 4 * unat (pixels_per_scan_line fb)"
proof -
  assume ok: "fb_ok fb"
  have "scan_line_bytes fb = unat (word_of_int (4 * uint (pixels_per_scan_line fb)) :: u32)"
    by (cases "pixel_format fb") (simp_all add: scan_line_bytes_def BytesPerPixel_def)
  also have "\<dots> = nat (4 * uint (pixels_per_scan_line fb))"
    using ok by (intro unat_word_of_int_small) (auto simp: fb_ok_def)
  finally show ?thesis by (simp add: nat_mult_distrib nat_uint_eq)
qed

lemma fb_len_nat: "fb_ok fb \<Longrightarrow>
    4 * (unat (pixels_per_scan_line fb) * unat (vertical_resolution fb)) \<le> length (fb_mem fb)"
proof -
  assume "fb_ok fb"
  from fb_okD(2) [OF this]
  have "int (4 * (unat (pixels_per_scan_line fb) * unat (vertical_resolution fb))) \<le> int (length (fb_mem fb))"
    by (simp only: uint_nat of_nat_mult of_nat_numeral)
  then show ?thesis by (simp only: of_nat_le_iff)
qed

definition decode_px :: "PixelFormat \<Rightarrow> u8 \<times> u8 \<times> u8 \<Rightarrow> PixelColor" where
  "decode_px fmt = (\<lambda>(b0, b1, b2). case fmt of
     kPixelRGBResv8BitPerColor \<Rightarrow> px b0 b1 b2 | kPixelBGRResv8BitPerColor \<Rightarrow> px b2 b1 b0)"

lemma fb_GetPixel_bytes:
  assumes "fb_ok fb" "in_fb fb q"
  shows "fb_GetPixel q fb = (let i = PixelAt fb q; m = fb_mem fb in
    Some (decode_px (pixel_format fb) (m ! (i + 0), m ! (i + 1), m ! (i + 2))))"
  using PixelAt_room [OF assms] fb_okD(1) [OF assms(1)]
  by (cases "pixel_format fb")
    (simp_all add: fb_GetPixel_def RGB_GetPixel_def BGR_GetPixel_def get_bytes_def decode_px_def Let_def)

text \<open>\<open>copied\<close> is what \<^verbatim>\<open>Copy\<close> is to do: the part of the area that both pictures have, and nothing else.\<close>

definition copied :: "Vector2D \<Rightarrow> FrameBuffer \<Rightarrow> Rectangle \<Rightarrow> FrameBuffer \<Rightarrow> FrameBuffer \<Rightarrow> bool" where
  "copied dst_pos src area self self' \<longleftrightarrow> fb_ok self' \<and> self' = self\<lparr>frame_buffer := Some (fb_mem self')\<rparr>
     \<and> (\<forall>q. in_fb self q \<longrightarrow> fb_GetPixel q self' =
           (let p = q - dst_pos + rpos area in
            if in_rect (Rect dst_pos (rsize area)) q \<and> in_fb src p then fb_GetPixel p src else fb_GetPixel q self))"

lemma Copy_spec:
  assumes ok: "fb_ok self" "fb_ok src" and fmt: "pixel_format self = pixel_format src" and area: "rect_ok area"
  shows "\<exists>self'. Copy dst_pos src area self = Some (self', kSuccess) \<and> copied dst_pos src area self self'"
proof -
  let ?D = "Rect (Vec 0 0) (FrameBufferSize self)"
  let ?S = "Rect (dst_pos - rpos area) (FrameBufferSize src)"
  let ?T = "Rect dst_pos (rsize area)"
  define R where "R = rect_and (rect_and ?D ?S) ?T"
  define sp where "sp = rpos R - rpos ?S"
  have a: "rect_ok ?D" "rect_ok ?S" "rect_ok ?T"
    using area by (simp_all add: rect_ok_def fb_okD(6) [OF ok(1)] fb_okD(6) [OF ok(2)])
  then have rok: "rect_ok ?D" "rect_ok ?S" "rect_ok ?T" "rect_ok (rect_and ?D ?S)" "rect_ok R"
    unfolding R_def by (simp_all add: rect_and_ok)
  have inR: "in_rect R q \<longleftrightarrow> in_fb self q \<and> in_fb src (q - dst_pos + rpos area) \<and> in_rect ?T q" for q
    unfolding R_def in_rect_and [OF rok(4,3)] in_rect_and [OF rok(1,2)]
    by (auto simp: in_fb_def in_rect_def fb_okD(6) [OF ok(1)] fb_okD(6) [OF ok(2)])
  let ?k = "nat (vy (rsize R))"
  let ?rows = "copy_rows ?k (4 * vx (rsize R)) (scan_line_bytes self) (scan_line_bytes src)
      (FrameAddrAt (rpos R) self) (FrameAddrAt sp src) (fb_mem src) (fb_mem self)"
  have Copy: "Copy dst_pos src area self = map_option (\<lambda>mem. (self\<lparr>frame_buffer := Some mem\<rparr>, kSuccess)) ?rows"
    using fmt fb_okD(1) [OF ok(1)] fb_okD(1) [OF ok(2)]
    by (cases "pixel_format self") (simp_all add: Copy_def BytesPerPixel_def R_def sp_def Let_def)
  have self: "self\<lparr>frame_buffer := Some (fb_mem self)\<rparr> = self" using fb_okD(1) [OF ok(1)] by simp
  show ?thesis
  proof (cases "0 < vy (rsize R)")
    case False
    then have "\<not> in_rect R q" for q by (auto simp: in_rect_def)
    with inR have "copied dst_pos src area self self" using ok(1) self by (auto simp: copied_def Let_def)
    moreover have "Copy dst_pos src area self = Some (self, kSuccess)"
      using False self unfolding Copy by simp
    ultimately show ?thesis by blast
  next
    case True
    note w = rect_and_within [OF rok(4,3) disjI1, folded R_def, OF True]
    have "0 < vy (rsize (rect_and ?D ?S))" using True w(2,4) by linarith
    note v = rect_and_within [OF rok(1,2) disjI1, OF this]
    note sizes = fb_okD(6) [OF ok(1)] fb_okD(6) [OF ok(2)]
    have R0: "0 \<le> vx (rsize R)" using rok(5) by (simp add: rect_ok_def)
    have D: "0 \<le> vx (rpos R)" "0 \<le> vy (rpos R)" "vx (rpos R) + vx (rsize R) \<le> uint (horizontal_resolution self)"
      "vy (rpos R) + vy (rsize R) \<le> uint (vertical_resolution self)"
      using w v by (auto simp: sizes)
    have S: "0 \<le> vx sp" "0 \<le> vy sp" "vx sp + vx (rsize R) \<le> uint (horizontal_resolution src)"
      "vy sp + vy (rsize R) \<le> uint (vertical_resolution src)"
      using w v by (auto simp: sizes sp_def)
    let ?P = "unat (pixels_per_scan_line self)" and ?Q = "unat (pixels_per_scan_line src)"
    let ?sx = "nat (vx (rsize R))" and ?cx = "nat (vx (rpos R))" and ?cy = "nat (vy (rpos R))"
    let ?px = "nat (vx sp)" and ?py = "nat (vy sp)"
    have n: "4 * vx (rsize R) = int (4 * ?sx)" using R0 by simp
    have rows: "?rows = copy_rows ?k (int (4 * ?sx)) (4 * ?P) (4 * ?Q) (4 * (?P * ?cy + ?cx)) (4 * (?Q * ?py + ?px))
        (fb_mem src) (fb_mem self)"
      unfolding n scan_line_nat [OF ok(1)] scan_line_nat [OF ok(2)]
      using D S R0 True by (simp add: FrameAddrAt_nat ok)
    have wd: "?cx + ?sx \<le> ?P" "?px + ?sx \<le> ?Q"
      using nat_sum_unat [OF D(1) R0 order_trans [OF D(3) fb_okD(3) [OF ok(1)]]]
        nat_sum_unat [OF S(1) R0 order_trans [OF S(3) fb_okD(3) [OF ok(2)]]] by simp_all
    have ht: "?cy + ?k \<le> unat (vertical_resolution self)" "?py + ?k \<le> unat (vertical_resolution src)"
      using nat_sum_unat [OF D(2) _ D(4)] nat_sum_unat [OF S(2) _ S(4)] True by simp_all
    have "4 * (?P * (?cy + ?k)) \<le> length (fb_mem self)" "4 * (?Q * (?py + ?k)) \<le> length (fb_mem src)"
      using fb_len_nat [OF ok(1)] fb_len_nat [OF ok(2)] mult_le_mono2 [OF ht(1), of ?P] mult_le_mono2 [OF ht(2), of ?Q]
      by linarith+
    with row_room [OF wd(1)] row_room [OF wd(2)] wd(1) rows
      copy_rows_spec [of ?k "4 * (?P * ?cy + ?cx)" "4 * ?P" "4 * ?sx" "fb_mem self" "4 * (?Q * ?py + ?px)" "4 * ?Q" "fb_mem src"]
    obtain mem where m: "?rows = Some mem" "rows_copied ?k (4 * ?sx) (4 * ?P) (4 * ?Q) (4 * (?P * ?cy + ?cx))
        (4 * (?Q * ?py + ?px)) (fb_mem src) (fb_mem self) mem"
      by (auto simp: rows_copied_def)
    then have len: "length mem = length (fb_mem self)" by (simp add: rows_copied_def)
    let ?self = "self\<lparr>frame_buffer := Some mem\<rparr>"
    have mem: "fb_mem ?self = mem" by (simp add: fb_mem_def)
    have ok': "fb_ok ?self" using ok(1) fb_okD(2) [OF ok(1)] len by (auto simp: fb_ok_def)
    have "fb_GetPixel q ?self = (let p = q - dst_pos + rpos area in
        if in_rect ?T q \<and> in_fb src p then fb_GetPixel p src else fb_GetPixel q self)" if q: "in_fb self q" for q
    proof -
      let ?x = "nat (vx q)" and ?y = "nat (vy q)" and ?p = "q - dst_pos + rpos area"
      have q0: "0 \<le> vx q" "0 \<le> vy q" "?x < ?P"
        using q nat_less_unat [of "vx q" "pixels_per_scan_line self"] fb_okD(3) [OF ok(1)] by (auto simp: in_fb_def)
      have q': "in_fb ?self q" using q by (simp add: in_fb_def)
      have at: "PixelAt ?self q = PixelAt self q" by (simp add: PixelAt_def)
      have inside: "(?cx \<le> ?x \<and> ?x < ?cx + ?sx \<and> ?cy \<le> ?y \<and> ?y < ?cy + ?k) = in_rect R q"
        unfolding in_rect_def using D(1,2) q0(1,2) True R0 by linarith
      have byte: "mem ! (PixelAt self q + k) =
          (if in_rect R q then fb_mem src ! (4 * (?Q * (?py + (?y - ?cy)) + (?px + (?x - ?cx))) + k)
           else fb_mem self ! (PixelAt self q + k))" if "k < 4" for k
        using rows_copied_pixels [OF m(2) wd(1) that q0(3), of ?y] PixelAt_room [OF ok(1) q] that
        unfolding PixelAt_nat [OF ok(1) q] inside by simp
      show ?thesis
      proof (cases "in_rect R q")
        case True
        then have p: "in_fb src ?p" "in_rect ?T q" using inR by auto
        have "vx ?p = vx sp + (vx q - vx (rpos R))" "vy ?p = vy sp + (vy q - vy (rpos R))" by (simp_all add: sp_def)
        then have "nat (vx ?p) = ?px + (?x - ?cx)" "nat (vy ?p) = ?py + (?y - ?cy)"
          using True S(1,2) D(1,2) by (auto simp: in_rect_def)
        then have "PixelAt src ?p = 4 * (?Q * (?py + (?y - ?cy)) + (?px + (?x - ?cx)))"
          using PixelAt_nat [OF ok(2) p(1)] by simp
        then have bytes: "mem ! (PixelAt self q + k) = fb_mem src ! (PixelAt src ?p + k)" if "k < 4" for k
          using byte [OF that] True by (simp only: if_True)
        have c: "in_rect ?T q \<and> in_fb src ?p" using p by simp
        show ?thesis
          unfolding Let_def if_P [OF c] fb_GetPixel_bytes [OF ok' q'] fb_GetPixel_bytes [OF ok(2) p(1)] mem at
          using fmt by (simp only: bytes) simp
      next
        case False
        then have "\<not> (in_rect ?T q \<and> in_fb src ?p)" using inR q by auto
        then show ?thesis
          using False byte [of 0] byte [of 1] byte [of 2] fb_GetPixel_bytes [OF ok' q'] fb_GetPixel_bytes [OF ok(1) q]
          unfolding Let_def if_not_P [OF \<open>\<not> (in_rect ?T q \<and> in_fb src ?p)\<close>]
          by (simp add: at mem)
      qed
    qed
    with ok' mem m(1) Copy show ?thesis by (auto simp: copied_def)
  qed
qed

text \<open>A buffer that \<^verbatim>\<open>Initialize\<close> makes.\<close>

lemma Initialize_ok:
  assumes "frame_buffer config = None" "uint (horizontal_resolution config) < 2 ^ 14"
    "uint (vertical_resolution config) < 2 ^ 14"
  shows "\<exists>fb. Initialize config = (fb, kSuccess) \<and> fb_ok fb \<and> pixel_format fb = pixel_format config
    \<and> horizontal_resolution fb = horizontal_resolution config
    \<and> vertical_resolution fb = vertical_resolution config"
proof -
  let ?H = "uint (horizontal_resolution config)" and ?V = "uint (vertical_resolution config)"
  let ?n = "unat (4 * horizontal_resolution config * vertical_resolution config)"
  let ?fb = "config\<lparr>frame_buffer := Some (replicate ?n 0), pixels_per_scan_line := horizontal_resolution config\<rparr>"
  have I: "Initialize config = (?fb, kSuccess)"
    using assms(1) by (cases "pixel_format config") (simp_all add: Initialize_def BytesPerPixel_def)
  have a: "?H * ?V \<le> ?H * 2 ^ 14" "?H * 2 ^ 14 \<le> 2 ^ 28" using assms(2,3) by (auto intro: mult_left_mono)
  have "4 * horizontal_resolution config * vertical_resolution config = word_of_int (4 * (?H * ?V))"
    by (simp add: mult.assoc)
  then have "?n = nat (4 * (?H * ?V))" using a by (simp only:) (intro unat_word_of_int_small, auto)
  then have "int ?n = 4 * (?H * ?V)" by simp
  moreover have "4 * (?H * (?V + 1)) < 2 ^ 32" using a assms(2) by (simp add: algebra_simps)
  ultimately have "fb_ok ?fb" using assms(2,3) by (auto simp: fb_ok_def)
  with I show ?thesis by simp
qed

text \<open>
  \<^verbatim>\<open>FrameBuffer::Copy\<close> never reads or writes outside the two memories, whatever the position and
  the area, and copies exactly the pixels of the area that exist in both pictures; two buffers of
  different formats are refused unchanged.
\<close>

theorem Copy_copies_exactly:
  assumes "fb_ok self" "fb_ok src" "rect_ok area"
  shows "if pixel_format self = pixel_format src
    then \<exists>self'. Copy dst_pos src area self = Some (self', kSuccess) \<and> fb_ok self'
      \<and> (\<forall>q. in_fb self q \<longrightarrow> fb_GetPixel q self' =
           (if in_rect (Rect dst_pos (rsize area)) q \<and> in_fb src (q - dst_pos + rpos area)
            then fb_GetPixel (q - dst_pos + rpos area) src else fb_GetPixel q self))
    else Copy dst_pos src area self = Some (self, kUnknownPixelFormat)"
  using Copy_spec [OF assms(1,2) _ assms(3), of dst_pos] by (auto simp: copied_def Let_def Copy_def)

definition tiny_config :: FrameBufferConfig where
  "tiny_config = \<lparr>frame_buffer = None, pixels_per_scan_line = 0, horizontal_resolution = 4,
     vertical_resolution = 2, pixel_format = kPixelBGRResv8BitPerColor\<rparr>"

lemma tiny_ok: "fb_ok (fst (Initialize tiny_config))"
  "pixel_format (fst (Initialize tiny_config)) = kPixelBGRResv8BitPerColor"
  "in_fb (fst (Initialize tiny_config)) q \<longleftrightarrow> 0 \<le> vx q \<and> vx q < 4 \<and> 0 \<le> vy q \<and> vy q < 2"
  using Initialize_ok [of tiny_config] by (auto simp: tiny_config_def in_fb_def)

theorem Copy_copies_exactly_witness:
  "\<exists>src self'. fb_Write (Vec 1 0) kWindowCloseColor (fst (Initialize tiny_config)) = Some src
     \<and> Copy (Vec 2 1) src (Rect (Vec 1 0) (Vec 9 9)) (fst (Initialize tiny_config)) = Some (self', kSuccess)
     \<and> fb_GetPixel (Vec 2 1) self' = Some kWindowCloseColor"
proof -
  let ?fb = "fst (Initialize tiny_config)"
  from fb_write_in [OF tiny_ok(1), of "Vec 1 0" kWindowCloseColor] obtain src where
    src: "fb_Write (Vec 1 0) kWindowCloseColor ?fb = Some src" "fb_ok src"
    "src = ?fb\<lparr>frame_buffer := Some (fb_mem src)\<rparr>" "fb_GetPixel (Vec 1 0) src = Some kWindowCloseColor"
    by (auto simp: tiny_ok(3))
  have "pixel_format ?fb = pixel_format src" "in_fb src (Vec 1 0)"
    using fb_same_config [OF src(3)] by (simp_all add: tiny_ok(3))
  with Copy_copies_exactly [OF tiny_ok(1) src(2), of "Rect (Vec 1 0) (Vec 9 9)" "Vec 2 1"] obtain self' where
    "Copy (Vec 2 1) src (Rect (Vec 1 0) (Vec 9 9)) ?fb = Some (self', kSuccess)"
    "fb_GetPixel (Vec 2 1) self' = fb_GetPixel (Vec 1 0) src"
    by (fastforce simp: rect_ok_def tiny_ok(3) in_rect_def)
  with src(1,4) show ?thesis by auto
qed

section \<open>Moving an area up\<close>

lemma move_rows_up:
  "\<forall>i < k. s + i * st + m \<le> length mem \<Longrightarrow> m \<le> st \<Longrightarrow> d + m \<le> s \<Longrightarrow>
   \<exists>mem'. move_rows k (int m) (int st) (int d) (int s) mem = Some mem' \<and> rows_copied k m st st d s mem mem mem'"
proof (induction k arbitrary: d s mem)
  case 0
  then show ?case by (simp add: rows_copied_def)
next
  case (Suc k)
  have dm: "d + m \<le> length mem" "s + m \<le> length mem" using Suc.prems by (force dest: spec [of _ 0])+
  from memcpy_spec [OF this] obtain mem1 where d1: "memcpy mem d mem s (int m) = Some mem1"
    "length mem1 = length mem" "\<forall>j < m. mem1 ! (d + j) = mem ! (s + j)"
    "\<forall>j < length mem. j < d \<or> d + m \<le> j \<longrightarrow> mem1 ! j = mem ! j" by auto
  have w: "memcpy_within mem (int d) (int s) (int m) = Some mem1" using d1(1) Suc.prems(3) by (simp add: memcpy_within_def)
  have room: "s + st + i * st + m \<le> length mem" if "i < k" for i
    using Suc.prems(1) that by (auto dest: spec [of _ "Suc i"] simp: algebra_simps)
  with d1(2) have "\<forall>i < k. s + st + i * st + m \<le> length mem1" by simp
  from Suc.IH [OF this Suc.prems(2), of "d + st"] Suc.prems(3) obtain mem2 where d2:
    "move_rows k (int m) (int st) (int (d + st)) (int (s + st)) mem1 = Some mem2"
    "rows_copied k m st st (d + st) (s + st) mem1 mem1 mem2" by auto
  have a: "\<forall>i < k. \<forall>j < m. mem2 ! (d + st + i * st + j) = mem1 ! (s + st + i * st + j)"
    and b: "\<forall>j < length mem1. (\<forall>i < k. j < d + st + i * st \<or> d + st + i * st + m \<le> j) \<longrightarrow> mem2 ! j = mem1 ! j"
    using d2(2) by (simp_all add: rows_copied_def)
  have "mem2 ! (d + i * st + j) = mem ! (s + i * st + j)" if ij: "i < Suc k" "j < m" for i j
  proof (cases i)
    case 0
    have "mem2 ! (d + j) = mem1 ! (d + j)"
      using b [rule_format, of "d + j"] ij(2) dm(1) d1(2) Suc.prems(2) by auto
    with d1(3) ij(2) 0 show ?thesis by simp
  next
    case (Suc i')
    have "mem1 ! (s + st + i' * st + j) = mem ! (s + st + i' * st + j)"
      using d1(4) room [of i'] ij Suc Suc.prems(3) by auto
    with a [rule_format, of i' j] ij Suc show ?thesis by (simp add: algebra_simps)
  qed
  moreover have "mem2 ! j = mem ! j"
    if j: "j < length mem" "\<forall>i < Suc k. j < d + i * st \<or> d + i * st + m \<le> j" for j
  proof -
    have "\<forall>i < k. j < d + st + i * st \<or> d + st + i * st + m \<le> j"
      using j(2) by (auto dest: spec [of _ "Suc i" for i] simp: algebra_simps)
    moreover have "j < d \<or> d + m \<le> j" using j(2) by (force dest: spec [of _ 0])
    ultimately show ?thesis using d1(2) d1(4) [rule_format, OF j(1)] b j(1) by metis
  qed
  ultimately have "rows_copied (Suc k) m st st d s mem mem mem2"
    using d2(2) d1(2) by (simp add: rows_copied_def)
  with w d2(1) show ?case by simp
qed

text \<open>
  Moving an area up by at least one line, inside the picture: every pixel of the target area gets the
  colour the pixel of the source area had.
\<close>

lemma Move_up_spec:
  assumes ok: "fb_ok fb" and up: "vy to < vy (rpos src)"
    and src: "0 \<le> vx (rpos src)" "0 \<le> vx (rsize src)" "0 \<le> vy (rsize src)"
      "vx (rpos src) + vx (rsize src) \<le> uint (horizontal_resolution fb)"
      "vy (rpos src) + vy (rsize src) \<le> uint (vertical_resolution fb)"
    and to: "0 \<le> vx to" "0 \<le> vy to" "vx to + vx (rsize src) \<le> uint (horizontal_resolution fb)"
  shows "\<exists>fb'. Move to src fb = Some fb' \<and> fb_ok fb' \<and> fb' = fb\<lparr>frame_buffer := Some (fb_mem fb')\<rparr>
    \<and> (\<forall>q. in_fb fb q \<longrightarrow> fb_GetPixel q fb' =
         (if in_rect (Rect to (rsize src)) q then fb_GetPixel (q - to + rpos src) fb else fb_GetPixel q fb))"
proof -
  let ?P = "unat (pixels_per_scan_line fb)" and ?k = "nat (vy (rsize src))" and ?sx = "nat (vx (rsize src))"
  let ?cx = "nat (vx to)" and ?cy = "nat (vy to)" and ?px = "nat (vx (rpos src))" and ?py = "nat (vy (rpos src))"
  let ?d = "4 * (?P * ?cy + ?cx)" and ?s = "4 * (?P * ?py + ?px)"
  have py: "0 \<le> vy (rpos src)" using up to(2) by simp
  have n: "BytesPerPixel (pixel_format fb) * vx (rsize src) = int (4 * ?sx)"
    using src(2) by (cases "pixel_format fb") (simp_all add: BytesPerPixel_def)
  have addr: "FrameAddrAt to fb = ?d" "FrameAddrAt (rpos src) fb = ?s" "scan_line_bytes fb = 4 * ?P"
    using src to up py by (simp_all add: FrameAddrAt_nat [OF ok] scan_line_nat [OF ok])
  have M: "Move to src fb = map_option (\<lambda>mem. fb\<lparr>frame_buffer := Some mem\<rparr>)
      (move_rows ?k (int (4 * ?sx)) (int (4 * ?P)) (int ?d) (int ?s) (fb_mem fb))"
    using up unfolding Move_def n addr Let_def fb_okD(1) [OF ok] by simp
  have wd: "?cx + ?sx \<le> ?P" "?px + ?sx \<le> ?P"
    using nat_sum_unat [OF to(1) src(2) order_trans [OF to(3) fb_okD(3) [OF ok]]]
      nat_sum_unat [OF src(1,2) order_trans [OF src(4) fb_okD(3) [OF ok]]] by simp_all
  have "4 * (?P * (?py + ?k)) \<le> length (fb_mem fb)"
    using fb_len_nat [OF ok] mult_le_mono2 [OF nat_sum_unat [OF py src(3,5)], of ?P] by linarith
  then have room: "\<forall>i < ?k. ?s + i * (4 * ?P) + 4 * ?sx \<le> length (fb_mem fb)"
    using row_room [OF wd(2)] by blast
  have "?cy + 1 \<le> ?py" using up to(2) by linarith
  then have "?P * ?cy + ?P \<le> ?P * ?py" using mult_le_mono2 [of "?cy + 1" ?py ?P] by simp
  then have "?d + 4 * ?sx \<le> ?s" using wd(1) by simp
  from move_rows_up [OF room _ this] wd(1) obtain mem where
    m: "move_rows ?k (int (4 * ?sx)) (int (4 * ?P)) (int ?d) (int ?s) (fb_mem fb) = Some mem"
      "rows_copied ?k (4 * ?sx) (4 * ?P) (4 * ?P) ?d ?s (fb_mem fb) (fb_mem fb) mem" by auto
  let ?fb = "fb\<lparr>frame_buffer := Some mem\<rparr>"
  have mem: "fb_mem ?fb = mem" by (simp add: fb_mem_def)
  have "length mem = length (fb_mem fb)" using m(2) by (simp add: rows_copied_def)
  then have ok': "fb_ok ?fb" using ok fb_okD(2) [OF ok] by (auto simp: fb_ok_def)
  have "fb_GetPixel q ?fb =
      (if in_rect (Rect to (rsize src)) q then fb_GetPixel (q - to + rpos src) fb else fb_GetPixel q fb)"
    if q: "in_fb fb q" for q
  proof -
    let ?x = "nat (vx q)" and ?y = "nat (vy q)" and ?p = "q - to + rpos src"
    have q0: "0 \<le> vx q" "0 \<le> vy q" "?x < ?P"
      using q nat_less_unat [of "vx q" "pixels_per_scan_line fb"] fb_okD(3) [OF ok] by (auto simp: in_fb_def)
    have q': "in_fb ?fb q" "PixelAt ?fb q = PixelAt fb q" using q by (simp_all add: in_fb_def PixelAt_def)
    have inside: "(?cx \<le> ?x \<and> ?x < ?cx + ?sx \<and> ?cy \<le> ?y \<and> ?y < ?cy + ?k) = in_rect (Rect to (rsize src)) q"
      unfolding in_rect_def using to(1,2) src(2,3) q0(1,2) by (simp add: nat_le_iff nat_less_iff)
    have byte: "mem ! (PixelAt fb q + k) =
        (if in_rect (Rect to (rsize src)) q then fb_mem fb ! (4 * (?P * (?py + (?y - ?cy)) + (?px + (?x - ?cx))) + k)
         else fb_mem fb ! (PixelAt fb q + k))" if "k < 4" for k
      using rows_copied_pixels [OF m(2) wd(1) that q0(3), of ?y] PixelAt_room [OF ok q] that
      unfolding PixelAt_nat [OF ok q] inside by simp
    show ?thesis
    proof (cases "in_rect (Rect to (rsize src)) q")
      case True
      then have p: "in_fb fb ?p" using src to py by (auto simp: in_fb_def in_rect_def)
      have "nat (vx ?p) = ?px + (?x - ?cx)" "nat (vy ?p) = ?py + (?y - ?cy)"
        using True src(1) py to(1,2) by (auto simp: in_rect_def)
      then have "PixelAt fb ?p = 4 * (?P * (?py + (?y - ?cy)) + (?px + (?x - ?cx)))"
        using PixelAt_nat [OF ok p] by simp
      then have bytes: "mem ! (PixelAt fb q + k) = fb_mem fb ! (PixelAt fb ?p + k)" if "k < 4" for k
        using byte [OF that] True by (simp only: if_True)
      show ?thesis
        unfolding if_P [OF True] fb_GetPixel_bytes [OF ok' q'(1)] fb_GetPixel_bytes [OF ok p] Let_def mem q'(2)
        by (simp only: bytes) simp
    next
      case False
      then show ?thesis
        using byte [of 0] byte [of 1] byte [of 2] fb_GetPixel_bytes [OF ok' q'(1)] fb_GetPixel_bytes [OF ok q]
        by (simp add: q'(2) mem Let_def)
    qed
  qed
  with M m(1) ok' mem show ?thesis by (intro exI [of _ ?fb]) simp
qed

end
