(* ===== verification/Font.thy ===== *)
theory Font imports Frame_Buffer "HOL-Library.Monad_Syntax" begin

text \<open>
  \<^verbatim>\<open>kernel/font.cpp\<close>: drawing characters of the built-in font, decoding UTF-8, drawing strings.

  A string is the list of its bytes before the terminating zero.  The built-in font
  \<^verbatim>\<open>_binary_hankaku_bin\<close> is a list of bytes, 16 of each character; the FreeType library is a parameter
  of the model, the record \<open>FreeType\<close>.  \<^verbatim>\<open>WriteString\<close> loops until the end of the string, and the length
  of the step is what the decoder returns: the loop is a \<open>partial_function\<close>, and \<open>None\<close> also stands for
  a loop without end.
\<close>

section \<open>The parameters\<close>

record glyph =
  bitmap_left :: int
  bitmap_top :: int
  bitmap_rows :: nat
  bitmap_width :: nat
  bitmap_bit :: "nat \<Rightarrow> nat \<Rightarrow> bool"   \<comment> \<open>line and column\<close>
  glyph_baseline :: int

text \<open>
  \<open>ft_new_face size bold\<close> is \<^verbatim>\<open>FT_New_Memory_Face\<close> with \<^verbatim>\<open>FT_Set_Pixel_Sizes\<close>, \<open>ft_render face c\<close> is
  \<^verbatim>\<open>FT_Get_Char_Index\<close> with \<^verbatim>\<open>FT_Load_Glyph\<close>; \<open>None\<close> is their failure.
\<close>

record 'f FreeType =
  ft_new_face :: "int \<Rightarrow> bool \<Rightarrow> 'f option"
  ft_render :: "'f \<Rightarrow> u32 \<Rightarrow> glyph option"

record 'f fonts =
  hankaku :: "u8 list"
  freetype :: "'f FreeType"

section \<open>The built-in font\<close>

text \<open>\<^verbatim>\<open>char\<close> is signed, so the index of a character from 128 on wraps to the top of 32 bits.\<close>

definition GetFont :: "u8 list \<Rightarrow> u8 \<Rightarrow> nat option" where
  "GetFont font c =
     (let index = 16 * (scast c :: u32) in
      if unat index \<ge> length font then None else Some (unat index))"

definition glyph_pixels :: "u8 list \<Rightarrow> nat \<Rightarrow> (nat \<times> nat) list option" where
  "glyph_pixels font p =
     (if p + 16 \<le> length font
      then Some (concat (map (\<lambda>dy. map (\<lambda>dx. (dx, dy))
                   (filter (\<lambda>dx. push_bit dx (ucast (font ! (p + dy)) :: u32) AND 0x80 \<noteq> 0) [0..<8])) [0..<16]))
      else None)"

definition WriteAscii :: "u8 list \<Rightarrow> 'w PixelWriter \<Rightarrow> Vector2D \<Rightarrow> u8 \<Rightarrow> PixelColor \<Rightarrow> 'w \<Rightarrow> 'w option" where
  "WriteAscii font W pos c color w =
     (case GetFont font c of
        None \<Rightarrow> None
      | Some p \<Rightarrow>
          (case glyph_pixels font p of
             None \<Rightarrow> None
           | Some ps \<Rightarrow> for_each (\<lambda>(dx, dy). pw_Write W (pos + Vec (int dx) (int dy)) color) ps w))"

section \<open>UTF-8\<close>

definition CountUTF8Size :: "u8 \<Rightarrow> nat" where
  "CountUTF8Size c =
     (if c < 0x80 then 1
      else if 0xc0 \<le> c \<and> c < 0xe0 then 2
      else if 0xe0 \<le> c \<and> c < 0xf0 then 3
      else if 0xf0 \<le> c \<and> c < 0xf8 then 4
      else 0)"

text \<open>Byte \<open>i\<close> of a string; the terminating zero belongs to it, what follows does not.\<close>

definition str_at :: "u8 list \<Rightarrow> nat \<Rightarrow> u8 option" where
  "str_at s i = arr_get (s @ [0]) i"

definition ConvertUTF8To32 :: "u8 list \<Rightarrow> (u32 \<times> nat) option" where
  "ConvertUTF8To32 s = do {
     c0 \<leftarrow> str_at s 0;
     (case CountUTF8Size c0 of
        Suc 0 \<Rightarrow> Some (scast c0, 1)
      | Suc (Suc 0) \<Rightarrow> do {
          c1 \<leftarrow> str_at s 1;
          Some (push_bit 6 (scast c0 AND 0x1f) OR (scast c1 AND 0x3f), 2) }
      | Suc (Suc (Suc 0)) \<Rightarrow> do {
          c1 \<leftarrow> str_at s 1; c2 \<leftarrow> str_at s 2;
          Some (push_bit 12 (scast c0 AND 0x0f) OR push_bit 6 (scast c1 AND 0x3f) OR (scast c2 AND 0x3f), 3) }
      | Suc (Suc (Suc (Suc 0))) \<Rightarrow> do {
          c1 \<leftarrow> str_at s 1; c2 \<leftarrow> str_at s 2; c3 \<leftarrow> str_at s 3;
          Some (push_bit 18 (scast c0 AND 0x07) OR push_bit 12 (scast c1 AND 0x3f)
                OR push_bit 6 (scast c2 AND 0x3f) OR (scast c3 AND 0x3f), 4) }
      | _ \<Rightarrow> Some (0, 0)) }"

definition IsHankaku :: "u32 \<Rightarrow> bool" where
  "IsHankaku c \<longleftrightarrow> c \<le> 0x7f"

section \<open>Strings\<close>

definition NewFTFace :: "'f fonts \<Rightarrow> int \<Rightarrow> bool \<Rightarrow> 'f option WithError" where
  "NewFTFace fts sz bold =
     (case ft_new_face (freetype fts) sz bold of
        None \<Rightarrow> (None, kFreeTypeError)
      | Some face \<Rightarrow> (Some face, kSuccess))"

definition draw_glyph :: "'w PixelWriter \<Rightarrow> Vector2D \<Rightarrow> glyph \<Rightarrow> PixelColor \<Rightarrow> 'w \<Rightarrow> 'w option" where
  "draw_glyph W pos g color w =
     (let topleft = pos + Vec (bitmap_left g) (glyph_baseline g - bitmap_top g) in
      for_each (\<lambda>dy. for_each (\<lambda>dx. pw_Write W (topleft + Vec (int dx) (int dy)) color)
        (filter (bitmap_bit g dy) [0..<bitmap_width g])) [0..<bitmap_rows g] w)"

definition WriteUnicode ::
    "'f fonts \<Rightarrow> 'w PixelWriter \<Rightarrow> Vector2D \<Rightarrow> u32 \<Rightarrow> PixelColor \<Rightarrow> int \<Rightarrow> bool \<Rightarrow> 'w \<Rightarrow> ('w \<times> error_code) option" where
  "WriteUnicode fts W pos c color sz bold w =
     (let question = \<lambda>w. do {
          w \<leftarrow> WriteAscii (hankaku fts) W pos 63 color w;
          w \<leftarrow> WriteAscii (hankaku fts) W (pos + Vec 8 0) 63 color w;
          Some (w, kFreeTypeError) }
      in
      if c \<le> 0x7f \<and> \<not> bold
      then do { w \<leftarrow> WriteAscii (hankaku fts) W pos (ucast c) color w; Some (w, kSuccess) }
      else case NewFTFace fts sz bold of
        (None, err) \<Rightarrow> question w
      | (Some face, err) \<Rightarrow>
          (case ft_render (freetype fts) face c of
             None \<Rightarrow> question w
           | Some g \<Rightarrow> do { w \<leftarrow> draw_glyph W pos g color w; Some (w, kSuccess) }))"

text \<open>
  The loop of \<^verbatim>\<open>WriteString\<close>; after a step beyond the terminating zero the next read is outside the
  string.
\<close>

definition str_skip :: "u8 list \<Rightarrow> nat \<Rightarrow> u8 list option" where
  "str_skip s n = (if n \<le> length s then Some (drop n s) else None)"

partial_function (option) string_loop ::
    "'f fonts \<Rightarrow> 'w PixelWriter \<Rightarrow> Vector2D \<Rightarrow> u8 list \<Rightarrow> PixelColor \<Rightarrow> int \<Rightarrow> 'w \<Rightarrow> 'w option" where
  "string_loop fts W pos s color pos_x w =
     (if s = [] then Some w
      else do {
        (c, n) \<leftarrow> ConvertUTF8To32 s;
        (w, err) \<leftarrow> WriteUnicode fts W (pos + Vec (8 * pos_x) 0) c color 16 False w;
        s' \<leftarrow> str_skip s n;
        string_loop fts W pos s' color (pos_x + (if IsHankaku c then 1 else 2)) w })"

definition WriteString :: "'f fonts \<Rightarrow> 'w PixelWriter \<Rightarrow> Vector2D \<Rightarrow> u8 list \<Rightarrow> PixelColor \<Rightarrow> 'w \<Rightarrow> 'w option" where
  "WriteString fts W pos s color w = string_loop fts W pos s color 0 w"

section \<open>Decoding what was encoded\<close>

text \<open>The encoding of a code point as the comment above \<^verbatim>\<open>CountUTF8Size\<close> pictures it.\<close>

definition utf8 :: "u32 \<Rightarrow> u8 list" where
  "utf8 c =
     (let tail = \<lambda>n. 0x80 OR (ucast (drop_bit n c) AND 0x3f) in
      if c < 0x80 then [ucast c]
      else if c < 0x800 then [0xc0 OR ucast (drop_bit 6 c), tail 0]
      else if c < 0x10000 then [0xe0 OR ucast (drop_bit 12 c), tail 6, tail 0]
      else [0xf0 OR ucast (drop_bit 18 c), tail 12, tail 6, tail 0])"

lemma low_bits:
  fixes a :: u8 and x :: u32
  assumes "k \<le> 7" "a AND mask k = 0"
  shows "(scast (a OR ucast x) :: u32) AND mask k = x AND mask k"
    "(scast (a OR (ucast x AND mask k)) :: u32) AND mask k = x AND mask k"
proof -
  have "\<not> bit a n" if "n < k" for n
  proof
    assume "bit a n"
    with that have "bit (a AND mask k) n" using bit_imp_le_length [of a n] by (simp add: bit_and_iff bit_mask_iff)
    with assms(2) show False by simp
  qed
  with assms(1) show "(scast (a OR ucast x) :: u32) AND mask k = x AND mask k"
    "(scast (a OR (ucast x AND mask k)) :: u32) AND mask k = x AND mask k"
    by (auto intro!: bit_word_eqI simp: bit_simps bit_signed_iff min_def)
qed

lemma less_exp_bit:
  fixes c :: "'a::len word"
  assumes "c < 2 ^ k" "k < LENGTH('a)" "bit c n"
  shows "n < k"
proof (rule ccontr)
  assume "\<not> n < k"
  have "unat ((2 :: 'a word) ^ k) = 2 ^ k"
    using assms(2) by (intro of_nat_inverse) (simp_all add: power_strict_increasing)
  then have "unat c < 2 ^ k" using assms(1) by (simp add: word_less_nat_alt)
  then have "drop_bit k (unat c) = 0" by (simp add: drop_bit_eq_div)
  moreover have "unat c < 2 ^ LENGTH('a)" by (rule unsigned_less)
  ultimately have "unat (drop_bit k c) = 0" by (simp add: unsigned_drop_bit_eq take_bit_nat_eq_self)
  then have "drop_bit k c = 0" by (metis unsigned_0 unsigned_word_eqI)
  moreover have "bit (drop_bit k c) (n - k)" using \<open>\<not> n < k\<close> assms(3) by (simp add: bit_drop_bit_eq)
  ultimately show False by simp
qed

lemma or_eq_add: "(a :: u8) AND mask k = 0 \<Longrightarrow> a OR (x AND mask k) = a + (x AND mask k)"
  by (rule disjunctive_add_eq_or [symmetric]) (simp add: and.left_commute [of a])

lemma size_masked:
  assumes "unat (a :: u8) + 2 ^ k \<le> 256" "k < 8" "a AND mask k = 0"
  shows "unat (a OR (x AND mask k)) = unat a + unat (x AND mask k)" "unat (x AND mask k) < 2 ^ k"
proof -
  show b: "unat (x AND mask k) < 2 ^ k" by (simp add: unsigned_take_bit_eq flip: take_bit_eq_mask)
  show "unat (a OR (x AND mask k)) = unat a + unat (x AND mask k)"
    unfolding or_eq_add [OF assms(3)] using assms(1) b by (subst unat_add_lem [THEN iffD1]) auto
qed

lemmas masks = mask_eq_exp_minus_1 [of 3] mask_eq_exp_minus_1 [of 4] mask_eq_exp_minus_1 [of 5] mask_eq_exp_minus_1 [of 6]
lemma CountUTF8Size_lead:
  "CountUTF8Size (0xc0 OR (x AND mask 5)) = 2"
  "CountUTF8Size (0xe0 OR (x AND mask 4)) = 3"
  "CountUTF8Size (0xf0 OR (x AND mask 3)) = 4"
  using size_masked [of "0xc0" 5 x] size_masked [of "0xe0" 4 x] size_masked [of "0xf0" 3 x]
  by (simp_all add: CountUTF8Size_def word_less_nat_alt word_le_nat_alt mask_eq_exp_minus_1)

lemma utf8_masks:
  "(0x1f :: u32) = mask 5" "(0x0f :: u32) = mask 4" "(0x07 :: u32) = mask 3" "(0x3f :: u32) = mask 6" "(0x3f :: u8) = mask 6"
  by (simp_all add: mask_eq_exp_minus_1)

lemma lead_masked:
  assumes "(c :: u32) < 2 ^ (n + k)" "n + k < 32" "k \<le> 7"
  shows "(ucast (drop_bit n c) :: u8) = ucast (drop_bit n c) AND mask k"
proof (rule bit_word_eqI)
  fix i
  have "bit c (n + i) \<Longrightarrow> i < k" using less_exp_bit [OF assms(1), of "n + i"] assms(2) by simp
  then show "bit (ucast (drop_bit n c) :: u8) i = bit (ucast (drop_bit n c) AND mask k :: u8) i"
    using assms(3) by (auto simp: bit_simps)
qed

lemma recompose:
  "(c :: u32) < 2 ^ 11 \<Longrightarrow> push_bit 6 (drop_bit 6 c AND mask 5) OR (c AND mask 6) = c"
  "c < 2 ^ 16 \<Longrightarrow> push_bit 12 (drop_bit 12 c AND mask 4) OR push_bit 6 (drop_bit 6 c AND mask 6) OR (c AND mask 6) = c"
  "c < 2 ^ 21 \<Longrightarrow> push_bit 18 (drop_bit 18 c AND mask 3) OR push_bit 12 (drop_bit 12 c AND mask 6)
     OR push_bit 6 (drop_bit 6 c AND mask 6) OR (c AND mask 6) = c"
proof -
  have part: "bit (push_bit n (drop_bit n c AND mask k)) i \<longleftrightarrow> n \<le> i \<and> i < n + k \<and> bit c i \<and> i < 32" for n k i
    using less_diff_conv2 [of n i k] by (auto simp: bit_simps algebra_simps)
  have low: "bit (c AND mask k) i \<longleftrightarrow> i < k \<and> bit c i \<and> i < 32" for k i
    using bit_imp_le_length [of c i] by (auto simp: bit_simps)
  have "bit c i \<Longrightarrow> i < 32" for i using bit_imp_le_length [of c i] by simp
  then show "c < 2 ^ 11 \<Longrightarrow> push_bit 6 (drop_bit 6 c AND mask 5) OR (c AND mask 6) = c"
    "c < 2 ^ 16 \<Longrightarrow> push_bit 12 (drop_bit 12 c AND mask 4) OR push_bit 6 (drop_bit 6 c AND mask 6) OR (c AND mask 6) = c"
    "c < 2 ^ 21 \<Longrightarrow> push_bit 18 (drop_bit 18 c AND mask 3) OR push_bit 12 (drop_bit 12 c AND mask 6)
     OR push_bit 6 (drop_bit 6 c AND mask 6) OR (c AND mask 6) = c"
    using less_exp_bit [of c 11] less_exp_bit [of c 16] less_exp_bit [of c 21]
    by (auto intro!: bit_word_eqI simp only: bit_or_iff part low) fastforce+
qed

lemma tail_byte: "(scast (0x80 OR (ucast x AND mask 6) :: u8) :: u32) AND mask 6 = x AND mask 6"
  by (rule low_bits) (simp_all add: mask_eq_exp_minus_1)

lemma scast_ascii: "(c :: u32) < 0x80 \<Longrightarrow> (scast (ucast c :: u8) :: u32) = c"
  using less_exp_bit [of c 7]
  by (auto intro!: bit_word_eqI simp: bit_simps bit_signed_iff min_def split: if_splits) fastforce+

lemma ConvertUTF8To32_utf8:
  assumes "c < 0x110000"
  shows "ConvertUTF8To32 (utf8 c @ s) = Some (c, length (utf8 c))"
proof -
  consider "c < 0x80" | "\<not> c < 0x80" "c < 0x800" | "\<not> c < 0x80" "\<not> c < 0x800" "c < 0x10000"
    | "\<not> c < 0x80" "\<not> c < 0x800" "\<not> c < 0x10000" "c < 2 ^ 21"
    using assms by (fastforce simp: word_less_nat_alt)
  then show ?thesis
  proof cases
    case 1
    then have "(ucast c :: u8) < 0x80" by (simp add: word_less_nat_alt unsigned_ucast_eq take_bit_nat_eq_self)
    with 1 show ?thesis
      by (simp add: utf8_def ConvertUTF8To32_def str_at_def CountUTF8Size_def scast_ascii)
  next
    case 2
    have l: "(ucast (drop_bit 6 c) :: u8) = ucast (drop_bit 6 c) AND mask 5"
      using 2 by (intro lead_masked) simp_all
    have m: "(scast (0xc0 OR ucast (drop_bit 6 c) :: u8) :: u32) AND mask 5 = drop_bit 6 c AND mask 5"
      by (rule low_bits) (simp_all add: mask_eq_exp_minus_1)
    have n: "CountUTF8Size (0xc0 OR ucast (drop_bit 6 c)) = Suc (Suc 0)" by (subst l) (simp add: CountUTF8Size_lead)
    show ?thesis using 2 recompose(1) [of c] n m tail_byte [of c]
      unfolding ConvertUTF8To32_def utf8_def Let_def utf8_masks str_at_def
      by (simp del: push_bit_and)
  next
    case 3
    have l: "(ucast (drop_bit 12 c) :: u8) = ucast (drop_bit 12 c) AND mask 4"
      using 3 by (intro lead_masked) simp_all
    have m: "(scast (0xe0 OR ucast (drop_bit 12 c) :: u8) :: u32) AND mask 4 = drop_bit 12 c AND mask 4"
      by (rule low_bits) (simp_all add: mask_eq_exp_minus_1)
    have n: "CountUTF8Size (0xe0 OR ucast (drop_bit 12 c)) = Suc (Suc (Suc 0))" by (subst l) (simp add: CountUTF8Size_lead)
    show ?thesis using 3 recompose(2) [of c] n m tail_byte [of c] tail_byte [of "drop_bit 6 c"]
      unfolding ConvertUTF8To32_def utf8_def Let_def utf8_masks str_at_def
      by (simp del: push_bit_and)
  next
    case 4
    have l: "(ucast (drop_bit 18 c) :: u8) = ucast (drop_bit 18 c) AND mask 3"
      using 4 by (intro lead_masked) simp_all
    have m: "(scast (0xf0 OR ucast (drop_bit 18 c) :: u8) :: u32) AND mask 3 = drop_bit 18 c AND mask 3"
      by (rule low_bits) (simp_all add: mask_eq_exp_minus_1)
    have n: "CountUTF8Size (0xf0 OR ucast (drop_bit 18 c)) = Suc (Suc (Suc (Suc 0)))" by (subst l) (simp add: CountUTF8Size_lead)
    show ?thesis using 4 recompose(3) [of c] n m tail_byte [of c] tail_byte [of "drop_bit 6 c"] tail_byte [of "drop_bit 12 c"]
      unfolding ConvertUTF8To32_def utf8_def Let_def utf8_masks str_at_def
      by (simp del: push_bit_and)
  qed
qed

text \<open>
  decoding the encoding of a code point gives it back with the number of its bytes, whatever
  follows in the string.
\<close>

theorem ConvertUTF8To32_roundtrip:
  assumes "c < 0x110000"
  shows "ConvertUTF8To32 (utf8 c @ s) = Some (c, length (utf8 c))"
  by (rule ConvertUTF8To32_utf8 [OF assms])

theorem ConvertUTF8To32_roundtrip_witness:
  "ConvertUTF8To32 (utf8 0x3042 @ [65]) = Some (0x3042, 3)"
proof -
  have "length (utf8 0x3042) = 3" by (simp add: utf8_def)
  with ConvertUTF8To32_roundtrip [of "0x3042" "[65]"] show ?thesis by simp
qed

section \<open>Which strings are drawn\<close>

lemma scast_ascii_char:
  assumes "(c :: u8) < 0x80"
  shows "(scast c :: u32) = ucast c"
proof (rule bit_word_eqI)
  fix n
  have "\<not> bit c 7" using less_exp_bit [of c 7 7] assms by auto
  moreover have "bit c n \<Longrightarrow> n < 7" using less_exp_bit [of c 7 n] assms by simp
  ultimately show "bit (scast c :: u32) n \<longleftrightarrow> bit (ucast c :: u32) n" if "n < LENGTH(32)"
    using that by (auto simp: bit_simps bit_signed_iff min_def)
qed

lemma GetFont_ascii:
  assumes "c < 0x80" "2048 \<le> length font"
  shows "GetFont font c = Some (16 * unat c)" "16 * unat c + 16 \<le> length font"
proof -
  have c: "unat c < 128" using assms(1) by (simp add: word_less_nat_alt)
  then show "16 * unat c + 16 \<le> length font" using assms(2) by simp
  have "unat (16 * (ucast c :: u32)) = 16 * unat c"
    using c by (subst unat_mult_lem [THEN iffD1]) auto
  then show "GetFont font c = Some (16 * unat c)"
    using c assms(2) by (simp add: GetFont_def scast_ascii_char [OF assms(1)])
qed

text \<open>The pixels of a glyph of the built-in font, and of the glyphs of a string.\<close>

definition glyph_at :: "u8 list \<Rightarrow> u8 \<Rightarrow> Vector2D \<Rightarrow> Vector2D \<Rightarrow> bool" where
  "glyph_at font c pos q \<longleftrightarrow> (case glyph_pixels font (16 * unat c) of
     None \<Rightarrow> False | Some ps \<Rightarrow> \<exists>(dx, dy) \<in> set ps. q = pos + Vec (int dx) (int dy))"

definition text_at :: "u8 list \<Rightarrow> u8 list \<Rightarrow> Vector2D \<Rightarrow> Vector2D \<Rightarrow> bool" where
  "text_at font s pos q \<longleftrightarrow> (\<exists>i < length s. glyph_at font (s ! i) (pos + Vec (8 * int i) 0) q)"

lemma glyph_in_cell: "glyph_at font c pos q \<Longrightarrow> in_rect (Rect pos (Vec 8 16)) q"
  by (auto simp: glyph_at_def glyph_pixels_def in_rect_def split: if_splits)

lemma text_at_Nil [simp]: "\<not> text_at font [] pos q"
  by (simp add: text_at_def)

lemma text_at_Cons: "text_at font (c # s) pos q \<longleftrightarrow> glyph_at font c pos q \<or> text_at font s (pos + Vec 8 0) q"
proof -
  have "pos + Vec (8 * int (Suc i)) 0 = pos + Vec 8 0 + Vec (8 * int i) 0" "pos + Vec 0 0 = pos" for i
    by (simp_all add: vec_eq_iff)
  then show ?thesis by (simp add: text_at_def Ex_less_Suc2 del: of_nat_Suc)
qed

context pixel_canvas begin

lemma WriteAscii_paints:
  assumes "ok w" "c < 0x80" "2048 \<le> length font"
    and cell: "\<forall>q. in_rect (Rect pos (Vec 8 16)) q \<longrightarrow> in_picture W w q"
  shows "\<exists>w'. WriteAscii font W pos c color w = Some w' \<and> painted (glyph_at font c pos) color w w'"
proof -
  note g = GetFont_ascii [OF assms(2,3)]
  obtain ps where ps: "glyph_pixels font (16 * unat c) = Some ps"
    using g(2) by (fastforce simp: glyph_pixels_def)
  let ?qs = "map (\<lambda>(dx, dy). pos + Vec (int dx) (int dy)) ps"
  have at: "glyph_at font c pos q \<longleftrightarrow> q \<in> set ?qs" for q by (auto simp: glyph_at_def ps)
  then have "\<forall>q \<in> set ?qs. in_picture W w q" using cell glyph_in_cell by blast
  from write_list [OF assms(1) this, of color] at
  show ?thesis by (simp add: WriteAscii_def g(1) ps for_each_map split_def fun_eq_iff painted_def)
qed

lemma WriteAscii_in:
  assumes "ok w" "c < 0x80" "2048 \<le> length font"
    and "\<forall>q. in_rect (Rect pos (Vec 8 16)) q \<longrightarrow> in_picture W w q"
  shows "\<exists>w'. WriteAscii font W pos c color w = Some w' \<and> ok w'
    \<and> pw_Width W w' = pw_Width W w \<and> pw_Height W w' = pw_Height W w"
  using WriteAscii_paints [OF assms, of color] by (auto simp: painted_def)

text \<open>Text of the built-in font that has room is drawn, and the loop is at what follows it.\<close>

lemma string_loop_paints:
  "ok w \<Longrightarrow> \<forall>c \<in> set s. c < 0x80 \<Longrightarrow> 2048 \<le> length (hankaku fts) \<Longrightarrow>
   \<forall>q. in_rect (Rect (pos + Vec (8 * x) 0) (Vec (8 * int (length s)) 16)) q \<longrightarrow> in_picture W w q \<Longrightarrow>
   \<exists>w'. string_loop fts W pos (s @ rest) color x w = string_loop fts W pos rest color (x + int (length s)) w'
      \<and> painted (text_at (hankaku fts) s (pos + Vec (8 * x) 0)) color w w'"
proof (induction s arbitrary: w x)
  case Nil
  then show ?case by (intro exI [of _ w]) (simp add: painted_def)
next
  case (Cons c s)
  have c: "c < 0x80" using Cons.prems(2) by simp
  have "\<forall>q. in_rect (Rect (pos + Vec (8 * x) 0) (Vec 8 16)) q \<longrightarrow> in_picture W w q"
    using Cons.prems(4) by (auto simp: in_rect_def)
  from WriteAscii_paints [OF Cons.prems(1) c Cons.prems(3) this, of color] obtain w1 where
    w1: "WriteAscii (hankaku fts) W (pos + Vec (8 * x) 0) c color w = Some w1"
      "painted (glyph_at (hankaku fts) c (pos + Vec (8 * x) 0)) color w w1" by auto
  have p1: "ok w1" "pw_Width W w1 = pw_Width W w" "pw_Height W w1 = pw_Height W w" using w1(2) by (simp_all add: painted_def)
  have u: "unat c < 128" "scast c = (ucast c :: u32)" using c by (simp_all add: word_less_nat_alt scast_ascii_char)
  have cc: "(ucast (ucast c :: u32) :: u8) = c" by (rule bit_word_eqI) (auto simp: bit_simps)
  have "unat (ucast c :: u32) = unat c" by simp
  then have dec: "ConvertUTF8To32 ((c # s) @ rest) = Some (ucast c, 1)" "(ucast c :: u32) \<le> 0x7f"
    using c u by (simp_all add: ConvertUTF8To32_def str_at_def CountUTF8Size_def word_le_nat_alt)
  have step: "string_loop fts W pos ((c # s) @ rest) color x w = string_loop fts W pos (s @ rest) color (x + 1) w1"
    by (subst string_loop.simps) (simp add: cc dec [simplified] WriteUnicode_def w1(1) str_skip_def IsHankaku_def)
  have "\<forall>q. in_rect (Rect (pos + Vec (8 * (x + 1)) 0) (Vec (8 * int (length s)) 16)) q \<longrightarrow> in_picture W w1 q"
    using Cons.prems(4) p1(2,3) by (auto simp: in_rect_def in_picture_def)
  from Cons.IH [OF p1(1) _ Cons.prems(3) this] Cons.prems(2) obtain w2 where
    w2: "string_loop fts W pos (s @ rest) color (x + 1) w1 = string_loop fts W pos rest color (x + 1 + int (length s)) w2"
      "painted (text_at (hankaku fts) s (pos + Vec (8 * (x + 1)) 0)) color w1 w2" by auto
  have "pos + Vec (8 * (x + 1)) 0 = pos + Vec (8 * x) 0 + Vec 8 0" by (simp add: vec_eq_iff)
  then have "text_at (hankaku fts) (c # s) (pos + Vec (8 * x) 0) = (\<lambda>q. glyph_at (hankaku fts) c (pos + Vec (8 * x) 0) q
      \<or> text_at (hankaku fts) s (pos + Vec (8 * (x + 1)) 0) q)" by (simp add: fun_eq_iff text_at_Cons)
  with painted_trans_same [OF w1(2) w2(2)]
  have "painted (text_at (hankaku fts) (c # s) (pos + Vec (8 * x) 0)) color w w2" by simp
  moreover have "x + 1 + int (length s) = x + int (length (c # s))" by simp
  ultimately show ?case using step w2(1) by metis
qed

lemma string_loop_ascii:
  assumes "ok w" "\<forall>c \<in> set s. c < 0x80" "2048 \<le> length (hankaku fts)"
    "\<forall>q. in_rect (Rect (pos + Vec (8 * x) 0) (Vec (8 * int (length s)) 16)) q \<longrightarrow> in_picture W w q"
  shows "\<exists>w'. string_loop fts W pos (s @ rest) color x w = string_loop fts W pos rest color (x + int (length s)) w'
      \<and> ok w' \<and> pw_Width W w' = pw_Width W w \<and> pw_Height W w' = pw_Height W w"
  using string_loop_paints [OF assms, of rest color] by (auto simp: painted_def)

end

lemma string_loop_stuck:
  assumes "CountUTF8Size b = 0"
  shows "string_loop fts W pos (b # s) color x w = None"
proof -
  have "s' \<noteq> [] \<longrightarrow> CountUTF8Size (hd s') \<noteq> 0" if "string_loop fts W pos s' color x w = Some y" for s' y
  proof (rule string_loop.raw_induct [OF _ that,
      where P = "\<lambda>fts W pos s color x w y. s \<noteq> [] \<longrightarrow> CountUTF8Size (hd s) \<noteq> 0"])
    fix loop fts W pos s color x w y
    assume IH: "\<And>fts W pos s color x w y. loop fts W pos s color x w = Some y \<Longrightarrow>
        s \<noteq> [] \<longrightarrow> CountUTF8Size (hd s) \<noteq> 0"
      and body: "(if s = [] then Some w
        else do {
          (c, n) \<leftarrow> ConvertUTF8To32 s;
          (w, err) \<leftarrow> WriteUnicode fts W (pos + Vec (8 * x) 0) c color 16 False w;
          s' \<leftarrow> str_skip s n;
          loop fts W pos s' color (x + (if IsHankaku c then 1 else 2)) w }) = Some y"
    show "s \<noteq> [] \<longrightarrow> CountUTF8Size (hd s) \<noteq> 0"
    proof (intro impI notI)
      assume s: "s \<noteq> []" "CountUTF8Size (hd s) = 0"
      then have "ConvertUTF8To32 s = Some (0, 0)"
        by (cases s) (simp_all add: ConvertUTF8To32_def str_at_def)
      with body s(1) obtain w' where "loop fts W pos s color (x + 1) w' = Some y"
        by (auto simp: str_skip_def IsHankaku_def bind_eq_Some_conv split: prod.splits)
      from IH [OF this] s show False by simp
    qed
  qed
  with assms show ?thesis by (cases "string_loop fts W pos (b # s) color x w") fastforce+
qed

text \<open>
  \<^verbatim>\<open>WriteString\<close> draws a string of ASCII characters that has room in the picture and returns; a
  byte that begins no UTF-8 sequence (\<open>0x80\<close> to \<open>0xbf\<close>, \<open>0xf8\<close> to \<open>0xff\<close>) is decoded with the length 0,
  so the loop stays at it and never returns, whatever the fonts hold.
\<close>

theorem WriteString_hangs_on_stray_byte:
  assumes "fb_ok fb" "\<forall>c \<in> set s. c < 0x80" "2048 \<le> length (hankaku fts)"
    and room: "\<forall>q. in_rect (Rect pos (Vec (8 * int (length s)) 16)) q \<longrightarrow> in_fb fb q"
  shows "(\<exists>fb'. WriteString fts Writer pos s color fb = Some fb' \<and> fb_ok fb')
    \<and> (0x80 \<le> b \<and> b < 0xc0 \<or> 0xf8 \<le> b \<longrightarrow> WriteString fts Writer pos (s @ b # rest) color fb = None)"
proof -
  have r: "\<forall>q. in_rect (Rect (pos + Vec (8 * 0) 0) (Vec (8 * int (length s)) 16)) q \<longrightarrow> in_picture Writer fb q"
    using room in_picture_fb [OF assms(1)] by (simp add: in_rect_def)
  note loop = fbw.string_loop_ascii [OF assms(1-3) r]
  from loop [of "[]" color] obtain fb' where "WriteString fts Writer pos s color fb = string_loop fts Writer pos [] color (0 + int (length s)) fb'"
    "fb_ok fb'" unfolding WriteString_def by auto
  then have "\<exists>fb'. WriteString fts Writer pos s color fb = Some fb' \<and> fb_ok fb'"
    by (simp add: string_loop.simps)
  moreover have "WriteString fts Writer pos (s @ b # rest) color fb = None" if "0x80 \<le> b \<and> b < 0xc0 \<or> 0xf8 \<le> b"
  proof -
    from that have "CountUTF8Size b = 0" by (auto simp: CountUTF8Size_def word_le_nat_alt word_less_nat_alt)
    with loop [of "b # rest" color] show ?thesis
      unfolding WriteString_def by (auto simp: string_loop_stuck)
  qed
  ultimately show ?thesis by blast
qed

text \<open>A font of empty glyphs and no FreeType face.\<close>

definition blank_fonts :: "unit fonts" where
  "blank_fonts = \<lparr>hankaku = replicate 4096 0, freetype = \<lparr>ft_new_face = \<lambda>_ _. None, ft_render = \<lambda>_ _. None\<rparr>\<rparr>"

definition screen_example :: FrameBuffer where
  "screen_example = fst (Initialize \<lparr>frame_buffer = None, pixels_per_scan_line = 0, horizontal_resolution = 800,
     vertical_resolution = 600, pixel_format = kPixelRGBResv8BitPerColor\<rparr>)"

lemma screen_example_ok: "fb_ok screen_example"
  "in_fb screen_example q \<longleftrightarrow> 0 \<le> vx q \<and> vx q < 800 \<and> 0 \<le> vy q \<and> vy q < 600"
  using Initialize_ok [of "\<lparr>frame_buffer = None, pixels_per_scan_line = 0, horizontal_resolution = 800,
     vertical_resolution = 600, pixel_format = kPixelRGBResv8BitPerColor\<rparr>"]
  by (auto simp: screen_example_def in_fb_def)

theorem WriteString_hangs_on_stray_byte_witness:
  "(\<exists>fb'. WriteString blank_fonts Writer (Vec 10 10) [72, 105] kWindowFGColor screen_example = Some fb')
   \<and> WriteString blank_fonts Writer (Vec 10 10) [72, 105, 0x90] kWindowFGColor screen_example = None"
  using WriteString_hangs_on_stray_byte [OF screen_example_ok(1), of "[72, 105]" blank_fonts "Vec 10 10"
      kWindowFGColor "0x90" "[]"]
  by (auto simp: screen_example_ok(2) in_rect_def blank_fonts_def simp del: replicate.simps)

end
