(* ===== verification/Window.thy ===== *)
theory Window imports Font begin

text \<open>
  \<^verbatim>\<open>kernel/window.hpp\<close> and \<^verbatim>\<open>window.cpp\<close>: windows, their pixel writers, and drawing a window to a frame
  buffer.

  A \<^verbatim>\<open>ToplevelWindow\<close> is a window with a title; its virtual functions are those of the record with
  \<open>win_title\<close>.  The mixing of two colours is done in floating point and is a parameter, \<open>blend\<close>.
\<close>

section \<open>Windows\<close>

record Window =
  win_width :: int
  win_height :: int
  win_data :: "PixelColor list list"
  transparent_color :: "PixelColor option"
  shadow_buffer :: FrameBuffer
  win_title :: "u8 list option"

definition Window_init :: "int \<Rightarrow> int \<Rightarrow> PixelFormat \<Rightarrow> Window option" where
  "Window_init width height shadow_format =
     (if width < 0 \<or> height < 0 then None
      else let config = \<lparr>frame_buffer = None, pixels_per_scan_line = 0,
                          horizontal_resolution = word_of_int width,
                          vertical_resolution = word_of_int height, pixel_format = shadow_format\<rparr>
           in Some \<lparr>win_width = width, win_height = height,
                win_data = replicate (nat height) (replicate (nat width) (px 0 0 0)),
                transparent_color = None, shadow_buffer = fst (Initialize config), win_title = None\<rparr>)"

definition SetTransparentColor :: "PixelColor option \<Rightarrow> Window \<Rightarrow> Window" where
  "SetTransparentColor c w = w\<lparr>transparent_color := c\<rparr>"

definition At :: "Vector2D \<Rightarrow> Window \<Rightarrow> PixelColor option" where
  "At pos w =
     (if vy pos < 0 \<or> vx pos < 0 then None
      else case arr_get (win_data w) (nat (vy pos)) of
        None \<Rightarrow> None
      | Some line \<Rightarrow> arr_get line (nat (vx pos)))"

definition win_Write :: "Vector2D \<Rightarrow> PixelColor \<Rightarrow> Window \<Rightarrow> Window option" where
  "win_Write pos c w =
     (if vy pos < 0 \<or> vx pos < 0 then None
      else case arr_get (win_data w) (nat (vy pos)) of
        None \<Rightarrow> None
      | Some line \<Rightarrow>
          (case arr_set line (nat (vx pos)) c of
             None \<Rightarrow> None
           | Some line' \<Rightarrow>
               (case pw_Write Writer pos c (shadow_buffer w) of
                  None \<Rightarrow> None
                | Some fb \<Rightarrow> Some (w\<lparr>win_data := (win_data w)[nat (vy pos) := line'], shadow_buffer := fb\<rparr>))))"

definition win_Size :: "Window \<Rightarrow> Vector2D" where
  "win_Size w = Vec (win_width w) (win_height w)"

definition win_Move :: "Vector2D \<Rightarrow> Rectangle \<Rightarrow> Window \<Rightarrow> Window option" where
  "win_Move dst_pos src w =
     map_option (\<lambda>fb. w\<lparr>shadow_buffer := fb\<rparr>) (Move dst_pos src (shadow_buffer w))"

definition WindowWriter :: "Window PixelWriter" where
  "WindowWriter = \<lparr>pw_Write = win_Write, pw_Width = win_width, pw_Height = win_height, pw_GetPixel = At\<rparr>"

text \<open>The loop of \<^verbatim>\<open>DrawTo\<close> over the pixels, for a transparent colour or a transparent window.\<close>

definition draw_pixel ::
    "(PixelColor \<Rightarrow> PixelColor \<Rightarrow> u8 \<Rightarrow> PixelColor) \<Rightarrow> u8 \<Rightarrow> bool \<Rightarrow> Window \<Rightarrow> Vector2D \<Rightarrow> Vector2D \<Rightarrow> FrameBuffer \<Rightarrow> FrameBuffer option" where
  "draw_pixel blend globalTransparent transparent w from to dst =
     (case At from w of
        None \<Rightarrow> None
      | Some c \<Rightarrow>
          if transparent_color w = None \<or> color_neq c (the (transparent_color w))
          then (if transparent
                then (case pw_GetPixel Writer to dst of
                        None \<Rightarrow> None
                      | Some bgc \<Rightarrow> pw_Write Writer to (blend c bgc globalTransparent) dst)
                else pw_Write Writer to c dst)
          else Some dst)"

definition win_DrawTo ::
    "(PixelColor \<Rightarrow> PixelColor \<Rightarrow> u8 \<Rightarrow> PixelColor) \<Rightarrow> u8 \<Rightarrow> Vector2D \<Rightarrow> Rectangle \<Rightarrow> bool \<Rightarrow> Window \<Rightarrow> FrameBuffer \<Rightarrow> FrameBuffer option" where
  "win_DrawTo blend globalTransparent pos area transparent w dst =
     (let window_area = Rect pos (win_Size w);
          inter = rect_and window_area area;
          ip = rpos inter; isz = rsize inter in
      if vx isz = 0 \<or> vy isz = 0 then Some dst
      else if transparent_color w = None \<and> \<not> transparent
      then map_option fst (Copy ip (shadow_buffer w) (Rect (ip - pos) isz) dst)
      else
        let delta_pos = ip - pos in
        for_each (\<lambda>y. for_each (\<lambda>x.
            draw_pixel blend globalTransparent transparent w (Vec (x + vx delta_pos) (y + vy delta_pos)) (ip + Vec x y))
          [max 0 (0 - vx ip)..min (vx isz) (pw_Width Writer dst - vx ip) - 1])
        [max 0 (0 - vy ip)..min (vy isz) (pw_Height Writer dst - vy ip) - 1] dst)"

section \<open>Windows with a title\<close>

definition kTopLeftMargin :: Vector2D where "kTopLeftMargin = Vec 2 27"
definition kBottomRightMargin :: Vector2D where "kBottomRightMargin = Vec 2 2"

definition kCloseButtonWidth :: int where "kCloseButtonWidth = 16"
definition kCloseButtonHeight :: int where "kCloseButtonHeight = 14"

definition close_button :: "string list" where
  "close_button =
    [''................'',
     ''.@@@........@@@.'',
     ''..@@@......@@@..'',
     ''...@@@....@@@...'',
     ''....@@@..@@@....'',
     ''.....@@@@@@.....'',
     ''......@@@@......'',
     ''.....@@@@@@.....'',
     ''....@@@..@@@....'',
     ''...@@@....@@@...'',
     ''..@@@......@@@..'',
     ''.@@@........@@@.'',
     ''................'',
     ''................'']"

datatype WindowRegion = kTitleBar | kCloseButton | kBorder | kOther

definition GetWindowRegion :: "Vector2D \<Rightarrow> Window \<Rightarrow> WindowRegion" where
  "GetWindowRegion pos w =
     (if win_title w = None then kOther
      else if vx pos < 2 \<or> win_width w - 2 \<le> vx pos \<or> vy pos < 2 \<or> win_height w - 2 \<le> vy pos then kBorder
      else if vy pos < vy kTopLeftMargin
      then (if win_width w - 5 - kCloseButtonWidth \<le> vx pos \<and> vx pos < win_width w - 5
               \<and> 5 \<le> vy pos \<and> vy pos < 5 + kCloseButtonHeight
            then kCloseButton else kTitleBar)
      else kOther)"

definition InnerAreaWriter :: "Window PixelWriter" where
  "InnerAreaWriter =
     \<lparr>pw_Write = (\<lambda>pos c w. win_Write (pos + kTopLeftMargin) c w),
      pw_Width = (\<lambda>w. win_width w - vx kTopLeftMargin - vx kBottomRightMargin),
      pw_Height = (\<lambda>w. win_height w - vy kTopLeftMargin - vy kBottomRightMargin),
      pw_GetPixel = (\<lambda>pos w. At (pos + kTopLeftMargin) w)\<rparr>"

definition InnerSize :: "Window \<Rightarrow> Vector2D" where
  "InnerSize w = win_Size w - kTopLeftMargin - kBottomRightMargin"

definition DrawWindowTitle :: "'f fonts \<Rightarrow> 'w PixelWriter \<Rightarrow> u8 list \<Rightarrow> bool \<Rightarrow> 'w \<Rightarrow> 'w option" where
  "DrawWindowTitle fts W title active w = do {
     let win_w = pw_Width W w;
     w \<leftarrow> FillRectangle W (Vec 0 0) (Vec win_w 25) (if active then kWindowTitleColor else kWindowTitleBlurColor) w;
     w \<leftarrow> WriteString fts W (Vec 18 4) title kWindowFGColor w;
     for_each (\<lambda>y. for_each (\<lambda>x w.
         if close_button ! nat y ! nat x = CHR ''@''
         then pw_Write W (Vec (win_w - 5 - kCloseButtonWidth + x) (5 + y)) kWindowCloseColor w
         else Some w) [0..kCloseButtonWidth - 1]) [0..kCloseButtonHeight - 1] w }"

definition DrawWindow :: "'f fonts \<Rightarrow> 'w PixelWriter \<Rightarrow> u8 list \<Rightarrow> 'w \<Rightarrow> 'w option" where
  "DrawWindow fts W title w = do {
     let win_w = pw_Width W w;
     let win_h = pw_Height W w;
     w \<leftarrow> FillRectangle W (Vec 0 25) (Vec win_w (win_h - 25)) kWindowBGColor w;
     DrawWindowTitle fts W title False w }"

definition ToplevelWindow_init :: "'f fonts \<Rightarrow> int \<Rightarrow> int \<Rightarrow> PixelFormat \<Rightarrow> u8 list \<Rightarrow> Window option" where
  "ToplevelWindow_init fts width height shadow_format title = do {
     w \<leftarrow> Window_init width height shadow_format;
     DrawWindow fts WindowWriter title (w\<lparr>win_title := Some title\<rparr>) }"

definition win_Activate :: "'f fonts \<Rightarrow> Window \<Rightarrow> Window option" where
  "win_Activate fts w =
     (case win_title w of None \<Rightarrow> Some w | Some title \<Rightarrow> DrawWindowTitle fts WindowWriter title True w)"

definition win_Deactivate :: "'f fonts \<Rightarrow> Window \<Rightarrow> Window option" where
  "win_Deactivate fts w =
     (case win_title w of None \<Rightarrow> Some w | Some title \<Rightarrow> DrawWindowTitle fts WindowWriter title False w)"

definition draw_textbox ::
    "'w PixelWriter \<Rightarrow> Vector2D \<Rightarrow> Vector2D \<Rightarrow> PixelColor \<Rightarrow> PixelColor \<Rightarrow> PixelColor \<Rightarrow> PixelColor \<Rightarrow> PixelColor \<Rightarrow> 'w \<Rightarrow> 'w option" where
  "draw_textbox W pos sz background borderTop borderRight borderBottom borderLeft w = do {
     w \<leftarrow> FillRectangle W (pos + Vec 1 1) (sz - Vec 2 2) background w;
     w \<leftarrow> FillRectangle W pos (Vec (vx sz) 1) borderTop w;
     w \<leftarrow> FillRectangle W pos (Vec 1 (vy sz)) borderLeft w;
     w \<leftarrow> FillRectangle W (pos + Vec 0 (vy sz)) (Vec (vx sz) 1) borderBottom w;
     FillRectangle W (pos + Vec (vx sz) 0) (Vec 1 (vy sz)) borderRight w }"

definition DrawTextbox :: "'w PixelWriter \<Rightarrow> Vector2D \<Rightarrow> Vector2D \<Rightarrow> 'w \<Rightarrow> 'w option" where
  "DrawTextbox W pos sz w = draw_textbox W pos sz kTextBoxBGColor
     kTextBoxBorderTopColor kTextBoxBorderRightColor kTextBoxBorderBottomColor kTextBoxBorderLeftColor w"

definition DrawTerminal :: "'w PixelWriter \<Rightarrow> Vector2D \<Rightarrow> Vector2D \<Rightarrow> 'w \<Rightarrow> 'w option" where
  "DrawTerminal W pos sz w = draw_textbox W pos sz kTerminalBGColor
     kTextBoxBorderTopColor kTextBoxBorderRightColor kTextBoxBorderBottomColor kTextBoxBorderLeftColor w"

section \<open>Well-formed windows\<close>

definition win_ok :: "Window \<Rightarrow> bool" where
  "win_ok w \<longleftrightarrow> fb_ok (shadow_buffer w)
     \<and> win_width w = uint (horizontal_resolution (shadow_buffer w))
     \<and> win_height w = uint (vertical_resolution (shadow_buffer w))
     \<and> length (win_data w) = nat (win_height w)
     \<and> (\<forall>line \<in> set (win_data w). length line = nat (win_width w))"

definition in_win :: "Window \<Rightarrow> Vector2D \<Rightarrow> bool" where
  "in_win w q \<longleftrightarrow> 0 \<le> vx q \<and> vx q < win_width w \<and> 0 \<le> vy q \<and> vy q < win_height w"

text \<open>The window shows what was written to it: the shadow buffer has the pixels of the data.\<close>

definition win_synced :: "Window \<Rightarrow> bool" where
  "win_synced w \<longleftrightarrow> (\<forall>q. in_win w q \<longrightarrow> fb_GetPixel q (shadow_buffer w) = At q w)"

lemma in_win_fb: "win_ok w \<Longrightarrow> in_fb (shadow_buffer w) q \<longleftrightarrow> in_win w q"
  by (auto simp: win_ok_def in_fb_def in_win_def)

lemma data_in:
  assumes "win_ok w" "in_win w q"
  shows "nat (vy q) < length (win_data w)" "nat (vx q) < length (win_data w ! nat (vy q))" "0 \<le> vx q" "0 \<le> vy q"
proof -
  have q: "0 \<le> vx q" "vx q < win_width w" "0 \<le> vy q" "vy q < win_height w" using assms(2) by (simp_all add: in_win_def)
  then show "0 \<le> vx q" "0 \<le> vy q" by simp_all
  have l: "length (win_data w) = nat (win_height w)" "\<forall>line \<in> set (win_data w). length line = nat (win_width w)"
    using assms(1) by (simp_all add: win_ok_def)
  with q show y: "nat (vy q) < length (win_data w)" by linarith
  with l(2) have "length (win_data w ! nat (vy q)) = nat (win_width w)" by simp
  with q show "nat (vx q) < length (win_data w ! nat (vy q))" by linarith
qed

lemma At_in: "win_ok w \<Longrightarrow> in_win w q \<Longrightarrow> At q w = Some (win_data w ! nat (vy q) ! nat (vx q))"
  using data_in [of w q] by (simp add: At_def)

lemma win_write_in:
  assumes ok: "win_ok w" and q: "in_win w q"
  shows "\<exists>w'. win_Write q c w = Some w' \<and> win_ok w' \<and> win_width w' = win_width w \<and> win_height w' = win_height w
    \<and> win_title w' = win_title w \<and> pixel_format (shadow_buffer w') = pixel_format (shadow_buffer w)
    \<and> transparent_color w' = transparent_color w
    \<and> (\<forall>p. in_win w p \<longrightarrow> At p w' = (if p = q then Some c else At p w))
    \<and> (\<forall>p. in_win w p \<longrightarrow> fb_GetPixel p (shadow_buffer w') = (if p = q then Some c else fb_GetPixel p (shadow_buffer w)))"
proof -
  let ?y = "nat (vy q)" and ?x = "nat (vx q)"
  from ok have fb: "fb_ok (shadow_buffer w)" by (simp add: win_ok_def)
  from fb_write_in [OF fb, of q c] in_win_fb [OF ok] q obtain fb' where fb':
    "fb_Write q c (shadow_buffer w) = Some fb'" "fb_ok fb'" "fb' = (shadow_buffer w)\<lparr>frame_buffer := Some (fb_mem fb')\<rparr>"
    "\<forall>p. in_win w p \<longrightarrow> fb_GetPixel p fb' = (if p = q then Some c else fb_GetPixel p (shadow_buffer w))" by auto
  have y: "?y < length (win_data w)" "?x < length (win_data w ! ?y)" "0 \<le> vx q" "0 \<le> vy q"
    using data_in [OF ok q] by auto
  let ?w = "w\<lparr>win_data := (win_data w)[?y := (win_data w ! ?y)[?x := c]], shadow_buffer := fb'\<rparr>"
  have W: "win_Write q c w = Some ?w" using y fb'(1) by (simp add: win_Write_def Writer_def)
  have dims: "horizontal_resolution fb' = horizontal_resolution (shadow_buffer w)"
    "vertical_resolution fb' = vertical_resolution (shadow_buffer w)"
    by (subst fb'(3), simp)+
  have "\<forall>line \<in> set ((win_data w)[?y := (win_data w ! ?y)[?x := c]]). length line = nat (win_width w)"
    using ok y by (auto simp: win_ok_def dest!: set_update_subset_insert [THEN subsetD])
  then have ok': "win_ok ?w" using ok fb'(2) by (simp add: win_ok_def dims)
  have "At p ?w = (if p = q then Some c else At p w)" if p: "in_win w p" for p
  proof -
    have "in_win ?w p" using p by (simp add: in_win_def)
    from At_in [OF ok' this] At_in [OF ok p] y p show ?thesis
      by (auto simp: nth_list_update vec_eq_iff in_win_def nat_eq_iff)
  qed
  with W ok' fb'(3,4) fb_same_config(5) [OF fb'(3)] show ?thesis by (intro exI [of _ ?w]) simp
qed

lemma in_picture_win: "in_picture WindowWriter w q \<longleftrightarrow> in_win w q"
  by (auto simp: in_picture_def WindowWriter_def in_rect_def in_win_def)

text \<open>Both writers of a window keep its shadow in step.\<close>

definition win_good :: "Window \<Rightarrow> bool" where
  "win_good w \<longleftrightarrow> win_ok w \<and> win_synced w"

lemma win_write_good:
  assumes "win_good w" "in_win w q"
  shows "\<exists>w'. win_Write q c w = Some w' \<and> win_good w' \<and> win_width w' = win_width w \<and> win_height w' = win_height w
    \<and> (\<forall>p. in_win w p \<longrightarrow> At p w' = (if p = q then Some c else At p w))"
proof -
  from assms(1) have ok: "win_ok w" "win_synced w" by (simp_all add: win_good_def)
  from win_write_in [OF ok(1) assms(2), of c] obtain w' where w': "win_Write q c w = Some w'" "win_ok w'"
    "win_width w' = win_width w" "win_height w' = win_height w"
    "\<forall>p. in_win w p \<longrightarrow> At p w' = (if p = q then Some c else At p w)"
    "\<forall>p. in_win w p \<longrightarrow> fb_GetPixel p (shadow_buffer w') = (if p = q then Some c else fb_GetPixel p (shadow_buffer w))"
    by auto
  then have "win_synced w'" using ok(2) by (auto simp: win_synced_def in_win_def)
  with w' show ?thesis by (auto simp: win_good_def)
qed

interpretation ww: pixel_canvas WindowWriter win_good "pw_GetPixel WindowWriter"
proof
  fix w q c
  assume "win_good w" "in_picture WindowWriter w q"
  with win_write_good [of w q c] show "\<exists>w'. pw_Write WindowWriter q c w = Some w' \<and> win_good w'
      \<and> pw_Width WindowWriter w' = pw_Width WindowWriter w \<and> pw_Height WindowWriter w' = pw_Height WindowWriter w
      \<and> (\<forall>p. in_picture WindowWriter w p \<longrightarrow>
            pw_GetPixel WindowWriter p w' = (if p = q then Some c else pw_GetPixel WindowWriter p w))"
    unfolding in_picture_win by (auto simp: WindowWriter_def)
qed

interpretation iw: pixel_canvas InnerAreaWriter win_good "pw_GetPixel InnerAreaWriter"
proof
  fix w q c
  assume a: "win_good w" "in_picture InnerAreaWriter w q"
  have inner: "in_picture InnerAreaWriter w p \<Longrightarrow> in_win w (p + kTopLeftMargin)" for p
    by (auto simp: in_picture_def InnerAreaWriter_def in_rect_def in_win_def kTopLeftMargin_def kBottomRightMargin_def)
  have inj: "p + kTopLeftMargin = q + kTopLeftMargin \<longleftrightarrow> p = q" for p by (auto simp: vec_eq_iff)
  from win_write_good [OF a(1) inner [OF a(2)], of c] inner inj
  show "\<exists>w'. pw_Write InnerAreaWriter q c w = Some w' \<and> win_good w'
      \<and> pw_Width InnerAreaWriter w' = pw_Width InnerAreaWriter w
      \<and> pw_Height InnerAreaWriter w' = pw_Height InnerAreaWriter w
      \<and> (\<forall>p. in_picture InnerAreaWriter w p \<longrightarrow>
            pw_GetPixel InnerAreaWriter p w' = (if p = q then Some c else pw_GetPixel InnerAreaWriter p w))"
    by (auto simp: InnerAreaWriter_def)
qed

section \<open>Drawing a window\<close>

text \<open>
  The colour that drawing a window gives to a pixel: \<open>p\<close> is the position in the window, \<open>below\<close> the colour
  that was there.  An opaque window is copied from its shadow buffer; with a transparent colour, or when
  the window is to be blended, the pixels come from \<^verbatim>\<open>_data\<close>.
\<close>

definition win_pixel ::
    "(PixelColor \<Rightarrow> PixelColor \<Rightarrow> u8 \<Rightarrow> PixelColor) \<Rightarrow> u8 \<Rightarrow> bool \<Rightarrow> Window \<Rightarrow> Vector2D \<Rightarrow> PixelColor option \<Rightarrow> PixelColor option" where
  "win_pixel blend gt transparent w p below =
     (if transparent_color w = None \<and> \<not> transparent then fb_GetPixel p (shadow_buffer w)
      else case At p w of
        None \<Rightarrow> None
      | Some c \<Rightarrow>
          if transparent_color w = None \<or> color_neq c (the (transparent_color w))
          then if transparent then map_option (\<lambda>bgc. blend c bgc gt) below else Some c
          else below)"

definition draws_window ::
    "(PixelColor \<Rightarrow> PixelColor \<Rightarrow> u8 \<Rightarrow> PixelColor) \<Rightarrow> u8 \<Rightarrow> Vector2D \<Rightarrow> Rectangle \<Rightarrow> bool \<Rightarrow> Window \<Rightarrow> FrameBuffer \<Rightarrow> FrameBuffer \<Rightarrow> bool" where
  "draws_window blend gt pos area transparent w dst dst' \<longleftrightarrow> fb_ok dst' \<and> pixel_format dst' = pixel_format dst
     \<and> in_fb dst' = in_fb dst
     \<and> (\<forall>q. in_fb dst q \<longrightarrow> fb_GetPixel q dst' =
          (if in_rect area q \<and> in_win w (q - pos) then win_pixel blend gt transparent w (q - pos) (fb_GetPixel q dst)
           else fb_GetPixel q dst))"

lemma fb_GetPixel_Some: "fb_ok fb \<Longrightarrow> in_fb fb q \<Longrightarrow> \<exists>c. fb_GetPixel q fb = Some c"
  using fb_GetPixel_bytes [of fb q] by (simp add: Let_def)

text \<open>One step of the loop over the pixels, and the loop over a list of different pixels.\<close>

lemma draw_pixel_spec:
  assumes w: "win_ok w" "in_win w (q - pos)" "transparent_color w \<noteq> None \<or> transparent" and dst: "fb_ok dst" "in_fb dst q"
  shows "\<exists>dst'. draw_pixel blend gt transparent w (q - pos) q dst = Some dst' \<and> fb_ok dst'
    \<and> pixel_format dst' = pixel_format dst \<and> in_fb dst' = in_fb dst
    \<and> (\<forall>p. in_fb dst p \<longrightarrow> fb_GetPixel p dst' =
         (if p = q then win_pixel blend gt transparent w (q - pos) (fb_GetPixel q dst) else fb_GetPixel p dst))"
proof -
  obtain c where c: "At (q - pos) w = Some c" using At_in [OF w(1,2)] by blast
  obtain b where b: "fb_GetPixel q dst = Some b" using fb_GetPixel_Some [OF dst] by blast
  have step: "\<exists>dst'. fb_Write q x dst = Some dst' \<and> fb_ok dst' \<and> pixel_format dst' = pixel_format dst
      \<and> in_fb dst' = in_fb dst \<and> (\<forall>p. in_fb dst p \<longrightarrow> fb_GetPixel p dst' = (if p = q then Some x else fb_GetPixel p dst))" for x
    using fb_write_in [OF dst, of x] fb_same_config(2,5) by metis
  show ?thesis
  proof (cases "transparent_color w = None \<or> color_neq c (the (transparent_color w))")
    case True
    with step [of "if transparent then blend c b gt else c"] w(3) c b show ?thesis
      by (auto simp: draw_pixel_def win_pixel_def Writer_def)
  next
    case False
    then obtain tc where tc: "transparent_color w = Some tc" "\<not> color_neq c tc" by auto
    then have "draw_pixel blend gt transparent w (q - pos) q dst = Some dst" using c by (simp add: draw_pixel_def)
    with tc dst(1) c show ?thesis by (intro exI [of _ dst]) (simp add: win_pixel_def)
  qed
qed

lemma draw_pixels_spec:
  "win_ok w \<Longrightarrow> transparent_color w \<noteq> None \<or> transparent \<Longrightarrow> fb_ok dst \<Longrightarrow> distinct qs \<Longrightarrow>
   \<forall>q \<in> set qs. in_fb dst q \<and> in_win w (q - pos) \<Longrightarrow>
   \<exists>dst'. for_each (\<lambda>q. draw_pixel blend gt transparent w (q - pos) q) qs dst = Some dst' \<and> fb_ok dst'
    \<and> pixel_format dst' = pixel_format dst \<and> in_fb dst' = in_fb dst
    \<and> (\<forall>p. in_fb dst p \<longrightarrow> fb_GetPixel p dst' =
         (if p \<in> set qs then win_pixel blend gt transparent w (p - pos) (fb_GetPixel p dst) else fb_GetPixel p dst))"
proof (induction qs arbitrary: dst)
  case (Cons q qs)
  have q: "in_win w (q - pos)" "in_fb dst q" "q \<notin> set qs" using Cons.prems(4,5) by auto
  from draw_pixel_spec [OF Cons.prems(1) q(1) Cons.prems(2,3) q(2)] obtain d1 where
    d1: "draw_pixel blend gt transparent w (q - pos) q dst = Some d1" "fb_ok d1" "pixel_format d1 = pixel_format dst"
      "in_fb d1 = in_fb dst" "\<forall>p. in_fb dst p \<longrightarrow> fb_GetPixel p d1 =
         (if p = q then win_pixel blend gt transparent w (q - pos) (fb_GetPixel q dst) else fb_GetPixel p dst)" by metis
  have "\<forall>q \<in> set qs. in_fb d1 q \<and> in_win w (q - pos)" "distinct qs" using Cons.prems(4,5) d1(4) by auto
  from Cons.IH [OF Cons.prems(1,2) d1(2) this(2,1)] obtain d2 where
    d2: "for_each (\<lambda>q. draw_pixel blend gt transparent w (q - pos) q) qs d1 = Some d2" "fb_ok d2"
      "pixel_format d2 = pixel_format d1" "in_fb d2 = in_fb d1"
      "\<forall>p. in_fb d1 p \<longrightarrow> fb_GetPixel p d2 =
         (if p \<in> set qs then win_pixel blend gt transparent w (p - pos) (fb_GetPixel p d1) else fb_GetPixel p d1)" by metis
  have "fb_GetPixel p d2 = (if p \<in> set (q # qs) then win_pixel blend gt transparent w (p - pos) (fb_GetPixel p dst)
      else fb_GetPixel p dst)" if "in_fb dst p" for p
    using that d1(4,5) d2(5) q(3) by auto
  with d1(1-4) d2(1-4) show ?case by (intro exI [of _ d2]) simp
qed simp

lemma distinct_concat_map:
  assumes "distinct ys" and "\<And>y. distinct (f y)" and "\<And>y z. y \<noteq> z \<Longrightarrow> set (f y) \<inter> set (f z) = {}"
  shows "distinct (concat (map f ys))"
  using assms(1)
proof (induction ys)
  case (Cons y ys)
  then have "set (f y) \<inter> set (f z) = {}" if "z \<in> set ys" for z using that by (intro assms(3)) auto
  then have "set (f y) \<inter> set (concat (map f ys)) = {}" by auto
  with Cons assms(2) show ?case by simp
qed simp

text \<open>The loops over the rows and columns visit every pixel of the intersection that is in the buffer, once.\<close>

lemma loop_points:
  fixes a b c d :: int
  shows "for_each (\<lambda>y. for_each (\<lambda>x. f (ip + Vec x y)) [a..b]) [c..d] s
      = for_each f (concat (map (\<lambda>y. map (\<lambda>x. ip + Vec x y) [a..b]) [c..d])) s"
    and "distinct (concat (map (\<lambda>y. map (\<lambda>x. ip + Vec x y) [a..b]) [c..d]))"
    and "q \<in> set (concat (map (\<lambda>y. map (\<lambda>x. ip + Vec x y) [a..b]) [c..d]))
      \<longleftrightarrow> a \<le> vx q - vx ip \<and> vx q - vx ip \<le> b \<and> c \<le> vy q - vy ip \<and> vy q - vy ip \<le> d"
proof -
  show "for_each (\<lambda>y. for_each (\<lambda>x. f (ip + Vec x y)) [a..b]) [c..d] s
      = for_each f (concat (map (\<lambda>y. map (\<lambda>x. ip + Vec x y) [a..b]) [c..d])) s"
    unfolding for_each_concat [symmetric] for_each_map ..
  have inj: "inj_on (\<lambda>x. ip + Vec x y) A" for A y by (auto simp: inj_on_def vec_eq_iff)
  have row: "q \<in> set (map (\<lambda>x. ip + Vec x y) [a..b]) \<longleftrightarrow> vy q - vy ip = y \<and> a \<le> vx q - vx ip \<and> vx q - vx ip \<le> b" for y q
  proof
    assume "vy q - vy ip = y \<and> a \<le> vx q - vx ip \<and> vx q - vx ip \<le> b"
    then have "q = ip + Vec (vx q - vx ip) y" "vx q - vx ip \<in> set [a..b]" by (auto simp: vec_eq_iff)
    then show "q \<in> set (map (\<lambda>x. ip + Vec x y) [a..b])" by (simp only: set_map) (rule image_eqI)
  qed auto
  show "q \<in> set (concat (map (\<lambda>y. map (\<lambda>x. ip + Vec x y) [a..b]) [c..d]))
      \<longleftrightarrow> a \<le> vx q - vx ip \<and> vx q - vx ip \<le> b \<and> c \<le> vy q - vy ip \<and> vy q - vy ip \<le> d"
    unfolding set_concat using row [of q] by auto
  show "distinct (concat (map (\<lambda>y. map (\<lambda>x. ip + Vec x y) [a..b]) [c..d]))"
  proof (rule distinct_concat_map)
    show "set (map (\<lambda>x. ip + Vec x y) [a..b]) \<inter> set (map (\<lambda>x. ip + Vec x z) [a..b]) = {}" if "y \<noteq> z" for y z
      using that by (auto simp: vec_eq_iff)
  qed (simp_all add: distinct_map inj)
qed

lemma DrawTo_draws:
  assumes w: "win_ok w" and dst: "fb_ok dst" and fmt: "pixel_format dst = pixel_format (shadow_buffer w)" and area: "rect_ok area"
  shows "\<exists>dst'. win_DrawTo blend gt pos area transparent w dst = Some dst'
    \<and> draws_window blend gt pos area transparent w dst dst'"
proof -
  let ?wa = "Rect pos (win_Size w)"
  let ?i = "rect_and ?wa area"
  let ?ip = "rpos ?i"
  have fb: "fb_ok (shadow_buffer w)" using w by (simp add: win_ok_def)
  have wa: "rect_ok ?wa" using w by (auto simp: rect_ok_def win_Size_def win_ok_def)
  have "in_rect ?wa q \<longleftrightarrow> in_win w (q - pos)" for q by (auto simp: in_rect_def win_Size_def in_win_def)
  then have inter: "in_rect ?i q \<longleftrightarrow> in_win w (q - pos) \<and> in_rect area q" for q
    by (simp add: in_rect_and [OF wa area])
  consider "vx (rsize ?i) = 0 \<or> vy (rsize ?i) = 0"
    | "\<not> (vx (rsize ?i) = 0 \<or> vy (rsize ?i) = 0)" "transparent_color w = None \<and> \<not> transparent"
    | "\<not> (vx (rsize ?i) = 0 \<or> vy (rsize ?i) = 0)" "transparent_color w \<noteq> None \<or> transparent" by blast
  then show ?thesis
  proof cases
    case 1
    then have "\<not> in_rect ?i q" for q by (auto simp: in_rect_def)
    with inter 1 dst show ?thesis by (auto simp: win_DrawTo_def Let_def draws_window_def)
  next
    case 2
    from Copy_spec [OF dst fb fmt, of "Rect (?ip - pos) (rsize ?i)" ?ip] rect_and_ok [OF wa area]
    obtain dst' where dst': "Copy ?ip (shadow_buffer w) (Rect (?ip - pos) (rsize ?i)) dst = Some (dst', kSuccess)"
      "copied ?ip (shadow_buffer w) (Rect (?ip - pos) (rsize ?i)) dst dst'"
      by (auto simp: rect_ok_def)
    have vec: "q - ?ip + (?ip - pos) = q - pos" for q by (simp add: vec_eq_iff)
    have d: "dst' = dst\<lparr>frame_buffer := Some (fb_mem dst')\<rparr>" using dst'(2) by (simp only: copied_def)
    have "draws_window blend gt pos area transparent w dst dst'"
      using dst'(2) w inter fb_same_config(2,5) [OF d] 2(2)
      by (auto simp: copied_def draws_window_def win_pixel_def Let_def vec in_win_fb)
    with 2 dst'(1) show ?thesis by (simp add: win_DrawTo_def Let_def)
  next
    case 3
    let ?x0 = "max 0 (0 - vx ?ip)" and ?x1 = "min (vx (rsize ?i)) (pw_Width Writer dst - vx ?ip) - 1"
      and ?y0 = "max 0 (0 - vy ?ip)" and ?y1 = "min (vy (rsize ?i)) (pw_Height Writer dst - vy ?ip) - 1"
    let ?f = "\<lambda>q. draw_pixel blend gt transparent w (q - pos) q"
    define qs where "qs = concat (map (\<lambda>y. map (\<lambda>x. ?ip + Vec x y) [?x0..?x1]) [?y0..?y1])"
    have mem: "q \<in> set qs \<longleftrightarrow> in_fb dst q \<and> in_rect ?i q" for q
      unfolding qs_def loop_points(3)
      by (auto simp: in_fb_def in_rect_def Writer_def fb_okD(4,5) [OF dst])
    have "\<forall>q \<in> set qs. in_fb dst q \<and> in_win w (q - pos)" using mem inter by blast
    from draw_pixels_spec [OF w 3(2) dst loop_points(2) [of ?ip ?x0 ?x1 ?y0 ?y1, folded qs_def] this, of blend gt] obtain dst' where
      d: "for_each ?f qs dst = Some dst'" "fb_ok dst'" "pixel_format dst' = pixel_format dst" "in_fb dst' = in_fb dst"
        "\<forall>p. in_fb dst p \<longrightarrow> fb_GetPixel p dst' =
          (if p \<in> set qs then win_pixel blend gt transparent w (p - pos) (fb_GetPixel p dst) else fb_GetPixel p dst)" by blast
    have n: "\<not> (transparent_color w = None \<and> \<not> transparent)" using 3(2) by blast
    have from_pos: "Vec (x + vx (?ip - pos)) (y + vy (?ip - pos)) = ?ip + Vec x y - pos" for x y by (simp add: vec_eq_iff)
    have "win_DrawTo blend gt pos area transparent w dst =
        for_each (\<lambda>y. for_each (\<lambda>x. ?f (?ip + Vec x y)) [?x0..?x1]) [?y0..?y1] dst"
      unfolding win_DrawTo_def Let_def if_not_P [OF 3(1)] if_not_P [OF n] from_pos ..
    also have "\<dots> = for_each ?f qs dst"
      by (rule loop_points(1) [where f = ?f and ip = ?ip and a = ?x0 and b = ?x1 and c = ?y0 and d = ?y1 and s = dst, folded qs_def])
    also have "\<dots> = Some dst'" by (rule d(1))
    finally have "win_DrawTo blend gt pos area transparent w dst = Some dst'" .
    moreover have "draws_window blend gt pos area transparent w dst dst'"
      using d(2-5) mem inter by (auto simp: draws_window_def)
    ultimately show ?thesis by blast
  qed
qed

section \<open>Scrolling a window\<close>

lemma Window_init_good:
  assumes "0 \<le> width" "width < 2 ^ 14" "0 \<le> height" "height < 2 ^ 14"
  shows "\<exists>w. Window_init width height fmt = Some w \<and> win_good w \<and> win_width w = width \<and> win_height w = height
    \<and> transparent_color w = None \<and> win_title w = None \<and> pixel_format (shadow_buffer w) = fmt
    \<and> (\<forall>q. in_win w q \<longrightarrow> At q w = Some (px 0 0 0))"
proof -
  let ?c = "\<lparr>frame_buffer = None, pixels_per_scan_line = 0, horizontal_resolution = word_of_int width,
              vertical_resolution = word_of_int height, pixel_format = fmt\<rparr>"
  let ?fb = "fst (Initialize ?c)"
  have u: "uint (word_of_int width :: u32) = width" "uint (word_of_int height :: u32) = height"
    using assms by (simp_all add: unsigned_of_int take_bit_int_eq_self)
  from Initialize_ok [of ?c] assms u have fb: "fb_ok ?fb" "pixel_format ?fb = fmt"
    "horizontal_resolution ?fb = word_of_int width" "vertical_resolution ?fb = word_of_int height" by auto
  let ?w = "\<lparr>win_width = width, win_height = height,
      win_data = replicate (nat height) (replicate (nat width) (px 0 0 0)),
      transparent_color = None, shadow_buffer = ?fb, win_title = None\<rparr>"
  have W: "Window_init width height fmt = Some ?w" using assms by (simp add: Window_init_def Let_def)
  have ok: "win_ok ?w" using fb u by (simp add: win_ok_def)
  have data: "At q ?w = Some (px 0 0 0)" if "in_win ?w q" for q
    using At_in [OF ok that] data_in [OF ok that] by (simp add: in_win_def)
  have "fb_mem ?fb = replicate (unat (4 * horizontal_resolution ?c * vertical_resolution ?c)) 0"
    by (cases fmt) (simp_all add: Initialize_def BytesPerPixel_def fb_mem_def)
  then have zero: "fb_mem ?fb ! i = 0" if "i < length (fb_mem ?fb)" for i using that by simp
  have "fb_GetPixel q ?fb = Some (px 0 0 0)" if q: "in_win ?w q" for q
  proof -
    have i: "in_fb ?fb q" using in_win_fb [OF ok] q by simp
    show ?thesis using fb_GetPixel_bytes [OF fb(1) i] PixelAt_room [OF fb(1) i] zero
      by (cases "pixel_format ?fb") (simp_all add: Let_def decode_px_def)
  qed
  with ok data have "win_good ?w" by (simp add: win_good_def win_synced_def)
  with W data fb show ?thesis by simp
qed

text \<open>
  \<^verbatim>\<open>Window::Move\<close>, used to scroll, moves the pixels of the shadow buffer and leaves those of \<^verbatim>\<open>_data\<close>
  where they were.  The window and its shadow agree afterwards only where the moved pixels are equal to
  those they replaced; a transparent window, which \<^verbatim>\<open>DrawTo\<close> draws from \<^verbatim>\<open>_data\<close>, shows the text as it was
  before it was scrolled.
\<close>

theorem Move_leaves_data_behind:
  assumes good: "win_good w" and up: "vy to < vy (rpos src)"
    and src: "\<forall>q. in_rect src q \<longrightarrow> in_win w q" "0 < vx (rsize src)" "0 < vy (rsize src)"
    and to: "0 \<le> vx to" "0 \<le> vy to" "vx to + vx (rsize src) \<le> win_width w"
  shows "\<exists>w'. win_Move to src w = Some w' \<and> win_ok w'
    \<and> (\<forall>q. in_win w q \<longrightarrow> At q w' = At q w
        \<and> fb_GetPixel q (shadow_buffer w') = At (if in_rect (Rect to (rsize src)) q then q - to + rpos src else q) w)
    \<and> (win_synced w' \<longleftrightarrow>
        (\<forall>q. in_win w q \<and> in_rect (Rect to (rsize src)) q \<longrightarrow> At (q - to + rpos src) w = At q w))"
proof -
  from good have ok: "win_ok w" "win_synced w" and fb: "fb_ok (shadow_buffer w)"
    by (auto simp: win_good_def win_ok_def)
  have dims: "win_width w = uint (horizontal_resolution (shadow_buffer w))"
    "win_height w = uint (vertical_resolution (shadow_buffer w))" using ok(1) by (simp_all add: win_ok_def)
  have a: "in_win w (rpos src)" "in_win w (rpos src + rsize src - Vec 1 1)"
    using src by (auto simp: in_rect_def)
  obtain fb' where m: "Move to src (shadow_buffer w) = Some fb'" "fb_ok fb'"
    "fb' = (shadow_buffer w)\<lparr>frame_buffer := Some (fb_mem fb')\<rparr>"
    "\<forall>q. in_fb (shadow_buffer w) q \<longrightarrow> fb_GetPixel q fb' =
       (if in_rect (Rect to (rsize src)) q then fb_GetPixel (q - to + rpos src) (shadow_buffer w)
        else fb_GetPixel q (shadow_buffer w))"
    using Move_up_spec [OF fb up] a src(2,3) to by (auto simp: in_win_def dims)
  let ?w = "w\<lparr>shadow_buffer := fb'\<rparr>"
  have "horizontal_resolution fb' = horizontal_resolution (shadow_buffer w)"
    "vertical_resolution fb' = vertical_resolution (shadow_buffer w)" by (subst m(3), simp)+
  then have ok': "win_ok ?w" using ok(1) m(2) by (simp add: win_ok_def)
  have data: "At q ?w = At q w" for q by (simp add: At_def)
  have shadow: "fb_GetPixel q fb' = At (if in_rect (Rect to (rsize src)) q then q - to + rpos src else q) w"
    if q: "in_win w q" for q
  proof -
    have "in_rect (Rect to (rsize src)) q \<Longrightarrow> in_win w (q - to + rpos src)"
      using src(1) by (auto simp: in_rect_def)
    with m(4) q ok show ?thesis by (auto simp: in_win_fb win_synced_def)
  qed
  have "in_win ?w = in_win w" by (auto simp: in_win_def fun_eq_iff)
  with data shadow have "win_synced ?w \<longleftrightarrow>
      (\<forall>q. in_win w q \<and> in_rect (Rect to (rsize src)) q \<longrightarrow> At (q - to + rpos src) w = At q w)"
    by (auto simp: win_synced_def split: if_splits)
  with m(1) ok' data shadow show ?thesis by (intro exI [of _ ?w]) (simp add: win_Move_def)
qed

text \<open>A window with one line of another colour, moved up by one.\<close>

theorem Move_leaves_data_behind_witness:
  "\<exists>w w'. win_Write (Vec 1 1) kWindowCloseColor (the (Window_init 3 2 kPixelRGBResv8BitPerColor)) = Some w
     \<and> win_Move (Vec 0 0) (Rect (Vec 0 1) (Vec 3 1)) w = Some w' \<and> \<not> win_synced w'"
proof -
  from Window_init_good [of 3 2 kPixelRGBResv8BitPerColor] obtain w0 where w0:
    "Window_init 3 2 kPixelRGBResv8BitPerColor = Some w0" "win_good w0" "win_width w0 = 3" "win_height w0 = 2"
    "\<forall>q. in_win w0 q \<longrightarrow> At q w0 = Some (px 0 0 0)" by auto
  have in_w0: "in_win w0 (Vec x y) \<longleftrightarrow> 0 \<le> x \<and> x < 3 \<and> 0 \<le> y \<and> y < 2" for x y
    using w0(3,4) by (simp add: in_win_def)
  from win_write_good [OF w0(2), of "Vec 1 1" kWindowCloseColor] in_w0 obtain w where
    w: "win_Write (Vec 1 1) kWindowCloseColor w0 = Some w" "win_good w" "win_width w = 3" "win_height w = 2"
    "\<forall>p. in_win w0 p \<longrightarrow> At p w = (if p = Vec 1 1 then Some kWindowCloseColor else At p w0)"
    using w0(3,4) by auto
  have in_w: "in_win w q \<longleftrightarrow> 0 \<le> vx q \<and> vx q < 3 \<and> 0 \<le> vy q \<and> vy q < 2" for q
    using w(3,4) by (simp add: in_win_def)
  have at: "At (Vec 1 1) w = Some kWindowCloseColor" "At (Vec 1 0) w = Some (px 0 0 0)"
    using w(5) [rule_format, of "Vec 1 1"] w(5) [rule_format, of "Vec 1 0"] w0(5) in_w0 by simp_all
  have prem: "\<forall>q. in_rect (Rect (Vec 0 1) (Vec 3 1)) q \<longrightarrow> in_win w q" by (auto simp: in_rect_def in_w)
  obtain w' where w': "win_Move (Vec 0 0) (Rect (Vec 0 1) (Vec 3 1)) w = Some w'"
    "win_synced w' \<longrightarrow> (\<forall>q. in_win w q \<and> in_rect (Rect (Vec 0 0) (Vec 3 1)) q \<longrightarrow> At (q - Vec 0 0 + Vec 0 1) w = At q w)"
    using Move_leaves_data_behind [OF w(2), of "Vec 0 0" "Rect (Vec 0 1) (Vec 3 1)"] prem w(3) by auto
  have "\<not> win_synced w'"
  proof
    assume "win_synced w'"
    with w'(2) have all: "\<forall>q. in_win w q \<and> in_rect (Rect (Vec 0 0) (Vec 3 1)) q \<longrightarrow> At (q - Vec 0 0 + Vec 0 1) w = At q w"
      by blast
    have "At (Vec 1 0 - Vec 0 0 + Vec 0 1) w = At (Vec 1 0) w"
      by (rule all [rule_format]) (simp add: in_w in_rect_def)
    with at show False by (simp add: px_def kWindowCloseColor_def)
  qed
  with w0(1) w(1) w'(1) show ?thesis by auto
qed

end
