(* ===== verification/Layer.thy ===== *)
theory Layer imports Window Task_Manager begin

text \<open>
  \<^verbatim>\<open>kernel/layer.hpp\<close> and \<^verbatim>\<open>layer.cpp\<close>: the layers of the desktop, their stack, drawing them through the
  back buffer, the active layer, and the messages with which other tasks ask for drawing.

  The record \<open>Gui\<close> holds the state of \<^verbatim>\<open>layer_manager\<close>, \<^verbatim>\<open>active_layer\<close> and \<^verbatim>\<open>layer_task_map\<close>, the heap of
  windows that layers share with the tasks that draw in them, and the task manager.  A pointer to a
  layer is its identifier.  What is not part of the sources, or not initialised by them, comes from the
  record \<open>env\<close>: the mixing of colours, the fonts, the position of a new layer and the rectangle
  \<^verbatim>\<open>Draw(id)\<close> declares without a value.  Dereferencing a null pointer is \<open>None\<close>.
\<close>

section \<open>State\<close>

record Layer =
  lay_id :: u32
  lay_pos :: Vector2D
  lay_window :: "nat option"
  lay_draggable :: bool
  lay_transparentable :: bool
  lay_clickable :: bool

record 'f env =
  env_blend :: "PixelColor \<Rightarrow> PixelColor \<Rightarrow> u8 \<Rightarrow> PixelColor"
  env_fonts :: "'f fonts"
  env_pos :: Vector2D
  env_area :: Rectangle

record Gui =
  gui_screen :: FrameBuffer
  back_buffer :: FrameBuffer
  layers :: "Layer list"
  layer_stack :: "u32 list"
  last_layer_id :: u32
  windows :: "nat \<Rightarrow> Window option"
  globalTransparent :: u8
  active_id :: u32
  mouse_id :: u32
  layer_task_map :: "u32 \<Rightarrow> nat option"
  gui_tasks :: TaskManager

definition Layer_init :: "'f env \<Rightarrow> u32 \<Rightarrow> Layer" where
  "Layer_init E i = \<lparr>lay_id = i, lay_pos = env_pos E, lay_window = None, lay_draggable = False,
     lay_transparentable = False, lay_clickable = False\<rparr>"

definition lay_Move :: "Vector2D \<Rightarrow> Layer \<Rightarrow> Layer" where
  "lay_Move pos l = l\<lparr>lay_pos := pos\<rparr>"

definition lay_MoveRelative :: "Vector2D \<Rightarrow> Layer \<Rightarrow> Layer" where
  "lay_MoveRelative d l = l\<lparr>lay_pos := lay_pos l + d\<rparr>"

definition lay_SetWindow :: "nat \<Rightarrow> Layer \<Rightarrow> Layer" where
  "lay_SetWindow p l = l\<lparr>lay_window := Some p\<rparr>"

definition lay_SetDraggable :: "bool \<Rightarrow> Layer \<Rightarrow> Layer" where
  "lay_SetDraggable b l = l\<lparr>lay_draggable := b\<rparr>"

definition lay_SetTransparentable :: "bool \<Rightarrow> Layer \<Rightarrow> Layer" where
  "lay_SetTransparentable b l = l\<lparr>lay_transparentable := b\<rparr>"

text \<open>\<^verbatim>\<open>GetWindow()\<close> dereferenced.\<close>

definition lay_GetWindow :: "Gui \<Rightarrow> Layer \<Rightarrow> Window option" where
  "lay_GetWindow g l = (case lay_window l of None \<Rightarrow> None | Some p \<Rightarrow> windows g p)"

definition lay_DrawTo :: "'f env \<Rightarrow> Gui \<Rightarrow> Rectangle \<Rightarrow> bool \<Rightarrow> Layer \<Rightarrow> FrameBuffer \<Rightarrow> FrameBuffer option" where
  "lay_DrawTo E g area transparent l fb =
     (case lay_window l of
        None \<Rightarrow> Some fb
      | Some p \<Rightarrow> do {
          w \<leftarrow> windows g p;
          win_DrawTo (env_blend E) (globalTransparent g) (lay_pos l) area transparent w fb })"

definition FindLayer :: "u32 \<Rightarrow> Gui \<Rightarrow> Layer option" where
  "FindLayer i g = find (\<lambda>l. lay_id l = i) (layers g)"

definition upd_layer :: "u32 \<Rightarrow> (Layer \<Rightarrow> Layer) \<Rightarrow> Gui \<Rightarrow> Gui" where
  "upd_layer i f g = g\<lparr>layers := map (\<lambda>l. if lay_id l = i then f l else l) (layers g)\<rparr>"

section \<open>Layers and the stack\<close>

definition SetWriter :: "FrameBuffer \<Rightarrow> Gui \<Rightarrow> Gui" where
  "SetWriter fb g = g\<lparr>gui_screen := fb, back_buffer := fst (Initialize (fb\<lparr>frame_buffer := None\<rparr>))\<rparr>"

definition NewLayer :: "'f env \<Rightarrow> Gui \<Rightarrow> Gui \<times> u32" where
  "NewLayer E g =
     (let i = last_layer_id g + 1 in
      (g\<lparr>last_layer_id := i, layers := layers g @ [Layer_init E i]\<rparr>, i))"

definition Hide :: "u32 \<Rightarrow> Gui \<Rightarrow> Gui" where
  "Hide i g =
     (case FindLayer i g of
        None \<Rightarrow> g
      | Some l \<Rightarrow> g\<lparr>layer_stack := remove1 i (layer_stack g)\<rparr>)"

definition RemoveLayer :: "u32 \<Rightarrow> Gui \<Rightarrow> Gui" where
  "RemoveLayer i g = (let g = Hide i g in g\<lparr>layers := filter (\<lambda>l. lay_id l \<noteq> i) (layers g)\<rparr>)"

definition insert_at :: "nat \<Rightarrow> 'a \<Rightarrow> 'a list \<Rightarrow> 'a list" where
  "insert_at n x xs = take n xs @ x # drop n xs"

text \<open>
  The iterator for the new position is computed before the old entry is erased.  Without such a layer
  a null pointer enters the stack, and the next use of the stack dereferences it.
\<close>

definition SetIndex :: "u32 \<Rightarrow> int \<Rightarrow> Gui \<Rightarrow> Gui option" where
  "SetIndex i index g =
     (if index < 0 then Some (Hide (word_of_int index) g)
      else
        let stack = layer_stack g;
            n = (if index > int (length stack) then length stack else nat index)
        in case FindLayer i g of
             None \<Rightarrow> None
           | Some l \<Rightarrow>
               if i \<in> set stack
               then let erased = remove1 i stack in
                    if length erased \<le> n
                    then (if erased = [] then None
                          else Some (g\<lparr>layer_stack := insert_at (length erased - 1) i erased\<rparr>))
                    else Some (g\<lparr>layer_stack := insert_at n i erased\<rparr>)
               else Some (g\<lparr>layer_stack := insert_at n i stack\<rparr>))"

definition GetIndex :: "u32 \<Rightarrow> Gui \<Rightarrow> int" where
  "GetIndex i g =
     (case find (\<lambda>k. layer_stack g ! k = i) [0..<length (layer_stack g)] of None \<Rightarrow> -1 | Some k \<Rightarrow> int k)"

definition covers :: "Gui \<Rightarrow> Vector2D \<Rightarrow> Layer \<Rightarrow> bool" where
  "covers g pos l \<longleftrightarrow>
     (case lay_GetWindow g l of
        None \<Rightarrow> False
      | Some win \<Rightarrow>
          let win_pos = lay_pos l; win_end_pos = win_pos + win_Size win in
          vx win_pos \<le> vx pos \<and> vx pos < vx win_end_pos \<and> vy win_pos \<le> vy pos \<and> vy pos < vy win_end_pos)"

definition FindLayerByPosition :: "Vector2D \<Rightarrow> u32 \<Rightarrow> Gui \<Rightarrow> u32 option" where
  "FindLayerByPosition pos exclude_id g =
     find (\<lambda>i. i \<noteq> exclude_id \<and> (case FindLayer i g of None \<Rightarrow> False | Some l \<Rightarrow> covers g pos l))
       (rev (layer_stack g))"

section \<open>Drawing\<close>

definition is_transparent :: "Gui \<Rightarrow> Layer \<Rightarrow> bool" where
  "is_transparent g l \<longleftrightarrow> lay_transparentable l \<and> globalTransparent g \<noteq> 0xff"

fun draw_stack :: "'f env \<Rightarrow> Gui \<Rightarrow> Rectangle \<Rightarrow> u32 list \<Rightarrow> FrameBuffer \<Rightarrow> FrameBuffer option" where
  "draw_stack E g area [] fb = Some fb"
| "draw_stack E g area (i # stack) fb = do {
     l \<leftarrow> FindLayer i g;
     fb \<leftarrow> lay_DrawTo E g area (is_transparent g l) l fb;
     draw_stack E g area stack fb }"

definition copy_to_screen :: "Rectangle \<Rightarrow> Gui \<Rightarrow> Gui option" where
  "copy_to_screen area g =
     map_option (\<lambda>(fb, err). g\<lparr>gui_screen := fb\<rparr>) (Copy (rpos area) (back_buffer g) area (gui_screen g))"

definition Draw_area :: "'f env \<Rightarrow> Rectangle \<Rightarrow> Gui \<Rightarrow> Gui option" where
  "Draw_area E area g = do {
     fb \<leftarrow> draw_stack E g area (layer_stack g) (back_buffer g);
     copy_to_screen area (g\<lparr>back_buffer := fb\<rparr>) }"

text \<open>
  The loop of \<^verbatim>\<open>Draw(id, area)\<close>: \<open>draw\<close> and \<open>window_area\<close> are its variables; the result has the flag
  \<^verbatim>\<open>transparent\<close>.
\<close>

fun draw_above ::
    "'f env \<Rightarrow> Gui \<Rightarrow> u32 \<Rightarrow> Rectangle \<Rightarrow> u32 list \<Rightarrow> bool \<Rightarrow> Rectangle \<Rightarrow> FrameBuffer \<Rightarrow> (bool \<times> Rectangle \<times> FrameBuffer) option" where
  "draw_above E g i area [] draw window_area fb = Some (False, window_area, fb)"
| "draw_above E g i area (j # stack) draw window_area fb = do {
     l \<leftarrow> FindLayer j g;
     if j = i
     then do {
       win \<leftarrow> lay_GetWindow g l;
       let whole = Rect (lay_pos l) (win_Size win);
       let area' = (if vx (rsize area) \<ge> 0 \<or> vy (rsize area) \<ge> 0
                    then Rect (rpos area + rpos whole) (rsize area) else area);
       let window_area' = (if vx (rsize area) \<ge> 0 \<or> vy (rsize area) \<ge> 0
                    then rect_and whole area' else whole);
       if is_transparent g l then Some (True, window_area', fb)
       else do {
         fb \<leftarrow> lay_DrawTo E g window_area' False l fb;
         draw_above E g i area' stack True window_area' fb } }
     else if draw
     then do {
       win \<leftarrow> lay_GetWindow g l;
       let inter = rect_and window_area (Rect (lay_pos l) (win_Size win));
       if vx (rsize inter) = 0 \<or> vy (rsize inter) = 0
       then draw_above E g i area stack draw window_area fb
       else do {
         fb \<leftarrow> lay_DrawTo E g window_area (is_transparent g l) l fb;
         draw_above E g i area stack draw window_area fb } }
     else draw_above E g i area stack draw window_area fb }"

definition Draw_id_area :: "'f env \<Rightarrow> u32 \<Rightarrow> Rectangle \<Rightarrow> Gui \<Rightarrow> Gui option" where
  "Draw_id_area E i area g = do {
     (transparent, window_area, fb) \<leftarrow> draw_above E g i area (layer_stack g) False (env_area E) (back_buffer g);
     let g = g\<lparr>back_buffer := fb\<rparr>;
     if transparent then Draw_area E window_area g else copy_to_screen window_area g }"

definition Draw_id :: "'f env \<Rightarrow> u32 \<Rightarrow> Gui \<Rightarrow> Gui option" where
  "Draw_id E i g = Draw_id_area E i (Rect (Vec 0 0) (Vec (-1) (-1))) g"

definition ScreenSize :: "Gui \<Rightarrow> Vector2D" where
  "ScreenSize g = FrameBufferSize (gui_screen g)"

definition Fresh :: "'f env \<Rightarrow> Gui \<Rightarrow> Gui option" where
  "Fresh E g = do {
     fb \<leftarrow> draw_stack E g (Rect (Vec 0 0) (ScreenSize g)) (layer_stack g) (back_buffer g);
     copy_to_screen (Rect (Vec 0 0) (ScreenSize g)) (g\<lparr>back_buffer := fb\<rparr>) }"

definition move_with :: "'f env \<Rightarrow> u32 \<Rightarrow> (Layer \<Rightarrow> Layer) \<Rightarrow> Gui \<Rightarrow> Gui option" where
  "move_with E i f g = do {
     l \<leftarrow> FindLayer i g;
     win \<leftarrow> lay_GetWindow g l;
     g \<leftarrow> Draw_area E (Rect (lay_pos l) (win_Size win)) (upd_layer i f g);
     Draw_id E i g }"

definition gui_Move :: "'f env \<Rightarrow> u32 \<Rightarrow> Vector2D \<Rightarrow> Gui \<Rightarrow> Gui option" where
  "gui_Move E i pos g = move_with E i (lay_Move pos) g"

definition gui_MoveRelative :: "'f env \<Rightarrow> u32 \<Rightarrow> Vector2D \<Rightarrow> Gui \<Rightarrow> Gui option" where
  "gui_MoveRelative E i d g = move_with E i (lay_MoveRelative d) g"

section \<open>The active layer\<close>

definition SendWindowActiveMessage :: "u32 \<Rightarrow> bool \<Rightarrow> Gui \<Rightarrow> (Gui \<times> error_code) option" where
  "SendWindowActiveMessage i act g =
     (case layer_task_map g i of
        None \<Rightarrow> Some (g, kNoSuchTask)
      | Some t \<Rightarrow> do {
          (m, err) \<leftarrow> SendMessage t \<lparr>msg_type = kWindowActive, src_task_id = 0, arg = WindowActiveArg act\<rparr> (gui_tasks g);
          Some (g\<lparr>gui_tasks := m\<rparr>, err) })"

text \<open>\<^verbatim>\<open>layer->GetWindow()->Activate()\<close> and \<^verbatim>\<open>Deactivate()\<close>: the window in the heap is drawn to.\<close>

definition with_window :: "u32 \<Rightarrow> (Window \<Rightarrow> Window option) \<Rightarrow> Gui \<Rightarrow> Gui option" where
  "with_window i f g = do {
     l \<leftarrow> FindLayer i g;
     p \<leftarrow> lay_window l;
     w \<leftarrow> windows g p;
     w \<leftarrow> f w;
     Some (g\<lparr>windows := (windows g)(p \<mapsto> w)\<rparr>) }"

definition SetMouseLayer :: "u32 \<Rightarrow> Gui \<Rightarrow> Gui" where
  "SetMouseLayer i g = g\<lparr>mouse_id := i\<rparr>"

definition raise_layer :: "u32 \<Rightarrow> Gui \<Rightarrow> Gui option" where
  "raise_layer i g = do {
     g \<leftarrow> SetIndex i 0 g;
     SetIndex i (GetIndex (mouse_id g) g - 1) g }"

definition Activate :: "'f env \<Rightarrow> u32 \<Rightarrow> Gui \<Rightarrow> Gui option" where
  "Activate E i g =
     (if active_id g = i then Some g
      else do {
        g \<leftarrow> (if active_id g > 0
              then do {
                let a = active_id g;
                g \<leftarrow> with_window a (win_Deactivate (env_fonts E)) g;
                g \<leftarrow> Draw_id E a g;
                (g, err) \<leftarrow> SendWindowActiveMessage a False g;
                Some g }
              else Some g);
        let g = g\<lparr>active_id := i\<rparr>;
        if i > 0
        then do {
          g \<leftarrow> with_window i (win_Activate (env_fonts E)) g;
          g \<leftarrow> raise_layer i g;
          g \<leftarrow> Draw_id E i g;
          (g, err) \<leftarrow> SendWindowActiveMessage i True g;
          Some g }
        else Some g })"

definition ProcessLayerMessage :: "'f env \<Rightarrow> Message \<Rightarrow> Gui \<Rightarrow> Gui option" where
  "ProcessLayerMessage E msg g =
     (case arg msg of
        LayerArg op i (x, y) (w, h) \<Rightarrow>
          (case op of
             LayerOperation.Move \<Rightarrow> gui_Move E i (Vec x y) g
           | LayerOperation.MoveRelative \<Rightarrow> gui_MoveRelative E i (Vec x y) g
           | LayerOperation.Draw \<Rightarrow> Draw_id E i g
           | LayerOperation.DrawArea \<Rightarrow> Draw_id_area E i (Rect (Vec x y) (Vec w h)) g)
      | _ \<Rightarrow> None)"

definition MakeLayerMessage :: "nat \<Rightarrow> u32 \<Rightarrow> LayerOperation \<Rightarrow> Rectangle \<Rightarrow> Message" where
  "MakeLayerMessage t i op area =
     \<lparr>msg_type = kLayerOps, src_task_id = t,
      arg = LayerArg op i (vx (rpos area), vy (rpos area)) (vx (rsize area), vy (rsize area))\<rparr>"

definition CloseLayer :: "'f env \<Rightarrow> u32 \<Rightarrow> Gui \<Rightarrow> (Gui \<times> error_code) option" where
  "CloseLayer E i g =
     (case FindLayer i g of
        None \<Rightarrow> Some (g, kNoSuchEntry)
      | Some l \<Rightarrow> do {
          win \<leftarrow> lay_GetWindow g l;
          g \<leftarrow> Activate E 0 g;
          g \<leftarrow> Draw_area E (Rect (lay_pos l) (win_Size win)) (RemoveLayer i g);
          Some (g\<lparr>layer_task_map := (layer_task_map g)(i := None)\<rparr>, kSuccess) })"

section \<open>The order of the stack\<close>

definition stack_ok :: "Gui \<Rightarrow> bool" where
  "stack_ok g \<longleftrightarrow> distinct (layer_stack g) \<and> 0 \<notin> set (layer_stack g)
     \<and> (\<forall>i \<in> set (layer_stack g). FindLayer i g \<noteq> None)"

lemma insert_at_split: "\<exists>as bs. xs = as @ bs \<and> insert_at n x xs = as @ x # bs"
  unfolding insert_at_def by (intro exI [of _ "take n xs"] exI [of _ "drop n xs"]) simp

lemma insert_at_set [simp]: "set (insert_at n x xs) = insert x (set xs)"
  using insert_at_split [of xs n x] by auto

lemma insert_at_nth: "n \<le> length xs \<Longrightarrow> insert_at n x xs ! n = x"
  by (simp add: insert_at_def nth_append)

lemma insert_at_distinct: "x \<notin> set xs \<Longrightarrow> distinct (insert_at n x xs) \<longleftrightarrow> distinct xs"
  using insert_at_split [of xs n x] by auto

lemma insert_at_remove: "x \<notin> set xs \<Longrightarrow> remove1 x (insert_at n x xs) = xs"
  using insert_at_split [of xs n x] by (auto simp: remove1_append)

lemma insert_at_last: "n < length xs \<Longrightarrow> last (insert_at n x xs) = last xs"
  by (simp add: insert_at_def last_drop)

text \<open>Where \<^verbatim>\<open>SetIndex\<close> puts a layer that is in the stack already.\<close>

lemma SetIndex_in_stack:
  assumes ok: "stack_ok g" and i: "i \<in> set (layer_stack g)" and len: "2 \<le> length (layer_stack g)" and idx: "0 \<le> index"
  shows "\<exists>g'. SetIndex i index g = Some g'
     \<and> layer_stack g' = insert_at (min (nat index) (length (layer_stack g) - 2)) i (remove1 i (layer_stack g))
     \<and> g' = g\<lparr>layer_stack := layer_stack g'\<rparr> \<and> stack_ok g'"
proof -
  let ?s = "layer_stack g" and ?e = "remove1 i (layer_stack g)"
  let ?k = "min (nat index) (length ?s - 2)"
  let ?g = "g\<lparr>layer_stack := insert_at ?k i ?e\<rparr>"
  from ok i obtain l where l: "FindLayer i g = Some l" "distinct ?s" by (auto simp: stack_ok_def)
  have e: "length ?e = length ?s - 1" "?e \<noteq> []" "i \<notin> set ?e"
    using i len l(2) length_remove1 [of i ?s] by (auto simp: length_greater_0_conv [symmetric] simp del: length_greater_0_conv)
  have "SetIndex i index g = Some ?g"
  proof (cases "nat index \<le> length ?s - 2")
    case True
    with idx i e len l(1) show ?thesis by (auto simp: SetIndex_def Let_def)
  next
    case False
    then have k: "?k = length ?e - 1" "length ?e \<le> nat index" using e(1) len by auto
    show ?thesis unfolding k(1) using k(2) idx i e l(1) by (auto simp: SetIndex_def Let_def)
  qed
  moreover have "stack_ok ?g"
    using ok l i e(3) by (auto simp: stack_ok_def FindLayer_def insert_at_distinct distinct_remove1 dest: notin_set_remove1)
  ultimately show ?thesis by auto
qed

text \<open>
  \<^verbatim>\<open>SetIndex\<close> cannot bring a layer that is in the stack already to the front: whatever the index,
  it ends at \<open>min index (n - 2)\<close> of \<open>n\<close> layers, below another one, although its comment promises that a
  greater index is nearer to the front; and a negative index, which should hide the layer, leaves
  the stack alone (unless that number happens to be the identifier of another layer).
\<close>

theorem SetIndex_never_topmost:
  assumes "stack_ok g" "i \<in> set (layer_stack g)" "2 \<le> length (layer_stack g)"
  shows "if index < 0
    then FindLayer (word_of_int index) g = None \<longrightarrow> SetIndex i index g = Some g
    else \<exists>g'. SetIndex i index g = Some g' \<and> last (layer_stack g') \<noteq> i
      \<and> layer_stack g' ! min (nat index) (length (layer_stack g) - 2) = i
      \<and> remove1 i (layer_stack g') = remove1 i (layer_stack g)"
proof (cases "index < 0")
  case True
  then show ?thesis by (auto simp: SetIndex_def Hide_def)
next
  case False
  let ?e = "remove1 i (layer_stack g)"
  let ?k = "min (nat index) (length (layer_stack g) - 2)"
  from SetIndex_in_stack [OF assms, of index] False obtain g' where
    g': "SetIndex i index g = Some g'" "layer_stack g' = insert_at ?k i ?e" by auto
  have i: "i \<notin> set ?e" using assms(1) by (simp add: stack_ok_def)
  have k: "?k < length ?e" using assms(2,3) length_remove1 [of i "layer_stack g"] by auto
  then have "last (layer_stack g') = last ?e" unfolding g'(2) by (rule insert_at_last)
  moreover have "last ?e \<in> set ?e" using k by (intro last_in_set) auto
  ultimately have "last (layer_stack g') \<noteq> i" using i by metis
  with False g' i k insert_at_nth [of ?k ?e i] insert_at_remove [OF i, of ?k] show ?thesis by auto
qed

text \<open>
  Four layers: a background, two layers that share a window, and on top the cursor, whose window has a
  transparent colour.  Nothing is drawn in the windows: all their pixels are black, the cursor is all
  transparent.
\<close>

definition layer_of :: "u32 \<Rightarrow> Vector2D \<Rightarrow> nat option \<Rightarrow> Layer" where
  "layer_of i pos p = \<lparr>lay_id = i, lay_pos = pos, lay_window = p, lay_draggable = True,
     lay_transparentable = False, lay_clickable = False\<rparr>"

definition gui_example :: Gui where
  "gui_example = \<lparr>gui_screen = screen_example, back_buffer = screen_example,
     layers = [layer_of 1 (Vec 0 0) (Some 0), layer_of 2 (Vec 10 10) (Some 1), layer_of 3 (Vec 20 20) (Some 1),
       layer_of 4 (Vec 24 24) (Some 2)],
     layer_stack = [1, 2, 3, 4], last_layer_id = 4,
     windows = [0 \<mapsto> the (Window_init 800 600 kPixelRGBResv8BitPerColor),
                1 \<mapsto> the (Window_init 50 40 kPixelRGBResv8BitPerColor),
                2 \<mapsto> SetTransparentColor (Some (px 0 0 0)) (the (Window_init 15 24 kPixelRGBResv8BitPerColor))],
     globalTransparent = 0xff, active_id = 0, mouse_id = 4, layer_task_map = Map.empty,
     gui_tasks = TaskManager_init (\<lambda>t. t)\<rparr>"

lemma gui_example_stack: "stack_ok gui_example" "layer_stack gui_example = [1, 2, 3, 4]"
  "FindLayer 1 gui_example = Some (layer_of 1 (Vec 0 0) (Some 0))"
  "FindLayer 2 gui_example = Some (layer_of 2 (Vec 10 10) (Some 1))"
  "FindLayer 3 gui_example = Some (layer_of 3 (Vec 20 20) (Some 1))"
  "FindLayer 4 gui_example = Some (layer_of 4 (Vec 24 24) (Some 2))"
  by (simp_all add: gui_example_def stack_ok_def FindLayer_def layer_of_def)

theorem SetIndex_never_topmost_witness:
  "\<exists>g'. SetIndex 1 2147483647 gui_example = Some g' \<and> layer_stack g' ! 2 = 1 \<and> last (layer_stack g') \<noteq> 1"
  using SetIndex_never_topmost [OF gui_example_stack(1), of 1 2147483647] by (auto simp: gui_example_stack(2) numeral_2_eq_2)

lemma GetIndex_last:
  assumes "distinct (xs @ [i])" "layer_stack g = xs @ [i]"
  shows "GetIndex i g = int (length xs)"
proof -
  have "find (\<lambda>k. (xs @ [i]) ! k = i) [0..<length xs] = None"
    using assms(1) by (auto simp: find_None_iff nth_append)
  then have "find (\<lambda>k. (xs @ [i]) ! k = i) ([0..<length xs] @ [length xs]) = Some (length xs)"
    unfolding find_append by (simp add: nth_append)
  then show ?thesis by (simp add: GetIndex_def assms(2))
qed

lemma SetIndex_new:
  assumes "stack_ok g" "i \<notin> set (layer_stack g)" "FindLayer i g \<noteq> None" "i \<noteq> 0"
  shows "SetIndex i 0 g = Some (g\<lparr>layer_stack := i # layer_stack g\<rparr>)" "stack_ok (g\<lparr>layer_stack := i # layer_stack g\<rparr>)"
  using assms by (auto simp: SetIndex_def Let_def insert_at_def stack_ok_def FindLayer_def)

lemma raise_layer_spec:
  assumes ok: "stack_ok g" and s: "layer_stack g = xs @ [mouse_id g]"
    and i: "FindLayer i g \<noteq> None" "i \<noteq> mouse_id g" "i \<noteq> 0"
  shows "\<exists>g'. raise_layer i g = Some g' \<and> layer_stack g' = remove1 i xs @ [i, mouse_id g]
    \<and> g' = g\<lparr>layer_stack := layer_stack g'\<rparr> \<and> stack_ok g'"
proof -
  let ?m = "mouse_id g" and ?r = "remove1 i xs"
  have d: "distinct (xs @ [?m])" using ok s by (simp add: stack_ok_def)
  have first: "\<exists>g1. SetIndex i 0 g = Some g1 \<and> layer_stack g1 = i # ?r @ [?m] \<and> g1 = g\<lparr>layer_stack := layer_stack g1\<rparr> \<and> stack_ok g1"
  proof (cases "i \<in> set (layer_stack g)")
    case True
    then have "2 \<le> length (layer_stack g)" using s i(2) by (cases xs) auto
    from SetIndex_in_stack [OF ok True this, of 0] i(2) True show ?thesis
      by (auto simp: s insert_at_def remove1_append)
  next
    case False
    then have "?r = xs" using s by (simp add: remove1_idem)
    with SetIndex_new [OF ok False i(1,3)] s show ?thesis by (intro exI conjI) auto
  qed
  then obtain g1 where g1: "SetIndex i 0 g = Some g1" "layer_stack g1 = (i # ?r) @ [?m]"
    "g1 = g\<lparr>layer_stack := layer_stack g1\<rparr>" "stack_ok g1" by auto
  have mouse: "mouse_id g1 = ?m" by (subst g1(3)) simp
  have "distinct ((i # ?r) @ [?m])" using g1(2,4) by (simp add: stack_ok_def)
  from GetIndex_last [OF this g1(2)] have idx: "GetIndex ?m g1 - 1 = int (length ?r)" by simp
  have "i \<in> set (layer_stack g1)" "2 \<le> length (layer_stack g1)" unfolding g1(2) by auto
  from SetIndex_in_stack [OF g1(4) this, of "int (length ?r)"] obtain g2 where
    g2: "SetIndex i (int (length ?r)) g1 = Some g2"
      "layer_stack g2 = insert_at (length ?r) i (?r @ [?m])" "g2 = g1\<lparr>layer_stack := layer_stack g2\<rparr>" "stack_ok g2"
    unfolding g1(2) by auto
  have "g2 = g\<lparr>layer_stack := layer_stack g2\<rparr>" by (subst g2(3), subst g1(3)) simp
  with g1(1) g2 idx mouse show ?thesis by (auto simp: raise_layer_def insert_at_def)
qed

text \<open>
  the two calls of \<^verbatim>\<open>SetIndex\<close> with which \<^verbatim>\<open>Activate\<close> raises a layer put it directly below the
  mouse, whether it was in the stack before or not, and leave the order of the other layers and
  everything else alone.
\<close>

theorem raise_layer_below_mouse:
  assumes "stack_ok g" "layer_stack g = xs @ [mouse_id g]"
    and "FindLayer i g \<noteq> None" "i \<noteq> mouse_id g" "i \<noteq> 0"
  shows "raise_layer i g = Some (g\<lparr>layer_stack := remove1 i xs @ [i, mouse_id g]\<rparr>)"
  using raise_layer_spec [OF assms] by auto

theorem raise_layer_below_mouse_witness:
  "map_option layer_stack (raise_layer 1 gui_example) = Some [2, 3, 1, 4]"
  using raise_layer_below_mouse [OF gui_example_stack(1), of "[1, 2, 3]" 1]
  by (simp add: gui_example_stack(2,3)) (simp add: gui_example_def)

section \<open>What the screen shows\<close>

text \<open>
  Every layer of the stack has a window of the format of the screen.  Windows may have a transparent
  colour, as the button of \<^verbatim>\<open>InitializeLayer\<close> and the cursor of \<^verbatim>\<open>InitializeMouse\<close>, may be blended, and may
  have been scrolled, so that their shadow buffer and \<^verbatim>\<open>_data\<close> differ.
\<close>

definition layer_ok :: "Gui \<Rightarrow> PixelFormat \<Rightarrow> u32 \<Rightarrow> bool" where
  "layer_ok g fmt i \<longleftrightarrow>
     (case FindLayer i g of
        None \<Rightarrow> False
      | Some l \<Rightarrow>
          (case lay_GetWindow g l of
             None \<Rightarrow> False
           | Some w \<Rightarrow> win_ok w \<and> pixel_format (shadow_buffer w) = fmt))"

definition gui_ok :: "Gui \<Rightarrow> bool" where
  "gui_ok g \<longleftrightarrow> stack_ok g \<and> fb_ok (gui_screen g) \<and> fb_ok (back_buffer g)
     \<and> in_fb (back_buffer g) = in_fb (gui_screen g)
     \<and> pixel_format (back_buffer g) = pixel_format (gui_screen g)
     \<and> (\<forall>i \<in> set (layer_stack g). layer_ok g (pixel_format (gui_screen g)) i)"

text \<open>
  The colour at position \<open>q\<close> of the screen after a layer has been drawn over \<open>below\<close>, and after the layers
  of a stack, the lowest first.
\<close>

definition paint :: "'f env \<Rightarrow> Gui \<Rightarrow> Vector2D \<Rightarrow> u32 \<Rightarrow> PixelColor option \<Rightarrow> PixelColor option" where
  "paint E g q i below =
     (case FindLayer i g of
        None \<Rightarrow> below
      | Some l \<Rightarrow>
          (case lay_GetWindow g l of
             None \<Rightarrow> below
           | Some w \<Rightarrow>
               if in_win w (q - lay_pos l)
               then win_pixel (env_blend E) (globalTransparent g) (is_transparent g l) w (q - lay_pos l) below
               else below))"

definition paint_stack :: "'f env \<Rightarrow> Gui \<Rightarrow> Vector2D \<Rightarrow> u32 list \<Rightarrow> PixelColor option \<Rightarrow> PixelColor option" where
  "paint_stack E g q stack below = fold (paint E g q) stack below"

text \<open>
  The colour of a layer at a position of the screen, and whether the layer hides what is below it there: it
  is not blended, and the colour is not its transparent one.
\<close>

definition layer_pixel :: "Gui \<Rightarrow> Vector2D \<Rightarrow> u32 \<Rightarrow> PixelColor option" where
  "layer_pixel g q i = do {
     l \<leftarrow> FindLayer i g;
     w \<leftarrow> lay_GetWindow g l;
     if transparent_color w = None then fb_GetPixel (q - lay_pos l) (shadow_buffer w) else At (q - lay_pos l) w }"

definition solid :: "Gui \<Rightarrow> Vector2D \<Rightarrow> u32 \<Rightarrow> bool" where
  "solid g q i \<longleftrightarrow>
     (case FindLayer i g of
        None \<Rightarrow> False
      | Some l \<Rightarrow> \<not> is_transparent g l \<and>
          (case lay_GetWindow g l of
             None \<Rightarrow> False
           | Some w \<Rightarrow>
               (case transparent_color w of
                  None \<Rightarrow> True
                | Some tc \<Rightarrow> (case At (q - lay_pos l) w of None \<Rightarrow> False | Some c \<Rightarrow> color_neq c tc))))"

lemma layer_okE:
  assumes "layer_ok g fmt i"
  obtains l p w where "FindLayer i g = Some l" "lay_window l = Some p" "windows g p = Some w"
    "lay_GetWindow g l = Some w" "win_ok w" "pixel_format (shadow_buffer w) = fmt"
  using assms by (auto simp: layer_ok_def lay_GetWindow_def split: option.splits)

lemma covers_in_win: "lay_GetWindow g l = Some w \<Longrightarrow> covers g q l \<longleftrightarrow> in_win w (q - lay_pos l)"
  by (auto simp: covers_def in_win_def win_Size_def Let_def)

definition covered :: "Gui \<Rightarrow> Vector2D \<Rightarrow> u32 \<Rightarrow> bool" where
  "covered g q i = (case FindLayer i g of None \<Rightarrow> False | Some l \<Rightarrow> covers g q l)"

lemma paint_uncovered: "\<not> covered g q i \<Longrightarrow> paint E g q i b = b"
  by (auto simp: paint_def covered_def covers_in_win split: option.split)

lemma paint_solid: "covered g q i \<Longrightarrow> solid g q i \<Longrightarrow> paint E g q i b = layer_pixel g q i"
  by (auto simp: paint_def covered_def covers_in_win solid_def layer_pixel_def win_pixel_def split: option.splits)

lemma paint_stack_simps [simp]:
  "paint_stack E g q [] b = b" "paint_stack E g q (i # stack) b = paint_stack E g q stack (paint E g q i b)"
  "paint_stack E g q (xs @ ys) b = paint_stack E g q ys (paint_stack E g q xs b)"
  by (simp_all add: paint_stack_def)

text \<open>The topmost layer of a stack at a position decides the colour where it is solid.\<close>

lemma paint_stack_found:
  "find (covered g q) (rev stack) = Some i \<Longrightarrow> solid g q i \<Longrightarrow> paint_stack E g q stack b = layer_pixel g q i"
proof (induction stack rule: rev_induct)
  case (snoc x xs)
  then show ?case by (cases "covered g q x") (simp_all add: paint_solid paint_uncovered)
qed simp

lemma paint_stack_none: "find (covered g q) (rev stack) = None \<Longrightarrow> paint_stack E g q stack b = b"
proof (induction stack rule: rev_induct)
  case (snoc x xs)
  then show ?case by (cases "covered g q x") (simp_all add: paint_uncovered)
qed simp

lemma lay_DrawTo_paints:
  assumes "layer_ok g fmt i" and l: "FindLayer i g = Some l" and fb: "fb_ok fb" "pixel_format fb = fmt" and area: "rect_ok area"
  shows "\<exists>fb'. lay_DrawTo E g area (is_transparent g l) l fb = Some fb' \<and> fb_ok fb' \<and> pixel_format fb' = fmt
    \<and> in_fb fb' = in_fb fb
    \<and> (\<forall>q. in_fb fb q \<longrightarrow> fb_GetPixel q fb' = (if in_rect area q then paint E g q i (fb_GetPixel q fb) else fb_GetPixel q fb))"
proof -
  from assms(1) obtain p w where w: "lay_window l = Some p" "windows g p = Some w" "lay_GetWindow g l = Some w"
    "win_ok w" "pixel_format (shadow_buffer w) = fmt" by (rule layer_okE) (simp add: l)
  from DrawTo_draws [OF w(4) fb(1) _ area, of "env_blend E" "globalTransparent g" "lay_pos l" "is_transparent g l"] fb(2) w(5)
  obtain fb' where "win_DrawTo (env_blend E) (globalTransparent g) (lay_pos l) area (is_transparent g l) w fb = Some fb'"
    "draws_window (env_blend E) (globalTransparent g) (lay_pos l) area (is_transparent g l) w fb fb'" by auto
  then show ?thesis using w l fb(2)
    by (intro exI [of _ fb']) (auto simp: lay_DrawTo_def draws_window_def paint_def)
qed

lemma draw_stack_spec:
  "\<forall>i \<in> set stack. layer_ok g fmt i \<Longrightarrow> fb_ok fb \<Longrightarrow> pixel_format fb = fmt \<Longrightarrow> rect_ok area \<Longrightarrow>
   \<exists>fb'. draw_stack E g area stack fb = Some fb' \<and> fb_ok fb' \<and> pixel_format fb' = fmt \<and> in_fb fb' = in_fb fb
     \<and> (\<forall>q. in_fb fb q \<longrightarrow> fb_GetPixel q fb' =
          (if in_rect area q then paint_stack E g q stack (fb_GetPixel q fb) else fb_GetPixel q fb))"
proof (induction stack arbitrary: fb)
  case Nil
  then show ?case by simp
next
  case (Cons i stack)
  have lo: "layer_ok g fmt i" "\<forall>i \<in> set stack. layer_ok g fmt i" using Cons.prems(1) by simp_all
  from lo(1) obtain l where l: "FindLayer i g = Some l" by (rule layer_okE)
  from lay_DrawTo_paints [OF lo(1) l Cons.prems(2-4), of E] obtain fb1 where
    s: "lay_DrawTo E g area (is_transparent g l) l fb = Some fb1" "fb_ok fb1" "pixel_format fb1 = fmt" "in_fb fb1 = in_fb fb"
      "\<forall>q. in_fb fb q \<longrightarrow> fb_GetPixel q fb1 = (if in_rect area q then paint E g q i (fb_GetPixel q fb) else fb_GetPixel q fb)"
    by blast
  from Cons.IH [OF lo(2) s(2,3) Cons.prems(4)] obtain fb2 where fb2: "draw_stack E g area stack fb1 = Some fb2"
    "fb_ok fb2" "pixel_format fb2 = fmt" "in_fb fb2 = in_fb fb1"
    "\<forall>q. in_fb fb1 q \<longrightarrow> fb_GetPixel q fb2 =
       (if in_rect area q then paint_stack E g q stack (fb_GetPixel q fb1) else fb_GetPixel q fb1)" by blast
  with l s show ?case by (intro exI [of _ fb2]) simp
qed

text \<open>The layer the mouse finds at a pixel.\<close>

lemma find_nonzero: "0 \<notin> set xs \<Longrightarrow> find (covered g q) xs = find (\<lambda>i. i \<noteq> 0 \<and> covered g q i) xs"
  by (induction xs) auto

lemma FindLayerByPosition_covered:
  "stack_ok g \<Longrightarrow> FindLayerByPosition q 0 g = find (covered g q) (rev (layer_stack g))"
  unfolding FindLayerByPosition_def stack_ok_def covered_def [symmetric] by (simp add: find_nonzero)

lemma gui_okD:
  assumes "gui_ok g"
  shows "stack_ok g" "fb_ok (gui_screen g)" "fb_ok (back_buffer g)" "in_fb (back_buffer g) = in_fb (gui_screen g)"
    "pixel_format (back_buffer g) = pixel_format (gui_screen g)"
    "\<forall>i \<in> set (layer_stack g). layer_ok g (pixel_format (gui_screen g)) i"
  using assms by (auto simp: gui_ok_def)

text \<open>
  \<open>redrawn E P stack g g'\<close>: in the pixels with \<open>P\<close> the layers of \<open>stack\<close> have been painted over the back buffer
  and brought to the screen; the other pixels, and all the rest of the desktop, are as before.
\<close>

definition redrawn :: "'f env \<Rightarrow> (Vector2D \<Rightarrow> bool) \<Rightarrow> u32 list \<Rightarrow> Gui \<Rightarrow> Gui \<Rightarrow> bool" where
  "redrawn E P stack g g' \<longleftrightarrow> gui_ok g' \<and> g' = g\<lparr>back_buffer := back_buffer g', gui_screen := gui_screen g'\<rparr>
     \<and> in_fb (gui_screen g') = in_fb (gui_screen g) \<and> pixel_format (gui_screen g') = pixel_format (gui_screen g)
     \<and> (\<forall>q. in_fb (gui_screen g) q \<longrightarrow>
          fb_GetPixel q (back_buffer g') =
            (if P q then paint_stack E g q stack (fb_GetPixel q (back_buffer g)) else fb_GetPixel q (back_buffer g))
          \<and> fb_GetPixel q (gui_screen g') =
            (if P q then fb_GetPixel q (back_buffer g') else fb_GetPixel q (gui_screen g)))"

lemma layer_state_same:
  assumes "g' = g\<lparr>back_buffer := b, gui_screen := s\<rparr>"
  shows "layer_ok g' = layer_ok g" "stack_ok g' = stack_ok g" "covered g' = covered g"
    "FindLayerByPosition q k g' = FindLayerByPosition q k g" "layer_pixel g' = layer_pixel g"
    "FindLayer i g' = FindLayer i g" "lay_GetWindow g' = lay_GetWindow g" "paint E g' = paint E g" "solid g' = solid g"
    "is_transparent g' = is_transparent g" "paint_stack E g' = paint_stack E g"
proof -
  show find: "FindLayer i g' = FindLayer i g" for i by (simp add: assms FindLayer_def)
  show win: "lay_GetWindow g' = lay_GetWindow g" by (simp add: assms lay_GetWindow_def fun_eq_iff cong: option.case_cong)
  show trans: "is_transparent g' = is_transparent g" by (simp add: assms is_transparent_def fun_eq_iff)
  have cov: "covers g' = covers g" unfolding covers_def win ..
  show "layer_ok g' = layer_ok g" unfolding layer_ok_def find win ..
  have stack: "layer_stack g' = layer_stack g" by (simp add: assms)
  show "stack_ok g' = stack_ok g" unfolding stack_ok_def find stack ..
  show "covered g' = covered g" unfolding covered_def find cov ..
  show "FindLayerByPosition q k g' = FindLayerByPosition q k g" unfolding FindLayerByPosition_def find cov stack ..
  show "layer_pixel g' = layer_pixel g" unfolding layer_pixel_def find win ..
  show "solid g' = solid g" unfolding solid_def find win trans ..
  have glob: "globalTransparent g' = globalTransparent g" by (simp add: assms)
  show "paint E g' = paint E g" unfolding paint_def find win trans glob ..
  then show "paint_stack E g' = paint_stack E g" unfolding paint_stack_def by (simp only:)
qed

text \<open>Both ways of drawing end by copying an area, drawn in the back buffer, to the screen.\<close>

lemma copy_to_screen_spec:
  assumes ok: "gui_ok g" and area: "rect_ok area"
    and fb: "fb_ok fb" "pixel_format fb = pixel_format (gui_screen g)" "in_fb fb = in_fb (gui_screen g)"
    and drawn: "\<forall>q. in_fb (gui_screen g) q \<longrightarrow> fb_GetPixel q fb =
      (if in_rect area q then paint_stack E g q stack (fb_GetPixel q (back_buffer g)) else fb_GetPixel q (back_buffer g))"
  shows "\<exists>g'. copy_to_screen area (g\<lparr>back_buffer := fb\<rparr>) = Some g' \<and> redrawn E (in_rect area) stack g g'"
proof -
  note ok = gui_okD [OF ok]
  from Copy_spec [OF ok(2) fb(1) fb(2) [symmetric] area, of "rpos area"] obtain scr where
    scr: "Copy (rpos area) fb area (gui_screen g) = Some (scr, kSuccess)"
      "copied (rpos area) fb area (gui_screen g) scr" by blast
  have same: "q - rpos area + rpos area = q" "Rect (rpos area) (rsize area) = area" for q
    by (simp_all add: vec_eq_iff)
  have scr': "fb_ok scr" "scr = (gui_screen g)\<lparr>frame_buffer := Some (fb_mem scr)\<rparr>"
    "\<forall>q. in_fb (gui_screen g) q \<longrightarrow> fb_GetPixel q scr = (if in_rect area q then fb_GetPixel q fb else fb_GetPixel q (gui_screen g))"
    using scr(2) fb(3) by (auto simp: copied_def same)
  let ?g = "g\<lparr>back_buffer := fb, gui_screen := scr\<rparr>"
  have "gui_ok ?g"
    using ok fb scr'(1) fb_same_config(2,5) [OF scr'(2)] layer_state_same(1,2) [where g' = ?g and g = g and b = fb and s = scr]
    by (simp add: gui_ok_def)
  with scr'(3) drawn fb_same_config(2,5) [OF scr'(2)] have "redrawn E (in_rect area) stack g ?g" by (simp add: redrawn_def)
  with scr(1) show ?thesis by (intro exI [of _ ?g]) (simp add: copy_to_screen_def)
qed

lemma Draw_area_spec:
  assumes "gui_ok g" "rect_ok area"
  shows "\<exists>g'. Draw_area E area g = Some g' \<and> redrawn E (in_rect area) (layer_stack g) g g'"
proof -
  note ok = gui_okD [OF assms(1)]
  from draw_stack_spec [OF ok(6,3,5) assms(2), of E] obtain fb where
    fb: "draw_stack E g area (layer_stack g) (back_buffer g) = Some fb" "fb_ok fb"
      "pixel_format fb = pixel_format (gui_screen g)" "in_fb fb = in_fb (gui_screen g)"
      "\<forall>q. in_fb (gui_screen g) q \<longrightarrow> fb_GetPixel q fb =
          (if in_rect area q then paint_stack E g q (layer_stack g) (fb_GetPixel q (back_buffer g))
           else fb_GetPixel q (back_buffer g))"
    unfolding ok(4) by blast
  from copy_to_screen_spec [OF assms fb(2-5)] show ?thesis by (simp add: Draw_area_def fb(1))
qed

text \<open>The layers above the one that is drawn.\<close>

lemma draw_above_upper:
  "\<forall>j \<in> set stack. layer_ok g fmt j \<Longrightarrow> i \<notin> set stack \<Longrightarrow> fb_ok fb \<Longrightarrow> pixel_format fb = fmt \<Longrightarrow> rect_ok wa \<Longrightarrow>
   \<exists>fb'. draw_above E g i area stack True wa fb = Some (False, wa, fb') \<and> fb_ok fb' \<and> pixel_format fb' = fmt
     \<and> in_fb fb' = in_fb fb
     \<and> (\<forall>q. in_fb fb q \<longrightarrow> fb_GetPixel q fb' =
          (if in_rect wa q then paint_stack E g q stack (fb_GetPixel q fb) else fb_GetPixel q fb))"
proof (induction stack arbitrary: fb)
  case Nil
  then show ?case by simp
next
  case (Cons j stack)
  have lo: "layer_ok g fmt j" using Cons.prems(1) by simp
  then obtain l w where l: "FindLayer j g = Some l" "lay_GetWindow g l = Some w" "win_ok w" by (rule layer_okE)
  let ?inter = "rect_and wa (Rect (lay_pos l) (win_Size w))"
  have wrect: "rect_ok (Rect (lay_pos l) (win_Size w))"
    using l(3) by (auto simp: rect_ok_def win_Size_def win_ok_def)
  have inw: "in_rect (Rect (lay_pos l) (win_Size w)) q \<longleftrightarrow> covered g q j" for q
    using l(1,2) by (auto simp: covered_def covers_in_win in_rect_def win_Size_def in_win_def)
  have up: "\<forall>j \<in> set stack. layer_ok g fmt j" "i \<notin> set stack" "j \<noteq> i" using Cons.prems(1,2) by auto
  show ?case
  proof (cases "vx (rsize ?inter) = 0 \<or> vy (rsize ?inter) = 0")
    case True
    then have "\<not> in_rect ?inter q" for q by (auto simp: in_rect_def)
    then have skip: "in_rect wa q \<Longrightarrow> paint E g q j b = b" for q b
      using in_rect_and [OF Cons.prems(5) wrect] inw paint_uncovered by metis
    have "draw_above E g i area (j # stack) True wa fb = draw_above E g i area stack True wa fb"
      using True l(1,2) up(3) by (simp add: Let_def)
    with Cons.IH [OF up(1,2) Cons.prems(3-5)] skip show ?thesis by (simp del: draw_above.simps cong: conj_cong if_cong)
  next
    case False
    from lay_DrawTo_paints [OF lo l(1) Cons.prems(3-5), of E] obtain fb1 where
      s: "lay_DrawTo E g wa (is_transparent g l) l fb = Some fb1" "fb_ok fb1" "pixel_format fb1 = fmt" "in_fb fb1 = in_fb fb"
        "\<forall>q. in_fb fb q \<longrightarrow> fb_GetPixel q fb1 = (if in_rect wa q then paint E g q j (fb_GetPixel q fb) else fb_GetPixel q fb)"
      by blast
    from Cons.IH [OF up(1,2) s(2,3) Cons.prems(5)] obtain fb2 where
      fb2: "draw_above E g i area stack True wa fb1 = Some (False, wa, fb2)" "fb_ok fb2" "pixel_format fb2 = fmt"
        "in_fb fb2 = in_fb fb1"
        "\<forall>q. in_fb fb1 q \<longrightarrow> fb_GetPixel q fb2 =
           (if in_rect wa q then paint_stack E g q stack (fb_GetPixel q fb1) else fb_GetPixel q fb1)" by blast
    have "draw_above E g i area (j # stack) True wa fb = Some (False, wa, fb2)"
      using False l(1,2) up(3) s(1) fb2(1) by (simp add: Let_def)
    with s fb2 show ?thesis by (intro exI [of _ fb2]) (simp del: draw_above.simps)
  qed
qed

lemma draw_above_skip:
  "\<forall>j \<in> set xs. FindLayer j g \<noteq> None \<Longrightarrow> i \<notin> set xs \<Longrightarrow>
   draw_above E g i area (xs @ stack) False wa fb = draw_above E g i area stack False wa fb"
  by (induction xs) auto

text \<open>
  The layers that drawing a layer draws: the layer and those above it, or all when the layer is blended with
  what is below it.
\<close>

definition drawn_with :: "Gui \<Rightarrow> u32 \<Rightarrow> u32 list" where
  "drawn_with g i =
     (case FindLayer i g of
        None \<Rightarrow> []
      | Some l \<Rightarrow> if is_transparent g l then layer_stack g else dropWhile (\<lambda>j. j \<noteq> i) (layer_stack g))"

lemma dropWhile_until: "i \<notin> set xs \<Longrightarrow> dropWhile (\<lambda>j. j \<noteq> i) (xs @ i # ys) = i # ys"
  by (induction xs) auto

lemma Draw_id_spec:
  assumes ok: "gui_ok g" and i: "i \<in> set (layer_stack g)"
  shows "\<exists>g'. Draw_id E i g = Some g' \<and> redrawn E (\<lambda>q. covered g q i) (drawn_with g i) g g'"
proof -
  note ok' = gui_okD [OF ok]
  let ?fmt = "pixel_format (gui_screen g)" and ?all = "Rect (Vec 0 0) (Vec (-1) (-1))"
  from i obtain xs ys where s: "layer_stack g = xs @ i # ys" by (auto simp: in_set_conv_decomp)
  then have d: "i \<notin> set xs" "i \<notin> set ys" using ok'(1) by (auto simp: stack_ok_def)
  have lo: "layer_ok g ?fmt i" "\<forall>j \<in> set ys. layer_ok g ?fmt j" "\<forall>j \<in> set xs. FindLayer j g \<noteq> None"
    using ok'(1,6) s by (auto simp: stack_ok_def)
  from lo(1) obtain l w where l: "FindLayer i g = Some l" "lay_GetWindow g l = Some w" "win_ok w" by (rule layer_okE)
  let ?wa = "Rect (lay_pos l) (win_Size w)"
  have wrect: "rect_ok ?wa" using l(3) by (auto simp: rect_ok_def win_Size_def win_ok_def)
  have inw: "in_rect ?wa = (\<lambda>q. covered g q i)"
    using l(1,2) by (auto simp: fun_eq_iff covered_def covers_in_win in_rect_def win_Size_def in_win_def)
  have skip: "draw_above E g i ?all (layer_stack g) False (env_area E) fb = draw_above E g i ?all (i # ys) False (env_area E) fb" for fb
    unfolding s by (rule draw_above_skip [OF lo(3) d(1)])
  show ?thesis
  proof (cases "is_transparent g l")
    case True
    have "draw_above E g i ?all (layer_stack g) False (env_area E) (back_buffer g) = Some (True, ?wa, back_buffer g)"
      unfolding skip using l(1,2) True by (simp add: Let_def)
    then have "Draw_id E i g = Draw_area E ?wa g" by (simp add: Draw_id_def Draw_id_area_def)
    with Draw_area_spec [OF ok wrect, of E] l(1) True show ?thesis by (simp add: inw drawn_with_def)
  next
    case False
    from lay_DrawTo_paints [OF lo(1) l(1) ok'(3,5) wrect, of E] obtain fb1 where
      fb1: "lay_DrawTo E g ?wa (is_transparent g l) l (back_buffer g) = Some fb1" "fb_ok fb1" "pixel_format fb1 = ?fmt"
        "in_fb fb1 = in_fb (gui_screen g)" "\<forall>q. in_fb (gui_screen g) q \<longrightarrow> fb_GetPixel q fb1 =
          (if in_rect ?wa q then paint E g q i (fb_GetPixel q (back_buffer g)) else fb_GetPixel q (back_buffer g))"
      unfolding ok'(4) by blast
    from draw_above_upper [OF lo(2) d(2) fb1(2,3) wrect, of E ?all] obtain fb2 where
      fb2: "draw_above E g i ?all ys True ?wa fb1 = Some (False, ?wa, fb2)" "fb_ok fb2"
        "pixel_format fb2 = ?fmt" "in_fb fb2 = in_fb fb1"
        "\<forall>q. in_fb fb1 q \<longrightarrow> fb_GetPixel q fb2 =
           (if in_rect ?wa q then paint_stack E g q ys (fb_GetPixel q fb1) else fb_GetPixel q fb1)" by blast
    have D: "draw_above E g i ?all (layer_stack g) False (env_area E) (back_buffer g) = Some (False, ?wa, fb2)"
      unfolding skip using l(1,2) False fb1(1) fb2(1) by (simp add: Let_def)
    have st: "drawn_with g i = i # ys" using l(1) False by (simp add: drawn_with_def s dropWhile_until [OF d(1)])
    have "in_fb fb2 = in_fb (gui_screen g)" using fb2(4) fb1(4) by simp
    moreover have "\<forall>q. in_fb (gui_screen g) q \<longrightarrow> fb_GetPixel q fb2 =
        (if in_rect ?wa q then paint_stack E g q (drawn_with g i) (fb_GetPixel q (back_buffer g)) else fb_GetPixel q (back_buffer g))"
      using fb1(4,5) fb2(5) by (simp add: st)
    ultimately obtain g' where "copy_to_screen ?wa (g\<lparr>back_buffer := fb2\<rparr>) = Some g'"
        "redrawn E (in_rect ?wa) (drawn_with g i) g g'"
      using copy_to_screen_spec [OF ok wrect fb2(2,3)] by blast
    with D show ?thesis by (simp add: Draw_id_def Draw_id_area_def inw)
  qed
qed

text \<open>Among the layers drawn with \<open>i\<close> is the topmost one wherever \<open>i\<close> is.\<close>

lemma drawn_with_found:
  assumes "stack_ok g" "i \<in> set (layer_stack g)" "covered g q i"
    and "FindLayerByPosition q 0 g = Some j" "solid g q j"
  shows "paint_stack E g q (drawn_with g i) b = layer_pixel g q j"
proof -
  from assms(2) obtain xs ys where s: "layer_stack g = xs @ i # ys" by (auto simp: in_set_conv_decomp)
  then have d: "i \<notin> set xs" using assms(1) by (auto simp: stack_ok_def)
  have f: "find (covered g q) (rev (layer_stack g)) = Some j" using assms(4) by (simp add: FindLayerByPosition_covered [OF assms(1)])
  then have "find (covered g q) (rev (i # ys)) = Some j"
    using assms(3) by (auto simp: s find_append split: option.splits)
  moreover have "drawn_with g i = layer_stack g \<or> drawn_with g i = i # ys"
    using assms(3) by (auto simp: drawn_with_def covered_def s dropWhile_until [OF d] split: option.splits)
  ultimately show ?thesis using f paint_stack_found [OF _ assms(5)] by metis
qed

text \<open>
  C7: \<^verbatim>\<open>Draw(area)\<close> paints in every pixel of the area the layers of the stack, from the lowest to the topmost,
  over the colour the back buffer has there: a window without a transparent colour gives the pixel of its
  shadow buffer, one with a transparent colour leaves what is below where it has that colour, and a layer
  that is blended is mixed with what is below.  So wherever the layer that \<^verbatim>\<open>FindLayerByPosition\<close> finds when
  the mouse is at that pixel is solid, the screen shows exactly that layer; where there is no layer the back
  buffer keeps its colour, and outside the area the screen is untouched.
\<close>

theorem Draw_shows_layer_found_there:
  assumes "gui_ok g" "rect_ok area"
  shows "\<exists>g'. Draw_area E area g = Some g' \<and> (\<forall>q. in_fb (gui_screen g) q \<longrightarrow>
     fb_GetPixel q (gui_screen g') =
       (if in_rect area q then paint_stack E g q (layer_stack g) (fb_GetPixel q (back_buffer g))
        else fb_GetPixel q (gui_screen g))
     \<and> (in_rect area q \<longrightarrow>
         (case FindLayerByPosition q 0 g of
            None \<Rightarrow> fb_GetPixel q (gui_screen g') = fb_GetPixel q (back_buffer g)
          | Some i \<Rightarrow> solid g q i \<longrightarrow> fb_GetPixel q (gui_screen g') = layer_pixel g q i)))"
proof -
  note ok = gui_okD(1) [OF assms(1)]
  from Draw_area_spec [OF assms, of E] obtain g' where g': "Draw_area E area g = Some g'"
    "redrawn E (in_rect area) (layer_stack g) g g'" by blast
  then have px: "fb_GetPixel q (gui_screen g') = (if in_rect area q then paint_stack E g q (layer_stack g) (fb_GetPixel q (back_buffer g))
        else fb_GetPixel q (gui_screen g))" if "in_fb (gui_screen g) q" for q using that by (simp add: redrawn_def)
  have found: "case FindLayerByPosition q 0 g of
          None \<Rightarrow> paint_stack E g q (layer_stack g) b = b
        | Some i \<Rightarrow> solid g q i \<longrightarrow> paint_stack E g q (layer_stack g) b = layer_pixel g q i" for q b
    by (auto simp: FindLayerByPosition_covered [OF ok] paint_stack_none paint_stack_found split: option.split)
  have "in_fb (gui_screen g) q \<longrightarrow>
     fb_GetPixel q (gui_screen g') =
       (if in_rect area q then paint_stack E g q (layer_stack g) (fb_GetPixel q (back_buffer g))
        else fb_GetPixel q (gui_screen g))
     \<and> (in_rect area q \<longrightarrow>
         (case FindLayerByPosition q 0 g of
            None \<Rightarrow> fb_GetPixel q (gui_screen g') = fb_GetPixel q (back_buffer g)
          | Some i \<Rightarrow> solid g q i \<longrightarrow> fb_GetPixel q (gui_screen g') = layer_pixel g q i))" for q
    using px [of q] found [of q "fb_GetPixel q (back_buffer g)"] by (simp split: option.splits)
  with g'(1) show ?thesis by blast
qed

lemma gui_example_windows:
  obtains w0 w1 w2 where "windows gui_example = [0 \<mapsto> w0, 1 \<mapsto> w1, 2 \<mapsto> w2]" "win_ok w0" "win_ok w1" "win_ok w2"
    "pixel_format (shadow_buffer w0) = kPixelRGBResv8BitPerColor" "pixel_format (shadow_buffer w1) = kPixelRGBResv8BitPerColor"
    "pixel_format (shadow_buffer w2) = kPixelRGBResv8BitPerColor" "transparent_color w1 = None" "transparent_color w2 = Some (px 0 0 0)"
    "win_width w1 = 50" "win_height w1 = 40" "win_width w2 = 15" "win_height w2 = 24"
    "\<And>q. in_win w2 q \<Longrightarrow> At q w2 = Some (px 0 0 0)"
proof -
  let ?fmt = kPixelRGBResv8BitPerColor
  obtain w0 where w0: "Window_init 800 600 ?fmt = Some w0" "win_good w0" "pixel_format (shadow_buffer w0) = ?fmt"
    using Window_init_good [of 800 600 ?fmt] by auto
  obtain w1 where w1: "Window_init 50 40 ?fmt = Some w1" "win_good w1" "transparent_color w1 = None"
      "pixel_format (shadow_buffer w1) = ?fmt" "win_width w1 = 50" "win_height w1 = 40"
    using Window_init_good [of 50 40 ?fmt] by auto
  obtain w2 where w2: "Window_init 15 24 ?fmt = Some w2" "win_good w2" "pixel_format (shadow_buffer w2) = ?fmt"
      "win_width w2 = 15" "win_height w2 = 24" "\<forall>q. in_win w2 q \<longrightarrow> At q w2 = Some (px 0 0 0)"
    using Window_init_good [of 15 24 ?fmt] by auto
  let ?w2 = "SetTransparentColor (Some (px 0 0 0)) w2"
  have "win_ok ?w2" using w2(2) by (simp add: win_good_def win_ok_def SetTransparentColor_def)
  moreover have "in_win ?w2 q \<Longrightarrow> At q ?w2 = Some (px 0 0 0)" for q
    using w2(6) [rule_format, of q] by (simp add: SetTransparentColor_def in_win_def At_def)
  moreover have "windows gui_example = [0 \<mapsto> w0, 1 \<mapsto> w1, 2 \<mapsto> ?w2]" by (simp add: gui_example_def w0 w1 w2)
  ultimately show thesis using that [of w0 w1 ?w2] w0 w1 w2 by (simp add: win_good_def SetTransparentColor_def)
qed

lemma gui_example_ok: "gui_ok gui_example"
proof -
  obtain w0 w1 w2 where w: "windows gui_example = [0 \<mapsto> w0, 1 \<mapsto> w1, 2 \<mapsto> w2]" "win_ok w0" "win_ok w1" "win_ok w2"
    "pixel_format (shadow_buffer w0) = kPixelRGBResv8BitPerColor" "pixel_format (shadow_buffer w1) = kPixelRGBResv8BitPerColor"
    "pixel_format (shadow_buffer w2) = kPixelRGBResv8BitPerColor" by (rule gui_example_windows) blast
  have fmt: "pixel_format screen_example = kPixelRGBResv8BitPerColor"
    by (simp add: screen_example_def Initialize_def BytesPerPixel_def)
  show ?thesis
    using gui_example_stack w screen_example_ok(1) fmt
    by (simp add: gui_ok_def layer_ok_def lay_GetWindow_def layer_of_def)
      (simp add: gui_example_def)
qed

text \<open>
  A pixel of the cursor: the mouse finds the cursor's layer there, which is not solid, and the screen shows
  the layer below it; and beside the cursor the layer that the mouse finds.
\<close>

theorem Draw_shows_layer_found_there_witness:
  "\<exists>g'. Draw_area \<lparr>env_blend = \<lambda>c d a. c, env_fonts = blank_fonts, env_pos = Vec 0 0, env_area = Rect (Vec 0 0) (Vec 0 0)\<rparr>
       (Rect (Vec 0 0) (Vec 100 100)) gui_example = Some g'
     \<and> FindLayerByPosition (Vec 25 25) 0 gui_example = Some 4
     \<and> fb_GetPixel (Vec 25 25) (gui_screen g') = layer_pixel gui_example (Vec 25 25) 3
     \<and> FindLayerByPosition (Vec 22 22) 0 gui_example = Some 3
     \<and> fb_GetPixel (Vec 22 22) (gui_screen g') = layer_pixel gui_example (Vec 22 22) 3"
proof -
  let ?E = "\<lparr>env_blend = \<lambda>c d a. c, env_fonts = blank_fonts, env_pos = Vec 0 0, env_area = Rect (Vec 0 0) (Vec 0 0)\<rparr>"
  let ?g = gui_example
  obtain w0 w1 w2 where w: "windows ?g = [0 \<mapsto> w0, 1 \<mapsto> w1, 2 \<mapsto> w2]" "transparent_color w1 = None"
    "transparent_color w2 = Some (px 0 0 0)" "win_width w1 = 50" "win_height w1 = 40" "win_width w2 = 15" "win_height w2 = 24"
    "\<And>q. in_win w2 q \<Longrightarrow> At q w2 = Some (px 0 0 0)" by (rule gui_example_windows) blast
  have g: "lay_GetWindow ?g (layer_of 3 (Vec 20 20) (Some 1)) = Some w1" "lay_GetWindow ?g (layer_of 4 (Vec 24 24) (Some 2)) = Some w2"
    using w(1) by (simp_all add: lay_GetWindow_def layer_of_def)
  have tr: "\<not> is_transparent ?g l" for l by (simp add: is_transparent_def gui_example_def)
  have cov: "covered ?g (Vec x y) 3 \<longleftrightarrow> 20 \<le> x \<and> x < 70 \<and> 20 \<le> y \<and> y < 60"
    "covered ?g (Vec x y) 4 \<longleftrightarrow> 24 \<le> x \<and> x < 39 \<and> 24 \<le> y \<and> y < 48" for x y
    using covers_in_win [OF g(1)] covers_in_win [OF g(2)] w(4-7)
    by (auto simp: covered_def gui_example_stack(5,6) in_win_def layer_of_def)
  have found: "FindLayerByPosition (Vec 25 25) 0 ?g = Some 4" "FindLayerByPosition (Vec 22 22) 0 ?g = Some 3"
    by (simp_all add: FindLayerByPosition_covered [OF gui_example_stack(1)] gui_example_stack(2) cov)
  have lp: "lay_pos (layer_of i p k) = p" for i p k by (simp add: layer_of_def)
  have sol: "solid ?g q 3" for q using g(1) by (simp add: solid_def gui_example_stack(5) tr w(2))
  have p4: "paint ?E ?g (Vec 25 25) 4 b = b" for b
    using w(8) [of "Vec 1 1"] w(3,6,7) g(2)
    by (simp add: paint_def gui_example_stack(6) tr lp in_win_def win_pixel_def color_neq_def color_eq_def)
  have p3: "paint ?E ?g (Vec 25 25) 3 b = layer_pixel ?g (Vec 25 25) 3" for b
    by (rule paint_solid) (simp_all add: cov sol)
  have r: "rect_ok (Rect (Vec 0 0) (Vec 100 100))" by (simp add: rect_ok_def)
  have i: "in_fb (gui_screen ?g) (Vec 25 25)" "in_rect (Rect (Vec 0 0) (Vec 100 100)) (Vec 25 25)"
    "in_fb (gui_screen ?g) (Vec 22 22)" "in_rect (Rect (Vec 0 0) (Vec 100 100)) (Vec 22 22)"
    by (simp_all add: gui_example_def screen_example_ok in_rect_def)
  from Draw_shows_layer_found_there [OF gui_example_ok r, of ?E] obtain g' where
    g': "Draw_area ?E (Rect (Vec 0 0) (Vec 100 100)) ?g = Some g'"
    "fb_GetPixel (Vec 25 25) (gui_screen g') = paint_stack ?E ?g (Vec 25 25) (layer_stack ?g) (fb_GetPixel (Vec 25 25) (back_buffer ?g))"
    "fb_GetPixel (Vec 22 22) (gui_screen g') = layer_pixel ?g (Vec 22 22) 3"
    using i found(2) sol by fastforce
  have "fb_GetPixel (Vec 25 25) (gui_screen g') = layer_pixel ?g (Vec 25 25) 3"
    unfolding g'(2) gui_example_stack(2) paint_stack_simps p3 p4 ..
  with g'(1,3) found show ?thesis by blast
qed

section \<open>Moving a layer\<close>

lemma FindLayer_upd:
  assumes "\<And>l. lay_id (f l) = lay_id l"
  shows "FindLayer j (upd_layer i f g) = (if j = i then map_option f (FindLayer j g) else FindLayer j g)"
proof -
  have "find (\<lambda>l. lay_id l = j) (map (\<lambda>l. if lay_id l = i then f l else l) ls)
      = (if j = i then map_option f (find (\<lambda>l. lay_id l = j) ls) else find (\<lambda>l. lay_id l = j) ls)" for ls
    using assms by (induction ls) auto
  then show ?thesis by (simp add: FindLayer_def upd_layer_def)
qed

lemma gui_ok_move: "gui_ok g \<Longrightarrow> gui_ok (upd_layer i (lay_Move pos) g)"
proof -
  let ?g = "upd_layer i (lay_Move pos) g"
  have find: "FindLayer j ?g = (if j = i then map_option (lay_Move pos) (FindLayer j g) else FindLayer j g)" for j
    by (rule FindLayer_upd) (simp add: lay_Move_def)
  have same: "layer_stack ?g = layer_stack g" "gui_screen ?g = gui_screen g" "back_buffer ?g = back_buffer g"
    "windows ?g = windows g" by (simp_all add: upd_layer_def)
  have "stack_ok g \<Longrightarrow> stack_ok ?g" by (auto simp: stack_ok_def find same)
  moreover have "layer_ok g fmt j \<Longrightarrow> layer_ok ?g fmt j" for fmt j
    by (auto simp: layer_ok_def find lay_GetWindow_def same lay_Move_def split: option.splits)
  ultimately show "gui_ok g \<Longrightarrow> gui_ok ?g" by (auto simp: gui_ok_def same)
qed

lemma gui_Move_spec:
  assumes "gui_ok g" "i \<in> set (layer_stack g)"
  shows "\<exists>g' l'. gui_Move E i pos g = Some g' \<and> gui_ok g' \<and> FindLayer i g' = Some l' \<and> lay_pos l' = pos
    \<and> g' = (upd_layer i (lay_Move pos) g)\<lparr>back_buffer := back_buffer g', gui_screen := gui_screen g'\<rparr>
    \<and> (\<forall>q. in_fb (gui_screen g) q \<longrightarrow>
         fb_GetPixel q (gui_screen g') =
          (let old = fb_GetPixel q (back_buffer g);
               below = (if covered g q i then paint_stack E g' q (layer_stack g) old else old)
           in if covered g' q i then paint_stack E g' q (drawn_with g' i) below
              else if covered g q i then below else fb_GetPixel q (gui_screen g)))"
proof -
  let ?f = "lay_Move pos" and ?fmt = "pixel_format (gui_screen g)"
  note ok = gui_okD [OF assms(1)]
  have "layer_ok g ?fmt i" using ok(6) assms(2) by blast
  then obtain l w where l: "FindLayer i g = Some l" "lay_GetWindow g l = Some w" "win_ok w" by (rule layer_okE)
  let ?wa = "Rect (lay_pos l) (win_Size w)"
  have wrect: "rect_ok ?wa" using l(3) by (auto simp: rect_ok_def win_Size_def win_ok_def)
  have inw: "in_rect ?wa q \<longleftrightarrow> covered g q i" for q
    using l(1,2) by (auto simp: covered_def covers_in_win in_rect_def win_Size_def in_win_def)
  define g0 where "g0 = upd_layer i ?f g"
  have g0: "gui_ok g0" unfolding g0_def by (rule gui_ok_move [OF assms(1)])
  have same: "layer_stack g0 = layer_stack g" "gui_screen g0 = gui_screen g" "back_buffer g0 = back_buffer g"
    by (simp_all add: g0_def upd_layer_def)
  from Draw_area_spec [OF g0 wrect, of E] obtain g1 where
    g1: "Draw_area E ?wa g0 = Some g1" "redrawn E (in_rect ?wa) (layer_stack g0) g0 g1" by blast
  then have ok1: "gui_ok g1" and st1: "g1 = g0\<lparr>back_buffer := back_buffer g1, gui_screen := gui_screen g1\<rparr>"
    by (simp_all only: redrawn_def)
  have "layer_stack g1 = layer_stack g" by (subst st1) (simp add: same)
  with Draw_id_spec [OF ok1, of i E] assms(2) obtain g2 where
    g2: "Draw_id E i g1 = Some g2" "redrawn E (\<lambda>q. covered g1 q i) (drawn_with g1 i) g1 g2" by auto
  then have ok2: "gui_ok g2" and st2: "g2 = g1\<lparr>back_buffer := back_buffer g2, gui_screen := gui_screen g2\<rparr>"
    by (simp_all only: redrawn_def)
  note s1 = layer_state_same [OF st1] and s2 = layer_state_same [OF st2]
  have "layer_stack g2 = layer_stack g1" by (subst st2) simp
  then have dw: "drawn_with g2 i = drawn_with g1 i" unfolding drawn_with_def s2 by (simp only:)
  have "FindLayer i g0 = Some (?f l)"
    unfolding g0_def by (subst FindLayer_upd) (simp_all add: lay_Move_def l(1))
  then have fin: "FindLayer i g2 = Some (?f l)" by (simp add: s1 s2)
  have run: "gui_Move E i pos g = Some g2" by (simp add: gui_Move_def move_with_def l(1,2) g1(1) g2(1) flip: g0_def)
  have px1: "fb_GetPixel q (back_buffer g1) =
      (if covered g q i then paint_stack E g0 q (layer_stack g) (fb_GetPixel q (back_buffer g)) else fb_GetPixel q (back_buffer g))"
    "fb_GetPixel q (gui_screen g1) = (if covered g q i then fb_GetPixel q (back_buffer g1) else fb_GetPixel q (gui_screen g))"
    if "in_fb (gui_screen g) q" for q
    using g1(2) that by (simp_all add: redrawn_def same inw)
  have in1: "in_fb (gui_screen g1) = in_fb (gui_screen g)" using g1(2) by (simp add: redrawn_def same)
  have px2: "fb_GetPixel q (gui_screen g2) =
      (if covered g1 q i then paint_stack E g1 q (drawn_with g1 i) (fb_GetPixel q (back_buffer g1)) else fb_GetPixel q (gui_screen g1))"
    if "in_fb (gui_screen g) q" for q
    using g2(2) that in1 by (simp add: redrawn_def)
  have "fb_GetPixel q (gui_screen g2) =
      (let old = fb_GetPixel q (back_buffer g);
           below = (if covered g q i then paint_stack E g2 q (layer_stack g) old else old)
       in if covered g2 q i then paint_stack E g2 q (drawn_with g2 i) below
          else if covered g q i then below else fb_GetPixel q (gui_screen g))" if q: "in_fb (gui_screen g) q" for q
    unfolding Let_def px2 [OF q] px1 [OF q] dw s2 s1 by simp
  moreover have "g2 = g0\<lparr>back_buffer := back_buffer g2, gui_screen := gui_screen g2\<rparr>"
    by (subst st2, subst st1) simp
  moreover have "lay_pos (?f l) = pos" by (simp add: lay_Move_def)
  ultimately show ?thesis using run ok2 fin unfolding g0_def by blast
qed

text \<open>
  C27: moving a layer changes its position and the two pictures, nothing else, and keeps the desktop
  well-formed.  Where the layer was, all layers are painted again, with the layer at its new position; where
  it is now, the layer and those above it are painted over that (all layers, when the layer is blended); the
  rest of the screen is untouched.  So at both places the screen shows the topmost layer wherever that layer
  is solid.
\<close>

theorem Move_redraws:
  assumes "gui_ok g" "i \<in> set (layer_stack g)"
  shows "\<exists>g' l'. gui_Move E i pos g = Some g' \<and> gui_ok g' \<and> FindLayer i g' = Some l' \<and> lay_pos l' = pos
    \<and> g' = (upd_layer i (lay_Move pos) g)\<lparr>back_buffer := back_buffer g', gui_screen := gui_screen g'\<rparr>
    \<and> (\<forall>q. in_fb (gui_screen g) q \<longrightarrow>
         fb_GetPixel q (gui_screen g') =
          (let old = fb_GetPixel q (back_buffer g);
               below = (if covered g q i then paint_stack E g' q (layer_stack g) old else old)
           in if covered g' q i then paint_stack E g' q (drawn_with g' i) below
              else if covered g q i then below else fb_GetPixel q (gui_screen g))
         \<and> (covered g q i \<or> covered g' q i \<longrightarrow>
             (case FindLayerByPosition q 0 g' of
                None \<Rightarrow> fb_GetPixel q (gui_screen g') = fb_GetPixel q (back_buffer g)
              | Some j \<Rightarrow> solid g' q j \<longrightarrow> fb_GetPixel q (gui_screen g') = layer_pixel g' q j)))"
proof -
  obtain g' l' where m: "gui_Move E i pos g = Some g'" "gui_ok g'" "FindLayer i g' = Some l'" "lay_pos l' = pos"
    "g' = (upd_layer i (lay_Move pos) g)\<lparr>back_buffer := back_buffer g', gui_screen := gui_screen g'\<rparr>"
    and px: "\<forall>q. in_fb (gui_screen g) q \<longrightarrow> fb_GetPixel q (gui_screen g') =
          (let old = fb_GetPixel q (back_buffer g);
               below = (if covered g q i then paint_stack E g' q (layer_stack g) old else old)
           in if covered g' q i then paint_stack E g' q (drawn_with g' i) below
              else if covered g q i then below else fb_GetPixel q (gui_screen g))"
    using gui_Move_spec [OF assms, of E pos] by blast
  note ok = gui_okD(1) [OF m(2)]
  have st: "layer_stack g' = layer_stack g" by (subst m(5)) (simp add: upd_layer_def)
  have i: "i \<in> set (layer_stack g')" using assms(2) st by simp
  have "case FindLayerByPosition q 0 g' of
      None \<Rightarrow> fb_GetPixel q (gui_screen g') = fb_GetPixel q (back_buffer g)
    | Some j \<Rightarrow> solid g' q j \<longrightarrow> fb_GetPixel q (gui_screen g') = layer_pixel g' q j"
    if q: "in_fb (gui_screen g) q" "covered g q i \<or> covered g' q i" for q
  proof (cases "FindLayerByPosition q 0 g'")
    case None
    then have n: "find (covered g' q) (rev (layer_stack g')) = None" by (simp add: FindLayerByPosition_covered [OF ok])
    then have "\<not> covered g' q i" using i by (auto simp: find_None_iff)
    with None q px paint_stack_none [OF n] show ?thesis by (simp add: st)
  next
    case (Some j)
    have "paint_stack E g' q (layer_stack g') b = layer_pixel g' q j" if "solid g' q j" for b
      by (rule paint_stack_found [OF _ that]) (use Some in \<open>simp add: FindLayerByPosition_covered [OF ok]\<close>)
    then have all: "solid g' q j \<longrightarrow> paint_stack E g' q (layer_stack g) b = layer_pixel g' q j" for b by (simp add: st)
    have "solid g' q j \<longrightarrow> covered g' q i \<longrightarrow> paint_stack E g' q (drawn_with g' i) b = layer_pixel g' q j" for b
      using drawn_with_found [OF ok i _ Some, of E b] by blast
    then have "solid g' q j \<longrightarrow> fb_GetPixel q (gui_screen g') = layer_pixel g' q j"
      using px [rule_format, OF q(1)] q(2) all by (cases "covered g' q i") (simp_all add: Let_def)
    with Some show ?thesis by simp
  qed
  with m px show ?thesis by blast
qed

theorem Move_redraws_witness:
  "\<exists>g'. gui_Move \<lparr>env_blend = \<lambda>c d a. c, env_fonts = blank_fonts, env_pos = Vec 0 0, env_area = Rect (Vec 0 0) (Vec 0 0)\<rparr>
       2 (Vec 300 200) gui_example = Some g' \<and> gui_ok g' \<and> map_option lay_pos (FindLayer 2 g') = Some (Vec 300 200)
     \<and> layer_stack g' = [1, 2, 3, 4]"
proof -
  let ?E = "\<lparr>env_blend = \<lambda>c d a. c, env_fonts = blank_fonts, env_pos = Vec 0 0, env_area = Rect (Vec 0 0) (Vec 0 0)\<rparr>"
  have "2 \<in> set (layer_stack gui_example)" by (simp add: gui_example_stack(2))
  from Move_redraws [OF gui_example_ok this, of ?E "Vec 300 200"] obtain g' l' where
    g': "gui_Move ?E 2 (Vec 300 200) gui_example = Some g'" "gui_ok g'" "FindLayer 2 g' = Some l'" "lay_pos l' = Vec 300 200"
      "g' = (upd_layer 2 (lay_Move (Vec 300 200)) gui_example)\<lparr>back_buffer := back_buffer g', gui_screen := gui_screen g'\<rparr>"
    by blast
  have "layer_stack g' = layer_stack gui_example" by (subst g'(5)) (simp add: upd_layer_def)
  then have "layer_stack g' = [1, 2, 3, 4]" by (simp only: gui_example_stack(2))
  with g'(1-4) show ?thesis by (intro exI [of _ g']) simp
qed

end
