(* ===== verification/Mouse.thy ===== *)
theory Mouse imports Layer begin

text \<open>
  \<^verbatim>\<open>kernel/mouse.cpp\<close>: the mouse cursor, dragging and closing windows, and the messages to the task of
  the active window.

  The only click handler of the sources is that of the desktop button, which \<^verbatim>\<open>InitializeLayer\<close>
  installs; a layer with \<open>lay_clickable\<close> has it.  Measuring the time a movement takes feeds the log
  only and is left out.
\<close>

definition mouse_cursor_shape :: "string list" where
  "mouse_cursor_shape =
    [''@              '',
     ''@@             '',
     ''@.@            '',
     ''@..@           '',
     ''@...@          '',
     ''@....@         '',
     ''@.....@        '',
     ''@......@       '',
     ''@.......@      '',
     ''@........@     '',
     ''@.........@    '',
     ''@..........@   '',
     ''@...........@  '',
     ''@............@ '',
     ''@......@@@@@@@@'',
     ''@......@       '',
     ''@....@@.@      '',
     ''@...@ @.@      '',
     ''@..@   @.@     '',
     ''@.@    @.@     '',
     ''@@      @.@    '',
     ''@       @.@    '',
     ''         @.@   '',
     ''         @@@   '']"

definition kMouseCursorWidth :: int where "kMouseCursorWidth = 15"
definition kMouseCursorHeight :: int where "kMouseCursorHeight = 24"
definition kMouseTransparentColor :: PixelColor where "kMouseTransparentColor = px 0 0 1"

definition DrawMouseCursor :: "'w PixelWriter \<Rightarrow> Vector2D \<Rightarrow> 'w \<Rightarrow> 'w option" where
  "DrawMouseCursor W mpos w =
     for_each (\<lambda>dy. for_each (\<lambda>dx.
       let s = mouse_cursor_shape ! nat dy ! nat dx in
       pw_Write W (Vec (vx mpos + dx) (vy mpos + dy))
         (if s = CHR ''@'' then px 0 0 0 else if s = CHR ''.'' then px 255 255 255 else kMouseTransparentColor))
       [0..kMouseCursorWidth - 1]) [0..kMouseCursorHeight - 1] w"

section \<open>Messages to the active window\<close>

definition FindActiveLayerTask :: "Gui \<Rightarrow> Layer option \<times> nat" where
  "FindActiveLayerTask g =
     (let act = active_id g in
      if act = 0 then (None, 0)
      else case FindLayer act g of
        None \<Rightarrow> (None, 0)
      | Some l \<Rightarrow>
          (case layer_task_map g act of
             None \<Rightarrow> (Some l, 0)
           | Some t \<Rightarrow> (Some l, t)))"

definition mouse_message :: "msg_type \<Rightarrow> msg_arg \<Rightarrow> Message" where
  "mouse_message ty a = \<lparr>msg_type = ty, src_task_id = 0, arg = a\<rparr>"

definition send_to :: "nat \<Rightarrow> Message \<Rightarrow> Gui \<Rightarrow> Gui option" where
  "send_to t msg g = map_option (\<lambda>(m, err). g\<lparr>gui_tasks := m\<rparr>) (SendMessage t msg (gui_tasks g))"

text \<open>The messages of one interrupt: the movement first, then one for every button that changed.\<close>

definition button_messages :: "Vector2D \<Rightarrow> u8 \<Rightarrow> u8 \<Rightarrow> Message list" where
  "button_messages relpos buttons previous_buttons =
     (if previous_buttons \<noteq> buttons
      then map (\<lambda>i. mouse_message kMouseButton (MouseButtonArg (vx relpos, vy relpos) (bit buttons i) (int i)))
             (filter (\<lambda>i. drop_bit i (previous_buttons XOR buttons) AND 1 \<noteq> 0) [0..<8])
      else [])"

definition move_messages :: "Vector2D \<Rightarrow> Vector2D \<Rightarrow> u8 \<Rightarrow> Message list" where
  "move_messages relpos posdiff buttons =
     (if vx posdiff \<noteq> 0 \<or> vy posdiff \<noteq> 0
      then [mouse_message kMouseMove (MouseMoveArg (vx relpos, vy relpos) (vx posdiff, vy posdiff) buttons)]
      else [])"

definition SendMouseMessage :: "Vector2D \<Rightarrow> Vector2D \<Rightarrow> u8 \<Rightarrow> u8 \<Rightarrow> Gui \<Rightarrow> Gui option" where
  "SendMouseMessage newpos posdiff buttons previous_buttons g =
     (case FindActiveLayerTask g of
        (Some l, t) \<Rightarrow>
          if t = 0 then Some g
          else let relpos = newpos - lay_pos l in
            for_each (send_to t)
              (move_messages relpos posdiff buttons @ button_messages relpos buttons previous_buttons) g
      | (None, t) \<Rightarrow> Some g)"

definition SendCloseMessage :: "Gui \<Rightarrow> Gui option" where
  "SendCloseMessage g =
     (case FindActiveLayerTask g of
        (Some l, t) \<Rightarrow>
          if t = 0 then Some g
          else send_to t (mouse_message kWindowClose (WindowCloseArg (lay_id l))) g
      | (None, t) \<Rightarrow> Some g)"

section \<open>The cursor\<close>

record MouseCursor =
  mc_layer_id :: u32
  mc_position :: Vector2D
  mc_drag_layer_id :: u32
  mc_previous_buttons :: u8
  mc_mouse_down_layer :: "u32 option"

definition MouseCursor_init :: "u32 \<Rightarrow> MouseCursor" where
  "MouseCursor_init i = \<lparr>mc_layer_id = i, mc_position = Vec 0 0, mc_drag_layer_id = 0,
     mc_previous_buttons = 0, mc_mouse_down_layer = None\<rparr>"

definition SetPosition :: "'f env \<Rightarrow> Vector2D \<Rightarrow> MouseCursor \<times> Gui \<Rightarrow> (MouseCursor \<times> Gui) option" where
  "SetPosition E mpos = (\<lambda>(mc, g). do {
     g \<leftarrow> gui_Move E (mc_layer_id mc) mpos g;
     Some (mc\<lparr>mc_position := mpos\<rparr>, g) })"

definition globalTransparentDefaultAplha :: u8 where "globalTransparentDefaultAplha = 200"

definition OnClick :: "'f env \<Rightarrow> Layer \<Rightarrow> Gui \<Rightarrow> Gui option" where
  "OnClick E l g =
     (if lay_clickable l
      then Fresh E (g\<lparr>globalTransparent := (if globalTransparent g = 0xff then globalTransparentDefaultAplha else 0xff)\<rparr>)
      else Some g)"

definition left_down :: "'f env \<Rightarrow> MouseCursor \<times> Gui \<Rightarrow> (u32 \<times> MouseCursor \<times> Gui) option" where
  "left_down E = (\<lambda>(mc, g). do {
     let found = FindLayerByPosition (mc_position mc) (mc_layer_id mc) g;
     let layer = (case found of None \<Rightarrow> None | Some i \<Rightarrow> FindLayer i g);
     (case layer of
        Some l \<Rightarrow>
          if lay_draggable l
          then do {
            win \<leftarrow> lay_GetWindow g l;
            let region = GetWindowRegion (mc_position mc - lay_pos l) win;
            let drag = (if region = kTitleBar then lay_id l else mc_drag_layer_id mc);
            let close = (if region = kCloseButton then lay_id l else 0);
            g \<leftarrow> Activate E (lay_id l) g;
            Some (close, mc\<lparr>mc_drag_layer_id := drag, mc_mouse_down_layer := found\<rparr>, g) }
          else do {
            g \<leftarrow> Activate E 0 g;
            Some (0, mc\<lparr>mc_mouse_down_layer := found\<rparr>, g) }
      | None \<Rightarrow> do {
          g \<leftarrow> Activate E 0 g;
          Some (0, mc\<lparr>mc_mouse_down_layer := found\<rparr>, g) }) })"

definition left_up :: "'f env \<Rightarrow> MouseCursor \<times> Gui \<Rightarrow> (MouseCursor \<times> Gui) option" where
  "left_up E = (\<lambda>(mc, g).
     if mc_drag_layer_id mc \<noteq> 0
     then Some (mc\<lparr>mc_drag_layer_id := 0, mc_mouse_down_layer := None\<rparr>, g)
     else do {
       let found = FindLayerByPosition (mc_position mc) (mc_layer_id mc) g;
       g \<leftarrow> (case found of
               None \<Rightarrow> Some g
             | Some i \<Rightarrow> if mc_mouse_down_layer mc = found
                         then do { l \<leftarrow> FindLayer i g; OnClick E l g } else Some g);
       Some (mc\<lparr>mc_mouse_down_layer := None\<rparr>, g) })"

text \<open>The branches on the left button; the result also has \<^verbatim>\<open>close_layer_id\<close>.\<close>

definition left_button :: "'f env \<Rightarrow> u8 \<Rightarrow> Vector2D \<Rightarrow> MouseCursor \<times> Gui \<Rightarrow> (u32 \<times> MouseCursor \<times> Gui) option" where
  "left_button E buttons posdiff = (\<lambda>(mc, g).
     let previous_left_pressed = bit (mc_previous_buttons mc) 0;
         left_pressed = bit buttons 0
     in
       if \<not> previous_left_pressed \<and> left_pressed then left_down E (mc, g)
       else if previous_left_pressed \<and> left_pressed
       then (if mc_drag_layer_id mc > 0
             then do { g \<leftarrow> gui_MoveRelative E (mc_drag_layer_id mc) posdiff g; Some (0, mc, g) }
             else Some (0, mc, g))
       else if previous_left_pressed \<and> \<not> left_pressed
       then do { (mc, g) \<leftarrow> left_up E (mc, g); Some (0, mc, g) }
       else Some (0, mc, g))"

definition OnInterrupt :: "'f env \<Rightarrow> u8 \<Rightarrow> int \<Rightarrow> int \<Rightarrow> MouseCursor \<times> Gui \<Rightarrow> (MouseCursor \<times> Gui) option" where
  "OnInterrupt E buttons displacement_x displacement_y = (\<lambda>(mc, g). do {
     let oldpos = mc_position mc;
     let newpos = ElementMin (oldpos + Vec displacement_x displacement_y) (ScreenSize g + Vec (-1) (-1));
     let mpos = ElementMax newpos (Vec 0 0);
     let mc = mc\<lparr>mc_position := mpos\<rparr>;
     let posdiff = mpos - oldpos;
     g \<leftarrow> gui_Move E (mc_layer_id mc) mpos g;
     (close_layer_id, mc, g) \<leftarrow> left_button E buttons posdiff (mc, g);
     g \<leftarrow> (if mc_drag_layer_id mc = 0
           then (if close_layer_id = 0 then SendMouseMessage newpos posdiff buttons (mc_previous_buttons mc) g
                 else SendCloseMessage g)
           else Some g);
     Some (mc\<lparr>mc_previous_buttons := buttons\<rparr>, g) })"

section \<open>Where the cursor can be\<close>

text \<open>
  A run of the mouse: interrupts, and between them whatever the other tasks do to the desktop (but not
  to the size of the screen).
\<close>

inductive mouse_run :: "'f env \<Rightarrow> Vector2D \<Rightarrow> MouseCursor \<times> Gui \<Rightarrow> MouseCursor \<times> Gui \<Rightarrow> bool" for E :: "'f env" and sz where
  start: "mouse_run E sz s s"
| other: "mouse_run E sz s (mc, g) \<Longrightarrow> ScreenSize g' = sz \<Longrightarrow> mouse_run E sz s (mc, g')"
| interrupt: "mouse_run E sz s (mc, g) \<Longrightarrow> ScreenSize g = sz \<Longrightarrow> OnInterrupt E buttons dx dy (mc, g) = Some s'
    \<Longrightarrow> mouse_run E sz s s'"

inductive_cases mouse_runE: "mouse_run E sz s s'"

definition on_screen :: "Vector2D \<Rightarrow> Vector2D \<Rightarrow> bool" where
  "on_screen sz p \<longleftrightarrow> 0 \<le> vx p \<and> vx p < vx sz \<and> 0 \<le> vy p \<and> vy p < vy sz"

definition mouse_inv :: "Vector2D \<Rightarrow> MouseCursor \<Rightarrow> bool" where
  "mouse_inv sz mc \<longleftrightarrow> on_screen sz (mc_position mc)
     \<and> (mc_drag_layer_id mc \<noteq> 0 \<or> mc_mouse_down_layer mc \<noteq> None \<longrightarrow> bit (mc_previous_buttons mc) 0)"

lemma left_down_frame:
  "left_down E (mc, g) = Some (close, mc', g') \<Longrightarrow> mc_position mc' = mc_position mc"
  by (auto simp: left_down_def Let_def bind_eq_Some_conv split: option.splits if_splits)

lemma left_up_frame:
  "left_up E (mc, g) = Some (mc', g') \<Longrightarrow>
    mc_position mc' = mc_position mc \<and> mc_drag_layer_id mc' = 0 \<and> mc_mouse_down_layer mc' = None"
  by (auto simp: left_up_def Let_def bind_eq_Some_conv split: option.splits if_splits)

lemma left_button_inv:
  assumes "left_button E buttons posdiff (mc, g) = Some (close, mc', g')" "mouse_inv sz mc"
  shows "mouse_inv sz (mc'\<lparr>mc_previous_buttons := buttons\<rparr>)"
proof -
  have p: "mc_drag_layer_id mc \<noteq> 0 \<or> mc_mouse_down_layer mc \<noteq> None \<longrightarrow> bit (mc_previous_buttons mc) 0"
    and s: "on_screen sz (mc_position mc)" using assms(2) by (simp_all add: mouse_inv_def)
  show ?thesis
  proof (cases "bit buttons 0")
    case True
    then have "mc_position mc' = mc_position mc"
      using assms(1) by (auto simp: left_button_def Let_def bind_eq_Some_conv dest: left_down_frame split: if_splits)
    with True s show ?thesis by (simp add: mouse_inv_def)
  next
    case False
    then have "mc_position mc' = mc_position mc \<and> mc_drag_layer_id mc' = 0 \<and> mc_mouse_down_layer mc' = None"
      using assms(1) p by (auto simp: left_button_def Let_def bind_eq_Some_conv dest: left_up_frame split: if_splits)
    with s show ?thesis by (simp add: mouse_inv_def)
  qed
qed

lemma OnInterrupt_inv:
  assumes "OnInterrupt E buttons dx dy (mc, g) = Some (mc', g')" "mouse_inv (ScreenSize g) mc"
    and "0 < vx (ScreenSize g)" "0 < vy (ScreenSize g)"
  shows "mouse_inv (ScreenSize g) mc'"
proof -
  let ?pos = "ElementMax (ElementMin (mc_position mc + Vec dx dy) (ScreenSize g + Vec (-1) (-1))) (Vec 0 0)"
  have "on_screen (ScreenSize g) ?pos"
    using assms(3,4) by (auto simp: on_screen_def ElementMin_def ElementMax_def)
  then have inv: "mouse_inv (ScreenSize g) (mc\<lparr>mc_position := ?pos\<rparr>)" using assms(2) by (simp add: mouse_inv_def)
  from assms(1) obtain g1 close mc1 g2 where "left_button E buttons (?pos - mc_position mc) (mc\<lparr>mc_position := ?pos\<rparr>, g1)
      = Some (close, mc1, g2)" "mc' = mc1\<lparr>mc_previous_buttons := buttons\<rparr>"
    unfolding OnInterrupt_def Let_def by (auto simp: bind_eq_Some_conv)
  with left_button_inv [OF _ inv] show ?thesis by simp
qed

text \<open>
  in every run of the mouse that starts on the screen with no button held, the cursor stays on the
  screen however far the mouse is moved, and a window is being dragged, or a click is pending, only
  while the left button is down.
\<close>

theorem mouse_stays_on_screen:
  assumes "mouse_run E sz (mc, g) (mc', g')" "0 < vx sz" "0 < vy sz" "mouse_inv sz mc"
  shows "on_screen sz (mc_position mc')
    \<and> (mc_drag_layer_id mc' \<noteq> 0 \<or> mc_mouse_down_layer mc' \<noteq> None \<longrightarrow> bit (mc_previous_buttons mc') 0)"
proof -
  have "mouse_inv sz (fst s')" if "mouse_run E sz s s'" "mouse_inv sz (fst s)" for s s'
    using that
  proof (induction rule: mouse_run.induct)
    case (interrupt s mc g buttons dx dy s')
    then show ?case using OnInterrupt_inv [of E buttons dx dy mc g "fst s'" "snd s'"] assms(2,3) by simp
  qed auto
  from this [OF assms(1)] assms(4) show ?thesis by (simp add: mouse_inv_def)
qed

text \<open>The mouse, with the layer 4, is moved far beyond the lower right corner.\<close>

definition mouse_example :: MouseCursor where
  "mouse_example = (MouseCursor_init 4)\<lparr>mc_position := Vec 20 20\<rparr>"

lemma mouse_example_run:
  assumes E: "E = \<lparr>env_blend = \<lambda>c d a. c, env_fonts = blank_fonts, env_pos = Vec 0 0, env_area = Rect (Vec 0 0) (Vec 0 0)\<rparr>"
  shows "\<exists>g'. OnInterrupt E 0 5000 5000 (mouse_example, gui_example) = Some (mouse_example\<lparr>mc_position := Vec 799 599\<rparr>, g')"
proof -
  have "4 \<in> set (layer_stack gui_example)" by (simp add: gui_example_stack(2))
  from gui_Move_spec [OF gui_example_ok this, of E "Vec 799 599"] obtain g' where
    g': "gui_Move E 4 (Vec 799 599) gui_example = Some g'"
      "g' = (upd_layer 4 (lay_Move (Vec 799 599)) gui_example)\<lparr>back_buffer := back_buffer g', gui_screen := gui_screen g'\<rparr>"
    by blast
  have "active_id g' = 0" by (subst g'(2)) (simp add: upd_layer_def gui_example_def)
  moreover have "ScreenSize gui_example = Vec 800 600"
    by (simp add: ScreenSize_def gui_example_def screen_example_def Initialize_def BytesPerPixel_def FrameBufferSize_def)
  ultimately have "OnInterrupt E 0 5000 5000 (mouse_example, gui_example) = Some (mouse_example\<lparr>mc_position := Vec 799 599\<rparr>, g')"
    using g'(1)
    by (simp add: OnInterrupt_def left_button_def mouse_example_def MouseCursor_init_def ElementMin_def ElementMax_def
        SendMouseMessage_def FindActiveLayerTask_def Let_def)
  then show ?thesis ..
qed

theorem mouse_stays_on_screen_witness:
  "\<exists>mc' g'. mouse_run \<lparr>env_blend = \<lambda>c d a. c, env_fonts = blank_fonts, env_pos = Vec 0 0, env_area = Rect (Vec 0 0) (Vec 0 0)\<rparr>
       (Vec 800 600) (mouse_example, gui_example) (mc', g') \<and> mc_position mc' = Vec 799 599
     \<and> on_screen (Vec 800 600) (mc_position mc')"
proof -
  define E where "E = \<lparr>env_blend = \<lambda>c d a. c, env_fonts = blank_fonts, env_pos = Vec 0 0, env_area = Rect (Vec 0 0) (Vec 0 0)\<rparr>"
  from mouse_example_run [OF E_def] obtain g' where
    g': "OnInterrupt E 0 5000 5000 (mouse_example, gui_example) = Some (mouse_example\<lparr>mc_position := Vec 799 599\<rparr>, g')" ..
  have "ScreenSize gui_example = Vec 800 600"
    by (simp add: ScreenSize_def gui_example_def screen_example_def Initialize_def BytesPerPixel_def FrameBufferSize_def)
  from mouse_run.interrupt [OF mouse_run.start this g']
  have run: "mouse_run E (Vec 800 600) (mouse_example, gui_example) (mouse_example\<lparr>mc_position := Vec 799 599\<rparr>, g')" .
  have "mouse_inv (Vec 800 600) mouse_example"
    by (simp add: mouse_inv_def mouse_example_def MouseCursor_init_def on_screen_def)
  with mouse_stays_on_screen [OF run] run show ?thesis unfolding E_def by fastforce
qed

end
