(* ===== verification/Console.thy ===== *)
theory Console imports Layer begin

text \<open>
  \<^verbatim>\<open>kernel/console.cpp\<close>: the console, a grid of 25 lines of 80 columns that is drawn to the screen or,
  once there are layers, to a window.

  \<open>device\<close> is what \<^verbatim>\<open>_writer\<close> and \<^verbatim>\<open>_window\<close> say: where to draw, and how to scroll when there is a window.
  The abstract console is the list of the lines it shows; the locale \<open>console_canvas\<close> is what it needs of
  the device, interpreted on the frame buffer and on windows.
\<close>

section \<open>The console\<close>

definition kRows :: nat where "kRows = 25"
definition kColumns :: nat where "kColumns = 80"

record 'w device =
  dev_writer :: "'w PixelWriter"
  dev_move :: "(Vector2D \<Rightarrow> Rectangle \<Rightarrow> 'w \<Rightarrow> 'w option) option"

record Console =
  con_fg :: PixelColor
  con_bg :: PixelColor
  con_buffer :: "u8 list list"
  cursor_row :: nat
  cursor_column :: nat
  con_layer_id :: u32

definition Console_init :: "PixelColor \<Rightarrow> PixelColor \<Rightarrow> Console" where
  "Console_init fg bg = \<lparr>con_fg = fg, con_bg = bg, con_buffer = replicate kRows (replicate (kColumns + 1) 0),
     cursor_row = 0, cursor_column = 0, con_layer_id = 0\<rparr>"

text \<open>The C string in a line of the buffer.\<close>

definition cstr :: "u8 list \<Rightarrow> u8 list" where
  "cstr line = takeWhile (\<lambda>c. c \<noteq> 0) line"

definition write_row :: "'f fonts \<Rightarrow> 'w device \<Rightarrow> nat \<Rightarrow> Console \<Rightarrow> 'w \<Rightarrow> 'w option" where
  "write_row fts dev row con w = do {
     line \<leftarrow> arr_get (con_buffer con) row;
     WriteString fts (dev_writer dev) (Vec 0 (16 * int row)) (cstr line) (con_fg con) w }"

definition Refresh :: "'f fonts \<Rightarrow> 'w device \<Rightarrow> Console \<times> 'w \<Rightarrow> (Console \<times> 'w) option" where
  "Refresh fts dev = (\<lambda>(con, w). do {
     w \<leftarrow> FillRectangle (dev_writer dev) (Vec 0 0) (Vec (8 * int kColumns) (16 * int kRows)) (con_bg con) w;
     w \<leftarrow> for_each (\<lambda>row. write_row fts dev row con) [0..<kRows] w;
     Some (con, w) })"

text \<open>\<^verbatim>\<open>SetWriter\<close> and \<^verbatim>\<open>SetWindow\<close>; nothing happens when the device is the same.\<close>

definition SetDevice :: "'f fonts \<Rightarrow> bool \<Rightarrow> 'w device \<Rightarrow> Console \<times> 'w \<Rightarrow> (Console \<times> 'w) option" where
  "SetDevice fts same dev s = (if same then Some s else Refresh fts dev s)"

definition SetLayerID :: "u32 \<Rightarrow> Console \<Rightarrow> Console" where
  "SetLayerID i con = con\<lparr>con_layer_id := i\<rparr>"

definition shift_row :: "'f fonts \<Rightarrow> 'w device \<Rightarrow> nat \<Rightarrow> Console \<times> 'w \<Rightarrow> (Console \<times> 'w) option" where
  "shift_row fts dev row = (\<lambda>(con, w). do {
     below \<leftarrow> arr_get (con_buffer con) (row + 1);
     buf \<leftarrow> arr_set (con_buffer con) row below;
     let con = con\<lparr>con_buffer := buf\<rparr>;
     w \<leftarrow> write_row fts dev row con w;
     Some (con, w) })"

definition NewLine :: "'f fonts \<Rightarrow> 'w device \<Rightarrow> Console \<times> 'w \<Rightarrow> (Console \<times> 'w) option" where
  "NewLine fts dev = (\<lambda>(con, w).
     let con = con\<lparr>cursor_column := 0\<rparr> in
     if cursor_row con < kRows - 1 then Some (con\<lparr>cursor_row := cursor_row con + 1\<rparr>, w)
     else do {
       w \<leftarrow> (case dev_move dev of
               Some mv \<Rightarrow> do {
                 w \<leftarrow> mv (Vec 0 0) (Rect (Vec 0 16) (Vec (8 * int kColumns) (16 * (int kRows - 1)))) w;
                 FillRectangle (dev_writer dev) (Vec 0 (16 * (int kRows - 1))) (Vec (8 * int kColumns) 16) (con_bg con) w }
             | None \<Rightarrow> FillRectangle (dev_writer dev) (Vec 0 0) (Vec (8 * int kColumns) (16 * int kRows)) (con_bg con) w);
       (con, w) \<leftarrow> for_each (shift_row fts dev) [0..<kRows - 1] (con, w);
       buf \<leftarrow> arr_set (con_buffer con) (kRows - 1) (replicate (kColumns + 1) 0);
       Some (con\<lparr>con_buffer := buf\<rparr>, w) })"

definition put_char :: "'f fonts \<Rightarrow> 'w device \<Rightarrow> u8 \<Rightarrow> Console \<times> 'w \<Rightarrow> (Console \<times> 'w) option" where
  "put_char fts dev c = (\<lambda>(con, w).
     if c = 10 then NewLine fts dev (con, w)
     else if cursor_column con < kColumns - 1
     then do {
       w \<leftarrow> WriteAscii (hankaku fts) (dev_writer dev)
              (Vec (8 * int (cursor_column con)) (16 * int (cursor_row con))) c (con_fg con) w;
       line \<leftarrow> arr_get (con_buffer con) (cursor_row con);
       line \<leftarrow> arr_set line (cursor_column con) c;
       buf \<leftarrow> arr_set (con_buffer con) (cursor_row con) line;
       Some (con\<lparr>con_buffer := buf, cursor_column := cursor_column con + 1\<rparr>, w) }
     else Some (con, w))"

text \<open>\<open>redraw\<close> is the drawing of the console's layer at the end, when there is a layer manager.\<close>

definition PutString ::
    "'f fonts \<Rightarrow> 'w device \<Rightarrow> (u32 \<Rightarrow> 'w \<Rightarrow> 'w option) option \<Rightarrow> u8 list \<Rightarrow> Console \<times> 'w \<Rightarrow> (Console \<times> 'w) option" where
  "PutString fts dev redraw s cw = do {
     (con, w) \<leftarrow> for_each (put_char fts dev) s cw;
     w \<leftarrow> (case redraw of None \<Rightarrow> Some w | Some draw \<Rightarrow> draw (con_layer_id con) w);
     Some (con, w) }"

section \<open>The abstract console\<close>

text \<open>The lines shown, the current one last: a new line scrolls when there are 25, a line takes 79 characters.\<close>

definition feed :: "u8 \<Rightarrow> u8 list list \<Rightarrow> u8 list list" where
  "feed c lines =
     (if c = 10 then (if length lines < 25 then lines else tl lines) @ [[]]
      else if length (last lines) < 79 then butlast lines @ [last lines @ [c]]
      else lines)"

definition pad_line :: "u8 list \<Rightarrow> u8 list" where
  "pad_line line = line @ replicate (81 - length line) 0"

definition shows_lines :: "u8 list list \<Rightarrow> Console \<Rightarrow> bool" where
  "shows_lines lines con \<longleftrightarrow> lines \<noteq> [] \<and> length lines \<le> 25
     \<and> cursor_row con = length lines - 1 \<and> cursor_column con = length (last lines)
     \<and> (\<forall>line \<in> set lines. length line \<le> 79 \<and> (\<forall>c \<in> set line. c \<noteq> 0 \<and> c < 0x80))
     \<and> con_buffer con = map pad_line lines @ replicate (25 - length lines) (replicate 81 0)"

lemma shows_init: "shows_lines [[]] (Console_init fg bg)"
proof -
  have "replicate 25 (replicate 81 (0 :: u8)) = replicate 81 0 # replicate 24 (replicate 81 0)"
    by (simp add: numeral_eq_Suc del: replicate.simps) (simp only: replicate.simps)
  then show ?thesis
    by (simp add: shows_lines_def Console_init_def pad_line_def kRows_def kColumns_def del: replicate.simps)
qed

lemma cstr_pad: "\<forall>c \<in> set line. c \<noteq> 0 \<Longrightarrow> cstr (pad_line line) = line"
  by (simp add: cstr_def pad_line_def takeWhile_append2 takeWhile_replicate)

lemma length_pad: "length line \<le> 81 \<Longrightarrow> length (pad_line line) = 81"
  by (simp add: pad_line_def)

section \<open>What the console needs of the device\<close>

locale console_canvas = pixel_canvas W ok "pw_GetPixel W" for W :: "'w PixelWriter" and ok :: "'w \<Rightarrow> bool" +
  fixes mv :: "(Vector2D \<Rightarrow> Rectangle \<Rightarrow> 'w \<Rightarrow> 'w option) option"
  assumes scroll: "mv = Some f \<Longrightarrow> ok w \<Longrightarrow> 640 \<le> pw_Width W w \<Longrightarrow> 400 \<le> pw_Height W w \<Longrightarrow>
      \<exists>w'. f (Vec 0 0) (Rect (Vec 0 16) (Vec 640 384)) w = Some w' \<and> ok w'
         \<and> pw_Width W w' = pw_Width W w \<and> pw_Height W w' = pw_Height W w"
begin

definition room :: "'w \<Rightarrow> bool" where
  "room w \<longleftrightarrow> ok w \<and> 640 \<le> pw_Width W w \<and> 400 \<le> pw_Height W w"

lemma room_rect: "room w \<Longrightarrow> 0 \<le> vx pos \<Longrightarrow> 0 \<le> vy pos \<Longrightarrow> vx pos + vx sz \<le> 640 \<Longrightarrow> vy pos + vy sz \<le> 400 \<Longrightarrow>
    \<forall>q. in_rect (Rect pos sz) q \<longrightarrow> in_picture W w q"
  by (auto simp: room_def in_rect_def in_picture_def)

lemma fill_room:
  assumes "room w" "0 \<le> vx pos" "0 \<le> vy pos" "vx pos + vx sz \<le> 640" "vy pos + vy sz \<le> 400"
  shows "\<exists>w'. FillRectangle W pos sz c w = Some w' \<and> room w'"
  using FillRectangle_paints [of w pos sz c] room_rect [OF assms] assms(1) by (auto simp: room_def painted_def)

lemma write_line_room:
  assumes "room w" "2048 \<le> length (hankaku fts)" "row < 25" "length line \<le> 79" "\<forall>c \<in> set line. c \<noteq> 0 \<and> c < 0x80"
    and "con_buffer con ! row = pad_line line" "length (con_buffer con) = 25"
  shows "\<exists>w'. write_row fts \<lparr>dev_writer = W, dev_move = m\<rparr> row con w = Some w' \<and> room w'"
proof -
  have cell: "\<forall>q. in_rect (Rect (Vec 0 (16 * int row) + Vec (8 * 0) 0) (Vec (8 * int (length line)) 16)) q \<longrightarrow> in_picture W w q"
    using assms(3,4) by (intro room_rect [OF assms(1)]) auto
  have ascii: "\<forall>c \<in> set line. c < 0x80" "cstr (pad_line line) = line" using assms(5) by (auto intro: cstr_pad)
  from assms(1) have "ok w" by (simp add: room_def)
  from string_loop_ascii [OF this ascii(1) assms(2) cell, of "[]" "con_fg con"] obtain w' where
    "string_loop fts W (Vec 0 (16 * int row)) line (con_fg con) 0 w = Some w'" "ok w'"
    "pw_Width W w' = pw_Width W w" "pw_Height W w' = pw_Height W w"
    by (auto simp: string_loop.simps)
  then show ?thesis
    using assms(1,3,6,7) ascii(2) by (simp add: write_row_def WriteString_def room_def)
qed

text \<open>Shifting the lines up, from the second on; \<open>n\<close> lines are done.\<close>

lemma shift_rows:
  assumes "2048 \<le> length (hankaku fts)" "length lines = 25"
    and lines: "\<forall>line \<in> set lines. length line \<le> 79 \<and> (\<forall>c \<in> set line. c \<noteq> 0 \<and> c < 0x80)"
    and buf: "con_buffer con = map pad_line lines" and "room w" and "n \<le> 24"
  shows "\<exists>w'. for_each (shift_row fts \<lparr>dev_writer = W, dev_move = m\<rparr>) [0..<n] (con, w)
      = Some (con\<lparr>con_buffer := map pad_line (take n (tl lines) @ drop n lines)\<rparr>, w') \<and> room w'"
  using assms(6)
proof (induction n)
  case 0
  then show ?case using buf assms(5) by simp
next
  case (Suc n)
  then obtain w1 where w1: "for_each (shift_row fts \<lparr>dev_writer = W, dev_move = m\<rparr>) [0..<n] (con, w)
      = Some (con\<lparr>con_buffer := map pad_line (take n (tl lines) @ drop n lines)\<rparr>, w1)" "room w1" by auto
  let ?ls = "take n (tl lines) @ drop n lines" and ?ls' = "take (Suc n) (tl lines) @ drop (Suc n) lines"
  let ?con = "con\<lparr>con_buffer := map pad_line ?ls\<rparr>" and ?con' = "con\<lparr>con_buffer := map pad_line ?ls'\<rparr>"
  have n: "n < length (tl lines)" "n < 24" "length (take n (tl lines)) = n" using Suc.prems assms(2) by simp_all
  have below: "?ls ! (n + 1) = tl lines ! n" using n assms(2) by (simp add: nth_append nth_tl)
  have upd: "?ls[n := tl lines ! n] = ?ls'"
    using n assms(2) by (simp add: list_update_append take_Suc_conv_app_nth Cons_nth_drop_Suc [of n lines, symmetric])
  have len: "length ?ls = 25" "length ?ls' = 25" using n assms(2) by simp_all
  have at: "?ls' ! n = tl lines ! n" using n by (simp add: nth_append)
  have mem: "tl lines ! n \<in> set lines" using n(1) by (metis list.set_sel(2) nth_mem tl_Nil length_0_conv less_nat_zero_code)
  have "\<exists>w'. write_row fts \<lparr>dev_writer = W, dev_move = m\<rparr> n ?con' w1 = Some w' \<and> room w'"
  proof (rule write_line_room [OF w1(2) assms(1)])
    show "n < 25" using n(2) by simp
    show "length (tl lines ! n) \<le> 79" "\<forall>c \<in> set (tl lines ! n). c \<noteq> 0 \<and> c < 0x80" using lines mem by blast+
    have cb: "con_buffer ?con' = map pad_line ?ls'" by simp
    have "map pad_line ?ls' ! n = pad_line (?ls' ! n)" by (rule nth_map) (use len(2) n(2) in linarith)
    then show "con_buffer ?con' ! n = pad_line (tl lines ! n)" unfolding cb at .
    show "length (con_buffer ?con') = 25" unfolding cb length_map by (rule len(2))
  qed
  then obtain w2 where w2: "write_row fts \<lparr>dev_writer = W, dev_move = m\<rparr> n ?con' w1 = Some w2" "room w2" by blast
  have "(map pad_line ?ls)[n := pad_line (?ls ! (n + 1))] = map pad_line ?ls'"
    unfolding below by (simp only: map_update [symmetric] upd)
  moreover have "arr_get (map pad_line ?ls) (n + 1) = Some (pad_line (?ls ! (n + 1)))"
    "n < length (map pad_line ?ls)" using len n by (simp_all only: arr_get_def length_map nth_map) auto
  ultimately have "shift_row fts \<lparr>dev_writer = W, dev_move = m\<rparr> n (?con, w1) = Some (?con', w2)"
    using w2(1) unfolding shift_row_def by (simp only: prod.case Console.simps arr_set_def if_True Option.bind.simps Let_def) simp
  with w1(1) w2(2) show ?case by simp
qed

lemma scroll_room:
  assumes "room w"
  shows "\<exists>w'. (case mv of
      Some mv \<Rightarrow> do {
        w \<leftarrow> mv (Vec 0 0) (Rect (Vec 0 16) (Vec (8 * int kColumns) (16 * (int kRows - 1)))) w;
        FillRectangle W (Vec 0 (16 * (int kRows - 1))) (Vec (8 * int kColumns) 16) bg w }
    | None \<Rightarrow> FillRectangle W (Vec 0 0) (Vec (8 * int kColumns) (16 * int kRows)) bg w) = Some w' \<and> room w'"
proof (cases mv)
  case None
  with fill_room [OF assms, of "Vec 0 0" "Vec 640 400" bg] show ?thesis by (simp add: kColumns_def kRows_def)
next
  case (Some f)
  from scroll [OF Some, of w] assms obtain w1 where w1: "f (Vec 0 0) (Rect (Vec 0 16) (Vec 640 384)) w = Some w1" "room w1"
    by (auto simp: room_def)
  with fill_room [OF w1(2), of "Vec 0 384" "Vec 640 16" bg] Some show ?thesis by (simp add: kColumns_def kRows_def)
qed

lemma NewLine_shows:
  assumes "room w" "2048 \<le> length (hankaku fts)" and s: "shows_lines lines con"
  shows "\<exists>con' w'. NewLine fts \<lparr>dev_writer = W, dev_move = mv\<rparr> (con, w) = Some (con', w') \<and> room w'
    \<and> shows_lines (feed 10 lines) con'"
proof (cases "length lines < 25")
  case True
  let ?con = "con\<lparr>cursor_column := 0, cursor_row := length lines\<rparr>"
  have l: "1 \<le> length lines" "cursor_row con = length lines - 1" using s by (auto simp: shows_lines_def Suc_le_eq)
  have "NewLine fts \<lparr>dev_writer = W, dev_move = mv\<rparr> (con, w) = Some (?con, w)"
  proof -
    have "length lines - 1 < 24" "length lines - 1 + 1 = length lines" using l(1) True by linarith+
    then show ?thesis using l(2) by (simp add: NewLine_def kRows_def Let_def)
  qed
  moreover have "replicate (25 - length lines) (replicate 81 (0 :: u8)) = pad_line [] # replicate (25 - Suc (length lines)) (replicate 81 0)"
    using True by (simp add: pad_line_def Suc_diff_le [symmetric] replicate_Suc [symmetric] Suc_diff_Suc del: replicate.simps)
  then have "shows_lines (feed 10 lines) ?con"
    using s True by (auto simp: shows_lines_def feed_def)
  ultimately show ?thesis using assms(1) by blast
next
  case False
  then have len: "length lines = 25" using s by (simp add: shows_lines_def)
  have row: "cursor_row con = 24" and buf: "con_buffer con = map pad_line lines"
    and lines: "\<forall>line \<in> set lines. length line \<le> 79 \<and> (\<forall>c \<in> set line. c \<noteq> 0 \<and> c < 0x80)"
    using s len by (simp_all add: shows_lines_def)
  let ?con = "con\<lparr>cursor_column := 0\<rparr>"
  from scroll_room [OF assms(1), of "con_bg con"] obtain w1 where w1: "(case mv of
      Some mv \<Rightarrow> do {
        w \<leftarrow> mv (Vec 0 0) (Rect (Vec 0 16) (Vec (8 * int kColumns) (16 * (int kRows - 1)))) w;
        FillRectangle W (Vec 0 (16 * (int kRows - 1))) (Vec (8 * int kColumns) 16) (con_bg con) w }
    | None \<Rightarrow> FillRectangle W (Vec 0 0) (Vec (8 * int kColumns) (16 * int kRows)) (con_bg con) w) = Some w1" "room w1"
    by blast
  have "con_buffer ?con = map pad_line lines" using buf by simp
  from shift_rows [OF assms(2) len lines this w1(2), of 24 mv] obtain w2 where
    w2: "for_each (shift_row fts \<lparr>dev_writer = W, dev_move = mv\<rparr>) [0..<24] (?con, w1)
      = Some (?con\<lparr>con_buffer := map pad_line (take 24 (tl lines) @ drop 24 lines)\<rparr>, w2)" "room w2" by auto
  have "drop 24 lines = lines ! 24 # drop (Suc 24) lines" using len by (simp only: Cons_nth_drop_Suc)
  then obtain lst where d: "drop 24 lines = [lst]" using len by simp
  have t: "take 24 (tl lines) = tl lines" using len by simp
  let ?con' = "?con\<lparr>con_buffer := map pad_line (tl lines) @ [replicate 81 0]\<rparr>"
  have "NewLine fts \<lparr>dev_writer = W, dev_move = mv\<rparr> (con, w) = Some (?con', w2)"
    using w1(1) w2(1) row len unfolding NewLine_def d t
    by (simp add: Let_def kRows_def kColumns_def list_update_append cong: option.case_cong del: replicate.simps upt.simps)
  moreover have "shows_lines (feed 10 lines) ?con'"
  proof -
    have "\<forall>line \<in> set (tl lines). length line \<le> 79 \<and> (\<forall>c \<in> set line. c \<noteq> 0 \<and> c < 0x80)"
      using lines by (cases lines) auto
    then show ?thesis using len row by (simp add: shows_lines_def feed_def pad_line_def del: replicate.simps)
  qed
  ultimately show ?thesis using w2(2) by blast
qed

lemma put_char_shows:
  assumes "room w" "2048 \<le> length (hankaku fts)" and s: "shows_lines lines con" and c: "c \<noteq> 0" "c < 0x80"
  shows "\<exists>con' w'. put_char fts \<lparr>dev_writer = W, dev_move = mv\<rparr> c (con, w) = Some (con', w') \<and> room w'
    \<and> shows_lines (feed c lines) con'"
proof -
  consider "c = 10" | "c \<noteq> 10" "length (last lines) < 79" | "c \<noteq> 10" "\<not> length (last lines) < 79" by blast
  then show ?thesis
  proof cases
    case 1
    with NewLine_shows [OF assms(1-3)] show ?thesis by (simp add: put_char_def)
  next
    case 3
    with s assms(1) show ?thesis by (simp add: put_char_def feed_def shows_lines_def kColumns_def)
  next
    case 2
    let ?n = "length (last lines)" and ?row = "length lines - 1"
    have l: "lines \<noteq> []" "length lines \<le> 25" "cursor_row con = ?row" "cursor_column con = ?n"
      and lines: "\<forall>line \<in> set lines. length line \<le> 79 \<and> (\<forall>c \<in> set line. c \<noteq> 0 \<and> c < 0x80)"
      and buf: "con_buffer con = map pad_line lines @ replicate (25 - length lines) (replicate 81 0)"
      using s by (simp_all add: shows_lines_def)
    have r: "?row < length lines" "lines ! ?row = last lines" using l(1) by (simp_all add: last_conv_nth)
    have "\<forall>q. in_rect (Rect (Vec (8 * int ?n) (16 * int ?row)) (Vec 8 16)) q \<longrightarrow> in_picture W w q"
      using 2(2) l(1,2) by (intro room_rect [OF assms(1)]) auto
    with WriteAscii_in [of w c "hankaku fts" "Vec (8 * int ?n) (16 * int ?row)" "con_fg con"] assms(1,2) c(2)
    obtain w' where w': "WriteAscii (hankaku fts) W (Vec (8 * int ?n) (16 * int ?row)) c (con_fg con) w = Some w'" "room w'"
      by (auto simp: room_def)
    have line: "con_buffer con ! ?row = pad_line (last lines)" using buf r by (simp add: nth_append)
    have upd: "(pad_line (last lines))[?n := c] = pad_line (last lines @ [c])"
    proof -
      have "replicate (81 - ?n) (0 :: u8) = 0 # replicate (81 - Suc ?n) 0"
        using 2(2) by (simp add: Suc_diff_Suc [symmetric] flip: replicate_Suc)
      then show ?thesis by (simp add: pad_line_def)
    qed
    have row: "lines = butlast lines @ [last lines]" "?row = length (butlast lines)" using l(1) by simp_all
    have all: "(con_buffer con)[?row := pad_line (last lines @ [c])]
        = map pad_line (butlast lines @ [last lines @ [c]]) @ replicate (25 - length lines) (replicate 81 0)"
      unfolding buf by (subst row(1), subst row(2)) (simp add: list_update_append del: append_butlast_last_id)
    let ?con = "con\<lparr>con_buffer := (con_buffer con)[?row := pad_line (last lines @ [c])], cursor_column := ?n + 1\<rparr>"
    have "put_char fts \<lparr>dev_writer = W, dev_move = mv\<rparr> c (con, w) = Some (?con, w')"
    proof -
      have wa: "WriteAscii (hankaku fts) W (Vec (8 * int (cursor_column con)) (16 * int (cursor_row con))) c (con_fg con) w
          = Some w'" unfolding l(3,4) by (rule w'(1))
      have "cursor_row con < length (con_buffer con)" unfolding l(3) buf using r(1) by simp
      moreover have "con_buffer con ! cursor_row con = pad_line (last lines)" unfolding l(3) by (rule line)
      moreover have "cursor_column con < length (pad_line (last lines))" "cursor_column con < 79"
        unfolding l(4) using 2(2) length_pad [of "last lines"] by simp_all
      moreover have "(pad_line (last lines))[cursor_column con := c] = pad_line (last lines @ [c])"
        unfolding l(4) by (rule upd)
      ultimately have "put_char fts \<lparr>dev_writer = W, dev_move = mv\<rparr> c (con, w)
          = Some (con\<lparr>con_buffer := (con_buffer con)[cursor_row con := pad_line (last lines @ [c])],
                      cursor_column := cursor_column con + 1\<rparr>, w')"
        using 2(1) wa by (simp add: put_char_def kColumns_def)
      then show ?thesis unfolding l(3,4) .
    qed
    moreover have "shows_lines (feed c lines) ?con"
      using 2 l c lines unfolding shows_lines_def all Console.simps feed_def
      by (auto dest: in_set_butlastD)
    ultimately show ?thesis using w'(2) by blast
  qed
qed

lemma put_string_shows:
  "room w \<Longrightarrow> 2048 \<le> length (hankaku fts) \<Longrightarrow> shows_lines lines con \<Longrightarrow> \<forall>c \<in> set s. c \<noteq> 0 \<and> c < 0x80 \<Longrightarrow>
   \<exists>con' w'. for_each (put_char fts \<lparr>dev_writer = W, dev_move = mv\<rparr>) s (con, w) = Some (con', w') \<and> room w'
     \<and> shows_lines (fold feed s lines) con'"
proof (induction s arbitrary: w con lines)
  case Nil
  then show ?case by simp
next
  case (Cons c s)
  from put_char_shows [OF Cons.prems(1-3), of c] Cons.prems(4) obtain con1 w1 where
    1: "put_char fts \<lparr>dev_writer = W, dev_move = mv\<rparr> c (con, w) = Some (con1, w1)" "room w1" "shows_lines (feed c lines) con1"
    by auto
  from Cons.IH [OF 1(2) Cons.prems(2) 1(3)] Cons.prems(4) 1(1) show ?case by simp
qed

end

section \<open>The two devices\<close>

interpretation con_screen: console_canvas Writer fb_ok None
  by unfold_locales simp

interpretation con_win: console_canvas WindowWriter win_ok "Some win_Move"
proof
  fix w q c
  assume "win_ok w" "in_picture WindowWriter w q"
  with win_write_in [of w q c] show "\<exists>w'. pw_Write WindowWriter q c w = Some w' \<and> win_ok w'
      \<and> pw_Width WindowWriter w' = pw_Width WindowWriter w \<and> pw_Height WindowWriter w' = pw_Height WindowWriter w
      \<and> (\<forall>p. in_picture WindowWriter w p \<longrightarrow>
            pw_GetPixel WindowWriter p w' = (if p = q then Some c else pw_GetPixel WindowWriter p w))"
    unfolding in_picture_win by (auto simp: WindowWriter_def)
next
  fix f w
  assume f: "Some win_Move = Some f" and w: "win_ok w" "640 \<le> pw_Width WindowWriter w" "400 \<le> pw_Height WindowWriter w"
  from w have fb: "fb_ok (shadow_buffer w)" "640 \<le> uint (horizontal_resolution (shadow_buffer w))"
    "400 \<le> uint (vertical_resolution (shadow_buffer w))" by (auto simp: win_ok_def WindowWriter_def)
  from Move_up_spec [OF fb(1), of "Vec 0 0" "Rect (Vec 0 16) (Vec 640 384)"] fb(2,3) obtain fb' where
    fb': "Frame_Buffer.Move (Vec 0 0) (Rect (Vec 0 16) (Vec 640 384)) (shadow_buffer w) = Some fb'" "fb_ok fb'"
      "fb' = (shadow_buffer w)\<lparr>frame_buffer := Some (fb_mem fb')\<rparr>" by auto
  have "horizontal_resolution fb' = horizontal_resolution (shadow_buffer w)"
    "vertical_resolution fb' = vertical_resolution (shadow_buffer w)" by (subst fb'(3), simp)+
  with fb'(1,2) w f show "\<exists>w'. f (Vec 0 0) (Rect (Vec 0 16) (Vec 640 384)) w = Some w' \<and> win_ok w'
      \<and> pw_Width WindowWriter w' = pw_Width WindowWriter w \<and> pw_Height WindowWriter w' = pw_Height WindowWriter w"
    by (auto simp: win_Move_def win_ok_def WindowWriter_def)
qed

definition con_window :: "Window device" where
  "con_window = \<lparr>dev_writer = WindowWriter, dev_move = Some win_Move\<rparr>"

text \<open>
  On a window with room for the 25 lines, as long as there is no layer manager that draws it, printing ASCII text
  refines the abstract console: it
  returns, and the buffer then holds the lines that result from feeding the text character by
  character, each line cut at 79 characters and only the last 25 kept.
\<close>

theorem PutString_refines_feed:
  assumes "win_ok w" "640 \<le> win_width w" "400 \<le> win_height w" "2048 \<le> length (hankaku fts)"
    and "shows_lines lines con" "\<forall>c \<in> set s. c \<noteq> 0 \<and> c < 0x80"
  shows "\<exists>con' w'. PutString fts con_window None s (con, w) = Some (con', w') \<and> win_ok w'
    \<and> shows_lines (fold feed s lines) con'"
proof -
  have "con_win.room w" unfolding con_win.room_def using assms(1-3) by (simp add: WindowWriter_def)
  from con_win.put_string_shows [OF this assms(4-6)] show ?thesis
    unfolding con_win.room_def by (auto simp: PutString_def con_window_def)
qed

theorem PutString_refines_feed_witness:
  "\<exists>w con' w'. Window_init 640 400 kPixelBGRResv8BitPerColor = Some w
     \<and> PutString blank_fonts con_window None [72, 105, 10, 33] (Console_init kDesktopFGColor kDesktopBGColor, w) = Some (con', w')
     \<and> shows_lines [[72, 105], [33]] con'"
proof -
  from Window_init_good [of 640 400 kPixelBGRResv8BitPerColor] obtain w where
    w: "Window_init 640 400 kPixelBGRResv8BitPerColor = Some w" "win_ok w" "win_width w = 640" "win_height w = 400"
    by (auto simp: win_good_def)
  have f: "fold feed [72, 105, 10, 33] [[]] = [[72, 105], [33]]" by (simp add: feed_def)
  have "2048 \<le> length (hankaku blank_fonts)" by (simp add: blank_fonts_def del: replicate.simps)
  from PutString_refines_feed [OF w(2) _ _ this shows_init [of kDesktopFGColor kDesktopBGColor], of "[72, 105, 10, 33]"] w
  show ?thesis unfolding f by auto
qed

end
