(* ===== verification/Usb_Memory.thy ===== *)
theory Usb_Memory imports KError begin

text \<open>
  What the USB stack builds on: the bump allocator of \<^verbatim>\<open>kernel/usb/memory.cpp\<close>, which hands out the
  memory the host controller reads and writes, and the fixed-size associative array of
  \<^verbatim>\<open>kernel/usb/arraymap.hpp\<close>.

  The address of the static array \<^verbatim>\<open>memory_pool\<close> is a parameter (\<open>pool_base\<close>); its size is the
  source's.  The locale \<open>small_map\<close> is the contract of an associative array and is interpreted on
  \<open>ArrayMap\<close>.
\<close>

section \<open>The allocator\<close>

definition kMemoryPollSize :: u64 where
  "kMemoryPollSize = 4096 * 32"

text \<open>\<^verbatim>\<open>alignment - 1\<close> is computed in 32 bits and then widened.\<close>

definition Align :: "u64 \<Rightarrow> u32 \<Rightarrow> u64" where
  "Align value alignment = (value + ucast alignment - 1) AND NOT (ucast (alignment - 1))"

record UsbPool =
  pool_base :: u64
  alloc_ptr :: u64

text \<open>A null pointer is \<open>0\<close>.  The pointer stays moved to the alignment when the pool is exhausted.\<close>

definition AllocMem :: "u64 \<Rightarrow> u32 \<Rightarrow> u32 \<Rightarrow> UsbPool \<Rightarrow> u64 \<times> UsbPool" where
  "AllocMem bytes alignment boundary p =
     (let a0 = (if alignment > 0 then Align (alloc_ptr p) alignment else alloc_ptr p);
          next_boundary = Align a0 boundary;
          a = (if boundary > 0 \<and> a0 + bytes > next_boundary then next_boundary else a0)
      in if a + bytes > pool_base p + kMemoryPollSize then (0, p\<lparr>alloc_ptr := a\<rparr>)
         else (a, p\<lparr>alloc_ptr := a + bytes\<rparr>))"

definition FreeMem :: "u64 \<Rightarrow> UsbPool \<Rightarrow> UsbPool" where
  "FreeMem ptr p = p"

text \<open>
  \<^verbatim>\<open>AllocArray<T>(count, alignment, boundary)\<close> without its \<^verbatim>\<open>memset\<close>, which the memory that holds the
  array performs; \<open>esize\<close> is \<^verbatim>\<open>sizeof(T)\<close>.
\<close>

definition AllocArray :: "u64 \<Rightarrow> u64 \<Rightarrow> u32 \<Rightarrow> u32 \<Rightarrow> UsbPool \<Rightarrow> u64 \<times> UsbPool" where
  "AllocArray esize count alignment boundary p = AllocMem (esize * count) alignment boundary p"

subsection \<open>Alignment\<close>

lemma unat_pow2_small:
  assumes "a < 64"
  shows "unat ((2 :: u64) ^ a) = 2 ^ a"
proof -
  have "(2 :: nat) ^ a < 2 ^ 64" using assms by (rule power_strict_increasing) simp
  then have "take_bit 64 ((2 :: nat) ^ a) = 2 ^ a" by (rule take_bit_nat_eq_self)
  then have "unat (of_nat (2 ^ a) :: u64) = 2 ^ a" by (simp only: unsigned_of_nat) simp
  then show ?thesis by simp
qed

lemma Align_pow2:
  assumes "a < 32" and "unat v + 2 ^ a < 2 ^ 64"
  shows "unat (Align v (2 ^ a)) = (unat v + 2 ^ a - 1) div 2 ^ a * 2 ^ a"
proof -
  have p: "(ucast (2 ^ a :: u32) :: u64) = 2 ^ a"
    using assms(1) by (intro bit_word_eqI) (auto simp: bit_simps)
  have m: "(ucast ((2 :: u32) ^ a - 1) :: u64) = mask a"
    using assms(1) by (intro bit_word_eqI) (auto simp: bit_simps mask_eq_exp_minus_1 [symmetric])
  have s: "unat (v + 2 ^ a - 1) = unat v + 2 ^ a - 1"
  proof -
    have u: "unat ((2 :: u64) ^ a) = 2 ^ a" using assms(1) by (intro unat_pow2_small) simp
    have "unat (v + 2 ^ a) = unat v + 2 ^ a"
      using assms(2) u by (subst unat_add_lem [THEN iffD1]) auto
    moreover have "(1 :: u64) \<le> v + 2 ^ a" using calculation by (simp add: word_le_nat_alt trans_le_add2)
    ultimately show ?thesis by (simp add: unat_sub)
  qed
  show ?thesis by (simp add: Align_def p m s unat_and_not_mask)
qed

text \<open>The least multiple of \<open>n\<close> that is not below \<open>v\<close>.\<close>

definition round_up :: "nat \<Rightarrow> nat \<Rightarrow> nat" where
  "round_up v n = (v + n - 1) div n * n"

lemma round_up_spec:
  assumes "0 < n"
  shows "v \<le> round_up v n" and "round_up v n < v + n" and "n dvd round_up v n"
    and "n dvd m \<Longrightarrow> v \<le> m \<Longrightarrow> round_up v n \<le> m"
proof -
  have e: "round_up v n + (v + n - 1) mod n = v + n - 1" by (simp add: round_up_def)
  have m: "(v + n - 1) mod n \<le> n - 1" using assms mod_less_divisor [of n "v + n - 1"] by linarith
  show "v \<le> round_up v n" "round_up v n < v + n" using e m assms by linarith+
  show "n dvd round_up v n" by (simp add: round_up_def)
  assume "n dvd m" "v \<le> m"
  then obtain k where k: "m = k * n" by (metis dvd_def mult.commute)
  then have "v + n - 1 < (k + 1) * n" using \<open>v \<le> m\<close> assms by (simp add: algebra_simps)
  then have "(v + n - 1) div n \<le> k" by (metis less_mult_imp_div_less less_Suc_eq_le Suc_eq_plus1)
  then show "round_up v n \<le> m" using k by (simp add: round_up_def)
qed

lemma round_up_self: "n dvd v \<Longrightarrow> 0 < n \<Longrightarrow> round_up v n = v"
  by (meson dual_order.antisym order_refl round_up_spec(1,4))

lemma dvd_round_up:
  assumes "m dvd v" and "m dvd n" and "0 < n"
  shows "m dvd round_up v n"
  using assms(2) round_up_spec(3) [OF assms(3), of v] by (rule dvd_trans)

lemma same_block:
  assumes "(x + s) \<le> round_up x n \<or> n dvd x \<and> s \<le> n" and "0 < s" and "0 < n"
  shows "(x + s - 1) div n = x div n"
proof -
  obtain q where q: "x = q * n + x mod n" by (metis div_mult_mod_eq mult.commute)
  have "x mod n + s \<le> n"
  proof (cases "n dvd x")
    case True
    then show ?thesis using assms round_up_self [OF True assms(3)] by auto
  next
    case False
    have "round_up x n \<le> (x div n + 1) * n"
      using assms(3) by (intro round_up_spec(4)) (auto simp: dividend_less_div_times less_imp_le)
    moreover have "x div n * n + x mod n = x" by simp
    moreover have "x + s \<le> round_up x n" using assms(1) False by blast
    ultimately have "x + s \<le> x div n * n + n" by simp
    moreover have "x = x div n * n + x mod n" by simp
    ultimately show ?thesis by linarith
  qed
  then have "x mod n + s - 1 < n" using assms(2) by linarith
  moreover have "x + s - 1 = x div n * n + (x mod n + s - 1)" using assms(2) by simp
  ultimately show ?thesis by (metis div_mult_self3 div_less add.right_neutral assms(3) less_irrefl)
qed

subsection \<open>What an allocation guarantees\<close>

definition pool_end :: "UsbPool \<Rightarrow> nat" where
  "pool_end p = unat (pool_base p) + 4096 * 32"

text \<open>
  The allocation pointer can leave the pool, by the rounding of a request that is then refused, but
  it cannot pass the next multiple of the largest alignment a caller can name.
\<close>

definition pool_ok :: "UsbPool \<Rightarrow> bool" where
  "pool_ok p \<longleftrightarrow> 0 < unat (pool_base p) \<and> unat (pool_base p) \<le> unat (alloc_ptr p)
     \<and> unat (alloc_ptr p) \<le> round_up (pool_end p) (2 ^ 31)
     \<and> round_up (pool_end p) (2 ^ 31) + 2 ^ 33 \<le> 2 ^ 64"

lemma Align_round_up:
  assumes "a < 32" and "unat v \<le> m" and "2 ^ 31 dvd m" and "m + 2 ^ 33 \<le> 2 ^ 64"
  shows "unat (Align v (2 ^ a)) = round_up (unat v) (2 ^ a)" and "unat (Align v (2 ^ a)) \<le> m"
proof -
  have "(2 :: nat) ^ a \<le> 2 ^ 31" using assms(1) by (intro power_increasing) auto
  then have "unat v + 2 ^ a < 2 ^ 64" using assms(2,4) by simp
  from Align_pow2 [OF assms(1) this] show e: "unat (Align v (2 ^ a)) = round_up (unat v) (2 ^ a)"
    by (simp add: round_up_def)
  have "(2 :: nat) ^ a dvd 2 ^ 31" using assms(1) by (intro le_imp_power_dvd) simp
  then have "2 ^ a dvd m" using assms(3) dvd_trans by blast
  then show "unat (Align v (2 ^ a)) \<le> m" unfolding e by (intro round_up_spec(4) assms(2)) simp_all
qed

text \<open>A request: the size, and the exponents of the alignment and of the boundary, if there are any.\<close>

fun pow2 :: "nat option \<Rightarrow> u32" where
  "pow2 None = 0"
| "pow2 (Some k) = 2 ^ k"

definition req_ok :: "u64 \<Rightarrow> nat option \<Rightarrow> nat option \<Rightarrow> bool" where
  "req_ok n ao bo \<longleftrightarrow> (case ao of None \<Rightarrow> True | Some a \<Rightarrow> a < 32) \<and>
     (case bo of None \<Rightarrow> unat n \<le> 2 ^ 32
      | Some b \<Rightarrow> b < 32 \<and> unat n \<le> 2 ^ b \<and> (case ao of None \<Rightarrow> True | Some a \<Rightarrow> a \<le> b))"

definition block_ok :: "u64 \<Rightarrow> nat option \<Rightarrow> nat option \<Rightarrow> u64 \<Rightarrow> bool" where
  "block_ok n ao bo r \<longleftrightarrow> (\<forall>a. ao = Some a \<longrightarrow> 2 ^ a dvd unat r) \<and>
     (\<forall>b. bo = Some b \<longrightarrow> 0 < n \<longrightarrow> (unat r + unat n - 1) div 2 ^ b = unat r div 2 ^ b)"

lemma AllocMem_spec:
  assumes "pool_ok p" and "req_ok n ao bo" and "AllocMem n (pow2 ao) (pow2 bo) p = (r, p')"
  shows "pool_ok p' \<and> pool_base p' = pool_base p \<and> unat (alloc_ptr p) \<le> unat (alloc_ptr p')
    \<and> (r \<noteq> 0 \<longrightarrow> unat (alloc_ptr p) \<le> unat r \<and> unat r + unat n = unat (alloc_ptr p')
        \<and> unat r + unat n \<le> pool_end p \<and> block_ok n ao bo r)"
proof -
  let ?m = "round_up (pool_end p) (2 ^ 31)"
  have m: "2 ^ 31 dvd ?m" "pool_end p \<le> ?m" "?m + 2 ^ 33 \<le> 2 ^ 64"
    using assms(1) round_up_spec(1,3) [of "2 ^ 31" "pool_end p"] by (auto simp: pool_ok_def)
  have nz: "(0 :: u32) < 2 ^ k" if "k < 32" for k
    using that by (simp add: word_greater_zero_iff exp_eq_zero_iff)
  have n32: "unat n \<le> 2 ^ 32"
  proof (cases bo)
    case (Some b)
    then have b: "unat n \<le> 2 ^ b" "b \<le> 32" using assms(2) by (auto simp: req_ok_def)
    have "(2 :: nat) ^ b \<le> 2 ^ 32" using b(2) by (rule power_increasing) simp
    with b(1) show ?thesis by (rule le_trans)
  qed (use assms(2) in \<open>simp add: req_ok_def\<close>)
  define x where "x = (if pow2 ao > 0 then Align (alloc_ptr p) (pow2 ao) else alloc_ptr p)"
  define y where "y = Align x (pow2 bo)"
  define z where "z = (if pow2 bo > 0 \<and> x + n > y then y else x)"
  have pm: "unat (alloc_ptr p) \<le> ?m" using assms(1) by (simp add: pool_ok_def)
  have x: "unat (alloc_ptr p) \<le> unat x" "unat x \<le> ?m" "\<And>a. ao = Some a \<Longrightarrow> 2 ^ a dvd unat x"
  proof -
    have S: "unat x = round_up (unat (alloc_ptr p)) (2 ^ a) \<and> unat x \<le> ?m" if "ao = Some a" for a
      using Align_round_up [OF _ pm m(1,3), of a] that assms(2) nz
      by (auto simp: x_def req_ok_def split: option.splits)
    show "unat (alloc_ptr p) \<le> unat x" "unat x \<le> ?m"
      using S pm round_up_spec(1) by (cases ao; force simp: x_def)+
    show "2 ^ a dvd unat x" if "ao = Some a" for a using S [OF that] round_up_spec(3) by auto
  qed
  have add: "unat (w + n) = unat w + unat n" if "unat w \<le> ?m" for w
    using that m(3) n32 by (subst unat_add_lem [THEN iffD1]) auto
  have z: "unat (alloc_ptr p) \<le> unat z" "unat z \<le> ?m" "block_ok n ao bo z"
  proof -
    have "unat x \<le> unat z \<and> unat z \<le> ?m \<and> block_ok n ao bo z"
    proof (cases bo)
      case None
      then show ?thesis using x by (simp add: z_def block_ok_def)
    next
      case (Some b)
      then have b: "b < 32" "unat n \<le> 2 ^ b" "\<And>a. ao = Some a \<Longrightarrow> a \<le> b"
        using assms(2) by (auto simp: req_ok_def)
      have y: "unat y = round_up (unat x) (2 ^ b)" "unat y \<le> ?m"
        using Align_round_up [OF b(1) x(2) m(1,3)] Some unfolding y_def by simp_all
      then have xy: "unat x \<le> unat y" "2 ^ b dvd unat y" using round_up_spec by auto
      have "2 ^ a dvd unat y" if "ao = Some a" for a
        using le_imp_power_dvd [OF b(3) [OF that]] xy(2) dvd_trans by blast
      moreover have "(unat z + unat n - 1) div 2 ^ b = unat z div 2 ^ b" if "0 < unat n"
      proof (cases "x + n > y")
        case True
        then show ?thesis using xy(2) b nz that Some by (intro same_block) (auto simp: z_def)
      next
        case False
        then have "unat x + unat n \<le> round_up (unat x) (2 ^ b)"
          using add [OF x(2)] y(1) by (simp add: word_less_nat_alt)
        then show ?thesis using False that by (intro same_block) (auto simp: z_def)
      qed
      ultimately show ?thesis
        using x xy y(2) Some by (auto simp: z_def block_ok_def word_less_nat_alt)
    qed
    with x(1) show "unat (alloc_ptr p) \<le> unat z" "unat z \<le> ?m" "block_ok n ao bo z" by auto
  qed
  have e: "unat (pool_base p + kMemoryPollSize) = pool_end p"
    using m by (subst unat_add_lem [THEN iffD1]) (auto simp: kMemoryPollSize_def pool_end_def)
  have A: "AllocMem n (pow2 ao) (pow2 bo) p = (if z + n > pool_base p + kMemoryPollSize then (0, p\<lparr>alloc_ptr := z\<rparr>)
      else (z, p\<lparr>alloc_ptr := z + n\<rparr>))"
    by (simp add: AllocMem_def Let_def x_def y_def z_def)
  show ?thesis
  proof (cases "z + n > pool_base p + kMemoryPollSize")
    case True
    then have "r = 0" "p' = p\<lparr>alloc_ptr := z\<rparr>" using A assms(3) by auto
    then show ?thesis using assms(1) z by (simp add: pool_ok_def pool_end_def word_le_nat_alt)
  next
    case False
    then have rp: "r = z" "p' = p\<lparr>alloc_ptr := z + n\<rparr>" using A assms(3) by auto
    have "unat z + unat n \<le> pool_end p" using False add [OF z(2)] e by (simp add: word_less_nat_alt)
    then show ?thesis using assms(1) rp z add [OF z(2)] m(2)
      by (auto simp: pool_ok_def pool_end_def word_le_nat_alt word_less_nat_alt)
  qed
qed

text \<open>A sequence of allocations; the blocks handed out with their requests, oldest first.\<close>

type_synonym request = "u64 \<times> nat option \<times> nat option"

fun alloc_all :: "request list \<Rightarrow> UsbPool \<Rightarrow> (u64 \<times> request) list" where
  "alloc_all [] p = []"
| "alloc_all ((n, ao, bo) # rs) p = (case AllocMem n (pow2 ao) (pow2 bo) p of (r, p') \<Rightarrow>
     (if r = 0 then [] else [(r, n, ao, bo)]) @ alloc_all rs p')"

definition ends_before :: "u64 \<times> request \<Rightarrow> u64 \<times> request \<Rightarrow> bool" where
  "ends_before x y \<longleftrightarrow> unat (fst x) + unat (fst (snd x)) \<le> unat (fst y)"

text \<open>
  every block the USB allocator hands out lies inside the pool, does not overlap a block handed
  out before, has the requested alignment and does not cross the requested boundary, whatever
  sequence of requests preceded it, refused ones included, provided each block fits between two
  boundaries and its alignment is not larger than the boundary.
\<close>

theorem AllocMem_blocks_disjoint:
  assumes "pool_ok p" and "\<forall>(n, ao, bo) \<in> set rs. req_ok n ao bo"
  shows "sorted_wrt ends_before (alloc_all rs p)
    \<and> (\<forall>(r, n, ao, bo) \<in> set (alloc_all rs p). unat (alloc_ptr p) \<le> unat r
         \<and> unat r + unat n \<le> pool_end p \<and> block_ok n ao bo r)"
  using assms
proof (induction rs arbitrary: p)
  case (Cons q rs)
  obtain n ao bo r p' where q: "q = (n, ao, bo)" and A: "AllocMem n (pow2 ao) (pow2 bo) p = (r, p')"
    by (metis prod_cases3 surj_pair)
  have "req_ok n ao bo" using Cons.prems(2) q by auto
  note S = AllocMem_spec [OF Cons.prems(1) this A]
  have e: "pool_end p' = pool_end p" using S by (simp add: pool_end_def)
  have tail: "sorted_wrt ends_before (alloc_all rs p')
      \<and> (\<forall>(x, k, ao, bo) \<in> set (alloc_all rs p'). unat (alloc_ptr p') \<le> unat x
           \<and> unat x + unat k \<le> pool_end p \<and> block_ok k ao bo x)"
    using Cons.IH [of p'] S Cons.prems(2) q unfolding e by simp
  have low: "unat (alloc_ptr p) \<le> unat x" if "unat (alloc_ptr p') \<le> unat x" for x :: u64
    using S that by linarith
  show ?case
  proof (cases "r = 0")
    case True
    then have "alloc_all (q # rs) p = alloc_all rs p'" using q A by simp
    then show ?thesis using tail low by auto
  next
    case False
    then have L: "alloc_all (q # rs) p = (r, n, ao, bo) # alloc_all rs p'" using q A by simp
    have B: "unat r + unat n = unat (alloc_ptr p')" "unat (alloc_ptr p) \<le> unat r"
      "unat r + unat n \<le> pool_end p" "block_ok n ao bo r" using S False by auto
    have "ends_before (r, n, ao, bo) y" if "y \<in> set (alloc_all rs p')" for y
      using tail that B(1) by (auto simp: ends_before_def)
    then show ?thesis using tail low B unfolding L by auto
  qed
qed simp

definition pool_example :: UsbPool where
  "pool_example = \<lparr>pool_base = 0x1000, alloc_ptr = 0x1000\<rparr>"

lemma pool_example_ok: "pool_ok pool_example"
  by (simp add: pool_ok_def pool_example_def pool_end_def round_up_def)

theorem AllocMem_blocks_disjoint_witness:
  "alloc_all [(100, Some 6, Some 12), (4000, Some 6, Some 12)] pool_example
     = [(0x1000, 100, Some 6, Some 12), (0x2000, 4000, Some 6, Some 12)]
   \<and> block_ok 100 (Some 6) (Some 12) 0x1000 \<and> block_ok 4000 (Some 6) (Some 12) 0x2000"
proof -
  have e: "alloc_all [(100, Some 6, Some 12), (4000, Some 6, Some 12)] pool_example
     = [(0x1000, 100, Some 6, Some 12), (0x2000, 4000, Some 6, Some 12)]"
    by (simp add: AllocMem_def Align_def pool_example_def kMemoryPollSize_def)
  show ?thesis
    using AllocMem_blocks_disjoint [OF pool_example_ok,
      of "[(100, Some 6, Some 12), (4000, Some 6, Some 12)]"]
    unfolding e by (simp add: req_ok_def)
qed

section \<open>Small associative arrays\<close>

text \<open>
  The contract of an associative array of bounded size.  \<open>put\<close> is used on keys that are not in the
  map; when there is no room the array is left as it is, without an error.
\<close>

locale small_map =
  fixes inv :: "'m \<Rightarrow> bool" and lookup :: "'m \<Rightarrow> 'k \<Rightarrow> 'v option" and cap :: "'m \<Rightarrow> nat"
    and put :: "'k \<Rightarrow> 'v \<Rightarrow> 'm \<Rightarrow> 'm" and del :: "'k \<Rightarrow> 'm \<Rightarrow> 'm"
  assumes finite_dom: "inv m \<Longrightarrow> finite (dom (lookup m)) \<and> card (dom (lookup m)) \<le> cap m"
    and put_room: "inv m \<Longrightarrow> lookup m k = None \<Longrightarrow> card (dom (lookup m)) < cap m \<Longrightarrow>
      inv (put k v m) \<and> lookup (put k v m) = (lookup m)(k \<mapsto> v) \<and> cap (put k v m) = cap m"
    and put_full: "inv m \<Longrightarrow> card (dom (lookup m)) = cap m \<Longrightarrow> put k v m = m"
    and del_map: "inv m \<Longrightarrow> inv (del k m) \<and> lookup (del k m) = (lookup m)(k := None) \<and> cap (del k m) = cap m"
begin

text \<open>A request that is entered and answered leaves the map as it was.\<close>

lemma put_then_del:
  assumes "inv m" and "lookup m k = None" and "card (dom (lookup m)) < cap m"
  shows "lookup (put k v m) k = Some v \<and> lookup (del k (put k v m)) = lookup m"
  using put_room [OF assms] del_map [of "put k v m" k] assms(2) by (auto simp: fun_upd_idem)

lemma put_lost:
  assumes "inv m" and "lookup m k = None" and "card (dom (lookup m)) = cap m"
  shows "lookup (put k v m) k = None"
  using put_full [OF assms(1,3), of k v] assms(2) by simp

end

type_synonym ('k, 'v) ArrayMap = "('k option \<times> 'v) list"

fun Get :: "'k \<Rightarrow> ('k, 'v) ArrayMap \<Rightarrow> 'v option" where
  "Get k [] = None"
| "Get k ((ok, v) # m) = (if ok = Some k then Some v else Get k m)"

fun Put :: "'k \<Rightarrow> 'v \<Rightarrow> ('k, 'v) ArrayMap \<Rightarrow> ('k, 'v) ArrayMap" where
  "Put k v [] = []"
| "Put k v ((ok, w) # m) = (if ok = None then (Some k, v) # m else (ok, w) # Put k v m)"

fun Delete :: "'k \<Rightarrow> ('k, 'v) ArrayMap \<Rightarrow> ('k, 'v) ArrayMap" where
  "Delete k [] = []"
| "Delete k ((ok, w) # m) = (if ok = Some k then (None, w) # m else (ok, w) # Delete k m)"

text \<open>The keys in use are distinct; only \<open>Put\<close> of a key already present would break that.\<close>

definition used_keys :: "('k, 'v) ArrayMap \<Rightarrow> 'k list" where
  "used_keys m = concat (map (\<lambda>(ok, _). case ok of None \<Rightarrow> [] | Some k \<Rightarrow> [k]) m)"

definition arraymap_inv :: "('k, 'v) ArrayMap \<Rightarrow> bool" where
  "arraymap_inv m \<longleftrightarrow> distinct (used_keys m)"

lemma used_keys_simps [simp]:
  "used_keys [] = []" "used_keys ((None, v) # m) = used_keys m"
  "used_keys ((Some k, v) # m) = k # used_keys m"
  by (simp_all add: used_keys_def)

lemma Get_None: "Get k m = None \<longleftrightarrow> k \<notin> set (used_keys m)"
proof (induction k m rule: Get.induct)
  case (2 k ok v m)
  then show ?case by (cases ok) auto
qed simp

lemma dom_Get: "dom (\<lambda>k. Get k m) = set (used_keys m)"
  using Get_None [of _ m] by (auto simp: dom_def)

lemma used_keys_length: "length (used_keys m) \<le> length m"
  by (induction m) (auto simp: used_keys_def split: option.splits)

lemma Put_room:
  "length (used_keys m) < length m \<Longrightarrow> distinct (k # used_keys m) \<Longrightarrow>
     distinct (used_keys (Put k v m)) \<and> set (used_keys (Put k v m)) = insert k (set (used_keys m))
     \<and> Get k' (Put k v m) = (if k' = k then Some v else Get k' m)"
  by (induction k v m rule: Put.induct) (auto simp: Get_None split: option.splits)

lemma Put_full: "length (used_keys m) = length m \<Longrightarrow> Put k v m = m"
proof (induction k v m rule: Put.induct)
  case (2 k v ok w m)
  then show ?case using used_keys_length [of m] by (cases ok) auto
qed simp

lemma Delete_keys: "distinct (used_keys m) \<Longrightarrow> used_keys (Delete k m) = removeAll k (used_keys m)"
proof (induction k m rule: Delete.induct)
  case (2 k ok w m)
  then show ?case by (cases ok) (auto simp: removeAll_notin)
qed simp

lemma Get_Delete: "distinct (used_keys m) \<Longrightarrow> Get k' (Delete k m) = (if k' = k then None else Get k' m)"
proof (induction k m rule: Delete.induct)
  case (2 k ok w m)
  then show ?case by (cases ok) (auto simp: Get_None)
qed simp

lemma Put_length [simp]: "length (Put k v m) = length m"
  by (induction k v m rule: Put.induct) auto

lemma Delete_length [simp]: "length (Delete k m) = length m"
  by (induction k m rule: Delete.induct) auto

interpretation am: small_map arraymap_inv "\<lambda>m k. Get k m" length Put Delete
proof
  fix m :: "('k, 'v) ArrayMap" and k :: 'k and v :: 'v
  assume i: "arraymap_inv m"
  then have c: "card (dom (\<lambda>k. Get k m)) = length (used_keys m)"
    by (simp add: dom_Get arraymap_inv_def distinct_card)
  show "finite (dom (\<lambda>k. Get k m)) \<and> card (dom (\<lambda>k. Get k m)) \<le> length m"
    using c used_keys_length [of m] by (simp add: dom_Get)
  show "arraymap_inv (Delete k m) \<and> (\<lambda>k'. Get k' (Delete k m)) = (\<lambda>k. Get k m)(k := None)
      \<and> length (Delete k m) = length m"
    using i by (auto simp: arraymap_inv_def Delete_keys Get_Delete distinct_removeAll)
  show "card (dom (\<lambda>k. Get k m)) = length m \<Longrightarrow> Put k v m = m" using c by (simp add: Put_full)
  assume n: "Get k m = None" "card (dom (\<lambda>k. Get k m)) < length m"
  then have "length (used_keys m) < length m" "distinct (k # used_keys m)"
    using i c by (auto simp: Get_None arraymap_inv_def)
  note P = Put_room [OF this, of v]
  show "arraymap_inv (Put k v m) \<and> (\<lambda>k'. Get k' (Put k v m)) = (\<lambda>k. Get k m)(k \<mapsto> v)
      \<and> length (Put k v m) = length m"
    using P by (auto simp: arraymap_inv_def)
qed

end
