(* ===== verification/Bit_Fields.thy ===== *)
theory Bit_Fields imports Prelude begin

text \<open>
  Bit fields of packed registers and descriptors: the C++ bit-field members of the USB blocks, of
  the PCI capability headers and of the segment and gate descriptors are reads (\<open>field\<close>) and writes
  (\<open>set_field\<close>) of \<open>n\<close> bits from bit \<open>lo\<close> of the word that the union shares with them.
\<close>

definition field :: "nat \<Rightarrow> nat \<Rightarrow> 'a::len word \<Rightarrow> 'a word" where
  "field lo n w = take_bit n (drop_bit lo w)"

definition set_field :: "nat \<Rightarrow> nat \<Rightarrow> 'a::len word \<Rightarrow> 'a word \<Rightarrow> 'a word" where
  "set_field lo n v w = (w AND NOT (push_bit lo (mask n))) OR push_bit lo (take_bit n v)"

lemma field_set_field:
  fixes w v :: "'a::len word"
  assumes "lo + n \<le> LENGTH('a)"
  shows "field lo n (set_field lo n v w) = take_bit n v"
  using assms by (intro bit_word_eqI) (auto simp: field_def set_field_def bit_simps)

lemma field_set_field_other:
  fixes w v :: "'a::len word"
  assumes "lo' + n' \<le> lo \<or> lo + n \<le> lo'"
  shows "field lo' n' (set_field lo n v w) = field lo' n' w"
  using assms by (intro bit_word_eqI)
    (auto simp: field_def set_field_def bit_simps dest: bit_imp_le_length)

lemma bit_set_field_other:
  fixes w v :: "'a::len word"
  assumes "k < lo \<or> lo + n \<le> k"
  shows "bit (set_field lo n v w) k = bit w k"
  using assms by (auto simp: set_field_def bit_simps dest: bit_imp_le_length)

lemma field_zero: "field lo n 0 = 0"
  by (simp add: field_def)

end
