(* ===== verification/Usb_Ring.thy ===== *)
theory Usb_Ring imports Messages Usb_Memory Bit_Fields begin

text \<open>
  Transfer request blocks and the rings that hold them: \<^verbatim>\<open>kernel/usb/xhci/trb.hpp\<close>,
  \<^verbatim>\<open>kernel/usb/xhci/ring.hpp\<close> and \<^verbatim>\<open>ring.cpp\<close>.

  The memory that the rings occupy is a map from addresses to blocks, so that the pointers which the
  controller returns in its events can be followed.  A ring is a queue only together with its reader,
  the host controller, whose side of the protocol (the cycle bit, the link block) is \<open>hc_fetch\<close>; the
  pair is proved to satisfy the contract \<open>fifo\<close>.
\<close>

section \<open>Transfer request blocks\<close>

datatype TRB = TRB (dat0: u32) (dat1: u32) (dat2: u32) (dat3: u32)

definition cycle_bit :: "TRB \<Rightarrow> u8" where
  "cycle_bit t = ucast (field 0 1 (dat3 t))"

definition trb_type :: "TRB \<Rightarrow> u32" where
  "trb_type t = field 10 6 (dat3 t)"

text \<open>The type field of a block whose other control bits are \<open>flags\<close>.\<close>

definition control :: "u32 \<Rightarrow> u32 \<Rightarrow> u32" where
  "control ty flags = set_field 10 6 ty flags"

text \<open>The 64-bit field at the start of a block, and the one that drops the low four bits.\<close>

definition pointer64 :: "TRB \<Rightarrow> u64" where
  "pointer64 t = ucast (dat0 t) OR push_bit 32 (ucast (dat1 t))"

definition low32 :: "u64 \<Rightarrow> u32" where
  "low32 p = ucast p"

definition high32 :: "u64 \<Rightarrow> u32" where
  "high32 p = ucast (drop_bit 32 p)"

definition pointer60 :: "TRB \<Rightarrow> u64" where
  "pointer60 t = push_bit 4 (drop_bit 4 (pointer64 t))"

definition kLinkType :: u32 where "kLinkType = 6"

text \<open>A link block: bit 1 of the control word is \<^verbatim>\<open>toggle_cycle\<close>.\<close>

definition LinkTRB :: "u64 \<Rightarrow> TRB" where
  "LinkTRB p = TRB (set_field 4 28 (low32 (drop_bit 4 p)) 0) (high32 p) 0 (control kLinkType 0)"

definition set_toggle_cycle :: "TRB \<Rightarrow> TRB" where
  "set_toggle_cycle t = TRB (dat0 t) (dat1 t) (dat2 t) (set_field 1 1 1 (dat3 t))"

definition toggle_cycle :: "TRB \<Rightarrow> bool" where
  "toggle_cycle t \<longleftrightarrow> field 1 1 (dat3 t) = 1"

definition kNormalType :: u32 where "kNormalType = 1"

text \<open>As \<^verbatim>\<open>Device::InterruptIn\<close> fills it: interrupt on short packet (bit 2) and on completion (bit 5).\<close>

definition NormalTRB :: "u64 \<Rightarrow> u32 \<Rightarrow> TRB" where
  "NormalTRB buf len = TRB (low32 buf) (high32 buf) (set_field 0 17 len 0)
     (control kNormalType (set_field 5 1 1 (set_field 2 1 1 0)))"

definition trb_transfer_length :: "TRB \<Rightarrow> u32" where
  "trb_transfer_length t = field 0 17 (dat2 t)"

definition kSetupType :: u32 where "kSetupType = 2"
definition kNoDataStage :: u32 where "kNoDataStage = 0"
definition kInDataStage :: u32 where "kInDataStage = 3"

text \<open>The constructor sets immediate data (bit 6) and a transfer length of eight bytes.\<close>

definition SetupStageTRB :: "u8 \<Rightarrow> u8 \<Rightarrow> u16 \<Rightarrow> u16 \<Rightarrow> u16 \<Rightarrow> u32 \<Rightarrow> TRB" where
  "SetupStageTRB request_type request value index len transfer_type =
     TRB (set_field 16 16 (ucast value) (set_field 8 8 (ucast request) (set_field 0 8 (ucast request_type) 0)))
         (set_field 16 16 (ucast len) (set_field 0 16 (ucast index) 0))
         (set_field 0 17 8 0)
         (set_field 16 2 transfer_type (control kSetupType (set_field 6 1 1 0)))"

definition kDataType :: u32 where "kDataType = 3"

definition DataStageTRB :: "u64 \<Rightarrow> u32 \<Rightarrow> TRB" where
  "DataStageTRB buf len = TRB (low32 buf) (high32 buf) (set_field 0 17 len 0)
     (set_field 16 1 1 (control kDataType (set_field 5 1 1 0)))"

definition kStatusType :: u32 where "kStatusType = 4"

definition StatusStageTRB :: TRB where
  "StatusStageTRB = TRB 0 0 0 (control kStatusType 0)"

text \<open>The status stage of \<^verbatim>\<open>Device::ControlOut\<close>: direction (bit 16) and interrupt on completion.\<close>

definition StatusStageTRB_out :: TRB where
  "StatusStageTRB_out = TRB 0 0 0 (set_field 5 1 1 (set_field 16 1 1 (control kStatusType 0)))"

definition kEnableSlotType :: u32 where "kEnableSlotType = 9"

definition EnableSlotCommandTRB :: TRB where
  "EnableSlotCommandTRB = TRB 0 0 0 (control kEnableSlotType 0)"

definition kAddressDeviceType :: u32 where "kAddressDeviceType = 11"

definition AddressDeviceCommandTRB :: "u64 \<Rightarrow> u8 \<Rightarrow> TRB" where
  "AddressDeviceCommandTRB ctx slot = TRB (set_field 4 28 (low32 (drop_bit 4 ctx)) 0) (high32 ctx) 0
     (set_field 24 8 (ucast slot) (control kAddressDeviceType 0))"

definition kConfigureEndpointType :: u32 where "kConfigureEndpointType = 12"

definition ConfigureEndpointCommandTRB :: "u64 \<Rightarrow> u8 \<Rightarrow> TRB" where
  "ConfigureEndpointCommandTRB ctx slot = TRB (set_field 4 28 (low32 (drop_bit 4 ctx)) 0) (high32 ctx) 0
     (set_field 24 8 (ucast slot) (control kConfigureEndpointType 0))"

subsection \<open>Events\<close>

definition kTransferEventType :: u32 where "kTransferEventType = 32"
definition kCommandCompletionType :: u32 where "kCommandCompletionType = 33"
definition kPortStatusChangeType :: u32 where "kPortStatusChangeType = 34"

text \<open>\<^verbatim>\<open>CommandCompletionEventTRB::Pointer\<close> is \<open>pointer60\<close>, \<^verbatim>\<open>TransferEventTRB::Pointer\<close> is \<open>pointer64\<close>.\<close>

definition completion_code :: "TRB \<Rightarrow> u32" where
  "completion_code t = field 24 8 (dat2 t)"

definition event_slot_id :: "TRB \<Rightarrow> u8" where
  "event_slot_id t = ucast (field 24 8 (dat3 t))"

definition event_port_id :: "TRB \<Rightarrow> u8" where
  "event_port_id t = ucast (field 24 8 (dat0 t))"

definition event_residual :: "TRB \<Rightarrow> u32" where
  "event_residual t = field 0 24 (dat2 t)"

definition event_endpoint_id :: "TRB \<Rightarrow> u32" where
  "event_endpoint_id t = field 16 5 (dat3 t)"

definition event_data :: "TRB \<Rightarrow> bool" where
  "event_data t \<longleftrightarrow> field 2 1 (dat3 t) = 1"

definition TRBDynamicCast :: "u32 \<Rightarrow> TRB \<Rightarrow> TRB option" where
  "TRBDynamicCast ty t = (if ty = trb_type t then Some t else None)"

section \<open>Rings\<close>

type_synonym trb_mem = "u64 \<Rightarrow> TRB option"

record Ring =
  ring_buf :: u64
  ring_size :: nat
  ring_cycle :: u8
  write_index :: nat

definition slot :: "u64 \<Rightarrow> nat \<Rightarrow> u64" where
  "slot buf i = buf + of_nat (16 * i)"

definition poke :: "u64 \<Rightarrow> TRB \<Rightarrow> trb_mem \<Rightarrow> trb_mem option" where
  "poke a t m = (if m a = None then None else Some (m(a \<mapsto> t)))"

definition zero_trbs :: "u64 \<Rightarrow> nat \<Rightarrow> trb_mem \<Rightarrow> trb_mem" where
  "zero_trbs buf n m = fold (\<lambda>i m. m(slot buf i \<mapsto> TRB 0 0 0 0)) [0..<n] m"

text \<open>\<^verbatim>\<open>AllocArray<TRB>(n, 64, 64*1024)\<close>.\<close>

definition alloc_trbs :: "nat \<Rightarrow> UsbPool \<Rightarrow> trb_mem \<Rightarrow> u64 \<times> UsbPool \<times> trb_mem" where
  "alloc_trbs n p m = (case AllocArray 16 (of_nat n) 64 (64 * 1024) p of
     (buf, p') \<Rightarrow> (buf, p', if buf = 0 then m else zero_trbs buf n m))"

definition Ring_Initialize :: "nat \<Rightarrow> UsbPool \<Rightarrow> trb_mem \<Rightarrow> Ring \<times> UsbPool \<times> trb_mem \<times> error_code" where
  "Ring_Initialize n p m = (case alloc_trbs n p m of
     (buf, p', m') \<Rightarrow>
       (\<lparr>ring_buf = buf, ring_size = n, ring_cycle = 1, write_index = 0\<rparr>, p', m',
        if buf = 0 then kNoEnoughMemory else kSuccess))"

definition with_cycle :: "u8 \<Rightarrow> TRB \<Rightarrow> TRB" where
  "with_cycle c t = TRB (dat0 t) (dat1 t) (dat2 t) ((dat3 t AND 0xfffffffe) OR ucast c)"

text \<open>
  \<^verbatim>\<open>_write_index == _buf_size - 1\<close> after the increment; stated without the subtraction, which wraps
  for an empty ring and is then never equal.  The result is the address of the block written.
\<close>

definition ring_Push :: "TRB \<Rightarrow> Ring \<Rightarrow> trb_mem \<Rightarrow> (Ring \<times> trb_mem \<times> u64) option" where
  "ring_Push t r m = do {
     let w = write_index r;
     let a = slot (ring_buf r) w;
     m1 \<leftarrow> poke a (with_cycle (ring_cycle r) t) m;
     (if w + 1 + 1 = ring_size r then do {
        m2 \<leftarrow> poke (slot (ring_buf r) (w + 1)) (with_cycle (ring_cycle r) (set_toggle_cycle (LinkTRB (ring_buf r)))) m1;
        Some (r\<lparr>write_index := 0, ring_cycle := ring_cycle r XOR 1\<rparr>, m2, a)
      } else Some (r\<lparr>write_index := w + 1\<rparr>, m1, a))
   }"

definition RingCycleState :: "Ring \<Rightarrow> bool" where
  "RingCycleState r \<longleftrightarrow> ring_cycle r = 1"

subsection \<open>The event ring\<close>

text \<open>
  The dequeue pointer lives in the controller's \<^verbatim>\<open>ERDP\<close> register, whose low four bits are flags; the
  segment table has the one entry that \<^verbatim>\<open>Initialize\<close> fills.
\<close>

record EventRing =
  er_buf :: u64
  er_size :: nat
  er_cycle :: bool
  er_erst :: u64
  erst_base :: u64
  erst_size :: nat
  ERDP :: u64
  ERSTSZ :: u32
  ERSTBA :: u64

definition ReadDequeuePointer :: "EventRing \<Rightarrow> u64" where
  "ReadDequeuePointer e = push_bit 4 (drop_bit 4 (ERDP e))"

definition WriteDequeuePointer :: "u64 \<Rightarrow> EventRing \<Rightarrow> EventRing" where
  "WriteDequeuePointer p e = e\<lparr>ERDP := set_field 4 60 (drop_bit 4 p) (ERDP e)\<rparr>"

definition EventRing_Initialize ::
  "nat \<Rightarrow> EventRing \<Rightarrow> UsbPool \<Rightarrow> trb_mem \<Rightarrow> EventRing \<times> UsbPool \<times> trb_mem \<times> error_code" where
  "EventRing_Initialize n e p m =
     (case alloc_trbs n p m of (buf, p1, m1) \<Rightarrow>
       let e1 = e\<lparr>er_cycle := True, er_size := n, er_buf := buf\<rparr> in
       if buf = 0 then (e1, p1, m1, kNoEnoughMemory)
       else (case AllocArray 16 1 64 (64 * 1024) p1 of (tab, p2) \<Rightarrow>
         let e2 = e1\<lparr>er_erst := tab\<rparr> in
         if tab = 0 then (e2, p2, m1, kNoEnoughMemory)
         else let e3 = WriteDequeuePointer buf
                (e2\<lparr>erst_base := buf, erst_size := n mod 2 ^ 16, ERSTSZ := set_field 0 16 1 (ERSTSZ e2)\<rparr>)
              in (e3\<lparr>ERSTBA := set_field 6 58 (drop_bit 6 tab) (ERSTBA e3)\<rparr>, p2, m1, kSuccess)))"

text \<open>\<^verbatim>\<open>Front()\<close>; following a pointer outside the ring memory is undefined.\<close>

definition er_Front :: "EventRing \<Rightarrow> trb_mem \<Rightarrow> TRB option" where
  "er_Front e m = m (ReadDequeuePointer e)"

definition er_HasFront :: "EventRing \<Rightarrow> trb_mem \<Rightarrow> bool option" where
  "er_HasFront e m = map_option (\<lambda>t. (cycle_bit t = 1) = er_cycle e) (er_Front e m)"

definition er_Pop :: "EventRing \<Rightarrow> EventRing" where
  "er_Pop e = (let p = ReadDequeuePointer e + 16;
       segment_begin = erst_base e;
       segment_end = slot segment_begin (erst_size e)
     in if p = segment_end then WriteDequeuePointer segment_begin (e\<lparr>er_cycle := \<not> er_cycle e\<rparr>)
        else WriteDequeuePointer p e)"


section \<open>The ring as a queue\<close>

text \<open>
  What the host controller does with a ring it reads (xHCI specification, 4.9.2): a block whose cycle
  bit differs from the controller's cycle state has not been written yet; a link block is followed,
  and its toggle flag flips the cycle state.  \<open>pos\<close> is the controller's dequeue pointer and cycle
  state.
\<close>

type_synonym hc_pos = "u64 \<times> u8"

definition hc_skip_link :: "trb_mem \<Rightarrow> hc_pos \<Rightarrow> hc_pos" where
  "hc_skip_link m pos = (case m (fst pos) of None \<Rightarrow> pos | Some t \<Rightarrow>
     if cycle_bit t = snd pos \<and> trb_type t = kLinkType
     then (pointer60 t, if toggle_cycle t then snd pos XOR 1 else snd pos) else pos)"

definition hc_fetch :: "trb_mem \<Rightarrow> hc_pos \<Rightarrow> (TRB \<times> hc_pos) option" where
  "hc_fetch m pos = (let pos' = hc_skip_link m pos in
     case m (fst pos') of None \<Rightarrow> None | Some t \<Rightarrow>
       if cycle_bit t = snd pos' then Some (t, (fst pos' + 16, snd pos')) else None)"

lemma cycle_with_cycle [simp]: "c = 0 \<or> c = 1 \<Longrightarrow> cycle_bit (with_cycle c t) = c"
proof -
  have m: "(0xfffffffe :: u32) = NOT 1" by simp
  show "c = 0 \<or> c = 1 \<Longrightarrow> cycle_bit (with_cycle c t) = c"
    unfolding cycle_bit_def with_cycle_def m TRB.sel
    by (intro bit_word_eqI) (auto simp: field_def bit_simps)
qed

lemma with_cycle_bits:
  "0 < k \<Longrightarrow> k < 32 \<Longrightarrow> c = 0 \<or> c = 1 \<Longrightarrow> bit (dat3 (with_cycle c t)) k = bit (dat3 t) k"
proof -
  have m: "(0xfffffffe :: u32) = NOT 1" by simp
  show "0 < k \<Longrightarrow> k < 32 \<Longrightarrow> c = 0 \<or> c = 1 \<Longrightarrow> ?thesis"
    unfolding with_cycle_def m TRB.sel by (auto simp: bit_simps)
qed

lemma field_with_cycle:
  "0 < lo \<Longrightarrow> lo + n \<le> 32 \<Longrightarrow> c = 0 \<or> c = 1 \<Longrightarrow> field lo n (dat3 (with_cycle c t)) = field lo n (dat3 t)"
  by (intro bit_word_eqI) (auto simp: field_def bit_simps with_cycle_bits)

lemma trb_type_with_cycle [simp]: "c = 0 \<or> c = 1 \<Longrightarrow> trb_type (with_cycle c t) = trb_type t"
  by (simp add: trb_type_def field_with_cycle)

lemma with_cycle_dat [simp]:
  "dat0 (with_cycle c t) = dat0 t" "dat1 (with_cycle c t) = dat1 t" "dat2 (with_cycle c t) = dat2 t"
  by (simp_all add: with_cycle_def)

lemma with_cycle_twice: "c = 0 \<or> c = 1 \<Longrightarrow> with_cycle d (with_cycle c t) = with_cycle d t"
proof -
  have m: "(0xfffffffe :: u32) = NOT 1" by simp
  show "c = 0 \<or> c = 1 \<Longrightarrow> ?thesis" unfolding with_cycle_def m
    by (auto intro!: bit_word_eqI simp: bit_simps)
qed

lemma with_cycle_same: "cycle_bit t = 0 \<Longrightarrow> with_cycle 0 t = t"
proof -
  have m: "(0xfffffffe :: u32) = NOT 1" by simp
  assume "cycle_bit t = 0"
  then have "\<not> bit (cycle_bit t) 0" by simp
  then have "\<not> bit (dat3 t) 0" by (simp only: cycle_bit_def field_def bit_ucast_iff bit_take_bit_iff bit_drop_bit_eq) simp
  then have "(dat3 t AND NOT 1) OR ucast (0 :: u8) = dat3 t"
    by (intro bit_word_eqI) (auto simp: bit_simps intro: gr0I)
  then show ?thesis unfolding with_cycle_def m by simp
qed

definition link_trb :: "u64 \<Rightarrow> TRB" where
  "link_trb buf = set_toggle_cycle (LinkTRB buf)"

lemma link_trb_fields:
  "trb_type (link_trb buf) = kLinkType" "c = 0 \<or> c = 1 \<Longrightarrow> toggle_cycle (with_cycle c (link_trb buf))"
  "buf AND mask 4 = 0 \<Longrightarrow> pointer60 (link_trb buf) = buf"
proof -
  have "field 10 6 (set_field 1 1 1 (control kLinkType 0)) = kLinkType"
    by (subst field_set_field_other) (auto simp: control_def field_set_field kLinkType_def)
  then show "trb_type (link_trb buf) = kLinkType"
    by (simp add: trb_type_def link_trb_def set_toggle_cycle_def LinkTRB_def)
  show "c = 0 \<or> c = 1 \<Longrightarrow> toggle_cycle (with_cycle c (link_trb buf))"
    unfolding toggle_cycle_def
    by (subst field_with_cycle) (simp_all add: link_trb_def set_toggle_cycle_def field_set_field)
  assume b: "buf AND mask 4 = 0"
  have "bit (pointer60 (link_trb buf)) k = bit buf k" if "k < 64" for k
  proof -
    have "bit (buf AND mask 4) k = bit (0 :: u64) k" using b by simp
    then have "\<not> bit buf k" if "k < 4" using that by (auto simp: bit_simps)
    moreover have "4 + (k - 4) = k" if "\<not> k < 4" using that by simp
    moreover have "32 + (k - 32) = k" if "\<not> k < 32" using that by simp
    moreover have "28 \<le> k - 4 \<longleftrightarrow> 32 \<le> k" by auto
    ultimately show ?thesis using that
      by (cases "k < 4"; cases "k < 32") (auto simp: pointer60_def pointer64_def link_trb_def set_toggle_cycle_def LinkTRB_def
          set_field_def low32_def high32_def bit_simps)
  qed
  then show "pointer60 (link_trb buf) = buf" by (intro bit_word_eqI) simp
qed


subsection \<open>The producer and the consumer\<close>

lemma unat_slot: "unat buf + 16 * n \<le> 2 ^ 64 \<Longrightarrow> i < n \<Longrightarrow> unat (slot buf i) = unat buf + 16 * i"
proof -
  assume a: "unat buf + 16 * n \<le> 2 ^ 64" "i < n"
  have u: "unat (of_nat (16 * i) :: u64) = 16 * i"
    using a by (simp only: unsigned_of_nat) (simp add: take_bit_nat_eq_self)
  have "unat buf + unat (of_nat (16 * i) :: u64) < 2 ^ LENGTH(64)" using a unfolding u by simp
  then have "unat (buf + of_nat (16 * i)) = unat buf + unat (of_nat (16 * i) :: u64)"
    by (rule unat_add_lem [THEN iffD1])
  then show ?thesis unfolding slot_def u .
qed

lemma slot_inj: "unat buf + 16 * n \<le> 2 ^ 64 \<Longrightarrow> i < n \<Longrightarrow> j < n \<Longrightarrow> slot buf i = slot buf j \<longleftrightarrow> i = j"
proof
  assume a: "unat buf + 16 * n \<le> 2 ^ 64" "i < n" "j < n" and "slot buf i = slot buf j"
  then have "unat buf + 16 * i = unat buf + 16 * j"
    using unat_slot [OF a(1,2)] unat_slot [OF a(1,3)] by metis
  then show "i = j" by simp
qed simp

lemma slot_0 [simp]: "slot buf 0 = buf"
  by (simp add: slot_def)

lemma slot_next: "slot buf i + 16 = slot buf (i + 1)"
  by (simp add: slot_def algebra_simps)

text \<open>
  Blocks below the write index carry the ring's cycle bit, the others the opposite one; the last
  place belongs to the link block.
\<close>

definition ring_ok :: "trb_mem \<Rightarrow> Ring \<Rightarrow> bool" where
  "ring_ok m r \<longleftrightarrow> unat (ring_buf r) + 16 * ring_size r \<le> 2 ^ 64 \<and> ring_buf r AND mask 4 = 0
     \<and> (ring_cycle r = 0 \<or> ring_cycle r = 1) \<and> write_index r + 1 < ring_size r
     \<and> (\<forall>i < ring_size r. \<exists>t. m (slot (ring_buf r) i) = Some t
          \<and> cycle_bit t = (if i < write_index r then ring_cycle r else ring_cycle r XOR 1)
          \<and> (i + 1 < ring_size r \<longrightarrow> trb_type t \<noteq> kLinkType))"

text \<open>The controller is at block \<open>d\<close>, in the producer's lap or in the one before it.\<close>

definition hc_at :: "trb_mem \<Rightarrow> Ring \<Rightarrow> hc_pos \<Rightarrow> nat \<Rightarrow> bool" where
  "hc_at m r pos d \<longleftrightarrow> fst pos = slot (ring_buf r) d \<and>
     (snd pos = ring_cycle r \<and> d \<le> write_index r
      \<or> snd pos = ring_cycle r XOR 1 \<and> write_index r \<le> d \<and> d < ring_size r
        \<and> m (slot (ring_buf r) (ring_size r - 1)) = Some (with_cycle (snd pos) (link_trb (ring_buf r))))"

definition pending :: "Ring \<Rightarrow> nat \<Rightarrow> u8 \<Rightarrow> nat list" where
  "pending r d ccs = (if ccs = ring_cycle r then [d..<write_index r]
     else [d..<ring_size r - 1] @ [0..<write_index r])"

type_synonym ring_state = "trb_mem \<times> Ring \<times> hc_pos"

fun rs_inv :: "ring_state \<Rightarrow> bool" where
  "rs_inv (m, r, pos) = (ring_ok m r \<and> (\<exists>d < ring_size r. hc_at m r pos d))"

fun rs_content :: "ring_state \<Rightarrow> TRB list" where
  "rs_content (m, r, pos) = map (\<lambda>i. with_cycle 0 (the (m (slot (ring_buf r) i))))
     (pending r ((unat (fst pos) - unat (ring_buf r)) div 16) (snd pos))"

fun rs_cap :: "ring_state \<Rightarrow> nat" where
  "rs_cap (m, r, pos) = ring_size r - 2"

fun rs_push :: "TRB \<Rightarrow> ring_state \<Rightarrow> ring_state option" where
  "rs_push t (m, r, pos) = map_option (\<lambda>(r', m', a). (m', r', pos)) (ring_Push t r m)"

fun rs_pop :: "ring_state \<Rightarrow> (TRB \<times> ring_state) option" where
  "rs_pop (m, r, pos) = map_option (\<lambda>(t, pos'). (with_cycle 0 t, m, r, pos')) (hc_fetch m pos)"

definition trb_ok :: "TRB \<Rightarrow> bool" where
  "trb_ok t \<longleftrightarrow> cycle_bit t = 0 \<and> trb_type t \<noteq> kLinkType"

lemma xor_cycle [simp]:
  "c = 0 \<or> c = 1 \<Longrightarrow> (c XOR 1) XOR 1 = (c :: u8)" "c = 0 \<or> c = 1 \<Longrightarrow> c XOR 1 = 0 \<or> c XOR 1 = (1 :: u8)"
  "c XOR 1 \<noteq> (c :: u8)" "c \<noteq> c XOR (1 :: u8)"
proof -
  show n: "c XOR 1 \<noteq> (c :: u8)"
  proof
    assume "c XOR 1 = c"
    then have "bit (c XOR 1) 0 = bit c 0" by (rule arg_cong)
    then show False by (simp only: bit_xor_iff) simp
  qed
  then show "c \<noteq> c XOR (1 :: u8)" by (rule not_sym)
qed auto

lemma content_at:
  assumes "ring_ok m r" and "hc_at m r pos d" and "d < ring_size r"
  shows "rs_content (m, r, pos) =
    map (\<lambda>i. with_cycle 0 (the (m (slot (ring_buf r) i)))) (pending r d (snd pos))"
  using assms unat_slot [of "ring_buf r" "ring_size r" d] by (simp add: hc_at_def ring_ok_def)

lemma ring_blockE:
  assumes "ring_ok m r" and "i < ring_size r"
  obtains t where "m (slot (ring_buf r) i) = Some t"
    "cycle_bit t = (if i < write_index r then ring_cycle r else ring_cycle r XOR 1)"
    "i + 1 < ring_size r \<Longrightarrow> trb_type t \<noteq> kLinkType"
  using assms unfolding ring_ok_def by blast

lemma hc_fetch_here:
  assumes "m (fst pos) = Some t" and "trb_type t \<noteq> kLinkType"
  shows "hc_fetch m pos = (if cycle_bit t = snd pos then Some (t, (fst pos + 16, snd pos)) else None)"
  using assms by (simp add: hc_fetch_def hc_skip_link_def)


lemma hc_skip_to_start:
  assumes "ring_ok m r" and "hc_at m r pos (ring_size r - 1)" and "snd pos = ring_cycle r XOR 1"
  shows "hc_skip_link m pos = (ring_buf r, ring_cycle r)"
proof -
  let ?L = "with_cycle (ring_cycle r XOR 1) (link_trb (ring_buf r))"
  have c: "ring_cycle r = 0 \<or> ring_cycle r = 1" and a: "ring_buf r AND mask 4 = 0"
    using assms(1) by (auto simp: ring_ok_def)
  note c' = xor_cycle(2) [OF c]
  have L: "m (fst pos) = Some ?L" using assms(2,3) by (auto simp: hc_at_def)
  have "pointer60 ?L = ring_buf r" using link_trb_fields(3) [OF a] by (simp add: pointer60_def pointer64_def)
  moreover have "cycle_bit ?L = snd pos" using c' assms(3) by (simp del: xor_cycle)
  moreover have "trb_type ?L = kLinkType" using c' link_trb_fields(1) by (simp del: xor_cycle)
  ultimately show ?thesis
    using link_trb_fields(2) [OF c'] L assms(3) xor_cycle(1) [OF c] by (simp add: hc_skip_link_def)
qed

lemma pop_at:
  assumes R: "ring_ok m r" and D: "hc_at m r pos d" "d < ring_size r" and P: "pending r d (snd pos) = i # is"
  shows "\<exists>t pos' d'. hc_fetch m pos = Some (t, pos') \<and> m (slot (ring_buf r) i) = Some t
    \<and> hc_at m r pos' d' \<and> d' < ring_size r \<and> pending r d' (snd pos') = is"
proof -
  let ?n = "ring_size r" and ?w = "write_index r" and ?c = "ring_cycle r" and ?s = "slot (ring_buf r)"
  have w: "?w + 1 < ?n" and c: "?c = 0 \<or> ?c = 1" using R by (auto simp: ring_ok_def)
  consider (same) "snd pos = ?c" "d < ?w" "i = d" "is = [d + 1..<?w]"
    | (behind) "snd pos = ?c XOR 1" "?w \<le> d" "d + 1 < ?n" "i = d" "is = [d + 1..<?n - 1] @ [0..<?w]"
    | (link) "snd pos = ?c XOR 1" "d = ?n - 1" "0 < ?w" "i = 0" "is = [1..<?w]"
  proof (cases "snd pos = ?c")
    case True
    then have "[d..<?w] = i # is" using P by (simp add: pending_def)
    then have "d < ?w" "i = d" "is = [d + 1..<?w]" unfolding upt_eq_Cons_conv by blast+
    then show ?thesis by (rule that(1) [OF True])
  next
    case False
    then have s: "snd pos = ?c XOR 1" "?w \<le> d" using D(1) by (auto simp: hc_at_def)
    have p: "[d..<?n - 1] @ [0..<?w] = i # is" using P False by (simp add: pending_def)
    show ?thesis
    proof (cases "d + 1 < ?n")
      case True
      then have "[d..<?n - 1] = d # [d + 1..<?n - 1]" by (simp add: upt_conv_Cons)
      then have "i = d" "is = [d + 1..<?n - 1] @ [0..<?w]" using p by auto
      with True show ?thesis by (rule that(2) [OF s])
    next
      case False
      then have d: "d = ?n - 1" using D(2) by simp
      then have "[0..<?w] = i # is" using p by simp
      then have "0 < ?w" "i = 0" "is = [1..<?w]" unfolding upt_eq_Cons_conv by auto
      with d show ?thesis by (rule that(3) [OF s(1)])
    qed
  qed
  then show ?thesis
  proof cases
    case same
    have "d + 1 < ?n" using same(2) w by simp
    then obtain t where t: "m (?s d) = Some t" "cycle_bit t = ?c" "trb_type t \<noteq> kLinkType"
      using ring_blockE [OF R D(2)] same(2) by metis
    have "hc_fetch m pos = Some (t, (?s (d + 1), ?c))"
      using hc_fetch_here [of m pos t] t D(1) same slot_next [of "ring_buf r" d] by (simp add: hc_at_def)
    moreover have "hc_at m r (?s (d + 1), ?c) (d + 1)" using same by (simp add: hc_at_def)
    ultimately show ?thesis using t same w by (fastforce simp: pending_def)
  next
    case behind
    obtain t where t: "m (?s d) = Some t" "cycle_bit t = ?c XOR 1" "trb_type t \<noteq> kLinkType"
      using ring_blockE [OF R D(2)] behind(2,3) by (metis not_le)
    have "hc_fetch m pos = Some (t, (?s (d + 1), ?c XOR 1))"
      using hc_fetch_here [of m pos t] t D(1) behind slot_next [of "ring_buf r" d] by (simp add: hc_at_def)
    moreover have "hc_at m r (?s (d + 1), ?c XOR 1) (d + 1)"
      using behind D(1) by (auto simp: hc_at_def)
    ultimately show ?thesis using t behind by (fastforce simp: pending_def)
  next
    case link
    have K: "hc_skip_link m pos = (ring_buf r, ?c)"
      using hc_skip_to_start [OF R _ link(1)] D(1) link(2) by simp
    obtain t where t: "m (?s 0) = Some t" "cycle_bit t = ?c" using ring_blockE [OF R, of 0] link w by auto
    then have "hc_fetch m pos = Some (t, (?s 1, ?c))"
      using K slot_next [of "ring_buf r" 0] by (simp add: hc_fetch_def)
    moreover have "hc_at m r (?s 1, ?c) 1" using link by (simp add: hc_at_def)
    ultimately show ?thesis using t link w by (fastforce simp: pending_def)
  qed
qed

lemma pop_none:
  assumes R: "ring_ok m r" and D: "hc_at m r pos d" "d < ring_size r" and P: "pending r d (snd pos) = []"
  shows "hc_fetch m pos = None"
proof -
  let ?n = "ring_size r" and ?w = "write_index r" and ?c = "ring_cycle r" and ?s = "slot (ring_buf r)"
  have w: "?w + 1 < ?n" and c: "?c = 0 \<or> ?c = 1" using R by (auto simp: ring_ok_def)
  show ?thesis
  proof (cases "snd pos = ?c")
    case True
    then have d: "d = ?w" using P D(1) by (auto simp: pending_def hc_at_def)
    obtain t where "m (?s d) = Some t" "cycle_bit t = ?c XOR 1"
      using ring_blockE [OF R D(2)] d by auto
    then show ?thesis using True D(1) by (simp add: hc_fetch_def hc_skip_link_def hc_at_def)
  next
    case False
    then have d: "snd pos = ?c XOR 1" "d = ?n - 1" "?w = 0" using P D by (auto simp: pending_def hc_at_def)
    have K: "hc_skip_link m pos = (ring_buf r, ?c)"
      using hc_skip_to_start [OF R _ d(1)] D(1) d(2) by simp
    obtain t where "m (?s 0) = Some t" "cycle_bit t = ?c XOR 1" using ring_blockE [OF R, of 0] d w by auto
    then show ?thesis using K by (simp add: hc_fetch_def)
  qed
qed


lemma ring_Push_spec:
  assumes R: "ring_ok m r" and "trb_type t \<noteq> kLinkType"
  defines "m1 \<equiv> m(slot (ring_buf r) (write_index r) \<mapsto> with_cycle (ring_cycle r) t)"
  shows "ring_Push t r m = Some (if write_index r + 2 = ring_size r
     then (r\<lparr>write_index := 0, ring_cycle := ring_cycle r XOR 1\<rparr>,
        m1(slot (ring_buf r) (ring_size r - 1) \<mapsto> with_cycle (ring_cycle r) (link_trb (ring_buf r))),
        slot (ring_buf r) (write_index r))
     else (r\<lparr>write_index := write_index r + 1\<rparr>, m1, slot (ring_buf r) (write_index r)))"
proof -
  have w: "write_index r < ring_size r" "write_index r + 1 < ring_size r" using R by (auto simp: ring_ok_def)
  obtain a b where "m (slot (ring_buf r) (write_index r)) = Some a" "m (slot (ring_buf r) (write_index r + 1)) = Some b"
    using ring_blockE [OF R w(1)] ring_blockE [OF R w(2)] by metis
  moreover have "write_index r + 1 = ring_size r - 1" if "write_index r + 2 = ring_size r" using that by simp
  ultimately show ?thesis by (auto simp: ring_Push_def Let_def poke_def m1_def link_trb_def)
qed

lemma slots_differ:
  assumes "ring_ok m r" and "i < ring_size r" and "j < ring_size r" and "i \<noteq> j"
  shows "slot (ring_buf r) i \<noteq> slot (ring_buf r) j"
  using assms slot_inj by (auto simp: ring_ok_def)

definition next_index :: "Ring \<Rightarrow> nat" where
  "next_index r = (if write_index r + 2 = ring_size r then 0 else write_index r + 1)"

text \<open>What one push does to the ring, whoever reads it.\<close>

lemma ring_Push_ok:
  assumes R: "ring_ok m r" and tt: "trb_type t \<noteq> kLinkType"
  obtains r' m' where "ring_Push t r m = Some (r', m', slot (ring_buf r) (write_index r))"
    "ring_ok m' r'" "ring_buf r' = ring_buf r" "ring_size r' = ring_size r" "write_index r' = next_index r"
    "ring_cycle r' = (if write_index r + 2 = ring_size r then ring_cycle r XOR 1 else ring_cycle r)"
    "m' (slot (ring_buf r) (write_index r)) = Some (with_cycle (ring_cycle r) t)"
    "\<And>i. i + 1 < ring_size r \<Longrightarrow> i \<noteq> write_index r \<Longrightarrow> m' (slot (ring_buf r) i) = m (slot (ring_buf r) i)"
    "m' (slot (ring_buf r) (ring_size r - 1)) = (if write_index r + 2 = ring_size r
       then Some (with_cycle (ring_cycle r) (link_trb (ring_buf r))) else m (slot (ring_buf r) (ring_size r - 1)))"
proof -
  let ?n = "ring_size r" and ?w = "write_index r" and ?c = "ring_cycle r" and ?s = "slot (ring_buf r)"
  have w: "?w + 1 < ?n" and c: "?c = 0 \<or> ?c = 1" using R by (auto simp: ring_ok_def)
  define m1 where "m1 = m(?s ?w \<mapsto> with_cycle ?c t)"
  have m1: "m1 (?s i) = (if i = ?w then Some (with_cycle ?c t) else m (?s i))" if "i < ?n" for i
    using slots_differ [OF R that, of ?w] w by (auto simp: m1_def)
  note P = ring_Push_spec [OF R tt, folded m1_def]
  show ?thesis
  proof (cases "?w + 2 = ?n")
    case False
    let ?r = "r\<lparr>write_index := ?w + 1\<rparr>"
    have "ring_ok m1 ?r"
      unfolding ring_ok_def
    proof (intro conjI allI impI)
      fix i assume i: "i < ring_size ?r"
      then obtain u where "m (?s i) = Some u" "cycle_bit u = (if i < ?w then ?c else ?c XOR 1)"
        "i + 1 < ?n \<Longrightarrow> trb_type u \<noteq> kLinkType" using ring_blockE [OF R, of i] by auto
      then show "\<exists>t. m1 (slot (ring_buf ?r) i) = Some t
          \<and> cycle_bit t = (if i < write_index ?r then ring_cycle ?r else ring_cycle ?r XOR 1)
          \<and> (i + 1 < ring_size ?r \<longrightarrow> trb_type t \<noteq> kLinkType)"
        using m1 [of i] i c tt by (cases "i = ?w") auto
    qed (use R False w in \<open>auto simp: ring_ok_def\<close>)
    moreover have "ring_Push t r m = Some (?r, m1, ?s ?w)" using P False by simp
    moreover have "m1 (?s (?n - 1)) = m (?s (?n - 1))" using m1 [of "?n - 1"] w False by auto
    ultimately show ?thesis using that [of ?r m1] False m1 w by (simp add: next_index_def)
  next
    case True
    let ?r = "r\<lparr>write_index := 0, ring_cycle := ?c XOR 1\<rparr>"
    let ?m = "m1(?s (?n - 1) \<mapsto> with_cycle ?c (link_trb (ring_buf r)))"
    have m2: "?m (?s i) = (if i = ?n - 1 then Some (with_cycle ?c (link_trb (ring_buf r))) else m1 (?s i))"
      if "i < ?n" for i using slots_differ [OF R that, of "?n - 1"] w by auto
    have "ring_ok ?m ?r"
      unfolding ring_ok_def
    proof (intro conjI allI impI)
      fix i assume i: "i < ring_size ?r"
      then obtain u where "m (?s i) = Some u" "cycle_bit u = (if i < ?w then ?c else ?c XOR 1)"
        "i + 1 < ?n \<Longrightarrow> trb_type u \<noteq> kLinkType" using ring_blockE [OF R, of i] by auto
      then show "\<exists>t. ?m (slot (ring_buf ?r) i) = Some t
          \<and> cycle_bit t = (if i < write_index ?r then ring_cycle ?r else ring_cycle ?r XOR 1)
          \<and> (i + 1 < ring_size ?r \<longrightarrow> trb_type t \<noteq> kLinkType)"
        using m2 [of i] m1 [of i] i c tt True
        by (cases "i = ?n - 1"; cases "i = ?w") (auto simp del: fun_upd_apply)
    qed (use R c True in \<open>auto simp: ring_ok_def\<close>)
    moreover have "ring_Push t r m = Some (?r, ?m, ?s ?w)" using P True by simp
    moreover have "?w \<noteq> ?n - 1" using w by simp
    then have "?m (?s ?w) = Some (with_cycle ?c t)" using m2 [of ?w] m1 [of ?w] w by (simp del: fun_upd_apply)
    moreover have "?m (?s i) = m (?s i)" if "i + 1 < ?n" "i \<noteq> ?w" for i
    proof -
      have "i \<noteq> ?n - 1" using that by simp
      then show ?thesis using m2 [of i] m1 [of i] that by (simp del: fun_upd_apply)
    qed
    ultimately show ?thesis using that [of ?r ?m] True m2 [of "?n - 1"] w by (simp add: next_index_def)
  qed
qed

lemma push_at:
  assumes R: "ring_ok m r" and D: "hc_at m r pos d" "d < ring_size r" and t: "trb_ok t"
    and room: "snd pos = ring_cycle r \<or> length (pending r d (snd pos)) < ring_size r - 2"
  shows "\<exists>m' r' a. ring_Push t r m = Some (r', m', a) \<and> ring_ok m' r' \<and> hc_at m' r' pos d
    \<and> ring_buf r' = ring_buf r \<and> ring_size r' = ring_size r
    \<and> pending r' d (snd pos) = pending r d (snd pos) @ [write_index r]
    \<and> the (m' (slot (ring_buf r) (write_index r))) = with_cycle (ring_cycle r) t
    \<and> (\<forall>i < ring_size r - 1. i \<noteq> write_index r \<longrightarrow> m' (slot (ring_buf r) i) = m (slot (ring_buf r) i))"
proof -
  let ?n = "ring_size r" and ?w = "write_index r" and ?c = "ring_cycle r" and ?s = "slot (ring_buf r)"
  have w: "?w + 1 < ?n" and c: "?c = 0 \<or> ?c = 1" using R by (auto simp: ring_ok_def)
  have "trb_type t \<noteq> kLinkType" using t by (simp add: trb_ok_def)
  then obtain r' m' where P: "ring_Push t r m = Some (r', m', ?s ?w)"
    "ring_ok m' r'" "ring_buf r' = ring_buf r" "ring_size r' = ?n" "write_index r' = next_index r"
    "ring_cycle r' = (if ?w + 2 = ?n then ?c XOR 1 else ?c)" "m' (?s ?w) = Some (with_cycle ?c t)"
    "\<And>i. i + 1 < ?n \<Longrightarrow> i \<noteq> ?w \<Longrightarrow> m' (?s i) = m (?s i)"
    "m' (?s (?n - 1)) = (if ?w + 2 = ?n then Some (with_cycle ?c (link_trb (ring_buf r))) else m (?s (?n - 1)))"
    using ring_Push_ok [OF R] by metis
  have "hc_at m' r' pos d \<and> pending r' d (snd pos) = pending r d (snd pos) @ [?w]"
  proof (cases "?w + 2 = ?n")
    case False
    have "hc_at m' r' pos d" using D room P(3-6,9) False by (auto simp: hc_at_def pending_def next_index_def)
    moreover have "pending r' d (snd pos) = pending r d (snd pos) @ [?w]"
      using D(1) P(3-6) False by (auto simp: pending_def hc_at_def next_index_def)
    ultimately show ?thesis ..
  next
    case True
    have same: "snd pos = ?c"
    proof (rule ccontr)
      assume ne: "snd pos \<noteq> ?c"
      then have "?w \<le> d" "length (pending r d (snd pos)) = ?n - 1 - d + ?w"
        using D(1) by (auto simp: hc_at_def pending_def)
      then show False using room True D(2) ne by simp
    qed
    then have d: "d \<le> ?w" using D(1) by (auto simp: hc_at_def)
    have "hc_at m' r' pos d" using D same d P(3-6,9) True c by (auto simp: hc_at_def next_index_def)
    moreover have "?n - 1 = Suc ?w" using True by simp
    then have "pending r' d (snd pos) = pending r d (snd pos) @ [?w]"
      using same d c P(3-6) True by (simp add: pending_def next_index_def)
    ultimately show ?thesis ..
  qed
  then show ?thesis using P by auto
qed

lemma pending_bound: "hc_at m r pos d \<Longrightarrow> ring_ok m r \<Longrightarrow> i \<in> set (pending r d (snd pos)) \<Longrightarrow> i < ring_size r - 1"
  by (auto simp: pending_def ring_ok_def split: if_splits)

lemma stripped: "cycle_bit t = 0 \<Longrightarrow> c = 0 \<or> c = 1 \<Longrightarrow> with_cycle 0 (with_cycle c t) = t"
  by (simp add: with_cycle_twice with_cycle_same)

interpretation cr: fifo rs_inv rs_content rs_cap rs_push rs_pop trb_ok
proof
  fix q :: ring_state and x xs
  assume I: "rs_inv q"
  obtain m r pos where q: "q = (m, r, pos)" by (metis prod_cases3)
  obtain d where R: "ring_ok m r" and D: "hc_at m r pos d" "d < ring_size r" using I q by auto
  note C = content_at [OF R D]
  have c: "ring_cycle r = 0 \<or> ring_cycle r = 1" using R by (simp add: ring_ok_def)
  let ?v = "\<lambda>m i. with_cycle 0 (the (m (slot (ring_buf r) i)))"
  show "rs_content q = [] \<Longrightarrow> rs_pop q = None"
    using pop_none [OF R D] C q by simp
  show "\<exists>q'. rs_pop q = Some (x, q') \<and> rs_inv q' \<and> rs_content q' = xs \<and> rs_cap q' = rs_cap q"
    if x: "rs_content q = x # xs"
  proof -
    obtain i "is" where p: "pending r d (snd pos) = i # is" "x = ?v m i" "xs = map (?v m) is"
      using x C q by auto
    obtain t pos' d' where f: "hc_fetch m pos = Some (t, pos')" "m (slot (ring_buf r) i) = Some t"
      "hc_at m r pos' d'" "d' < ring_size r" "pending r d' (snd pos') = is"
      using pop_at [OF R D p(1)] by blast
    then show ?thesis using content_at [OF R f(3,4)] p R q by auto
  qed
  show "\<exists>q'. rs_push x q = Some q' \<and> rs_inv q' \<and> rs_content q' = rs_content q @ [x] \<and> rs_cap q' = rs_cap q"
    if room: "length (rs_content q) < rs_cap q" and x: "trb_ok x"
  proof -
    have l: "length (pending r d (snd pos)) < ring_size r - 2" using room q unfolding q C by simp
    obtain m' r' a where P: "ring_Push x r m = Some (r', m', a)" "ring_ok m' r'" "hc_at m' r' pos d"
      "ring_buf r' = ring_buf r" "ring_size r' = ring_size r"
      "pending r' d (snd pos) = pending r d (snd pos) @ [write_index r]"
      "the (m' (slot (ring_buf r) (write_index r))) = with_cycle (ring_cycle r) x"
      "\<forall>i < ring_size r - 1. i \<noteq> write_index r \<longrightarrow> m' (slot (ring_buf r) i) = m (slot (ring_buf r) i)"
      using push_at [OF R D x disjI2 [OF l]] by blast
    have "write_index r \<notin> set (pending r d (snd pos))"
      using D(1) l by (auto simp: pending_def hc_at_def)
    then have "?v m' i = ?v m i" if "i \<in> set (pending r d (snd pos))" for i
      using P(8) that pending_bound [OF D(1) R that] by auto
    then have "rs_content (m', r', pos) = rs_content q @ [x]"
      using content_at [OF P(2,3)] P(4-7) C q D(2) x c
      by (simp add: stripped trb_ok_def del: rs_content.simps)
    moreover have "rs_inv (m', r', pos)" using P D(2) by auto
    ultimately show ?thesis using P q by auto
  qed
qed


declare rs_inv.simps [simp del] rs_content.simps [simp del] rs_push.simps [simp del] rs_pop.simps [simp del]

subsection \<open>A fresh ring\<close>

lemma zero_trbs_Suc: "zero_trbs buf (Suc n) m = (zero_trbs buf n m)(slot buf n \<mapsto> TRB 0 0 0 0)"
  by (simp add: zero_trbs_def)

lemma zero_trbs_in:
  assumes "unat buf + 16 * N \<le> 2 ^ 64" and "n \<le> N" and "i < n"
  shows "zero_trbs buf n m (slot buf i) = Some (TRB 0 0 0 0)"
  using assms(2,3)
proof (induction n)
  case (Suc n)
  then show ?case using slot_inj [OF assms(1), of i n] by (cases "i = n") (auto simp: zero_trbs_Suc)
qed simp

lemma alloc_trbs_spec:
  assumes "pool_ok p" and "n \<le> 4096" and "alloc_trbs n p m = (buf, p', m')" and "buf \<noteq> 0"
  shows "pool_ok p' \<and> unat buf + 16 * n \<le> 2 ^ 64 \<and> buf AND mask 4 = 0
    \<and> (\<forall>i < n. m' (slot buf i) = Some (TRB 0 0 0 0))"
proof -
  have n: "unat (16 * of_nat n :: u64) = 16 * n"
  proof -
    have "unat (of_nat (16 * n) :: u64) = 16 * n"
      using assms(2) by (simp only: unsigned_of_nat) (simp add: take_bit_nat_eq_self)
    then show ?thesis by simp
  qed
  have A: "AllocMem (16 * of_nat n) (pow2 (Some 6)) (pow2 (Some 16)) p = (buf, p')" and m': "m' = zero_trbs buf n m"
    using assms(3,4) by (auto simp: alloc_trbs_def AllocArray_def split: prod.splits)
  have q: "req_ok (16 * of_nat n) (Some 6) (Some 16)" using n assms(2) by (simp add: req_ok_def)
  note S = AllocMem_spec [OF assms(1) q A]
  have le: "unat buf + 16 * n \<le> 2 ^ 64"
    using S assms(4) n assms(1) round_up_spec(1) [of "2 ^ 31" "pool_end p"] by (auto simp: pool_ok_def)
  have "2 ^ 6 dvd unat buf" using S assms(4) by (simp add: block_ok_def)
  then have "2 ^ 4 dvd unat buf" by (rule dvd_trans [rotated]) simp
  then have "unat (take_bit 4 buf) = 0" by (simp only: unsigned_take_bit_eq) (simp add: take_bit_eq_mod)
  then have "take_bit 4 buf = 0" by (simp add: unat_eq_zero)
  then have "buf AND mask 4 = 0" by (simp add: take_bit_eq_mask)
  then show ?thesis using S le zero_trbs_in [OF le order_refl] m' by blast
qed

lemma Ring_Initialize_inv:
  assumes "pool_ok p" and "2 \<le> n" and "n \<le> 4096" and "Ring_Initialize n p m = (r, p', m', kSuccess)"
  shows "rs_inv (m', r, (ring_buf r, 1)) \<and> rs_content (m', r, (ring_buf r, 1)) = [] \<and> ring_size r = n
    \<and> write_index r = 0 \<and> ring_cycle r = 1 \<and> pool_ok p'"
proof -
  obtain buf where A: "alloc_trbs n p m = (buf, p', m')" and b: "buf \<noteq> 0"
    and r: "r = \<lparr>ring_buf = buf, ring_size = n, ring_cycle = 1, write_index = 0\<rparr>"
    using assms(4) by (auto simp: Ring_Initialize_def split: prod.splits if_splits)
  note S = alloc_trbs_spec [OF assms(1,3) A b]
  have z: "cycle_bit (TRB 0 0 0 0) = 0" "trb_type (TRB 0 0 0 0) \<noteq> kLinkType"
    by (simp_all add: cycle_bit_def trb_type_def field_def kLinkType_def)
  have "ring_ok m' r" using S z assms(2) r by (auto simp: ring_ok_def)
  moreover have "hc_at m' r (ring_buf r, 1) 0" using r by (simp add: hc_at_def)
  moreover have "0 < ring_size r" using r assms(2) by simp
  ultimately have "rs_inv (m', r, (ring_buf r, 1))" by (auto simp: rs_inv.simps)
  then show ?thesis using r S by (simp add: pending_def rs_content.simps)
qed

text \<open>
  C12: a command or transfer ring together with the host controller's way of reading it is a queue.
  From a state in which both sides agree, the blocks that software pushes come out at the controller
  unchanged and in order, behind those already there, across the link block and the flipping of the
  cycle bit, as long as at most \<^verbatim>\<open>_buf_size - 2\<close> blocks are outstanding.
\<close>

theorem Ring_is_fifo:
  assumes "rs_inv q" and "list_all trb_ok ts" and "length (rs_content q) + length ts \<le> rs_cap q"
  shows "\<exists>q' q''. cr.push_all ts q = Some q'
    \<and> cr.pop_n (length (rs_content q) + length ts) q' = Some (rs_content q @ ts, q'') \<and> rs_pop q'' = None"
proof -
  obtain q' where q': "cr.push_all ts q = Some q'" "rs_inv q'" "rs_content q' = rs_content q @ ts"
    using cr.push_all_content [OF assms(1,3,2)] by blast
  then obtain q'' where "cr.pop_n (length (rs_content q')) q' = Some (take (length (rs_content q')) (rs_content q'), q'')"
    "rs_inv q''" "rs_content q'' = drop (length (rs_content q')) (rs_content q')"
    using cr.pop_n_content [OF q'(2) order_refl] by blast
  moreover from this have "rs_pop q'' = None" by (intro cr.pop_empty) simp_all
  ultimately show ?thesis using q' by (intro exI conjI) simp_all
qed

definition ring_example :: "Ring \<times> UsbPool \<times> trb_mem \<times> error_code" where
  "ring_example = Ring_Initialize 4 pool_example Map.empty"

lemma ring_example_ok:
  "\<exists>m r p. ring_example = (r, p, m, kSuccess) \<and> rs_inv (m, r, (ring_buf r, 1))
     \<and> rs_content (m, r, (ring_buf r, 1)) = [] \<and> ring_size r = 4 \<and> write_index r = 0 \<and> ring_cycle r = 1"
proof -
  obtain r p m e where E: "ring_example = (r, p, m, e)" by (metis prod_cases4)
  moreover from this have "e = kSuccess"
    by (simp add: ring_example_def Ring_Initialize_def alloc_trbs_def AllocArray_def AllocMem_def Align_def
        pool_example_def kMemoryPollSize_def Let_def split: if_splits)
  ultimately show ?thesis
    using Ring_Initialize_inv [OF pool_example_ok, of 4 "Map.empty" r p m] by (auto simp: ring_example_def)
qed

theorem Ring_is_fifo_witness:
  "\<exists>q q' q''. cr.push_all [EnableSlotCommandTRB, StatusStageTRB] q = Some q'
     \<and> cr.pop_n 2 q' = Some ([EnableSlotCommandTRB, StatusStageTRB], q'') \<and> rs_pop q'' = None"
proof -
  obtain m r p where q: "rs_inv (m, r, (ring_buf r, 1))" "rs_content (m, r, (ring_buf r, 1)) = []" "ring_size r = 4"
    using ring_example_ok by blast
  have "list_all trb_ok [EnableSlotCommandTRB, StatusStageTRB]"
    by (simp add: trb_ok_def EnableSlotCommandTRB_def StatusStageTRB_def cycle_bit_def trb_type_def control_def
        set_field_def field_def kEnableSlotType_def kStatusType_def kLinkType_def mask_eq_exp_minus_1 push_bit_eq_mult drop_bit_eq_div take_bit_eq_mod)
  from Ring_is_fifo [OF q(1) this] q(2,3)
  have "\<exists>q' q''. cr.push_all [EnableSlotCommandTRB, StatusStageTRB] (m, r, (ring_buf r, 1)) = Some q'
     \<and> cr.pop_n 2 q' = Some ([EnableSlotCommandTRB, StatusStageTRB], q'') \<and> rs_pop q'' = None"
    by (simp add: rs_cap.simps numeral_2_eq_2 del: cr.push_all.simps cr.pop_n.simps split_paired_Ex)
  then show ?thesis by blast
qed


subsection \<open>Overrun\<close>

lemma fill_lap:
  assumes "ring_ok m r" and "hc_at m r pos d" and "d < ring_size r" and "snd pos = ring_cycle r"
    and "list_all trb_ok ts" and "length ts + write_index r < ring_size r"
  shows "\<exists>q'. cr.push_all ts (m, r, pos) = Some q' \<and> rs_inv q' \<and> rs_cap q' = ring_size r - 2
    \<and> length (rs_content q') = length (pending r d (snd pos)) + length ts"
  using assms
proof (induction ts arbitrary: m r)
  case Nil
  then show ?case using content_at [OF Nil(1-3)] by (auto simp: rs_inv.simps rs_cap.simps)
next
  case (Cons t ts)
  obtain m' r' a where P: "ring_Push t r m = Some (r', m', a)" "ring_ok m' r'" "hc_at m' r' pos d"
    "ring_size r' = ring_size r" "pending r' d (snd pos) = pending r d (snd pos) @ [write_index r]"
    using push_at [OF Cons.prems(1-3), of t] Cons.prems(4,5) by auto
  have p: "rs_push t (m, r, pos) = Some (m', r', pos)" using P(1) by (simp add: rs_push.simps)
  show ?case
  proof (cases "ts = []")
    case True
    have "rs_inv (m', r', pos)" using P(2-4) Cons.prems(3) by (auto simp: rs_inv.simps)
    then show ?thesis using True p P content_at [OF P(2,3)] Cons.prems(3) by (simp add: rs_cap.simps)
  next
    case False
    then have "write_index r + 2 < ring_size r" using Cons.prems(6) by (cases ts) auto
    then have "r' = r\<lparr>write_index := write_index r + 1\<rparr>"
      using ring_Push_spec [OF Cons.prems(1), of t] P(1) Cons.prems(5) by (simp add: trb_ok_def)
    then show ?thesis
      using Cons.IH [OF P(2,3)] Cons.prems p P(4,5) by auto
  qed
qed

text \<open>
  \<^verbatim>\<open>Ring::Push\<close> does not check for room.  When all blocks but the link are outstanding and one
  more is pushed, the block at the controller's position is overwritten with the next lap's cycle bit:
  the controller, which had work to fetch, now takes the ring to be empty.
\<close>

theorem Push_overrun_hides_everything:
  assumes "rs_inv q" and "trb_ok t" and "length (rs_content q) = rs_cap q + 1"
  shows "rs_pop q \<noteq> None \<and> (\<exists>q'. rs_push t q = Some q' \<and> rs_pop q' = None)"
proof -
  obtain m r pos where q: "q = (m, r, pos)" by (metis prod_cases3)
  obtain d where R: "ring_ok m r" and D: "hc_at m r pos d" "d < ring_size r"
    using assms(1) q by (auto simp: rs_inv.simps)
  have w: "write_index r + 1 < ring_size r" and c: "ring_cycle r = 0 \<or> ring_cycle r = 1"
    using R by (auto simp: ring_ok_def)
  have "length (pending r d (snd pos)) = ring_size r - 1"
    using assms(3) content_at [OF R D] q w by (simp add: rs_cap.simps)
  then have d: "d = write_index r" "snd pos = ring_cycle r XOR 1"
    using w D by (auto simp: pending_def hc_at_def split: if_splits)
  have "rs_content q \<noteq> []" using assms(3) by auto
  then obtain x xs where "rs_content q = x # xs" by (cases "rs_content q") auto
  then have "rs_pop q \<noteq> None" using cr.pop_Cons [OF assms(1)] by force
  moreover obtain r' m' a where P: "ring_Push t r m = Some (r', m', a)"
    "m' (fst pos) = Some (with_cycle (ring_cycle r) t)"
    using ring_Push_spec [OF R, of t] slots_differ [OF R, of "write_index r" "ring_size r - 1"] assms(2) D d w
    by (cases "write_index r + 2 = ring_size r") (auto simp: trb_ok_def hc_at_def)
  moreover have "hc_fetch m' pos = None"
    using hc_fetch_here [of m' pos] P(2) assms(2) c d(2) by (auto simp: trb_ok_def)
  ultimately show ?thesis using q by (simp add: rs_push.simps rs_pop.simps)
qed

lemma StatusStageTRB_ok: "trb_ok StatusStageTRB"
  by (simp add: trb_ok_def StatusStageTRB_def cycle_bit_def trb_type_def control_def
      set_field_def field_def kStatusType_def kLinkType_def mask_eq_exp_minus_1 push_bit_eq_mult
      drop_bit_eq_div take_bit_eq_mod)

theorem Push_overrun_hides_everything_witness:
  "\<exists>q q'. length (rs_content q) = 3 \<and> rs_pop q \<noteq> None \<and> rs_push StatusStageTRB q = Some q' \<and> rs_pop q' = None"
proof -
  obtain m r p where q: "rs_inv (m, r, (ring_buf r, 1))" "rs_content (m, r, (ring_buf r, 1)) = []"
    "ring_size r = 4" "write_index r = 0" "ring_cycle r = 1"
    using ring_example_ok by blast
  then obtain d where d: "ring_ok m r" "hc_at m r (ring_buf r, 1) d" "d < ring_size r" by (auto simp: rs_inv.simps)
  then have "pending r d 1 = []" using q content_at [OF d] by simp
  with fill_lap [OF d, of "[StatusStageTRB, StatusStageTRB, StatusStageTRB]"] q StatusStageTRB_ok
  obtain q' where q': "rs_inv q'" "rs_cap q' = 2" "length (rs_content q') = 3" by auto
  have "rs_pop q' \<noteq> None \<and> (\<exists>q''. rs_push StatusStageTRB q' = Some q'' \<and> rs_pop q'' = None)"
    using Push_overrun_hides_everything [OF q'(1) StatusStageTRB_ok] q'(2,3) by simp
  with q'(3) show ?thesis by blast
qed

section \<open>The event ring, lap by lap\<close>

text \<open>
  The dequeue pointer is at place \<open>i\<close> of the segment, which is all that \<^verbatim>\<open>Pop\<close> changes besides the cycle
  state.
\<close>

definition er_at :: "EventRing \<Rightarrow> nat \<Rightarrow> bool" where
  "er_at e i \<longleftrightarrow> i < erst_size e \<and> unat (erst_base e) + 16 * (erst_size e + 1) \<le> 2 ^ 64
     \<and> erst_base e AND mask 4 = 0 \<and> ReadDequeuePointer e = slot (erst_base e) i"

lemma slot_aligned: "base AND mask 4 = 0 \<Longrightarrow> slot base i AND mask 4 = 0"
proof -
  assume b: "base AND mask 4 = (0 :: u64)"
  have "base = push_bit 4 (drop_bit 4 base)"
  proof (rule bit_word_eqI)
    fix k assume "k < LENGTH(64)"
    have "bit (base AND mask 4) k = bit (0 :: u64) k" using b by simp
    then show "bit base k = bit (push_bit 4 (drop_bit 4 base)) k"
      using \<open>k < LENGTH(64)\<close> by (auto simp: bit_simps)
  qed
  moreover have "(of_nat (16 * i) :: u64) = push_bit 4 (of_nat i)" by (simp add: push_bit_eq_mult)
  ultimately have "slot base i = push_bit 4 (drop_bit 4 base + of_nat i)"
    unfolding slot_def push_bit_add by metis
  then have "take_bit 4 (slot base i) = 0" by (simp only: take_bit_push_bit) simp
  then show ?thesis by (simp add: take_bit_eq_mask)
qed

lemma Read_Write_pointer: "p AND mask 4 = 0 \<Longrightarrow> ReadDequeuePointer (WriteDequeuePointer p e) = p"
proof -
  assume p: "p AND mask 4 = (0 :: u64)"
  have low: "\<not> bit p k" if "k < 4" for k
  proof -
    have "bit (p AND mask 4) k = bit (0 :: u64) k" using p by simp
    then show ?thesis using that by (auto simp: bit_simps)
  qed
  show ?thesis
  proof (rule bit_word_eqI)
    fix k assume "k < LENGTH(64)"
    then show "bit (ReadDequeuePointer (WriteDequeuePointer p e)) k = bit p k"
      using low by (cases "k < 4") (auto simp: ReadDequeuePointer_def WriteDequeuePointer_def set_field_def bit_simps)
  qed
qed

lemma er_Pop_at:
  assumes "er_at e i"
  shows "er_at (er_Pop e) (if i + 1 = erst_size e then 0 else i + 1)
    \<and> er_cycle (er_Pop e) = (if i + 1 = erst_size e then \<not> er_cycle e else er_cycle e)
    \<and> erst_size (er_Pop e) = erst_size e \<and> erst_base (er_Pop e) = erst_base e"
proof -
  have a: "i < erst_size e" "unat (erst_base e) + 16 * (erst_size e + 1) \<le> 2 ^ 64"
    "erst_base e AND mask 4 = 0" "ReadDequeuePointer e = slot (erst_base e) i"
    using assms by (auto simp: er_at_def)
  have "slot (erst_base e) i + 16 = slot (erst_base e) (erst_size e) \<longleftrightarrow> i + 1 = erst_size e"
    using slot_inj [OF a(2), of "i + 1" "erst_size e"] a(1) slot_next by simp
  then show ?thesis using a slot_next Read_Write_pointer slot_aligned [OF a(3)]
    by (auto simp: er_Pop_def Let_def er_at_def) (auto simp: WriteDequeuePointer_def)
qed

text \<open>
  After \<open>k\<close> calls of \<^verbatim>\<open>Pop\<close> the event ring is \<open>k\<close> places further round the segment, and its cycle state
  has flipped once for every time it passed the end.
\<close>

lemma er_Pop_laps:
  assumes "er_at e 0"
  shows "er_at ((er_Pop ^^ k) e) (k mod erst_size e)
    \<and> er_cycle ((er_Pop ^^ k) e) = (if even (k div erst_size e) then er_cycle e else \<not> er_cycle e)
    \<and> erst_size ((er_Pop ^^ k) e) = erst_size e"
proof (induction k)
  case 0
  then show ?case using assms by (simp add: er_at_def)
next
  case (Suc k)
  let ?e = "(er_Pop ^^ k) e" and ?n = "erst_size e"
  have n: "0 < ?n" using assms by (simp add: er_at_def)
  note P = er_Pop_at [of ?e "k mod ?n"]
  show ?case
  proof (cases "Suc (k mod ?n) = ?n")
    case True
    then have "Suc k mod ?n = 0" "Suc k div ?n = Suc (k div ?n)" by (simp_all add: mod_Suc div_Suc)
    then show ?thesis using P Suc.IH True by auto
  next
    case False
    then have "Suc k mod ?n = Suc (k mod ?n)" "Suc k div ?n = k div ?n" using n by (simp_all add: mod_Suc div_Suc)
    then show ?thesis using P Suc.IH False by auto
  qed
qed

end
