(* ===== verification/Hid.thy ===== *)
theory Hid imports Task_Manager Fat_Types begin

text \<open>
  The HID class drivers: \<^verbatim>\<open>kernel/usb/classdriver/\<close> (\<^verbatim>\<open>hid.cpp\<close>, \<^verbatim>\<open>keyboard.cpp\<close>, \<^verbatim>\<open>mouse.cpp\<close>), the endpoint
  and setup types they share with the device (\<^verbatim>\<open>kernel/usb/endpoint.h\<close>, \<^verbatim>\<open>setupdata.hpp\<close>), and the
  observer that turns a key notification into a message (\<^verbatim>\<open>kernel/keyboard.cpp\<close>).

  This theory holds what a driver does with the data it receives; the requests it sends to its
  device are in \<open>Usb_Device\<close>.
\<close>

section \<open>Endpoints and setup data\<close>

datatype EndpointType = kControl | kIsochronous | kBulk | kInterrupt

text \<open>An \<^verbatim>\<open>EndpointID\<close> is its device context index.\<close>

type_synonym EndpointID = nat

definition make_endpoint :: "nat \<Rightarrow> bool \<Rightarrow> EndpointID" where
  "make_endpoint ep_num dir_in = push_bit 1 ep_num OR of_bool dir_in"

definition Number :: "EndpointID \<Rightarrow> nat" where
  "Number dci = drop_bit 1 dci"

definition IsDirIn :: "EndpointID \<Rightarrow> bool" where
  "IsDirIn dci \<longleftrightarrow> dci AND 1 \<noteq> 0"

definition kDefaultControlEpId :: EndpointID where
  "kDefaultControlEpId = make_endpoint 0 True"

lemma endpoint_parts:
  "Number (make_endpoint n d) = n" "IsDirIn (make_endpoint n d) = d"
proof -
  have "make_endpoint n d = 2 * n + of_bool d"
    by (cases d) (simp_all only: make_endpoint_def push_bit_eq_mult of_bool_eq or_one_eq, simp_all)
  then show "Number (make_endpoint n d) = n" "IsDirIn (make_endpoint n d) = d"
    by (cases d; simp add: Number_def IsDirIn_def drop_bit_eq_div and_one_eq)+
qed

record EndpointConfig =
  ep_id :: EndpointID
  ep_type :: EndpointType
  max_packet_size :: int
  interval :: int

text \<open>\<^verbatim>\<open>bmRequestType\<close> has the recipient in its low five bits, then the type and the direction.\<close>

record SetupData =
  request_type :: u8
  request :: u8
  wValue :: u16
  wIndex :: u16
  wLength :: u16

definition make_request_type :: "u8 \<Rightarrow> u8 \<Rightarrow> u8 \<Rightarrow> u8" where
  "make_request_type recipient ty direction =
     (recipient AND 0x1f) OR push_bit 5 (ty AND 3) OR push_bit 7 (direction AND 1)"

definition kDevice :: u8 where "kDevice = 0"
definition kInterface :: u8 where "kInterface = 1"
definition kStandard :: u8 where "kStandard = 0"
definition kClass :: u8 where "kClass = 1"
definition kOut :: u8 where "kOut = 0"
definition kIn :: u8 where "kIn = 1"
definition kGetDescriptor :: u8 where "kGetDescriptor = 6"
definition kSetConfiguration :: u8 where "kSetConfiguration = 9"
definition kSetProtocol :: u8 where "kSetProtocol = 11"

section \<open>The drivers\<close>

datatype hid_kind = HidKeyboard | HidMouse

datatype hid_event = KeyPush u8 u8 bool | MouseMove u8 "8 word" "8 word"

text \<open>
  \<open>hid_buf\<close> is the address of \<^verbatim>\<open>_buf\<close>, which the controller writes; \<^verbatim>\<open>_num_observers\<close> is read without
  having been initialised and starts at \<open>0\<close> because the pool is a static array whose memory is handed
  out once.
\<close>

record HidDriver =
  hid_kind :: hid_kind
  ep_interrupt_in :: EndpointID
  ep_interrupt_out :: EndpointID
  interface_index :: int
  in_packet_size :: int
  hid_buf :: u64
  previous_buf :: "u8 list"
  hid_phase :: nat
  num_observers :: nat

definition kBufferSize :: nat where
  "kBufferSize = 1024"

definition HIDBaseDriver_init :: "hid_kind \<Rightarrow> int \<Rightarrow> int \<Rightarrow> u64 \<Rightarrow> HidDriver" where
  "HIDBaseDriver_init k iface n buf = \<lparr>hid_kind = k, ep_interrupt_in = 0, ep_interrupt_out = 0,
     interface_index = iface, in_packet_size = n, hid_buf = buf, previous_buf = replicate kBufferSize 0,
     hid_phase = 0, num_observers = 0\<rparr>"

definition HIDKeyboardDriver_init :: "int \<Rightarrow> u64 \<Rightarrow> HidDriver" where
  "HIDKeyboardDriver_init iface buf = HIDBaseDriver_init HidKeyboard iface 8 buf"

definition HIDMouseDriver_init :: "int \<Rightarrow> u64 \<Rightarrow> HidDriver" where
  "HIDMouseDriver_init iface buf = HIDBaseDriver_init HidMouse iface 3 buf"

text \<open>There is room for four observers; the only one the kernel subscribes is the default observer.\<close>

definition Subscribe :: "HidDriver \<Rightarrow> HidDriver option" where
  "Subscribe d = (if num_observers d < 4 then Some (d\<lparr>num_observers := num_observers d + 1\<rparr>) else None)"

text \<open>Every observer gets the notification.\<close>

definition Notify :: "HidDriver \<Rightarrow> hid_event \<Rightarrow> hid_event list" where
  "Notify d e = replicate (num_observers d) e"

definition SetEndpoint :: "EndpointConfig \<Rightarrow> HidDriver \<Rightarrow> HidDriver" where
  "SetEndpoint config d =
     (if ep_type config = kInterrupt \<and> IsDirIn (ep_id config) then d\<lparr>ep_interrupt_in := ep_id config\<rparr>
      else if ep_type config = kInterrupt \<and> \<not> IsDirIn (ep_id config) then d\<lparr>ep_interrupt_out := ep_id config\<rparr>
      else d)"

text \<open>\<^verbatim>\<open>std::bitset<256>\<close> with the six key codes of a report set.\<close>

definition report_keys :: "u8 list \<Rightarrow> u8 \<Rightarrow> bool" where
  "report_keys buf key \<longleftrightarrow> key \<in> set (take 6 (drop 2 buf))"

definition key_codes :: "u8 list" where
  "key_codes = map of_nat [1..<256]"

definition key_events :: "u8 list \<Rightarrow> u8 list \<Rightarrow> (u8 \<times> bool) list" where
  "key_events prev_buf buf =
     map (\<lambda>key. (key, report_keys buf key))
       (filter (\<lambda>key. report_keys prev_buf key \<noteq> report_keys buf key) key_codes)"

definition keyboard_OnDataReceived :: "u8 list \<Rightarrow> HidDriver \<Rightarrow> hid_event list" where
  "keyboard_OnDataReceived buf d =
     concat (map (\<lambda>(key, pressed). Notify d (KeyPush (buf ! 0) key pressed)) (key_events (previous_buf d) buf))"

definition mouse_OnDataReceived :: "u8 list \<Rightarrow> HidDriver \<Rightarrow> hid_event list" where
  "mouse_OnDataReceived buf d = Notify d (MouseMove (buf ! 0) (buf ! 1) (buf ! 2))"

definition OnDataReceived :: "u8 list \<Rightarrow> HidDriver \<Rightarrow> hid_event list" where
  "OnDataReceived buf d = (case hid_kind d of HidKeyboard \<Rightarrow> keyboard_OnDataReceived buf d
     | HidMouse \<Rightarrow> mouse_OnDataReceived buf d)"

text \<open>\<^verbatim>\<open>std::copy_n(_buf.begin(), len, _previous_buf.begin())\<close>; a length that is not positive copies nothing.\<close>

definition keep_previous :: "u8 list \<Rightarrow> int \<Rightarrow> HidDriver \<Rightarrow> HidDriver option" where
  "keep_previous buf len d = (if len > int (length buf) \<or> len > int (length (previous_buf d)) then None
     else Some (d\<lparr>previous_buf := take (nat len) buf @ drop (nat len) (previous_buf d)\<rparr>))"

section \<open>What the observer sees\<close>

text \<open>The keys an observer takes to be held down, from the notifications it has got.\<close>

fun held :: "hid_event list \<Rightarrow> u8 set \<Rightarrow> u8 set" where
  "held [] ks = ks"
| "held (KeyPush md key pressed # es) ks = held es (if pressed then insert key ks else ks - {key})"
| "held (MouseMove b x y # es) ks = held es ks"

definition keys_of :: "u8 list \<Rightarrow> u8 set" where
  "keys_of buf = set (take 6 (drop 2 buf)) - {0}"

lemma held_append: "held (xs @ ys) ks = held ys (held xs ks)"
  by (induction xs ks rule: held.induct) auto

lemma all_keys: "set key_codes = UNIV - {0}"
proof -
  have "k \<in> of_nat ` {1..<256}" if "k \<noteq> 0" for k :: u8
  proof
    show "k = of_nat (unat k)" by simp
    show "unat k \<in> {1..<256}" using that unsigned_less [of k, where 'a = nat] by (simp add: Suc_le_eq unat_gt_0)
  qed
  moreover have "(of_nat n :: u8) \<noteq> 0" if "n \<in> {1..<256}" for n
    using that by (auto simp: word_of_nat_eq_0_iff dest: nat_dvd_not_less)
  ultimately show ?thesis unfolding key_codes_def set_map set_upt by auto
qed

lemma keys_distinct: "distinct key_codes"
proof -
  have "inj_on (of_nat :: nat \<Rightarrow> u8) {1..<256}"
  proof (rule inj_onI)
    fix m n assume "m \<in> {1..<256}" "n \<in> {1..<256}" "(of_nat m :: u8) = of_nat n"
    then show "m = n" by (simp add: word_of_nat_eq_iff take_bit_nat_eq_self)
  qed
  then show ?thesis unfolding key_codes_def distinct_map set_upt by simp
qed


text \<open>What \<^verbatim>\<open>OnInterruptCompleted\<close> does with a report before it asks for the next one.\<close>

definition receive :: "u8 list \<Rightarrow> int \<Rightarrow> HidDriver \<Rightarrow> (hid_event list \<times> HidDriver) option" where
  "receive buf len d = map_option (\<lambda>d'. (OnDataReceived buf d, d')) (keep_previous buf len d)"

fun receive_all :: "(u8 list \<times> int) list \<Rightarrow> HidDriver \<Rightarrow> (hid_event list \<times> HidDriver) option" where
  "receive_all [] d = Some ([], d)"
| "receive_all ((buf, len) # rs) d = (case receive buf len d of None \<Rightarrow> None
     | Some (es, d1) \<Rightarrow> map_option (\<lambda>(es', d'). (es @ es', d')) (receive_all rs d1))"

lemma held_changes:
  assumes "distinct (map fst chg)"
  shows "held (map (\<lambda>(key, pressed). KeyPush md key pressed) chg) ks
     = {k. (k, True) \<in> set chg} \<union> (ks - fst ` set chg)"
  using assms
proof (induction chg arbitrary: ks)
  case (Cons c chg)
  obtain k p where c: "c = (k, p)" by (cases c)
  have "(k, True) \<notin> set chg" using Cons.prems c by (force simp: image_iff)
  then show ?case using Cons.IH Cons.prems c by (cases p) auto
qed simp

lemma keyboard_held:
  assumes "num_observers d = 1"
  shows "held (keyboard_OnDataReceived buf d) (keys_of (previous_buf d)) = keys_of buf"
proof -
  let ?chg = "key_events (previous_buf d) buf"
  have e: "keyboard_OnDataReceived buf d = map (\<lambda>(key, pressed). KeyPush (buf ! 0) key pressed) ?chg"
    using assms by (simp add: keyboard_OnDataReceived_def Notify_def split_def)
  have m: "map fst ?chg = filter (\<lambda>key. report_keys (previous_buf d) key \<noteq> report_keys buf key) key_codes"
    by (simp add: key_events_def comp_def)
  have "distinct (map fst ?chg)" unfolding m by (rule distinct_filter [OF keys_distinct])
  note H = held_changes [OF this, of "buf ! 0" "keys_of (previous_buf d)"]
  have chg: "(k, p) \<in> set ?chg \<longleftrightarrow> k \<noteq> 0 \<and> p = report_keys buf k
      \<and> report_keys (previous_buf d) k \<noteq> report_keys buf k" for k p
    unfolding key_events_def set_map set_filter all_keys by (simp add: image_iff) blast
  have "fst ` set ?chg = {k. k \<noteq> 0 \<and> report_keys (previous_buf d) k \<noteq> report_keys buf k}"
    unfolding set_map [symmetric] m set_filter all_keys by blast
  then show ?thesis unfolding e H using chg by (auto simp: keys_of_def report_keys_def)
qed

text \<open>
  C31: the keyboard driver and its observer never lose track of a key.  Over any sequence of full
  reports (at least eight bytes each), the presses and releases that are notified, applied in order
  to the keys of the report before, yield exactly the keys of the last report; the driver's previous
  buffer then holds that report's keys again.
\<close>

theorem keyboard_tracks_keys:
  assumes "hid_kind d = HidKeyboard" and "num_observers d = 1" and "length (previous_buf d) = kBufferSize"
    and "\<forall>(buf, len) \<in> set rs. length buf = kBufferSize \<and> 8 \<le> len \<and> len \<le> int kBufferSize"
  shows "\<exists>es d'. receive_all rs d = Some (es, d')
    \<and> held es (keys_of (previous_buf d)) = keys_of (if rs = [] then previous_buf d else fst (last rs))
    \<and> keys_of (previous_buf d') = keys_of (if rs = [] then previous_buf d else fst (last rs))"
  using assms
proof (induction rs arbitrary: d)
  case (Cons r rs)
  obtain buf len where r: "r = (buf, len)" by (cases r)
  let ?d = "d\<lparr>previous_buf := take (nat len) buf @ drop (nat len) (previous_buf d)\<rparr>"
  have l: "length buf = kBufferSize" "8 \<le> len" "len \<le> int kBufferSize" using Cons.prems(4) r by auto
  have R: "receive buf len d = Some (keyboard_OnDataReceived buf d, ?d)"
    using l Cons.prems(1,3) by (simp add: receive_def keep_previous_def OnDataReceived_def)
  have "8 \<le> nat len" "nat len \<le> length buf" using l by auto
  then have "take 6 (drop 2 (take (nat len) buf @ drop (nat len) (previous_buf d))) = take 6 (drop 2 buf)"
  proof -
    assume n: "8 \<le> nat len" "nat len \<le> length buf"
    then have "drop 2 (take (nat len) buf @ ys) = take (nat len - 2) (drop 2 buf) @ ys" for ys
      by (simp add: drop_take)
    moreover have "length (take (nat len - 2) (drop 2 buf)) = nat len - 2" using n by simp
    moreover have "min 6 (nat len - 2) = 6" using n by simp
    ultimately show ?thesis using n by (simp only: take_append take_take) simp
  qed
  then have k: "keys_of (previous_buf ?d) = keys_of buf" by (simp add: keys_of_def)
  have "length (previous_buf ?d) = kBufferSize" using l Cons.prems(3) by simp
  then obtain es d' where "receive_all rs ?d = Some (es, d')"
    "held es (keys_of buf) = keys_of (if rs = [] then previous_buf ?d else fst (last rs))"
    "keys_of (previous_buf d') = keys_of (if rs = [] then previous_buf ?d else fst (last rs))"
    using Cons.IH [of ?d] Cons.prems k by auto
  moreover note keyboard_held [OF Cons.prems(2), of buf]
  ultimately show ?case using R r k by (auto simp: held_append)
qed simp

definition report_example :: "u8 list \<Rightarrow> u8 list" where
  "report_example keys = [2, 0] @ take 6 (keys @ replicate 6 0) @ replicate 1016 0"

theorem keyboard_tracks_keys_witness:
  "\<exists>es d'. receive_all [(report_example [4, 5], 8), (report_example [5, 6], 8)]
       ((HIDKeyboardDriver_init 0 0)\<lparr>num_observers := 1\<rparr>) = Some (es, d') \<and> held es {} = {5, 6}"
proof -
  let ?d = "(HIDKeyboardDriver_init 0 0)\<lparr>num_observers := 1\<rparr>"
  have k0: "keys_of (previous_buf ?d) = {}"
    by (simp add: keys_of_def HIDKeyboardDriver_init_def HIDBaseDriver_init_def kBufferSize_def del: replicate.simps)
  have "keys_of (report_example [5, 6]) = {5, 6}"
    by (auto simp: keys_of_def report_example_def)
  then show ?thesis
    using keyboard_tracks_keys [of ?d "[(report_example [4, 5], 8), (report_example [5, 6], 8)]"] k0
    by (simp add: HIDKeyboardDriver_init_def HIDBaseDriver_init_def kBufferSize_def report_example_def
        del: replicate.simps) blast
qed

section \<open>From keys to messages\<close>

definition kLShiftBitMask :: u8 where "kLShiftBitMask = 0x02"
definition kRShiftBitMask :: u8 where "kRShiftBitMask = 0x20"

text \<open>
  The two tables have 256 entries; those not written out in the source are zero.  \<open>chars\<close> is a run of
  printable characters, \<open>gap n\<close> one of zeros.
\<close>

definition gap :: "nat \<Rightarrow> u8 list" where
  "gap n = replicate n 0"

definition keycode_map :: "u8 list" where
  "keycode_map = gap 4 @ str ''abcdefghijklmnopqrstuvwxyz1234567890'' @ [10, 8, 8, 9] @ str '' -=[]'' @ [92]
     @ str ''#;'' @ [39, 96] @ str '',./'' @ gap 27 @ str ''/*-+'' @ [10] @ str ''1234567890.'' @ [92]
     @ gap 2 @ str ''='' @ gap 33 @ [92] @ gap 118"

definition keycode_map_shifted :: "u8 list" where
  "keycode_map_shifted = gap 4 @ str ''ABCDEFGHIJKLMNOPQRSTUVWXYZ!@#$%^&*()'' @ [10, 8, 8, 9] @ str '' _+{}|''
     @ str ''~:'' @ [34, 126] @ str ''<>?'' @ gap 27 @ str ''/*-+'' @ [10] @ str ''1234567890.'' @ [92]
     @ gap 2 @ str ''='' @ gap 33 @ str ''|'' @ gap 118"

lemma keycode_map_length [simp]: "length keycode_map = 256" "length keycode_map_shifted = 256"
  by (simp_all add: keycode_map_def keycode_map_shifted_def gap_def str_def)

definition key_ascii :: "u8 \<Rightarrow> u8 \<Rightarrow> u8 option" where
  "key_ascii md code = (if md AND (kLShiftBitMask OR kRShiftBitMask) \<noteq> 0
     then arr_get keycode_map_shifted (unat code) else arr_get keycode_map (unat code))"

lemma key_ascii_defined: "key_ascii md code \<noteq> None"
  using unsigned_less [of code, where 'a = nat] by (simp add: key_ascii_def)

definition keyboard_message :: "u8 \<Rightarrow> u8 \<Rightarrow> bool \<Rightarrow> Message option" where
  "keyboard_message md code pressed = map_option (\<lambda>a.
     \<lparr>msg_type = kKeyPush, src_task_id = 0, arg = KeyArg md code a pressed\<rparr>) (key_ascii md code)"

text \<open>The default observer of \<^verbatim>\<open>InitializeKeyboard\<close>: the message goes to task 1, the main task.\<close>

definition keyboard_observer :: "u8 \<Rightarrow> u8 \<Rightarrow> bool \<Rightarrow> TaskManager \<Rightarrow> TaskManager option" where
  "keyboard_observer md code pressed m = do {
     msg \<leftarrow> keyboard_message md code pressed;
     (m, e) \<leftarrow> SendMessage 1 msg m;
     Some m }"

end
