(* ===== verification/Usb_Device.thy ===== *)
theory Usb_Device imports Usb_Ring Hid begin

text \<open>
  A USB device behind the host controller: \<^verbatim>\<open>kernel/usb/xhci/device.cpp\<close>, the descriptors of
  \<^verbatim>\<open>kernel/usb/descriptor.hpp\<close>, and the requests of the HID drivers (\<^verbatim>\<open>kernel/usb/classdriver/hid.cpp\<close>).

  Control and interrupt transfers are pushed on the device's rings, transfer events are matched with
  the setup stage they belong to, and four phases read the descriptors, choose a class driver and set
  the configuration.

  A class driver is an entry of the device's list \<open>drivers\<close>; a pointer to it is its index.  The sizes
  of the C++ objects and the place of \<^verbatim>\<open>_buf\<close> in a driver are parameters (\<open>UsbEnv\<close>).  A descriptor
  that makes a loop run forever, and a read outside mapped memory, are the value \<open>None\<close>.
\<close>

section \<open>State\<close>

record UsbEnv =
  driver_size :: u64
  driver_buf_offset :: u64
  observers_set :: bool

record UsbMem =
  pool :: UsbPool
  trbs :: trb_mem
  bytes :: "u64 \<Rightarrow> u8 option"
  doorbells :: "(u8 \<times> u8) list"
  notified :: "hid_event list"

definition with_trbs :: "trb_mem \<Rightarrow> UsbMem \<Rightarrow> UsbMem" where
  "with_trbs t u = u\<lparr>trbs := t\<rparr>"

text \<open>\<^verbatim>\<open>DoorbellRegister::Ring\<close>: register \<open>index\<close> is written with the target in its low byte.\<close>

definition Doorbell :: "u8 \<Rightarrow> u8 \<Rightarrow> UsbMem \<Rightarrow> UsbMem" where
  "Doorbell index target u = u\<lparr>doorbells := doorbells u @ [(index, target)]\<rparr>"

record Interface =
  interface_number :: u8
  num_endpoints :: u8
  interface_class :: u8
  interface_sub_class :: u8
  interface_protocol :: u8

record Device =
  slot_id :: u8
  transfer_rings :: "Ring option list"
  setup_stage_map :: "(u64, u64) ArrayMap"
  class_drivers :: "nat option list"
  drivers :: "HidDriver list"
  dev_buf :: u64
  interfaces :: "Interface list"
  is_initialized :: bool
  initialize_phase :: nat
  ep_configs :: "EndpointConfig list"
  ep_configs_len :: nat
  event_waiters :: "(SetupData, nat) ArrayMap"

definition no_interface :: Interface where
  "no_interface = \<lparr>interface_number = 0, num_endpoints = 0, interface_class = 0, interface_sub_class = 0,
     interface_protocol = 0\<rparr>"

definition no_config :: EndpointConfig where
  "no_config = \<lparr>ep_id = 0, ep_type = kControl, max_packet_size = 0, interval = 0\<rparr>"

definition no_setup :: SetupData where
  "no_setup = \<lparr>request_type = 0, request = 0, wValue = 0, wIndex = 0, wLength = 0\<rparr>"

text \<open>The object lives in memory that \<^verbatim>\<open>AllocArray\<close> has cleared.\<close>

definition Device_init :: "u8 \<Rightarrow> u64 \<Rightarrow> Device" where
  "Device_init sl buf = \<lparr>slot_id = sl, transfer_rings = replicate 31 None,
     setup_stage_map = replicate 16 (None, 0), class_drivers = replicate 16 None, drivers = [],
     dev_buf = buf, interfaces = replicate 3 no_interface, is_initialized = False, initialize_phase = 0,
     ep_configs = replicate 16 no_config, ep_configs_len = 0,
     event_waiters = replicate 4 (None, 0)\<rparr>"

text \<open>
  An operation of the device returns the new device and memory and its error code, or \<open>None\<close>.
\<close>

type_synonym dev_result = "(Device \<times> UsbMem \<times> error_code) option"

section \<open>Rings of a device\<close>

text \<open>\<^verbatim>\<open>sizeof(Ring)\<close> is 32; the error of \<^verbatim>\<open>Ring::Initialize\<close> is ignored.\<close>

definition AllocTransferRing :: "EndpointID \<Rightarrow> nat \<Rightarrow> Device \<Rightarrow> UsbMem \<Rightarrow> (Device \<times> UsbMem \<times> Ring option) option" where
  "AllocTransferRing ep buf_size d u = (case AllocArray 32 1 64 4096 (pool u) of (a, p1) \<Rightarrow>
     (if ep = 0 then None
      else if a = 0 then do {
        rs \<leftarrow> arr_set (transfer_rings d) (ep - 1) None;
        Some (d\<lparr>transfer_rings := rs\<rparr>, u\<lparr>pool := p1\<rparr>, None) }
      else (case Ring_Initialize buf_size p1 (trbs u) of (r, p2, m, e) \<Rightarrow> do {
        rs \<leftarrow> arr_set (transfer_rings d) (ep - 1) (Some r);
        Some (d\<lparr>transfer_rings := rs\<rparr>, u\<lparr>pool := p2, trbs := m\<rparr>, Some r) })))"

definition get_ring :: "EndpointID \<Rightarrow> Device \<Rightarrow> Ring option option" where
  "get_ring ep d = (if ep = 0 then None else arr_get (transfer_rings d) (ep - 1))"

text \<open>\<^verbatim>\<open>tr->Push\<close> through the pointer kept in the device; the result is the address of the block.\<close>

definition push_on :: "EndpointID \<Rightarrow> TRB \<Rightarrow> Device \<Rightarrow> UsbMem \<Rightarrow> (Device \<times> UsbMem \<times> u64) option" where
  "push_on ep t d u = do {
     ring \<leftarrow> get_ring ep d;
     r \<leftarrow> ring;
     (r', m, a) \<leftarrow> ring_Push t r (trbs u);
     Some (d\<lparr>transfer_rings := (transfer_rings d)[ep - 1 := Some r']\<rparr>, with_trbs m u, a) }"

definition setup_stage_of :: "SetupData \<Rightarrow> u32 \<Rightarrow> TRB" where
  "setup_stage_of sd ty = SetupStageTRB (request_type sd) (request sd) (wValue sd) (wIndex sd) (wLength sd) ty"

text \<open>What \<^verbatim>\<open>OnTransferEventReceived\<close> reads back from a setup stage.\<close>

definition setup_data_of :: "TRB \<Rightarrow> SetupData" where
  "setup_data_of t = \<lparr>request_type = ucast (field 0 8 (dat0 t)), request = ucast (field 8 8 (dat0 t)),
     wValue = ucast (field 16 16 (dat0 t)), wIndex = ucast (field 0 16 (dat1 t)),
     wLength = ucast (field 16 16 (dat1 t))\<rparr>"

definition put_waiter :: "SetupData \<Rightarrow> nat option \<Rightarrow> Device \<Rightarrow> Device" where
  "put_waiter sd issuer d = (case issuer of None \<Rightarrow> d
     | Some drv \<Rightarrow> d\<lparr>event_waiters := Put sd drv (event_waiters d)\<rparr>)"

definition put_setup :: "u64 \<Rightarrow> u64 \<Rightarrow> Device \<Rightarrow> Device" where
  "put_setup issuer_pos setup_pos d = d\<lparr>setup_stage_map := Put issuer_pos setup_pos (setup_stage_map d)\<rparr>"

definition ControlIn :: "EndpointID \<Rightarrow> SetupData \<Rightarrow> u64 \<Rightarrow> int \<Rightarrow> nat option \<Rightarrow> Device \<Rightarrow> UsbMem \<Rightarrow> dev_result" where
  "ControlIn ep sd buf len issuer d u =
     (if 15 < Number ep then Some (d, u, kInvalidEndpointNumber)
      else do {
        let d = put_waiter sd issuer d;
        ring \<leftarrow> get_ring ep d;
        (if ring = None then Some (d, u, kTransferRingNotSet)
         else do {
           (d, u, setup_trb_position) \<leftarrow> push_on ep (setup_stage_of sd kInDataStage) d u;
           (d, u, data_trb_position) \<leftarrow> push_on ep (DataStageTRB buf (word_of_int len)) d u;
           (d, u, _) \<leftarrow> push_on ep StatusStageTRB d u;
           Some (put_setup data_trb_position setup_trb_position d, Doorbell (slot_id d) (of_nat ep) u, kSuccess)
         })
      })"

definition ControlOut :: "EndpointID \<Rightarrow> SetupData \<Rightarrow> nat option \<Rightarrow> Device \<Rightarrow> UsbMem \<Rightarrow> dev_result" where
  "ControlOut ep sd issuer d u =
     (if 15 < Number ep then Some (d, u, kInvalidEndpointNumber)
      else do {
        let d = put_waiter sd issuer d;
        ring \<leftarrow> get_ring ep d;
        (if ring = None then Some (d, u, kTransferRingNotSet)
         else do {
           (d, u, setup_trb_position) \<leftarrow> push_on ep (setup_stage_of sd kNoDataStage) d u;
           (d, u, status_trb_position) \<leftarrow> push_on ep StatusStageTRB_out d u;
           Some (put_setup status_trb_position setup_trb_position d, Doorbell (slot_id d) (of_nat ep) u, kSuccess)
         })
      })"

definition InterruptIn :: "EndpointID \<Rightarrow> u64 \<Rightarrow> int \<Rightarrow> Device \<Rightarrow> UsbMem \<Rightarrow> dev_result" where
  "InterruptIn ep buf len d u = do {
     ring \<leftarrow> get_ring ep d;
     (if ring = None then Some (d, u, kTransferRingNotSet)
      else do {
        (d, u, _) \<leftarrow> push_on ep (NormalTRB buf (word_of_int len)) d u;
        Some (d, Doorbell (slot_id d) (of_nat ep) u, kSuccess) })
   }"

section \<open>Descriptors\<close>

text \<open>\<^verbatim>\<open>kType\<close> of the descriptors; all of them start with a length and a type byte.\<close>

definition kDeviceDescriptor :: u8 where "kDeviceDescriptor = 1"
definition kConfigurationDescriptor :: u8 where "kConfigurationDescriptor = 2"
definition kInterfaceDescriptor :: u8 where "kInterfaceDescriptor = 4"
definition kEndpointDescriptor :: u8 where "kEndpointDescriptor = 5"
definition kHIDDescriptor :: u8 where "kHIDDescriptor = 33"

definition DescriptorDynamicCast :: "u8 \<Rightarrow> u64 \<Rightarrow> UsbMem \<Rightarrow> bool option" where
  "DescriptorDynamicCast ty p u = map_option (\<lambda>t. t = ty) (bytes u (p + 1))"

definition read_interface :: "u64 \<Rightarrow> UsbMem \<Rightarrow> Interface option" where
  "read_interface p u = do {
     n \<leftarrow> bytes u (p + 2);
     e \<leftarrow> bytes u (p + 4);
     c \<leftarrow> bytes u (p + 5);
     s \<leftarrow> bytes u (p + 6);
     pr \<leftarrow> bytes u (p + 7);
     Some \<lparr>interface_number = n, num_endpoints = e, interface_class = c, interface_sub_class = s,
       interface_protocol = pr\<rparr> }"

definition endpoint_type :: "u8 \<Rightarrow> EndpointType" where
  "endpoint_type v = (if v AND 3 = 0 then kControl else if v AND 3 = 1 then kIsochronous
     else if v AND 3 = 2 then kBulk else kInterrupt)"

definition read_endpoint :: "u64 \<Rightarrow> UsbMem \<Rightarrow> EndpointConfig option" where
  "read_endpoint p u = do {
     a \<leftarrow> bytes u (p + 2);
     t \<leftarrow> bytes u (p + 3);
     lo \<leftarrow> bytes u (p + 4);
     hi \<leftarrow> bytes u (p + 5);
     i \<leftarrow> bytes u (p + 6);
     Some \<lparr>ep_id = make_endpoint (unat (a AND 0x0f)) (bit a 7), ep_type = endpoint_type t,
       max_packet_size = uint lo + 256 * uint hi, interval = uint i\<rparr> }"

text \<open>
  \<^verbatim>\<open>ConfigurationDescriptorReader::Next\<close>: the reader's position moves by the length byte at the old
  position; beyond the end the result is the null pointer (here \<open>False\<close>), but the position has moved.
\<close>

definition reader_Next :: "u64 \<Rightarrow> u64 \<Rightarrow> UsbMem \<Rightarrow> (u64 \<times> bool) option" where
  "reader_Next lim p u = map_option (\<lambda>l. (p + ucast l, p + ucast l < lim)) (bytes u p)"

partial_function (option) reader_Next_of :: "u64 \<Rightarrow> u8 \<Rightarrow> UsbMem \<Rightarrow> u64 \<Rightarrow> (u64 \<times> bool) option" where
  "reader_Next_of lim ty u p = (case reader_Next lim p u of None \<Rightarrow> None
     | Some (q, found) \<Rightarrow> if \<not> found then Some (q, False)
         else (case DescriptorDynamicCast ty q u of None \<Rightarrow> None
               | Some ok \<Rightarrow> if ok then Some (q, True) else reader_Next_of lim ty u q))"

section \<open>Requests of the HID drivers\<close>

definition update_driver :: "nat \<Rightarrow> HidDriver \<Rightarrow> Device \<Rightarrow> Device" where
  "update_driver i h d = d\<lparr>drivers := (drivers d)[i := h]\<rparr>"

definition set_protocol_request :: "int \<Rightarrow> SetupData" where
  "set_protocol_request iface = \<lparr>request_type = make_request_type kInterface kClass kOut,
     request = kSetProtocol, wValue = 0, wIndex = word_of_int iface, wLength = 0\<rparr>"

definition hid_OnEndpointsConfigured :: "nat \<Rightarrow> Device \<Rightarrow> UsbMem \<Rightarrow> dev_result" where
  "hid_OnEndpointsConfigured i d u = do {
     h \<leftarrow> arr_get (drivers d) i;
     ControlOut kDefaultControlEpId (set_protocol_request (interface_index h)) (Some i)
       (update_driver i (h\<lparr>hid_phase := 1\<rparr>) d) u }"

definition hid_OnControlCompleted :: "nat \<Rightarrow> Device \<Rightarrow> UsbMem \<Rightarrow> dev_result" where
  "hid_OnControlCompleted i d u = do {
     h \<leftarrow> arr_get (drivers d) i;
     (if hid_phase h = 1
      then InterruptIn (ep_interrupt_in h) (hid_buf h) (in_packet_size h)
             (update_driver i (h\<lparr>hid_phase := 2\<rparr>) d) u
      else Some (d, u, kInvalidPhase)) }"

text \<open>The \<^verbatim>\<open>kBufferSize\<close> bytes of a driver's \<^verbatim>\<open>_buf\<close>.\<close>

definition driver_report :: "HidDriver \<Rightarrow> UsbMem \<Rightarrow> u8 list option" where
  "driver_report h u = those (map (\<lambda>k. bytes u (hid_buf h + of_nat k)) [0..<kBufferSize])"

definition hid_OnInterruptCompleted :: "EndpointID \<Rightarrow> int \<Rightarrow> nat \<Rightarrow> Device \<Rightarrow> UsbMem \<Rightarrow> dev_result" where
  "hid_OnInterruptCompleted ep len i d u = do {
     h \<leftarrow> arr_get (drivers d) i;
     (if IsDirIn ep then do {
        buf \<leftarrow> driver_report h u;
        (es, h') \<leftarrow> receive buf len h;
        InterruptIn (ep_interrupt_in h') (hid_buf h') (in_packet_size h')
          (update_driver i h' d) (u\<lparr>notified := notified u @ es\<rparr>) }
      else Some (d, u, kNotImplemented)) }"


section \<open>Initialisation\<close>

definition get_descriptor_request :: "u8 \<Rightarrow> u8 \<Rightarrow> int \<Rightarrow> SetupData" where
  "get_descriptor_request desc_type desc_index len =
     \<lparr>request_type = make_request_type kDevice kStandard kIn, request = kGetDescriptor,
       wValue = push_bit 8 (ucast desc_type) OR ucast desc_index, wIndex = 0, wLength = word_of_int len\<rparr>"

definition GetDescriptor :: "EndpointID \<Rightarrow> u8 \<Rightarrow> u8 \<Rightarrow> u64 \<Rightarrow> int \<Rightarrow> Device \<Rightarrow> UsbMem \<Rightarrow> dev_result" where
  "GetDescriptor ep desc_type desc_index buf len d u =
     ControlIn ep (get_descriptor_request desc_type desc_index len) buf len None d u"

definition set_configuration_request :: "u8 \<Rightarrow> SetupData" where
  "set_configuration_request config_value = \<lparr>request_type = make_request_type kDevice kStandard kOut,
     request = kSetConfiguration, wValue = ucast config_value, wIndex = 0, wLength = 0\<rparr>"

definition SetConfiguration :: "EndpointID \<Rightarrow> u8 \<Rightarrow> Device \<Rightarrow> UsbMem \<Rightarrow> dev_result" where
  "SetConfiguration ep config_value d u = ControlOut ep (set_configuration_request config_value) None d u"

text \<open>\<^verbatim>\<open>_desc_index\<close> stays \<open>0\<close>; \<^verbatim>\<open>_buf\<close> has 256 bytes.\<close>

definition StartInitialize :: "Device \<Rightarrow> UsbMem \<Rightarrow> dev_result" where
  "StartInitialize d u = GetDescriptor kDefaultControlEpId kDeviceDescriptor 0 (dev_buf d) 256
     (d\<lparr>is_initialized := False, initialize_phase := 1\<rparr>) u"

definition InitializePhase2 :: "u64 \<Rightarrow> int \<Rightarrow> Device \<Rightarrow> UsbMem \<Rightarrow> dev_result" where
  "InitializePhase2 buf len d u = do {
     let d = d\<lparr>initialize_phase := 2\<rparr>;
     ok \<leftarrow> DescriptorDynamicCast kDeviceDescriptor buf u;
     (if \<not> ok then Some (d, u, kInvalidDescriptor)
      else GetDescriptor kDefaultControlEpId kConfigurationDescriptor 0 (dev_buf d) 256 d u) }"

text \<open>
  A new driver is allocated from the pool (a null pointer would be dereferenced by its constructor)
  and subscribes the default observer when there is one.
\<close>

definition new_driver :: "UsbEnv \<Rightarrow> (u64 \<Rightarrow> HidDriver) \<Rightarrow> Device \<Rightarrow> UsbMem \<Rightarrow> (Device \<times> UsbMem \<times> nat) option" where
  "new_driver env mk d u = (case AllocMem (driver_size env) 0 0 (pool u) of (a, p) \<Rightarrow>
     if a = 0 then None else do {
       h \<leftarrow> (if observers_set env then Subscribe (mk (a + driver_buf_offset env))
             else Some (mk (a + driver_buf_offset env)));
       Some (d\<lparr>drivers := drivers d @ [h]\<rparr>, u\<lparr>pool := p\<rparr>, length (drivers d)) })"

definition FindClassDriver :: "UsbEnv \<Rightarrow> Interface \<Rightarrow> Device \<Rightarrow> UsbMem \<Rightarrow> (Device \<times> UsbMem \<times> nat option) option" where
  "FindClassDriver env if_desc d u =
     (if interface_class if_desc = 3 \<and> interface_sub_class if_desc = 1 then
        (if interface_protocol if_desc = 1 then
           map_option (\<lambda>(d, u, i). (d, u, Some i))
             (new_driver env (HIDKeyboardDriver_init (uint (interface_number if_desc))) d u)
         else if interface_protocol if_desc = 2 then
           map_option (\<lambda>(d, u, i). (d, u, Some i))
             (new_driver env (HIDMouseDriver_init (uint (interface_number if_desc))) d u)
         else Some (d, u, None))
      else Some (d, u, None))"

text \<open>
  The endpoints of the interface: \<^verbatim>\<open>_ep_configs\<close> has 16 places, the count comes from the device.  The
  last component says whether \<^verbatim>\<open>class_driver\<close> is still set after the loop.
\<close>

definition add_endpoint :: "nat \<Rightarrow> EndpointConfig \<Rightarrow> Device \<Rightarrow> Device option" where
  "add_endpoint drv c d = do {
     es \<leftarrow> arr_set (ep_configs d) (ep_configs_len d) c;
     ds \<leftarrow> arr_set (class_drivers d) (Number (ep_id c)) (Some drv);
     Some (d\<lparr>ep_configs := es, ep_configs_len := ep_configs_len d + 1, class_drivers := ds\<rparr>) }"

partial_function (option) endpoint_loop ::
  "u64 \<Rightarrow> nat \<Rightarrow> nat \<Rightarrow> UsbMem \<Rightarrow> u64 \<Rightarrow> Device \<Rightarrow> (Device \<times> bool) option" where
  "endpoint_loop lim n drv u p d =
     (if \<not> ep_configs_len d < n then Some (d, True)
      else (case reader_Next lim p u of None \<Rightarrow> None
        | Some (q, found) \<Rightarrow>
            if \<not> found then Some (d, False)
            else (case DescriptorDynamicCast kEndpointDescriptor q u of None \<Rightarrow> None
              | Some is_ep \<Rightarrow>
                  if is_ep then (case read_endpoint q u of None \<Rightarrow> None
                    | Some c \<Rightarrow> (case add_endpoint drv c d of None \<Rightarrow> None
                        | Some d' \<Rightarrow> endpoint_loop lim n drv u q d'))
                  else endpoint_loop lim n drv u q d)))"

definition store_interface :: "nat \<Rightarrow> Interface \<Rightarrow> Device \<Rightarrow> nat \<times> Device" where
  "store_interface if_index f d =
     (if if_index < 3 then (if_index + 1, d\<lparr>interfaces := (interfaces d)[if_index := f]\<rparr>) else (if_index, d))"

text \<open>The loop over the interfaces; the last component is \<^verbatim>\<open>class_driver\<close> after the loop.\<close>

partial_function (option) interface_loop ::
  "UsbEnv \<Rightarrow> u64 \<Rightarrow> u64 \<Rightarrow> nat \<Rightarrow> Device \<Rightarrow> UsbMem \<Rightarrow> (Device \<times> UsbMem \<times> nat option) option" where
  "interface_loop env lim p if_index d u =
     (case reader_Next_of lim kInterfaceDescriptor u p of None \<Rightarrow> None
      | Some (q, found) \<Rightarrow>
          if \<not> found then Some (d, u, None)
          else (case read_interface q u of None \<Rightarrow> None
            | Some f \<Rightarrow> (case FindClassDriver env f (snd (store_interface if_index f d)) u of None \<Rightarrow> None
                | Some (d2, u2, drv) \<Rightarrow>
                    (case drv of
                       None \<Rightarrow> interface_loop env lim q (fst (store_interface if_index f d)) d2 u2
                     | Some i \<Rightarrow>
                         (case endpoint_loop lim (unat (num_endpoints f)) i u2 q (d2\<lparr>ep_configs_len := 0\<rparr>) of
                            None \<Rightarrow> None
                          | Some (d3, kept) \<Rightarrow> Some (d3, u2, if kept then Some i else None))))))"

definition InitializePhase3 :: "UsbEnv \<Rightarrow> u64 \<Rightarrow> int \<Rightarrow> Device \<Rightarrow> UsbMem \<Rightarrow> dev_result" where
  "InitializePhase3 env buf len d u = do {
     let d = d\<lparr>initialize_phase := 3\<rparr>;
     ok \<leftarrow> DescriptorDynamicCast kConfigurationDescriptor buf u;
     (if \<not> ok then Some (d, u, kInvalidDescriptor)
      else do {
        (d, u, class_driver) \<leftarrow> interface_loop env (buf + word_of_int len) buf 0 d u;
        (if class_driver = None then Some (d, u, kSuccess)
         else do {
           v \<leftarrow> bytes u (buf + 5);
           SetConfiguration kDefaultControlEpId v d u })
      }) }"

definition set_endpoint :: "nat \<Rightarrow> Device \<Rightarrow> Device option" where
  "set_endpoint k d = do {
     c \<leftarrow> arr_get (ep_configs d) k;
     drv \<leftarrow> arr_get (class_drivers d) (Number (ep_id c));
     i \<leftarrow> drv;
     h \<leftarrow> arr_get (drivers d) i;
     Some (update_driver i (SetEndpoint c h) d) }"

definition InitializePhase4 :: "u8 \<Rightarrow> Device \<Rightarrow> UsbMem \<Rightarrow> dev_result" where
  "InitializePhase4 config_value d u = do {
     d \<leftarrow> for_each set_endpoint [0..<ep_configs_len d] (d\<lparr>initialize_phase := 4\<rparr>);
     Some (d\<lparr>is_initialized := True\<rparr>, u, kSuccess) }"

section \<open>Events of a device\<close>

definition OnControlCompleted :: "UsbEnv \<Rightarrow> EndpointID \<Rightarrow> SetupData \<Rightarrow> u64 \<Rightarrow> int \<Rightarrow> Device \<Rightarrow> UsbMem \<Rightarrow> dev_result" where
  "OnControlCompleted env ep sd buf len d u =
     (if is_initialized d then
        (case Get sd (event_waiters d) of
           None \<Rightarrow> Some (d, u, kNoWaiter)
         | Some i \<Rightarrow> hid_OnControlCompleted i d u)
      else if initialize_phase d = 1 then
        (if request sd = kGetDescriptor then
           Option.bind (DescriptorDynamicCast kDeviceDescriptor buf u) (\<lambda>ok.
             if ok then InitializePhase2 buf len d u else Some (d, u, kInvalidPhase))
         else Some (d, u, kInvalidPhase))
      else if initialize_phase d = 2 then
        (if request sd = kGetDescriptor then
           Option.bind (DescriptorDynamicCast kConfigurationDescriptor buf u) (\<lambda>ok.
             if ok then InitializePhase3 env buf len d u else Some (d, u, kInvalidPhase))
         else Some (d, u, kInvalidPhase))
      else if initialize_phase d = 3 then
        (if request sd = kSetConfiguration then InitializePhase4 (ucast (wValue sd AND 0xff)) d u
         else Some (d, u, kInvalidPhase))
      else Some (d, u, kNotImplemented))"

definition OnInterruptCompleted :: "EndpointID \<Rightarrow> int \<Rightarrow> Device \<Rightarrow> UsbMem \<Rightarrow> dev_result" where
  "OnInterruptCompleted ep len d u = do {
     w \<leftarrow> arr_get (class_drivers d) (Number ep);
     (case w of None \<Rightarrow> Some (d, u, kNoWaiter) | Some i \<Rightarrow> hid_OnInterruptCompleted ep len i d u) }"

text \<open>
  The log statement looks the completion code up in a table of 37 names before anything else is
  checked, and follows the pointer to the block that caused the event.
\<close>

definition kTRBCompletionCodeToName_size :: nat where
  "kTRBCompletionCodeToName_size = 37"

definition log_transfer :: "TRB \<Rightarrow> UsbMem \<Rightarrow> unit option" where
  "log_transfer trb u =
     (if unat (completion_code trb) < kTRBCompletionCodeToName_size
         \<and> (event_data trb \<or> trbs u (pointer64 trb) \<noteq> None) then Some () else None)"

definition OnTransferEventReceived :: "UsbEnv \<Rightarrow> TRB \<Rightarrow> Device \<Rightarrow> UsbMem \<Rightarrow> dev_result" where
  "OnTransferEventReceived env trb d u = do {
     _ \<leftarrow> log_transfer trb u;
     (if completion_code trb \<noteq> 1 \<and> completion_code trb \<noteq> 13 then Some (d, u, kTransferFailed)
      else do {
        let issuer = pointer64 trb;
        issuer_trb \<leftarrow> trbs u issuer;
        let len = uint (trb_transfer_length issuer_trb) - uint (event_residual trb);
        let ep = unat (event_endpoint_id trb);
        (if trb_type issuer_trb = kNormalType then OnInterruptCompleted ep len d u
         else (case Get issuer (setup_stage_map d) of
             None \<Rightarrow> Some (d, u, kNoCorrespondingSetupStage)
           | Some setup_pos \<Rightarrow> do {
               let d = d\<lparr>setup_stage_map := Delete issuer (setup_stage_map d)\<rparr>;
               setup_trb \<leftarrow> trbs u setup_pos;
               let sd = setup_data_of setup_trb;
               (if trb_type issuer_trb = kDataType then
                  OnControlCompleted env ep sd (pointer64 issuer_trb) len d u
                else if trb_type issuer_trb = kStatusType then OnControlCompleted env ep sd 0 0 d u
                else Some (d, u, kNotImplemented)) }))
      }) }"

text \<open>\<^verbatim>\<open>Device::OnEndpointsConfigured\<close>: the drivers in the order of their endpoints, up to the first error.\<close>

fun endpoints_configured :: "nat option list \<Rightarrow> Device \<Rightarrow> UsbMem \<Rightarrow> dev_result" where
  "endpoints_configured [] d u = Some (d, u, kSuccess)"
| "endpoints_configured (None # ws) d u = endpoints_configured ws d u"
| "endpoints_configured (Some i # ws) d u = (case hid_OnEndpointsConfigured i d u of None \<Rightarrow> None
     | Some (d', u', e) \<Rightarrow> if e \<noteq> kSuccess then Some (d', u', e) else endpoints_configured ws d' u')"

definition OnEndpointsConfigured :: "Device \<Rightarrow> UsbMem \<Rightarrow> dev_result" where
  "OnEndpointsConfigured d u = endpoints_configured (class_drivers d) d u"


section \<open>A request and its answer\<close>

lemma ucast_field_same: "ucast (take_bit n (ucast w :: u32) :: u32) = w" if "LENGTH('a) \<le> n" "n \<le> 32" for w :: "'a::len word"
  using that by (intro bit_word_eqI) (auto simp: bit_simps dest: bit_imp_le_length)

lemma setup_data_roundtrip: "setup_data_of (with_cycle c (setup_stage_of sd ty)) = sd"
  by (simp add: setup_data_of_def setup_stage_of_def SetupStageTRB_def field_set_field field_set_field_other
      ucast_field_same)

lemma stage_types:
  "trb_type (setup_stage_of sd ty) = kSetupType" "trb_type (DataStageTRB buf w) = kDataType"
  "trb_type StatusStageTRB = kStatusType" "trb_type StatusStageTRB_out = kStatusType"
  "trb_type (NormalTRB buf w) = kNormalType"
  by (simp_all add: trb_type_def setup_stage_of_def SetupStageTRB_def DataStageTRB_def StatusStageTRB_def
      StatusStageTRB_out_def NormalTRB_def control_def field_set_field field_set_field_other kSetupType_def
      kDataType_def kStatusType_def kNormalType_def)

lemmas type_numbers = kSetupType_def kDataType_def kStatusType_def kNormalType_def kLinkType_def

lemma data_stage_fields:
  "pointer64 (with_cycle c (DataStageTRB buf w)) = buf"
  "trb_transfer_length (with_cycle c (DataStageTRB buf w)) = take_bit 17 w"
proof -
  have "(ucast (low32 buf) :: u64) OR push_bit 32 (ucast (high32 buf)) = buf"
  proof (rule bit_word_eqI)
    fix k assume "k < LENGTH(64)"
    then show "bit ((ucast (low32 buf) :: u64) OR push_bit 32 (ucast (high32 buf))) k = bit buf k"
      by (cases "k < 32") (auto simp: low32_def high32_def bit_simps)
  qed
  then show "pointer64 (with_cycle c (DataStageTRB buf w)) = buf" by (simp add: pointer64_def DataStageTRB_def)
  show "trb_transfer_length (with_cycle c (DataStageTRB buf w)) = take_bit 17 w"
    by (simp add: trb_transfer_length_def DataStageTRB_def field_set_field)
qed

lemma push_on_ok:
  assumes "get_ring ep d = Some (Some r)" and R: "ring_ok (trbs u) r" and "trb_type t \<noteq> kLinkType"
  obtains r' m' where
    "push_on ep t d u = Some (d\<lparr>transfer_rings := (transfer_rings d)[ep - 1 := Some r']\<rparr>, with_trbs m' u,
       slot (ring_buf r) (write_index r))"
    "get_ring ep (d\<lparr>transfer_rings := (transfer_rings d)[ep - 1 := Some r']\<rparr>) = Some (Some r')"
    "ring_ok m' r'" "ring_buf r' = ring_buf r" "ring_size r' = ring_size r" "write_index r' = next_index r"
    "m' (slot (ring_buf r) (write_index r)) = Some (with_cycle (ring_cycle r) t)"
    "\<And>i. i + 1 < ring_size r \<Longrightarrow> i \<noteq> write_index r \<Longrightarrow> m' (slot (ring_buf r) i) = trbs u (slot (ring_buf r) i)"
proof -
  obtain r' m' where P: "ring_Push t r (trbs u) = Some (r', m', slot (ring_buf r) (write_index r))"
    "ring_ok m' r'" "ring_buf r' = ring_buf r" "ring_size r' = ring_size r" "write_index r' = next_index r"
    "m' (slot (ring_buf r) (write_index r)) = Some (with_cycle (ring_cycle r) t)"
    "\<And>i. i + 1 < ring_size r \<Longrightarrow> i \<noteq> write_index r \<Longrightarrow> m' (slot (ring_buf r) i) = trbs u (slot (ring_buf r) i)"
    using ring_Push_ok [OF R assms(3)] by metis
  show ?thesis
    by (rule that [of r' m']) (use P assms(1) in \<open>auto simp: push_on_def get_ring_def arr_get_def split: if_splits\<close>)
qed

lemma three_indices:
  assumes "5 \<le> n" and "w + 1 < n"
  defines "w1 \<equiv> if w + 2 = n then 0 else w + 1"
  defines "w2 \<equiv> if w1 + 2 = n then 0 else w1 + 1"
  shows "w1 + 1 < n" "w2 + 1 < (n :: nat)" "w \<noteq> w1" "w \<noteq> w2" "w1 \<noteq> w2"
  using assms by auto

text \<open>The default control endpoint of a device can take a request.\<close>

definition control_ready :: "Device \<Rightarrow> UsbMem \<Rightarrow> bool" where
  "control_ready d u \<longleftrightarrow> (\<exists>r. get_ring 1 d = Some (Some r) \<and> ring_ok (trbs u) r \<and> 5 \<le> ring_size r)
     \<and> arraymap_inv (setup_stage_map d)"

lemma ControlIn_spec:
  assumes C: "control_ready d u"
    and fresh: "\<forall>r. get_ring 1 d = Some (Some r) \<longrightarrow>
      Get (slot (ring_buf r) (next_index r)) (setup_stage_map d) = None"
  obtains d1 u' pos setup_pos t1 t2 where
    "ControlIn kDefaultControlEpId sd buf len None d u = Some (put_setup pos setup_pos d1, u', kSuccess)"
    "setup_stage_map d1 = setup_stage_map d" "control_ready d1 u'"
    "trbs u' setup_pos = Some t1" "setup_data_of t1 = sd" "trbs u' pos = Some t2"
    "trb_type t2 = kDataType" "pointer64 t2 = buf" "trb_transfer_length t2 = take_bit 17 (word_of_int len)"
    "d1 = d\<lparr>transfer_rings := transfer_rings d1\<rparr>" "u' = u\<lparr>trbs := trbs u', doorbells := doorbells u @ [(slot_id d, 1)]\<rparr>"
    "Get pos (setup_stage_map d) = None"
proof -
  obtain r where r: "get_ring 1 d = Some (Some r)" "ring_ok (trbs u) r" "5 \<le> ring_size r" "arraymap_inv (setup_stage_map d)"
    using C by (auto simp: control_ready_def)
  let ?s = "slot (ring_buf r)" and ?w = "write_index r" and ?n = "ring_size r"
  have w: "?w + 1 < ?n" using r(2) by (simp add: ring_ok_def)
  define w1 where "w1 = next_index r"
  define w2 where "w2 = (if w1 + 2 = ?n then 0 else w1 + 1)"
  have ix: "w1 + 1 < ?n" "w2 + 1 < ?n" "?w \<noteq> w1" "?w \<noteq> w2" "w1 \<noteq> w2"
    using three_indices [OF r(3) w] by (simp_all add: w1_def w2_def next_index_def)
  have ep: "kDefaultControlEpId = 1" by (simp add: kDefaultControlEpId_def make_endpoint_def)
  have cyc: "\<And>m q. ring_ok m q \<Longrightarrow> ring_cycle q = 0 \<or> ring_cycle q = 1" by (simp add: ring_ok_def)
  have nl: "trb_type (setup_stage_of sd kInDataStage) \<noteq> kLinkType"
    "trb_type (DataStageTRB buf (word_of_int len)) \<noteq> kLinkType" "trb_type StatusStageTRB \<noteq> kLinkType"
    by (simp_all add: stage_types type_numbers)
  obtain r1 m1 where P1: "push_on 1 (setup_stage_of sd kInDataStage) d u
      = Some (d\<lparr>transfer_rings := (transfer_rings d)[1 - 1 := Some r1]\<rparr>, with_trbs m1 u, ?s ?w)"
    "get_ring 1 (d\<lparr>transfer_rings := (transfer_rings d)[1 - 1 := Some r1]\<rparr>) = Some (Some r1)"
    "ring_ok m1 r1" "ring_buf r1 = ring_buf r" "ring_size r1 = ?n" "write_index r1 = w1"
    "m1 (?s ?w) = Some (with_cycle (ring_cycle r) (setup_stage_of sd kInDataStage))"
    using push_on_ok [OF r(1,2) nl(1)] unfolding w1_def by metis
  define dA where "dA = d\<lparr>transfer_rings := (transfer_rings d)[1 - 1 := Some r1]\<rparr>"
  obtain r2 m2 where P2: "push_on 1 (DataStageTRB buf (word_of_int len)) dA (with_trbs m1 u)
      = Some (dA\<lparr>transfer_rings := (transfer_rings dA)[1 - 1 := Some r2]\<rparr>, with_trbs m2 (with_trbs m1 u), ?s w1)"
    "get_ring 1 (dA\<lparr>transfer_rings := (transfer_rings dA)[1 - 1 := Some r2]\<rparr>) = Some (Some r2)"
    "ring_ok m2 r2" "ring_buf r2 = ring_buf r" "ring_size r2 = ?n" "write_index r2 = w2"
    "m2 (?s w1) = Some (with_cycle (ring_cycle r1) (DataStageTRB buf (word_of_int len)))"
    "\<And>i. i + 1 < ?n \<Longrightarrow> i \<noteq> w1 \<Longrightarrow> m2 (?s i) = m1 (?s i)"
    using push_on_ok [of 1 dA r1 "with_trbs m1 u" "DataStageTRB buf (word_of_int len)"] P1 nl(2)
    unfolding dA_def w2_def by (simp add: with_trbs_def next_index_def) metis
  define dB where "dB = dA\<lparr>transfer_rings := (transfer_rings dA)[1 - 1 := Some r2]\<rparr>"
  obtain r3 m3 where P3: "push_on 1 StatusStageTRB dB (with_trbs m2 (with_trbs m1 u))
      = Some (dB\<lparr>transfer_rings := (transfer_rings dB)[1 - 1 := Some r3]\<rparr>,
           with_trbs m3 (with_trbs m2 (with_trbs m1 u)), ?s w2)"
    "get_ring 1 (dB\<lparr>transfer_rings := (transfer_rings dB)[1 - 1 := Some r3]\<rparr>) = Some (Some r3)"
    "ring_ok m3 r3" "ring_size r3 = ?n"
    "\<And>i. i + 1 < ?n \<Longrightarrow> i \<noteq> w2 \<Longrightarrow> m3 (?s i) = m2 (?s i)"
    using push_on_ok [of 1 dB r2 "with_trbs m2 (with_trbs m1 u)" StatusStageTRB] P2 nl(3)
    unfolding dB_def by (simp add: with_trbs_def) metis
  define dC where "dC = dB\<lparr>transfer_rings := (transfer_rings dB)[1 - 1 := Some r3]\<rparr>"
  let ?u = "Doorbell (slot_id dC) (of_nat 1) (with_trbs m3 (with_trbs m2 (with_trbs m1 u)))"
  have u: "trbs ?u = m3" "?u = u\<lparr>trbs := trbs ?u, doorbells := doorbells u @ [(slot_id d, 1)]\<rparr>"
    by (simp_all add: Doorbell_def with_trbs_def dC_def dB_def dA_def)
  have d: "setup_stage_map dC = setup_stage_map d" "dC = d\<lparr>transfer_rings := transfer_rings dC\<rparr>"
    by (simp_all add: dC_def dB_def dA_def)
  have ready: "control_ready dC ?u"
  proof -
    have "get_ring 1 dC = Some (Some r3)" using P3(2) unfolding dC_def .
    then show ?thesis using P3(3,4) r(3,4) d(1) u(1) unfolding control_ready_def by simp
  qed
  let ?t1 = "with_cycle (ring_cycle r) (setup_stage_of sd kInDataStage)"
  let ?t2 = "with_cycle (ring_cycle r1) (DataStageTRB buf (word_of_int len))"
  show ?thesis
  proof (rule that [OF _ d(1) ready _ _ _ _ _ _ d(2) u(2)])
    show "ControlIn kDefaultControlEpId sd buf len None d u = Some (put_setup (?s w1) (?s ?w) dC, ?u, kSuccess)"
      using r(1) P1(1) [folded dA_def] P2(1) [folded dB_def] P3(1) [folded dC_def] unfolding ControlIn_def ep
      by (simp add: Number_def put_waiter_def del: One_nat_def)
    show "trbs ?u (?s ?w) = Some ?t1" "trbs ?u (?s w1) = Some ?t2"
      unfolding u(1) using P1(7) P2(7,8) P3(5) ix w by simp_all
    show "setup_data_of ?t1 = sd" by (rule setup_data_roundtrip)
    show "trb_type ?t2 = kDataType" using cyc [OF P1(3)] by (simp add: stage_types)
    show "pointer64 ?t2 = buf" "trb_transfer_length ?t2 = take_bit 17 (word_of_int len)"
      by (rule data_stage_fields)+
    show "Get (?s w1) (setup_stage_map d) = None" using fresh r(1) by (simp add: w1_def)
  qed
qed


lemma card_used_keys: "arraymap_inv m \<Longrightarrow> card (dom (\<lambda>k. Get k m)) = length (used_keys m)"
  by (simp add: dom_Get arraymap_inv_def distinct_card)

text \<open>
  the answer to a control-in request finds its way back.  After \<^verbatim>\<open>ControlIn\<close> a transfer event that
  names the data stage is handed, with the request's own setup data, its buffer and the number of bytes
  received, to \<^verbatim>\<open>OnControlCompleted\<close>, and the table of outstanding requests is then what it was before;
  provided the table had room.  When all its places are taken the request is sent nevertheless, and its
  answer is refused with \<^verbatim>\<open>kNoCorrespondingSetupStage\<close>.
\<close>

theorem ControlIn_answer_finds_setup:
  assumes "control_ready d u" and "0 \<le> len" and "len < 2 ^ 17"
    and "\<forall>r. get_ring 1 d = Some (Some r) \<longrightarrow>
      Get (slot (ring_buf r) (next_index r)) (setup_stage_map d) = None"
  shows "\<exists>d' u' pos. ControlIn kDefaultControlEpId sd buf len None d u = Some (d', u', kSuccess)
    \<and> (\<forall>env trb. pointer64 trb = pos \<and> (completion_code trb = 1 \<or> completion_code trb = 13) \<longrightarrow>
        (if length (used_keys (setup_stage_map d)) < length (setup_stage_map d)
         then \<exists>m. (\<forall>k. Get k m = Get k (setup_stage_map d)) \<and>
           OnTransferEventReceived env trb d' u' = OnControlCompleted env (unat (event_endpoint_id trb)) sd buf
             (len - uint (event_residual trb)) (d'\<lparr>setup_stage_map := m\<rparr>) u'
         else OnTransferEventReceived env trb d' u' = Some (d', u', kNoCorrespondingSetupStage)))"
proof -
  let ?M = "setup_stage_map d"
  obtain d1 u' pos setup_pos t1 t2 where S:
    "ControlIn kDefaultControlEpId sd buf len None d u = Some (put_setup pos setup_pos d1, u', kSuccess)"
    "setup_stage_map d1 = ?M" "trbs u' setup_pos = Some t1" "setup_data_of t1 = sd" "trbs u' pos = Some t2"
    "trb_type t2 = kDataType" "pointer64 t2 = buf" "trb_transfer_length t2 = take_bit 17 (word_of_int len)"
    "Get pos ?M = None"
    using ControlIn_spec [OF assms(1,4)] by metis
  let ?d = "put_setup pos setup_pos d1"
  have inv: "arraymap_inv ?M" using assms(1) by (simp add: control_ready_def)
  have "uint (word_of_int len :: u32) = len"
    using assms(2,3) by (simp add: unsigned_of_int take_bit_int_eq_self)
  then have len: "uint (trb_transfer_length t2) = len"
    using assms(2,3) unfolding S(8) unsigned_take_bit_eq by (simp add: take_bit_int_eq_self)
  have map: "setup_stage_map ?d = Put pos setup_pos ?M" using S(2) by (simp add: put_setup_def)
  have ev: "(if length (used_keys ?M) < length ?M
         then \<exists>m. (\<forall>k. Get k m = Get k ?M) \<and>
           OnTransferEventReceived env trb ?d u' = OnControlCompleted env (unat (event_endpoint_id trb)) sd buf
             (len - uint (event_residual trb)) (?d\<lparr>setup_stage_map := m\<rparr>) u'
         else OnTransferEventReceived env trb ?d u' = Some (?d, u', kNoCorrespondingSetupStage))"
    if t: "pointer64 trb = pos" "completion_code trb = 1 \<or> completion_code trb = 13" for env trb
  proof -
    have log: "log_transfer trb u' = Some ()"
      using t S(5) by (auto simp: log_transfer_def kTRBCompletionCodeToName_size_def)
    show ?thesis
    proof (cases "length (used_keys ?M) < length ?M")
      case True
      have G: "Get pos (Put pos setup_pos ?M) = Some setup_pos"
        "(\<lambda>k. Get k (Delete pos (Put pos setup_pos ?M))) = (\<lambda>k. Get k ?M)"
        using am.put_then_del [OF inv S(9), of setup_pos] True by (simp_all add: card_used_keys [OF inv])
      have "OnTransferEventReceived env trb ?d u' = OnControlCompleted env (unat (event_endpoint_id trb)) sd buf
             (len - uint (event_residual trb)) (?d\<lparr>setup_stage_map := Delete pos (Put pos setup_pos ?M)\<rparr>) u'"
        using log t S(3-7) G(1) len map
        by (auto simp: OnTransferEventReceived_def type_numbers)
      then show ?thesis using True fun_cong [OF G(2)] by auto
    next
      case False
      then have "length (used_keys ?M) = length ?M" using used_keys_length [of ?M] by simp
      then have "Get pos (Put pos setup_pos ?M) = None"
        using am.put_lost [OF inv S(9), of setup_pos] by (simp add: card_used_keys [OF inv])
      then show ?thesis using False log t S(5,6) map
        by (auto simp: OnTransferEventReceived_def type_numbers)
    qed
  qed
  show ?thesis using S(1) ev by blast
qed

definition device_example :: "Device \<times> UsbMem" where
  "device_example = (case Ring_Initialize 32 pool_example Map.empty of (r, p, m, e) \<Rightarrow>
     ((Device_init 1 0x5000)\<lparr>transfer_rings := (replicate 31 None)[0 := Some r]\<rparr>,
      \<lparr>pool = p, trbs = m, bytes = (\<lambda>_. Some 0), doorbells = [], notified = []\<rparr>))"

lemma used_keys_replicate [simp]: "used_keys (replicate n (None, v)) = []"
  by (induction n) auto

lemma Get_replicate [simp]: "Get k (replicate n (None, v)) = None"
  by (simp add: Get_None)

lemma device_example_ready: "control_ready (fst device_example) (snd device_example)
    \<and> setup_stage_map (fst device_example) = replicate 16 (None, 0)"
proof -
  obtain r p m e where E: "Ring_Initialize 32 pool_example Map.empty = (r, p, m, e)" by (metis prod_cases4)
  moreover from this have "e = kSuccess"
    by (simp add: Ring_Initialize_def alloc_trbs_def AllocArray_def AllocMem_def Align_def
        pool_example_def kMemoryPollSize_def Let_def split: if_splits)
  ultimately have "rs_inv (m, r, (ring_buf r, 1))" "ring_size r = 32"
    using Ring_Initialize_inv [OF pool_example_ok, of 32 "Map.empty" r p m] by simp_all
  then have "ring_ok m r" "5 \<le> ring_size r" by (simp_all add: rs_inv.simps)
  then show ?thesis
    by (simp add: device_example_def E control_ready_def get_ring_def arr_get_def Device_init_def
        arraymap_inv_def del: replicate.simps)
qed

theorem ControlIn_answer_finds_setup_witness:
  "\<exists>d' u' pos. ControlIn kDefaultControlEpId no_setup 0x5000 18 None (fst device_example) (snd device_example)
      = Some (d', u', kSuccess)
    \<and> (\<exists>m. OnTransferEventReceived \<lparr>driver_size = 3000, driver_buf_offset = 64, observers_set = True\<rparr>
            (TRB (low32 pos) (high32 pos) (push_bit 24 1) 0) d' u'
          = OnControlCompleted \<lparr>driver_size = 3000, driver_buf_offset = 64, observers_set = True\<rparr> 0 no_setup
              0x5000 18 (d'\<lparr>setup_stage_map := m\<rparr>) u')"
proof -
  let ?d = "fst device_example" and ?u = "snd device_example"
  let ?env = "\<lparr>driver_size = 3000, driver_buf_offset = 64, observers_set = True\<rparr>"
  have E: "setup_stage_map ?d = replicate 16 (None, 0)" using device_example_ready by blast
  have room: "length (used_keys (setup_stage_map ?d)) < length (setup_stage_map ?d)"
    unfolding E by (simp del: replicate.simps)
  have fresh: "\<forall>r. get_ring 1 ?d = Some (Some r) \<longrightarrow>
      Get (slot (ring_buf r) (next_index r)) (setup_stage_map ?d) = None"
    unfolding E by (simp del: replicate.simps)
  have ptr: "pointer64 (TRB (low32 pos) (high32 pos) (push_bit 24 1) 0) = pos" for pos
    using data_stage_fields(1) [of 0 pos 0] by (simp add: pointer64_def DataStageTRB_def)
  have code: "completion_code (TRB a b (push_bit 24 1) c) = 1"
    "event_residual (TRB a b (push_bit 24 1) c) = 0" "event_endpoint_id (TRB a b d 0) = 0" for a b c d
    by (simp_all add: completion_code_def event_residual_def event_endpoint_id_def field_def)
  obtain d' u' pos where C: "ControlIn kDefaultControlEpId no_setup 0x5000 18 None ?d ?u = Some (d', u', kSuccess)"
    and ev: "\<forall>env trb. pointer64 trb = pos \<and> (completion_code trb = 1 \<or> completion_code trb = 13) \<longrightarrow>
        (if length (used_keys (setup_stage_map ?d)) < length (setup_stage_map ?d)
         then \<exists>m. (\<forall>k. Get k m = Get k (setup_stage_map ?d)) \<and>
           OnTransferEventReceived env trb d' u' = OnControlCompleted env (unat (event_endpoint_id trb)) no_setup
             0x5000 (18 - uint (event_residual trb)) (d'\<lparr>setup_stage_map := m\<rparr>) u'
         else OnTransferEventReceived env trb d' u' = Some (d', u', kNoCorrespondingSetupStage))"
    using ControlIn_answer_finds_setup [OF conjunct1 [OF device_example_ready] _ _ fresh, of 18 no_setup "0x5000"]
    by auto
  let ?t = "TRB (low32 pos) (high32 pos) (push_bit 24 1) 0"
  have "\<exists>m. OnTransferEventReceived ?env ?t d' u' = OnControlCompleted ?env (unat (event_endpoint_id ?t)) no_setup
             0x5000 (18 - uint (event_residual ?t)) (d'\<lparr>setup_stage_map := m\<rparr>) u'"
    using spec [OF spec [OF ev, of ?env], of ?t] ptr code(1) unfolding if_P [OF room] by blast
  then show ?thesis unfolding code using C by auto
qed


section \<open>Reading descriptors\<close>

text \<open>The bytes \<open>bs\<close> lie at \<open>p\<close>; a descriptor starts with its own length.\<close>

definition holds :: "UsbMem \<Rightarrow> u64 \<Rightarrow> u8 list \<Rightarrow> bool" where
  "holds u p bs \<longleftrightarrow> (\<forall>k < length bs. bytes u (p + of_nat k) = Some (bs ! k))"

definition descriptor :: "u8 list \<Rightarrow> bool" where
  "descriptor d \<longleftrightarrow> 2 \<le> length d \<and> length d < 256 \<and> d ! 0 = of_nat (length d)"

lemma unat_of_nat_64: "n < 2 ^ 64 \<Longrightarrow> unat (of_nat n :: u64) = n"
proof -
  assume "n < 2 ^ 64"
  then have "take_bit 64 n = n" by (rule take_bit_nat_eq_self)
  then show ?thesis by (simp only: unsigned_of_nat) simp
qed

lemma holds_append: "holds u p (xs @ ys) \<longleftrightarrow> holds u p xs \<and> holds u (p + of_nat (length xs)) ys"
proof
  assume h: "holds u p (xs @ ys)"
  show "holds u p xs \<and> holds u (p + of_nat (length xs)) ys"
    unfolding holds_def
  proof (intro conjI allI impI)
    fix k assume "k < length xs"
    then show "bytes u (p + of_nat k) = Some (xs ! k)"
      using spec [OF h [unfolded holds_def], of k] by (simp add: nth_append)
  next
    fix k assume "k < length ys"
    then show "bytes u (p + of_nat (length xs) + of_nat k) = Some (ys ! k)"
      using spec [OF h [unfolded holds_def], of "length xs + k"]
      by (simp only: length_append nth_append_length_plus of_nat_add add.assoc)
  qed
next
  assume h: "holds u p xs \<and> holds u (p + of_nat (length xs)) ys"
  show "holds u p (xs @ ys)"
    unfolding holds_def
  proof (intro allI impI)
    fix k assume k: "k < length (xs @ ys)"
    show "bytes u (p + of_nat k) = Some ((xs @ ys) ! k)"
    proof (cases "k < length xs")
      case True
      then show ?thesis using h by (simp add: holds_def nth_append)
    next
      case False
      then show ?thesis
        using conjunct2 [OF h, unfolded holds_def, rule_format, of "k - length xs"] k
        by (simp add: nth_append add.assoc of_nat_diff)
    qed
  qed
qed

lemma reader_step:
  assumes "descriptor d" and "holds u p d"
  shows "reader_Next lim p u = Some (p + of_nat (length d), p + of_nat (length d) < lim)"
proof -
  have "bytes u p = Some (of_nat (length d))"
    using spec [OF assms(2) [unfolded holds_def], of 0] assms(1) by (auto simp: descriptor_def)
  moreover have "(ucast (of_nat (length d) :: u8) :: u64) = of_nat (length d)"
  proof -
    have l: "length d < 256" using assms(1) by (simp add: descriptor_def)
    then have "take_bit 8 (length d) = length d" by (intro take_bit_nat_eq_self) simp
    then have "unat (of_nat (length d) :: u8) = length d" by (simp only: unsigned_of_nat) simp
    then show ?thesis using l unat_of_nat_64 [of "length d"] by (simp add: word_unat_eq_iff)
  qed
  ultimately show ?thesis by (simp add: reader_Next_def)
qed

lemma cast_descriptor:
  assumes "descriptor d" and "holds u p d"
  shows "DescriptorDynamicCast ty p u = Some (d ! 1 = ty)"
  using assms(2) [unfolded holds_def, rule_format, of 1] assms(1)
  by (simp add: DescriptorDynamicCast_def descriptor_def)

text \<open>
  on a well-formed configuration (descriptors of at least two bytes whose first byte is their
  length, laid out one after the other up to the end that the reader is given) the search for a
  descriptor type returns, and it finds exactly the first descriptor of that type behind the current
  one; without one it stops at the end.
\<close>

theorem reader_finds_first_of_type:
  assumes "\<forall>d \<in> set (d0 # ds). descriptor d" and "holds u p (concat (d0 # ds))"
    and "lim = p + of_nat (length (concat (d0 # ds)))" and "unat p + length (concat (d0 # ds)) < 2 ^ 64"
  shows "reader_Next_of lim ty u p =
    (let before = takeWhile (\<lambda>d. d ! 1 \<noteq> ty) ds in
     if before = ds then Some (lim, False) else Some (p + of_nat (length (concat (d0 # before))), True))"
  using assms
proof (induction ds arbitrary: d0 p)
  case Nil
  then show ?case by (subst reader_Next_of.simps) (simp add: reader_step)
next
  case (Cons d1 ds)
  let ?q = "p + of_nat (length d0)"
  have d: "descriptor d0" "descriptor d1" using Cons.prems(1) by auto
  have h: "holds u p d0" "holds u ?q (concat (d1 # ds))" "holds u ?q d1"
    using Cons.prems(2) by (auto simp: holds_append)
  have l: "lim = ?q + of_nat (length (concat (d1 # ds)))" using Cons.prems(3) by simp
  have q: "unat ?q = unat p + length d0"
  proof -
    have "unat (of_nat (length d0) :: u64) = length d0"
      using d(1) by (intro unat_of_nat_64) (simp add: descriptor_def)
    then show ?thesis using Cons.prems(4) by (subst unat_add_lem [THEN iffD1]) auto
  qed
  have n: "unat (of_nat (length (concat (d1 # ds))) :: u64) = length (concat (d1 # ds))"
    using Cons.prems(4) by (intro unat_of_nat_64) simp
  have "unat lim = unat ?q + length (concat (d1 # ds))"
    unfolding l using q n Cons.prems(4) by (subst unat_add_lem [THEN iffD1]) auto
  then have lt: "?q < lim" using d(2) by (auto simp: word_less_nat_alt descriptor_def)
  have R: "reader_Next lim p u = Some (?q, True)" using reader_step [OF d(1) h(1)] lt by simp
  show ?case
  proof (cases "d1 ! 1 = ty")
    case True
    then show ?thesis
      by (subst reader_Next_of.simps) (simp add: R cast_descriptor [OF d(2) h(3)])
  next
    case False
    have u: "unat ?q + length (concat (d1 # ds)) < 2 ^ 64" using q Cons.prems(4) by simp
    have "reader_Next_of lim ty u p = reader_Next_of lim ty u ?q"
      using False by (subst reader_Next_of.simps) (simp add: R cast_descriptor [OF d(2) h(3)])
    then show ?thesis
      using Cons.IH [OF _ h(2) l u] Cons.prems(1) False by (simp add: Let_def add.assoc)
  qed
qed

definition keyboard_config :: "u8 list list" where
  "keyboard_config = [[9, 2, 34, 0, 1, 1, 0, 160, 50], [9, 4, 0, 0, 1, 3, 1, 1, 0],
     [9, 33, 17, 1, 0, 1, 34, 63, 0], [7, 5, 129, 3, 8, 0, 10]]"

definition config_mem :: "u8 list \<Rightarrow> UsbMem" where
  "config_mem bs = (snd device_example)\<lparr>bytes := (\<lambda>a. if unat a - 0x5000 < length bs
     then Some (bs ! (unat a - 0x5000)) else Some 0)\<rparr>"

lemma config_mem_holds: "length bs < 256 \<Longrightarrow> holds (config_mem bs) 0x5000 bs"
proof -
  assume l: "length bs < 256"
  have "unat (0x5000 + of_nat k :: u64) = 0x5000 + k" if "k < length bs" for k
  proof -
    have k: "unat (of_nat k :: u64) = k"
      using that l by (intro unat_of_nat_64) simp
    have "unat (0x5000 :: u64) = 0x5000" by simp
    then show ?thesis using k that l by (subst unat_add_lem [THEN iffD1]) simp_all
  qed
  then show ?thesis by (simp add: holds_def config_mem_def)
qed

theorem reader_finds_first_of_type_witness:
  "reader_Next_of 0x5022 kEndpointDescriptor (config_mem (concat keyboard_config)) 0x5000 = Some (0x501b, True)"
  using reader_finds_first_of_type [of "hd keyboard_config" "tl keyboard_config"
      "config_mem (concat keyboard_config)" "0x5000" "0x5022" kEndpointDescriptor]
    config_mem_holds [of "concat keyboard_config"]
  by (simp add: keyboard_config_def descriptor_def kEndpointDescriptor_def)

lemma zero_length_stuck:
  assumes "bytes u q = Some 0" and "bytes u (q + 1) = Some t" and "t \<noteq> ty" and "q < lim"
  shows "reader_Next lim q u = Some (q, True)" and "reader_Next_of lim ty u q = None"
proof -
  show step: "reader_Next lim q u = Some (q, True)" using assms(1,4) by (simp add: reader_Next_def)
  have "\<not> (lim = lim' \<and> ty = ty' \<and> u = u' \<and> x = q)" if "reader_Next_of lim' ty' u' x = Some y" for lim' ty' u' x y
  proof (rule reader_Next_of.raw_induct [OF _ that,
      where P = "\<lambda>lim' ty' u' x y. \<not> (lim = lim' \<and> ty = ty' \<and> u = u' \<and> x = q)"])
    fix search lim' ty' u' x y
    assume IH: "\<And>lim' ty' u' x y. search lim' ty' u' x = Some y \<Longrightarrow> \<not> (lim = lim' \<and> ty = ty' \<and> u = u' \<and> x = q)"
      and body: "(case reader_Next lim' x u' of None \<Rightarrow> None
         | Some (q, found) \<Rightarrow> if \<not> found then Some (q, False)
             else (case DescriptorDynamicCast ty' q u' of None \<Rightarrow> None
                   | Some ok \<Rightarrow> if ok then Some (q, True) else search lim' ty' u' q)) = Some y"
    show "\<not> (lim = lim' \<and> ty = ty' \<and> u = u' \<and> x = q)"
    proof
      assume e: "lim = lim' \<and> ty = ty' \<and> u = u' \<and> x = q"
      have "DescriptorDynamicCast ty q u = Some False" using assms(2,3) by (simp add: DescriptorDynamicCast_def)
      with body e step have "search lim ty u q = Some y" by auto
      with IH [of lim ty u q y] show False by simp
    qed
  qed
  then show "reader_Next_of lim ty u q = None" by (metis not_None_eq)
qed

text \<open>
  a descriptor of length zero hangs the kernel.  When the descriptor behind the configuration
  descriptor has length zero and is not an interface, the reader's next position is the one it is at,
  the search never returns, and with it \<^verbatim>\<open>InitializePhase3\<close>: a device that sends such a configuration
  stops the kernel.
\<close>

theorem zero_length_descriptor_hangs:
  assumes "bytes u (buf + 1) = Some kConfigurationDescriptor" and "bytes u buf = Some l"
    and "buf + ucast l < buf + word_of_int len" and "bytes u (buf + ucast l) = Some 0"
    and "bytes u (buf + ucast l + 1) = Some t" and "t \<noteq> kInterfaceDescriptor"
  shows "reader_Next (buf + word_of_int len) (buf + ucast l) u = Some (buf + ucast l, True)
    \<and> InitializePhase3 env buf len d u = None"
proof -
  note Z = zero_length_stuck [OF assms(4-6,3)]
  have c: "DescriptorDynamicCast kConfigurationDescriptor buf u = Some True"
    using assms(1) by (simp add: DescriptorDynamicCast_def)
  have "reader_Next (buf + word_of_int len) buf u = Some (buf + ucast l, True)"
    using assms(2,3) by (simp add: reader_Next_def)
  moreover have "DescriptorDynamicCast kInterfaceDescriptor (buf + ucast l) u = Some False"
    using assms(5,6) by (simp add: DescriptorDynamicCast_def)
  ultimately have "reader_Next_of (buf + word_of_int len) kInterfaceDescriptor u buf = None"
    using Z(2) by (subst reader_Next_of.simps) simp
  then show ?thesis using Z(1) c
    by (simp add: InitializePhase3_def interface_loop.simps)
qed

theorem zero_length_descriptor_hangs_witness:
  "InitializePhase3 \<lparr>driver_size = 3000, driver_buf_offset = 64, observers_set = True\<rparr> 0x5000 11
     (fst device_example) (config_mem [9, 2, 11, 0, 1, 1, 0, 160, 50, 0, 0]) = None"
  using zero_length_descriptor_hangs [of "config_mem [9, 2, 11, 0, 1, 1, 0, 160, 50, 0, 0]" "0x5000" 9 11 0
      "\<lparr>driver_size = 3000, driver_buf_offset = 64, observers_set = True\<rparr>" "fst device_example"]
  by (simp add: config_mem_def kConfigurationDescriptor_def kInterfaceDescriptor_def)

end
