(* ===== verification/Xhci.thy ===== *)
theory Xhci imports Usb_Device begin

text \<open>
  The host controller driver: ports and their configuration phases (\<^verbatim>\<open>kernel/usb/xhci/port.hpp\<close>,
  \<^verbatim>\<open>port.cpp\<close>), contexts (\<^verbatim>\<open>context.hpp\<close>), the device manager (\<^verbatim>\<open>devmgr.cpp\<close>), and the controller's
  event handlers (\<^verbatim>\<open>xhci.cpp\<close>).

  The handlers drive every port through the phases of \<open>ConfigPhase\<close>; only one port at a time may be
  between its reset and the assignment of its address, the one that the global \<^verbatim>\<open>addressing_port\<close>
  names.  The section on runs states this as an invariant of all sequences of events.

  What the hardware does with a register is a parameter (\<open>HcEnv\<close>): the value a port register reads after
  a write, and after the wait for the end of a reset.  So are the sizes of the C++ objects.  Reading the
  port array at index \<open>-1\<close> (\<^verbatim>\<open>PortAt(0)\<close>) is undefined; \<open>port0\<close> is the phase that the bytes in front of
  the array are taken for, or \<open>None\<close> for the reading of the language standard.
\<close>

section \<open>Ports\<close>

datatype ConfigPhase = kNotConnected | kWaitingAddressed | kResettingPort | kEnablingSlot
  | kAddressingDevice | kInitializingDevice | kConfiguringEndpoints | kConfigured

text \<open>Fields of \<^verbatim>\<open>PORTSC\<close>.\<close>

definition current_connect_status :: "u32 \<Rightarrow> bool" where
  "current_connect_status v \<longleftrightarrow> field 0 1 v = 1"

definition port_enabled_disabled :: "u32 \<Rightarrow> bool" where
  "port_enabled_disabled v \<longleftrightarrow> field 1 1 v = 1"

definition port_reset_change :: "u32 \<Rightarrow> bool" where
  "port_reset_change v \<longleftrightarrow> field 21 1 v = 1"

definition port_speed :: "u32 \<Rightarrow> nat" where
  "port_speed v = unat (field 10 4 v)"

text \<open>What \<^verbatim>\<open>Port::Reset\<close> and \<^verbatim>\<open>Port::ClearPortResetChange\<close> write, from the value they read.\<close>

definition reset_value :: "u32 \<Rightarrow> u32" where
  "reset_value v = set_field 17 1 1 (set_field 4 1 1 (v AND 0x0e00c3e0))"

definition clear_reset_change_value :: "u32 \<Rightarrow> u32" where
  "clear_reset_change_value v = set_field 21 1 1 (v AND 0x0e01c3e0)"

definition clear_connect_change_value :: "u32 \<Rightarrow> u32" where
  "clear_connect_change_value v = set_field 17 1 1 (v AND 0x0e01c3e0)"

record Port =
  port_num :: u8
  config_phase :: ConfigPhase

section \<open>Contexts\<close>

record SlotContext =
  route_string :: u32
  speed :: "4 word"
  context_entries :: "5 word"
  root_hub_port_num :: u8

record EndpointContext =
  ep_ctx_type :: "3 word"
  ctx_max_packet_size :: u16
  max_burst_size :: u8
  tr_dequeue_pointer :: u64
  dequeue_cycle_state :: bool
  ctx_interval :: u8
  max_primary_streams :: "5 word"
  mult :: "2 word"
  error_count :: "2 word"
  average_trb_length :: u16

record InputContext =
  drop_context_flags :: u32
  add_context_flags :: u32
  in_slot_context :: SlotContext
  in_ep_contexts :: "EndpointContext list"

definition no_slot_context :: SlotContext where
  "no_slot_context = \<lparr>route_string = 0, speed = 0, context_entries = 0, root_hub_port_num = 0\<rparr>"

definition no_ep_context :: EndpointContext where
  "no_ep_context = \<lparr>ep_ctx_type = 0, ctx_max_packet_size = 0, max_burst_size = 0, tr_dequeue_pointer = 0,
     dequeue_cycle_state = False, ctx_interval = 0, max_primary_streams = 0, mult = 0, error_count = 0,
     average_trb_length = 0\<rparr>"

definition no_input_context :: InputContext where
  "no_input_context = \<lparr>drop_context_flags = 0, add_context_flags = 0, in_slot_context = no_slot_context,
     in_ep_contexts = replicate 31 no_ep_context\<rparr>"

text \<open>The \<^verbatim>\<open>memset\<close> of the input control context.\<close>

definition clear_control :: "InputContext \<Rightarrow> InputContext" where
  "clear_control ic = ic\<lparr>drop_context_flags := 0, add_context_flags := 0\<rparr>"

definition EnableSlotContext :: "InputContext \<Rightarrow> InputContext" where
  "EnableSlotContext ic = ic\<lparr>add_context_flags := add_context_flags ic OR 1\<rparr>"

text \<open>The endpoint's context is then changed by \<open>f\<close>; index \<open>-1\<close> would be the slot context.\<close>

definition EnableEndpoint :: "EndpointID \<Rightarrow> (EndpointContext \<Rightarrow> EndpointContext) \<Rightarrow> InputContext \<Rightarrow> InputContext option" where
  "EnableEndpoint ep f ic = (if ep = 0 then None else do {
     e \<leftarrow> arr_get (in_ep_contexts ic) (ep - 1);
     Some (ic\<lparr>add_context_flags := add_context_flags ic OR push_bit ep 1,
       in_ep_contexts := (in_ep_contexts ic)[ep - 1 := f e]\<rparr>) })"

definition SetTransferRingBuffer :: "u64 \<Rightarrow> EndpointContext \<Rightarrow> EndpointContext" where
  "SetTransferRingBuffer buf e = e\<lparr>tr_dequeue_pointer := push_bit 4 (drop_bit 4 buf)\<rparr>"

section \<open>The controller\<close>

text \<open>\<open>out_slot_context\<close> is the slot context that the controller writes; \<open>dev_addr\<close> is the object's address.\<close>

record XDevice =
  xd :: Device
  dev_addr :: u64
  in_context :: InputContext
  out_slot_context :: SlotContext

record HcEnv =
  usb_env :: UsbEnv
  device_size :: u64
  device_buf_offset :: u64
  in_context_offset :: u64
  port0 :: "ConfigPhase option"
  portsc_write :: "u32 \<Rightarrow> u32 \<Rightarrow> u32"
  reset_settled :: "u32 \<Rightarrow> u32 option"

record Controller =
  max_ports :: u8
  ports :: "Port option list"
  portsc :: "u32 list"
  addressing_port :: u8
  devices :: "XDevice option list"
  device_context_pointers :: "u64 list"
  cmd_ring :: Ring
  evt_ring :: EventRing
  usb :: UsbMem

definition kDeviceSize :: nat where
  "kDeviceSize = 8"

type_synonym xresult = "(Controller \<times> error_code) option"

text \<open>
  \<^verbatim>\<open>PortAt\<close>: the port object is filled in on first use.  \<open>phase_at\<close> is \<^verbatim>\<open>PortAt(n).GetConfigPhase()\<close>.
\<close>

definition PortAt :: "u8 \<Rightarrow> Controller \<Rightarrow> (Port \<times> Controller) option" where
  "PortAt n c = (if n = 0 then None else do {
     p \<leftarrow> arr_get (ports c) (unat n - 1);
     (case p of Some q \<Rightarrow> Some (q, c)
      | None \<Rightarrow> let q = \<lparr>port_num = n, config_phase = kNotConnected\<rparr> in
          Some (q, c\<lparr>ports := (ports c)[unat n - 1 := Some q]\<rparr>)) })"

definition SetConfigPhase :: "u8 \<Rightarrow> ConfigPhase \<Rightarrow> Controller \<Rightarrow> Controller option" where
  "SetConfigPhase n ph c = do {
     (p, c) \<leftarrow> PortAt n c;
     Some (c\<lparr>ports := (ports c)[unat n - 1 := Some (p\<lparr>config_phase := ph\<rparr>)]\<rparr>) }"

definition phase_at :: "HcEnv \<Rightarrow> u8 \<Rightarrow> Controller \<Rightarrow> (ConfigPhase \<times> Controller) option" where
  "phase_at env n c = (if n = 0 then map_option (\<lambda>ph. (ph, c)) (port0 env)
     else map_option (\<lambda>(p, c). (config_phase p, c)) (PortAt n c))"

definition read_portsc :: "u8 \<Rightarrow> Controller \<Rightarrow> u32 option" where
  "read_portsc n c = (if n = 0 then None else arr_get (portsc c) (unat n - 1))"

definition IsConnected :: "u8 \<Rightarrow> Controller \<Rightarrow> bool option" where
  "IsConnected n c = map_option current_connect_status (read_portsc n c)"

definition IsEnabled :: "u8 \<Rightarrow> Controller \<Rightarrow> bool option" where
  "IsEnabled n c = map_option port_enabled_disabled (read_portsc n c)"

definition IsPortResetChanged :: "u8 \<Rightarrow> Controller \<Rightarrow> bool option" where
  "IsPortResetChanged n c = map_option port_reset_change (read_portsc n c)"

definition Speed :: "u8 \<Rightarrow> Controller \<Rightarrow> nat option" where
  "Speed n c = map_option port_speed (read_portsc n c)"

definition put_portsc :: "u8 \<Rightarrow> u32 \<Rightarrow> Controller \<Rightarrow> Controller" where
  "put_portsc n v c = c\<lparr>portsc := (portsc c)[unat n - 1 := v]\<rparr>"

text \<open>\<^verbatim>\<open>Port::Reset\<close> waits until the reset bit reads zero; \<open>None\<close> when it never does.\<close>

definition Port_Reset :: "HcEnv \<Rightarrow> u8 \<Rightarrow> Controller \<Rightarrow> Controller option" where
  "Port_Reset env n c = do {
     v \<leftarrow> read_portsc n c;
     v' \<leftarrow> reset_settled env (portsc_write env v (reset_value v));
     Some (put_portsc n v' c) }"

definition ClearPortResetChange :: "HcEnv \<Rightarrow> u8 \<Rightarrow> Controller \<Rightarrow> Controller option" where
  "ClearPortResetChange env n c = do {
     v \<leftarrow> read_portsc n c;
     Some (put_portsc n (portsc_write env v (clear_reset_change_value v)) c) }"

definition ClearConnectStatusChanged :: "HcEnv \<Rightarrow> u8 \<Rightarrow> Controller \<Rightarrow> Controller option" where
  "ClearConnectStatusChanged env n c = do {
     v \<leftarrow> read_portsc n c;
     Some (put_portsc n (portsc_write env v (clear_connect_change_value v)) c) }"

text \<open>A command: the block goes on the command ring and doorbell 0 is rung.\<close>

definition command :: "TRB \<Rightarrow> Controller \<Rightarrow> Controller option" where
  "command t c = do {
     (r, m, a) \<leftarrow> ring_Push t (cmd_ring c) (trbs (usb c));
     Some (c\<lparr>cmd_ring := r, usb := Doorbell 0 0 (with_trbs m (usb c))\<rparr>) }"

subsection \<open>The device manager\<close>

definition put_device :: "u8 \<Rightarrow> XDevice \<Rightarrow> Controller \<Rightarrow> Controller" where
  "put_device sl d c = c\<lparr>devices := (devices c)[unat sl := Some d]\<rparr>"

definition FindBySlot :: "u8 \<Rightarrow> Controller \<Rightarrow> XDevice option" where
  "FindBySlot sl c = (if unat sl > kDeviceSize then None else devices c ! unat sl)"

definition AllocDevice :: "HcEnv \<Rightarrow> u8 \<Rightarrow> Controller \<Rightarrow> xresult" where
  "AllocDevice env sl c =
     (if unat sl > kDeviceSize then Some (c, kInvalidSlotID)
      else if devices c ! unat sl \<noteq> None then Some (c, kAlreadyAllocated)
      else (case AllocArray (device_size env) 1 64 4096 (pool (usb c)) of (a, p) \<Rightarrow>
        if a = 0 then None
        else Some (put_device sl \<lparr>xd = Device_init sl (a + device_buf_offset env), dev_addr = a,
               in_context = no_input_context, out_slot_context = no_slot_context\<rparr>
             (c\<lparr>usb := (usb c)\<lparr>pool := p\<rparr>\<rparr>), kSuccess)))"

text \<open>The first device whose slot context names the port.\<close>

definition FindByPort :: "u8 \<Rightarrow> Controller \<Rightarrow> XDevice option" where
  "FindByPort n c = List.find (\<lambda>d. root_hub_port_num (out_slot_context d) = n)
     (concat (map (\<lambda>d. case d of None \<Rightarrow> [] | Some x \<Rightarrow> [x]) (take kDeviceSize (drop 1 (devices c)))))"

definition LoadDCBAA :: "u8 \<Rightarrow> Controller \<Rightarrow> xresult" where
  "LoadDCBAA sl c =
     (if unat sl > kDeviceSize then Some (c, kInvalidSlotID)
      else do {
        d \<leftarrow> devices c ! unat sl;
        ps \<leftarrow> arr_set (device_context_pointers c) (unat sl) (dev_addr d);
        Some (c\<lparr>device_context_pointers := ps\<rparr>, kSuccess) })"

text \<open>An operation of a device, run on the device of a slot.\<close>

definition on_device :: "u8 \<Rightarrow> (Device \<Rightarrow> UsbMem \<Rightarrow> dev_result) \<Rightarrow> Controller \<Rightarrow> xresult" where
  "on_device sl f c = do {
     d \<leftarrow> FindBySlot sl c;
     (x, u, e) \<leftarrow> f (xd d) (usb c);
     Some (put_device sl (d\<lparr>xd := x\<rparr>) (c\<lparr>usb := u\<rparr>), e) }"

section \<open>The phases\<close>

definition ResetPort :: "HcEnv \<Rightarrow> u8 \<Rightarrow> Controller \<Rightarrow> xresult" where
  "ResetPort env n c = do {
     is_connected \<leftarrow> IsConnected n c;
     (if \<not> is_connected then Some (c, kSuccess)
      else if addressing_port c \<noteq> 0 then map_option (\<lambda>c. (c, kSuccess)) (SetConfigPhase n kWaitingAddressed c)
      else do {
        (port_phase, c) \<leftarrow> phase_at env n c;
        (if port_phase \<noteq> kNotConnected \<and> port_phase \<noteq> kWaitingAddressed then Some (c, kInvalidPhase)
         else do {
           c \<leftarrow> SetConfigPhase n kResettingPort (c\<lparr>addressing_port := n\<rparr>);
           c \<leftarrow> Port_Reset env n c;
           Some (c, kSuccess) }) })
   }"

definition EnableSlot :: "HcEnv \<Rightarrow> u8 \<Rightarrow> Controller \<Rightarrow> xresult" where
  "EnableSlot env n c = do {
     is_enabled \<leftarrow> IsEnabled n c;
     reset_completed \<leftarrow> IsPortResetChanged n c;
     (if is_enabled \<and> reset_completed then do {
        c \<leftarrow> ClearPortResetChange env n c;
        c \<leftarrow> SetConfigPhase n kEnablingSlot c;
        c \<leftarrow> command EnableSlotCommandTRB c;
        Some (c, kSuccess) }
      else Some (c, kSuccess)) }"

text \<open>
  The packet size of the control endpoint: the case for super speed has no \<^verbatim>\<open>break\<close> and falls through
  to the one for high speed.
\<close>

definition DetermineMaxPacketSize :: "nat \<Rightarrow> u16" where
  "DetermineMaxPacketSize sp = (let m = 8; m = (if sp = 4 then 512 else m);
     m = (if sp = 4 \<or> sp = 3 then 64 else m) in m)"

definition ep0_context :: "u16 \<Rightarrow> u64 \<Rightarrow> EndpointContext \<Rightarrow> EndpointContext" where
  "ep0_context packet buf e = (SetTransferRingBuffer buf e)\<lparr>ep_ctx_type := 4, ctx_max_packet_size := packet,
     max_burst_size := 0, dequeue_cycle_state := True, ctx_interval := 0, max_primary_streams := 0, mult := 0,
     error_count := 3\<rparr>"

definition AddressDevice :: "HcEnv \<Rightarrow> u8 \<Rightarrow> u8 \<Rightarrow> Controller \<Rightarrow> xresult" where
  "AddressDevice env n sl c = do {
     (c, err) \<leftarrow> AllocDevice env sl c;
     (if err \<noteq> kSuccess then Some (c, err)
      else (case FindBySlot sl c of
        None \<Rightarrow> Some (c, kInvalidSlotID)
      | Some d \<Rightarrow> do {
          (port, c) \<leftarrow> PortAt n c;
          sp \<leftarrow> Speed n c;
          (x, u, ring) \<leftarrow> AllocTransferRing kDefaultControlEpId 32 (xd d) (usb c);
          r \<leftarrow> ring;
          let ic = EnableSlotContext (clear_control (in_context d));
          ic \<leftarrow> EnableEndpoint kDefaultControlEpId (ep0_context (DetermineMaxPacketSize sp) (ring_buf r))
             (ic\<lparr>in_slot_context := (in_slot_context ic)\<lparr>route_string := 0, root_hub_port_num := port_num port,
                context_entries := 1, speed := of_nat sp\<rparr>\<rparr>);
          let c = put_device sl (d\<lparr>xd := x, in_context := ic\<rparr>) (c\<lparr>usb := u\<rparr>);
          (c, err) \<leftarrow> LoadDCBAA sl c;
          (if err \<noteq> kSuccess then Some (c, err)
           else do {
             c \<leftarrow> SetConfigPhase n kAddressingDevice c;
             c \<leftarrow> command (AddressDeviceCommandTRB (dev_addr d + in_context_offset env) sl) c;
             Some (c, kSuccess) }) })) }"

definition InitializeDevice :: "u8 \<Rightarrow> u8 \<Rightarrow> Controller \<Rightarrow> xresult" where
  "InitializeDevice n sl c = (case FindBySlot sl c of
     None \<Rightarrow> Some (c, kInvalidSlotID)
   | Some d \<Rightarrow> do {
       c \<leftarrow> SetConfigPhase n kInitializingDevice c;
       (c, err) \<leftarrow> on_device sl StartInitialize c;
       Some (c, kSuccess) })"


section \<open>Endpoints\<close>

fun msb_from :: "nat \<Rightarrow> u32 \<Rightarrow> int" where
  "msb_from 0 v = (if bit v 0 then 0 else -1)"
| "msb_from (Suc k) v = (if bit v (Suc k) then int (Suc k) else msb_from k v)"

text \<open>The instruction \<^verbatim>\<open>bsr\<close>: the index of the highest bit that is set.\<close>

definition MostSignificantBit :: "u32 \<Rightarrow> int" where
  "MostSignificantBit value = (if value = 0 then -1 else msb_from 31 value)"

text \<open>Speeds 1 and 2 are full and low speed; 5 is the highest that is known.\<close>

definition kSuperSpeedPlus :: nat where "kSuperSpeedPlus = 5"

definition convert_interval :: "nat \<Rightarrow> EndpointType \<Rightarrow> int \<Rightarrow> int" where
  "convert_interval sp ty i = (if sp = 1 \<or> sp = 2
     then (if ty = kIsochronous then i + 2 else MostSignificantBit (word_of_int i) + 3)
     else i - 1)"

definition ep_ctx_type_of :: "EndpointConfig \<Rightarrow> 3 word" where
  "ep_ctx_type_of cfg = (case ep_type cfg of
     kControl \<Rightarrow> 4
   | kIsochronous \<Rightarrow> if IsDirIn (ep_id cfg) then 5 else 1
   | kBulk \<Rightarrow> if IsDirIn (ep_id cfg) then 6 else 2
   | kInterrupt \<Rightarrow> if IsDirIn (ep_id cfg) then 7 else 3)"

definition ep_context :: "nat \<Rightarrow> EndpointConfig \<Rightarrow> u64 \<Rightarrow> EndpointContext \<Rightarrow> EndpointContext" where
  "ep_context sp cfg buf e = (SetTransferRingBuffer buf e)\<lparr>ep_ctx_type := ep_ctx_type_of cfg,
     ctx_max_packet_size := word_of_int (max_packet_size cfg),
     ctx_interval := word_of_int (convert_interval sp (ep_type cfg) (interval cfg)), average_trb_length := 1,
     dequeue_cycle_state := True, max_primary_streams := 0, mult := 0, error_count := 3\<rparr>"

definition configure_endpoint :: "nat \<Rightarrow> nat \<Rightarrow> Device \<times> UsbMem \<times> InputContext \<Rightarrow> (Device \<times> UsbMem \<times> InputContext) option" where
  "configure_endpoint sp k s = (case s of (x, u, ic) \<Rightarrow> do {
     cfg \<leftarrow> arr_get (ep_configs x) k;
     (x, u, ring) \<leftarrow> AllocTransferRing (ep_id cfg) 32 x u;
     r \<leftarrow> ring;
     ic \<leftarrow> EnableEndpoint (ep_id cfg) (ep_context sp cfg (ring_buf r)) ic;
     Some (x, u, ic) })"

definition ConfigureEndPoints :: "HcEnv \<Rightarrow> u8 \<Rightarrow> Controller \<Rightarrow> xresult" where
  "ConfigureEndPoints env sl c = do {
     d \<leftarrow> FindBySlot sl c;
     let n = root_hub_port_num (out_slot_context d);
     let ic = EnableSlotContext ((clear_control (in_context d))\<lparr>in_slot_context := out_slot_context d\<rparr>);
     let ic = ic\<lparr>in_slot_context := (in_slot_context ic)\<lparr>context_entries := 31\<rparr>\<rparr>;
     (port, c) \<leftarrow> PortAt n c;
     sp \<leftarrow> Speed n c;
     (if sp = 0 \<or> kSuperSpeedPlus < sp then Some (put_device sl (d\<lparr>in_context := ic\<rparr>) c, kUnknownXHCISpeedID)
      else do {
        (x, u, ic) \<leftarrow> for_each (configure_endpoint sp) [0..<ep_configs_len (xd d)] (xd d, usb c, ic);
        let c = put_device sl (d\<lparr>xd := x, in_context := ic\<rparr>) (c\<lparr>usb := u\<rparr>);
        c \<leftarrow> SetConfigPhase n kConfiguringEndpoints c;
        c \<leftarrow> command (ConfigureEndpointCommandTRB (dev_addr d + in_context_offset env) (slot_id x)) c;
        Some (c, kSuccess) }) }"

section \<open>Events\<close>

definition ConfigurePort :: "HcEnv \<Rightarrow> u8 \<Rightarrow> Controller \<Rightarrow> xresult" where
  "ConfigurePort env n c = do {
     (ph, c) \<leftarrow> phase_at env n c;
     (if ph = kNotConnected then ResetPort env n c else Some (c, kSuccess)) }"

definition OnTransferEvent :: "HcEnv \<Rightarrow> TRB \<Rightarrow> Controller \<Rightarrow> xresult" where
  "OnTransferEvent env trb c = (let sl = event_slot_id trb in
     case FindBySlot sl c of
       None \<Rightarrow> Some (c, kInvalidSlotID)
     | Some _ \<Rightarrow> do {
         (c, err) \<leftarrow> on_device sl (OnTransferEventReceived (usb_env env) trb) c;
         (if err \<noteq> kSuccess then Some (c, err)
          else do {
            d \<leftarrow> FindBySlot sl c;
            (ph, c) \<leftarrow> phase_at env (root_hub_port_num (out_slot_context d)) c;
            (if is_initialized (xd d) \<and> ph = kInitializingDevice then ConfigureEndPoints env sl c
             else Some (c, kSuccess)) }) })"

text \<open>
  The loop that looks for the next port to configure counts from \<open>0\<close> to \<^verbatim>\<open>MaxPorts() - 1\<close>, although
  ports are numbered from \<open>1\<close>.  A port object in front of the array that seems to wait would be written
  to, which is undefined.
\<close>

fun next_port :: "HcEnv \<Rightarrow> nat list \<Rightarrow> Controller \<Rightarrow> xresult" where
  "next_port env [] c = Some (c, kSuccess)"
| "next_port env (i # is) c = (case phase_at env (of_nat i) c of None \<Rightarrow> None
     | Some (ph, c) \<Rightarrow>
         if ph = kWaitingAddressed then (if i = 0 then None else ResetPort env (of_nat i) c)
         else next_port env is c)"

definition OnEnableSlotCompletion :: "HcEnv \<Rightarrow> u8 \<Rightarrow> Controller \<Rightarrow> xresult" where
  "OnEnableSlotCompletion env sl c = do {
     (ph, c) \<leftarrow> phase_at env (addressing_port c) c;
     (if ph \<noteq> kEnablingSlot then Some (c, kInvalidPhase)
      else AddressDevice env (addressing_port c) sl c) }"

definition OnAddressDeviceCompletion :: "HcEnv \<Rightarrow> u8 \<Rightarrow> Controller \<Rightarrow> xresult" where
  "OnAddressDeviceCompletion env sl c = (case FindBySlot sl c of
     None \<Rightarrow> Some (c, kInvalidSlotID)
   | Some d \<Rightarrow>
       let n = root_hub_port_num (out_slot_context d) in
       if n \<noteq> addressing_port c then Some (c, kInvalidPhase)
       else do {
         (ph, c) \<leftarrow> phase_at env (addressing_port c) c;
         (if ph \<noteq> kAddressingDevice then Some (c, kInvalidPhase)
          else do {
            (c, err) \<leftarrow> next_port env [0..<unat (max_ports c)] (c\<lparr>addressing_port := 0\<rparr>);
            (if err \<noteq> kSuccess then Some (c, err) else InitializeDevice n sl c) }) })"

definition OnConfigureEndpointCompletion :: "HcEnv \<Rightarrow> u8 \<Rightarrow> Controller \<Rightarrow> xresult" where
  "OnConfigureEndpointCompletion env sl c = (case FindBySlot sl c of
     None \<Rightarrow> Some (c, kInvalidSlotID)
   | Some d \<Rightarrow> do {
       let n = root_hub_port_num (out_slot_context d);
       (ph, c) \<leftarrow> phase_at env n c;
       (if ph \<noteq> kConfiguringEndpoints then Some (c, kInvalidPhase)
        else do {
          (c, _) \<leftarrow> on_device sl Usb_Device.OnEndpointsConfigured c;
          c \<leftarrow> SetConfigPhase n kConfigured c;
          Some (c, kSuccess) }) })"

definition OnCommandCompletionEvent :: "HcEnv \<Rightarrow> TRB \<Rightarrow> Controller \<Rightarrow> xresult" where
  "OnCommandCompletionEvent env trb c = do {
     issuer \<leftarrow> trbs (usb c) (pointer60 trb);
     let ty = trb_type issuer;
     let sl = event_slot_id trb;
     (if ty = kEnableSlotType then OnEnableSlotCompletion env sl c
      else if ty = kAddressDeviceType then OnAddressDeviceCompletion env sl c
      else if ty = kConfigureEndpointType then OnConfigureEndpointCompletion env sl c
      else Some (c, kInvalidPhase)) }"

definition OnPortStatusChangeEvent :: "HcEnv \<Rightarrow> TRB \<Rightarrow> Controller \<Rightarrow> xresult" where
  "OnPortStatusChangeEvent env trb c = do {
     let n = event_port_id trb;
     (ph, c) \<leftarrow> phase_at env n c;
     (if ph = kNotConnected then ResetPort env n c
      else if ph = kResettingPort then EnableSlot env n c
      else Some (c, kInvalidPhase)) }"

definition dispatch :: "HcEnv \<Rightarrow> TRB \<Rightarrow> Controller \<Rightarrow> xresult" where
  "dispatch env trb c =
     (if trb_type trb = kTransferEventType then OnTransferEvent env trb c
      else if trb_type trb = kCommandCompletionType then OnCommandCompletionEvent env trb c
      else if trb_type trb = kPortStatusChangeType then OnPortStatusChangeEvent env trb c
      else Some (c, kNotImplemented))"

definition ProcessEvent :: "HcEnv \<Rightarrow> Controller \<Rightarrow> xresult" where
  "ProcessEvent env c = do {
     front \<leftarrow> er_HasFront (evt_ring c) (trbs (usb c));
     (if \<not> front then Some (c, kSuccess)
      else do {
        trb \<leftarrow> er_Front (evt_ring c) (trbs (usb c));
        (c, err) \<leftarrow> dispatch env trb c;
        Some (c\<lparr>evt_ring := er_Pop (evt_ring c)\<rparr>, err) }) }"

text \<open>Errors are logged and the loop goes on.  A queue that the hardware keeps filling never ends it.\<close>

partial_function (option) ProcessEvents :: "HcEnv \<Rightarrow> Controller \<Rightarrow> Controller option" where
  "ProcessEvents env c = (case er_HasFront (evt_ring c) (trbs (usb c)) of None \<Rightarrow> None
     | Some front \<Rightarrow> if \<not> front then Some c
         else (case ProcessEvent env c of None \<Rightarrow> None | Some (c', _) \<Rightarrow> ProcessEvents env c'))"

text \<open>The last loop of \<^verbatim>\<open>usb::xhci::Initialize\<close>, over all ports.\<close>

definition configure_ports :: "HcEnv \<Rightarrow> Controller \<Rightarrow> Controller option" where
  "configure_ports env c = for_each (\<lambda>i c. do {
       (p, c) \<leftarrow> PortAt (of_nat i) c;
       con \<leftarrow> IsConnected (of_nat i) c;
       (if con then map_option fst (ConfigurePort env (of_nat i) c) else Some c) })
     [1..<unat (max_ports c) + 1] c"


section \<open>The phases as a state machine\<close>

text \<open>
  The view of the controller that the phases make up: the phase of every port and the port that is
  being addressed (\<open>0\<close>: none).  Port \<open>0\<close> does not exist.
\<close>

type_synonym view = "(u8 \<Rightarrow> ConfigPhase) \<times> u8"

definition phases :: "Controller \<Rightarrow> u8 \<Rightarrow> ConfigPhase" where
  "phases c n = (if n = 0 then kNotConnected else case ports c ! (unat n - 1) of
     None \<Rightarrow> kNotConnected | Some p \<Rightarrow> config_phase p)"

definition view_of :: "Controller \<Rightarrow> view" where
  "view_of c = (phases c, addressing_port c)"

text \<open>
  The transitions the driver may make, as the comments and the names of the phases promise them;
  \<open>mx\<close> is the number of ports.
\<close>

inductive move :: "u8 \<Rightarrow> view \<Rightarrow> view \<Rightarrow> bool" for mx where
  stay: "move mx v v"
| wait: "a \<noteq> 0 \<Longrightarrow> n \<noteq> 0 \<Longrightarrow> ph n = kNotConnected \<Longrightarrow> move mx (ph, a) (ph(n := kWaitingAddressed), a)"
| reset: "n \<noteq> 0 \<Longrightarrow> ph n = kNotConnected \<Longrightarrow> move mx (ph, 0) (ph(n := kResettingPort), n)"
| enable: "n \<noteq> 0 \<Longrightarrow> ph n = kResettingPort \<Longrightarrow> move mx (ph, a) (ph(n := kEnablingSlot), a)"
| address: "a \<noteq> 0 \<Longrightarrow> ph a = kEnablingSlot \<Longrightarrow> move mx (ph, a) (ph(a := kAddressingDevice), a)"
| addressed: "a \<noteq> 0 \<Longrightarrow> ph a = kAddressingDevice \<Longrightarrow> move mx (ph, a) (ph(a := kInitializingDevice), 0)"
| addressed_next: "a \<noteq> 0 \<Longrightarrow> ph a = kAddressingDevice \<Longrightarrow> n \<noteq> 0 \<Longrightarrow> n < mx \<Longrightarrow> ph n = kWaitingAddressed \<Longrightarrow>
    move mx (ph, a) (ph(n := kResettingPort, a := kInitializingDevice), n)"
| configure: "n \<noteq> 0 \<Longrightarrow> ph n = kInitializingDevice \<Longrightarrow> move mx (ph, a) (ph(n := kConfiguringEndpoints), a)"
| configured: "n \<noteq> 0 \<Longrightarrow> ph n = kConfiguringEndpoints \<Longrightarrow> move mx (ph, a) (ph(n := kConfigured), a)"

inductive_cases moveE: "move mx v v'"

definition shape :: "Controller \<Rightarrow> Controller \<Rightarrow> bool" where
  "shape c c' \<longleftrightarrow> length (ports c') = length (ports c) \<and> length (devices c') = length (devices c)
     \<and> max_ports c' = max_ports c"

definition xhc_ok :: "Controller \<Rightarrow> bool" where
  "xhc_ok c \<longleftrightarrow> length (ports c) = 256 \<and> length (devices c) = kDeviceSize + 1"

lemma xhc_ok_shape: "xhc_ok c \<Longrightarrow> shape c c' \<Longrightarrow> xhc_ok c'"
  by (simp add: xhc_ok_def shape_def)

lemma shape_refl [simp]: "shape c c"
  by (simp add: shape_def)

lemma shape_trans: "shape a b \<Longrightarrow> shape b c \<Longrightarrow> shape a c"
  by (simp add: shape_def)

text \<open>An operation that leaves the view and the devices' table alone.\<close>

definition quiet :: "Controller \<Rightarrow> Controller \<Rightarrow> bool" where
  "quiet c c' \<longleftrightarrow> view_of c' = view_of c \<and> shape c c'"

lemma quiet_refl [simp]: "quiet c c"
  by (simp add: quiet_def)

lemma quiet_trans: "quiet a b \<Longrightarrow> quiet b c \<Longrightarrow> quiet a c"
  by (auto simp: quiet_def intro: shape_trans)

lemma index_inj: "n \<noteq> 0 \<Longrightarrow> m \<noteq> 0 \<Longrightarrow> unat (n :: u8) - 1 = unat m - 1 \<longleftrightarrow> n = m"
proof -
  assume "n \<noteq> 0" "m \<noteq> 0"
  then have "0 < unat n" "0 < unat m" by (simp_all add: unat_gt_0)
  then show ?thesis by (metis Suc_pred' diff_Suc_1 word_unat_eq_iff)
qed

lemma phases_0: "phases c 0 = kNotConnected"
  by (simp add: phases_def)

lemma PortAt_quiet:
  assumes "PortAt n c = Some (p, c')"
  shows "quiet c c' \<and> config_phase p = phases c n \<and> n \<noteq> 0 \<and> unat n - 1 < length (ports c)
    \<and> devices c' = devices c \<and> usb c' = usb c"
proof -
  have n: "n \<noteq> 0" using assms by (auto simp: PortAt_def split: if_splits)
  obtain q where q: "unat n - 1 < length (ports c)" "ports c ! (unat n - 1) = q"
    using assms n by (auto simp: PortAt_def arr_get_def split: if_splits)
  show ?thesis
  proof (cases q)
    case (Some x)
    then show ?thesis using assms n q by (auto simp: PortAt_def phases_def)
  next
    case None
    let ?p = "\<lparr>port_num = n, config_phase = kNotConnected\<rparr>"
    have c': "c' = c\<lparr>ports := (ports c)[unat n - 1 := Some ?p]\<rparr>" "p = ?p"
      using assms n q None by (auto simp: PortAt_def Let_def)
    have "phases c' m = phases c m" for m
      using q None n index_inj [of n m] by (auto simp: phases_def c'(1) nth_list_update split: if_splits)
    then show ?thesis using n q None c' by (auto simp: quiet_def view_of_def shape_def phases_def)
  qed
qed

lemma phase_at_quiet: "phase_at env n c = Some (ph, c') \<Longrightarrow>
    quiet c c' \<and> devices c' = devices c \<and> (n \<noteq> 0 \<longrightarrow> ph = phases c n \<and> unat n - 1 < length (ports c))"
  by (auto simp: phase_at_def split: if_splits dest: PortAt_quiet)

lemma SetConfigPhase_phases:
  assumes "SetConfigPhase n ph c = Some c'"
  shows "phases c' = (phases c)(n := ph) \<and> addressing_port c' = addressing_port c \<and> shape c c' \<and> n \<noteq> 0
    \<and> devices c' = devices c"
proof -
  obtain p c1 where P: "PortAt n c = Some (p, c1)"
    and c': "c' = c1\<lparr>ports := (ports c1)[unat n - 1 := Some (p\<lparr>config_phase := ph\<rparr>)]\<rparr>"
    using assms by (auto simp: SetConfigPhase_def split: option.splits prod.splits simp: bind_eq_Some_conv)
  note Q = PortAt_quiet [OF P]
  have l: "unat n - 1 < length (ports c1)" using Q by (auto simp: quiet_def shape_def)
  have "phases c' m = (if m = n then ph else phases c m)" for m
  proof (cases "m = 0")
    case True
    then show ?thesis using Q by (auto simp: phases_def)
  next
    case False
    have "phases c1 m = phases c m" using Q by (auto simp: quiet_def view_of_def)
    then show ?thesis using Q l False index_inj [of n m]
      by (auto simp: phases_def c' nth_list_update split: if_splits)
  qed
  then show ?thesis using Q c' by (auto simp: quiet_def view_of_def shape_def)
qed

lemma put_portsc_quiet: "quiet c (put_portsc n v c)" "devices (put_portsc n v c) = devices c"
  by (simp_all add: put_portsc_def quiet_def view_of_def shape_def phases_def fun_eq_iff)

lemma command_quiet: "command t c = Some c' \<Longrightarrow> quiet c c' \<and> devices c' = devices c"
  by (auto simp: command_def quiet_def view_of_def shape_def phases_def fun_eq_iff bind_eq_Some_conv
      split: option.splits)

lemma put_device_quiet: "quiet c (put_device sl d c)"
  by (simp add: put_device_def quiet_def view_of_def shape_def phases_def fun_eq_iff)

lemma usb_quiet: "quiet c (c\<lparr>usb := u\<rparr>)"
  by (simp add: quiet_def view_of_def shape_def phases_def fun_eq_iff)

lemma on_device_quiet: "on_device sl f c = Some (c', e) \<Longrightarrow> quiet c c'"
  by (auto simp: on_device_def bind_eq_Some_conv put_device_def quiet_def view_of_def shape_def phases_def fun_eq_iff)


subsection \<open>The handlers follow the state machine\<close>

lemma quiet_view: "quiet c c' \<Longrightarrow> phases c' = phases c \<and> addressing_port c' = addressing_port c \<and> shape c c'"
  by (simp add: quiet_def view_of_def)

lemma Port_Reset_quiet: "Port_Reset env n c = Some c' \<Longrightarrow> quiet c c' \<and> devices c' = devices c"
  by (auto simp: Port_Reset_def bind_eq_Some_conv put_portsc_quiet)

lemma ClearPortResetChange_quiet: "ClearPortResetChange env n c = Some c' \<Longrightarrow> quiet c c' \<and> devices c' = devices c"
  by (auto simp: ClearPortResetChange_def bind_eq_Some_conv put_portsc_quiet)

text \<open>
  A port that is not connected in the register stays as it is; otherwise it waits when another port is
  being addressed, and is reset when none is.
\<close>

lemma ResetPort_cases:
  assumes "ResetPort env n c = Some (c', e)"
  obtains (quiet) "quiet c c'" "devices c' = devices c" "addressing_port c = 0 \<Longrightarrow> n \<noteq> 0 \<Longrightarrow> e \<noteq> kSuccess \<Longrightarrow>
      phases c n \<noteq> kNotConnected \<and> phases c n \<noteq> kWaitingAddressed"
    | (wait) "addressing_port c \<noteq> 0" "n \<noteq> 0" "view_of c' = ((phases c)(n := kWaitingAddressed), addressing_port c)"
      "shape c c'" "devices c' = devices c" "e = kSuccess"
    | (reset) "addressing_port c = 0" "n \<noteq> 0" "phases c n = kNotConnected \<or> phases c n = kWaitingAddressed"
      "view_of c' = ((phases c)(n := kResettingPort), n)" "shape c c'" "devices c' = devices c" "e = kSuccess"
proof -
  obtain con where con: "IsConnected n c = Some con" using assms by (auto simp: ResetPort_def bind_eq_Some_conv)
  show thesis
  proof (cases con)
    case False
    then show thesis using assms con quiet by (simp add: ResetPort_def)
  next
    case conn: True
    show thesis
    proof (cases "addressing_port c = 0")
      case False
      then obtain c1 where "SetConfigPhase n kWaitingAddressed c = Some c1" "c' = c1" "e = kSuccess"
        using assms con conn by (auto simp: ResetPort_def)
      with SetConfigPhase_phases [of n kWaitingAddressed c c1] wait False show thesis by (simp add: view_of_def)
    next
      case True
      then obtain ph c1 where P: "phase_at env n c = Some (ph, c1)"
        using assms con conn by (auto simp: ResetPort_def bind_eq_Some_conv)
      note Q = phase_at_quiet [OF P]
      show thesis
      proof (cases "ph \<noteq> kNotConnected \<and> ph \<noteq> kWaitingAddressed")
        case bad: True
        then have "c' = c1" using assms con conn True P by (simp add: ResetPort_def)
        then show thesis using quiet Q bad by blast
      next
        case False
        then obtain c2 where S: "SetConfigPhase n kResettingPort (c1\<lparr>addressing_port := n\<rparr>) = Some c2"
          "Port_Reset env n c2 = Some c'" "e = kSuccess"
          using assms con conn True P by (auto simp: ResetPort_def bind_eq_Some_conv)
        note S1 = SetConfigPhase_phases [OF S(1)] and S2 = Port_Reset_quiet [OF S(2)]
        have "phases (c1\<lparr>addressing_port := n\<rparr>) = phases c1" by (simp add: phases_def fun_eq_iff)
        then show thesis using reset S1 S2 Q True S(3) False
          by (auto simp: quiet_def view_of_def shape_def)
      qed
    qed
  qed
qed

lemma EnableSlot_view:
  assumes "EnableSlot env n c = Some (c', e)"
  shows "shape c c' \<and> (view_of c' = view_of c \<or>
    n \<noteq> 0 \<and> view_of c' = ((phases c)(n := kEnablingSlot), addressing_port c))"
proof -
  obtain en rc where R: "IsEnabled n c = Some en" "IsPortResetChanged n c = Some rc"
    using assms by (auto simp: EnableSlot_def bind_eq_Some_conv)
  show ?thesis
  proof (cases "en \<and> rc")
    case False
    then show ?thesis using assms R by (auto simp: EnableSlot_def)
  next
    case True
    then obtain c1 c2 where S: "ClearPortResetChange env n c = Some c1" "SetConfigPhase n kEnablingSlot c1 = Some c2"
      "command EnableSlotCommandTRB c2 = Some c'"
      using assms R by (auto simp: EnableSlot_def bind_eq_Some_conv)
    note Q = ClearPortResetChange_quiet [OF S(1)] and P = SetConfigPhase_phases [OF S(2)] and K = command_quiet [OF S(3)]
    show ?thesis using Q P K by (auto simp: quiet_def view_of_def shape_def)
  qed
qed

lemma AllocDevice_quiet: "AllocDevice env sl c = Some (c', e) \<Longrightarrow> quiet c c'"
  by (auto simp: AllocDevice_def put_device_def quiet_def view_of_def shape_def phases_def fun_eq_iff
      split: if_splits prod.splits)

lemma LoadDCBAA_quiet: "LoadDCBAA sl c = Some (c', e) \<Longrightarrow> quiet c c'"
  by (auto simp: LoadDCBAA_def quiet_def view_of_def shape_def phases_def fun_eq_iff bind_eq_Some_conv
      split: if_splits)

lemma AddressDevice_view:
  assumes "AddressDevice env n sl c = Some (c', e)"
  shows "shape c c' \<and> (view_of c' = view_of c \<or>
    n \<noteq> 0 \<and> view_of c' = ((phases c)(n := kAddressingDevice), addressing_port c))"
proof -
  obtain c1 e1 where A: "AllocDevice env sl c = Some (c1, e1)"
    using assms by (auto simp: AddressDevice_def bind_eq_Some_conv)
  note qA = AllocDevice_quiet [OF A]
  show ?thesis
  proof (cases "e1 = kSuccess")
    case False
    then show ?thesis using assms A qA by (simp add: AddressDevice_def quiet_def)
  next
    case ok: True
    show ?thesis
    proof (cases "FindBySlot sl c1")
      case None
      then show ?thesis using assms A ok qA by (simp add: AddressDevice_def quiet_def)
    next
      case (Some d)
      then obtain port c2 u d' c3 e3 t where P: "PortAt n c1 = Some (port, c2)"
        and L: "LoadDCBAA sl (put_device sl d' (c2\<lparr>usb := u\<rparr>)) = Some (c3, e3)"
        and R: "(if e3 \<noteq> kSuccess then Some (c3, e3) else do {
            c4 \<leftarrow> SetConfigPhase n kAddressingDevice c3;
            c5 \<leftarrow> command t c4;
            Some (c5, kSuccess) }) = Some (c', e)"
        using assms A ok by (fastforce simp: AddressDevice_def bind_eq_Some_conv Let_def)
      have q: "quiet c c3"
        using qA conjunct1 [OF PortAt_quiet [OF P]] usb_quiet [of c2 u] put_device_quiet [of "c2\<lparr>usb := u\<rparr>" sl d']
          LoadDCBAA_quiet [OF L] by (meson quiet_trans)
      show ?thesis
      proof (cases "e3 = kSuccess")
        case False
        then show ?thesis using R q by (simp add: quiet_def)
      next
        case True
        then obtain c4 where S: "SetConfigPhase n kAddressingDevice c3 = Some c4" "command t c4 = Some c'"
          using R by (auto simp: bind_eq_Some_conv)
        show ?thesis using q SetConfigPhase_phases [OF S(1)] command_quiet [OF S(2)]
          by (auto simp: quiet_def view_of_def shape_def)
      qed
    qed
  qed
qed


lemma next_port_view:
  assumes "next_port env is c = Some (c', e)" and "addressing_port c = 0" and "\<forall>i \<in> set is. i < unat mx"
  shows "shape c c' \<and> devices c' = devices c \<and> e = kSuccess \<and> (view_of c' = view_of c \<or>
    (\<exists>n. n \<noteq> 0 \<and> n < mx \<and> phases c n = kWaitingAddressed \<and> view_of c' = ((phases c)(n := kResettingPort), n)))"
  using assms
proof (induction "is" arbitrary: c)
  case (Cons i "is")
  obtain ph c1 where P: "phase_at env (of_nat i) c = Some (ph, c1)"
    using Cons.prems(1) by (auto split: option.splits)
  note Q = phase_at_quiet [OF P]
  have i: "unat (of_nat i :: u8) = i"
  proof -
    have "i < 256" using Cons.prems(3) unsigned_less [of mx, where 'a = nat] by simp
    then have "take_bit 8 i = i" by (intro take_bit_nat_eq_self) simp
    then show ?thesis by (simp only: unsigned_of_nat) simp
  qed
  have a: "addressing_port c1 = 0" "phases c1 = phases c" "shape c c1" "devices c1 = devices c"
    using Q Cons.prems(2) by (auto simp: quiet_def view_of_def)
  show ?case
  proof (cases "ph = kWaitingAddressed")
    case False
    then have "next_port env is c1 = Some (c', e)" using Cons.prems(1) P by simp
    from Cons.IH [OF this a(1)] Cons.prems(3) a show ?thesis
      by (auto simp: view_of_def Cons.prems(2) intro: shape_trans)
  next
    case True
    then have R: "ResetPort env (of_nat i) c1 = Some (c', e)" "i \<noteq> 0"
      using Cons.prems(1) P by (auto split: if_splits)
    have n: "(of_nat i :: u8) \<noteq> 0" using i R(2) by (metis unsigned_0)
    have w: "phases c (of_nat i) = kWaitingAddressed" using Q n True by simp
    have lt: "(of_nat i :: u8) < mx" using i Cons.prems(3) by (simp add: word_less_nat_alt)
    show ?thesis
    proof (rule ResetPort_cases [OF R(1)], goal_cases)
      case 1
      then have "e = kSuccess" using a n w by metis
      then show ?case using 1 a by (auto simp: quiet_def view_of_def Cons.prems(2) intro: shape_trans)
    next
      case 2
      then show ?case using a by simp
    next
      case 3
      then show ?case using a n w lt by (auto intro: shape_trans)
    qed
  qed
qed simp

lemma InitializeDevice_view:
  assumes "InitializeDevice n sl c = Some (c', e)" and "FindBySlot sl c \<noteq> None"
  shows "shape c c' \<and> n \<noteq> 0 \<and> view_of c' = ((phases c)(n := kInitializingDevice), addressing_port c)"
proof -
  obtain c1 e1 where S: "SetConfigPhase n kInitializingDevice c = Some c1"
    "on_device sl StartInitialize c1 = Some (c', e1)"
    using assms by (auto simp: InitializeDevice_def bind_eq_Some_conv)
  show ?thesis using SetConfigPhase_phases [OF S(1)] on_device_quiet [OF S(2)]
    by (auto simp: quiet_def view_of_def shape_def)
qed

lemma ConfigureEndPoints_view:
  assumes "ConfigureEndPoints env sl c = Some (c', e)" and "FindBySlot sl c = Some d"
  shows "shape c c' \<and> (view_of c' = view_of c \<or> root_hub_port_num (out_slot_context d) \<noteq> 0 \<and>
    view_of c' = ((phases c)(root_hub_port_num (out_slot_context d) := kConfiguringEndpoints), addressing_port c))"
proof -
  let ?n = "root_hub_port_num (out_slot_context d)"
  obtain port c1 sp d1 where P: "PortAt ?n c = Some (port, c1)"
    and R: "c' = put_device sl d1 c1 \<or> (\<exists>d2 u c2 t. SetConfigPhase ?n kConfiguringEndpoints
        (put_device sl d2 (c1\<lparr>usb := u\<rparr>)) = Some c2 \<and> command t c2 = Some c')"
    using assms by (auto simp: ConfigureEndPoints_def bind_eq_Some_conv Let_def split: if_splits) blast+
  note q1 = conjunct1 [OF PortAt_quiet [OF P]]
  show ?thesis
  proof (cases "c' = put_device sl d1 c1")
    case True
    then show ?thesis using quiet_trans [OF q1 put_device_quiet] by (simp add: quiet_def)
  next
    case False
    then obtain d2 u c2 t where S: "SetConfigPhase ?n kConfiguringEndpoints (put_device sl d2 (c1\<lparr>usb := u\<rparr>)) = Some c2"
      "command t c2 = Some c'" using R by auto
    have "quiet c (put_device sl d2 (c1\<lparr>usb := u\<rparr>))" using q1 usb_quiet put_device_quiet by (meson quiet_trans)
    then show ?thesis using SetConfigPhase_phases [OF S(1)] command_quiet [OF S(2)]
      by (auto simp: quiet_def view_of_def shape_def)
  qed
qed

text \<open>Every handler makes at most one transition of the state machine.\<close>

definition follows :: "Controller \<Rightarrow> Controller \<Rightarrow> bool" where
  "follows c c' \<longleftrightarrow> move (max_ports c) (view_of c) (view_of c') \<and> shape c c'"

lemma quiet_follows: "quiet c c' \<Longrightarrow> follows c c'"
  by (auto simp: quiet_def follows_def intro: move.stay)

lemma view_move: "move mx (phases c, addressing_port c) v \<Longrightarrow> view_of c' = v \<Longrightarrow> shape c c' \<Longrightarrow> mx = max_ports c \<Longrightarrow> follows c c'"
  by (simp add: follows_def view_of_def)

lemma follows_quiet_left: "quiet c c1 \<Longrightarrow> follows c1 c' \<Longrightarrow> follows c c'"
  by (auto simp: quiet_def follows_def shape_def)

lemma ResetPort_follows:
  assumes "ResetPort env n c = Some (c', e)" and "phases c n = kNotConnected"
  shows "follows c c'"
proof (rule ResetPort_cases [OF assms(1)], goal_cases)
  case 1
  then show ?case by (intro quiet_follows)
next
  case 2
  then show ?case using assms(2) by (intro view_move [OF move.wait]) auto
next
  case 3
  then show ?case using assms(2) move.reset [of n "phases c"] by (auto simp: follows_def view_of_def)
qed

lemma OnPortStatusChange_follows:
  assumes "OnPortStatusChangeEvent env trb c = Some (c', e)"
  shows "follows c c'"
proof -
  let ?n = "event_port_id trb"
  obtain ph c1 where P: "phase_at env ?n c = Some (ph, c1)"
    and R: "(if ph = kNotConnected then ResetPort env ?n c1
      else if ph = kResettingPort then EnableSlot env ?n c1 else Some (c1, kInvalidPhase)) = Some (c', e)"
    using assms by (auto simp: OnPortStatusChangeEvent_def bind_eq_Some_conv Let_def)
  note Q = phase_at_quiet [OF P]
  have v: "phases c1 = phases c" using Q by (simp add: quiet_def view_of_def)
  have "follows c1 c'"
  proof (cases "?n = 0")
    case True
    consider "ph = kNotConnected" | "ph = kResettingPort" | "c' = c1" using R by (auto split: if_splits)
    then show ?thesis
    proof cases
      case 1
      have "phases c1 ?n = kNotConnected" using True by (simp add: phases_def)
      then show ?thesis using ResetPort_follows R 1 by simp
    next
      case 2
      then have "EnableSlot env ?n c1 = Some (c', e)" using R by simp
      from EnableSlot_view [OF this] True show ?thesis by (auto intro: quiet_follows simp: quiet_def)
    next
      case 3
      then show ?thesis by (simp add: quiet_follows)
    qed
  next
    case n: False
    then have ph: "ph = phases c1 ?n" using Q v by simp
    consider "ph = kNotConnected" | "ph = kResettingPort" | "c' = c1" using R by (auto split: if_splits)
    then show ?thesis
    proof cases
      case 1
      then show ?thesis using ResetPort_follows R ph by simp
    next
      case 2
      then have "EnableSlot env ?n c1 = Some (c', e)" using R by simp
      from EnableSlot_view [OF this] 2 ph n show ?thesis
        by (auto intro: quiet_follows view_move [OF move.enable] simp: quiet_def)
    next
      case 3
      then show ?thesis by (simp add: quiet_follows)
    qed
  qed
  with Q show ?thesis by (auto intro: follows_quiet_left)
qed


lemma OnEnableSlotCompletion_follows:
  assumes "OnEnableSlotCompletion env sl c = Some (c', e)"
  shows "follows c c'"
proof -
  obtain ph c1 where P: "phase_at env (addressing_port c) c = Some (ph, c1)"
    and R: "(if ph \<noteq> kEnablingSlot then Some (c1, kInvalidPhase)
      else AddressDevice env (addressing_port c1) sl c1) = Some (c', e)"
    using assms by (auto simp: OnEnableSlotCompletion_def bind_eq_Some_conv)
  note Q = phase_at_quiet [OF P]
  have a: "addressing_port c1 = addressing_port c" "phases c1 = phases c" using Q by (auto simp: quiet_def view_of_def)
  have "follows c1 c'"
  proof (cases "ph = kEnablingSlot")
    case True
    then have "AddressDevice env (addressing_port c1) sl c1 = Some (c', e)" using R by simp
    from AddressDevice_view [OF this] show ?thesis
      using Q True a by (auto intro: quiet_follows view_move [OF move.address] simp: quiet_def)
  next
    case False
    then show ?thesis using R by (simp add: quiet_follows)
  qed
  with Q show ?thesis by (auto intro: follows_quiet_left)
qed

lemma phases_same_addr [simp]: "phases (c\<lparr>addressing_port := a\<rparr>) = phases c"
  by (simp add: phases_def fun_eq_iff)

lemma shape_addr [simp]: "shape (c\<lparr>addressing_port := a\<rparr>) c' = shape c c'"
  by (simp add: shape_def)

lemma OnAddressDeviceCompletion_follows:
  assumes "OnAddressDeviceCompletion env sl c = Some (c', e)"
  shows "follows c c'"
proof (cases "FindBySlot sl c")
  case None
  then show ?thesis using assms by (simp add: OnAddressDeviceCompletion_def quiet_follows)
next
  case (Some d)
  let ?n = "root_hub_port_num (out_slot_context d)"
  show ?thesis
  proof (cases "?n = addressing_port c")
    case False
    then show ?thesis using assms Some by (simp add: OnAddressDeviceCompletion_def Let_def quiet_follows)
  next
    case n: True
    obtain ph c1 where P: "phase_at env (addressing_port c) c = Some (ph, c1)"
      using assms Some n by (auto simp: OnAddressDeviceCompletion_def Let_def bind_eq_Some_conv)
    note Q = phase_at_quiet [OF P]
    have a: "addressing_port c1 = addressing_port c" "phases c1 = phases c" "shape c c1" "devices c1 = devices c"
      using Q by (auto simp: quiet_def view_of_def)
    show ?thesis
    proof (cases "ph = kAddressingDevice")
      case False
      then have "c' = c1" using assms Some n P by (simp add: OnAddressDeviceCompletion_def Let_def)
      then show ?thesis using Q by (simp add: quiet_follows)
    next
      case True
      obtain c2 e2 where N: "next_port env [0..<unat (max_ports c1)] (c1\<lparr>addressing_port := 0\<rparr>) = Some (c2, e2)"
        and R: "(if e2 \<noteq> kSuccess then Some (c2, e2) else InitializeDevice (addressing_port c) sl c2) = Some (c', e)"
        using assms Some n P True by (auto simp: OnAddressDeviceCompletion_def Let_def bind_eq_Some_conv)
      have V: "shape c1 c2" "devices c2 = devices c" "e2 = kSuccess" "view_of c2 = (phases c, 0) \<or>
        (\<exists>m. m \<noteq> 0 \<and> m < max_ports c1 \<and> phases c m = kWaitingAddressed \<and> view_of c2 = ((phases c)(m := kResettingPort), m))"
        using next_port_view [OF N, of "max_ports c1"] a by (auto simp: view_of_def)
      have "FindBySlot sl c2 \<noteq> None" using Some V(2) by (auto simp: FindBySlot_def split: if_splits)
      moreover have "InitializeDevice ?n sl c2 = Some (c', e)" using R V(3) n by simp
      ultimately have I: "shape c2 c'" "?n \<noteq> 0" "view_of c' = ((phases c2)(?n := kInitializingDevice), addressing_port c2)"
        using InitializeDevice_view by blast+
      have p: "phases c ?n = kAddressingDevice" using Q True I(2) n by simp
      have s: "shape c c'" using a(3) V(1) I(1) by (blast intro: shape_trans)
      have mx: "max_ports c1 = max_ports c" using a(3) by (simp add: shape_def)
      from V(4) show ?thesis
      proof (elim disjE exE conjE)
        assume "view_of c2 = (phases c, 0)"
        then have "view_of c' = ((phases c)(?n := kInitializingDevice), 0)" using I(3) by (simp add: view_of_def)
        then show ?thesis using move.addressed [of ?n "phases c" "max_ports c"] I(2) p s n
          by (simp add: follows_def view_of_def)
      next
        fix m assume m: "m \<noteq> 0" "m < max_ports c1" "phases c m = kWaitingAddressed"
          "view_of c2 = ((phases c)(m := kResettingPort), m)"
        then have "view_of c' = ((phases c)(m := kResettingPort, ?n := kInitializingDevice), m)"
          using I(3) by (simp add: view_of_def)
        then show ?thesis using move.addressed_next [of ?n "phases c" m "max_ports c"] m I(2) p s n mx
          by (simp add: follows_def view_of_def)
      qed
    qed
  qed
qed

lemma OnConfigureEndpointCompletion_follows:
  assumes "OnConfigureEndpointCompletion env sl c = Some (c', e)"
  shows "follows c c'"
proof (cases "FindBySlot sl c")
  case None
  then show ?thesis using assms by (simp add: OnConfigureEndpointCompletion_def quiet_follows)
next
  case (Some d)
  let ?n = "root_hub_port_num (out_slot_context d)"
  obtain ph c1 where P: "phase_at env ?n c = Some (ph, c1)"
    using assms Some by (auto simp: OnConfigureEndpointCompletion_def Let_def bind_eq_Some_conv)
  note Q = phase_at_quiet [OF P]
  show ?thesis
  proof (cases "ph = kConfiguringEndpoints")
    case False
    then have "c' = c1" using assms Some P by (simp add: OnConfigureEndpointCompletion_def Let_def)
    then show ?thesis using Q by (simp add: quiet_follows)
  next
    case True
    then obtain c2 e2 where S: "on_device sl Usb_Device.OnEndpointsConfigured c1 = Some (c2, e2)"
      "SetConfigPhase ?n kConfigured c2 = Some c'"
      using assms Some P by (auto simp: OnConfigureEndpointCompletion_def Let_def bind_eq_Some_conv)
    have q: "quiet c c2" using Q on_device_quiet [OF S(1)] by (blast intro: quiet_trans)
    note V = SetConfigPhase_phases [OF S(2)]
    have "phases c ?n = kConfiguringEndpoints" using Q V True by simp
    then show ?thesis using q V
      by (intro view_move [OF move.configured]) (auto simp: quiet_def view_of_def shape_def)
  qed
qed

lemma OnTransferEvent_follows:
  assumes "OnTransferEvent env trb c = Some (c', e)"
  shows "follows c c'"
proof (cases "FindBySlot (event_slot_id trb) c")
  case None
  then show ?thesis using assms by (simp add: OnTransferEvent_def Let_def quiet_follows)
next
  case (Some d0)
  let ?sl = "event_slot_id trb"
  obtain c1 e1 where D: "on_device ?sl (OnTransferEventReceived (usb_env env) trb) c = Some (c1, e1)"
    using assms Some by (auto simp: OnTransferEvent_def Let_def bind_eq_Some_conv)
  note q1 = on_device_quiet [OF D]
  show ?thesis
  proof (cases "e1 = kSuccess")
    case False
    then show ?thesis using assms Some D q1 by (simp add: OnTransferEvent_def Let_def quiet_follows)
  next
    case True
    obtain d ph c2 where P: "FindBySlot ?sl c1 = Some d" "phase_at env (root_hub_port_num (out_slot_context d)) c1 = Some (ph, c2)"
      and R: "(if is_initialized (xd d) \<and> ph = kInitializingDevice then ConfigureEndPoints env ?sl c2
         else Some (c2, kSuccess)) = Some (c', e)"
      using assms Some D True by (auto simp: OnTransferEvent_def Let_def bind_eq_Some_conv)
    note Q = phase_at_quiet [OF P(2)]
    have q: "quiet c c2" using q1 Q by (blast intro: quiet_trans)
    have "follows c2 c'"
    proof (cases "is_initialized (xd d) \<and> ph = kInitializingDevice")
      case False
      then show ?thesis using R by (auto simp: quiet_follows)
    next
      case True
      let ?n = "root_hub_port_num (out_slot_context d)"
      have f: "FindBySlot ?sl c2 = Some d" using P(1) Q by (auto simp: FindBySlot_def split: if_splits)
      have "ConfigureEndPoints env ?sl c2 = Some (c', e)" using R True by simp
      from ConfigureEndPoints_view [OF this f] consider "quiet c2 c'"
        | "?n \<noteq> 0" "view_of c' = ((phases c2)(?n := kConfiguringEndpoints), addressing_port c2)" "shape c2 c'"
        by (auto simp: quiet_def)
      then show ?thesis
      proof cases
        case 1
        then show ?thesis by (rule quiet_follows)
      next
        case 2
        have "phases c2 ?n = kInitializingDevice" using Q True 2(1) by (auto simp: quiet_def view_of_def)
        with 2 show ?thesis by (intro view_move [OF move.configure]) auto
      qed
    qed
    with q show ?thesis by (rule follows_quiet_left)
  qed
qed

lemma ConfigurePort_follows:
  assumes "ConfigurePort env n c = Some (c', e)"
  shows "follows c c'"
proof -
  obtain ph c1 where P: "phase_at env n c = Some (ph, c1)"
    and R: "(if ph = kNotConnected then ResetPort env n c1 else Some (c1, kSuccess)) = Some (c', e)"
    using assms by (auto simp: ConfigurePort_def bind_eq_Some_conv)
  note Q = phase_at_quiet [OF P]
  have "follows c1 c'"
  proof (cases "ph = kNotConnected")
    case True
    then have "phases c1 n = kNotConnected"
      using Q phases_0 [of c1] by (cases "n = 0") (auto simp: quiet_def view_of_def)
    then show ?thesis using R True ResetPort_follows by simp
  next
    case False
    then show ?thesis using R by (simp add: quiet_follows)
  qed
  with Q show ?thesis by (auto intro: follows_quiet_left)
qed

lemma dispatch_follows: "dispatch env trb c = Some (c', e) \<Longrightarrow> follows c c'"
  by (auto simp: dispatch_def OnCommandCompletionEvent_def Let_def bind_eq_Some_conv
      OnTransferEvent_follows OnEnableSlotCompletion_follows OnAddressDeviceCompletion_follows
      OnConfigureEndpointCompletion_follows OnPortStatusChange_follows quiet_follows split: if_splits)

lemma follows_evt_ring: "follows c c1 \<Longrightarrow> follows c (c1\<lparr>evt_ring := r\<rparr>)"
proof -
  have "phases (c1\<lparr>evt_ring := r\<rparr>) = phases c1" by (simp add: phases_def fun_eq_iff)
  then show "follows c c1 \<Longrightarrow> ?thesis" by (simp add: follows_def view_of_def shape_def)
qed

lemma ProcessEvent_follows:
  assumes "ProcessEvent env c = Some (c', e)"
  shows "follows c c'"
proof -
  obtain front where F: "er_HasFront (evt_ring c) (trbs (usb c)) = Some front"
    using assms by (auto simp: ProcessEvent_def bind_eq_Some_conv)
  show ?thesis
  proof (cases front)
    case False
    then show ?thesis using assms F by (simp add: ProcessEvent_def quiet_follows)
  next
    case True
    then obtain trb c1 where D: "dispatch env trb c = Some (c1, e)" "c' = c1\<lparr>evt_ring := er_Pop (evt_ring c1)\<rparr>"
      using assms F by (auto simp: ProcessEvent_def bind_eq_Some_conv)
    show ?thesis unfolding D(2) by (rule follows_evt_ring [OF dispatch_follows [OF D(1)]])
  qed
qed

subsection \<open>Runs\<close>

text \<open>
  A run of the driver: events are processed, ports are configured from \<^verbatim>\<open>Initialize\<close>, and in between the
  hardware writes its registers, its slot contexts and the memory it shares with the driver.  The rule
  lets it change the devices' tables and all memory at will, which only makes the theorems stronger.
\<close>

inductive runs :: "HcEnv \<Rightarrow> Controller \<Rightarrow> Controller \<Rightarrow> bool" for env where
  start: "runs env c c"
| event: "runs env c0 c \<Longrightarrow> ProcessEvent env c = Some (c', e) \<Longrightarrow> runs env c0 c'"
| port: "runs env c0 c \<Longrightarrow> ConfigurePort env n c = Some (c', e) \<Longrightarrow> runs env c0 c'"
| hardware: "runs env c0 c \<Longrightarrow> length ds = length (devices c) \<Longrightarrow>
    runs env c0 (c\<lparr>portsc := rs, devices := ds, usb := u\<rparr>)"

text \<open>Between reset and address a port is busy.\<close>

definition busy :: "ConfigPhase \<Rightarrow> bool" where
  "busy ph \<longleftrightarrow> ph = kResettingPort \<or> ph = kEnablingSlot \<or> ph = kAddressingDevice"

lemma runs_follow: "runs env c0 c \<Longrightarrow> (move (max_ports c0))\<^sup>*\<^sup>* (view_of c0) (view_of c) \<and> max_ports c = max_ports c0"
proof (induction rule: runs.induct)
  case (event c0 c c' e)
  then show ?case using ProcessEvent_follows [of env c c' e]
    by (auto simp: follows_def shape_def intro: rtranclp.rtrancl_into_rtrancl)
next
  case (port c0 c n c' e)
  then show ?case using ConfigurePort_follows [of env n c c' e]
    by (auto simp: follows_def shape_def intro: rtranclp.rtrancl_into_rtrancl)
next
  case (hardware c0 c ds u rs)
  have "phases (c\<lparr>portsc := rs, devices := ds, usb := u\<rparr>) = phases c" by (simp add: phases_def fun_eq_iff)
  with hardware show ?case by (simp add: view_of_def)
qed simp

definition one_busy :: "view \<Rightarrow> bool" where
  "one_busy v \<longleftrightarrow> (\<forall>n. n \<noteq> 0 \<longrightarrow> (busy (fst v n) \<longleftrightarrow> n = snd v))"

lemma move_one_busy: "move mx v v' \<Longrightarrow> one_busy v \<Longrightarrow> one_busy v'"
  by (induction rule: move.induct) (auto simp: one_busy_def busy_def)

lemma moves_one_busy: "(move mx)\<^sup>*\<^sup>* v v' \<Longrightarrow> one_busy v \<Longrightarrow> one_busy v'"
  by (induction rule: rtranclp.induct) (auto intro: move_one_busy)

lemma move_keeps_last:
  "move mx v v' \<Longrightarrow> one_busy v \<Longrightarrow> n \<noteq> 0 \<Longrightarrow> mx \<le> n \<Longrightarrow> fst v n = kWaitingAddressed \<Longrightarrow> fst v' n = kWaitingAddressed"
  by (induction rule: move.induct) (auto simp: one_busy_def busy_def)

lemma moves_keep_last:
  assumes "(move mx)\<^sup>*\<^sup>* v v'" and "one_busy v" and "n \<noteq> 0" and "mx \<le> n" and "fst v n = kWaitingAddressed"
  shows "fst v' n = kWaitingAddressed"
  using assms(1,2,5)
proof (induction rule: rtranclp.induct)
  case (rtrancl_into_rtrancl a b c)
  then show ?case using move_keeps_last moves_one_busy assms(3,4) by blast
qed simp

subsection \<open>A controller with two ports\<close>

definition hc_example :: HcEnv where
  "hc_example = \<lparr>usb_env = \<lparr>driver_size = 3000, driver_buf_offset = 64, observers_set = True\<rparr>,
     device_size = 2000, device_buf_offset = 1500, in_context_offset = 1024, port0 = Some kNotConnected,
     portsc_write = (\<lambda>old new. new), reset_settled = (\<lambda>v. Some 0x200603)\<rparr>"

definition xhc_example :: Controller where
  "xhc_example = \<lparr>max_ports = 2, ports = replicate 256 None, portsc = [1, 1], addressing_port = 0,
     devices = replicate 9 None, device_context_pointers = replicate 9 0,
     cmd_ring = fst ring_example,
     evt_ring = \<lparr>er_buf = 0, er_size = 0, er_cycle = True, er_erst = 0, erst_base = 0, erst_size = 0,
       ERDP = 0, ERSTSZ = 0, ERSTBA = 0\<rparr>,
     usb = \<lparr>pool = pool_example, trbs = Map.empty, bytes = Map.empty, doorbells = [], notified = []\<rparr>\<rparr>"

lemma xhc_example_phases: "phases xhc_example n = kNotConnected"
proof (cases "n = 0")
  case False
  have "unat n < 256" using unsigned_less [of n, where 'a = nat] by simp
  then show ?thesis by (simp add: phases_def xhc_example_def del: replicate.simps)
qed (simp add: phases_def)

lemma configure_first:
  "\<exists>c. ConfigurePort hc_example 1 xhc_example = Some (c, kSuccess) \<and> addressing_port c = 1
     \<and> busy (phases c 1) \<and> portsc c = [0x200603, 1] \<and> max_ports c = 2 \<and> ports c ! 1 = None
     \<and> length (ports c) = 256"
  by (simp add: ConfigurePort_def phase_at_def PortAt_def xhc_example_def ResetPort_def IsConnected_def
      read_portsc_def current_connect_status_def field_def SetConfigPhase_def Port_Reset_def put_portsc_def
      hc_example_def busy_def phases_def Let_def del: replicate.simps)

lemma configure_second:
  assumes "addressing_port c = 1" and "portsc c = [0x200603, 1]" and "ports c ! 1 = None" and "length (ports c) = 256"
  shows "\<exists>c'. ConfigurePort hc_example 2 c = Some (c', kSuccess) \<and> phases c' 2 = kWaitingAddressed"
  using assms by (simp add: ConfigurePort_def phase_at_def PortAt_def ResetPort_def IsConnected_def
      read_portsc_def current_connect_status_def field_def SetConfigPhase_def phases_def Let_def)

text \<open>
  C8: the event handlers refine the port state machine.  Whatever the event and whatever the hardware
  did before, one call of \<^verbatim>\<open>ProcessEvent\<close> or \<^verbatim>\<open>ConfigurePort\<close> that is defined makes at most one transition
  of the machine \<open>move\<close> on the phases of the ports and the addressed port (two ports change only when
  one finishes being addressed and the next one is reset), and errors make none that the machine does
  not allow.
\<close>

theorem handlers_refine_port_machine:
  assumes "ProcessEvent env c = Some (c', e) \<or> ConfigurePort env n c = Some (c', e)"
  shows "move (max_ports c) (view_of c) (view_of c') \<and> max_ports c' = max_ports c"
  using assms ProcessEvent_follows [of env c c' e] ConfigurePort_follows [of env n c c' e]
  by (auto simp: follows_def shape_def)

theorem handlers_refine_port_machine_witness:
  "\<exists>c'. ConfigurePort hc_example 1 xhc_example = Some (c', kSuccess)
     \<and> move 2 (view_of xhc_example) (view_of c')"
proof -
  obtain c' where "ConfigurePort hc_example 1 xhc_example = Some (c', kSuccess)" using configure_first by blast
  moreover from this have "move (max_ports xhc_example) (view_of xhc_example) (view_of c')"
    using handlers_refine_port_machine by blast
  ultimately show ?thesis by (auto simp: xhc_example_def)
qed

text \<open>
  C25: at most one port is being addressed.  In every run from a state where no port is busy and none
  is addressed, the ports in the phases from reset to address are exactly the one that
  \<^verbatim>\<open>addressing_port\<close> names.
\<close>

theorem one_port_addressed_at_a_time:
  assumes "runs env c0 c" and "addressing_port c0 = 0" and "\<forall>n. phases c0 n = kNotConnected" and "n \<noteq> 0"
  shows "busy (phases c n) \<longleftrightarrow> n = addressing_port c"
proof -
  have "one_busy (view_of c0)" using assms(2,3) by (simp add: one_busy_def view_of_def busy_def)
  with runs_follow [OF assms(1)] have "one_busy (view_of c)" by (blast intro: moves_one_busy)
  then show ?thesis using assms(4) by (simp add: one_busy_def view_of_def)
qed

theorem one_port_addressed_at_a_time_witness:
  "\<exists>c. runs hc_example xhc_example c \<and> addressing_port c = 1 \<and> busy (phases c 1) \<and> \<not> busy (phases c 2)"
proof -
  obtain c where c: "ConfigurePort hc_example 1 xhc_example = Some (c, kSuccess)" "addressing_port c = 1"
    using configure_first by blast
  then have r: "runs hc_example xhc_example c" by (blast intro: runs.intros)
  have "addressing_port xhc_example = 0" by (simp add: xhc_example_def)
  from one_port_addressed_at_a_time [OF r this, of 1] one_port_addressed_at_a_time [OF r this, of 2]
  show ?thesis using r c(2) xhc_example_phases by auto
qed

text \<open>
  the last port can wait for ever.  The search for the next port to configure stops one short of
  the last one, so once port \<^verbatim>\<open>MaxPorts()\<close> waits to be addressed it still waits after any run, whatever
  events arrive.
\<close>

theorem last_port_waits_forever:
  assumes "runs env c0 c" and "one_busy (view_of c0)" and "max_ports c0 \<noteq> 0"
    and "phases c0 (max_ports c0) = kWaitingAddressed"
  shows "phases c (max_ports c0) = kWaitingAddressed"
  using moves_keep_last [OF conjunct1 [OF runs_follow [OF assms(1)]] assms(2,3) order_refl] assms(4)
  by (simp add: view_of_def)


theorem last_port_waits_forever_witness:
  "\<exists>c c'. runs hc_example xhc_example c \<and> phases c 2 = kWaitingAddressed
     \<and> runs hc_example c (c\<lparr>portsc := [0, 1], devices := devices c, usb := usb c\<rparr>)
     \<and> phases (c\<lparr>portsc := [0, 1], devices := devices c, usb := usb c\<rparr>) 2 = kWaitingAddressed"
proof -
  obtain c1 where c1: "ConfigurePort hc_example 1 xhc_example = Some (c1, kSuccess)" "addressing_port c1 = 1"
    "portsc c1 = [0x200603, 1]" "ports c1 ! 1 = None" "length (ports c1) = 256"
    using configure_first by blast
  obtain c where c: "ConfigurePort hc_example 2 c1 = Some (c, kSuccess)" "phases c 2 = kWaitingAddressed"
    using configure_second [OF c1(2-5)] by blast
  have r: "runs hc_example xhc_example c" using c1(1) c(1) by (blast intro: runs.intros)
  let ?c = "c\<lparr>portsc := [0, 1], devices := devices c, usb := usb c\<rparr>"
  have r': "runs hc_example c ?c" by (intro runs.hardware runs.start) simp
  have mx: "max_ports c = 2" using runs_follow [OF r] by (simp add: xhc_example_def)
  have "one_busy (view_of xhc_example)"
    by (simp add: one_busy_def view_of_def busy_def xhc_example_phases) (simp add: xhc_example_def)
  then have "one_busy (view_of c)" using runs_follow [OF r] by (blast intro: moves_one_busy)
  from last_port_waits_forever [OF r' this] mx c(2) r r' show ?thesis by auto
qed

end
