(* ===== verification/Pci.thy ===== *)
theory Pci imports KError Bit_Fields begin

text \<open>
  The PCI driver, \<^verbatim>\<open>kernel/pci.cpp\<close> and \<^verbatim>\<open>pci.hpp\<close>: configuration addresses, the recursive scan of
  the buses into the table of 32 devices, base address registers, and the message-signalled
  interrupt capability.

  The hardware is the parameter \<open>cfg\<close>, the double word that the data port shows for a value of the
  address port; the driver relies on reads having no side effect and does not read back what it
  wrote, so writes are returned as the list of (address, value) pairs in their order.
\<close>

type_synonym config = "u32 \<Rightarrow> u32"

section \<open>Configuration space\<close>

definition shl :: "u32 \<Rightarrow> nat \<Rightarrow> u32" where
  "shl x bits = push_bit bits x"

definition MakeAddress :: "u8 \<Rightarrow> u8 \<Rightarrow> u8 \<Rightarrow> u8 \<Rightarrow> u32" where
  "MakeAddress b d f reg_addr =
     shl 1 31 OR shl (ucast b) 16 OR shl (ucast d) 11 OR shl (ucast f) 8
       OR (ucast reg_addr AND 0xfc)"

record ClassCode =
  base_class :: u8
  sub_class :: u8
  interface_class :: u8

record Device =
  bus :: u8
  device :: u8
  func :: u8
  header_type :: u8
  class_code :: ClassCode

definition Match2 :: "ClassCode \<Rightarrow> u8 \<Rightarrow> u8 \<Rightarrow> bool" where
  "Match2 cc b s \<longleftrightarrow> b = base_class cc \<and> s = sub_class cc"

definition Match3 :: "ClassCode \<Rightarrow> u8 \<Rightarrow> u8 \<Rightarrow> u8 \<Rightarrow> bool" where
  "Match3 cc b s i \<longleftrightarrow> Match2 cc b s \<and> i = interface_class cc"

definition ReadVendorId :: "config \<Rightarrow> u8 \<Rightarrow> u8 \<Rightarrow> u8 \<Rightarrow> u16" where
  "ReadVendorId cfg b d f = ucast (cfg (MakeAddress b d f 0x00) AND 0xffff)"

definition ReadDeviceId :: "config \<Rightarrow> u8 \<Rightarrow> u8 \<Rightarrow> u8 \<Rightarrow> u16" where
  "ReadDeviceId cfg b d f = ucast (drop_bit 16 (cfg (MakeAddress b d f 0x00)))"

definition ReadHeaderType :: "config \<Rightarrow> u8 \<Rightarrow> u8 \<Rightarrow> u8 \<Rightarrow> u8" where
  "ReadHeaderType cfg b d f = ucast (drop_bit 16 (cfg (MakeAddress b d f 0x0c)) AND 0xff)"

definition ReadClassCode :: "config \<Rightarrow> u8 \<Rightarrow> u8 \<Rightarrow> u8 \<Rightarrow> ClassCode" where
  "ReadClassCode cfg b d f =
     (let reg = cfg (MakeAddress b d f 0x08) in
      \<lparr>base_class = ucast (drop_bit 24 reg AND 0xff), sub_class = ucast (drop_bit 16 reg AND 0xff),
       interface_class = ucast (drop_bit 8 reg AND 0xff)\<rparr>)"

definition ReadBusNumbers :: "config \<Rightarrow> u8 \<Rightarrow> u8 \<Rightarrow> u8 \<Rightarrow> u32" where
  "ReadBusNumbers cfg b d f = cfg (MakeAddress b d f 0x18)"

definition IsSingleFunctionDevice :: "u8 \<Rightarrow> bool" where
  "IsSingleFunctionDevice ht \<longleftrightarrow> ht AND 0x80 = 0"

definition conf_addr :: "Device \<Rightarrow> u8 \<Rightarrow> u32" where
  "conf_addr dev reg_addr = MakeAddress (bus dev) (device dev) (func dev) reg_addr"

definition ReadConfReg :: "config \<Rightarrow> Device \<Rightarrow> u8 \<Rightarrow> u32" where
  "ReadConfReg cfg dev reg_addr = cfg (conf_addr dev reg_addr)"

definition WriteConfReg :: "Device \<Rightarrow> u8 \<Rightarrow> u32 \<Rightarrow> u32 \<times> u32" where
  "WriteConfReg dev reg_addr v = (conf_addr dev reg_addr, v)"

section \<open>The scan\<close>

record pci =
  devices :: "Device list"
  num_device :: nat

definition AddDevice :: "Device \<Rightarrow> pci \<Rightarrow> (pci \<times> error_code) option" where
  "AddDevice dev p =
     (if num_device p = length (devices p) then Some (p, kFull)
      else do {
        ds \<leftarrow> arr_set (devices p) (num_device p) dev;
        Some (p\<lparr>devices := ds, num_device := num_device p + 1\<rparr>, kSuccess)
      })"

text \<open>A loop that ends with the first error of its body.\<close>

fun for_err :: "('a \<Rightarrow> 's \<Rightarrow> ('s \<times> error_code) option) \<Rightarrow> 'a list \<Rightarrow> 's \<Rightarrow> ('s \<times> error_code) option" where
  "for_err body [] s = Some (s, kSuccess)"
| "for_err body (x # xs) s = (case body x s of None \<Rightarrow> None
     | Some (s', err) \<Rightarrow> if err \<noteq> kSuccess then Some (s', err) else for_err body xs s')"

text \<open>The numbers that \<^verbatim>\<open>for(uint8_t function = 1; function < 8; function++)\<close> runs through.\<close>

definition functions_1_7 :: "u8 list" where
  "functions_1_7 = map of_nat [1..<8]"

definition secondary_bus :: "u32 \<Rightarrow> u8" where
  "secondary_bus bus_numbers = ucast (drop_bit 8 bus_numbers AND 0xff)"

definition make_device :: "config \<Rightarrow> u8 \<Rightarrow> u8 \<Rightarrow> u8 \<Rightarrow> Device" where
  "make_device cfg b d f = \<lparr>bus = b, device = d, func = f,
     header_type = ReadHeaderType cfg b d f, class_code = ReadClassCode cfg b d f\<rparr>"

text \<open>
  The three functions call each other through bridges; \<open>scan\<close> is \<^verbatim>\<open>ScanBus\<close> as \<open>ScanFunction\<close>
  calls it, and \<open>ScanBus\<close> ties the knot with fuel, one unit for each bridge on the way.
\<close>

definition ScanFunction ::
    "config \<Rightarrow> (u8 \<Rightarrow> pci \<Rightarrow> (pci \<times> error_code) option) \<Rightarrow> u8 \<Rightarrow> u8 \<Rightarrow> u8 \<Rightarrow> pci \<Rightarrow> (pci \<times> error_code) option" where
  "ScanFunction cfg scan b d f p = (let dev = make_device cfg b d f in
     case AddDevice dev p of
       None \<Rightarrow> None
     | Some (p, err) \<Rightarrow>
         if err \<noteq> kSuccess then Some (p, err)
         else if Match2 (class_code dev) 0x06 0x04
         then scan (secondary_bus (ReadBusNumbers cfg b d f)) p
         else Some (p, kSuccess))"

definition ScanDevice ::
    "config \<Rightarrow> (u8 \<Rightarrow> pci \<Rightarrow> (pci \<times> error_code) option) \<Rightarrow> u8 \<Rightarrow> u8 \<Rightarrow> pci \<Rightarrow> (pci \<times> error_code) option" where
  "ScanDevice cfg scan b d p =
     (case ScanFunction cfg scan b d 0 p of
        None \<Rightarrow> None
      | Some (p, err) \<Rightarrow>
          if err \<noteq> kSuccess then Some (p, err)
          else if IsSingleFunctionDevice (ReadHeaderType cfg b d 0) then Some (p, kSuccess)
          else for_err (\<lambda>f p. if ReadVendorId cfg b d f = 0xffff then Some (p, kSuccess)
                              else ScanFunction cfg scan b d f p)
                 (functions_1_7) p)"

primrec ScanBus :: "nat \<Rightarrow> config \<Rightarrow> u8 \<Rightarrow> pci \<Rightarrow> (pci \<times> error_code) option" where
  "ScanBus 0 cfg b p = None"
| "ScanBus (Suc n) cfg b p =
     for_err (\<lambda>d p. if ReadVendorId cfg b d 0 = 0xffff then Some (p, kSuccess)
                    else ScanDevice cfg (ScanBus n cfg) b d p)
       (map of_nat [0..<32]) p"

definition ScanAllBus :: "nat \<Rightarrow> config \<Rightarrow> pci \<Rightarrow> (pci \<times> error_code) option" where
  "ScanAllBus fuel cfg p0 = (let p = p0\<lparr>num_device := 0\<rparr> in
     if IsSingleFunctionDevice (ReadHeaderType cfg 0 0 0) then ScanBus fuel cfg 0 p
     else for_err (\<lambda>f p. if ReadVendorId cfg 0 0 f = 0xffff then Some (p, kSuccess)
                         else ScanBus fuel cfg f p)
            (functions_1_7) p)"

text \<open>The reference: the functions below a bus in depth-first order, without table and errors.\<close>

definition functions_at :: "config \<Rightarrow> (u8 \<Rightarrow> Device list) \<Rightarrow> u8 \<Rightarrow> u8 \<Rightarrow> u8 \<Rightarrow> Device list" where
  "functions_at cfg below b d f = make_device cfg b d f #
     (if Match2 (ReadClassCode cfg b d f) 0x06 0x04
      then below (secondary_bus (ReadBusNumbers cfg b d f)) else [])"

definition present :: "config \<Rightarrow> u8 \<Rightarrow> u8 \<Rightarrow> u8 \<Rightarrow> bool" where
  "present cfg b d f \<longleftrightarrow> ReadVendorId cfg b d f \<noteq> 0xffff"

definition multi_function :: "config \<Rightarrow> u8 \<Rightarrow> u8 \<Rightarrow> bool" where
  "multi_function cfg b d \<longleftrightarrow> bit (ReadHeaderType cfg b d 0) 7"

primrec functions_below :: "nat \<Rightarrow> config \<Rightarrow> u8 \<Rightarrow> Device list" where
  "functions_below 0 cfg b = []"
| "functions_below (Suc n) cfg b =
     concat (map (\<lambda>d. concat (map (functions_at cfg (functions_below n cfg) b d)
                        (0 # (if multi_function cfg b d
                              then filter (present cfg b d) (functions_1_7) else []))))
       (filter (\<lambda>d. present cfg b d 0) (map of_nat [0..<32])))"

definition functions_found :: "nat \<Rightarrow> config \<Rightarrow> Device list" where
  "functions_found n cfg =
     concat (map (functions_below n cfg)
       (if multi_function cfg 0 0 then filter (present cfg 0 0) (functions_1_7) else [0]))"

section \<open>Base address registers and message-signalled interrupts\<close>

definition GetBarAddress :: "nat \<Rightarrow> u8" where
  "GetBarAddress bar_index = of_nat (0x10 + 4 * bar_index)"

definition ReadBar :: "config \<Rightarrow> Device \<Rightarrow> nat \<Rightarrow> u64 WithError" where
  "ReadBar cfg dev bar_index =
     (if bar_index > 5 then (0, kIndexOutOfRange)
      else let a = GetBarAddress bar_index;
               bar = ReadConfReg cfg dev a in
        if bar AND 0x4 = 0 then (ucast bar, kSuccess)
        else if bar_index mod 2 \<noteq> 0 then (0, kIndexOutOfRange)
        else let bar_upper = ReadConfReg cfg dev (a + 4) in
          (ucast bar OR push_bit 32 (ucast bar_upper), kSuccess))"

datatype MSITriggerMode = kEdge | kLevel

datatype MSIDeliveryMode = kFixed | kLowestPriority | kSMI | kNMI | kINIT | kExtINT

fun delivery_code :: "MSIDeliveryMode \<Rightarrow> u32" where
  "delivery_code kFixed = 0"
| "delivery_code kLowestPriority = 1"
| "delivery_code kSMI = 2"
| "delivery_code kNMI = 4"
| "delivery_code kINIT = 5"
| "delivery_code kExtINT = 7"

definition kCapabilityMSI :: u32 where "kCapabilityMSI = 0x05"
definition kCapabilityMSIX :: u32 where "kCapabilityMSIX = 0x11"

text \<open>The first double word of a capability: its id, the next pointer, and the control bits of MSI.\<close>

definition cap_id :: "u32 \<Rightarrow> u32" where "cap_id h = field 0 8 h"
definition next_ptr :: "u32 \<Rightarrow> u8" where "next_ptr h = ucast (field 8 8 h)"
definition multi_msg_capable :: "u32 \<Rightarrow> u32" where "multi_msg_capable h = field 17 3 h"
definition addr_64_capable :: "u32 \<Rightarrow> bool" where "addr_64_capable h \<longleftrightarrow> field 23 1 h \<noteq> 0"
definition per_vector_mask_capable :: "u32 \<Rightarrow> bool" where "per_vector_mask_capable h \<longleftrightarrow> field 24 1 h \<noteq> 0"

record MSICapability =
  header :: u32
  msg_addr :: u32
  msg_upper_addr :: u32
  msg_data :: u32
  mask_bits :: u32
  pending_bits :: u32

text \<open>
  Members that the function does not set are indeterminate in the code and zero here; they are
  written back only where they were read.
\<close>

definition msg_data_addr :: "u8 \<Rightarrow> u32 \<Rightarrow> u8" where
  "msg_data_addr cap_addr h = (if addr_64_capable h then cap_addr + 12 else cap_addr + 8)"

definition ReadMSICapability :: "config \<Rightarrow> Device \<Rightarrow> u8 \<Rightarrow> MSICapability" where
  "ReadMSICapability cfg dev cap_addr =
     (let h = ReadConfReg cfg dev cap_addr; a = msg_data_addr cap_addr h in
      \<lparr>header = h,
       msg_addr = ReadConfReg cfg dev (cap_addr + 4),
       msg_upper_addr = (if addr_64_capable h then ReadConfReg cfg dev (cap_addr + 8) else 0),
       msg_data = ReadConfReg cfg dev a,
       mask_bits = (if per_vector_mask_capable h then ReadConfReg cfg dev (a + 4) else 0),
       pending_bits = (if per_vector_mask_capable h then ReadConfReg cfg dev (a + 8) else 0)\<rparr>)"

definition WriteMSICapability :: "Device \<Rightarrow> u8 \<Rightarrow> MSICapability \<Rightarrow> (u32 \<times> u32) list" where
  "WriteMSICapability dev cap_addr m =
     (let a = msg_data_addr cap_addr (header m) in
      [WriteConfReg dev cap_addr (header m), WriteConfReg dev (cap_addr + 4) (msg_addr m)]
      @ (if addr_64_capable (header m) then [WriteConfReg dev (cap_addr + 8) (msg_upper_addr m)] else [])
      @ [WriteConfReg dev a (msg_data m)]
      @ (if per_vector_mask_capable (header m)
         then [WriteConfReg dev (a + 4) (mask_bits m), WriteConfReg dev (a + 8) (pending_bits m)] else []))"

text \<open>The walk over the capability list: the last MSI and the last MSI-X capability, \<open>0\<close> for none.\<close>

partial_function (option) find_caps :: "config \<Rightarrow> Device \<Rightarrow> u8 \<Rightarrow> u8 \<Rightarrow> u8 \<Rightarrow> (u8 \<times> u8) option" where
  "find_caps cfg dev cap_addr msi msix =
     (if cap_addr = 0 then Some (msi, msix)
      else let h = ReadConfReg cfg dev cap_addr in
        find_caps cfg dev (next_ptr h)
          (if cap_id h = kCapabilityMSI then cap_addr else msi)
          (if cap_id h \<noteq> kCapabilityMSI \<and> cap_id h = kCapabilityMSIX then cap_addr else msix))"

definition message_addr :: "u8 \<Rightarrow> u32" where
  "message_addr apic_id = 0xfee00000 OR push_bit 12 (ucast apic_id)"

definition message_data :: "MSITriggerMode \<Rightarrow> MSIDeliveryMode \<Rightarrow> u8 \<Rightarrow> u32" where
  "message_data trigger delivery vector =
     (push_bit 8 (delivery_code delivery) OR ucast vector) OR (if trigger = kLevel then 0xc000 else 0)"

definition enable_msi :: "u32 \<Rightarrow> u32 \<Rightarrow> u32" where
  "enable_msi num_vector_exponent h = set_field 16 1 1
     (set_field 20 3 (if multi_msg_capable h \<le> num_vector_exponent then multi_msg_capable h
                      else num_vector_exponent) h)"

definition cap_pointer :: "config \<Rightarrow> Device \<Rightarrow> u8" where
  "cap_pointer cfg dev = ucast (ReadConfReg cfg dev 0x34 AND 0xff)"

definition ConfigureMSIFixedDestination ::
    "config \<Rightarrow> Device \<Rightarrow> u8 \<Rightarrow> MSITriggerMode \<Rightarrow> MSIDeliveryMode \<Rightarrow> u8 \<Rightarrow> u32
       \<Rightarrow> ((u32 \<times> u32) list \<times> error_code) option" where
  "ConfigureMSIFixedDestination cfg dev apic_id trigger delivery vector num_vector_exponent = do {
     (msi, msix) \<leftarrow> find_caps cfg dev (cap_pointer cfg dev) 0 0;
     Some (if msi \<noteq> 0 then
         (let m = ReadMSICapability cfg dev msi in
          (WriteMSICapability dev msi (m\<lparr>header := enable_msi num_vector_exponent (header m),
             msg_addr := message_addr apic_id, msg_data := message_data trigger delivery vector\<rparr>),
           kSuccess))
       else if msix \<noteq> 0 then ([], kNotImplemented)
       else ([], kNoPCIMSI))
   }"

section \<open>The table after a scan\<close>

definition room :: "pci \<Rightarrow> nat" where
  "room p = length (devices p) - num_device p"

definition pci_ok :: "pci \<Rightarrow> bool" where
  "pci_ok p \<longleftrightarrow> num_device p \<le> length (devices p)"

definition found :: "pci \<Rightarrow> Device list" where
  "found p = take (num_device p) (devices p)"

text \<open>\<open>added p ds r\<close>: the outcome \<open>r\<close> is that of entering \<open>ds\<close> one after the other into \<open>p\<close>.\<close>

definition added :: "pci \<Rightarrow> Device list \<Rightarrow> (pci \<times> error_code) option \<Rightarrow> bool" where
  "added p ds r \<longleftrightarrow> (\<exists>p'. r = Some (p', if length ds \<le> room p then kSuccess else kFull)
     \<and> pci_ok p' \<and> length (devices p') = length (devices p)
     \<and> found p' = found p @ take (room p) ds)"

lemma added_Nil [simp]: "pci_ok p \<Longrightarrow> added p [] (Some (p, kSuccess))"
  by (simp add: added_def)

lemma room_found: "pci_ok p \<Longrightarrow> room p = length (devices p) - length (found p)"
  by (simp add: room_def found_def pci_ok_def)

lemma added_fitsD:
  assumes "added p ds (Some (p', err))" and "pci_ok p"
  shows "pci_ok p'" "length (devices p') = length (devices p)" "found p' = found p @ take (room p) ds"
    "err = kSuccess \<longleftrightarrow> length ds \<le> room p" "err = kSuccess \<Longrightarrow> room p' = room p - length ds"
    "room p' \<le> room p" "err \<noteq> kSuccess \<Longrightarrow> err = kFull"
  using assms room_found [of p] room_found [of p'] by (auto simp: added_def split: if_splits)

lemma AddDevice_added:
  assumes "pci_ok p"
  shows "added p [dev] (AddDevice dev p)"
proof (cases "num_device p = length (devices p)")
  case True
  then show ?thesis using assms by (simp add: AddDevice_def added_def room_def)
next
  case False
  then have "num_device p < length (devices p)" using assms by (simp add: pci_ok_def)
  then show ?thesis
    by (auto simp: AddDevice_def added_def room_def pci_ok_def found_def take_Suc_conv_app_nth
        simp del: take_append)
qed

text \<open>Sequencing: after an outcome without error the rest is added to the table it left.\<close>

lemma added_seq:
  assumes "pci_ok p" and "added p xs r"
    and "\<And>p'. pci_ok p' \<Longrightarrow> length xs \<le> room p \<Longrightarrow> room p' = room p - length xs \<Longrightarrow> added p' ys (k p')"
  shows "added p (xs @ ys) (case r of None \<Rightarrow> None
    | Some (p', err) \<Rightarrow> if err \<noteq> kSuccess then Some (p', err) else k p')"
proof -
  obtain p' err where r: "r = Some (p', err)" using assms(2) by (auto simp: added_def)
  note D = added_fitsD [OF assms(2) [unfolded r] assms(1)]
  show ?thesis
  proof (cases "err = kSuccess")
    case True
    then have "added p' ys (k p')" using D assms(3) by simp
    moreover from True have "length xs \<le> room p" "room p' = room p - length xs" using D by auto
    ultimately show ?thesis using True D r by (auto simp: added_def)
  next
    case False
    then have "err = kFull" "room p < length xs" using D by auto
    then show ?thesis using False D r by (auto simp: added_def)
  qed
qed

lemma for_err_added:
  assumes "\<And>x p. pci_ok p \<Longrightarrow> room p \<le> n \<Longrightarrow> x \<in> set xs \<Longrightarrow> added p (g x) (body x p)"
    and "pci_ok p" and "room p \<le> n"
  shows "added p (concat (map g xs)) (for_err body xs p)"
  using assms
proof (induction xs arbitrary: p)
  case Nil
  then show ?case by simp
next
  case (Cons x xs)
  have "added p' (concat (map g xs)) (for_err body xs p')" if "pci_ok p'" "room p' = room p - length (g x)" for p'
    using that Cons.prems by (intro Cons.IH) auto
  then show ?case using added_seq [OF Cons.prems(2), of "g x" "body x p" "concat (map g xs)" "for_err body xs"]
      Cons.prems by simp
qed

lemma concat_filter: "concat (map g (filter P xs)) = concat (map (\<lambda>x. if P x then g x else []) xs)"
  by (induction xs) auto

section \<open>The scan is the depth-first enumeration\<close>

lemma ScanFunction_unfold:
  "ScanFunction cfg scan b d f p = (case AddDevice (make_device cfg b d f) p of None \<Rightarrow> None
     | Some (p, err) \<Rightarrow> if err \<noteq> kSuccess then Some (p, err)
         else if Match2 (ReadClassCode cfg b d f) 0x06 0x04
         then scan (secondary_bus (ReadBusNumbers cfg b d f)) p else Some (p, kSuccess))"
proof -
  have cc: "class_code (make_device cfg b d f) = ReadClassCode cfg b d f" by (simp add: make_device_def)
  show ?thesis unfolding ScanFunction_def Let_def cc ..
qed

lemma ScanFunction_added:
  assumes "\<And>b p. pci_ok p \<Longrightarrow> room p < n \<Longrightarrow> added p (below b) (scan b p)"
    and "pci_ok p" and "room p \<le> n"
  shows "added p (functions_at cfg below b d f) (ScanFunction cfg scan b d f p)"
proof -
  let ?bridge = "Match2 (ReadClassCode cfg b d f) 0x06 0x04"
  let ?sec = "secondary_bus (ReadBusNumbers cfg b d f)"
  have "added p' (if ?bridge then below ?sec else []) (if ?bridge then scan ?sec p' else Some (p', kSuccess))"
    if "pci_ok p'" "1 \<le> room p" "room p' = room p - 1" for p'
    using that assms by auto
  then show ?thesis
    using added_seq [OF assms(2) AddDevice_added [OF assms(2), of "make_device cfg b d f"],
        of "if ?bridge then below ?sec else []" "\<lambda>p. if ?bridge then scan ?sec p else Some (p, kSuccess)"]
    by (simp add: functions_at_def ScanFunction_unfold)
qed

lemma single_function_bit: "IsSingleFunctionDevice ht \<longleftrightarrow> \<not> bit ht 7"
  using and_exp_word [of ht 7] by (auto simp: IsSingleFunctionDevice_def)

lemma ScanDevice_added:
  assumes S: "\<And>b p. pci_ok p \<Longrightarrow> room p < n \<Longrightarrow> added p (below b) (scan b p)"
    and p: "pci_ok p" "room p \<le> n"
  shows "added p (concat (map (functions_at cfg below b d)
            (0 # (if multi_function cfg b d then filter (present cfg b d) (functions_1_7) else []))))
          (ScanDevice cfg scan b d p)"
proof -
  let ?fs = "functions_1_7"
  let ?body = "\<lambda>f p. if ReadVendorId cfg b d f = 0xffff then Some (p, kSuccess) else ScanFunction cfg scan b d f p"
  let ?g = "\<lambda>f. if present cfg b d f then functions_at cfg below b d f else []"
  have F: "added q (functions_at cfg below b d f) (ScanFunction cfg scan b d f q)"
    if "pci_ok q" "room q \<le> n" for q f
    using ScanFunction_added [OF S that] .
  have "added q (?g f) (?body f q)" if "pci_ok q" "room q \<le> n" for q f
    using F [OF that] that by (simp add: present_def)
  then have loop: "added q (concat (map ?g ?fs)) (for_err ?body ?fs q)" if "pci_ok q" "room q \<le> n" for q
    using for_err_added [where g = ?g and xs = ?fs and body = ?body, OF _ that] by blast
  let ?rest = "if multi_function cfg b d then concat (map ?g ?fs) else []"
  let ?k = "\<lambda>p. if IsSingleFunctionDevice (ReadHeaderType cfg b d 0) then Some (p, kSuccess) else for_err ?body ?fs p"
  have "added q ?rest (?k q)" if "pci_ok q" "room q \<le> n" for q
    using loop [OF that] that by (simp add: single_function_bit multi_function_def)
  then have "added p (functions_at cfg below b d 0 @ ?rest) (case ScanFunction cfg scan b d 0 p of None \<Rightarrow> None
      | Some (p', err) \<Rightarrow> if err \<noteq> kSuccess then Some (p', err) else ?k p')"
    using p by (intro added_seq F) auto
  then show ?thesis
    by (cases "multi_function cfg b d") (simp_all add: ScanDevice_def concat_filter)
qed

lemma ScanBus_added:
  "pci_ok p \<Longrightarrow> room p < n \<Longrightarrow> added p (functions_below n cfg b) (ScanBus n cfg b p)"
proof (induction n arbitrary: b p)
  case 0
  then show ?case by simp
next
  case (Suc n)
  let ?ds = "map of_nat [0..<32] :: u8 list"
  let ?body = "\<lambda>d p. if ReadVendorId cfg b d 0 = 0xffff then Some (p, kSuccess)
    else ScanDevice cfg (ScanBus n cfg) b d p"
  let ?g = "\<lambda>d. if present cfg b d 0 then concat (map (functions_at cfg (functions_below n cfg) b d)
      (0 # (if multi_function cfg b d then filter (present cfg b d) (functions_1_7) else []))) else []"
  have "added q (?g d) (?body d q)" if "pci_ok q" "room q \<le> n" for q d
    using ScanDevice_added [of n "functions_below n cfg" "ScanBus n cfg" q cfg b d, OF Suc.IH that] that
    by (simp add: present_def)
  then have "added p (concat (map ?g ?ds)) (for_err ?body ?ds p)"
    using for_err_added [where g = ?g and xs = ?ds and body = ?body and n = n and p = p] Suc.prems by auto
  then show ?case by (simp only: functions_below.simps ScanBus.simps concat_filter)
qed


text \<open>How far the enumeration goes: its first \<open>k\<close> functions do not depend on more fuel than \<open>k\<close>.\<close>

lemma take_append_cong: "take k xs = take k xs' \<Longrightarrow> take k ys = take k ys' \<Longrightarrow> take k (xs @ ys) = take k (xs' @ ys')"
proof -
  assume a: "take k xs = take k xs'" and b: "take k ys = take k ys'"
  have t: "take (k - length us) ys = take (k - length us) ys'" for us :: "'a list"
    using b by (metis diff_le_self min.absorb1 take_take)
  show ?thesis
  proof (cases "k \<le> length xs")
    case True
    then have "k \<le> length xs'" using a by (metis length_take min.absorb2 min.cobounded1)
    then show ?thesis using True a by simp
  next
    case False
    then have "xs = take k xs'" using a by simp
    with False have "xs' = xs" by (metis length_take linorder_le_less_linear min.absorb2 order_less_imp_le take_all)
    then show ?thesis using t [of xs] by simp
  qed
qed

lemma take_concat_cong:
  "(\<And>x. x \<in> set xs \<Longrightarrow> take k (g x) = take k (h x)) \<Longrightarrow>
     take k (concat (map g xs)) = take k (concat (map h xs))"
proof (induction xs)
  case (Cons x xs)
  then show ?case using take_append_cong [of k "g x" "h x"] by simp
qed simp

lemma functions_below_Suc: "k \<le> n \<Longrightarrow> take k (functions_below n cfg b) = take k (functions_below (Suc n) cfg b)"
proof (induction n arbitrary: k b)
  case 0
  then show ?case by simp
next
  case (Suc n)
  have "take k (functions_at cfg (functions_below n cfg) b d f)
      = take k (functions_at cfg (functions_below (Suc n) cfg) b d f)" for d f
    using Suc.IH [of "k - 1"] Suc.prems by (cases k) (simp_all add: functions_at_def del: functions_below.simps)
  then show ?case
    by (subst (1 2) functions_below.simps(2)) (intro take_concat_cong)
qed

lemma functions_below_fuel:
  assumes "k \<le> n" and "n \<le> m"
  shows "take k (functions_below m cfg b) = take k (functions_below n cfg b)"
  using assms(2)
proof (induction m rule: dec_induct)
  case (step m)
  then show ?case using functions_below_Suc [of k m cfg b] assms(1) by simp
qed simp

lemma functions_found_fuel:
  assumes "k \<le> n" and "n \<le> m"
  shows "take k (functions_found m cfg) = take k (functions_found n cfg)"
  unfolding functions_found_def by (rule take_concat_cong) (rule functions_below_fuel [OF assms])

lemma ScanAllBus_added:
  assumes "length (devices p) < n"
  shows "added (p\<lparr>num_device := 0\<rparr>) (functions_found n cfg) (ScanAllBus n cfg p)"
proof -
  let ?p = "p\<lparr>num_device := 0\<rparr>" and ?n = "length (devices p)"
  have p: "pci_ok ?p" "room ?p = ?n" by (simp_all add: pci_ok_def room_def)
  let ?body = "\<lambda>f p. if ReadVendorId cfg 0 0 f = 0xffff then Some (p, kSuccess) else ScanBus n cfg f p"
  let ?g = "\<lambda>f. if present cfg 0 0 f then functions_below n cfg f else []"
  have step: "added q (?g f) (?body f q)" if "pci_ok q" "room q \<le> ?n" for q f
    using ScanBus_added [of q n cfg f] that assms by (simp add: present_def)
  have "added ?p (concat (map ?g functions_1_7)) (for_err ?body functions_1_7 ?p)"
    by (rule for_err_added [where n = ?n, OF _ p(1) eq_refl [OF p(2)]]) (rule step)
  moreover have "added ?p (functions_below n cfg 0) (ScanBus n cfg 0 ?p)"
    using ScanBus_added [OF p(1)] p(2) assms by simp
  ultimately show ?thesis
    by (simp add: functions_found_def ScanAllBus_def Let_def single_function_bit multi_function_def concat_filter)
qed

text \<open>
  C11: the scan of all buses always comes to an end, also when bridges form a loop, because every step
  into a bridge has entered the bridge into the table of 32; one unit of fuel more than the table has
  rows is enough, and more changes nothing.  The table then holds the first 32 functions of the
  depth-first enumeration, in its order, and the result is \<^verbatim>\<open>kFull\<close> exactly when there are more.
\<close>

theorem ScanAllBus_enumerates:
  assumes "length (devices p) = 32" and "33 \<le> n"
  shows "\<exists>p'. ScanAllBus n cfg p = Some (p', if length (functions_found 33 cfg) \<le> 32 then kSuccess else kFull)
     \<and> length (devices p') = 32 \<and> found p' = take 32 (functions_found 33 cfg)"
proof -
  let ?L = "functions_found 33 cfg" and ?M = "functions_found n cfg"
  have t: "take 32 ?M = take 32 ?L" and u: "take 33 ?M = take 33 ?L"
    using functions_found_fuel [of _ 33 n cfg] assms(2) by simp_all
  from arg_cong [OF u, of length] have "length ?M \<le> 32 \<longleftrightarrow> length ?L \<le> 32" by (simp add: min_def split: if_splits)
  with ScanAllBus_added [of p n cfg] t assms show ?thesis
    by (auto simp: added_def room_def found_def)
qed

text \<open>Every function is a bridge that leads back to bus 0, so the enumeration has no end.\<close>

definition bridge_loop :: config where
  "bridge_loop a = 0x06040000"

lemma bridge_loop_long: "n \<le> length (functions_below n bridge_loop b)"
proof (induction n arbitrary: b)
  case 0
  then show ?case by simp
next
  case (Suc n)
  let ?below = "functions_below n bridge_loop"
  have m: "Match2 (ReadClassCode bridge_loop b d f) 6 4" "present bridge_loop b d f" for b d f
    by (simp_all add: Match2_def ReadClassCode_def present_def ReadVendorId_def bridge_loop_def
        unsigned_and_eq Let_def)
  have s: "map of_nat [0..<32] = (0 :: u8) # map of_nat [1..<32]" by (simp add: upt_conv_Cons)
  have "Suc n \<le> length (functions_at bridge_loop ?below b 0 0)"
    using Suc.IH by (simp add: functions_at_def m)
  then show ?case
    by (simp add: m s del: upt_rec_numeral)
qed

theorem ScanAllBus_enumerates_witness:
  "\<exists>p'. ScanAllBus 33 bridge_loop \<lparr>devices = replicate 32 (make_device bridge_loop 9 9 9), num_device = 7\<rparr>
      = Some (p', kFull) \<and> length (found p') = 32"
proof -
  have "\<not> multi_function bridge_loop 0 0"
    by (simp add: multi_function_def ReadHeaderType_def bridge_loop_def bit_simps)
  then have "functions_found 33 bridge_loop = functions_below 33 bridge_loop 0"
    by (simp add: functions_found_def)
  then have "\<not> length (functions_found 33 bridge_loop) \<le> 32"
    using bridge_loop_long [of 33 0] by simp
  then show ?thesis
    using ScanAllBus_enumerates [of "\<lparr>devices = replicate 32 (make_device bridge_loop 9 9 9), num_device = 7\<rparr>"
        33 bridge_loop] by auto
qed

text \<open>
  When the host bridge has several functions, the scan starts with function 1 and takes the function
  number for the bus number: bus 0, where the host bridge itself is, is not scanned.
\<close>

lemma multi_function_host_bridge_hides_bus_0:
  assumes "multi_function cfg 0 0" and "filter (present cfg 0 0) functions_1_7 = []"
  shows "functions_found n cfg = []"
  using assms by (simp add: functions_found_def)

section \<open>The capability list\<close>

text \<open>\<open>cap_chain cfg dev a cs\<close>: from \<open>a\<close> the next pointers lead through \<open>cs\<close> to the end of the list.\<close>

fun cap_chain :: "config \<Rightarrow> Device \<Rightarrow> u8 \<Rightarrow> u8 list \<Rightarrow> bool" where
  "cap_chain cfg dev a [] \<longleftrightarrow> a = 0"
| "cap_chain cfg dev a (c # cs) \<longleftrightarrow> a = c \<and> c \<noteq> 0 \<and> cap_chain cfg dev (next_ptr (ReadConfReg cfg dev c)) cs"

definition last_cap :: "config \<Rightarrow> Device \<Rightarrow> u32 \<Rightarrow> u8 list \<Rightarrow> u8 \<Rightarrow> u8" where
  "last_cap cfg dev i cs none = foldl (\<lambda>r c. if cap_id (ReadConfReg cfg dev c) = i then c else r) none cs"

lemma last_cap_Cons: "last_cap cfg dev i (c # cs) none =
    last_cap cfg dev i cs (if cap_id (ReadConfReg cfg dev c) = i then c else none)"
  by (simp add: last_cap_def)

lemma find_caps_chain:
  "cap_chain cfg dev a cs \<Longrightarrow> find_caps cfg dev a msi msix =
     Some (last_cap cfg dev kCapabilityMSI cs msi, last_cap cfg dev kCapabilityMSIX cs msix)"
proof (induction cs arbitrary: a msi msix)
  case Nil
  then show ?case by (simp add: last_cap_def find_caps.simps)
next
  case (Cons c cs)
  then show ?case
    by (subst find_caps.simps) (auto simp: last_cap_Cons Let_def kCapabilityMSI_def kCapabilityMSIX_def)
qed

lemma find_caps_returns:
  assumes "find_caps cfg dev a msi msix = Some r"
  shows "\<exists>cs. cap_chain cfg dev a cs"
proof (rule find_caps.raw_induct [OF _ assms, where P = "\<lambda>cfg dev a msi msix r. \<exists>cs. cap_chain cfg dev a cs"])
  fix rec cfg dev a msi msix r
  assume IH: "\<And>cfg dev a msi msix r. rec cfg dev a msi msix = Some r \<Longrightarrow> \<exists>cs. cap_chain cfg dev a cs"
    and step: "(if a = 0 then Some (msi, msix)
      else let h = ReadConfReg cfg dev a in
        rec cfg dev (next_ptr h) (if cap_id h = kCapabilityMSI then a else msi)
          (if cap_id h \<noteq> kCapabilityMSI \<and> cap_id h = kCapabilityMSIX then a else msix)) = Some r"
  show "\<exists>cs. cap_chain cfg dev a cs"
  proof (cases "a = 0")
    case True
    then have "cap_chain cfg dev a []" by simp
    then show ?thesis ..
  next
    case False
    with step have "rec cfg dev (next_ptr (ReadConfReg cfg dev a)) (if cap_id (ReadConfReg cfg dev a) = kCapabilityMSI then a else msi)
        (if cap_id (ReadConfReg cfg dev a) \<noteq> kCapabilityMSI \<and> cap_id (ReadConfReg cfg dev a) = kCapabilityMSIX
         then a else msix) = Some r"
      by (simp add: Let_def)
    from IH [OF this] obtain cs where "cap_chain cfg dev (next_ptr (ReadConfReg cfg dev a)) cs" ..
    with False have "cap_chain cfg dev a (a # cs)" by simp
    then show ?thesis ..
  qed
qed

lemma take_bit_small:
  fixes w :: "'a::len word"
  assumes "w \<le> take_bit n v"
  shows "take_bit n w = w"
proof -
  have "unat w \<le> unat (take_bit n v)" using assms by (simp add: word_le_nat_alt)
  also have "\<dots> = take_bit n (unat v)" by (simp add: unsigned_take_bit_eq)
  also have "\<dots> < 2 ^ n" by (rule take_bit_nat_less_exp)
  finally have "take_bit n (unat w) = unat w" by (simp add: take_bit_nat_eq_self)
  then show ?thesis by (simp add: word_unat_eq_iff unsigned_take_bit_eq)
qed

lemma enable_msi_fields:
  "field 16 1 (enable_msi e h) = 1" "field 20 3 (enable_msi e h) = min (multi_msg_capable h) e"
  "k \<notin> {16, 20, 21, 22} \<Longrightarrow> bit (enable_msi e h) k = bit h k"
proof -
  let ?v = "if multi_msg_capable h \<le> e then multi_msg_capable h else e"
  have v: "take_bit 3 ?v = ?v"
    by (rule take_bit_small [of _ _ "drop_bit 17 h"]) (auto simp: multi_msg_capable_def field_def)
  show "field 16 1 (enable_msi e h) = 1"
    by (simp add: enable_msi_def field_set_field)
  have "field 20 3 (enable_msi e h) = field 20 3 (set_field 20 3 ?v h)"
    unfolding enable_msi_def by (rule field_set_field_other) simp
  also have "\<dots> = ?v" using v by (simp add: field_set_field)
  finally show "field 20 3 (enable_msi e h) = min (multi_msg_capable h) e" by (simp add: min_def)
  assume "k \<notin> {16, 20, 21, 22}"
  then have "k < 16 \<or> 16 + 1 \<le> k" "k < 20 \<or> 20 + 3 \<le> k" by auto
  then show "bit (enable_msi e h) k = bit h k"
    by (simp only: enable_msi_def bit_set_field_other)
qed

definition msi_outcome ::
    "config \<Rightarrow> Device \<Rightarrow> u8 \<Rightarrow> u32 \<Rightarrow> u32 \<Rightarrow> u32 \<Rightarrow> (u32 \<times> u32) list \<Rightarrow> bool" where
  "msi_outcome cfg dev m ad da e ws \<longleftrightarrow>
     (let h = ReadConfReg cfg dev m; at = conf_addr dev; d = at (msg_data_addr m h) in
      \<exists>h'. hd ws = (at m, h') \<and> field 16 1 h' = 1 \<and> field 20 3 h' = min (multi_msg_capable h) e
        \<and> (\<forall>k. k \<notin> {16, 20, 21, 22} \<longrightarrow> bit h' k = bit h k)
        \<and> ws ! 1 = (at (m + 4), ad) \<and> (d, da) \<in> set ws
        \<and> (\<forall>(a, v) \<in> set (drop 2 ws). (a, v) = (d, da) \<or> v = cfg a))"

lemma msi_outcome_written:
  "msi_outcome cfg dev m ad da e (WriteMSICapability dev m ((ReadMSICapability cfg dev m)
     \<lparr>header := enable_msi e (ReadConfReg cfg dev m), msg_addr := ad, msg_data := da\<rparr>))"
proof -
  let ?h = "ReadConfReg cfg dev m" let ?h' = "enable_msi e ?h"
  have "field 23 1 ?h' = field 23 1 ?h" "field 24 1 ?h' = field 24 1 ?h"
    unfolding enable_msi_def by (subst field_set_field_other; simp)+
  then have same: "addr_64_capable ?h' = addr_64_capable ?h"
      "per_vector_mask_capable ?h' = per_vector_mask_capable ?h" "msg_data_addr m ?h' = msg_data_addr m ?h"
    by (simp_all add: addr_64_capable_def per_vector_mask_capable_def msg_data_addr_def)
  let ?at = "conf_addr dev" and ?d = "msg_data_addr m ?h"
  let ?ws = "WriteMSICapability dev m ((ReadMSICapability cfg dev m)
     \<lparr>header := ?h', msg_addr := ad, msg_data := da\<rparr>)"
  have ws: "?ws = (?at m, ?h') # (?at (m + 4), ad)
     # (if addr_64_capable ?h then [(?at (m + 8), cfg (?at (m + 8)))] else []) @ [(?at ?d, da)]
     @ (if per_vector_mask_capable ?h
        then [(?at (?d + 4), cfg (?at (?d + 4))), (?at (?d + 8), cfg (?at (?d + 8)))] else [])"
    unfolding WriteMSICapability_def ReadMSICapability_def Let_def
    by (simp add: same WriteConfReg_def ReadConfReg_def [of _ _ "_ + _"])
  show ?thesis
    unfolding msi_outcome_def Let_def ws
    by (rule exI [of _ ?h']) (auto simp: enable_msi_fields(1) [simplified] enable_msi_fields(2,3))
qed

text \<open>
  C26: setting up a message-signalled interrupt comes back exactly when the capability list of the
  device ends (a list that runs in a circle keeps the kernel in the loop for ever).  With an MSI
  capability (the last one of the list) at \<open>m\<close> it enables the capability with as many vectors as
  asked for or as the device has, leaves the other bits of the header alone, programs the address and
  the data of the message, the latter where the 64-bit bit of the header says, and writes nothing
  else that was not there before; without one it writes nothing and reports what is missing.
\<close>

theorem ConfigureMSI_programs_message:
  shows "(ConfigureMSIFixedDestination cfg dev apic tr del vec e \<noteq> None \<longleftrightarrow>
       (\<exists>cs. cap_chain cfg dev (cap_pointer cfg dev) cs))
   \<and> (\<forall>cs. cap_chain cfg dev (cap_pointer cfg dev) cs \<longrightarrow>
       (let m = last_cap cfg dev kCapabilityMSI cs 0; x = last_cap cfg dev kCapabilityMSIX cs 0 in
        \<exists>ws err. ConfigureMSIFixedDestination cfg dev apic tr del vec e = Some (ws, err)
          \<and> (if m \<noteq> 0 then err = kSuccess \<and> msi_outcome cfg dev m (message_addr apic) (message_data tr del vec) e ws
             else ws = [] \<and> err = (if x \<noteq> 0 then kNotImplemented else kNoPCIMSI))))"
proof -
  have out: "ConfigureMSIFixedDestination cfg dev apic tr del vec e = Some (
      if m \<noteq> 0 then (WriteMSICapability dev m ((ReadMSICapability cfg dev m)
          \<lparr>header := enable_msi e (ReadConfReg cfg dev m), msg_addr := message_addr apic,
           msg_data := message_data tr del vec\<rparr>), kSuccess)
      else ([], if last_cap cfg dev kCapabilityMSIX cs 0 \<noteq> 0 then kNotImplemented else kNoPCIMSI))"
    if "cap_chain cfg dev (cap_pointer cfg dev) cs" "m = last_cap cfg dev kCapabilityMSI cs 0" for cs m
    using find_caps_chain [OF that(1)] that(2)
    by (simp add: ConfigureMSIFixedDestination_def Let_def ReadMSICapability_def)
  have "\<exists>cs. cap_chain cfg dev (cap_pointer cfg dev) cs"
    if "ConfigureMSIFixedDestination cfg dev apic tr del vec e \<noteq> None"
    using that find_caps_returns [of cfg dev "cap_pointer cfg dev"]
    by (auto simp: ConfigureMSIFixedDestination_def bind_eq_Some_conv)
  then show ?thesis
    using out msi_outcome_written [of cfg dev _ "message_addr apic" "message_data tr del vec" e]
    by (auto simp: Let_def)
qed

text \<open>A device with a power management capability at 0x40 and a 64-bit MSI capability at 0x50.\<close>

definition msi_example :: config where
  "msi_example a =
     (if a = 0x80000034 then 0x40 else if a = 0x80000040 then 0x5001
      else if a = 0x80000050 then 0x00860005 else 0)"

theorem ConfigureMSI_programs_message_witness:
  "\<exists>ws. ConfigureMSIFixedDestination msi_example (make_device msi_example 0 0 0) 3 kEdge kFixed 0x40 0 = Some (ws, kSuccess)
     \<and> msi_outcome msi_example (make_device msi_example 0 0 0) 0x50 0xfee03000 0x40 0 ws"
proof -
  let ?dev = "make_device msi_example 0 0 0"
  have at: "conf_addr ?dev r = 0x80000000 OR (ucast r AND 0xfc)" for r
    by (simp add: conf_addr_def make_device_def MakeAddress_def shl_def)
  have r: "ReadConfReg msi_example ?dev 0x40 = 0x5001" "ReadConfReg msi_example ?dev 0x50 = 0x00860005"
    "cap_pointer msi_example ?dev = 0x40"
    by (simp_all add: ReadConfReg_def cap_pointer_def at msi_example_def)
  have c: "cap_chain msi_example ?dev (cap_pointer msi_example ?dev) [0x40, 0x50]"
    by (simp add: r next_ptr_def field_def drop_bit_eq_div take_bit_eq_mod)
  have m: "last_cap msi_example ?dev kCapabilityMSI [0x40, 0x50] 0 = 0x50"
    by (simp add: last_cap_def r cap_id_def field_def kCapabilityMSI_def take_bit_eq_mod)
  have ad: "message_addr 3 = 0xfee03000" "message_data kEdge kFixed 0x40 = 0x40"
    by (simp_all add: message_addr_def message_data_def)
  show ?thesis
    using ConfigureMSI_programs_message [of msi_example ?dev 3 kEdge kFixed "0x40" 0,
        THEN conjunct2, rule_format, OF c]
    unfolding Let_def m ad by auto
qed

end
