(* ===== verification/Descriptors.thy ===== *)
theory Descriptors imports Fat_File Task_Manager begin

text \<open>
  Descriptors: the interface \<^verbatim>\<open>class FileDescriptor\<close> of \<^verbatim>\<open>kernel/file.hpp\<close>, its helpers in
  \<^verbatim>\<open>file.cpp\<close>, and \<^verbatim>\<open>class PipeDescriptor\<close> of \<^verbatim>\<open>kernel/terminal.cpp\<close>.

  \<open>byte_source\<close> is what a reader relies on and \<open>byte_sink\<close> what a writer relies on; the helpers and
  the copy loop of the \<^verbatim>\<open>cat\<close> command are verified once from these laws.  The file of \<open>Fat_File\<close> and
  the reading end of a pipe are proved to be sources, the writing end a sink.
\<close>

section \<open>The helpers\<close>

text \<open>
  \<open>rd d n\<close> is \<^verbatim>\<open>Read(buf, n)\<close> on a descriptor in state \<open>d\<close>: the bytes read and the new state; \<open>None\<close>
  when the call does not come back or does something undefined.  A buffer of no bytes has no room for
  the terminator.
\<close>

fun read_delim_loop ::
    "('d \<Rightarrow> nat \<Rightarrow> (u8 list \<times> 'd) option) \<Rightarrow> u8 \<Rightarrow> nat \<Rightarrow> 'd \<Rightarrow> u8 list \<Rightarrow> ('d \<times> u8 list) option" where
  "read_delim_loop rd delim 0 d acc = Some (d, acc)"
| "read_delim_loop rd delim (Suc room) d acc = (case rd d 1 of
     None \<Rightarrow> None
   | Some ([], d') \<Rightarrow> Some (d', acc)
   | Some (b # _, d') \<Rightarrow> if b = delim then Some (d', acc @ [b])
                        else read_delim_loop rd delim room d' (acc @ [b]))"

definition ReadDelim ::
    "('d \<Rightarrow> nat \<Rightarrow> (u8 list \<times> 'd) option) \<Rightarrow> 'd \<Rightarrow> u8 \<Rightarrow> nat \<Rightarrow> ('d \<times> u8 list \<times> nat) option" where
  "ReadDelim rd d delim len = (if len = 0 then None
     else map_option (\<lambda>(d', line). (d', line, length line)) (read_delim_loop rd delim (len - 1) d []))"

text \<open>\<^verbatim>\<open>PrintToFD\<close> of an already formatted string: it is formatted into a buffer of 128 bytes first.\<close>

definition PrintToFD :: "('o \<Rightarrow> u8 list \<Rightarrow> 'o option) \<Rightarrow> 'o \<Rightarrow> u8 list \<Rightarrow> ('o \<times> nat) option" where
  "PrintToFD wr d s = (if 128 < length s + 1 then None
     else map_option (\<lambda>d'. (d', length s)) (wr d s))"

text \<open>What \<^verbatim>\<open>%s\<close> prints of the bytes in front of a terminator.\<close>

definition cstring :: "u8 list \<Rightarrow> u8 list" where
  "cstring bs = takeWhile (\<lambda>b. b \<noteq> 0) bs"

definition newline :: u8 where "newline = 0x0a"

text \<open>The loop of the command \<^verbatim>\<open>cat\<close> (\<^verbatim>\<open>Terminal::ExecuteLine\<close>).\<close>

partial_function (option) cat_loop ::
    "('d \<Rightarrow> nat \<Rightarrow> (u8 list \<times> 'd) option) \<Rightarrow> ('o \<Rightarrow> u8 list \<Rightarrow> 'o option) \<Rightarrow> 'd \<Rightarrow> 'o \<Rightarrow> ('d \<times> 'o) option" where
  "cat_loop rd wr d out = do {
     (d', line, n) \<leftarrow> ReadDelim rd d newline 1024;
     if n = 0 then Some (d', out)
     else do {
       (out', _) \<leftarrow> PrintToFD wr out (cstring line);
       cat_loop rd wr d' out'
     }
   }"

section \<open>The interface of a descriptor\<close>

text \<open>The line that \<^verbatim>\<open>ReadDelim\<close> takes from the bytes \<open>xs\<close> when there is room for \<open>n\<close> bytes.\<close>

fun line_of :: "nat \<Rightarrow> u8 \<Rightarrow> u8 list \<Rightarrow> u8 list" where
  "line_of 0 delim xs = []"
| "line_of (Suc n) delim [] = []"
| "line_of (Suc n) delim (x # xs) = (if x = delim then [x] else x # line_of n delim xs)"

lemma line_of_length: "length (line_of n delim xs) \<le> n"
  by (induction n delim xs rule: line_of.induct) auto

lemma line_of_prefix: "xs = line_of n delim xs @ drop (length (line_of n delim xs)) xs"
  by (induction n delim xs rule: line_of.induct) auto

lemma line_of_Nil_iff: "line_of n delim xs = [] \<longleftrightarrow> n = 0 \<or> xs = []"
  by (cases "(n, delim, xs)" rule: line_of.cases) auto

text \<open>No line is longer than 127 bytes, counting \<open>k\<close> bytes that came before.\<close>

fun short_lines :: "nat \<Rightarrow> u8 list \<Rightarrow> bool" where
  "short_lines k [] \<longleftrightarrow> True"
| "short_lines k (x # xs) \<longleftrightarrow> k < 127 \<and> short_lines (if x = newline then 0 else k + 1) xs"

lemma short_line:
  "short_lines k xs \<Longrightarrow> 128 \<le> k + n \<Longrightarrow> k \<le> 127 \<Longrightarrow> k + length (line_of n newline xs) \<le> 127
     \<and> short_lines 0 (drop (length (line_of n newline xs)) xs)"
proof (induction n newline xs arbitrary: k rule: line_of.induct)
  case (3 n x xs)
  then show ?case by (cases "x = newline") (auto dest: "3.hyps" [of "k + 1"])
qed auto

locale byte_source =
  fixes inv :: "'d \<Rightarrow> bool" and bytes :: "'d \<Rightarrow> u8 list" and rd :: "'d \<Rightarrow> nat \<Rightarrow> (u8 list \<times> 'd) option"
  assumes read_next: "inv d \<Longrightarrow> \<exists>bs d'. rd d n = Some (bs, d') \<and> inv d' \<and> bytes d = bs @ bytes d'
      \<and> length bs \<le> n \<and> (0 < n \<longrightarrow> bytes d \<noteq> [] \<longrightarrow> bs \<noteq> [])"
begin

lemma read_one:
  assumes "inv d"
  shows "(bytes d = [] \<and> (\<exists>d'. rd d 1 = Some ([], d') \<and> inv d' \<and> bytes d' = []))
    \<or> (\<exists>b d'. rd d 1 = Some ([b], d') \<and> inv d' \<and> bytes d = b # bytes d')"
proof -
  obtain bs d' where r: "rd d 1 = Some (bs, d')" "inv d'" "bytes d = bs @ bytes d'" "length bs \<le> 1"
    "bytes d \<noteq> [] \<longrightarrow> bs \<noteq> []"
    using read_next [OF assms, of 1] by auto
  then show ?thesis by (cases bs) auto
qed

lemma read_delim_loop_line:
  "inv d \<Longrightarrow> \<exists>d'. read_delim_loop rd delim room d acc = Some (d', acc @ line_of room delim (bytes d))
     \<and> inv d' \<and> bytes d' = drop (length (line_of room delim (bytes d))) (bytes d)"
proof (induction room arbitrary: d acc)
  case 0
  then show ?case by simp
next
  case (Suc room)
  from read_one [OF Suc.prems] show ?case
  proof
    assume "bytes d = [] \<and> (\<exists>d'. rd d 1 = Some ([], d') \<and> inv d' \<and> bytes d' = [])"
    then show ?thesis by auto
  next
    assume "\<exists>b d'. rd d 1 = Some ([b], d') \<and> inv d' \<and> bytes d = b # bytes d'"
    then obtain b d' where r: "rd d 1 = Some ([b], d')" "inv d'" "bytes d = b # bytes d'" by blast
    with Suc.IH [OF r(2), of "acc @ [b]"] show ?thesis by auto
  qed
qed

text \<open>\<^verbatim>\<open>ReadDelim\<close> takes the next line, or as much of it as there is room for.\<close>

lemma ReadDelim_line:
  assumes "inv d" and "0 < len"
  shows "\<exists>d'. ReadDelim rd d delim len = Some (d', line_of (len - 1) delim (bytes d),
      length (line_of (len - 1) delim (bytes d)))
    \<and> inv d' \<and> bytes d' = drop (length (line_of (len - 1) delim (bytes d))) (bytes d)"
  using read_delim_loop_line [OF assms(1), of delim "len - 1" "[]"] assms(2) by (auto simp: ReadDelim_def)

end

locale byte_sink =
  fixes winv :: "'o \<Rightarrow> bool" and written :: "'o \<Rightarrow> u8 list" and wr :: "'o \<Rightarrow> u8 list \<Rightarrow> 'o option"
  assumes write_all: "winv s \<Longrightarrow> \<exists>s'. wr s bs = Some s' \<and> winv s' \<and> written s' = written s @ bs"
begin

lemma PrintToFD_short:
  assumes "winv s" and "length bs \<le> 127"
  shows "\<exists>s'. PrintToFD wr s bs = Some (s', length bs) \<and> winv s' \<and> written s' = written s @ bs"
  using write_all [OF assms(1), of bs] assms(2) by (auto simp: PrintToFD_def)

end

text \<open>A source copied to a sink.\<close>

locale copying = byte_source inv bytes rd + byte_sink winv written wr
  for inv :: "'d \<Rightarrow> bool" and bytes and rd and winv :: "'o \<Rightarrow> bool" and written and wr
begin

lemma cat_copies:
  assumes "inv d" and "winv out" and "0 \<notin> set (bytes d)" and "short_lines 0 (bytes d)"
  shows "\<exists>d' out'. cat_loop rd wr d out = Some (d', out') \<and> inv d' \<and> winv out' \<and> bytes d' = []
    \<and> written out' = written out @ bytes d"
  using assms
proof (induction "length (bytes d)" arbitrary: d out rule: less_induct)
  case less
  let ?l = "line_of 1023 newline (bytes d)"
  obtain d1 where R: "ReadDelim rd d newline 1024 = Some (d1, ?l, length ?l)" "inv d1"
    "bytes d1 = drop (length ?l) (bytes d)"
    using ReadDelim_line [OF less.prems(1), of 1024 newline] by auto
  note pre = line_of_prefix [of "bytes d" 1023 newline]
  have z: "cstring ?l = ?l"
    unfolding cstring_def takeWhile_eq_all_conv using less.prems(3) pre by (metis UnCI set_append)
  show ?case
  proof (cases "bytes d = []")
    case True
    then have "?l = []" by (simp add: line_of_Nil_iff)
    with R True less.prems(2) show ?thesis by (subst cat_loop.simps) simp
  next
    case False
    then have ne: "?l \<noteq> []" by (simp add: line_of_Nil_iff)
    have s: "length ?l \<le> 127" "short_lines 0 (bytes d1)"
      using short_line [of 0 "bytes d" 1023] less.prems(4) R(3) by auto
    obtain o1 where W: "PrintToFD wr out ?l = Some (o1, length ?l)" "winv o1" "written o1 = written out @ ?l"
      using PrintToFD_short [OF less.prems(2) s(1)] by blast
    have "length (bytes d1) < length (bytes d)" "0 \<notin> set (bytes d1)"
      using R(3) ne False less.prems(3) in_set_dropD [of 0 "length ?l" "bytes d"] by auto
    from less.hyps [OF this(1) R(2) W(2) this(2) s(2)] obtain d' out' where
      C: "cat_loop rd wr d1 o1 = Some (d', out')" "inv d'" "winv out'" "bytes d' = []"
         "written out' = written o1 @ bytes d1"
      by blast
    have "written out' = written out @ bytes d" using C(5) W(3) R(3) pre by simp
    with R(1) W(1) C ne z show ?thesis by (subst cat_loop.simps) auto
  qed
qed

text \<open>A line that does not fit the buffer of \<^verbatim>\<open>PrintToFD\<close> is formatted beyond its end.\<close>

lemma cat_overruns:
  assumes "inv d" and "0 \<notin> set (bytes d)" and "127 < length (line_of 1023 newline (bytes d))"
  shows "cat_loop rd wr d out = None"
proof -
  let ?l = "line_of 1023 newline (bytes d)"
  obtain d1 where R: "ReadDelim rd d newline 1024 = Some (d1, ?l, length ?l)"
    using ReadDelim_line [OF assms(1), of 1024 newline] by auto
  have "cstring ?l = ?l"
    unfolding cstring_def takeWhile_eq_all_conv using assms(2) line_of_prefix [of "bytes d" 1023 newline]
    by (metis UnCI set_append)
  moreover have "?l \<noteq> []" using assms(3) by auto
  ultimately show ?thesis using R assms(3) by (subst cat_loop.simps) (simp add: PrintToFD_def)
qed

end

section \<open>A file as a source\<close>

text \<open>The state: the volume, the chain of the file (a ghost: the code follows the table), the descriptor.\<close>

type_synonym file_source = "volume \<times> nat list \<times> FileDescriptor"

definition file_read :: "file_source \<Rightarrow> nat \<Rightarrow> (u8 list \<times> file_source) option" where
  "file_read s n = (case s of (v, cl, fd) \<Rightarrow> map_option (\<lambda>(fd', bs). (bs, (v, cl, fd'))) (Read v fd n))"

definition file_rest :: "file_source \<Rightarrow> u8 list" where
  "file_rest s = (case s of (v, cl, fd) \<Rightarrow>
     case get_entry v (fat_entry fd) of None \<Rightarrow> []
     | Some e \<Rightarrow> drop (rd_off fd) (file_bytes v e cl))"

definition file_inv :: "file_source \<Rightarrow> bool" where
  "file_inv s \<longleftrightarrow> (case s of (v, cl, fd) \<Rightarrow> vol_ok v \<and> reading v cl fd
     \<and> (\<exists>e. get_entry v (fat_entry fd) = Some e \<and> file_ok v e cl \<and> rd_off fd \<le> unat (file_size e)))"

lemma file_bytes_length:
  "vol_ok v \<Longrightarrow> file_ok v e cl \<Longrightarrow> length (file_bytes v e cl) = unat (file_size e)"
  by (simp add: file_bytes_def file_ok_def content_length)

interpretation fsrc: byte_source file_inv file_rest file_read
proof
  fix s :: file_source and n
  assume inv: "file_inv s"
  obtain v cl fd where s: "s = (v, cl, fd)" by (metis prod_cases3)
  from inv obtain e where ok: "vol_ok v" "get_entry v (fat_entry fd) = Some e" "file_ok v e cl"
    "reading v cl fd" "rd_off fd \<le> unat (file_size e)"
    by (auto simp: file_inv_def s)
  let ?f = "file_bytes v e cl"
  note l = file_bytes_length [OF ok(1,3)]
  obtain fd' where R: "Read v fd n = Some (fd', take n (drop (rd_off fd) ?f))" "reading v cl fd'"
    "rd_off fd' = min (rd_off fd + n) (unat (file_size e))" "fat_entry fd' = fat_entry fd"
    using Read_spec [OF ok] by blast
  have rest: "drop (rd_off fd') ?f = drop n (drop (rd_off fd) ?f)"
    using l R(3) by (simp add: min_def add.commute)
  have "file_read s n = Some (take n (drop (rd_off fd) ?f), (v, cl, fd'))"
    by (simp add: file_read_def s R(1))
  moreover have "file_inv (v, cl, fd')" using ok R by (auto simp: file_inv_def)
  moreover have "file_rest s = take n (drop (rd_off fd) ?f) @ file_rest (v, cl, fd')"
    using ok(2) R(4) by (simp add: file_rest_def s rest del: drop_drop)
  moreover have "0 < n \<longrightarrow> file_rest s \<noteq> [] \<longrightarrow> take n (drop (rd_off fd) ?f) \<noteq> []"
    using ok(2) by (simp add: file_rest_def s)
  ultimately show "\<exists>bs d'. file_read s n = Some (bs, d') \<and> file_inv d' \<and> file_rest s = bs @ file_rest d'
      \<and> length bs \<le> n \<and> (0 < n \<longrightarrow> file_rest s \<noteq> [] \<longrightarrow> bs \<noteq> [])"
    by (intro exI conjI) auto
qed

section \<open>Pipes\<close>

record PipeDescriptor =
  pipe_task :: tid
  pipe_buf :: "u8 list"
  pipe_held :: nat
  pipe_closed :: bool

definition PipeDescriptor_init :: "tid \<Rightarrow> PipeDescriptor" where
  "PipeDescriptor_init i = \<lparr>pipe_task = i, pipe_buf = replicate 16 0, pipe_held = 0, pipe_closed = False\<rparr>"

definition pipe_message :: "u8 list \<Rightarrow> u8 \<Rightarrow> Message" where
  "pipe_message dat n = \<lparr>msg_type = kPipe, src_task_id = 0, arg = PipeArg dat n\<rparr>"

text \<open>
  The loop of \<^verbatim>\<open>Read\<close>: messages that are not of a pipe are thrown away; \<open>None\<close> when there are no
  more, because the task then sleeps until the next message.
\<close>

fun pipe_receive :: "nat \<Rightarrow> Message list \<Rightarrow> PipeDescriptor \<Rightarrow> (u8 list \<times> PipeDescriptor \<times> Message list) option" where
  "pipe_receive len [] p = None"
| "pipe_receive len (msg # ms) p =
     (if msg_type msg \<noteq> kPipe then pipe_receive len ms p
      else case arg msg of
        PipeArg dat l \<Rightarrow>
          if l = 0 then Some ([], p\<lparr>pipe_closed := True\<rparr>, ms)
          else let n = min (unat l) len in
            if length dat < unat l \<or> length (pipe_buf p) < unat l - n then None
            else Some (take n dat, p\<lparr>pipe_held := unat l - n,
                   pipe_buf := overwrite 0 (slice n (unat l - n) dat) (pipe_buf p)\<rparr>, ms)
      | _ \<Rightarrow> None)"

definition Pipe_Read :: "PipeDescriptor \<Rightarrow> nat \<Rightarrow> TaskManager \<Rightarrow> (u8 list \<times> PipeDescriptor \<times> TaskManager) option" where
  "Pipe_Read p len m =
     (if 0 < pipe_held p then
        let n = min (pipe_held p) len; left = pipe_held p - n in
        Some (take n (pipe_buf p),
              p\<lparr>pipe_held := left, pipe_buf := overwrite 0 (slice n left (pipe_buf p)) (pipe_buf p)\<rparr>, m)
      else if pipe_closed p then Some ([], p, m)
      else do {
        t \<leftarrow> get_task m (pipe_task p);
        (bs, p', ms) \<leftarrow> pipe_receive len (msgs t) p;
        Some (bs, p', upd_task (pipe_task p) (\<lambda>t. t\<lparr>msgs := ms\<rparr>) m)
      })"

text \<open>The loop of \<^verbatim>\<open>Write\<close>; the message is reused, so its array keeps bytes of the previous round.\<close>

function pipe_send :: "tid \<Rightarrow> u8 list \<Rightarrow> nat \<Rightarrow> u8 list \<Rightarrow> TaskManager \<Rightarrow> TaskManager option" where
  "pipe_send i buf sent dat m =
     (if sent < length buf then
        let n = min (length buf - sent) 16; dat' = overwrite 0 (slice sent n buf) dat in
        case Task_SendMessage i (pipe_message dat' (of_nat n)) m of
          None \<Rightarrow> None
        | Some m' \<Rightarrow> pipe_send i buf (sent + n) dat' m'
      else Some m)"
  by pat_completeness auto
termination by (relation "measure (\<lambda>(i, buf, sent, dat, m). length buf - sent)") auto

declare pipe_send.simps [simp del]

definition Pipe_Write :: "tid \<Rightarrow> u8 list \<Rightarrow> TaskManager \<Rightarrow> (TaskManager \<times> nat) option" where
  "Pipe_Write i buf m = map_option (\<lambda>m'. (m', length buf)) (pipe_send i buf 0 (replicate 16 0) m)"

definition Pipe_FinishWrite :: "tid \<Rightarrow> TaskManager \<Rightarrow> TaskManager option" where
  "Pipe_FinishWrite i m = Task_SendMessage i (pipe_message (replicate 16 0) 0) m"

text \<open>The bytes that the pipe messages of a queue carry, up to the one that closes the pipe.\<close>

fun payload :: "Message list \<Rightarrow> u8 list" where
  "payload [] = []"
| "payload (msg # ms) = (if msg_type msg \<noteq> kPipe then payload ms
     else case arg msg of PipeArg dat l \<Rightarrow> if l = 0 then [] else take (unat l) dat @ payload ms | _ \<Rightarrow> [])"

definition is_close :: "Message \<Rightarrow> bool" where
  "is_close msg \<longleftrightarrow> msg_type msg = kPipe \<and> (\<exists>dat. arg msg = PipeArg dat 0)"

definition pipe_msg_ok :: "Message \<Rightarrow> bool" where
  "pipe_msg_ok msg \<longleftrightarrow> msg_type msg = kPipe \<longrightarrow> (\<exists>dat l. arg msg = PipeArg dat l \<and> length dat = 16 \<and> unat l \<le> 16)"

definition pending :: "TaskManager \<Rightarrow> tid \<Rightarrow> Message list" where
  "pending m i = (case get_task m i of None \<Rightarrow> [] | Some t \<Rightarrow> msgs t)"

lemma payload_append_open:
  "list_all pipe_msg_ok ms \<Longrightarrow> \<not> list_ex is_close ms \<Longrightarrow> payload (ms @ ms') = payload ms @ payload ms'"
proof (induction ms)
  case (Cons msg ms)
  then show ?case
    by (cases "msg_type msg = kPipe") (auto simp: pipe_msg_ok_def is_close_def)
qed simp

lemma payload_append_closed:
  "list_all pipe_msg_ok ms \<Longrightarrow> list_ex is_close ms \<Longrightarrow> payload (ms @ ms') = payload ms"
proof (induction ms)
  case (Cons msg ms)
  then show ?case
    by (cases "msg_type msg = kPipe") (auto simp: pipe_msg_ok_def is_close_def split: if_splits)
qed simp

lemma overwrite_start: "length new \<le> length xs \<Longrightarrow> take (length new) (overwrite 0 new xs) = new"
  by (simp add: overwrite_def)

lemma pipe_receive_cases:
  assumes "list_all pipe_msg_ok ms" and "length (pipe_buf p) = 16" and "\<not> pipe_closed p" and "pipe_held p = 0"
  shows "(pipe_receive n ms p = None \<and> payload ms = [] \<and> \<not> list_ex is_close ms)
   \<or> (\<exists>bs p' ms'. pipe_receive n ms p = Some (bs, p', ms') \<and> pipe_task p' = pipe_task p
     \<and> length (pipe_buf p') = 16 \<and> pipe_held p' \<le> 16 \<and> list_all pipe_msg_ok ms'
     \<and> (pipe_closed p' \<or> list_ex is_close ms') = list_ex is_close ms
     \<and> payload ms = bs @ take (pipe_held p') (pipe_buf p') @ (if pipe_closed p' then [] else payload ms')
     \<and> length bs \<le> n \<and> (0 < n \<longrightarrow> bs = [] \<longrightarrow> payload ms = [] \<and> list_ex is_close ms))"
  using assms(1)
proof (induction ms)
  case Nil
  then show ?case by simp
next
  case (Cons msg ms)
  show ?case
  proof (cases "msg_type msg = kPipe")
    case False
    then have "\<not> is_close msg" by (simp add: is_close_def)
    with False Cons show ?thesis by simp
  next
    case True
    with Cons.prems(1) obtain dat l where a: "arg msg = PipeArg dat l" "length dat = 16" "unat l \<le> 16"
      by (auto simp: pipe_msg_ok_def)
    show ?thesis
    proof (cases "l = 0")
      case l: True
      then have "is_close msg" using True a by (simp add: is_close_def)
      with l True a Cons.prems assms show ?thesis by (simp cong: option.case_cong)
    next
      case l: False
      let ?k = "min (unat l) n"
      let ?s = "slice ?k (unat l - ?k) dat"
      have sl: "length ?s = unat l - ?k" using a by simp
      have ov: "length (overwrite 0 ?s (pipe_buf p)) = 16" "take (unat l - ?k) (overwrite 0 ?s (pipe_buf p)) = ?s"
        using overwrite_start [of ?s "pipe_buf p"] sl a assms(2) by simp_all
      have split: "take (unat l) dat = take ?k dat @ ?s"
        by (simp add: slice_def flip: take_add)
      have nc: "\<not> is_close msg" using True a l by (simp add: is_close_def)
      have z: "unat l \<noteq> 0" using l by (simp add: unat_eq_zero)
      have "pipe_receive n (msg # ms) p = Some (take ?k dat,
          p\<lparr>pipe_held := unat l - ?k, pipe_buf := overwrite 0 ?s (pipe_buf p)\<rparr>, ms)"
        using True a l assms(2) by (simp add: Let_def)
      moreover have "payload (msg # ms) = take ?k dat @ ?s @ payload ms"
        using True a l split by simp
      moreover have "0 < n \<longrightarrow> take ?k dat \<noteq> []" using z a(2) by (auto simp: min_def)
      ultimately show ?thesis using ov nc Cons.prems(1) assms(3) a(2,3) by (auto simp: min_def)
    qed
  qed
qed

definition pipe_ok :: "PipeDescriptor \<Rightarrow> TaskManager \<Rightarrow> bool" where
  "pipe_ok p m \<longleftrightarrow> get_task m (pipe_task p) \<noteq> None
     \<and> list_all pipe_msg_ok (pending m (pipe_task p)) \<and> length (pipe_buf p) = 16 \<and> pipe_held p \<le> 16"

text \<open>The writer has closed the pipe.\<close>

definition pipe_ended :: "PipeDescriptor \<Rightarrow> TaskManager \<Rightarrow> bool" where
  "pipe_ended p m \<longleftrightarrow> pipe_closed p \<or> list_ex is_close (pending m (pipe_task p))"

definition pipe_rest :: "PipeDescriptor \<Rightarrow> TaskManager \<Rightarrow> u8 list" where
  "pipe_rest p m = take (pipe_held p) (pipe_buf p)
     @ (if pipe_closed p then [] else payload (pending m (pipe_task p)))"

lemma Pipe_Read_cases:
  assumes "pipe_ok p m"
  shows "(Pipe_Read p n m = None \<and> pipe_rest p m = [] \<and> \<not> pipe_ended p m)
   \<or> (\<exists>bs p' m'. Pipe_Read p n m = Some (bs, p', m') \<and> pipe_ok p' m' \<and> pipe_task p' = pipe_task p
       \<and> (sched_inv m \<longrightarrow> sched_inv m') \<and> pipe_ended p' m' = pipe_ended p m
       \<and> pipe_rest p m = bs @ pipe_rest p' m' \<and> length bs \<le> n
       \<and> (0 < n \<longrightarrow> bs = [] \<longrightarrow> pipe_rest p m = [] \<and> pipe_ended p m))"
proof -
  from assms obtain t where t: "get_task m (pipe_task p) = Some t" and ok: "list_all pipe_msg_ok (msgs t)"
    and b: "length (pipe_buf p) = 16" "pipe_held p \<le> 16"
    by (auto simp: pipe_ok_def pending_def)
  consider "0 < pipe_held p" | "pipe_held p = 0" "pipe_closed p" | "pipe_held p = 0" "\<not> pipe_closed p" by blast
  then show ?thesis
  proof cases
    case 1
    let ?k = "min (pipe_held p) n"
    let ?s = "slice ?k (pipe_held p - ?k) (pipe_buf p)"
    let ?p = "p\<lparr>pipe_held := pipe_held p - ?k, pipe_buf := overwrite 0 ?s (pipe_buf p)\<rparr>"
    have ov: "length (overwrite 0 ?s (pipe_buf p)) = 16" "take (pipe_held p - ?k) (overwrite 0 ?s (pipe_buf p)) = ?s"
      using overwrite_start [of ?s "pipe_buf p"] b by simp_all
    have "take (pipe_held p) (pipe_buf p) = take ?k (pipe_buf p) @ ?s"
      by (simp add: slice_def flip: take_add)
    moreover have "Pipe_Read p n m = Some (take ?k (pipe_buf p), ?p, m)"
      using 1 by (simp add: Pipe_Read_def Let_def)
    ultimately show ?thesis
      using 1 t ok b ov by (auto simp: pipe_ok_def pipe_ended_def pipe_rest_def pending_def min_def)
  next
    case 2
    then show ?thesis using assms by (simp add: Pipe_Read_def pipe_rest_def pipe_ended_def)
  next
    case 3
    from pipe_receive_cases [OF ok b(1) 3(2,1), of n] show ?thesis
    proof (elim disjE exE conjE)
      assume "pipe_receive n (msgs t) p = None" "payload (msgs t) = []" "\<not> list_ex is_close (msgs t)"
      then show ?thesis using 3 t by (simp add: Pipe_Read_def pipe_rest_def pipe_ended_def pending_def)
    next
      fix bs p' ms'
      assume R: "pipe_receive n (msgs t) p = Some (bs, p', ms')" "pipe_task p' = pipe_task p"
        "length (pipe_buf p') = 16" "pipe_held p' \<le> 16" "list_all pipe_msg_ok ms'"
        "(pipe_closed p' \<or> list_ex is_close ms') = list_ex is_close (msgs t)"
        "payload (msgs t) = bs @ take (pipe_held p') (pipe_buf p') @ (if pipe_closed p' then [] else payload ms')"
        "length bs \<le> n" "0 < n \<longrightarrow> bs = [] \<longrightarrow> payload (msgs t) = [] \<and> list_ex is_close (msgs t)"
      let ?m = "upd_task (pipe_task p) (\<lambda>t. t\<lparr>msgs := ms'\<rparr>) m"
      have g: "get_task ?m (pipe_task p) = Some (t\<lparr>msgs := ms'\<rparr>)"
        using get_task_upd_Some [OF t, of "\<lambda>t. t\<lparr>msgs := ms'\<rparr>"] by simp
      have "sched_inv m \<longrightarrow> sched_inv ?m" using upd_msgs_inv [OF _ t, of "\<lambda>_. ms'"] by simp
      moreover have "Pipe_Read p n m = Some (bs, p', ?m)" using 3 t R(1) by (simp add: Pipe_Read_def)
      moreover have "pipe_ok p' ?m" using R(2-5) g by (simp add: pipe_ok_def pending_def)
      moreover have "pipe_ended p' ?m = pipe_ended p m"
        using R(2,6) 3(2) g t by (simp add: pipe_ended_def pending_def)
      moreover have "pipe_rest p m = bs @ pipe_rest p' ?m"
        using R(2,7) 3 g t by (simp add: pipe_rest_def pending_def)
      moreover have "0 < n \<longrightarrow> bs = [] \<longrightarrow> pipe_rest p m = [] \<and> pipe_ended p m"
        using R(9) 3 t by (simp add: pipe_rest_def pipe_ended_def pending_def)
      ultimately show ?thesis using R(2,8) by blast
    qed
  qed
qed

text \<open>The reading end of a pipe that the writer has closed is a source like any other.\<close>

definition pipe_read :: "PipeDescriptor \<times> TaskManager \<Rightarrow> nat \<Rightarrow> (u8 list \<times> PipeDescriptor \<times> TaskManager) option" where
  "pipe_read s n = (case s of (p, m) \<Rightarrow> Pipe_Read p n m)"

interpretation pin: byte_source "\<lambda>(p, m). pipe_ok p m \<and> pipe_ended p m" "\<lambda>(p, m). pipe_rest p m" pipe_read
proof
  fix s :: "PipeDescriptor \<times> TaskManager" and n
  assume "case s of (p, m) \<Rightarrow> pipe_ok p m \<and> pipe_ended p m"
  then show "\<exists>bs d'. pipe_read s n = Some (bs, d') \<and> (case d' of (p, m) \<Rightarrow> pipe_ok p m \<and> pipe_ended p m)
      \<and> (case s of (p, m) \<Rightarrow> pipe_rest p m) = bs @ (case d' of (p, m) \<Rightarrow> pipe_rest p m)
      \<and> length bs \<le> n \<and> (0 < n \<longrightarrow> (case s of (p, m) \<Rightarrow> pipe_rest p m) \<noteq> [] \<longrightarrow> bs \<noteq> [])"
    using Pipe_Read_cases [of "fst s" "snd s" n] by (cases s) (fastforce simp: pipe_read_def)
qed

text \<open>The writing end: every byte goes into the queue of the reading task, behind what is there.\<close>

lemma pending_send:
  assumes "sched_inv m" and "get_task m i = Some t"
  shows "\<exists>m'. Task_SendMessage i msg m = Some m' \<and> sched_inv m' \<and> CurrentTask m' = CurrentTask m
    \<and> get_task m' i \<noteq> None \<and> pending m' i = pending m i @ [msg]
    \<and> (\<forall>j. j \<noteq> i \<longrightarrow> get_task m' j = get_task m j)"
proof -
  obtain m' where S: "SendMessage i msg m = Some (m', kSuccess)" "sched_inv m'" "CurrentTask m' = CurrentTask m"
    "\<And>j. get_task m' j = (if j = i then Some (t\<lparr>msgs := msgs t @ [msg], ready_or_running := True\<rparr>) else get_task m j)"
    using SendMessage_spec [OF assms] by blast
  then show ?thesis using assms(2) by (auto simp: SendMessage_def pending_def)
qed

definition open_bytes :: "Message list \<Rightarrow> u8 list \<Rightarrow> bool" where
  "open_bytes ms bs \<longleftrightarrow> list_all pipe_msg_ok ms \<and> \<not> list_ex is_close ms \<and> payload ms = bs"

lemma open_bytes_append: "open_bytes xs bs \<Longrightarrow> open_bytes ys bs' \<Longrightarrow> open_bytes (xs @ ys) (bs @ bs')"
  by (simp add: open_bytes_def payload_append_open)

lemma open_bytes_message:
  assumes "length dat = 16" and "length bs \<le> 16" and "bs \<noteq> []"
  shows "open_bytes [pipe_message (overwrite 0 bs dat) (of_nat (length bs))] bs"
proof -
  have "unat (of_nat (length bs) :: u8) = length bs" using assms(2) by (simp add: unat_of_nat)
  moreover from this have "(of_nat (length bs) :: u8) \<noteq> 0" using assms(3) by auto
  ultimately show ?thesis using assms overwrite_start [of bs dat]
    by (simp add: open_bytes_def pipe_message_def pipe_msg_ok_def is_close_def)
qed

lemma pipe_send_spec:
  assumes "sched_inv m" and "get_task m i \<noteq> None" and "length dat = 16"
  shows "\<exists>m' ms. pipe_send i buf sent dat m = Some m' \<and> sched_inv m' \<and> get_task m' i \<noteq> None
    \<and> CurrentTask m' = CurrentTask m \<and> pending m' i = pending m i @ ms \<and> open_bytes ms (drop sent buf)
    \<and> (\<forall>j. j \<noteq> i \<longrightarrow> get_task m' j = get_task m j)"
  using assms
proof (induction "length buf - sent" arbitrary: sent dat m rule: less_induct)
  case less
  show ?case
  proof (cases "sent < length buf")
    case False
    then show ?thesis using less.prems
      by (subst pipe_send.simps) (simp add: open_bytes_def)
  next
    case True
    define n where "n = min (length buf - sent) 16"
    let ?s = "slice sent n buf" let ?d = "overwrite 0 ?s dat"
    have s: "length ?s = n" "0 < n" "n \<le> 16" "?s \<noteq> []"
      using True by (auto simp: n_def slice_def)
    have split: "drop sent buf = ?s @ drop (sent + n) buf"
      by (metis append_take_drop_id drop_drop slice_def add.commute)
    have d: "length ?d = 16" using less.prems(3) s by simp
    let ?msg = "pipe_message ?d (of_nat n)"
    have o: "open_bytes [?msg] ?s" using open_bytes_message [OF less.prems(3), of ?s] s by simp
    obtain m1 where S: "Task_SendMessage i ?msg m = Some m1" "sched_inv m1" "CurrentTask m1 = CurrentTask m"
      "get_task m1 i \<noteq> None" "pending m1 i = pending m i @ [?msg]" "\<forall>j. j \<noteq> i \<longrightarrow> get_task m1 j = get_task m j"
      using pending_send [OF less.prems(1), of i _ ?msg] less.prems(2) by blast
    have dec: "length buf - (sent + n) < length buf - sent" using True s(2) by linarith
    obtain m' ms where R: "pipe_send i buf (sent + n) ?d m1 = Some m'" "sched_inv m'" "get_task m' i \<noteq> None"
      "CurrentTask m' = CurrentTask m1" "pending m' i = pending m1 i @ ms" "open_bytes ms (drop (sent + n) buf)"
      "\<forall>j. j \<noteq> i \<longrightarrow> get_task m' j = get_task m1 j"
      using less.hyps [OF dec S(2,4) d] by blast
    have "pipe_send i buf sent dat m = Some m'"
      using True S(1) R(1) by (subst pipe_send.simps) (simp add: n_def Let_def)
    moreover have "open_bytes ([?msg] @ ms) (drop sent buf)"
      unfolding split by (rule open_bytes_append [OF o R(6)])
    moreover have "pending m' i = pending m i @ [?msg] @ ms" using R(5) S(5) by simp
    ultimately show ?thesis using R(2-4,7) S(3,6) by metis
  qed
qed

definition pipe_wr :: "tid \<Rightarrow> TaskManager \<Rightarrow> u8 list \<Rightarrow> TaskManager option" where
  "pipe_wr i m buf = map_option fst (Pipe_Write i buf m)"

definition pipe_winv :: "tid \<Rightarrow> TaskManager \<Rightarrow> bool" where
  "pipe_winv i m \<longleftrightarrow> sched_inv m \<and> get_task m i \<noteq> None \<and> open_bytes (pending m i) (payload (pending m i))"

definition pipe_written :: "tid \<Rightarrow> TaskManager \<Rightarrow> u8 list" where
  "pipe_written i m = payload (pending m i)"

lemma Pipe_Write_spec:
  assumes "sched_inv m" and "get_task m i \<noteq> None"
  shows "\<exists>m' ms. Pipe_Write i buf m = Some (m', length buf) \<and> sched_inv m' \<and> get_task m' i \<noteq> None
    \<and> CurrentTask m' = CurrentTask m \<and> pending m' i = pending m i @ ms \<and> open_bytes ms buf
    \<and> (\<forall>j. j \<noteq> i \<longrightarrow> get_task m' j = get_task m j)"
  using pipe_send_spec [OF assms, of "replicate 16 0" buf 0] by (auto simp: Pipe_Write_def)

interpretation pout: byte_sink "pipe_winv i" "pipe_written i" "pipe_wr i" for i
proof
  fix m bs
  assume inv: "pipe_winv i m"
  then have m: "sched_inv m" "get_task m i \<noteq> None" and o: "open_bytes (pending m i) (payload (pending m i))"
    by (simp_all add: pipe_winv_def)
  obtain m' ms where W: "Pipe_Write i bs m = Some (m', length bs)" "sched_inv m'" "get_task m' i \<noteq> None"
    "pending m' i = pending m i @ ms" "open_bytes ms bs"
    using Pipe_Write_spec [OF m] by blast
  have "open_bytes (pending m' i) (payload (pending m i) @ bs)"
    unfolding W(4) by (rule open_bytes_append [OF o W(5)])
  then have "pipe_winv i m'" "pipe_written i m' = pipe_written i m @ bs"
    using W(2,3) by (simp_all add: pipe_winv_def pipe_written_def open_bytes_def)
  then show "\<exists>s'. pipe_wr i m bs = Some s' \<and> pipe_winv i s' \<and> pipe_written i s' = pipe_written i m @ bs"
    using W(1) by (auto simp: pipe_wr_def)
qed

interpretation fcat: copying file_inv file_rest file_read "pipe_winv i" "pipe_written i" "pipe_wr i" for i
  by unfold_locales

section \<open>Runs of a pipe\<close>

text \<open>
  \<open>pipe_run f w r p m\<close>: reader and writer have taken turns in any order, \<open>w\<close> was written and \<open>r\<close> read,
  \<open>f\<close> tells that the writer has finished; meanwhile other tasks do what they do to the scheduler, as
  long as they send the reader no pipe messages.
\<close>

inductive pipe_run :: "bool \<Rightarrow> u8 list \<Rightarrow> u8 list \<Rightarrow> PipeDescriptor \<Rightarrow> TaskManager \<Rightarrow> bool" where
  start: "sched_inv m \<Longrightarrow> get_task m i \<noteq> None \<Longrightarrow> list_all (\<lambda>msg. msg_type msg \<noteq> kPipe) (pending m i)
    \<Longrightarrow> pipe_run False [] [] (PipeDescriptor_init i) m"
| wrote: "pipe_run False w r p m \<Longrightarrow> Pipe_Write (pipe_task p) buf m = Some (m', n) \<Longrightarrow> pipe_run False (w @ buf) r p m'"
| finished: "pipe_run False w r p m \<Longrightarrow> Pipe_FinishWrite (pipe_task p) m = Some m' \<Longrightarrow> pipe_run True w r p m'"
| read: "pipe_run f w r p m \<Longrightarrow> Pipe_Read p n m = Some (bs, p', m') \<Longrightarrow> pipe_run f w (r @ bs) p' m'"
| other: "pipe_run f w r p m \<Longrightarrow> sched_inv m' \<Longrightarrow> get_task m' (pipe_task p) \<noteq> None
    \<Longrightarrow> pending m' (pipe_task p) = pending m (pipe_task p) @ ms \<Longrightarrow> list_all (\<lambda>msg. msg_type msg \<noteq> kPipe) ms
    \<Longrightarrow> pipe_run f w r p m'"

lemma open_bytes_other: "list_all (\<lambda>msg. msg_type msg \<noteq> kPipe) ms \<Longrightarrow> open_bytes ms []"
  by (induction ms) (auto simp: open_bytes_def pipe_msg_ok_def is_close_def)

lemma payload_append:
  "list_all pipe_msg_ok ms \<Longrightarrow> open_bytes ms' bs \<Longrightarrow>
     payload (ms @ ms') = payload ms @ (if list_ex is_close ms then [] else bs)"
  by (simp add: payload_append_open payload_append_closed open_bytes_def)

text \<open>What a step of the writer or of other tasks adds to the reader's queue, it adds to what is left.\<close>

lemma pipe_rest_grows:
  assumes "pipe_ok p m" and "pending m' (pipe_task p) = pending m (pipe_task p) @ ms" and "open_bytes ms bs"
    and "get_task m' (pipe_task p) \<noteq> None" and "pipe_ended p m \<longrightarrow> bs = []"
  shows "pipe_ok p m' \<and> pipe_ended p m' = pipe_ended p m \<and> pipe_rest p m' = pipe_rest p m @ bs"
  using assms payload_append [of "pending m (pipe_task p)" ms bs]
  by (auto simp: pipe_ok_def pipe_ended_def pipe_rest_def open_bytes_def)

lemma pipe_run_inv:
  "pipe_run f w r p m \<Longrightarrow> sched_inv m \<and> pipe_ok p m \<and> pipe_ended p m = f \<and> w = r @ pipe_rest p m"
proof (induction rule: pipe_run.induct)
  case (start m i)
  then show ?case using open_bytes_other [of "pending m i"]
    by (simp add: PipeDescriptor_init_def pipe_ok_def pipe_ended_def pipe_rest_def open_bytes_def)
next
  case (wrote w r p m buf m' n)
  from wrote.IH have m: "sched_inv m" "pipe_ok p m" "get_task m (pipe_task p) \<noteq> None" by (auto simp: pipe_ok_def)
  from Pipe_Write_spec [OF m(1,3), of buf] wrote.hyps(2) obtain ms where
    W: "sched_inv m'" "get_task m' (pipe_task p) \<noteq> None" "pending m' (pipe_task p) = pending m (pipe_task p) @ ms"
      "open_bytes ms buf"
    by auto
  with pipe_rest_grows [OF m(2) W(3,4,2)] wrote.IH show ?case by auto
next
  case (finished w r p m m')
  let ?i = "pipe_task p" let ?msg = "pipe_message (replicate 16 0) 0"
  from finished.IH have m: "sched_inv m" "pipe_ok p m" "get_task m ?i \<noteq> None" by (auto simp: pipe_ok_def)
  then have S: "sched_inv m'" "get_task m' ?i \<noteq> None" "pending m' ?i = pending m ?i @ [?msg]"
    using pending_send [of m ?i _ ?msg] finished.hyps(2) by (auto simp: Pipe_FinishWrite_def)
  have "pipe_msg_ok ?msg" "is_close ?msg" by (simp_all add: pipe_message_def pipe_msg_ok_def is_close_def)
  moreover have "payload (pending m ?i @ [?msg]) = payload (pending m ?i)" if "\<not> list_ex is_close (pending m ?i)"
    using m(2) that by (simp add: payload_append_open pipe_ok_def pipe_message_def)
  ultimately show ?case using finished.IH m(2) S
    by (auto simp: pipe_ok_def pipe_ended_def pipe_rest_def)
next
  case (read f w r p m n bs p' m')
  then show ?case using Pipe_Read_cases [of p m n] by auto
next
  case (other f w r p m m' ms)
  from other.IH have "pipe_ok p m" by simp
  from pipe_rest_grows [OF this other.hyps(4) open_bytes_other [OF other.hyps(5)] other.hyps(3)] other.IH other.hyps(2)
  show ?case by auto
qed

text \<open>
  C3: a pipe is a first-in first-out stream of bytes, whatever the sizes of the reads and writes and
  however they alternate, with other messages in between.  What was written is what was read followed
  by what the next reads will bring; a read of \<open>n\<close> bytes brings at most \<open>n\<close> and at least one while
  bytes are left; it waits exactly when nothing is left and the writer has not finished, and returns
  no bytes, the end of the file, exactly when nothing is left and the writer has finished.
\<close>

theorem pipe_delivers_in_order:
  assumes "pipe_run f w r p m" and "0 < n"
  shows "case Pipe_Read p n m of
      None \<Rightarrow> w = r \<and> \<not> f
    | Some (bs, p', m') \<Rightarrow> pipe_run f w (r @ bs) p' m' \<and> length bs \<le> n \<and> (\<exists>rest. w = r @ bs @ rest)
        \<and> (bs = [] \<longleftrightarrow> w = r \<and> f)"
proof -
  note I = pipe_run_inv [OF assms(1)]
  from I have "pipe_ok p m" by simp
  from Pipe_Read_cases [OF this, of n] show ?thesis
  proof (elim disjE exE conjE)
    assume "Pipe_Read p n m = None" "pipe_rest p m = []" "\<not> pipe_ended p m"
    then show ?thesis using I by simp
  next
    fix bs p' m'
    assume R: "Pipe_Read p n m = Some (bs, p', m')" "length bs \<le> n" "pipe_rest p m = bs @ pipe_rest p' m'"
      "0 < n \<longrightarrow> bs = [] \<longrightarrow> pipe_rest p m = [] \<and> pipe_ended p m"
    then show ?thesis using I R assms pipe_run.read [OF assms(1) R(1)] by auto
  qed
qed

theorem pipe_delivers_in_order_witness:
  "\<exists>m1 bs p' m2 rest. Pipe_Write 2 (str ''hello'') (TaskManager_init (\<lambda>t. t)) = Some (m1, 5)
     \<and> Pipe_Read (PipeDescriptor_init 2) 3 m1 = Some (bs, p', m2)
     \<and> length bs \<le> 3 \<and> bs \<noteq> [] \<and> str ''hello'' = bs @ rest"
proof -
  let ?m = "TaskManager_init (\<lambda>t. t)" and ?p = "PipeDescriptor_init 2"
  have inv: "sched_inv ?m" by (rule init_inv) simp
  have g: "get_task ?m 2 \<noteq> None" "pending ?m 2 = []" by (simp_all add: init_example pending_def Task_init_def)
  obtain m1 where W: "Pipe_Write 2 (str ''hello'') ?m = Some (m1, 5)"
    using Pipe_Write_spec [OF inv g(1), of "str ''hello''"] by (auto simp: str_def)
  have run: "pipe_run False ([] @ str ''hello'') [] ?p m1"
    by (rule wrote [OF start [OF inv g(1)]]) (use g W in \<open>simp_all add: PipeDescriptor_init_def\<close>)
  have "str ''hello'' \<noteq> []" by (simp add: str_def)
  with pipe_delivers_in_order [OF run, of 3] show ?thesis
    by (cases "Pipe_Read ?p 3 m1") (use W in auto)
qed

section \<open>A file through a pipe\<close>

text \<open>
  C22: \<^verbatim>\<open>cat FILE | command\<close>.  When no line of the file is longer than 127 bytes (and none contains a
  zero byte), the loop of \<^verbatim>\<open>cat\<close> comes to its end and afterwards exactly the bytes of the file are on
  their way to the task behind the pipe, which reads the first line as it is in the file.  A first
  line of 128 bytes or more is formatted into a buffer of 128 bytes, beyond its end.
\<close>

theorem cat_file_through_pipe:
  assumes "vol_ok v" and "get_entry v ptr = Some e" and "file_ok v e cl" and "0 \<notin> set (file_bytes v e cl)"
    and "sched_inv m" and "get_task m i \<noteq> None" and "list_all (\<lambda>msg. msg_type msg \<noteq> kPipe) (pending m i)"
  shows "if short_lines 0 (file_bytes v e cl) then
       \<exists>d m1 m2. cat_loop file_read (pipe_wr i) (v, cl, FileDescriptor_init ptr) m = Some (d, m1)
         \<and> Pipe_FinishWrite i m1 = Some m2
         \<and> pipe_rest (PipeDescriptor_init i) m2 = file_bytes v e cl
         \<and> map_option snd (ReadDelim pipe_read (PipeDescriptor_init i, m2) newline 1024)
             = Some (line_of 1023 newline (file_bytes v e cl), length (line_of 1023 newline (file_bytes v e cl)))
     else 127 < length (line_of 1023 newline (file_bytes v e cl)) \<longrightarrow>
       cat_loop file_read (pipe_wr i) (v, cl, FileDescriptor_init ptr) m = None"
proof -
  let ?d = "(v, cl, FileDescriptor_init ptr)" and ?p = "PipeDescriptor_init i" and ?f = "file_bytes v e cl"
  let ?msg = "pipe_message (replicate 16 0) 0"
  have i: "fat_entry (FileDescriptor_init ptr) = ptr" "rd_off (FileDescriptor_init ptr) = 0"
    by (simp_all add: FileDescriptor_init_def)
  have "reading v cl (FileDescriptor_init ptr)" using assms(3) by (simp add: reading_init file_ok_def)
  then have src: "file_inv ?d" "file_rest ?d = ?f"
    using assms(1-3) by (auto simp: file_inv_def file_rest_def i)
  have "open_bytes (pending m i) []" by (rule open_bytes_other [OF assms(7)])
  then have snk: "pipe_winv i m" "pipe_written i m = []"
    using assms(5,6) by (auto simp: pipe_winv_def pipe_written_def open_bytes_def)
  show ?thesis
  proof (cases "short_lines 0 ?f")
    case True
    obtain d m1 where C: "cat_loop file_read (pipe_wr i) ?d m = Some (d, m1)" "pipe_winv i m1" "pipe_written i m1 = ?f"
      using fcat.cat_copies [OF src(1) snk(1)] assms(4) True src(2) snk(2) by auto
    then obtain m2 where F: "Pipe_FinishWrite i m1 = Some m2" "get_task m2 i \<noteq> None" "pending m2 i = pending m1 i @ [?msg]"
      using pending_send [of m1 i _ ?msg] by (auto simp: pipe_winv_def Pipe_FinishWrite_def)
    have "pipe_msg_ok ?msg" "is_close ?msg" "payload [?msg] = []"
      by (simp_all add: pipe_message_def pipe_msg_ok_def is_close_def)
    then have P: "pipe_ok ?p m2 \<and> pipe_ended ?p m2" "pipe_rest ?p m2 = ?f"
      using C(2,3) F(2,3) payload_append_open [of "pending m1 i" "[?msg]"]
      by (simp_all add: pipe_ok_def pipe_ended_def pipe_rest_def PipeDescriptor_init_def pipe_winv_def
          pipe_written_def open_bytes_def)
    then show ?thesis
      using pin.ReadDelim_line [of "(?p, m2)" 1024 newline] C(1) F(1) True
      by (cases d rule: prod_cases3) auto
  next
    case False
    then show ?thesis using fcat.cat_overruns [OF src(1)] assms(4) src(2) by simp
  qed
qed

definition cat_volume :: volume where
  "cat_volume = \<lparr>bpb = bpb_example, bytes_per_cluster = 32,
     fat = [0, 0, 0x0fffffff, 4, 0x0fffffff, 0],
     clusters = [encode_entry file_entry_example, map of_nat [33..<65], map of_nat [65..<97],
                 replicate 32 0]\<rparr>"

lemma cat_volume_ok:
  "vol_ok cat_volume" "get_entry cat_volume (2, 0) = Some file_entry_example"
  "file_ok cat_volume file_entry_example [3, 4]"
  "file_bytes cat_volume file_entry_example [3, 4] = map of_nat [33..<73]"
proof -
  have l: "length (de_name file_entry_example) = 11" by (simp add: file_entry_example_def str_def)
  note enc = encode_entry_length [OF l] decode_encode_entry [OF l]
  show ok: "vol_ok cat_volume"
    using enc(1) by (simp add: vol_ok_def fat_ok_def cat_volume_def kEntrySize_def)
  have "in_volume cat_volume (2, 0)"
    by (simp add: in_volume_def cat_volume_def entries_per_cluster_def kEntrySize_def)
  moreover have "entry cat_volume (2, 0) = file_entry_example"
    using enc by (simp add: entry_def cat_volume_def slice_def)
  ultimately show "get_entry cat_volume (2, 0) = Some file_entry_example"
    using get_entry_in [OF ok] by simp
  show "file_ok cat_volume file_entry_example [3, 4]"
    by (simp add: file_ok_def dir_ok_def cat_volume_def file_entry_example_def FirstCluster_def
        IsEndOfClusterchain_def kEndOfClusterchain_def)
  have "map of_nat [33..<65] @ map of_nat [65..<97] = (map of_nat [33..<97] :: u8 list)"
    using upt_add_eq_append [of 33 65 32] by (simp del: upt_rec_numeral flip: map_append)
  then show "file_bytes cat_volume file_entry_example [3, 4] = map of_nat [33..<73]"
    by (simp add: file_bytes_def content_def cat_volume_def file_entry_example_def take_map
        del: upt_rec_numeral)
qed

theorem cat_file_through_pipe_witness:
  "\<exists>d m1 m2. cat_loop file_read (pipe_wr 2) (cat_volume, [3, 4], FileDescriptor_init (2, 0)) (TaskManager_init (\<lambda>t. t)) = Some (d, m1)
     \<and> Pipe_FinishWrite 2 m1 = Some m2 \<and> pipe_rest (PipeDescriptor_init 2) m2 = map of_nat [33..<73]"
proof -
  let ?m = "TaskManager_init (\<lambda>t. t)"
  have m: "sched_inv ?m" by (rule init_inv) simp
  have g: "get_task ?m 2 \<noteq> None" "list_all (\<lambda>msg. msg_type msg \<noteq> kPipe) (pending ?m 2)"
    by (simp_all add: init_example pending_def Task_init_def)
  have z: "0 \<notin> set (map of_nat [33..<73] :: u8 list)" and s: "short_lines 0 (map of_nat [33..<73])"
    by (simp_all add: newline_def)
  show ?thesis
    using cat_file_through_pipe [OF cat_volume_ok(1-3) _ m g] z s cat_volume_ok(4)
    by (simp del: upt_rec_numeral) blast
qed

end
