(* ===== verification/Terminal.thy ===== *)
theory Terminal imports Window Descriptors begin

text \<open>
  The terminal, \<^verbatim>\<open>class Terminal\<close> of \<^verbatim>\<open>kernel/terminal.cpp\<close>: printing and scrolling, the line editor
  (\<^verbatim>\<open>InputKey\<close>) and the history.

  The window of the terminal is a member of its record; \<open>None\<close> is the null pointer of a terminal
  without a window, and using it is undefined.  What the terminal does to the rest of the kernel is
  an argument: \<open>send\<close> sends the message that redraws an area of the layer, \<open>exec\<close> is \<^verbatim>\<open>ExecuteLine\<close>.
\<close>

definition kRows :: int where "kRows = 18"
definition kColumns :: int where "kColumns = 60"
definition kLineMax :: nat where "kLineMax = 128"

record Terminal =
  show_window :: bool
  win :: "Window option"
  cursor_x :: int
  cursor_y :: int
  cursor_visible :: bool
  linebuf_index :: nat
  linebuf :: "u8 list"
  cmd_history :: "u8 list list"
  cmd_history_index :: int
  term_files :: "nat list"
  last_exit_code :: int

definition with_win :: "(Window \<Rightarrow> Window option) \<Rightarrow> Terminal \<Rightarrow> Terminal option" where
  "with_win f t = do { w \<leftarrow> win t; w' \<leftarrow> f w; Some (t\<lparr>win := Some w'\<rparr>) }"

section \<open>Drawing\<close>

definition CalcCursorPos :: "Terminal \<Rightarrow> Vector2D" where
  "CalcCursorPos t = kTopLeftMargin + Vec (2 + 8 * cursor_x t) (5 + 16 * cursor_y t)"

definition DrawCursor :: "bool \<Rightarrow> Terminal \<Rightarrow> Terminal option" where
  "DrawCursor visible t =
     (if show_window t
      then with_win (FillRectangle WindowWriter (CalcCursorPos t) (Vec 7 15)
             (if visible then kTerminalFGColor else kTerminalBGColor)) t
      else Some t)"

definition BlinkCursor :: "Terminal \<Rightarrow> (Terminal \<times> Rectangle) option" where
  "BlinkCursor t = do {
     t \<leftarrow> DrawCursor (\<not> cursor_visible t) (t\<lparr>cursor_visible := \<not> cursor_visible t\<rparr>);
     Some (t, Rect (CalcCursorPos t) (Vec 7 15)) }"

definition ScrollOneLine :: "Terminal \<Rightarrow> Terminal option" where
  "ScrollOneLine t = do {
     t \<leftarrow> with_win (win_Move (kTopLeftMargin + Vec 2 5)
            (Rect (kTopLeftMargin + Vec 2 (5 + 16)) (Vec (8 * kColumns) (16 * (kRows - 1))))) t;
     with_win (FillRectangle InnerAreaWriter (Vec 2 (5 + 16 * cursor_y t)) (Vec (8 * kColumns) 16) (px 0 0 0)) t }"

text \<open>The lambda \<^verbatim>\<open>newline\<close> of \<^verbatim>\<open>Print\<close>; the same lines are in \<^verbatim>\<open>InputKey\<close>.\<close>

definition term_newline :: "Terminal \<Rightarrow> Terminal option" where
  "term_newline t0 = (let t = t0\<lparr>cursor_x := 0\<rparr> in
     if cursor_y t < kRows - 1 then Some (t\<lparr>cursor_y := cursor_y t + 1\<rparr>) else ScrollOneLine t)"

definition write_unicode :: "'f fonts \<Rightarrow> u32 \<Rightarrow> Terminal \<Rightarrow> Terminal option" where
  "write_unicode fts c t =
     with_win (\<lambda>w. map_option fst (WriteUnicode fts WindowWriter (CalcCursorPos t) c kTerminalFGColor 16 False w)) t"

definition Print_char :: "'f fonts \<Rightarrow> u32 \<Rightarrow> Terminal \<Rightarrow> Terminal option" where
  "Print_char fts c t =
     (if \<not> show_window t then Some t
      else if c = 10 then term_newline t
      else if IsHankaku c then do {
        t \<leftarrow> (if cursor_x t = kColumns then term_newline t else Some t);
        t \<leftarrow> write_unicode fts c t;
        Some (t\<lparr>cursor_x := cursor_x t + 1\<rparr>) }
      else do {
        t \<leftarrow> (if cursor_x t \<ge> kColumns - 1 then term_newline t else Some t);
        t \<leftarrow> write_unicode fts c t;
        Some (t\<lparr>cursor_x := cursor_x t + 2\<rparr>) })"

text \<open>
  The loop of \<^verbatim>\<open>Print(const char*, len)\<close>; \<open>s\<close> are the bytes from the pointer up to the terminating
  zero, which a step over several bytes can jump beyond; a missing \<open>len\<close> is the largest number.
\<close>

definition white_square :: u32 where "white_square = 0x25a1"

partial_function (option) print_loop :: "'f fonts \<Rightarrow> cstr \<Rightarrow> nat \<Rightarrow> nat \<Rightarrow> Terminal \<Rightarrow> Terminal option" where
  "print_loop fts s len i t = do {
     b \<leftarrow> str_at s i;
     if b \<noteq> 0 \<and> i < len then do {
       (c, n) \<leftarrow> ConvertUTF8To32 (drop i s);
       t \<leftarrow> Print_char fts (if c \<noteq> 0 then c else white_square) t;
       print_loop fts s len (i + n) t
     }
     else Some t
   }"

type_synonym 'w on_area = "Rectangle \<Rightarrow> 'w \<Rightarrow> 'w option"

definition Print :: "'f fonts \<Rightarrow> 'w on_area \<Rightarrow> cstr \<Rightarrow> nat option \<Rightarrow> 'w \<times> Terminal \<Rightarrow> ('w \<times> Terminal) option" where
  "Print fts send s len wt = (case wt of (w, t) \<Rightarrow>
     let cursor_before = CalcCursorPos t in do {
     t \<leftarrow> DrawCursor False t;
     t \<leftarrow> print_loop fts s (case len of Some l \<Rightarrow> l | None \<Rightarrow> 2 ^ 64 - 1) 0 t;
     t \<leftarrow> DrawCursor True t;
     let cursor_after = CalcCursorPos t;
     v \<leftarrow> win t;
     w \<leftarrow> send (Rect (Vec (vx kTopLeftMargin) (vy cursor_before))
                 (Vec (vx (InnerSize v)) (vy cursor_after - vy cursor_before + 16))) w;
     Some (w, t) })"

definition Redraw :: "'w on_area \<Rightarrow> 'w \<times> Terminal \<Rightarrow> ('w \<times> Terminal) option" where
  "Redraw send wt = (case wt of (w, t) \<Rightarrow> do {
     v \<leftarrow> win t;
     w \<leftarrow> send (Rect kTopLeftMargin (InnerSize v)) w;
     Some (w, t) })"

section \<open>The line editor\<close>

text \<open>The string in a character array: \<open>None\<close> when it has no terminating zero.\<close>

definition array_str :: "u8 list \<Rightarrow> cstr option" where
  "array_str a = (if 0 \<in> set a then Some (takeWhile (\<lambda>b. b \<noteq> 0) a) else None)"

definition HistoryUpDown :: "'f fonts \<Rightarrow> int \<Rightarrow> Terminal \<Rightarrow> (Terminal \<times> Rectangle) option" where
  "HistoryUpDown fts direction t0 =
     (let t1 = (if direction = -1 \<and> cmd_history_index t0 \<ge> 0
                then t0\<lparr>cmd_history_index := cmd_history_index t0 - 1\<rparr>
                else if direction = 1 \<and> cmd_history_index t0 + 1 < int (length (cmd_history t0))
                then t0\<lparr>cmd_history_index := cmd_history_index t0 + 1\<rparr> else t0);
          t = t1\<lparr>cursor_x := 1\<rparr>; first_pos = CalcCursorPos t in do {
     t \<leftarrow> with_win (FillRectangle WindowWriter first_pos (Vec (8 * (kColumns - 1)) 16) kTerminalBGColor) t;
     history \<leftarrow> (if cmd_history_index t \<ge> 0
                 then do { a \<leftarrow> arr_get (cmd_history t) (nat (cmd_history_index t)); array_str a }
                 else Some []);
     if length history < length (linebuf t) then do {
       let t = t\<lparr>linebuf := overwrite 0 (history @ [0]) (linebuf t), linebuf_index := length history\<rparr>;
       t \<leftarrow> with_win (WriteString fts WindowWriter first_pos history kTerminalFGColor) t;
       Some (t\<lparr>cursor_x := int (linebuf_index t) + 1\<rparr>,
             Rect first_pos (Vec (8 * (kColumns - 1)) 16))
     } else None })"

text \<open>What \<^verbatim>\<open>InputKey\<close> does between erasing and drawing the cursor.\<close>

definition handle_key ::
    "'f fonts \<Rightarrow> 'w on_area \<Rightarrow> ('w \<times> Terminal \<Rightarrow> ('w \<times> Terminal) option)
       \<Rightarrow> u8 \<Rightarrow> u8 \<Rightarrow> 'w \<times> Terminal \<Rightarrow> ('w \<times> Terminal \<times> Rectangle) option" where
  "handle_key fts send exec code ascii_char wt = (case wt of (w, t) \<Rightarrow>
     let draw_area = Rect (CalcCursorPos t) (Vec (8 * 2) 16) in
     if ascii_char = 10 then do {
       buf \<leftarrow> arr_set (linebuf t) (linebuf_index t) 0;
       let t = t\<lparr>linebuf := buf\<rparr>;
       let t = (if linebuf_index t > 0 then t\<lparr>cmd_history := buf # butlast (cmd_history t)\<rparr> else t);
       let t = t\<lparr>linebuf_index := 0, cmd_history_index := -1\<rparr>;
       t \<leftarrow> term_newline t;
       (w, t) \<leftarrow> exec (w, t);
       (w, t) \<leftarrow> Print fts send [0x3e] None (w, t);
       v \<leftarrow> win t;
       Some (w, t, Rect kTopLeftMargin (InnerSize v))
     }
     else if ascii_char = 8 then
       if cursor_x t > 1 then do {
         let t = t\<lparr>cursor_x := cursor_x t - 1\<rparr>;
         t \<leftarrow> (if show_window t
               then with_win (FillRectangle WindowWriter (CalcCursorPos t) (Vec 8 16) kTerminalBGColor) t
               else Some t);
         Some (w, t\<lparr>linebuf_index := linebuf_index t - 1\<rparr>, Rect (CalcCursorPos t) (Vec (8 * 2) 16))
       }
       else Some (w, t, draw_area)
     else if ascii_char \<noteq> 0 then
       if cursor_x t < kColumns - 1 \<and> linebuf_index t < kLineMax - 1 then do {
         buf \<leftarrow> arr_set (linebuf t) (linebuf_index t) ascii_char;
         let t = t\<lparr>linebuf := buf, linebuf_index := linebuf_index t + 1\<rparr>;
         t \<leftarrow> (if show_window t
               then with_win (WriteAscii (hankaku fts) WindowWriter (CalcCursorPos t) ascii_char kTerminalFGColor) t
               else Some t);
         Some (w, t\<lparr>cursor_x := cursor_x t + 1\<rparr>, draw_area)
       }
       else Some (w, t, draw_area)
     else if code = 0x51 then map_option (Pair w) (HistoryUpDown fts (-1) t)
     else if code = 0x52 then map_option (Pair w) (HistoryUpDown fts 1 t)
     else Some (w, t, draw_area))"

definition InputKey ::
    "'f fonts \<Rightarrow> 'w on_area \<Rightarrow> ('w \<times> Terminal \<Rightarrow> ('w \<times> Terminal) option)
       \<Rightarrow> u8 \<Rightarrow> u8 \<Rightarrow> u8 \<Rightarrow> 'w \<times> Terminal \<Rightarrow> ('w \<times> Terminal \<times> Rectangle) option" where
  "InputKey fts send exec modifier_bits code ascii_char wt = (case wt of (w, t) \<Rightarrow> do {
     t \<leftarrow> DrawCursor False t;
     (w, t, draw_area) \<leftarrow> handle_key fts send exec code ascii_char (w, t);
     t \<leftarrow> DrawCursor True t;
     Some (w, t, draw_area) })"

section \<open>The window of a terminal\<close>

text \<open>
  After a scroll the window's shadow buffer is ahead of its data, so the drawing lemmas are taken over
  well-formed windows, not over those in step, and look at the shadow buffer, which is what is copied to the
  screen.
\<close>

definition win_look :: "Vector2D \<Rightarrow> Window \<Rightarrow> PixelColor option" where
  "win_look q w = fb_GetPixel q (shadow_buffer w)"

lemma win_ok_write:
  assumes "win_ok w" and "in_win w q"
  shows "\<exists>w'. win_Write q c w = Some w' \<and> win_ok w' \<and> win_width w' = win_width w \<and> win_height w' = win_height w
    \<and> (\<forall>p. in_win w p \<longrightarrow> win_look p w' = (if p = q then Some c else win_look p w))"
  unfolding win_look_def using win_write_in [OF assms, of c] by blast

interpretation tw: pixel_canvas WindowWriter win_ok win_look
proof
  fix w q c
  assume "win_ok w" "in_picture WindowWriter w q"
  with win_ok_write [of w q c] show "\<exists>w'. pw_Write WindowWriter q c w = Some w' \<and> win_ok w'
      \<and> pw_Width WindowWriter w' = pw_Width WindowWriter w \<and> pw_Height WindowWriter w' = pw_Height WindowWriter w
      \<and> (\<forall>p. in_picture WindowWriter w p \<longrightarrow> win_look p w' = (if p = q then Some c else win_look p w))"
    unfolding in_picture_win by (auto simp: WindowWriter_def)
qed

interpretation ti: pixel_canvas InnerAreaWriter win_ok "\<lambda>q. win_look (q + kTopLeftMargin)"
proof
  fix w q c
  assume a: "win_ok w" "in_picture InnerAreaWriter w q"
  have inner: "in_picture InnerAreaWriter w p \<Longrightarrow> in_win w (p + kTopLeftMargin)" for p
    by (auto simp: in_picture_def InnerAreaWriter_def in_rect_def in_win_def kTopLeftMargin_def kBottomRightMargin_def)
  have inj: "p + kTopLeftMargin = q + kTopLeftMargin \<longleftrightarrow> p = q" for p by (auto simp: vec_eq_iff)
  from win_ok_write [OF a(1) inner [OF a(2)], of c] inner inj
  show "\<exists>w'. pw_Write InnerAreaWriter q c w = Some w' \<and> win_ok w'
      \<and> pw_Width InnerAreaWriter w' = pw_Width InnerAreaWriter w
      \<and> pw_Height InnerAreaWriter w' = pw_Height InnerAreaWriter w
      \<and> (\<forall>p. in_picture InnerAreaWriter w p \<longrightarrow>
            win_look (p + kTopLeftMargin) w' = (if p = q then Some c else win_look (p + kTopLeftMargin) w))"
    by (fastforce simp: InnerAreaWriter_def)
qed

text \<open>The size that the constructor gives the window: the text area and the margins of a frame.\<close>

definition term_win :: "Window \<Rightarrow> bool" where
  "term_win w \<longleftrightarrow> win_ok w \<and> win_width w = 492 \<and> win_height w = 325"

definition shown_ok :: "Terminal \<Rightarrow> bool" where
  "shown_ok t \<longleftrightarrow> show_window t \<and> (\<exists>w. win t = Some w \<and> term_win w)
     \<and> 0 \<le> cursor_x t \<and> cursor_x t \<le> kColumns \<and> 0 \<le> cursor_y t \<and> cursor_y t < kRows"

text \<open>\<open>t'\<close> is \<open>t\<close> with something else drawn in its window.\<close>

definition redrawn :: "Terminal \<Rightarrow> Terminal \<Rightarrow> bool" where
  "redrawn t t' \<longleftrightarrow> (\<exists>w. t' = t\<lparr>win := Some w\<rparr> \<and> term_win w)"

lemma redrawn_shown: "shown_ok t \<Longrightarrow> redrawn t t' \<Longrightarrow> shown_ok t'"
  by (auto simp: redrawn_def shown_ok_def)

lemma redrawn_refl: "shown_ok t \<Longrightarrow> redrawn t t"
  by (cases t) (auto simp: redrawn_def shown_ok_def)

lemma redrawn_trans: "redrawn t t1 \<Longrightarrow> redrawn t1 t2 \<Longrightarrow> redrawn t t2"
  by (auto simp: redrawn_def)

lemma redrawn_fields:
  assumes "redrawn t t'"
  shows "cursor_x t' = cursor_x t" "cursor_y t' = cursor_y t" "show_window t' = show_window t"
    "linebuf t' = linebuf t" "linebuf_index t' = linebuf_index t" "cmd_history t' = cmd_history t"
    "cmd_history_index t' = cmd_history_index t" "cursor_visible t' = cursor_visible t"
    "term_files t' = term_files t" "last_exit_code t' = last_exit_code t" "CalcCursorPos t' = CalcCursorPos t"
  using assms by (auto simp: redrawn_def CalcCursorPos_def)

lemma with_win_redrawn:
  assumes "shown_ok t" and "\<And>w. term_win w \<Longrightarrow> \<exists>w'. f w = Some w' \<and> term_win w'"
  shows "\<exists>t'. with_win f t = Some t' \<and> redrawn t t'"
  using assms by (fastforce simp: shown_ok_def with_win_def redrawn_def)

text \<open>A pixel of the terminal's window as it reaches the screen; the pixels with \<open>P\<close> get the colour \<open>c\<close>.\<close>

definition in_term :: "Vector2D \<Rightarrow> bool" where
  "in_term = in_rect (Rect (Vec 0 0) (Vec 492 325))"

definition term_pixel :: "Vector2D \<Rightarrow> Terminal \<Rightarrow> PixelColor option" where
  "term_pixel q t = (case win t of None \<Rightarrow> None | Some w \<Rightarrow> win_look q w)"

definition inked :: "(Vector2D \<Rightarrow> bool) \<Rightarrow> PixelColor \<Rightarrow> Terminal \<Rightarrow> Terminal \<Rightarrow> bool" where
  "inked P c t t' \<longleftrightarrow> redrawn t t'
     \<and> (\<forall>q. in_term q \<longrightarrow> term_pixel q t' = (if P q then Some c else term_pixel q t))"

lemma inked_redrawn: "inked P c t t' \<Longrightarrow> redrawn t t'"
  by (simp add: inked_def)

lemma inked_pixel: "inked P c t t' \<Longrightarrow> in_term q \<Longrightarrow> term_pixel q t' = (if P q then Some c else term_pixel q t)"
  by (simp add: inked_def)

lemma term_rect: "term_win w \<Longrightarrow> 0 \<le> vx pos \<Longrightarrow> 0 \<le> vy pos \<Longrightarrow> vx pos + vx sz \<le> 492 \<Longrightarrow> vy pos + vy sz \<le> 325 \<Longrightarrow>
    \<forall>q. in_rect (Rect pos sz) q \<longrightarrow> in_picture WindowWriter w q"
  by (auto simp: term_win_def in_rect_def in_picture_win in_win_def)

lemma writer_size:
  "pw_Width WindowWriter w = win_width w" "pw_Height WindowWriter w = win_height w"
  "pw_Width InnerAreaWriter w = win_width w - 4" "pw_Height InnerAreaWriter w = win_height w - 29"
  by (simp_all add: WindowWriter_def InnerAreaWriter_def kTopLeftMargin_def kBottomRightMargin_def)

lemma with_win_inked:
  assumes "shown_ok t" and f: "\<And>w. term_win w \<Longrightarrow> \<exists>w'. f w = Some w' \<and> tw.painted P c w w'"
  shows "\<exists>t'. with_win f t = Some t' \<and> inked P c t t'"
proof -
  obtain w where w: "win t = Some w" "term_win w" using assms(1) by (auto simp: shown_ok_def)
  from f [OF w(2)] obtain w' where w': "f w = Some w'" "tw.painted P c w w'" by blast
  have "term_win w'" using w(2) w'(2) by (simp add: term_win_def tw.painted_def writer_size)
  moreover have "in_picture WindowWriter w q" if "in_term q" for q
    using that w(2) by (auto simp: in_term_def in_picture_win in_win_def in_rect_def term_win_def)
  ultimately have "inked P c t (t\<lparr>win := Some w'\<rparr>)"
    using w(1) w'(2) by (auto simp: inked_def redrawn_def term_pixel_def tw.painted_def)
  with w(1) w'(1) show ?thesis by (simp add: with_win_def)
qed

lemma fill_inked:
  assumes "shown_ok t" "0 \<le> vx pos" "0 \<le> vy pos" "vx pos + vx sz \<le> 492" "vy pos + vy sz \<le> 325"
  shows "\<exists>t'. with_win (FillRectangle WindowWriter pos sz c) t = Some t' \<and> inked (in_rect (Rect pos sz)) c t t'"
proof (rule with_win_inked [OF assms(1)])
  fix w assume w: "term_win w"
  then show "\<exists>w'. FillRectangle WindowWriter pos sz c w = Some w' \<and> tw.painted (in_rect (Rect pos sz)) c w w'"
    using tw.FillRectangle_paints [OF _ term_rect [OF w assms(2-5)]] by (simp add: term_win_def)
qed

lemma fill_term:
  assumes "term_win w" "0 \<le> vx pos" "0 \<le> vy pos" "vx pos + vx sz \<le> 492" "vy pos + vy sz \<le> 325"
  shows "\<exists>w'. FillRectangle WindowWriter pos sz c w = Some w' \<and> term_win w'"
  using tw.FillRectangle_paints [of w pos sz c] term_rect [OF assms] assms(1)
  by (auto simp: term_win_def tw.painted_def writer_size)

lemma cursor_pos:
  "vx (CalcCursorPos t) = 4 + 8 * cursor_x t" "vy (CalcCursorPos t) = 32 + 16 * cursor_y t"
  by (simp_all add: CalcCursorPos_def kTopLeftMargin_def)

text \<open>The cell in a column of the cursor's line, and the block that the cursor is.\<close>

definition cell :: "Terminal \<Rightarrow> int \<Rightarrow> Vector2D" where
  "cell t x = kTopLeftMargin + Vec (2 + 8 * x) (5 + 16 * cursor_y t)"

definition cursor_block :: "Vector2D \<Rightarrow> Vector2D \<Rightarrow> bool" where
  "cursor_block pos = in_rect (Rect pos (Vec 7 15))"

lemma CalcCursorPos_cell: "CalcCursorPos t = cell t (cursor_x t)"
  by (simp add: CalcCursorPos_def cell_def)

lemma cell_pos: "vx (cell t x) = 4 + 8 * x" "vy (cell t x) = 32 + 16 * cursor_y t"
  by (simp_all add: cell_def kTopLeftMargin_def)

lemma view_updates [simp]:
  "cell (t\<lparr>cursor_x := x\<rparr>) = cell t" "cell (t\<lparr>linebuf := l\<rparr>) = cell t" "cell (t\<lparr>linebuf_index := n\<rparr>) = cell t"
  "cell (t\<lparr>cmd_history_index := k\<rparr>) = cell t"
  "term_pixel q (t\<lparr>cursor_x := x\<rparr>) = term_pixel q t" "term_pixel q (t\<lparr>linebuf := l\<rparr>) = term_pixel q t"
  "term_pixel q (t\<lparr>linebuf_index := n\<rparr>) = term_pixel q t" "term_pixel q (t\<lparr>cmd_history_index := k\<rparr>) = term_pixel q t"
  by (simp_all add: cell_def fun_eq_iff term_pixel_def)

lemma cell_same: "cursor_y t' = cursor_y t \<Longrightarrow> cell t' = cell t"
  by (simp add: cell_def fun_eq_iff)

lemma DrawCursor_inked:
  assumes "shown_ok t"
  shows "\<exists>t'. DrawCursor v t = Some t'
    \<and> inked (cursor_block (cell t (cursor_x t))) (if v then kTerminalFGColor else kTerminalBGColor) t t'"
  using assms fill_inked [OF assms, of "CalcCursorPos t" "Vec 7 15"]
  by (auto simp: DrawCursor_def shown_ok_def cursor_pos kColumns_def kRows_def cursor_block_def CalcCursorPos_cell [symmetric])

lemma DrawCursor_ok: "shown_ok t \<Longrightarrow> \<exists>t'. DrawCursor v t = Some t' \<and> redrawn t t'"
  using DrawCursor_inked [of t v] inked_redrawn by blast

lemma fill_inner:
  assumes "term_win w" "0 \<le> vx pos" "0 \<le> vy pos" "vx pos + vx sz \<le> 488" "vy pos + vy sz \<le> 296"
  shows "\<exists>w'. FillRectangle InnerAreaWriter pos sz c w = Some w' \<and> term_win w'"
proof -
  have "\<forall>q. in_rect (Rect pos sz) q \<longrightarrow> in_picture InnerAreaWriter w q"
    using assms by (auto simp: term_win_def in_rect_def in_picture_def writer_size)
  from ti.FillRectangle_paints [OF _ this, of c] assms(1) show ?thesis
    by (auto simp: term_win_def ti.painted_def writer_size)
qed

lemma move_term:
  assumes "term_win w" "vy to < vy (rpos src)" "0 \<le> vx (rpos src)" "0 \<le> vx (rsize src)" "0 \<le> vy (rsize src)"
    "vx (rpos src) + vx (rsize src) \<le> 492" "vy (rpos src) + vy (rsize src) \<le> 325"
    "0 \<le> vx to" "0 \<le> vy to" "vx to + vx (rsize src) \<le> 492"
  shows "\<exists>w'. win_Move to src w = Some w' \<and> term_win w'"
proof -
  from assms(1) have fb: "fb_ok (shadow_buffer w)" "uint (horizontal_resolution (shadow_buffer w)) = 492"
    "uint (vertical_resolution (shadow_buffer w)) = 325"
    by (auto simp: term_win_def win_ok_def)
  from Move_up_spec [OF fb(1) assms(2-5)] fb(2,3) assms(6-10) obtain fb' where
    fb': "Frame_Buffer.Move to src (shadow_buffer w) = Some fb'" "fb_ok fb'"
      "fb' = (shadow_buffer w)\<lparr>frame_buffer := Some (fb_mem fb')\<rparr>" by auto
  have "horizontal_resolution fb' = horizontal_resolution (shadow_buffer w)"
    "vertical_resolution fb' = vertical_resolution (shadow_buffer w)" by (subst fb'(3), simp)+
  with fb'(1,2) assms(1) show ?thesis by (auto simp: win_Move_def term_win_def win_ok_def)
qed

lemma ScrollOneLine_ok:
  assumes "shown_ok t"
  shows "\<exists>t'. ScrollOneLine t = Some t' \<and> redrawn t t'"
proof -
  obtain t1 where t1: "with_win (win_Move (kTopLeftMargin + Vec 2 5)
      (Rect (kTopLeftMargin + Vec 2 (5 + 16)) (Vec (8 * kColumns) (16 * (kRows - 1))))) t = Some t1" "redrawn t t1"
    using with_win_redrawn [OF assms, of "win_Move (kTopLeftMargin + Vec 2 5)
      (Rect (kTopLeftMargin + Vec 2 (5 + 16)) (Vec (8 * kColumns) (16 * (kRows - 1))))"] move_term
    by (auto simp: kTopLeftMargin_def kColumns_def kRows_def)
  note s1 = redrawn_shown [OF assms t1(2)]
  obtain t2 where "with_win (FillRectangle InnerAreaWriter (Vec 2 (5 + 16 * cursor_y t1)) (Vec (8 * kColumns) 16)
      (px 0 0 0)) t1 = Some t2" "redrawn t1 t2"
    using with_win_redrawn [OF s1, of "FillRectangle InnerAreaWriter (Vec 2 (5 + 16 * cursor_y t1)) (Vec (8 * kColumns) 16) (px 0 0 0)"]
      fill_inner [of _ "Vec 2 (5 + 16 * cursor_y t1)" "Vec (8 * kColumns) 16"] s1
    by (auto simp: kColumns_def kRows_def shown_ok_def)
  with t1 show ?thesis by (auto simp: ScrollOneLine_def intro: redrawn_trans)
qed

section \<open>Where the text goes\<close>

text \<open>The cursor after a line feed and after a character; a character that does not fit starts a new line.\<close>

definition next_line :: "int \<times> int \<Rightarrow> int \<times> int" where
  "next_line p = (0, min (snd p + 1) (kRows - 1))"

definition advance :: "int \<times> int \<Rightarrow> u32 \<Rightarrow> int \<times> int" where
  "advance p c =
     (if c = 10 then next_line p
      else let n = (if IsHankaku c then 1 else 2); q = (if fst p + n > kColumns then next_line p else p)
           in (fst q + n, snd q))"

definition at_pos :: "int \<times> int \<Rightarrow> Terminal \<Rightarrow> Terminal" where
  "at_pos p t = t\<lparr>cursor_x := fst p, cursor_y := snd p\<rparr>"

definition pos_of :: "Terminal \<Rightarrow> int \<times> int" where
  "pos_of t = (cursor_x t, cursor_y t)"

lemma term_newline_ok:
  assumes "shown_ok t"
  shows "\<exists>t'. term_newline t = Some t' \<and> redrawn (at_pos (next_line (pos_of t)) t) t' \<and> shown_ok t'"
proof -
  have s: "shown_ok (t\<lparr>cursor_x := 0\<rparr>)" using assms by (auto simp: shown_ok_def kColumns_def)
  show ?thesis
  proof (cases "cursor_y t < kRows - 1")
    case True
    then have "term_newline t = Some (at_pos (next_line (pos_of t)) t)"
      by (simp add: term_newline_def next_line_def at_pos_def pos_of_def)
    moreover have "shown_ok (at_pos (next_line (pos_of t)) t)"
      using True assms by (auto simp: next_line_def at_pos_def pos_of_def shown_ok_def kColumns_def)
    ultimately show ?thesis using redrawn_refl by blast
  next
    case False
    then have y: "cursor_y t = kRows - 1" using assms by (simp add: shown_ok_def)
    from ScrollOneLine_ok [OF s] obtain t' where "ScrollOneLine (t\<lparr>cursor_x := 0\<rparr>) = Some t'"
      "redrawn (t\<lparr>cursor_x := 0\<rparr>) t'" by blast
    moreover have "at_pos (next_line (pos_of t)) t = t\<lparr>cursor_x := 0\<rparr>"
      using y by (cases t) (simp add: next_line_def at_pos_def pos_of_def)
    ultimately show ?thesis using y redrawn_shown [OF s] by (simp add: term_newline_def)
  qed
qed

text \<open>
  Writing outside the window is not checked, so the glyph of a character must not reach beyond the window from
  the cells at its edges: at most 4 pixels left of its cell, 32 above it, 24 to the right of its left edge and 21
  below its top.  It may reach beyond its cell of 16 by 16 pixels (an overline is a line above it).
  A character that the font does not have is replaced by question marks of the built-in font.
\<close>

definition glyph_fits :: "'f fonts \<Rightarrow> u32 \<Rightarrow> bool" where
  "glyph_fits fts c \<longleftrightarrow> IsHankaku c \<or>
     (case ft_new_face (freetype fts) 16 False of
        None \<Rightarrow> True
      | Some face \<Rightarrow>
          (case ft_render (freetype fts) face c of
             None \<Rightarrow> True
           | Some g \<Rightarrow>
               -4 \<le> bitmap_left g \<and> bitmap_left g + int (bitmap_width g) \<le> 24
             \<and> -32 \<le> glyph_baseline g - bitmap_top g \<and> glyph_baseline g - bitmap_top g + int (bitmap_rows g) \<le> 21))"

lemma draw_glyph_ok:
  assumes "term_win w" and "-4 \<le> bitmap_left g" "bitmap_left g + int (bitmap_width g) \<le> 24"
    "-32 \<le> glyph_baseline g - bitmap_top g" "glyph_baseline g - bitmap_top g + int (bitmap_rows g) \<le> 21"
    and "4 \<le> vx pos" "32 \<le> vy pos" "vx pos + 24 \<le> 492" "vy pos + 21 \<le> 325"
  shows "\<exists>w'. draw_glyph WindowWriter pos g color w = Some w' \<and> term_win w'"
proof -
  let ?tl = "pos + Vec (bitmap_left g) (glyph_baseline g - bitmap_top g)"
  let ?row = "\<lambda>dy. map (\<lambda>dx. ?tl + Vec (int dx) (int dy)) (filter (bitmap_bit g dy) [0..<bitmap_width g])"
  let ?qs = "concat (map ?row [0..<bitmap_rows g])"
  have eq: "draw_glyph WindowWriter pos g color w = for_each (\<lambda>q. pw_Write WindowWriter q color) ?qs w"
    unfolding draw_glyph_def Let_def for_each_concat [symmetric] for_each_map ..
  have "\<forall>q \<in> set ?qs. in_picture WindowWriter w q"
    using assms by (auto simp: in_picture_win in_win_def term_win_def)
  from tw.write_list [OF _ this, of color] assms(1) show ?thesis
    unfolding eq by (auto simp: term_win_def tw.painted_def writer_size)
qed

lemma WriteAscii_ok:
  assumes "term_win w" "c < 0x80" "2048 \<le> length font"
    and "0 \<le> vx pos" "0 \<le> vy pos" "vx pos + 8 \<le> 492" "vy pos + 16 \<le> 325"
  shows "\<exists>w'. WriteAscii font WindowWriter pos c color w = Some w' \<and> term_win w'"
  using tw.WriteAscii_in [of w c font pos color] term_rect [OF assms(1), of pos "Vec 8 16"] assms
  by (auto simp: term_win_def writer_size)

lemma write_unicode_ok:
  assumes "shown_ok t" and font: "2048 \<le> length (hankaku fts)" and fits: "glyph_fits fts c"
    and room: "cursor_x t + (if IsHankaku c then 1 else 2) \<le> kColumns"
  shows "\<exists>t'. write_unicode fts c t = Some t' \<and> redrawn t t'"
  unfolding write_unicode_def
proof (rule with_win_redrawn [OF assms(1)])
  fix w
  assume w: "term_win w"
  let ?pos = "CalcCursorPos t"
  have p: "0 \<le> vx ?pos" "0 \<le> vy ?pos" "vx ?pos + 8 \<le> 492" "vy ?pos + 16 \<le> 325"
    "4 \<le> vx ?pos" "32 \<le> vy ?pos" "vy ?pos + 21 \<le> 325" "\<not> IsHankaku c \<longrightarrow> vx ?pos + 24 \<le> 492"
    using assms(1) room by (auto simp: cursor_pos shown_ok_def kColumns_def kRows_def split: if_splits)
  have ascii: "\<exists>w'. WriteAscii (hankaku fts) WindowWriter q b kTerminalFGColor v = Some w' \<and> term_win w'"
    if "term_win v" "b < 0x80" "0 \<le> vx q" "0 \<le> vy q" "vx q + 8 \<le> 492" "vy q + 16 \<le> 325" for v b q
    using WriteAscii_ok [OF that(1,2) font that(3-6)] .
  show "\<exists>w'. map_option fst (WriteUnicode fts WindowWriter ?pos c kTerminalFGColor 16 False w) = Some w' \<and> term_win w'"
  proof (cases "IsHankaku c")
    case True
    then have "unat c \<le> 127" by (simp add: IsHankaku_def word_le_nat_alt)
    then have "(ucast c :: u8) < 0x80"
      by (simp add: word_less_nat_alt unsigned_ucast_eq take_bit_nat_eq_self)
    from ascii [OF w this p(1-4)] True show ?thesis by (auto simp: WriteUnicode_def IsHankaku_def)
  next
    case False
    have q: "\<exists>w' e. do { w \<leftarrow> WriteAscii (hankaku fts) WindowWriter ?pos 63 kTerminalFGColor w;
          w \<leftarrow> WriteAscii (hankaku fts) WindowWriter (?pos + Vec 8 0) 63 kTerminalFGColor w;
          Some (w, kFreeTypeError) } = Some (w', e) \<and> term_win w'"
    proof -
      obtain w1 where w1: "WriteAscii (hankaku fts) WindowWriter ?pos 63 kTerminalFGColor w = Some w1" "term_win w1"
        using ascii [OF w _ p(1-4), of 63] by auto
      obtain w2 where "WriteAscii (hankaku fts) WindowWriter (?pos + Vec 8 0) 63 kTerminalFGColor w1 = Some w2" "term_win w2"
        using ascii [OF w1(2), of 63 "?pos + Vec 8 0"] p False by auto
      with w1 show ?thesis by simp
    qed
    have g: "\<exists>w'. draw_glyph WindowWriter ?pos g kTerminalFGColor w = Some w' \<and> term_win w'"
      if "ft_new_face (freetype fts) 16 False = Some face" "ft_render (freetype fts) face c = Some g" for face g
      using draw_glyph_ok [OF w] p False fits that by (auto simp: glyph_fits_def)
    show ?thesis
      using False q g unfolding WriteUnicode_def Let_def NewFTFace_def IsHankaku_def
      by (fastforce split: option.splits)
  qed
qed

lemma Print_char_ok:
  assumes "shown_ok t" and font: "2048 \<le> length (hankaku fts)" and fits: "glyph_fits fts c"
  shows "\<exists>t'. Print_char fts c t = Some t' \<and> redrawn (at_pos (advance (pos_of t) c) t) t' \<and> shown_ok t'"
proof (cases "c = 10")
  case True
  with term_newline_ok [OF assms(1)] assms(1) show ?thesis
    by (auto simp: Print_char_def advance_def shown_ok_def)
next
  case False
  define n :: int where "n = (if IsHankaku c then 1 else 2)"
  have n: "0 \<le> n" "n \<le> kColumns" by (simp_all add: n_def kColumns_def)
  let ?q = "if cursor_x t + n > kColumns then next_line (pos_of t) else pos_of t"
  let ?full = "if IsHankaku c then cursor_x t = kColumns else cursor_x t \<ge> kColumns - 1"
  have full: "?full \<longleftrightarrow> cursor_x t + n > kColumns"
    using assms(1) by (auto simp: n_def shown_ok_def)
  have "\<exists>t1. (if ?full then term_newline t else Some t) = Some t1 \<and> redrawn (at_pos ?q t) t1 \<and> shown_ok t1
      \<and> cursor_x t1 + n \<le> kColumns"
  proof (cases ?full)
    case True
    from term_newline_ok [OF assms(1)] obtain t1 where t1: "term_newline t = Some t1"
      "redrawn (at_pos (next_line (pos_of t)) t) t1" "shown_ok t1" by blast
    then have "cursor_x t1 = 0" by (auto simp: redrawn_def at_pos_def next_line_def)
    with t1 True full n show ?thesis by simp
  next
    case False
    have "at_pos (pos_of t) t = t" by (cases t) (simp add: at_pos_def pos_of_def)
    with False full redrawn_refl [OF assms(1)] assms(1) show ?thesis by simp
  qed
  then obtain t1 where t1: "(if ?full then term_newline t else Some t) = Some t1" "redrawn (at_pos ?q t) t1"
    "shown_ok t1" "cursor_x t1 + n \<le> kColumns" by blast
  from write_unicode_ok [OF t1(3) font fits] t1(4) obtain t2 where
    t2: "write_unicode fts c t1 = Some t2" "redrawn t1 t2" by (auto simp: n_def)
  let ?t = "t2\<lparr>cursor_x := cursor_x t2 + n\<rparr>"
  have "shown_ok t2" by (rule redrawn_shown [OF t1(3) t2(2)])
  moreover have "cursor_x t2 = cursor_x t1" by (rule redrawn_fields(1) [OF t2(2)])
  ultimately have s: "shown_ok ?t" using t1(4) n by (simp add: shown_ok_def)
  have r: "redrawn (at_pos (advance (pos_of t) c) t) ?t"
  proof -
    obtain w where w: "t2 = (at_pos ?q t)\<lparr>win := Some w\<rparr>" "term_win w"
      using redrawn_trans [OF t1(2) t2(2)] by (auto simp: redrawn_def)
    have "advance (pos_of t) c = (fst ?q + n, snd ?q)"
      using False by (simp add: advance_def Let_def n_def pos_of_def)
    then have "?t = (at_pos (advance (pos_of t) c) t)\<lparr>win := Some w\<rparr>"
      unfolding w(1) by (cases t) (simp add: at_pos_def)
    with w(2) show ?thesis unfolding redrawn_def by blast
  qed
  have "Print_char fts c t = Some ?t"
    using False t1(1) t2(1) assms(1)
    by (cases "IsHankaku c") (simp_all add: Print_char_def shown_ok_def n_def)
  with s r show ?thesis by blast
qed

section \<open>Printing text\<close>

definition utf8s :: "u32 list \<Rightarrow> cstr" where
  "utf8s cl = concat (map utf8 cl)"

definition text_ok :: "'f fonts \<Rightarrow> u32 list \<Rightarrow> bool" where
  "text_ok fts cl \<longleftrightarrow> 2048 \<le> length (hankaku fts) \<and> (\<forall>c \<in> set cl. c \<noteq> 0 \<and> c < 0x110000 \<and> glyph_fits fts c)"

lemma utf8_starts: "c \<noteq> 0 \<Longrightarrow> \<exists>b bs. utf8 c = b # bs \<and> b \<noteq> 0"
proof (cases "c < 0x80")
  case True
  assume "c \<noteq> 0"
  moreover have "unat c < 128" using True by (simp add: word_less_nat_alt)
  then have "unat (ucast c :: u8) = unat c" by (simp add: unsigned_ucast_eq take_bit_nat_eq_self)
  ultimately have "(ucast c :: u8) \<noteq> 0" by (metis unat_0 unat_eq_zero)
  with True show ?thesis by (simp add: utf8_def)
qed (simp add: utf8_def Let_def or_eq_0_iff)

lemma str_at_pre: "str_at (pre @ b # s) (length pre) = Some b"
  by (simp add: str_at_def)

lemma print_loop_step:
  assumes "shown_ok t" and ok: "text_ok fts [c]" and "length pre < len"
  shows "\<exists>t'. print_loop fts (pre @ utf8 c @ s) len (length pre) t
      = print_loop fts (pre @ utf8 c @ s) len (length (pre @ utf8 c)) t'
    \<and> redrawn (at_pos (advance (pos_of t) c) t) t' \<and> shown_ok t'"
proof -
  have c: "c \<noteq> 0" "c < 0x110000" "2048 \<le> length (hankaku fts)" "glyph_fits fts c" using ok by (simp_all add: text_ok_def)
  obtain b bs where u: "utf8 c = b # bs" "b \<noteq> 0" using utf8_starts [OF c(1)] by blast
  have at: "str_at (pre @ utf8 c @ s) (length pre) = Some b" by (simp add: u str_at_pre)
  have d: "ConvertUTF8To32 (drop (length pre) (pre @ utf8 c @ s)) = Some (c, length (utf8 c))"
    using ConvertUTF8To32_utf8 [OF c(2)] by simp
  obtain t' where t': "Print_char fts c t = Some t'" "redrawn (at_pos (advance (pos_of t) c) t) t'" "shown_ok t'"
    using Print_char_ok [OF assms(1) c(3,4)] by blast
  have "print_loop fts (pre @ utf8 c @ s) len (length pre) t
      = print_loop fts (pre @ utf8 c @ s) len (length pre + length (utf8 c)) t'"
    by (subst print_loop.simps) (use assms(3) c(1) at d t'(1) u(2) in simp)
  with t'(2,3) show ?thesis by auto
qed

lemma at_pos_redrawn:
  assumes "redrawn (at_pos p t) t1" and "redrawn (at_pos q t1) t2"
  shows "redrawn (at_pos q t) t2"
  using assms by (auto simp: redrawn_def at_pos_def)

lemma print_loop_text:
  assumes "shown_ok t" and "text_ok fts cl" and "length (pre @ utf8s cl) \<le> len"
  shows "\<exists>t'. print_loop fts (pre @ utf8s cl @ s) len (length pre) t
      = print_loop fts (pre @ utf8s cl @ s) len (length (pre @ utf8s cl)) t'
    \<and> redrawn (at_pos (foldl advance (pos_of t) cl) t) t' \<and> shown_ok t'"
  using assms
proof (induction cl arbitrary: pre t)
  case Nil
  have "at_pos (pos_of t) t = t" by (cases t) (simp add: at_pos_def pos_of_def)
  with redrawn_refl [OF Nil(1)] Nil(1) show ?case by (auto simp: utf8s_def)
next
  case (Cons c cl)
  from Cons.prems(2) have c: "text_ok fts [c]" and cl: "text_ok fts cl" by (auto simp: text_ok_def)
  have u: "utf8s (c # cl) = utf8 c @ utf8s cl" by (simp add: utf8s_def)
  have "0 < length (utf8 c)" using utf8_starts [of c] c by (auto simp: text_ok_def)
  then have len: "length pre < len" using Cons.prems(3) unfolding u length_append by linarith
  obtain t1 where t1: "print_loop fts (pre @ utf8 c @ (utf8s cl @ s)) len (length pre) t
      = print_loop fts (pre @ utf8 c @ (utf8s cl @ s)) len (length (pre @ utf8 c)) t1"
    "redrawn (at_pos (advance (pos_of t) c) t) t1" "shown_ok t1"
    using print_loop_step [OF Cons.prems(1) c len] by blast
  have p: "pos_of t1 = advance (pos_of t) c" using t1(2) by (auto simp: redrawn_def at_pos_def pos_of_def)
  obtain t2 where "print_loop fts ((pre @ utf8 c) @ utf8s cl @ s) len (length (pre @ utf8 c)) t1
      = print_loop fts ((pre @ utf8 c) @ utf8s cl @ s) len (length ((pre @ utf8 c) @ utf8s cl)) t2"
    "redrawn (at_pos (foldl advance (pos_of t1) cl) t1) t2" "shown_ok t2"
    using Cons.IH [OF t1(3) cl, of "pre @ utf8 c"] Cons.prems(3) by (auto simp: u)
  with t1 p show ?case by (auto simp: u intro: at_pos_redrawn)
qed

text \<open>A byte that starts no character: the loop prints a white square and stays where it is.\<close>

lemma print_loop_stuck:
  assumes "CountUTF8Size b = 0" and "length pre < len"
  shows "print_loop fts (pre @ b # s) len (length pre) t = None"
proof (rule ccontr)
  assume "print_loop fts (pre @ b # s) len (length pre) t \<noteq> None"
  then obtain y where y: "print_loop fts (pre @ b # s) len (length pre) t = Some y" by blast
  have "\<not> (pre @ b # s = pre @ b # s \<and> len = len \<and> length pre = length pre)"
  proof (rule print_loop.raw_induct [OF _ y,
      where P = "\<lambda>fts s' len' i t y. \<not> (s' = pre @ b # s \<and> len' = len \<and> i = length pre)"])
    fix loop fts s' len' i t y
    assume IH: "\<And>fts s' len' i t y. loop fts s' len' i t = Some y \<Longrightarrow> \<not> (s' = pre @ b # s \<and> len' = len \<and> i = length pre)"
      and body: "do { c \<leftarrow> str_at s' i;
          if c \<noteq> 0 \<and> i < len' then do {
            (c, n) \<leftarrow> ConvertUTF8To32 (drop i s');
            t \<leftarrow> Print_char fts (if c \<noteq> 0 then c else white_square) t;
            loop fts s' len' (i + n) t }
          else Some t } = Some y"
    show "\<not> (s' = pre @ b # s \<and> len' = len \<and> i = length pre)"
    proof
      assume e: "s' = pre @ b # s \<and> len' = len \<and> i = length pre"
      have "b \<noteq> 0" using assms(1) by (auto simp: CountUTF8Size_def)
      moreover have "ConvertUTF8To32 (drop i s') = Some (0, 0)"
        using e assms(1) by (simp add: ConvertUTF8To32_def str_at_def)
      ultimately obtain t' where "loop fts s' len' (i + 0) t' = Some y"
        using body e assms(2) by (auto simp: str_at_pre bind_eq_Some_conv)
      then have "loop fts s' len' i t' = Some y" by simp
      from IH [OF this] e show False by simp
    qed
  qed
  then show False by simp
qed

lemma Print_text:
  assumes "shown_ok t" and "text_ok fts cl" and "length (utf8s cl) \<le> 2 ^ 64 - 1"
    and "\<And>a w. \<exists>w'. send a w = Some w'"
  shows "\<exists>w' t'. Print fts send (utf8s cl) None (w, t) = Some (w', t') \<and> shown_ok t'
    \<and> redrawn (at_pos (foldl advance (pos_of t) cl) t) t'
    \<and> send (Rect (Vec 2 (32 + 16 * cursor_y t)) (Vec 488 (16 * (cursor_y t' - cursor_y t) + 16))) w = Some w'"
proof -
  obtain t1 where t1: "DrawCursor False t = Some t1" "redrawn t t1" using DrawCursor_ok [OF assms(1)] by blast
  note s1 = redrawn_shown [OF assms(1) t1(2)]
  have p: "pos_of t1 = pos_of t" using redrawn_fields [OF t1(2)] by (simp add: pos_of_def)
  obtain t2 where t2: "print_loop fts (utf8s cl) (2 ^ 64 - 1) 0 t1
      = print_loop fts (utf8s cl) (2 ^ 64 - 1) (length (utf8s cl)) t2"
    "redrawn (at_pos (foldl advance (pos_of t) cl) t1) t2" "shown_ok t2"
    using print_loop_text [OF s1 assms(2), of "[]" "2 ^ 64 - 1" "[]"] assms(3) p by auto
  have fin: "print_loop fts (utf8s cl) (2 ^ 64 - 1) (length (utf8s cl)) t2 = Some t2"
    by (subst print_loop.simps) (simp add: str_at_def)
  obtain t3 where t3: "DrawCursor True t2 = Some t3" "redrawn t2 t3" using DrawCursor_ok [OF t2(3)] by blast
  note s3 = redrawn_shown [OF t2(3) t3(2)]
  then obtain v where v: "win t3 = Some v" "term_win v" by (auto simp: shown_ok_def)
  then have sz: "vx (InnerSize v) = 488"
    by (simp add: InnerSize_def term_win_def win_Size_def kTopLeftMargin_def kBottomRightMargin_def)
  let ?a = "Rect (Vec 2 (32 + 16 * cursor_y t)) (Vec 488 (16 * (cursor_y t3 - cursor_y t) + 16))"
  obtain w' where w': "send ?a w = Some w'" using assms(4) by blast
  have r: "redrawn (at_pos (foldl advance (pos_of t) cl) t) t3"
    using t1(2) t2(2) t3(2) by (auto simp: redrawn_def at_pos_def)
  have "Print fts send (utf8s cl) None (w, t) = Some (w', t3)"
    using t1(1) t2(1) fin t3(1) v(1) w' by (simp add: Print_def Let_def sz cursor_pos kTopLeftMargin_def algebra_simps)
  with s3 r w' show ?thesis by blast
qed

text \<open>ASCII text that fits in the line: its glyphs are written one after the other.\<close>

lemma write_ascii_inked:
  assumes "shown_ok t" "c < 0x80" "2048 \<le> length font" "cursor_x t < kColumns"
  shows "\<exists>t'. with_win (WriteAscii font WindowWriter (CalcCursorPos t) c kTerminalFGColor) t = Some t'
    \<and> inked (glyph_at font c (cell t (cursor_x t))) kTerminalFGColor t t'"
proof (rule with_win_inked [OF assms(1)])
  fix w assume w: "term_win w"
  have "\<forall>q. in_rect (Rect (CalcCursorPos t) (Vec 8 16)) q \<longrightarrow> in_picture WindowWriter w q"
    using assms(1,4) by (intro term_rect [OF w]) (auto simp: cursor_pos shown_ok_def kColumns_def kRows_def)
  then show "\<exists>w'. WriteAscii font WindowWriter (CalcCursorPos t) c kTerminalFGColor w = Some w'
      \<and> tw.painted (glyph_at font c (cell t (cursor_x t))) kTerminalFGColor w w'"
    using tw.WriteAscii_paints [of w c font "CalcCursorPos t"] w assms(2,3)
    by (simp add: term_win_def CalcCursorPos_cell)
qed

lemma ucast_ascii: "(c :: u32) < 0x80 \<Longrightarrow> (ucast c :: u8) < 0x80"
  by (simp add: word_less_nat_alt unsigned_ucast_eq take_bit_nat_eq_self)

lemma Print_char_ascii:
  assumes "shown_ok t" "c < 0x80" "c \<noteq> 10" "2048 \<le> length (hankaku fts)" "cursor_x t < kColumns"
  shows "\<exists>t1. Print_char fts c t = Some (t1\<lparr>cursor_x := cursor_x t1 + 1\<rparr>)
    \<and> inked (glyph_at (hankaku fts) (ucast c) (cell t (cursor_x t))) kTerminalFGColor t t1"
proof -
  obtain t1 where t1: "with_win (WriteAscii (hankaku fts) WindowWriter (CalcCursorPos t) (ucast c) kTerminalFGColor) t = Some t1"
    "inked (glyph_at (hankaku fts) (ucast c) (cell t (cursor_x t))) kTerminalFGColor t t1"
    using write_ascii_inked [OF assms(1) ucast_ascii [OF assms(2)] assms(4,5)] by blast
  have h: "IsHankaku c" "c \<le> 0x7f" using assms(2) by (simp_all add: IsHankaku_def word_less_nat_alt word_le_nat_alt)
  have "write_unicode fts c t = Some t1"
    using t1(1) h by (simp add: write_unicode_def with_win_def WriteUnicode_def bind_eq_Some_conv)
  with t1(2) h assms(1,3,5) show ?thesis by (auto simp: Print_char_def shown_ok_def)
qed

lemma print_loop_ascii:
  assumes "shown_ok t" and "2048 \<le> length (hankaku fts)" and "\<forall>c \<in> set cl. c \<noteq> 0 \<and> c \<noteq> 10 \<and> c < 0x80"
    and "cursor_x t + int (length cl) \<le> kColumns" and "length (pre @ utf8s cl) \<le> len"
  shows "\<exists>t'. print_loop fts (pre @ utf8s cl @ s) len (length pre) t
      = print_loop fts (pre @ utf8s cl @ s) len (length (pre @ utf8s cl)) t'
    \<and> (\<forall>q. in_term q \<longrightarrow> term_pixel q t' =
        (if text_at (hankaku fts) (map ucast cl) (cell t (cursor_x t)) q then Some kTerminalFGColor else term_pixel q t))"
  using assms
proof (induction cl arbitrary: pre t)
  case Nil
  then show ?case by (intro exI [of _ t]) (simp add: utf8s_def)
next
  case (Cons c cl)
  have c: "c \<noteq> 0" "c \<noteq> 10" "c < 0x80" and cl: "\<forall>c \<in> set cl. c \<noteq> 0 \<and> c \<noteq> 10 \<and> c < 0x80" using Cons.prems(3) by simp_all
  have x: "cursor_x t < kColumns" using Cons.prems(4) by simp
  obtain t1 where t1: "Print_char fts c t = Some (t1\<lparr>cursor_x := cursor_x t1 + 1\<rparr>)"
    "inked (glyph_at (hankaku fts) (ucast c) (cell t (cursor_x t))) kTerminalFGColor t t1"
    using Print_char_ascii [OF Cons.prems(1) c(3,2) Cons.prems(2) x] by blast
  let ?t = "t1\<lparr>cursor_x := cursor_x t1 + 1\<rparr>"
  note r = inked_redrawn [OF t1(2)]
  note f = redrawn_fields [OF r]
  have s1: "shown_ok ?t" using redrawn_shown [OF Cons.prems(1) r] f(1) x by (simp add: shown_ok_def)
  have y: "cell ?t = cell t" "cursor_x ?t = cursor_x t + 1" "term_pixel q ?t = term_pixel q t1" for q
    using f(1,2) by (simp_all add: cell_def fun_eq_iff term_pixel_def)
  have u: "utf8s (c # cl) = utf8 c @ utf8s cl" by (simp add: utf8s_def)
  obtain b bs where b: "utf8 c = b # bs" "b \<noteq> 0" using utf8_starts [OF c(1)] by blast
  have len: "length pre < len" using Cons.prems(5) unfolding u b(1) by simp
  have lt: "c < 0x110000" using c(3) by (simp add: word_less_nat_alt)
  have at: "str_at (pre @ utf8 c @ (utf8s cl @ s)) (length pre) = Some b" by (simp add: b(1) str_at_pre)
  have step: "print_loop fts (pre @ utf8 c @ (utf8s cl @ s)) len (length pre) t
      = print_loop fts (pre @ utf8 c @ (utf8s cl @ s)) len (length pre + length (utf8 c)) ?t"
    by (subst print_loop.simps) (use len at c(1) b(2) t1(1) ConvertUTF8To32_utf8 [OF lt, of "utf8s cl @ s"] in simp)
  have "cursor_x ?t + int (length cl) \<le> kColumns" "length ((pre @ utf8 c) @ utf8s cl) \<le> len"
    using Cons.prems(4,5) y(2) by (simp_all add: u)
  from Cons.IH [OF s1 Cons.prems(2) cl this] obtain t' where
    t': "print_loop fts ((pre @ utf8 c) @ utf8s cl @ s) len (length (pre @ utf8 c)) ?t
      = print_loop fts ((pre @ utf8 c) @ utf8s cl @ s) len (length ((pre @ utf8 c) @ utf8s cl)) t'"
    "\<forall>q. in_term q \<longrightarrow> term_pixel q t' =
        (if text_at (hankaku fts) (map ucast cl) (cell t (cursor_x t + 1)) q then Some kTerminalFGColor else term_pixel q t1)"
    unfolding y by blast
  have "cell t (cursor_x t) + Vec 8 0 = cell t (cursor_x t + 1)" by (simp add: cell_def vec_eq_iff)
  then have "\<forall>q. in_term q \<longrightarrow> term_pixel q t' =
      (if text_at (hankaku fts) (map ucast (c # cl)) (cell t (cursor_x t)) q then Some kTerminalFGColor else term_pixel q t)"
    using t'(2) inked_pixel [OF t1(2)] unfolding list.map(2) text_at_Cons by simp
  moreover have "print_loop fts (pre @ utf8s (c # cl) @ s) len (length pre) t
      = print_loop fts (pre @ utf8s (c # cl) @ s) len (length (pre @ utf8s (c # cl))) t'"
    using step t'(1) by (simp add: u)
  ultimately show ?case by blast
qed

text \<open>The window after text that stays in its line: the glyphs, and the cursor behind them.\<close>

definition printed_pixel :: "u8 list \<Rightarrow> u8 list \<Rightarrow> Terminal \<Rightarrow> Vector2D \<Rightarrow> PixelColor option" where
  "printed_pixel font s t q =
     (if cursor_block (cell t (cursor_x t + int (length s))) q then Some kTerminalFGColor
      else if text_at font s (cell t (cursor_x t)) q then Some kTerminalFGColor
      else if cursor_block (cell t (cursor_x t)) q then Some kTerminalBGColor
      else term_pixel q t)"

lemma Print_ascii:
  assumes "shown_ok t" and ok: "text_ok fts cl" and "length (utf8s cl) \<le> 2 ^ 64 - 1"
    and one: "\<forall>c \<in> set cl. c < 0x80 \<and> c \<noteq> 10" "cursor_x t + int (length cl) \<le> kColumns"
    and run: "Print fts send (utf8s cl) None (w, t) = Some (w', t')"
    and at: "pos_of t' = foldl advance (pos_of t) cl" and q: "in_term q"
  shows "term_pixel q t' = printed_pixel (hankaku fts) (map ucast cl) t q"
proof -
  obtain t1 where t1: "DrawCursor False t = Some t1"
    "inked (cursor_block (cell t (cursor_x t))) kTerminalBGColor t t1"
    using DrawCursor_inked [OF assms(1), of False] by auto
  note s1 = redrawn_shown [OF assms(1) inked_redrawn [OF t1(2)]] and f1 = redrawn_fields [OF inked_redrawn [OF t1(2)]]
  have ascii: "\<forall>c \<in> set cl. c \<noteq> 0 \<and> c \<noteq> 10 \<and> c < 0x80" "2048 \<le> length (hankaku fts)"
    using one(1) ok by (auto simp: text_ok_def)
  have c1: "cell t1 = cell t" by (rule cell_same [OF f1(2)])
  obtain t2 where t2: "print_loop fts (utf8s cl) (2 ^ 64 - 1) 0 t1
      = print_loop fts (utf8s cl) (2 ^ 64 - 1) (length (utf8s cl)) t2"
    "\<forall>q. in_term q \<longrightarrow> term_pixel q t2 =
        (if text_at (hankaku fts) (map ucast cl) (cell t (cursor_x t)) q then Some kTerminalFGColor else term_pixel q t1)"
    using print_loop_ascii [OF s1 ascii(2,1), of "[]" "2 ^ 64 - 1" "[]"] assms(3) one(2) c1 by (auto simp: f1(1))
  obtain t3 where "print_loop fts (utf8s cl) (2 ^ 64 - 1) 0 t1
      = print_loop fts (utf8s cl) (2 ^ 64 - 1) (length (utf8s cl)) t3" "shown_ok t3"
    using print_loop_text [OF s1 ok, of "[]" "2 ^ 64 - 1" "[]"] assms(3) by auto
  moreover have fin: "print_loop fts (utf8s cl) (2 ^ 64 - 1) (length (utf8s cl)) u = Some u" for u
    by (subst print_loop.simps) (simp add: str_at_def)
  ultimately have s2: "shown_ok t2" using t2(1) by simp
  obtain t4 where t4: "DrawCursor True t2 = Some t4" "inked (cursor_block (cell t2 (cursor_x t2))) kTerminalFGColor t2 t4"
    using DrawCursor_inked [OF s2, of True] by auto
  have "t' = t4"
    using run t1(1) t2(1) fin t4(1) by (auto simp: Print_def Let_def bind_eq_Some_conv)
  moreover have "foldl advance p cl = (fst p + int (length cl), snd p)" if "fst p + int (length cl) \<le> kColumns" for p
    using that one(1)
  proof (induction cl arbitrary: p)
    case (Cons c cl)
    then have "advance p c = (fst p + 1, snd p)"
      by (simp add: advance_def IsHankaku_def word_less_nat_alt word_le_nat_alt)
    with Cons show ?case by simp
  qed simp
  ultimately have "pos_of t2 = (cursor_x t + int (length cl), cursor_y t)"
    using at one(2) redrawn_fields(1,2) [OF inked_redrawn [OF t4(2)]] by (simp add: pos_of_def)
  then have "cell t2 (cursor_x t2) = cell t (cursor_x t + int (length cl))" using cell_same [of t2 t] by (simp add: pos_of_def)
  then show ?thesis
    using inked_pixel [OF t4(2) q] t2(2) inked_pixel [OF t1(2) q] q \<open>t' = t4\<close> by (simp add: printed_pixel_def)
qed

text \<open>
  C23: printing to a terminal.  Text in UTF-8 whose glyphs do not reach beyond the window (\<open>glyph_fits\<close>) is printed
  to its end, the window is never left, and the
  cursor ends where the layout of the text puts it: a line feed or a character that does not fit the
  60 columns starts a new line, the last line scrolls, an ASCII character takes one column and
  another one two; the area that is redrawn spans the lines from the old cursor to the new.  After
  ASCII text that stays in its line the window shows exactly its glyphs and the cursor behind them, the other
  pixels are as before.  At a
  byte that cannot start a character (\<^verbatim>\<open>0x80\<close> to \<^verbatim>\<open>0xbf\<close>, \<^verbatim>\<open>0xf8\<close> to \<^verbatim>\<open>0xff\<close>) printing never ends.
\<close>

theorem terminal_prints_text:
  assumes "shown_ok t" and "text_ok fts cl" and "length (utf8s cl) < 2 ^ 64 - 1"
    and "\<And>a w. \<exists>w'. send a w = Some w'"
  shows "\<exists>w' t'. Print fts send (utf8s cl) None (w, t) = Some (w', t') \<and> shown_ok t'
    \<and> pos_of t' = foldl advance (pos_of t) cl
    \<and> send (Rect (Vec 2 (32 + 16 * cursor_y t)) (Vec 488 (16 * (cursor_y t' - cursor_y t) + 16))) w = Some w'
    \<and> ((\<forall>c \<in> set cl. c < 0x80 \<and> c \<noteq> 10) \<and> cursor_x t + int (length cl) \<le> kColumns \<longrightarrow>
        (\<forall>q. in_term q \<longrightarrow> term_pixel q t' = printed_pixel (hankaku fts) (map ucast cl) t q))
    \<and> (\<forall>b s. CountUTF8Size b = 0 \<longrightarrow> Print fts send (utf8s cl @ b # s) None (w, t) = None)"
proof -
  have "Print fts send (utf8s cl @ b # s) None (w, t) = None" if b: "CountUTF8Size b = 0" for b s
  proof -
    obtain t1 where t1: "DrawCursor False t = Some t1" "redrawn t t1" using DrawCursor_ok [OF assms(1)] by blast
    note s1 = redrawn_shown [OF assms(1) t1(2)]
    from print_loop_text [OF s1 assms(2), of "[]" "2 ^ 64 - 1" "b # s"] assms(3) obtain t2 where
      "print_loop fts (utf8s cl @ b # s) (2 ^ 64 - 1) 0 t1
        = print_loop fts (utf8s cl @ b # s) (2 ^ 64 - 1) (length (utf8s cl)) t2" by auto
    with print_loop_stuck [OF b assms(3), of fts s t2] t1(1) show ?thesis by (simp add: Print_def)
  qed
  moreover obtain w' t' where run: "Print fts send (utf8s cl) None (w, t) = Some (w', t')" and t': "shown_ok t'"
    "redrawn (at_pos (foldl advance (pos_of t) cl) t) t'"
    "send (Rect (Vec 2 (32 + 16 * cursor_y t)) (Vec 488 (16 * (cursor_y t' - cursor_y t) + 16))) w = Some w'"
    using Print_text [where send = send, OF assms(1,2) less_imp_le [OF assms(3)] assms(4)] by blast
  moreover have pos: "pos_of t' = foldl advance (pos_of t) cl" using t'(2) by (auto simp: redrawn_def at_pos_def pos_of_def)
  moreover have "term_pixel q t' = printed_pixel (hankaku fts) (map ucast cl) t q"
    if "\<forall>c \<in> set cl. c < 0x80 \<and> c \<noteq> 10" "cursor_x t + int (length cl) \<le> kColumns" "in_term q" for q
    using Print_ascii [OF assms(1,2) less_imp_le [OF assms(3)] that(1,2) run pos that(3)] .
  ultimately show ?thesis by blast
qed

definition term_example :: "Window \<Rightarrow> Terminal" where
  "term_example v = \<lparr>show_window = True, win = Some v, cursor_x = 0, cursor_y = 17, cursor_visible = False,
     linebuf_index = 0, linebuf = replicate 128 0, cmd_history = replicate 8 (replicate 128 0),
     cmd_history_index = -1, term_files = [0, 0, 0], last_exit_code = 0\<rparr>"

lemma term_window_exists:
  obtains v where "Window_init 492 325 kPixelRGBResv8BitPerColor = Some v" "term_win v"
  using Window_init_good [of 492 325 kPixelRGBResv8BitPerColor] by (auto simp: term_win_def win_good_def)

lemma blank_fonts_font: "2048 \<le> length (hankaku blank_fonts)"
  by (simp add: blank_fonts_def)

text \<open>A font with outline glyphs 16 pixels wide that start in the line of pixels above their cell, as an overline does.\<close>

definition outline_fonts :: "unit fonts" where
  "outline_fonts = blank_fonts\<lparr>freetype := \<lparr>ft_new_face = \<lambda>_ _. Some (), ft_render = \<lambda>_ _.
     Some \<lparr>bitmap_left = 0, bitmap_top = 15, bitmap_rows = 2, bitmap_width = 16, bitmap_bit = (\<lambda>_ _. True), glyph_baseline = 14\<rparr>\<rparr>\<rparr>"

theorem terminal_prints_text_witness:
  "\<exists>v t'. Window_init 492 325 kPixelRGBResv8BitPerColor = Some v
     \<and> Print outline_fonts (\<lambda>a w. Some (a # w)) (utf8s [65, 0x203e, 10, 66]) None ([], term_example v)
         = Some ([Rect (Vec 2 304) (Vec 488 16)], t') \<and> pos_of t' = (1, 17)"
proof -
  obtain v where v: "Window_init 492 325 kPixelRGBResv8BitPerColor = Some v" "term_win v" by (rule term_window_exists)
  let ?cl = "[65, 0x203e, 10, 66] :: u32 list"
  have s: "shown_ok (term_example v)" using v(2) by (simp add: shown_ok_def term_example_def kColumns_def kRows_def)
  have cl: "text_ok outline_fonts ?cl" "length (utf8s ?cl) < 2 ^ 64 - 1"
    by (simp_all add: text_ok_def outline_fonts_def blank_fonts_def glyph_fits_def utf8s_def utf8_def Let_def)
  have p: "foldl advance (pos_of (term_example v)) ?cl = (1, 17)" "cursor_y (term_example v) = 17"
    by (simp_all add: advance_def next_line_def pos_of_def term_example_def IsHankaku_def kColumns_def kRows_def)
  show ?thesis
    using terminal_prints_text [OF s cl, of "\<lambda>a w. Some (a # w)" "[]"] v(1) p
    by (auto simp: pos_of_def)
qed

section \<open>The editor as the user sees it\<close>

text \<open>The line, the history and the line of it that is shown (-1: none), and the column of the cursor.\<close>

record editor =
  ed_line :: "u8 list"
  ed_history :: "u8 list list"
  ed_pos :: int
  ed_col :: int

definition recall :: "int \<Rightarrow> editor \<Rightarrow> editor" where
  "recall p e = (let l = (if 0 \<le> p then ed_history e ! nat p else [])
     in e\<lparr>ed_pos := p, ed_line := l, ed_col := int (length l) + 1\<rparr>)"

text \<open>Every key but the enter key; the enter key, when the prompt after the output ends before column \<open>col\<close>.\<close>

definition ed_key :: "u8 \<Rightarrow> u8 \<Rightarrow> editor \<Rightarrow> editor" where
  "ed_key code c e =
     (if c = 8 then if 1 < ed_col e then e\<lparr>ed_line := butlast (ed_line e), ed_col := ed_col e - 1\<rparr> else e
      else if c \<noteq> 0 then if ed_col e < 59 then e\<lparr>ed_line := ed_line e @ [c], ed_col := ed_col e + 1\<rparr> else e
      else if code = 0x51 then recall (if 0 \<le> ed_pos e then ed_pos e - 1 else ed_pos e) e
      else if code = 0x52 then recall (if ed_pos e < 7 then ed_pos e + 1 else ed_pos e) e
      else e)"

definition ed_enter :: "int \<Rightarrow> editor \<Rightarrow> editor" where
  "ed_enter col e = e\<lparr>ed_line := [], ed_pos := -1, ed_col := col,
     ed_history := if ed_line e \<noteq> [] then ed_line e # butlast (ed_history e) else ed_history e\<rparr>"

text \<open>
  What a key draws in the terminal's window: \<open>pos\<close> is the cell of a column in the line of the cursor, \<open>old\<close> the
  colour of the pixel before.  The cursor is erased, then the key is handled, then the cursor is drawn.
\<close>

definition key_drawn :: "u8 list \<Rightarrow> (int \<Rightarrow> Vector2D) \<Rightarrow> u8 \<Rightarrow> u8 \<Rightarrow> editor \<Rightarrow> Vector2D \<Rightarrow> PixelColor option \<Rightarrow> PixelColor option" where
  "key_drawn font pos code c e q old =
     (if c = 8 then
        if 1 < ed_col e \<and> in_rect (Rect (pos (ed_col e - 1)) (Vec 8 16)) q then Some kTerminalBGColor else old
      else if c \<noteq> 0 then
        if ed_col e < 59 \<and> glyph_at font c (pos (ed_col e)) q then Some kTerminalFGColor else old
      else if code = 0x51 \<or> code = 0x52 then
        if text_at font (ed_line (ed_key code c e)) (pos 1) q then Some kTerminalFGColor
        else if in_rect (Rect (pos 1) (Vec (8 * 59) 16)) q then Some kTerminalBGColor else old
      else old)"

definition typed_pixel :: "u8 list \<Rightarrow> (int \<Rightarrow> Vector2D) \<Rightarrow> u8 \<Rightarrow> u8 \<Rightarrow> editor \<Rightarrow> Vector2D \<Rightarrow> PixelColor option \<Rightarrow> PixelColor option" where
  "typed_pixel font pos code c e q old =
     (if cursor_block (pos (ed_col (ed_key code c e))) q then Some kTerminalFGColor
      else key_drawn font pos code c e q (if cursor_block (pos (ed_col e)) q then Some kTerminalBGColor else old))"

text \<open>The area that a key asks to be redrawn.\<close>

definition key_area :: "(int \<Rightarrow> Vector2D) \<Rightarrow> u8 \<Rightarrow> u8 \<Rightarrow> editor \<Rightarrow> Rectangle" where
  "key_area pos code c e =
     (if c = 8 \<and> 1 < ed_col e then Rect (pos (ed_col e - 1)) (Vec (8 * 2) 16)
      else if c = 0 \<and> (code = 0x51 \<or> code = 0x52) then Rect (pos 1) (Vec (8 * 59) 16)
      else Rect (pos (ed_col e)) (Vec (8 * 2) 16))"

text \<open>A line of the editor, and an array of the history that holds it.\<close>

definition line_ok :: "u8 list \<Rightarrow> bool" where
  "line_ok l \<longleftrightarrow> length l \<le> 58 \<and> 0 \<notin> set l \<and> (\<forall>c \<in> set l. c < 0x80)"

definition holds_line :: "u8 list \<Rightarrow> u8 list \<Rightarrow> bool" where
  "holds_line a l \<longleftrightarrow> length a = kLineMax \<and> array_str a = Some l \<and> line_ok l"

text \<open>
  The terminal and the editor.  The line stands somewhere left of the cursor and right of column 0, directly
  behind the prompt when the output before it ended with a line feed.
\<close>

definition edits :: "Terminal \<Rightarrow> editor \<Rightarrow> bool" where
  "edits t e \<longleftrightarrow> shown_ok t \<and> length (linebuf t) = kLineMax \<and> line_ok (ed_line e)
     \<and> linebuf_index t = length (ed_line e) \<and> take (length (ed_line e)) (linebuf t) = ed_line e
     \<and> cursor_x t = ed_col e \<and> int (length (ed_line e)) < ed_col e
     \<and> list_all2 holds_line (cmd_history t) (ed_history e) \<and> length (ed_history e) = 8
     \<and> cmd_history_index t = ed_pos e \<and> -1 \<le> ed_pos e \<and> ed_pos e < 8"

lemma array_str_line: "0 \<notin> set l \<Longrightarrow> array_str (l @ 0 # r) = Some l"
  by (induction l) (auto simp: array_str_def)

lemma edits_redrawn: "edits t e \<Longrightarrow> redrawn t t' \<Longrightarrow> edits t' e"
  using redrawn_shown [of t t'] redrawn_fields [of t t'] by (auto simp: edits_def)

text \<open>What handling a key, between erasing and drawing the cursor, does.\<close>

definition handled :: "u8 list \<Rightarrow> u8 \<Rightarrow> u8 \<Rightarrow> editor \<Rightarrow> Terminal \<Rightarrow> Terminal \<Rightarrow> bool" where
  "handled font code c e t t' \<longleftrightarrow> edits t' (ed_key code c e) \<and> cursor_y t' = cursor_y t
     \<and> (\<forall>q. in_term q \<longrightarrow> term_pixel q t' = key_drawn font (cell t) code c e q (term_pixel q t))"

lemma key_char:
  assumes E: "edits t1 e" and font: "2048 \<le> length (hankaku fts)" and "c \<noteq> 0" "c \<noteq> 8" "c \<noteq> 10" "c < 0x80"
  shows "\<exists>t2. handle_key fts send exec code c (w, t1) = Some (w, t2, key_area (cell t1) code c e)
    \<and> handled (hankaku fts) code c e t1 t2"
proof (cases "ed_col e < 59")
  case False
  then show ?thesis using E assms(3-5)
    by (auto simp: edits_def ed_key_def handle_key_def kColumns_def Let_def key_area_def CalcCursorPos_cell handled_def key_drawn_def)
next
  case True
  let ?n = "length (ed_line e)" let ?e = "ed_key code c e"
  let ?t = "t1\<lparr>linebuf := (linebuf t1)[?n := c], linebuf_index := ?n + 1\<rparr>"
  have n: "linebuf_index t1 = ?n" "length (linebuf t1) = 128" "take ?n (linebuf t1) = ed_line e" and s: "shown_ok t1"
    and len: "?n < 58" "cursor_x t1 = ed_col e"
    using E True by (simp_all add: edits_def kLineMax_def)
  have s': "shown_ok ?t" using s by (simp add: shown_ok_def)
  have "cursor_x ?t < kColumns" using len True by (simp add: kColumns_def)
  from write_ascii_inked [OF s' assms(6) font this] obtain t2 where
    t2: "with_win (WriteAscii (hankaku fts) WindowWriter (CalcCursorPos ?t) c kTerminalFGColor) ?t = Some t2"
      "inked (glyph_at (hankaku fts) c (cell ?t (cursor_x ?t))) kTerminalFGColor ?t t2" by blast
  note r2 = inked_redrawn [OF t2(2)]
  note f2 = redrawn_fields [OF r2]
  have "take (?n + 1) ((linebuf t1)[?n := c]) = ed_line e @ [c]"
    using n len by (simp add: take_Suc_conv_app_nth)
  then have "edits (t2\<lparr>cursor_x := cursor_x t2 + 1\<rparr>) ?e"
    using E True n len assms(3-6) redrawn_shown [OF s' r2] f2
    by (simp add: edits_def ed_key_def line_ok_def shown_ok_def kColumns_def)
  moreover have "term_pixel q (t2\<lparr>cursor_x := cursor_x t2 + 1\<rparr>) = key_drawn (hankaku fts) (cell t1) code c e q (term_pixel q t1)"
    if "in_term q" for q
    using inked_pixel [OF t2(2) that] assms(3,4) True len(2) by (simp add: key_drawn_def)
  ultimately have "handled (hankaku fts) code c e t1 (t2\<lparr>cursor_x := cursor_x t2 + 1\<rparr>)"
    using f2(2) by (simp add: handled_def)
  moreover have "cursor_x t1 < kColumns - 1 \<and> linebuf_index t1 < kLineMax - 1"
    using True len n(1) by (simp add: kColumns_def kLineMax_def)
  moreover have "arr_set (linebuf t1) (linebuf_index t1) c = Some ((linebuf t1)[?n := c])"
    using n len by simp
  moreover have "key_area (cell t1) code c e = Rect (CalcCursorPos t1) (Vec (8 * 2) 16)"
    using assms(3,4) len(2) by (simp add: key_area_def CalcCursorPos_cell)
  ultimately show ?thesis using t2(1) n(1) s' assms(3-5) by (simp add: handle_key_def Let_def shown_ok_def)
qed

lemma key_back:
  assumes E: "edits t1 e"
  shows "\<exists>t2. handle_key fts send exec code 8 (w, t1) = Some (w, t2, key_area (cell t1) code 8 e)
    \<and> handled font code 8 e t1 t2"
proof (cases "1 < ed_col e")
  case False
  then show ?thesis using E
    by (auto simp: edits_def ed_key_def handle_key_def Let_def key_area_def CalcCursorPos_cell handled_def key_drawn_def)
next
  case True
  let ?t = "t1\<lparr>cursor_x := cursor_x t1 - 1\<rparr>" and ?n = "length (ed_line e)" let ?e = "ed_key code 8 e"
  have n: "cursor_x t1 = ed_col e" "take ?n (linebuf t1) = ed_line e" "length (linebuf t1) = 128" "?n \<le> 58" "ed_col e \<le> 60"
    "linebuf_index t1 = ?n" using E by (auto simp: edits_def kLineMax_def line_ok_def shown_ok_def kColumns_def)
  have s: "shown_ok ?t" using E True n by (auto simp: edits_def shown_ok_def)
  have p: "CalcCursorPos ?t = cell t1 (ed_col e - 1)" using n(1) by (simp add: CalcCursorPos_cell cell_def)
  have "0 \<le> vx (CalcCursorPos ?t)" "0 \<le> vy (CalcCursorPos ?t)" "vx (CalcCursorPos ?t) + vx (Vec 8 16) \<le> 492"
    "vy (CalcCursorPos ?t) + vy (Vec 8 16) \<le> 325"
    using s n(1,5) True by (simp_all add: cursor_pos shown_ok_def kRows_def kColumns_def)
  from fill_inked [OF s this, of kTerminalBGColor] obtain t2 where
    t2: "with_win (FillRectangle WindowWriter (CalcCursorPos ?t) (Vec 8 16) kTerminalBGColor) ?t = Some t2"
      "inked (in_rect (Rect (CalcCursorPos ?t) (Vec 8 16))) kTerminalBGColor ?t t2" by blast
  note r2 = inked_redrawn [OF t2(2)]
  note f2 = redrawn_fields [OF r2]
  have "take (?n - 1) (linebuf t1) = take (?n - 1) (take ?n (linebuf t1))" by (simp add: min_def)
  then have "take (?n - 1) (linebuf t1) = butlast (ed_line e)" unfolding n(2) by (simp add: butlast_conv_take)
  moreover have "x \<in> set (butlast (ed_line e)) \<Longrightarrow> x \<in> set (ed_line e)" for x by (rule in_set_butlastD)
  ultimately have "edits (t2\<lparr>linebuf_index := linebuf_index t2 - 1\<rparr>) ?e"
    using E redrawn_shown [OF s r2] f2 True n
    by (auto simp: edits_def ed_key_def shown_ok_def line_ok_def)
  moreover have "term_pixel q (t2\<lparr>linebuf_index := linebuf_index t2 - 1\<rparr>) = key_drawn font (cell t1) code 8 e q (term_pixel q t1)"
    if "in_term q" for q
    using inked_pixel [OF t2(2) that] True unfolding p by (simp add: key_drawn_def)
  ultimately have "handled font code 8 e t1 (t2\<lparr>linebuf_index := linebuf_index t2 - 1\<rparr>)"
    using f2(2) by (simp add: handled_def)
  moreover have "key_area (cell t1) code 8 e = Rect (CalcCursorPos (t2\<lparr>linebuf_index := linebuf_index t2 - 1\<rparr>)) (Vec (8 * 2) 16)"
    using True f2(1,2) n(1) by (simp add: key_area_def CalcCursorPos_cell cell_def)
  moreover have "cursor_x t1 > 1" using True n(1) by simp
  ultimately show ?thesis using t2(1) s by (simp add: shown_ok_def handle_key_def Let_def CalcCursorPos_cell)
qed

lemma write_line_inked:
  assumes "shown_ok t" "line_ok h" "2048 \<le> length (hankaku fts)" "cursor_x t = 1"
  shows "\<exists>t'. with_win (WriteString fts WindowWriter (CalcCursorPos t) h kTerminalFGColor) t = Some t'
    \<and> inked (text_at (hankaku fts) h (cell t 1)) kTerminalFGColor t t'"
proof (rule with_win_inked [OF assms(1)])
  fix w assume w: "term_win w"
  let ?pos = "CalcCursorPos t"
  have "\<forall>q. in_rect (Rect (?pos + Vec (8 * 0) 0) (Vec (8 * int (length h)) 16)) q \<longrightarrow> in_picture WindowWriter w q"
    using assms by (intro term_rect [OF w]) (auto simp: cursor_pos shown_ok_def kRows_def line_ok_def)
  moreover have "\<forall>c \<in> set h. c < 0x80" using assms(2) by (simp add: line_ok_def)
  ultimately obtain w' where "string_loop fts WindowWriter ?pos (h @ []) kTerminalFGColor 0 w
      = string_loop fts WindowWriter ?pos [] kTerminalFGColor (0 + int (length h)) w'"
    "tw.painted (text_at (hankaku fts) h (?pos + Vec (8 * 0) 0)) kTerminalFGColor w w'"
    using tw.string_loop_paints [of w h fts ?pos 0 "[]" kTerminalFGColor] w assms(3) unfolding term_win_def by blast
  moreover have "?pos + Vec (8 * 0) 0 = cell t 1" using assms(4) by (simp add: CalcCursorPos_cell vec_eq_iff)
  ultimately show "\<exists>w'. WriteString fts WindowWriter ?pos h kTerminalFGColor w = Some w'
      \<and> tw.painted (text_at (hankaku fts) h (cell t 1)) kTerminalFGColor w w'"
    by (auto simp: WriteString_def string_loop.simps [of _ _ _ "[]"])
qed

lemma recall_ok:
  assumes E: "edits t e" and font: "2048 \<le> length (hankaku fts)" and p: "-1 \<le> p" "p < 8"
    and t1: "t1 = t\<lparr>cmd_history_index := p, cursor_x := 1\<rparr>"
  shows "\<exists>t'. do {
     t \<leftarrow> with_win (FillRectangle WindowWriter (CalcCursorPos t1) (Vec (8 * (kColumns - 1)) 16) kTerminalBGColor) t1;
     history \<leftarrow> (if cmd_history_index t \<ge> 0
                 then do { a \<leftarrow> arr_get (cmd_history t) (nat (cmd_history_index t)); array_str a }
                 else Some []);
     if length history < length (linebuf t) then do {
       let t = t\<lparr>linebuf := overwrite 0 (history @ [0]) (linebuf t), linebuf_index := length history\<rparr>;
       t \<leftarrow> with_win (WriteString fts WindowWriter (CalcCursorPos t1) history kTerminalFGColor) t;
       Some (t\<lparr>cursor_x := int (linebuf_index t) + 1\<rparr>, Rect (CalcCursorPos t1) (Vec (8 * (kColumns - 1)) 16))
     } else None } = Some (t', Rect (cell t 1) (Vec (8 * 59) 16)) \<and> edits t' (recall p e) \<and> cursor_y t' = cursor_y t
     \<and> (\<forall>q. in_term q \<longrightarrow> term_pixel q t' =
          (if text_at (hankaku fts) (ed_line (recall p e)) (cell t 1) q then Some kTerminalFGColor
           else if in_rect (Rect (cell t 1) (Vec (8 * 59) 16)) q then Some kTerminalBGColor else term_pixel q t))"
proof -
  let ?pos = "CalcCursorPos t1" and ?all = "Vec (8 * (kColumns - 1)) 16"
  have s1: "shown_ok t1" using E by (auto simp: t1 edits_def shown_ok_def kColumns_def)
  have pos: "?pos = cell t 1" "?all = Vec (8 * 59) 16" by (simp_all add: CalcCursorPos_cell t1 kColumns_def)
  have same1: "cell t1 = cell t" "term_pixel q t1 = term_pixel q t" for q by (simp_all add: t1)
  have "0 \<le> vx ?pos" "0 \<le> vy ?pos" "vx ?pos + vx ?all \<le> 492" "vy ?pos + vy ?all \<le> 325"
    using s1 by (auto simp: cursor_pos t1 shown_ok_def kRows_def kColumns_def)
  from fill_inked [OF s1 this, of kTerminalBGColor] obtain t2 where
    t2: "with_win (FillRectangle WindowWriter ?pos ?all kTerminalBGColor) t1 = Some t2"
      "inked (in_rect (Rect ?pos ?all)) kTerminalBGColor t1 t2" by blast
  note f2 = redrawn_fields [OF inked_redrawn [OF t2(2)]] and s2 = redrawn_shown [OF s1 inked_redrawn [OF t2(2)]]
  define h where "h = (if 0 \<le> p then ed_history e ! nat p else [])"
  have hl: "list_all2 holds_line (cmd_history t) (ed_history e)" "length (ed_history e) = 8" using E by (simp_all add: edits_def)
  have "line_ok h \<and> (if p \<ge> 0 then do { a \<leftarrow> arr_get (cmd_history t) (nat p); array_str a } else Some []) = Some h"
  proof (cases "0 \<le> p")
    case True
    then have "nat p < length (ed_history e)" using hl p by simp
    with hl(1) have "holds_line (cmd_history t ! nat p) (ed_history e ! nat p)" "nat p < length (cmd_history t)"
      by (auto simp: list_all2_conv_all_nth)
    with True show ?thesis by (simp add: h_def holds_line_def)
  qed (simp add: h_def line_ok_def)
  then have h: "line_ok h" and get: "(if cmd_history_index t2 \<ge> 0 then do {
      a \<leftarrow> arr_get (cmd_history t2) (nat (cmd_history_index t2)); array_str a } else Some []) = Some h"
    using f2 by (auto simp: t1 split: if_splits)
  have len: "length h \<le> 58" "length (linebuf t2) = 128" using h E f2 by (simp_all add: line_ok_def edits_def t1 kLineMax_def)
  let ?t = "t2\<lparr>linebuf := overwrite 0 (h @ [0]) (linebuf t2), linebuf_index := length h\<rparr>"
  have s': "shown_ok ?t" using s2 by (simp add: shown_ok_def)
  have x: "cursor_x ?t = 1" using f2(1) by (simp add: t1)
  have at: "CalcCursorPos ?t = ?pos" "cell ?t 1 = cell t 1" using f2(1,2) by (simp_all add: CalcCursorPos_def cell_def t1)
  from write_line_inked [OF s' h font x] obtain t3 where
    t3: "with_win (WriteString fts WindowWriter ?pos h kTerminalFGColor) ?t = Some t3"
      "inked (text_at (hankaku fts) h (cell t 1)) kTerminalFGColor ?t t3" unfolding at by blast
  note r3 = inked_redrawn [OF t3(2)]
  note f3 = redrawn_fields [OF r3]
  let ?t3 = "t3\<lparr>cursor_x := int (linebuf_index t3) + 1\<rparr>"
  have line: "ed_line (recall p e) = h" by (simp add: recall_def h_def Let_def)
  have "take (length h) (overwrite 0 (h @ [0]) (linebuf t2)) = h" by (simp add: overwrite_def)
  moreover have "length (overwrite 0 (h @ [0]) (linebuf t2)) = 128" using len by simp
  ultimately have "edits ?t3 (recall p e)"
    using E redrawn_shown [OF s' r3] f2 f3 h len p
    by (auto simp: edits_def recall_def Let_def h_def [symmetric] t1 shown_ok_def kColumns_def kLineMax_def)
  moreover have "cursor_y ?t3 = cursor_y t" using f2(2) f3(2) by (simp add: t1)
  moreover have "term_pixel q ?t3 = (if text_at (hankaku fts) h (cell t 1) q then Some kTerminalFGColor
      else if in_rect (Rect (cell t 1) (Vec (8 * 59) 16)) q then Some kTerminalBGColor else term_pixel q t)"
    if "in_term q" for q
    using inked_pixel [OF t3(2) that] inked_pixel [OF t2(2) that] unfolding pos by (simp add: same1)
  moreover have "length h < length (linebuf t2)" using len by simp
  ultimately show ?thesis using t2(1) get t3(1) unfolding line by (intro exI [of _ ?t3]) (simp add: Let_def pos kColumns_def)
qed

lemma key_history:
  assumes "edits t1 e" and font: "2048 \<le> length (hankaku fts)" and "code = 0x51 \<or> code = 0x52"
  shows "\<exists>t2. handle_key fts send exec code 0 (w, t1) = Some (w, t2, key_area (cell t1) code 0 e)
    \<and> handled (hankaku fts) code 0 e t1 t2"
proof -
  define p where "p = (if code = 0x51 then if 0 \<le> ed_pos e then ed_pos e - 1 else ed_pos e
    else if ed_pos e < 7 then ed_pos e + 1 else ed_pos e)"
  have e: "cmd_history_index t1 = ed_pos e" "length (cmd_history t1) = 8" "-1 \<le> ed_pos e" "ed_pos e < 8"
    using assms(1) list_all2_lengthD by (fastforce simp: edits_def)+
  have p: "-1 \<le> p" "p < 8" using e by (auto simp: p_def)
  have k: "ed_key code 0 e = recall p e" using assms(3) by (auto simp: ed_key_def p_def)
  let ?d = "if code = 0x51 then -1 else 1 :: int"
  have t: "(if ?d = -1 \<and> cmd_history_index t1 \<ge> 0 then t1\<lparr>cmd_history_index := cmd_history_index t1 - 1\<rparr>
      else if ?d = 1 \<and> cmd_history_index t1 + 1 < int (length (cmd_history t1))
        then t1\<lparr>cmd_history_index := cmd_history_index t1 + 1\<rparr> else t1) = t1\<lparr>cmd_history_index := p\<rparr>"
    using e assms(3) by (cases t1) (auto simp: p_def)
  obtain t2 where t2: "HistoryUpDown fts ?d t1 = Some (t2, Rect (cell t1 1) (Vec (8 * 59) 16))" "edits t2 (recall p e)"
    "cursor_y t2 = cursor_y t1" "\<forall>q. in_term q \<longrightarrow> term_pixel q t2 =
          (if text_at (hankaku fts) (ed_line (recall p e)) (cell t1 1) q then Some kTerminalFGColor
           else if in_rect (Rect (cell t1 1) (Vec (8 * 59) 16)) q then Some kTerminalBGColor else term_pixel q t1)"
    using recall_ok [OF assms(1) font p refl] unfolding HistoryUpDown_def t Let_def by auto
  have "handled (hankaku fts) code 0 e t1 t2"
    using t2(2-4) assms(3) by (simp add: handled_def k key_drawn_def)
  moreover have "key_area (cell t1) code 0 e = Rect (cell t1 1) (Vec (8 * 59) 16)" using assms(3) by (auto simp: key_area_def)
  ultimately show ?thesis using assms(3) t2(1) by (auto simp: handle_key_def Let_def)
qed

lemma history_push:
  assumes "list_all2 holds_line as ls" and "holds_line a l"
  shows "list_all2 holds_line (a # butlast as) (l # butlast ls)"
proof (cases as rule: rev_cases)
  case Nil
  then show ?thesis using assms by simp
next
  case (snoc xs x)
  then obtain ys y where "ls = ys @ [y]" "list_all2 holds_line xs ys"
    using assms(1) by (auto simp: list_all2_append1 list_all2_Cons1)
  then show ?thesis using snoc assms(2) by simp
qed

text \<open>Every key but the enter key edits the line and leaves the rest of the kernel alone.\<close>

lemma InputKey_edits:
  assumes E: "edits t e" and font: "2048 \<le> length (hankaku fts)" and c: "c < 0x80" "c \<noteq> 10"
  shows "\<exists>t'. InputKey fts send exec m code c (w, t) = Some (w, t', key_area (cell t) code c e)
    \<and> edits t' (ed_key code c e) \<and> cursor_y t' = cursor_y t
    \<and> (\<forall>q. in_term q \<longrightarrow> term_pixel q t' = typed_pixel (hankaku fts) (cell t) code c e q (term_pixel q t))"
proof -
  have s: "shown_ok t" "cursor_x t = ed_col e" using E by (simp_all add: edits_def)
  obtain t1 where t1: "DrawCursor False t = Some t1" "inked (cursor_block (cell t (ed_col e))) kTerminalBGColor t t1"
    using DrawCursor_inked [OF s(1), of False] s(2) by auto
  note E1 = edits_redrawn [OF E inked_redrawn [OF t1(2)]]
  have y1: "cursor_y t1 = cursor_y t" "cell t1 = cell t" using redrawn_fields(2) [OF inked_redrawn [OF t1(2)]]
    by (simp, rule cell_same)
  have "\<exists>t2. handle_key fts send exec code c (w, t1) = Some (w, t2, key_area (cell t1) code c e)
      \<and> handled (hankaku fts) code c e t1 t2"
  proof -
    consider "c = 8" | "c \<noteq> 0" "c \<noteq> 8" | "c = 0" "code = 0x51 \<or> code = 0x52" | "c = 0" "code \<noteq> 0x51" "code \<noteq> 0x52" by blast
    then show ?thesis
    proof cases
      case 1
      with key_back [OF E1] show ?thesis by simp
    next
      case 2
      with key_char [OF E1 font _ _ c(2,1), where send = send and exec = exec and code = code and w = w] show ?thesis by simp
    next
      case 3
      with key_history [OF E1 font] show ?thesis by simp
    next
      case 4
      with E1 show ?thesis
        by (simp add: handle_key_def ed_key_def Let_def handled_def key_drawn_def key_area_def CalcCursorPos_cell edits_def)
    qed
  qed
  then obtain t2 where t2: "handle_key fts send exec code c (w, t1) = Some (w, t2, key_area (cell t) code c e)"
    "handled (hankaku fts) code c e t1 t2" unfolding y1 by blast
  then have E2: "edits t2 (ed_key code c e)" and y2: "cursor_y t2 = cursor_y t"
    and p2: "\<forall>q. in_term q \<longrightarrow> term_pixel q t2 = key_drawn (hankaku fts) (cell t) code c e q (term_pixel q t1)"
    unfolding handled_def y1 by simp_all
  then have s2: "shown_ok t2" "cursor_x t2 = ed_col (ed_key code c e)" "cell t2 = cell t"
    by (simp_all add: edits_def cell_same [OF y2])
  obtain t3 where t3: "DrawCursor True t2 = Some t3" "inked (cursor_block (cell t (ed_col (ed_key code c e)))) kTerminalFGColor t2 t3"
    using DrawCursor_inked [OF s2(1), of True] s2(2,3) by auto
  have "term_pixel q t3 = typed_pixel (hankaku fts) (cell t) code c e q (term_pixel q t)" if "in_term q" for q
    using inked_pixel [OF t3(2) that] p2 that inked_pixel [OF t1(2) that] by (simp add: typed_pixel_def)
  with t1(1) t2(1) t3(1) edits_redrawn [OF E2 inked_redrawn [OF t3(2)]] y2 redrawn_fields(2) [OF inked_redrawn [OF t3(2)]]
  show ?thesis by (intro exI [of _ t3]) (simp add: InputKey_def)
qed

text \<open>What a key changes in the window lies in the area that it asks to be redrawn, unless the cursor stood behind the last column.\<close>

lemma typed_pixel_outside:
  assumes "edits t e" "line_ok (ed_line (ed_key code c e))" "ed_col e < 60" "\<not> in_rect (key_area (cell t) code c e) q"
  shows "typed_pixel font (cell t) code c e q old = old"
proof -
  have col: "0 < ed_col e" "length (ed_line (ed_key code c e)) \<le> 58" using assms(1,2) by (auto simp: edits_def line_ok_def)
  consider "c = 8" | "c \<noteq> 0" "c \<noteq> 8" | "c = 0" "code = 0x51 \<or> code = 0x52" | "c = 0" "code \<noteq> 0x51" "code \<noteq> 0x52" by blast
  then show ?thesis
  proof cases
    case 1
    then show ?thesis using assms(3,4) col
      by (auto simp: typed_pixel_def key_drawn_def key_area_def ed_key_def cursor_block_def in_rect_def cell_pos)
  next
    case 2
    have "\<not> glyph_at font c (cell t (ed_col e)) q"
      using assms(4) 2 glyph_in_cell [of font c "cell t (ed_col e)" q] by (auto simp: key_area_def in_rect_def cell_pos)
    with 2 assms(4) show ?thesis
      by (auto simp: typed_pixel_def key_drawn_def key_area_def ed_key_def cursor_block_def in_rect_def cell_pos)
  next
    case 3
    let ?l = "ed_line (ed_key code c e)"
    have e: "ed_col (ed_key code c e) = int (length ?l) + 1" using 3 by (auto simp: ed_key_def recall_def Let_def)
    have out: "\<not> in_rect (Rect (cell t 1) (Vec (8 * 59) 16)) q" using assms(4) 3 by (auto simp: key_area_def)
    have "\<not> text_at font ?l (cell t 1) q"
    proof
      assume "text_at font ?l (cell t 1) q"
      then obtain n where "n < length ?l" "glyph_at font (?l ! n) (cell t 1 + Vec (8 * int n) 0) q" by (auto simp: text_at_def)
      with col(2) glyph_in_cell [of font "?l ! n" "cell t 1 + Vec (8 * int n) 0" q] out show False
        by (auto simp: in_rect_def cell_pos)
    qed
    moreover have "\<not> cursor_block (cell t (int (length ?l) + 1)) q" "\<not> cursor_block (cell t (ed_col e)) q"
      using out col assms(3) by (auto simp: cursor_block_def in_rect_def cell_pos)
    ultimately show ?thesis using 3 out unfolding typed_pixel_def key_drawn_def e by auto
  next
    case 4
    then show ?thesis using assms(4)
      by (auto simp: typed_pixel_def key_drawn_def key_area_def ed_key_def cursor_block_def in_rect_def cell_pos)
  qed
qed

text \<open>
  The enter key: how the terminal is when \<^verbatim>\<open>ExecuteLine\<close> is called, and what \<^verbatim>\<open>ExecuteLine\<close>, which may print and
  change everything else, leaves alone.
\<close>

definition entered :: "editor \<Rightarrow> Terminal \<Rightarrow> Terminal \<Rightarrow> bool" where
  "entered e t t1 \<longleftrightarrow> shown_ok t1 \<and> array_str (linebuf t1) = Some (ed_line e) \<and> pos_of t1 = next_line (pos_of t)
     \<and> list_all2 holds_line (cmd_history t1) (ed_history (ed_enter 1 e))
     \<and> length (linebuf t1) = kLineMax \<and> linebuf_index t1 = 0 \<and> cmd_history_index t1 = -1"

definition kept :: "Terminal \<Rightarrow> Terminal \<Rightarrow> bool" where
  "kept t1 t2 \<longleftrightarrow> shown_ok t2 \<and> length (linebuf t2) = length (linebuf t1) \<and> linebuf_index t2 = linebuf_index t1
     \<and> cmd_history t2 = cmd_history t1 \<and> cmd_history_index t2 = cmd_history_index t1"

text \<open>What the enter key does behind the call: the prompt is printed where the output has ended.\<close>

definition after_call :: "'f fonts \<Rightarrow> 'w on_area \<Rightarrow> 'w \<times> Terminal \<Rightarrow> ('w \<times> Terminal \<times> Rectangle) option" where
  "after_call fts send wt = do {
     (w, t) \<leftarrow> Print fts send [0x3e] None wt;
     v \<leftarrow> win t;
     t \<leftarrow> DrawCursor True t;
     Some (w, t, Rect kTopLeftMargin (InnerSize v)) }"

lemma InputKey_enter:
  assumes E0: "edits t e"
  shows "\<exists>t1. entered e t t1 \<and> InputKey fts send exec m code 10 (w, t) = do { wt \<leftarrow> exec (w, t1); after_call fts send wt }"
proof -
  have "shown_ok t" using E0 by (simp add: edits_def)
  then obtain t0 where t0: "DrawCursor False t = Some t0" "redrawn t t0" using DrawCursor_ok by blast
  note E = edits_redrawn [OF E0 t0(2)]
  let ?n = "length (ed_line e)"
  let ?buf = "(linebuf t0)[?n := 0]"
  have n: "linebuf_index t0 = ?n" "length (linebuf t0) = 128" "take ?n (linebuf t0) = ed_line e" "line_ok (ed_line e)"
    using E by (simp_all add: edits_def kLineMax_def)
  then have len: "?n < length (linebuf t0)" by (simp add: line_ok_def)
  then have "?buf = ed_line e @ 0 # drop (?n + 1) (linebuf t0)"
    by (simp add: upd_conv_take_nth_drop n(3))
  then have str: "array_str ?buf = Some (ed_line e)" using n(4) array_str_line by (simp add: line_ok_def)
  have held: "holds_line ?buf (ed_line e)" using n str by (simp add: holds_line_def kLineMax_def)
  let ?hist = "if ed_line e \<noteq> [] then ?buf # butlast (cmd_history t0) else cmd_history t0"
  let ?t = "t0\<lparr>linebuf := ?buf, cmd_history := ?hist, linebuf_index := 0, cmd_history_index := -1\<rparr>"
  have hist: "list_all2 holds_line ?hist (ed_history (ed_enter 1 e))"
    using history_push [OF _ held] E by (auto simp: edits_def ed_enter_def)
  have "shown_ok ?t" using E by (simp add: edits_def shown_ok_def)
  then obtain t1 where t1: "term_newline ?t = Some t1" "redrawn (at_pos (next_line (pos_of ?t)) ?t) t1" "shown_ok t1"
    using term_newline_ok by blast
  have "pos_of t0 = pos_of t" using redrawn_fields(1,2) [OF t0(2)] by (simp add: pos_of_def)
  then have "entered e t t1"
    using redrawn_fields [OF t1(2)] t1(3) str hist n(2) by (auto simp: entered_def at_pos_def pos_of_def kLineMax_def)
  moreover have "handle_key fts send exec code 10 (w, t0) = do {
      (w, t) \<leftarrow> exec (w, t1);
      (w, t) \<leftarrow> Print fts send [0x3e] None (w, t);
      v \<leftarrow> win t;
      Some (w, t, Rect kTopLeftMargin (InnerSize v)) }"
    using n(1) len t1(1) by (cases "ed_line e = []") (simp_all add: handle_key_def Let_def)
  ultimately show ?thesis
    by (intro exI [of _ t1]) (simp add: InputKey_def t0(1) after_call_def split_def)
qed

lemma after_call_edits:
  assumes T: "entered e t t1" and K: "kept t1 t2" and E: "edits t e" and font: "2048 \<le> length (hankaku fts)"
    and send: "\<And>a w. \<exists>w'. send a w = Some w'"
  shows "\<exists>w' t' a. after_call fts send (w, t2) = Some (w', t', Rect kTopLeftMargin (Vec 488 296)) \<and> send a w = Some w'
    \<and> edits t' (ed_enter (fst (advance (pos_of t2) 0x3e)) e)
    \<and> (cursor_x t2 < kColumns \<longrightarrow> (\<forall>q. in_term q \<longrightarrow> term_pixel q t' = printed_pixel (hankaku fts) [0x3e] t2 q))"
proof -
  have s2: "shown_ok t2" using K by (simp add: kept_def)
  have prompt: "utf8s [0x3e] = [0x3e]" by (simp add: utf8s_def utf8_def)
  have ok: "text_ok fts [0x3e]" using font by (simp add: text_ok_def glyph_fits_def IsHankaku_def)
  obtain w3 t3 a where t3: "Print fts send [0x3e] None (w, t2) = Some (w3, t3)" "shown_ok t3"
    "redrawn (at_pos (advance (pos_of t2) 0x3e) t2) t3" "send a w = Some w3"
    using Print_text [where send = send and w = w, OF s2 ok] send unfolding prompt by auto
  have pos: "pos_of t3 = advance (pos_of t2) 0x3e" using t3(3) by (auto simp: redrawn_def at_pos_def pos_of_def)
  obtain v where v: "win t3 = Some v" "term_win v" using t3(2) by (auto simp: shown_ok_def)
  then have sz: "InnerSize v = Vec 488 296"
    by (simp add: InnerSize_def term_win_def win_Size_def kTopLeftMargin_def kBottomRightMargin_def)
  obtain t4 where t4: "DrawCursor True t3 = Some t4" "inked (cursor_block (cell t3 (cursor_x t3))) kTerminalFGColor t3 t4"
    using DrawCursor_inked [OF t3(2), of True] by auto
  note r4 = inked_redrawn [OF t4(2)]
  have "0 < fst (advance (pos_of t2) 0x3e)" using s2
    by (auto simp: advance_def IsHankaku_def pos_of_def shown_ok_def next_line_def Let_def)
  then have "edits t4 (ed_enter (fst (advance (pos_of t2) 0x3e)) e)"
    using redrawn_shown [OF t3(2) r4] redrawn_fields [OF r4] redrawn_fields [OF t3(3)] pos T K E
    by (auto simp: edits_def ed_enter_def line_ok_def entered_def kept_def at_pos_def pos_of_def)
  moreover have "term_pixel q t4 = printed_pixel (hankaku fts) [0x3e] t2 q" if q: "in_term q" and x: "cursor_x t2 < kColumns" for q
  proof -
    have "term_pixel q t3 = printed_pixel (hankaku fts) (map ucast [0x3e :: u32]) t2 q"
      using Print_ascii [OF s2 ok _ _ _ t3(1) [folded prompt] _ q] pos x by (simp add: prompt)
    moreover have "cell t3 (cursor_x t3) = cell t2 (cursor_x t2 + 1)"
      using pos x by (auto simp: pos_of_def advance_def IsHankaku_def cell_def)
    ultimately show ?thesis using inked_pixel [OF t4(2) q] by (simp add: printed_pixel_def)
  qed
  ultimately show ?thesis using t3(1,4) v(1) t4(1)
    by (intro exI [of _ w3] exI [of _ t4] exI [of _ a]) (simp add: after_call_def sz)
qed

text \<open>
  C15: the line editor.  Whatever key is pressed, the terminal does what an editor with one line and a history of
  eight lines does: a character is added at the end while the cursor is left of the last column, the
  backspace removes the last character and steps back as long as the cursor is right of column 1, the arrows replace the line by
  one of the history (the empty line below the newest), other keys do nothing; the kernel is not touched, and the
  window changes exactly as \<open>typed_pixel\<close> says: the character's glyph, and the cursor behind it.  The enter key
  calls \<^verbatim>\<open>ExecuteLine\<close> with exactly the line, at the start of the next line, the line entered into the history unless it is
  empty.  When \<^verbatim>\<open>ExecuteLine\<close>, of which nothing is assumed, does not return, the key does not; when it returns with the
  line editor's own fields and the window as it found them, the prompt is printed where the output has ended, the terminal's
  area is asked to be redrawn and the line is empty again, with the cursor behind the prompt, also when the
  output does not end with a line feed.
\<close>

theorem line_editor_refines:
  assumes "edits t e" and "2048 \<le> length (hankaku fts)" and "c < 0x80" and "\<And>a w. \<exists>w'. send a w = Some w'"
  shows "if c \<noteq> 10
    then \<exists>t'. InputKey fts send exec m code c (w, t) = Some (w, t', key_area (cell t) code c e)
      \<and> edits t' (ed_key code c e)
      \<and> (\<forall>q. in_term q \<longrightarrow> term_pixel q t' = typed_pixel (hankaku fts) (cell t) code c e q (term_pixel q t))
    else \<exists>t1. entered e t t1 \<and>
      (case exec (w, t1) of
         None \<Rightarrow> InputKey fts send exec m code c (w, t) = None
       | Some (w1, t2) \<Rightarrow> kept t1 t2 \<longrightarrow>
           (\<exists>w' t' a. InputKey fts send exec m code c (w, t) = Some (w', t', Rect kTopLeftMargin (Vec 488 296))
              \<and> send a w1 = Some w' \<and> edits t' (ed_enter (fst (advance (pos_of t2) 0x3e)) e)
              \<and> (cursor_x t2 < kColumns \<longrightarrow>
                   (\<forall>q. in_term q \<longrightarrow> term_pixel q t' = printed_pixel (hankaku fts) [0x3e] t2 q))))"
proof (cases "c = 10")
  case False
  with InputKey_edits [OF assms(1-3) False, where send = send and exec = exec and m = m and code = code and w = w] show ?thesis
    by simp blast
next
  case True
  obtain t1 where t1: "entered e t t1"
    "InputKey fts send exec m code 10 (w, t) = do { wt \<leftarrow> exec (w, t1); after_call fts send wt }"
    using InputKey_enter [OF assms(1), where fts = fts and send = send and exec = exec and m = m and code = code and w = w] by blast
  have "case exec (w, t1) of
         None \<Rightarrow> InputKey fts send exec m code 10 (w, t) = None
       | Some (w1, t2) \<Rightarrow> kept t1 t2 \<longrightarrow>
           (\<exists>w' t' a. InputKey fts send exec m code 10 (w, t) = Some (w', t', Rect kTopLeftMargin (Vec 488 296))
              \<and> send a w1 = Some w' \<and> edits t' (ed_enter (fst (advance (pos_of t2) 0x3e)) e)
              \<and> (cursor_x t2 < kColumns \<longrightarrow>
                   (\<forall>q. in_term q \<longrightarrow> term_pixel q t' = printed_pixel (hankaku fts) [0x3e] t2 q)))"
  proof (cases "exec (w, t1)")
    case None
    then show ?thesis by (simp add: t1(2))
  next
    case (Some r)
    obtain w1 t2 where r: "r = (w1, t2)" by (cases r)
    show ?thesis
      using after_call_edits [where send = send, OF t1(1) _ assms(1,2,4), where w = w1 and ?t2.0 = t2] by (simp add: t1(2) Some r)
  qed
  with t1(1) show ?thesis unfolding True by auto
qed

text \<open>A terminal on whose line \<open>hi\<close> has been typed, and a command that prints its line, without a line feed.\<close>

definition hi_terminal :: "Window \<Rightarrow> Terminal" where
  "hi_terminal v = (term_example v)\<lparr>cursor_x := 3, linebuf_index := 2, linebuf := [104, 105] @ replicate 126 0\<rparr>"

definition hi_editor :: editor where
  "hi_editor = \<lparr>ed_line = [104, 105], ed_history = replicate 8 [], ed_pos = -1, ed_col = 3\<rparr>"

definition exec_example :: "u8 list list \<times> Terminal \<Rightarrow> (u8 list list \<times> Terminal) option" where
  "exec_example = (\<lambda>(w, t). do {
     line \<leftarrow> array_str (linebuf t);
     Print blank_fonts (\<lambda>a w. Some w) line None (line # w, t) })"

lemma hi_edits: "term_win v \<Longrightarrow> edits (hi_terminal v) hi_editor"
proof -
  have "array_str (replicate 128 0) = Some []" by (simp add: array_str_def)
  then show "term_win v \<Longrightarrow> edits (hi_terminal v) hi_editor"
    by (simp add: edits_def shown_ok_def hi_terminal_def hi_editor_def term_example_def kColumns_def kRows_def kLineMax_def line_ok_def
        list_all2_conv_all_nth holds_line_def del: replicate.simps)
qed

lemma exec_example_runs:
  assumes "entered hi_editor (hi_terminal v) t1"
  shows "\<exists>t2. exec_example ([], t1) = Some ([[104, 105]], t2) \<and> kept t1 t2 \<and> fst (advance (pos_of t2) 0x3e) = 3"
proof -
  let ?send = "\<lambda>a (w :: u8 list list). Some w"
  have s1: "shown_ok t1" "array_str (linebuf t1) = Some [104, 105]" "pos_of t1 = (0, 17)"
    using assms by (simp_all add: entered_def hi_editor_def pos_of_def hi_terminal_def term_example_def next_line_def kRows_def)
  have u: "utf8s [104, 105] = [104, 105]" by (simp add: utf8s_def utf8_def)
  have ok: "text_ok blank_fonts [104, 105]" by (simp add: text_ok_def glyph_fits_def IsHankaku_def blank_fonts_def)
  obtain t2 where t2: "Print blank_fonts ?send [104, 105] None ([[104, 105]], t1) = Some ([[104, 105]], t2)" "shown_ok t2"
    "redrawn (at_pos (foldl advance (pos_of t1) [104, 105]) t1) t2"
    using Print_text [where send = ?send and w = "[[104, 105]]", OF s1(1) ok] unfolding u by auto
  have "kept t1 t2" using redrawn_fields [OF t2(3)] t2(2) by (simp add: kept_def at_pos_def)
  moreover have "pos_of t2 = foldl advance (pos_of t1) [104, 105]" using t2(3) by (auto simp: redrawn_def at_pos_def pos_of_def)
  then have "fst (advance (pos_of t2) 0x3e) = 3" by (simp add: s1(3) advance_def IsHankaku_def kColumns_def)
  ultimately show ?thesis using t2(1) s1(2) by (simp add: exec_example_def)
qed

theorem line_editor_refines_witness:
  "\<exists>v t'. Window_init 492 325 kPixelRGBResv8BitPerColor = Some v
     \<and> InputKey blank_fonts (\<lambda>a w. Some w) exec_example 0 0 10 ([], hi_terminal v)
         = Some ([[104, 105]], t', Rect kTopLeftMargin (Vec 488 296))
     \<and> edits t' \<lparr>ed_line = [], ed_history = [104, 105] # replicate 7 [], ed_pos = -1, ed_col = 3\<rparr>"
proof -
  obtain v where v: "Window_init 492 325 kPixelRGBResv8BitPerColor = Some v" "term_win v" by (rule term_window_exists)
  let ?send = "\<lambda>(a :: Rectangle) (w :: u8 list list). Some w"
  have n: "\<not> ((10 :: u8) \<noteq> 10)" and c10: "(10 :: u8) < 0x80" and ex_send: "\<exists>w'. Some (w :: u8 list list) = Some w'" for w
    by simp_all
  obtain t1 where t1: "entered hi_editor (hi_terminal v) t1" and key: "case exec_example ([], t1) of
         None \<Rightarrow> InputKey blank_fonts ?send exec_example 0 0 10 ([], hi_terminal v) = None
       | Some (w1, t2) \<Rightarrow> kept t1 t2 \<longrightarrow>
           (\<exists>w' t' a. InputKey blank_fonts ?send exec_example 0 0 10 ([], hi_terminal v) = Some (w', t', Rect kTopLeftMargin (Vec 488 296))
              \<and> ?send a w1 = Some w' \<and> edits t' (ed_enter (fst (advance (pos_of t2) 0x3e)) hi_editor)
              \<and> (cursor_x t2 < kColumns \<longrightarrow>
                   (\<forall>q. in_term q \<longrightarrow> term_pixel q t' = printed_pixel (hankaku blank_fonts) [0x3e] t2 q)))"
    using line_editor_refines [OF hi_edits [OF v(2)] blank_fonts_font, of 10 ?send exec_example 0 0 "[]",
        unfolded if_not_P [OF n], OF c10 ex_send] by (elim exE conjE) (rule that)
  obtain t2 where t2: "exec_example ([], t1) = Some ([[104, 105]], t2)" "kept t1 t2" "fst (advance (pos_of t2) 0x3e) = 3"
    using exec_example_runs [OF t1] by blast
  have "ed_enter 3 hi_editor = \<lparr>ed_line = [], ed_history = [104, 105] # replicate 7 [], ed_pos = -1, ed_col = 3\<rparr>"
    by (simp add: ed_enter_def hi_editor_def eval_nat_numeral)
  with key t2 v(1) show ?thesis by auto
qed

end
