(* ===== verification/Syscall.thy ===== *)
theory Syscall imports Terminal Layer Timer_Manager Paging begin

text \<open>
  System calls on files, memory, timers and events, \<^verbatim>\<open>kernel/syscall.cpp\<close>, and the descriptors they
  reach: files, pipes and terminals (\<^verbatim>\<open>TerminalFileDescriptor\<close>).

  \<open>i\<close> is the task that calls.  A buffer of the application is the list of its bytes; what a call
  writes into one is part of its result.  \<open>None\<close> is undefined behaviour, or a call that waits.
\<close>

section \<open>The state of the kernel\<close>

text \<open>A handle of \<open>files\<close> is an index of the list of descriptors; \<open>TermFd\<close> names the terminal's task.\<close>

datatype descriptor = FatFd FileDescriptor | PipeFd PipeDescriptor | TermFd tid

text \<open>What a new terminal is started with; \<open>started\<close> are the terminal tasks that the shell has created.\<close>

record TerminalDescriptor =
  td_command_line :: cstr
  td_exit_after_command :: bool
  td_show_window :: bool
  td_files :: "nat list"

record kernel =
  tasking :: TaskManager
  timer_mgr :: TimerManager
  vol :: volume
  descriptors :: "descriptor list"
  terminals :: "tid \<Rightarrow> (u32 \<times> Terminal) option"
  layer_tasks :: "u32 \<Rightarrow> tid option"
  started :: "(tid \<times> TerminalDescriptor) list"

text \<open>Results: the value and the number of the error, with the numbers of \<^verbatim>\<open>errno.h\<close>.\<close>

type_synonym result = "u64 \<times> int"

definition EPERM :: int where "EPERM = 1"
definition ENOENT :: int where "ENOENT = 2"
definition E2BIG :: int where "E2BIG = 7"
definition EBADF :: int where "EBADF = 9"
definition EFAULT :: int where "EFAULT = 14"
definition EISDIR :: int where "EISDIR = 21"
definition EINVAL :: int where "EINVAL = 22"
definition ENOSPC :: int where "ENOSPC = 28"

definition O_CREAT :: u32 where "O_CREAT = 0x200"

section \<open>Terminals as descriptors\<close>

definition kLControlBitMask :: u8 where "kLControlBitMask = 1"
definition kRControlBitMask :: u8 where "kRControlBitMask = 16"

definition control_key :: "u8 \<Rightarrow> bool" where
  "control_key m \<longleftrightarrow> m AND (kLControlBitMask OR kRControlBitMask) \<noteq> 0"

text \<open>The message that makes the main task redraw an area of the terminal's layer.\<close>

definition request_redraw :: "tid \<Rightarrow> u32 \<Rightarrow> TaskManager on_area" where
  "request_redraw i layer area m =
     map_option fst (SendMessage 1 (MakeLayerMessage i layer LayerOperation.DrawArea area) m)"

definition term_print :: "'f fonts \<Rightarrow> tid \<Rightarrow> u8 list \<Rightarrow> nat option \<Rightarrow> kernel \<Rightarrow> kernel option" where
  "term_print fts i s n k = do {
     (layer, t) \<leftarrow> terminals k i;
     (m, t) \<leftarrow> Print fts (request_redraw i layer) s n (tasking k, t);
     Some (k\<lparr>tasking := m, terminals := (terminals k)(i \<mapsto> (layer, t))\<rparr>) }"

definition term_redraw :: "tid \<Rightarrow> kernel \<Rightarrow> kernel option" where
  "term_redraw i k = do {
     (layer, t) \<leftarrow> terminals k i;
     (m, t) \<leftarrow> Redraw (request_redraw i layer) (tasking k, t);
     Some (k\<lparr>tasking := m, terminals := (terminals k)(i \<mapsto> (layer, t))\<rparr>) }"

text \<open>\<^verbatim>\<open>TerminalFileDescriptor::Read\<close>: one key, with echo; \<open>None\<close> when it has to wait for one.\<close>

partial_function (option) Term_Read :: "'f fonts \<Rightarrow> tid \<Rightarrow> kernel \<Rightarrow> (u8 list \<times> kernel) option" where
  "Term_Read fts i k =
     (case get_task (tasking k) i of
        None \<Rightarrow> None
      | Some t \<Rightarrow>
         (case ReceiveMessage t of
            (None, _) \<Rightarrow> None
          | (Some msg, t') \<Rightarrow>
              let k1 = k\<lparr>tasking := upd_task i (\<lambda>t. t\<lparr>msgs := msgs t'\<rparr>) (tasking k)\<rparr> in
              (case arg msg of
                 KeyArg m code c pressed \<Rightarrow>
                   if msg_type msg \<noteq> kKeyPush \<or> \<not> pressed then Term_Read fts i k1
                   else if control_key m then
                     (case term_print fts i (if toupper c = 0 then [0x5e] else [0x5e, toupper c]) None k1 of
                        None \<Rightarrow> None
                      | Some k2 \<Rightarrow> if code = 7 then Some ([], k2) else Term_Read fts i k2)
                   else
                     (case term_print fts i [c] (Some 1) k1 of
                        None \<Rightarrow> None
                      | Some k2 \<Rightarrow> map_option (\<lambda>k3. ([c], k3)) (term_redraw i k2))
               | _ \<Rightarrow> if msg_type msg \<noteq> kKeyPush then Term_Read fts i k1 else None)))"

definition Term_Write :: "'f fonts \<Rightarrow> tid \<Rightarrow> u8 list \<Rightarrow> kernel \<Rightarrow> (kernel \<times> nat) option" where
  "Term_Write fts i bs k = do {
     k \<leftarrow> term_print fts i bs (Some (length bs)) k;
     k \<leftarrow> term_redraw i k;
     Some (k, length bs) }"

section \<open>Any descriptor\<close>

text \<open>The virtual functions of \<^verbatim>\<open>class FileDescriptor\<close>, on the descriptor with handle \<open>h\<close>.\<close>

definition set_descriptor :: "nat \<Rightarrow> descriptor \<Rightarrow> kernel \<Rightarrow> kernel" where
  "set_descriptor h d k = k\<lparr>descriptors := (descriptors k)[h := d]\<rparr>"

definition fd_read :: "'f fonts \<Rightarrow> nat \<Rightarrow> nat \<Rightarrow> kernel \<Rightarrow> (u8 list \<times> kernel) option" where
  "fd_read fts h len k = do {
     d \<leftarrow> arr_get (descriptors k) h;
     (case d of
        FatFd fd \<Rightarrow> do { (fd', bs) \<leftarrow> Fat_File.Read (vol k) fd len; Some (bs, set_descriptor h (FatFd fd') k) }
      | PipeFd p \<Rightarrow> do {
          (bs, p', m) \<leftarrow> Pipe_Read p len (tasking k);
          Some (bs, set_descriptor h (PipeFd p') (k\<lparr>tasking := m\<rparr>)) }
      | TermFd i \<Rightarrow> Term_Read fts i k) }"

definition fd_write :: "'f fonts \<Rightarrow> nat \<Rightarrow> u8 list \<Rightarrow> kernel \<Rightarrow> (kernel \<times> nat) option" where
  "fd_write fts h bs k = do {
     d \<leftarrow> arr_get (descriptors k) h;
     (case d of
        FatFd fd \<Rightarrow> do {
          (v, fd', n) \<leftarrow> Fat_File.Write (vol k) fd bs;
          Some (set_descriptor h (FatFd fd') (k\<lparr>vol := v\<rparr>), n) }
      | PipeFd p \<Rightarrow> do { (m, n) \<leftarrow> Pipe_Write (pipe_task p) bs (tasking k); Some (k\<lparr>tasking := m\<rparr>, n) }
      | TermFd i \<Rightarrow> Term_Write fts i bs k) }"

definition fd_size :: "nat \<Rightarrow> kernel \<Rightarrow> nat option" where
  "fd_size h k = do {
     d \<leftarrow> arr_get (descriptors k) h;
     (case d of FatFd fd \<Rightarrow> Fat_File.Size (vol k) fd | _ \<Rightarrow> Some 0) }"

definition fd_load :: "kernel \<Rightarrow> nat \<Rightarrow> nat \<Rightarrow> nat \<Rightarrow> u8 list option" where
  "fd_load k h len off = do {
     d \<leftarrow> arr_get (descriptors k) h;
     (case d of FatFd fd \<Rightarrow> Fat_File.Load (vol k) fd len off | _ \<Rightarrow> Some []) }"

section \<open>Files\<close>

text \<open>\<^verbatim>\<open>fd < 0 || task.Files().size() <= fd || !task.Files()[fd]\<close>, with the index as \<^verbatim>\<open>size_t\<close>.\<close>

definition file_of :: "Task \<Rightarrow> nat \<Rightarrow> nat option" where
  "file_of t fd = (if fd < length (files t) then files t ! fd else None)"

definition AllocateFD :: "Task \<Rightarrow> Task \<times> nat" where
  "AllocateFD t = (case List.find (\<lambda>n. files t ! n = None) [0..<length (files t)] of
     Some n \<Rightarrow> (t, n)
   | None \<Rightarrow> (t\<lparr>files := files t @ [None]\<rparr>, length (files t)))"

text \<open>\<^verbatim>\<open>CreateFile\<close> of the system calls: the numbers of the errors.\<close>

definition sys_CreateFile :: "cstr \<Rightarrow> kernel \<Rightarrow> (kernel \<times> entry_ptr option \<times> int) option" where
  "sys_CreateFile pathname k = do {
     (v, r) \<leftarrow> Fat_Dir.CreateFile (vol k) pathname;
     let k = k\<lparr>vol := v\<rparr>;
     Some (case r of
         Inl err \<Rightarrow> (k, None, if err = kIsDirectory then EISDIR else if err = kNoSuchEntry then ENOENT
                             else if err = kNoEnoughMemory then ENOSPC else 0)
       | Inr p \<Rightarrow> (k, Some p, 0)) }"

text \<open>The end of \<^verbatim>\<open>OpenFile\<close>: a descriptor for the entry \<open>file\<close>, undefined for the null pointer.\<close>

definition open_entry :: "tid \<Rightarrow> entry_ptr option \<Rightarrow> kernel \<Rightarrow> (kernel \<times> result) option" where
  "open_entry i f k = do {
     p \<leftarrow> f;
     t \<leftarrow> get_task (tasking k) i;
     let (t', fd) = AllocateFD t;
     let h = length (descriptors k);
     Some (k\<lparr>tasking := upd_task i (\<lambda>t. t\<lparr>files := (files t')[fd := Some h]\<rparr>) (tasking k),
             descriptors := descriptors k @ [FatFd (FileDescriptor_init p)]\<rparr>, (of_nat fd, 0)) }"

definition OpenFile :: "tid \<Rightarrow> cstr \<Rightarrow> u32 \<Rightarrow> kernel \<Rightarrow> (kernel \<times> result) option" where
  "OpenFile i pathname flags k =
     (if pathname = str ''@stdin'' then Some (k, (0, 0))
      else do {
        (f, post_slash) \<leftarrow> FindFile (vol k) pathname 0;
        (case f of
           None \<Rightarrow>
             if flags AND O_CREAT = 0 then Some (k, (0, ENOENT))
             else do {
               (k, new_file, err) \<leftarrow> sys_CreateFile pathname k;
               if err \<noteq> 0 then Some (k, (0, err)) else open_entry i new_file k }
         | Some p \<Rightarrow> do {
             e \<leftarrow> get_entry (vol k) p;
             if attr e \<noteq> kDirectory \<and> post_slash then Some (k, (0, ENOENT)) else open_entry i (Some p) k }) })"

text \<open>\<open>fd\<close> is an \<^verbatim>\<open>int\<close> there: the lower half of the argument, sign extended.\<close>

definition int_arg :: "u64 \<Rightarrow> int" where
  "int_arg a = sint (ucast a :: 32 word)"

definition file_of_int :: "Task \<Rightarrow> int \<Rightarrow> nat option" where
  "file_of_int t fd = (if fd < 0 then None else file_of t (nat fd))"

definition ReadFile :: "'f fonts \<Rightarrow> tid \<Rightarrow> u64 \<Rightarrow> nat \<Rightarrow> kernel \<Rightarrow> (kernel \<times> result \<times> u8 list) option" where
  "ReadFile fts i arg1 len k = do {
     t \<leftarrow> get_task (tasking k) i;
     (case file_of_int t (int_arg arg1) of
        None \<Rightarrow> Some (k, (0, EBADF), [])
      | Some h \<Rightarrow> do {
          (bs, k) \<leftarrow> fd_read fts h len k;
          Some (k, (of_nat (length bs), 0), bs) }) }"

text \<open>\<open>s\<close> are the bytes of the application's buffer, as many as it asks to be written.\<close>

definition PutString :: "'f fonts \<Rightarrow> tid \<Rightarrow> u64 \<Rightarrow> u8 list \<Rightarrow> kernel \<Rightarrow> (kernel \<times> result) option" where
  "PutString fts i fd s k =
     (if 1024 < length s then Some (k, (0, E2BIG))
      else do {
        t \<leftarrow> get_task (tasking k) i;
        (case file_of t (unat fd) of
           None \<Rightarrow> Some (k, (0, EBADF))
         | Some h \<Rightarrow> do {
             (k, n) \<leftarrow> fd_write fts h s k;
             Some (k, (of_nat n, 0)) }) })"

section \<open>Memory\<close>

definition DemandPages :: "tid \<Rightarrow> u64 \<Rightarrow> kernel \<Rightarrow> (kernel \<times> result) option" where
  "DemandPages i num_pages k = do {
     t \<leftarrow> get_task (tasking k) i;
     let dp_end = dpaging_end t;
     Some (k\<lparr>tasking := upd_task i (\<lambda>t. t\<lparr>dpaging_end := dp_end + 4096 * num_pages\<rparr>) (tasking k)\<rparr>, (dp_end, 0)) }"

text \<open>The size of the file goes to the application.\<close>

definition MapFile :: "tid \<Rightarrow> u64 \<Rightarrow> kernel \<Rightarrow> (kernel \<times> result \<times> u64 option) option" where
  "MapFile i arg1 k = do {
     t \<leftarrow> get_task (tasking k) i;
     (case file_of_int t (int_arg arg1) of
        None \<Rightarrow> Some (k, (0, EBADF), None)
      | Some h \<Rightarrow> do {
          n \<leftarrow> fd_size h k;
          let fsize = of_nat n;
          let vend = file_map_end t;
          let vbegin = (vend - fsize) AND 0xfffffffffffff000;
          Some (k\<lparr>tasking := upd_task i (\<lambda>t. t\<lparr>file_map_end := vbegin,
                     file_maps := file_maps t @ [\<lparr>fm_fd = int_arg arg1, vaddr_begin = vbegin, vaddr_end = vend\<rparr>]\<rparr>)
                   (tasking k)\<rparr>, (vbegin, 0), Some fsize) }) }"

section \<open>Timers and events\<close>

definition GetCurrentTick :: "kernel \<Rightarrow> result" where
  "GetCurrentTick k = (of_nat (tick (timer_mgr k)), int kTimerFreq)"

definition CreateTimer :: "tid \<Rightarrow> u64 \<Rightarrow> u64 \<Rightarrow> u64 \<Rightarrow> kernel \<Rightarrow> kernel \<times> result" where
  "CreateTimer i mode arg2 arg3 k = (let value = int_arg arg2 in
     if value \<le> 0 then (k, (0, EINVAL))
     else let t0 = arg3 * of_nat kTimerFreq div 1000;
              t1 = (if bit mode 0 then t0 + of_nat (tick (timer_mgr k)) else t0) in
       (k\<lparr>timer_mgr := AddTimer (Timer_init (unat t1) (- value) i) (timer_mgr k)\<rparr>,
        (t1 * 1000 div of_nat kTimerFreq, 0)))"

datatype AppEvent = EvQuit | EvMouseMove "int \<times> int" "int \<times> int" u8 | EvMouseButton "int \<times> int" bool int
  | EvTimerTimeout u64 int | EvKeyPush u8 u8 u8 bool

text \<open>One message in \<^verbatim>\<open>ReadEvent\<close>; \<open>Some None\<close> for a message that makes no event.\<close>

definition event_of :: "Message \<Rightarrow> AppEvent option option" where
  "event_of msg = (case msg_type msg of
     kKeyPush \<Rightarrow> (case arg msg of
         KeyArg m code c pressed \<Rightarrow>
           Some (Some (if pressed \<and> code = 20 \<and> control_key m then EvQuit else EvKeyPush m code c pressed))
       | _ \<Rightarrow> None)
   | kMouseMove \<Rightarrow> (case arg msg of MouseMoveArg xy dxy b \<Rightarrow> Some (Some (EvMouseMove xy dxy b)) | _ \<Rightarrow> None)
   | kMouseButton \<Rightarrow> (case arg msg of MouseButtonArg xy p b \<Rightarrow> Some (Some (EvMouseButton xy p b)) | _ \<Rightarrow> None)
   | kTimerTimeout \<Rightarrow> (case arg msg of
         TimerArg t v \<Rightarrow> Some (if v < 0 then Some (EvTimerTimeout t (- v)) else None)
       | _ \<Rightarrow> None)
   | kWindowClose \<Rightarrow> Some (Some EvQuit)
   | _ \<Rightarrow> Some None)"

fun read_events :: "nat \<Rightarrow> Message list \<Rightarrow> AppEvent list \<Rightarrow> (AppEvent list \<times> Message list) option" where
  "read_events len [] evs = (if length evs < len \<and> evs = [] then None else Some (evs, []))"
| "read_events len (m # ms) evs =
     (if length evs < len then
        case event_of m of
          None \<Rightarrow> None
        | Some None \<Rightarrow> read_events len ms evs
        | Some (Some e) \<Rightarrow> read_events len ms (evs @ [e])
      else Some (evs, m # ms))"

definition ReadEvent :: "tid \<Rightarrow> u64 \<Rightarrow> nat \<Rightarrow> kernel \<Rightarrow> (kernel \<times> result \<times> AppEvent list) option" where
  "ReadEvent i app_events len k =
     (if app_events < 0x8000000000000000 then Some (k, (0, EFAULT), [])
      else do {
        t \<leftarrow> get_task (tasking k) i;
        (evs, ms) \<leftarrow> read_events len (msgs t) [];
        Some (k\<lparr>tasking := upd_task i (\<lambda>t. t\<lparr>msgs := ms\<rparr>) (tasking k)\<rparr>, (of_nat (length evs), 0), evs) })"

text \<open>
  \<^verbatim>\<open>Log(level, "%s", s)\<close> of \<^verbatim>\<open>kernel/logger.cpp\<close>: a buffer of 1024 bytes, which goes to \<^verbatim>\<open>printk\<close> as its
  format.  \<open>formatted\<close> is what a format without arguments prints.  The result is what is printed.
\<close>

fun formatted :: "cstr \<Rightarrow> cstr option" where
  "formatted [] = Some []"
| "formatted [c] = (if c = 0x25 then None else Some [c])"
| "formatted (c # d # s) =
     (if c \<noteq> 0x25 then map_option ((#) c) (formatted (d # s))
      else if d = 0x25 then map_option ((#) c) (formatted s) else None)"

definition Log_string :: "nat \<Rightarrow> nat \<Rightarrow> cstr \<Rightarrow> cstr option" where
  "Log_string log_level lv s = (if log_level < lv then Some []
     else if 1024 < length s + 1 then None else formatted s)"

definition kError :: nat where "kError = 3"
definition kWarn :: nat where "kWarn = 4"
definition kInfo :: nat where "kInfo = 6"
definition kDebug :: nat where "kDebug = 7"

text \<open>\<open>LogString\<close> returns its result and what is printed.\<close>

definition LogString :: "nat \<Rightarrow> u64 \<Rightarrow> cstr \<Rightarrow> (result \<times> cstr) option" where
  "LogString log_level arg1 s =
     (if unat arg1 \<noteq> kError \<and> unat arg1 \<noteq> kWarn \<and> unat arg1 \<noteq> kInfo \<and> unat arg1 \<noteq> kDebug then Some ((0, EPERM), [])
      else if 1024 < length s then Some ((0, E2BIG), [])
      else map_option (\<lambda>out. ((of_nat (length s), 0), out)) (Log_string log_level (unat arg1) s))"

text \<open>\<^verbatim>\<open>Exit\<close> goes back to the stack the kernel left when it called the application.\<close>

definition Exit :: "tid \<Rightarrow> u64 \<Rightarrow> kernel \<Rightarrow> result option" where
  "Exit i arg1 k = map_option (\<lambda>t. (os_stack_ptr t, int_arg arg1)) (get_task (tasking k) i)"

section \<open>Writing a file and reading it back\<close>

lemma AllocateFD_free:
  assumes "AllocateFD t = (t', fd)"
  shows "fd \<le> length (files t)" and "fd < length (files t')" and "file_of t fd = None"
    and "t' = t\<lparr>files := files t'\<rparr>" and "j \<noteq> fd \<Longrightarrow> file_of (t'\<lparr>files := (files t')[fd := x]\<rparr>) j = file_of t j"
    and "\<forall>j < fd. file_of t j \<noteq> None"
proof -
  have "fd \<le> length (files t) \<and> fd < length (files t') \<and> file_of t fd = None \<and> t' = t\<lparr>files := files t'\<rparr>
      \<and> (\<forall>j. j \<noteq> fd \<longrightarrow> file_of (t'\<lparr>files := (files t')[fd := x]\<rparr>) j = file_of t j) \<and> (\<forall>j < fd. file_of t j \<noteq> None)"
  proof (cases "List.find (\<lambda>n. files t ! n = None) [0..<length (files t)]")
    case None
    then have "t' = t\<lparr>files := files t @ [None]\<rparr>" "fd = length (files t)" using assms by (auto simp: AllocateFD_def)
    moreover have "\<forall>j < length (files t). files t ! j \<noteq> None" using None by (simp add: find_None_iff)
    ultimately show ?thesis by (auto simp: file_of_def nth_append)
  next
    case (Some n)
    then have n: "t' = t" "fd = n" using assms by (auto simp: AllocateFD_def)
    from Some have "n < length (files t)" "files t ! n = None" "\<forall>j < n. files t ! j \<noteq> None"
      by (auto simp: find_Some_iff)
    with n show ?thesis by (auto simp: file_of_def)
  qed
  then show "fd \<le> length (files t)" "fd < length (files t')" "file_of t fd = None" "t' = t\<lparr>files := files t'\<rparr>"
    "j \<noteq> fd \<Longrightarrow> file_of (t'\<lparr>files := (files t')[fd := x]\<rparr>) j = file_of t j" "\<forall>j < fd. file_of t j \<noteq> None"
    by blast+
qed

lemma open_entry_spec:
  assumes "get_task (tasking k) i = Some t"
  obtains k' fd t' where "open_entry i (Some p) k = Some (k', (of_nat fd, 0))"
    "k' = k\<lparr>tasking := tasking k', descriptors := descriptors k @ [FatFd (FileDescriptor_init p)]\<rparr>"
    "get_task (tasking k') i = Some t'" "file_of t' fd = Some (length (descriptors k))" "fd \<le> length (files t)"
    "file_of t fd = None" "\<forall>j < fd. file_of t j \<noteq> None" "\<forall>j. j \<noteq> fd \<longrightarrow> file_of t' j = file_of t j"
proof -
  obtain t1 fd where A: "AllocateFD t = (t1, fd)" by fastforce
  note F = AllocateFD_free [OF A]
  let ?h = "length (descriptors k)"
  let ?fs = "(files t1)[fd := Some ?h]"
  let ?k = "k\<lparr>tasking := upd_task i (\<lambda>t. t\<lparr>files := ?fs\<rparr>) (tasking k), descriptors := descriptors k @ [FatFd (FileDescriptor_init p)]\<rparr>"
  show thesis
  proof (rule that)
    show "open_entry i (Some p) k = Some (?k, (of_nat fd, 0))"
      using assms A by (simp add: open_entry_def Let_def)
    show "get_task (tasking ?k) i = Some (t\<lparr>files := ?fs\<rparr>)"
      using get_task_upd_Some [OF assms, of "\<lambda>t. t\<lparr>files := ?fs\<rparr>" i] by simp
    show "file_of (t\<lparr>files := ?fs\<rparr>) fd = Some ?h" using F(2) by (simp add: file_of_def)
    show "\<forall>j. j \<noteq> fd \<longrightarrow> file_of (t\<lparr>files := ?fs\<rparr>) j = file_of t j"
    proof (intro allI impI)
      fix j assume "j \<noteq> fd"
      have "file_of (t\<lparr>files := ?fs\<rparr>) j = file_of (t1\<lparr>files := ?fs\<rparr>) j" by (simp add: file_of_def)
      also have "\<dots> = file_of t j" by (rule F(5) [OF \<open>j \<noteq> fd\<close>])
      finally show "file_of (t\<lparr>files := ?fs\<rparr>) j = file_of t j" .
    qed
  qed (use F in simp_all)
qed

lemma int_arg_of_nat: "n < 2 ^ 31 \<Longrightarrow> int_arg (of_nat n) = int n"
  by (simp add: int_arg_def unsigned_of_nat take_bit_nat_eq_self signed_of_nat signed_take_bit_int_eq_self)

text \<open>
  C5: an application that creates a file, writes to it and reads it back gets what it wrote.  In a root
  directory where no entry has the name and nothing has been deleted, with two free clusters,
  \<^verbatim>\<open>OpenFile\<close> with \<^verbatim>\<open>O_CREAT\<close> returns the lowest free descriptor of the task and leaves the others alone;
  a \<^verbatim>\<open>PutString\<close> of at most a cluster to it is written completely and \<^verbatim>\<open>ReadFile\<close> returns its bytes.
\<close>

theorem file_calls_roundtrip:
  assumes "vol_ok (vol k)" and "dir_ok (vol k) (root_dir (vol k) # cl)" and "root_dir (vol k) \<noteq> 0"
    and "2 \<le> card (set (free_clusters (fat (vol k)) 2))" and "never_deleted (vol k) (root_dir (vol k) # cl)"
    and "valid83 (base, ext)" and "FindFile (vol k) (name83 (base, ext)) 0 = Some (None, ps)"
    and "name83 (base, ext) \<noteq> str ''@stdin''" and "flags AND O_CREAT \<noteq> 0"
    and "get_task (tasking k) i = Some t" and "length (files t) < 2 ^ 31"
    and "0 < length s" and "length s \<le> 1024" and "length s \<le> bytes_per_cluster (vol k)"
  shows "\<exists>k1 fd t1 k2 k3. OpenFile i (name83 (base, ext)) flags k = Some (k1, (of_nat fd, 0))
    \<and> file_of t fd = None \<and> (\<forall>j < fd. file_of t j \<noteq> None)
    \<and> get_task (tasking k1) i = Some t1 \<and> (\<forall>j. j \<noteq> fd \<longrightarrow> file_of t1 j = file_of t j)
    \<and> PutString fts i (of_nat fd) s k1 = Some (k2, (of_nat (length s), 0))
    \<and> ReadFile fts i (of_nat fd) len k2 = Some (k3, (of_nat (length (take len s)), 0), take len s)
    \<and> vol_ok (vol k3)"
proof -
  let ?v = "vol k" and ?n = "name83 (base, ext)"
  from CreateFile_empty_file [OF assms(1-7)] obtain v2 p where
    C: "Fat_Dir.CreateFile ?v ?n = Some (v2, Inr p)" "vol_ok v2" "in_volume v2 p" "fat v2 ! fst p \<noteq> 0"
      "bytes_per_cluster v2 = bytes_per_cluster ?v"
    and fc: "FirstCluster (entry v2 p) = 0" and fr: "free_clusters (fat v2) 2 \<noteq> []" by metis
  let ?k = "k\<lparr>vol := v2\<rparr>"
  have "get_task (tasking ?k) i = Some t" using assms(10) by simp
  from open_entry_spec [OF this, of p] obtain k1 fd t1 where
    O: "open_entry i (Some p) ?k = Some (k1, (of_nat fd, 0))"
      "k1 = ?k\<lparr>tasking := tasking k1, descriptors := descriptors ?k @ [FatFd (FileDescriptor_init p)]\<rparr>"
      "get_task (tasking k1) i = Some t1" "file_of t1 fd = Some (length (descriptors ?k))" "fd \<le> length (files t)"
      "file_of t fd = None" "\<forall>j < fd. file_of t j \<noteq> None" "\<forall>j. j \<noteq> fd \<longrightarrow> file_of t1 j = file_of t j" by metis
  have Op: "OpenFile i ?n flags k = Some (k1, (of_nat fd, 0))"
    using assms(7-9) C(1) O(1) by (simp add: OpenFile_def sys_CreateFile_def)
  have "length s \<le> bytes_per_cluster v2" "length s < 2 ^ 32" using assms(13,14) C(5) by simp_all
  from Write_new_file [OF C(2-4) fc fr assms(12) this] obtain v' fd' d e where
    W: "Fat_File.Write v2 (FileDescriptor_init p) s = Some (v', fd', length s)" "vol_ok v'" "get_entry v' p = Some e"
      "file_ok v' e [d]" "file_bytes v' e [d] = s" "fat_entry fd' = p" "rd_off fd' = 0" "rd_cluster fd' = 0"
      "rd_cluster_off fd' = 0" by metis
  let ?h = "length (descriptors k)"
  let ?k2 = "set_descriptor ?h (FatFd fd') (k1\<lparr>vol := v'\<rparr>)"
  have k1: "vol k1 = v2" "descriptors k1 = descriptors k @ [FatFd (FileDescriptor_init p)]"
    by (subst O(2), simp)+
  have fd: "fd < 2 ^ 31" using O(5) assms(11) by simp
  then have u: "unat (of_nat fd :: u64) = fd" by (simp add: unsigned_of_nat take_bit_nat_eq_self)
  have "fd_write fts ?h s k1 = Some (?k2, length s)"
    using W(1) by (simp add: fd_write_def k1 arr_get_def)
  then have P: "PutString fts i (of_nat fd) s k1 = Some (?k2, (of_nat (length s), 0))"
    using assms(13) O(3,4) by (simp add: PutString_def u)
  have "reading v' [d] fd'" using W(7-9) by (simp add: reading_def rd_at_def)
  from Read_spec [OF W(2) _ W(4) this, of len] W(3,5,6,7) obtain fd2 where
    R: "Fat_File.Read v' fd' len = Some (fd2, take len s)" by auto
  have k2: "vol ?k2 = v'" "descriptors ?k2 = descriptors k @ [FatFd fd']" "tasking ?k2 = tasking k1"
    by (simp_all add: set_descriptor_def k1 list_update_append)
  have "ReadFile fts i (of_nat fd) len ?k2
      = Some (set_descriptor ?h (FatFd fd2) ?k2, (of_nat (length (take len s)), 0), take len s)"
    using O(3,4) fd R
    by (simp add: ReadFile_def fd_read_def file_of_int_def int_arg_of_nat k2 arr_get_def)
  moreover have "vol (set_descriptor ?h (FatFd fd2) ?k2) = v'" by (simp add: set_descriptor_def)
  ultimately show ?thesis using Op O(3,6-8) P W(2) by metis
qed

definition kernel_example :: kernel where
  "kernel_example = \<lparr>tasking = TaskManager_init (\<lambda>t. t), timer_mgr = TimerManager_init, vol = volume_example,
     descriptors = [], terminals = (\<lambda>_. None),
     layer_tasks = (\<lambda>_. None), started = []\<rparr>"

lemma volume_example_clean: "never_deleted volume_example (root_dir volume_example # [])"
proof -
  have "FirstCluster (entry volume_example p) = 0" if "p \<in> set (slots volume_example [2])" for p
  proof -
    have "slots volume_example [2] = map (Pair 2) [0..<16]"
      by (simp add: slots_def entries_per_cluster_def volume_example_def kEntrySize_def)
    with that obtain j where j: "p = (2, j)" "j < 16" by (auto simp del: upt_rec_numeral)
    then have "slice (32 * j) 32 (replicate 512 (0 :: u8)) = replicate 32 0" by (simp add: slice_def del: replicate.simps)
    then show ?thesis
      unfolding j(1) volume_example_ok(5)
      by (simp add: decode_entry_def slice_def FirstCluster_def un16_zero kEntrySize_def del: replicate.simps)
  qed
  then show ?thesis by (simp add: never_deleted_def volume_example_ok(2))
qed

lemma volume_example_free: "free_clusters (fat volume_example) 2 = [3, 4]"
  by (simp add: free_clusters_def volume_example_def upt_rec)

theorem file_calls_roundtrip_witness:
  "\<exists>k1 fd k2 k3. OpenFile 1 (name83 (str ''memo'', str ''txt'')) O_CREAT kernel_example = Some (k1, (of_nat fd, 0))
     \<and> PutString blank_fonts 1 (of_nat fd) (str ''hello'') k1 = Some (k2, (5, 0))
     \<and> ReadFile blank_fonts 1 (of_nat fd) 3 k2 = Some (k3, (3, 0), str ''hel'')"
proof -
  let ?k = kernel_example
  have k: "vol ?k = volume_example" "tasking ?k = TaskManager_init (\<lambda>t. t)" by (simp_all add: kernel_example_def)
  have c: "2 \<le> card (set (free_clusters (fat (vol ?k)) 2))" by (simp add: k volume_example_free)
  note d = volume_example_clean [folded k(1)]
  have n: "name83 (str ''memo'', str ''txt'') \<noteq> str ''@stdin''" by (simp add: str_def kDot_def)
  have o: "vol_ok (vol ?k)" "dir_ok (vol ?k) (root_dir (vol ?k) # [])" "root_dir (vol ?k) \<noteq> 0"
    "FindFile (vol ?k) (name83 (str ''memo'', str ''txt'')) 0 = Some (None, False)"
    "get_task (tasking ?k) 1 = Some ((Task_init 1)\<lparr>level := 3, ready_or_running := True\<rparr>)"
    using memo_txt_is_new(2) init_example(4) unfolding k by (simp_all only: volume_example_ok)
  have s: "0 < length (str ''hello'')" "length (str ''hello'') \<le> 1024" "length (str ''hello'') \<le> bytes_per_cluster (vol ?k)"
    by (simp_all add: k volume_example_def str_def)
  have fl: "O_CREAT AND O_CREAT \<noteq> 0" "length (files ((Task_init 1)\<lparr>level := 3, ready_or_running := True\<rparr>)) < 2 ^ 31"
    by (simp_all add: O_CREAT_def Task_init_def)
  have l: "length (str ''hello'') = 5" "take 3 (str ''hello'') = str ''hel''" "length (str ''hel'') = 3"
    by (simp_all add: str_def)
  from file_calls_roundtrip [OF o(1-3) c d memo_txt_is_new(1) o(4) n fl(1) o(5) fl(2) s, of blank_fonts 3]
  show ?thesis unfolding l of_nat_numeral by (elim exE conjE) (intro exI conjI)
qed

end
