(* ===== verification/Mapped_Files.thy ===== *)
theory Mapped_Files imports Syscall begin

text \<open>
  The address space of an application: the demand paging range that \<^verbatim>\<open>DemandPages\<close> extends upwards, the
  regions that \<^verbatim>\<open>MapFile\<close> (\<^verbatim>\<open>kernel/syscall.cpp\<close>) lays below each other, and what a page fault
  (\<^verbatim>\<open>kernel/paging.cpp\<close>) shows there.
\<close>

section \<open>The layout of the address space\<close>

text \<open>
  From below: demand paging, free space, the regions of mapped files from \<open>file_map_end\<close> to the limit
  \<open>lim\<close> (the stack); every region begins at a page.
\<close>

definition page_aligned :: "u64 \<Rightarrow> bool" where
  "page_aligned a \<longleftrightarrow> unat a mod 4096 = 0"

definition space_ok :: "nat \<Rightarrow> Task \<Rightarrow> bool" where
  "space_ok lim t \<longleftrightarrow> unat (dpaging_begin t) \<le> unat (dpaging_end t) \<and> unat (dpaging_end t) \<le> unat (file_map_end t)
     \<and> unat (file_map_end t) \<le> lim \<and> page_aligned (dpaging_end t) \<and> page_aligned (file_map_end t)
     \<and> (\<forall>m \<in> set (file_maps t). page_aligned (vaddr_begin m) \<and> unat (vaddr_begin m) \<le> unat (vaddr_end m)
          \<and> unat (file_map_end t) \<le> unat (vaddr_begin m) \<and> unat (vaddr_end m) \<le> lim)
     \<and> (\<forall>i j. i < j \<longrightarrow> j < length (file_maps t) \<longrightarrow>
          unat (vaddr_end (file_maps t ! j)) \<le> unat (vaddr_begin (file_maps t ! i)))"

section \<open>Page tables and the offset of an address\<close>

lemma Part_offset [simp]: "1 \<le> l \<Longrightarrow> Part (a\<lparr>offset := x\<rparr>) l = Part a l"
  by (simp add: Part_def)

lemma walk_offset [simp]: "walk t l (a\<lparr>offset := x\<rparr>) s = walk t l a s"
proof (induction l arbitrary: t)
  case (Suc l)
  then show ?case by (auto split: option.split)
qed simp

lemma walk_pages [simp]: "walk t l a (s\<lparr>pages := p\<rparr>) = walk t l a s"
proof (induction l arbitrary: t)
  case (Suc l)
  then show ?case by (auto split: option.split)
qed simp

lemma path_offset [simp]: "path t l (a\<lparr>offset := x\<rparr>) s = path t l a s"
proof (induction l arbitrary: t)
  case (Suc l)
  then show ?case by (simp add: Let_def)
qed simp

lemma path_ok_offset [simp]: "path_ok t l (a\<lparr>offset := x\<rparr>) s = path_ok t l a s"
  by (simp add: path_ok_def)

lemma la_page: "v < 2 ^ 64 \<Longrightarrow> la_value ((la_of v)\<lparr>offset := 0\<rparr>) = v - v mod 4096"
proof -
  assume "v < 2 ^ 64"
  then have "la_value (la_of v) = v" using LinearAddress_parts_roundtrip [of v 1 0] by simp
  moreover have "la_value (la_of v) = la_value ((la_of v)\<lparr>offset := 0\<rparr>) + v mod 4096"
    by (simp add: la_value_def la_of_def)
  ultimately show ?thesis by simp
qed

text \<open>\<open>PreparePageCache\<close> puts what \<open>load\<close> returns at the beginning of a page for the address.\<close>

lemma PreparePageCache_spec:
  assumes "bmm_inv (manager s)" and "range_end (manager s) \<le> 2 ^ 40" and "path_ok root 4 (la_of a) s"
    and "walk root 4 (la_of a) s = None" and "a < 2 ^ 64" and "unat (vaddr_begin m) \<le> a - a mod 4096"
    and "load 4096 (a - a mod 4096 - unat (vaddr_begin m)) = Some out"
  shows "\<exists>s' err. PreparePageCache load root m a s = Some (err, s')
    \<and> (if err = kSuccess then (\<exists>e. walk root 4 (la_of a) s' = Some e \<and> user e \<and> addr e \<notin> allocated (manager s)
         \<and> pages s' (addr e) = overwrite 0 out (replicate 4096 0))
       else err = kNoEnoughMemory \<and> card (free_frames (manager s)) < 4)
    \<and> (\<forall>f \<in> allocated (manager s). pages s' f = pages s f)"
proof -
  let ?la = "(la_of a)\<lparr>offset := 0\<rparr>"
  have l: "1 \<le> (4 :: nat)" "(4 :: nat) \<le> 4" by simp_all
  have "path_ok root 4 ?la s" using assms(3) by simp
  from SetupPageMap_one [OF assms(1,2) this parts_ok_la_of(2) l, of True] obtain s1 r err where
    S: "SetupPageMap root 4 ?la 1 True s = Some (s1, r, err)" "setup_frame (path root 4 ?la s) s s1"
      "if err = kSuccess then r = 0 \<and> setup_ok root 4 ?la True s s1
       else err = kNoEnoughMemory \<and> card (free_frames (manager s)) < 4" by blast
  have sub: "sub64 (la_value ?la) (unat (vaddr_begin m)) = a - a mod 4096 - unat (vaddr_begin m)"
    using assms(5,6) by (simp add: la_page)
  have frame: "pages s1 f = pages s f" if "f \<in> allocated (manager s)" for f
    using S(2) that by (auto simp: setup_frame_def)
  show ?thesis
  proof (cases "err = kSuccess")
    case False
    then have "PreparePageCache load root m a s = Some (err, s1)"
      using S(1) by (simp add: PreparePageCache_def SetupPageMaps_def Let_def)
    with False frame S(3) show ?thesis by auto
  next
    case True
    with S(3) have "setup_ok root 4 ?la True s s1" by simp
    then obtain e where e: "walk root 4 (la_of a) s1 = Some e" "user e" "addr e \<notin> allocated (manager s)"
      "pages s1 (addr e) = replicate 4096 0"
      using assms(4) by (auto elim!: setup_okE simp del: walk.simps)
    let ?s = "s1\<lparr>pages := (pages s1)(addr e := overwrite 0 out (pages s1 (addr e)))\<rparr>"
    have "translate root ?la s1 = Some (addr e)" using e(1) by (simp add: translate_def Pointer_def)
    then have "PreparePageCache load root m a s = Some (kSuccess, ?s)"
      using S(1) True assms(7) sub by (simp add: PreparePageCache_def SetupPageMaps_def Let_def)
    moreover have "walk root 4 (la_of a) ?s = walk root 4 (la_of a) s1" by (rule walk_pages)
    ultimately show ?thesis using e frame by auto
  qed
qed

section \<open>Mapping a file\<close>

lemma space_ok_map:
  assumes "space_ok lim t" and "page_aligned vb" and "unat (dpaging_end t) \<le> unat vb" and "unat vb \<le> unat (file_map_end t)"
  shows "space_ok lim (t\<lparr>file_map_end := vb,
    file_maps := file_maps t @ [\<lparr>fm_fd = x, vaddr_begin = vb, vaddr_end = file_map_end t\<rparr>]\<rparr>)"
proof -
  let ?m = "\<lparr>fm_fd = x, vaddr_begin = vb, vaddr_end = file_map_end t\<rparr>"
  have "unat (vaddr_end ((file_maps t @ [?m]) ! j)) \<le> unat (vaddr_begin ((file_maps t @ [?m]) ! i))"
    if "i < j" "j < length (file_maps t @ [?m])" for i j
  proof (cases "j < length (file_maps t)")
    case True
    then show ?thesis using assms(1) that(1) by (simp add: space_ok_def nth_append)
  next
    case False
    then have "j = length (file_maps t)" "file_maps t ! i \<in> set (file_maps t)" using that by simp_all
    then show ?thesis using assms(1) that(1) by (simp add: space_ok_def nth_append)
  qed
  then show ?thesis using assms by (auto simp: space_ok_def)
qed

text \<open>A fault in the last region, which no other region and not the demand paging range covers.\<close>

lemma fault_in_last_region:
  assumes "space_ok lim t" and "file_maps t = ms @ [m]" and "unat (vaddr_begin m) \<le> a" and "a < unat (vaddr_end m)"
    and "file_of_int t (fm_fd m) = Some h" and "\<not> bit code 0"
  shows "HandlePageFault load root t code a s = PreparePageCache (load h) root m a s"
proof -
  have "unat (vaddr_end m) \<le> unat (vaddr_begin x)" if "x \<in> set ms" for x
  proof -
    from that obtain q where "q < length ms" "x = ms ! q" by (auto simp: in_set_conv_nth)
    moreover have "unat (vaddr_end (file_maps t ! length ms)) \<le> unat (vaddr_begin (file_maps t ! q))" if "q < length ms" for q
    proof -
      have "\<forall>i j. i < j \<longrightarrow> j < length (file_maps t) \<longrightarrow>
          unat (vaddr_end (file_maps t ! j)) \<le> unat (vaddr_begin (file_maps t ! i))"
        using assms(1) by (simp add: space_ok_def)
      from this [rule_format, OF that] show ?thesis using assms(2) by simp
    qed
    ultimately show ?thesis using assms(2) by (auto simp: nth_append)
  qed
  then have "\<forall>x \<in> set ms. \<not> (unat (vaddr_begin x) \<le> a \<and> a < unat (vaddr_end x))" using assms(4) by fastforce
  then have "FindFileMapping (file_maps t) a = Some m"
    using assms(2-4) by (simp add: FindFileMapping_def find_append find_None_iff [THEN iffD2])
  moreover have "unat (dpaging_end t) \<le> unat (vaddr_begin m)"
    using assms(1,2) by (auto simp: space_ok_def)
  moreover have "0 \<le> fm_fd m" "arr_get (files t) (nat (fm_fd m)) = Some (Some h)"
    using assms(5) by (auto simp: file_of_int_def file_of_def arr_get_def split: if_splits)
  ultimately show ?thesis using assms(3,6) by (simp add: HandlePageFault_def Let_def)
qed

text \<open>
  C10: a file mapped into memory is seen there.  \<^verbatim>\<open>MapFile\<close> on an open file that fits between the
  demand paging range and the last region returns a page-aligned address with the whole file between
  it and the last region, tells the size, keeps the layout of the address space in order (ranges apart
  from each other), and changes nothing but the task's list of regions and its limit.  A later fault on an
  address inside the file that is not mapped yet is handled by \<^verbatim>\<open>HandlePageFault\<close>: afterwards the byte at
  the address is the byte of the file at that distance from the beginning, in a page of the user that was
  free.  The only error is \<open>kNoEnoughMemory\<close>, and only with fewer than four free frames (one for each
  level of the tables).  In both cases pages in use keep their bytes.
\<close>

theorem mapped_file_is_shown:
  assumes "get_task (tasking k) i = Some t" and "space_ok lim t" and "file_of t fd = Some h" and "fd < 2 ^ 31"
    and "h < length (descriptors k)" and "descriptors k ! h = FatFd fdesc" and "vol_ok (vol k)"
    and "get_entry (vol k) (fat_entry fdesc) = Some e" and "file_ok (vol k) e cl"
    and "unat (file_size e) + unat (dpaging_end t) \<le> unat (file_map_end t)"
  shows "\<exists>k' t' vb. MapFile i (of_nat fd) k = Some (k', (vb, 0), Some (ucast (file_size e)))
    \<and> k' = k\<lparr>tasking := upd_task i (\<lambda>u. u\<lparr>file_map_end := vb, file_maps := file_maps u @
         [\<lparr>fm_fd = int fd, vaddr_begin = vb, vaddr_end = file_map_end t\<rparr>]\<rparr>) (tasking k)\<rparr>
    \<and> get_task (tasking k') i = Some t' \<and> space_ok lim t' \<and> page_aligned vb
    \<and> unat vb + unat (file_size e) \<le> unat (file_map_end t) \<and> unat (dpaging_end t) \<le> unat vb
    \<and> (\<forall>s root code a. bmm_inv (manager s) \<and> range_end (manager s) \<le> 2 ^ 40 \<and> path_ok root 4 (la_of a) s
         \<and> walk root 4 (la_of a) s = None \<and> \<not> bit code 0 \<and> unat vb \<le> a \<and> a < unat vb + unat (file_size e) \<longrightarrow>
       (\<exists>s' err. HandlePageFault (fd_load k') root t' code a s = Some (err, s')
         \<and> (if err = kSuccess then (\<exists>pe. walk root 4 (la_of a) s' = Some pe \<and> user pe \<and> addr pe \<notin> allocated (manager s)
              \<and> pages s' (addr pe) ! (a mod 4096) = file_bytes (vol k) e cl ! (a - unat vb))
            else err = kNoEnoughMemory \<and> card (free_frames (manager s)) < 4)
         \<and> (\<forall>f \<in> allocated (manager s). pages s' f = pages s f)))"
proof -
  let ?n = "unat (file_size e)" and ?bs = "file_bytes (vol k) e cl"
  define vb where "vb = (file_map_end t - ucast (file_size e)) AND 0xfffffffffffff000"
  define m where "m = \<lparr>fm_fd = int fd, vaddr_begin = vb, vaddr_end = file_map_end t\<rparr>"
  let ?t = "t\<lparr>file_map_end := vb, file_maps := file_maps t @ [m]\<rparr>"
  let ?k = "k\<lparr>tasking := upd_task i (\<lambda>t. t\<lparr>file_map_end := vb, file_maps := file_maps t @ [m]\<rparr>) (tasking k)\<rparr>"
  have "unat (file_map_end t - ucast (file_size e)) = unat (file_map_end t) - ?n"
    using assms(10) by (simp add: unat_sub word_le_nat_alt)
  then have vbv: "unat vb = (unat (file_map_end t) - ?n) div 4096 * 4096" by (simp add: vb_def unat_page_mask)
  then have al: "page_aligned vb" by (simp add: page_aligned_def)
  have room: "unat vb + ?n \<le> unat (file_map_end t)" using assms(10) vbv div_times_less_eq_dividend [of "unat (file_map_end t) - ?n" 4096] by linarith
  have "unat (dpaging_end t) div 4096 \<le> (unat (file_map_end t) - ?n) div 4096"
    by (rule div_le_mono) (use assms(10) in linarith)
  moreover have "unat (dpaging_end t) div 4096 * 4096 = unat (dpaging_end t)"
    using assms(2) by (simp add: space_ok_def page_aligned_def mod_0_imp_dvd)
  ultimately have low: "unat (dpaging_end t) \<le> unat vb" unfolding vbv by (metis mult_le_mono1)
  have sz: "fd_size h k = Some ?n"
    using assms(5,6,8) by (simp add: fd_size_def arr_get_def Size_def)
  have "file_of_int t (int fd) = Some h" using assms(3) by (simp add: file_of_int_def)
  then have M: "MapFile i (of_nat fd) k = Some (?k, (vb, 0), Some (ucast (file_size e)))"
    using assms(1,4) sz by (simp add: MapFile_def int_arg_of_nat vb_def m_def Let_def)
  have T: "get_task (tasking ?k) i = Some ?t"
    using get_task_upd_Some [OF assms(1), of "\<lambda>t. t\<lparr>file_map_end := vb, file_maps := file_maps t @ [m]\<rparr>" i] by simp
  have sp: "space_ok lim ?t" using space_ok_map [OF assms(2) al low, of "int fd"] room by (simp add: m_def)
  have len: "length ?bs = ?n"
    using assms(9) content_length [OF assms(7), of cl] by (simp add: file_ok_def file_bytes_def)
  have fault: "\<exists>s' err. HandlePageFault (fd_load ?k) root ?t code a s = Some (err, s')
      \<and> (if err = kSuccess then (\<exists>pe. walk root 4 (la_of a) s' = Some pe \<and> user pe \<and> addr pe \<notin> allocated (manager s)
           \<and> pages s' (addr pe) ! (a mod 4096) = ?bs ! (a - unat vb))
         else err = kNoEnoughMemory \<and> card (free_frames (manager s)) < 4)
      \<and> (\<forall>f \<in> allocated (manager s). pages s' f = pages s f)"
    if P: "bmm_inv (manager s)" "range_end (manager s) \<le> 2 ^ 40" "path_ok root 4 (la_of a) s"
      "walk root 4 (la_of a) s = None" "\<not> bit code 0" "unat vb \<le> a" "a < unat vb + ?n" for s root code a
  proof -
    define off where "off = a - a mod 4096 - unat vb"
    have base: "unat vb \<le> a - a mod 4096"
    proof -
      have "unat vb = unat vb div 4096 * 4096" using al by (simp add: page_aligned_def mod_0_imp_dvd)
      also have "\<dots> \<le> a div 4096 * 4096" using P(6) by (intro mult_le_mono1 div_le_mono)
      finally show ?thesis by (simp add: minus_mod_eq_div_mult)
    qed
    then have a: "a - unat vb = off + a mod 4096" using P(6) unfolding off_def by (simp add: mod_less_eq_dividend)
    have "a - unat vb < ?n" using P(6,7) by (simp add: less_diff_conv2 add.commute)
    with a have o: "off + a mod 4096 < ?n" by simp
    have a64: "a < 2 ^ 64" using P(7) room unsigned_less [of "file_map_end t", where 'a = nat] by simp
    have "HandlePageFault (fd_load ?k) root ?t code a s = PreparePageCache (fd_load ?k h) root m a s"
      by (rule fault_in_last_region [OF sp])
        (use P(5-7) room \<open>file_of_int t (int fd) = Some h\<close> in \<open>auto simp: m_def file_of_int_def file_of_def split: if_splits\<close>)
    moreover have "fd_load ?k h 4096 off = Some (take 4096 (drop off ?bs))"
      using Load_returns_part [OF assms(7,8,9), of off 4096] o assms(5,6) by (simp add: fd_load_def arr_get_def)
    then have "fd_load ?k h 4096 (a - a mod 4096 - unat (vaddr_begin m)) = Some (take 4096 (drop off ?bs))"
      by (simp add: m_def off_def)
    moreover have "unat (vaddr_begin m) \<le> a - a mod 4096" using base by (simp add: m_def)
    moreover have "overwrite 0 (take 4096 (drop off ?bs)) (replicate 4096 0) ! (a mod 4096) = ?bs ! (a - unat vb)"
    proof -
      have "a mod 4096 < ?n - off" using o by linarith
      then show ?thesis using o len a by (simp add: overwrite_def nth_append del: replicate.simps)
    qed
    ultimately show ?thesis using PreparePageCache_spec [OF P(1-4) a64, of m "fd_load ?k h" "take 4096 (drop off ?bs)"]
      by (simp split del: if_split) (elim exE conjE, rule exI, rule exI, fastforce split: if_splits)
  qed
  show ?thesis
  proof (rule exI [of _ ?k], rule exI [of _ ?t], rule exI [of _ vb], intro conjI allI impI)
    show "?k = k\<lparr>tasking := upd_task i (\<lambda>u. u\<lparr>file_map_end := vb, file_maps := file_maps u @
        [\<lparr>fm_fd = int fd, vaddr_begin = vb, vaddr_end = file_map_end t\<rparr>]\<rparr>) (tasking k)\<rparr>"
      by (simp only: m_def)
  qed (use M T sp al room low fault in blast)+
qed

text \<open>A task with the file of 40 bytes open, below the limit 4096; the fault is at byte 35.\<close>

definition map_task :: Task where
  "map_task = (Task_init 1)\<lparr>files := [Some 0], file_map_end := 4096\<rparr>"

definition map_example :: kernel where
  "map_example = \<lparr>tasking = empty_manager\<lparr>tasks := [map_task]\<rparr>, timer_mgr = TimerManager_init,
     vol = file_volume_example, descriptors = [FatFd (FileDescriptor_init (2, 0))], terminals = (\<lambda>_. None),
     layer_tasks = (\<lambda>_. None), started = []\<rparr>"

theorem mapped_file_is_shown_witness:
  "\<exists>k' t' s' pe. MapFile 1 (of_nat 0) map_example = Some (k', (0, 0), Some 40) \<and> get_task (tasking k') 1 = Some t'
     \<and> HandlePageFault (fd_load k') 5 t' 4 35 paging_example = Some (kSuccess, s') \<and> pages s' 4 = replicate 4096 4
     \<and> walk 5 4 (la_of 35) s' = Some pe \<and> pages s' (addr pe) ! 35 = file_bytes file_volume_example file_entry_example [3, 4] ! 35"
proof -
  let ?k = map_example and ?fd = "FileDescriptor_init (2, 0)"
  have h: "get_task (tasking ?k) 1 = Some map_task" "file_of map_task 0 = Some 0" "(0 :: nat) < 2 ^ 31"
    "0 < length (descriptors ?k)" "descriptors ?k ! 0 = FatFd ?fd" "vol_ok (vol ?k)"
    "get_entry (vol ?k) (fat_entry ?fd) = Some file_entry_example" "file_ok (vol ?k) file_entry_example [3, 4]"
    using file_volume_example_ok
    by (simp_all add: map_example_def map_task_def get_task_def Task_init_def file_of_def FileDescriptor_init_def)
  have n: "unat (file_size file_entry_example) = 40" by (simp add: file_entry_example_def)
  have sp: "space_ok 4096 map_task" "unat (file_size file_entry_example) + unat (dpaging_end map_task) \<le> unat (file_map_end map_task)"
    unfolding n by (simp_all add: space_ok_def map_task_def Task_init_def page_aligned_def)
  from mapped_file_is_shown [OF h(1) sp(1) h(2-8) sp(2)] obtain k' t' vb where
    M: "MapFile 1 (of_nat 0) ?k = Some (k', (vb, 0), Some (ucast (file_size file_entry_example)))"
      "get_task (tasking k') 1 = Some t'" "unat vb + 40 \<le> 4096" "page_aligned vb"
    and F: "\<forall>s root code a. bmm_inv (manager s) \<and> range_end (manager s) \<le> 2 ^ 40 \<and> path_ok root 4 (la_of a) s
         \<and> walk root 4 (la_of a) s = None \<and> \<not> bit code 0 \<and> unat vb \<le> a \<and> a < unat vb + 40 \<longrightarrow>
       (\<exists>s' err. HandlePageFault (fd_load k') root t' code a s = Some (err, s')
         \<and> (if err = kSuccess then (\<exists>pe. walk root 4 (la_of a) s' = Some pe \<and> user pe \<and> addr pe \<notin> allocated (manager s)
              \<and> pages s' (addr pe) ! (a mod 4096) = file_bytes (vol ?k) file_entry_example [3, 4] ! (a - unat vb))
            else err = kNoEnoughMemory \<and> card (free_frames (manager s)) < 4)
         \<and> (\<forall>f \<in> allocated (manager s). pages s' f = pages s f))"
    unfolding n by (auto simp: map_task_def)
  have "unat vb < 4096" using M(3) by simp
  then have "unat vb = 0" using M(4) by (simp add: page_aligned_def)
  then have vb: "vb = 0" by (simp add: unat_eq_0)
  have "la_of 35 = (la_of 0)\<lparr>offset := 35\<rparr>" by (simp add: la_of_def)
  then have p: "path_ok 5 4 (la_of 35) paging_example" "walk 5 4 (la_of 35) paging_example = None"
    using paging_example_ok(5,7) by simp_all
  from F [rule_format, of paging_example 5 35 4] obtain s' pe where
    H: "HandlePageFault (fd_load k') 5 t' 4 35 paging_example = Some (kSuccess, s')"
    "walk 5 4 (la_of 35) s' = Some pe" "pages s' (addr pe) ! 35 = file_bytes (vol ?k) file_entry_example [3, 4] ! 35"
    "\<forall>f \<in> allocated (manager paging_example). pages s' f = pages paging_example f"
    using p paging_example_ok(1,2) paging_example_free(2) vb by (auto simp del: walk.simps split: if_splits)
  moreover have "pages paging_example 4 = replicate 4096 4" by (simp add: paging_example_def del: replicate.simps)
  ultimately have "pages s' 4 = replicate 4096 4" using paging_example_ok(3) [of 4] by simp
  moreover have "vol ?k = file_volume_example" by (simp add: map_example_def)
  ultimately show ?thesis using M(1,2) H(1-3) n
    unfolding vb by (intro exI [of _ k'] exI [of _ t'] exI [of _ s'] exI [of _ pe]) (simp add: file_entry_example_def del: walk.simps)
qed

end
