(* ===== verification/Event_Calls.thy ===== *)
theory Event_Calls imports Syscall begin

text \<open>
  Events of applications: \<^verbatim>\<open>ReadEvent\<close> translates the messages of a task in their order, and a timer of
  \<^verbatim>\<open>CreateTimer\<close> (\<^verbatim>\<open>kernel/syscall.cpp\<close>) comes back as an event after as many ticks
  (\<^verbatim>\<open>kernel/timer.cpp\<close>) as it was set for.
\<close>

section \<open>Reading events\<close>

text \<open>The events of a list of messages, without the messages that make none.\<close>

fun events_of :: "Message list \<Rightarrow> AppEvent list" where
  "events_of [] = []"
| "events_of (m # ms) = (case event_of m of Some (Some e) \<Rightarrow> e # events_of ms | _ \<Rightarrow> events_of ms)"

lemma events_of_append [simp]: "events_of (xs @ ys) = events_of xs @ events_of ys"
  by (induction xs) (auto split: option.split)

lemma read_events_spec:
  assumes "\<forall>m \<in> set ms. event_of m \<noteq> None" and "length evs \<le> len"
  shows "if evs @ events_of ms = [] \<and> 0 < len then read_events len ms evs = None
    else \<exists>done rest. read_events len ms evs = Some (take len (evs @ events_of ms), rest) \<and> ms = done @ rest
      \<and> evs @ events_of done = take len (evs @ events_of ms)"
  using assms
proof (induction len ms evs rule: read_events.induct)
  case (1 len evs)
  then show ?case by (cases evs) auto
next
  case (2 len m ms evs)
  show ?case
  proof (cases "length evs < len")
    case False
    then have "length evs = len" using "2.prems" by simp
    then show ?thesis by auto
  next
    case True
    show ?thesis
    proof (cases "the (event_of m)")
      case None
      then have m: "event_of m = Some None" using "2.prems" by auto
      have "if evs @ events_of ms = [] \<and> 0 < len then read_events len ms evs = None
        else \<exists>done rest. read_events len ms evs = Some (take len (evs @ events_of ms), rest) \<and> ms = done @ rest
          \<and> evs @ events_of done = take len (evs @ events_of ms)"
        using "2.IH"(1) [OF True m] "2.prems" by simp
      then show ?thesis
      proof (cases "evs @ events_of ms = [] \<and> 0 < len")
        case False
        then obtain dn rest where "read_events len ms evs = Some (take len (evs @ events_of ms), rest)" "ms = dn @ rest"
          "evs @ events_of dn = take len (evs @ events_of ms)" using \<open>if _ then _ else _\<close> by auto
        then show ?thesis using True m False by (auto intro!: exI [of _ "m # dn"])
      qed (use m in auto)
    next
      case (Some e)
      then have m: "event_of m = Some (Some e)" using "2.prems" by auto
      obtain dn rest where "read_events len ms (evs @ [e]) = Some (take len (evs @ e # events_of ms), rest)" "ms = dn @ rest"
          "evs @ e # events_of dn = take len (evs @ e # events_of ms)"
        using "2.IH"(2) [OF True m refl] "2.prems" True by auto
      then show ?thesis using True m by (auto intro!: exI [of _ "m # dn"])
    qed
  qed
qed

text \<open>
  C32: \<^verbatim>\<open>ReadEvent\<close> gives an application its events in order.  It waits exactly when none of the messages
  of the task makes an event; otherwise it returns the first \<open>len\<close> events and leaves in the queue the
  messages behind them, so that the next call goes on where this one ended.
\<close>

theorem ReadEvent_in_order:
  assumes "get_task (tasking k) i = Some t" and "\<forall>m \<in> set (msgs t). event_of m \<noteq> None"
    and "0x8000000000000000 \<le> buf"
  shows "if events_of (msgs t) = [] \<and> 0 < len then ReadEvent i buf len k = None
    else \<exists>k' done rest. ReadEvent i buf len k
        = Some (k', (of_nat (min len (length (events_of (msgs t)))), 0), take len (events_of (msgs t)))
      \<and> get_task (tasking k') i = Some (t\<lparr>msgs := rest\<rparr>) \<and> msgs t = done @ rest
      \<and> events_of done = take len (events_of (msgs t)) \<and> events_of rest = drop len (events_of (msgs t))"
proof -
  have b: "\<not> buf < 0x8000000000000000" using assms(3) by (simp add: not_less)
  note R = read_events_spec [OF assms(2), of "[]" len, unfolded append_Nil list.size, OF le0]
  show ?thesis
  proof (cases "events_of (msgs t) = [] \<and> 0 < len")
    case True
    with R assms(1) b show ?thesis by (simp add: ReadEvent_def)
  next
    case False
    from R [unfolded if_not_P [OF False]] obtain dn rest where r: "read_events len (msgs t) [] = Some (take len (events_of (msgs t)), rest)"
      "msgs t = dn @ rest" "events_of dn = take len (events_of (msgs t))" by blast
    let ?k = "k\<lparr>tasking := upd_task i (\<lambda>t. t\<lparr>msgs := rest\<rparr>) (tasking k)\<rparr>"
    have "get_task (tasking ?k) i = Some (t\<lparr>msgs := rest\<rparr>)"
      using get_task_upd_Some [OF assms(1), of "\<lambda>t. t\<lparr>msgs := rest\<rparr>" i] by simp
    moreover have "take len (events_of (msgs t)) @ events_of rest = events_of (msgs t)"
      using r(2,3) by (metis events_of_append)
    then have "take len (events_of (msgs t)) @ events_of rest = take len (events_of (msgs t)) @ drop len (events_of (msgs t))"
      by (simp only: append_take_drop_id)
    then have "events_of rest = drop len (events_of (msgs t))" by (simp only: same_append_eq)
    moreover have "ReadEvent i buf len k
        = Some (?k, (of_nat (min len (length (events_of (msgs t)))), 0), take len (events_of (msgs t)))"
      using assms(1) b r(1) by (simp add: ReadEvent_def min.commute)
    ultimately show ?thesis unfolding if_not_P [OF False] using r(2,3) by blast
  qed
qed

text \<open>The release of a key, a message of a layer, and the request to close the window; then a mouse button.\<close>

definition event_task :: Task where
  "event_task = (Task_init 5)\<lparr>msgs :=
     [\<lparr>msg_type = kKeyPush, src_task_id = 0, arg = KeyArg 0 20 113 False\<rparr>,
      \<lparr>msg_type = kWindowActive, src_task_id = 0, arg = WindowActiveArg True\<rparr>,
      \<lparr>msg_type = kWindowClose, src_task_id = 0, arg = WindowCloseArg 7\<rparr>,
      \<lparr>msg_type = kMouseButton, src_task_id = 0, arg = MouseButtonArg (3, 4) True 0\<rparr>]\<rparr>"

definition event_example :: kernel where
  "event_example = \<lparr>tasking = empty_manager\<lparr>tasks := [event_task]\<rparr>, timer_mgr = TimerManager_init,
     vol = volume_example, descriptors = [], terminals = (\<lambda>_. None),
     layer_tasks = (\<lambda>_. None), started = []\<rparr>"

theorem ReadEvent_in_order_witness:
  "\<exists>k'. ReadEvent 5 0xffff800000000000 2 event_example = Some (k', (2, 0), [EvKeyPush 0 20 113 False, EvQuit])"
proof -
  have t: "get_task (tasking event_example) 5 = Some event_task"
    by (simp add: event_example_def get_task_def event_task_def Task_init_def)
  have e: "\<forall>m \<in> set (msgs event_task). event_of m \<noteq> None"
    "events_of (msgs event_task) = [EvKeyPush 0 20 113 False, EvQuit, EvMouseButton (3, 4) True 0]"
    by (simp_all add: event_task_def event_of_def)
  have b: "0x8000000000000000 \<le> (0xffff800000000000 :: u64)" by simp
  from ReadEvent_in_order [OF t e(1) b, of 2] show ?thesis unfolding e(2) by auto
qed

section \<open>Timers\<close>

definition timer_of :: "tid \<Rightarrow> Timer \<Rightarrow> bool" where
  "timer_of i x \<longleftrightarrow> timer_task x = i \<and> \<not> is_task_timer x"

text \<open>The timer interrupt, \<open>n\<close> times.\<close>

fun ticks :: "nat \<Rightarrow> TimerManager \<Rightarrow> TaskManager \<Rightarrow> (TimerManager \<times> TaskManager) option" where
  "ticks 0 tm m = Some (tm, m)"
| "ticks (Suc n) tm m = (case Tick tm m of None \<Rightarrow> None | Some (tm', m', _) \<Rightarrow> ticks n tm' m')"

lemma Tick_one_task:
  assumes "sched_inv m" and "timers_sorted (timers tm)" and "\<exists>x \<in> set (timers tm). tick tm + 1 < timeout x"
    and "get_task m i = Some t"
  obtains tm' m' b t' where "Tick tm m = Some (tm', m', b)" "tick tm' = tick tm + 1" "sched_inv m'" "timers_sorted (timers tm')"
    "get_task m' i = Some t'" "msgs t' = msgs t @ map timeout_msg (due_for (tick tm + 1) i (timers tm))"
    "filter_mset (timer_of i) (mset (timers tm'))
       = filter_mset (\<lambda>x. tick tm + 1 < timeout x) (filter_mset (timer_of i) (mset (timers tm)))"
    "\<forall>x \<in> set (timers tm). tick tm + 1 < timeout x \<longrightarrow> x \<in> set (timers tm')"
proof -
  let ?now = "tick tm + 1"
  from tick_loop_spec [OF assms(1,2,3), of False] obtain q' m' b where L:
    "tick_loop ?now (timers tm) m False = Some (q', m', b)" "timers_sorted q'" "sched_inv m'"
    "mset q' = filter_mset (\<lambda>x. ?now < timeout x) (mset (timers tm))
       + replicate_mset (length (filter (\<lambda>x. timeout x \<le> ?now \<and> is_task_timer x) (timers tm))) (rearmed ?now)"
    "map_option msgs (get_task m' i) = map_option (\<lambda>t. msgs t @ map timeout_msg (due_for ?now i (timers tm))) (get_task m i)"
    by blast
  have na: "\<not> timer_of i (rearmed ?now)" by (simp add: timer_of_def rearmed_def Timer_init_def)
  obtain t' where t': "get_task m' i = Some t'" "msgs t' = msgs t @ map timeout_msg (due_for ?now i (timers tm))"
    using L(5) assms(4) by auto
  show thesis
  proof (rule that [OF _ _ L(3) _ t'])
    show "Tick tm m = Some (tm\<lparr>tick := ?now, timers := q'\<rparr>, m', b)" using L(1) by (simp add: Tick_def)
    show "filter_mset (timer_of i) (mset (timers (tm\<lparr>tick := ?now, timers := q'\<rparr>)))
       = filter_mset (\<lambda>x. ?now < timeout x) (filter_mset (timer_of i) (mset (timers tm)))"
      using na by (simp add: L(4) multiset_eq_iff)
    have "x \<in># mset q'" if "x \<in> set (timers tm)" "?now < timeout x" for x
      using that unfolding L(4) by simp
    then show "\<forall>x \<in> set (timers tm). ?now < timeout x \<longrightarrow> x \<in> set (timers (tm\<lparr>tick := ?now, timers := q'\<rparr>))" by simp
  qed (use L(2) in simp_all)
qed

lemma due_for_mset: "mset (due_for now i q) = filter_mset (\<lambda>x. timeout x \<le> now) (filter_mset (timer_of i) (mset q))"
  by (simp add: due_for_def timer_of_def mset_filter multiset_eq_iff)

lemma due_none: "filter_mset (timer_of i) (mset q) = {#} \<Longrightarrow> due_for now i q = []"
  using due_for_mset [of now i q] by (simp only: filter_empty_mset mset_zero_iff)

lemma due_one: "filter_mset (timer_of i) (mset q) = {#x#} \<Longrightarrow> due_for now i q = (if timeout x \<le> now then [x] else [])"
  using due_for_mset [of now i q] by (cases "timeout x \<le> now") (auto simp: mset_single_iff_right)

lemma ticks_none:
  assumes "sched_inv m" and "timers_sorted (timers tm)" and "\<exists>y \<in> set (timers tm). tick tm + n < timeout y"
    and "get_task m i = Some t" and "filter_mset (timer_of i) (mset (timers tm)) = {#}"
  shows "\<exists>tm' m' t'. ticks n tm m = Some (tm', m') \<and> get_task m' i = Some t' \<and> msgs t' = msgs t"
  using assms
proof (induction n arbitrary: tm m t)
  case 0
  then show ?case by simp
next
  case (Suc n)
  from Suc.prems(3) obtain y where y: "y \<in> set (timers tm)" "tick tm + Suc n < timeout y" by blast
  have later: "\<exists>y \<in> set (timers tm). tick tm + 1 < timeout y" by (rule bexI [OF _ y(1)]) (use y(2) in linarith)
  from Tick_one_task [OF Suc.prems(1,2) later Suc.prems(4)] obtain tm1 m1 b t1 where
    T: "Tick tm m = Some (tm1, m1, b)" "tick tm1 = tick tm + 1" "sched_inv m1" "timers_sorted (timers tm1)"
      "get_task m1 i = Some t1" "msgs t1 = msgs t @ map timeout_msg (due_for (tick tm + 1) i (timers tm))"
      "filter_mset (timer_of i) (mset (timers tm1))
       = filter_mset (\<lambda>x. tick tm + 1 < timeout x) (filter_mset (timer_of i) (mset (timers tm)))"
      "\<forall>x \<in> set (timers tm). tick tm + 1 < timeout x \<longrightarrow> x \<in> set (timers tm1)" by metis
  have "\<exists>y \<in> set (timers tm1). tick tm1 + n < timeout y"
    by (rule bexI [of _ y]) (use y T(2,8) in auto)
  from Suc.IH [OF T(3,4) this T(5)] T(1,6,7) Suc.prems(5) show ?case by (simp add: due_none)
qed

lemma ticks_one:
  assumes "sched_inv m" and "timers_sorted (timers tm)" and "\<exists>y \<in> set (timers tm). tick tm + n < timeout y"
    and "get_task m i = Some t" and "filter_mset (timer_of i) (mset (timers tm)) = {#x#}"
  shows "\<exists>tm' m' t'. ticks n tm m = Some (tm', m') \<and> get_task m' i = Some t'
    \<and> msgs t' = msgs t @ (if 0 < n \<and> timeout x \<le> tick tm + n then [timeout_msg x] else [])"
  using assms
proof (induction n arbitrary: tm m t)
  case 0
  then show ?case by simp
next
  case (Suc n)
  from Suc.prems(3) obtain y where y: "y \<in> set (timers tm)" "tick tm + Suc n < timeout y" by blast
  have later: "\<exists>y \<in> set (timers tm). tick tm + 1 < timeout y" by (rule bexI [OF _ y(1)]) (use y(2) in linarith)
  from Tick_one_task [OF Suc.prems(1,2) later Suc.prems(4)] obtain tm1 m1 b t1 where
    T: "Tick tm m = Some (tm1, m1, b)" "tick tm1 = tick tm + 1" "sched_inv m1" "timers_sorted (timers tm1)"
      "get_task m1 i = Some t1" "msgs t1 = msgs t @ map timeout_msg (due_for (tick tm + 1) i (timers tm))"
      "filter_mset (timer_of i) (mset (timers tm1))
       = filter_mset (\<lambda>x. tick tm + 1 < timeout x) (filter_mset (timer_of i) (mset (timers tm)))"
      "\<forall>x \<in> set (timers tm). tick tm + 1 < timeout x \<longrightarrow> x \<in> set (timers tm1)" by metis
  have n: "\<exists>y \<in> set (timers tm1). tick tm1 + n < timeout y"
    by (rule bexI [of _ y]) (use y T(2,8) in auto)
  show ?case
  proof (cases "timeout x \<le> tick tm + 1")
    case True
    then have "filter_mset (timer_of i) (mset (timers tm1)) = {#}" using T(7) Suc.prems(5) by simp
    from ticks_none [OF T(3,4) n T(5) this] True T(1,6) Suc.prems(5) show ?thesis by (auto simp: due_one)
  next
    case False
    then have "filter_mset (timer_of i) (mset (timers tm1)) = {#x#}" using T(7) Suc.prems(5) by simp
    from Suc.IH [OF T(3,4) n T(5) this] False T(1,2,6) Suc.prems(5) show ?thesis by (cases n) (auto simp: due_one)
  qed
qed

text \<open>
  C14: a timer comes back as an event.  An application without other timers and messages sets a
  timer of \<open>ms\<close> milliseconds with a positive value; then \<open>n\<close> timer interrupts pass.  The call succeeds,
  \<^verbatim>\<open>ReadEvent\<close> waits as long as \<open>n\<close> is below the deadline of \<open>ms/10\<close> ticks (at least one), and from then on
  returns exactly one event, with the value given to \<^verbatim>\<open>CreateTimer\<close> and the tick it was due.
\<close>

theorem timer_becomes_event:
  assumes "reachable (tasking k)" and "timers_sorted (timers (timer_mgr k))" and "get_task (tasking k) i = Some t" and "msgs t = []"
    and "filter_mset (timer_of i) (mset (timers (timer_mgr k))) = {#}"
    and "\<exists>y \<in> set (timers (timer_mgr k)). tick (timer_mgr k) + n < timeout y"
    and "0 < int_arg v" and "bit mode 0" and "unat ms * 100 < 2 ^ 64"
    and "tick (timer_mgr k) + unat ms div 10 < 2 ^ 64" and "0x8000000000000000 \<le> buf" and "0 < len"
  defines "due \<equiv> tick (timer_mgr k) + unat ms div 10"
  shows "\<exists>k1 r tm' m'. CreateTimer i mode v ms k = (k1, (r, 0)) \<and> ticks n (timer_mgr k1) (tasking k1) = Some (tm', m')
    \<and> (if n < max 1 (unat ms div 10) then ReadEvent i buf len (k1\<lparr>timer_mgr := tm', tasking := m'\<rparr>) = None
       else \<exists>k2. ReadEvent i buf len (k1\<lparr>timer_mgr := tm', tasking := m'\<rparr>)
         = Some (k2, (1, 0), [EvTimerTimeout (of_nat due) (int_arg v)]))"
proof -
  let ?tm = "timer_mgr k"
  define x where "x = Timer_init due (- int_arg v) i"
  let ?tm1 = "AddTimer x ?tm"
  have inv: "sched_inv (tasking k)"
    using assms(1) by (induction rule: reachable.induct) (use init_inv step_inv in blast)+
  let ?a = "ms * of_nat kTimerFreq div 1000" and ?b = "of_nat (tick ?tm) :: u64"
  have a: "unat ?a = unat ms div 10"
  proof -
    have "unat (ms * 100) = unat ms * 100" using assms(9) by (subst unat_mult_lem [THEN iffD1]) simp_all
    then show ?thesis by (simp add: kTimerFreq_def unat_div div_mult2_eq [symmetric])
  qed
  have b: "unat ?b = tick ?tm"
    using assms(10) by (simp add: unsigned_of_nat take_bit_nat_eq_self)
  have "unat ?a + unat ?b < 2 ^ LENGTH(64)" using assms(10) unfolding a b by simp
  then have "unat (?a + ?b) = unat ?a + unat ?b" by (rule unat_add_lem [THEN iffD1])
  then have "unat (?a + ?b) = due" unfolding a b due_def by simp
  then obtain r where C: "CreateTimer i mode v ms k = (k\<lparr>timer_mgr := ?tm1\<rparr>, (r, 0))"
    using assms(7,8) by (simp add: CreateTimer_def Let_def x_def)
  have val: "timer_val x = - int_arg v" "timer_task x = i" "timeout x = due" by (simp_all add: x_def Timer_init_def)
  have "int_arg v < 2 ^ 31" using sint_lt [of "ucast v :: 32 word"] by (simp add: int_arg_def)
  then have "timer_of i x" by (simp add: timer_of_def val kTaskTimerValue_def)
  then have f: "filter_mset (timer_of i) (mset (timers ?tm1)) = {#x#}" using assms(5) by (simp add: AddTimer_def timer_push_set)
  have so: "timers_sorted (timers ?tm1)" using timer_push_sorted [OF assms(2)] by (simp add: AddTimer_def)
  have "set (timers ?tm1) = insert x (set (timers ?tm))"
    using arg_cong [OF timer_push_set [of x "timers ?tm"], of set_mset] by (simp add: AddTimer_def)
  then have la: "\<exists>y \<in> set (timers ?tm1). tick ?tm1 + n < timeout y" using assms(6) by (auto simp: AddTimer_def)
  from ticks_one [OF inv so la assms(3) f] obtain tm' m' t' where
    T: "ticks n ?tm1 (tasking k) = Some (tm', m')" "get_task m' i = Some t'"
      "msgs t' = (if 0 < n \<and> due \<le> tick ?tm + n then [timeout_msg x] else [])"
    using assms(4) by (auto simp: val AddTimer_def)
  have e: "event_of (timeout_msg x) = Some (Some (EvTimerTimeout (of_nat due) (int_arg v)))"
    using assms(7) by (simp add: event_of_def timeout_msg_def val)
  have b: "\<not> buf < 0x8000000000000000" using assms(11) by (simp add: not_less)
  have c: "(0 < n \<and> due \<le> tick ?tm + n) = (\<not> n < max 1 (unat ms div 10))" by (auto simp: due_def)
  let ?k1 = "k\<lparr>timer_mgr := ?tm1\<rparr>"
  let ?k2 = "?k1\<lparr>timer_mgr := tm', tasking := m'\<rparr>"
  have g: "get_task (tasking ?k2) i = Some t'" using T(2) by simp
  have "if n < max 1 (unat ms div 10) then ReadEvent i buf len ?k2 = None
     else \<exists>k2. ReadEvent i buf len ?k2 = Some (k2, (1, 0), [EvTimerTimeout (of_nat due) (int_arg v)])"
  proof (cases "n < max 1 (unat ms div 10)")
    case True
    then have "msgs t' = []" using T(3) c by simp
    with True g b assms(12) show ?thesis by (simp add: ReadEvent_def)
  next
    case False
    then have "msgs t' = [timeout_msg x]" using T(3) c by simp
    with False g b e assms(12) show ?thesis by (simp add: ReadEvent_def)
  qed
  moreover have "ticks n (timer_mgr ?k1) (tasking ?k1) = Some (tm', m')" using T(1) by simp
  ultimately show ?thesis using C by blast
qed

text \<open>A timer of 50 ms, five ticks later.\<close>

theorem timer_becomes_event_witness:
  "\<exists>k1 r tm' m' k2. CreateTimer 1 1 7 50 kernel_example = (k1, (r, 0))
     \<and> ticks 5 (timer_mgr k1) (tasking k1) = Some (tm', m')
     \<and> ReadEvent 1 0xffff800000000000 4 (k1\<lparr>timer_mgr := tm', tasking := m'\<rparr>) = Some (k2, (1, 0), [EvTimerTimeout 5 7])"
proof -
  let ?k = kernel_example
  let ?t = "(Task_init 1)\<lparr>level := 3, ready_or_running := True\<rparr>"
  have k: "tasking ?k = TaskManager_init (\<lambda>t. t)" "tick (timer_mgr ?k) = 0"
    "timers (timer_mgr ?k) = [Timer_init (2 ^ 64 - 1) 0 0]"
    by (simp_all add: kernel_example_def TimerManager_init_def timer_push_def)
  have r: "reachable (tasking ?k)" "get_task (tasking ?k) 1 = Some ?t" unfolding k using init_example(1,4) by simp_all
  have t: "timers_sorted (timers (timer_mgr ?k))" "msgs ?t = []"
    "filter_mset (timer_of 1) (mset (timers (timer_mgr ?k))) = {#}"
    "\<exists>y \<in> set (timers (timer_mgr ?k)). tick (timer_mgr ?k) + 5 < timeout y"
    unfolding k by (simp_all add: timers_sorted_def Task_init_def timer_of_def Timer_init_def)
  have a: "0 < int_arg 7" "bit (1 :: u64) 0" "unat (50 :: u64) * 100 < 2 ^ 64"
    "tick (timer_mgr ?k) + unat (50 :: u64) div 10 < 2 ^ 64" "0x8000000000000000 \<le> (0xffff800000000000 :: u64)" "(0 :: nat) < 4"
    by (simp_all add: int_arg_def k(2))
  have v: "int_arg 7 = 7" by (simp add: int_arg_def)
  have n: "\<not> (5 < max 1 (unat (50 :: u64) div 10))" "of_nat (0 + unat (50 :: u64) div 10) = (5 :: u64)" by simp_all
  from timer_becomes_event [OF r(1) t(1) r(2) t(2-4) a] show ?thesis
    unfolding if_not_P [OF n(1)] k(2) n(2) v by blast
qed

end
