(* ===== verification/Window_Calls.thy ===== *)
theory Window_Calls imports Syscall begin

text \<open>
  System calls on windows, \<^verbatim>\<open>kernel/syscall.cpp\<close>.  A call names its window by the identifier of the layer
  in the lower half of its first argument; bit 32 asks not to redraw.  Nothing checks whose window it
  is, nor that what is drawn lies inside.  \<^verbatim>\<open>WinDrawLine\<close> computes with floating point numbers and is not modelled.
\<close>

type_synonym win_func = "Window \<Rightarrow> (Window \<times> result) option"

definition DoWinFunc :: "'f env \<Rightarrow> win_func \<Rightarrow> u64 \<Rightarrow> Gui \<Rightarrow> (Gui \<times> result) option" where
  "DoWinFunc E f flags_and_layer_id g =
     (let layer_flags = ucast (drop_bit 32 flags_and_layer_id) :: u32;
          i = ucast (flags_and_layer_id AND 0xffffffff) :: u32 in
      case FindLayer i g of
        None \<Rightarrow> Some (g, (0, EBADF))
      | Some l \<Rightarrow> do {
          p \<leftarrow> lay_window l;
          w \<leftarrow> windows g p;
          (w, res) \<leftarrow> f w;
          let g = g\<lparr>windows := (windows g)(p \<mapsto> w)\<rparr>;
          if snd res \<noteq> 0 then Some (g, res)
          else if layer_flags AND 1 = 0 then map_option (\<lambda>g. (g, res)) (Draw_id E i g)
          else Some (g, res) })"

definition WinWriteString :: "'f env \<Rightarrow> u64 \<Rightarrow> u64 \<Rightarrow> u64 \<Rightarrow> u64 \<Rightarrow> cstr \<Rightarrow> Gui \<Rightarrow> (Gui \<times> result) option" where
  "WinWriteString E arg1 x y color s g =
     DoWinFunc E (\<lambda>w. map_option (\<lambda>w. (w, (0, 0)))
         (WriteString (env_fonts E) WindowWriter (Vec (int_arg x) (int_arg y)) s (ToColor (ucast color)) w)) arg1 g"

definition WinFillRectangle :: "'f env \<Rightarrow> u64 \<Rightarrow> u64 \<Rightarrow> u64 \<Rightarrow> u64 \<Rightarrow> u64 \<Rightarrow> u64 \<Rightarrow> Gui \<Rightarrow> (Gui \<times> result) option" where
  "WinFillRectangle E arg1 x y w h color g =
     DoWinFunc E (\<lambda>v. map_option (\<lambda>v. (v, (0, 0)))
         (FillRectangle WindowWriter (Vec (int_arg x) (int_arg y)) (Vec (int_arg w) (int_arg h)) (ToColor (ucast color)) v))
       arg1 g"

definition WinRedraw :: "'f env \<Rightarrow> u64 \<Rightarrow> Gui \<Rightarrow> (Gui \<times> result) option" where
  "WinRedraw E arg1 g = DoWinFunc E (\<lambda>w. Some (w, (0, 0))) arg1 g"

text \<open>\<open>ptr\<close> is the address of the new window, which the heap has not given out yet; \<open>fmt\<close> that of the screen.\<close>

definition OpenWindow :: "'f env \<Rightarrow> PixelFormat \<Rightarrow> nat \<Rightarrow> u64 \<Rightarrow> u64 \<Rightarrow> u64 \<Rightarrow> u64 \<Rightarrow> cstr \<Rightarrow> Gui \<Rightarrow> (Gui \<times> result) option" where
  "OpenWindow E fmt ptr w h x y title g = do {
     v \<leftarrow> ToplevelWindow_init (env_fonts E) (int_arg w) (int_arg h) fmt title;
     let (g, i) = NewLayer E (g\<lparr>windows := (windows g)(ptr \<mapsto> v)\<rparr>);
     let g = upd_layer i (lay_Move (Vec (int_arg x) (int_arg y)) \<circ> lay_SetTransparentable True
                          \<circ> lay_SetDraggable True \<circ> lay_SetWindow ptr) g;
     g \<leftarrow> Activate E i g;
     t \<leftarrow> CurrentTask (gui_tasks g);
     let m = layer_task_map g;
     Some (g\<lparr>layer_task_map := (if m i = None then m(i \<mapsto> t) else m)\<rparr>, (ucast i, 0)) }"

definition CloseWindow :: "'f env \<Rightarrow> u64 \<Rightarrow> Gui \<Rightarrow> (Gui \<times> result) option" where
  "CloseWindow E arg1 g = map_option (\<lambda>(g, err). (g, if err = kNoSuchEntry then (of_int EBADF, 0) else (0, 0)))
     (CloseLayer E (ucast (arg1 AND 0xffffffff)) g)"

section \<open>Drawing outside the window\<close>

lemma win_write_out: "win_ok w \<Longrightarrow> \<not> in_win w q \<Longrightarrow> win_Write q c w = None"
proof -
  assume ok: "win_ok w" and q: "\<not> in_win w q"
  show ?thesis
  proof (cases "vy q < 0 \<or> vx q < 0 \<or> nat (vy q) \<ge> length (win_data w)")
    case True
    then show ?thesis by (auto simp: win_Write_def arr_get_def)
  next
    case False
    then have "win_data w ! nat (vy q) \<in> set (win_data w)" by simp
    then have "length (win_data w ! nat (vy q)) = nat (win_width w)" "length (win_data w) = nat (win_height w)"
      using ok by (simp_all add: win_ok_def)
    then have "\<not> nat (vx q) < length (win_data w ! nat (vy q))" using False q by (auto simp: in_win_def)
    then show ?thesis using False by (simp add: win_Write_def arr_get_def arr_set_def)
  qed
qed

lemma write_list_out:
  "win_ok w \<Longrightarrow> \<exists>q \<in> set qs. \<not> in_win w q \<Longrightarrow> for_each (\<lambda>q. win_Write q c) qs w = None"
proof (induction qs arbitrary: w)
  case (Cons q qs)
  show ?case
  proof (cases "in_win w q")
    case False
    then show ?thesis using win_write_out [OF Cons.prems(1)] by simp
  next
    case True
    from win_write_in [OF Cons.prems(1) True, of c] obtain w1 where w1: "win_Write q c w = Some w1" "win_ok w1"
      "win_width w1 = win_width w" "win_height w1 = win_height w" by blast
    have "in_win w1 p = in_win w p" for p using w1(3,4) by (simp add: in_win_def)
    with Cons.IH [OF w1(2)] Cons.prems(2) True w1(1) show ?thesis by auto
  qed
qed simp

text \<open>
  C33: an application draws inside its window or into the memory of the kernel.  A rectangle that lies
  inside the window is filled, every pixel of it gets the colour and no other pixel of the window or
  of another window changes; a rectangle that does not, is written beyond the arrays of the window,
  because neither \<^verbatim>\<open>WinFillRectangle\<close> nor anything below it checks the coordinates.
\<close>

theorem WinFillRectangle_inside_only:
  assumes "FindLayer (ucast (arg1 AND 0xffffffff)) g = Some l" and "lay_window l = Some p" and "windows g p = Some v"
    and "win_good v" and "bit arg1 32"
    and "r = Rect (Vec (int_arg x) (int_arg y)) (Vec (int_arg w) (int_arg h))"
  shows "if \<forall>q. in_rect r q \<longrightarrow> in_win v q
    then \<exists>v'. WinFillRectangle E arg1 x y w h color g = Some (g\<lparr>windows := (windows g)(p \<mapsto> v')\<rparr>, (0, 0)) \<and> win_good v'
      \<and> win_width v' = win_width v \<and> win_height v' = win_height v
      \<and> (\<forall>q. in_win v q \<longrightarrow> At q v' = (if in_rect r q then Some (ToColor (ucast color)) else At q v))
    else WinFillRectangle E arg1 x y w h color g = None"
proof -
  let ?c = "ToColor (ucast color)"
  have fl: "ucast (drop_bit 32 arg1) AND (1 :: u32) \<noteq> 0"
  proof -
    have "bit (ucast (drop_bit 32 arg1) AND (1 :: u32)) 0" using assms(5) by (simp add: bit_simps)
    then show ?thesis by auto
  qed
  have eq: "WinFillRectangle E arg1 x y w h color g
      = (case FillRectangle WindowWriter (rpos r) (rsize r) ?c v of
           None \<Rightarrow> None | Some v' \<Rightarrow> Some (g\<lparr>windows := (windows g)(p \<mapsto> v')\<rparr>, (0, 0)))"
    using assms(1-3) fl by (simp add: WinFillRectangle_def DoWinFunc_def assms(6) Let_def split: option.split)
  show ?thesis
  proof (cases "\<forall>q. in_rect r q \<longrightarrow> in_win v q")
    case True
    have "\<forall>q. in_rect (Rect (rpos r) (rsize r)) q \<longrightarrow> in_picture WindowWriter v q" using True by (simp add: in_picture_win)
    from ww.FillRectangle_paints [OF assms(4) this, of ?c] obtain v' where
      F: "FillRectangle WindowWriter (rpos r) (rsize r) ?c v = Some v'" "ww.painted (in_rect r) ?c v v'" by auto
    have "win_good v' \<and> win_width v' = win_width v \<and> win_height v' = win_height v
      \<and> (\<forall>q. in_win v q \<longrightarrow> At q v' = (if in_rect r q then Some ?c else At q v))"
      using F(2) unfolding ww.painted_def in_picture_win unfolding WindowWriter_def by simp
    moreover have "WinFillRectangle E arg1 x y w h color g = Some (g\<lparr>windows := (windows g)(p \<mapsto> v')\<rparr>, (0, 0))"
      using eq F(1) by simp
    ultimately show ?thesis unfolding if_P [OF True] by blast
  next
    case False
    then have "\<exists>q \<in> set (rect_points (rpos r) (rsize r)). \<not> in_win v q" by (simp add: rect_points_set)
    then have "FillRectangle WindowWriter (rpos r) (rsize r) ?c v = None"
      using write_list_out assms(4) by (simp add: FillRectangle_points WindowWriter_def win_good_def)
    then show ?thesis using False eq by simp
  qed
qed

text \<open>A rectangle inside the window of layer 2, and one that sticks out.\<close>

definition fill_env :: "unit env" where
  "fill_env = \<lparr>env_blend = (\<lambda>a b t. a), env_fonts = blank_fonts, env_pos = Vec 0 0, env_area = Rect (Vec 0 0) (Vec 0 0)\<rparr>"

theorem WinFillRectangle_inside_only_witness:
  "(\<exists>v' g'. WinFillRectangle fill_env 0x100000002 0 0 50 40 0xff0000 gui_example = Some (g', (0, 0)) \<and> windows g' 1 = Some v'
      \<and> At (Vec 49 39) v' = Some (px 0xff 0 0))
   \<and> WinFillRectangle fill_env 0x100000002 0 0 50 41 0xff0000 gui_example = None"
proof -
  obtain v where v: "Window_init 50 40 kPixelRGBResv8BitPerColor = Some v" "win_good v" "win_width v = 50" "win_height v = 40"
    using Window_init_good [of 50 40 kPixelRGBResv8BitPerColor] by auto
  have g: "FindLayer (ucast (0x100000002 AND (0xffffffff :: u64))) gui_example = Some (layer_of 2 (Vec 10 10) (Some 1))"
    "lay_window (layer_of 2 (Vec 10 10) (Some 1)) = Some 1" "windows gui_example 1 = Some v" "bit (0x100000002 :: u64) 32"
    using gui_example_stack(4) v(1) by (simp_all add: layer_of_def gui_example_def)
  let ?r = "\<lambda>h. Rect (Vec (int_arg 0) (int_arg 0)) (Vec (int_arg 50) (int_arg h))"
  have i: "int_arg 0 = 0" "int_arg 50 = 50" "int_arg 40 = 40" "int_arg 41 = 41" by (simp_all add: int_arg_def)
  have inside: "\<forall>q. in_rect (?r 40) q \<longrightarrow> in_win v q" "\<not> (\<forall>q. in_rect (?r 41) q \<longrightarrow> in_win v q)"
    using v(3,4) by (auto simp: i in_rect_def in_win_def intro!: exI [of _ "Vec 0 40"])
  note W = WinFillRectangle_inside_only [OF g(1-3) v(2) g(4) refl, of 0 0 50]
  from W [of 41 fill_env "0xff0000"] inside(2) have "WinFillRectangle fill_env 0x100000002 0 0 50 41 0xff0000 gui_example = None" by simp
  moreover from W [of 40 fill_env "0xff0000", unfolded if_P [OF inside(1)]] obtain v' where
    f: "WinFillRectangle fill_env 0x100000002 0 0 50 40 0xff0000 gui_example
        = Some (gui_example\<lparr>windows := (windows gui_example)(1 \<mapsto> v')\<rparr>, (0, 0))"
    "\<forall>q. in_win v q \<longrightarrow> At q v' = (if in_rect (?r 40) q then Some (ToColor (ucast (0xff0000 :: u64))) else At q v)" by blast
  have "At (Vec 49 39) v' = Some (px 0xff 0 0)"
    using f(2) [rule_format, of "Vec 49 39"] v(3,4) by (simp add: in_win_def in_rect_def i ToColor_def)
  ultimately show ?thesis using f(1) by auto
qed

text \<open>
  Errors of the window calls.  For a layer that does not exist every call leaves the desktop as it
  is and reports the error \<^verbatim>\<open>EBADF\<close>, except \<^verbatim>\<open>CloseWindow\<close>, which returns the number of the error as its
  value and success as its error.
\<close>

theorem window_calls_report_missing_layer:
  assumes "FindLayer (ucast (arg1 AND 0xffffffff)) g = None"
  shows "WinWriteString E arg1 x y color s g = Some (g, (0, EBADF))
    \<and> WinFillRectangle E arg1 x y w h color g = Some (g, (0, EBADF))
    \<and> WinRedraw E arg1 g = Some (g, (0, EBADF))
    \<and> CloseWindow E arg1 g = Some (g, (of_int EBADF, 0))"
  using assms by (simp add: WinWriteString_def WinFillRectangle_def WinRedraw_def DoWinFunc_def CloseWindow_def CloseLayer_def Let_def)

end
