(* ===== verification/Command_Line.thy ===== *)
theory Command_Line imports Fat_Dir begin

text \<open>
  Command lines, \<^verbatim>\<open>kernel/terminal.cpp\<close>: \<^verbatim>\<open>MakeArgv\<close>, which lays out the arguments of an application
  in its argument page, the head of \<^verbatim>\<open>Terminal::ExecuteLine\<close>, which cuts the typed line into command,
  argument, redirection and subcommand, and \<^verbatim>\<open>FindCommand\<close>.
\<close>

definition isspace :: "u8 \<Rightarrow> bool" where
  "isspace c \<longleftrightarrow> c = 0x20 \<or> (0x09 \<le> c \<and> c \<le> 0x0d)"

section \<open>The argument page\<close>

text \<open>\<open>argv\<close> holds offsets into \<open>argbuf\<close> in place of pointers.\<close>

record argv_state =
  argc :: nat
  argv :: "nat list"
  argbuf :: "u8 list"
  argbuf_index :: nat

text \<open>\<^verbatim>\<open>push_to_argv\<close>: the guard looks at where the string starts, \<^verbatim>\<open>strcpy\<close> writes all of it.\<close>

definition push_to_argv :: "cstr \<Rightarrow> argv_state \<Rightarrow> (argv_state \<times> error_code) option" where
  "push_to_argv s st =
     (if length (argv st) \<le> argc st \<or> length (argbuf st) \<le> argbuf_index st then Some (st, kFull)
      else if length (argbuf st) < argbuf_index st + length s + 1 then None
      else Some (st\<lparr>argv := (argv st)[argc st := argbuf_index st], argc := argc st + 1,
                    argbuf := overwrite (argbuf_index st) (s @ [0]) (argbuf st),
                    argbuf_index := argbuf_index st + length s + 1\<rparr>, kSuccess))"

text \<open>The loop over the argument string; \<open>p\<close> is what is left of it.\<close>

function argv_loop :: "cstr \<Rightarrow> argv_state \<Rightarrow> (argv_state \<times> error_code) option" where
  "argv_loop p0 st = (let p = dropWhile isspace p0 in
     if p = [] then Some (st, kSuccess)
     else let cur_arg = takeWhile (\<lambda>c. \<not> isspace c) p; rest = dropWhile (\<lambda>c. \<not> isspace c) p in
       case push_to_argv cur_arg st of
         None \<Rightarrow> None
       | Some (st', err) \<Rightarrow>
           if err \<noteq> kSuccess then Some (st', err)
           else if rest = [] then Some (st', kSuccess)
           else argv_loop (tl rest) st')"
  by pat_completeness auto
termination
proof (relation "measure (\<lambda>(p, st). length p)", goal_cases)
  case (2 p0 st p cur_arg rest q st' err)
  have "length rest \<le> length p" "length p \<le> length p0" unfolding 2 by (simp_all add: length_dropWhile_le)
  moreover have "rest \<noteq> []" using 2 by simp
  then have "length (tl rest) < length rest" by simp
  ultimately show ?case by simp
qed simp

declare argv_loop.simps [simp del]

definition MakeArgv :: "cstr \<Rightarrow> cstr option \<Rightarrow> argv_state \<Rightarrow> (argv_state \<times> error_code) option" where
  "MakeArgv command arg_str st =
     (case push_to_argv command (st\<lparr>argc := 0, argbuf_index := 0\<rparr>) of
        None \<Rightarrow> None
      | Some (st, err) \<Rightarrow>
          if err \<noteq> kSuccess then Some (st, err)
          else (case arg_str of None \<Rightarrow> Some (st, kSuccess) | Some a \<Rightarrow> argv_loop a st))"

text \<open>The words of a string, and the string at an offset.\<close>

function words_of :: "cstr \<Rightarrow> cstr list" where
  "words_of s = (let p = dropWhile isspace s in
     if p = [] then [] else takeWhile (\<lambda>c. \<not> isspace c) p # words_of (dropWhile (\<lambda>c. \<not> isspace c) p))"
  by pat_completeness auto
termination
proof (relation "measure length", goal_cases)
  case (2 s p)
  have "\<not> isspace (hd p)" using 2 hd_dropWhile [of isspace s] by simp
  then have "length (dropWhile (\<lambda>c. \<not> isspace c) p) < length p"
    using 2(2) by (cases p) (simp_all add: length_dropWhile_le less_Suc_eq_le)
  moreover have "length p \<le> length s" unfolding 2 by (simp add: length_dropWhile_le)
  ultimately show ?case by simp
qed simp

declare words_of.simps [simp del]

definition string_at :: "u8 list \<Rightarrow> nat \<Rightarrow> cstr" where
  "string_at buf i = takeWhile (\<lambda>b. b \<noteq> 0) (drop i buf)"

definition layout :: "cstr list \<Rightarrow> u8 list" where
  "layout ws = concat (map (\<lambda>w. w @ [0]) ws)"

text \<open>\<open>ws\<close> have been pushed: their strings are at the beginning of the buffer.\<close>

definition pushed :: "cstr list \<Rightarrow> argv_state \<Rightarrow> bool" where
  "pushed ws st \<longleftrightarrow> argc st = length ws \<and> argc st \<le> length (argv st)
     \<and> argbuf_index st = length (layout ws) \<and> argbuf_index st \<le> length (argbuf st)
     \<and> take (length (layout ws)) (argbuf st) = layout ws
     \<and> (\<forall>i < length ws. argv st ! i = length (layout (take i ws)))"

lemma layout_append: "layout (xs @ ys) = layout xs @ layout ys"
  by (simp add: layout_def)

lemma push_to_argv_room:
  assumes "pushed ws st" and "length ws < length (argv st)" and "length (layout ws) + length s + 1 \<le> length (argbuf st)"
  shows "\<exists>st'. push_to_argv s st = Some (st', kSuccess) \<and> pushed (ws @ [s]) st'
    \<and> length (argv st') = length (argv st) \<and> length (argbuf st') = length (argbuf st)"
proof -
  let ?st = "st\<lparr>argv := (argv st)[argc st := argbuf_index st], argc := argc st + 1,
     argbuf := overwrite (argbuf_index st) (s @ [0]) (argbuf st), argbuf_index := argbuf_index st + length s + 1\<rparr>"
  have "push_to_argv s st = Some (?st, kSuccess)"
    using assms by (simp add: push_to_argv_def pushed_def)
  moreover have "layout (ws @ [s]) = layout ws @ s @ [0]" by (simp add: layout_def)
  moreover have "\<forall>i < Suc (length ws). (argv st)[length ws := length (layout ws)] ! i
      = length (layout (take i (ws @ [s])))"
  proof (intro allI impI)
    fix i assume "i < Suc (length ws)"
    then show "(argv st)[length ws := length (layout ws)] ! i = length (layout (take i (ws @ [s])))"
      using assms(1,2) by (cases "i = length ws") (simp_all add: pushed_def)
  qed
  ultimately have "pushed (ws @ [s]) ?st" using assms by (simp add: pushed_def overwrite_def)
  moreover have "length (argv ?st) = length (argv st)" "length (argbuf ?st) = length (argbuf st)"
    using assms by (simp_all add: pushed_def)
  ultimately show ?thesis using \<open>push_to_argv s st = Some (?st, kSuccess)\<close> by blast
qed

lemma push_to_argv_full: "pushed ws st \<Longrightarrow> length ws = length (argv st) \<Longrightarrow> push_to_argv s st = Some (st, kFull)"
  by (simp add: push_to_argv_def pushed_def)

lemma words_of_rest: "words_of (dropWhile (\<lambda>c. \<not> isspace c) p) = words_of (tl (dropWhile (\<lambda>c. \<not> isspace c) p))"
proof (cases "dropWhile (\<lambda>c. \<not> isspace c) p")
  case (Cons x xs)
  then have "isspace x" using hd_dropWhile [of "\<lambda>c. \<not> isspace c" p] by simp
  then have "dropWhile isspace (x # xs) = dropWhile isspace xs" by simp
  with Cons show ?thesis by (simp add: words_of.simps [of "x # xs"] words_of.simps [of xs])
next
  case Nil
  show ?thesis unfolding Nil by simp
qed

lemma argv_loop_words:
  assumes "pushed ws st" and "length (layout (ws @ words_of p)) \<le> length (argbuf st)"
  shows "\<exists>st' err. argv_loop p st = Some (st', err)
    \<and> pushed (take (length (argv st)) (ws @ words_of p)) st'
    \<and> err = (if length (ws @ words_of p) \<le> length (argv st) then kSuccess else kFull)"
  using assms
proof (induction "length p" arbitrary: p ws st rule: less_induct)
  case less
  note dropWhile_eq_Nil_conv [simp del]
  let ?p = "dropWhile isspace p"
  let ?w = "takeWhile (\<lambda>c. \<not> isspace c) ?p" and ?r = "dropWhile (\<lambda>c. \<not> isspace c) ?p"
  have n: "length ws \<le> length (argv st)" using less.prems(1) by (simp add: pushed_def)
  show ?case
  proof (cases "?p = []")
    case True
    then have "words_of p = []" by (simp add: words_of.simps [of p])
    with True less.prems(1) n show ?thesis by (simp add: argv_loop.simps [of p])
  next
    case False
    then have w: "words_of p = ?w # words_of (tl ?r)"
      unfolding words_of_rest [symmetric] by (simp add: words_of.simps [of p] Let_def)
    show ?thesis
    proof (cases "length ws < length (argv st)")
      case full: False
      then have "push_to_argv ?w st = Some (st, kFull)" using push_to_argv_full less.prems(1) n by simp
      with False full n w less.prems(1) show ?thesis by (simp add: argv_loop.simps [of p] Let_def)
    next
      case True
      have "length (layout ws) + length ?w + 1 \<le> length (argbuf st)"
        using less.prems(2) unfolding w layout_append by (simp add: layout_def)
      from push_to_argv_room [OF less.prems(1) True this] obtain st1 where
        P: "push_to_argv ?w st = Some (st1, kSuccess)" "pushed (ws @ [?w]) st1"
          "length (argv st1) = length (argv st)" "length (argbuf st1) = length (argbuf st)" by blast
      show ?thesis
      proof (cases "?r = []")
        case r: True
        have "words_of p = [?w]" unfolding w r by (simp add: words_of.simps [of "[]"])
        with False r P True show ?thesis by (simp add: argv_loop.simps [of p] Let_def)
      next
        case r: False
        have "length (tl ?r) < length ?r" using r by simp
        also have "\<dots> \<le> length p" by (meson le_trans length_dropWhile_le)
        finally have "length (tl ?r) < length p" .
        from less.hyps [OF this P(2)] less.prems(2) P(3,4) w have
          "\<exists>st' err. argv_loop (tl ?r) st1 = Some (st', err)
            \<and> pushed (take (length (argv st)) (ws @ words_of p)) st'
            \<and> err = (if length (ws @ words_of p) \<le> length (argv st) then kSuccess else kFull)" by simp
        with False r P(1) show ?thesis by (simp add: argv_loop.simps [of p] Let_def)
      qed
    qed
  qed
qed

lemma pushed_string:
  assumes "pushed ws st" and "i < length ws" and "\<forall>w \<in> set ws. 0 \<notin> set w"
  shows "string_at (argbuf st) (argv st ! i) = ws ! i"
proof -
  have ws: "ws = take i ws @ ws ! i # drop (Suc i) ws" using assms(2) by (simp add: id_take_nth_drop)
  define r where "r = drop (length (layout ws)) (argbuf st)"
  have "layout ws = layout (take i ws) @ ws ! i @ 0 # layout (drop (Suc i) ws)"
    by (subst ws) (simp add: layout_def)
  moreover have "argbuf st = layout ws @ r"
    using assms(1) unfolding r_def by (metis append_take_drop_id pushed_def)
  ultimately have "argbuf st = layout (take i ws) @ (ws ! i @ 0 # layout (drop (Suc i) ws) @ r)" by simp
  then have "drop (argv st ! i) (argbuf st) = ws ! i @ 0 # layout (drop (Suc i) ws) @ r"
    using assms(1,2) by (simp add: pushed_def)
  moreover have "0 \<notin> set (ws ! i)" using assms(2,3) by simp
  then have "takeWhile (\<lambda>b. b \<noteq> 0) (ws ! i @ 0 # r) = ws ! i" for r
    by (subst takeWhile_append2) auto
  ultimately show ?thesis by (simp add: string_at_def)
qed

text \<open>
  C30: \<open>MakeArgv\<close> splits the command and the argument string at white space: when all the words fit the
  argument page it returns as many of them as the vector holds, \<open>kFull\<close> exactly when there are more, and
  every pointer of the vector reads back its word.
\<close>
theorem MakeArgv_splits_words:
  assumes "words = command # (case arg_str of None \<Rightarrow> [] | Some a \<Rightarrow> words_of a)"
    and "argv st \<noteq> []" and "length (layout words) \<le> length (argbuf st)" and "\<forall>w \<in> set words. 0 \<notin> set w"
  shows "\<exists>st'. MakeArgv command arg_str st
      = Some (st', if length words \<le> length (argv st) then kSuccess else kFull)
    \<and> argc st' = min (length words) (length (argv st))
    \<and> (\<forall>i < argc st'. string_at (argbuf st') (argv st' ! i) = words ! i)"
proof -
  let ?st = "st\<lparr>argc := 0, argbuf_index := 0\<rparr>"
  have "pushed [] ?st" by (simp add: pushed_def layout_def)
  moreover have "length (layout []) + length command + 1 \<le> length (argbuf ?st)"
    using assms(1,3) by (simp add: layout_def)
  ultimately obtain st1 where P: "push_to_argv command ?st = Some (st1, kSuccess)" "pushed [command] st1"
      "length (argv st1) = length (argv st)" "length (argbuf st1) = length (argbuf st)"
    using push_to_argv_room [of "[]" ?st command] assms(2) by auto
  have "\<exists>st'. MakeArgv command arg_str st = Some (st', if length words \<le> length (argv st) then kSuccess else kFull)
    \<and> pushed (take (length (argv st)) words) st'"
  proof (cases arg_str)
    case None
    with P assms(1,2) show ?thesis by (cases "argv st") (simp_all add: MakeArgv_def)
  next
    case (Some a)
    with assms(1) have w: "words = [command] @ words_of a" by simp
    with assms(3) P(4) have "length (layout ([command] @ words_of a)) \<le> length (argbuf st1)" by simp
    from argv_loop_words [OF P(2) this] P(1,3) Some show ?thesis by (simp add: MakeArgv_def w)
  qed
  then obtain st' where S: "MakeArgv command arg_str st = Some (st', if length words \<le> length (argv st) then kSuccess else kFull)"
      "pushed (take (length (argv st)) words) st'" by blast
  have n: "argc st' = min (length words) (length (argv st))" using S(2) by (simp add: pushed_def min.commute)
  have "\<forall>w \<in> set (take (length (argv st)) words). 0 \<notin> set w" using assms(4) by (meson in_set_takeD)
  then have "string_at (argbuf st') (argv st' ! i) = words ! i" if "i < argc st'" for i
    using pushed_string [OF S(2), of i] that n by simp
  with S(1) n show ?thesis by blast
qed

text \<open>\<^verbatim>\<open>cp  a b\<close> in a vector of two pointers: \<open>b\<close> does not fit.\<close>
theorem MakeArgv_splits_words_witness:
  "\<exists>st'. MakeArgv (str ''cp'') (Some (str '' a  b'')) \<lparr>argc = 0, argv = [0, 0], argbuf = replicate 8 0, argbuf_index = 0\<rparr>
      = Some (st', kFull) \<and> argc st' = 2 \<and> string_at (argbuf st') (argv st' ! 1) = str ''a''"
proof -
  have w: "words_of (str '' a  b'') = [str ''a'', str ''b'']"
    by (simp add: words_of.simps str_def isspace_def)
  let ?st = "\<lparr>argc = 0, argv = [0, 0], argbuf = replicate 8 0, argbuf_index = 0\<rparr>"
  let ?ws = "[str ''cp'', str ''a'', str ''b'']"
  have "?ws = str ''cp'' # (case Some (str '' a  b'') of None \<Rightarrow> [] | Some a \<Rightarrow> words_of a)" by (simp add: w)
  moreover have "argv ?st \<noteq> []" "length (layout ?ws) \<le> length (argbuf ?st)" by (simp_all add: layout_def str_def)
  moreover have "\<forall>w \<in> set ?ws. 0 \<notin> set w" by (simp add: str_def)
  ultimately have "\<exists>st'. MakeArgv (str ''cp'') (Some (str '' a  b'')) ?st
      = Some (st', if length ?ws \<le> length (argv ?st) then kSuccess else kFull)
    \<and> argc st' = min (length ?ws) (length (argv ?st))
    \<and> (\<forall>i < argc st'. string_at (argbuf st') (argv st' ! i) = ?ws ! i)"
    by (rule MakeArgv_splits_words)
  then show ?thesis by force
qed

section \<open>Cutting the typed line\<close>

text \<open>
  The head of \<^verbatim>\<open>ExecuteLine\<close> works in the line buffer: it finds the first blank, the first \<^verbatim>\<open>>\<close> and the
  first \<^verbatim>\<open>|\<close> of the line as typed, then ends strings at them one after another. The redirection target is
  read before the pipe has been cut off.
\<close>

definition find_in :: "u8 list \<Rightarrow> u8 \<Rightarrow> nat option" where
  "find_in buf c = strchr (string_at buf 0) c"

definition cut_at :: "nat option \<Rightarrow> u8 list \<Rightarrow> u8 list" where
  "cut_at i buf = (case i of None \<Rightarrow> buf | Some j \<Rightarrow> buf[j := 0])"

definition skip_blanks :: "u8 list \<Rightarrow> nat \<Rightarrow> nat" where
  "skip_blanks buf i = i + length (takeWhile isspace (drop i buf))"

record command_line =
  cl_command :: cstr
  cl_arg :: "cstr option"
  cl_redirect :: "cstr option"
  cl_subcommand :: "cstr option"

definition split_line :: "u8 list \<Rightarrow> command_line" where
  "split_line linebuf = (
     let arg = find_in linebuf 0x20;
         redir_char = find_in linebuf 0x3e;
         pipe_char = find_in linebuf 0x7c;
         buf1 = cut_at arg linebuf;
         arg_ptr = map_option (\<lambda>i. skip_blanks buf1 (i + 1)) arg;
         buf2 = cut_at redir_char buf1;
         redir_dest = map_option (\<lambda>i. string_at buf2 (skip_blanks buf2 (i + 1))) redir_char;
         buf3 = cut_at pipe_char buf2;
         subcommand = map_option (\<lambda>i. string_at buf3 (skip_blanks buf3 (i + 1))) pipe_char
     in \<lparr>cl_command = string_at buf3 0, cl_arg = map_option (string_at buf3) arg_ptr,
         cl_redirect = redir_dest, cl_subcommand = subcommand\<rparr>)"

lemma string_at_nul: "0 \<notin> set xs \<Longrightarrow> string_at (pre @ xs @ 0 # r) (length pre) = xs"
  by (simp add: string_at_def) (subst takeWhile_append2; auto)

lemma string_at_0: "0 \<notin> set xs \<Longrightarrow> string_at (xs @ 0 # r) 0 = xs"
  using string_at_nul [of xs "[]" r] by simp

lemma skip_blanks_at:
  "\<not> isspace c \<Longrightarrow> skip_blanks (pre @ xs @ c # r) (length pre) = length pre + length (takeWhile isspace xs)"
proof (cases "\<forall>x \<in> set xs. isspace x")
  case True
  assume "\<not> isspace c"
  with True have "takeWhile isspace (xs @ c # r) = xs" by (simp add: takeWhile_append2)
  moreover have "takeWhile isspace xs = xs" using True by simp
  ultimately have "takeWhile isspace (xs @ c # r) = takeWhile isspace xs" by (rule trans [OF _ sym])
  then show ?thesis by (simp add: skip_blanks_def)
next
  case False
  then obtain x where "x \<in> set xs" "\<not> isspace x" by blast
  then have "takeWhile isspace (xs @ c # r) = takeWhile isspace xs" by (rule takeWhile_append1)
  then show ?thesis by (simp add: skip_blanks_def)
qed

lemma string_after_blanks:
  assumes "0 \<notin> set xs"
  shows "string_at (pre @ xs @ 0 # r) (length pre + length (takeWhile isspace xs)) = dropWhile isspace xs"
proof -
  let ?b = "takeWhile isspace xs" and ?w = "dropWhile isspace xs"
  have "0 \<notin> set ?w" using assms by (meson set_dropWhileD)
  from string_at_nul [OF this, of "pre @ ?b" r]
  have "string_at ((pre @ ?b) @ ?w @ 0 # r) (length pre + length ?b) = ?w" by simp
  moreover have "(pre @ ?b) @ ?w @ 0 # r = pre @ xs @ 0 # r" by (metis append_assoc takeWhile_dropWhile_id)
  ultimately show ?thesis by (simp only:)
qed

lemma find_in_here: "0 \<notin> set (xs @ c # ys) \<Longrightarrow> c \<notin> set xs \<Longrightarrow> find_in (xs @ c # ys @ 0 # r) c = Some (length xs)"
  using string_at_0 [of "xs @ c # ys" r] by (simp add: find_in_def strchr_append_here)

lemma find_in_none: "0 \<notin> set xs \<Longrightarrow> c \<notin> set xs \<Longrightarrow> find_in (xs @ 0 # r) c = None"
  by (simp add: find_in_def string_at_0 strchr_None)

lemma cut_at_here: "cut_at (Some (length xs)) (xs @ c # ys) = xs @ 0 # ys"
  by (simp add: cut_at_def)

text \<open>Bytes that end a part of the line.\<close>

definition free_of :: "u8 list \<Rightarrow> cstr \<Rightarrow> bool" where
  "free_of cs s \<longleftrightarrow> (\<forall>c \<in> set (0 # cs). c \<notin> set s)"

lemma isspace_delims [simp]: "\<not> isspace 0" "\<not> isspace 0x3e" "\<not> isspace 0x7c"
  by (simp_all add: isspace_def)

text \<open>A line with an argument and one operator \<open>c\<close>, \<^verbatim>\<open>>\<close> or \<^verbatim>\<open>|\<close>.\<close>

lemma split_line_operator:
  assumes "free_of [0x20, 0x3e, 0x7c] cmd" and "free_of [0x3e, 0x7c] a" and "free_of [0x3e, 0x7c] d"
    and c: "c = 0x3e \<or> c = 0x7c"
  shows "split_line (cmd @ 0x20 # a @ c # d @ 0 # junk)
    = \<lparr>cl_command = cmd, cl_arg = Some (dropWhile isspace a),
       cl_redirect = if c = 0x3e then Some (dropWhile isspace d) else None,
       cl_subcommand = if c = 0x7c then Some (dropWhile isspace d) else None\<rparr>"
proof -
  let ?l = "cmd @ 0x20 # a @ c # d @ 0 # junk" and ?l1 = "cmd @ 0 # a @ c # d @ 0 # junk"
    and ?l2 = "cmd @ 0 # a @ 0 # d @ 0 # junk"
  let ?n = "length cmd" and ?m = "Suc (length cmd + length a)"
  have n: "0 \<notin> set (cmd @ 0x20 # a @ c # d)" using assms by (auto simp: free_of_def)
  have sp: "\<not> isspace c" using c by auto
  have "find_in ?l 0x20 = Some ?n" "find_in ?l c = Some ?m"
    using find_in_here [of cmd "0x20" "a @ c # d" junk] find_in_here [of "cmd @ 0x20 # a" c d junk] n assms
    by (auto simp: free_of_def)
  moreover have "find_in ?l x = None" if "x \<noteq> c" "x = 0x3e \<or> x = 0x7c" for x
    using find_in_none [of "cmd @ 0x20 # a @ c # d" x junk] n assms that by (auto simp: free_of_def)
  moreover have "cut_at (Some ?n) ?l = ?l1" "cut_at (Some ?m) ?l1 = ?l2"
    using cut_at_here [of cmd "0x20"] cut_at_here [of "cmd @ 0 # a" c "d @ 0 # junk"] by simp_all
  moreover have "skip_blanks ?l1 (?n + 1) = ?n + 1 + length (takeWhile isspace a)"
    "skip_blanks ?l2 (?m + 1) = ?m + 1 + length (takeWhile isspace d)"
    using skip_blanks_at [OF sp, of "cmd @ [0]" a "d @ 0 # junk"]
      skip_blanks_at [of 0 "cmd @ 0 # a @ [0]" d junk] by simp_all
  moreover have "string_at ?l2 (?n + 1 + length (takeWhile isspace a)) = dropWhile isspace a"
    "string_at ?l2 (?m + 1 + length (takeWhile isspace d)) = dropWhile isspace d" "string_at ?l2 0 = cmd"
    using string_after_blanks [of a "cmd @ [0]" "d @ 0 # junk"] string_after_blanks [of d "cmd @ 0 # a @ [0]" junk]
      string_at_0 [of cmd "a @ 0 # d @ 0 # junk"] n by simp_all
  ultimately show ?thesis using c by (elim disjE) (simp_all add: split_line_def Let_def cut_at_def)
qed

lemma split_line_plain:
  assumes "free_of [0x20, 0x3e, 0x7c] cmd" and "free_of [0x3e, 0x7c] a"
  shows "split_line (cmd @ 0x20 # a @ 0 # junk)
    = \<lparr>cl_command = cmd, cl_arg = Some (dropWhile isspace a), cl_redirect = None, cl_subcommand = None\<rparr>"
proof -
  let ?l = "cmd @ 0x20 # a @ 0 # junk" and ?l1 = "cmd @ 0 # a @ 0 # junk" and ?n = "length cmd"
  have n: "0 \<notin> set (cmd @ 0x20 # a)" using assms by (auto simp: free_of_def)
  have "find_in ?l 0x20 = Some ?n" "find_in ?l 0x3e = None" "find_in ?l 0x7c = None"
    using find_in_here [of cmd "0x20" a junk] find_in_none [of "cmd @ 0x20 # a" _ junk] n assms
    by (auto simp: free_of_def)
  moreover have "cut_at (Some ?n) ?l = ?l1" by (rule cut_at_here)
  moreover have "skip_blanks ?l1 (?n + 1) = ?n + 1 + length (takeWhile isspace a)"
    using skip_blanks_at [of 0 "cmd @ [0]" a junk] by simp
  moreover have "string_at ?l1 (?n + 1 + length (takeWhile isspace a)) = dropWhile isspace a" "string_at ?l1 0 = cmd"
    using string_after_blanks [of a "cmd @ [0]" junk] string_at_0 [of cmd "a @ 0 # junk"] n by simp_all
  ultimately show ?thesis by (simp add: split_line_def Let_def cut_at_def)
qed

text \<open>
  a typed line with an argument and at most one operator is cut into the command, its argument
  without leading blanks, the redirection target and the command after the pipe.
\<close>
theorem split_line_well_formed:
  assumes "free_of [0x20, 0x3e, 0x7c] cmd" and "free_of [0x3e, 0x7c] a" and "free_of [0x3e, 0x7c] d"
  shows "split_line (cmd @ 0x20 # a @ 0 # junk)
      = \<lparr>cl_command = cmd, cl_arg = Some (dropWhile isspace a), cl_redirect = None, cl_subcommand = None\<rparr>
    \<and> split_line (cmd @ 0x20 # a @ 0x3e # d @ 0 # junk)
      = \<lparr>cl_command = cmd, cl_arg = Some (dropWhile isspace a), cl_redirect = Some (dropWhile isspace d),
         cl_subcommand = None\<rparr>
    \<and> split_line (cmd @ 0x20 # a @ 0x7c # d @ 0 # junk)
      = \<lparr>cl_command = cmd, cl_arg = Some (dropWhile isspace a), cl_redirect = None,
         cl_subcommand = Some (dropWhile isspace d)\<rparr>"
  using split_line_plain [OF assms(1,2)] split_line_operator [OF assms] by simp

text \<open>\<^verbatim>\<open>echo hi | cat\<close>: the blank before the operator stays in the argument.\<close>
theorem split_line_well_formed_witness:
  "split_line (str ''echo hi | cat'' @ [0])
    = \<lparr>cl_command = str ''echo'', cl_arg = Some (str ''hi ''), cl_redirect = None, cl_subcommand = Some (str ''cat'')\<rparr>"
  using split_line_well_formed [of "str ''echo''" "str ''hi ''" "str '' cat''" "[]"]
  by (simp add: free_of_def str_def isspace_def)

text \<open>
  Without an argument before it, the pipe does not end the first command: the blank inside the second
  command is taken for the first one's, which gets the argument while the second loses it.
\<close>

lemma split_line_pipe_takes_argument:
  assumes "free_of [0x20, 0x3e, 0x7c] cmd" and "free_of [0x20, 0x3e, 0x7c] sub" and "free_of [0x3e, 0x7c] a"
  shows "cl_arg (split_line (cmd @ 0x7c # sub @ 0x20 # a @ 0 # junk)) = Some (dropWhile isspace a)"
    and "cl_subcommand (split_line (cmd @ 0x7c # sub @ 0x20 # a @ 0 # junk)) = Some (dropWhile isspace sub)"
proof -
  let ?l = "cmd @ 0x7c # sub @ 0x20 # a @ 0 # junk" and ?l1 = "cmd @ 0x7c # sub @ 0 # a @ 0 # junk"
    and ?l2 = "cmd @ 0 # sub @ 0 # a @ 0 # junk"
  let ?n = "length cmd" and ?m = "Suc (length cmd + length sub)"
  have n: "0 \<notin> set (cmd @ 0x7c # sub @ 0x20 # a)" using assms by (auto simp: free_of_def)
  have "find_in ?l 0x7c = Some ?n" "find_in ?l 0x20 = Some ?m" "find_in ?l 0x3e = None"
    using find_in_here [of cmd "0x7c" "sub @ 0x20 # a" junk] find_in_here [of "cmd @ 0x7c # sub" "0x20" a junk]
      find_in_none [of "cmd @ 0x7c # sub @ 0x20 # a" "0x3e" junk] n assms by (auto simp: free_of_def)
  moreover have "cut_at (Some ?m) ?l = ?l1" "cut_at (Some ?n) ?l1 = ?l2"
    using cut_at_here [of "cmd @ 0x7c # sub" "0x20" "a @ 0 # junk"] cut_at_here [of cmd "0x7c" "sub @ 0 # a @ 0 # junk"]
    by simp_all
  moreover have "skip_blanks ?l1 (?m + 1) = ?m + 1 + length (takeWhile isspace a)"
    "skip_blanks ?l2 (?n + 1) = ?n + 1 + length (takeWhile isspace sub)"
    using skip_blanks_at [of 0 "cmd @ 0x7c # sub @ [0]" a junk] skip_blanks_at [of 0 "cmd @ [0]" sub "a @ 0 # junk"]
    by simp_all
  moreover have "string_at ?l2 (?m + 1 + length (takeWhile isspace a)) = dropWhile isspace a"
    "string_at ?l2 (?n + 1 + length (takeWhile isspace sub)) = dropWhile isspace sub"
    using string_after_blanks [of a "cmd @ 0 # sub @ [0]" junk] string_after_blanks [of sub "cmd @ [0]" "a @ 0 # junk"] n
    by simp_all
  ultimately show "cl_arg (split_line ?l) = Some (dropWhile isspace a)"
    and "cl_subcommand (split_line ?l) = Some (dropWhile isspace sub)"
    by (simp_all add: split_line_def Let_def cut_at_def)
qed

section \<open>Finding the command\<close>

text \<open>\<^verbatim>\<open>FindCommand\<close>; \<open>Some None\<close> is the null pointer.\<close>

partial_function (option) FindCommand :: "volume \<Rightarrow> cstr \<Rightarrow> nat \<Rightarrow> entry_ptr option option" where
  "FindCommand v command dir_cluster =
     (case FindFile v command dir_cluster of
        None \<Rightarrow> None
      | Some (Some p, post_slash) \<Rightarrow>
          (case get_entry v p of
             None \<Rightarrow> None
           | Some e \<Rightarrow> Some (if attr e = kDirectory \<or> post_slash then None else Some p))
      | Some (None, _) \<Rightarrow>
          if dir_cluster \<noteq> 0 \<or> kSlash \<in> set command then Some None
          else
            (case FindFile v (str ''apps'') 0 of
               None \<Rightarrow> None
             | Some (None, _) \<Rightarrow> Some None
             | Some (Some p, _) \<Rightarrow>
                 (case get_entry v p of
                    None \<Rightarrow> None
                  | Some e \<Rightarrow>
                      if attr e \<noteq> kDirectory then Some None
                      else FindCommand v command (unat (FirstCluster e)))))"

text \<open>Whatever is found is a file: directories are not run.\<close>

lemma FindCommand_not_directory:
  assumes "FindCommand v command dc = Some (Some p)"
  shows "\<exists>e. get_entry v p = Some e \<and> attr e \<noteq> kDirectory"
proof -
  let ?P = "\<lambda>v (command :: cstr) (dc :: nat) r. \<forall>p. r = Some p \<longrightarrow> (\<exists>e. get_entry v p = Some e \<and> attr e \<noteq> kDirectory)"
  have "?P v command dc (Some p)"
    by (rule FindCommand.raw_induct [OF _ assms, where P = ?P])
      (auto split: option.splits if_splits prod.splits)
  then show ?thesis by simp
qed

end
