(* ===== verification/Shell.thy ===== *)
theory Shell imports Syscall Command_Line begin

text \<open>
  The shell, \<^verbatim>\<open>Terminal::ExecuteLine\<close> of \<^verbatim>\<open>kernel/terminal.cpp\<close>: redirection, pipes, the commands on files,
  and what a command leaves behind.

  The parameters of \<open>shell_env\<close> stand for what happens outside: \<open>run_file\<close> runs an application
  (\<^verbatim>\<open>ExecuteFile\<close>), \<open>wait_for\<close> lets the other tasks run until one has finished (\<^verbatim>\<open>WaitFinish\<close>), and
  \<open>term_entry\<close>, \<open>desc_addr\<close>, \<open>cr3_now\<close> and \<open>new_stack\<close> are the addresses that a new task starts with, and
  \<open>other\<close> are the commands that only report on the hardware or call the firmware (\<^verbatim>\<open>lspci\<close>, \<^verbatim>\<open>lsusb\<close>,
  \<^verbatim>\<open>fatdump\<close>, \<^verbatim>\<open>date\<close>, \<^verbatim>\<open>reboot\<close>, \<^verbatim>\<open>poweroff\<close>); \<open>mem_stat\<close> are the numbers of frames used and present.
\<close>

record 'f shell_env =
  sh_fonts :: "'f fonts"
  run_file :: "tid \<Rightarrow> entry_ptr \<Rightarrow> cstr \<Rightarrow> cstr option \<Rightarrow> kernel \<Rightarrow> (kernel \<times> int \<times> error_code) option"
  wait_for :: "tid \<Rightarrow> kernel \<Rightarrow> (kernel \<times> int \<times> error_code) option"
  other :: "cstr \<Rightarrow> tid \<Rightarrow> kernel \<Rightarrow> kernel option"
  mem_stat :: "nat \<times> nat"
  term_entry :: u64
  desc_addr :: "TerminalDescriptor \<Rightarrow> u64"
  cr3_now :: u64
  new_stack :: "tid \<Rightarrow> u64"

section \<open>Printing to descriptors\<close>

definition say :: "'f fonts \<Rightarrow> nat \<Rightarrow> u8 list \<Rightarrow> kernel \<Rightarrow> kernel option" where
  "say fts h s k = map_option fst (PrintToFD (\<lambda>k bs. map_option fst (fd_write fts h bs k)) k s)"

fun dec :: "nat \<Rightarrow> cstr" where
  "dec n = (if n < 10 then [of_nat (48 + n)] else dec (n div 10) @ [of_nat (48 + n mod 10)])"

declare dec.simps [simp del]

definition dec_int :: "int \<Rightarrow> cstr" where
  "dec_int i = (if i < 0 then str ''-'' @ dec (nat (- i)) else dec (nat i))"

definition err_name :: "error_code \<Rightarrow> cstr option" where
  "err_name c = map_option str (Name (MAKE_ERROR c 0 ''''))"

definition new_descriptor :: "descriptor \<Rightarrow> kernel \<Rightarrow> kernel \<times> nat" where
  "new_descriptor d k = (k\<lparr>descriptors := descriptors k @ [d]\<rparr>, length (descriptors k))"

section \<open>Listing a directory\<close>

text \<open>The loop over the long-name entries in front of entry \<open>i\<close>; \<open>bs\<close> are the bytes written to \<open>lfns\<close> so far.\<close>

fun lfn_loop :: "volume \<Rightarrow> nat \<Rightarrow> DirectoryEntry \<Rightarrow> nat \<Rightarrow> u8 list \<Rightarrow> cstr option option" where
  "lfn_loop v c sfn 0 bs = Some None"
| "lfn_loop v c sfn (Suc j) bs = (case entry_bytes v (c, j) of
     None \<Rightarrow> None
   | Some eb \<Rightarrow>
       if attr sfn = kVolumeID \<or> attr (decode_entry eb) \<noteq> kLongName then Some None
       else (case GetLFNDirectoryEntry eb sfn of
         None \<Rightarrow> Some None
       | Some lfn \<Rightarrow>
           if 255 \<le> length bs + 13 then Some None
           else let bs = bs @ LongName lfn in
             if IsLastLFNDirectoryEntry lfn then Some (if 0 < length bs then Some (cstring bs) else None)
             else lfn_loop v c sfn j bs))"

text \<open>
  The entries of one cluster from \<open>i\<close> on, \<open>n\<close> is \<^verbatim>\<open>kEntriesPerCluster\<close>; \<open>True\<close> when the end of the directory was
  met.
\<close>

definition list_entry :: "'f fonts \<Rightarrow> nat \<Rightarrow> nat \<Rightarrow> nat \<Rightarrow> DirectoryEntry \<Rightarrow> kernel \<Rightarrow> kernel option" where
  "list_entry fts h c i e k = do {
     long_name \<leftarrow> lfn_loop (vol k) c e i [];
     k \<leftarrow> say fts h (FormatName e) k;
     k \<leftarrow> (case long_name of None \<Rightarrow> Some k | Some s \<Rightarrow> do { k \<leftarrow> say fts h (str ''    '') k; say fts h s k });
     say fts h [newline] k }"

function list_cluster :: "'f fonts \<Rightarrow> nat \<Rightarrow> nat \<Rightarrow> nat \<Rightarrow> nat \<Rightarrow> kernel \<Rightarrow> (bool \<times> kernel) option" where
  "list_cluster fts h c n i k =
     (if i < n then
        case get_entry (vol k) (c, i) of
          None \<Rightarrow> None
        | Some e \<Rightarrow>
            if de_name e ! 0 = 0 then Some (True, k)
            else if de_name e ! 0 = 0xe5 \<or> attr e = kLongName then list_cluster fts h c n (Suc i) k
            else (case list_entry fts h c i e k of
              None \<Rightarrow> None
            | Some k \<Rightarrow> list_cluster fts h c n (Suc i) k)
      else Some (False, k))"
  by pat_completeness auto
termination by (relation "measure (\<lambda>(fts, h, c, n, i, k). n - i)") auto

declare list_cluster.simps [simp del]

partial_function (option) list_clusters :: "'f fonts \<Rightarrow> nat \<Rightarrow> nat \<Rightarrow> nat \<Rightarrow> kernel \<Rightarrow> kernel option" where
  "list_clusters fts h n dir_cluster k =
     (if dir_cluster = kEndOfClusterchain then Some k
      else case list_cluster fts h dir_cluster n 0 k of
             None \<Rightarrow> None
           | Some (found_end, k) \<Rightarrow> if found_end then Some k
               else (case NextCluster (fat (vol k)) dir_cluster of
                 None \<Rightarrow> None
               | Some next \<Rightarrow> list_clusters fts h n next k))"

definition ListAllEntries :: "'f fonts \<Rightarrow> nat \<Rightarrow> nat \<Rightarrow> kernel \<Rightarrow> kernel option" where
  "ListAllEntries fts h dir_cluster k = list_clusters fts h (bytes_per_cluster (vol k) div kEntrySize) dir_cluster k"

section \<open>Commands\<close>

text \<open>The loop of \<^verbatim>\<open>cat\<close>, as in \<open>Descriptors\<close>, with input and output in one kernel.\<close>

partial_function (option) cat_files :: "'f fonts \<Rightarrow> nat \<Rightarrow> nat \<Rightarrow> kernel \<Rightarrow> kernel option" where
  "cat_files fts hin hout k = do {
     (k, line, n) \<leftarrow> ReadDelim (\<lambda>k n. fd_read fts hin n k) k newline 1024;
     if n = 0 then Some k else do { k \<leftarrow> say fts hout (cstring line) k; cat_files fts hin hout k } }"

definition with_terminal :: "tid \<Rightarrow> (Terminal \<Rightarrow> Terminal option) \<Rightarrow> kernel \<Rightarrow> kernel option" where
  "with_terminal i f k = do {
     (layer, t) \<leftarrow> terminals k i;
     t \<leftarrow> f t;
     Some (k\<lparr>terminals := (terminals k)(i \<mapsto> (layer, t))\<rparr>) }"

definition cmd_echo :: "'f fonts \<Rightarrow> nat \<Rightarrow> int \<Rightarrow> cstr option \<Rightarrow> kernel \<Rightarrow> kernel option" where
  "cmd_echo fts out last_code a k = do {
     k \<leftarrow> (case a of
            Some (c # s) \<Rightarrow> if c = 0x24 then (if s = str ''?'' then say fts out (dec_int last_code) k else Some k)
                            else say fts out (c # s) k
          | Some [] \<Rightarrow> say fts out [] k
          | None \<Rightarrow> Some k);
     say fts out [newline] k }"

definition cmd_clear :: "tid \<Rightarrow> kernel \<Rightarrow> kernel option" where
  "cmd_clear i k = with_terminal i (\<lambda>t. do {
     t \<leftarrow> (if show_window t then with_win (FillRectangle InnerAreaWriter (Vec 2 5)
              (Vec (8 * Terminal.kColumns) (16 * Terminal.kRows)) kTerminalBGColor) t else Some t);
     Some (t\<lparr>cursor_y := 0\<rparr>) }) k"

text \<open>The commands return the exit code.\<close>

definition cmd_ls :: "'f fonts \<Rightarrow> nat \<Rightarrow> nat \<Rightarrow> cstr option \<Rightarrow> kernel \<Rightarrow> (kernel \<times> int) option" where
  "cmd_ls fts out err a k =
     (if a = None \<or> a = Some [] then map_option (\<lambda>k. (k, 0)) (ListAllEntries fts out (root_dir (vol k)) k)
      else do {
        (f, post_slash) \<leftarrow> FindFile (vol k) (the a) 0;
        (case f of
           None \<Rightarrow> map_option (\<lambda>k. (k, 1)) (say fts err (str ''No such file or directory: '' @ the a @ [newline]) k)
         | Some p \<Rightarrow> do {
             e \<leftarrow> get_entry (vol k) p;
             if attr e = kDirectory then map_option (\<lambda>k. (k, 0)) (ListAllEntries fts out (unat (FirstCluster e)) k)
             else if post_slash
             then map_option (\<lambda>k. (k, 1)) (say fts err (FormatName e @ str '' is not a directory'' @ [newline]) k)
             else map_option (\<lambda>k. (k, 0)) (say fts out (FormatName e @ [newline]) k) }) })"

definition cmd_cat :: "'f fonts \<Rightarrow> tid \<Rightarrow> nat list \<Rightarrow> cstr option \<Rightarrow> kernel \<Rightarrow> (kernel \<times> int) option" where
  "cmd_cat fts i hs a k = do {
     (k, fd, code) \<leftarrow>
       (if a = None \<or> a = Some [] then Some (k, Some (hs ! 0), 0)
        else do {
          (f, post_slash) \<leftarrow> FindFile (vol k) (the a) 0;
          (case f of
             None \<Rightarrow> map_option (\<lambda>k. (k, None, 1)) (say fts (hs ! 2) (str ''no such file: '' @ the a @ [newline]) k)
           | Some p \<Rightarrow> do {
               e \<leftarrow> get_entry (vol k) p;
               if attr e \<noteq> kDirectory \<and> post_slash
               then map_option (\<lambda>k. (k, None, 1)) (say fts (hs ! 2) (FormatName e @ str '' is not a directory'' @ [newline]) k)
               else (case new_descriptor (FatFd (FileDescriptor_init p)) k of (k, h) \<Rightarrow> Some (k, Some h, 0)) }) });
     (case fd of
        None \<Rightarrow> Some (k, code)
      | Some h \<Rightarrow> do {
          k \<leftarrow> with_terminal i (DrawCursor False) k;
          k \<leftarrow> cat_files fts h (hs ! 1) k;
          k \<leftarrow> with_terminal i (DrawCursor True) k;
          Some (k, code) }) }"

text \<open>\<^verbatim>\<open>rm\<close> without an argument passes a null pointer on.\<close>

definition cmd_rm :: "'f fonts \<Rightarrow> tid \<Rightarrow> cstr option \<Rightarrow> kernel \<Rightarrow> kernel option" where
  "cmd_rm fts i a k = do {
     name \<leftarrow> a;
     (v, err, msg) \<leftarrow> DeleteFile (vol k) name;
     let k = k\<lparr>vol := v\<rparr>;
     if err \<noteq> kSuccess then do { k \<leftarrow> term_print fts i (str ''delete fail '') None k; term_print fts i msg None k }
     else Some k }"

definition cmd_memstat :: "'f fonts \<Rightarrow> nat \<Rightarrow> nat \<times> nat \<Rightarrow> kernel \<Rightarrow> kernel option" where
  "cmd_memstat fts out st k =
     (let line = (\<lambda>what n. str what @ dec n @ str '' frames ('' @ dec (n * kBytesPerFrame div 1024 div 1024) @ str '' MiB)'' @ [newline]) in do {
     k \<leftarrow> say fts out (line ''Phys used : '' (fst st)) k;
     say fts out (line ''Phys total: '' (snd st)) k })"

text \<open>A new task with a terminal that has no window: the second command of a pipe, and \<^verbatim>\<open>noterm\<close>.\<close>

definition start_terminal :: "'f shell_env \<Rightarrow> TerminalDescriptor \<Rightarrow> tid \<Rightarrow> kernel \<Rightarrow> kernel option" where
  "start_terminal S d sub k = do {
     m \<leftarrow> Wakeup sub (-1)
            (upd_task sub (InitContext (term_entry S) (desc_addr S d) (cr3_now S) (new_stack S sub)) (tasking k));
     Some (k\<lparr>tasking := m, started := started k @ [(sub, d)]\<rparr>) }"

definition cmd_noterm :: "'f shell_env \<Rightarrow> nat list \<Rightarrow> cstr option \<Rightarrow> kernel \<Rightarrow> kernel option" where
  "cmd_noterm S hs a k = do {
     line \<leftarrow> a;
     let (m, sub) = NewTask (tasking k);
     start_terminal S \<lparr>td_command_line = line, td_exit_after_command = True, td_show_window = False, td_files = hs\<rparr> sub
       (k\<lparr>tasking := m\<rparr>) }"

definition cmd_other :: "'f shell_env \<Rightarrow> tid \<Rightarrow> nat list \<Rightarrow> cstr \<Rightarrow> cstr option \<Rightarrow> kernel \<Rightarrow> (kernel \<times> int) option" where
  "cmd_other S i hs command a k = do {
     f \<leftarrow> FindCommand (vol k) command 0;
     (case f of
        None \<Rightarrow> map_option (\<lambda>k. (k, 1)) (say (sh_fonts S) (hs ! 2) (str ''no such command: '' @ command @ [newline]) k)
      | Some p \<Rightarrow> do {
          (k, ec, err) \<leftarrow> run_file S i p command a k;
          if err \<noteq> kSuccess then do {
            name \<leftarrow> err_name err;
            k \<leftarrow> say (sh_fonts S) (hs ! 2) (str ''failed to exec file: '' @ name @ [newline]) k;
            Some (k, - ec) }
          else Some (k, ec) }) }"

definition hardware_commands :: "cstr list" where
  "hardware_commands = map str [''lspci'', ''lsusb'', ''fatdump'', ''date'', ''reboot'', ''poweroff'']"

text \<open>The chain of comparisons: \<open>hs\<close> are the three descriptors of the command, the result has the exit code.\<close>

definition run_command :: "'f shell_env \<Rightarrow> tid \<Rightarrow> nat list \<Rightarrow> int \<Rightarrow> cstr \<Rightarrow> cstr option \<Rightarrow> kernel \<Rightarrow> (kernel \<times> int) option" where
  "run_command S i hs last_code command a k =
     (let fts = sh_fonts S; ok = map_option (\<lambda>k. (k, 0)) in
      if command = str ''echo'' then ok (cmd_echo fts (hs ! 1) last_code a k)
      else if command = str ''clear'' then ok (cmd_clear i k)
      else if command = str ''ls'' then cmd_ls fts (hs ! 1) (hs ! 2) a k
      else if command = str ''cat'' then cmd_cat fts i hs a k
      else if command = str ''noterm'' then ok (cmd_noterm S hs a k)
      else if command = str ''memstat'' then ok (cmd_memstat fts (hs ! 1) (mem_stat S) k)
      else if command = str ''rm'' then ok (cmd_rm fts i a k)
      else if command \<in> set hardware_commands then ok (other S command i k)
      else if command \<noteq> [] then cmd_other S i hs command a k
      else Some (k, 0))"

section \<open>The command line\<close>

text \<open>The file that \<^verbatim>\<open>>\<close> names: \<open>None\<close> in place of a handle when a message was printed and the line is given up.\<close>

definition open_redirect :: "'f fonts \<Rightarrow> nat \<Rightarrow> cstr \<Rightarrow> kernel \<Rightarrow> (kernel \<times> nat option) option" where
  "open_redirect fts err dest k = do {
     (f, post_slash) \<leftarrow> FindFile (vol k) dest 0;
     (case f of
        None \<Rightarrow> do {
          (v, r) \<leftarrow> CreateFile (vol k) dest;
          let k = k\<lparr>vol := v\<rparr>;
          (case r of
             Inl c \<Rightarrow> do {
               name \<leftarrow> err_name c;
               k \<leftarrow> say fts err (str ''failed to create a redirect file: '' @ name @ [newline]) k;
               Some (k, None) }
           | Inr p \<Rightarrow> (case new_descriptor (FatFd (FileDescriptor_init p)) k of (k, h) \<Rightarrow> Some (k, Some h))) }
      | Some p \<Rightarrow> do {
          e \<leftarrow> get_entry (vol k) p;
          if attr e = kDirectory \<or> post_slash
          then map_option (\<lambda>k. (k, None)) (say fts err (str ''cannot redirect to a directory'' @ [newline]) k)
          else (case new_descriptor (FatFd (FileDescriptor_init p)) k of (k, h) \<Rightarrow> Some (k, Some h)) }) }"

text \<open>The task behind \<^verbatim>\<open>|\<close> and the pipe to it.\<close>

definition open_pipe :: "'f shell_env \<Rightarrow> u32 \<Rightarrow> nat list \<Rightarrow> cstr \<Rightarrow> kernel \<Rightarrow> (kernel \<times> nat \<times> tid) option" where
  "open_pipe S layer hs sub_line k =
     (case NewTask (tasking k) of (m, sub) \<Rightarrow>
      case new_descriptor (PipeFd (PipeDescriptor_init sub)) (k\<lparr>tasking := m\<rparr>) of (k, h) \<Rightarrow> do {
        k \<leftarrow> start_terminal S \<lparr>td_command_line = sub_line, td_exit_after_command = True, td_show_window = False,
               td_files = [h, hs ! 1, hs ! 2]\<rparr> sub k;
        Some (k\<lparr>layer_tasks := (layer_tasks k)(layer := Some sub)\<rparr>, h, sub) })"

definition close_pipe :: "'f shell_env \<Rightarrow> tid \<Rightarrow> u32 \<Rightarrow> tid \<Rightarrow> kernel \<Rightarrow> (kernel \<times> int) option" where
  "close_pipe S i layer sub k = do {
     m \<leftarrow> Pipe_FinishWrite sub (tasking k);
     (k, ec, err) \<leftarrow> wait_for S sub (k\<lparr>tasking := m\<rparr>);
     Some (k\<lparr>layer_tasks := (layer_tasks k)(layer := Some i)\<rparr>, ec) }"

definition set_files :: "tid \<Rightarrow> nat list \<Rightarrow> kernel \<Rightarrow> kernel option" where
  "set_files i hs = with_terminal i (\<lambda>t. Some (t\<lparr>term_files := hs\<rparr>))"

text \<open>
  The zero bytes that \<^verbatim>\<open>ExecuteLine\<close> writes into the line buffer; what \<open>split_line\<close> returns are the strings
  between them.
\<close>

definition end_strings :: "tid \<Rightarrow> nat option list \<Rightarrow> kernel \<Rightarrow> kernel option" where
  "end_strings i js = with_terminal i (\<lambda>t. Some (t\<lparr>linebuf := fold cut_at js (linebuf t)\<rparr>))"

definition ExecuteLine :: "'f shell_env \<Rightarrow> tid \<Rightarrow> kernel \<Rightarrow> kernel option" where
  "ExecuteLine S i k = do {
     (layer, t) \<leftarrow> terminals k i;
     let cl = split_line (linebuf t);
     let original = term_files t;
     k \<leftarrow> end_strings i [find_in (linebuf t) 0x20, find_in (linebuf t) 0x3e] k;
     (k, redirect) \<leftarrow> (case cl_redirect cl of
         None \<Rightarrow> Some (k, Some (original ! 1))
       | Some dest \<Rightarrow> open_redirect (sh_fonts S) (original ! 2) dest k);
     (case redirect of
        None \<Rightarrow> Some k
      | Some h1 \<Rightarrow> do {
          let hs = original[1 := h1];
          k \<leftarrow> end_strings i [find_in (linebuf t) 0x7c] k;
          (k, hs, sub) \<leftarrow> (case cl_subcommand cl of
              None \<Rightarrow> Some (k, hs, None)
            | Some line \<Rightarrow> map_option (\<lambda>(k, h, sub). (k, hs[1 := h], Some sub)) (open_pipe S layer hs line k));
          k \<leftarrow> set_files i hs k;
          (k, code) \<leftarrow> run_command S i hs (last_exit_code t) (cl_command cl) (cl_arg cl) k;
          (k, code) \<leftarrow> (case sub of None \<Rightarrow> Some (k, code) | Some sub \<Rightarrow> close_pipe S i layer sub k);
          with_terminal i (\<lambda>t. Some (t\<lparr>last_exit_code := code, term_files := (term_files t)[1 := original ! 1]\<rparr>)) k }) }"

section \<open>Redirection to a new file\<close>

text \<open>What a new descriptor of a file stands for while the shell prints to it.\<close>

lemma say_fat:
  assumes "arr_get (descriptors k) h = Some (FatFd fd)" and "length s < 128"
    and "Fat_File.Write (vol k) fd s = Some (v', fd', length s)"
  shows "say fts h s k = Some (k\<lparr>vol := v', descriptors := (descriptors k)[h := FatFd fd']\<rparr>)"
  using assms by (simp add: say_def PrintToFD_def fd_write_def set_descriptor_def)

lemma echo_parts:
  "free_of [0x3e, 0x7c] words \<Longrightarrow> free_of [0x3e, 0x7c] name \<Longrightarrow> dropWhile isspace name = name \<Longrightarrow>
   split_line (str ''echo'' @ 0x20 # words @ 0x3e # name @ 0 # junk)
     = \<lparr>cl_command = str ''echo'', cl_arg = Some (dropWhile isspace words), cl_redirect = Some name, cl_subcommand = None\<rparr>"
  using split_line_operator [of "str ''echo''" words name "0x3e" junk] by (simp add: free_of_def str_def)

lemma echo_ends:
  assumes "free_of [0x3e, 0x7c] words" and "free_of [0x3e, 0x7c] name"
    and l: "l = str ''echo'' @ 0x20 # words @ 0x3e # name @ 0 # junk"
  shows "fold cut_at [find_in l 0x20, find_in l 0x3e] l = str ''echo'' @ 0 # words @ 0 # name @ 0 # junk"
    and "find_in l 0x7c = None"
proof -
  have n: "0 \<notin> set (str ''echo'' @ 0x20 # words @ 0x3e # name)" using assms(1,2) by (auto simp: free_of_def str_def)
  have e: "(0x20 :: u8) \<notin> set (str ''echo'')" "0x3e \<notin> set (str ''echo'' @ 0x20 # words)"
    "0x7c \<notin> set (str ''echo'' @ 0x20 # words @ 0x3e # name)"
    using assms(1,2) by (auto simp: free_of_def str_def)
  have f: "find_in l 0x20 = Some (length (str ''echo''))" "find_in l 0x3e = Some (length (str ''echo'' @ 0x20 # words))"
    using find_in_here [OF n e(1)] find_in_here [of "str ''echo'' @ 0x20 # words" "0x3e" name junk] n e(2) by (simp_all add: l)
  have c: "cut_at (find_in l 0x20) l = str ''echo'' @ 0 # words @ 0x3e # name @ 0 # junk"
    unfolding f(1) unfolding l by (rule cut_at_here)
  have "cut_at (find_in l 0x3e) (str ''echo'' @ 0 # words @ 0x3e # name @ 0 # junk) = str ''echo'' @ 0 # words @ 0 # name @ 0 # junk"
    using cut_at_here [of "str ''echo'' @ 0 # words" "0x3e" "name @ 0 # junk"] by (simp add: f(2))
  with c show "fold cut_at [find_in l 0x20, find_in l 0x3e] l = str ''echo'' @ 0 # words @ 0 # name @ 0 # junk" by simp
  show "find_in l 0x7c = None" using find_in_none [OF n e(3), of junk] by (simp add: l)
qed

lemma echo_text_line:
  assumes h: "arr_get (descriptors k) h = Some (FatFd (FileDescriptor_init p))"
    and v: "vol_ok (vol k)" "in_volume (vol k) p" "fat (vol k) ! fst p \<noteq> 0" "FirstCluster (entry (vol k) p) = 0"
    and free: "free_clusters (fat (vol k)) 2 \<noteq> []" and dir: "dir_ok (vol k) (root_dir (vol k) # cl)"
    and s: "c \<noteq> 0x24" "length (c # s) < 128" "length (c # s) < bytes_per_cluster (vol k)"
    and name: "kSlash \<notin> set name" "length name < 13"
  obtains v' fd' e d where "cmd_echo fts h code (Some (c # s)) k = Some (k\<lparr>vol := v', descriptors := (descriptors k)[h := FatFd fd']\<rparr>)"
    "vol_ok v'" "FindFile v' name 0 = FindFile (vol k) name 0" "get_entry v' p = Some e" "file_ok v' e [d]"
    "file_bytes v' e [d] = c # s @ [newline]"
proof -
  let ?v = "vol k"
  have l: "0 < length (c # s)" "length (c # s) \<le> bytes_per_cluster ?v" "length (c # s) < 2 ^ 32" using s by simp_all
  from Write_new_file [OF v free l] obtain v1 fd1 d e1 where
    W: "Fat_File.Write ?v (FileDescriptor_init p) (c # s) = Some (v1, fd1, length (c # s))" "vol_ok v1" "get_entry v1 p = Some e1"
      "file_ok v1 e1 [d]" "file_bytes v1 e1 [d] = c # s" "fat_frame (fat ?v) (fat v1) {d}" "d \<in> set (free_clusters (fat ?v) 2)"
      "wr_off fd1 = length (c # s)" "fat_entry fd1 = p" "wr_cluster fd1 = d" "wr_cluster_off fd1 = length (c # s)"
      "bpb v1 = bpb ?v" "bytes_per_cluster v1 = bytes_per_cluster ?v"
      "\<forall>q. in_volume ?v q \<longrightarrow> fst q \<noteq> d \<longrightarrow> de_name (entry v1 q) = de_name (entry ?v q)" by metis
  have d: "2 \<le> d" "d < length (fat ?v)" "fat ?v ! d = 0" using W(7) by (simp_all add: free_clusters_set)
  have iv: "in_volume v1 q = in_volume ?v q" for q
    using W(6,13) by (simp add: in_volume_def fat_frame_def entries_per_cluster_def)
  have e1: "e1 = entry v1 p" using W(3) get_entry_in [OF W(2)] v(2) iv by simp
  have sz: "wr_off fd1 = unat (file_size (entry v1 p))"
  proof -
    have "dir_ok v1 [d]" using W(4) unfolding file_ok_def by blast
    then have "length (content v1 [d]) = bytes_per_cluster v1" using content_length [OF W(2)] by simp
    then have "length (file_bytes v1 e1 [d]) = unat (file_size e1)"
      using W(4) by (simp add: file_bytes_def file_ok_def)
    then show ?thesis using W(5,8) e1 by simp
  qed
  have a: "wr_off fd1 + length [newline] \<le> bytes_per_cluster v1" "wr_off fd1 + length [newline] < 2 ^ 32" "0 < length [newline]"
    "fst p \<noteq> wr_cluster fd1" "2 \<le> wr_cluster fd1" "file_ok v1 (entry v1 p) [wr_cluster fd1]" "wr_cluster_off fd1 = wr_off fd1"
    using W s v(3) d e1 by auto
  from Write_append [OF W(2) _ a(4,5,6) W(9) sz a(7,3,1,2)] v(2) iv obtain v2 fd2 e2 where
    X: "Fat_File.Write v1 fd1 [newline] = Some (v2, fd2, length [newline])" "vol_ok v2" "get_entry v2 p = Some e2"
      "file_ok v2 e2 [d]" "file_bytes v2 e2 [d] = file_bytes v1 (entry v1 p) [d] @ [newline]"
      "fat v2 = fat v1" "bpb v2 = bpb v1" "bytes_per_cluster v2 = bytes_per_cluster v1"
      "\<forall>q. in_volume v1 q \<longrightarrow> fst q \<noteq> d \<longrightarrow> de_name (entry v2 q) = de_name (entry v1 q)"
    unfolding W(10) by metis
  let ?k1 = "k\<lparr>vol := v1, descriptors := (descriptors k)[h := FatFd fd1]\<rparr>"
  let ?k2 = "k\<lparr>vol := v2, descriptors := (descriptors k)[h := FatFd fd2]\<rparr>"
  have hl: "h < length (descriptors k)" using h by (simp add: arr_get_Some_iff)
  have "say fts h (c # s) k = Some ?k1" by (rule say_fat [OF h s(2) W(1)])
  moreover have "say fts h [newline] ?k1 = Some ?k2"
    using say_fat [of ?k1 h fd1 "[newline]" v2 fd2] X(1) hl by (simp add: arr_get_def)
  ultimately have E: "cmd_echo fts h code (Some (c # s)) k = Some ?k2"
    using s(1) by (simp add: cmd_echo_def)
  have f: "fat_frame (fat ?v) (fat v2) {d}" "bpb v2 = bpb ?v" "bytes_per_cluster v2 = bytes_per_cluster ?v"
    using W X by simp_all
  have "\<forall>q. in_volume ?v q \<longrightarrow> fst q \<noteq> d \<longrightarrow> de_name (entry v2 q) = de_name (entry ?v q)"
    using W(14) X(9) iv by metis
  from FindFile_same_names(1) [OF v(1) X(2) dir f(2,3,1) d(3) this name]
  have "FindFile v2 name 0 = FindFile ?v name 0" .
  moreover have "file_bytes v2 e2 [d] = c # s @ [newline]" using X(5) W(5) e1 by simp
  ultimately show thesis using that [OF E X(2) _ X(3,4)] by blast
qed

text \<open>
  C4: \<^verbatim>\<open>echo TEXT>NAME\<close>, typed into a terminal, writes the text.  The text has less than 128 bytes and fits
  into a cluster with its newline, does not begin with \<^verbatim>\<open>$\<close>, and text and (8.3) name contain neither
  \<^verbatim>\<open>>\<close> nor \<^verbatim>\<open>|\<close>.  When no entry of the root directory has the name, the directory has no deleted entry and two
  clusters are free, \<^verbatim>\<open>ExecuteLine\<close> comes back with a volume in which the name is found and its file has
  exactly the bytes of the text, from its first character that is not a blank, and a newline.  The volume
  is well formed, the exit code is 0, the terminal prints to its own output again and is otherwise changed
  in its line buffer only, where zero bytes are at the blank and at the operator; no task has been touched.
\<close>

theorem echo_to_file:
  assumes "vol_ok (vol k)" and "dir_ok (vol k) (root_dir (vol k) # cl)" and "root_dir (vol k) \<noteq> 0"
    and "2 \<le> card (set (free_clusters (fat (vol k)) 2))" and "never_deleted (vol k) (root_dir (vol k) # cl)"
    and "valid83 (base, ext)" and "FindFile (vol k) (name83 (base, ext)) 0 = Some (None, ps)"
    and "free_of [0x3e, 0x7c] (name83 (base, ext))" and "\<not> isspace (hd base)"
    and "terminals k i = Some (layer, t)" and "length (term_files t) = 3"
    and "linebuf t = str ''echo'' @ 0x20 # words @ 0x3e # name83 (base, ext) @ 0 # junk"
    and "free_of [0x3e, 0x7c] words" and "dropWhile isspace words = c # s" and "c \<noteq> 0x24"
    and "length (c # s) < 128" and "length (c # s) < bytes_per_cluster (vol k)"
  shows "\<exists>k' p e d. ExecuteLine S i k = Some k' \<and> FindFile (vol k') (name83 (base, ext)) 0 = Some (Some p, False)
    \<and> get_entry (vol k') p = Some e \<and> file_ok (vol k') e [d] \<and> file_bytes (vol k') e [d] = c # s @ [newline]
    \<and> vol_ok (vol k') \<and> terminals k' = (terminals k)(i \<mapsto> (layer, t\<lparr>linebuf :=
         str ''echo'' @ 0 # words @ 0 # name83 (base, ext) @ 0 # junk, last_exit_code := 0\<rparr>)) \<and> tasking k' = tasking k"
proof -
  let ?n = "name83 (base, ext)" and ?h = "length (descriptors k)"
  note np = name83_plain [OF assms(6)]
  have "dropWhile isspace ?n = ?n" using assms(6,9) by (cases base) auto
  note sl = echo_parts [OF assms(13,8) this, of junk] and en = echo_ends [OF assms(13,8,12)]
  let ?l = "str ''echo'' @ 0 # words @ 0 # ?n @ 0 # junk"
  let ?t = "t\<lparr>linebuf := ?l\<rparr>"
  let ?k0 = "k\<lparr>terminals := (terminals k)(i \<mapsto> (layer, ?t))\<rparr>"
  have E0: "end_strings i [find_in (linebuf t) 0x20, find_in (linebuf t) 0x3e] k = Some ?k0"
    using assms(10) en(1) by (simp add: end_strings_def with_terminal_def)
  from CreateFile_empty_file [OF assms(1-7)] obtain v2 p cs where
    C: "CreateFile (vol k) ?n = Some (v2, Inr p)" "vol_ok v2" "in_volume v2 p" "fat v2 ! fst p \<noteq> 0" "FirstCluster (entry v2 p) = 0"
      "free_clusters (fat v2) 2 \<noteq> []" "bytes_per_cluster v2 = bytes_per_cluster (vol k)"
      "FindFile v2 ?n 0 = Some (Some p, False)" "dir_ok v2 (root_dir v2 # cs)" by metis
  let ?k1 = "?k0\<lparr>vol := v2, descriptors := descriptors k @ [FatFd (FileDescriptor_init p)]\<rparr>"
  have R: "open_redirect (sh_fonts S) err ?n ?k0 = Some (?k1, Some ?h)" for err
    using assms(7) C(1) by (simp add: open_redirect_def new_descriptor_def)
  have E1: "end_strings i [find_in (linebuf t) 0x7c] ?k1 = Some ?k1"
    using en(2) by (simp add: end_strings_def with_terminal_def cut_at_def)
  let ?hs = "(term_files t)[1 := ?h]"
  let ?k2 = "?k1\<lparr>terminals := (terminals k)(i \<mapsto> (layer, ?t\<lparr>term_files := ?hs\<rparr>))\<rparr>"
  have F: "set_files i ?hs ?k1 = Some ?k2" by (simp add: set_files_def with_terminal_def)
  have k2: "arr_get (descriptors ?k2) ?h = Some (FatFd (FileDescriptor_init p))" "vol ?k2 = v2"
    "length (c # s) < bytes_per_cluster v2" using C(7) assms(17) by (simp_all add: arr_get_def)
  obtain v' fd' e d where
    E: "cmd_echo (sh_fonts S) ?h (last_exit_code t) (Some (c # s)) ?k2
        = Some (?k2\<lparr>vol := v', descriptors := (descriptors ?k2)[?h := FatFd fd']\<rparr>)"
      "vol_ok v'" "FindFile v' ?n 0 = FindFile v2 ?n 0" "get_entry v' p = Some e" "file_ok v' e [d]"
      "file_bytes v' e [d] = c # s @ [newline]"
    using echo_text_line [OF k2(1), unfolded k2(2), OF C(2-6,9) assms(15,16) k2(3) np(1,2)] by metis
  let ?k3 = "?k2\<lparr>vol := v', descriptors := (descriptors ?k2)[?h := FatFd fd']\<rparr>"
  have X: "run_command S i ?hs (last_exit_code t) (str ''echo'') (Some (c # s)) ?k2 = Some (?k3, 0)"
    using E(1) assms(11) by (simp add: run_command_def)
  have "(term_files t)[1 := term_files t ! 1] = term_files t" by simp
  moreover have "split_line (linebuf t) = \<lparr>cl_command = str ''echo'', cl_arg = Some (c # s), cl_redirect = Some ?n, cl_subcommand = None\<rparr>"
    using sl assms(12,14) by simp
  ultimately have "ExecuteLine S i k = Some (?k3\<lparr>terminals := (terminals k)(i \<mapsto> (layer, ?t\<lparr>last_exit_code := 0\<rparr>))\<rparr>)"
    using assms(10) R F X E0 E1 by (simp add: ExecuteLine_def with_terminal_def Let_def)
  then show ?thesis using E(2-6) C(8)
    by (intro exI [of _ "?k3\<lparr>terminals := (terminals k)(i \<mapsto> (layer, ?t\<lparr>last_exit_code := 0\<rparr>))\<rparr>"]) auto
qed

text \<open>\<^verbatim>\<open>echo hello>memo.txt\<close> on the empty volume.\<close>

definition shell_example :: "unit shell_env" where
  "shell_example = \<lparr>sh_fonts = blank_fonts, run_file = (\<lambda>i p command a k. None), wait_for = (\<lambda>i k. None),
     other = (\<lambda>command i k. None), mem_stat = (0, 0), term_entry = 0, desc_addr = (\<lambda>d. 0), cr3_now = 0,
     new_stack = (\<lambda>i. 0)\<rparr>"

definition shell_terminal :: Terminal where
  "shell_terminal = \<lparr>show_window = False, win = None, cursor_x = 1, cursor_y = 0, cursor_visible = False,
     linebuf_index = 0, linebuf = str ''echo'' @ 0x20 # str ''hello'' @ 0x3e # name83 (str ''memo'', str ''txt'') @ 0 # [],
     cmd_history = [], cmd_history_index = -1, term_files = [0, 0, 0], last_exit_code = 7\<rparr>"

definition shell_kernel :: kernel where
  "shell_kernel = kernel_example\<lparr>descriptors := [TermFd 1], terminals := [1 \<mapsto> (5, shell_terminal)]\<rparr>"

theorem echo_to_file_witness:
  "\<exists>k' p e d. ExecuteLine shell_example 1 shell_kernel = Some k'
     \<and> FindFile (vol k') (name83 (str ''memo'', str ''txt'')) 0 = Some (Some p, False)
     \<and> get_entry (vol k') p = Some e \<and> file_bytes (vol k') e [d] = str ''hello'' @ [newline]
     \<and> terminals k' 1 = Some (5, shell_terminal\<lparr>linebuf :=
         str ''echo'' @ 0 # str ''hello'' @ 0 # name83 (str ''memo'', str ''txt'') @ 0 # [], last_exit_code := 0\<rparr>)"
proof -
  let ?k = shell_kernel
  have k: "vol ?k = volume_example" "terminals ?k 1 = Some (5, shell_terminal)"
    by (simp_all add: shell_kernel_def kernel_example_def)
  have o: "vol_ok (vol ?k)" "dir_ok (vol ?k) (root_dir (vol ?k) # [])" "root_dir (vol ?k) \<noteq> 0"
    "2 \<le> card (set (free_clusters (fat (vol ?k)) 2))" "never_deleted (vol ?k) (root_dir (vol ?k) # [])"
    "FindFile (vol ?k) (name83 (str ''memo'', str ''txt'')) 0 = Some (None, False)"
    using memo_txt_is_new(2) volume_example_clean unfolding k by (simp_all add: volume_example_free) (simp_all only: volume_example_ok)
  have n: "free_of [0x3e, 0x7c] (name83 (str ''memo'', str ''txt''))" "\<not> isspace (hd (str ''memo''))"
    by (simp_all add: free_of_def str_def kDot_def isspace_def)
  have w: "length (term_files shell_terminal) = 3"
    "linebuf shell_terminal = str ''echo'' @ 0x20 # str ''hello'' @ 0x3e # name83 (str ''memo'', str ''txt'') @ 0 # []"
    by (simp_all add: shell_terminal_def)
  have h: "free_of [0x3e, 0x7c] (str ''hello'')" "dropWhile isspace (str ''hello'') = 0x68 # str ''ello''" "(0x68 :: u8) \<noteq> 0x24"
    "length (0x68 # str ''ello'') < 128" "length (0x68 # str ''ello'') < bytes_per_cluster (vol ?k)"
    by (simp_all add: free_of_def str_def isspace_def k volume_example_def)
  have "0x68 # str ''ello'' @ [newline] = str ''hello'' @ [newline]" by (simp add: str_def)
  with echo_to_file [OF o(1-5) memo_txt_is_new(1) o(6) n k(2) w h, of shell_example]
  show ?thesis by (metis fun_upd_same)
qed

end
