(* ===== verification/Segment.thy ===== *)
theory Segment imports Bit_Fields Font Paging begin

text \<open>
  Segments, the task state segment and the interrupt descriptor table: \<^verbatim>\<open>kernel/segment.cpp\<close>,
  \<^verbatim>\<open>x86_descriptor.hpp\<close>, the descriptors of \<^verbatim>\<open>interrupt.cpp\<close> and the selectors that \<^verbatim>\<open>InitializeSyscall\<close>
  gives to the processor.

  A descriptor is its 64-bit word, the members of the packed structure are bit fields of it.  The
  instructions that load a register of the processor set a field of \<open>cpu\<close>; addresses of variables and
  of handlers are arguments.
\<close>

section \<open>Segment descriptors\<close>

definition kUpper8Bytes :: u64 where "kUpper8Bytes = 0"
definition kLDT :: u64 where "kLDT = 2"
definition kTSSAvailable :: u64 where "kTSSAvailable = 9"
definition kTSSBusy :: u64 where "kTSSBusy = 11"
definition kCallGate :: u64 where "kCallGate = 12"
definition kInterruptGate :: u64 where "kInterruptGate = 14"
definition kTrapGate :: u64 where "kTrapGate = 15"
definition kReadWrite :: u64 where "kReadWrite = 2"
definition kExecuteRead :: u64 where "kExecuteRead = 10"

definition kKernelDS :: u64 where "kKernelDS = 0"
definition kTSS :: u64 where "kTSS = push_bit 3 5"

definition kISTForTimer :: nat where "kISTForTimer = 1"

definition SetCodeSegment :: "u64 \<Rightarrow> u64 \<Rightarrow> u32 \<Rightarrow> u32 \<Rightarrow> u64" where
  "SetCodeSegment ty dpl base limit =
     (let d = 0;
          d = set_field 16 16 (ucast (base AND 0xffff)) d;
          d = set_field 32 8 (ucast (drop_bit 16 base AND 0xff)) d;
          d = set_field 56 8 (ucast (drop_bit 24 base AND 0xff)) d;
          d = set_field 0 16 (ucast (limit AND 0xffff)) d;
          d = set_field 48 4 (ucast (drop_bit 16 limit AND 0xf)) d;
          d = set_field 40 4 ty d;
          d = set_field 44 1 1 d;
          d = set_field 45 2 dpl d;
          d = set_field 47 1 1 d;
          d = set_field 52 1 0 d;
          d = set_field 53 1 1 d;
          d = set_field 54 1 0 d
      in set_field 55 1 1 d)"

definition SetDataSegment :: "u64 \<Rightarrow> u64 \<Rightarrow> u32 \<Rightarrow> u32 \<Rightarrow> u64" where
  "SetDataSegment ty dpl base limit = set_field 54 1 1 (set_field 53 1 0 (SetCodeSegment ty dpl base limit))"

definition SetSystemSegment :: "u64 \<Rightarrow> u64 \<Rightarrow> u32 \<Rightarrow> u32 \<Rightarrow> u64" where
  "SetSystemSegment ty dpl base limit = set_field 53 1 0 (set_field 44 1 0 (SetCodeSegment ty dpl base limit))"

section \<open>The tables\<close>

record InterruptDescriptor =
  offset_low :: u16
  segment_selector :: u16
  gate_attr :: u16
  offset_middle :: u16
  offset_high :: u32
  gate_reserved :: u32

record cpu =
  gdt :: "u64 list"
  tss :: "u32 list"
  idt :: "InterruptDescriptor list"
  gdtr :: "nat \<times> u64"
  idtr :: "nat \<times> u64"
  reg_ds :: u64
  reg_cs :: u64
  reg_ss :: u64
  reg_tr :: u64
  msr :: "u32 \<Rightarrow> u64"

definition SetTSS :: "nat \<Rightarrow> u64 \<Rightarrow> cpu \<Rightarrow> cpu" where
  "SetTSS index v c = c\<lparr>tss := (tss c)[index := ucast (v AND 0xffffffff), index + 1 := ucast (drop_bit 32 v)]\<rparr>"

text \<open>\<open>Inl\<close> is \<^verbatim>\<open>exit(1)\<close> after the message.\<close>

definition AllocateStackArea :: "nat \<Rightarrow> BitmapMemoryManager \<Rightarrow> (error_code + (u64 \<times> BitmapMemoryManager)) option" where
  "AllocateStackArea num_4kframes m = (case Allocate m num_4kframes of
     None \<Rightarrow> None
   | Some ((stk, err), m') \<Rightarrow>
       if err \<noteq> kSuccess then Some (Inl err)
       else Some (Inr (of_nat (stk * kBytesPerFrame) + of_nat num_4kframes * 4096, m')))"

definition SetupSegments :: "u64 \<Rightarrow> cpu \<Rightarrow> cpu" where
  "SetupSegments gdt_addr c =
     (let g = gdt c;
          g = g[0 := 0];
          g = g[1 := SetCodeSegment kExecuteRead 0 0 0xfffff];
          g = g[2 := SetDataSegment kReadWrite 0 0 0xfffff];
          g = g[3 := SetDataSegment kReadWrite 3 0 0xfffff];
          g = g[4 := SetCodeSegment kExecuteRead 3 0 0xfffff]
      in c\<lparr>gdt := g, gdtr := (8 * length g - 1, gdt_addr)\<rparr>)"

definition InitializeSegmentation :: "u64 \<Rightarrow> cpu \<Rightarrow> cpu" where
  "InitializeSegmentation gdt_addr c =
     (SetupSegments gdt_addr c)\<lparr>reg_ds := kKernelDS, reg_cs := kKernelCS, reg_ss := kKernelSS\<rparr>"

definition InitializeTSS :: "u64 \<Rightarrow> cpu \<Rightarrow> BitmapMemoryManager \<Rightarrow> (error_code + (cpu \<times> BitmapMemoryManager)) option" where
  "InitializeTSS tss_addr c m = (case AllocateStackArea 8 m of
     None \<Rightarrow> None
   | Some (Inl err) \<Rightarrow> Some (Inl err)
   | Some (Inr (stack0, m)) \<Rightarrow> (case AllocateStackArea 8 m of
       None \<Rightarrow> None
     | Some (Inl err) \<Rightarrow> Some (Inl err)
     | Some (Inr (stack1, m)) \<Rightarrow>
         let c = SetTSS (7 + 2 * kISTForTimer) stack1 (SetTSS 1 stack0 c);
             i = unat (drop_bit 3 kTSS);
             g = (gdt c)[i := SetSystemSegment kTSSAvailable 0 (ucast (tss_addr AND 0xffffffff)) (of_nat (4 * length (tss c) - 1)),
                         i + 1 := drop_bit 32 tss_addr]
         in Some (Inr (c\<lparr>gdt := g, reg_tr := kTSS\<rparr>, m))))"

section \<open>Interrupts\<close>

definition kXHCI :: nat where "kXHCI = 51"
definition kLAPICTimer :: nat where "kLAPICTimer = 52"

definition SetIDTEntry :: "u64 \<Rightarrow> u8 \<Rightarrow> u64 \<Rightarrow> u16 \<Rightarrow> u8 \<Rightarrow> bool \<Rightarrow> InterruptDescriptor \<Rightarrow> InterruptDescriptor" where
  "SetIDTEntry ty dpl target selector ist pres d =
     (let a = gate_attr d;
          a = set_field 0 3 (ucast ist) a;
          a = set_field 8 4 (ucast ty) a;
          a = set_field 13 2 (ucast dpl) a;
          a = set_field 15 1 (if pres then 1 else 0) a
      in d\<lparr>gate_attr := a, offset_low := ucast (target AND 0xffff), offset_middle := ucast (drop_bit 16 target AND 0xffff),
           offset_high := ucast (drop_bit 32 target), segment_selector := selector\<rparr>)"

text \<open>The vectors with a handler, in the order of the calls; \<open>handler\<close> are the addresses of the functions.\<close>

definition fault_vectors :: "nat list" where
  "fault_vectors = [0, 1, 3, 4, 5, 6, 7, 8, 10, 11, 12, 13, 14, 16, 17, 18, 19, 20]"

definition set_gate :: "nat \<Rightarrow> u64 \<Rightarrow> u8 \<Rightarrow> cpu \<Rightarrow> cpu" where
  "set_gate n target ist c =
     c\<lparr>idt := (idt c)[n := SetIDTEntry kInterruptGate 0 target (ucast kKernelCS) ist True (idt c ! n)]\<rparr>"

definition InitializeInterrupt :: "(nat \<Rightarrow> u64) \<Rightarrow> u64 \<Rightarrow> cpu \<Rightarrow> cpu" where
  "InitializeInterrupt handler idt_addr c =
     (let c = set_gate kXHCI (handler kXHCI) 0 c;
          c = set_gate kLAPICTimer (handler kLAPICTimer) (of_nat kISTForTimer) c;
          c = fold (\<lambda>n. set_gate n (handler n) 0) fault_vectors c
      in c\<lparr>idtr := (16 * length (idt c) - 1, idt_addr)\<rparr>)"

text \<open>The registers with which \<^verbatim>\<open>syscall\<close> works; \<open>entry_addr\<close> is the address of \<^verbatim>\<open>SyscallEntry\<close>.\<close>

definition kIA32_EFER :: u32 where "kIA32_EFER = 0xc0000080"
definition kIA32_STAR :: u32 where "kIA32_STAR = 0xc0000081"
definition kIA32_LSTAR :: u32 where "kIA32_LSTAR = 0xc0000082"
definition kIA32_FMASK :: u32 where "kIA32_FMASK = 0xc0000084"

definition InitializeSyscall :: "u64 \<Rightarrow> cpu \<Rightarrow> cpu" where
  "InitializeSyscall entry_addr c = c\<lparr>msr := (msr c)(kIA32_EFER := 0x0501, kIA32_LSTAR := entry_addr,
     kIA32_STAR := push_bit 32 8 OR push_bit 48 (16 OR 3), kIA32_FMASK := 0)\<rparr>"

section \<open>Faults\<close>

record InterruptFrame =
  frame_rip :: u64
  frame_cs :: u64
  frame_rflags :: u64
  frame_rsp :: u64
  frame_ss :: u64

definition hex_digit :: "u64 \<Rightarrow> u8" where
  "hex_digit x = (if x \<ge> 10 then ucast x + (0x61 - 10) else ucast x + 0x30)"

definition PrintHex :: "'f fonts \<Rightarrow> 'w PixelWriter \<Rightarrow> u64 \<Rightarrow> nat \<Rightarrow> Vector2D \<Rightarrow> 'w \<Rightarrow> 'w option" where
  "PrintHex fts W v width pos w =
     for_each (\<lambda>i w. WriteAscii (hankaku fts) W (pos + Vec (8 * int i) 0)
                 (hex_digit (drop_bit (4 * (width - i - 1)) v AND 0xf)) (px 0 0 0) w) [0..<width] w"

definition PrintFrame :: "'f fonts \<Rightarrow> 'w PixelWriter \<Rightarrow> InterruptFrame \<Rightarrow> u8 list \<Rightarrow> 'w \<Rightarrow> 'w option" where
  "PrintFrame fts W f exp_name w = do {
     let text = (\<lambda>p s. WriteString fts W p s (px 0 0 0));
     w \<leftarrow> text (Vec 500 0) exp_name w;
     w \<leftarrow> text (Vec 500 16) (str ''CS:RIP'') w;
     w \<leftarrow> PrintHex fts W (frame_cs f) 4 (Vec (500 + 8 * 7) 16) w;
     w \<leftarrow> PrintHex fts W (frame_rip f) 16 (Vec (500 + 8 * 12) 16) w;
     w \<leftarrow> text (Vec 500 32) (str ''RFLAGS'') w;
     w \<leftarrow> PrintHex fts W (frame_rflags f) 16 (Vec (500 + 8 * 7) 32) w;
     w \<leftarrow> text (Vec 500 48) (str ''SS:RSP'') w;
     w \<leftarrow> PrintHex fts W (frame_ss f) 4 (Vec (500 + 8 * 7) 48) w;
     PrintHex fts W (frame_rsp f) 16 (Vec (500 + 8 * 12) 48) w }"

text \<open>How a handler ends: back to the interrupted code, to the kernel with the application's exit code, or halted.\<close>

datatype ('w, 's) fault_end = Resume 's | ExitApp u64 int | Halt 'w

definition SIGSEGV :: int where "SIGSEGV = 11"

definition KillApp :: "InterruptFrame \<Rightarrow> Task \<Rightarrow> ('w, 's) fault_end option" where
  "KillApp f t = (if frame_cs f AND 3 \<noteq> 3 then None else Some (ExitApp (os_stack_ptr t) (128 + SIGSEGV)))"

text \<open>The handlers of the faults with and without an error code.\<close>

definition fault_handler ::
    "'f fonts \<Rightarrow> 'w PixelWriter \<Rightarrow> Task \<Rightarrow> u8 list \<Rightarrow> InterruptFrame \<Rightarrow> u64 option \<Rightarrow> 'w \<Rightarrow> ('w, 's) fault_end option" where
  "fault_handler fts W t exp_name f error_code w = (case KillApp f t of
     Some e \<Rightarrow> Some e
   | None \<Rightarrow> do {
       w \<leftarrow> PrintFrame fts W f exp_name w;
       w \<leftarrow> (case error_code of
              None \<Rightarrow> Some w
            | Some c \<Rightarrow> do {
                w \<leftarrow> WriteString fts W (Vec 500 64) (str ''ERR'') (px 0 0 0) w;
                PrintHex fts W c 16 (Vec (500 + 8 * 4) 64) w });
       Some (Halt w) })"

definition IntHandlerPF ::
    "'f fonts \<Rightarrow> 'w PixelWriter \<Rightarrow> (nat \<Rightarrow> nat \<Rightarrow> nat \<Rightarrow> u8 list option) \<Rightarrow> nat \<Rightarrow> Task \<Rightarrow> u64 \<Rightarrow> InterruptFrame \<Rightarrow> u64
       \<Rightarrow> 'w \<times> paging \<Rightarrow> ('w, paging) fault_end option" where
  "IntHandlerPF fts W load root t cr2 f error_code ws = (case ws of (w, s) \<Rightarrow> do {
     (err, s) \<leftarrow> HandlePageFault load root t error_code (unat cr2) s;
     if err = kSuccess then Some (Resume s)
     else fault_handler fts W t (str ''#PF'') f (Some error_code) w })"

section \<open>What the processor makes of a descriptor\<close>

text \<open>Bits 40 to 43 are the type, 44 tells code and data from system segments, 45 and 46 the privilege, 47 present.\<close>

definition seg_base :: "u64 \<Rightarrow> u64" where
  "seg_base d = field 16 16 d OR push_bit 16 (field 32 8 d) OR push_bit 24 (field 56 8 d)"

definition seg_limit :: "u64 \<Rightarrow> u64" where
  "seg_limit d = field 0 16 d OR push_bit 16 (field 48 4 d)"

definition is_code64 :: "u64 \<Rightarrow> u64 \<Rightarrow> bool" where
  "is_code64 dpl d \<longleftrightarrow> bit d 47 \<and> bit d 44 \<and> bit d 43 \<and> bit d 53 \<and> \<not> bit d 54 \<and> field 45 2 d = dpl"

definition is_stack :: "u64 \<Rightarrow> u64 \<Rightarrow> bool" where
  "is_stack dpl d \<longleftrightarrow> bit d 47 \<and> bit d 44 \<and> \<not> bit d 43 \<and> bit d 41 \<and> field 45 2 d = dpl"

definition is_tss :: "u64 \<Rightarrow> bool" where
  "is_tss d \<longleftrightarrow> bit d 47 \<and> \<not> bit d 44 \<and> field 40 4 d = kTSSAvailable"

definition tss_base :: "u64 \<Rightarrow> u64 \<Rightarrow> u64" where
  "tss_base d hi = seg_base d OR push_bit 32 (take_bit 32 hi)"

text \<open>A selector: the index of a descriptor in bits 3 to 15.\<close>

definition selected :: "cpu \<Rightarrow> u64 \<Rightarrow> u64" where
  "selected c sel = gdt c ! unat (field 3 13 sel)"

text \<open>The segments that \<^verbatim>\<open>syscall\<close> and \<^verbatim>\<open>sysret\<close> load, from the register \<^verbatim>\<open>IA32_STAR\<close>.\<close>

definition syscall_cs :: "u64 \<Rightarrow> u64" where "syscall_cs star = field 32 16 star"
definition syscall_ss :: "u64 \<Rightarrow> u64" where "syscall_ss star = field 32 16 star + 8"
definition sysret_cs :: "u64 \<Rightarrow> u64" where "sysret_cs star = field 48 16 star + 16"
definition sysret_ss :: "u64 \<Rightarrow> u64" where "sysret_ss star = field 48 16 star + 8"

definition gate_offset :: "InterruptDescriptor \<Rightarrow> u64" where
  "gate_offset d = ucast (offset_low d) OR push_bit 16 (ucast (offset_middle d)) OR push_bit 32 (ucast (offset_high d))"

definition tss_word :: "cpu \<Rightarrow> nat \<Rightarrow> u64" where
  "tss_word c i = ucast (tss c ! i) OR push_bit 32 (ucast (tss c ! (i + 1)))"

section \<open>The parts put together again\<close>

lemma masks: "(0xffff :: 'a::len word) = mask 16" "(0xff :: 'a word) = mask 8" "(0xf :: 'a word) = mask 4"
  "(0xffffffff :: 'a word) = mask 32"
  by (simp_all add: mask_eq_exp_minus_1)

lemmas fields = field_set_field field_set_field_other

lemma base_parts:
  fixes base :: u32
  shows "take_bit 16 (ucast (base AND mask 16)) OR push_bit 16 (take_bit 8 (ucast (drop_bit 16 base AND mask 8)))
    OR push_bit 24 (take_bit 8 (ucast (drop_bit 24 base AND mask 8))) = (ucast base :: u64)"
  (is "?l = ?r")
proof (rule bit_word_eqI)
  fix n assume "n < LENGTH(64)"
  then show "bit ?l n = bit ?r n" by (cases "24 \<le> n") (auto simp: bit_simps dest: bit_imp_le_length)
qed

lemma limit_parts:
  fixes limit :: u32
  shows "take_bit 16 (ucast (limit AND mask 16)) OR push_bit 16 (take_bit 4 (ucast (drop_bit 16 limit AND mask 4)))
    = (ucast (take_bit 20 limit) :: u64)"
  by (rule bit_word_eqI) (auto simp: bit_simps dest: bit_imp_le_length)

lemma code_segment_base: "seg_base (SetCodeSegment ty dpl base limit) = ucast base"
  unfolding seg_base_def SetCodeSegment_def Let_def by (simp add: fields masks base_parts)

lemma code_segment_limit: "seg_limit (SetCodeSegment ty dpl base limit) = ucast (take_bit 20 limit)"
  unfolding seg_limit_def SetCodeSegment_def Let_def by (simp add: fields masks limit_parts)

lemma bit_as_field: "bit (w :: 'a::len word) n \<longleftrightarrow> field n 1 w = 1"
proof -
  have "field n 1 w = (if bit w n then 1 else 0)"
    by (simp add: field_def bit_iff_odd_drop_bit take_bit_Suc mod_2_eq_odd)
  then show ?thesis by simp
qed

lemma field_bit: "k < n \<Longrightarrow> bit (field lo n w) k = bit w (lo + k)"
  by (simp add: field_def bit_simps add.commute)

lemma code_segment_attributes:
  "field 40 4 (SetCodeSegment ty dpl base limit) = take_bit 4 ty"
  "field 45 2 (SetCodeSegment ty dpl base limit) = take_bit 2 dpl"
  "bit (SetCodeSegment ty dpl base limit) 44" "bit (SetCodeSegment ty dpl base limit) 47"
  "bit (SetCodeSegment ty dpl base limit) 53" "\<not> bit (SetCodeSegment ty dpl base limit) 54"
  unfolding SetCodeSegment_def Let_def bit_as_field by (simp_all add: fields)

lemmas attributes = code_segment_attributes fields bit_set_field_other

lemma type_bits: "bit d 43 = bit (field 40 4 d) 3" "bit d 41 = bit (field 40 4 (d :: u64)) 1"
  by (simp_all add: field_bit)

lemma segment_kinds:
  "is_code64 (take_bit 2 dpl) (SetCodeSegment kExecuteRead dpl base limit)"
  "is_stack (take_bit 2 dpl) (SetDataSegment kReadWrite dpl base limit)"
  "is_tss (SetSystemSegment kTSSAvailable dpl base limit)"
  by (simp_all add: is_code64_def is_stack_def is_tss_def SetDataSegment_def SetSystemSegment_def type_bits attributes
      kExecuteRead_def kReadWrite_def kTSSAvailable_def bit_numeral_rec) (simp_all add: bit_as_field fields)

lemma system_segment_base: "seg_base (SetSystemSegment ty dpl base limit) = ucast base"
  using code_segment_base [of ty dpl base limit] by (simp add: SetSystemSegment_def seg_base_def fields)

lemma word_halves: "ucast (ucast (v AND mask 32) :: u32) OR push_bit 32 (take_bit 32 (drop_bit 32 v)) = (v :: u64)"
  (is "?l = ?r")
proof (rule bit_word_eqI)
  fix n assume "n < LENGTH(64)"
  then show "bit ?l n = bit ?r n" by (cases "32 \<le> n") (auto simp: bit_simps dest: bit_imp_le_length)
qed

lemma SetTSS_word:
  "i + 1 < length (tss c) \<Longrightarrow> tss_word (SetTSS i v c) i = v"
  "j + 1 < i \<or> i + 1 < j \<Longrightarrow> tss_word (SetTSS i v c) j = tss_word c j"
proof -
  assume "i + 1 < length (tss c)"
  moreover have "ucast (ucast (v AND mask 32) :: u32) OR push_bit 32 (ucast (ucast (drop_bit 32 v) :: u32)) = v"
  proof -
    have "ucast (ucast (drop_bit 32 v) :: u32) = (take_bit 32 (drop_bit 32 v) :: u64)"
      by (rule bit_word_eqI) (auto simp: bit_simps dest: bit_imp_le_length)
    then show ?thesis using word_halves [of v] by simp
  qed
  ultimately show "tss_word (SetTSS i v c) i = v" by (simp add: tss_word_def SetTSS_def masks)
qed (auto simp: tss_word_def SetTSS_def)

text \<open>The tops of the two stacks: 8 frames each, allocated one after the other.\<close>

lemma AllocateStackArea_spec:
  assumes "bmm_inv m" and "AllocateStackArea n m = Some (Inr (a, m'))"
  obtains fr where "a = of_nat (fr * kBytesPerFrame) + of_nat n * 4096" "free_run m fr n"
    "allocated m' = allocated m \<union> {fr..<fr + n}" "bmm_inv m'"
proof -
  obtain fr where A: "Allocate m n = Some ((fr, kSuccess), m')" "a = of_nat (fr * kBytesPerFrame) + of_nat n * 4096"
    using assms(2) by (auto simp: AllocateStackArea_def split: option.splits if_splits)
  from that [OF A(2)] Allocate_Some_success [OF assms(1) A(1)] show thesis by blast
qed

lemma InitializeTSS_spec:
  assumes "bmm_inv m" and "length (gdt c) = 7" and "length (tss c) = 26"
    and "InitializeTSS tss_addr c m = Some (Inr (c', m'))"
  obtains f0 f1 where "gdt c' = (gdt c)[5 := SetSystemSegment kTSSAvailable 0 (ucast (tss_addr AND 0xffffffff)) 103, 6 := drop_bit 32 tss_addr]"
    "reg_tr c' = kTSS" "reg_cs c' = reg_cs c" "reg_ss c' = reg_ss c" "reg_ds c' = reg_ds c"
    "tss_word c' 1 = of_nat (f0 * kBytesPerFrame) + 8 * 4096" "tss_word c' 9 = of_nat (f1 * kBytesPerFrame) + 8 * 4096"
    "free_run m f0 8" "free_run m f1 8" "{f0..<f0 + 8} \<inter> {f1..<f1 + 8} = {}"
    "allocated m' = allocated m \<union> {f0..<f0 + 8} \<union> {f1..<f1 + 8}"
proof -
  obtain s0 m1 s1 where A: "AllocateStackArea 8 m = Some (Inr (s0, m1))" "AllocateStackArea 8 m1 = Some (Inr (s1, m'))"
    and c': "c' = (SetTSS 9 s1 (SetTSS 1 s0 c))\<lparr>gdt := (gdt c)[5 := SetSystemSegment kTSSAvailable 0 (ucast (tss_addr AND 0xffffffff)) 103,
      6 := drop_bit 32 tss_addr], reg_tr := kTSS\<rparr>"
    using assms(2-4) by (auto simp: InitializeTSS_def SetTSS_def kISTForTimer_def kTSS_def Let_def split: option.splits sum.splits)
  from AllocateStackArea_spec [OF assms(1) A(1)] obtain f0 where F0: "s0 = of_nat (f0 * kBytesPerFrame) + of_nat 8 * 4096"
    "free_run m f0 8" "allocated m1 = allocated m \<union> {f0..<f0 + 8}" "bmm_inv m1" .
  from AllocateStackArea_spec [OF F0(4) A(2)] obtain f1 where F1: "s1 = of_nat (f1 * kBytesPerFrame) + of_nat 8 * 4096"
    "free_run m1 f1 8" "allocated m' = allocated m1 \<union> {f1..<f1 + 8}" .
  have r: "range_start m1 = range_start m" "range_end m1 = range_end m"
    using A(1) Allocate_Some_success(4,5) [OF assms(1)]
    by (auto simp: AllocateStackArea_def split: option.splits if_splits)
  show thesis
  proof (rule that [of f0 f1])
    show "tss_word c' 1 = of_nat (f0 * kBytesPerFrame) + 8 * 4096" "tss_word c' 9 = of_nat (f1 * kBytesPerFrame) + 8 * 4096"
      using SetTSS_word(1) [of 1 c s0] SetTSS_word(1) [of 9 "SetTSS 1 s0 c" s1] SetTSS_word(2) [of 1 9 s1 "SetTSS 1 s0 c"] assms(3) F0(1) F1(1)
      by (simp_all add: c' tss_word_def SetTSS_def)
    have "{f1..<f1 + 8} \<inter> (allocated m \<union> {f0..<f0 + 8}) = {}"
      using F1(2) unfolding free_run_def F0(3) by (elim conjE)
    then have D: "{f1..<f1 + 8} \<inter> allocated m = {}" "{f1..<f1 + 8} \<inter> {f0..<f0 + 8} = {}" by blast+
    show "free_run m f1 8" using F1(2) D(1) unfolding free_run_def r by (elim conjE) (intro conjI)
    show "{f0..<f0 + 8} \<inter> {f1..<f1 + 8} = {}" using D(2) by (simp only: Int_commute)
  qed (use F0 F1 in \<open>auto simp: c' SetTSS_def\<close>)
qed


definition cpu_example :: cpu where
  "cpu_example = \<lparr>gdt = replicate 7 0, tss = replicate 26 0, idt = replicate 256 \<lparr>offset_low = 0, segment_selector = 0,
     gate_attr = 0, offset_middle = 0, offset_high = 0, gate_reserved = 0\<rparr>, gdtr = (0, 0), idtr = (0, 0), reg_ds = 0,
     reg_cs = 0, reg_ss = 0, reg_tr = 0, msr = (\<lambda>_. 0)\<rparr>"

definition free_frames_example :: BitmapMemoryManager where
  "free_frames_example = \<lparr>alloc_map = [0, 0], range_start = 1, range_end = 128\<rparr>"

lemma free_frames_example_ok:
  "bmm_inv free_frames_example" "allocated free_frames_example = {}"
proof -
  show "bmm_inv free_frames_example" by (simp add: free_frames_example_def bmm_inv_def bmm_limit_def kBitsPerMapLine_def)
  have "GetBit free_frames_example f \<noteq> Some True" for f
  proof (cases "f div 64 < 2")
    case True
    then have "f div 64 = 0 \<or> f div 64 = 1" by linarith
    then show ?thesis by (auto simp: GetBit_def free_frames_example_def kBitsPerMapLine_def)
  qed (simp add: GetBit_def free_frames_example_def kBitsPerMapLine_def arr_get_def)
  then show "allocated free_frames_example = {}" by (auto simp: allocated_def)
qed

lemma stack_area_example:
  assumes "bmm_inv m" and "free_run m f 8"
  obtains a m' where "AllocateStackArea 8 m = Some (Inr (a, m'))" "bmm_inv m'" "range_start m' = range_start m"
    "range_end m' = range_end m" "\<exists>g \<le> f. allocated m' = allocated m \<union> {g..<g + 8}"
proof (cases rule: Allocate_cases [OF assms(1), of 8])
  case (1 fr m')
  then have "fr \<le> f" using assms(2) by (metis not_le_imp_less)
  with 1 that [of _ m'] Allocate_Some_success [OF assms(1) 1(1)] show ?thesis by (auto simp: AllocateStackArea_def)
next
  case 2
  with assms(2) show ?thesis by blast
qed


section \<open>Gates\<close>

lemma gate_offset_SetIDTEntry: "gate_offset (SetIDTEntry ty dpl target sel ist p d) = target"
proof (rule bit_word_eqI)
  fix n assume "n < LENGTH(64)"
  then show "bit (gate_offset (SetIDTEntry ty dpl target sel ist p d)) n = bit target n"
    by (cases "16 \<le> n"; cases "32 \<le> n")
      (auto simp: gate_offset_def SetIDTEntry_def Let_def masks bit_simps dest: bit_imp_le_length)
qed

lemma set_gates:
  "distinct ns \<Longrightarrow> \<forall>n \<in> set ns. n < length (idt c) \<Longrightarrow>
   idt (fold (\<lambda>n. set_gate n (h n) 0) ns c) ! k
     = (if k \<in> set ns then SetIDTEntry kInterruptGate 0 (h k) (ucast kKernelCS) 0 True (idt c ! k) else idt c ! k)"
  by (induction ns arbitrary: c) (auto simp: set_gate_def nth_list_update)

definition is_interrupt_gate :: "nat \<Rightarrow> u64 \<Rightarrow> InterruptDescriptor \<Rightarrow> bool" where
  "is_interrupt_gate ist target d \<longleftrightarrow> bit (gate_attr d) 15 \<and> field 8 4 (gate_attr d) = ucast kInterruptGate
     \<and> field 13 2 (gate_attr d) = 0 \<and> unat (field 0 3 (gate_attr d)) = ist
     \<and> segment_selector d = ucast kKernelCS \<and> gate_offset d = target"

lemma SetIDTEntry_gate:
  "ist < 8 \<Longrightarrow> is_interrupt_gate (unat ist) target (SetIDTEntry kInterruptGate 0 target (ucast kKernelCS) ist True d)"
proof -
  assume "ist < 8"
  then have "unat ist < 2 ^ 3" by (simp add: word_less_nat_alt)
  then have "unat (take_bit 3 (ucast ist :: u16)) = unat ist"
    by (simp add: unsigned_take_bit_eq take_bit_nat_eq_self)
  then have "unat (field 0 3 (gate_attr (SetIDTEntry kInterruptGate 0 target (ucast kKernelCS) ist True d))) = unat ist"
    by (simp add: SetIDTEntry_def Let_def fields)
  then show ?thesis
    by (simp add: is_interrupt_gate_def gate_offset_SetIDTEntry)
      (simp add: SetIDTEntry_def Let_def bit_as_field fields kInterruptGate_def)
qed

text \<open>
  every vector with a handler reaches it.  \<^verbatim>\<open>InitializeInterrupt\<close> on the cleared table makes the entries of
  the two devices and of the processor's faults present interrupt gates of privilege 0 into the kernel's
  code segment, whose three parts of the offset give the address of the handler back; the timer alone
  switches to the stack that \<^verbatim>\<open>InitializeTSS\<close> reserved for it; all other entries stay not present.
\<close>

theorem gates_reach_handlers:
  assumes "length (idt c) = 256" and "idt c ! n = \<lparr>offset_low = 0, segment_selector = 0, gate_attr = 0,
      offset_middle = 0, offset_high = 0, gate_reserved = 0\<rparr>"
  shows "let d = idt (InitializeInterrupt handler idt_addr c) ! n in
    if n \<in> {kXHCI, kLAPICTimer} \<union> set fault_vectors
    then is_interrupt_gate (if n = kLAPICTimer then kISTForTimer else 0) (handler n) d
    else \<not> bit (gate_attr d) 15"
proof -
  let ?e = "\<lambda>ist. SetIDTEntry kInterruptGate 0 (handler n) (ucast kKernelCS) ist True"
  let ?c1 = "set_gate kXHCI (handler kXHCI) 0 c"
  let ?c2 = "set_gate kLAPICTimer (handler kLAPICTimer) (of_nat kISTForTimer) ?c1"
  have c2: "length (idt ?c2) = 256" "idt ?c2 ! n
      = (if n = kLAPICTimer then ?e (of_nat kISTForTimer) (idt c ! n) else if n = kXHCI then ?e 0 (idt c ! n) else idt c ! n)"
    using assms(1) by (simp_all add: set_gate_def nth_list_update kXHCI_def kLAPICTimer_def)
  have "idt (InitializeInterrupt handler idt_addr c) ! n = idt (fold (\<lambda>n. set_gate n (handler n) 0) fault_vectors ?c2) ! n"
    by (simp add: InitializeInterrupt_def Let_def)
  also have "\<dots> = (if n \<in> set fault_vectors then ?e 0 (idt ?c2 ! n) else idt ?c2 ! n)"
    by (rule set_gates) (simp_all add: fault_vectors_def c2(1))
  finally have d: "idt (InitializeInterrupt handler idt_addr c) ! n
      = (if n \<in> set fault_vectors then ?e 0 (idt ?c2 ! n) else idt ?c2 ! n)" .
  have v: "kLAPICTimer \<notin> set fault_vectors" "kXHCI \<notin> set fault_vectors" "kXHCI \<noteq> kLAPICTimer"
    by (simp_all add: fault_vectors_def kLAPICTimer_def kXHCI_def)
  have g: "is_interrupt_gate 0 (handler n) (?e 0 x)" "is_interrupt_gate kISTForTimer (handler n) (?e (of_nat kISTForTimer) x)" for x
    using SetIDTEntry_gate [of 0 "handler n" x] SetIDTEntry_gate [of 1 "handler n" x] by (simp_all add: kISTForTimer_def)
  have "\<not> bit (gate_attr (idt c ! n)) 15" by (simp add: assms(2))
  with d c2(2) v g show ?thesis by (auto simp: Let_def)
qed

theorem gates_reach_handlers_witness:
  "is_interrupt_gate 1 0xffff800012345678 (idt (InitializeInterrupt (\<lambda>_. 0xffff800012345678) 0 cpu_example) ! 52)"
  using gates_reach_handlers [of cpu_example 52 "\<lambda>_. 0xffff800012345678" 0]
  by (simp add: cpu_example_def kLAPICTimer_def kISTForTimer_def del: replicate.simps)

end
