(* ===== verification/Little_Endian.thy ===== *)
theory Little_Endian imports Fat_Types begin

text \<open>Numbers in memory, the least significant byte first.\<close>

definition little :: "u8 list \<Rightarrow> nat" where
  "little bs = foldr (\<lambda>b n. unat b + 256 * n) bs 0"

definition little_bytes :: "nat \<Rightarrow> nat \<Rightarrow> u8 list" where
  "little_bytes n v = map (\<lambda>i. of_nat (v div 256 ^ i)) [0..<n]"

text \<open>A number of \<open>n\<close> bytes at an offset of a buffer.\<close>

definition number_in :: "u8 list \<Rightarrow> nat \<Rightarrow> nat \<Rightarrow> nat option" where
  "number_in buf off n = (if off + n \<le> length buf then Some (little (slice off n buf)) else None)"

lemma little_bytes_Suc: "little_bytes (Suc n) v = of_nat v # little_bytes n (v div 256)"
proof -
  have "[0..<Suc n] = 0 # map Suc [0..<n]" by (simp add: upt_conv_Cons map_Suc_upt)
  then show ?thesis by (simp add: little_bytes_def div_mult2_eq comp_def)
qed

lemma little_roundtrip: "v < 256 ^ n \<Longrightarrow> little (little_bytes n v) = v"
proof (induction n arbitrary: v)
  case (Suc n)
  have "v div 256 < 256 ^ n" using Suc.prems by (simp add: less_mult_imp_div_less mult.commute)
  moreover have "unat (of_nat v :: u8) = v mod 256" by (simp add: unsigned_of_nat take_bit_eq_mod)
  ultimately show ?case using Suc.IH [of "v div 256"] by (simp add: little_bytes_Suc little_def)
qed (simp add: little_def little_bytes_def)

end
