(* ===== verification/Acpi.thy ===== *)
theory Acpi imports Little_Endian begin

text \<open>
  The tables of the firmware and the power management timer: \<^verbatim>\<open>kernel/acpi.cpp\<close> and \<^verbatim>\<open>acpi.hpp\<close>.

  Memory is a partial function from addresses to bytes; a structure is its address, its members are
  read at their offsets in the packed layout.  Reading where there is no memory is \<open>None\<close>.  The counter of
  the timer is the sequence of the values that \<^verbatim>\<open>IoIn32\<close> returns.
\<close>

section \<open>Structures in memory\<close>

type_synonym memory = "nat \<Rightarrow> u8 option"

fun bytes_at :: "memory \<Rightarrow> nat \<Rightarrow> nat \<Rightarrow> u8 list option" where
  "bytes_at m a 0 = Some []"
| "bytes_at m a (Suc n) = do { b \<leftarrow> m a; bs \<leftarrow> bytes_at m (Suc a) n; Some (b # bs) }"

definition number_at :: "memory \<Rightarrow> nat \<Rightarrow> nat \<Rightarrow> nat option" where
  "number_at m a n = map_option little (bytes_at m a n)"

text \<open>The members of \<^verbatim>\<open>RSDP\<close>, \<^verbatim>\<open>DescriptionHeader\<close> and \<^verbatim>\<open>FADT\<close> that the code reads.\<close>

definition rsdp_revision :: "memory \<Rightarrow> nat \<Rightarrow> nat option" where "rsdp_revision m a = number_at m (a + 15) 1"
definition rsdp_xsdt_address :: "memory \<Rightarrow> nat \<Rightarrow> nat option" where "rsdp_xsdt_address m a = number_at m (a + 24) 8"
definition header_length :: "memory \<Rightarrow> nat \<Rightarrow> nat option" where "header_length m a = number_at m (a + 4) 4"
definition kHeaderSize :: nat where "kHeaderSize = 36"
definition fadt_pm_tmr_blk :: "memory \<Rightarrow> nat \<Rightarrow> nat option" where "fadt_pm_tmr_blk m a = number_at m (a + 76) 4"
definition fadt_flags :: "memory \<Rightarrow> nat \<Rightarrow> nat option" where "fadt_flags m a = number_at m (a + 112) 4"

fun sum_loop :: "memory \<Rightarrow> nat \<Rightarrow> nat \<Rightarrow> u8 \<Rightarrow> u8 option" where
  "sum_loop m a 0 s = Some s"
| "sum_loop m a (Suc n) s = (case m a of None \<Rightarrow> None | Some b \<Rightarrow> sum_loop m (Suc a) n (s + b))"

definition SumBytes :: "memory \<Rightarrow> nat \<Rightarrow> nat \<Rightarrow> u8 option" where
  "SumBytes m a bytes = sum_loop m a bytes 0"

text \<open>\<^verbatim>\<open>strncmp\<close> with a signature that has no terminator inside: as far as the first difference.\<close>

fun sig_is :: "memory \<Rightarrow> nat \<Rightarrow> cstr \<Rightarrow> bool option" where
  "sig_is m a [] = Some True"
| "sig_is m a (c # cs) = (case m a of None \<Rightarrow> None | Some b \<Rightarrow> if b \<noteq> c then Some False else sig_is m (Suc a) cs)"

definition RSDP_IsValid :: "memory \<Rightarrow> nat \<Rightarrow> bool option" where
  "RSDP_IsValid m a = do {
     s \<leftarrow> sig_is m a (str ''RSD PTR '');
     if \<not> s then Some False
     else do {
       r \<leftarrow> rsdp_revision m a;
       if r \<noteq> 2 then Some False
       else do {
         s20 \<leftarrow> SumBytes m a 20;
         if s20 \<noteq> 0 then Some False
         else do {
           s36 \<leftarrow> SumBytes m a 36;
           Some (s36 = 0) } } } }"

definition Header_IsValid :: "memory \<Rightarrow> nat \<Rightarrow> cstr \<Rightarrow> bool option" where
  "Header_IsValid m a expected_signature = do {
     s \<leftarrow> sig_is m a expected_signature;
     if \<not> s then Some False
     else do {
       l \<leftarrow> header_length m a;
       s \<leftarrow> SumBytes m a l;
       Some (s = 0) } }"

definition XSDT_entry :: "memory \<Rightarrow> nat \<Rightarrow> nat \<Rightarrow> nat option" where
  "XSDT_entry m a i = number_at m (a + kHeaderSize + 8 * i) 8"

text \<open>The subtraction is one of \<^verbatim>\<open>size_t\<close>.\<close>

definition XSDT_Count :: "memory \<Rightarrow> nat \<Rightarrow> nat option" where
  "XSDT_Count m a = map_option (\<lambda>l. unat (of_nat l - of_nat kHeaderSize :: u64) div 8) (header_length m a)"

section \<open>Initialize\<close>

text \<open>The loop over the entries: the first one that is a valid FADT.\<close>

function find_fadt :: "memory \<Rightarrow> nat \<Rightarrow> nat \<Rightarrow> nat \<Rightarrow> nat option option" where
  "find_fadt m a n i =
     (if i < n then
        case XSDT_entry m a i of
          None \<Rightarrow> None
        | Some e \<Rightarrow> (case Header_IsValid m e (str ''FACP'') of
            None \<Rightarrow> None
          | Some True \<Rightarrow> Some (Some e)
          | Some False \<Rightarrow> find_fadt m a n (Suc i))
      else Some None)"
  by pat_completeness auto
termination by (relation "measure (\<lambda>(m, a, n, i). n - i)") auto

declare find_fadt.simps [simp del]

text \<open>\<open>Some None\<close> is \<^verbatim>\<open>exit(1)\<close>.\<close>

definition acpi_Initialize :: "memory \<Rightarrow> nat \<Rightarrow> nat option option" where
  "acpi_Initialize m rsdp = do {
     v \<leftarrow> RSDP_IsValid m rsdp;
     if \<not> v then Some None
     else do {
       xsdt \<leftarrow> rsdp_xsdt_address m rsdp;
       v \<leftarrow> Header_IsValid m xsdt (str ''XSDT'');
       if \<not> v then Some None
       else do {
         n \<leftarrow> XSDT_Count m xsdt;
         find_fadt m xsdt n 0 } } }"

section \<open>WaitMilliseconds\<close>

definition kPMTimerFreq :: nat where "kPMTimerFreq = 3579545"

text \<open>
  \<open>rd k\<close> is what the k-th read of the counter returns; a loop that polls gives the number of the read
  that ended it.
\<close>

partial_function (option) poll_while :: "(u32 \<Rightarrow> bool) \<Rightarrow> (nat \<Rightarrow> u32) \<Rightarrow> nat \<Rightarrow> nat option" where
  "poll_while P rd k = (if P (rd k) then poll_while P rd (Suc k) else Some k)"

definition WaitMilliseconds :: "u32 \<Rightarrow> (nat \<Rightarrow> u32) \<Rightarrow> u64 \<Rightarrow> nat option" where
  "WaitMilliseconds flags rd msec =
     (let pm_timer_32 = bit flags 8;
          start = rd 0;
          e = ucast (ucast start + of_nat kPMTimerFreq * msec div 1000 :: u64) :: u32;
          e = (if pm_timer_32 then e else e AND 0x00ffffff)
      in if e < start
         then do {
           k \<leftarrow> poll_while (\<lambda>v. start \<le> v) rd 1;
           poll_while (\<lambda>v. v < e) rd (Suc k) }
         else poll_while (\<lambda>v. v < e) rd 1)"

section \<open>Checksums\<close>

lemma sum_loop_add: "sum_loop m a n s = map_option ((+) s) (sum_loop m a n 0)"
proof (induction n arbitrary: a s)
  case (Suc n)
  show ?case
  proof (cases "m a")
    case (Some b)
    have "sum_loop m (Suc a) n (s + b) = map_option ((+) (s + b)) (sum_loop m (Suc a) n 0)" by (rule Suc)
    moreover have "sum_loop m (Suc a) n b = map_option ((+) b) (sum_loop m (Suc a) n 0)" by (rule Suc)
    ultimately show ?thesis using Some by (cases "sum_loop m (Suc a) n 0") (simp_all add: add.assoc)
  qed simp
qed simp

lemma sum_loop_cong: "\<forall>y. a \<le> y \<and> y < a + n \<longrightarrow> m' y = m y \<Longrightarrow> sum_loop m' a n s = sum_loop m a n s"
  by (induction n arbitrary: a s) (auto split: option.split)

text \<open>Changing one byte of the range changes the sum by the same amount.\<close>

definition differ_at :: "nat \<Rightarrow> u8 \<Rightarrow> u8 \<Rightarrow> memory \<Rightarrow> memory \<Rightarrow> bool" where
  "differ_at x b b' m m' \<longleftrightarrow> m x = Some b \<and> m' x = Some b' \<and> (\<forall>y. y \<noteq> x \<longrightarrow> m' y = m y)"

lemma sum_loop_differ:
  assumes "differ_at x b b' m m'" and "a \<le> x" and "x < a + n"
  shows "sum_loop m' a n s = map_option (\<lambda>t. t + (b' - b)) (sum_loop m a n s)"
  using assms(2,3)
proof (induction n arbitrary: a s)
  case (Suc n)
  show ?case
  proof (cases "x = a")
    case True
    have "sum_loop m' (Suc a) n t = sum_loop m (Suc a) n t" for t
      by (rule sum_loop_cong) (use assms(1) True in \<open>auto simp: differ_at_def\<close>)
    then show ?thesis
      using True assms(1) sum_loop_add [of m "Suc a" n "s + b'"] sum_loop_add [of m "Suc a" n "s + b"]
      by (cases "sum_loop m (Suc a) n 0") (simp_all add: differ_at_def algebra_simps)
  next
    case False
    then have "m' a = m a" using assms(1) by (simp add: differ_at_def)
    with False Suc show ?thesis by (auto split: option.split)
  qed
qed simp

lemma bytes_at_cong: "\<forall>y. a \<le> y \<and> y < a + n \<longrightarrow> m' y = m y \<Longrightarrow> bytes_at m' a n = bytes_at m a n"
proof (induction n arbitrary: a)
  case (Suc n)
  then have "bytes_at m' (Suc a) n = bytes_at m (Suc a) n" by auto
  with Suc.prems show ?case by auto
qed simp

text \<open>What can be read can still be read.\<close>

lemma differ_at_dom: "differ_at x b b' m m' \<Longrightarrow> (m' y = None) = (m y = None)"
  by (cases "y = x") (auto simp: differ_at_def)

lemma sig_is_defined: "differ_at x b b' m m' \<Longrightarrow> sig_is m a cs = Some True \<Longrightarrow> sig_is m' a cs \<noteq> None"
proof (induction cs arbitrary: a)
  case (Cons c cs)
  then show ?case using differ_at_dom [OF Cons.prems(1), of a] by (auto split: option.splits if_splits)
qed simp

lemma sum_loop_defined: "differ_at x b b' m m' \<Longrightarrow> sum_loop m a n s \<noteq> None \<Longrightarrow> sum_loop m' a n s' \<noteq> None"
proof (induction n arbitrary: a s s')
  case (Suc n)
  then show ?case using differ_at_dom [OF Suc.prems(1), of a] by (auto split: option.splits)
qed simp

lemma bytes_at_defined: "differ_at x b b' m m' \<Longrightarrow> bytes_at m a n \<noteq> None \<Longrightarrow> bytes_at m' a n \<noteq> None"
proof (induction n arbitrary: a)
  case (Suc n)
  then show ?case using differ_at_dom [OF Suc.prems(1), of a] by (auto split: bind_splits)
qed simp

text \<open>
  the checks of the firmware's tables detect damage.  When a table (or the root pointer) is valid and
  exactly one of its bytes - outside the member that says how long the table is - is changed to
  another value, it is not valid any more.
\<close>

theorem checksum_detects_one_byte:
  assumes "differ_at x b b' m m'" and "b' \<noteq> b"
  shows "(Header_IsValid m a sig = Some True \<and> header_length m a = Some l \<and> a \<le> x \<and> x < a + l \<and> x \<notin> {a + 4..<a + 8}
      \<longrightarrow> Header_IsValid m' a sig = Some False)
  \<and> (RSDP_IsValid m a = Some True \<and> a \<le> x \<and> x < a + 36 \<longrightarrow> RSDP_IsValid m' a = Some False)"
proof (intro conjI impI)
  assume "Header_IsValid m a sig = Some True \<and> header_length m a = Some l \<and> a \<le> x \<and> x < a + l \<and> x \<notin> {a + 4..<a + 8}"
  then have s: "sig_is m a sig = Some True" "SumBytes m a l = Some 0" "header_length m a = Some l"
    and x: "a \<le> x" "x < a + l" "x \<notin> {a + 4..<a + 8}"
    by (auto simp: Header_IsValid_def split: bind_splits if_splits)
  have "bytes_at m' (a + 4) 4 = bytes_at m (a + 4) 4"
    by (rule bytes_at_cong) (use assms(1) x(3) in \<open>auto simp: differ_at_def\<close>)
  then have "header_length m' a = Some l" using s(3) by (simp add: header_length_def number_at_def)
  moreover have "SumBytes m' a l = Some (b' - b)"
    using s(2) sum_loop_differ [OF assms(1) x(1,2)] by (simp add: SumBytes_def)
  moreover obtain t where "sig_is m' a sig = Some t" using sig_is_defined [OF assms(1) s(1)] by auto
  ultimately show "Header_IsValid m' a sig = Some False" using assms(2) by (simp add: Header_IsValid_def)
next
  assume "RSDP_IsValid m a = Some True \<and> a \<le> x \<and> x < a + 36"
  then have s: "sig_is m a (str ''RSD PTR '') = Some True" "rsdp_revision m a = Some 2" "SumBytes m a 20 = Some 0"
    "SumBytes m a 36 = Some 0" and x: "a \<le> x" "x < a + 36"
    by (auto simp: RSDP_IsValid_def split: bind_splits if_splits)
  obtain t where "sig_is m' a (str ''RSD PTR '') = Some t" using sig_is_defined [OF assms(1) s(1)] by auto
  moreover obtain r where "rsdp_revision m' a = Some r"
    using s(2) bytes_at_defined [OF assms(1), of "a + 15" 1] by (auto simp: rsdp_revision_def number_at_def)
  moreover obtain u where "SumBytes m' a 20 = Some u"
    using s(3) sum_loop_defined [OF assms(1), of a 20 0 0] by (auto simp: SumBytes_def)
  moreover have "SumBytes m' a 36 = Some (b' - b)"
    using s(4) sum_loop_differ [OF assms(1) x(1,2)] by (simp add: SumBytes_def)
  ultimately show "RSDP_IsValid m' a = Some False" using assms(2) by (simp add: RSDP_IsValid_def)
qed

text \<open>A table of nine bytes: a header as far as its checksum.\<close>

definition table_example :: memory where
  "table_example = [0 \<mapsto> 0x46, 1 \<mapsto> 0x41, 2 \<mapsto> 0x43, 3 \<mapsto> 0x50, 4 \<mapsto> 9, 5 \<mapsto> 0, 6 \<mapsto> 0, 7 \<mapsto> 0, 8 \<mapsto> 221]"

lemma table_example_valid:
  "Header_IsValid table_example 0 (str ''FACP'') = Some True" "header_length table_example 0 = Some 9"
proof -
  have n: "(9 :: nat) = Suc (Suc (Suc (Suc (Suc (Suc (Suc (Suc (Suc 0))))))))" "(4 :: nat) = Suc (Suc (Suc (Suc 0)))"
    by simp_all
  have "bytes_at table_example (0 + 4) 4 = Some [9, 0, 0, 0]"
    unfolding n(2) by (simp add: table_example_def)
  then show l: "header_length table_example 0 = Some 9" by (simp add: header_length_def number_at_def little_def)
  have "sum_loop table_example 0 9 0 = Some 0" unfolding n(1) by (simp add: table_example_def)
  moreover have "sig_is table_example 0 (str ''FACP'') = Some True" by (simp add: table_example_def str_def)
  ultimately show "Header_IsValid table_example 0 (str ''FACP'') = Some True"
    by (simp add: Header_IsValid_def l SumBytes_def)
qed

theorem checksum_detects_one_byte_witness:
  "Header_IsValid table_example 0 (str ''FACP'') = Some True
   \<and> Header_IsValid (table_example(8 \<mapsto> 1)) 0 (str ''FACP'') = Some False"
proof -
  have d: "differ_at 8 221 1 table_example (table_example(8 \<mapsto> 1))" by (simp add: differ_at_def table_example_def)
  from checksum_detects_one_byte [OF d, of 0 "str ''FACP''" 9] table_example_valid show ?thesis by simp
qed

section \<open>Waiting\<close>

lemma poll_while_ends:
  assumes "k \<le> j" and "\<not> P (rd j)"
  shows "\<exists>i. poll_while P rd k = Some i \<and> k \<le> i \<and> i \<le> j \<and> \<not> P (rd i) \<and> (\<forall>x. k \<le> x \<and> x < i \<longrightarrow> P (rd x))"
  using assms
proof (induction "j - k" arbitrary: k)
  case 0
  then show ?case by (auto simp: poll_while.simps)
next
  case (Suc n)
  show ?case
  proof (cases "P (rd k)")
    case True
    with Suc.prems have "Suc k \<le> j" using Suc.hyps(2) by linarith
    moreover have "n = j - Suc k" using Suc.hyps(2) by linarith
    ultimately obtain i where
      "poll_while P rd (Suc k) = Some i" "Suc k \<le> i" "i \<le> j" "\<not> P (rd i)" "\<forall>x. Suc k \<le> x \<and> x < i \<longrightarrow> P (rd x)"
      using Suc.hyps(1) [OF _ _ Suc.prems(2)] by auto
    moreover from this True have "\<forall>x. k \<le> x \<and> x < i \<longrightarrow> P (rd x)" by (metis Suc_leI le_neq_implies_less)
    ultimately show ?thesis using True by (auto simp: poll_while.simps [of P rd k] intro!: exI [of _ i])
  next
    case False
    with Suc.prems show ?thesis by (auto simp: poll_while.simps [of P rd k])
  qed
qed

text \<open>The number of ticks of the timer that \<^verbatim>\<open>WaitMilliseconds\<close> counts, of a counter with \<open>w\<close> bits.\<close>

definition wait_ticks :: "nat \<Rightarrow> u64 \<Rightarrow> nat" where
  "wait_ticks w msec = unat (of_nat kPMTimerFreq * msec div 1000) mod 2 ^ w"

text \<open>A clock: the time of each read, in ticks, always later than the one before and at most \<open>d\<close> later.\<close>

definition clock :: "nat \<Rightarrow> (nat \<Rightarrow> nat) \<Rightarrow> bool" where
  "clock d t \<longleftrightarrow> t 0 = 0 \<and> (\<forall>k. t k < t (Suc k) \<and> t (Suc k) \<le> t k + d)"

lemma clock_reaches:
  assumes "clock d t" and "t k \<le> n"
  obtains j where "k \<le> j" "n \<le> t j" "t j < n + d" "\<forall>x. x < j \<longrightarrow> t x < n \<or> x < k"
proof -
  have up: "k + i \<le> t (k + i)" for i
  proof -
    have "j \<le> t j" for j using assms(1) by (induction j) (auto simp: clock_def intro: Suc_leI le_less_trans)
    then show ?thesis .
  qed
  let ?P = "\<lambda>j. k \<le> j \<and> n \<le> t j"
  have ex: "?P (k + n)" using up [of n] by simp
  define j where "j = (LEAST j. ?P j)"
  have j: "?P j" unfolding j_def by (rule LeastI [of ?P, OF ex])
  have least: "\<not> ?P x" if "x < j" for x using not_less_Least [of x ?P] that unfolding j_def by blast
  have d: "0 < d" using assms(1) by (auto simp: clock_def dest: spec [of _ 0])
  have "t j < n + d"
  proof (cases "j = k")
    case True
    then show ?thesis using assms(2) j d by simp
  next
    case False
    then obtain i where i: "j = Suc i" "k \<le> i" using j by (cases j) auto
    then have "t i < n" using least [of i] by auto
    moreover have "t j \<le> t i + d" using assms(1) i(1) by (simp add: clock_def)
    ultimately show ?thesis by simp
  qed
  moreover have "t x < n \<or> x < k" if "x < j" for x using least [OF that] by linarith
  ultimately show thesis using j by (intro that [of j]) simp_all
qed

lemma clock_mono: "clock d t \<Longrightarrow> i \<le> j \<Longrightarrow> t i \<le> t j"
  by (rule lift_Suc_mono_le [of t]) (auto simp: clock_def less_imp_le)

text \<open>A loop that polls for the time \<open>n\<close>.\<close>

lemma poll_clock:
  assumes "clock d t" and "d \<le> D" and "t k \<le> n + D"
    and before: "\<forall>x. k \<le> x \<and> t x < n \<longrightarrow> P (rd x)" and after: "\<forall>x. n \<le> t x \<and> t x \<le> n + D \<longrightarrow> \<not> P (rd x)"
  shows "\<exists>j. poll_while P rd k = Some j \<and> k \<le> j \<and> n \<le> t j \<and> t j \<le> n + D"
proof -
  obtain j where j: "k \<le> j" "n \<le> t j" "t j \<le> n + D" "\<forall>x. k \<le> x \<and> x < j \<longrightarrow> t x < n"
  proof (cases "t k \<le> n")
    case True
    from clock_reaches [OF assms(1) this] obtain j where
      "k \<le> j" "n \<le> t j" "t j < n + d" "\<forall>x. x < j \<longrightarrow> t x < n \<or> x < k" .
    moreover from this have "\<forall>x. k \<le> x \<and> x < j \<longrightarrow> t x < n" by (metis not_le)
    ultimately show ?thesis using assms(2) by (intro that [of j]) simp_all
  next
    case False
    with assms(3) that [of k] show ?thesis by simp
  qed
  with after have "\<not> P (rd j)" by blast
  from poll_while_ends [OF j(1), of P rd, OF this] obtain i where
    i: "poll_while P rd k = Some i" "k \<le> i" "i \<le> j" "\<not> P (rd i)" by blast
  have "i = j" using i before j(4) le_neq_implies_less by blast
  with i(1) j show ?thesis by blast
qed

lemma wait_end:
  fixes start :: u32 and msec :: u64 and b :: bool
  defines "w \<equiv> if b then 32 else 24 :: nat"
  defines "e \<equiv> ucast (ucast start + of_nat kPMTimerFreq * msec div 1000 :: u64) :: u32"
  shows "unat (if b then e else e AND 0x00ffffff) = (unat start + wait_ticks w msec) mod 2 ^ w"
proof -
  let ?M = "of_nat kPMTimerFreq * msec div 1000 :: u64"
  have u: "unat (ucast start :: u64) = unat start" by (rule unat_ucast_up) simp
  have "(2 :: nat) ^ 32 dvd 2 ^ 64" by (rule le_imp_power_dvd) simp
  moreover have "unat e = unat (ucast start + ?M :: u64) mod 2 ^ 32"
    by (simp add: e_def unsigned_ucast_eq take_bit_eq_mod)
  moreover have "unat (ucast start + ?M :: u64) = (unat start + unat ?M) mod 2 ^ 64"
    unfolding unat_word_ariths(1) u by simp
  ultimately have e: "unat e = (unat start + unat ?M) mod 2 ^ 32" by (simp add: mod_mod_cancel)
  have m: "(0x00ffffff :: u32) = mask 24" by (simp add: mask_eq_exp_minus_1)
  have "(2 :: nat) ^ 24 dvd 2 ^ 32" by (rule le_imp_power_dvd) simp
  then have "unat (e AND 0x00ffffff) = (unat start + unat ?M) mod 2 ^ 24"
    unfolding m take_bit_eq_mask [symmetric] unsigned_take_bit_eq e
    by (simp only: take_bit_eq_mod mod_mod_cancel)
  with e show ?thesis by (cases b) (simp_all add: w_def wait_ticks_def mod_add_right_eq)
qed

text \<open>
  \<^verbatim>\<open>WaitMilliseconds\<close> waits as long as it should, when the counter is read often enough.  With reads at
  most \<open>d\<close> ticks apart and room for that at the end of the wait - the last \<open>d\<close> values before the counter
  wraps would be missed - it returns, not before the ticks asked for and at most two reads after
  them.  The ticks are those of the argument modulo the size of the counter: with 24 bits, a wait of
  4688 milliseconds or more comes back a whole lap too early.
\<close>

theorem WaitMilliseconds_waits:
  assumes "clock d t" and "w = (if bit flags 8 then 32 else 24)" and "start < 2 ^ w"
    and "rd = (\<lambda>k. of_nat ((start + t k) mod 2 ^ w))" and "N = wait_ticks w msec"
    and "if start + N < 2 ^ w then start + N + d < 2 ^ w else d < start \<and> start + N + 2 * d < 2 ^ (w + 1)"
  shows "\<exists>k. WaitMilliseconds flags rd msec = Some k \<and> N \<le> t k \<and> t k \<le> N + 2 * d"
proof -
  let ?W = "2 ^ w :: nat"
  have w: "?W \<le> 2 ^ 32" by (auto simp: assms(2))
  have t: "t 0 = 0" "t (Suc k) \<le> t k + d" for k using assms(1) by (auto simp: clock_def)
  then have t1: "t 1 \<le> d" by (metis One_nat_def add_0)
  have rd: "unat (rd k) = (start + t k) mod ?W" for k
  proof -
    have "(start + t k) mod ?W < 2 ^ 32" using w by (intro less_le_trans [OF mod_less_divisor]) simp_all
    then show ?thesis by (simp add: assms(4) unsigned_of_nat take_bit_nat_eq_self)
  qed
  have s: "unat (rd 0) = start" using rd [of 0] assms(3) t(1) by simp
  define e where "e = (let e = ucast (ucast (rd 0) + of_nat kPMTimerFreq * msec div 1000 :: u64) :: u32
    in if bit flags 8 then e else e AND 0x00ffffff)"
  have e: "unat e = (start + N) mod ?W"
    using wait_end [of "bit flags 8" "rd 0" msec] s by (simp add: e_def Let_def assms(2,5))
  have N: "N < ?W" by (simp add: assms(5) wait_ticks_def)
  have W: "WaitMilliseconds flags rd msec = (if e < rd 0
      then Option.bind (poll_while (\<lambda>v. rd 0 \<le> v) rd 1) (\<lambda>k. poll_while (\<lambda>v. v < e) rd (Suc k))
      else poll_while (\<lambda>v. v < e) rd 1)"
    by (simp add: WaitMilliseconds_def e_def Let_def)
  note less = word_less_nat_alt word_le_nat_alt
  show ?thesis
  proof (cases "start + N < ?W")
    case True
    then have e': "unat e = start + N" and f: "start + N + d < ?W" using e assms(6) by simp_all
    have "\<exists>j. poll_while (\<lambda>v. v < e) rd 1 = Some j \<and> 1 \<le> j \<and> N \<le> t j \<and> t j \<le> N + d"
      by (rule poll_clock [OF assms(1) order_refl]) (use t1 f True in \<open>auto simp: less rd e'\<close>)
    moreover have "\<not> e < rd 0" using s e' by (simp add: less)
    ultimately show ?thesis unfolding W by auto
  next
    case False
    then have f: "d < start" "start + N + 2 * d < 2 * ?W" using assms(6) by simp_all
    have lap: "(start + t x) mod ?W = start + t x - ?W" if "?W \<le> start + t x" "start + t x < 2 * ?W" for x
      using that by (simp add: mod_if)
    have e': "unat e = start + N - ?W" using e False N assms(3) by (simp add: mod_if)
    have "\<exists>j. poll_while (\<lambda>v. rd 0 \<le> v) rd 1 = Some j \<and> 1 \<le> j \<and> ?W - start \<le> t j \<and> t j \<le> ?W - start + d"
    proof (rule poll_clock [OF assms(1) order_refl])
      show "\<forall>x. ?W - start \<le> t x \<and> t x \<le> ?W - start + d \<longrightarrow> \<not> rd 0 \<le> rd x"
        using f assms(3) by (auto simp: less rd t(1) lap)
    qed (use t1 assms(3) in \<open>auto simp: less rd t(1)\<close>)
    then obtain j where j: "poll_while (\<lambda>v. rd 0 \<le> v) rd 1 = Some j" "?W - start \<le> t j" "t j \<le> ?W - start + d" by blast
    have "\<exists>i. poll_while (\<lambda>v. v < e) rd (Suc j) = Some i \<and> Suc j \<le> i \<and> N \<le> t i \<and> t i \<le> N + 2 * d"
    proof (rule poll_clock [OF assms(1)])
      show "t (Suc j) \<le> N + 2 * d" using j(3) t(2) [of j] False by simp
      show "\<forall>x. Suc j \<le> x \<and> t x < N \<longrightarrow> rd x < e"
      proof (intro allI impI)
        fix x assume x: "Suc j \<le> x \<and> t x < N"
        then have "t j \<le> t x" by (intro clock_mono [OF assms(1)]) simp
        then have "?W \<le> start + t x" "start + t x < 2 * ?W" using x j(2) f by linarith+
        moreover from this x have "start + t x - ?W < start + N - ?W" by linarith
        ultimately show "rd x < e" using lap [of x] False by (simp add: less rd e')
      qed
      show "\<forall>x. N \<le> t x \<and> t x \<le> N + 2 * d \<longrightarrow> \<not> rd x < e" using f False by (auto simp: less rd e' lap)
    qed simp
    moreover have "e < rd 0" using s e' False N by (simp add: less)
    ultimately show ?thesis unfolding W using j(1) by auto
  qed
qed

text \<open>A wait of one millisecond over the end of a 24-bit counter, read every tick.\<close>

theorem WaitMilliseconds_waits_witness:
  "\<exists>k. WaitMilliseconds 0 (\<lambda>k. of_nat ((16777000 + k) mod 2 ^ 24)) 1 = Some k \<and> 3579 \<le> k \<and> k \<le> 3581"
proof -
  have "clock 1 (\<lambda>k. k)" by (simp add: clock_def)
  moreover have "wait_ticks 24 1 = 3579" by (simp add: wait_ticks_def kPMTimerFreq_def)
  ultimately show ?thesis
    using WaitMilliseconds_waits [of 1 "\<lambda>k. k" 24 0 16777000 _ 3579 1] by simp
qed

end
