(* ===== verification/App_Loader.thy ===== *)
theory App_Loader imports Shell Mapped_Files Little_Endian begin

text \<open>
  Loading and running applications: the ELF structures of \<^verbatim>\<open>kernel/elf.hpp\<close> and \<^verbatim>\<open>GetFirstLoadAddress\<close>,
  \<^verbatim>\<open>CopyLoadSegments\<close>, \<^verbatim>\<open>LoadELF\<close>, \<^verbatim>\<open>SetupPML4\<close>, \<^verbatim>\<open>FreePML4\<close>, \<^verbatim>\<open>LoadApp\<close> and \<^verbatim>\<open>ExecuteFile\<close> of \<^verbatim>\<open>kernel/terminal.cpp\<close>.

  The image of a file is the list of its bytes; what lies beyond it is undefined (\<open>None\<close>).  The kernel
  writes to the application's memory through the page table in use; write protection does not hold for
  it (\<^verbatim>\<open>CR0.WP\<close> is cleared), an address without a page is a fault of the kernel.  The address of a
  directory entry, which is the key of \<^verbatim>\<open>app_loads\<close>, is its position in the volume.
\<close>

section \<open>The image\<close>

record Elf64_Phdr =
  p_type :: nat
  p_offset :: nat
  p_vaddr :: u64
  p_filesz :: u64
  p_memsz :: u64

definition ET_EXEC :: nat where "ET_EXEC = 2"
definition PT_LOAD :: nat where "PT_LOAD = 1"
definition kPhdrSize :: nat where "kPhdrSize = 56"

definition e_type :: "u8 list \<Rightarrow> nat option" where "e_type img = number_in img 16 2"
definition e_entry :: "u8 list \<Rightarrow> nat option" where "e_entry img = number_in img 24 8"
definition e_phoff :: "u8 list \<Rightarrow> nat option" where "e_phoff img = number_in img 32 8"
definition e_phnum :: "u8 list \<Rightarrow> nat option" where "e_phnum img = number_in img 56 2"

definition is_elf :: "u8 list \<Rightarrow> bool option" where
  "is_elf img = (if length img < 4 then None else Some (take 4 img = 0x7f # str ''ELF''))"

text \<open>\<^verbatim>\<open>GetProgramHeader(ehdr)[i]\<close>\<close>

definition program_header :: "u8 list \<Rightarrow> nat \<Rightarrow> Elf64_Phdr option" where
  "program_header img i = do {
     phoff \<leftarrow> e_phoff img;
     let a = phoff + kPhdrSize * i;
     ty \<leftarrow> number_in img a 4;
     off \<leftarrow> number_in img (a + 8) 8;
     va \<leftarrow> number_in img (a + 16) 8;
     fsz \<leftarrow> number_in img (a + 32) 8;
     msz \<leftarrow> number_in img (a + 40) 8;
     Some \<lparr>p_type = ty, p_offset = off, p_vaddr = of_nat va, p_filesz = of_nat fsz, p_memsz = of_nat msz\<rparr> }"

function first_load :: "u8 list \<Rightarrow> nat \<Rightarrow> nat \<Rightarrow> u64 option" where
  "first_load img n i = (if i < n then
       case program_header img i of
         None \<Rightarrow> None
       | Some p \<Rightarrow> if p_type p \<noteq> PT_LOAD then first_load img n (Suc i) else Some (p_vaddr p)
     else Some 0)"
  by pat_completeness auto
termination by (relation "measure (\<lambda>(img, n, i). n - i)") auto

declare first_load.simps [simp del]

definition GetFirstLoadAddress :: "u8 list \<Rightarrow> u64 option" where
  "GetFirstLoadAddress img = do { n \<leftarrow> e_phnum img; first_load img n 0 }"

section \<open>Writing through the page table\<close>

definition next_address :: "nat \<Rightarrow> nat" where
  "next_address v = (v + 1) mod 2 ^ 64"

fun write_bytes :: "nat \<Rightarrow> nat \<Rightarrow> u8 list \<Rightarrow> paging \<Rightarrow> paging option" where
  "write_bytes root v [] s = Some s"
| "write_bytes root v (b # bs) s = (case translate root (la_of v) s of
     None \<Rightarrow> None
   | Some f \<Rightarrow> write_bytes root (next_address v) bs (s\<lparr>pages := (pages s)(f := (pages s f)[v mod 4096 := b])\<rparr>))"

definition read_byte :: "nat \<Rightarrow> nat \<Rightarrow> paging \<Rightarrow> u8 option" where
  "read_byte root v s = do { f \<leftarrow> translate root (la_of v) s; arr_get (pages s f) (v mod 4096) }"

text \<open>\<^verbatim>\<open>memcpy\<close> and \<^verbatim>\<open>memset\<close> of a segment.\<close>

definition fill_segment :: "nat \<Rightarrow> u8 list \<Rightarrow> Elf64_Phdr \<Rightarrow> paging \<Rightarrow> paging option" where
  "fill_segment root img p s = do {
     s \<leftarrow> (if p_offset p + unat (p_filesz p) \<le> length img
           then write_bytes root (unat (p_vaddr p)) (slice (p_offset p) (unat (p_filesz p)) img) s else None);
     write_bytes root (unat (p_vaddr p + p_filesz p)) (replicate (unat (p_memsz p - p_filesz p)) 0) s }"

text \<open>One iteration and the loop of \<^verbatim>\<open>CopyLoadSegments\<close>.\<close>

definition load_segment :: "nat \<Rightarrow> u8 list \<Rightarrow> Elf64_Phdr \<Rightarrow> paging \<Rightarrow> (error_code \<times> paging) option" where
  "load_segment root img p s = do {
     (err, s) \<leftarrow> SetupPageMaps root (la_of (unat (p_vaddr p))) (unat ((p_memsz p + 4095) div 4096)) False s;
     if err \<noteq> kSuccess then Some (err, s)
     else map_option (Pair kSuccess) (fill_segment root img p s) }"

function copy_loop :: "nat \<Rightarrow> u8 list \<Rightarrow> nat \<Rightarrow> nat \<Rightarrow> u64 \<Rightarrow> paging \<Rightarrow> ((u64 \<times> error_code) \<times> paging) option" where
  "copy_loop root img n i last_addr s =
     (if i < n then
        case program_header img i of
          None \<Rightarrow> None
        | Some p \<Rightarrow>
            if p_type p \<noteq> PT_LOAD then copy_loop root img n (Suc i) last_addr s
            else
              let last_addr = max last_addr (p_vaddr p + p_memsz p) in
              (case load_segment root img p s of
                 None \<Rightarrow> None
               | Some (err, s) \<Rightarrow> if err \<noteq> kSuccess then Some ((last_addr, err), s)
                   else copy_loop root img n (Suc i) last_addr s)
      else Some ((last_addr, kSuccess), s))"
  by pat_completeness auto
termination by (relation "measure (\<lambda>(root, img, n, i, last_addr, s). n - i)") auto

declare copy_loop.simps [simp del]

definition CopyLoadSegments :: "nat \<Rightarrow> u8 list \<Rightarrow> paging \<Rightarrow> ((u64 \<times> error_code) \<times> paging) option" where
  "CopyLoadSegments root img s = do { n \<leftarrow> e_phnum img; copy_loop root img n 0 0 s }"

definition kAppBase :: u64 where "kAppBase = 0xffff800000000000"

definition LoadELF :: "nat \<Rightarrow> u8 list \<Rightarrow> paging \<Rightarrow> ((u64 \<times> error_code) \<times> paging) option" where
  "LoadELF root img s = do {
     ty \<leftarrow> e_type img;
     if ty \<noteq> ET_EXEC then Some ((0, kInvalidFormat), s)
     else do {
       addr_first \<leftarrow> GetFirstLoadAddress img;
       if addr_first < kAppBase then Some ((0, kInvalidFormatLA), s)
       else CopyLoadSegments root img s } }"

section \<open>Address spaces of applications\<close>

text \<open>
  \<^verbatim>\<open>prototype\<close> is null, points to the element of \<^verbatim>\<open>app_loads\<close> with that key, or has never been set.
\<close>

datatype proto = NullProto | Proto entry_ptr | Uninit

record AppLoadInfo =
  app_vaddr_end :: u64
  app_entry :: u64
  app_pml4 :: nat
  prototype :: proto
  app_count :: u32

definition AppLoadInfo_zero :: AppLoadInfo where
  "AppLoadInfo_zero = \<lparr>app_vaddr_end = 0, app_entry = 0, app_pml4 = 0, prototype = NullProto, app_count = 0\<rparr>"

text \<open>\<open>cr3_reg\<close> is the frame of the page table in use, \<open>kernel_pml4\<close> that of the kernel's.\<close>

record machine =
  os :: kernel
  mem :: paging
  cr3_reg :: nat
  kernel_pml4 :: nat
  app_loads :: "entry_ptr \<Rightarrow> AppLoadInfo option"

definition upd_current :: "tid \<Rightarrow> (Task \<Rightarrow> Task) \<Rightarrow> machine \<Rightarrow> machine" where
  "upd_current i f M = M\<lparr>os := (os M)\<lparr>tasking := upd_task i f (tasking (os M))\<rparr>\<rparr>"

definition set_cr3 :: "u64 \<Rightarrow> Task \<Rightarrow> Task" where
  "set_cr3 v t = t\<lparr>task_context := (task_context t)\<lparr>cr3 := v\<rparr>\<rparr>"

definition SetupPML4 :: "tid \<Rightarrow> machine \<Rightarrow> (machine \<times> (error_code + nat)) option" where
  "SetupPML4 i M = do {
     (s, r) \<leftarrow> NewPageMap (mem M);
     (case r of
        Inl err \<Rightarrow> Some (M\<lparr>mem := s\<rparr>, Inl err)
      | Inr p \<Rightarrow>
          let s = s\<lparr>tables := (tables s)(p := overwrite 0 (take 256 (tables s (cr3_reg M))) (tables s p))\<rparr>
          in Some (upd_current i (set_cr3 (of_nat (p * kBytesPerFrame))) (M\<lparr>mem := s, cr3_reg := p\<rparr>), Inr p)) }"

definition FreePML4 :: "tid \<Rightarrow> machine \<Rightarrow> (machine \<times> error_code) option" where
  "FreePML4 i M = do {
     t \<leftarrow> get_task (tasking (os M)) i;
     (err, s) \<leftarrow> FreePageMap (unat (cr3 (task_context t)) div kBytesPerFrame) (mem M);
     Some (upd_current i (set_cr3 0) (M\<lparr>mem := s, cr3_reg := kernel_pml4 M\<rparr>), err) }"

text \<open>\<^verbatim>\<open>prototype->count\<close> is changed by \<open>f\<close>.\<close>

definition change_count :: "proto \<Rightarrow> (u32 \<Rightarrow> u32) \<Rightarrow> machine \<Rightarrow> machine option" where
  "change_count pr f M = (case pr of
     Proto q \<Rightarrow> do {
       a \<leftarrow> app_loads M q;
       Some (M\<lparr>app_loads := (app_loads M)(q \<mapsto> a\<lparr>app_count := f (app_count a)\<rparr>)\<rparr>) }
   | _ \<Rightarrow> None)"

text \<open>The buffer of the size of the file, filled by \<^verbatim>\<open>fat32::LoadFile\<close>.\<close>

definition file_buf :: "volume \<Rightarrow> entry_ptr \<Rightarrow> u8 list option" where
  "file_buf v p = do {
     e \<leftarrow> get_entry v p;
     out \<leftarrow> LoadFile v (unat (file_size e)) p;
     Some (overwrite 0 out (replicate (unat (file_size e)) 0)) }"

section \<open>LoadApp\<close>

text \<open>
  A new page map with the pages of the one kept in \<^verbatim>\<open>app_loads\<close>; \<open>none\<close> is what is returned
  when there is no memory for it.
\<close>

definition share_app :: "tid \<Rightarrow> AppLoadInfo \<Rightarrow> AppLoadInfo \<Rightarrow> machine \<Rightarrow> (machine \<times> AppLoadInfo \<times> error_code) option" where
  "share_app i none a M = do {
     (M, r) \<leftarrow> SetupPML4 i M;
     (case r of
        Inl err \<Rightarrow> Some (M, none, err)
      | Inr temp_pml4 \<Rightarrow> do {
          (err, s) \<leftarrow> CopyPageMaps temp_pml4 (app_pml4 a) 4 256 (mem M);
          M \<leftarrow> change_count (prototype a) (\<lambda>c. c + 1) (M\<lparr>mem := s\<rparr>);
          Some (M, a\<lparr>app_pml4 := temp_pml4\<rparr>, err) }) }"

text \<open>The first start of an application: its file is loaded into a page map that is kept.\<close>

definition load_first :: "tid \<Rightarrow> entry_ptr \<Rightarrow> u8 list \<Rightarrow> machine \<Rightarrow> (machine \<times> AppLoadInfo \<times> error_code) option" where
  "load_first i p img M = do {
     (M, r) \<leftarrow> SetupPML4 i M;
     (case r of
        Inl err \<Rightarrow> Some (M, AppLoadInfo_zero, err)
      | Inr temp_pml4 \<Rightarrow> do {
          ((last_addr, err_load), s) \<leftarrow> LoadELF (cr3_reg M) img (mem M);
          let M = M\<lparr>mem := s\<rparr>;
          ent \<leftarrow> e_entry img;
          let a = \<lparr>app_vaddr_end = last_addr, app_entry = of_nat ent, app_pml4 = temp_pml4, prototype = Proto p, app_count = 0\<rparr>;
          if err_load \<noteq> kSuccess then Some (M, a\<lparr>app_vaddr_end := 0, app_pml4 := 0, prototype := Uninit\<rparr>, err_load)
          else share_app i a a (M\<lparr>app_loads := (app_loads M)(p \<mapsto> a)\<rparr>) }) }"

definition LoadApp :: "tid \<Rightarrow> entry_ptr \<Rightarrow> machine \<Rightarrow> (machine \<times> AppLoadInfo \<times> error_code) option" where
  "LoadApp i p M = (case app_loads M p of
     Some a \<Rightarrow> share_app i AppLoadInfo_zero a M
   | None \<Rightarrow> do {
       img \<leftarrow> file_buf (vol (os M)) p;
       elf \<leftarrow> is_elf img;
       if \<not> elf then Some (M, AppLoadInfo_zero, kInvalidFile) else load_first i p img M })"

section \<open>ExecuteFile\<close>

text \<open>
  What the processor does with the code of an application: \<open>run_flat\<close> calls the buffer as a function
  without arguments, \<open>call_flat\<close> calls an offset in it with the number of arguments, \<open>CallApp\<close> enters user mode
  with the number and the vector of arguments, the stack segment, the entry point and the stack pointer.
\<close>

record app_env =
  run_flat :: "u8 list \<Rightarrow> machine \<Rightarrow> machine option"
  call_flat :: "u8 list \<Rightarrow> u64 \<Rightarrow> nat \<Rightarrow> machine \<Rightarrow> (machine \<times> int) option"
  CallApp :: "tid \<Rightarrow> nat \<Rightarrow> nat \<Rightarrow> nat \<Rightarrow> u64 \<Rightarrow> nat \<Rightarrow> machine \<Rightarrow> (machine \<times> int) option"

definition args_frame_addr :: nat where "args_frame_addr = 0xfffffffffffff000"
definition argv_len :: nat where "argv_len = 32"
definition argbuf_len :: nat where "argbuf_len = 4096 - 8 * argv_len"
definition user_stack_size :: nat where "user_stack_size = 16 * 4096"
definition stack_frame_addr :: nat where "stack_frame_addr = args_frame_addr - user_stack_size"

text \<open>What \<^verbatim>\<open>MakeArgv\<close> has written to the page of the arguments: the pointers, then the strings.\<close>

definition write_args :: "nat \<Rightarrow> argv_state \<Rightarrow> paging \<Rightarrow> paging option" where
  "write_args root st s = do {
     s \<leftarrow> write_bytes root args_frame_addr
            (concat (map (\<lambda>x. little_bytes 8 (args_frame_addr + 8 * argv_len + x)) (take (argc st) (argv st)))) s;
     write_bytes root (args_frame_addr + 8 * argv_len) (take (argbuf_index st) (argbuf st)) s }"

text \<open>The page of the arguments and the stack; the number of arguments.\<close>

definition user_memory :: "cstr \<Rightarrow> cstr option \<Rightarrow> machine \<Rightarrow> (machine \<times> (error_code + nat)) option" where
  "user_memory command a M = do {
     (err, s) \<leftarrow> SetupPageMaps (cr3_reg M) (la_of args_frame_addr) 1 True (mem M);
     let M = M\<lparr>mem := s\<rparr>;
     if err \<noteq> kSuccess then Some (M, Inl err)
     else do {
       (st, err) \<leftarrow> MakeArgv command a
         \<lparr>argc = 0, argv = replicate argv_len 0, argbuf = replicate argbuf_len 0, argbuf_index = 0\<rparr>;
       s \<leftarrow> write_args (cr3_reg M) st (mem M);
       let M = M\<lparr>mem := s\<rparr>;
       if err \<noteq> kSuccess then Some (M, Inl err)
       else do {
         (err, s) \<leftarrow> SetupPageMaps (cr3_reg M) (la_of stack_frame_addr) (user_stack_size div 4096) True (mem M);
         let M = M\<lparr>mem := s\<rparr>;
         Some (M, if err \<noteq> kSuccess then Inl err else Inr (argc st)) } } }"

definition prepare_task :: "u64 \<Rightarrow> nat list \<Rightarrow> Task \<Rightarrow> Task" where
  "prepare_task vend hs t = (let elf_next_page = (vend + 4095) AND 0xfffffffffffff000 in
     t\<lparr>files := files t @ map Some hs, dpaging_begin := elf_next_page, dpaging_end := elf_next_page,
       file_map_end := of_nat stack_frame_addr\<rparr>)"

definition run_app :: "app_env \<Rightarrow> tid \<Rightarrow> nat \<Rightarrow> AppLoadInfo \<Rightarrow> machine \<Rightarrow> (machine \<times> int) option" where
  "run_app A i n a M = do {
     (_, t) \<leftarrow> terminals (os M) i;
     (M, ret) \<leftarrow> CallApp A i n args_frame_addr (3 * 8 + 3) (app_entry a) (stack_frame_addr + user_stack_size - 8)
       (upd_current i (prepare_task (app_vaddr_end a) (term_files t)) M);
     Some (upd_current i (\<lambda>t. t\<lparr>files := [], file_maps := []\<rparr>) M, ret) }"

text \<open>After the application: its own pages, its page map, and the map kept in \<^verbatim>\<open>app_loads\<close> with the last user.\<close>

definition drop_app :: "entry_ptr \<Rightarrow> proto \<Rightarrow> machine \<Rightarrow> (machine \<times> error_code) option" where
  "drop_app p pr M = (case pr of
     Uninit \<Rightarrow> None
   | NullProto \<Rightarrow> Some (M, kSuccess)
   | Proto q \<Rightarrow> do {
       a \<leftarrow> app_loads M q;
       if app_count a \<noteq> 0 then Some (M, kSuccess)
       else do {
         (err, s) \<leftarrow> CleanPageMapsForMeta (app_pml4 a) (mem M);
         let M = M\<lparr>mem := s\<rparr>;
         Some (if err \<noteq> kSuccess then (M, err) else (M\<lparr>app_loads := (app_loads M)(p := None)\<rparr>, kSuccess)) } })"

definition leave_app :: "tid \<Rightarrow> entry_ptr \<Rightarrow> AppLoadInfo \<Rightarrow> machine \<Rightarrow> (machine \<times> error_code) option" where
  "leave_app i p a M = do {
     (M, err) \<leftarrow>
       (if kAppBase \<le> app_entry a then do {
          (err, s) \<leftarrow> CleanPageMaps (cr3_reg M) (la_of (unat kAppBase)) (mem M);
          let M = M\<lparr>mem := s\<rparr>;
          if err \<noteq> kSuccess then Some (M, err)
          else map_option (\<lambda>M. (M, kSuccess)) (change_count (prototype a) (\<lambda>c. c - 1) M) }
        else Some (M, kSuccess));
     if err \<noteq> kSuccess then Some (M, err)
     else do {
       (M, err) \<leftarrow> FreePML4 i M;
       if err \<noteq> kSuccess then Some (M, err) else drop_app p (prototype a) M } }"

definition exec_loaded ::
    "app_env \<Rightarrow> tid \<Rightarrow> entry_ptr \<Rightarrow> cstr \<Rightarrow> cstr option \<Rightarrow> bool \<Rightarrow> AppLoadInfo \<Rightarrow> machine \<Rightarrow> (machine \<times> int \<times> error_code) option" where
  "exec_loaded A i p command arg_str invalidLoadAddr a M = do {
     (M, r) \<leftarrow> user_memory command arg_str M;
     (case r of
        Inl err \<Rightarrow> Some (M, 0, err)
      | Inr n \<Rightarrow> do {
          (M, ret) \<leftarrow>
            (if invalidLoadAddr then do { img \<leftarrow> file_buf (vol (os M)) p; call_flat A img (app_entry a) n M }
             else run_app A i n a M);
          (M, err) \<leftarrow> leave_app i p a M;
          Some (M, ret, err) }) }"

text \<open>The test of \<^verbatim>\<open>ONLYHLT\<close>: \<open>Some M\<close> when the file has been run as it is.\<close>

definition only_hlt :: "app_env \<Rightarrow> entry_ptr \<Rightarrow> machine \<Rightarrow> machine option option" where
  "only_hlt A p M = do {
     e \<leftarrow> get_entry (vol (os M)) p;
     if FormatName e \<noteq> str ''ONLYHLT'' then Some None
     else do {
       img \<leftarrow> file_buf (vol (os M)) p;
       elf \<leftarrow> is_elf img;
       if elf then Some None else map_option Some (run_flat A img M) } }"

definition ExecuteFile ::
    "app_env \<Rightarrow> tid \<Rightarrow> entry_ptr \<Rightarrow> cstr \<Rightarrow> cstr option \<Rightarrow> machine \<Rightarrow> (machine \<times> int \<times> error_code) option" where
  "ExecuteFile A i p command arg_str M = do {
     flat \<leftarrow> only_hlt A p M;
     (case flat of
        Some M \<Rightarrow> Some (M, 0, kSuccess)
      | None \<Rightarrow> do {
          (M, a, err) \<leftarrow> LoadApp i p M;
          if err \<noteq> kSuccess \<and> err \<noteq> kInvalidFormatLA then Some (M, 0, err)
          else exec_loaded A i p command arg_str (err = kInvalidFormatLA) a M }) }"

section \<open>Writing a segment\<close>

lemma translate_pages [simp]: "translate root a (s\<lparr>pages := pg\<rparr>) = translate root a s"
  by (simp add: translate_def)

lemma write_bytes_append:
  "v < 2 ^ 64 \<Longrightarrow> write_bytes root v (xs @ ys) s
     = Option.bind (write_bytes root v xs s) (write_bytes root ((v + length xs) mod 2 ^ 64) ys)"
proof (induction xs arbitrary: v s)
  case (Cons b xs)
  have "(next_address v + length xs) mod 2 ^ 64 = (v + length (b # xs)) mod 2 ^ 64"
    by (simp add: next_address_def mod_simps)
  then show ?case using Cons.IH [of "next_address v"] by (auto simp: next_address_def split: option.split)
qed simp

lemma write_bytes_fault:
  "translate root (la_of x) s = None \<Longrightarrow> v \<le> x \<Longrightarrow> x < v + length bs \<Longrightarrow> v + length bs \<le> 2 ^ 64 \<Longrightarrow>
     write_bytes root v bs s = None"
proof (induction bs arbitrary: v s)
  case (Cons b bs)
  show ?case
  proof (cases "x = v")
    case True
    with Cons.prems show ?thesis by simp
  next
    case False
    then have "next_address v = v + 1" "v + 1 \<le> x" "x < v + 1 + length bs" "v + 1 + length bs \<le> 2 ^ 64"
      using Cons.prems by (simp_all add: next_address_def)
    then show ?thesis using Cons.IH [of _ "v + 1"] Cons.prems(1) by (auto split: option.split)
  qed
qed simp

text \<open>The addresses of the range that have a page have whole pages, and no two share a byte.\<close>

definition own_bytes :: "nat \<Rightarrow> paging \<Rightarrow> nat \<Rightarrow> nat \<Rightarrow> bool" where
  "own_bytes root s v n \<longleftrightarrow>
     (\<forall>x f. v \<le> x \<and> x < v + n \<and> translate root (la_of x) s = Some f \<longrightarrow> length (pages s f) = 4096
        \<and> (\<forall>y. x < y \<and> y < v + n \<and> translate root (la_of y) s = Some f \<longrightarrow> x mod 4096 \<noteq> y mod 4096))"

lemma own_bytes_length:
  "own_bytes root s v n \<Longrightarrow> v \<le> x \<Longrightarrow> x < v + n \<Longrightarrow> translate root (la_of x) s = Some f \<Longrightarrow> length (pages s f) = 4096"
  by (simp add: own_bytes_def)

lemma own_bytes_apart:
  "own_bytes root s v n \<Longrightarrow> v \<le> x \<Longrightarrow> x < y \<Longrightarrow> y < v + n \<Longrightarrow> translate root (la_of x) s = Some f \<Longrightarrow>
     translate root (la_of y) s = Some f \<Longrightarrow> x mod 4096 \<noteq> y mod 4096"
  by (simp add: own_bytes_def)

lemma write_bytes_spec:
  assumes "\<forall>x. v \<le> x \<and> x < v + length bs \<longrightarrow> translate root (la_of x) s \<noteq> None"
    and "own_bytes root s v (length bs)" and "v + length bs \<le> 2 ^ 64"
  shows "\<exists>pg. write_bytes root v bs s = Some (s\<lparr>pages := pg\<rparr>)
    \<and> (\<forall>x < length bs. read_byte root (v + x) (s\<lparr>pages := pg\<rparr>) = Some (bs ! x))
    \<and> (\<forall>f k. (\<forall>x. v \<le> x \<and> x < v + length bs \<and> translate root (la_of x) s = Some f \<longrightarrow> x mod 4096 \<noteq> k)
         \<longrightarrow> pg f ! k = pages s f ! k)
    \<and> (\<forall>f. length (pg f) = length (pages s f))"
  using assms
proof (induction bs arbitrary: v s)
  case Nil
  then show ?case by (intro exI [of _ "pages s"]) simp
next
  case (Cons b bs)
  from Cons.prems(1) obtain f where f: "translate root (la_of v) s = Some f" by force
  let ?s = "s\<lparr>pages := (pages s)(f := (pages s f)[v mod 4096 := b])\<rparr>"
  have own: "length (pages s f) = 4096"
    "v < y \<and> y < v + length (b # bs) \<and> translate root (la_of y) s = Some f \<Longrightarrow> v mod 4096 \<noteq> y mod 4096" for y
    using own_bytes_length [OF Cons.prems(2) _ _ f] own_bytes_apart [OF Cons.prems(2) _ _ _ f] by simp_all
  have "own_bytes root ?s (v + 1) (length bs)"
    unfolding own_bytes_def
  proof (intro allI impI conjI; elim conjE)
    fix x g assume x: "v + 1 \<le> x" "x < v + 1 + length bs" "translate root (la_of x) ?s = Some g"
    then have t: "v \<le> x" "x < v + length (b # bs)" "translate root (la_of x) s = Some g" by simp_all
    from own_bytes_length [OF Cons.prems(2) this] show "length (pages ?s g) = 4096" by auto
    fix y assume "x < y" "y < v + 1 + length bs" "translate root (la_of y) ?s = Some g"
    then show "x mod 4096 \<noteq> y mod 4096" using own_bytes_apart [OF Cons.prems(2) t(1) _ _ t(3), of y] by simp
  qed
  moreover have "\<forall>x. v + 1 \<le> x \<and> x < v + 1 + length bs \<longrightarrow> translate root (la_of x) ?s \<noteq> None"
    using Cons.prems(1) by simp
  ultimately obtain pg where P: "write_bytes root (v + 1) bs ?s = Some (?s\<lparr>pages := pg\<rparr>)"
    "\<forall>x < length bs. read_byte root (v + 1 + x) (?s\<lparr>pages := pg\<rparr>) = Some (bs ! x)"
    "\<forall>g k. (\<forall>x. v + 1 \<le> x \<and> x < v + 1 + length bs \<and> translate root (la_of x) ?s = Some g \<longrightarrow> x mod 4096 \<noteq> k)
         \<longrightarrow> pg g ! k = pages ?s g ! k"
    "\<forall>g. length (pg g) = length (pages ?s g)"
    using Cons.IH [of "v + 1" ?s] Cons.prems(3) by auto
  have W: "write_bytes root v (b # bs) s = Some (s\<lparr>pages := pg\<rparr>)"
  proof (cases bs)
    case Nil
    with P(1) f show ?thesis by simp
  next
    case (Cons c cs)
    then have "next_address v = v + 1" using Cons.prems(3) by (simp add: next_address_def)
    with P(1) f show ?thesis by simp
  qed
  have "pg f ! (v mod 4096) = pages ?s f ! (v mod 4096)"
  proof (rule P(3) [rule_format])
    fix x assume "v + 1 \<le> x \<and> x < v + 1 + length bs \<and> translate root (la_of x) ?s = Some f"
    then show "x mod 4096 \<noteq> v mod 4096" using own(2) [of x] by simp
  qed
  then have hd: "pg f ! (v mod 4096) = b" using own(1) by simp
  have lf: "length (pg f) = 4096" using P(4) own(1) by simp
  have R: "read_byte root (v + x) (s\<lparr>pages := pg\<rparr>) = Some ((b # bs) ! x)" if "x < length (b # bs)" for x
  proof (cases x)
    case 0
    then show ?thesis using f hd lf by (simp add: read_byte_def arr_get_def)
  next
    case (Suc y)
    then show ?thesis using P(2) that by (simp add: read_byte_def)
  qed
  have F: "pg g ! k = pages s g ! k"
    if "\<forall>x. v \<le> x \<and> x < v + length (b # bs) \<and> translate root (la_of x) s = Some g \<longrightarrow> x mod 4096 \<noteq> k" for g k
  proof -
    have "pg g ! k = pages ?s g ! k" using P(3) that by simp
    moreover have "g = f \<Longrightarrow> v mod 4096 \<noteq> k" using that f by force
    ultimately show ?thesis by (cases "g = f") auto
  qed
  show ?case using W R F P(4) by (intro exI [of _ pg]) simp
qed


text \<open>
  C38: a segment of an application is in memory as its header says.  When the pages have been set up, and
  every address of the segment has a byte of its own, \<open>load_segment\<close> copies the bytes of the file to
  the start of the segment, makes the rest zero and changes no other byte of any page and no table - if
  every address of the segment has a page.  If one has none, the kernel itself faults; the number of
  pages is counted from the size alone, so this is what happens to a segment that does not begin
  at a page and needs the page that its first bytes push it into.
\<close>

theorem load_segment_exact:
  assumes "SetupPageMaps root (la_of (unat (p_vaddr p))) (unat ((p_memsz p + 4095) div 4096)) False s = Some (kSuccess, s1)"
    and "p_filesz p \<le> p_memsz p" and "unat (p_vaddr p) + unat (p_memsz p) \<le> 2 ^ 64"
    and "p_offset p + unat (p_filesz p) \<le> length img" and "own_bytes root s1 (unat (p_vaddr p)) (unat (p_memsz p))"
    and "v = unat (p_vaddr p)" and "n = unat (p_memsz p)" and "k = unat (p_filesz p)"
  shows "if \<exists>x. v \<le> x \<and> x < v + n \<and> translate root (la_of x) s1 = None then load_segment root img p s = None
    else \<exists>pg. load_segment root img p s = Some (kSuccess, s1\<lparr>pages := pg\<rparr>)
      \<and> (\<forall>x < n. read_byte root (v + x) (s1\<lparr>pages := pg\<rparr>) = Some (if x < k then img ! (p_offset p + x) else 0))
      \<and> (\<forall>f b. (\<forall>x. v \<le> x \<and> x < v + n \<and> translate root (la_of x) s1 = Some f \<longrightarrow> x mod 4096 \<noteq> b)
           \<longrightarrow> pg f ! b = pages s1 f ! b)"
proof -
  let ?xs = "slice (p_offset p) k img" and ?ys = "replicate (n - k) (0 :: u8)"
  have kn: "k \<le> n" using assms(2,7,8) by (simp add: word_le_nat_alt)
  have lx: "length ?xs = k" using assms(4,8) by (simp add: slice_def)
  have len: "length (?xs @ ?ys) = n" using lx kn by simp
  have v: "v < 2 ^ 64" unfolding assms(6) by (rule order_less_le_trans [OF unsigned_less]) simp
  have "unat (p_vaddr p + p_filesz p) = (v + k) mod 2 ^ 64" by (simp add: assms(6,8) unat_word_ariths(1))
  moreover have "unat (p_memsz p - p_filesz p) = n - k" using assms(2,7,8) by (simp add: unat_sub)
  ultimately have "fill_segment root img p s1 = write_bytes root v (?xs @ ?ys) s1"
    using assms(4) write_bytes_append [OF v, of root ?xs ?ys s1] lx
    by (simp add: fill_segment_def assms(6,8))
  then have L: "load_segment root img p s = map_option (Pair kSuccess) (write_bytes root v (?xs @ ?ys) s1)"
    using assms(1) by (simp add: load_segment_def)
  show ?thesis
  proof (cases "\<exists>x. v \<le> x \<and> x < v + n \<and> translate root (la_of x) s1 = None")
    case True
    then obtain x where "v \<le> x" "x < v + n" "translate root (la_of x) s1 = None" by blast
    then have "write_bytes root v (?xs @ ?ys) s1 = None"
      using write_bytes_fault [of root x s1 v "?xs @ ?ys"] assms(3,6,7) len by simp
    with True L show ?thesis by simp
  next
    case False
    then have "\<forall>x. v \<le> x \<and> x < v + length (?xs @ ?ys) \<longrightarrow> translate root (la_of x) s1 \<noteq> None" using len by auto
    moreover have "own_bytes root s1 v (length (?xs @ ?ys))" using assms(5-7) len by simp
    moreover have "v + length (?xs @ ?ys) \<le> 2 ^ 64" using assms(3,6,7) len by simp
    ultimately obtain pg where P: "write_bytes root v (?xs @ ?ys) s1 = Some (s1\<lparr>pages := pg\<rparr>)"
      "\<forall>x < n. read_byte root (v + x) (s1\<lparr>pages := pg\<rparr>) = Some ((?xs @ ?ys) ! x)"
      "\<forall>f b. (\<forall>x. v \<le> x \<and> x < v + n \<and> translate root (la_of x) s1 = Some f \<longrightarrow> x mod 4096 \<noteq> b)
         \<longrightarrow> pg f ! b = pages s1 f ! b"
      using write_bytes_spec [of v "?xs @ ?ys" root s1] unfolding len by blast
    have "(?xs @ ?ys) ! x = (if x < k then img ! (p_offset p + x) else 0)" if "x < n" for x
      using that lx assms(4,8) by (simp add: nth_append slice_def)
    with P(2) have "\<forall>x < n. read_byte root (v + x) (s1\<lparr>pages := pg\<rparr>) = Some (if x < k then img ! (p_offset p + x) else 0)"
      by simp
    with False L P(1,3) show ?thesis by (simp only: if_False option.map) blast
  qed
qed


section \<open>A page that is present\<close>

lemma SetupPageMap_present:
  "path_ok t l a s \<Longrightarrow> walk t l a s = Some e \<Longrightarrow> 1 \<le> l \<Longrightarrow> l \<le> 4 \<Longrightarrow>
     \<exists>s'. SetupPageMap t l a 1 wr s = Some (s', 0, kSuccess) \<and> manager s' = manager s \<and> pages s' = pages s
       \<and> (\<forall>f. f \<notin> set (path t l a s) \<longrightarrow> tables s' f = tables s f)
       \<and> walk t l a s' = Some (e\<lparr>user := True, writable := wr\<rparr>)"
proof (induction l arbitrary: t s)
  case (Suc l)
  let ?i = "Part a (Suc l)" and ?l = "Suc l"
  let ?e = "tables s t ! ?i"
  have i: "?i < length (tables s t)" and pr: "present ?e" using Suc.prems(2) by (auto simp: arr_get_def split: if_splits)
  let ?e' = "?e\<lparr>user := True, writable := (?l = 1 \<longrightarrow> wr)\<rparr>"
  let ?s = "set_entry t ?i ?e' s"
  have S: "SetNewPageMapIfNotPresent t ?i s = Some (s, Inr (Pointer ?e))"
    using i pr by (simp add: SetNewPageMapIfNotPresent_def arr_get_def)
  have ts: "tables ?s t = (tables s t)[?i := ?e']" "f \<noteq> t \<Longrightarrow> tables ?s f = tables s f" "manager ?s = manager s" "pages ?s = pages s"
    for f by (simp_all add: set_entry_def)
  have z: "SetupPageMap t ?l b 0 wr x = Some (x, 0, kSuccess)" for b x
    using Suc.prems(4) by (intro SetupPageMap_zero) simp_all
  show ?case
  proof (cases "l = 0")
    case True
    have "SetupPageMap t ?l a 1 wr s = Some (?s, 0, kSuccess)"
      using S z unfolding True by (simp add: SetupPageMap.simps [of t "Suc 0" a "Suc 0"] Let_def)
    moreover have "walk t ?l a ?s = Some (e\<lparr>user := True, writable := wr\<rparr>)"
      using Suc.prems(2) i pr True ts(1) by (simp add: arr_get_def)
    ultimately show ?thesis using ts by (intro exI [of _ ?s]) simp
  next
    case False
    then have l: "0 < l" "1 \<le> l" by simp_all
    note st = path_ok_step [OF Suc.prems(1) pr l(1)]
    have w: "walk (Pointer ?e) l a s = Some e" using Suc.prems(2) i pr False by simp
    have same: "\<forall>f \<in> set (path (Pointer ?e) l a s). tables ?s f = tables s f" using st(2) ts(2) by metis
    have pc: "path (Pointer ?e) l a ?s = path (Pointer ?e) l a s" by (rule path_cong [OF same])
    have "path_ok (Pointer ?e) l a ?s" using st(1) same ts(3) unfolding path_ok_def pc by simp
    moreover have "walk (Pointer ?e) l a ?s = Some e" using walk_cong [OF same st(1)] w by simp
    ultimately obtain s' where s': "SetupPageMap (Pointer ?e) l a 1 wr ?s = Some (s', 0, kSuccess)" "manager s' = manager ?s"
      "pages s' = pages ?s" "\<forall>f. f \<notin> set (path (Pointer ?e) l a s) \<longrightarrow> tables s' f = tables ?s f"
      "walk (Pointer ?e) l a s' = Some (e\<lparr>user := True, writable := wr\<rparr>)"
      using Suc.IH [of "Pointer ?e" ?s] Suc.prems(4) l(2) unfolding pc by auto
    have "SetupPageMap t ?l a 1 wr s = Some (s', 0, kSuccess)"
      using S z False s'(1) Suc.prems(4) by (simp add: SetupPageMap.simps [of t ?l a "Suc 0"] Let_def)
    moreover have "tables s' t = (tables s t)[?i := ?e']" using s'(4) st(2) ts(1) by simp
    then have "walk t ?l a s' = walk (Pointer ?e) l a s'" using i pr False by (simp add: Pointer_def)
    moreover have "\<forall>f. f \<notin> set (path t ?l a s) \<longrightarrow> tables s' f = tables s f"
      using s'(4) ts(2) pr l(1) by (auto simp: Let_def)
    ultimately show ?thesis using s'(2,3,5) ts by (intro exI [of _ s']) simp
  qed
qed simp

text \<open>A segment of four bytes, two of them from the file, in the page of address 0.\<close>

definition segment_example :: Elf64_Phdr where
  "segment_example = \<lparr>p_type = PT_LOAD, p_offset = 1, p_vaddr = 0, p_filesz = 2, p_memsz = 4\<rparr>"

theorem load_segment_exact_witness:
  "\<exists>s1 pg. load_segment 0 [9, 8, 7] segment_example paging_example = Some (kSuccess, s1\<lparr>pages := pg\<rparr>)
     \<and> read_byte 0 1 (s1\<lparr>pages := pg\<rparr>) = Some 7 \<and> read_byte 0 3 (s1\<lparr>pages := pg\<rparr>) = Some 0"
proof -
  obtain s1 where S: "SetupPageMap 0 4 (la_of 0) 1 False paging_example = Some (s1, 0, kSuccess)"
    "pages s1 = pages paging_example"
    "walk 0 4 (la_of 0) s1 = Some (zero_entry\<lparr>present := True, user := True, addr := 4, user := True, writable := False\<rparr>)"
    using SetupPageMap_present [OF paging_example_ok(4,6), of False] by auto
  have la: "la_of x = (la_of 0)\<lparr>offset := x\<rparr>" if "x < 4096" for x using that by (simp add: la_of_def)
  have T: "translate 0 (la_of x) s1 = Some 4" if "x < 4096" for x
    using S(3) by (simp add: la [OF that] translate_def Pointer_def)
  have e: "p_offset segment_example = 1" "p_vaddr segment_example = 0" "p_filesz segment_example = 2"
    "p_memsz segment_example = 4" by (simp_all add: segment_example_def)
  have 1: "SetupPageMaps 0 (la_of (unat (p_vaddr segment_example))) (unat ((p_memsz segment_example + 4095) div 4096)) False
      paging_example = Some (kSuccess, s1)"
    using S(1) by (simp add: SetupPageMaps_def e)
  have 2: "own_bytes 0 s1 (unat (p_vaddr segment_example)) (unat (p_memsz segment_example))"
    using T S(2) by (auto simp: own_bytes_def e paging_example_def simp del: replicate.simps)
  have 3: "p_filesz segment_example \<le> p_memsz segment_example" "unat (p_vaddr segment_example) + unat (p_memsz segment_example) \<le> 2 ^ 64"
    "p_offset segment_example + unat (p_filesz segment_example) \<le> length [9, 8, 7 :: u8]" "0 = unat (p_vaddr segment_example)"
    "4 = unat (p_memsz segment_example)" "2 = unat (p_filesz segment_example)" by (simp_all add: e)
  have "\<not> (\<exists>x. 0 \<le> x \<and> x < 0 + (4 :: nat) \<and> translate 0 (la_of x) s1 = None)" using T by fastforce
  with load_segment_exact [OF 1 3(1-3) 2 3(4-6)]
  have "\<exists>pg. load_segment 0 [9, 8, 7] segment_example paging_example = Some (kSuccess, s1\<lparr>pages := pg\<rparr>)
      \<and> (\<forall>x < 4. read_byte 0 (0 + x) (s1\<lparr>pages := pg\<rparr>) = Some (if x < 2 then [9, 8, 7] ! (p_offset segment_example + x) else 0))"
    by (simp only: if_False) (elim exE conjE, intro exI conjI)
  then obtain pg where "load_segment 0 [9, 8, 7] segment_example paging_example = Some (kSuccess, s1\<lparr>pages := pg\<rparr>)"
    "\<forall>x < 4. read_byte 0 (0 + x) (s1\<lparr>pages := pg\<rparr>) = Some (if x < 2 then [9, 8, 7] ! (p_offset segment_example + x) else 0)" by blast
  moreover from this(2) [rule_format, of 1] this(2) [rule_format, of 3] e(1)
  have "read_byte 0 1 (s1\<lparr>pages := pg\<rparr>) = Some 7" "read_byte 0 3 (s1\<lparr>pages := pg\<rparr>) = Some 0" by simp_all
  ultimately show ?thesis by blast
qed


section \<open>Files that are not applications\<close>

lemma file_buf_spec:
  assumes "vol_ok v" and "get_entry v p = Some e" and "file_ok v e chain"
  shows "file_buf v p = Some (file_bytes v e chain)"
proof -
  have ne: "chain \<noteq> []" using assms(3) by (simp add: file_ok_def)
  have dir: "dir_ok v chain" and sz: "unat (file_size e) \<le> length chain * bytes_per_cluster v" using assms(3) by (simp_all add: file_ok_def)
  then have l: "length (file_bytes v e chain) = unat (file_size e)"
    using content_length [OF assms(1) dir] by (simp add: file_bytes_def)
  have i: "fat_entry (FileDescriptor_init p) = p" "rd_off (FileDescriptor_init p) = 0" by (simp_all add: FileDescriptor_init_def)
  from Read_spec [OF assms(1) _ assms(3) reading_init [OF ne], of p "unat (file_size e)"] assms(2) i l
  have "LoadFile v (unat (file_size e)) p = Some (file_bytes v e chain)" by (auto simp: LoadFile_def)
  then show ?thesis using assms(2) l by (simp add: file_buf_def overwrite_def)
qed

text \<open>A new page map takes a free frame; without one nothing is changed.\<close>

lemma SetupPML4_cases [consumes 1, case_names new full]:
  assumes "bmm_inv (manager (mem M))"
  obtains (new) M' f where "SetupPML4 i M = Some (M', Inr f)" "f \<notin> allocated (manager (mem M))"
      "allocated (manager (mem M')) = insert f (allocated (manager (mem M)))" "cr3_reg M' = f" "app_loads M' = app_loads M"
      "free_frames (manager (mem M)) \<noteq> {}"
  | (full) "SetupPML4 i M = Some (M, Inl kNoEnoughMemory)" "free_frames (manager (mem M)) = {}"
  using assms
proof (cases rule: NewPageMap_cases [of "mem M"])
  case (new f m')
  from new(1) have "\<exists>M'. SetupPML4 i M = Some (M', Inr f) \<and> manager (mem M') = m' \<and> cr3_reg M' = f \<and> app_loads M' = app_loads M"
    by (simp add: SetupPML4_def upd_current_def Let_def)
  then obtain M' where "SetupPML4 i M = Some (M', Inr f)" "manager (mem M') = m'" "cr3_reg M' = f" "app_loads M' = app_loads M"
    by blast
  with new(3,4,7) that(1) [of M' f] show thesis by auto
next
  case full
  then show thesis by (intro that(2)) (simp_all add: SetupPML4_def)
qed

text \<open>
  C39: what is not an application is refused.  The file is one that is not loaded already, has at least
  four bytes (64 when they are the mark of an ELF image, the header the loader reads) and is not named
  \<^verbatim>\<open>ONLYHLT\<close>, the flat program the kernel runs without a header.  \<^verbatim>\<open>ExecuteFile\<close> of such a file without the
  mark of an ELF image returns \<open>kInvalidFile\<close> and changes nothing; of an ELF image of another type than
  executable it returns \<open>kNoEnoughMemory\<close> without a change when no frame is free, and \<open>kInvalidFormat\<close>
  otherwise.  No application is entered in \<^verbatim>\<open>app_loads\<close>.  But on \<open>kInvalidFormat\<close> the page map made for the
  application stays in use, and its frame is not given back: every such command costs a frame.
\<close>

theorem ExecuteFile_refuses:
  assumes "vol_ok (vol (os M))" and "get_entry (vol (os M)) p = Some e" and "file_ok (vol (os M)) e chain"
    and "FormatName e \<noteq> str ''ONLYHLT''" and "img = file_bytes (vol (os M)) e chain" and "64 \<le> length img \<or> take 4 img \<noteq> 0x7f # str ''ELF''"
    and "4 \<le> length img" and "app_loads M p = None" and "bmm_inv (manager (mem M))"
  shows "(take 4 img \<noteq> 0x7f # str ''ELF'' \<longrightarrow> ExecuteFile A i p command arg_str M = Some (M, 0, kInvalidFile))
    \<and> (take 4 img = 0x7f # str ''ELF'' \<and> e_type img \<noteq> Some ET_EXEC \<longrightarrow>
        (if free_frames (manager (mem M)) = {} then ExecuteFile A i p command arg_str M = Some (M, 0, kNoEnoughMemory)
         else \<exists>M' f. ExecuteFile A i p command arg_str M = Some (M', 0, kInvalidFormat) \<and> app_loads M' = app_loads M
             \<and> cr3_reg M' = f \<and> f \<notin> allocated (manager (mem M))
             \<and> allocated (manager (mem M')) = insert f (allocated (manager (mem M)))))"
proof -
  have flat: "only_hlt A p M = Some None" using assms(2,4) by (simp add: only_hlt_def)
  have buf: "file_buf (vol (os M)) p = Some img" using file_buf_spec [OF assms(1-3)] assms(5) by simp
  have elf: "is_elf img = Some (take 4 img = 0x7f # str ''ELF'')" using assms(7) by (simp add: is_elf_def)
  have L: "LoadApp i p M = (if take 4 img = 0x7f # str ''ELF'' then load_first i p img M else Some (M, AppLoadInfo_zero, kInvalidFile))"
    using assms(8) buf elf by (simp add: LoadApp_def)
  have E: "LoadApp i p M = Some (M', a, err) \<Longrightarrow> err \<noteq> kSuccess \<Longrightarrow> err \<noteq> kInvalidFormatLA \<Longrightarrow>
      ExecuteFile A i p command arg_str M = Some (M', 0, err)" for M' a err
    using flat by (simp add: ExecuteFile_def)
  show ?thesis
  proof (intro conjI impI; (elim conjE)?)
    assume "take 4 img \<noteq> 0x7f # str ''ELF''"
    with L show "ExecuteFile A i p command arg_str M = Some (M, 0, kInvalidFile)" by (intro E) simp_all
  next
    assume a: "take 4 img = 0x7f # str ''ELF''" and ty: "e_type img \<noteq> Some ET_EXEC"
    then have l: "64 \<le> length img" using assms(6) by simp
    then obtain ent where ent: "e_entry img = Some ent" by (simp add: e_entry_def number_in_def)
    obtain t where t: "e_type img = Some t" "t \<noteq> ET_EXEC" using ty l by (auto simp: e_type_def number_in_def)
    from assms(9) show "if free_frames (manager (mem M)) = {} then ExecuteFile A i p command arg_str M = Some (M, 0, kNoEnoughMemory)
         else (\<exists>M' f. ExecuteFile A i p command arg_str M = Some (M', 0, kInvalidFormat) \<and> app_loads M' = app_loads M
             \<and> cr3_reg M' = f \<and> f \<notin> allocated (manager (mem M))
             \<and> allocated (manager (mem M')) = insert f (allocated (manager (mem M))))"
    proof (cases rule: SetupPML4_cases [where i = i])
      case (new M' f)
      then have "LoadApp i p M = Some (M', \<lparr>app_vaddr_end = 0, app_entry = of_nat ent, app_pml4 = 0, prototype = Uninit,
          app_count = 0\<rparr>, kInvalidFormat)"
        using L a t ent by (simp add: load_first_def LoadELF_def)
      then have "ExecuteFile A i p command arg_str M = Some (M', 0, kInvalidFormat)" by (rule E) simp_all
      with new show ?thesis by (subst if_not_P [OF new(6)]) blast
    next
      case full
      then have "LoadApp i p M = Some (M, AppLoadInfo_zero, kNoEnoughMemory)" using L a by (simp add: load_first_def)
      then have "ExecuteFile A i p command arg_str M = Some (M, 0, kNoEnoughMemory)" by (rule E) simp_all
      with full(2) show ?thesis by simp
    qed
  qed
qed

text \<open>A text file given as a command.\<close>

definition machine_example :: machine where
  "machine_example = \<lparr>os = kernel_example\<lparr>vol := file_volume_example\<rparr>, mem = paging_example, cr3_reg = 0, kernel_pml4 = 0,
     app_loads = (\<lambda>_. None)\<rparr>"

theorem ExecuteFile_refuses_witness:
  "\<forall>A. ExecuteFile A 1 (2, 0) (str ''memo.txt'') None machine_example = Some (machine_example, 0, kInvalidFile)"
proof
  fix A
  let ?img = "map of_nat [0..<40] :: u8 list"
  have e: "vol (os machine_example) = file_volume_example" "app_loads machine_example (2, 0) = None" "mem machine_example = paging_example"
    by (simp_all add: machine_example_def)
  have n: "FormatName file_entry_example \<noteq> str ''ONLYHLT''"
    by (simp add: FormatName_def ReadName_def strip_spaces_def slice_def file_entry_example_def str_def)
  have t: "take 4 ?img = map of_nat [0..<4]" by (simp add: take_map del: upt_rec_numeral)
  moreover have "hd (map of_nat [0..<4] :: u8 list) = 0" by (simp add: hd_map)
  ultimately have "take 4 ?img \<noteq> 0x7f # str ''ELF''" by (auto simp: str_def)
  with ExecuteFile_refuses [of machine_example "(2, 0)" file_entry_example "[3, 4]" ?img A 1 "str ''memo.txt''" None]
    file_volume_example_ok n paging_example_ok(1) show "ExecuteFile A 1 (2, 0) (str ''memo.txt'') None machine_example = Some (machine_example, 0, kInvalidFile)"
    unfolding e by simp
qed

end
