(* ===== verification/App_Rpn.thy ===== *)
theory App_Rpn imports Shell begin

text \<open>
  The calculators of \<^verbatim>\<open>apps/rpn\<close> and \<^verbatim>\<open>apps/rpnnolib\<close>: the same program on a stack of 100 numbers, the first
  with the C library's \<^verbatim>\<open>atol\<close> and \<^verbatim>\<open>strcmp\<close>, the second with its own.

  A \<^verbatim>\<open>long\<close> is an integer; an overflow, and an index outside the stack, is undefined (\<open>None\<close>).
\<close>

section \<open>The stack\<close>

definition as_long :: "int \<Rightarrow> int option" where
  "as_long x = (if - (2 ^ 63) \<le> x \<and> x < 2 ^ 63 then Some x else None)"

definition as_int :: "int \<Rightarrow> int" where
  "as_int x = sint (of_int x :: 32 word)"

record calculator =
  stack_ptr :: int
  stack :: "int list"

definition Pop :: "calculator \<Rightarrow> (calculator \<times> int) option" where
  "Pop c = (if 0 \<le> stack_ptr c
     then map_option (Pair (c\<lparr>stack_ptr := stack_ptr c - 1\<rparr>)) (arr_get (stack c) (nat (stack_ptr c))) else None)"

definition Push :: "int \<Rightarrow> calculator \<Rightarrow> calculator option" where
  "Push value c = (let c = c\<lparr>stack_ptr := stack_ptr c + 1\<rparr> in
     if 0 \<le> stack_ptr c
     then map_option (\<lambda>xs. c\<lparr>stack := xs\<rparr>) (arr_set (stack c) (nat (stack_ptr c)) value) else None)"

definition operate :: "(int \<Rightarrow> int \<Rightarrow> int) \<Rightarrow> calculator \<Rightarrow> calculator option" where
  "operate f c = do {
     (c, b) \<leftarrow> Pop c;
     (c, a) \<leftarrow> Pop c;
     r \<leftarrow> as_long (f a b);
     Push r c }"

section \<open>Numbers and strings\<close>

definition isdigit :: "u8 \<Rightarrow> bool" where
  "isdigit c \<longleftrightarrow> 0x30 \<le> c \<and> c \<le> 0x39"

definition digits_value :: "cstr \<Rightarrow> int" where
  "digits_value s = foldl (\<lambda>v c. 10 * v + (int (unat c) - 48)) 0 s"

text \<open>\<^verbatim>\<open>atol\<close> of the C library; a number that is not a \<^verbatim>\<open>long\<close> is undefined.\<close>

definition atol :: "cstr \<Rightarrow> int option" where
  "atol w = (let s = dropWhile isspace w in
     case s of
       [] \<Rightarrow> Some 0
     | c # s' \<Rightarrow>
         if c = 0x2d then as_long (- digits_value (takeWhile isdigit s'))
         else as_long (digits_value (takeWhile isdigit (if c = 0x2b then s' else s))))"

text \<open>The two functions of \<^verbatim>\<open>rpnnolib\<close>; a \<^verbatim>\<open>char\<close> is signed.\<close>

fun nolib_strcmp :: "cstr \<Rightarrow> cstr \<Rightarrow> int" where
  "nolib_strcmp (a # s) (b # t) = (if a \<noteq> b then sint a - sint b else nolib_strcmp s t)"
| "nolib_strcmp (a # s) [] = sint a"
| "nolib_strcmp [] (b # t) = - sint b"
| "nolib_strcmp [] [] = 0"

fun atol_loop :: "int \<Rightarrow> cstr \<Rightarrow> int option" where
  "atol_loop v [] = Some v"
| "atol_loop v (c # s) = do {
     v10 \<leftarrow> as_long (v * 10);
     v \<leftarrow> as_long (v10 + (sint c - 0x30));
     atol_loop v s }"

definition nolib_atol :: "cstr \<Rightarrow> int option" where
  "nolib_atol s = atol_loop 0 s"

section \<open>The programs\<close>

text \<open>One argument; \<open>eq\<close> is the comparison of strings, \<open>num\<close> reads a number.\<close>

definition rpn_step :: "(cstr \<Rightarrow> cstr \<Rightarrow> bool) \<Rightarrow> (cstr \<Rightarrow> int option) \<Rightarrow> cstr \<Rightarrow> calculator \<Rightarrow> calculator option" where
  "rpn_step eq num w c =
     (if eq w (str ''+'') then operate (+) c
      else if eq w (str ''-'') then operate (-) c
      else do { a \<leftarrow> num w; Push a c })"

fun rpn_words :: "(cstr \<Rightarrow> cstr \<Rightarrow> bool) \<Rightarrow> (cstr \<Rightarrow> int option) \<Rightarrow> cstr list \<Rightarrow> calculator \<Rightarrow> calculator option" where
  "rpn_words eq num [] c = Some c"
| "rpn_words eq num (w # ws) c = do { c \<leftarrow> rpn_step eq num w c; rpn_words eq num ws c }"

definition calculator_init :: calculator where
  "calculator_init = \<lparr>stack_ptr = - 1, stack = replicate 100 0\<rparr>"

definition rpn_result :: "(cstr \<Rightarrow> cstr \<Rightarrow> bool) \<Rightarrow> (cstr \<Rightarrow> int option) \<Rightarrow> cstr list \<Rightarrow> int option" where
  "rpn_result eq num ws = do {
     c \<leftarrow> rpn_words eq num ws calculator_init;
     if 0 \<le> stack_ptr c then map_option snd (Pop c) else Some 0 }"

text \<open>What is printed, and the exit code; \<open>ws\<close> are the arguments after the name of the program.\<close>

definition rpn_main :: "cstr list \<Rightarrow> (cstr \<times> int) option" where
  "rpn_main ws = do {
     result \<leftarrow> rpn_result (=) atol ws;
     Some (dec_int result @ [newline], as_int result) }"

definition rpnnolib_main :: "cstr list \<Rightarrow> int option" where
  "rpnnolib_main ws = map_option as_int (rpn_result (\<lambda>a b. nolib_strcmp a b = 0) nolib_atol ws)"

section \<open>Numbers are read as they are printed\<close>

lemma unat_digit: "d < 10 \<Longrightarrow> unat (of_nat (48 + d) :: u8) = 48 + d"
  by (simp add: unsigned_of_nat take_bit_nat_eq_self del: of_nat_add)

lemma uint_digit: "d < 10 \<Longrightarrow> uint (of_nat (48 + d) :: u8) = 48 + int d"
  using unat_digit [of d] by (simp add: uint_nat del: of_nat_add flip: int_eq_iff_numeral)

lemma isdigit_of_nat: "d < 10 \<Longrightarrow> isdigit (of_nat (48 + d))"
  by (simp add: isdigit_def word_le_nat_alt unat_digit del: of_nat_add)

lemma dec_digits: "\<forall>c \<in> set (dec n). isdigit c"
  by (induction n rule: dec.induct) (subst dec.simps, auto intro: isdigit_of_nat simp del: of_nat_add)

lemma dec_nonempty: "dec n \<noteq> []"
  by (subst dec.simps) simp

lemma digits_value_dec: "digits_value (dec n) = int n"
proof (induction n rule: dec.induct)
  case (1 n)
  show ?case
  proof (cases "n < 10")
    case True
    then show ?thesis by (simp add: dec.simps [of n] digits_value_def uint_digit del: of_nat_add)
  next
    case False
    with 1 have "digits_value (dec (n div 10)) = int (n div 10)" by simp
    then have "digits_value (dec n) = 10 * int (n div 10) + int (n mod 10)"
      using False by (simp add: dec.simps [of n] digits_value_def uint_digit del: of_nat_add)
    also have "\<dots> = int n" by presburger
    finally show ?thesis .
  qed
qed

lemma digit_not_space: "isdigit c \<Longrightarrow> \<not> isspace c \<and> c \<noteq> 0x2d \<and> c \<noteq> 0x2b"
  by (auto simp: isdigit_def isspace_def word_le_nat_alt)

lemma takeWhile_dec: "takeWhile isdigit (dec n) = dec n"
  using dec_digits by (simp add: takeWhile_eq_all_conv)

lemma atol_dec_int: "as_long n = Some n \<Longrightarrow> atol (dec_int n) = Some n"
proof (cases "n < 0")
  case True
  assume "as_long n = Some n"
  moreover have "digits_value (dec (nat (- n))) = - n" using True by (simp add: digits_value_dec)
  ultimately show ?thesis using True
    by (simp add: atol_def dec_int_def str_def isspace_def takeWhile_dec)
next
  case False
  assume n: "as_long n = Some n"
  obtain c s where cs: "dec (nat n) = c # s" using dec_nonempty by (cases "dec (nat n)") auto
  then have "isdigit c" using dec_digits [of "nat n"] by simp
  note c = digit_not_space [OF this]
  have "takeWhile isdigit (c # s) = dec (nat n)" using takeWhile_dec cs by metis
  moreover have "digits_value (dec (nat n)) = n" using False by (simp add: digits_value_dec)
  ultimately show ?thesis using False c n by (simp add: atol_def dec_int_def cs)
qed


section \<open>The calculator evaluates expressions\<close>

datatype expr = Num int | Plus expr expr | Minus expr expr

fun eval :: "expr \<Rightarrow> int option" where
  "eval (Num n) = as_long n"
| "eval (Plus a b) = do { x \<leftarrow> eval a; y \<leftarrow> eval b; as_long (x + y) }"
| "eval (Minus a b) = do { x \<leftarrow> eval a; y \<leftarrow> eval b; as_long (x - y) }"

fun postfix :: "expr \<Rightarrow> cstr list" where
  "postfix (Num n) = [dec_int n]"
| "postfix (Plus a b) = postfix a @ postfix b @ [str ''+'']"
| "postfix (Minus a b) = postfix a @ postfix b @ [str ''-'']"

fun depth :: "expr \<Rightarrow> nat" where
  "depth (Num n) = 1"
| "depth (Plus a b) = max (depth a) (depth b + 1)"
| "depth (Minus a b) = max (depth a) (depth b + 1)"

fun numbers :: "expr \<Rightarrow> int set" where
  "numbers (Num n) = {n}"
| "numbers (Plus a b) = numbers a \<union> numbers b"
| "numbers (Minus a b) = numbers a \<union> numbers b"

definition holds :: "int list \<Rightarrow> calculator \<Rightarrow> bool" where
  "holds vs c \<longleftrightarrow> stack_ptr c = int (length vs) - 1 \<and> length (stack c) = 100 \<and> take (length vs) (stack c) = vs
     \<and> length vs \<le> 100"

lemma Push_holds: "holds vs c \<Longrightarrow> length vs < 100 \<Longrightarrow> \<exists>c'. Push v c = Some c' \<and> holds (vs @ [v]) c'"
  by (auto simp: holds_def Push_def Let_def arr_set_def take_Suc_conv_app_nth)

lemma Pop_holds: "holds (vs @ [v]) c \<Longrightarrow> \<exists>c'. Pop c = Some (c', v) \<and> holds vs c'"
proof -
  assume h: "holds (vs @ [v]) c"
  then have t: "take (Suc (length vs)) (stack c) = vs @ [v]" "length vs < length (stack c)" by (simp_all add: holds_def)
  then have "take (length vs) (stack c) @ [stack c ! length vs] = vs @ [v]" by (simp add: take_Suc_conv_app_nth)
  then have "take (length vs) (stack c) = vs" "stack c ! length vs = v" by auto
  with h t(2) show ?thesis by (simp add: holds_def Pop_def arr_get_def)
qed

lemma operate_holds:
  assumes "holds (vs @ [x, y]) c" and "as_long (f x y) = Some r"
  shows "\<exists>c'. operate f c = Some c' \<and> holds (vs @ [r]) c'"
proof -
  from assms(1) Pop_holds [of "vs @ [x]" y c] obtain c1 where c1: "Pop c = Some (c1, y)" "holds (vs @ [x]) c1" by auto
  from Pop_holds [OF this(2)] obtain c2 where c2: "Pop c1 = Some (c2, x)" "holds vs c2" by blast
  have "length vs < 100" using assms(1) by (simp add: holds_def)
  from Push_holds [OF c2(2) this, of r] c1 c2 assms(2) show ?thesis by (auto simp: operate_def)
qed

lemma rpn_words_append: "rpn_words eq num (ws @ ws') c = Option.bind (rpn_words eq num ws c) (rpn_words eq num ws')"
  by (induction ws arbitrary: c) (auto split: bind_splits)

text \<open>A comparison of strings that tells the operators from the numbers, and a reader of these numbers.\<close>

definition reads :: "(cstr \<Rightarrow> cstr \<Rightarrow> bool) \<Rightarrow> (cstr \<Rightarrow> int option) \<Rightarrow> int set \<Rightarrow> bool" where
  "reads eq num ns \<longleftrightarrow> eq (str ''+'') (str ''+'') \<and> \<not> eq (str ''-'') (str ''+'') \<and> eq (str ''-'') (str ''-'')
     \<and> (\<forall>n \<in> ns. as_long n = Some n \<longrightarrow> \<not> eq (dec_int n) (str ''+'') \<and> \<not> eq (dec_int n) (str ''-'') \<and> num (dec_int n) = Some n)"

lemma as_long_Some: "as_long n = Some v \<Longrightarrow> v = n"
  by (simp add: as_long_def split: if_splits)

lemma rpn_words_postfix:
  "reads eq num (numbers e) \<Longrightarrow> eval e = Some v \<Longrightarrow> holds vs c \<Longrightarrow> length vs + depth e \<le> 100 \<Longrightarrow>
     \<exists>c'. rpn_words eq num (postfix e) c = Some c' \<and> holds (vs @ [v]) c'"
proof (induction e arbitrary: v vs c)
  case (Num n)
  then have "as_long n = Some n" "v = n" using as_long_Some by auto
  with Num Push_holds [OF Num.prems(3), of n] show ?case by (auto simp: reads_def rpn_step_def)
next
  case (Plus a b)
  from Plus.prems(2) obtain x y where xy: "eval a = Some x" "eval b = Some y" "as_long (x + y) = Some v"
    by (auto split: bind_splits)
  have r: "reads eq num (numbers a)" "reads eq num (numbers b)" using Plus.prems(1) by (auto simp: reads_def)
  have l: "length vs + depth a \<le> 100" "length (vs @ [x]) + depth b \<le> 100" using Plus.prems(4) by simp_all
  obtain c1 where c1: "rpn_words eq num (postfix a) c = Some c1" "holds (vs @ [x]) c1"
    using Plus.IH(1) [OF r(1) xy(1) Plus.prems(3) l(1)] by blast
  obtain c2 where c2: "rpn_words eq num (postfix b) c1 = Some c2" "holds (vs @ [x] @ [y]) c2"
    using Plus.IH(2) [OF r(2) xy(2) c1(2) l(2)] by auto
  from operate_holds [of vs x y c2 "(+)" v] c2(2) xy(3) obtain c3 where
    "operate (+) c2 = Some c3" "holds (vs @ [v]) c3" by auto
  with c1(1) c2(1) r(1) show ?case by (auto simp: rpn_words_append rpn_step_def reads_def)
next
  case (Minus a b)
  from Minus.prems(2) obtain x y where xy: "eval a = Some x" "eval b = Some y" "as_long (x - y) = Some v"
    by (auto split: bind_splits)
  have r: "reads eq num (numbers a)" "reads eq num (numbers b)" using Minus.prems(1) by (auto simp: reads_def)
  have l: "length vs + depth a \<le> 100" "length (vs @ [x]) + depth b \<le> 100" using Minus.prems(4) by simp_all
  obtain c1 where c1: "rpn_words eq num (postfix a) c = Some c1" "holds (vs @ [x]) c1"
    using Minus.IH(1) [OF r(1) xy(1) Minus.prems(3) l(1)] by blast
  obtain c2 where c2: "rpn_words eq num (postfix b) c1 = Some c2" "holds (vs @ [x] @ [y]) c2"
    using Minus.IH(2) [OF r(2) xy(2) c1(2) l(2)] by auto
  from operate_holds [of vs x y c2 "(-)" v] c2(2) xy(3) obtain c3 where
    "operate (-) c2 = Some c3" "holds (vs @ [v]) c3" by auto
  with c1(1) c2(1) r(1) show ?case by (auto simp: rpn_words_append rpn_step_def reads_def)
qed

lemma rpn_result_postfix:
  assumes "reads eq num (numbers e)" and "eval e = Some v" and "depth e \<le> 100"
  shows "rpn_result eq num (postfix e) = Some v"
proof -
  have "holds [] calculator_init" by (simp add: holds_def calculator_init_def)
  from rpn_words_postfix [OF assms(1,2) this] assms(3) obtain c where
    c: "rpn_words eq num (postfix e) calculator_init = Some c" "holds ([] @ [v]) c" by auto
  from Pop_holds [OF c(2)] c(2) obtain c' where "Pop c = Some (c', v)" "0 \<le> stack_ptr c" by (auto simp: holds_def)
  with c(1) show ?thesis by (simp add: rpn_result_def)
qed

text \<open>The comparison of \<^verbatim>\<open>rpnnolib\<close>, on strings without a zero byte, is equality.\<close>

lemma nolib_strcmp_0: "0 \<notin> set s \<Longrightarrow> 0 \<notin> set t \<Longrightarrow> nolib_strcmp s t = 0 \<longleftrightarrow> s = t"
  by (induction s t rule: nolib_strcmp.induct) (auto simp: signed_eq_0_iff dest: signed_word_eqI)

lemma sint_digit: "d < 10 \<Longrightarrow> sint (of_nat (48 + d) :: u8) = 48 + int d"
proof -
  assume "d < 10"
  then have "uint (of_nat (48 + d) :: u8) = 48 + int d" by (rule uint_digit)
  moreover have "uint (of_nat (48 + d) :: u8) < 2 ^ 7" using calculation \<open>d < 10\<close> by simp
  ultimately show ?thesis by (simp add: sint_uint signed_take_bit_eq_take_bit_minus take_bit_int_eq_self bit_iff_odd
        del: of_nat_add)
qed

lemma atol_loop_append: "atol_loop v (s @ t) = Option.bind (atol_loop v s) (\<lambda>v. atol_loop v t)"
  by (induction s arbitrary: v) (auto split: bind_splits)

lemma as_long_le: "0 \<le> x \<Longrightarrow> x \<le> n \<Longrightarrow> as_long n = Some m \<Longrightarrow> as_long x = Some x"
  by (auto simp: as_long_def split: if_splits)

lemma nolib_atol_dec: "as_long (int n) = Some m \<Longrightarrow> nolib_atol (dec n) = Some (int n)"
proof (induction n arbitrary: m rule: dec.induct)
  case (1 n)
  show ?case
  proof (cases "n < 10")
    case True
    then have "as_long (int n) = Some (int n)" by (simp add: as_long_def)
    moreover have "as_long 0 = Some 0" by (simp add: as_long_def)
    ultimately show ?thesis
      using True by (simp add: nolib_atol_def dec.simps [of n] sint_digit del: of_nat_add)
  next
    case False
    have "as_long (int (n div 10)) = Some (int (n div 10))"
      by (rule as_long_le [OF _ _ "1.prems"]) simp_all
    with 1 False have "nolib_atol (dec (n div 10)) = Some (int (n div 10))" by simp
    moreover have "as_long (int (n div 10) * 10) = Some (int (n div 10) * 10)"
      by (rule as_long_le [OF _ _ "1.prems"]) simp_all
    moreover have "as_long (int n) = Some (int n)" by (rule as_long_le [OF _ _ "1.prems"]) simp_all
    moreover have "int (n div 10) * 10 + int (n mod 10) = int n" by presburger
    ultimately show ?thesis
      using False by (simp add: nolib_atol_def dec.simps [of n] atol_loop_append sint_digit del: of_nat_add)
  qed
qed

lemma dec_plain: "0 \<notin> set (dec n)" "dec n \<noteq> str ''+''" "dec n \<noteq> str ''-''"
  using dec_digits [of n] by (auto simp: isdigit_def str_def word_le_nat_alt)

text \<open>
  C37: the calculators evaluate expressions.  The arguments of an expression in postfix order, its numbers
  as they are printed, make \<^verbatim>\<open>rpn\<close> print the value of the expression and exit with its low 32 bits, as long
  as no number on the way leaves the type \<^verbatim>\<open>long\<close> and at most 100 of them are on the stack at once.
  \<^verbatim>\<open>rpnnolib\<close>, with its own reading of numbers and comparison of strings, returns the same when no number is
  negative.
\<close>

theorem rpn_evaluates:
  assumes "eval e = Some v" and "depth e \<le> 100"
  shows "rpn_main (postfix e) = Some (dec_int v @ [newline], as_int v)
    \<and> ((\<forall>n \<in> numbers e. 0 \<le> n) \<longrightarrow> rpnnolib_main (postfix e) = Some (as_int v))"
proof (intro conjI impI)
  have ne: "dec_int n \<noteq> str ''+''" "dec_int n \<noteq> str ''-''" for n
    using dec_plain(2,3) [of "nat n"] dec_nonempty [of "nat (- n)"] by (auto simp: dec_int_def str_def)
  have "reads (=) atol (numbers e)"
    using ne atol_dec_int by (auto simp: reads_def str_def)
  from rpn_result_postfix [OF this assms] show "rpn_main (postfix e) = Some (dec_int v @ [newline], as_int v)"
    by (simp add: rpn_main_def)
next
  assume n: "\<forall>n \<in> numbers e. 0 \<le> n"
  have z: "0 \<notin> set (str ''+'')" "0 \<notin> set (str ''-'')" by (simp_all add: str_def)
  have d: "dec_int m = dec (nat m)" if "m \<in> numbers e" for m using n that by (force simp: dec_int_def)
  have "reads (\<lambda>a b. nolib_strcmp a b = 0) nolib_atol (numbers e)"
    unfolding reads_def
  proof (intro conjI ballI impI)
    fix m assume m: "m \<in> numbers e" "as_long m = Some m"
    then have "nolib_atol (dec (nat m)) = Some (int (nat m))" using n by (intro nolib_atol_dec [of _ m]) simp
    then show "nolib_atol (dec_int m) = Some m" using m n by (simp add: d)
    show "nolib_strcmp (dec_int m) (str ''+'') \<noteq> 0" "nolib_strcmp (dec_int m) (str ''-'') \<noteq> 0"
      using m(1) z dec_plain [of "nat m"] by (simp_all add: d nolib_strcmp_0)
  qed (simp_all add: nolib_strcmp_0 [OF z(1) z(1)] nolib_strcmp_0 [OF z(2) z(1)] nolib_strcmp_0 [OF z(2) z(2)] str_def)
  from rpn_result_postfix [OF this assms] show "rpnnolib_main (postfix e) = Some (as_int v)"
    by (simp add: rpnnolib_main_def)
qed


text \<open>7 - (2 + 3).\<close>

theorem rpn_evaluates_witness:
  "rpn_main (postfix (Minus (Num 7) (Plus (Num 2) (Num 3)))) = Some (dec_int 2 @ [newline], as_int 2)
   \<and> rpnnolib_main (postfix (Minus (Num 7) (Plus (Num 2) (Num 3)))) = Some (as_int 2)"
  using rpn_evaluates [of "Minus (Num 7) (Plus (Num 2) (Num 3))" 2] by (simp add: as_long_def)

end
