(* ===== verification/App_Blocks.thy ===== *)
theory App_Blocks imports Complex_Main Syscall "HOL-Library.Signed_Division" begin

text \<open>
  The game of \<^verbatim>\<open>apps/blocks/blocks.cpp\<close>: a ball, a bar and fifty blocks.

  \<open>speed d\<close> is the movement of the ball in one frame in the direction of \<open>d\<close> degrees, which the program
  computes with floating point numbers; a frame draws a list of rectangles and then takes events
  until its timer.
\<close>

section \<open>Constants and state\<close>

definition kNumBlocksX :: nat where "kNumBlocksX = 10"
definition kNumBlocksY :: nat where "kNumBlocksY = 5"
definition kBlockWidth :: int where "kBlockWidth = 20"
definition kBlockHeight :: int where "kBlockHeight = 10"
definition kBarWidth :: int where "kBarWidth = 60"
definition kBarHeight :: int where "kBarHeight = 5"
definition kBallRadius :: int where "kBallRadius = 5"
definition kGapWidth :: int where "kGapWidth = 30"
definition kGapHeight :: int where "kGapHeight = 30"
definition kGapBar :: int where "kGapBar = 80"
definition kBarFloat :: int where "kBarFloat = 10"
definition kCanvasWidth :: int where "kCanvasWidth = int kNumBlocksX * kBlockWidth + 2 * kGapWidth"
definition kCanvasHeight :: int where
  "kCanvasHeight = kGapHeight + int kNumBlocksY * kBlockHeight + kGapBar + kBarHeight + kBarFloat"
definition kBarY :: int where "kBarY = kCanvasHeight - kBarFloat - kBarHeight"
definition kFrameRate :: int where "kFrameRate = 60"
definition kBarSpeed :: int where "kBarSpeed = kCanvasWidth sdiv 2"
definition kBallSpeed :: int where "kBallSpeed = kBarSpeed"
definition kWindowTitleHeight :: int where "kWindowTitleHeight = 25"
definition kWindowMargin :: int where "kWindowMargin = 2"
definition kBallX :: int where "kBallX = kCanvasWidth sdiv 2 - kBallRadius - 20"
definition kBallY :: int where "kBallY = kCanvasHeight - kBarFloat - kBarHeight - kBallRadius - 20"

record game =
  blocks :: "bool list list"
  bar_x :: int
  ball_x :: int
  ball_y :: int
  move_dir :: int
  left_pressing :: bool
  right_pressing :: bool
  ball_dir :: int
  ball_dx :: int
  ball_dy :: int

definition game_init :: game where
  "game_init = \<lparr>blocks = replicate kNumBlocksY (replicate kNumBlocksX True),
     bar_x = kCanvasWidth sdiv 2 - kBarWidth sdiv 2, ball_x = kBallX, ball_y = kBallY, move_dir = 0,
     left_pressing = False, right_pressing = False, ball_dir = 0, ball_dx = 0, ball_dy = 0\<rparr>"

section \<open>Drawing\<close>

text \<open>A call of \<^verbatim>\<open>SyscallWinFillRectangle\<close>: position, size and colour, in coordinates of the window.\<close>

type_synonym rectangle = "int \<times> int \<times> int \<times> int \<times> u32"

definition draw_block :: "bool list list \<Rightarrow> nat \<Rightarrow> nat \<Rightarrow> rectangle list" where
  "draw_block bs row col =
     (let y = kWindowTitleHeight + kWindowMargin + kGapHeight + int row * kBlockHeight;
          color = push_bit ((row mod 3) * 8) 0xff;
          x = kWindowMargin + kGapWidth + int col * kBlockWidth;
          c = color OR push_bit (((col + row) mod 3) * 8) 0xff
      in if bs ! row ! col then [(x, y, kBlockWidth, kBlockHeight, c)] else [])"

definition DrawBlocks :: "bool list list \<Rightarrow> rectangle list" where
  "DrawBlocks bs = concat (map (\<lambda>r. concat (map (draw_block bs r) [0..<kNumBlocksX])) [0..<kNumBlocksY])"

definition DrawBar :: "int \<Rightarrow> rectangle list" where
  "DrawBar x = [(kWindowMargin + x, kWindowTitleHeight + kWindowMargin + kBarY, kBarWidth, kBarHeight, 0xffffff)]"

definition DrawBall :: "int \<Rightarrow> int \<Rightarrow> rectangle list" where
  "DrawBall x y =
     [(kWindowMargin + x - kBallRadius, kWindowTitleHeight + kWindowMargin + y - kBallRadius, 2 * kBallRadius, 2 * kBallRadius, 0x007f00),
      (kWindowMargin + x - kBallRadius sdiv 2, kWindowTitleHeight + kWindowMargin + y - kBallRadius sdiv 2, kBallRadius, kBallRadius, 0x00ff00)]"

definition draw_frame :: "game \<Rightarrow> rectangle list" where
  "draw_frame g =
     (kWindowMargin, kWindowTitleHeight + kWindowMargin, kCanvasWidth, kCanvasHeight, 0)
       # DrawBlocks (blocks g) @ DrawBar (bar_x g) @ (if 0 \<le> ball_y g then DrawBall (ball_x g) (ball_y g) else [])"

section \<open>One frame\<close>

definition LimitRange :: "int \<Rightarrow> int \<Rightarrow> int \<Rightarrow> int" where
  "LimitRange x mn mx = (if x < mn then mn else if mx < x then mx else x)"

definition start_frame :: "(int \<Rightarrow> int \<times> int) \<Rightarrow> game \<Rightarrow> game" where
  "start_frame speed g =
     (if ball_dir g \<noteq> 0
      then case speed (ball_dir g) of (dx, dy) \<Rightarrow>
        g\<lparr>ball_dx := dx, ball_dy := dy, ball_x := ball_x g + dx, ball_y := ball_y g + dy\<rparr>
      else g)"

definition key_release :: "u8 \<Rightarrow> game \<Rightarrow> game" where
  "key_release code g =
     (let g = (if code = 79 then g\<lparr>right_pressing := False, move_dir := 1\<rparr>
               else if code = 80 then g\<lparr>left_pressing := False, move_dir := - 1\<rparr> else g)
      in if left_pressing g then g\<lparr>move_dir := - 1\<rparr>
         else if right_pressing g then g\<lparr>move_dir := 1\<rparr>
         else g\<lparr>move_dir := 0\<rparr>)"

definition key_press :: "u8 \<Rightarrow> game \<Rightarrow> game" where
  "key_press code g =
     (let g = (if code = 79 then g\<lparr>right_pressing := True, move_dir := 1\<rparr>
               else if code = 80 then g\<lparr>left_pressing := True, move_dir := - 1\<rparr>
               else if code = 44 then
                 (if ball_dir g = 0 \<and> ball_y g < 0 then g\<lparr>ball_x := kBallX, ball_y := kBallY\<rparr>
                  else if ball_dir g = 0 then g\<lparr>ball_dir := 45\<rparr> else g)
               else g)
      in if bar_x g = 0 \<and> move_dir g < 0 then g\<lparr>move_dir := 0\<rparr>
         else if bar_x g + kBarWidth = kCanvasWidth - 1 \<and> 0 < move_dir g then g\<lparr>move_dir := 0\<rparr>
         else g)"

text \<open>The events up to the one of the timer: whether the game goes on, the game, and the events that are left.\<close>

fun take_events :: "AppEvent list \<Rightarrow> game \<Rightarrow> (bool \<times> game \<times> AppEvent list) option" where
  "take_events [] g = None"
| "take_events (EvTimerTimeout t v # es) g = Some (True, g, es)"
| "take_events (EvQuit # es) g = Some (False, g, es)"
| "take_events (EvKeyPush m code c pressed # es) g =
     take_events es (if pressed then key_press code g else key_release code g)"
| "take_events (EvMouseMove xy d b # es) g = take_events es g"
| "take_events (EvMouseButton xy p b # es) g = take_events es g"

text \<open>The ball has reached block \<open>(index_y, index_x)\<close>.\<close>

definition hit_block :: "nat \<Rightarrow> nat \<Rightarrow> int \<Rightarrow> int \<Rightarrow> game \<Rightarrow> game" where
  "hit_block index_y index_x nx ny g =
     (let g = g\<lparr>blocks := (blocks g)[index_y := (blocks g ! index_y)[index_x := False]]\<rparr>;
          block_left = kGapWidth + int index_x * kBlockWidth;
          block_right = kGapWidth + (int index_x + 1) * kBlockWidth;
          block_top = kGapHeight + int index_y * kBlockHeight;
          block_bottom = kGapHeight + (int index_y + 1) * kBlockHeight;
          g = (if (ball_x g < block_left \<and> block_left \<le> nx) \<or> (block_right < ball_x g \<and> nx \<le> block_right)
               then g\<lparr>ball_dir := 180 - ball_dir g\<rparr> else g)
      in if (ball_y g < block_top \<and> block_top \<le> ny) \<or> (block_bottom < ball_y g \<and> ny \<le> block_bottom)
         then g\<lparr>ball_dir := - ball_dir g\<rparr> else g)"

text \<open>What is at the place of the ball among the blocks; \<open>None\<close> for an index outside the arrays.\<close>

definition try_block :: "int \<Rightarrow> int \<Rightarrow> game \<Rightarrow> game option" where
  "try_block nx ny g =
     (let index_x = (nx - kGapWidth) sdiv kBlockWidth; index_y = (ny - kGapHeight) sdiv kBlockHeight in
      if index_x < 0 \<or> index_y < 0 then None
      else do {
        bits \<leftarrow> arr_get (blocks g) (nat index_y);
        b \<leftarrow> arr_get bits (nat index_x);
        Some (if b then hit_block (nat index_y) (nat index_x) nx ny g else g) })"

text \<open>Top, bar, bottom and blocks, after the walls.\<close>

definition bounce :: "int \<Rightarrow> int \<Rightarrow> game \<Rightarrow> game option" where
  "bounce nx ny g =
     (if ball_dy g < 0 \<and> ny < kBallRadius then Some (g\<lparr>ball_dir := - ball_dir g\<rparr>)
      else if bar_x g \<le> nx \<and> nx < bar_x g + kBarWidth \<and> 0 < ball_dy g \<and> kBarY - kBallRadius \<le> ny
      then Some (g\<lparr>ball_dir := - ball_dir g\<rparr>)
      else if 0 < ball_dy g \<and> kCanvasHeight - kBallRadius \<le> ny then Some (g\<lparr>ball_dir := 0, ball_y := - 1\<rparr>)
      else if nx < kGapWidth \<or> kCanvasWidth - kGapWidth \<le> nx \<or> ny < kGapHeight
        \<or> kGapHeight + int kNumBlocksY * kBlockHeight \<le> ny
      then Some g
      else try_block nx ny g)"

definition move_bar :: "game \<Rightarrow> game" where
  "move_bar g = g\<lparr>bar_x := LimitRange (bar_x g + (move_dir g * kBarSpeed) sdiv kFrameRate) 0 (kCanvasWidth - kBarWidth - 1)\<rparr>"

definition hits_wall :: "int \<Rightarrow> int \<Rightarrow> bool" where
  "hits_wall dx nx \<longleftrightarrow> (dx < 0 \<and> nx < kBallRadius) \<or> (0 < dx \<and> kCanvasWidth - kBallRadius \<le> nx)"

definition end_frame :: "game \<Rightarrow> game option" where
  "end_frame g =
     (let g = move_bar g in
      if ball_dir g = 0 then Some g
      else
        let nx = ball_x g + ball_dx g; ny = ball_y g + ball_dy g
        in bounce nx ny (if hits_wall (ball_dx g) nx then g\<lparr>ball_dir := 180 - ball_dir g\<rparr> else g))"

lemma take_events_shorter: "take_events es g = Some (r, g', es') \<Longrightarrow> length es' < length es"
  by (induction es g rule: take_events.induct) auto

text \<open>
  The main loop: the frames drawn while \<open>es\<close> are the events, and the game when it is quit or waits for
  an event; \<open>None\<close> is undefined behaviour.
\<close>

function play :: "(int \<Rightarrow> int \<times> int) \<Rightarrow> AppEvent list \<Rightarrow> game \<Rightarrow> (rectangle list list \<times> game) option" where
  "play speed es g =
     (let g = start_frame speed g in
      case take_events es g of
        None \<Rightarrow> Some ([draw_frame g], g)
      | Some (goes_on, g', es') \<Rightarrow>
          if \<not> goes_on then Some ([draw_frame g], g')
          else case end_frame g' of
                 None \<Rightarrow> None
               | Some g' \<Rightarrow> map_option (\<lambda>(fs, g'). (draw_frame g # fs, g')) (play speed es' g'))"
  by pat_completeness auto

termination by (relation "measure (\<lambda>(speed, es, g). length es)") (auto dest: take_events_shorter)

declare play.simps [simp del]


section \<open>Invariants\<close>

lemmas nums = kNumBlocksX_def kNumBlocksY_def kBlockWidth_def kBlockHeight_def kBarWidth_def kBarHeight_def kBallRadius_def
  kGapWidth_def kGapHeight_def kGapBar_def kBarFloat_def kCanvasWidth_def kCanvasHeight_def kBarY_def kFrameRate_def
  kBarSpeed_def kWindowTitleHeight_def kWindowMargin_def kBallX_def kBallY_def signed_divide_int_def

text \<open>Two pixels a frame in each direction, for the four diagonals.\<close>

definition diagonal :: "int \<Rightarrow> bool" where
  "diagonal d \<longleftrightarrow> d mod 360 \<in> {45, 135, 225, 315}"

definition step_of :: "int \<Rightarrow> int \<times> int" where
  "step_of d = (if d mod 360 \<in> {45, 315} then 2 else - 2, if d mod 360 \<in> {45, 135} then 2 else - 2)"

definition speed_ok :: "(int \<Rightarrow> int \<times> int) \<Rightarrow> bool" where
  "speed_ok speed \<longleftrightarrow> (\<forall>d. diagonal d \<longrightarrow> speed d = step_of d)"

text \<open>A reflection turns one component round.\<close>

lemma reflections:
  fixes d :: int
  shows "d mod 360 = 45 \<Longrightarrow> (180 - d) mod 360 = 135 \<and> (- d) mod 360 = 315"
    and "d mod 360 = 135 \<Longrightarrow> (180 - d) mod 360 = 45 \<and> (- d) mod 360 = 225"
    and "d mod 360 = 225 \<Longrightarrow> (180 - d) mod 360 = 315 \<and> (- d) mod 360 = 135"
    and "d mod 360 = 315 \<Longrightarrow> (180 - d) mod 360 = 225 \<and> (- d) mod 360 = 45"
  by (subst mod_diff_right_eq [symmetric], subst mod_minus_eq [symmetric], simp)+

lemma reflect_x: "diagonal d \<Longrightarrow> diagonal (180 - d) \<and> step_of (180 - d) = (- fst (step_of d), snd (step_of d))"
  using reflections [of d] by (auto simp: diagonal_def step_of_def)

lemma reflect_y: "diagonal d \<Longrightarrow> diagonal (- d) \<and> step_of (- d) = (fst (step_of d), - snd (step_of d))"
  using reflections [of d] by (auto simp: diagonal_def step_of_def)

lemma step_of_cases: "fst (step_of d) = 2 \<or> fst (step_of d) = - 2" "snd (step_of d) = 2 \<or> snd (step_of d) = - 2"
  by (simp_all add: step_of_def)

lemma diagonal_nonzero: "diagonal d \<Longrightarrow> d \<noteq> 0"
  by (auto simp: diagonal_def)

definition board_ok :: "game \<Rightarrow> bool" where
  "board_ok g \<longleftrightarrow> length (blocks g) = kNumBlocksY \<and> (\<forall>bs \<in> set (blocks g). length bs = kNumBlocksX)
     \<and> 0 \<le> bar_x g \<and> bar_x g \<le> kCanvasWidth - kBarWidth - 1 \<and> move_dir g \<in> {- 1, 0, 1}
     \<and> ball_dx g \<in> {- 2, 0, 2} \<and> ball_dy g \<in> {- 2, 0, 2}"

definition in_canvas :: "int \<Rightarrow> int \<Rightarrow> bool" where
  "in_canvas x y \<longleftrightarrow> kBallRadius \<le> x \<and> x < kCanvasWidth - kBallRadius \<and> kBallRadius \<le> y \<and> y < kCanvasHeight - kBallRadius"

text \<open>The ball rests at its start or has fallen.\<close>

definition at_rest :: "game \<Rightarrow> bool" where
  "at_rest g \<longleftrightarrow> ball_dir g = 0 \<and> (ball_x g = kBallX \<and> ball_y g = kBallY \<or> ball_y g = - 1)"

definition game_ok :: "game \<Rightarrow> bool" where
  "game_ok g \<longleftrightarrow> board_ok g \<and> (at_rest g \<or> diagonal (ball_dir g)
     \<and> in_canvas (ball_x g + fst (step_of (ball_dir g))) (ball_y g + snd (step_of (ball_dir g))))"

definition flying :: "game \<Rightarrow> bool" where
  "flying g \<longleftrightarrow> diagonal (ball_dir g) \<and> (ball_dx g, ball_dy g) = step_of (ball_dir g) \<and> in_canvas (ball_x g) (ball_y g)"

text \<open>Within a frame: flying, at rest, or just started.\<close>

definition frame_ok :: "game \<Rightarrow> bool" where
  "frame_ok g \<longleftrightarrow> board_ok g \<and> (at_rest g \<or> flying g \<or> ball_dir g = 45 \<and> ball_x g = kBallX \<and> ball_y g = kBallY)"

lemma game_init_ok: "game_ok game_init"
  by (simp add: game_ok_def board_ok_def at_rest_def game_init_def nums)

lemma start_frame_ok:
  assumes "speed_ok speed" and "game_ok g"
  shows "frame_ok (start_frame speed g)"
proof (cases "at_rest g")
  case True
  then have "start_frame speed g = g" by (simp add: start_frame_def at_rest_def)
  with True assms(2) show ?thesis by (simp add: frame_ok_def game_ok_def)
next
  case False
  then have d: "diagonal (ball_dir g)" and b: "board_ok g"
    and c: "in_canvas (ball_x g + fst (step_of (ball_dir g))) (ball_y g + snd (step_of (ball_dir g)))"
    using assms(2) by (auto simp: game_ok_def)
  obtain dx dy where s: "step_of (ball_dir g) = (dx, dy)" by fastforce
  then have "start_frame speed g = g\<lparr>ball_dx := dx, ball_dy := dy, ball_x := ball_x g + dx, ball_y := ball_y g + dy\<rparr>"
    using assms(1) d diagonal_nonzero by (simp add: start_frame_def speed_ok_def)
  moreover have "dx \<in> {- 2, 0, 2}" "dy \<in> {- 2, 0, 2}" using step_of_cases [of "ball_dir g"] s by auto
  ultimately show ?thesis using b c d s by (simp add: frame_ok_def board_ok_def flying_def)
qed

lemma frame_ok_update [simp]:
  "frame_ok (g\<lparr>left_pressing := b\<rparr>) = frame_ok g" "frame_ok (g\<lparr>right_pressing := b\<rparr>) = frame_ok g"
  by (simp_all add: frame_ok_def board_ok_def at_rest_def flying_def)

lemma frame_ok_move: "frame_ok g \<Longrightarrow> m \<in> {- 1, 0, 1} \<Longrightarrow> frame_ok (g\<lparr>move_dir := m\<rparr>)"
  by (simp add: frame_ok_def board_ok_def at_rest_def flying_def)

lemma frame_ok_start:
  "frame_ok g \<Longrightarrow> ball_dir g = 0 \<Longrightarrow> frame_ok (g\<lparr>ball_x := kBallX, ball_y := kBallY\<rparr>)"
  "frame_ok g \<Longrightarrow> ball_dir g = 0 \<Longrightarrow> 0 \<le> ball_y g \<Longrightarrow> frame_ok (g\<lparr>ball_dir := 45\<rparr>)"
  using diagonal_nonzero [of 0] by (auto simp: frame_ok_def board_ok_def at_rest_def flying_def)

lemma key_release_ok: "frame_ok g \<Longrightarrow> frame_ok (key_release code g)"
  by (simp add: key_release_def Let_def frame_ok_move)

lemma key_press_ok: "frame_ok g \<Longrightarrow> frame_ok (key_press code g)"
  by (simp add: key_press_def Let_def frame_ok_move frame_ok_start)

lemma take_events_ok: "take_events es g = Some (r, g', es') \<Longrightarrow> frame_ok g \<Longrightarrow> frame_ok g'"
  by (induction es g rule: take_events.induct) (auto simp: key_press_ok key_release_ok split: if_splits)


lemma bar_limits: "0 \<le> LimitRange x 0 (kCanvasWidth - kBarWidth - 1)"
    "LimitRange x 0 (kCanvasWidth - kBarWidth - 1) \<le> kCanvasWidth - kBarWidth - 1"
    "LimitRange x 0 (kCanvasWidth - kBarWidth - 1) < kCanvasWidth - kBarWidth"
  by (simp_all add: LimitRange_def nums)

lemma sdiv_nonneg: "0 \<le> a \<Longrightarrow> 0 < b \<Longrightarrow> a sdiv b = a div (b :: int)"
  by (cases "a = 0") (simp_all add: signed_divide_int_def)

lemma board_ok_update:
  "board_ok g \<Longrightarrow> board_ok (g\<lparr>ball_dir := d\<rparr>)" "board_ok g \<Longrightarrow> board_ok (g\<lparr>ball_y := y\<rparr>)"
  "board_ok g \<Longrightarrow> board_ok (g\<lparr>bar_x := LimitRange x 0 (kCanvasWidth - kBarWidth - 1)\<rparr>)"
  by (simp_all add: board_ok_def bar_limits)

lemma board_ok_clear: "board_ok g \<Longrightarrow> r < length (blocks g) \<Longrightarrow> board_ok (g\<lparr>blocks := (blocks g)[r := (blocks g ! r)[c := False]]\<rparr>)"
  using set_update_subset_insert [of "blocks g" r "(blocks g ! r)[c := False]"] by (auto simp: board_ok_def)

text \<open>The direction after a block was hit.\<close>

lemma hit_block_dir:
  "\<exists>d. hit_block r c nx ny g = g\<lparr>blocks := (blocks g)[r := (blocks g ! r)[c := False]], ball_dir := d\<rparr>
     \<and> d \<in> {ball_dir g, 180 - ball_dir g, - ball_dir g, - (180 - ball_dir g)}"
proof -
  define P where "P \<longleftrightarrow> (ball_x g < kGapWidth + int c * kBlockWidth \<and> kGapWidth + int c * kBlockWidth \<le> nx)
    \<or> (kGapWidth + (int c + 1) * kBlockWidth < ball_x g \<and> nx \<le> kGapWidth + (int c + 1) * kBlockWidth)"
  define Q where "Q \<longleftrightarrow> (ball_y g < kGapHeight + int r * kBlockHeight \<and> kGapHeight + int r * kBlockHeight \<le> ny)
    \<or> (kGapHeight + (int r + 1) * kBlockHeight < ball_y g \<and> ny \<le> kGapHeight + (int r + 1) * kBlockHeight)"
  let ?g = "g\<lparr>blocks := (blocks g)[r := (blocks g ! r)[c := False]]\<rparr>"
  have "hit_block r c nx ny g = (let g = (if P then ?g\<lparr>ball_dir := 180 - ball_dir g\<rparr> else ?g) in
      if Q then g\<lparr>ball_dir := - ball_dir g\<rparr> else g)"
    unfolding hit_block_def Let_def P_def Q_def by simp
  moreover define d where "d = (if P then if Q then - (180 - ball_dir g) else 180 - ball_dir g
    else if Q then - ball_dir g else ball_dir g)"
  ultimately have "hit_block r c nx ny g = ?g\<lparr>ball_dir := d\<rparr>" by (cases g) (simp add: Let_def)
  moreover have "d \<in> {ball_dir g, 180 - ball_dir g, - ball_dir g, - (180 - ball_dir g)}" by (simp add: d_def)
  ultimately show ?thesis by blast
qed

lemma reflected:
  assumes "diagonal d" and "d' \<in> {d, 180 - d, - d, - (180 - d)}"
  shows "diagonal d'" "\<bar>fst (step_of d')\<bar> = 2" "\<bar>snd (step_of d')\<bar> = 2"
proof -
  have "diagonal (180 - d)" "diagonal (- d)" "diagonal (- (180 - d))" using assms(1) reflect_x reflect_y by blast+
  then show "diagonal d'" using assms by auto
  show "\<bar>fst (step_of d')\<bar> = 2" "\<bar>snd (step_of d')\<bar> = 2" using step_of_cases [of d'] by auto
qed

text \<open>Inside the area of the blocks: the indices are those of a block, and the ball is far from the walls.\<close>

lemma try_block_ok:
  assumes "board_ok g" and "diagonal (ball_dir g)" and "nx = ball_x g + dx" and "ny = ball_y g + dy"
    and "\<bar>dx\<bar> = 2" and "\<bar>dy\<bar> = 2" and "30 \<le> nx" and "nx < 230" and "30 \<le> ny" and "ny < 80"
  shows "\<exists>g'. try_block nx ny g = Some g' \<and> game_ok g'"
proof -
  let ?c = "nat ((nx - 30) div 20)" and ?r = "nat ((ny - 30) div 10)"
  have q: "(nx - kGapWidth) sdiv kBlockWidth = (nx - 30) div 20" "(ny - kGapHeight) sdiv kBlockHeight = (ny - 30) div 10"
    using assms(7,9) by (simp_all add: nums(1-15) sdiv_nonneg)
  have i: "0 \<le> (nx - 30) div 20" "0 \<le> (ny - 30) div 10" "?c < 10" "?r < 5" using assms(7-10) by auto
  have r: "?r < length (blocks g)" using i(4) assms(1) by (simp add: board_ok_def nums)
  then have "blocks g ! ?r \<in> set (blocks g)" by simp
  then have c: "?c < length (blocks g ! ?r)" using i(3) assms(1) by (auto simp: board_ok_def nums)
  have T: "try_block nx ny g = Some (if blocks g ! ?r ! ?c then hit_block ?r ?c nx ny g else g)"
    unfolding try_block_def Let_def q using i(1,2) r c by simp
  have ok: "game_ok (g'\<lparr>ball_dir := d\<rparr>)"
    if "board_ok g'" "ball_x g' = ball_x g" "ball_y g' = ball_y g" "d \<in> {ball_dir g, 180 - ball_dir g, - ball_dir g, - (180 - ball_dir g)}"
    for g' d
    using that reflected [OF assms(2) that(4)] assms(3-10) by (auto simp: game_ok_def in_canvas_def nums board_ok_update)
  obtain d where "hit_block ?r ?c nx ny g = g\<lparr>blocks := (blocks g)[?r := (blocks g ! ?r)[?c := False]], ball_dir := d\<rparr>"
    "d \<in> {ball_dir g, 180 - ball_dir g, - ball_dir g, - (180 - ball_dir g)}" using hit_block_dir by blast
  then have "game_ok (hit_block ?r ?c nx ny g)"
    by (elim ssubst, intro ok [OF board_ok_clear [OF assms(1) r]]) simp_all
  moreover have "game_ok g" using ok [OF assms(1), of "ball_dir g"] by simp
  ultimately show ?thesis unfolding T by simp
qed

lemma end_frame_ok:
  assumes "frame_ok g0"
  shows "\<exists>g'. end_frame g0 = Some g' \<and> game_ok g'"
proof -
  define g where "g = move_bar g0"
  have b: "board_ok g" using assms by (simp add: g_def move_bar_def frame_ok_def board_ok_update)
  have n: "kBallRadius = 5" "kCanvasWidth = 260" "kBarWidth = 60" "kBarY = 160" "kCanvasHeight = 175" "kGapWidth = 30"
    "kGapHeight = 30" "int kNumBlocksY * kBlockHeight = 50" by (simp_all add: nums)
  have E: "end_frame g0 = (if ball_dir g = 0 then Some g else bounce (ball_x g + ball_dx g) (ball_y g + ball_dy g)
      (if hits_wall (ball_dx g) (ball_x g + ball_dx g) then g\<lparr>ball_dir := 180 - ball_dir g\<rparr> else g))"
    by (simp add: end_frame_def g_def Let_def)
  have "at_rest g \<or> ball_dir g = 45 \<and> ball_x g = kBallX \<and> ball_y g = kBallY \<or> flying g"
    using assms by (auto simp: frame_ok_def g_def move_bar_def at_rest_def flying_def)
  then show ?thesis
  proof (elim disjE)
    assume r: "at_rest g"
    then have "end_frame g0 = Some g" by (simp add: E at_rest_def)
    with b r show ?thesis by (simp add: game_ok_def)
  next
    assume s: "ball_dir g = 45 \<and> ball_x g = kBallX \<and> ball_y g = kBallY"
    have "ball_dx g \<in> {- 2, 0, 2}" "ball_dy g \<in> {- 2, 0, 2}" using b by (simp_all add: board_ok_def)
    then have l: "103 \<le> ball_x g + ball_dx g" "ball_x g + ball_dx g \<le> 107" "133 \<le> ball_y g + ball_dy g" "ball_y g + ball_dy g \<le> 137"
      using s by (auto simp: nums)
    then have "\<not> hits_wall (ball_dx g) (ball_x g + ball_dx g)" by (simp add: hits_wall_def n)
    then have "end_frame g0 = Some g" using s l by (simp add: E bounce_def n)
    moreover have "game_ok g" using b s by (simp add: game_ok_def diagonal_def step_of_def in_canvas_def nums)
    ultimately show ?thesis by simp
  next
    assume f: "flying g"
    obtain dx dy where dd: "ball_dx g = dx" "ball_dy g = dy" by simp
    let ?nx = "ball_x g + dx" and ?ny = "ball_y g + dy"
    define d1 where "d1 = (if hits_wall dx ?nx then 180 - ball_dir g else ball_dir g)"
    have d: "diagonal (ball_dir g)" "step_of (ball_dir g) = (dx, dy)" using f dd by (simp_all add: flying_def)
    then have d1: "diagonal d1" "step_of d1 = (if hits_wall dx ?nx then - dx else dx, dy)"
      using reflect_x [OF d(1)] by (simp_all add: d1_def)
    have two: "dx = 2 \<or> dx = - 2" "dy = 2 \<or> dy = - 2" using step_of_cases [of "ball_dir g"] d(2) by simp_all
    have p: "5 \<le> ball_x g" "ball_x g < 255" "5 \<le> ball_y g" "ball_y g < 170" using f by (simp_all add: flying_def in_canvas_def n)
    have nx: "5 \<le> ball_x g + fst (step_of d1)" "ball_x g + fst (step_of d1) < 255"
      using d1(2) two(1) p by (auto simp: hits_wall_def n)
    let ?g1 = "g\<lparr>ball_dir := d1\<rparr>"
    have b1: "board_ok ?g1" using b by (rule board_ok_update)
    have "(if hits_wall dx ?nx then g\<lparr>ball_dir := 180 - ball_dir g\<rparr> else g) = ?g1" by (cases g) (simp add: d1_def)
    then have E1: "end_frame g0 = bounce ?nx ?ny ?g1" using d(1) diagonal_nonzero by (auto simp: E dd)
    have up: "game_ok (?g1\<lparr>ball_dir := - d1\<rparr>)" if "5 \<le> ball_y g - dy" "ball_y g - dy < 170"
      using that reflect_y [OF d1(1)] d1(2) nx board_ok_update(1) [OF b1] by (simp add: game_ok_def in_canvas_def n)
    have on: "game_ok ?g1" if "5 \<le> ?ny" "?ny < 170"
      using that d1 nx b1 by (simp add: game_ok_def in_canvas_def n)
    have down: "game_ok (?g1\<lparr>ball_dir := 0, ball_y := - 1\<rparr>)"
      using board_ok_update(2) [OF board_ok_update(1) [OF b1]] by (simp add: game_ok_def at_rest_def)
    have blk: "\<exists>g'. try_block ?nx ?ny ?g1 = Some g' \<and> game_ok g'" if "30 \<le> ?nx" "?nx < 230" "30 \<le> ?ny" "?ny < 80"
      using that two by (intro try_block_ok [OF b1, of _ dx _ dy]) (auto simp: d1(1))
    consider (top) "dy < 0 \<and> ?ny < 5" | (bar) "\<not> (dy < 0 \<and> ?ny < 5)" "bar_x g \<le> ?nx \<and> ?nx < bar_x g + 60 \<and> 0 < dy \<and> 155 \<le> ?ny"
      | (fall) "\<not> (dy < 0 \<and> ?ny < 5)" "\<not> (bar_x g \<le> ?nx \<and> ?nx < bar_x g + 60 \<and> 0 < dy \<and> 155 \<le> ?ny)" "0 < dy \<and> 170 \<le> ?ny"
      | (rest) "\<not> (dy < 0 \<and> ?ny < 5)" "\<not> (bar_x g \<le> ?nx \<and> ?nx < bar_x g + 60 \<and> 0 < dy \<and> 155 \<le> ?ny)" "\<not> (0 < dy \<and> 170 \<le> ?ny)"
      by blast
    then show ?thesis
    proof cases
      case top
      then have "bounce ?nx ?ny ?g1 = Some (?g1\<lparr>ball_dir := - d1\<rparr>)" by (simp add: bounce_def dd n)
      moreover have "5 \<le> ball_y g - dy" "ball_y g - dy < 170" using top two(2) p by auto
      ultimately show ?thesis using up E1 by simp
    next
      case bar
      then have "bounce ?nx ?ny ?g1 = Some (?g1\<lparr>ball_dir := - d1\<rparr>)" by (simp add: bounce_def dd n)
      moreover have "5 \<le> ball_y g - dy" "ball_y g - dy < 170" using bar two(2) p by auto
      ultimately show ?thesis using up E1 by simp
    next
      case fall
      have "bounce ?nx ?ny ?g1 = Some (?g1\<lparr>ball_dir := 0, ball_y := - 1\<rparr>)"
        unfolding bounce_def using fall by (simp add: dd n if_not_P)
      then show ?thesis using down E1 by simp
    next
      case rest
      have y: "5 \<le> ?ny" "?ny < 170" using rest two(2) p by auto
      have "bounce ?nx ?ny ?g1 = (if ?nx < 30 \<or> 230 \<le> ?nx \<or> ?ny < 30 \<or> 80 \<le> ?ny then Some ?g1 else try_block ?nx ?ny ?g1)"
        unfolding bounce_def using rest by (simp add: dd n if_not_P)
      then show ?thesis using on [OF y] blk E1 by (cases "?nx < 30 \<or> 230 \<le> ?nx \<or> ?ny < 30 \<or> 80 \<le> ?ny") auto
    qed
  qed
qed


section \<open>The speed of the ball\<close>

text \<open>\<^verbatim>\<open>round\<close> of the C library, and the two computations of the program on real numbers.\<close>

definition c_round :: "real \<Rightarrow> int" where
  "c_round x = (if 0 \<le> x then \<lfloor>x + 1 / 2\<rfloor> else \<lceil>x - 1 / 2\<rceil>)"

definition ball_speed :: "int \<Rightarrow> int \<times> int" where
  "ball_speed d = (c_round (of_int kBallSpeed * cos (pi * of_int d / 180) / of_int kFrameRate),
     c_round (of_int kBallSpeed * sin (pi * of_int d / 180) / of_int kFrameRate))"

lemma angle_mod: "cos (pi * of_int d / 180) = cos (pi * of_int (d mod 360) / 180)"
  "sin (pi * of_int d / 180) = sin (pi * of_int (d mod 360) / 180)"
proof -
  have "d = d mod 360 + 360 * (d div 360)" by simp
  then have "real_of_int d = of_int (d mod 360) + 360 * of_int (d div 360)"
    by (metis of_int_add of_int_mult of_int_numeral)
  then have a: "pi * of_int d / 180 = pi * of_int (d mod 360) / 180 + 2 * pi * of_int (d div 360)"
    by (simp add: field_simps)
  show "cos (pi * of_int d / 180) = cos (pi * of_int (d mod 360) / 180)"
    "sin (pi * of_int d / 180) = sin (pi * of_int (d mod 360) / 180)"
    unfolding a by (simp_all add: cos_add sin_add)
qed

lemma round_two: "c_round (130 * (sqrt 2 / 2) / 60) = 2" "c_round (- (130 * (sqrt 2 / 2) / 60)) = - 2"
proof -
  have "(1.4 :: real) \<le> sqrt 2" by (rule real_le_rsqrt) (simp add: power2_eq_square)
  moreover have "sqrt 2 \<le> (1.5 :: real)" by (rule real_le_lsqrt) (simp_all add: power2_eq_square)
  ultimately have b: "3 / 2 \<le> 130 * (sqrt 2 / 2) / 60" "130 * (sqrt 2 / 2) / 60 < 5 / 2" by simp_all
  have "\<lfloor>130 * (sqrt 2 / 2) / 60 + 1 / 2\<rfloor> = 2" using b by (intro floor_unique) simp_all
  then show "c_round (130 * (sqrt 2 / 2) / 60) = 2" using b by (simp add: c_round_def)
  have "\<lceil>- (130 * (sqrt 2 / 2) / 60) - 1 / 2\<rceil> = - 2" using b by (intro ceiling_unique) simp_all
  then show "c_round (- (130 * (sqrt 2 / 2) / 60)) = - 2" using b by (simp add: c_round_def)
qed

lemma diagonal_angles:
  "cos (pi * 45 / 180) = sqrt 2 / 2" "sin (pi * 45 / 180) = sqrt 2 / 2"
  "cos (pi * 135 / 180) = - (sqrt 2 / 2)" "sin (pi * 135 / 180) = sqrt 2 / 2"
  "cos (pi * 225 / 180) = - (sqrt 2 / 2)" "sin (pi * 225 / 180) = - (sqrt 2 / 2)"
  "cos (pi * 315 / 180) = sqrt 2 / 2" "sin (pi * 315 / 180) = - (sqrt 2 / 2)"
proof -
  have a: "pi * 45 / 180 = pi / 4" "pi * 135 / 180 = pi - pi / 4" "pi * 225 / 180 = pi / 4 + pi"
    "pi * 315 / 180 = 2 * pi - pi / 4" by simp_all
  show "cos (pi * 45 / 180) = sqrt 2 / 2" "sin (pi * 45 / 180) = sqrt 2 / 2"
    "cos (pi * 135 / 180) = - (sqrt 2 / 2)" "sin (pi * 135 / 180) = sqrt 2 / 2"
    "cos (pi * 225 / 180) = - (sqrt 2 / 2)" "sin (pi * 225 / 180) = - (sqrt 2 / 2)"
    "cos (pi * 315 / 180) = sqrt 2 / 2" "sin (pi * 315 / 180) = - (sqrt 2 / 2)"
    by (simp_all only: a cos_diff sin_diff cos_add sin_add cos_pi sin_pi cos_two_pi sin_two_pi cos_45 sin_45)
qed

lemma ball_speed_ok: "speed_ok ball_speed"
proof -
  have k: "kBallSpeed = 130" "kFrameRate = 60" by (simp_all add: kBallSpeed_def nums)
  have B: "ball_speed d = (c_round (130 * cos (pi * of_int (d mod 360) / 180) / 60), c_round (130 * sin (pi * of_int (d mod 360) / 180) / 60))"
    for d by (simp only: ball_speed_def k angle_mod [of d] of_int_numeral)
  have m: "130 * (- (sqrt 2 / 2)) / 60 = - (130 * (sqrt 2 / 2) / (60 :: real))" by simp
  have "ball_speed d = step_of d" if "diagonal d" for d
  proof -
    from that consider "d mod 360 = 45" | "d mod 360 = 135" | "d mod 360 = 225" | "d mod 360 = 315"
      by (auto simp: diagonal_def)
    then show ?thesis
      by cases (simp_all only: B of_int_numeral diagonal_angles m round_two, simp_all add: step_of_def)
  qed
  then show ?thesis by (simp add: speed_ok_def)
qed

section \<open>The game stays in its window\<close>

definition inside :: "rectangle \<Rightarrow> bool" where
  "inside r = (case r of (x, y, w, h, c) \<Rightarrow>
     kWindowMargin \<le> x \<and> x + w \<le> kWindowMargin + kCanvasWidth
     \<and> kWindowTitleHeight + kWindowMargin \<le> y \<and> y + h \<le> kWindowTitleHeight + kWindowMargin + kCanvasHeight)"

lemma draw_block_inside: "r < kNumBlocksY \<Longrightarrow> c < kNumBlocksX \<Longrightarrow> list_all inside (draw_block bs r c)"
  by (simp add: draw_block_def inside_def Let_def nums)

lemma draw_frame_inside:
  assumes "frame_ok g"
  shows "list_all inside (draw_frame g)"
proof -
  have "list_all inside (DrawBlocks bs)" for bs
    using draw_block_inside by (auto simp: DrawBlocks_def list_all_iff)
  moreover have "list_all inside (DrawBar (bar_x g))"
    using assms by (simp add: frame_ok_def board_ok_def DrawBar_def inside_def nums)
  moreover have "list_all inside (DrawBall (ball_x g) (ball_y g))" if "0 \<le> ball_y g"
    using assms that by (auto simp: frame_ok_def at_rest_def flying_def in_canvas_def DrawBall_def inside_def nums)
  ultimately show ?thesis by (simp add: draw_frame_def inside_def nums)
qed

lemma play_safe:
  "speed_ok speed \<Longrightarrow> game_ok g \<Longrightarrow> \<exists>fs g'. play speed es g = Some (fs, g') \<and> list_all (list_all inside) fs \<and> frame_ok g'"
proof (induction speed es g rule: play.induct)
  case (1 speed es g)
  let ?g = "start_frame speed g"
  have f: "frame_ok ?g" by (rule start_frame_ok [OF "1.prems"])
  note d = draw_frame_inside [OF f]
  show ?case
  proof (cases "take_events es ?g")
    case None
    then show ?thesis using f d by (simp add: play.simps [of speed es g] Let_def)
  next
    case (Some x)
    obtain r g1 es' where x: "x = (r, g1, es')" by (cases x)
    then have g1: "frame_ok g1" using take_events_ok Some f by blast
    show ?thesis
    proof (cases r)
      case False
      then show ?thesis using Some x g1 d by (simp add: play.simps [of speed es g] Let_def)
    next
      case True
      obtain g2 where g2: "end_frame g1 = Some g2" "game_ok g2" using end_frame_ok [OF g1] by blast
      have "\<not> \<not> r" using True by simp
      from "1.IH" [OF refl Some x [symmetric] refl this g2(1) "1.prems"(1) g2(2)] obtain fs g' where
        "play speed es' g2 = Some (fs, g')" "list_all (list_all inside) fs" "frame_ok g'" by blast
      then show ?thesis using Some x True g2(1) d by (simp add: play.simps [of speed es g] Let_def)
    qed
  qed
qed

text \<open>
  C36: the game of blocks stays in its window.  Whatever events arrive, every frame is drawn inside the
  canvas of its window, no block outside the field is ever looked at, and the game goes on until it is
  quit.  The bar is inside the canvas, and so is the ball until it has fallen.
\<close>

theorem blocks_stays_in_window:
  assumes "speed_ok speed"
  shows "\<exists>fs g. play speed es game_init = Some (fs, g) \<and> list_all (list_all inside) fs
    \<and> 0 \<le> bar_x g \<and> bar_x g + kBarWidth < kCanvasWidth \<and> (ball_y g = - 1 \<or> in_canvas (ball_x g) (ball_y g))"
proof -
  obtain fs g where p: "play speed es game_init = Some (fs, g)" "list_all (list_all inside) fs" "frame_ok g"
    using play_safe [OF assms game_init_ok] by blast
  have "0 \<le> bar_x g \<and> bar_x g + kBarWidth < kCanvasWidth \<and> (ball_y g = - 1 \<or> in_canvas (ball_x g) (ball_y g))"
    using p(3) by (auto simp: frame_ok_def board_ok_def at_rest_def flying_def in_canvas_def nums)
  with p(1,2) show ?thesis by blast
qed

text \<open>With the speed computed by the program: the start of a game and its first two frames.\<close>

theorem blocks_stays_in_window_witness:
  "\<exists>fs g. play ball_speed [EvKeyPush 0 44 0x20 True, EvTimerTimeout 1 1, EvTimerTimeout 2 1] game_init = Some (fs, g)
     \<and> list_all (list_all inside) fs"
  using blocks_stays_in_window [OF ball_speed_ok, of "[EvKeyPush 0 44 0x20 True, EvTimerTimeout 1 1, EvTimerTimeout 2 1]"]
  by blast

end
