(* ===== verification/App_Text_View.thy ===== *)
theory App_Text_View imports Syscall "HOL-Library.Signed_Division" begin

text \<open>
  The text viewer \<^verbatim>\<open>apps/tview/tview.cpp\<close>: cutting a file into lines, fitting a line into a row of the
  window, and scrolling.

  The file is mapped into memory: \<open>body\<close> are its bytes, a pointer into it is an offset, and \<open>rest\<close> the bytes
  of its last page behind it.  Reading further is undefined (\<open>None\<close>).  The options of the command line
  (\<^verbatim>\<open>getopt\<close>, \<^verbatim>\<open>atoi\<close>) are arguments; the counts of columns are unbounded integers.
\<close>

section \<open>Lines\<close>

definition next_lf :: "u8 list \<Rightarrow> nat \<Rightarrow> nat" where
  "next_lf body p = p + length (takeWhile (\<lambda>c. c \<noteq> newline) (drop p body))"

function lines_from :: "u8 list \<Rightarrow> nat \<Rightarrow> (nat \<times> nat) list" where
  "lines_from body p =
     (let lf = next_lf body p in
      if lf < length body then (p, lf - p) # lines_from body (lf + 1)
      else if p < length body then [(p, length body - p)] else [])"
  by pat_completeness auto
termination by (relation "measure (\<lambda>(body, p). length body - p)") (auto simp: next_lf_def)

declare lines_from.simps [simp del]

text \<open>Pointer and length of every line.\<close>

definition FindLines :: "u8 list \<Rightarrow> (nat \<times> nat) list" where
  "FindLines body = lines_from body 0"

section \<open>A row of the window\<close>

definition CountUTF8Size :: "u8 \<Rightarrow> nat" where
  "CountUTF8Size c = (if c < 0x80 then 1 else if 0xc0 \<le> c \<and> c < 0xe0 then 2
     else if 0xe0 \<le> c \<and> c < 0xf0 then 3 else if 0xf0 \<le> c \<and> c < 0xf8 then 4 else 0)"

text \<open>
  The loop of \<^verbatim>\<open>CopyUTF8String\<close>: \<open>src\<close> is the memory from the pointer on, \<open>left\<close> and \<open>room\<close> are the distances to
  \<^verbatim>\<open>src_end\<close> and \<^verbatim>\<open>dst_end\<close>, \<open>out\<close> is what has been written.
\<close>

function copy_string :: "int \<Rightarrow> int \<Rightarrow> u8 list \<Rightarrow> int \<Rightarrow> int \<Rightarrow> int \<Rightarrow> u8 list \<Rightarrow> u8 list option" where
  "copy_string wd tab [] left room wd_count out = None"
| "copy_string wd tab (b # src) left room wd_count out =
     (if b = 0 then Some out
      else if b = 9 then
        (if tab = 0 then None
         else let spaces = tab - wd_count smod tab in
           if room \<le> spaces then Some out
           else if spaces < 0 then None
           else copy_string wd tab src (left - 1) (room - spaces) (wd_count + spaces) (out @ replicate (nat spaces) 0x20))
      else
        let wd_count = wd_count + (if b < 0x80 then 1 else 2) in
        if wd \<le> wd_count then Some out
        else let c = CountUTF8Size b in
          if left < int c \<or> room \<le> int c then Some out
          else if length (b # src) < c then None
          else copy_string wd tab (drop c (b # src)) (left - int c) (room - int c) wd_count (out @ take c (b # src)))"
  by pat_completeness auto
termination
  by (relation "measures [\<lambda>(wd, tab, src, left, room, n, out). length src, \<lambda>(wd, tab, src, left, room, n, out). nat (wd - n)]")
    (auto split: if_splits)

declare copy_string.simps [simp del]

definition CopyUTF8String :: "nat \<Rightarrow> u8 list \<Rightarrow> nat \<Rightarrow> int \<Rightarrow> int \<Rightarrow> u8 list option" where
  "CopyUTF8String dst_size src src_size wd tab = copy_string wd tab src (int src_size) (int dst_size) 0 []"

text \<open>The calls that draw, without the layer.\<close>

datatype draw_call = FillRect int int int int u32 | WriteText int int u32 cstr | Redraw

definition kWindowTitleHeight :: int where "kWindowTitleHeight = 25"
definition kWindowMargin :: int where "kWindowMargin = 2"

definition draw_row :: "u8 list \<Rightarrow> u8 list \<Rightarrow> (nat \<times> nat) list \<Rightarrow> int \<Rightarrow> int \<Rightarrow> int \<Rightarrow> nat \<Rightarrow> draw_call list option" where
  "draw_row body rest ls start_line w tab i =
     (let line_index = start_line + int i in
      if line_index < 0 \<or> int (length ls) \<le> line_index then Some []
      else case ls ! nat line_index of (pline, line_len) \<Rightarrow>
        map_option (\<lambda>buf. [WriteText kWindowMargin (kWindowTitleHeight + 16 * int i) 0 buf])
          (CopyUTF8String 1024 (drop pline (body @ rest)) line_len w tab))"

fun draw_rows :: "(nat \<Rightarrow> draw_call list option) \<Rightarrow> nat list \<Rightarrow> draw_call list option" where
  "draw_rows f [] = Some []"
| "draw_rows f (i # is) = do { ds \<leftarrow> f i; es \<leftarrow> draw_rows f is; Some (ds @ es) }"

definition DrawLines ::
    "u8 list \<Rightarrow> u8 list \<Rightarrow> (nat \<times> nat) list \<Rightarrow> int \<Rightarrow> int \<Rightarrow> int \<Rightarrow> int \<Rightarrow> draw_call list option" where
  "DrawLines body rest ls start_line w height_rows tab = do {
     rows \<leftarrow> draw_rows (draw_row body rest ls start_line w tab) [0..<nat height_rows];
     Some (FillRect kWindowMargin (kWindowTitleHeight + kWindowMargin) (8 * w) (16 * height_rows) 0xffffff # rows @ [Redraw]) }"

definition OpenTextWindow :: "int \<Rightarrow> int \<Rightarrow> int \<times> int" where
  "OpenTextWindow w h = (kWindowMargin * 2 + 8 * w, kWindowTitleHeight + kWindowMargin * 2 + 16 * h)"

section \<open>Scrolling\<close>

text \<open>\<open>None\<close> when it waits for more events; otherwise quit, the key, and the events that are left.\<close>

fun WaitEvent :: "AppEvent list \<Rightarrow> (bool \<times> u8 \<times> AppEvent list) option" where
  "WaitEvent [] = None"
| "WaitEvent (EvQuit # es) = Some (True, 0, es)"
| "WaitEvent (EvKeyPush m code c pressed # es) = (if pressed then Some (False, code, es) else WaitEvent es)"
| "WaitEvent (_ # es) = WaitEvent es"

definition scroll_by :: "u8 \<Rightarrow> int \<Rightarrow> int option" where
  "scroll_by code height_rows =
     (if code = 75 \<or> code = 80 then Some ((- height_rows) sdiv 2)
      else if code = 78 \<or> code = 79 then Some (height_rows sdiv 2)
      else if code = 81 then Some 1
      else if code = 82 then Some (- 1)
      else None)"

text \<open>
  One key; \<open>None\<close> where the code goes on waiting.  Comparing with \<^verbatim>\<open>num_lines\<close> is unsigned, and so is the
  difference \<^verbatim>\<open>num_lines - height_rows\<close>.
\<close>

definition new_start :: "int \<Rightarrow> nat \<Rightarrow> int \<Rightarrow> u8 \<Rightarrow> int option" where
  "new_start height_rows num_lines start_line code =
     (let lowest = of_nat num_lines - of_int height_rows :: u64 in
      if (of_nat num_lines :: u64) < of_int height_rows then None
      else do {
        diff \<leftarrow> scroll_by code height_rows;
        if (diff < 0 \<and> start_line = 0) \<or> (0 < diff \<and> of_int start_line = lowest) then None
        else Some (let s = start_line + diff in
          if s < 0 then 0 else if lowest < of_int s then sint (ucast lowest :: 32 word) else s) })"

lemma WaitEvent_shorter: "WaitEvent es = Some (q, c, es') \<Longrightarrow> length es' < length es"
  by (induction es rule: WaitEvent.induct) (auto split: if_splits)

function UpdateStartLine :: "int \<Rightarrow> nat \<Rightarrow> AppEvent list \<Rightarrow> int \<Rightarrow> (bool \<times> int \<times> AppEvent list) option" where
  "UpdateStartLine height_rows num_lines es start_line =
     (case WaitEvent es of
        None \<Rightarrow> None
      | Some (quit, code, es') \<Rightarrow>
          if quit then Some (True, start_line, es')
          else case new_start height_rows num_lines start_line code of
                 None \<Rightarrow> UpdateStartLine height_rows num_lines es' start_line
               | Some s \<Rightarrow> Some (False, s, es'))"
  by pat_completeness auto

termination by (relation "measure (\<lambda>(h, n, es, s). length es)") (auto dest: WaitEvent_shorter)

declare UpdateStartLine.simps [simp del]

lemma UpdateStartLine_shorter: "UpdateStartLine h n es s = Some (q, s', es') \<Longrightarrow> length es' < length es"
proof (induction h n es s rule: UpdateStartLine.induct)
  case (1 h n es s)
  from "1.prems" obtain quit code es1 where w: "WaitEvent es = Some (quit, code, es1)"
    by (auto simp: UpdateStartLine.simps [of h n es] split: option.splits)
  note l = WaitEvent_shorter [OF w]
  show ?case
  proof (cases "quit \<or> new_start h n s code \<noteq> None")
    case True
    then show ?thesis using "1.prems" l by (auto simp: UpdateStartLine.simps [of h n es] w split: if_splits)
  next
    case False
    then have "UpdateStartLine h n es1 s = Some (q, s', es')"
      using "1.prems" by (simp add: UpdateStartLine.simps [of h n es] w)
    then have "length es' < length es1" using "1.IH" [OF w refl refl] False by auto
    with l show ?thesis by simp
  qed
qed

text \<open>The loop of \<^verbatim>\<open>main\<close>: the first lines of the pictures drawn while \<open>es\<close> are the events.\<close>

function view_loop :: "int \<Rightarrow> nat \<Rightarrow> AppEvent list \<Rightarrow> int \<Rightarrow> int list" where
  "view_loop height_rows num_lines es start_line =
     start_line # (case UpdateStartLine height_rows num_lines es start_line of
        None \<Rightarrow> []
      | Some (quit, s, es') \<Rightarrow> if quit then [] else view_loop height_rows num_lines es' s)"
  by pat_completeness auto
termination by (relation "measure (\<lambda>(h, n, es, s). length es)") (auto dest: UpdateStartLine_shorter)

declare view_loop.simps [simp del]

definition tview_main :: "u8 list \<Rightarrow> u8 list \<Rightarrow> int \<Rightarrow> int \<Rightarrow> int \<Rightarrow> AppEvent list \<Rightarrow> draw_call list option list" where
  "tview_main body rest w height_rows tab es =
     (let ls = FindLines body in
      map (\<lambda>s. DrawLines body rest ls s w height_rows tab) (view_loop height_rows (length ls) es 0))"

section \<open>The lines are the file\<close>

definition line_text :: "u8 list \<Rightarrow> nat \<times> nat \<Rightarrow> u8 list" where
  "line_text body l = slice (fst l) (snd l) body"

lemma lines_from_spec:
  "p \<le> length body \<Longrightarrow>
     concat (map (\<lambda>l. line_text body l @ [newline]) (lines_from body p))
       = drop p body @ (if p < length body \<and> last body \<noteq> newline then [newline] else [])
     \<and> (\<forall>l \<in> set (lines_from body p). newline \<notin> set (line_text body l) \<and> fst l + snd l \<le> length body
          \<and> (fst l + snd l < length body \<longrightarrow> body ! (fst l + snd l) = newline))"
proof (induction body p rule: lines_from.induct)
  case (1 body p)
  let ?t = "takeWhile (\<lambda>c. c \<noteq> newline) (drop p body)"
  let ?d = "dropWhile (\<lambda>c. c \<noteq> newline) (drop p body)"
  have lf: "next_lf body p = p + length ?t" by (simp add: next_lf_def)
  have split: "drop p body = ?t @ ?d" by simp
  have nl: "newline \<notin> set ?t" using set_takeWhileD by fastforce
  show ?case
  proof (cases "?d = []")
    case True
    then have t: "?t = drop p body" using split by (metis append_Nil2)
    then have "length ?t = length body - p" by (metis length_drop)
    then have lf': "\<not> next_lf body p < length body" unfolding lf by linarith
    show ?thesis
    proof (cases "p < length body")
      case False
      with lf' have "lines_from body p = []" by (subst lines_from.simps) (simp only: Let_def if_False)
      then show ?thesis using False by simp
    next
      case p: True
      have "line_text body (p, length body - p) = drop p body" by (simp add: line_text_def slice_def)
      moreover have "last body = last (drop p body)" "drop p body \<noteq> []" using p by simp_all
      moreover from this have "last body \<noteq> newline" using nl unfolding t by (metis last_in_set)
      ultimately show ?thesis using lf' p nl unfolding t by (simp add: lines_from.simps [of body p])
    qed
  next
    case False
    then obtain r where r: "?d = newline # r" using hd_dropWhile [OF False] by (cases ?d) auto
    let ?q = "p + length ?t"
    have l: "?q < length body"
    proof -
      have "length (drop p body) = length ?t + Suc (length r)" by (subst split) (simp only: length_append r list.size(4))
      then show ?thesis by simp
    qed
    have "drop ?q body = newline # r"
    proof -
      have "drop ?q body = drop (length ?t) (drop p body)" by (simp add: add.commute)
      also have "\<dots> = ?d" using split [symmetric] unfolding append_eq_conv_conj by simp
      finally show ?thesis using r by simp
    qed
    then have "body ! ?q # drop (Suc ?q) body = newline # r" using Cons_nth_drop_Suc [OF l] by (simp only:)
    then have q: "body ! ?q = newline" "drop (?q + 1) body = r" by (simp_all only: list.inject Suc_eq_plus1)
    have td: "?t = take (length ?t) (drop p body)" "?d = drop (length ?t) (drop p body)"
      using split [symmetric] unfolding append_eq_conv_conj by blast+
    have tx: "line_text body (p, length ?t) = ?t" unfolding line_text_def slice_def fst_conv snd_conv by (rule td(1) [symmetric])
    have IH: "concat (map (\<lambda>l. line_text body l @ [newline]) (lines_from body (?q + 1)))
       = r @ (if ?q + 1 < length body \<and> last body \<noteq> newline then [newline] else [])"
      "\<forall>l \<in> set (lines_from body (?q + 1)). newline \<notin> set (line_text body l) \<and> fst l + snd l \<le> length body
          \<and> (fst l + snd l < length body \<longrightarrow> body ! (fst l + snd l) = newline)"
      using "1.IH" [of ?q] l q(2) lf by simp_all
    have unf: "lines_from body p = (p, length ?t) # lines_from body (?q + 1)"
      using l by (simp add: lines_from.simps [of body p] lf Let_def)
    have la: "?q + 1 < length body \<or> last body = newline"
    proof (cases "?q + 1 < length body")
      case False
      then have "length body = Suc ?q" using l by simp
      then show ?thesis using q(1) by (metis Suc_not_Zero diff_Suc_1 last_conv_nth list.size(3))
    qed simp
    have "concat (map (\<lambda>l. line_text body l @ [newline]) (lines_from body p))
        = drop p body @ (if p < length body \<and> last body \<noteq> newline then [newline] else [])"
    proof -
      have "drop p body = ?t @ newline # r" using split r by simp
      moreover have "p < length body" using l by simp
      ultimately show ?thesis unfolding unf using IH(1) la by (auto simp: tx)
    qed
    then show ?thesis unfolding unf using IH(2) l q(1) nl by (simp add: tx)
  qed
qed


text \<open>
  cutting into lines loses nothing.  The lines of a file, each with a newline behind it, are the
  file, plus a newline if it does not end in one; no line contains a newline, and behind each is one or the
  end of the file.
\<close>

theorem FindLines_joins_back:
  "concat (map (\<lambda>l. line_text body l @ [newline]) (FindLines body))
     = body @ (if body \<noteq> [] \<and> last body \<noteq> newline then [newline] else [])
   \<and> list_all (\<lambda>l. newline \<notin> set (line_text body l) \<and> (fst l + snd l = length body
        \<or> fst l + snd l < length body \<and> body ! (fst l + snd l) = newline)) (FindLines body)"
  using lines_from_spec [of 0 body] by (fastforce simp: FindLines_def list_all_iff)

section \<open>A row never overflows\<close>

lemma CountUTF8Size_ascii: "b < 0x80 \<Longrightarrow> CountUTF8Size b = 1"
  by (simp add: CountUTF8Size_def)

lemma CountUTF8Size_le: "CountUTF8Size b \<le> 4"
  by (simp add: CountUTF8Size_def)

text \<open>
  \<open>src\<close> is what is left of the line and what follows it: a newline or a zero byte.  The text written is
  shorter than the buffer, without tabs it is the beginning of the line.
\<close>

lemma smod_nonneg: "0 \<le> a \<Longrightarrow> 0 < b \<Longrightarrow> a smod b = a mod (b :: int)"
  by (cases "a = 0") (simp_all add: signed_modulo_int_def)

lemma copy_string_spec:
  "src = line @ stop # tail \<Longrightarrow> left = int (length line) \<Longrightarrow> 0 < room \<Longrightarrow> stop = 0 \<or> stop = newline \<Longrightarrow> 0 \<le> n \<Longrightarrow> 0 < tab \<Longrightarrow>
    \<exists>new. copy_string wd tab src left room n out = Some (out @ new) \<and> int (length new) < room
      \<and> (9 \<notin> set line \<longrightarrow> new = take (length new) line)
      \<and> ((\<forall>b \<in> set line. b \<noteq> 0 \<and> b \<noteq> 9 \<and> b < 0x80) \<longrightarrow> n + int (length line) < wd \<longrightarrow> int (length line) < room \<longrightarrow> new = line)"
proof (induction wd tab src left room n out arbitrary: line rule: copy_string.induct)
  case (1 wd tab left room n out)
  then show ?case by simp
next
  case (2 wd tab b src left room n out)
  note tab = "2.prems"(6) and step = copy_string.simps(2) [of wd tab b src left room n out]
  show ?case
  proof (cases line)
    case Nil
    then have b: "b = stop" "left = 0" using "2.prems"(1,2) by simp_all
    have "copy_string wd tab (b # src) left room n out = Some out"
    proof (cases "b = 0")
      case True
      then show ?thesis unfolding step by simp
    next
      case False
      then have "b = newline" using b(1) "2.prems"(4) by blast
      then have "b \<noteq> 9" "CountUTF8Size b = 1" by (simp_all add: newline_def CountUTF8Size_def)
      then show ?thesis unfolding step Let_def using False b(2) by (simp only: if_False if_True) simp
    qed
    then show ?thesis using Nil "2.prems"(3) by (intro exI [of _ "[]"]) simp
  next
    case (Cons x xs)
    then have x: "x = b" "src = xs @ stop # tail" "left = 1 + int (length xs)" using "2.prems"(1,2) by simp_all
    consider (zero) "b = 0" | (tabulator) "b = 9" | (char) "b \<noteq> 0" "b \<noteq> 9" by blast
    then show ?thesis
    proof cases
      case zero
      then have "copy_string wd tab (b # src) left room n out = Some out" unfolding step by simp
      then show ?thesis using Cons x zero "2.prems"(3) by (intro exI [of _ "[]"]) auto
    next
      case tabulator
      let ?s = "tab - n smod tab"
      have s: "0 < ?s" "?s \<le> tab" 
        using tab "2.prems"(5) by (simp_all add: smod_nonneg)
      show ?thesis
      proof (cases "room \<le> ?s")
        case True
        then have "copy_string wd tab (b # src) left room n out = Some out"
          using tabulator tab unfolding step by (simp add: Let_def)
        then show ?thesis using Cons x tabulator "2.prems"(3) by (intro exI [of _ "[]"]) auto
      next
        case False
        then have "copy_string wd tab (b # src) left room n out
            = copy_string wd tab src (left - 1) (room - ?s) (n + ?s) (out @ replicate (nat ?s) 0x20)"
          using tabulator tab s unfolding step by (simp add: Let_def)
        moreover obtain new where "copy_string wd tab src (left - 1) (room - ?s) (n + ?s) (out @ replicate (nat ?s) 0x20)
            = Some ((out @ replicate (nat ?s) 0x20) @ new)" "int (length new) < room - ?s"
          using "2.IH"(1) [OF _ tabulator _ refl False, of xs] tabulator tab s x "2.prems"(4,5) False by auto
        ultimately show ?thesis using Cons x tabulator s
          by (intro exI [of _ "replicate (nat ?s) 0x20 @ new"]) simp
      qed
    next
      case char
      define m where "m = n + (if b < 0x80 then 1 else 2)"
      define c where "c = CountUTF8Size b"
      have st: "copy_string wd tab (b # src) left room n out
          = (if wd \<le> m then Some out else if left < int c \<or> room \<le> int c then Some out
             else if length (b # src) < c then None
             else copy_string wd tab (drop c (b # src)) (left - int c) (room - int c) m (out @ take c (b # src)))"
        using char unfolding step by (simp add: Let_def m_def c_def)
      show ?thesis
      proof (cases "wd \<le> m \<or> left < int c \<or> room \<le> int c")
        case True
        then have "copy_string wd tab (b # src) left room n out = Some out" unfolding st by auto
        moreover have "\<not> ((\<forall>b \<in> set line. b \<noteq> 0 \<and> b \<noteq> 9 \<and> b < 0x80) \<and> n + int (length line) < wd \<and> int (length line) < room)"
          using True Cons x by (auto simp: m_def c_def CountUTF8Size_ascii)
        ultimately show ?thesis using "2.prems"(3) by (intro exI [of _ "[]"]) auto
      next
        case False
        then have cl: "c \<le> length line" using x Cons by simp
        then have dr: "drop c (b # src) = drop c line @ stop # tail" "take c (b # src) = take c line" "\<not> length (b # src) < c"
          using "2.prems"(1) by simp_all
        have n1: "b \<noteq> 0" "\<not> b = 9" "\<not> wd \<le> n + (if b < 0x80 then 1 else 2)"
          "\<not> (left < int (CountUTF8Size b) \<or> room \<le> int (CountUTF8Size b))" "\<not> length (b # src) < CountUTF8Size b"
          using char False dr(3) by (simp_all add: m_def c_def)
        obtain new where new: "copy_string wd tab (drop c (b # src)) (left - int c) (room - int c) m (out @ take c (b # src))
             = Some ((out @ take c (b # src)) @ new)" "int (length new) < room - int c"
          "9 \<notin> set (drop c line) \<longrightarrow> new = take (length new) (drop c line)"
          "(\<forall>b \<in> set (drop c line). b \<noteq> 0 \<and> b \<noteq> 9 \<and> b < 0x80) \<longrightarrow> m + int (length (drop c line)) < wd
             \<longrightarrow> int (length (drop c line)) < room - int c \<longrightarrow> new = drop c line"
          using "2.IH"(2) [OF n1(1,2) refl n1(3) refl n1(4,5), of "drop c line"] dr(1) "2.prems"(2,4,5) tab cl False
          unfolding m_def [symmetric] c_def [symmetric] by (auto simp: m_def)
        show ?thesis
        proof (intro exI [of _ "take c line @ new"] conjI impI)
          show "copy_string wd tab (b # src) left room n out = Some (out @ take c line @ new)"
            unfolding st using False new(1) dr by simp
          show "int (length (take c line @ new)) < room" using new(2) cl by simp
          show "take c line @ new = take (length (take c line @ new)) line" if "9 \<notin> set line"
          proof -
            have "new = take (length new) (drop c line)" using new(3) that by (meson in_set_dropD)
            then show ?thesis using cl by (simp add: take_add min_absorb2)
          qed
          show "take c line @ new = line"
            if "\<forall>b \<in> set line. b \<noteq> 0 \<and> b \<noteq> 9 \<and> b < 0x80" "n + int (length line) < wd" "int (length line) < room"
          proof -
            have "c = 1" "m = n + 1" using that(1) Cons x by (simp_all add: c_def m_def CountUTF8Size_ascii)
            then have "new = drop c line" using new(4) that cl by (auto dest: in_set_dropD)
            then show ?thesis by simp
          qed
        qed
      qed
    qed
  qed
qed


text \<open>
  a row of the window never overflows its buffer.  For a line of a file - whatever its bytes, with a
  newline or a zero byte behind it - \<^verbatim>\<open>CopyUTF8String\<close> ends, and the text and its terminator fit the buffer.
  Without tabs the text is the beginning of the line; a line of plain characters that is shorter than the
  row and the buffer is shown in full.
\<close>

theorem CopyUTF8String_fits:
  assumes "0 < dst_size" and "0 < tab" and "stop = 0 \<or> stop = newline"
  shows "\<exists>out. CopyUTF8String dst_size (line @ stop # tail) (length line) wd tab = Some out \<and> length out < dst_size
    \<and> (9 \<notin> set line \<longrightarrow> out = take (length out) line)
    \<and> (list_all (\<lambda>b. b \<noteq> 0 \<and> b \<noteq> 9 \<and> b < 0x80) line \<and> int (length line) < wd \<and> length line < dst_size \<longrightarrow> out = line)"
  using copy_string_spec [of "line @ stop # tail" line stop tail "int (length line)" "int dst_size" 0 tab wd "[]"] assms
  by (auto simp: CopyUTF8String_def list_all_iff)

text \<open>A tab, an e with an accent, and a stray byte that is not the beginning of a character.\<close>

theorem CopyUTF8String_fits_witness:
  "\<exists>out. CopyUTF8String 16 ([0x61, 9, 0xc3, 0xa9, 0x80] @ newline # [0x62]) (length [0x61, 9, 0xc3, 0xa9, 0x80 :: u8]) 80 8
      = Some out \<and> length out < 16"
  using CopyUTF8String_fits [of 16 8 newline "[0x61, 9, 0xc3, 0xa9, 0x80]" "[0x62]" 80] by fastforce

section \<open>The view stays in the text\<close>

lemma new_start_range:
  assumes "0 < h" and "h < 2 ^ 31" and "n < 2 ^ 31" and "0 \<le> s" and "s + min h (int n) \<le> int n"
    and "new_start h n s code = Some s'"
  shows "0 \<le> s' \<and> s' + min h (int n) \<le> int n"
proof -
  have u: "unat (of_nat n :: u64) = n" "unat (of_int h :: u64) = nat h"
    using assms(1-3) by (simp_all add: unsigned_of_nat unsigned_of_int take_bit_nat_eq_self take_bit_int_eq_self
        flip: nat_uint_eq)
  from assms(6) have hn: "h \<le> int n" using u assms(1)
    by (auto simp: new_start_def word_less_nat_alt Let_def split: if_splits)
  define low where "low = (of_int (int n - h) :: u64)"
  have lw: "(of_nat n - of_int h :: u64) = low" by (simp add: low_def)
  have ul: "uint (of_int x :: u64) = x" if "0 \<le> x" "x < 2 ^ 40" for x
    using that by (simp add: unsigned_of_int take_bit_int_eq_self)
  have sl: "sint (ucast (of_int x :: u64) :: 32 word) = x" if "0 \<le> x" "x < 2 ^ 31" for x
  proof -
    have "(ucast (of_int x :: u64) :: 32 word) = of_int x"
      using that by (intro word_uint_eqI) (simp add: unsigned_ucast_eq unsigned_of_int take_bit_int_eq_self)
    then show ?thesis using that by (simp add: signed_of_int signed_take_bit_int_eq_self)
  qed
  from assms(6) obtain diff where d: "scroll_by code h = Some diff"
    "s' = (if s + diff < 0 then 0 else if low < of_int (s + diff) then sint (ucast low :: 32 word) else s + diff)"
    unfolding new_start_def lw Let_def by (auto simp del: of_int_add split: if_splits bind_splits)
  have "\<bar>diff\<bar> \<le> h"
    using d(1) assms(1) by (auto simp: scroll_by_def signed_divide_int_def split: if_splits)
  then have r: "s + diff < 2 ^ 40" using assms(2,3,5) hn by simp
  show ?thesis
  proof (cases "s + diff < 0")
    case True
    then show ?thesis using d(2) hn by simp
  next
    case False
    have "uint low = int n - h" unfolding low_def by (rule ul) (use hn assms(1,3) in simp_all)
    moreover have "uint (of_int (s + diff) :: u64) = s + diff" by (rule ul) (use False r in simp_all)
    ultimately have "low < of_int (s + diff) \<longleftrightarrow> int n - h < s + diff" by (simp only: word_less_def)
    moreover have "sint (ucast low :: 32 word) = int n - h" unfolding low_def by (rule sl) (use hn assms(1,3) in simp_all)
    ultimately show ?thesis using d(2) False hn by (simp del: of_int_add)
  qed
qed

lemma UpdateStartLine_range:
  "UpdateStartLine h n es s = Some (q, s', es') \<Longrightarrow> 0 < h \<Longrightarrow> h < 2 ^ 31 \<Longrightarrow> n < 2 ^ 31 \<Longrightarrow> 0 \<le> s \<Longrightarrow> s + min h (int n) \<le> int n \<Longrightarrow>
     0 \<le> s' \<and> s' + min h (int n) \<le> int n"
proof (induction h n es s rule: UpdateStartLine.induct)
  case (1 h n es s)
  note st = UpdateStartLine.simps [of h n es s]
  from "1.prems"(1) obtain quit code es1 where w: "WaitEvent es = Some (quit, code, es1)"
    unfolding st by (auto split: option.splits)
  consider (quit) "quit" | (wait) "\<not> quit" "new_start h n s code = None" | (new) x where "\<not> quit" "new_start h n s code = Some x"
    by blast
  then show ?case
  proof cases
    case quit
    then show ?thesis using "1.prems" w unfolding st by simp
  next
    case wait
    then have "UpdateStartLine h n es1 s = Some (q, s', es')" using "1.prems"(1) w unfolding st by simp
    from "1.IH" [OF w refl refl wait this "1.prems"(2-6)] show ?thesis .
  next
    case (new x)
    then have "s' = x" using "1.prems"(1) w unfolding st by simp
    with new_start_range [OF "1.prems"(2-6) new(2)] show ?thesis by simp
  qed
qed

lemma view_loop_range:
  "0 < h \<Longrightarrow> h < 2 ^ 31 \<Longrightarrow> n < 2 ^ 31 \<Longrightarrow> 0 \<le> s \<Longrightarrow> s + min h (int n) \<le> int n \<Longrightarrow>
     list_all (\<lambda>s. 0 \<le> s \<and> s + min h (int n) \<le> int n) (view_loop h n es s)"
proof (induction h n es s rule: view_loop.induct)
  case (1 h n es s)
  show ?case
  proof (cases "UpdateStartLine h n es s")
    case None
    then show ?thesis using "1.prems" by (simp add: view_loop.simps [of h n es s])
  next
    case (Some x)
    obtain q s' es' where x: "x = (q, s', es')" by (cases x)
    note r = UpdateStartLine_range [OF Some [unfolded x] "1.prems"]
    show ?thesis
    proof (cases q)
      case True
      then show ?thesis using Some x "1.prems" by (simp add: view_loop.simps [of h n es s])
    next
      case False
      have "list_all (\<lambda>s. 0 \<le> s \<and> s + min h (int n) \<le> int n) (view_loop h n es' s')"
        using "1.IH" [OF Some x [symmetric] refl False "1.prems"(1-3)] r by blast
      then show ?thesis using Some x False "1.prems" by (simp add: view_loop.simps [of h n es s])
    qed
  qed
qed

text \<open>
  the view stays in the text.  Whatever keys are pressed, every picture begins at a line of the file
  so that all its rows show lines - or at the first line, when the file has fewer lines than there are rows.
\<close>

theorem view_stays_in_text:
  assumes "0 < height_rows" and "height_rows < 2 ^ 31" and "length (FindLines body) < 2 ^ 31"
  shows "list_all (\<lambda>s. 0 \<le> s \<and> s + min height_rows (int (length (FindLines body))) \<le> int (length (FindLines body)))
    (view_loop height_rows (length (FindLines body)) es 0)"
  by (rule view_loop_range) (use assms in simp_all)

text \<open>Page down in a file of three lines and a window of two rows.\<close>

theorem view_stays_in_text_witness:
  "list_all (\<lambda>s. 0 \<le> s \<and> s + min 2 (int (length (FindLines [10, 10, 10]))) \<le> int (length (FindLines [10, 10, 10])))
     (view_loop 2 (length (FindLines [10, 10, 10])) [EvKeyPush 0 78 0 True, EvQuit] 0)"
proof -
  have "length (FindLines [10, 10, 10]) = 3"
    by (simp add: FindLines_def lines_from.simps next_lf_def newline_def)
  then show ?thesis by (intro view_stays_in_text) simp_all
qed

end
