(* ===== verification/Main_Loop.thy ===== *)
theory Main_Loop imports Shell Mouse "HOL-Library.Signed_Division" begin

text \<open>
  The main task, \<^verbatim>\<open>kernel/main.cpp\<close>: the three windows of the desktop, the text box, the loop that gives
  every message to its handler, and the tasks of the counter and the clock.

  The record \<open>desktop\<close> holds the desktop (\<open>Gui\<close>, with the task manager), the timers and the globals of
  the file.  The parameters of \<open>main_env\<close> are the log on the console (\<open>print_log\<close>), the interrupt
  handler of the USB controller (\<open>process_events\<close>), the addresses that new tasks start with and the
  clock of the firmware.  A step whose task goes to sleep returns what the processor does next.
\<close>

section \<open>State\<close>

record desktop =
  dk_gui :: Gui
  dk_timers :: TimerManager
  main_window :: nat
  main_window_layer_id :: u32
  text_window :: nat
  text_window_layer_id :: u32
  task_b_window :: nat
  task_b_window_layer_id :: u32
  taskb_id :: tid
  text_window_index :: int
  textbox_cursor_visible :: bool

record 'f main_env =
  me_env :: "'f env"
  me_format :: PixelFormat
  print_log :: "cstr \<Rightarrow> Gui \<Rightarrow> Gui option"
  process_events :: "desktop \<Rightarrow> desktop option"
  terminal_entry :: u64
  current_cr3 :: u64
  stack_of :: "tid \<Rightarrow> u64"

definition with_gui :: "(Gui \<Rightarrow> Gui option) \<Rightarrow> desktop \<Rightarrow> desktop option" where
  "with_gui f d = map_option (\<lambda>g. d\<lparr>dk_gui := g\<rparr>) (f (dk_gui d))"

text \<open>Drawing in a window of the heap.\<close>

definition on_window :: "nat \<Rightarrow> (Window \<Rightarrow> Window option) \<Rightarrow> Gui \<Rightarrow> Gui option" where
  "on_window p f g = do {
     w \<leftarrow> windows g p;
     w \<leftarrow> f w;
     Some (g\<lparr>windows := (windows g)(p \<mapsto> w)\<rparr>) }"

text \<open>The formats \<^verbatim>\<open>%0nd\<close> and \<^verbatim>\<open>%02x\<close> of \<^verbatim>\<open>sprintf\<close>.\<close>

definition dec_pad :: "nat \<Rightarrow> nat \<Rightarrow> cstr" where
  "dec_pad n v = replicate (n - length (dec v)) 0x30 @ dec v"

definition hex_digit :: "u8 \<Rightarrow> u8" where
  "hex_digit b = (if b < 10 then 0x30 + b else 0x61 + (b - 10))"

definition hex2 :: "u8 \<Rightarrow> cstr" where
  "hex2 b = [hex_digit (drop_bit 4 b), hex_digit (b AND 0xf)]"

section \<open>The windows of the desktop\<close>

text \<open>\<open>ptr\<close> is the address of the new window, which the heap has not given out yet.\<close>

definition add_window :: "'f env \<Rightarrow> nat \<Rightarrow> Window \<Rightarrow> Vector2D \<Rightarrow> Gui \<Rightarrow> (Gui \<times> u32) option" where
  "add_window E ptr w pos g =
     (case NewLayer E (g\<lparr>windows := (windows g)(ptr \<mapsto> w)\<rparr>) of (g, i) \<Rightarrow> do {
        g \<leftarrow> SetIndex i (2 ^ 31 - 1)
              (upd_layer i (lay_Move pos \<circ> lay_SetTransparentable True \<circ> lay_SetDraggable True \<circ> lay_SetWindow ptr) g);
        Some (g, i) })"

definition InitializeMainWindow :: "'f main_env \<Rightarrow> nat \<Rightarrow> desktop \<Rightarrow> desktop option" where
  "InitializeMainWindow M ptr d = do {
     let fts = env_fonts (me_env M);
     w \<leftarrow> ToplevelWindow_init fts 160 68 (me_format M) (str ''Hello Window'');
     w \<leftarrow> WriteString fts WindowWriter (Vec 18 28) (str ''MikanSAOS world!'') (px 0 0 0) w;
     (g, i) \<leftarrow> add_window (me_env M) ptr w (Vec 300 100) (dk_gui d);
     Some (d\<lparr>dk_gui := g, main_window := ptr, main_window_layer_id := i\<rparr>) }"

definition InitializeTextWindow :: "'f main_env \<Rightarrow> nat \<Rightarrow> desktop \<Rightarrow> desktop option" where
  "InitializeTextWindow M ptr d = do {
     w \<leftarrow> ToplevelWindow_init (env_fonts (me_env M)) 160 54 (me_format M) (str ''Text Box Test'');
     w \<leftarrow> DrawTextbox InnerAreaWriter (Vec 0 0) (InnerSize w) w;
     (g, i) \<leftarrow> add_window (me_env M) ptr w (Vec 500 100) (dk_gui d);
     Some (d\<lparr>dk_gui := g, text_window := ptr, text_window_layer_id := i\<rparr>) }"

definition InitializeTaskBWindow :: "'f main_env \<Rightarrow> nat \<Rightarrow> desktop \<Rightarrow> desktop option" where
  "InitializeTaskBWindow M ptr d = do {
     w \<leftarrow> ToplevelWindow_init (env_fonts (me_env M)) 160 52 (me_format M) (str ''TaskB Window'');
     (g, i) \<leftarrow> add_window (me_env M) ptr w (Vec 100 100) (dk_gui d);
     Some (d\<lparr>dk_gui := g, task_b_window := ptr, task_b_window_layer_id := i\<rparr>) }"

section \<open>The text box\<close>

definition kTextBoxTextColor :: PixelColor where "kTextBoxTextColor = px 0 0 0"

definition DrawTextCursor :: "int \<Rightarrow> bool \<Rightarrow> Window \<Rightarrow> Window option" where
  "DrawTextCursor index visible w =
     FillRectangle InnerAreaWriter (Vec (6 + 8 * index) 3) (Vec 2 18) (if visible then kTextBoxTextColor else kTextBoxBGColor) w"

text \<open>The lambda \<^verbatim>\<open>pos\<close>, and what a key does to the window and to \<^verbatim>\<open>text_window_index\<close>.\<close>

definition text_pos :: "int \<Rightarrow> Vector2D" where
  "text_pos index = Vec (4 + 8 * index) 4"

definition text_key :: "'f env \<Rightarrow> u8 \<Rightarrow> int \<Rightarrow> Window \<Rightarrow> (int \<times> Window) option" where
  "text_key E c index w =
     (let max_chars = (vx (InnerSize w) - 8) sdiv 8 in
      if c = 8 \<and> index > 0 then do {
        w \<leftarrow> DrawTextCursor index False w;
        let index = index - 1;
        w \<leftarrow> FillRectangle InnerAreaWriter (text_pos index) (Vec 8 16) kTextBoxBGColor w;
        w \<leftarrow> DrawTextCursor index True w;
        Some (index, w) }
      else if sint c \<ge> 0x20 \<and> index < max_chars then do {
        w \<leftarrow> DrawTextCursor index False w;
        w \<leftarrow> WriteAscii (hankaku (env_fonts E)) InnerAreaWriter (text_pos index) c kTextBoxTextColor w;
        let index = index + 1;
        w \<leftarrow> DrawTextCursor index True w;
        Some (index, w) }
      else Some (index, w))"

definition InputTextWindow :: "'f env \<Rightarrow> u8 \<Rightarrow> desktop \<Rightarrow> desktop option" where
  "InputTextWindow E c d =
     (if c = 0 then Some d
      else do {
        w \<leftarrow> windows (dk_gui d) (text_window d);
        (index, w) \<leftarrow> text_key E c (text_window_index d) w;
        g \<leftarrow> Draw_id E (text_window_layer_id d) ((dk_gui d)\<lparr>windows := (windows (dk_gui d))(text_window d \<mapsto> w)\<rparr>);
        Some (d\<lparr>dk_gui := g, text_window_index := index\<rparr>) })"

section \<open>The loop of the main task\<close>

definition kTextboxCursorTimer :: int where "kTextboxCursorTimer = 1"
definition kTimer05Sec :: nat where "kTimer05Sec = kTimerFreq div 2"

text \<open>The tick on the main window, at the head of every turn.\<close>

definition draw_counter :: "'f main_env \<Rightarrow> desktop \<Rightarrow> desktop option" where
  "draw_counter M d = with_gui (\<lambda>g. do {
     g \<leftarrow> on_window (main_window d) (\<lambda>w. do {
            w \<leftarrow> FillRectangle InnerAreaWriter (Vec 14 19) (Vec (8 * 10) 16) kWindowBGColor w;
            WriteString (env_fonts (me_env M)) InnerAreaWriter (Vec 14 19) (dec_pad 10 (tick (dk_timers d))) kWindowFGColor w }) g;
     Draw_id (me_env M) (main_window_layer_id d) g }) d"

definition on_timer :: "'f main_env \<Rightarrow> u64 \<Rightarrow> int \<Rightarrow> desktop \<Rightarrow> desktop option" where
  "on_timer M t v d =
     (if v = kTextboxCursorTimer
      then let d = d\<lparr>dk_timers := AddTimer (Timer_init (unat (t + of_nat kTimer05Sec)) kTextboxCursorTimer 1) (dk_timers d),
                    textbox_cursor_visible := \<not> textbox_cursor_visible d\<rparr> in
        with_gui (\<lambda>g. do {
          g \<leftarrow> on_window (text_window d) (DrawTextCursor (text_window_index d) (textbox_cursor_visible d)) g;
          Draw_id (me_env M) (text_window_layer_id d) g }) d
      else Some d)"

definition start_terminal_task :: "'f main_env \<Rightarrow> Gui \<Rightarrow> Gui option" where
  "start_terminal_task M g =
     (case NewTask (gui_tasks g) of (m, i) \<Rightarrow>
        map_option (\<lambda>m. g\<lparr>gui_tasks := m\<rparr>)
          (Wakeup i (-1) (upd_task i (InitContext (terminal_entry M) 0 (current_cr3 M) (stack_of M i)) m)))"

definition on_key :: "'f main_env \<Rightarrow> Message \<Rightarrow> desktop \<Rightarrow> desktop option" where
  "on_key M msg d =
     (case arg msg of
        KeyArg modi code c pressed \<Rightarrow>
          let act = active_id (dk_gui d) in
          if act = text_window_layer_id d then (if pressed then InputTextWindow (me_env M) c d else Some d)
          else if act = task_b_window_layer_id d then
            with_gui (\<lambda>g.
              if c = 0x73 then do {
                (m, ctl, err) \<leftarrow> Sleep_id (taskb_id d) (gui_tasks g);
                name \<leftarrow> err_name err;
                print_log M (str ''sleep TaskB: '' @ name @ [newline]) (g\<lparr>gui_tasks := m\<rparr>) }
              else if c = 0x77 then do {
                (m, err) \<leftarrow> Wakeup_id (taskb_id d) (-1) (gui_tasks g);
                name \<leftarrow> err_name err;
                print_log M (str ''wakeup TaskB: '' @ name @ [newline]) (g\<lparr>gui_tasks := m\<rparr>) }
              else Some g) d
          else if pressed \<and> code = 59 then with_gui (start_terminal_task M) d
          else with_gui (\<lambda>g.
            case layer_task_map g act of
              Some t \<Rightarrow> send_to t msg g
            | None \<Rightarrow> print_log M (str ''key push not handled: keycode '' @ hex2 code @ str '', ascii '' @ hex2 c @ [newline]) g) d
      | _ \<Rightarrow> None)"

definition on_layer_op :: "'f main_env \<Rightarrow> Message \<Rightarrow> desktop \<Rightarrow> desktop option" where
  "on_layer_op M msg d = with_gui (\<lambda>g. do {
     g \<leftarrow> ProcessLayerMessage (me_env M) msg g;
     send_to (src_task_id msg) \<lparr>msg_type = kLayerOpsFinish, src_task_id = 0, arg = NoArg\<rparr> g }) d"

text \<open>The types that the loop does not know, by their numbers.\<close>

definition unknown_type :: "msg_type \<Rightarrow> nat" where
  "unknown_type ty = (case ty of kEmptyMsg \<Rightarrow> 0 | kLayerOpsFinish \<Rightarrow> 6 | kMouseMove \<Rightarrow> 7 | kMouseButton \<Rightarrow> 8
     | kWindowActive \<Rightarrow> 9 | kPipe \<Rightarrow> 10 | _ \<Rightarrow> 11)"

definition handle_message :: "'f main_env \<Rightarrow> Message \<Rightarrow> desktop \<Rightarrow> desktop option" where
  "handle_message M msg d =
     (case msg_type msg of
        kInterruptXHCI \<Rightarrow> process_events M d
      | kInterruptLAPICTimer \<Rightarrow> with_gui (print_log M (str ''Timer interrupt'' @ [newline])) d
      | kTimerTimeout \<Rightarrow> (case arg msg of TimerArg t v \<Rightarrow> on_timer M t v d | _ \<Rightarrow> None)
      | kKeyPush \<Rightarrow> on_key M msg d
      | kLayerOps \<Rightarrow> on_layer_op M msg d
      | ty \<Rightarrow> with_gui (print_log M (str ''Unknown message type: '' @ dec (unknown_type ty) @ [newline])) d)"

text \<open>One turn; the main task is the first of all.\<close>

definition main_turn :: "'f main_env \<Rightarrow> desktop \<Rightarrow> (desktop \<times> control) option" where
  "main_turn M d = do {
     d \<leftarrow> draw_counter M d;
     let g = dk_gui d;
     t \<leftarrow> get_task (gui_tasks g) 1;
     (case ReceiveMessage t of
        (None, _) \<Rightarrow> map_option (\<lambda>(m, c). (d\<lparr>dk_gui := g\<lparr>gui_tasks := m\<rparr>\<rparr>, c)) (Sleep 1 (gui_tasks g))
      | (Some msg, t') \<Rightarrow>
          map_option (\<lambda>d. (d, Continue))
            (handle_message M msg (d\<lparr>dk_gui := g\<lparr>gui_tasks := upd_task 1 (\<lambda>t. t\<lparr>msgs := msgs t'\<rparr>) (gui_tasks g)\<rparr>\<rparr>))) }"

section \<open>The tasks of the counter and the clock\<close>

definition draw_request :: "tid \<Rightarrow> u32 \<Rightarrow> Message" where
  "draw_request i layer = \<lparr>msg_type = kLayerOps, src_task_id = i, arg = LayerArg LayerOperation.Draw layer (0, 0) (0, 0)\<rparr>"

text \<open>
  \<^verbatim>\<open>TaskB\<close>: the count is drawn, at 10000 the task goes to sleep, then it asks the main task to draw and
  waits for the answer; \<open>TaskB_wait\<close> is one turn of that inner loop, with whether it is left.
\<close>

definition TaskB_count :: "'f main_env \<Rightarrow> tid \<Rightarrow> nat \<Rightarrow> desktop \<Rightarrow> (nat \<times> desktop \<times> control) option" where
  "TaskB_count M i count0 d =
     (if count0 = 2 ^ 31 - 1 then None
      else do {
        let n = count0 + 1;
        d \<leftarrow> with_gui (on_window (task_b_window d) (\<lambda>w. do {
               w \<leftarrow> FillRectangle InnerAreaWriter (Vec 20 4) (Vec (8 * 10) 16) (px 0xc6 0xc6 0xc6) w;
               WriteString (env_fonts (me_env M)) InnerAreaWriter (Vec 20 4) (dec_pad 10 n) (px 0 0 0) w })) d;
        (if n = 10000
         then map_option (\<lambda>(m, c). (n, d\<lparr>dk_gui := (dk_gui d)\<lparr>gui_tasks := m\<rparr>\<rparr>, c)) (Sleep i (gui_tasks (dk_gui d)))
         else Some (n, d, Continue)) })"

definition TaskB_request :: "tid \<Rightarrow> desktop \<Rightarrow> desktop option" where
  "TaskB_request i d = with_gui (send_to 1 (draw_request i (task_b_window_layer_id d))) d"

definition TaskB_wait :: "tid \<Rightarrow> desktop \<Rightarrow> (bool \<times> desktop \<times> control) option" where
  "TaskB_wait i d = do {
     let g = dk_gui d;
     t \<leftarrow> get_task (gui_tasks g) i;
     (case ReceiveMessage t of
        (None, _) \<Rightarrow> map_option (\<lambda>(m, c). (False, d\<lparr>dk_gui := g\<lparr>gui_tasks := m\<rparr>\<rparr>, c)) (Sleep i (gui_tasks g))
      | (Some msg, t') \<Rightarrow>
          Some (msg_type msg = kLayerOpsFinish,
            d\<lparr>dk_gui := g\<lparr>gui_tasks := upd_task i (\<lambda>t. t\<lparr>msgs := msgs t'\<rparr>) (gui_tasks g)\<rparr>\<rparr>, Continue)) }"

definition kTaskBarColor :: PixelColor where "kTaskBarColor = px 255 255 255"
definition kMainLightColor :: PixelColor where "kMainLightColor = px 255 173 119"
definition kMainLight2Color :: PixelColor where "kMainLight2Color = px 255 140 64"
definition kMainTextColor :: PixelColor where "kMainTextColor = px 143 143 182"
definition kTaskBarHeight :: int where "kTaskBarHeight = 35"
definition kInfoBallRadius :: int where "kInfoBallRadius = 35"

record EFI_TIME =
  tm_year :: nat
  tm_month :: nat
  tm_day :: nat
  tm_hour :: nat
  tm_minute :: nat
  tm_second :: nat

record wallclock =
  date_window :: nat
  date_window_layer_id :: u32
  clock_window :: nat
  clock_window_layer_id :: u32

definition TaskWallclock_init :: "'f main_env \<Rightarrow> nat \<Rightarrow> nat \<Rightarrow> desktop \<Rightarrow> (wallclock \<times> desktop) option" where
  "TaskWallclock_init M p1 p2 d = do {
     let g = dk_gui d;
     let kFrameWidth = vx (ScreenSize g);
     let kFrameHeight = vy (ScreenSize g);
     w1 \<leftarrow> Window_init (8 * 10) 16 (me_format M);
     let (g, i1) = NewLayer (me_env M) (g\<lparr>windows := (windows g)(p1 \<mapsto> w1)\<rparr>);
     let g = upd_layer i1 (lay_Move (Vec (kFrameWidth - 80 - 20) (kFrameHeight - kTaskBarHeight sdiv 2 - 8))
               \<circ> lay_SetDraggable False \<circ> lay_SetWindow p1) g;
     w2 \<leftarrow> Window_init 48 48 (me_format M);
     let (g, i2) = NewLayer (me_env M) (g\<lparr>windows := (windows g)(p2 \<mapsto> w2)\<rparr>);
     let g = upd_layer i2 (lay_Move (Vec (kFrameWidth sdiv 2 - 48 sdiv 2) (kFrameHeight - kInfoBallRadius - 5 - 48 sdiv 2))
               \<circ> lay_SetDraggable False \<circ> lay_SetWindow p2) g;
     g \<leftarrow> SetIndex i1 2 g;
     g \<leftarrow> SetIndex i2 2 g;
     Some (\<lparr>date_window = p1, date_window_layer_id = i1, clock_window = p2, clock_window_layer_id = i2\<rparr>, d\<lparr>dk_gui := g\<rparr>) }"

text \<open>\<^verbatim>\<open>draw_current_time\<close>; without a time from the firmware the task halts, which is \<open>None\<close>.\<close>

definition draw_clock :: "'f fonts \<Rightarrow> EFI_TIME \<Rightarrow> Window \<Rightarrow> Window option" where
  "draw_clock fts t w = do {
     w \<leftarrow> FillRectangle WindowWriter (Vec 0 0) (win_Size w) kMainLightColor w;
     let s = dec (tm_second t div 10) @ dec (tm_second t mod 10);
     (c, n) \<leftarrow> ConvertUTF8To32 s;
     (w, err) \<leftarrow> WriteUnicode fts WindowWriter (Vec (48 sdiv 2 - 38 sdiv 2 - 3) (48 sdiv 2 - 38 sdiv 2 - 7)) c kMainLight2Color 38 True w;
     (c, n) \<leftarrow> ConvertUTF8To32 (drop 1 s);
     (w, err) \<leftarrow> WriteUnicode fts WindowWriter (Vec (48 sdiv 2 + 3) (48 sdiv 2 - 38 sdiv 2 - 7)) c kMainLight2Color 38 True w;
     WriteString fts WindowWriter (Vec (48 sdiv 2 - (8 * 5) sdiv 2) (48 sdiv 2 - 8))
       (dec_pad 2 (tm_hour t) @ 0x3a # dec_pad 2 (tm_minute t)) kDesktopFGColor w }"

definition draw_date :: "'f fonts \<Rightarrow> EFI_TIME \<Rightarrow> Window \<Rightarrow> Window option" where
  "draw_date fts t w = do {
     w \<leftarrow> FillRectangle WindowWriter (Vec 0 0) (win_Size w) kTaskBarColor w;
     WriteString fts WindowWriter (Vec 0 0)
       (dec_pad 4 (tm_year t) @ 0x2d # dec_pad 2 (tm_month t) @ 0x2d # dec_pad 2 (tm_day t)) kMainTextColor w }"

definition draw_current_time :: "'f main_env \<Rightarrow> EFI_TIME option \<Rightarrow> tid \<Rightarrow> wallclock \<Rightarrow> desktop \<Rightarrow> desktop option" where
  "draw_current_time M now i wc d = do {
     t \<leftarrow> now;
     let fts = env_fonts (me_env M);
     with_gui (\<lambda>g. do {
       g \<leftarrow> on_window (date_window wc) (draw_date fts t) g;
       g \<leftarrow> on_window (clock_window wc) (draw_clock fts t) g;
       g \<leftarrow> send_to 1 (draw_request i (date_window_layer_id wc)) g;
       send_to 1 (draw_request i (clock_window_layer_id wc)) g }) d }"

definition TaskWallclock_start :: "'f main_env \<Rightarrow> EFI_TIME option \<Rightarrow> tid \<Rightarrow> wallclock \<Rightarrow> desktop \<Rightarrow> desktop option" where
  "TaskWallclock_start M now i wc d = do {
     d \<leftarrow> draw_current_time M now i wc d;
     Some (d\<lparr>dk_timers := AddTimer (Timer_init (tick (dk_timers d)) 1 i) (dk_timers d)\<rparr>) }"

definition TaskWallclock_turn :: "'f main_env \<Rightarrow> EFI_TIME option \<Rightarrow> tid \<Rightarrow> wallclock \<Rightarrow> desktop \<Rightarrow> (desktop \<times> control) option" where
  "TaskWallclock_turn M now i wc d = do {
     let g = dk_gui d;
     t \<leftarrow> get_task (gui_tasks g) i;
     (case ReceiveMessage t of
        (None, _) \<Rightarrow> map_option (\<lambda>(m, c). (d\<lparr>dk_gui := g\<lparr>gui_tasks := m\<rparr>\<rparr>, c)) (Sleep i (gui_tasks g))
      | (Some msg, t') \<Rightarrow>
          let d = d\<lparr>dk_gui := g\<lparr>gui_tasks := upd_task i (\<lambda>t. t\<lparr>msgs := msgs t'\<rparr>) (gui_tasks g)\<rparr>\<rparr> in
          if msg_type msg = kTimerTimeout then
            (case arg msg of
               TimerArg expired v \<Rightarrow> do {
                 d \<leftarrow> draw_current_time M now i wc d;
                 Some (d\<lparr>dk_timers := AddTimer (Timer_init (unat (expired + of_nat kTimerFreq)) 1 i) (dk_timers d)\<rparr>, Continue) }
             | _ \<Rightarrow> None)
          else Some (d, Continue)) }"

section \<open>Opaque windows\<close>

text \<open>
  The windows that the main task draws in: \<open>_data\<close> and the shadow buffer in step, as long as the window is not
  scrolled, no transparent colour, and the format of the screen.
\<close>

definition plain_win :: "PixelFormat \<Rightarrow> Window \<Rightarrow> bool" where
  "plain_win fmt w \<longleftrightarrow> win_good w \<and> transparent_color w = None \<and> pixel_format (shadow_buffer w) = fmt"

lemma plain_write:
  assumes "plain_win fmt w" and "in_win w q"
  shows "\<exists>w'. win_Write q c w = Some w' \<and> plain_win fmt w' \<and> win_width w' = win_width w \<and> win_height w' = win_height w
    \<and> (\<forall>p. in_win w p \<longrightarrow> At p w' = (if p = q then Some c else At p w))"
proof -
  have g: "win_good w" "win_ok w" using assms(1) by (simp_all add: plain_win_def win_good_def)
  from win_write_good [OF g(1) assms(2), of c] win_write_in [OF g(2) assms(2), of c] assms(1)
  show ?thesis by (auto simp: plain_win_def)
qed

lemma in_inner: "in_picture InnerAreaWriter w q \<longleftrightarrow> 0 \<le> vx q \<and> vx q < win_width w - 4 \<and> 0 \<le> vy q \<and> vy q < win_height w - 29"
  by (auto simp: in_picture_def InnerAreaWriter_def in_rect_def kTopLeftMargin_def kBottomRightMargin_def)

interpretation pli: pixel_canvas InnerAreaWriter "plain_win fmt" "pw_GetPixel InnerAreaWriter" for fmt
proof
  fix w q c
  assume a: "plain_win fmt w" "in_picture InnerAreaWriter w q"
  have inner: "in_picture InnerAreaWriter w p \<Longrightarrow> in_win w (p + kTopLeftMargin)" for p
    by (auto simp: in_inner in_win_def kTopLeftMargin_def)
  have inj: "p + kTopLeftMargin = q + kTopLeftMargin \<longleftrightarrow> p = q" for p by (auto simp: vec_eq_iff)
  from plain_write [OF a(1) inner [OF a(2)], of c] inner inj
  show "\<exists>w'. pw_Write InnerAreaWriter q c w = Some w' \<and> plain_win fmt w'
      \<and> pw_Width InnerAreaWriter w' = pw_Width InnerAreaWriter w
      \<and> pw_Height InnerAreaWriter w' = pw_Height InnerAreaWriter w
      \<and> (\<forall>p. in_picture InnerAreaWriter w p \<longrightarrow>
            pw_GetPixel InnerAreaWriter p w' = (if p = q then Some c else pw_GetPixel InnerAreaWriter p w))"
    by (fastforce simp: InnerAreaWriter_def)
qed

text \<open>A desktop stays well-formed when something is drawn in a window of it.\<close>

lemma draw_in_window:
  assumes g: "gui_ok g" and p: "windows g p = Some w" and w': "plain_win (pixel_format (gui_screen g)) w'"
    and dim: "win_width w' = win_width w" "win_height w' = win_height w"
  defines "g' \<equiv> g\<lparr>windows := (windows g)(p \<mapsto> w')\<rparr>"
  shows "gui_ok g'" "FindLayer i g' = FindLayer i g" "covered g' = covered g"
    "FindLayerByPosition q k g' = FindLayerByPosition q k g"
proof -
  have find: "FindLayer j g' = FindLayer j g" for j by (simp add: FindLayer_def g'_def)
  then show "FindLayer i g' = FindLayer i g" .
  have win: "lay_GetWindow g' l = (if lay_window l = Some p then Some w' else lay_GetWindow g l)" for l
    by (auto simp: lay_GetWindow_def g'_def split: option.split)
  have old: "lay_window l = Some p \<Longrightarrow> lay_GetWindow g l = Some w" for l using p by (simp add: lay_GetWindow_def)
  have cov: "covers g' = covers g"
    using old by (auto simp: fun_eq_iff covers_def win win_Size_def dim)
  show "covered g' = covered g" unfolding covered_def find cov ..
  show "FindLayerByPosition q k g' = FindLayerByPosition q k g"
    unfolding FindLayerByPosition_def find cov by (simp add: g'_def)
  have same: "gui_screen g' = gui_screen g" "back_buffer g' = back_buffer g" "layer_stack g' = layer_stack g"
    "globalTransparent g' = globalTransparent g" by (simp_all add: g'_def)
  have "stack_ok g' = stack_ok g" unfolding stack_ok_def find same(3) by (simp add: g'_def)
  moreover have "layer_ok g' (pixel_format (gui_screen g)) j" if "layer_ok g (pixel_format (gui_screen g)) j" for j
    using that w' by (auto simp: layer_ok_def find win plain_win_def win_good_def split: option.splits)
  ultimately show "gui_ok g'" using g by (simp add: gui_ok_def same)
qed

lemma found_covered: "stack_ok g \<Longrightarrow> FindLayerByPosition q 0 g = Some i \<Longrightarrow> covered g q i"
  by (auto simp: FindLayerByPosition_covered find_Some_iff)

text \<open>
  A layer drawn on a well-formed desktop: only the two buffers change, the desktop stays well-formed,
  and where the layer is the topmost one and hides what is below it the screen shows it.
\<close>

definition draws_layer :: "u32 \<Rightarrow> Gui \<Rightarrow> Gui \<Rightarrow> bool" where
  "draws_layer i g g' \<longleftrightarrow> gui_ok g' \<and> g' = g\<lparr>back_buffer := back_buffer g', gui_screen := gui_screen g'\<rparr>
     \<and> in_fb (gui_screen g') = in_fb (gui_screen g) \<and> pixel_format (gui_screen g') = pixel_format (gui_screen g)
     \<and> (\<forall>q. in_fb (gui_screen g) q \<and> FindLayerByPosition q 0 g = Some i \<and> solid g q i \<longrightarrow>
          fb_GetPixel q (gui_screen g') = layer_pixel g q i)"

lemma Draw_id_draws:
  assumes "gui_ok g" and "i \<in> set (layer_stack g)"
  shows "\<exists>g'. Draw_id E i g = Some g' \<and> draws_layer i g g'"
proof -
  note ok = gui_okD(1) [OF assms(1)]
  obtain g' where g': "Draw_id E i g = Some g'" "Layer.redrawn E (\<lambda>q. covered g q i) (drawn_with g i) g g'"
    using Draw_id_spec [OF assms] by blast
  have "fb_GetPixel q (gui_screen g') = layer_pixel g q i"
    if q: "in_fb (gui_screen g) q" "FindLayerByPosition q 0 g = Some i" "solid g q i" for q
    using g'(2) q(1) found_covered [OF ok q(2)] drawn_with_found [OF ok assms(2) found_covered [OF ok q(2)] q(2,3)]
    by (simp add: Layer.redrawn_def)
  with g' have "draws_layer i g g'" unfolding draws_layer_def Layer.redrawn_def by blast
  with g'(1) show ?thesis by blast
qed

lemma draws_layer_same:
  assumes "draws_layer i g g'"
  shows "gui_tasks g' = gui_tasks g" "layer_stack g' = layer_stack g" "windows g' = windows g"
    "FindLayer k g' = FindLayer k g" "FindLayerByPosition q j g' = FindLayerByPosition q j g" "layer_pixel g' = layer_pixel g"
    "solid g' = solid g" "is_transparent g' = is_transparent g"
proof -
  have e: "g' = g\<lparr>back_buffer := back_buffer g', gui_screen := gui_screen g'\<rparr>" using assms by (simp only: draws_layer_def)
  show "FindLayer k g' = FindLayer k g" "FindLayerByPosition q j g' = FindLayerByPosition q j g" "layer_pixel g' = layer_pixel g"
    "solid g' = solid g" "is_transparent g' = is_transparent g"
    using layer_state_same [OF e] by simp_all
  show "gui_tasks g' = gui_tasks g" "layer_stack g' = layer_stack g" "windows g' = windows g" by (subst e, simp)+
qed

text \<open>The tasks do not matter to what is drawn.\<close>

lemma gui_ok_tasks [simp]: "gui_ok (g\<lparr>gui_tasks := m\<rparr>) = gui_ok g"
proof -
  have find: "FindLayer i (g\<lparr>gui_tasks := m\<rparr>) = FindLayer i g" for i by (simp add: FindLayer_def)
  have win: "lay_GetWindow (g\<lparr>gui_tasks := m\<rparr>) = lay_GetWindow g"
    by (simp add: lay_GetWindow_def fun_eq_iff cong: option.case_cong)
  show ?thesis unfolding gui_ok_def stack_ok_def layer_ok_def find win by (simp cong: option.case_cong)
qed

lemma find_layer_tasks [simp]:
  "FindLayer i (g\<lparr>gui_tasks := m\<rparr>) = FindLayer i g"
  "FindLayerByPosition q k (g\<lparr>gui_tasks := m\<rparr>) = FindLayerByPosition q k g"
  "layer_pixel (g\<lparr>gui_tasks := m\<rparr>) = layer_pixel g"
  "solid (g\<lparr>gui_tasks := m\<rparr>) = solid g"
proof -
  show find: "FindLayer i (g\<lparr>gui_tasks := m\<rparr>) = FindLayer i g" for i by (simp add: FindLayer_def)
  have win: "lay_GetWindow (g\<lparr>gui_tasks := m\<rparr>) = lay_GetWindow g"
    by (simp add: lay_GetWindow_def fun_eq_iff cong: option.case_cong)
  show "FindLayerByPosition q k (g\<lparr>gui_tasks := m\<rparr>) = FindLayerByPosition q k g"
    unfolding FindLayerByPosition_def find covers_def win by simp
  show "layer_pixel (g\<lparr>gui_tasks := m\<rparr>) = layer_pixel g" unfolding layer_pixel_def find win ..
  have "is_transparent (g\<lparr>gui_tasks := m\<rparr>) = is_transparent g" by (simp add: is_transparent_def fun_eq_iff)
  then show "solid (g\<lparr>gui_tasks := m\<rparr>) = solid g" unfolding solid_def find win by (simp only:)
qed

section \<open>The text box shows the line\<close>

definition kTextMax :: nat where "kTextMax = 18"

text \<open>The line after a key: the backspace removes the last character, a printable one is added while there is room.\<close>

definition box_key :: "u8 \<Rightarrow> u8 list \<Rightarrow> u8 list" where
  "box_key c l = (if c = 8 \<and> l \<noteq> [] then butlast l else if sint c \<ge> 0x20 \<and> length l < kTextMax then l @ [c] else l)"

text \<open>The colour that a pixel of the text area has when it shows \<open>l\<close>, and the area of the cursor.\<close>

definition box_pixel :: "u8 list \<Rightarrow> u8 list \<Rightarrow> Vector2D \<Rightarrow> PixelColor" where
  "box_pixel font l q =
     (if \<exists>i < length l. glyph_at font (l ! i) (text_pos (int i)) q then kTextBoxTextColor else kTextBoxBGColor)"

definition text_area :: "Vector2D \<Rightarrow> bool" where
  "text_area = in_rect (Rect (text_pos 0) (Vec (8 * 18) 16))"

definition at_cursor :: "nat \<Rightarrow> Vector2D \<Rightarrow> bool" where
  "at_cursor n = in_rect (Rect (Vec (6 + 8 * int n) 3) (Vec 2 18))"

definition inner_pixel :: "Vector2D \<Rightarrow> Window \<Rightarrow> PixelColor option" where
  "inner_pixel = pw_GetPixel InnerAreaWriter"

text \<open>The pixels that the line and its cursor, visible or not, take, and their colours.\<close>

definition line_area :: "nat \<Rightarrow> Vector2D \<Rightarrow> bool" where
  "line_area n q \<longleftrightarrow> text_area q \<or> at_cursor n q"

definition line_pixel :: "u8 list \<Rightarrow> u8 list \<Rightarrow> bool \<Rightarrow> Vector2D \<Rightarrow> PixelColor" where
  "line_pixel font l visible q =
     (if at_cursor (length l) q then if visible then kTextBoxTextColor else kTextBoxBGColor else box_pixel font l q)"

definition shows_line :: "u8 list \<Rightarrow> u8 list \<Rightarrow> bool \<Rightarrow> Window \<Rightarrow> bool" where
  "shows_line font l visible w \<longleftrightarrow>
     (\<forall>q. line_area (length l) q \<longrightarrow> inner_pixel q w = Some (line_pixel font l visible q))"

definition box_win :: "PixelFormat \<Rightarrow> Window \<Rightarrow> bool" where
  "box_win fmt w \<longleftrightarrow> plain_win fmt w \<and> win_width w = 160 \<and> win_height w = 54"

definition in_box :: "Vector2D \<Rightarrow> bool" where
  "in_box = in_rect (Rect (Vec 0 0) (Vec 156 25))"

lemma box_area: "box_win fmt w \<Longrightarrow> in_box q \<Longrightarrow> in_picture InnerAreaWriter w q"
  by (auto simp: box_win_def in_box_def in_inner in_rect_def)

lemma line_in_box: "text_area q \<Longrightarrow> in_box q" "n \<le> kTextMax \<Longrightarrow> at_cursor n q \<Longrightarrow> in_box q"
  by (auto simp: in_box_def text_area_def at_cursor_def text_pos_def in_rect_def kTextMax_def)

text \<open>Drawing a set of pixels of a window of that size.\<close>

definition box_painted :: "PixelFormat \<Rightarrow> (Vector2D \<Rightarrow> bool) \<Rightarrow> PixelColor \<Rightarrow> Window \<Rightarrow> Window \<Rightarrow> bool" where
  "box_painted fmt P c w w' \<longleftrightarrow> box_win fmt w'
     \<and> (\<forall>q. in_box q \<longrightarrow> inner_pixel q w' = (if P q then Some c else inner_pixel q w))"

lemma inner_size: "pw_Width InnerAreaWriter w = win_width w - 4" "pw_Height InnerAreaWriter w = win_height w - 29"
  by (simp_all add: InnerAreaWriter_def kTopLeftMargin_def kBottomRightMargin_def)

lemma box_paintedI:
  assumes "box_win fmt w" and "pli.painted fmt P c w w'"
  shows "box_painted fmt P c w w'"
proof -
  from assms(2) have w': "plain_win fmt w'" "win_width w' = win_width w" "win_height w' = win_height w"
    "\<forall>p. in_picture InnerAreaWriter w p \<longrightarrow> inner_pixel p w' = (if P p then Some c else inner_pixel p w)"
    unfolding pli.painted_def inner_size inner_pixel_def by simp_all
  with assms(1) box_area [OF assms(1)] show ?thesis unfolding box_painted_def box_win_def by simp
qed

lemma fill_box:
  assumes "box_win fmt w" and "0 \<le> vx pos" "0 \<le> vy pos" "vx pos + vx sz \<le> 156" "vy pos + vy sz \<le> 25"
  shows "\<exists>w'. FillRectangle InnerAreaWriter pos sz c w = Some w' \<and> box_painted fmt (in_rect (Rect pos sz)) c w w'"
proof -
  have "\<forall>q. in_rect (Rect pos sz) q \<longrightarrow> in_picture InnerAreaWriter w q"
    using assms by (auto simp: in_inner in_rect_def box_win_def)
  then obtain w' where "FillRectangle InnerAreaWriter pos sz c w = Some w'" "pli.painted fmt (in_rect (Rect pos sz)) c w w'"
    using pli.FillRectangle_paints [of fmt w pos sz c] assms(1) unfolding box_win_def by blast
  with box_paintedI [OF assms(1)] show ?thesis by blast
qed

lemma cursor_box:
  assumes "box_win fmt w" and "n \<le> kTextMax"
  shows "\<exists>w'. DrawTextCursor (int n) v w = Some w'
    \<and> box_painted fmt (at_cursor n) (if v then kTextBoxTextColor else kTextBoxBGColor) w w'"
  using fill_box [OF assms(1), of "Vec (6 + 8 * int n) 3" "Vec 2 18"] assms(2)
  by (simp add: DrawTextCursor_def at_cursor_def kTextMax_def)

lemma ascii_box:
  assumes "box_win fmt w" and "n < kTextMax" and "c < 0x80" and "2048 \<le> length font"
  shows "\<exists>w'. WriteAscii font InnerAreaWriter (text_pos (int n)) c color w = Some w'
    \<and> box_painted fmt (glyph_at font c (text_pos (int n))) color w w'"
proof -
  have "\<forall>q. in_rect (Rect (text_pos (int n)) (Vec 8 16)) q \<longrightarrow> in_picture InnerAreaWriter w q"
    using assms(1,2) by (auto simp: in_inner in_rect_def box_win_def text_pos_def kTextMax_def)
  then obtain w' where "WriteAscii font InnerAreaWriter (text_pos (int n)) c color w = Some w'"
    "pli.painted fmt (glyph_at font c (text_pos (int n))) color w w'"
    using pli.WriteAscii_paints [of fmt w c font "text_pos (int n)" color] assms unfolding box_win_def by blast
  with box_paintedI [OF assms(1)] show ?thesis by blast
qed

lemma word_less_sint_ascii:
  assumes "0 \<le> sint (c :: u8)"
  shows "c < 0x80"
proof -
  have "\<not> sint c < 0" using assms by simp
  then have "\<not> bit c 7" by (simp add: sint_uint signed_take_bit_negative_iff bit_uint_iff)
  then have "bit c n \<Longrightarrow> n < 7" for n using bit_imp_le_length [of c n] by (cases "n = 7") auto
  then have "c AND mask 7 = c" by (intro bit_word_eqI) (auto simp: bit_simps)
  moreover have "c AND mask 7 < 2 ^ 7" by (rule and_mask_less') simp
  ultimately show ?thesis by simp
qed

text \<open>The glyphs of a line are left of its end.\<close>

lemma glyph_left: "glyph_at font c (text_pos (int i)) q \<Longrightarrow> i < n \<Longrightarrow> vx q < 4 + 8 * int n"
  using glyph_in_cell [of font c "text_pos (int i)" q] by (auto simp: in_rect_def text_pos_def)

lemma box_pixel_right: "4 + 8 * int (length l) \<le> vx q \<Longrightarrow> box_pixel font l q = kTextBoxBGColor"
  using glyph_left by (fastforce simp: box_pixel_def)

lemma box_pixel_snoc:
  "box_pixel font (l @ [c]) q =
     (if glyph_at font c (text_pos (int (length l))) q then kTextBoxTextColor else box_pixel font l q)"
  by (simp add: box_pixel_def Ex_less_Suc nth_append cong: conj_cong)

lemma text_key_shows:
  assumes w: "box_win fmt w" and s: "shows_line (hankaku (env_fonts E)) l v w" and n: "length l \<le> kTextMax"
    and font: "2048 \<le> length (hankaku (env_fonts E))"
  shows "\<exists>w'. text_key E c (int (length l)) w = Some (int (length (box_key c l)), w') \<and> box_win fmt w'
    \<and> shows_line (hankaku (env_fonts E)) (box_key c l) (v \<or> box_key c l \<noteq> l) w'"
proof -
  let ?font = "hankaku (env_fonts E)" and ?n = "length l"
  have max: "(vx (InnerSize w) - 8) sdiv 8 = int kTextMax"
    using w by (simp add: box_win_def InnerSize_def win_Size_def kTopLeftMargin_def kBottomRightMargin_def kTextMax_def
        signed_divide_int_def)
  obtain w1 where w1: "DrawTextCursor (int ?n) False w = Some w1" "box_painted fmt (at_cursor ?n) kTextBoxBGColor w w1"
    using cursor_box [OF w n, of False] by auto
  have b1: "box_win fmt w1" using w1(2) by (simp add: box_painted_def)
  have full: "inner_pixel q w1 = Some (box_pixel ?font l q)" if "text_area q" for q
    using w1(2) s that line_in_box(1) [OF that] box_pixel_right [of l q ?font]
    by (auto simp: box_painted_def shows_line_def line_area_def line_pixel_def at_cursor_def in_rect_def)
  show ?thesis
  proof (cases "c = 8 \<and> l \<noteq> []")
    case True
    then obtain k x where l: "l = k @ [x]" by (metis rev_exhaust)
    with n have k: "length k \<le> kTextMax" "int ?n - 1 = int (length k)" by simp_all
    obtain w2 where w2: "FillRectangle InnerAreaWriter (text_pos (int (length k))) (Vec 8 16) kTextBoxBGColor w1 = Some w2"
      "box_painted fmt (in_rect (Rect (text_pos (int (length k))) (Vec 8 16))) kTextBoxBGColor w1 w2"
      using fill_box [OF b1, of "text_pos (int (length k))" "Vec 8 16"] n by (auto simp: text_pos_def l kTextMax_def)
    then have b2: "box_win fmt w2" by (simp add: box_painted_def)
    obtain w3 where w3: "DrawTextCursor (int (length k)) True w2 = Some w3" "box_painted fmt (at_cursor (length k)) kTextBoxTextColor w2 w3"
      using cursor_box [OF b2 k(1), of True] by auto
    have "inner_pixel q w2 = Some (box_pixel ?font k q)" if q: "text_area q" for q
    proof (cases "in_rect (Rect (text_pos (int (length k))) (Vec 8 16)) q")
      case True
      then have "box_pixel ?font k q = kTextBoxBGColor" by (intro box_pixel_right) (simp add: in_rect_def text_pos_def)
      with w2(2) line_in_box(1) [OF q] True show ?thesis by (auto simp: box_painted_def)
    next
      case False
      then have "\<not> glyph_at ?font x (text_pos (int (length k))) q" using glyph_in_cell by blast
      with w2(2) full [OF q] line_in_box(1) [OF q] False show ?thesis by (simp add: box_painted_def l box_pixel_snoc)
    qed
    with w3 line_in_box(1) line_in_box(2) [OF k(1)] have "box_win fmt w3" "shows_line ?font k True w3"
      by (auto simp: box_painted_def shows_line_def line_area_def line_pixel_def)
    then show ?thesis using True w1(1) w2(1) w3(1) k(2) by (simp add: text_key_def Let_def box_key_def l)
  next
    case False
    then have n8: "\<not> (c = 8 \<and> int ?n > 0)" by simp
    show ?thesis
    proof (cases "sint c \<ge> 0x20 \<and> ?n < kTextMax")
      case True
      then have c: "c < 0x80" by (simp add: word_less_sint_ascii)
      obtain w2 where w2: "WriteAscii ?font InnerAreaWriter (text_pos (int ?n)) c kTextBoxTextColor w1 = Some w2"
        "box_painted fmt (glyph_at ?font c (text_pos (int ?n))) kTextBoxTextColor w1 w2"
        using ascii_box [OF b1 _ c font] True by blast
      then have b2: "box_win fmt w2" by (simp add: box_painted_def)
      obtain w3 where w3: "DrawTextCursor (int (Suc ?n)) True w2 = Some w3" "box_painted fmt (at_cursor (Suc ?n)) kTextBoxTextColor w2 w3"
        using cursor_box [OF b2, of "Suc ?n" True] True by auto
      have "inner_pixel q w2 = Some (box_pixel ?font (l @ [c]) q)" if "text_area q" for q
        using w2(2) full [OF that] line_in_box(1) [OF that] by (simp add: box_painted_def box_pixel_snoc)
      with w3 line_in_box(1) line_in_box(2) [of "Suc ?n"] True have "box_win fmt w3" "shows_line ?font (l @ [c]) True w3"
        by (auto simp: box_painted_def shows_line_def line_area_def line_pixel_def)
      moreover have "int ?n < int kTextMax" using True by simp
      ultimately show ?thesis using True w1(1) w2(1) w3(1)
        unfolding text_key_def max Let_def if_not_P [OF n8] box_key_def if_not_P [OF False]
        by (simp add: add.commute)
    next
      case no: False
      then show ?thesis using n8 False max w s by (auto simp: text_key_def Let_def box_key_def)
    qed
  qed
qed

text \<open>The text box of a desktop, with the line that it shows, and with its cursor if that is visible.\<close>

definition text_box_ok :: "u8 list \<Rightarrow> u8 list \<Rightarrow> bool \<Rightarrow> desktop \<Rightarrow> bool" where
  "text_box_ok font l visible d \<longleftrightarrow> gui_ok (dk_gui d) \<and> text_window_layer_id d \<in> set (layer_stack (dk_gui d))
     \<and> length l \<le> kTextMax \<and> text_window_index d = int (length l)
     \<and> (\<exists>w. windows (dk_gui d) (text_window d) = Some w \<and> box_win (pixel_format (gui_screen (dk_gui d))) w
          \<and> shows_line font l visible w)"

lemma box_key_length: "length l \<le> kTextMax \<Longrightarrow> length (box_key c l) \<le> kTextMax"
  by (auto simp: box_key_def)

text \<open>
  C20: the text box.  Whatever key is pressed, the handler returns, no pixel outside the window is
  touched, and the box shows the line after that key, glyph by glyph: a printable character is added
  while there are fewer than 18, the backspace removes the last one, anything else changes nothing.
  After a change the cursor is visible behind the last character, otherwise it is visible if it was.
  What the box shows, the cursor included, is on the screen wherever its layer is the topmost one and is
  not blended with the layers below it.
\<close>

theorem text_box_shows_line:
  assumes "text_box_ok (hankaku (env_fonts E)) l v d" and "2048 \<le> length (hankaku (env_fonts E))"
    and "FindLayer (text_window_layer_id d) (dk_gui d) = Some lay" and "lay_window lay = Some (text_window d)"
  shows "\<exists>d'. InputTextWindow E c d = Some d'
    \<and> text_box_ok (hankaku (env_fonts E)) (box_key c l) (v \<or> box_key c l \<noteq> l) d'
    \<and> (c \<noteq> 0 \<and> \<not> is_transparent (dk_gui d') lay \<longrightarrow>
        (\<forall>q p. in_fb (gui_screen (dk_gui d')) q \<and> FindLayerByPosition q 0 (dk_gui d') = Some (text_window_layer_id d)
          \<and> q = lay_pos lay + kTopLeftMargin + p \<and> line_area (length (box_key c l)) p \<longrightarrow>
          fb_GetPixel q (gui_screen (dk_gui d')) =
            Some (line_pixel (hankaku (env_fonts E)) (box_key c l) (v \<or> box_key c l \<noteq> l) p)))"
proof (cases "c = 0")
  case True
  with assms(1) show ?thesis by (simp add: InputTextWindow_def box_key_def)
next
  case False
  let ?g = "dk_gui d" and ?font = "hankaku (env_fonts E)" and ?i = "text_window_layer_id d" and ?l = "box_key c l"
    and ?v = "v \<or> box_key c l \<noteq> l"
  let ?fmt = "pixel_format (gui_screen ?g)"
  from assms(1) obtain w where g: "gui_ok ?g" "?i \<in> set (layer_stack ?g)" "length l \<le> kTextMax"
    "text_window_index d = int (length l)" and w: "windows ?g (text_window d) = Some w" "box_win ?fmt w" "shows_line ?font l v w"
    by (auto simp: text_box_ok_def)
  obtain w' where w': "text_key E c (int (length l)) w = Some (int (length ?l), w')" "box_win ?fmt w'" "shows_line ?font ?l ?v w'"
    using text_key_shows [OF w(2,3) g(3) assms(2)] by blast
  define g1 where "g1 = ?g\<lparr>windows := (windows ?g)(text_window d \<mapsto> w')\<rparr>"
  have pl: "plain_win ?fmt w'" "win_width w' = win_width w" "win_height w' = win_height w"
    using w(2) w'(2) by (simp_all add: box_win_def)
  note G = draw_in_window [OF g(1) w(1) pl, folded g1_def]
  have same: "layer_stack g1 = layer_stack ?g" "gui_screen g1 = gui_screen ?g" "windows g1 (text_window d) = Some w'"
    by (simp_all add: g1_def)
  obtain g2 where g2: "Draw_id E ?i g1 = Some g2" and dr: "draws_layer ?i g1 g2"
    using Draw_id_draws [OF G(1)] g(2) same(1) by auto
  note s2 = draws_layer_same [OF dr]
  have ok2: "gui_ok g2" "in_fb (gui_screen g2) = in_fb (gui_screen g1)" "pixel_format (gui_screen g2) = ?fmt"
    using dr same(2) by (simp_all only: draws_layer_def)
  let ?d = "d\<lparr>dk_gui := g2, text_window_index := int (length ?l)\<rparr>"
  have run: "InputTextWindow E c d = Some ?d"
    using False w(1) w'(1) g2 g(4) by (simp add: InputTextWindow_def g1_def)
  have box: "text_box_ok ?font ?l ?v ?d"
    using ok2 g(2) s2 same w'(2,3) box_key_length [OF g(3)] by (simp add: text_box_ok_def)
  have "fb_GetPixel q (gui_screen g2) = Some (line_pixel ?font ?l ?v p)"
    if q: "in_fb (gui_screen g2) q" "FindLayerByPosition q 0 g2 = Some ?i" and op: "\<not> is_transparent g2 lay"
      and p: "q = lay_pos lay + kTopLeftMargin + p" "line_area (length ?l) p" for q p
  proof -
    have tc: "transparent_color w' = None" "win_good w'" using pl(1) by (simp_all add: plain_win_def)
    have lay: "FindLayer ?i g1 = Some lay" "lay_GetWindow g1 lay = Some w'"
      using assms(3,4) same(3) by (simp_all add: G(2) lay_GetWindow_def)
    have found: "in_fb (gui_screen g1) q" "FindLayerByPosition q 0 g1 = Some ?i" using q s2(5) ok2(2) by simp_all
    have "covers g1 q lay" using found_covered [OF gui_okD(1) [OF G(1)] found(2)] lay(1) by (simp add: covered_def)
    then have in_w: "in_win w' (q - lay_pos lay)" by (simp add: covers_in_win [OF lay(2)])
    have "solid g1 q ?i" using lay op tc(1) by (simp add: solid_def s2(8))
    with found have "fb_GetPixel q (gui_screen g2) = layer_pixel g1 q ?i" using dr by (simp add: draws_layer_def)
    also have "\<dots> = fb_GetPixel (q - lay_pos lay) (shadow_buffer w')" using lay tc(1) by (simp add: layer_pixel_def)
    also have "\<dots> = At (q - lay_pos lay) w'" using tc(2) in_w by (simp add: win_good_def win_synced_def)
    also have "q - lay_pos lay = p + kTopLeftMargin" by (simp add: p(1) vec_eq_iff)
    also have "At (p + kTopLeftMargin) w' = inner_pixel p w'" by (simp add: inner_pixel_def InnerAreaWriter_def)
    finally show ?thesis using w'(3) p(2) by (simp add: shows_line_def)
  qed
  with run box show ?thesis by (intro exI [of _ ?d]) simp
qed

text \<open>An empty text box.\<close>

definition box_window :: Window where
  "box_window = the (FillRectangle InnerAreaWriter (Vec 0 0) (Vec 156 25) kTextBoxBGColor
     (the (Window_init 160 54 kPixelRGBResv8BitPerColor)))"

definition desktop_example :: desktop where
  "desktop_example = \<lparr>dk_gui = gui_example\<lparr>windows := (windows gui_example)(1 \<mapsto> box_window)\<rparr>,
     dk_timers = TimerManager_init, main_window = 0, main_window_layer_id = 1,
     text_window = 1, text_window_layer_id = 3, task_b_window = 1, task_b_window_layer_id = 2,
     taskb_id = 3, text_window_index = 0, textbox_cursor_visible = False\<rparr>"

lemma box_window_ok:
  "box_win kPixelRGBResv8BitPerColor box_window" "shows_line font [] False box_window"
proof -
  let ?fmt = kPixelRGBResv8BitPerColor
  from Window_init_good [of 160 54 ?fmt] obtain w where w: "Window_init 160 54 ?fmt = Some w" "box_win ?fmt w"
    by (auto simp: box_win_def plain_win_def)
  obtain w' where w': "FillRectangle InnerAreaWriter (Vec 0 0) (Vec 156 25) kTextBoxBGColor w = Some w'"
    "box_painted ?fmt (in_rect (Rect (Vec 0 0) (Vec 156 25))) kTextBoxBGColor w w'"
    using fill_box [OF w(2), of "Vec 0 0" "Vec 156 25"] by auto
  have b: "box_window = w'" by (simp add: box_window_def w(1) w'(1))
  show "box_win ?fmt box_window" using w'(2) by (simp add: b box_painted_def)
  have "in_box q" if "line_area 0 q" for q
    using that line_in_box(1) line_in_box(2) [of 0 q] by (auto simp: line_area_def)
  then show "shows_line font [] False box_window"
    using w'(2) by (simp add: b shows_line_def line_pixel_def box_pixel_def box_painted_def flip: in_box_def)
qed

lemma desktop_example_ok:
  "gui_ok (dk_gui desktop_example)" "pixel_format (gui_screen (dk_gui desktop_example)) = kPixelRGBResv8BitPerColor"
  "layer_stack (dk_gui desktop_example) = [1, 2, 3, 4]" "FindLayer i (dk_gui desktop_example) = FindLayer i gui_example"
  "windows (dk_gui desktop_example) 1 = Some box_window" "text_box_ok font [] False desktop_example"
proof -
  have fmt: "pixel_format (gui_screen gui_example) = kPixelRGBResv8BitPerColor"
    by (simp add: gui_example_def screen_example_def Initialize_def BytesPerPixel_def)
  let ?g = "gui_example\<lparr>windows := (windows gui_example)(1 \<mapsto> box_window)\<rparr>"
  note b = box_window_ok [unfolded box_win_def]
  have find: "FindLayer i ?g = FindLayer i gui_example" for i by (simp add: FindLayer_def)
  have lay: "layer_ok gui_example kPixelRGBResv8BitPerColor 1" "layer_ok gui_example kPixelRGBResv8BitPerColor 4"
    using gui_example_ok gui_example_stack(2) fmt by (simp_all add: gui_ok_def)
  have ok: "gui_ok ?g"
  proof -
    have "layer_ok ?g kPixelRGBResv8BitPerColor j" if "j \<in> set [1, 2, 3, 4]" for j
    proof (cases "j = 1 \<or> j = 4")
      case True
      with lay show ?thesis
        by (auto simp: layer_ok_def find gui_example_stack(3,6) lay_GetWindow_def layer_of_def
            simp del: One_nat_def cong: option.case_cong)
    next
      case False
      then have "j = 2 \<or> j = 3" using that by auto
      then show ?thesis using b(1) gui_example_stack(4,5)
        by (auto simp: layer_ok_def find lay_GetWindow_def layer_of_def plain_win_def win_good_def simp del: One_nat_def)
    qed
    moreover have "stack_ok ?g" using gui_example_stack(1) unfolding stack_ok_def find by simp
    ultimately show ?thesis
      using gui_okD(2,3,4,5) [OF gui_example_ok] gui_example_stack(2) fmt by (simp add: gui_ok_def)
  qed
  show "gui_ok (dk_gui desktop_example)" using ok by (simp add: desktop_example_def)
  show "FindLayer i (dk_gui desktop_example) = FindLayer i gui_example" by (simp add: desktop_example_def find del: One_nat_def)
  show "pixel_format (gui_screen (dk_gui desktop_example)) = kPixelRGBResv8BitPerColor" by (simp add: desktop_example_def fmt)
  show "layer_stack (dk_gui desktop_example) = [1, 2, 3, 4]" by (simp add: desktop_example_def gui_example_stack(2))
  show "windows (dk_gui desktop_example) 1 = Some box_window" by (simp add: desktop_example_def)
  show "text_box_ok font [] False desktop_example"
    using ok box_window_ok by (simp add: text_box_ok_def desktop_example_def gui_example_stack(2) fmt)
qed

definition env_example :: "unit env" where
  "env_example = \<lparr>env_blend = \<lambda>c d a. c, env_fonts = blank_fonts, env_pos = Vec 0 0, env_area = Rect (Vec 0 0) (Vec 0 0)\<rparr>"

lemma blank_hankaku: "2048 \<le> length (hankaku (env_fonts env_example))"
  by (simp add: env_example_def blank_fonts_def)

theorem text_box_shows_line_witness:
  "\<exists>d'. InputTextWindow env_example 0x41 desktop_example = Some d' \<and> text_box_ok (hankaku (env_fonts env_example)) [0x41] True d'"
proof -
  have "sint (0x41 :: u8) = 0x41" by simp
  then have "box_key 0x41 [] = [0x41]" by (simp add: box_key_def kTextMax_def)
  with text_box_shows_line [where lay = "layer_of 3 (Vec 20 20) (Some 1)" and c = "0x41", OF desktop_example_ok(6) blank_hankaku]
    desktop_example_ok(4) gui_example_stack(5) show ?thesis
    by (auto simp: desktop_example_def layer_of_def)
qed

section \<open>The counter on the main window\<close>

lemma dec_ascii: "\<forall>c \<in> set (dec n). c < 0x80"
proof (induction n rule: dec.induct)
  case (1 n)
  have "(of_nat (48 + k) :: u8) < 0x80" if "k < 10" for k
    using that by (simp add: word_less_nat_alt unat_of_nat del: of_nat_add)
  from this [of n] this [of "n mod 10"] 1 show ?case by (subst dec.simps) auto
qed

lemma dec_length: "n < 10 ^ k \<Longrightarrow> 0 < k \<Longrightarrow> length (dec n) \<le> k"
proof (induction n arbitrary: k rule: dec.induct)
  case (1 n)
  show ?case
  proof (cases "n < 10")
    case True
    then show ?thesis using "1.prems" by (simp add: dec.simps [of n])
  next
    case False
    from "1.prems" obtain j where j: "k = Suc j" by (cases k) auto
    with "1.prems"(1) False have "n div 10 < 10 ^ j" "0 < j" by (auto intro: ccontr simp: less_mult_imp_div_less mult.commute)
    from "1.IH" [OF False this] show ?thesis using False j by (simp add: dec.simps [of n])
  qed
qed

lemma dec_pad_10: "n < 10 ^ 10 \<Longrightarrow> length (dec_pad 10 n) = 10" "\<forall>c \<in> set (dec_pad 10 n). c < 0x80"
  using dec_length [of n 10] dec_ascii [of n] by (auto simp: dec_pad_def)

lemma draw_counter_ok:
  assumes g: "gui_ok (dk_gui d)" and i: "main_window_layer_id d \<in> set (layer_stack (dk_gui d))"
    and l: "FindLayer (main_window_layer_id d) (dk_gui d) = Some lay" "lay_window lay = Some (main_window d)"
    and w: "windows (dk_gui d) (main_window d) = Some w" "160 \<le> win_width w" "68 \<le> win_height w"
    and pl: "plain_win (pixel_format (gui_screen (dk_gui d))) w"
    and t: "tick (dk_timers d) < 10 ^ 10" and f: "2048 \<le> length (hankaku (env_fonts (me_env M)))"
  shows "\<exists>g'. draw_counter M d = Some (d\<lparr>dk_gui := g'\<rparr>) \<and> gui_ok g' \<and> gui_tasks g' = gui_tasks (dk_gui d)
    \<and> layer_stack g' = layer_stack (dk_gui d) \<and> (\<forall>i. FindLayer i g' = FindLayer i (dk_gui d))"
proof -
  let ?g = "dk_gui d" and ?fts = "env_fonts (me_env M)" and ?s = "dec_pad 10 (tick (dk_timers d))"
  let ?fmt = "pixel_format (gui_screen ?g)"
  have r: "\<forall>q. in_rect (Rect (Vec 14 19) (Vec (8 * 10) 16)) q \<longrightarrow> in_picture InnerAreaWriter v q"
    if "win_width v = win_width w" "win_height v = win_height w" for v
    using that w(2,3) by (auto simp: in_rect_def in_inner)
  obtain w1 where w1: "FillRectangle InnerAreaWriter (Vec 14 19) (Vec (8 * 10) 16) kWindowBGColor w = Some w1"
    "plain_win ?fmt w1" "win_width w1 = win_width w" "win_height w1 = win_height w"
    using pli.FillRectangle_paints [OF pl r [OF refl refl], of kWindowBGColor] unfolding pli.painted_def inner_size by auto
  have len: "length ?s = 10" using dec_pad_10(1) [OF t] .
  have "\<forall>q. in_rect (Rect (Vec 14 19 + Vec (8 * 0) 0) (Vec (8 * int (length ?s)) 16)) q \<longrightarrow> in_picture InnerAreaWriter w1 q"
    using r [OF w1(3,4)] by (simp add: len)
  from pli.string_loop_ascii [OF w1(2) dec_pad_10(2) f this, of "[]" kWindowFGColor]
  obtain w2 where w2: "WriteString ?fts InnerAreaWriter (Vec 14 19) ?s kWindowFGColor w1 = Some w2"
    "plain_win ?fmt w2" "win_width w2 = win_width w" "win_height w2 = win_height w"
    using w1(3,4) unfolding inner_size by (auto simp: WriteString_def string_loop.simps [of _ _ _ "[]"])
  let ?g1 = "?g\<lparr>windows := (windows ?g)(main_window d \<mapsto> w2)\<rparr>"
  note G = draw_in_window [OF g w(1) w2(2-4)]
  obtain g2 where g2: "Draw_id (me_env M) (main_window_layer_id d) ?g1 = Some g2" "draws_layer (main_window_layer_id d) ?g1 g2"
    using Draw_id_draws [OF G(1)] i by auto
  note s = draws_layer_same [OF g2(2)]
  have "gui_ok g2" using g2(2) by (simp only: draws_layer_def)
  moreover have "gui_tasks g2 = gui_tasks ?g" "layer_stack g2 = layer_stack ?g" by (simp_all add: s)
  moreover have "\<forall>i. FindLayer i g2 = FindLayer i ?g" using s(4) G(2) by simp
  moreover have "draw_counter M d = Some (d\<lparr>dk_gui := g2\<rparr>)"
    using w(1) w1(1) w2(1) g2(1) by (simp add: draw_counter_def with_gui_def on_window_def)
  ultimately show ?thesis by blast
qed

section \<open>Messages between the main task and the others\<close>

lemma send_to_task:
  assumes "sched_inv (gui_tasks g)" and "get_task (gui_tasks g) i = Some t"
  obtains m' where "send_to i msg g = Some (g\<lparr>gui_tasks := m'\<rparr>)" "sched_inv m'" "CurrentTask m' = CurrentTask (gui_tasks g)"
    "\<And>j. get_task m' j = (if j = i then Some (t\<lparr>msgs := msgs t @ [msg], ready_or_running := True\<rparr>) else get_task (gui_tasks g) j)"
  using SendMessage_spec [OF assms, of msg] unfolding send_to_def by (metis (no_types, lifting) case_prod_conv option.simps(9))

text \<open>
  When neither the text box nor the counter's window is active and the key is not F2, the main task puts
  the key, as it came, at the end of the queue of the task that owns the active layer and makes the task
  ready; it does nothing else to any task, to who is running, or to the desktop.
\<close>

lemma key_goes_to_active_task:
  assumes "sched_inv (gui_tasks (dk_gui d))" and "msg_type msg = kKeyPush" and "arg msg = KeyArg modi code c pressed"
    and "active_id (dk_gui d) = act" and "act \<noteq> text_window_layer_id d" and "act \<noteq> task_b_window_layer_id d"
    and "\<not> (pressed \<and> code = 59)" and "layer_task_map (dk_gui d) act = Some i" and "get_task (gui_tasks (dk_gui d)) i = Some t"
  shows "\<exists>m'. handle_message M msg d = Some (d\<lparr>dk_gui := (dk_gui d)\<lparr>gui_tasks := m'\<rparr>\<rparr>)
    \<and> sched_inv m' \<and> CurrentTask m' = CurrentTask (gui_tasks (dk_gui d))
    \<and> (\<forall>j. get_task m' j = (if j = i then Some (t\<lparr>msgs := msgs t @ [msg], ready_or_running := True\<rparr>)
          else get_task (gui_tasks (dk_gui d)) j))"
proof -
  obtain m' where m': "send_to i msg (dk_gui d) = Some ((dk_gui d)\<lparr>gui_tasks := m'\<rparr>)" "sched_inv m'"
    "CurrentTask m' = CurrentTask (gui_tasks (dk_gui d))"
    "\<And>j. get_task m' j = (if j = i then Some (t\<lparr>msgs := msgs t @ [msg], ready_or_running := True\<rparr>)
       else get_task (gui_tasks (dk_gui d)) j)"
    using send_to_task [OF assms(1,9)] by blast
  have "handle_message M msg d = Some (d\<lparr>dk_gui := (dk_gui d)\<lparr>gui_tasks := m'\<rparr>\<rparr>)"
    using assms(2-6,8) m'(1) by (simp add: handle_message_def on_key_def with_gui_def Let_def if_not_P [OF assms(7)])
  with m'(2-4) show ?thesis by blast
qed

text \<open>
  C17: a task that asks for its layer to be drawn is answered.  The counter's task sends its request, one
  turn of the main task takes it, draws the layer and answers, and the next turn of the counter's task
  takes the answer and leaves its loop; both queues are then empty again, the desktop is well-formed,
  and wherever the layer is the topmost one and hides what is below it the screen shows its window.  The
  answer has made the requesting task ready, whether it was asleep or not.
\<close>

theorem draw_request_answered:
  assumes g: "gui_ok (dk_gui d)" and inv: "sched_inv (gui_tasks (dk_gui d))"
    and main: "main_window_layer_id d \<in> set (layer_stack (dk_gui d))" "FindLayer (main_window_layer_id d) (dk_gui d) = Some lay"
      "lay_window lay = Some (main_window d)"
      "windows (dk_gui d) (main_window d) = Some w" "160 \<le> win_width w" "68 \<le> win_height w"
      "plain_win (pixel_format (gui_screen (dk_gui d))) w"
    and b: "task_b_window_layer_id d \<in> set (layer_stack (dk_gui d))"
    and tick: "tick (dk_timers d) < 10 ^ 10" and font: "2048 \<le> length (hankaku (env_fonts (me_env M)))"
    and t1: "get_task (gui_tasks (dk_gui d)) 1 = Some t1" "msgs t1 = []"
    and ti: "get_task (gui_tasks (dk_gui d)) i = Some ti" "msgs ti = []" "i \<noteq> 1"
  shows "\<exists>d1 d2 d3. TaskB_request i d = Some d1 \<and> main_turn M d1 = Some (d2, Continue)
    \<and> (\<exists>t. get_task (gui_tasks (dk_gui d2)) i = Some t \<and> ready_or_running t)
    \<and> TaskB_wait i d2 = Some (True, d3, Continue) \<and> gui_ok (dk_gui d3) \<and> sched_inv (gui_tasks (dk_gui d3))
    \<and> (\<forall>j. j = 1 \<or> j = i \<longrightarrow> (\<exists>t. get_task (gui_tasks (dk_gui d3)) j = Some t \<and> msgs t = []))
    \<and> (\<forall>q. in_fb (gui_screen (dk_gui d3)) q \<and> FindLayerByPosition q 0 (dk_gui d3) = Some (task_b_window_layer_id d)
          \<and> solid (dk_gui d3) q (task_b_window_layer_id d) \<longrightarrow>
         fb_GetPixel q (gui_screen (dk_gui d3)) = layer_pixel (dk_gui d3) q (task_b_window_layer_id d))"
proof -
  let ?b = "task_b_window_layer_id d" and ?E = "me_env M"
  let ?req = "draw_request i ?b" and ?fin = "\<lparr>msg_type = kLayerOpsFinish, src_task_id = 0, arg = NoArg\<rparr>"
  obtain m1 where m1: "send_to 1 ?req (dk_gui d) = Some ((dk_gui d)\<lparr>gui_tasks := m1\<rparr>)" "sched_inv m1"
    "\<And>j. get_task m1 j = (if j = 1 then Some (t1\<lparr>msgs := msgs t1 @ [?req], ready_or_running := True\<rparr>)
       else get_task (gui_tasks (dk_gui d)) j)"
    using send_to_task [OF inv t1(1)] by blast
  define d1 where "d1 = d\<lparr>dk_gui := (dk_gui d)\<lparr>gui_tasks := m1\<rparr>\<rparr>"
  have r1: "TaskB_request i d = Some d1" using m1(1) by (simp add: TaskB_request_def with_gui_def d1_def del: One_nat_def)
  have "gui_ok (dk_gui d1)" by (simp add: d1_def g)
  from draw_counter_ok [OF this, of lay w M] main tick font obtain g2 where
    g2: "draw_counter M d1 = Some (d1\<lparr>dk_gui := g2\<rparr>)" "gui_ok g2" "gui_tasks g2 = m1"
      "layer_stack g2 = layer_stack (dk_gui d)" by (auto simp: d1_def)
  let ?t1 = "t1\<lparr>msgs := [?req], ready_or_running := True\<rparr>"
  have k1: "get_task m1 1 = Some ?t1" using m1(3) [of 1] t1(2) by simp
  let ?pop = "\<lambda>t :: Task. t\<lparr>msgs := []\<rparr>"
  define m2 where "m2 = upd_task 1 ?pop m1"
  have inv2: "sched_inv m2" unfolding m2_def by (rule upd_msgs_inv [OF m1(2) k1])
  have k2: "get_task m2 j = (if j = 1 then Some (?pop ?t1) else get_task m1 j)" for j
    unfolding m2_def by (rule get_task_upd_Some [OF k1]) simp
  obtain g3 where g3: "Draw_id ?E ?b (g2\<lparr>gui_tasks := m2\<rparr>) = Some g3" "draws_layer ?b (g2\<lparr>gui_tasks := m2\<rparr>) g3"
    using Draw_id_draws [of "g2\<lparr>gui_tasks := m2\<rparr>" ?b ?E] g2(2,4) b by auto
  note s3 = draws_layer_same [OF g3(2)]
  have gt3: "gui_tasks g3 = m2" by (simp add: s3)
  have ki: "get_task (gui_tasks g3) i = Some ti" using k2 m1(3) ti by (simp add: gt3)
  obtain m4 where m4: "send_to i ?fin g3 = Some (g3\<lparr>gui_tasks := m4\<rparr>)" "sched_inv m4"
    "\<And>j. get_task m4 j = (if j = i then Some (ti\<lparr>msgs := msgs ti @ [?fin], ready_or_running := True\<rparr>)
       else get_task (gui_tasks g3) j)"
    using send_to_task [OF inv2 [folded gt3] ki] by blast
  define d2 where "d2 = d1\<lparr>dk_gui := g3\<lparr>gui_tasks := m4\<rparr>\<rparr>"
  have "handle_message M ?req (d1\<lparr>dk_gui := g2\<lparr>gui_tasks := m2\<rparr>\<rparr>) = Some d2"
    using g3(1) m4(1)
    by (simp add: handle_message_def draw_request_def on_layer_op_def with_gui_def ProcessLayerMessage_def d2_def)
  then have r2: "main_turn M d1 = Some (d2, Continue)"
    using g2(1,3) k1 by (simp add: main_turn_def ReceiveMessage_def m2_def)
  let ?ti = "ti\<lparr>msgs := [?fin], ready_or_running := True\<rparr>"
  have k4: "get_task m4 i = Some ?ti" using m4(3) [of i] ti(2) by simp
  define m5 where "m5 = upd_task i ?pop m4"
  define d3 where "d3 = d2\<lparr>dk_gui := g3\<lparr>gui_tasks := m5\<rparr>\<rparr>"
  have r3: "TaskB_wait i d2 = Some (True, d3, Continue)"
    by (simp add: TaskB_wait_def d2_def d3_def k4 ReceiveMessage_def m5_def)
  have inv5: "sched_inv m5" unfolding m5_def by (rule upd_msgs_inv [OF m4(2) k4])
  have k5: "get_task m5 j = (if j = i then Some (?pop ?ti) else get_task m4 j)" for j
    unfolding m5_def by (rule get_task_upd_Some [OF k4]) simp
  have "\<exists>t. get_task m5 j = Some t \<and> msgs t = []" if "j = 1 \<or> j = i" for j
    using that k5 [of j] m4(3) [of j] k2 [of j] ti(3) gt3 by auto
  moreover have "gui_ok g3" "in_fb (gui_screen g3) = in_fb (gui_screen (g2\<lparr>gui_tasks := m2\<rparr>))"
    "\<forall>q. in_fb (gui_screen (g2\<lparr>gui_tasks := m2\<rparr>)) q \<and> FindLayerByPosition q 0 (g2\<lparr>gui_tasks := m2\<rparr>) = Some ?b
        \<and> solid (g2\<lparr>gui_tasks := m2\<rparr>) q ?b \<longrightarrow>
       fb_GetPixel q (gui_screen g3) = layer_pixel (g2\<lparr>gui_tasks := m2\<rparr>) q ?b"
    using g3(2) unfolding draws_layer_def by blast+
  moreover have "\<exists>t. get_task (gui_tasks (dk_gui d2)) i = Some t \<and> ready_or_running t" using k4 by (simp add: d2_def)
  ultimately show ?thesis using r1 r2 r3 inv5
    by (intro exI [of _ d1] exI [of _ d2] exI [of _ d3]) (simp add: d3_def s3)
qed

lemma desktop_example_tasks:
  "sched_inv (gui_tasks (dk_gui desktop_example))"
  "get_task (gui_tasks (dk_gui desktop_example)) 1 = Some ((Task_init 1)\<lparr>level := 3, ready_or_running := True\<rparr>)"
  "get_task (gui_tasks (dk_gui desktop_example)) 2 = Some ((Task_init 2)\<lparr>level := 0, ready_or_running := True\<rparr>)"
  using init_inv init_example(4,5) by (simp_all add: desktop_example_def gui_example_def)

text \<open>Nothing is logged, no interrupt of the USB controller is handled.\<close>

definition main_example :: "unit main_env" where
  "main_example = \<lparr>me_env = env_example, me_format = kPixelRGBResv8BitPerColor, print_log = (\<lambda>s g. Some g),
     process_events = Some, terminal_entry = 0x1000, current_cr3 = 0, stack_of = (\<lambda>i. 0)\<rparr>"

theorem draw_request_answered_witness:
  "\<exists>d1 d2 d3. TaskB_request 2 desktop_example = Some d1 \<and> main_turn main_example d1 = Some (d2, Continue)
     \<and> (\<exists>t. get_task (gui_tasks (dk_gui d2)) 2 = Some t \<and> ready_or_running t)
     \<and> TaskB_wait 2 d2 = Some (True, d3, Continue) \<and> gui_ok (dk_gui d3)"
proof -
  from Window_init_good [of 800 600 kPixelRGBResv8BitPerColor] obtain w where
    w: "windows (dk_gui desktop_example) 0 = Some w" "win_width w = 800" "win_height w = 600"
      "plain_win kPixelRGBResv8BitPerColor w"
    by (auto simp: desktop_example_def gui_example_def plain_win_def)
  let ?t = "\<lambda>i lv. (Task_init i)\<lparr>level := lv, ready_or_running := True\<rparr>"
  have f: "main_window_layer_id desktop_example = 1" "main_window desktop_example = 0"
    "task_b_window_layer_id desktop_example = 2" "tick (dk_timers desktop_example) = 0" "me_env main_example = env_example"
    by (simp_all add: desktop_example_def TimerManager_init_def main_example_def)
  have l: "FindLayer 1 (dk_gui desktop_example) = Some (layer_of 1 (Vec 0 0) (Some 0))"
    "lay_window (layer_of 1 (Vec 0 0) (Some 0)) = Some 0" "msgs (?t i lv) = []" for i lv
    using desktop_example_ok(4) gui_example_stack(3) by (simp_all add: layer_of_def Task_init_def)
  from draw_request_answered [where d = desktop_example and M = main_example and i = 2 and w = w, unfolded f desktop_example_ok(2,3),
      OF desktop_example_ok(1) desktop_example_tasks(1) _ l(1,2) w(1) _ _ w(4) _ _ blank_hankaku desktop_example_tasks(2) l(3)
        desktop_example_tasks(3) l(3)] w(2,3)
  show ?thesis by auto
qed

end
