(* ===== verification/Terminal_Task.thy ===== *)
theory Terminal_Task imports Main_Loop begin

text \<open>
  The task of a terminal, \<^verbatim>\<open>TaskTerminal\<close> and the constructor of \<^verbatim>\<open>Terminal\<close> (\<^verbatim>\<open>kernel/terminal.cpp\<close>): how a
  terminal starts, and its loop over the messages of the task.

  The state is the desktop together with the state of the kernel that the shell works on.  Task manager,
  timers and the map from layers to tasks are those of the desktop (\<open>on_kernel\<close>), and the window of the
  terminal is the one in the heap of the desktop (\<open>term_step\<close>).
\<close>

section \<open>The state shared with the desktop\<close>

type_synonym system = "desktop \<times> kernel"

definition on_kernel :: "(kernel \<Rightarrow> kernel option) \<Rightarrow> system \<Rightarrow> system option" where
  "on_kernel f = (\<lambda>(d, k). do {
     k \<leftarrow> f (k\<lparr>tasking := gui_tasks (dk_gui d), timer_mgr := dk_timers d, layer_tasks := layer_task_map (dk_gui d)\<rparr>);
     Some (d\<lparr>dk_gui := (dk_gui d)\<lparr>gui_tasks := tasking k, layer_task_map := layer_tasks k\<rparr>, dk_timers := timer_mgr k\<rparr>, k) })"

text \<open>\<open>ptr\<close> is the address of the terminal's window.\<close>

definition load_window :: "tid \<Rightarrow> nat \<Rightarrow> system \<Rightarrow> system option" where
  "load_window i ptr = (\<lambda>(d, k). do {
     (layer, t) \<leftarrow> terminals k i;
     Some (d, k\<lparr>terminals := (terminals k)(i \<mapsto> (layer, t\<lparr>win := if show_window t then windows (dk_gui d) ptr else None\<rparr>))\<rparr>) })"

definition store_window :: "tid \<Rightarrow> nat \<Rightarrow> system \<Rightarrow> system option" where
  "store_window i ptr = (\<lambda>(d, k). do {
     (layer, t) \<leftarrow> terminals k i;
     Some (if show_window t then d\<lparr>dk_gui := (dk_gui d)\<lparr>windows := (windows (dk_gui d))(ptr := win t)\<rparr>\<rparr> else d, k) })"

definition term_step :: "tid \<Rightarrow> nat \<Rightarrow> (kernel \<Rightarrow> kernel option) \<Rightarrow> system \<Rightarrow> system option" where
  "term_step i ptr f s = do {
     s \<leftarrow> load_window i ptr s;
     s \<leftarrow> on_kernel f s;
     store_window i ptr s }"

section \<open>What the terminal does with a key\<close>

definition send_area :: "tid \<Rightarrow> u32 \<Rightarrow> kernel on_area" where
  "send_area i layer area k = map_option (\<lambda>m. k\<lparr>tasking := m\<rparr>) (request_redraw i layer area (tasking k))"

definition exec_line :: "'f shell_env \<Rightarrow> tid \<Rightarrow> u32 \<Rightarrow> kernel \<times> Terminal \<Rightarrow> (kernel \<times> Terminal) option" where
  "exec_line S i layer = (\<lambda>(k, t). do {
     k \<leftarrow> ExecuteLine S i (k\<lparr>terminals := (terminals k)(i \<mapsto> (layer, t))\<rparr>);
     (_, t) \<leftarrow> terminals k i;
     Some (k, t) })"

definition input_key :: "'f shell_env \<Rightarrow> tid \<Rightarrow> u8 \<Rightarrow> u8 \<Rightarrow> u8 \<Rightarrow> kernel \<Rightarrow> (kernel \<times> Rectangle) option" where
  "input_key S i modi code c k = do {
     (layer, t) \<leftarrow> terminals k i;
     (k, t, area) \<leftarrow> InputKey (sh_fonts S) (send_area i layer) (exec_line S i layer) modi code c (k, t);
     Some (k\<lparr>terminals := (terminals k)(i \<mapsto> (layer, t))\<rparr>, area) }"

text \<open>The characters of a command line, and the enter key behind them; the areas are not used.\<close>

fun type_keys :: "'f shell_env \<Rightarrow> tid \<Rightarrow> u8 list \<Rightarrow> kernel \<Rightarrow> kernel option" where
  "type_keys S i [] k = Some k"
| "type_keys S i (c # chars) k = do { (k, area) \<leftarrow> input_key S i 0 0 c k; type_keys S i chars k }"

section \<open>The start of a terminal\<close>

definition kMarginX :: int where "kMarginX = vx kTopLeftMargin + vx kBottomRightMargin"
definition kMarginY :: int where "kMarginY = vy kTopLeftMargin + vy kBottomRightMargin"

text \<open>\<open>new_layer\<close> is the identifier that a terminal without a window finds in its storage.\<close>

definition Terminal_new :: "bool \<Rightarrow> nat list \<Rightarrow> Window option \<Rightarrow> Terminal" where
  "Terminal_new shows fds w = \<lparr>show_window = shows, win = w, cursor_x = 0, cursor_y = 0, cursor_visible = False,
     linebuf_index = 0, linebuf = replicate kLineMax 0, cmd_history = replicate 8 (replicate kLineMax 0),
     cmd_history_index = -1, term_files = fds, last_exit_code = 0\<rparr>"

definition term_fds :: "tid \<Rightarrow> TerminalDescriptor option \<Rightarrow> kernel \<Rightarrow> kernel \<times> nat list" where
  "term_fds i desc k = (case desc of
     Some td \<Rightarrow> (k, td_files td)
   | None \<Rightarrow> let n = length (descriptors k) in
       (k\<lparr>descriptors := descriptors k @ replicate 3 (TermFd i)\<rparr>, [n, n + 1, n + 2]))"

definition terminal_shows :: "TerminalDescriptor option \<Rightarrow> bool" where
  "terminal_shows desc = (case desc of Some td \<Rightarrow> td_show_window td | None \<Rightarrow> True)"

definition construct_terminal :: "'f main_env \<Rightarrow> tid \<Rightarrow> TerminalDescriptor option \<Rightarrow> nat \<Rightarrow> u32 \<Rightarrow> system \<Rightarrow> system option" where
  "construct_terminal M i desc ptr new_layer = (\<lambda>(d, k).
     case term_fds i desc k of (k, fds) \<Rightarrow>
     if terminal_shows desc then do {
       w \<leftarrow> ToplevelWindow_init (env_fonts (me_env M)) (kColumns * 8 + 8 + kMarginX) (kRows * 16 + 8 + kMarginY)
             (me_format M) (str ''MikanSAOSTerm'');
       w \<leftarrow> DrawTerminal InnerAreaWriter (Vec 0 0) (InnerSize w) w;
       let g = dk_gui d;
       let (g, layer) = NewLayer (me_env M) (g\<lparr>windows := (windows g)(ptr \<mapsto> w)\<rparr>);
       let g = upd_layer layer (lay_SetTransparentable True \<circ> lay_SetDraggable True \<circ> lay_SetWindow ptr) g;
       term_step i ptr (term_print (env_fonts (me_env M)) i [0x3e] None)
         (d\<lparr>dk_gui := g\<rparr>, k\<lparr>terminals := (terminals k)(i \<mapsto> (layer, Terminal_new True fds (Some w)))\<rparr>) }
     else Some (d, k\<lparr>terminals := (terminals k)(i \<mapsto> (new_layer, Terminal_new False fds None))\<rparr>))"

definition add_blink_timer :: "tid \<Rightarrow> nat \<Rightarrow> system \<Rightarrow> system" where
  "add_blink_timer i t = (\<lambda>(d, k). (d\<lparr>dk_timers := AddTimer (Timer_init (t + kTimer05Sec) 1 i) (dk_timers d)\<rparr>, k))"

text \<open>\<^verbatim>\<open>task_manager->Finish(terminal->LastExitCode())\<close>.\<close>

definition finish_terminal :: "tid \<Rightarrow> system \<Rightarrow> (system \<times> control) option" where
  "finish_terminal i = (\<lambda>(d, k). do {
     (_, t) \<leftarrow> terminals k i;
     (m, c) \<leftarrow> Finish (last_exit_code t) (gui_tasks (dk_gui d));
     Some ((d\<lparr>dk_gui := (dk_gui d)\<lparr>gui_tasks := m\<rparr>\<rparr>, k), c) })"

definition show_terminal :: "'f main_env \<Rightarrow> tid \<Rightarrow> system \<Rightarrow> system option" where
  "show_terminal M i = (\<lambda>(d, k). do {
     (layer, _) \<leftarrow> terminals k i;
     d \<leftarrow> with_gui (\<lambda>g. do {
       g \<leftarrow> gui_Move (me_env M) layer (Vec 450 200) g;
       let m = layer_task_map g;
       Activate (me_env M) layer (g\<lparr>layer_task_map := (if m layer = None then m(layer \<mapsto> i) else m)\<rparr>) }) d;
     Some (d, k) })"

text \<open>Up to the loop: the control is \<open>Continue\<close> unless the task has ended.\<close>

definition TaskTerminal_start ::
    "'f main_env \<Rightarrow> 'f shell_env \<Rightarrow> tid \<Rightarrow> TerminalDescriptor option \<Rightarrow> nat \<Rightarrow> u32 \<Rightarrow> system \<Rightarrow> (system \<times> control) option" where
  "TaskTerminal_start M S i desc ptr new_layer s = do {
     s \<leftarrow> construct_terminal M i desc ptr new_layer s;
     s \<leftarrow> (if terminal_shows desc then show_terminal M i s else Some s);
     s \<leftarrow> (case desc of
             Some td \<Rightarrow> if td_command_line td \<noteq> [] then term_step i ptr (type_keys S i (td_command_line td @ [newline])) s else Some s
           | None \<Rightarrow> Some s);
     (if (case desc of Some td \<Rightarrow> td_exit_after_command td | None \<Rightarrow> False) then finish_terminal i s
      else Some (add_blink_timer i (tick (dk_timers (fst s))) s, Continue)) }"

section \<open>The loop\<close>

record terminal_task =
  tt_id :: tid
  tt_window :: nat
  tt_shows :: bool
  tt_active :: bool

definition blink :: "terminal_task \<Rightarrow> kernel \<Rightarrow> kernel option" where
  "blink tt k = do {
     (layer, t) \<leftarrow> terminals k (tt_id tt);
     (t, area) \<leftarrow> BlinkCursor t;
     send_area (tt_id tt) layer area (k\<lparr>terminals := (terminals k)(tt_id tt \<mapsto> (layer, t))\<rparr>) }"

definition key_pressed :: "'f shell_env \<Rightarrow> terminal_task \<Rightarrow> u8 \<Rightarrow> u8 \<Rightarrow> u8 \<Rightarrow> kernel \<Rightarrow> kernel option" where
  "key_pressed S tt modi code c k = do {
     (k, area) \<leftarrow> input_key S (tt_id tt) modi code c k;
     (if tt_shows tt then do { (layer, _) \<leftarrow> terminals k (tt_id tt); send_area (tt_id tt) layer area k } else Some k) }"

definition terminal_message ::
    "'f main_env \<Rightarrow> 'f shell_env \<Rightarrow> Message \<Rightarrow> terminal_task \<times> system \<Rightarrow> (terminal_task \<times> system \<times> control) option" where
  "terminal_message M S msg = (\<lambda>(tt, s).
     let go = map_option (\<lambda>s. (tt, s, Continue)) in
     case msg_type msg of
       kTimerTimeout \<Rightarrow> (case arg msg of
           TimerArg expired v \<Rightarrow>
             let s = add_blink_timer (tt_id tt) (unat expired) s in
             go (if tt_shows tt \<and> tt_active tt then term_step (tt_id tt) (tt_window tt) (blink tt) s else Some s)
         | _ \<Rightarrow> None)
     | kKeyPush \<Rightarrow> (case arg msg of
           KeyArg modi code c pressed \<Rightarrow>
             go (if pressed then term_step (tt_id tt) (tt_window tt) (key_pressed S tt modi code c) s else Some s)
         | _ \<Rightarrow> None)
     | kWindowActive \<Rightarrow> (case arg msg of WindowActiveArg a \<Rightarrow> Some (tt\<lparr>tt_active := a\<rparr>, s, Continue) | _ \<Rightarrow> None)
     | kWindowClose \<Rightarrow> (case arg msg of
           WindowCloseArg layer \<Rightarrow> do {
             (g, err) \<leftarrow> CloseLayer (me_env M) layer (dk_gui (fst s));
             (s, c) \<leftarrow> finish_terminal (tt_id tt) ((fst s)\<lparr>dk_gui := g\<rparr>, snd s);
             Some (tt, s, c) }
         | _ \<Rightarrow> None)
     | _ \<Rightarrow> Some (tt, s, Continue))"

definition TaskTerminal_turn ::
    "'f main_env \<Rightarrow> 'f shell_env \<Rightarrow> terminal_task \<times> system \<Rightarrow> (terminal_task \<times> system \<times> control) option" where
  "TaskTerminal_turn M S = (\<lambda>(tt, d, k). do {
     let g = dk_gui d;
     t \<leftarrow> get_task (gui_tasks g) (tt_id tt);
     (case ReceiveMessage t of
        (None, _) \<Rightarrow> map_option (\<lambda>(m, c). (tt, (d\<lparr>dk_gui := g\<lparr>gui_tasks := m\<rparr>\<rparr>, k), c)) (Sleep (tt_id tt) (gui_tasks g))
      | (Some msg, t') \<Rightarrow>
          terminal_message M S msg
            (tt, d\<lparr>dk_gui := g\<lparr>gui_tasks := upd_task (tt_id tt) (\<lambda>t. t\<lparr>msgs := msgs t'\<rparr>) (gui_tasks g)\<rparr>\<rparr>, k)) })"

section \<open>From the key to the screen\<close>

lemma TaskTerminal_key:
  assumes inv: "sched_inv (gui_tasks (dk_gui d))"
    and ti: "get_task (gui_tasks (dk_gui d)) i = Some ti" "msgs ti = [msg]" and t1: "get_task (gui_tasks (dk_gui d)) 1 = Some t1" "i \<noteq> 1"
    and msg: "msg_type msg = kKeyPush" "arg msg = KeyArg modi code c True"
    and t: "terminals k i = Some (layer, t)" "windows (dk_gui d) ptr = win t" "edits t e"
    and f: "2048 \<le> length (hankaku (sh_fonts S))" and c: "c < 0x80" "c \<noteq> 10"
    and tt: "tt_id tt = i" "tt_window tt = ptr" "tt_shows tt"
  shows "\<exists>d2 k2 t' t1'. TaskTerminal_turn M S (tt, d, k) = Some (tt, (d2, k2), Continue)
    \<and> terminals k2 i = Some (layer, t') \<and> edits t' (ed_key code c e) \<and> windows (dk_gui d2) ptr = win t'
    \<and> (\<forall>q. in_term q \<longrightarrow> term_pixel q t' = typed_pixel (hankaku (sh_fonts S)) (cell t) code c e q (term_pixel q t))
    \<and> sched_inv (gui_tasks (dk_gui d2))
    \<and> get_task (gui_tasks (dk_gui d2)) i = Some (ti\<lparr>msgs := []\<rparr>)
    \<and> get_task (gui_tasks (dk_gui d2)) 1 = Some t1' \<and> msgs t1' = msgs t1 @ [MakeLayerMessage i layer LayerOperation.DrawArea (key_area (cell t) code c e)]"
proof -
  let ?g = "dk_gui d" and ?pop = "\<lambda>t :: Task. t\<lparr>msgs := []\<rparr>"
  let ?m0 = "upd_task i ?pop (gui_tasks ?g)"
  have k0: "get_task ?m0 j = (if j = i then Some (?pop ti) else get_task (gui_tasks ?g) j)" for j
    by (rule get_task_upd_Some [OF ti(1)]) simp
  have inv0: "sched_inv ?m0" by (rule upd_msgs_inv [OF inv ti(1)])
  have t10: "get_task ?m0 1 = Some t1" using k0 t1 by simp
  let ?k = "k\<lparr>tasking := ?m0, timer_mgr := dk_timers d, layer_tasks := layer_task_map ?g\<rparr>"
  have sh: "show_window t" using t(3) by (simp add: edits_def shown_ok_def)
  have kt: "terminals ?k i = Some (layer, t)" "t\<lparr>win := win t\<rparr> = t" using t(1) by simp_all
  let ?area = "key_area (cell t) code c e"
  obtain t' where K: "InputKey (sh_fonts S) (send_area i layer) (exec_line S i layer) modi code c (?k, t) = Some (?k, t', ?area)"
    "edits t' (ed_key code c e)"
    "\<forall>q. in_term q \<longrightarrow> term_pixel q t' = typed_pixel (hankaku (sh_fonts S)) (cell t) code c e q (term_pixel q t)"
    using InputKey_edits [where w = ?k and send = "send_area i layer" and exec = "exec_line S i layer" and m = modi, OF t(3) f c]
    by blast
  have sh': "show_window t'" using K(2) by (simp add: edits_def shown_ok_def)
  let ?msg = "MakeLayerMessage i layer LayerOperation.DrawArea ?area"
  obtain m1 where m1: "SendMessage 1 ?msg ?m0 = Some (m1, kSuccess)" "sched_inv m1"
    "\<And>j. get_task m1 j = (if j = 1 then Some (t1\<lparr>msgs := msgs t1 @ [?msg], ready_or_running := True\<rparr>) else get_task ?m0 j)"
    using SendMessage_spec [OF inv0 t10] by blast
  let ?k2 = "?k\<lparr>terminals := (terminals k)(i \<mapsto> (layer, t')), tasking := m1\<rparr>"
  have same: "k\<lparr>terminals := (terminals k)(i \<mapsto> (layer, t))\<rparr> = k" using t(1) by (simp add: fun_upd_idem)
  have P: "key_pressed S tt modi code c ?k = Some ?k2"
    using kt K(1) m1(1) tt by (simp add: key_pressed_def input_key_def send_area_def request_redraw_def)
  let ?d = "d\<lparr>dk_gui := ?g\<lparr>gui_tasks := ?m0\<rparr>\<rparr>"
  let ?d2 = "d\<lparr>dk_gui := ?g\<lparr>gui_tasks := m1, windows := (windows ?g)(ptr := win t')\<rparr>\<rparr>"
  have L: "load_window i ptr (?d, k) = Some (?d, k)" using t(1,2) sh same by (simp add: load_window_def)
  have "term_step i ptr (key_pressed S tt modi code c) (?d, k) = Some (?d2, ?k2)"
    using P sh' by (simp add: term_step_def L on_kernel_def store_window_def)
  then have "TaskTerminal_turn M S (tt, d, k) = Some (tt, (?d2, ?k2), Continue)"
    using ti msg tt by (simp add: TaskTerminal_turn_def ReceiveMessage_def terminal_message_def Let_def)
  moreover have "get_task m1 i = Some (?pop ti)" using m1(3) k0 t1(2) by simp
  ultimately show ?thesis using K(2,3) m1(2) m1(3) [of 1] by (intro exI [of _ ?d2] exI [of _ ?k2] exI [of _ t']) simp
qed

text \<open>
  C16: a key typed at a terminal.  While the terminal's layer is active, a key other than enter and F2 goes
  through the main task to the terminal's task, whose next turn edits the line as the line editor
  does.  The window in the heap then shows the result (\<open>typed_pixel\<close>): the glyph of a character in the cell where the cursor was
  and the cursor in the next one, the erased cell of a backspace, or the line of the history; the other pixels are
  as before.  The turn asks the main task to draw the area of the key, which contains every pixel that
  has changed (unless the cursor stood behind the last column):
  the request is the last message in the main task's queue, and the terminal's own queue is empty again.
\<close>

theorem key_reaches_terminal:
  assumes inv: "sched_inv (gui_tasks (dk_gui d))"
    and msg: "msg_type msg = kKeyPush" "arg msg = KeyArg modi code c True" and c: "c < 0x80" "c \<noteq> 10" "code \<noteq> 59"
    and layer: "active_id (dk_gui d) = layer" "layer \<noteq> text_window_layer_id d" "layer \<noteq> task_b_window_layer_id d"
      "layer_task_map (dk_gui d) layer = Some i"
    and ti: "get_task (gui_tasks (dk_gui d)) i = Some ti" "msgs ti = []" and t1: "get_task (gui_tasks (dk_gui d)) 1 = Some t1" "i \<noteq> 1"
    and t: "terminals k i = Some (layer, t)" "windows (dk_gui d) ptr = win t" "edits t e"
    and f: "2048 \<le> length (hankaku (sh_fonts S))"
  shows "\<exists>d1 d2 k2 t'. handle_message M msg d = Some d1
    \<and> TaskTerminal_turn M S (\<lparr>tt_id = i, tt_window = ptr, tt_shows = True, tt_active = act\<rparr>, d1, k)
       = Some (\<lparr>tt_id = i, tt_window = ptr, tt_shows = True, tt_active = act\<rparr>, (d2, k2), Continue)
    \<and> terminals k2 i = Some (layer, t') \<and> edits t' (ed_key code c e) \<and> windows (dk_gui d2) ptr = win t'
    \<and> (\<forall>q. in_term q \<longrightarrow>
          term_pixel q t' = typed_pixel (hankaku (sh_fonts S)) (cell t) code c e q (term_pixel q t)
        \<and> (ed_col e < 60 \<and> \<not> in_rect (key_area (cell t) code c e) q \<longrightarrow> term_pixel q t' = term_pixel q t))
    \<and> map_option msgs (get_task (gui_tasks (dk_gui d2)) i) = Some []
    \<and> map_option msgs (get_task (gui_tasks (dk_gui d2)) 1)
        = Some (msgs t1 @ [MakeLayerMessage i layer LayerOperation.DrawArea (key_area (cell t) code c e)])"
proof -
  let ?tt = "\<lparr>tt_id = i, tt_window = ptr, tt_shows = True, tt_active = act\<rparr>"
  have no: "\<not> (True \<and> code = 59)" using c(3) by simp
  from key_goes_to_active_task [OF inv msg layer(1-3) no layer(4) ti(1), of M] obtain m' where
    m': "handle_message M msg d = Some (d\<lparr>dk_gui := (dk_gui d)\<lparr>gui_tasks := m'\<rparr>\<rparr>)" "sched_inv m'"
      "\<forall>j. get_task m' j = (if j = i then Some (ti\<lparr>msgs := msgs ti @ [msg], ready_or_running := True\<rparr>)
          else get_task (gui_tasks (dk_gui d)) j)" by blast
  let ?d1 = "d\<lparr>dk_gui := (dk_gui d)\<lparr>gui_tasks := m'\<rparr>\<rparr>"
  have q: "sched_inv (gui_tasks (dk_gui ?d1))" "get_task (gui_tasks (dk_gui ?d1)) 1 = Some t1"
    "get_task (gui_tasks (dk_gui ?d1)) i = Some (ti\<lparr>msgs := [msg], ready_or_running := True\<rparr>)"
    "windows (dk_gui ?d1) ptr = win t"
    using m'(2,3) t1 ti(2) t(2) by simp_all
  obtain d2 k2 t' t1' where r: "TaskTerminal_turn M S (?tt, ?d1, k) = Some (?tt, (d2, k2), Continue)"
    "terminals k2 i = Some (layer, t')" "edits t' (ed_key code c e)" "windows (dk_gui d2) ptr = win t'"
    "\<forall>q. in_term q \<longrightarrow> term_pixel q t' = typed_pixel (hankaku (sh_fonts S)) (cell t) code c e q (term_pixel q t)"
    "get_task (gui_tasks (dk_gui d2)) i = Some (ti\<lparr>msgs := [], ready_or_running := True\<rparr>)"
    "get_task (gui_tasks (dk_gui d2)) 1 = Some t1'"
    "msgs t1' = msgs t1 @ [MakeLayerMessage i layer LayerOperation.DrawArea (key_area (cell t) code c e)]"
    using TaskTerminal_key [OF q(1,3) _ q(2) t1(2) msg t(1) q(4) t(3) f c(1,2), of ?tt M] by auto
  have "line_ok (ed_line (ed_key code c e))" using r(3) by (simp add: edits_def)
  from typed_pixel_outside [OF t(3) this] r(5)
  have "in_term q \<longrightarrow> term_pixel q t' = typed_pixel (hankaku (sh_fonts S)) (cell t) code c e q (term_pixel q t)
        \<and> (ed_col e < 60 \<and> \<not> in_rect (key_area (cell t) code c e) q \<longrightarrow> term_pixel q t' = term_pixel q t)" for q
    by simp
  moreover have "map_option msgs (get_task (gui_tasks (dk_gui d2)) i) = Some []" using r(6) by simp
  moreover have "map_option msgs (get_task (gui_tasks (dk_gui d2)) 1)
      = Some (msgs t1 @ [MakeLayerMessage i layer LayerOperation.DrawArea (key_area (cell t) code c e)])"
    using r(7,8) by simp
  ultimately show ?thesis using m'(1) r(1-4) by blast
qed

text \<open>A terminal with an empty line, in the active layer 1 of task 2.\<close>

definition terminal_window :: Window where
  "terminal_window = the (Window_init 492 325 kPixelRGBResv8BitPerColor)"

definition typing_terminal :: Terminal where
  "typing_terminal = (term_example terminal_window)\<lparr>cursor_x := 1\<rparr>"

definition typing_desktop :: desktop where
  "typing_desktop = desktop_example\<lparr>dk_gui := (dk_gui desktop_example)
     \<lparr>active_id := 1, layer_task_map := [1 \<mapsto> 2], windows := [5 \<mapsto> terminal_window]\<rparr>\<rparr>"

definition typing_kernel :: kernel where
  "typing_kernel = kernel_example\<lparr>terminals := [2 \<mapsto> (1, typing_terminal)]\<rparr>"

definition key_a :: Message where
  "key_a = \<lparr>msg_type = kKeyPush, src_task_id = 0, arg = KeyArg 0 4 0x61 True\<rparr>"

lemma typing_terminal_edits: "edits typing_terminal \<lparr>ed_line = [], ed_history = replicate 8 [], ed_pos = -1, ed_col = 1\<rparr>"
proof -
  have "term_win terminal_window"
    using Window_init_good [of 492 325 kPixelRGBResv8BitPerColor] by (auto simp: terminal_window_def term_win_def win_good_def)
  moreover have "array_str (replicate 128 0) = Some []" by (simp add: array_str_def)
  ultimately show ?thesis
    by (simp add: edits_def shown_ok_def typing_terminal_def term_example_def kColumns_def kRows_def kLineMax_def line_ok_def
        list_all2_conv_all_nth holds_line_def del: replicate.simps)
qed

theorem key_reaches_terminal_witness:
  "\<exists>d1 d2 k2 t'. handle_message main_example key_a typing_desktop = Some d1
     \<and> TaskTerminal_turn main_example shell_example (\<lparr>tt_id = 2, tt_window = 5, tt_shows = True, tt_active = True\<rparr>, d1, typing_kernel)
        = Some (\<lparr>tt_id = 2, tt_window = 5, tt_shows = True, tt_active = True\<rparr>, (d2, k2), Continue)
     \<and> edits t' \<lparr>ed_line = [0x61], ed_history = replicate 8 [], ed_pos = -1, ed_col = 2\<rparr>
     \<and> term_pixel (Vec 20 304) t' = Some kTerminalFGColor
     \<and> map_option msgs (get_task (gui_tasks (dk_gui d2)) 1)
        = Some [MakeLayerMessage 2 1 LayerOperation.DrawArea (Rect (Vec 12 304) (Vec 16 16))]"
proof -
  let ?d = typing_desktop and ?e = "\<lparr>ed_line = [], ed_history = replicate 8 [], ed_pos = -1, ed_col = 1\<rparr>"
  have tasks: "sched_inv (gui_tasks (dk_gui ?d))"
    "get_task (gui_tasks (dk_gui ?d)) 1 = Some ((Task_init 1)\<lparr>level := 3, ready_or_running := True\<rparr>)"
    "get_task (gui_tasks (dk_gui ?d)) 2 = Some ((Task_init 2)\<lparr>level := 0, ready_or_running := True\<rparr>)"
    using desktop_example_tasks by (simp_all add: typing_desktop_def)
  have d: "active_id (dk_gui ?d) = 1" "text_window_layer_id ?d = 3" "task_b_window_layer_id ?d = 2"
    "layer_task_map (dk_gui ?d) 1 = Some 2" "windows (dk_gui ?d) 5 = Some terminal_window"
    by (simp_all add: typing_desktop_def desktop_example_def)
  have m: "msg_type key_a = kKeyPush" "arg key_a = KeyArg 0 4 0x61 True" by (simp_all add: key_a_def)
  have t: "terminals typing_kernel 2 = Some (1, typing_terminal)" "windows (dk_gui ?d) 5 = win typing_terminal"
    using d(5) by (simp_all add: typing_kernel_def typing_terminal_def term_example_def)
  have f: "2048 \<le> length (hankaku (sh_fonts shell_example))" using blank_fonts_font by (simp add: shell_example_def)
  have e: "ed_key 4 0x61 ?e = ?e\<lparr>ed_line := [0x61], ed_col := 2\<rparr>" by (simp add: ed_key_def)
  have cells: "cell typing_terminal 1 = Vec 12 304" "cell typing_terminal 2 = Vec 20 304"
    by (simp_all add: cell_def typing_terminal_def term_example_def kTopLeftMargin_def)
  have a: "key_area (cell typing_terminal) 4 0x61 ?e = Rect (Vec 12 304) (Vec 16 16)" by (simp add: key_area_def cells)
  have px: "typed_pixel font (cell typing_terminal) 4 0x61 ?e (Vec 20 304) old = Some kTerminalFGColor" "in_term (Vec 20 304)" for font old
    by (simp_all add: typed_pixel_def e cells cursor_block_def in_rect_def in_term_def)
  have o: "msgs ((Task_init j)\<lparr>level := lv, ready_or_running := True\<rparr>) = []" for j lv by (simp add: Task_init_def)
  from key_reaches_terminal [OF tasks(1) m _ _ _ d(1) _ _ d(4) tasks(3) o tasks(2) _ t typing_terminal_edits f, of main_example True,
      unfolded d e o a] px
  show ?thesis by (fastforce simp: word_less_nat_alt)
qed

section \<open>Terminals without a window\<close>

lemma print_loop_no_window: "print_loop fts s n j t = Some t' \<Longrightarrow> \<not> show_window t \<longrightarrow> t' = t"
proof (erule print_loop.raw_induct [rotated 1, where P = "\<lambda>fts s n j t t'. \<not> show_window t \<longrightarrow> t' = t"])
  fix loop :: "'a fonts \<Rightarrow> cstr \<Rightarrow> nat \<Rightarrow> nat \<Rightarrow> Terminal \<Rightarrow> Terminal option" and fts s n j t t'
  assume IH: "\<And>fts s n j t t'. loop fts s n j t = Some t' \<Longrightarrow> \<not> show_window t \<longrightarrow> t' = t"
    and body: "do {
       b \<leftarrow> str_at s j;
       if b \<noteq> 0 \<and> j < n then do {
         (c, k) \<leftarrow> ConvertUTF8To32 (drop j s);
         t \<leftarrow> Print_char fts (if c \<noteq> 0 then c else white_square) t;
         loop fts s n (j + k) t }
       else Some t } = Some t'"
  show "\<not> show_window t \<longrightarrow> t' = t"
  proof
    assume ns: "\<not> show_window t"
    then have "Print_char fts c t = Some t" for c by (simp add: Print_char_def)
    with body have "t' = t \<or> (\<exists>k. loop fts s n k t = Some t')"
      by (auto simp: bind_eq_Some_conv simp del: not_gr_zero split: if_splits prod.splits)
    with IH ns show "t' = t" by blast
  qed
qed

text \<open>
  \<^verbatim>\<open>Print\<close> ends with \<^verbatim>\<open>_window->InnerSize()\<close>: on a terminal without a window, the kind that \<^verbatim>\<open>noterm\<close> and the
  second half of a pipe run in, it dereferences the null pointer, and the enter key, which prints the
  prompt, does so after every command.
\<close>

theorem Print_without_window:
  assumes "\<not> show_window t" and "win t = None"
  shows "Print fts send s n (w, t) = None"
proof (cases "print_loop fts s (case n of Some l \<Rightarrow> l | None \<Rightarrow> 2 ^ 64 - 1) 0 t")
  case None
  with assms(1) show ?thesis by (simp add: Print_def DrawCursor_def Let_def)
next
  case (Some t1)
  then have "t1 = t" using print_loop_no_window assms(1) by blast
  with Some assms show ?thesis by (simp add: Print_def DrawCursor_def Let_def)
qed

end
