(* ===== verification/Registers.thy ===== *)
theory Registers imports Bit_Fields begin

text \<open>
  The registers of the xHCI controller, \<^verbatim>\<open>kernel/usb/xhci/registers.hpp\<close>.

  A packed union of a data word with bit fields is the list of its fields with their widths, lowest bit
  first; a field without a name is padding.  \<open>bits_of\<close> and \<open>put_bits\<close> are reading and assigning
  \<^verbatim>\<open>value.bits.f\<close>.  A packed struct of registers is the list of its members with their sizes in bytes, and
  \<open>member_at\<close> is the offset of a member.
\<close>

section \<open>Layouts\<close>

type_synonym layout = "(string \<times> nat) list"

fun place :: "layout \<Rightarrow> string \<Rightarrow> (nat \<times> nat) option" where
  "place [] f = None"
| "place ((g, n) # fields) f =
     (if g = f \<and> f \<noteq> [] then Some (0, n) else map_option (\<lambda>(lo, k). (n + lo, k)) (place fields f))"

definition layout_bits :: "layout \<Rightarrow> nat" where
  "layout_bits fields = sum_list (map snd fields)"

definition bits_of :: "layout \<Rightarrow> string \<Rightarrow> 'a::len word \<Rightarrow> 'a word" where
  "bits_of fields f w = (case place fields f of None \<Rightarrow> 0 | Some (lo, n) \<Rightarrow> field lo n w)"

definition put_bits :: "layout \<Rightarrow> string \<Rightarrow> 'a::len word \<Rightarrow> 'a word \<Rightarrow> 'a word" where
  "put_bits fields f v w = (case place fields f of None \<Rightarrow> w | Some (lo, n) \<Rightarrow> set_field lo n v w)"

definition member_at :: "layout \<Rightarrow> string \<Rightarrow> nat" where
  "member_at members f = (case place members f of None \<Rightarrow> 0 | Some (lo, n) \<Rightarrow> lo)"

section \<open>Capability registers\<close>

definition HCSPARAMS1_Bitmap :: layout where
  "HCSPARAMS1_Bitmap = [(''max_device_slots'', 8), (''max_interrupters'', 11), ([], 5), (''max_ports'', 8)]"

definition HCSPARAMS2_Bitmap :: layout where
  "HCSPARAMS2_Bitmap = [(''isochronous_scheduling_threshold'', 4), (''event_ring_segment_table_max'', 4), ([], 13),
     (''max_scratchpad_buffers_high'', 5), (''scratchpad_restore'', 1), (''max_scratchpad_buffers_low'', 5)]"

definition HCSPARAMS3_Bitmap :: layout where
  "HCSPARAMS3_Bitmap = [(''u1_device_exit_latency'', 8), (''u2_device_exit_latency'', 8), ([], 16)]"

definition HCCPARAMS1_Bitmap :: layout where
  "HCCPARAMS1_Bitmap = [(''addressing_capability_64'', 1), (''bw_negotiation_capability'', 1), (''context_size'', 1),
     (''port_power_control'', 1), (''port_indicators'', 1), (''light_hc_reset_capability'', 1),
     (''latency_tolerance_messaging_capability'', 1), (''no_secondary_sid_support'', 1), (''parse_all_event_data'', 1),
     (''stopped_short_packet_capability'', 1), (''stopped_edtla_capability'', 1), (''contiguous_frame_id_capability'', 1),
     (''maximum_primary_stream_array_size'', 4), (''xhci_extended_capabilities_pointer'', 16)]"

definition HCCPARAMS2_Bitmap :: layout where
  "HCCPARAMS2_Bitmap = [(''u3_entry_capability'', 1),
     (''configure_endpoint_command_max_exit_latency_too_large_capability'', 1), (''force_save_context_capability'', 1),
     (''compliance_transition_capability'', 1), (''large_esit_payload_capability'', 1),
     (''configuration_information_capability'', 1), (''extended_tbc_capability'', 1),
     (''extended_tbc_trb_status_capability'', 1), (''get_set_extended_property_capability'', 1),
     (''virtualization_based_trusted_io_capability'', 1), ([], 22)]"

definition DBOFF_Bitmap :: layout where
  "DBOFF_Bitmap = [([], 2), (''doorbell_array_offset'', 30)]"

definition DBOFF_Offset :: "32 word \<Rightarrow> 32 word" where
  "DBOFF_Offset v = push_bit 2 (bits_of DBOFF_Bitmap ''doorbell_array_offset'' v)"

definition RTSOFF_Bitmap :: layout where
  "RTSOFF_Bitmap = [([], 5), (''runtime_register_space_offset'', 27)]"

definition RTSOFF_Offset :: "32 word \<Rightarrow> 32 word" where
  "RTSOFF_Offset v = push_bit 5 (bits_of RTSOFF_Bitmap ''runtime_register_space_offset'' v)"

definition CapabilityRegisters :: layout where
  "CapabilityRegisters = [(''CAPLENGTH'', 1), (''reserved1'', 1), (''HCIVERSION'', 2), (''HCSPARAMS1'', 4), (''HCSPARAMS2'', 4),
     (''HCSPARAMS3'', 4), (''HCCPARAMS1'', 4), (''DBOFF'', 4), (''RTSOFF'', 4), (''HCCPARAMS2'', 4)]"

section \<open>Operational registers\<close>

definition USBCMD_Bitmap :: layout where
  "USBCMD_Bitmap = [(''run_stop'', 1), (''host_controller_reset'', 1), (''interrupter_enable'', 1), (''host_system_error_enable'', 1),
     ([], 3), (''light_host_controller_reset'', 1), (''controller_save_state'', 1), (''controller_restore_state'', 1),
     (''enable_wrap_event'', 1), (''enable_u3_mfindex_stop'', 1), ([], 1), (''cem_enable'', 1), (''extened_tbc_enable'', 1),
     (''extended_tbc_trb_status_enable'', 1), (''vtio_enable'', 1), ([], 15)]"

definition USBSTS_Bitmap :: layout where
  "USBSTS_Bitmap = [(''host_controller_halted'', 1), ([], 1), (''host_system_error_enable'', 1), (''event_interrupt'', 1),
     (''port_change_detect'', 1), ([], 3), (''save_state_status'', 1), (''restore_state_status'', 1), (''save_restore_error'', 1),
     (''controller_not_ready'', 1), (''host_controller_error'', 1), ([], 19)]"

definition CRCR_Bitmap :: layout where
  "CRCR_Bitmap = [(''ring_cycle_state'', 1), (''command_stop'', 1), (''command_abort'', 1), (''command_ring_running'', 1), ([], 2),
     (''command_ring_pointer'', 58)]"

definition DCBAAP_Bitmap :: layout where
  "DCBAAP_Bitmap = [([], 6), (''device_context_base_address_array_pointer'', 58)]"

definition CONFIG_Bitmap :: layout where
  "CONFIG_Bitmap = [(''max_device_slots_enabled'', 8), (''u3_entry_enable'', 1), (''configuartion_information_enable'', 1), ([], 22)]"

text \<open>\<^verbatim>\<open>Pointer()\<close> and \<^verbatim>\<open>SetPointer(value)\<close>: a pointer without its low bits, which are other fields.\<close>

definition get_pointer :: "layout \<Rightarrow> string \<Rightarrow> nat \<Rightarrow> 64 word \<Rightarrow> 64 word" where
  "get_pointer fields f k v = push_bit k (bits_of fields f v)"

definition set_pointer :: "layout \<Rightarrow> string \<Rightarrow> nat \<Rightarrow> 64 word \<Rightarrow> 64 word \<Rightarrow> 64 word" where
  "set_pointer fields f k p v = put_bits fields f (drop_bit k p) v"

definition CRCR_Pointer :: "64 word \<Rightarrow> 64 word" where
  "CRCR_Pointer = get_pointer CRCR_Bitmap ''command_ring_pointer'' 6"

definition CRCR_SetPointer :: "64 word \<Rightarrow> 64 word \<Rightarrow> 64 word" where
  "CRCR_SetPointer = set_pointer CRCR_Bitmap ''command_ring_pointer'' 6"

definition DCBAAP_Pointer :: "64 word \<Rightarrow> 64 word" where
  "DCBAAP_Pointer = get_pointer DCBAAP_Bitmap ''device_context_base_address_array_pointer'' 6"

definition DCBAAP_SetPointer :: "64 word \<Rightarrow> 64 word \<Rightarrow> 64 word" where
  "DCBAAP_SetPointer = set_pointer DCBAAP_Bitmap ''device_context_base_address_array_pointer'' 6"

definition OperationalRegisters :: layout where
  "OperationalRegisters = [(''USBCMD'', 4), (''USBSTS'', 4), (''PAGESIZE'', 4), (''reserved1'', 8), (''DNCTRL'', 4), (''CRCR'', 8),
     (''reserved2'', 16), (''DCBAAP'', 8), (''CONFIG'', 4)]"

section \<open>Interrupters, doorbells, ports\<close>

definition IMAN_Bitmap :: layout where
  "IMAN_Bitmap = [(''interrupt_pending'', 1), (''interrupt_enable'', 1), ([], 30)]"

definition IMOD_Bitmap :: layout where
  "IMOD_Bitmap = [(''interrupt_moderation_interval'', 16), (''interrupt_moderation_counter'', 16)]"

definition ERSTSZ_Bitmap :: layout where
  "ERSTSZ_Bitmap = [(''event_ring_segment_table_size'', 16), ([], 16)]"

definition ERSTBA_Bitmap :: layout where
  "ERSTBA_Bitmap = [([], 6), (''event_ring_segment_table_base_address'', 58)]"

definition ERDP_Bitmap :: layout where
  "ERDP_Bitmap = [(''dequeue_erst_segment_index'', 3), (''event_handler_busy'', 1), (''event_ring_dequeue_pointer'', 60)]"

definition ERSTSZ_Size :: "32 word \<Rightarrow> 16 word" where
  "ERSTSZ_Size v = ucast (bits_of ERSTSZ_Bitmap ''event_ring_segment_table_size'' v)"

definition ERSTSZ_SetSize :: "16 word \<Rightarrow> 32 word \<Rightarrow> 32 word" where
  "ERSTSZ_SetSize n v = put_bits ERSTSZ_Bitmap ''event_ring_segment_table_size'' (ucast n) v"

definition ERSTBA_Pointer :: "64 word \<Rightarrow> 64 word" where
  "ERSTBA_Pointer = get_pointer ERSTBA_Bitmap ''event_ring_segment_table_base_address'' 6"

definition ERSTBA_SetPointer :: "64 word \<Rightarrow> 64 word \<Rightarrow> 64 word" where
  "ERSTBA_SetPointer = set_pointer ERSTBA_Bitmap ''event_ring_segment_table_base_address'' 6"

definition ERDP_Pointer :: "64 word \<Rightarrow> 64 word" where
  "ERDP_Pointer = get_pointer ERDP_Bitmap ''event_ring_dequeue_pointer'' 4"

definition ERDP_SetPointer :: "64 word \<Rightarrow> 64 word \<Rightarrow> 64 word" where
  "ERDP_SetPointer = set_pointer ERDP_Bitmap ''event_ring_dequeue_pointer'' 4"

definition InterrupterRegisterSet :: layout where
  "InterrupterRegisterSet = [(''IMAN'', 4), (''IMOD'', 4), (''ERSTSZ'', 4), (''reserved'', 4), (''ERSTBA'', 8), (''ERDP'', 8)]"

definition Doorbell_Bitmap :: layout where
  "Doorbell_Bitmap = [(''db_target'', 8), ([], 8), (''db_stream_id'', 16)]"

text \<open>\<^verbatim>\<open>DoorbellRegister::Ring\<close>: the value written.\<close>

definition doorbell_value :: "8 word \<Rightarrow> 16 word \<Rightarrow> 32 word" where
  "doorbell_value target stream =
     put_bits Doorbell_Bitmap ''db_stream_id'' (ucast stream) (put_bits Doorbell_Bitmap ''db_target'' (ucast target) 0)"

definition PORTSC_Bitmap :: layout where
  "PORTSC_Bitmap = [(''current_connect_status'', 1), (''port_enabled_disabled'', 1), ([], 1), (''over_current_active'', 1),
     (''port_reset'', 1), (''port_link_state'', 4), (''port_power'', 1), (''port_speed'', 4), (''port_indicator_control'', 2),
     (''port_link_state_write_strobe'', 1), (''connect_status_change'', 1), (''port_enabled_disabled_change'', 1),
     (''warm_port_reset_change'', 1), (''over_current_change'', 1), (''port_reset_change'', 1), (''port_link_state_change'', 1),
     (''port_config_error_change'', 1), (''cold_attach_status'', 1), (''wake_on_connect_enable'', 1),
     (''wake_on_disconnect_enable'', 1), (''wake_on_over_current_enable'', 1), ([], 2), (''device_removable'', 1),
     (''warm_port_reset'', 1)]"

definition PORTPMSC_Bitmap :: layout where
  "PORTPMSC_Bitmap = [(''u1_timeout'', 8), (''u2_timeout'', 8), (''force_link_pm_accept'', 1), ([], 15)]"

definition PORTLI_Bitmap :: layout where
  "PORTLI_Bitmap = [(''link_error_count'', 16), (''rx_lane_count'', 4), (''tx_lane_count'', 4), ([], 8)]"

definition PortRegisterSet :: layout where
  "PortRegisterSet = [(''PORTSC'', 4), (''PORTPMSC'', 4), (''PORTLI_'', 4), (''PORTHLPMC'', 4)]"

definition USBLEGSUP_Bitmap :: layout where
  "USBLEGSUP_Bitmap = [(''capability_id'', 8), (''next_pointer'', 8), (''hc_bios_owned_semaphore'', 1), ([], 7),
     (''hc_os_owned_semaphore'', 1), ([], 7)]"

section \<open>Fields are independent\<close>

lemma place_fits: "place fields f = Some (lo, n) \<Longrightarrow> lo + n \<le> layout_bits fields"
  by (induction fields f arbitrary: lo rule: place.induct) (auto simp: layout_bits_def split: if_splits)

lemma place_apart:
  "place fields f = Some (lo, n) \<Longrightarrow> place fields g = Some (lo', n') \<Longrightarrow> f \<noteq> g \<Longrightarrow> lo + n \<le> lo' \<or> lo' + n' \<le> lo"
proof (induction fields f arbitrary: lo lo' rule: place.induct)
  case (2 h k fields f)
  show ?case
  proof (cases "h = f \<and> f \<noteq> [] \<or> h = g \<and> g \<noteq> []")
    case True
    then show ?thesis using "2.prems" by (auto split: if_splits)
  next
    case False
    then obtain l l' where "place fields f = Some (l, n)" "lo = k + l" "place fields g = Some (l', n')" "lo' = k + l'"
      using "2.prems" by (auto split: if_splits)
    with "2.IH" [of l l'] False "2.prems"(3) show ?thesis by auto
  qed
qed simp

lemma bits_of_put_bits:
  fixes v w :: "'a::len word"
  assumes "place fields f = Some (lo, n)" "lo + n \<le> LENGTH('a)"
  shows "bits_of fields f (put_bits fields f v w) = take_bit n v"
  using assms by (simp add: bits_of_def put_bits_def field_set_field)

lemma bits_of_put_bits_other:
  fixes v w :: "'a::len word"
  assumes "f \<noteq> g"
  shows "bits_of fields g (put_bits fields f v w) = bits_of fields g w"
proof (cases "place fields f")
  case (Some p)
  show ?thesis
  proof (cases "place fields g")
    case (Some q)
    obtain lo n where p: "p = (lo, n)" by (cases p)
    obtain lo' n' where q: "q = (lo', n')" by (cases q)
    from place_apart [of fields f lo n g lo' n'] assms Some \<open>place fields f = Some p\<close> p q
    have "lo + n \<le> lo' \<or> lo' + n' \<le> lo" by simp
    then show ?thesis using Some \<open>place fields f = Some p\<close> p q
      by (auto simp: bits_of_def put_bits_def field_set_field_other)
  qed (simp add: bits_of_def)
qed (simp add: put_bits_def)

text \<open>Every union of the file with the number of bits of its data.\<close>

definition register_layouts :: "(layout \<times> nat) list" where
  "register_layouts = [(HCSPARAMS1_Bitmap, 32), (HCSPARAMS2_Bitmap, 32), (HCSPARAMS3_Bitmap, 32), (HCCPARAMS1_Bitmap, 32),
     (HCCPARAMS2_Bitmap, 32), (DBOFF_Bitmap, 32), (RTSOFF_Bitmap, 32), (USBCMD_Bitmap, 32), (USBSTS_Bitmap, 32),
     (CRCR_Bitmap, 64), (DCBAAP_Bitmap, 64), (CONFIG_Bitmap, 32), (IMAN_Bitmap, 32), (IMOD_Bitmap, 32), (ERSTSZ_Bitmap, 32),
     (ERSTBA_Bitmap, 64), (ERDP_Bitmap, 64), (Doorbell_Bitmap, 32), (PORTSC_Bitmap, 32), (PORTPMSC_Bitmap, 32),
     (PORTLI_Bitmap, 32), (USBLEGSUP_Bitmap, 32)]"

lemmas register_defs = HCSPARAMS1_Bitmap_def HCSPARAMS2_Bitmap_def HCSPARAMS3_Bitmap_def HCCPARAMS1_Bitmap_def
  HCCPARAMS2_Bitmap_def DBOFF_Bitmap_def RTSOFF_Bitmap_def USBCMD_Bitmap_def USBSTS_Bitmap_def CRCR_Bitmap_def DCBAAP_Bitmap_def
  CONFIG_Bitmap_def IMAN_Bitmap_def IMOD_Bitmap_def ERSTSZ_Bitmap_def ERSTBA_Bitmap_def ERDP_Bitmap_def Doorbell_Bitmap_def
  PORTSC_Bitmap_def PORTPMSC_Bitmap_def PORTLI_Bitmap_def USBLEGSUP_Bitmap_def

lemma register_sizes: "(fields, n) \<in> set register_layouts \<Longrightarrow> layout_bits fields = n"
  by (auto simp: register_layouts_def layout_bits_def register_defs)

text \<open>
  The register unions.  The fields of every union lie in its data word one behind the other, and assigning one field
  is seen in that field alone: it reads back cut to its width, every other named field reads as before,
  and no bit outside the field, reserved ones included, changes.
\<close>

theorem register_fields_independent:
  fixes v w :: "'a::len word"
  assumes "(fields, LENGTH('a)) \<in> set register_layouts" and "place fields f = Some (lo, n)"
  shows "bits_of fields g (put_bits fields f v w) = (if g = f then take_bit n v else bits_of fields g w)
    \<and> (\<forall>k. k < lo \<or> lo + n \<le> k \<longrightarrow> bit (put_bits fields f v w) k = bit w k)
    \<and> lo + n \<le> LENGTH('a)"
proof -
  have fit: "lo + n \<le> LENGTH('a)" using place_fits [OF assms(2)] register_sizes [OF assms(1)] by simp
  have "bits_of fields g (put_bits fields f v w) = bits_of fields g w" if "g \<noteq> f"
    using that by (metis bits_of_put_bits_other)
  moreover have "bits_of fields f (put_bits fields f v w) = take_bit n v" by (rule bits_of_put_bits [OF assms(2) fit])
  ultimately show ?thesis using fit by (auto simp: put_bits_def assms(2) bit_set_field_other)
qed

theorem register_fields_independent_witness:
  "bits_of USBCMD_Bitmap ''interrupter_enable'' (put_bits USBCMD_Bitmap ''interrupter_enable'' 1 (0xffff0001 :: 32 word)) = 1
   \<and> bits_of USBCMD_Bitmap ''run_stop'' (put_bits USBCMD_Bitmap ''interrupter_enable'' 1 (0xffff0001 :: 32 word)) = 1"
proof -
  have p: "place USBCMD_Bitmap ''interrupter_enable'' = Some (2, 1)" by (simp add: USBCMD_Bitmap_def)
  have l: "(USBCMD_Bitmap, LENGTH(32)) \<in> set register_layouts" by (simp add: register_layouts_def)
  have "bits_of USBCMD_Bitmap ''run_stop'' (0xffff0001 :: 32 word) = 1"
    by (simp add: bits_of_def USBCMD_Bitmap_def field_def)
  then show ?thesis using register_fields_independent [OF l p, of _ 1 "0xffff0001"] by simp
qed

text \<open>The offsets that the packed structs give the registers.\<close>

lemma register_offsets:
  "member_at CapabilityRegisters ''HCSPARAMS1'' = 0x4" "member_at CapabilityRegisters ''HCSPARAMS2'' = 0x8"
  "member_at CapabilityRegisters ''HCCPARAMS1'' = 0x10" "member_at CapabilityRegisters ''DBOFF'' = 0x14"
  "member_at CapabilityRegisters ''RTSOFF'' = 0x18" "member_at OperationalRegisters ''USBCMD'' = 0x0"
  "member_at OperationalRegisters ''USBSTS'' = 0x4" "member_at OperationalRegisters ''CRCR'' = 0x18"
  "member_at OperationalRegisters ''DCBAAP'' = 0x30" "member_at OperationalRegisters ''CONFIG'' = 0x38"
  "member_at InterrupterRegisterSet ''ERSTSZ'' = 0x8" "member_at InterrupterRegisterSet ''ERSTBA'' = 0x10"
  "member_at InterrupterRegisterSet ''ERDP'' = 0x18" "layout_bits PortRegisterSet = 16"
  by (simp_all add: member_at_def CapabilityRegisters_def OperationalRegisters_def InterrupterRegisterSet_def
      PortRegisterSet_def layout_bits_def)

end
