(* ===== verification/Xhci_Init.thy ===== *)
theory Xhci_Init imports Registers Pci Segment Xhci begin

text \<open>
  The start of the xHCI controller, \<^verbatim>\<open>kernel/usb/xhci/xhci.cpp\<close>: taking it over from the firmware, reset,
  and the programming of its registers (\<^verbatim>\<open>Controller::Initialize\<close>, \<^verbatim>\<open>Run\<close>, \<^verbatim>\<open>usb::xhci::Initialize\<close>).

  The hardware is a parameter: a function from the accesses so far, the width and the address of a read to
  the value read.  The program runs on the list of its accesses; a loop that polls a register is a
  \<open>partial_function\<close>, \<open>None\<close> when the register never shows the value.  \<^verbatim>\<open>udelay\<close> accesses nothing here.  The
  registers of the event ring are accessed like the others here; what was written to them is kept in the
  ring's record, from which \<open>Usb_Ring\<close> takes it.
\<close>

section \<open>Registers\<close>

datatype access = Rd nat u64 u64 | Wr nat u64 u64

type_synonym hardware = "access list \<Rightarrow> nat \<Rightarrow> u64 \<Rightarrow> u64"

definition read8 :: "hardware \<Rightarrow> u64 \<Rightarrow> access list \<Rightarrow> u8 \<times> access list" where
  "read8 hw a h = (ucast (hw h 1 a), h @ [Rd 1 a (hw h 1 a)])"

definition read32 :: "hardware \<Rightarrow> u64 \<Rightarrow> access list \<Rightarrow> u32 \<times> access list" where
  "read32 hw a h = (ucast (hw h 4 a), h @ [Rd 4 a (hw h 4 a)])"

definition read64 :: "hardware \<Rightarrow> u64 \<Rightarrow> access list \<Rightarrow> u64 \<times> access list" where
  "read64 hw a h = (hw h 8 a, h @ [Rd 8 a (hw h 8 a)])"

definition write32 :: "u64 \<Rightarrow> u32 \<Rightarrow> access list \<Rightarrow> access list" where
  "write32 a v h = h @ [Wr 4 a (ucast v)]"

definition write64 :: "u64 \<Rightarrow> u64 \<Rightarrow> access list \<Rightarrow> access list" where
  "write64 a v h = h @ [Wr 8 a v]"

text \<open>\<^verbatim>\<open>while (!done(reg->Read()));\<close>\<close>

partial_function (option) poll :: "hardware \<Rightarrow> u64 \<Rightarrow> (u32 \<Rightarrow> bool) \<Rightarrow> access list \<Rightarrow> access list option" where
  "poll hw a stop h =
     (if stop (fst (read32 hw a h)) then Some (snd (read32 hw a h)) else poll hw a stop (snd (read32 hw a h)))"

section \<open>The firmware gives up the controller\<close>

text \<open>
  \<open>ext_reg += next_pointer << 2\<close> moves a pointer to registers of four bytes, so by sixteen bytes for every
  one of the field.
\<close>

partial_function (option) find_usblegsup :: "hardware \<Rightarrow> u64 \<Rightarrow> access list \<Rightarrow> (u64 option \<times> access list) option" where
  "find_usblegsup hw a h = (case read32 hw a h of (v, h) \<Rightarrow>
     if bits_of USBLEGSUP_Bitmap ''capability_id'' v = 1 then Some (Some a, h)
     else if bits_of USBLEGSUP_Bitmap ''next_pointer'' v = 0 then Some (None, h)
     else find_usblegsup hw (a + 4 * ucast (push_bit 2 (bits_of USBLEGSUP_Bitmap ''next_pointer'' v))) h)"

definition RequestHCOwnership :: "hardware \<Rightarrow> u64 \<Rightarrow> u32 \<Rightarrow> access list \<Rightarrow> access list option" where
  "RequestHCOwnership hw mmio_base hccp h =
     (let xecp = bits_of HCCPARAMS1_Bitmap ''xhci_extended_capabilities_pointer'' hccp in
      if xecp = 0 then Some h
      else do {
        (found, h) \<leftarrow> find_usblegsup hw (mmio_base + ucast xecp) h;
        (case found of
           None \<Rightarrow> Some h
         | Some a \<Rightarrow>
             (case read32 hw a h of (v, h) \<Rightarrow>
                if bits_of USBLEGSUP_Bitmap ''hc_os_owned_semaphore'' v \<noteq> 0 then Some h
                else poll hw a (\<lambda>v. bits_of USBLEGSUP_Bitmap ''hc_bios_owned_semaphore'' v = 0
                                   \<and> bits_of USBLEGSUP_Bitmap ''hc_os_owned_semaphore'' v \<noteq> 0)
                       (write32 a (put_bits USBLEGSUP_Bitmap ''hc_os_owned_semaphore'' 1 v) h))) })"

section \<open>The controller\<close>

definition cap_reg :: "u64 \<Rightarrow> string \<Rightarrow> u64" where
  "cap_reg mmio_base f = mmio_base + of_nat (member_at CapabilityRegisters f)"

definition op_reg :: "u64 \<Rightarrow> string \<Rightarrow> u64" where
  "op_reg op f = op + of_nat (member_at OperationalRegisters f)"

text \<open>The constructor: the address of the operational registers and the number of ports.\<close>

definition Controller_new :: "hardware \<Rightarrow> u64 \<Rightarrow> access list \<Rightarrow> u64 \<times> u8 \<times> access list" where
  "Controller_new hw mmio_base h =
     (case read8 hw (cap_reg mmio_base ''CAPLENGTH'') h of (n, h) \<Rightarrow>
      case read32 hw (cap_reg mmio_base ''HCSPARAMS1'') h of (v, h) \<Rightarrow>
        (mmio_base + ucast n, ucast (bits_of HCSPARAMS1_Bitmap ''max_ports'' v), h))"

text \<open>The addresses of register sets whose offsets are in registers.\<close>

definition InterrupterRegisterSets :: "hardware \<Rightarrow> u64 \<Rightarrow> access list \<Rightarrow> u64 \<times> access list" where
  "InterrupterRegisterSets hw mmio_base h =
     (case read32 hw (cap_reg mmio_base ''RTSOFF'') h of (v, h) \<Rightarrow> (mmio_base + ucast (RTSOFF_Offset v) + 0x20, h))"

definition DoorbellRegisterAt :: "hardware \<Rightarrow> u64 \<Rightarrow> u8 \<Rightarrow> access list \<Rightarrow> u64 \<times> access list" where
  "DoorbellRegisterAt hw mmio_base index h =
     (case read32 hw (cap_reg mmio_base ''DBOFF'') h of (v, h) \<Rightarrow>
        (mmio_base + ucast (DBOFF_Offset v) + 4 * ucast index, h))"

definition PortRegisterSet_at :: "u64 \<Rightarrow> u8 \<Rightarrow> u64" where
  "PortRegisterSet_at op n = op + 0x400 + of_nat (layout_bits PortRegisterSet) * (ucast n - 1)"

text \<open>What start-up leaves in memory for the controller besides the rings.\<close>

record xhci_memory =
  dcbaa :: u64
  scratchpad_array :: u64
  scratchpad_pages :: "u64 list"

text \<open>\<^verbatim>\<open>DeviceManager::Initialize\<close>, with the address of the array of device contexts.\<close>

definition DeviceManager_Initialize :: "nat \<Rightarrow> Controller \<Rightarrow> Controller \<times> u64 \<times> error_code" where
  "DeviceManager_Initialize max_slots c =
     (case AllocArray 8 (of_nat (max_slots + 1)) 0 0 (pool (usb c)) of (a, p) \<Rightarrow>
        let c = c\<lparr>usb := (usb c)\<lparr>pool := p\<rparr>\<rparr> in
        if a = 0 then (c, 0, kNoEnoughMemory)
        else (case AllocArray 8 (of_nat (max_slots + 1)) 64 4096 p of (b, p) \<Rightarrow>
          let c = c\<lparr>usb := (usb c)\<lparr>pool := p\<rparr>, devices := replicate (max_slots + 1) None\<rparr> in
          if b = 0 then (c\<lparr>usb := (usb c)\<lparr>pool := FreeMem a p\<rparr>\<rparr>, 0, kNoEnoughMemory)
          else (c\<lparr>device_context_pointers := replicate (max_slots + 1) 0\<rparr>, b, kSuccess)))"

text \<open>The loop that fills the array of scratchpad pages; a page that the pool cannot give is a null pointer.\<close>

fun scratchpads :: "nat \<Rightarrow> UsbPool \<Rightarrow> u64 list \<times> UsbPool" where
  "scratchpads 0 p = ([], p)"
| "scratchpads (Suc n) p = (case AllocMem 4096 4096 4096 p of (a, p) \<Rightarrow>
     case scratchpads n p of (as, p) \<Rightarrow> (a # as, p))"

definition max_scratchpad_buffers :: "u32 \<Rightarrow> u16" where
  "max_scratchpad_buffers v = ucast (bits_of HCSPARAMS2_Bitmap ''max_scratchpad_buffers_low'' v
     OR push_bit 5 (bits_of HCSPARAMS2_Bitmap ''max_scratchpad_buffers_high'' v))"

text \<open>An array that the pool cannot give is written at address 0, which is \<open>None\<close>.\<close>

definition set_scratchpads :: "u16 \<Rightarrow> u64 \<Rightarrow> Controller \<Rightarrow> (Controller \<times> xhci_memory) option" where
  "set_scratchpads n dcba c =
     (if n = 0 then Some (c, \<lparr>dcbaa = dcba, scratchpad_array = 0, scratchpad_pages = []\<rparr>)
      else case AllocArray 8 (ucast n) 64 4096 (pool (usb c)) of (a, p) \<Rightarrow>
        if a = 0 then None
        else case scratchpads (unat n) p of (as, p) \<Rightarrow>
          Some (c\<lparr>usb := (usb c)\<lparr>pool := p\<rparr>, device_context_pointers := (device_context_pointers c)[0 := a]\<rparr>,
                \<lparr>dcbaa = dcba, scratchpad_array = a, scratchpad_pages = as\<rparr>))"

section \<open>Initialisation\<close>

text \<open>What the loops wait for.\<close>

definition halted :: "u32 \<Rightarrow> bool" where
  "halted v \<longleftrightarrow> bits_of USBSTS_Bitmap ''host_controller_halted'' v \<noteq> 0"

definition reset_done :: "u32 \<Rightarrow> bool" where
  "reset_done v \<longleftrightarrow> bits_of USBCMD_Bitmap ''host_controller_reset'' v = 0"

definition ready :: "u32 \<Rightarrow> bool" where
  "ready v \<longleftrightarrow> bits_of USBSTS_Bitmap ''controller_not_ready'' v = 0"

text \<open>\<^verbatim>\<open>Controller::Initialize\<close> up to the reset, and from there to the event ring.\<close>

definition stop_and_reset :: "hardware \<Rightarrow> u64 \<Rightarrow> access list \<Rightarrow> access list option" where
  "stop_and_reset hw op h = do {
     let (usbcmd, h) = read32 hw (op_reg op ''USBCMD'') h;
     let usbcmd = put_bits USBCMD_Bitmap ''interrupter_enable'' 0 usbcmd;
     let usbcmd = put_bits USBCMD_Bitmap ''host_system_error_enable'' 0 usbcmd;
     let usbcmd = put_bits USBCMD_Bitmap ''enable_wrap_event'' 0 usbcmd;
     let (usbsts, h) = read32 hw (op_reg op ''USBSTS'') h;
     let usbcmd = (if \<not> halted usbsts then put_bits USBCMD_Bitmap ''run_stop'' 0 usbcmd else usbcmd);
     let h = write32 (op_reg op ''USBCMD'') usbcmd h;
     h \<leftarrow> poll hw (op_reg op ''USBSTS'') halted h;
     let (usbcmd, h) = read32 hw (op_reg op ''USBCMD'') h;
     let h = write32 (op_reg op ''USBCMD'') (put_bits USBCMD_Bitmap ''host_controller_reset'' 1 usbcmd) h;
     h \<leftarrow> poll hw (op_reg op ''USBCMD'') reset_done h;
     poll hw (op_reg op ''USBSTS'') ready h }"

text \<open>The first read of \<^verbatim>\<open>HCSPARAMS1\<close> is an argument of a log message.\<close>

definition set_max_slots :: "hardware \<Rightarrow> u64 \<Rightarrow> u64 \<Rightarrow> access list \<Rightarrow> access list" where
  "set_max_slots hw mmio_base op h =
     (case read32 hw (cap_reg mmio_base ''HCSPARAMS1'') h of (_, h) \<Rightarrow>
      case read32 hw (op_reg op ''CONFIG'') h of (config, h) \<Rightarrow>
        write32 (op_reg op ''CONFIG'') (put_bits CONFIG_Bitmap ''max_device_slots_enabled'' (of_nat kDeviceSize) config) h)"

definition set_command_ring :: "hardware \<Rightarrow> u64 \<Rightarrow> Ring \<Rightarrow> access list \<Rightarrow> access list" where
  "set_command_ring hw op r h =
     (case read64 hw (op_reg op ''CRCR'') h of (v, h) \<Rightarrow>
        let v = put_bits CRCR_Bitmap ''ring_cycle_state'' (if RingCycleState r then 1 else 0) v;
            v = put_bits CRCR_Bitmap ''command_stop'' 0 v;
            v = put_bits CRCR_Bitmap ''command_abort'' 0 v
        in write64 (op_reg op ''CRCR'') (CRCR_SetPointer (ring_buf r) v) h)"

text \<open>
  The registers that \<^verbatim>\<open>EventRing::Initialize\<close> reads and writes, on a ring whose buffer and segment table are
  there; \<open>Usb_Ring.EventRing_Initialize\<close> is the same routine on a ring that has its registers in the record.
\<close>

definition interrupter_reg :: "u64 \<Rightarrow> string \<Rightarrow> u64" where
  "interrupter_reg interrupter f = interrupter + of_nat (member_at InterrupterRegisterSet f)"

definition set_event_ring :: "hardware \<Rightarrow> u64 \<Rightarrow> EventRing \<Rightarrow> access list \<Rightarrow> EventRing \<times> access list" where
  "set_event_ring hw interrupter e h =
     (case read32 hw (interrupter_reg interrupter ''ERSTSZ'') h of (erstsz, h) \<Rightarrow>
      let erstsz = ERSTSZ_SetSize 1 erstsz;
          h = write32 (interrupter_reg interrupter ''ERSTSZ'') erstsz h
      in case read64 hw (interrupter_reg interrupter ''ERDP'') h of (erdp, h) \<Rightarrow>
      let erdp = ERDP_SetPointer (er_buf e) erdp;
          h = write64 (interrupter_reg interrupter ''ERDP'') erdp h
      in case read64 hw (interrupter_reg interrupter ''ERSTBA'') h of (erstba, h) \<Rightarrow>
      let erstba = ERSTBA_SetPointer (er_erst e) erstba;
          h = write64 (interrupter_reg interrupter ''ERSTBA'') erstba h
      in (e\<lparr>ERSTSZ := erstsz, ERDP := erdp, ERSTBA := erstba\<rparr>, h))"

definition enable_interrupts :: "hardware \<Rightarrow> u64 \<Rightarrow> u64 \<Rightarrow> access list \<Rightarrow> access list" where
  "enable_interrupts hw op interrupter h =
     (let iman_at = interrupter_reg interrupter ''IMAN'' in
      case read32 hw iman_at h of (iman, h) \<Rightarrow>
        let iman = put_bits IMAN_Bitmap ''interrupt_pending'' 1 iman;
            iman = put_bits IMAN_Bitmap ''interrupt_enable'' 1 iman;
            h = write32 iman_at iman h
        in case read32 hw (op_reg op ''USBCMD'') h of (usbcmd, h) \<Rightarrow>
          write32 (op_reg op ''USBCMD'') (put_bits USBCMD_Bitmap ''interrupter_enable'' 1 usbcmd) h)"

definition program_registers ::
    "hardware \<Rightarrow> u64 \<Rightarrow> u64 \<Rightarrow> u64 \<Rightarrow> Controller \<Rightarrow> access list \<Rightarrow> (Controller \<times> xhci_memory option \<times> access list \<times> error_code) option" where
  "program_registers hw mmio_base op dcba c h =
     (let h = set_max_slots hw mmio_base op h;
          (hcsparams2, h) = read32 hw (cap_reg mmio_base ''HCSPARAMS2'') h
      in case set_scratchpads (max_scratchpad_buffers hcsparams2) dcba c of
           None \<Rightarrow> None
         | Some (c, m) \<Rightarrow>
             let h = write64 (op_reg op ''DCBAAP'') (DCBAAP_SetPointer dcba 0) h
             in case Ring_Initialize 32 (pool (usb c)) (trbs (usb c)) of (r, p, t, err) \<Rightarrow>
               let c = c\<lparr>cmd_ring := r, usb := (usb c)\<lparr>pool := p, trbs := t\<rparr>\<rparr>
               in if err \<noteq> kSuccess then Some (c, Some m, h, err)
                  else let h = set_command_ring hw op r h;
                           (interrupter, h) = InterrupterRegisterSets hw mmio_base h
                       in case EventRing_Initialize 32 (evt_ring c) (pool (usb c)) (trbs (usb c)) of (e, p, t, err) \<Rightarrow>
                         let c = c\<lparr>evt_ring := e, usb := (usb c)\<lparr>pool := p, trbs := t\<rparr>\<rparr>
                         in if err \<noteq> kSuccess then Some (c, Some m, h, err)
                            else let (e, h) = set_event_ring hw interrupter e h
                                 in Some (c\<lparr>evt_ring := e\<rparr>, Some m, enable_interrupts hw op interrupter h, kSuccess))"

definition Controller_Initialize ::
    "hardware \<Rightarrow> u64 \<Rightarrow> u64 \<Rightarrow> Controller \<Rightarrow> access list \<Rightarrow> (Controller \<times> xhci_memory option \<times> access list \<times> error_code) option" where
  "Controller_Initialize hw mmio_base op c h =
     (case DeviceManager_Initialize kDeviceSize c of (c, dcba, err) \<Rightarrow>
      if err \<noteq> kSuccess then Some (c, None, h, err)
      else do {
        let (hccp, h) = read32 hw (cap_reg mmio_base ''HCCPARAMS1'') h;
        h \<leftarrow> RequestHCOwnership hw mmio_base hccp h;
        h \<leftarrow> stop_and_reset hw op h;
        program_registers hw mmio_base op dcba c h })"

definition Run :: "hardware \<Rightarrow> u64 \<Rightarrow> access list \<Rightarrow> access list option" where
  "Run hw op h =
     (case read32 hw (op_reg op ''USBCMD'') h of (usbcmd, h) \<Rightarrow>
        poll hw (op_reg op ''USBSTS'') (\<lambda>v. bits_of USBSTS_Bitmap ''host_controller_halted'' v = 0)
          (write32 (op_reg op ''USBCMD'') (put_bits USBCMD_Bitmap ''run_stop'' 1 usbcmd) h))"

section \<open>Finding the controller and starting it\<close>

text \<open>The last controller of the class, or the first one of Intel.\<close>

fun find_xhc :: "config \<Rightarrow> Pci.Device list \<Rightarrow> Pci.Device option \<Rightarrow> Pci.Device option" where
  "find_xhc cfg [] xhc_dev = xhc_dev"
| "find_xhc cfg (d # ds) xhc_dev =
     (if Match3 (class_code d) 0x0c 0x03 0x30
      then if ReadVendorId cfg (bus d) (device d) (func d) = 0x8086 then Some d else find_xhc cfg ds (Some d)
      else find_xhc cfg ds xhc_dev)"

definition SwitchEchi2Xhci :: "config \<Rightarrow> Pci.Device list \<Rightarrow> Pci.Device \<Rightarrow> (u32 \<times> u32) list" where
  "SwitchEchi2Xhci cfg ds xhc_dev =
     (if \<exists>d \<in> set ds. Match3 (class_code d) 0x0c 0x03 0x20 \<and> ReadVendorId cfg (bus d) (device d) (func d) = 0x8086
      then [WriteConfReg xhc_dev 0xd8 (ReadConfReg cfg xhc_dev 0xdc), WriteConfReg xhc_dev 0xd0 (ReadConfReg cfg xhc_dev 0xd4)]
      else [])"

datatype start_failure = NoController | NoMSI error_code | InitializeFailed error_code

text \<open>
  \<^verbatim>\<open>usb::xhci::Initialize\<close>: the writes to the configuration space, the accesses to the registers and the
  controller with its ports configured, or why the kernel stops.  \<open>c\<close> is the zeroed storage of the object.
\<close>

definition xhci_Initialize ::
    "HcEnv \<Rightarrow> hardware \<Rightarrow> config \<Rightarrow> Pci.Device list \<Rightarrow> u32 \<Rightarrow> Controller \<Rightarrow> (start_failure + (u32 \<times> u32) list \<times> access list \<times> Controller) option" where
  "xhci_Initialize env hw cfg ds apic_reg c =
     (case find_xhc cfg ds None of
        None \<Rightarrow> Some (Inl NoController)
      | Some dev \<Rightarrow> do {
          let apic_id = ucast (drop_bit 24 apic_reg);
          (ws, err) \<leftarrow> ConfigureMSIFixedDestination cfg dev apic_id kLevel kFixed (of_nat kXHCI) 0;
          if err \<noteq> kSuccess then Some (Inl (NoMSI err))
          else do {
            let mmio_base = fst (ReadBar cfg dev 0) AND NOT 0xf;
            let (op, n, h) = Controller_new hw mmio_base [];
            let ws2 = (if ReadVendorId cfg (bus dev) (device dev) (func dev) = 0x8086 then SwitchEchi2Xhci cfg ds dev else []);
            (c, m, h, err) \<leftarrow> Controller_Initialize hw mmio_base op (c\<lparr>max_ports := n\<rparr>) h;
            if err \<noteq> kSuccess then Some (Inl (InitializeFailed err))
            else do {
              h \<leftarrow> Run hw op h;
              c \<leftarrow> configure_ports env c;
              Some (Inr (ws @ ws2, h, c)) } } })"

section \<open>Polling\<close>

fun reads :: "hardware \<Rightarrow> u64 \<Rightarrow> nat \<Rightarrow> access list \<Rightarrow> access list" where
  "reads hw a 0 h = h"
| "reads hw a (Suc n) h = reads hw a n (snd (read32 hw a h))"

definition settles :: "hardware \<Rightarrow> u64 \<Rightarrow> (u32 \<Rightarrow> bool) \<Rightarrow> access list \<Rightarrow> bool" where
  "settles hw a stop h \<longleftrightarrow> (\<exists>n. stop (fst (read32 hw a (reads hw a n h))))"

text \<open>Reads of one register, the last of which shows what was waited for.\<close>

definition waited :: "u64 \<Rightarrow> (u32 \<Rightarrow> bool) \<Rightarrow> access list \<Rightarrow> bool" where
  "waited a stop p \<longleftrightarrow> (\<exists>vs v. p = map (Rd 4 a) (vs @ [v]) \<and> stop (ucast v) \<and> list_all (\<lambda>u. \<not> stop (ucast u)) vs)"

lemma waited_Nil: "\<not> waited a stop []"
  by (simp add: waited_def)

lemma waited_one: "stop (ucast v) \<Longrightarrow> waited a stop [Rd 4 a v]"
  unfolding waited_def by (rule exI [of _ "[]"]) simp

lemma waited_Cons: "\<not> stop (ucast v) \<Longrightarrow> waited a stop p \<Longrightarrow> waited a stop (Rd 4 a v # p)"
  unfolding waited_def by (elim exE conjE, rule_tac x = "v # vs" in exI) simp

lemma poll_returns:
  assumes "stop (fst (read32 hw a (reads hw a n h)))"
  shows "\<exists>p. poll hw a stop h = Some (h @ p) \<and> waited a stop p"
  using assms
proof (induction n arbitrary: h)
  case 0
  then show ?case by (subst poll.simps) (auto simp: read32_def intro: waited_one)
next
  case (Suc n)
  show ?case
  proof (cases "stop (fst (read32 hw a h))")
    case True
    then show ?thesis by (subst poll.simps) (auto simp: read32_def intro: waited_one)
  next
    case False
    obtain p where "poll hw a stop (snd (read32 hw a h)) = Some (snd (read32 hw a h) @ p)" "waited a stop p"
      using Suc.IH Suc.prems by (metis reads.simps(2))
    with False show ?thesis
      by (subst poll.simps) (auto simp: read32_def intro!: waited_Cons)
  qed
qed

lemma poll_settles: "settles hw a stop h \<Longrightarrow> \<exists>p. poll hw a stop h = Some (h @ p) \<and> waited a stop p"
  by (auto simp: settles_def intro: poll_returns)

section \<open>The reset\<close>

lemma put_interrupter_enable [simp]: "bits_of USBCMD_Bitmap ''interrupter_enable'' (put_bits USBCMD_Bitmap ''interrupter_enable'' v (w :: u32)) = take_bit 1 v"
  by (rule bits_of_put_bits [where lo = 2]) (simp_all add: USBCMD_Bitmap_def)

lemma put_run_stop [simp]: "bits_of USBCMD_Bitmap ''run_stop'' (put_bits USBCMD_Bitmap ''run_stop'' v (w :: u32)) = take_bit 1 v"
  by (rule bits_of_put_bits [where lo = 0]) (simp_all add: USBCMD_Bitmap_def)

lemma put_host_controller_reset [simp]:
  "bits_of USBCMD_Bitmap ''host_controller_reset'' (put_bits USBCMD_Bitmap ''host_controller_reset'' v (w :: u32)) = take_bit 1 v"
  by (rule bits_of_put_bits [where lo = 1]) (simp_all add: USBCMD_Bitmap_def)

lemma put_host_system_error_enable [simp]:
  "bits_of USBCMD_Bitmap ''host_system_error_enable'' (put_bits USBCMD_Bitmap ''host_system_error_enable'' v (w :: u32)) = take_bit 1 v"
  by (rule bits_of_put_bits [where lo = 3]) (simp_all add: USBCMD_Bitmap_def)

lemma put_enable_wrap_event [simp]:
  "bits_of USBCMD_Bitmap ''enable_wrap_event'' (put_bits USBCMD_Bitmap ''enable_wrap_event'' v (w :: u32)) = take_bit 1 v"
  by (rule bits_of_put_bits [where lo = 10]) (simp_all add: USBCMD_Bitmap_def)

lemma ucast_register [simp]: "ucast (ucast (v :: u32) :: u64) = v"
  by (simp add: ucast_up_ucast_id is_up)

text \<open>
  C18: stopping and resetting the controller.  For a controller that halts after its run bit was written 0,
  is never halted with the run bit on, ends a reset and becomes ready, the routine returns, and its accesses
  come in the order that the hardware asks for: run and interrupts are turned off, the reset is written
  only after \<^verbatim>\<open>USBSTS\<close> was read halted, and nothing else is accessed before the reset bit was read 0 and
  then the controller was read ready.
\<close>

theorem reset_in_order:
  assumes "\<And>h v. bits_of USBCMD_Bitmap ''run_stop'' (ucast v :: u32) = 0 \<Longrightarrow>
      settles hw (op_reg op ''USBSTS'') halted (h @ [Wr 4 (op_reg op ''USBCMD'') v])"
    and "\<And>h v. v = hw h 4 (op_reg op ''USBCMD'') \<Longrightarrow> halted (ucast (hw (h @ [Rd 4 (op_reg op ''USBCMD'') v]) 4 (op_reg op ''USBSTS''))) \<Longrightarrow>
      bits_of USBCMD_Bitmap ''run_stop'' (ucast v :: u32) = 0"
    and "\<And>h v. \<not> reset_done (ucast v) \<Longrightarrow> settles hw (op_reg op ''USBCMD'') reset_done (h @ [Wr 4 (op_reg op ''USBCMD'') v])"
    and "\<And>h. settles hw (op_reg op ''USBSTS'') ready h"
  shows "\<exists>u s off p1 v rst p2 p3. stop_and_reset hw op h =
      Some (h @ [Rd 4 (op_reg op ''USBCMD'') u, Rd 4 (op_reg op ''USBSTS'') s, Wr 4 (op_reg op ''USBCMD'') (ucast off)] @ p1
              @ [Rd 4 (op_reg op ''USBCMD'') v, Wr 4 (op_reg op ''USBCMD'') (ucast rst)] @ p2 @ p3)
    \<and> bits_of USBCMD_Bitmap ''run_stop'' off = (0 :: u32) \<and> bits_of USBCMD_Bitmap ''interrupter_enable'' off = 0
    \<and> bits_of USBCMD_Bitmap ''host_system_error_enable'' off = 0 \<and> bits_of USBCMD_Bitmap ''enable_wrap_event'' off = 0
    \<and> waited (op_reg op ''USBSTS'') halted p1
    \<and> bits_of USBCMD_Bitmap ''host_controller_reset'' rst = (1 :: u32)
    \<and> waited (op_reg op ''USBCMD'') reset_done p2 \<and> waited (op_reg op ''USBSTS'') ready p3"
proof -
  define cmd sts where "cmd = op_reg op ''USBCMD''" and "sts = op_reg op ''USBSTS''"
  define u where "u = hw h 4 cmd"
  define s where "s = hw (h @ [Rd 4 cmd u]) 4 sts"
  define off0 where "off0 = put_bits USBCMD_Bitmap ''enable_wrap_event'' 0 (put_bits USBCMD_Bitmap ''host_system_error_enable'' 0
    (put_bits USBCMD_Bitmap ''interrupter_enable'' 0 (ucast u :: u32)))"
  define off where "off = (if halted (ucast s) then off0 else put_bits USBCMD_Bitmap ''run_stop'' 0 off0)"
  have off: "bits_of USBCMD_Bitmap ''run_stop'' off = 0" "bits_of USBCMD_Bitmap ''interrupter_enable'' off = 0"
      "bits_of USBCMD_Bitmap ''host_system_error_enable'' off = 0" "bits_of USBCMD_Bitmap ''enable_wrap_event'' off = 0"
    using assms(2) [of u h] by (simp_all add: off_def off0_def bits_of_put_bits_other s_def u_def cmd_def sts_def)
  define h1 where "h1 = h @ [Rd 4 cmd u, Rd 4 sts s, Wr 4 cmd (ucast off)]"
  have "settles hw sts halted h1" using assms(1) [of "ucast off" "h @ [Rd 4 cmd u, Rd 4 sts s]"] off
    by (simp add: h1_def cmd_def sts_def)
  from poll_settles [OF this] obtain p1 where p1: "poll hw sts halted h1 = Some (h1 @ p1)" "waited sts halted p1" by blast
  define v where "v = hw (h1 @ p1) 4 cmd"
  define rst where "rst = put_bits USBCMD_Bitmap ''host_controller_reset'' 1 (ucast v :: u32)"
  have rst: "bits_of USBCMD_Bitmap ''host_controller_reset'' rst = 1" by (simp add: rst_def)
  define h2 where "h2 = h1 @ p1 @ [Rd 4 cmd v, Wr 4 cmd (ucast rst)]"
  have "settles hw cmd reset_done h2" using assms(3) [of "ucast rst" "h1 @ p1 @ [Rd 4 cmd v]"] rst
    by (simp add: h2_def cmd_def reset_done_def)
  from poll_settles [OF this] obtain p2 where p2: "poll hw cmd reset_done h2 = Some (h2 @ p2)" "waited cmd reset_done p2" by blast
  obtain p3 where p3: "poll hw sts ready (h2 @ p2) = Some (h2 @ p2 @ p3)" "waited sts ready p3"
    using poll_settles [of hw sts ready "h2 @ p2"] assms(4) by (auto simp: sts_def)
  have run: "stop_and_reset hw op h = Some (h2 @ p2 @ p3)"
    using p1(1) p2(1) p3(1)
    by (cases "halted (ucast s)")
      (simp_all add: stop_and_reset_def read32_def write32_def cmd_def [symmetric] sts_def [symmetric] u_def [symmetric]
        s_def [symmetric] off0_def [symmetric] off_def h1_def v_def rst_def h2_def)
  show ?thesis
    unfolding cmd_def [symmetric] sts_def [symmetric]
    by (rule exI [of _ u], rule exI [of _ s], rule exI [of _ off], rule exI [of _ p1], rule exI [of _ v],
        rule exI [of _ rst], rule exI [of _ p2], rule exI [of _ p3])
      (use run off p1(2) p2(2) p3(2) rst in \<open>simp add: h2_def h1_def\<close>)
qed

text \<open>
  A controller whose run bit is on at first: \<^verbatim>\<open>USBCMD\<close> reads what was written last, less the reset bit, and
  \<^verbatim>\<open>USBSTS\<close> is halted when the run bit is off.
\<close>

fun cmd_of :: "u64 \<Rightarrow> u64 \<Rightarrow> access list \<Rightarrow> u64" where
  "cmd_of a v [] = v"
| "cmd_of a v (Wr n b w # h) = cmd_of a (if b = a then w AND NOT 2 else v) h"
| "cmd_of a v (Rd n b w # h) = cmd_of a v h"

definition example_xhc :: hardware where
  "example_xhc h n a = (if a = 0x1000 then cmd_of 0x1000 1 h
     else if a = 0x1004 then NOT (cmd_of 0x1000 1 h) AND 1 else 0)"

lemma cmd_of_append [simp]: "cmd_of a v (h @ h') = cmd_of a (cmd_of a v h) h'"
  by (induction a v h rule: cmd_of.induct) auto

lemma op_reg_example: "op_reg 0x1000 ''USBCMD'' = 0x1000" "op_reg 0x1000 ''USBSTS'' = 0x1004"
  by (simp_all add: op_reg_def register_offsets)

lemma halted_bit: "halted v \<longleftrightarrow> bit v 0"
  by (simp add: halted_def bits_of_def USBSTS_Bitmap_def field_def take_bit_Suc bit_0 odd_iff_mod_2_eq_one)

lemma ready_bit: "ready v \<longleftrightarrow> \<not> bit v 11"
  by (simp add: ready_def bits_of_def USBSTS_Bitmap_def field_def take_bit_Suc bit_iff_odd_drop_bit odd_iff_mod_2_eq_one)

lemma reset_done_bit: "reset_done v \<longleftrightarrow> \<not> bit v 1"
  by (simp add: reset_done_def bits_of_def USBCMD_Bitmap_def field_def take_bit_Suc bit_iff_odd_drop_bit odd_iff_mod_2_eq_one)

lemma run_stop_bit: "bits_of USBCMD_Bitmap ''run_stop'' (v :: u32) = 0 \<longleftrightarrow> \<not> bit v 0"
  by (simp add: bits_of_def USBCMD_Bitmap_def field_def take_bit_Suc bit_0 odd_iff_mod_2_eq_one)

lemma settles_now: "stop (ucast (hw h 4 a)) \<Longrightarrow> settles hw a stop h"
  unfolding settles_def by (rule exI [of _ 0]) (simp add: read32_def)

theorem reset_in_order_witness: "\<exists>p. stop_and_reset example_xhc 0x1000 [] = Some p"
proof -
  note bits = halted_bit ready_bit reset_done_bit run_stop_bit example_xhc_def op_reg_example bit_simps
  have 1: "settles example_xhc (op_reg 0x1000 ''USBSTS'') halted (h @ [Wr 4 (op_reg 0x1000 ''USBCMD'') v])"
    if "bits_of USBCMD_Bitmap ''run_stop'' (ucast v :: u32) = 0" for h v
    using that by (intro settles_now) (simp add: bits)
  have 2: "bits_of USBCMD_Bitmap ''run_stop'' (ucast v :: u32) = 0"
    if "v = example_xhc h 4 (op_reg 0x1000 ''USBCMD'')"
      and "halted (ucast (example_xhc (h @ [Rd 4 (op_reg 0x1000 ''USBCMD'') v]) 4 (op_reg 0x1000 ''USBSTS'')))" for h v
    using that by (simp add: bits)
  have 3: "settles example_xhc (op_reg 0x1000 ''USBCMD'') reset_done (h @ [Wr 4 (op_reg 0x1000 ''USBCMD'') v])" for h v
    by (intro settles_now) (simp add: bits)
  have 4: "settles example_xhc (op_reg 0x1000 ''USBSTS'') ready h" for h
    by (intro settles_now) (simp add: bits)
  show ?thesis
    by (rule exE [OF reset_in_order [where hw = example_xhc and op = "0x1000" and h = "[]"]]) (use 1 2 3 4 in blast)+
qed

section \<open>What initialisation programs\<close>

definition writes :: "access list \<Rightarrow> (u64 \<times> u64) list" where
  "writes h = concat (map (\<lambda>x. case x of Wr n a v \<Rightarrow> [(a, v)] | Rd n a v \<Rightarrow> []) h)"

lemma writes_simps [simp]:
  "writes [] = []" "writes (Rd n a v # h) = writes h" "writes (Wr n a v # h) = (a, v) # writes h" "writes (h @ h') = writes h @ writes h'"
  by (simp_all add: writes_def)

lemma put_max_slots [simp]:
  "bits_of CONFIG_Bitmap ''max_device_slots_enabled'' (put_bits CONFIG_Bitmap ''max_device_slots_enabled'' v (w :: u32)) = take_bit 8 v"
  by (rule bits_of_put_bits [where lo = 0]) (simp_all add: CONFIG_Bitmap_def)

lemma put_command_ring [simp]:
  "bits_of CRCR_Bitmap ''ring_cycle_state'' (put_bits CRCR_Bitmap ''ring_cycle_state'' v (w :: u64)) = take_bit 1 v"
  "bits_of CRCR_Bitmap ''command_stop'' (put_bits CRCR_Bitmap ''command_stop'' v w) = take_bit 1 v"
  "bits_of CRCR_Bitmap ''command_abort'' (put_bits CRCR_Bitmap ''command_abort'' v w) = take_bit 1 v"
  "bits_of CRCR_Bitmap ''command_ring_pointer'' (put_bits CRCR_Bitmap ''command_ring_pointer'' v w) = take_bit 58 v"
  by (rule bits_of_put_bits [where lo = 0] bits_of_put_bits [where lo = 1] bits_of_put_bits [where lo = 2]
      bits_of_put_bits [where lo = 6]; simp add: CRCR_Bitmap_def; fail)+

lemma put_iman [simp]:
  "bits_of IMAN_Bitmap ''interrupt_pending'' (put_bits IMAN_Bitmap ''interrupt_pending'' v (w :: u32)) = take_bit 1 v"
  "bits_of IMAN_Bitmap ''interrupt_enable'' (put_bits IMAN_Bitmap ''interrupt_enable'' v w) = take_bit 1 v"
  by (rule bits_of_put_bits [where lo = 0] bits_of_put_bits [where lo = 1]; simp add: IMAN_Bitmap_def; fail)+

lemma CRCR_Pointer_SetPointer: "CRCR_Pointer (CRCR_SetPointer p v) = p AND NOT (mask 6)"
  unfolding CRCR_Pointer_def CRCR_SetPointer_def get_pointer_def set_pointer_def put_command_ring
  by (rule bit_eqI) (auto simp: bit_simps)

lemma CRCR_SetPointer_keeps: "f \<noteq> ''command_ring_pointer'' \<Longrightarrow> bits_of CRCR_Bitmap f (CRCR_SetPointer p v) = bits_of CRCR_Bitmap f v"
  by (simp add: CRCR_SetPointer_def set_pointer_def bits_of_put_bits_other)

lemma set_max_slots_writes:
  "\<exists>p v. set_max_slots hw mmio_base op h = h @ p \<and> writes p = [(op_reg op ''CONFIG'', ucast v)]
     \<and> bits_of CONFIG_Bitmap ''max_device_slots_enabled'' v = (of_nat kDeviceSize :: u32)"
proof -
  define hc where "hc = Rd 4 (cap_reg mmio_base ''HCSPARAMS1'') (hw h 4 (cap_reg mmio_base ''HCSPARAMS1''))"
  define u where "u = hw (h @ [hc]) 4 (op_reg op ''CONFIG'')"
  define v where "v = put_bits CONFIG_Bitmap ''max_device_slots_enabled'' (of_nat kDeviceSize) (ucast u :: u32)"
  have "set_max_slots hw mmio_base op h = h @ [hc, Rd 4 (op_reg op ''CONFIG'') u, Wr 4 (op_reg op ''CONFIG'') (ucast v)]"
    by (simp add: set_max_slots_def read32_def write32_def hc_def u_def v_def)
  moreover have "bits_of CONFIG_Bitmap ''max_device_slots_enabled'' v = of_nat kDeviceSize"
    unfolding v_def put_max_slots by (simp add: kDeviceSize_def take_bit_eq_mod)
  ultimately show ?thesis by (auto simp: hc_def)
qed

lemma set_command_ring_writes:
  "\<exists>p v. set_command_ring hw op r h = h @ p \<and> writes p = [(op_reg op ''CRCR'', v)]
     \<and> bits_of CRCR_Bitmap ''ring_cycle_state'' v = (if RingCycleState r then 1 else 0)
     \<and> bits_of CRCR_Bitmap ''command_stop'' v = 0 \<and> bits_of CRCR_Bitmap ''command_abort'' v = 0
     \<and> CRCR_Pointer v = ring_buf r AND NOT (mask 6)"
proof -
  define u where "u = hw h 8 (op_reg op ''CRCR'')"
  define v where "v = CRCR_SetPointer (ring_buf r) (put_bits CRCR_Bitmap ''command_abort'' 0 (put_bits CRCR_Bitmap ''command_stop'' 0
    (put_bits CRCR_Bitmap ''ring_cycle_state'' (if RingCycleState r then 1 else 0) u)))"
  have "set_command_ring hw op r h = h @ [Rd 8 (op_reg op ''CRCR'') u, Wr 8 (op_reg op ''CRCR'') v]"
    by (simp add: set_command_ring_def read64_def write64_def Let_def u_def v_def)
  moreover have "bits_of CRCR_Bitmap ''ring_cycle_state'' v = (if RingCycleState r then 1 else 0)
     \<and> bits_of CRCR_Bitmap ''command_stop'' v = 0 \<and> bits_of CRCR_Bitmap ''command_abort'' v = 0
     \<and> CRCR_Pointer v = ring_buf r AND NOT (mask 6)"
    by (simp add: v_def CRCR_SetPointer_keeps bits_of_put_bits_other CRCR_Pointer_SetPointer)
  ultimately show ?thesis by auto
qed

lemma put_event_ring [simp]:
  "bits_of ERSTSZ_Bitmap ''event_ring_segment_table_size'' (put_bits ERSTSZ_Bitmap ''event_ring_segment_table_size'' v (w :: u32)) = take_bit 16 v"
  "bits_of ERSTBA_Bitmap ''event_ring_segment_table_base_address'' (put_bits ERSTBA_Bitmap ''event_ring_segment_table_base_address'' x (y :: u64)) = take_bit 58 x"
  "bits_of ERDP_Bitmap ''event_ring_dequeue_pointer'' (put_bits ERDP_Bitmap ''event_ring_dequeue_pointer'' x y) = take_bit 60 x"
  by (rule bits_of_put_bits [where lo = 0] bits_of_put_bits [where lo = 6] bits_of_put_bits [where lo = 4];
      simp add: ERSTSZ_Bitmap_def ERSTBA_Bitmap_def ERDP_Bitmap_def; fail)+

lemma ERSTSZ_Size_SetSize: "ERSTSZ_Size (ERSTSZ_SetSize n v) = n"
  unfolding ERSTSZ_Size_def ERSTSZ_SetSize_def put_event_ring by (rule bit_eqI) (auto simp: bit_simps)

lemma ERDP_Pointer_SetPointer: "ERDP_Pointer (ERDP_SetPointer p v) = p AND NOT (mask 4)"
  unfolding ERDP_Pointer_def ERDP_SetPointer_def get_pointer_def set_pointer_def put_event_ring
  by (rule bit_eqI) (auto simp: bit_simps)

lemma ERSTBA_Pointer_SetPointer: "ERSTBA_Pointer (ERSTBA_SetPointer p v) = p AND NOT (mask 6)"
  unfolding ERSTBA_Pointer_def ERSTBA_SetPointer_def get_pointer_def set_pointer_def put_event_ring
  by (rule bit_eqI) (auto simp: bit_simps)

lemma set_event_ring_writes:
  "\<exists>p sz dp ba. set_event_ring hw i e h = (e\<lparr>ERSTSZ := sz, ERDP := dp, ERSTBA := ba\<rparr>, h @ p)
     \<and> writes p = [(interrupter_reg i ''ERSTSZ'', ucast sz), (interrupter_reg i ''ERDP'', dp), (interrupter_reg i ''ERSTBA'', ba)]
     \<and> ERSTSZ_Size sz = 1 \<and> ERDP_Pointer dp = er_buf e AND NOT (mask 4) \<and> ERSTBA_Pointer ba = er_erst e AND NOT (mask 6)"
proof -
  define s where "s = interrupter_reg i ''ERSTSZ''"
  define d where "d = interrupter_reg i ''ERDP''"
  define b where "b = interrupter_reg i ''ERSTBA''"
  define sz where "sz = ERSTSZ_SetSize 1 (ucast (hw h 4 s))"
  define u where "u = hw (h @ [Rd 4 s (hw h 4 s), Wr 4 s (ucast sz)]) 8 d"
  define dp where "dp = ERDP_SetPointer (er_buf e) u"
  define v where "v = hw (h @ [Rd 4 s (hw h 4 s), Wr 4 s (ucast sz), Rd 8 d u, Wr 8 d dp]) 8 b"
  define ba where "ba = ERSTBA_SetPointer (er_erst e) v"
  have "set_event_ring hw i e h = (e\<lparr>ERSTSZ := sz, ERDP := dp, ERSTBA := ba\<rparr>,
      h @ [Rd 4 s (hw h 4 s), Wr 4 s (ucast sz), Rd 8 d u, Wr 8 d dp, Rd 8 b v, Wr 8 b ba])"
    by (simp add: set_event_ring_def read32_def write32_def read64_def write64_def Let_def s_def [symmetric]
        d_def [symmetric] b_def [symmetric] sz_def u_def dp_def v_def ba_def)
  moreover have "ERSTSZ_Size sz = 1 \<and> ERDP_Pointer dp = er_buf e AND NOT (mask 4) \<and> ERSTBA_Pointer ba = er_erst e AND NOT (mask 6)"
    by (simp add: sz_def dp_def ba_def ERSTSZ_Size_SetSize ERDP_Pointer_SetPointer ERSTBA_Pointer_SetPointer)
  ultimately show ?thesis unfolding s_def d_def b_def by auto
qed

text \<open>The ring of \<open>Usb_Ring\<close> with the values read in its record ends with the values written here.\<close>

lemma set_event_ring_agrees:
  assumes "EventRing_Initialize n e p m = (e1, p1, m1, kSuccess)"
    and "EventRing_Initialize n (e\<lparr>ERSTSZ := sz, ERDP := dp, ERSTBA := ba\<rparr>) p m = (e2, p2, m2, err)"
  shows "e2 = e1\<lparr>ERSTSZ := ERSTSZ_SetSize 1 sz, ERDP := ERDP_SetPointer (er_buf e1) dp, ERSTBA := ERSTBA_SetPointer (er_erst e1) ba\<rparr>
    \<and> p2 = p1 \<and> m2 = m1 \<and> err = kSuccess"
  using assms
  by (auto simp: EventRing_Initialize_def WriteDequeuePointer_def Let_def ERSTSZ_SetSize_def ERDP_SetPointer_def
      ERSTBA_SetPointer_def set_pointer_def put_bits_def ERSTSZ_Bitmap_def ERDP_Bitmap_def ERSTBA_Bitmap_def
      split: prod.splits if_splits)

lemma EventRing_Initialize_fields:
  "EventRing_Initialize n e p m = (e', p', m', kSuccess) \<Longrightarrow>
     er_size e' = n \<and> er_cycle e' \<and> er_buf e' \<noteq> 0 \<and> er_erst e' \<noteq> 0 \<and> erst_base e' = er_buf e' \<and> erst_size e' = n mod 2 ^ 16"
  by (auto simp: EventRing_Initialize_def WriteDequeuePointer_def Let_def split: prod.splits if_splits)

lemma enable_interrupts_writes:
  "\<exists>p iman cmd. enable_interrupts hw op i h = h @ p
     \<and> writes p = [(interrupter_reg i ''IMAN'', ucast iman), (op_reg op ''USBCMD'', ucast cmd)]
     \<and> bits_of IMAN_Bitmap ''interrupt_pending'' iman = (1 :: u32) \<and> bits_of IMAN_Bitmap ''interrupt_enable'' iman = 1
     \<and> bits_of USBCMD_Bitmap ''interrupter_enable'' cmd = (1 :: u32)"
proof -
  define a where "a = interrupter_reg i ''IMAN''"
  define iman where "iman = put_bits IMAN_Bitmap ''interrupt_enable'' 1 (put_bits IMAN_Bitmap ''interrupt_pending'' 1 (ucast (hw h 4 a) :: u32))"
  define u where "u = hw (h @ [Rd 4 a (hw h 4 a), Wr 4 a (ucast iman)]) 4 (op_reg op ''USBCMD'')"
  define cmd where "cmd = put_bits USBCMD_Bitmap ''interrupter_enable'' 1 (ucast u :: u32)"
  have "enable_interrupts hw op i h =
      h @ [Rd 4 a (hw h 4 a), Wr 4 a (ucast iman), Rd 4 (op_reg op ''USBCMD'') u, Wr 4 (op_reg op ''USBCMD'') (ucast cmd)]"
    by (simp add: enable_interrupts_def read32_def write32_def Let_def a_def [symmetric] iman_def u_def cmd_def)
  moreover have "bits_of IMAN_Bitmap ''interrupt_pending'' iman = 1 \<and> bits_of IMAN_Bitmap ''interrupt_enable'' iman = 1
     \<and> bits_of USBCMD_Bitmap ''interrupter_enable'' cmd = 1"
    by (simp add: iman_def cmd_def bits_of_put_bits_other)
  ultimately show ?thesis by (auto simp: a_def)
qed

lemma DeviceManager_Initialize_pointers:
  "DeviceManager_Initialize n c = (c', b, kSuccess) \<Longrightarrow> device_context_pointers c' = replicate (n + 1) 0 \<and> b \<noteq> 0"
  by (auto simp: DeviceManager_Initialize_def Let_def split: prod.splits if_splits)

lemma set_scratchpads_pointers:
  assumes "set_scratchpads n b c = Some (c', m)" "device_context_pointers c = replicate k 0"
  shows "dcbaa m = b \<and> device_context_pointers c' = (replicate k 0)[0 := scratchpad_array m] \<and> length (scratchpad_pages m) = unat n"
proof -
  have len: "length (fst (scratchpads j p)) = j" for j p by (induction j p rule: scratchpads.induct) (auto split: prod.splits)
  then have "scratchpads j p = (as, q) \<Longrightarrow> length as = j" for j p as q by (metis fst_conv)
  with assms show ?thesis
    by (cases k) (auto simp: set_scratchpads_def split: if_splits prod.splits)
qed

text \<open>
  C19: the initialisation of the controller.  When it succeeds, the controller was reset first, and the
  registers written after the reset are these, in this order: the number of device slots, the address of
  the array of device contexts, the command ring with its cycle bit and neither stop nor abort; then, in the
  first interrupter, whose address comes from the offset read from \<^verbatim>\<open>RTSOFF\<close>, the event ring - one segment,
  the dequeue pointer at the ring's buffer, the segment table, whose entry is this buffer with 32 blocks -
  and the enabled interrupt; and the interrupts of the controller.  The array has the array of scratchpad
  pages in entry 0, as many pages as the controller asked for, and no device context.
\<close>

theorem initialisation_programs:
  assumes "Controller_Initialize hw mmio_base op c h = Some (c', m, h', kSuccess)"
  shows "\<exists>h0 h1 rest mem config crcr rts i sz dp ba iman cmd n. stop_and_reset hw op h0 = Some h1 \<and> h' = h1 @ rest \<and> m = Some mem
    \<and> writes rest = [(op_reg op ''CONFIG'', ucast config), (op_reg op ''DCBAAP'', DCBAAP_SetPointer (dcbaa mem) 0),
        (op_reg op ''CRCR'', crcr), (interrupter_reg i ''ERSTSZ'', ucast sz), (interrupter_reg i ''ERDP'', dp),
        (interrupter_reg i ''ERSTBA'', ba), (interrupter_reg i ''IMAN'', ucast iman), (op_reg op ''USBCMD'', ucast cmd)]
    \<and> Rd 4 (cap_reg mmio_base ''RTSOFF'') rts \<in> set rest \<and> i = mmio_base + ucast (RTSOFF_Offset (ucast rts)) + 0x20
    \<and> ERSTSZ_Size sz = 1 \<and> ERDP_Pointer dp = er_buf (evt_ring c') AND NOT (mask 4)
    \<and> ERSTBA_Pointer ba = er_erst (evt_ring c') AND NOT (mask 6)
    \<and> erst_base (evt_ring c') = er_buf (evt_ring c') \<and> erst_size (evt_ring c') = 32 \<and> er_cycle (evt_ring c')
    \<and> ERSTSZ (evt_ring c') = sz \<and> ERDP (evt_ring c') = dp \<and> ERSTBA (evt_ring c') = ba
    \<and> bits_of CONFIG_Bitmap ''max_device_slots_enabled'' config = (of_nat kDeviceSize :: u32)
    \<and> bits_of CRCR_Bitmap ''ring_cycle_state'' crcr = 1 \<and> bits_of CRCR_Bitmap ''command_stop'' crcr = 0
    \<and> bits_of CRCR_Bitmap ''command_abort'' crcr = 0 \<and> CRCR_Pointer crcr = ring_buf (cmd_ring c') AND NOT (mask 6)
    \<and> bits_of IMAN_Bitmap ''interrupt_pending'' iman = (1 :: u32) \<and> bits_of IMAN_Bitmap ''interrupt_enable'' iman = 1
    \<and> bits_of USBCMD_Bitmap ''interrupter_enable'' cmd = (1 :: u32)
    \<and> device_context_pointers c' = (replicate (kDeviceSize + 1) 0)[0 := scratchpad_array mem]
    \<and> Rd 4 (cap_reg mmio_base ''HCSPARAMS2'') n \<in> set rest \<and> length (scratchpad_pages mem) = unat (max_scratchpad_buffers (ucast n))"
proof -
  obtain c1 dcba h0 h1 where 1: "DeviceManager_Initialize kDeviceSize c = (c1, dcba, kSuccess)"
      and 2: "stop_and_reset hw op h0 = Some h1"
      and run: "program_registers hw mmio_base op dcba c1 h1 = Some (c', m, h', kSuccess)"
    using assms by (auto simp: Controller_Initialize_def bind_eq_Some_conv split: prod.splits if_splits)
  obtain p1 config where slots: "set_max_slots hw mmio_base op h1 = h1 @ p1" "writes p1 = [(op_reg op ''CONFIG'', ucast config)]"
      "bits_of CONFIG_Bitmap ''max_device_slots_enabled'' config = (of_nat kDeviceSize :: u32)"
    using set_max_slots_writes by blast
  define n where "n = hw (h1 @ p1) 4 (cap_reg mmio_base ''HCSPARAMS2'')"
  define rd where "rd = Rd 4 (cap_reg mmio_base ''HCSPARAMS2'') n"
  have sp2: "read32 hw (cap_reg mmio_base ''HCSPARAMS2'') (h1 @ p1) = (ucast n, h1 @ p1 @ [rd])"
    by (simp add: read32_def n_def rd_def)
  obtain c2 mem where sp: "set_scratchpads (max_scratchpad_buffers (ucast n)) dcba c1 = Some (c2, mem)"
    using run by (auto simp: program_registers_def slots(1) sp2 split: option.splits)
  obtain r p t err where r: "Ring_Initialize 32 (pool (usb c2)) (trbs (usb c2)) = (r, p, t, err)" by (metis prod_cases4)
  note run = run [unfolded program_registers_def slots(1) sp2 Let_def prod.case sp option.case r]
  have ok: "err = kSuccess" using run by (auto split: if_splits)
  have cycle: "RingCycleState r" using r by (auto simp: Ring_Initialize_def RingCycleState_def split: prod.splits)
  define wr where "wr = Wr 8 (op_reg op ''DCBAAP'') (DCBAAP_SetPointer dcba 0)"
  obtain p2 crcr where ring: "set_command_ring hw op r (h1 @ p1 @ [rd, wr]) = h1 @ p1 @ [rd, wr] @ p2"
      "writes p2 = [(op_reg op ''CRCR'', crcr)]" "bits_of CRCR_Bitmap ''ring_cycle_state'' crcr = 1"
      "bits_of CRCR_Bitmap ''command_stop'' crcr = 0" "bits_of CRCR_Bitmap ''command_abort'' crcr = 0"
      "CRCR_Pointer crcr = ring_buf r AND NOT (mask 6)"
    using set_command_ring_writes [of hw op r "h1 @ p1 @ [rd, wr]"] cycle by (auto simp del: writes_simps)
  define hr where "hr = h1 @ p1 @ [rd, wr] @ p2"
  define v where "v = hw hr 4 (cap_reg mmio_base ''RTSOFF'')"
  define i where "i = mmio_base + ucast (RTSOFF_Offset (ucast v)) + 0x20"
  define rv where "rv = Rd 4 (cap_reg mmio_base ''RTSOFF'') v"
  have i: "InterrupterRegisterSets hw mmio_base hr = (i, hr @ [rv])"
    by (simp add: InterrupterRegisterSets_def read32_def v_def i_def rv_def)
  obtain e p' t' err' where e: "EventRing_Initialize 32 (evt_ring c2) p t = (e, p', t', err')" by (metis prod_cases4)
  obtain p4 sz dp ba where er: "set_event_ring hw i e (hr @ [rv]) = (e\<lparr>ERSTSZ := sz, ERDP := dp, ERSTBA := ba\<rparr>, hr @ [rv] @ p4)"
      "writes p4 = [(interrupter_reg i ''ERSTSZ'', ucast sz), (interrupter_reg i ''ERDP'', dp), (interrupter_reg i ''ERSTBA'', ba)]"
      "ERSTSZ_Size sz = 1" "ERDP_Pointer dp = er_buf e AND NOT (mask 4)" "ERSTBA_Pointer ba = er_erst e AND NOT (mask 6)"
    using set_event_ring_writes [of hw i e "hr @ [rv]"] by (auto simp del: writes_simps)
  obtain p3 iman cmd where irq: "enable_interrupts hw op i (hr @ [rv] @ p4) = hr @ [rv] @ p4 @ p3"
      "writes p3 = [(interrupter_reg i ''IMAN'', ucast iman), (op_reg op ''USBCMD'', ucast cmd)]"
      "bits_of IMAN_Bitmap ''interrupt_pending'' iman = (1 :: u32)" "bits_of IMAN_Bitmap ''interrupt_enable'' iman = 1"
      "bits_of USBCMD_Bitmap ''interrupter_enable'' cmd = (1 :: u32)"
    using enable_interrupts_writes [of hw op i "hr @ [rv] @ p4"] by (auto simp del: writes_simps)
  have ring': "set_command_ring hw op r (write64 (op_reg op ''DCBAAP'') (DCBAAP_SetPointer dcba 0) (h1 @ p1 @ [rd])) = hr"
    using ring(1) by (simp add: write64_def wr_def hr_def)
  have c': "cmd_ring c' = r" "device_context_pointers c' = device_context_pointers c2"
      and m: "m = Some mem" and h': "h' = hr @ [rv] @ p4 @ p3" and ok': "err' = kSuccess"
      and ev: "evt_ring c' = e\<lparr>ERSTSZ := sz, ERDP := dp, ERSTBA := ba\<rparr>"
    using run ok irq(1) by (auto simp: ring' i e er(1) split: prod.splits if_splits)
  note fields = EventRing_Initialize_fields [OF e [unfolded ok']]
  have mem: "dcbaa mem = dcba" "device_context_pointers c2 = (replicate (kDeviceSize + 1) 0)[0 := scratchpad_array mem]"
      "length (scratchpad_pages mem) = unat (max_scratchpad_buffers (ucast n))"
    using set_scratchpads_pointers [OF sp] DeviceManager_Initialize_pointers [OF 1] by blast+
  show ?thesis
    by (rule exI [of _ h0], rule exI [of _ h1], rule exI [of _ "p1 @ [rd, wr] @ p2 @ [rv] @ p4 @ p3"], rule exI [of _ mem],
        rule exI [of _ config], rule exI [of _ crcr], rule exI [of _ v], rule exI [of _ i], rule exI [of _ sz], rule exI [of _ dp],
        rule exI [of _ ba], rule exI [of _ iman], rule exI [of _ cmd], rule exI [of _ n], intro conjI, rule 2,
        unfold h' hr_def append_assoc, rule refl, rule m)
      (use slots(2,3) ring(2-6) irq(2-5) er(2-5) fields mem in \<open>simp_all add: rd_def wr_def rv_def i_def c' ev del: replicate.simps\<close>)
qed

lemma poll_now: "stop (fst (read32 hw a h)) \<Longrightarrow> poll hw a stop h = Some (snd (read32 hw a h))"
  by (subst poll.simps) simp

lemma example_reset:
  "\<exists>h1. stop_and_reset example_xhc 0x1000 [Rd 4 0xff0 0] = Some h1"
  by (simp add: stop_and_reset_def op_reg_example read32_def write32_def poll_now example_xhc_def halted_bit reset_done_bit
      ready_bit put_bits_def USBCMD_Bitmap_def set_field_def bit_simps)

lemma example_registers: "cap_reg 0xfe0 ''HCCPARAMS1'' = 0xff0" "cap_reg 0xfe0 ''HCSPARAMS2'' = 0xfe8"
  by (simp_all add: cap_reg_def register_offsets)

lemma example_programs:
  "\<exists>c' m h'. Controller_Initialize example_xhc 0xfe0 0x1000 xhc_example [] = Some (c', m, h', kSuccess)"
proof -
  obtain h1 where h1: "stop_and_reset example_xhc 0x1000 [Rd 4 0xff0 0] = Some h1" using example_reset by blast
  have own: "RequestHCOwnership example_xhc 0xfe0 0 h = Some h" for h
    by (simp add: RequestHCOwnership_def bits_of_def HCCPARAMS1_Bitmap_def field_def)
  have scratch: "max_scratchpad_buffers 0 = 0" by (simp add: max_scratchpad_buffers_def bits_of_def HCSPARAMS2_Bitmap_def field_def)
  have hcs: "example_xhc h 4 0xff0 = 0" "example_xhc h 4 0xfe8 = 0" for h by (simp_all add: example_xhc_def)
  show ?thesis
    by (simp add: Controller_Initialize_def DeviceManager_Initialize_def AllocArray_def AllocMem_def Align_def xhc_example_def
        pool_example_def kMemoryPollSize_def kDeviceSize_def Let_def read32_def example_registers hcs own h1
        program_registers_def scratch set_scratchpads_def Ring_Initialize_def EventRing_Initialize_def alloc_trbs_def
        WriteDequeuePointer_def set_event_ring_def split: prod.splits)
qed

theorem initialisation_programs_witness:
  "\<exists>c' m h'. Controller_Initialize example_xhc 0xfe0 0x1000 xhc_example [] = Some (c', m, h', kSuccess)
     \<and> length (device_context_pointers c') = 9"
proof -
  obtain c' m h' where run: "Controller_Initialize example_xhc 0xfe0 0x1000 xhc_example [] = Some (c', m, h', kSuccess)"
    using example_programs by blast
  from initialisation_programs [OF this]
  have "\<exists>a. device_context_pointers c' = (replicate (kDeviceSize + 1) 0)[0 := a]" by blast
  then have "length (device_context_pointers c') = 9" by (auto simp: kDeviceSize_def simp del: replicate.simps)
  with run show ?thesis by blast
qed

end
