(* ===== verification/Spec2Isabelle.thy ===== *)
theory Spec2Isabelle imports Fat_File Timer_Manager Paging Mouse Console Xhci Pci Mapped_Files Event_Calls Window_Calls Shell Segment Acpi App_Loader App_Rpn App_Blocks App_Text_View Terminal_Task Xhci_Init begin

text \<open>
  A verification development of mikansaos, a small operating system for x86-64 in C++ (\<^verbatim>\<open>kernel/\<close>), with
  some of its applications (\<^verbatim>\<open>apps/\<close>).

  \<^bold>\<open>The program.\<close>  A loader hands the kernel the memory map, a frame buffer and the image of a FAT32
  volume.  The kernel is a set of tasks that send each other messages.  Task 1, the main task
  (\<^verbatim>\<open>main.cpp\<close>), takes the messages of the interrupt handlers: USB events become keys and mouse moves,
  timers become timeouts, and requests of other tasks to draw a layer are carried out and answered.  Each
  terminal is a task with a line editor and a shell; the shell runs commands and loads applications,
  which call the kernel through system calls for files, windows, events, timers and memory.

  \<^bold>\<open>Theories and code.\<close>
  \<^item> \<open>Prelude\<close>: types of machine integers, strings, facts on lists, options and words; \<open>KError\<close>:
    \<^verbatim>\<open>error.hpp\<close>; \<open>Bit_Fields\<close>: fields of words; \<open>Little_Endian\<close>: integers in byte arrays.
  \<^item> Memory and tasks: \<open>Frames\<close> (\<^verbatim>\<open>memory_manager\<close>), \<open>Messages\<close> (\<^verbatim>\<open>message.hpp\<close>, \<^verbatim>\<open>queue.hpp\<close>), \<open>Task_Manager\<close>
    (\<^verbatim>\<open>task\<close>), \<open>Timer_Manager\<close> (\<^verbatim>\<open>timer\<close>), \<open>Paging\<close> (\<^verbatim>\<open>paging\<close>), \<open>Segment\<close> (\<^verbatim>\<open>segment\<close>, \<^verbatim>\<open>interrupt\<close>), \<open>Acpi\<close>
    (\<^verbatim>\<open>acpi\<close>).
  \<^item> Files: \<open>Fat_Types\<close>, \<open>Fat_Names\<close>, \<open>Fat_Chain\<close>, \<open>Fat_Dir\<close>, \<open>Fat_File\<close> (\<^verbatim>\<open>fat\<close>); \<open>Descriptors\<close> (\<^verbatim>\<open>file\<close>, the pipes
    of \<^verbatim>\<open>terminal.cpp\<close>); \<open>Mapped_Files\<close> (files in memory, \<^verbatim>\<open>paging\<close> and \<^verbatim>\<open>syscall\<close> together).
  \<^item> Drawing: \<open>Graphics\<close>, \<open>Frame_Buffer\<close>, \<open>Font\<close>, \<open>Window\<close>, \<open>Layer\<close>, \<open>Mouse\<close>, \<open>Console\<close>, each the files of its name.
  \<^item> Devices: \<open>Pci\<close>, \<open>Usb_Memory\<close> (\<^verbatim>\<open>usb/memory\<close>, \<^verbatim>\<open>usb/arraymap.hpp\<close>), \<open>Usb_Ring\<close> (\<^verbatim>\<open>xhci/trb.hpp\<close>,
    \<^verbatim>\<open>xhci/ring\<close>), \<open>Hid\<close> (\<^verbatim>\<open>usb/classdriver\<close>, \<^verbatim>\<open>keyboard\<close>), \<open>Usb_Device\<close> (\<^verbatim>\<open>usb/device\<close>, \<^verbatim>\<open>xhci/device\<close>), \<open>Xhci\<close>
    (\<^verbatim>\<open>xhci/xhci.cpp\<close> events, \<^verbatim>\<open>port\<close>, \<^verbatim>\<open>devmgr\<close>, \<^verbatim>\<open>context.hpp\<close>), \<open>Registers\<close> (\<^verbatim>\<open>xhci/registers.hpp\<close>), \<open>Xhci_Init\<close>
    (\<^verbatim>\<open>xhci/xhci.cpp\<close> start).
  \<^item> User interface and calls: \<open>Terminal\<close>, \<open>Command_Line\<close>, \<open>Shell\<close>, \<open>App_Loader\<close>, \<open>Terminal_Task\<close> (\<^verbatim>\<open>terminal.cpp\<close>),
    \<open>Syscall\<close>, \<open>Window_Calls\<close>, \<open>Event_Calls\<close> (\<^verbatim>\<open>syscall.cpp\<close>), \<open>Main_Loop\<close> (\<^verbatim>\<open>main.cpp\<close>).
  \<^item> Applications: \<open>App_Rpn\<close>, \<open>App_Blocks\<close>, \<open>App_Text_View\<close>.

  \<^bold>\<open>Conventions.\<close>  A struct or class is a record, an enumeration a datatype, a C integer a word of its
  width or, where the code cannot overflow it, a number with the bound written out.  Operations take the
  state and return it changed.  \<open>None\<close> is undefined behaviour, a loop that does not end or a task that is
  never continued; errors that the code returns are values of \<open>error_code\<close>.  A switch of the processor
  to another task is part of the result (\<open>control\<close>), so tasks interleave at the points where the
  scheduler runs.  Objects that the code shares by pointers are in maps from addresses or identifiers
  (windows, layers, tasks, rings, descriptors).

  \<^bold>\<open>Interfaces.\<close>  \<open>fifo\<close> and \<open>bounded_fifo\<close> are provided by the ring buffer of messages and by the command
  ring; \<open>prio_queue\<close> by the timers' queue; \<open>frame_allocator\<close> by the bitmap; \<open>small_map\<close> by \<^verbatim>\<open>ArrayMap\<close>;
  \<open>byte_source\<close>, \<open>byte_sink\<close> and \<open>copying\<close> by files and pipes; \<open>pixel_canvas\<close> and \<open>console_canvas\<close> by the
  frame buffer's writers and the two writers of windows.  Every drawing function is proved once in
  \<open>pixel_canvas\<close> and used through the interpretations.

  \<^bold>\<open>What is shown.\<close>
  \<^item> Memory: initialisation marks exactly the memory in use, first fit, freeing undoes allocation; a
    write fault on a shared page gives the task its own copy.
  \<^item> Tasks: the scheduler's invariant in every reachable state, what waking, sleeping, sending and ending
    do; the timers' order, and a timer that an application sets arriving as its event.
  \<^item> Files: cluster chains, names, lookup, creation, reading, writing and deletion over the volume's image;
    the file calls together; mapped files; pipes as queues of bytes, and \<^verbatim>\<open>cat\<close> over them.
  \<^item> Drawing: the rectangle functions against a specification by pixels; what drawing a window does to every pixel,
    with transparent colours, blended and scrolled windows; the layers composed from the lowest to the topmost, so
    that a layer found by position is what the screen shows wherever it hides what is below it (\<open>solid\<close>);
    the cursor's moves; the console as a text grid, while no layer manager draws it.  A desktop is well-formed
    (\<open>gui_ok\<close>) when every layer of the stack has a window of the screen's format and the back buffer is like the screen.
  \<^item> Devices: the enumeration of PCI, the rings as queues, the port state machine as an abstract
    specification that the event handlers refine, the take-over, reset and programming of the controller
    with its command and event rings.
  \<^item> Terminal and shell: the line editor as an abstract specification, with the pixels that each key changes, which
    the task of a terminal follows for every key that the main task passes on, and what the enter key does before
    and after \<^verbatim>\<open>ExecuteLine\<close>, of which nothing is assumed; words of a command line; redirection and pipes; the
    loading of segments and the errors of the loader.
  \<^item> Applications: the calculator against the value of an expression, the game's window, the viewer's text.

  \<^bold>\<open>Bounds.\<close>  Recursion is structural or has a measure, with two exceptions.  The scan of the PCI buses
  carries fuel, one unit for each bridge on the way; 33 are enough because a table of 32 devices holds all bridges
  entered (\<open>ScanAllBus_enumerates\<close>).  Loops that the code leaves unbounded (polling, printing of a
  string, the waits for events) are partial functions with the value \<open>None\<close> if they never end, and their ending is
  proved where a property says so.

  \<^bold>\<open>Parameters.\<close>  The font data and FreeType (\<open>fonts\<close>; the built-in font has its 128 ASCII glyphs, and text printed
  to a terminal is such that no outline glyph reaches beyond the window, \<open>glyph_fits\<close>), the blending of colours, the hardware of
  the USB controller (\<open>hardware\<close>, \<open>HcEnv\<close>, \<open>UsbEnv\<close>), the configuration space, readings of counters and of
  the firmware's clock, the console for log messages, what an application does when it runs
  (\<open>app_env\<close>, \<open>shell_env\<close>), and the speed of the game's ball, computed in floating point.

  \<^bold>\<open>Where the code differs from its purpose.\<close>  Several theorems state a defect: names of error codes, long file
  names that are lost, writes beyond one cluster, waking a ready task, pages that are not freed, loops over
  bytes that begin no character, descriptors of length 0, the port that is never addressed, printing on a
  terminal without a window, the backspace that erases the prompt.

  \<^bold>\<open>Not modelled.\<close>  The order in which \<^verbatim>\<open>KernelMainNewStack\<close> starts the components and \<^verbatim>\<open>printk\<close> (the formatting of the C
  library); \<^verbatim>\<open>FillPolygon\<close>, \<^verbatim>\<open>DrawTaskBar\<close> and \<^verbatim>\<open>WinDrawLine\<close>, which compute with floating point
  numbers; the commands of the shell that only report on the hardware or call the firmware; the assembly
  (\<^verbatim>\<open>asmfunc.asm\<close>); the support code for newlib and libc++; the small applications, which only
  call the C library and system calls, \<^verbatim>\<open>cube\<close> (floating point) and \<^verbatim>\<open>gview\<close> with the third-party \<^verbatim>\<open>stb_image.h\<close>; the
  loader in C; test code, fonts and build files.
\<close>

end
